(* ===== verification/Prelude.thy ===== *)
theory Prelude
  imports Main "HOL-Library.Word"
begin

text \<open>
  What the components share: the machine-integer types of the Rust code and its saturating
  operations, the shape of a fallible method that mutates its receiver, and generic facts on
  lists. Every other theory imports this one, directly or through the ordered maps.
\<close>

unbundle bit_operations_syntax

named_theorems word_bounds
  \<open>facts that read a word operation as arithmetic on natural numbers\<close>

named_theorems btmap_simps
  \<open>what a lookup returns after each operation of an ordered map\<close>

section \<open>Machine integers\<close>

type_synonym u8 = "8 word"
type_synonym u32 = "32 word"
type_synonym u64 = "64 word"

text \<open>
  \<open>saturating_sub\<close>, \<open>saturating_add\<close> and \<open>saturating_mul\<close> of Rust's unsigned integers:
  the exact result where it fits the width, and the nearest bound where it does not.
\<close>

definition sat_sub :: "'a::len word \<Rightarrow> 'a word \<Rightarrow> 'a word" where
  "sat_sub a b = (if b \<le> a then a - b else 0)"

definition sat_add :: "'a::len word \<Rightarrow> 'a word \<Rightarrow> 'a word" where
  "sat_add a b = (if unat a + unat b < 2 ^ LENGTH('a) then a + b else - 1)"

definition sat_mul :: "'a::len word \<Rightarrow> 'a word \<Rightarrow> 'a word" where
  "sat_mul a b = (if unat a * unat b < 2 ^ LENGTH('a) then a * b else - 1)"

text \<open>For evaluation, the same tests on binary integers.\<close>

lemma sat_add_code [code]:
  "sat_add a b = (if uint a + uint b < 2 ^ LENGTH('a) then a + b else - 1)" for a b :: "'a::len word"
proof -
  have "unat a + unat b < 2 ^ LENGTH('a) \<longleftrightarrow> uint a + uint b < 2 ^ LENGTH('a)"
    unfolding uint_nat by (metis of_nat_add of_nat_less_iff of_nat_numeral of_nat_power)
  then show ?thesis by (simp add: sat_add_def)
qed

lemma sat_mul_code [code]:
  "sat_mul a b = (if uint a * uint b < 2 ^ LENGTH('a) then a * b else - 1)" for a b :: "'a::len word"
proof -
  have "unat a * unat b < 2 ^ LENGTH('a) \<longleftrightarrow> uint a * uint b < 2 ^ LENGTH('a)"
    unfolding uint_nat by (metis of_nat_less_iff of_nat_mult of_nat_numeral of_nat_power)
  then show ?thesis by (simp add: sat_mul_def)
qed

lemma unat_max_word [word_bounds]: "unat (- 1 :: 'a::len word) = 2 ^ LENGTH('a) - 1"
  by (simp add: unsigned_minus_1_eq_mask mask_eq_exp_minus_1)

lemma unat_sat_sub [word_bounds]: "unat (sat_sub a b) = unat a - unat b"
  by (auto simp: sat_sub_def unat_sub word_le_nat_alt)

lemma unat_sat_add [word_bounds]:
  "unat (sat_add a b) = min (unat a + unat b) (2 ^ LENGTH('a) - 1)" for a b :: "'a::len word"
  by (auto simp: sat_add_def unat_max_word unat_word_ariths)

lemma unat_sat_mul [word_bounds]:
  "unat (sat_mul a b) = min (unat a * unat b) (2 ^ LENGTH('a) - 1)" for a b :: "'a::len word"
  by (auto simp: sat_mul_def unat_max_word unat_word_ariths)

lemma word_le_unat [word_bounds]: "a \<le> b \<longleftrightarrow> unat a \<le> unat b" for a b :: "'a::len word"
  by (rule word_le_nat_alt)

lemma word_less_unat [word_bounds]: "a < b \<longleftrightarrow> unat a < unat b" for a b :: "'a::len word"
  by (rule word_less_nat_alt)

lemma sat_sub_self [simp]: "sat_sub a a = 0"
  by (simp add: sat_sub_def)

section \<open>Fallible methods\<close>

text \<open>
  A method \<open>fn f(&mut self, ..) -> Result<()>\<close> returns its verdict and the state it leaves
  behind, also when the verdict is an error: whatever was mutated before the early return
  stays mutated. That a refused call changes nothing is then a theorem, not a convention.
\<close>

type_synonym ('e, 's) outcome = "('e + unit) \<times> 's"

abbreviation done_with :: "'s \<Rightarrow> ('e, 's) outcome" where
  "done_with s \<equiv> (Inr (), s)"

abbreviation refused :: "'e \<Rightarrow> 's \<Rightarrow> ('e, 's) outcome" where
  "refused e s \<equiv> (Inl e, s)"

text \<open>The \<open>?\<close> operator: go on from the state left behind, or return the error with it.\<close>

definition and_then :: "('e, 's) outcome \<Rightarrow> ('s \<Rightarrow> ('e, 's) outcome) \<Rightarrow> ('e, 's) outcome" where
  "and_then r f = (case r of (Inl e, s) \<Rightarrow> (Inl e, s) | (Inr _, s) \<Rightarrow> f s)"

lemma and_then_ok [simp]: "and_then (done_with s) f = f s"
  by (simp add: and_then_def)

lemma and_then_err [simp]: "and_then (refused e s) f = refused e s"
  by (simp add: and_then_def)

text \<open>A check that mutates nothing, run in front of a mutation.\<close>

definition guarded :: "('e + 'a) \<Rightarrow> 's \<Rightarrow> ('e, 's) outcome \<Rightarrow> ('e, 's) outcome" where
  "guarded c s r = (case c of Inl e \<Rightarrow> refused e s | Inr _ \<Rightarrow> r)"

lemma guarded_simps [simp]:
  "guarded (Inl e) s r = refused e s"
  "guarded (Inr x) s r = r"
  by (simp_all add: guarded_def)

lemma guarded_ok_iff:
  "guarded c s r = done_with t \<longleftrightarrow> (\<exists>x. c = Inr x) \<and> r = done_with t"
  by (auto simp: guarded_def split: sum.splits)

lemma outcome_okI: "fst r = Inr () \<Longrightarrow> r = done_with (snd r)"
  by (cases r) simp

lemma outcome_errI: "fst r = Inl e \<Longrightarrow> r = refused e (snd r)"
  by (cases r) simp

section \<open>Lists\<close>

lemma find_Some_in: "List.find P xs = Some x \<Longrightarrow> x \<in> set xs \<and> P x"
  by (induction xs) (auto split: if_splits)

lemma find_None_iff_all: "List.find P xs = None \<longleftrightarrow> (\<forall>x \<in> set xs. \<not> P x)"
  by (auto simp: find_None_iff)

lemma strict_sorted_distinct: "sorted_wrt (<) xs \<Longrightarrow> distinct xs" for xs :: "'a::linorder list"
  by (simp add: strict_sorted_iff)

lemma sorted_wrt_less_unique:
  fixes xs ys :: "'a::linorder list"
  assumes "sorted_wrt (<) xs" and "sorted_wrt (<) ys" and "set xs = set ys"
  shows "xs = ys"
  using assms strict_sorted_equal by blast

lemma filter_sum_le: "sum_list (map f (filter P xs)) \<le> (sum_list (map f xs) :: nat)"
  by (induction xs) auto

end
