(* ===== verification/BTree_Map.thy ===== *)
theory BTree_Map
  imports Prelude
begin

text \<open>
  Rust's \<open>BTreeMap\<close> and \<open>BTreeSet\<close>: finite maps whose iteration order is the order of
  their keys. A map is the list of its entries, strictly sorted by key, as an abstract type, so
  that two maps with the same lookups are equal, as \<open>Eq\<close> on a \<open>BTreeMap\<close> has it. What
  clients rely on is the locale \<open>ordered_map\<close>; its interpretation \<open>bt\<close> discharges the laws
  for the implementation.
\<close>

section \<open>The type and its operations\<close>

typedef (overloaded) ('k::linorder, 'v) btmap =
    "{xs :: ('k \<times> 'v) list. sorted_wrt (<) (map fst xs)}"
  morphisms bt_entries BT
  by (rule exI [of _ "[]"]) simp

setup_lifting type_definition_btmap

lemma BT_entries [code abstype]: "BT (bt_entries m) = m"
  by (rule bt_entries_inverse)

fun ins_entry :: "'k::linorder \<Rightarrow> 'v \<Rightarrow> ('k \<times> 'v) list \<Rightarrow> ('k \<times> 'v) list" where
  "ins_entry k v [] = [(k, v)]"
| "ins_entry k v ((a, b) # es) =
     (if k < a then (k, v) # (a, b) # es
      else if k = a then (k, v) # es
      else (a, b) # ins_entry k v es)"

lemma keys_ins_entry: "fst ` set (ins_entry k v es) = insert k (fst ` set es)"
  by (induction k v es rule: ins_entry.induct) auto

lemma sorted_ins_entry:
  "sorted_wrt (<) (map fst es) \<Longrightarrow> sorted_wrt (<) (map fst (ins_entry k v es))"
proof (induction es)
  case (Cons e es)
  then show ?case
    using keys_ins_entry [of k v es] by (cases e) (auto simp flip: image_image)
qed simp

lemma map_of_ins_entry: "map_of (ins_entry k v es) = (map_of es)(k \<mapsto> v)"
  by (induction k v es rule: ins_entry.induct) auto

lemma sorted_filter_entries:
  "sorted_wrt (<) (map fst es) \<Longrightarrow> sorted_wrt (<) (map fst (filter P es))"
  by (induction es) auto

lemma map_of_filter_entries:
  fixes es :: "('k::linorder \<times> 'v) list"
  assumes "sorted_wrt (<) (map fst es)"
  shows "map_of (filter (\<lambda>(k, v). P k v) es) k =
    (case map_of es k of Some v \<Rightarrow> if P k v then Some v else None | None \<Rightarrow> None)"
  using assms
proof (induction es)
  case (Cons e es)
  obtain a b where e: "e = (a, b)" by (cases e)
  have "\<forall>x \<in> set es. a < fst x"
    using Cons.prems by (simp add: e)
  then have "a \<notin> fst ` set es" by (metis imageE less_irrefl)
  then have "map_of es a = None" by (simp add: map_of_eq_None_iff)
  with Cons show ?case
    by (cases "map_of es k") (auto simp: e)
qed simp

lift_definition bt_empty :: "('k::linorder, 'v) btmap" is "[]"
  by simp

lift_definition bt_get :: "('k::linorder, 'v) btmap \<Rightarrow> 'k \<Rightarrow> 'v option" is map_of .

lift_definition bt_insert :: "'k::linorder \<Rightarrow> 'v \<Rightarrow> ('k, 'v) btmap \<Rightarrow> ('k, 'v) btmap" is ins_entry
  by (rule sorted_ins_entry)

lift_definition bt_retain ::
    "('k::linorder \<Rightarrow> 'v \<Rightarrow> bool) \<Rightarrow> ('k, 'v) btmap \<Rightarrow> ('k, 'v) btmap"
  is "\<lambda>P. filter (\<lambda>(k, v). P k v)"
  by (rule sorted_filter_entries)

lift_definition bt_map :: "('v \<Rightarrow> 'w) \<Rightarrow> ('k::linorder, 'v) btmap \<Rightarrow> ('k, 'w) btmap"
  is "\<lambda>f. map (\<lambda>(k, v). (k, f v))"
  by (simp add: case_prod_beta comp_def)

definition bt_remove :: "'k::linorder \<Rightarrow> ('k, 'v) btmap \<Rightarrow> ('k, 'v) btmap" where
  "bt_remove k = bt_retain (\<lambda>a _. a \<noteq> k)"

definition bt_keys :: "('k::linorder, 'v) btmap \<Rightarrow> 'k list" where
  "bt_keys m = map fst (bt_entries m)"

definition bt_values :: "('k::linorder, 'v) btmap \<Rightarrow> 'v list" where
  "bt_values m = map snd (bt_entries m)"

definition bt_len :: "('k::linorder, 'v) btmap \<Rightarrow> nat" where
  "bt_len m = length (bt_entries m)"

definition bt_has :: "('k::linorder, 'v) btmap \<Rightarrow> 'k \<Rightarrow> bool" where
  "bt_has m k \<longleftrightarrow> bt_get m k \<noteq> None"

text \<open>\<open>collect()\<close> into a map: a later entry of the same key replaces an earlier one.\<close>

definition bt_collect :: "('k::linorder \<times> 'v) list \<Rightarrow> ('k, 'v) btmap" where
  "bt_collect es = fold (\<lambda>(k, v). bt_insert k v) es bt_empty"

text \<open>\<open>entry(k).or_default().push(v)\<close> on a map of vectors.\<close>

definition bt_push :: "'k::linorder \<Rightarrow> 'v \<Rightarrow> ('k, 'v list) btmap \<Rightarrow> ('k, 'v list) btmap" where
  "bt_push k v m = bt_insert k ((case bt_get m k of None \<Rightarrow> [] | Some vs \<Rightarrow> vs) @ [v]) m"

text \<open>The first entry, in key order, that a closure admits: \<open>iter().find(..)\<close>.\<close>

definition bt_find :: "('k::linorder \<Rightarrow> 'v \<Rightarrow> bool) \<Rightarrow> ('k, 'v) btmap \<Rightarrow> ('k \<times> 'v) option" where
  "bt_find P m = List.find (\<lambda>(k, v). P k v) (bt_entries m)"

text \<open>A \<open>BTreeSet\<close> is a map to unit, as in the standard library.\<close>

type_synonym 'k btset = "('k, unit) btmap"

abbreviation bts_insert :: "'k::linorder \<Rightarrow> 'k btset \<Rightarrow> 'k btset" where
  "bts_insert k \<equiv> bt_insert k ()"

definition bts_of :: "'k::linorder list \<Rightarrow> 'k btset" where
  "bts_of ks = bt_collect (map (\<lambda>k. (k, ())) ks)"

instantiation btmap :: (linorder, equal) equal
begin

definition equal_btmap :: "('a, 'b) btmap \<Rightarrow> ('a, 'b) btmap \<Rightarrow> bool" where
  "equal_btmap m n \<longleftrightarrow>
     list_all2 (\<lambda>(k, v) (k', v'). k \<le> k' \<and> k' \<le> k \<and> v = v') (bt_entries m) (bt_entries n)"

instance
proof
  fix m n :: "('a, 'b) btmap"
  have "(\<lambda>(k, v) (k', v'). k \<le> k' \<and> k' \<le> k \<and> v = v') = ((=) :: 'a \<times> 'b \<Rightarrow> _)"
    by (auto simp: fun_eq_iff)
  then show "equal_class.equal m n \<longleftrightarrow> m = n"
    by (simp add: equal_btmap_def list.rel_eq bt_entries_inject)
qed

end

instantiation btmap :: (linorder, type) size
begin

definition size_btmap :: "('a, 'b) btmap \<Rightarrow> nat" where
  "size_btmap = bt_len"

instance ..

end

section \<open>Lookups\<close>

lemma bt_entries_sorted [simp]: "sorted_wrt (<) (map fst (bt_entries m))"
  using bt_entries [of m] by simp

lemma bt_entries_distinct [simp]: "distinct (map fst (bt_entries m))"
  by (rule strict_sorted_distinct) simp

lemma bt_get_empty [simp, btmap_simps]: "bt_get bt_empty k = None"
  by transfer simp

lemma bt_get_insert [simp, btmap_simps]:
  "bt_get (bt_insert k v m) k' = (if k' = k then Some v else bt_get m k')"
  by transfer (simp add: map_of_ins_entry)

lemma bt_get_retain [simp, btmap_simps]:
  "bt_get (bt_retain P m) k =
     (case bt_get m k of Some v \<Rightarrow> if P k v then Some v else None | None \<Rightarrow> None)"
  by transfer (rule map_of_filter_entries)

lemma bt_get_remove [simp, btmap_simps]:
  "bt_get (bt_remove k m) k' = (if k' = k then None else bt_get m k')"
  by (auto simp: bt_remove_def split: option.splits)

lemma bt_get_map [simp, btmap_simps]: "bt_get (bt_map f m) k = map_option f (bt_get m k)"
  by transfer (simp add: map_of_map)

lemma bt_entries_iff: "(k, v) \<in> set (bt_entries m) \<longleftrightarrow> bt_get m k = Some v"
  by (simp add: bt_get.rep_eq)

lemma entries_eqI:
  fixes xs ys :: "('k::linorder \<times> 'v) list"
  assumes "sorted_wrt (<) (map fst xs)" and "sorted_wrt (<) (map fst ys)"
    and "map_of xs = map_of ys"
  shows "xs = ys"
proof -
  have restore: "zs = map (\<lambda>k. (k, the (map_of zs k))) (map fst zs)"
    if "sorted_wrt (<) (map fst zs)" for zs :: "('k \<times> 'v) list"
  proof -
    have "distinct (map fst zs)" using that by (rule strict_sorted_distinct)
    then have "map_of zs (fst e) = Some (snd e)" if "e \<in> set zs" for e
      using that by simp
    then have "map (\<lambda>e. (fst e, the (map_of zs (fst e)))) zs = zs"
      by (intro map_idI) simp
    then show ?thesis unfolding map_map comp_def by (rule sym)
  qed
  have "set (map fst xs) = set (map fst ys)"
    using arg_cong [OF assms(3), of dom] by (simp add: dom_map_of_conv_image_fst)
  then have "map fst xs = map fst ys"
    using assms(1,2) sorted_wrt_less_unique by blast
  then show ?thesis
    using restore [OF assms(1)] restore [OF assms(2)] assms(3) by metis
qed

lemma bt_ext: "(\<And>k. bt_get m k = bt_get n k) \<Longrightarrow> m = n"
  using entries_eqI [OF bt_entries_sorted bt_entries_sorted, of m n]
  by (auto simp: bt_get.rep_eq bt_entries_inject)

lemma bt_retain_empty [simp]: "bt_retain P bt_empty = bt_empty"
  by (rule bt_ext) simp

section \<open>Keys, sizes and searches\<close>

lemma set_bt_keys [simp]: "set (bt_keys m) = dom (bt_get m)"
  by (auto simp: bt_keys_def bt_get.rep_eq dom_map_of_conv_image_fst)

lemma bt_keys_sorted [simp]: "sorted_wrt (<) (bt_keys m)"
  by (simp add: bt_keys_def)

lemma bt_keys_distinct [simp]: "distinct (bt_keys m)"
  by (simp add: bt_keys_def)

lemma finite_dom_bt_get [simp]: "finite (dom (bt_get m))"
  by (metis List.finite_set set_bt_keys)

lemma bt_len_card: "bt_len m = card (dom (bt_get m))"
proof -
  have "length (bt_keys m) = card (set (bt_keys m))"
    by (rule distinct_card [symmetric]) simp
  then show ?thesis by (simp add: bt_len_def) (simp add: bt_keys_def)
qed

lemma bt_len_insert: "bt_len (bt_insert k v m) = (if bt_has m k then bt_len m else Suc (bt_len m))"
proof -
  have "dom (bt_get (bt_insert k v m)) = insert k (dom (bt_get m))" by (auto split: if_splits)
  then show ?thesis by (auto simp: bt_len_card bt_has_def card_insert_if domIff)
qed

lemma bt_len_remove: "bt_has m k \<Longrightarrow> bt_len m = Suc (bt_len (bt_remove k m))"
proof -
  assume "bt_has m k"
  moreover have "dom (bt_get (bt_remove k m)) = dom (bt_get m) - {k}" by (auto split: if_splits)
  moreover from calculation(1) have "k \<in> dom (bt_get m)" by (simp add: bt_has_def domIff)
  then have "card (dom (bt_get m)) = Suc (card (dom (bt_get m) - {k}))"
    by (intro card.remove) simp_all
  ultimately show ?thesis by (simp add: bt_len_card)
qed

lemma set_bt_values [simp]: "set (bt_values m) = ran (bt_get m)"
  by (simp add: bt_values_def bt_get.rep_eq ran_distinct)

lemma bt_values_keys: "bt_values m = map (\<lambda>k. the (bt_get m k)) (bt_keys m)"
  by (auto simp: bt_values_def bt_keys_def bt_get.rep_eq)

text \<open>A sum over the values of a map, as a sum over its keys.\<close>

lemma sum_bt_values:
  "sum_list (map f (bt_values m)) = (\<Sum>k \<in> dom (bt_get m). f (the (bt_get m k)))"
  for f :: "'v \<Rightarrow> 'n::comm_monoid_add"
  by (simp add: bt_values_keys comp_def sum_list_distinct_conv_sum_set)

definition bt_sum :: "('v \<Rightarrow> nat) \<Rightarrow> ('k::linorder, 'v) btmap \<Rightarrow> nat" where
  "bt_sum f m = (\<Sum>k \<in> dom (bt_get m). f (the (bt_get m k)))"

lemma bt_sum_empty [simp]: "bt_sum f bt_empty = 0"
  by (simp add: bt_sum_def dom_def)

lemma bt_sum_insert:
  "bt_sum f (bt_insert k v m) + (case bt_get m k of None \<Rightarrow> 0 | Some w \<Rightarrow> f w) = bt_sum f m + f v"
proof -
  let ?g = "\<lambda>n a. f (the (bt_get n a))"
  have dom: "dom (bt_get (bt_insert k v m)) = insert k (dom (bt_get m) - {k})"
    by (auto split: if_splits)
  have "bt_sum f (bt_insert k v m) = f v + sum (?g m) (dom (bt_get m) - {k})"
    unfolding bt_sum_def dom by (subst sum.insert) (auto intro!: sum.cong)
  moreover have "bt_sum f m =
      (case bt_get m k of None \<Rightarrow> 0 | Some w \<Rightarrow> f w) + sum (?g m) (dom (bt_get m) - {k})"
  proof (cases "bt_get m k")
    case None
    then have "dom (bt_get m) - {k} = dom (bt_get m)" by auto
    with None show ?thesis by (simp add: bt_sum_def)
  next
    case (Some w)
    then have "k \<in> dom (bt_get m)" by auto
    from sum.remove [OF finite_dom_bt_get this, of "?g m"] Some show ?thesis
      by (simp add: bt_sum_def)
  qed
  ultimately show ?thesis by simp
qed

lemma bt_sum_replace:
  "bt_sum f (bt_insert k v m) =
     bt_sum f m - (case bt_get m k of None \<Rightarrow> 0 | Some w \<Rightarrow> f w) + f v"
proof -
  have "(case bt_get m k of None \<Rightarrow> 0 | Some w \<Rightarrow> f w) \<le> bt_sum f m"
  proof (cases "bt_get m k")
    case (Some w)
    then have "k \<in> dom (bt_get m)" by auto
    from member_le_sum [OF this, of "\<lambda>a. f (the (bt_get m a))"] Some show ?thesis
      by (simp add: bt_sum_def)
  qed simp
  with bt_sum_insert [of f k v m] show ?thesis by linarith
qed

lemma bt_sum_map: "bt_sum f (bt_map g m) = bt_sum (\<lambda>v. f (g v)) m"
proof -
  have "dom (bt_get (bt_map g m)) = dom (bt_get m)" by (auto simp: dom_def)
  then show ?thesis unfolding bt_sum_def by (auto intro!: sum.cong)
qed

lemma bt_has_dom: "bt_has m k \<longleftrightarrow> k \<in> dom (bt_get m)"
  by (auto simp: bt_has_def)

lemma bt_has_simps [simp]:
  "\<not> bt_has bt_empty k"
  "bt_has (bt_insert a v m) k \<longleftrightarrow> k = a \<or> bt_has m k"
  "bt_has (bt_remove a m) k \<longleftrightarrow> k \<noteq> a \<and> bt_has m k"
  by (auto simp: bt_has_def)

lemma dom_bt_get_simps [simp]:
  "dom (bt_get bt_empty) = {}"
  "dom (bt_get (bt_insert a v m)) = insert a (dom (bt_get m))"
  "dom (bt_get (bt_remove a m)) = dom (bt_get m) - {a}"
  by (auto split: if_splits)

lemma bt_get_collect [btmap_simps]: "bt_get (bt_collect es) k = map_of (rev es) k"
proof -
  have "bt_get (fold (\<lambda>(k, v). bt_insert k v) es m) k =
      (case map_of (rev es) k of None \<Rightarrow> bt_get m k | Some v \<Rightarrow> Some v)" for m
    by (induction es arbitrary: m) (auto simp: map_add_def split: option.splits)
  then show ?thesis
    by (auto simp: bt_collect_def split: option.splits)
qed

lemma dom_bt_collect [simp]: "dom (bt_get (bt_collect es)) = fst ` set es"
  by (auto simp: bt_get_collect [abs_def] dom_map_of_conv_image_fst)

lemma bt_collect_distinct:
  assumes "distinct (map fst es)"
  shows "bt_get (bt_collect es) k = map_of es k"
proof (cases "map_of es k")
  case None
  then have "map_of (rev es) k = None" by (simp add: map_of_eq_None_iff)
  with None show ?thesis by (simp add: bt_get_collect)
next
  case (Some v)
  with assms show ?thesis by (simp add: bt_get_collect rev_map [symmetric])
qed

lemma bt_get_push:
  "bt_get (bt_push k v m) a =
     (if a = k then Some ((case bt_get m k of None \<Rightarrow> [] | Some vs \<Rightarrow> vs) @ [v]) else bt_get m a)"
  by (simp add: bt_push_def)

lemma get_fold_push:
  "bt_get (fold (\<lambda>x. bt_push (key x) x) xs m) k =
     (let vs = filter (\<lambda>x. key x = k) xs
      in case bt_get m k of None \<Rightarrow> if vs = [] then None else Some vs | Some ws \<Rightarrow> Some (ws @ vs))"
proof (induction xs arbitrary: m)
  case (Cons x xs)
  show ?case
    by (cases "bt_get m k") (auto simp: Cons bt_get_push Let_def)
qed (simp split: option.split)

text \<open>Elements collected under a key of their own: the last one of a key is found.\<close>

definition collect_by :: "('a \<Rightarrow> 'k::linorder) \<Rightarrow> 'a list \<Rightarrow> ('k, 'a) btmap" where
  "collect_by key xs = bt_collect (map (\<lambda>x. (key x, x)) xs)"

lemma get_collect_by_Some: "bt_get (collect_by key xs) k = Some x \<Longrightarrow> key x = k \<and> x \<in> set xs"
  by (auto simp: collect_by_def bt_get_collect rev_map dest!: map_of_SomeD)

lemma bt_collect_keyed: "bt_collect (map (\<lambda>x. (key x, f x)) xs) = bt_map f (collect_by key xs)"
proof (rule bt_ext)
  fix k
  have "map_of (map (\<lambda>x. (key x, f x)) ys) k = map_option f (map_of (map (\<lambda>x. (key x, x)) ys) k)" for ys
    by (induction ys) auto
  then show "bt_get (bt_collect (map (\<lambda>x. (key x, f x)) xs)) k = bt_get (bt_map f (collect_by key xs)) k"
    by (simp add: bt_get_collect rev_map collect_by_def)
qed

lemma collect_by_values: "collect_by key (bt_values (collect_by key xs)) = collect_by key xs"
proof (rule bt_ext)
  fix k
  let ?m = "collect_by key xs"
  have keys: "key (the (bt_get ?m a)) = a" if "a \<in> dom (bt_get ?m)" for a
    using that get_collect_by_Some by fastforce
  have vals: "map (\<lambda>x. (key x, x)) (bt_values ?m) = map (\<lambda>a. (a, the (bt_get ?m a))) (bt_keys ?m)"
    using keys by (simp add: bt_values_keys)
  have "distinct (map fst (map (\<lambda>x. (key x, x)) (bt_values ?m)))"
    unfolding vals by (simp add: comp_def)
  from bt_collect_distinct [OF this, of k]
  have "bt_get (collect_by key (bt_values ?m)) k =
      map_of (map (\<lambda>a. (a, the (bt_get ?m a))) (bt_keys ?m)) k"
    unfolding vals by (simp add: collect_by_def [of key "bt_values ?m"] vals)
  also have "\<dots> = bt_get ?m k"
    by (auto simp: map_of_map_restrict restrict_map_def domIff)
  finally show "bt_get (collect_by key (bt_values ?m)) k = bt_get ?m k" .
qed

lemma bt_has_bts_of [simp]: "bt_has (bts_of ks) k \<longleftrightarrow> k \<in> set ks"
  by (simp add: bt_has_dom bts_of_def image_image)

lemma bt_find_Some: "bt_find P m = Some (k, v) \<Longrightarrow> bt_get m k = Some v \<and> P k v"
  by (auto simp: bt_find_def bt_entries_iff dest!: find_Some_in)

lemma bt_find_None: "bt_find P m = None \<longleftrightarrow> (\<forall>k v. bt_get m k = Some v \<longrightarrow> \<not> P k v)"
  by (auto simp: bt_find_def find_None_iff_all simp flip: bt_entries_iff)

section \<open>The interface of an ordered map\<close>

text \<open>
  What a client of \<open>BTreeMap\<close> may rely on: the lookup after each mutation, and that a map is
  its lookups. The laws below (taking an entry out and putting it back restores the map, a
  \<open>retain\<close> that keeps everything changes nothing) are proved from these alone.
\<close>

locale ordered_map =
  fixes get :: "'m \<Rightarrow> 'k \<Rightarrow> 'v option"
    and insert_at :: "'k \<Rightarrow> 'v \<Rightarrow> 'm \<Rightarrow> 'm"
    and remove_at :: "'k \<Rightarrow> 'm \<Rightarrow> 'm"
    and retain :: "('k \<Rightarrow> 'v \<Rightarrow> bool) \<Rightarrow> 'm \<Rightarrow> 'm"
  assumes get_insert: "get (insert_at k v m) = (get m)(k \<mapsto> v)"
    and get_remove: "get (remove_at k m) = (get m)(k := None)"
    and get_retain: "get (retain P m) k =
      (case get m k of Some v \<Rightarrow> if P k v then Some v else None | None \<Rightarrow> None)"
    and get_ext: "get m = get n \<Longrightarrow> m = n"
begin

lemma put_back: "get m k = Some v \<Longrightarrow> insert_at k v (remove_at k m) = m"
  by (rule get_ext) (auto simp: get_insert get_remove)

lemma insert_same: "get m k = Some v \<Longrightarrow> insert_at k v m = m"
  by (rule get_ext) (auto simp: get_insert)

lemma remove_absent: "get m k = None \<Longrightarrow> remove_at k m = m"
  by (rule get_ext) (auto simp: get_remove)

lemma insert_removed: "insert_at k v (remove_at k m) = insert_at k v m"
  by (rule get_ext) (auto simp: get_insert get_remove)

lemma insert_twice: "insert_at k v (insert_at k w m) = insert_at k v m"
  by (rule get_ext) (auto simp: get_insert)

lemma retain_all:
  assumes "\<And>k v. get m k = Some v \<Longrightarrow> P k v"
  shows "retain P m = m"
  using assms by (intro get_ext ext) (auto simp: get_retain split: option.splits)

lemma retain_retain: "retain P (retain Q m) = retain (\<lambda>k v. P k v \<and> Q k v) m"
  by (intro get_ext ext) (auto simp: get_retain split: option.splits)

lemma retain_dom: "dom (get (retain P m)) \<subseteq> dom (get m)"
  by (auto simp: get_retain split: option.splits if_splits)

end

interpretation bt: ordered_map bt_get bt_insert bt_remove bt_retain
proof
  fix m n :: "('a, 'b) btmap"
  assume "bt_get m = bt_get n"
  then show "m = n" by (intro bt_ext) simp
qed (auto simp: fun_eq_iff)

end
