(* ===== verification/Ids.thy ===== *)
theory Ids
  imports BTree_Map "HOL-Library.Multiset"
begin

text \<open>
  The identifiers of \<open>crates/distlib-core/src/id.rs\<close> and the addresses of
  \<open>addr.rs\<close>. An identifier is 32 bytes; its derived order compares the bytes
  lexicographically, which is the order of the 256-bit number they spell big-endian. BLAKE3 is
  not part of the repository: it is the argument \<open>hash\<close> of the definitions that use it.
\<close>

section \<open>Identifiers\<close>

datatype member_id = MemberId (member_bytes: "256 word")
datatype group_id = GroupId (group_bytes: "256 word")
datatype item_id = ItemId (item_bytes: "256 word")
datatype content_hash = ContentHash (hash_bytes: "256 word")

instantiation member_id :: linorder
begin

definition less_eq_member_id :: "member_id \<Rightarrow> member_id \<Rightarrow> bool" where
  "less_eq_member_id a b \<longleftrightarrow> member_bytes a \<le> member_bytes b"

definition less_member_id :: "member_id \<Rightarrow> member_id \<Rightarrow> bool" where
  "less_member_id a b \<longleftrightarrow> member_bytes a < member_bytes b"

instance
  by standard (auto simp: less_eq_member_id_def less_member_id_def member_id.expand)

end

instantiation item_id :: linorder
begin

definition less_eq_item_id :: "item_id \<Rightarrow> item_id \<Rightarrow> bool" where
  "less_eq_item_id a b \<longleftrightarrow> item_bytes a \<le> item_bytes b"

definition less_item_id :: "item_id \<Rightarrow> item_id \<Rightarrow> bool" where
  "less_item_id a b \<longleftrightarrow> item_bytes a < item_bytes b"

instance
  by standard (auto simp: less_eq_item_id_def less_item_id_def item_id.expand)

end

instantiation content_hash :: linorder
begin

definition less_eq_content_hash :: "content_hash \<Rightarrow> content_hash \<Rightarrow> bool" where
  "less_eq_content_hash a b \<longleftrightarrow> hash_bytes a \<le> hash_bytes b"

definition less_content_hash :: "content_hash \<Rightarrow> content_hash \<Rightarrow> bool" where
  "less_content_hash a b \<longleftrightarrow> hash_bytes a < hash_bytes b"

instance
  by standard (auto simp: less_eq_content_hash_def less_content_hash_def content_hash.expand)

end

section \<open>Bytes\<close>

definition le_bytes :: "nat \<Rightarrow> 'a::len word \<Rightarrow> u8 list" where
  "le_bytes n w = map (\<lambda>i. ucast (drop_bit (8 * i) w)) [0..<n]"

definition be_bytes :: "nat \<Rightarrow> 'a::len word \<Rightarrow> u8 list" where
  "be_bytes n w = rev (le_bytes n w)"

definition ascii :: "string \<Rightarrow> u8 list" where
  "ascii = map of_char"

lemma length_le_bytes [simp]: "length (le_bytes n w) = n"
  by (simp add: le_bytes_def)

lemma length_be_bytes [simp]: "length (be_bytes n w) = n"
  by (simp add: be_bytes_def)

lemma bit_le_bytes:
  assumes "k < 8 * n"
  shows "bit (le_bytes n w ! (k div 8)) (k mod 8) = bit w k"
proof -
  have "k div 8 < n" using assms by (simp add: div_less_iff_less_mult mult.commute)
  then show ?thesis
    by (simp add: le_bytes_def bit_ucast_iff bit_drop_bit_eq)
qed

lemma le_bytes_inject:
  fixes v w :: "'a::len word"
  assumes "LENGTH('a) \<le> 8 * n"
  shows "le_bytes n v = le_bytes n w \<longleftrightarrow> v = w"
proof
  assume eq: "le_bytes n v = le_bytes n w"
  show "v = w"
  proof (rule bit_word_eqI)
    fix k assume "k < LENGTH('a)"
    with assms have "k < 8 * n" by simp
    then show "bit v k = bit w k"
      using bit_le_bytes [of k n v] bit_le_bytes [of k n w] eq by simp
  qed
qed simp

lemma be_bytes_inject:
  fixes v w :: "'a::len word"
  assumes "LENGTH('a) \<le> 8 * n"
  shows "be_bytes n v = be_bytes n w \<longleftrightarrow> v = w"
  using le_bytes_inject [OF assms] by (simp add: be_bytes_def)

text \<open>Blocks of one length can be told apart in their concatenation.\<close>

lemma concat_blocks_inject:
  assumes "\<forall>x \<in> set xs. length (f x) = n" and "\<forall>y \<in> set ys. length (f y) = n"
    and "0 < n" and "inj_on f (set xs \<union> set ys)"
    and "concat (map f xs) = concat (map f ys)"
  shows "xs = ys"
  using assms
proof (induction xs arbitrary: ys)
  case Nil
  then show ?case by (cases ys) auto
next
  case (Cons x xs)
  obtain y ys' where ys: "ys = y # ys'"
    using Cons.prems by (cases ys) auto
  have "f x @ concat (map f xs) = f y @ concat (map f ys')" and "length (f x) = length (f y)"
    using Cons.prems(1,2,5) by (simp_all add: ys)
  then have "f x = f y" and rest: "concat (map f xs) = concat (map f ys')"
    by (simp_all add: append_eq_append_conv)
  then have "x = y"
    using Cons.prems(4) by (simp add: ys inj_on_eq_iff)
  moreover have "xs = ys'"
  proof (rule Cons.IH [OF _ _ Cons.prems(3) _ rest])
    show "inj_on f (set xs \<union> set ys')"
      using Cons.prems(4) by (rule inj_on_subset) (auto simp: ys)
  qed (use Cons.prems(1,2) in \<open>simp_all add: ys\<close>)
  ultimately show ?case by (simp add: ys)
qed

section \<open>Item fingerprints\<close>

definition item_fingerprint_tag :: "u8 list" where
  "item_fingerprint_tag = ascii ''distlib.item.v1''"

text \<open>The bytes \<open>from_content_hashes\<close> feeds the hasher, in order.\<close>

definition item_preimage :: "256 word list \<Rightarrow> u8 list" where
  "item_preimage hashes =
     (let sorted_hashes = sort hashes
      in item_fingerprint_tag
         @ le_bytes 8 (of_nat (length sorted_hashes) :: u64)
         @ concat (map (be_bytes 32) sorted_hashes))"

definition from_content_hashes :: "(u8 list \<Rightarrow> 256 word) \<Rightarrow> 256 word list \<Rightarrow> item_id" where
  "from_content_hashes hash hashes = ItemId (hash (item_preimage hashes))"

lemma sort_eq_iff_mset: "sort xs = sort ys \<longleftrightarrow> mset xs = mset ys" for xs ys :: "'a::linorder list"
  by (metis mset_sort properties_for_sort sorted_sort)

lemma sort_eq_iff_set:
  "distinct xs \<Longrightarrow> distinct ys \<Longrightarrow> sort xs = sort ys \<longleftrightarrow> set xs = set ys"
  for xs ys :: "'a::linorder list"
  by (simp add: sort_eq_iff_mset set_eq_iff_mset_eq_distinct)

lemma concat_ids_inject:
  "concat (map (be_bytes 32) xs) = concat (map (be_bytes 32) ys) \<longleftrightarrow> xs = ys"
  for xs ys :: "256 word list"
  using concat_blocks_inject [of xs "be_bytes 32" 32 ys]
  by (auto simp: inj_on_def be_bytes_inject)

lemma item_preimage_eq_iff:
  "item_preimage xs = item_preimage ys \<longleftrightarrow> mset xs = mset ys"
proof
  assume "item_preimage xs = item_preimage ys"
  then have "concat (map (be_bytes 32) (sort xs)) = concat (map (be_bytes 32) (sort ys))"
    by (simp add: item_preimage_def Let_def append_eq_append_conv)
  then show "mset xs = mset ys"
    by (simp add: concat_ids_inject sort_eq_iff_mset)
next
  assume "mset xs = mset ys"
  then have "sort xs = sort ys" by (simp add: sort_eq_iff_mset)
  then show "item_preimage xs = item_preimage ys"
    by (simp only: item_preimage_def)
qed

section \<open>Addresses\<close>

datatype socket_addr =
    SocketV4 "32 word" "16 word"
  | SocketV6 "128 word" "16 word" u32 u32

text \<open>\<open>direct\<close> is a \<open>BTreeSet\<close> that is only stored and compared, so a plain set.\<close>

record node_addr =
  relay :: "string option"
  direct :: "socket_addr set"

definition lookup_only :: node_addr where
  "lookup_only = \<lparr>relay = None, direct = {}\<rparr>"

definition with_relay :: "node_addr \<Rightarrow> string \<Rightarrow> node_addr" where
  "with_relay a url = a\<lparr>relay := Some url\<rparr>"

definition with_direct :: "node_addr \<Rightarrow> socket_addr \<Rightarrow> node_addr" where
  "with_direct a s = a\<lparr>direct := insert s (direct a)\<rparr>"

definition addr_is_empty :: "node_addr \<Rightarrow> bool" where
  "addr_is_empty a \<longleftrightarrow> relay a = None \<and> direct a = {}"

end
