(* ===== verification/Group_Settings.thy ===== *)
theory Group_Settings
  imports Prelude
begin

text \<open>
  What a group decides at founding: \<open>crates/distlib-core/src/group_settings.rs\<close> and the
  weight rule of \<open>custody.rs\<close>. The \<open>NonZero\<close> types of the source are words here, with
  \<open>settings_nonzero\<close> stating what those types guarantee.
\<close>

definition GB :: u64 where
  "GB = 1000000000"

definition HOUR :: u32 where
  "HOUR = 60 * 60"

definition DAY :: u32 where
  "DAY = 24 * HOUR"

definition FAR_UNDER_FACTOR :: u64 where
  "FAR_UNDER_FACTOR = 2"

record group_settings =
  replicas :: u8
  cap_bytes :: u64
  weight_step_bytes :: u64
  min_pledge_bytes :: u64
  pending_expiry :: u64
  settle_secs :: u32
  max_settle_secs :: u32
  emergency_after_secs :: u32
  min_transfer_rate :: u64
  probes :: bool
  probe_every_secs :: u32
  failure_window_secs :: u32

definition default_settings :: group_settings where
  "default_settings =
     \<lparr>replicas = 3,
      cap_bytes = 2000 * GB,
      weight_step_bytes = 10 * GB,
      min_pledge_bytes = 100 * GB,
      pending_expiry = 128,
      settle_secs = HOUR,
      max_settle_secs = DAY,
      emergency_after_secs = DAY,
      min_transfer_rate = 1000000,
      probes = True,
      probe_every_secs = 5 * 60,
      failure_window_secs = 7 * DAY\<rparr>"

definition settings_nonzero :: "group_settings \<Rightarrow> bool" where
  "settings_nonzero s \<longleftrightarrow>
     replicas s \<noteq> 0 \<and> weight_step_bytes s \<noteq> 0 \<and> pending_expiry s \<noteq> 0 \<and> probe_every_secs s \<noteq> 0"

section \<open>Weights\<close>

record weight_rule =
  rule_cap :: u64
  rule_step :: u64
  rule_min :: u64

text \<open>\<open>WeightRule::weight\<close>: capped, rounded down to a step, nothing below the minimum.\<close>

definition weight :: "weight_rule \<Rightarrow> u64 \<Rightarrow> u64" where
  "weight r pledge =
     (if pledge < rule_min r then 0
      else let capped = min pledge (rule_cap r)
           in if rule_step r = 0 then capped else capped - capped mod rule_step r)"

definition weight_rule_of :: "group_settings \<Rightarrow> weight_rule" where
  "weight_rule_of s =
     \<lparr>rule_cap = cap_bytes s, rule_step = weight_step_bytes s, rule_min = min_pledge_bytes s\<rparr>"

section \<open>Limits and pledges\<close>

definition at_least_the_minimum :: "group_settings \<Rightarrow> u64 \<Rightarrow> u64" where
  "at_least_the_minimum s limit =
     max limit (if min_transfer_rate s = 0 then 1 else min_transfer_rate s)"

definition required_pledge :: "group_settings \<Rightarrow> u64 \<Rightarrow> u64" where
  "required_pledge s added =
     max (sat_mul added (ucast (replicas s) - 1)) (min_pledge_bytes s)"

datatype settings_error = StepAboveCap | SettleTooLong

definition settings_check :: "group_settings \<Rightarrow> settings_error + unit" where
  "settings_check s =
     (if weight_step_bytes s > cap_bytes s then Inl StepAboveCap
      else if settle_secs s > max_settle_secs s then Inl SettleTooLong
      else Inr ())"

datatype pledge_standing = Enough | Under | FarUnder

definition standing_of :: "u64 \<Rightarrow> u64 \<Rightarrow> pledge_standing" where
  "standing_of pledge required =
     (if required > sat_mul pledge FAR_UNDER_FACTOR then FarUnder
      else if required > pledge then Under
      else Enough)"

section \<open>What the rules give\<close>

text \<open>The weight, as arithmetic on natural numbers.\<close>

definition round_down :: "nat \<Rightarrow> nat \<Rightarrow> nat" where
  "round_down n a = (if n = 0 then a else a - a mod n)"

lemma round_down_le: "round_down n a \<le> a"
  by (simp add: round_down_def)

lemma round_down_mono: "a \<le> b \<Longrightarrow> round_down n a \<le> round_down n b"
  by (simp add: round_down_def minus_mod_eq_mult_div div_le_mono)

lemma round_down_pos_iff: "0 < n \<Longrightarrow> 0 < round_down n a \<longleftrightarrow> n \<le> a"
  by (simp add: round_down_def minus_mod_eq_mult_div div_greater_zero_iff del: diff_is_0_eq)

lemma unat_weight:
  "unat (weight r p) =
     (if unat p < unat (rule_min r) then 0
      else round_down (unat (rule_step r)) (min (unat p) (unat (rule_cap r))))"
proof -
  have "unat (min p (rule_cap r)) = min (unat p) (unat (rule_cap r))"
    by (simp add: min_def word_le_nat_alt)
  moreover have "unat (x - x mod y) = unat x - unat x mod unat y" for x y :: u64
    by (subst unat_sub) (simp_all add: word_le_nat_alt unat_mod_distrib)
  ultimately show ?thesis
    by (auto simp: weight_def Let_def word_less_nat_alt unat_eq_zero round_down_def)
qed

lemma weight_le_pledge: "weight r p \<le> p"
  unfolding word_le_nat_alt unat_weight
  using round_down_le [of "unat (rule_step r)" "min (unat p) (unat (rule_cap r))"] by auto

lemma weight_le_cap: "weight r p \<le> rule_cap r"
  unfolding word_le_nat_alt unat_weight
  using round_down_le [of "unat (rule_step r)" "min (unat p) (unat (rule_cap r))"] by auto

lemma weight_mono: "p \<le> q \<Longrightarrow> weight r p \<le> weight r q"
  unfolding word_le_nat_alt unat_weight by (auto intro: round_down_mono)

lemma weight_pos_iff:
  assumes "rule_step r \<noteq> 0" and "rule_step r \<le> rule_cap r"
  shows "weight r p > 0 \<longleftrightarrow> rule_min r \<le> p \<and> rule_step r \<le> p"
proof -
  have "0 < unat (rule_step r)"
    using assms(1) by (simp add: unat_gt_0)
  with assms(2) show ?thesis
    by (auto simp: word_less_nat_alt word_le_nat_alt unat_weight round_down_pos_iff)
qed

lemma unat_required_pledge:
  assumes "replicas s \<noteq> 0"
  shows "unat (required_pledge s added) =
    max (min (unat added * (unat (replicas s) - 1)) (2 ^ 64 - 1)) (unat (min_pledge_bytes s))"
proof -
  have "unat (ucast (replicas s) - 1 :: u64) = unat (replicas s) - 1"
  proof -
    have "unat (replicas s) < 2 ^ LENGTH(8)" by (rule unsigned_less)
    then have "unat (ucast (replicas s) :: u64) = unat (replicas s)"
      by (simp add: unsigned_ucast_eq take_bit_nat_eq_self)
    moreover have "(1 :: u64) \<le> ucast (replicas s)"
      using assms calculation by (simp add: word_le_nat_alt) (metis One_nat_def Suc_leI unat_gt_0)
    ultimately show ?thesis by (simp add: unat_sub)
  qed
  then show ?thesis
    by (simp add: required_pledge_def max_def word_le_nat_alt unat_sat_mul)
qed

text \<open>
  How the three standings divide the line, read without wrap-around: far under from more than
  twice the pledge on, unless the doubled pledge is past what a \<open>u64\<close> holds.
\<close>

lemma standing_of_cases:
  "standing_of p r =
     (if unat r > 2 * unat p then FarUnder else if unat r > unat p then Under else Enough)"
proof -
  have "unat r < 2 ^ 64" using unsigned_less [of r] by simp
  then show ?thesis
    by (auto simp: standing_of_def FAR_UNDER_FACTOR_def word_less_nat_alt unat_sat_mul)
qed

text \<open>
  The pledge a member owes is the other copies of what it added, saturating at the largest
  \<open>u64\<close>, and a member pledging at least what it owes stands at \<open>Enough\<close>; one pledging less
  never does.
\<close>

theorem pledge_standing_of_requirement:
  assumes "replicas s \<noteq> 0"
  shows "standing_of p (required_pledge s added) = Enough \<longleftrightarrow>
    min (unat added * (unat (replicas s) - 1)) (2 ^ 64 - 1) \<le> unat p \<and> min_pledge_bytes s \<le> p"
  using assms by (auto simp: standing_of_cases unat_required_pledge word_le_nat_alt)

theorem pledge_standing_of_requirement_witness:
  "standing_of 120 (required_pledge (default_settings\<lparr>min_pledge_bytes := 100\<rparr>) 60) = Enough"
proof -
  let ?s = "default_settings\<lparr>min_pledge_bytes := 100\<rparr>"
  have "replicas ?s \<noteq> 0" by (simp add: default_settings_def)
  moreover have "min (unat (60::u64) * (unat (replicas ?s) - 1)) (2 ^ 64 - 1) \<le> unat (120::u64)"
    by (simp add: default_settings_def)
  moreover have "min_pledge_bytes ?s \<le> 120" by code_simp
  ultimately show ?thesis using pledge_standing_of_requirement [of ?s 120 60] by blast
qed

end
