(* ===== verification/Membership_Event.thy ===== *)
theory Membership_Event
  imports Ids Group_Settings
begin

text \<open>
  The vocabulary of the membership log: the events and their limits
  (\<open>crates/distlib-consensus/src/event.rs\<close>), the errors (\<open>error.rs\<close>) and the signing
  envelope (\<open>signed.rs\<close>). Text is the list of its UTF-8 bytes, which is what \<open>len()\<close> counts.
  ed25519 and postcard are not part of the repository: they are the fields of a record
  \<open>crypto\<close> that the definitions take as an argument.
\<close>

section \<open>Errors\<close>

datatype consensus_error =
    BadSignature member_id
  | NotFounded
  | AlreadyFounded
  | FounderNotIncluded member_id
  | NoFounders
  | DuplicateFounder member_id
  | ProposerNotAMember member_id
  | UnknownMember member_id
  | InvalidCoreGroup
  | PledgeNotOwn member_id member_id
  | PledgeBelowMinimum u64 u64
  | NotCoreMember member_id
  | AlreadyPending u64
  | UnknownProposal u64
  | ProposalExpired u64 u64
  | ApproverNotCore member_id
  | SelfApproval member_id
  | NotTheProposer member_id u64
  | NotAMembershipChange
  | StaleProposal u64 u64
  | TooLong string nat nat
  | Encode string
  | InvalidSettings settings_error
  | ProtocolSupportNotOwn member_id member_id
  | ProtocolSupportBelowGroup u32 u32
  | ProtocolNotNext u32 u32
  | CoreLacksProtocol member_id u32

section \<open>Events\<close>

record member_profile =
  profile_id :: member_id
  profile_name :: string

datatype membership_event =
    GroupFounded group_id "(member_profile \<times> node_addr) list" group_settings
  | MemberAdded member_profile
  | MemberExpelled member_id string
  | PledgeChanged member_id u64
  | CoreGroupChanged "(member_id \<times> node_addr) list"
  | Approved u64
  | Withdrawn u64
  | ProtocolSupported member_id u32
  | ProtocolRaised u32

definition MAX_DISPLAY_NAME :: nat where
  "MAX_DISPLAY_NAME = 64"

definition MAX_REASON :: nat where
  "MAX_REASON = 512"

definition within :: "string \<Rightarrow> string \<Rightarrow> nat \<Rightarrow> consensus_error + unit" where
  "within field txt limit =
     (if length txt > limit then Inl (TooLong field (length txt) limit) else Inr ())"

text \<open>\<open>try_for_each\<close>: the first error, or none.\<close>

fun try_for_each :: "('a \<Rightarrow> 'e + unit) \<Rightarrow> 'a list \<Rightarrow> 'e + unit" where
  "try_for_each f [] = Inr ()"
| "try_for_each f (x # xs) = (case f x of Inl e \<Rightarrow> Inl e | Inr _ \<Rightarrow> try_for_each f xs)"

fun within_limits :: "membership_event \<Rightarrow> consensus_error + unit" where
  "within_limits (GroupFounded _ founders _) =
     try_for_each (\<lambda>(m, _). within ''display_name'' (profile_name m) MAX_DISPLAY_NAME) founders"
| "within_limits (MemberAdded m) = within ''display_name'' (profile_name m) MAX_DISPLAY_NAME"
| "within_limits (MemberExpelled _ reason) = within ''reason'' reason MAX_REASON"
| "within_limits (PledgeChanged _ _) = Inr ()"
| "within_limits (CoreGroupChanged _) = Inr ()"
| "within_limits (Approved _) = Inr ()"
| "within_limits (Withdrawn _) = Inr ()"
| "within_limits (ProtocolSupported _ _) = Inr ()"
| "within_limits (ProtocolRaised _) = Inr ()"

lemma within_ok_iff: "within f t n = Inr () \<longleftrightarrow> length t \<le> n"
  by (auto simp: within_def)

lemma try_for_each_ok_iff: "try_for_each f xs = Inr () \<longleftrightarrow> (\<forall>x \<in> set xs. f x = Inr ())"
  by (induction xs) (auto split: sum.splits)

section \<open>Founding\<close>

definition check_settings :: "group_settings \<Rightarrow> consensus_error + unit" where
  "check_settings s = (case settings_check s of Inl e \<Rightarrow> Inl (InvalidSettings e) | Inr u \<Rightarrow> Inr u)"

text \<open>\<open>windows(2).find(|pair| pair[0] == pair[1])\<close>, and its first element.\<close>

fun adjacent_pair :: "'a list \<Rightarrow> 'a option" where
  "adjacent_pair (x # y # zs) = (if x = y then Some x else adjacent_pair (y # zs))"
| "adjacent_pair _ = None"

definition checked_ids :: "(member_profile \<times> node_addr) list \<Rightarrow> consensus_error + member_id list" where
  "checked_ids founders =
     (if founders = [] then Inl NoFounders
      else let ids = sort (map (\<lambda>(profile, _). profile_id profile) founders)
           in case adjacent_pair ids of
                Some m \<Rightarrow> Inl (DuplicateFounder m)
              | None \<Rightarrow> Inr ids)"

definition check_founders :: "(member_profile \<times> node_addr) list \<Rightarrow> consensus_error + unit" where
  "check_founders founders = (case checked_ids founders of Inl e \<Rightarrow> Inl e | Inr _ \<Rightarrow> Inr ())"

definition group_id_tag :: "u8 list" where
  "group_id_tag = ascii ''distlib.group.v1''"

definition group_preimage :: "member_id list \<Rightarrow> u64 \<Rightarrow> u8 list" where
  "group_preimage ids at =
     group_id_tag
     @ le_bytes 8 (of_nat (length ids) :: u64)
     @ concat (map (\<lambda>i. be_bytes 32 (member_bytes i)) ids)
     @ le_bytes 8 at"

definition found_event ::
    "(u8 list \<Rightarrow> 256 word) \<Rightarrow> (member_profile \<times> node_addr) list \<Rightarrow> group_settings \<Rightarrow> u64
      \<Rightarrow> consensus_error + membership_event" where
  "found_event hash founders s at =
     (case checked_ids founders of
        Inl e \<Rightarrow> Inl e
      | Inr ids \<Rightarrow>
          (case check_settings s of
             Inl e \<Rightarrow> Inl e
           | Inr _ \<Rightarrow> Inr (GroupFounded (GroupId (hash (group_preimage ids at))) founders s)))"

lemma adjacent_pair_None_iff: "sorted xs \<Longrightarrow> adjacent_pair xs = None \<longleftrightarrow> distinct xs"
  for xs :: "'a::linorder list"
  by (induction xs rule: adjacent_pair.induct) auto

abbreviation founder_ids :: "(member_profile \<times> node_addr) list \<Rightarrow> member_id list" where
  "founder_ids founders \<equiv> map (\<lambda>(profile, _). profile_id profile) founders"

lemma checked_ids_ok_iff:
  "checked_ids founders = Inr ids \<longleftrightarrow>
     founders \<noteq> [] \<and> distinct (founder_ids founders) \<and> ids = sort (founder_ids founders)"
  using adjacent_pair_None_iff [of "sort (founder_ids founders)"]
  by (auto simp: checked_ids_def Let_def split: option.splits)

lemma check_founders_ok_iff:
  "check_founders founders = Inr () \<longleftrightarrow> founders \<noteq> [] \<and> distinct (founder_ids founders)"
proof (cases "checked_ids founders")
  case (Inl e)
  then show ?thesis
    using checked_ids_ok_iff [of founders "sort (founder_ids founders)"]
    by (simp add: check_founders_def)
next
  case (Inr ids)
  then show ?thesis
    using checked_ids_ok_iff [of founders ids] by (simp add: check_founders_def)
qed

lemma group_preimage_inject:
  "group_preimage xs a = group_preimage ys b \<longleftrightarrow> xs = ys \<and> a = b"
proof
  let ?block = "\<lambda>i. be_bytes 32 (member_bytes i)"
  assume eq: "group_preimage xs a = group_preimage ys b"
  then have "le_bytes 8 (of_nat (length xs) :: u64) @ (concat (map ?block xs) @ le_bytes 8 a) =
      le_bytes 8 (of_nat (length ys) :: u64) @ (concat (map ?block ys) @ le_bytes 8 b)"
    by (simp only: group_preimage_def same_append_eq)
  then have "concat (map ?block xs) @ le_bytes 8 a = concat (map ?block ys) @ le_bytes 8 b"
    by (subst (asm) append_eq_append_conv) simp_all
  then have "concat (map ?block xs) = concat (map ?block ys) \<and> le_bytes 8 a = le_bytes 8 b"
    by (subst (asm) append_eq_append_conv) simp_all
  then show "xs = ys \<and> a = b"
    using concat_blocks_inject [of xs ?block 32 ys]
    by (auto simp: le_bytes_inject be_bytes_inject inj_on_def intro: member_id.expand)
qed simp

section \<open>Signed entries\<close>

record ('sk, 'sig) crypto =
  public_of :: "'sk \<Rightarrow> member_id"
  sign_with :: "'sk \<Rightarrow> u8 list \<Rightarrow> 'sig"
  verifies :: "member_id \<Rightarrow> u8 list \<Rightarrow> 'sig \<Rightarrow> bool"
  encode_entry :: "membership_event \<times> member_id \<times> u64 \<times> u64 \<Rightarrow> string + u8 list"

text \<open>
  What the code relies on: a signature made with a secret key verifies under its public key.
\<close>

definition signature_scheme :: "('sk, 'sig) crypto \<Rightarrow> bool" where
  "signature_scheme cr \<longleftrightarrow> (\<forall>sk payload. verifies cr (public_of cr sk) payload (sign_with cr sk payload))"

record 'sig signed_event =
  se_event :: membership_event
  se_proposer :: member_id
  se_at :: u64
  se_changed_at :: u64
  se_signature :: 'sig

definition signing_domain :: "u8 list" where
  "signing_domain = ascii ''distlib.membership.v2''"

definition signing_payload ::
    "('sk, 'sig) crypto \<Rightarrow> membership_event \<Rightarrow> member_id \<Rightarrow> u64 \<Rightarrow> u64
      \<Rightarrow> consensus_error + u8 list" where
  "signing_payload cr event proposer at changed_at =
     (case encode_entry cr (event, proposer, at, changed_at) of
        Inl message \<Rightarrow> Inl (Encode message)
      | Inr bytes \<Rightarrow> Inr (signing_domain @ bytes))"

definition sign_event ::
    "('sk, 'sig) crypto \<Rightarrow> 'sk \<Rightarrow> membership_event \<Rightarrow> u64 \<Rightarrow> u64
      \<Rightarrow> consensus_error + 'sig signed_event" where
  "sign_event cr sk event at changed_at =
     (let proposer = public_of cr sk
      in case signing_payload cr event proposer at changed_at of
           Inl e \<Rightarrow> Inl e
         | Inr payload \<Rightarrow>
             Inr \<lparr>se_event = event, se_proposer = proposer, se_at = at,
                  se_changed_at = changed_at, se_signature = sign_with cr sk payload\<rparr>)"

definition verify_event :: "('sk, 'sig) crypto \<Rightarrow> 'sig signed_event \<Rightarrow> consensus_error + unit" where
  "verify_event cr s =
     (case signing_payload cr (se_event s) (se_proposer s) (se_at s) (se_changed_at s) of
        Inl e \<Rightarrow> Inl e
      | Inr payload \<Rightarrow>
          if verifies cr (se_proposer s) payload (se_signature s) then Inr ()
          else Inl (BadSignature (se_proposer s)))"

text \<open>\<open>SignedEvent::event\<close>: the event, once its signature checks out.\<close>

definition event_of :: "('sk, 'sig) crypto \<Rightarrow> 'sig signed_event \<Rightarrow> consensus_error + membership_event" where
  "event_of cr s = (case verify_event cr s of Inl e \<Rightarrow> Inl e | Inr _ \<Rightarrow> Inr (se_event s))"

lemma event_of_ok: "event_of cr s = Inr e \<Longrightarrow> e = se_event s \<and> verify_event cr s = Inr ()"
  by (auto simp: event_of_def split: sum.splits)

text \<open>
  What a member signs reads back: under the law of the signature scheme, the entry that
  \<open>SignedEvent::sign\<close> returns verifies, \<open>event()\<close> gives back the event signed, and the
  proposer and the position it was proposed against are the ones signed for.
\<close>

theorem sign_then_read:
  assumes "signature_scheme cr" and "sign_event cr sk event at changed_at = Inr s"
  shows "event_of cr s = Inr event \<and> se_proposer s = public_of cr sk \<and> se_changed_at s = changed_at"
  using assms
  by (auto simp: sign_event_def event_of_def verify_event_def signature_scheme_def Let_def
      split: sum.splits)

text \<open>
  A scheme of the right shape, to evaluate examples with: a signature is the key it was made
  with.
\<close>

definition plain_crypto :: "(member_id, member_id) crypto" where
  "plain_crypto =
     \<lparr>public_of = (\<lambda>sk. sk), sign_with = (\<lambda>sk _. sk), verifies = (\<lambda>m _ sig. sig = m),
      encode_entry = (\<lambda>_. Inr [])\<rparr>"

definition plain_entry :: "member_id \<Rightarrow> membership_event \<Rightarrow> u64 \<Rightarrow> member_id signed_event" where
  "plain_entry m event changed_at =
     \<lparr>se_event = event, se_proposer = m, se_at = 0, se_changed_at = changed_at, se_signature = m\<rparr>"

lemma plain_crypto_scheme: "signature_scheme plain_crypto"
  by (simp add: signature_scheme_def plain_crypto_def)

theorem sign_then_read_witness:
  "\<exists>s. sign_event plain_crypto (MemberId 1) (Approved 4) 7 9 = Inr s \<and>
     event_of plain_crypto s = Inr (Approved 4) \<and> se_proposer s = MemberId 1 \<and> se_changed_at s = 9"
proof -
  obtain s where s: "sign_event plain_crypto (MemberId 1) (Approved 4) 7 9 = Inr s"
    by (simp add: sign_event_def signing_payload_def plain_crypto_def Let_def)
  with sign_then_read [OF plain_crypto_scheme s] show ?thesis
    by (auto simp: plain_crypto_def)
qed

text \<open>
  A group's identity does not depend on the order its founders are listed in, and nothing
  else collides before the hash does: two valid foundings hash the same bytes exactly when they
  have the same founders and the same time; and neither is ever the pre-image of an item's
  fingerprint.
\<close>

theorem group_identity:
  assumes "checked_ids founders = Inr ids" and "checked_ids founders' = Inr ids'"
  shows "(group_preimage ids at = group_preimage ids' at' \<longleftrightarrow>
      set (founder_ids founders) = set (founder_ids founders') \<and> at = at')
    \<and> group_preimage ids at \<noteq> item_preimage hashes"
proof
  have "ids = ids' \<longleftrightarrow> set (founder_ids founders) = set (founder_ids founders')"
    using assms sort_eq_iff_set [of "founder_ids founders" "founder_ids founders'"]
    by (simp only: checked_ids_ok_iff)
  then show "group_preimage ids at = group_preimage ids' at' \<longleftrightarrow>
      set (founder_ids founders) = set (founder_ids founders') \<and> at = at'"
    by (simp add: group_preimage_inject)
  have "take 9 (group_preimage ids at) \<noteq> take 9 (item_preimage hashes)"
    by (simp add: group_preimage_def item_preimage_def Let_def group_id_tag_def
        item_fingerprint_tag_def ascii_def)
  then show "group_preimage ids at \<noteq> item_preimage hashes" by auto
qed

theorem group_identity_witness:
  "let a = (\<lparr>profile_id = MemberId 1, profile_name = ''a''\<rparr>, lookup_only);
       b = (\<lparr>profile_id = MemberId 2, profile_name = ''b''\<rparr>, lookup_only)
   in group_preimage [MemberId 1, MemberId 2] 5 = group_preimage [MemberId 1, MemberId 2] 5 \<and>
      checked_ids [a, b] = Inr [MemberId 1, MemberId 2] \<and>
      checked_ids [b, a] = Inr [MemberId 1, MemberId 2] \<and>
      group_preimage [MemberId 1, MemberId 2] 5 \<noteq> item_preimage [3, 4]"
proof -
  let ?a = "(\<lparr>profile_id = MemberId 1, profile_name = ''a''\<rparr>, lookup_only)"
  let ?b = "(\<lparr>profile_id = MemberId 2, profile_name = ''b''\<rparr>, lookup_only)"
  have ab: "checked_ids [?a, ?b] = Inr [MemberId 1, MemberId 2]" by code_simp
  have ba: "checked_ids [?b, ?a] = Inr [MemberId 1, MemberId 2]" by code_simp
  from group_identity [OF ab ba, of 5 5 "[3, 4]"] ab ba show ?thesis
    by (auto simp: Let_def)
qed

end
