(* ===== verification/Membership_State.thy ===== *)
theory Membership_State
  imports Membership_Event
begin

text \<open>
  The projection of \<open>crates/distlib-consensus/src/state.rs\<close>: committed entries folded into who
  the group is. Every operation is one definition, in the order of the source, and every
  mutating method returns the state it leaves behind also when it refuses. Log indexes and
  pledges are \<open>u64\<close>, protocols \<open>u32\<close>, with the wrap-around of a release build in
  \<open>protocol + 1\<close>.
\<close>

section \<open>State\<close>

definition FIRST_PROTOCOL :: u32 where
  "FIRST_PROTOCOL = 1"

definition PROTOCOL_MAX :: u32 where
  "PROTOCOL_MAX = 1"

record member_record =
  rec_id :: member_id
  rec_name :: string
  rec_pledge :: u64
  rec_protocol_max :: u32

definition record_of :: "member_profile \<Rightarrow> u64 \<Rightarrow> u32 \<Rightarrow> member_record" where
  "record_of profile pledge protocol_max =
     \<lparr>rec_id = profile_id profile, rec_name = profile_name profile,
      rec_pledge = pledge, rec_protocol_max = protocol_max\<rparr>"

record proposal =
  prop_event :: membership_event
  prop_proposer :: member_id
  prop_approvals :: "member_id btset"

record membership_state =
  ms_group :: "group_id option"
  ms_members :: "(member_id, member_record) btmap"
  ms_core :: "(member_id, node_addr) btmap"
  ms_pending :: "(u64, proposal) btmap"
  ms_changed_at :: u64
  ms_settings :: group_settings
  ms_protocol :: u32

definition ms_new :: membership_state where
  "ms_new =
     \<lparr>ms_group = None, ms_members = bt_empty, ms_core = bt_empty, ms_pending = bt_empty,
      ms_changed_at = 0, ms_settings = default_settings, ms_protocol = 0\<rparr>"

section \<open>What an event is about\<close>

fun target :: "membership_event \<Rightarrow> member_id option" where
  "target (MemberExpelled member _) = Some member"
| "target _ = None"

datatype event_subject = AboutMember member_id | AboutCoreGroup | AboutProtocol

fun subject :: "membership_event \<Rightarrow> event_subject option" where
  "subject (MemberAdded member) = Some (AboutMember (profile_id member))"
| "subject (MemberExpelled member _) = Some (AboutMember member)"
| "subject (CoreGroupChanged _) = Some AboutCoreGroup"
| "subject (ProtocolRaised _) = Some AboutProtocol"
| "subject _ = None"

definition superseded_by ::
    "(member_id \<times> node_addr) list \<Rightarrow> (member_id, node_addr) btmap \<Rightarrow> (member_id, node_addr) btmap
      \<Rightarrow> bool" where
  "superseded_by proposed before now =
     (let wanted = bt_collect proposed
      in list_ex (\<lambda>member.
           bt_get before member \<noteq> bt_get now member \<and>
           (case bt_get wanted member of
              None \<Rightarrow> False
            | Some wants \<Rightarrow> Some wants \<noteq> bt_get now member))
         (bt_keys before @ bt_keys now))"

section \<open>Queries\<close>

definition allowlist :: "membership_state \<Rightarrow> member_id list" where
  "allowlist s = bt_keys (ms_members s)"

definition is_core :: "membership_state \<Rightarrow> member_id \<Rightarrow> bool" where
  "is_core s member = bt_has (ms_core s) member"

definition is_member :: "membership_state \<Rightarrow> member_id \<Rightarrow> bool" where
  "is_member s member = bt_has (ms_members s) member"

definition speaks :: "membership_state \<Rightarrow> member_id \<Rightarrow> u32 \<Rightarrow> bool" where
  "speaks s member protocol =
     (case bt_get (ms_members s) member of
        None \<Rightarrow> False
      | Some r \<Rightarrow> rec_protocol_max r \<ge> protocol)"

definition core_not_speaking :: "membership_state \<Rightarrow> u32 \<Rightarrow> member_id list" where
  "core_not_speaking s protocol = filter (\<lambda>m. \<not> speaks s m protocol) (bt_keys (ms_core s))"

definition pledges_the_minimum :: "membership_state \<Rightarrow> member_id \<Rightarrow> bool" where
  "pledges_the_minimum s member =
     (case bt_get (ms_members s) member of
        None \<Rightarrow> False
      | Some r \<Rightarrow> rec_pledge r \<ge> min_pledge_bytes (ms_settings s))"

definition check_pledge :: "membership_state \<Rightarrow> u64 \<Rightarrow> consensus_error + unit" where
  "check_pledge s pledge =
     (if pledge < min_pledge_bytes (ms_settings s)
      then Inl (PledgeBelowMinimum pledge (min_pledge_bytes (ms_settings s)))
      else Inr ())"

definition expires_after :: "membership_state \<Rightarrow> u64 \<Rightarrow> u64" where
  "expires_after s p =
     sat_sub (pending_expiry (ms_settings s)) (sat_sub (ms_changed_at s) p + 1)"

definition expired :: "membership_state \<Rightarrow> u64 \<Rightarrow> u64 \<Rightarrow> bool" where
  "expired s p index \<longleftrightarrow> sat_sub index p > pending_expiry (ms_settings s)"

section \<open>Who may, and how many must\<close>

definition core_supports ::
    "membership_state \<Rightarrow> member_id list \<Rightarrow> u32 \<Rightarrow> consensus_error + unit" where
  "core_supports s core protocol =
     (case List.find (\<lambda>m. \<not> speaks s m protocol) core of
        Some m \<Rightarrow> Inl (CoreLacksProtocol m protocol)
      | None \<Rightarrow> Inr ())"

fun authorise :: "membership_state \<Rightarrow> member_id \<Rightarrow> membership_event \<Rightarrow> consensus_error + unit" where
  "authorise s proposer (PledgeChanged member pledge) =
     (if member \<noteq> proposer then Inl (PledgeNotOwn proposer member) else check_pledge s pledge)"
| "authorise s proposer (CoreGroupChanged _) =
     (if \<not> bt_has (ms_core s) proposer then Inl (NotCoreMember proposer) else Inr ())"
| "authorise s proposer (Approved _) =
     (if \<not> bt_has (ms_core s) proposer then Inl (ApproverNotCore proposer) else Inr ())"
| "authorise s proposer (ProtocolSupported member mx) =
     (if member \<noteq> proposer then Inl (ProtocolSupportNotOwn proposer member)
      else if mx < ms_protocol s then Inl (ProtocolSupportBelowGroup mx (ms_protocol s))
      else Inr ())"
| "authorise s proposer (ProtocolRaised to) =
     (if to \<noteq> ms_protocol s + 1 then Inl (ProtocolNotNext to (ms_protocol s))
      else core_supports s (bt_keys (ms_core s)) to)"
| "authorise s proposer _ = Inr ()"

fun changes_the_voters :: "membership_state \<Rightarrow> membership_event \<Rightarrow> bool" where
  "changes_the_voters s (MemberExpelled member _) = is_core s member"
| "changes_the_voters s (CoreGroupChanged core) =
     (length core \<noteq> bt_len (ms_core s) \<or> list_ex (\<lambda>(m, _). \<not> bt_has (ms_core s) m) core)"
| "changes_the_voters s _ = False"

fun approvals_needed :: "membership_state \<Rightarrow> membership_event \<Rightarrow> nat" where
  "approvals_needed s (PledgeChanged _ _) = 0"
| "approvals_needed s (ProtocolSupported _ _) = 0"
| "approvals_needed s (ProtocolRaised _) = bt_len (ms_core s) div 2 + 1"
| "approvals_needed s event =
     (if changes_the_voters s event then bt_len (ms_core s) div 2 + 1 else 1)"

definition counting :: "membership_state \<Rightarrow> member_id btset \<Rightarrow> member_id list" where
  "counting s approvals = filter (is_core s) (bt_keys approvals)"

definition approvals_counting :: "membership_state \<Rightarrow> proposal \<Rightarrow> member_id list" where
  "approvals_counting s p = counting s (prop_approvals p)"

definition decided :: "membership_state \<Rightarrow> membership_event \<Rightarrow> member_id btset \<Rightarrow> bool" where
  "decided s event approvals \<longleftrightarrow> length (counting s approvals) \<ge> approvals_needed s event"

section \<open>Changing the group\<close>

definition found ::
    "membership_state \<Rightarrow> group_id \<Rightarrow> (member_profile \<times> node_addr) list \<Rightarrow> group_settings
      \<Rightarrow> member_id \<Rightarrow> (consensus_error, membership_state) outcome" where
  "found s gid founders settings proposer =
     (if ms_group s \<noteq> None then refused AlreadyFounded s
      else guarded (check_founders founders) s
          (guarded (check_settings settings) s
            (if \<not> list_ex (\<lambda>(founder, _). profile_id founder = proposer) founders
             then refused (FounderNotIncluded proposer) s
             else done_with
               (s\<lparr>ms_group := Some gid,
                  ms_settings := settings,
                  ms_protocol := FIRST_PROTOCOL,
                  ms_members := bt_collect
                    (map (\<lambda>(founder, _). (profile_id founder, record_of founder 0 FIRST_PROTOCOL))
                      founders),
                  ms_core := bt_collect
                    (map (\<lambda>(founder, addr). (profile_id founder, addr)) founders)\<rparr>))))"

fun apply_to_founded_group ::
    "membership_state \<Rightarrow> membership_event \<Rightarrow> (consensus_error, membership_state) outcome" where
  "apply_to_founded_group s (GroupFounded _ _ _) = refused AlreadyFounded s"
| "apply_to_founded_group s (MemberAdded member) =
     (let (pledge, protocol_max) =
            (case bt_get (ms_members s) (profile_id member) of
               None \<Rightarrow> (0, FIRST_PROTOCOL)
             | Some had \<Rightarrow> (rec_pledge had, rec_protocol_max had))
      in done_with (s\<lparr>ms_members :=
           bt_insert (profile_id member) (record_of member pledge protocol_max) (ms_members s)\<rparr>))"
| "apply_to_founded_group s (MemberExpelled member _) =
     (let removed = bt_get (ms_members s) member;
          s' = s\<lparr>ms_members := bt_remove member (ms_members s)\<rparr>
      in if removed = None then refused (UnknownMember member) s'
         else done_with (s'\<lparr>ms_core := bt_remove member (ms_core s')\<rparr>))"
| "apply_to_founded_group s (PledgeChanged member pledge) =
     (case bt_get (ms_members s) member of
        None \<Rightarrow> refused (UnknownMember member) s
      | Some r \<Rightarrow> done_with
          (s\<lparr>ms_members := bt_insert member (r\<lparr>rec_pledge := pledge\<rparr>) (ms_members s)\<rparr>))"
| "apply_to_founded_group s (CoreGroupChanged core) =
     (if core = [] \<or> \<not> list_all (\<lambda>(m, _). bt_has (ms_members s) m) core
      then refused InvalidCoreGroup s
      else let folded = bt_collect core
           in if bt_len folded \<noteq> length core then refused InvalidCoreGroup s
              else guarded (core_supports s (bt_keys folded) (ms_protocol s)) s
                (done_with (s\<lparr>ms_core := folded\<rparr>)))"
| "apply_to_founded_group s (ProtocolSupported member mx) =
     (case bt_get (ms_members s) member of
        None \<Rightarrow> refused (UnknownMember member) s
      | Some r \<Rightarrow> done_with
          (s\<lparr>ms_members := bt_insert member (r\<lparr>rec_protocol_max := mx\<rparr>) (ms_members s)\<rparr>))"
| "apply_to_founded_group s (ProtocolRaised to) = done_with (s\<lparr>ms_protocol := to\<rparr>)"
| "apply_to_founded_group s (Approved _) = refused NotAMembershipChange s"
| "apply_to_founded_group s (Withdrawn _) = refused NotAMembershipChange s"

text \<open>Which pending proposals an enacted change leaves: the closure of \<open>enact\<close>'s \<open>retain\<close>.\<close>

definition survives ::
    "membership_event \<Rightarrow> (member_id, node_addr) btmap \<Rightarrow> (member_id, node_addr) btmap \<Rightarrow> proposal
      \<Rightarrow> bool" where
  "survives event before now p =
     (case prop_event p of
        CoreGroupChanged proposed \<Rightarrow> \<not> superseded_by proposed before now
      | other \<Rightarrow> subject other \<noteq> subject event)"

definition enact ::
    "membership_state \<Rightarrow> membership_event \<Rightarrow> (consensus_error, membership_state) outcome" where
  "enact s event =
     (let before = ms_core s
      in and_then (apply_to_founded_group s event)
           (\<lambda>s'. done_with (s'\<lparr>ms_pending :=
              bt_retain (\<lambda>_ p. survives event before (ms_core s') p) (ms_pending s')\<rparr>)))"

section \<open>Proposals\<close>

definition submit ::
    "membership_state \<Rightarrow> u64 \<Rightarrow> member_id \<Rightarrow> membership_event
      \<Rightarrow> (consensus_error, membership_state) outcome" where
  "submit s index proposer event =
     (let approvals =
            (if is_core s proposer \<and> target event \<noteq> Some proposer
             then bts_insert proposer bt_empty else bt_empty)
      in if decided s event approvals then enact s event
         else
           (case (case subject event of
                    None \<Rightarrow> None
                  | Some about \<Rightarrow>
                      bt_find (\<lambda>waiting p. \<not> expired s waiting index
                                 \<and> subject (prop_event p) = Some about)
                        (ms_pending s)) of
              Some (waiting, _) \<Rightarrow> refused (AlreadyPending waiting) s
            | None \<Rightarrow> done_with (s\<lparr>ms_pending :=
                bt_insert index
                  \<lparr>prop_event = event, prop_proposer = proposer, prop_approvals = approvals\<rparr>
                  (ms_pending s)\<rparr>)))"

definition still_allowed ::
    "membership_state \<Rightarrow> u64 \<Rightarrow> u64 \<Rightarrow> proposal \<Rightarrow> member_id \<Rightarrow> consensus_error + unit" where
  "still_allowed s index p entry approver =
     (if expired s p index then Inl (ProposalExpired p index)
      else if target (prop_event entry) = Some approver then Inl (SelfApproval approver)
      else if \<not> bt_has (ms_members s) (prop_proposer entry)
           then Inl (ProposerNotAMember (prop_proposer entry))
      else authorise s (prop_proposer entry) (prop_event entry))"

text \<open>
  The entry is taken out for the duration; each path either enacts it or puts it back, and the
  state returned is whatever that path leaves.
\<close>

definition approve ::
    "membership_state \<Rightarrow> u64 \<Rightarrow> u64 \<Rightarrow> member_id \<Rightarrow> (consensus_error, membership_state) outcome" where
  "approve s index p approver =
     (case bt_get (ms_pending s) p of
        None \<Rightarrow> refused (UnknownProposal p) s
      | Some entry \<Rightarrow>
          let s1 = s\<lparr>ms_pending := bt_remove p (ms_pending s)\<rparr>
          in case still_allowed s1 index p entry approver of
               Inl e \<Rightarrow> refused e (s1\<lparr>ms_pending := bt_insert p entry (ms_pending s1)\<rparr>)
             | Inr _ \<Rightarrow>
                 let approvals = bts_insert approver (prop_approvals entry)
                 in if \<not> decided s1 (prop_event entry) approvals
                    then done_with (s1\<lparr>ms_pending :=
                      bt_insert p (entry\<lparr>prop_approvals := approvals\<rparr>) (ms_pending s1)\<rparr>)
                    else (case enact s1 (prop_event entry) of
                            (Inr _, s2) \<Rightarrow> done_with s2
                          | (Inl e, s2) \<Rightarrow>
                              refused e (s2\<lparr>ms_pending := bt_insert p entry (ms_pending s2)\<rparr>)))"

definition withdraw ::
    "membership_state \<Rightarrow> u64 \<Rightarrow> member_id \<Rightarrow> (consensus_error, membership_state) outcome" where
  "withdraw s p member =
     (case bt_get (ms_pending s) p of
        None \<Rightarrow> refused (UnknownProposal p) s
      | Some entry \<Rightarrow>
          if prop_proposer entry \<noteq> member then refused (NotTheProposer member p) s
          else done_with (s\<lparr>ms_pending := bt_remove p (ms_pending s)\<rparr>))"

section \<open>Applying an entry\<close>

definition dispatch ::
    "membership_state \<Rightarrow> u64 \<Rightarrow> member_id \<Rightarrow> membership_event
      \<Rightarrow> (consensus_error, membership_state) outcome" where
  "dispatch s index proposer event =
     (case event of
        GroupFounded gid founders settings \<Rightarrow> found s gid founders settings proposer
      | _ \<Rightarrow>
          if ms_group s = None then refused NotFounded s
          else if \<not> bt_has (ms_members s) proposer then refused (ProposerNotAMember proposer) s
          else guarded (authorise s proposer event) s
            (case event of
               Approved p \<Rightarrow> approve s index p proposer
             | Withdrawn p \<Rightarrow> withdraw s p proposer
             | _ \<Rightarrow> submit s index proposer event))"

definition sweep :: "u64 \<Rightarrow> membership_state \<Rightarrow> membership_state" where
  "sweep index s =
     (let expiry = pending_expiry (ms_settings s)
      in s\<lparr>ms_pending := bt_retain (\<lambda>p _. sat_sub index p < expiry) (ms_pending s)\<rparr>)"

definition ms_apply ::
    "('sk, 'sig) crypto \<Rightarrow> membership_state \<Rightarrow> u64 \<Rightarrow> 'sig signed_event
      \<Rightarrow> (consensus_error, membership_state) outcome" where
  "ms_apply cr s index entry =
     (case event_of cr entry of
        Inl e \<Rightarrow> refused e s
      | Inr event \<Rightarrow>
          if se_changed_at entry \<noteq> ms_changed_at s
          then refused (StaleProposal (se_changed_at entry) (ms_changed_at s)) s
          else and_then (dispatch s index (se_proposer entry) event)
            (\<lambda>s'. done_with (sweep index (s'\<lparr>ms_changed_at := index\<rparr>))))"

end
