(* ===== verification/Membership_Laws.thy ===== *)
theory Membership_Laws
  imports Membership_State
begin

text \<open>
  What the membership fold guarantees: a refused entry changes nothing, the invariant of every
  state a log can reach, and who has to agree before a change takes effect.
\<close>

section \<open>A refused entry changes nothing\<close>

lemma apply_to_founded_group_refused:
  "apply_to_founded_group s event = refused e t \<Longrightarrow> t = s"
proof (cases event)
  case (MemberExpelled m reason)
  assume "apply_to_founded_group s event = refused e t"
  then show "t = s"
    by (auto simp: MemberExpelled Let_def bt.remove_absent split: if_splits)
qed (auto simp: Let_def guarded_def split: if_splits option.splits sum.splits prod.splits)

lemma enact_refused: "enact s event = refused e t \<Longrightarrow> t = s"
  by (auto simp: enact_def and_then_def dest: apply_to_founded_group_refused
      split: prod.splits sum.splits)

lemma submit_refused: "submit s i p event = refused e t \<Longrightarrow> t = s"
  by (auto simp: submit_def Let_def dest: enact_refused split: if_splits option.splits)

lemma withdraw_refused: "withdraw s p m = refused e t \<Longrightarrow> t = s"
  by (auto simp: withdraw_def split: option.splits if_splits)

lemma found_refused: "found s g f st p = refused e t \<Longrightarrow> t = s"
  by (auto simp: found_def guarded_def split: if_splits sum.splits)

lemma put_entry_back:
  "bt_get (ms_pending s) p = Some entry \<Longrightarrow>
     s\<lparr>ms_pending := bt_insert p entry (bt_remove p (ms_pending s))\<rparr> = s"
  by (simp add: bt.put_back)

lemma approve_refused: "approve s i p m = refused e t \<Longrightarrow> t = s"
  by (auto simp: approve_def Let_def put_entry_back dest!: enact_refused
      split: option.splits sum.splits if_splits prod.splits)

lemma dispatch_refused: "dispatch s i p event = refused e t \<Longrightarrow> t = s"
  by (auto simp: dispatch_def guarded_def
      dest: found_refused approve_refused withdraw_refused submit_refused
      split: membership_event.splits if_splits sum.splits)

text \<open>
  C1. An entry the fold refuses leaves the state exactly as it was, on every path: also where
  \<open>approve\<close> has taken the proposal out of the pending map before it finds the reason to refuse.
\<close>

theorem refused_entry_changes_nothing:
  assumes "ms_apply cr s index entry = refused e t"
  shows "t = s"
  using assms
  by (auto simp: ms_apply_def and_then_def dest: dispatch_refused
      split: sum.splits if_splits prod.splits)

section \<open>The invariant\<close>

text \<open>
  \<open>group_ok\<close>: a core member is a member and speaks the group's protocol, a founded group has a
  core, an unfounded one has nothing, and each record is filed under its own identity.
\<close>

definition group_ok :: "membership_state \<Rightarrow> bool" where
  "group_ok s \<longleftrightarrow>
     (ms_group s = None \<longrightarrow>
        ms_members s = bt_empty \<and> ms_core s = bt_empty \<and> ms_pending s = bt_empty) \<and>
     (ms_group s \<noteq> None \<longrightarrow> (\<exists>m. is_core s m)) \<and>
     (\<forall>m. is_core s m \<longrightarrow> is_member s m \<and> speaks s m (ms_protocol s)) \<and>
     (\<forall>m r. bt_get (ms_members s) m = Some r \<longrightarrow> rec_id r = m)"

text \<open>
  \<open>entries_ok\<close>: what waits is a proposal, and no expulsion carries its target's approval.
  \<open>one_per_subject\<close>: of the entries a predicate admits, no two are about the same subject.
  \<open>in_time\<close>: every entry was made by now and has not expired.
\<close>

definition entry_ok :: "proposal \<Rightarrow> bool" where
  "entry_ok e \<longleftrightarrow> subject (prop_event e) \<noteq> None \<and>
     (\<forall>m. target (prop_event e) = Some m \<longrightarrow> \<not> bt_has (prop_approvals e) m)"

definition entries_ok :: "membership_state \<Rightarrow> bool" where
  "entries_ok s \<longleftrightarrow> (\<forall>p e. bt_get (ms_pending s) p = Some e \<longrightarrow> entry_ok e)"

definition one_per_subject :: "(u64 \<Rightarrow> bool) \<Rightarrow> membership_state \<Rightarrow> bool" where
  "one_per_subject live s \<longleftrightarrow>
     (\<forall>p q e f. live p \<and> live q \<and> bt_get (ms_pending s) p = Some e \<and> bt_get (ms_pending s) q = Some f
        \<and> subject (prop_event e) = subject (prop_event f) \<longrightarrow> p = q)"

definition in_time :: "membership_state \<Rightarrow> bool" where
  "in_time s \<longleftrightarrow>
     (\<forall>p \<in> dom (bt_get (ms_pending s)).
        p \<le> ms_changed_at s \<and> sat_sub (ms_changed_at s) p < pending_expiry (ms_settings s))"

definition ms_ok :: "membership_state \<Rightarrow> bool" where
  "ms_ok s \<longleftrightarrow> group_ok s \<and> entries_ok s \<and> one_per_subject (\<lambda>_. True) s \<and> in_time s"

lemma speaks_iff:
  "speaks s m p \<longleftrightarrow> (\<exists>r. bt_get (ms_members s) m = Some r \<and> p \<le> rec_protocol_max r)"
  by (auto simp: speaks_def split: option.splits)

lemmas membership_queries = is_core_def is_member_def speaks_iff bt_has_def

lemma core_supports_ok_iff:
  "core_supports s core protocol = Inr () \<longleftrightarrow> (\<forall>m \<in> set core. speaks s m protocol)"
  by (auto simp: core_supports_def find_None_iff_all split: option.splits dest: find_Some_in)

lemma counting_subset: "set (counting s A) = {m. is_core s m \<and> bt_has A m}"
  by (auto simp: counting_def bt_has_dom)

lemma length_counting: "length (counting s A) = card {m. is_core s m \<and> bt_has A m}"
proof -
  have "distinct (counting s A)" by (simp add: counting_def)
  then show ?thesis by (metis counting_subset distinct_card)
qed

lemma core_len: "bt_len (ms_core s) = card {m. is_core s m}"
  by (simp add: bt_len_card is_core_def bt_has_dom)

lemma finite_core [simp]: "finite {m. is_core s m}"
  by (simp add: is_core_def bt_has_dom)

text \<open>A core member is never expelled by a decision that leaves no core behind.\<close>

lemma expelling_leaves_core:
  assumes "decided s (MemberExpelled t reason) A" and "\<not> bt_has A t" and "is_core s t"
  shows "\<exists>m. is_core s m \<and> m \<noteq> t"
proof (rule ccontr)
  assume "\<not> ?thesis"
  then have "{m. is_core s m \<and> bt_has A m} = {}" using assms(2) by auto
  then have "length (counting s A) = 0" by (simp only: length_counting card.empty)
  with assms(1,3) show False by (simp add: decided_def)
qed

section \<open>Every change keeps the invariant\<close>

lemma apply_to_founded_group_frame:
  "apply_to_founded_group s event = done_with t \<Longrightarrow>
     ms_group t = ms_group s \<and> ms_pending t = ms_pending s \<and> ms_changed_at t = ms_changed_at s
       \<and> ms_settings t = ms_settings s"
  by (cases event) (auto simp: Let_def guarded_ok_iff split: if_splits option.splits prod.splits)

lemma group_ok_expel:
  assumes ok: "group_ok s" and step: "apply_to_founded_group s (MemberExpelled m r) = done_with t"
    and "decided s (MemberExpelled m r) A" and "\<not> bt_has A m" and "ms_group s \<noteq> None"
  shows "group_ok t"
proof -
  have "\<exists>c. is_core s c \<and> c \<noteq> m"
    using assms expelling_leaves_core [of s m r A] by (auto simp: group_ok_def)
  then show ?thesis
    using assms by (fastforce simp: group_ok_def membership_queries Let_def split: if_splits)
qed

lemma group_ok_core:
  assumes "group_ok s" and "apply_to_founded_group s (CoreGroupChanged core) = done_with t"
    and "ms_group s \<noteq> None"
  shows "group_ok t"
proof -
  have t: "t = s\<lparr>ms_core := bt_collect core\<rparr>" and "core \<noteq> []"
    and members: "\<forall>(m, _) \<in> set core. bt_has (ms_members s) m"
    and speak: "\<forall>m \<in> fst ` set core. speaks s m (ms_protocol s)"
    using assms(2)
    by (auto simp: Let_def guarded_ok_iff core_supports_ok_iff list_all_iff split: if_splits)
  have "is_core t m \<longleftrightarrow> m \<in> fst ` set core" for m
    by (simp add: t is_core_def bt_has_dom)
  with assms(1,3) members speak \<open>core \<noteq> []\<close> show ?thesis
    by (fastforce simp: group_ok_def t is_member_def speaks_iff neq_Nil_conv)
qed

lemma group_ok_record:
  assumes "group_ok s" and "ms_group s \<noteq> None" and "bt_get (ms_members s) m = Some r"
    and "rec_id r' = rec_id r" and "ms_protocol s \<le> rec_protocol_max r \<Longrightarrow> ms_protocol s \<le> rec_protocol_max r'"
  shows "group_ok (s\<lparr>ms_members := bt_insert m r' (ms_members s)\<rparr>)"
  using assms by (fastforce simp: group_ok_def membership_queries)

lemma group_ok_add:
  assumes ok: "group_ok s" and step: "apply_to_founded_group s (MemberAdded member) = done_with t"
    and founded: "ms_group s \<noteq> None"
  shows "group_ok t"
proof (cases "bt_get (ms_members s) (profile_id member)")
  case None
  with ok have "bt_get (ms_core s) (profile_id member) = None"
    by (force simp: group_ok_def membership_queries)
  with None assms show ?thesis
    by (force simp: group_ok_def membership_queries record_of_def split: if_splits)
next
  case (Some had)
  moreover have "rec_id had = profile_id member" using ok Some by (simp add: group_ok_def)
  ultimately show ?thesis
    using step by (auto simp: record_of_def intro!: group_ok_record [OF ok founded])
qed

lemma group_ok_raise:
  assumes "group_ok s" and "\<forall>m \<in> set (bt_keys (ms_core s)). speaks s m to" and "ms_group s \<noteq> None"
  shows "group_ok (s\<lparr>ms_protocol := to\<rparr>)"
  using assms by (auto simp: group_ok_def membership_queries)

lemma group_ok_change:
  assumes ok: "group_ok s" and founded: "ms_group s \<noteq> None"
    and auth: "authorise s m event = Inr ()" and dec: "decided s event A"
    and tgt: "\<forall>t. target event = Some t \<longrightarrow> \<not> bt_has A t"
    and step: "apply_to_founded_group s event = done_with t"
  shows "group_ok t"
proof (cases event)
  case (MemberExpelled x r)
  with assms show ?thesis by (auto intro: group_ok_expel [of s x r t A])
next
  case (PledgeChanged x b)
  with step ok founded show ?thesis
    by (auto intro!: group_ok_record split: option.splits)
next
  case (ProtocolSupported x mx)
  with step ok founded auth show ?thesis
    by (auto intro!: group_ok_record split: option.splits if_splits)
next
  case (ProtocolRaised to)
  with step ok founded auth show ?thesis
    by (auto intro!: group_ok_raise simp: core_supports_ok_iff split: if_splits)
qed (use assms in \<open>auto intro: group_ok_add group_ok_core simp del: apply_to_founded_group.simps(2,5)\<close>)

text \<open>
  A successful dispatch leaves a state that only the sweep still separates from the invariant:
  two entries about one subject can be there, but then one of them has expired.
\<close>

definition pre_sweep :: "u64 \<Rightarrow> membership_state \<Rightarrow> bool" where
  "pre_sweep index s \<longleftrightarrow>
     group_ok s \<and> entries_ok s \<and>
     one_per_subject (\<lambda>p. sat_sub index p < pending_expiry (ms_settings s)) s \<and>
     (\<forall>p \<in> dom (bt_get (ms_pending s)). p \<le> index)"

definition fewer_pending :: "membership_state \<Rightarrow> membership_state \<Rightarrow> bool" where
  "fewer_pending t s \<longleftrightarrow>
     (\<forall>p e. bt_get (ms_pending t) p = Some e \<longrightarrow> bt_get (ms_pending s) p = Some e)"

lemma group_ok_update_pending:
  "ms_group s \<noteq> None \<Longrightarrow> group_ok (s\<lparr>ms_pending := x\<rparr>) = group_ok s"
  by (auto simp: group_ok_def membership_queries)

lemma group_ok_update_changed_at: "group_ok (s\<lparr>ms_changed_at := x\<rparr>) = group_ok s"
  by (simp add: group_ok_def membership_queries)

lemma sweep_establishes:
  assumes "pre_sweep index t"
  shows "ms_ok (sweep index (t\<lparr>ms_changed_at := index\<rparr>))"
proof -
  let ?u = "sweep index (t\<lparr>ms_changed_at := index\<rparr>)"
  have "group_ok ?u"
  proof (cases "ms_group t = None")
    case True
    with assms have "ms_pending t = bt_empty" by (simp add: pre_sweep_def group_ok_def)
    then have "ms_pending ?u = ms_pending t"
      by (simp add: sweep_def Let_def)
    with assms show ?thesis
      by (simp add: pre_sweep_def sweep_def Let_def group_ok_def membership_queries)
  next
    case False
    with assms show ?thesis
      by (simp add: pre_sweep_def sweep_def Let_def group_ok_update_pending
          group_ok_update_changed_at)
  qed
  moreover have "entries_ok ?u" and "one_per_subject (\<lambda>_. True) ?u" and "in_time ?u"
    using assms
    by (auto simp: pre_sweep_def entries_ok_def one_per_subject_def in_time_def sweep_def Let_def
        split: option.splits if_splits)
  ultimately show ?thesis by (simp add: ms_ok_def)
qed

lemma pending_before:
  assumes "ms_ok s" and "ms_changed_at s < index" and "bt_get (ms_pending s) p = Some e"
  shows "p < index"
proof -
  have "p \<le> ms_changed_at s"
    using assms(1,3) by (auto simp: ms_ok_def in_time_def)
  then show ?thesis using assms(2) by (rule order.strict_trans1)
qed

lemma pre_sweep_fewer:
  assumes "ms_ok s" and "ms_changed_at s < index" and "group_ok t" and "fewer_pending t s"
  shows "pre_sweep index t"
proof -
  have fewer: "bt_get (ms_pending s) p = Some e" if "bt_get (ms_pending t) p = Some e" for p e
    using assms(4) that by (simp add: fewer_pending_def)
  have "entries_ok t"
    using assms(1) fewer by (auto simp: ms_ok_def entries_ok_def)
  moreover have "one_per_subject live t" for live
    using assms(1) fewer unfolding ms_ok_def one_per_subject_def by metis
  moreover have "p \<le> index" if "p \<in> dom (bt_get (ms_pending t))" for p
    using that fewer pending_before [OF assms(1,2)] by (auto intro: less_imp_le)
  ultimately show ?thesis using assms(3) by (simp add: pre_sweep_def)
qed

lemma enact_effect:
  assumes "enact s event = done_with t"
  obtains u where "apply_to_founded_group s event = done_with u"
    and "t = u\<lparr>ms_pending :=
      bt_retain (\<lambda>_ p. survives event (ms_core s) (ms_core u) p) (ms_pending s)\<rparr>"
proof -
  obtain r u where ru: "apply_to_founded_group s event = (r, u)" by fastforce
  with assms have "r = Inr ()"
    by (cases r) (auto simp: enact_def)
  with ru assms apply_to_founded_group_frame [of s event u] show ?thesis
    by (intro that [of u]) (auto simp: enact_def)
qed

lemma enact_frame:
  assumes "enact s event = done_with t"
  shows "fewer_pending t s \<and> ms_group t = ms_group s \<and> ms_settings t = ms_settings s
    \<and> ms_changed_at t = ms_changed_at s"
  using assms
proof (rule enact_effect)
  fix u
  assume u: "apply_to_founded_group s event = done_with u"
    and t: "t = u\<lparr>ms_pending :=
      bt_retain (\<lambda>_ p. survives event (ms_core s) (ms_core u) p) (ms_pending s)\<rparr>"
  show ?thesis
    using apply_to_founded_group_frame [OF u]
    by (auto simp: t fewer_pending_def split: option.splits if_splits)
qed

lemma enact_group_ok:
  assumes "group_ok s" and "ms_group s \<noteq> None" and "authorise s m event = Inr ()"
    and "decided s event A" and "\<forall>t. target event = Some t \<longrightarrow> \<not> bt_has A t"
    and "enact s event = done_with t"
  shows "group_ok t"
  using assms(6)
proof (rule enact_effect)
  fix u x
  assume u: "apply_to_founded_group s event = done_with u" and t: "t = u\<lparr>ms_pending := x\<rparr>"
  have "group_ok u" using assms(1-5) u by (rule group_ok_change)
  moreover have "ms_group u \<noteq> None" using apply_to_founded_group_frame [OF u] assms(2) by simp
  ultimately show ?thesis by (simp add: t group_ok_update_pending)
qed

lemma submit_pre_sweep:
  assumes ok: "ms_ok s" and later: "ms_changed_at s < index" and founded: "ms_group s \<noteq> None"
    and auth: "authorise s m event = Inr ()" and step: "submit s index m event = done_with t"
    and kind: "subject event = None \<Longrightarrow> approvals_needed s event = 0"
  shows "pre_sweep index t \<and> ms_settings t = ms_settings s"
proof -
  define A where "A = (if is_core s m \<and> target event \<noteq> Some m then bts_insert m bt_empty else bt_empty)"
  have no_target: "\<forall>x. target event = Some x \<longrightarrow> \<not> bt_has A x" by (auto simp: A_def)
  show ?thesis
  proof (cases "decided s event A")
    case True
    with step have "enact s event = done_with t" by (simp add: submit_def A_def Let_def)
    with ok founded auth True no_target later show ?thesis
      using enact_group_ok enact_frame pre_sweep_fewer by (metis ms_ok_def)
  next
    case False
    then obtain about where about: "subject event = Some about"
      using kind by (cases "subject event") (auto simp: decided_def)
    let ?e = "\<lparr>prop_event = event, prop_proposer = m, prop_approvals = A\<rparr>"
    have t: "t = s\<lparr>ms_pending := bt_insert index ?e (ms_pending s)\<rparr>"
      and free: "\<forall>p e. bt_get (ms_pending s) p = Some e \<longrightarrow>
        expired s p index \<or> subject (prop_event e) \<noteq> Some about"
      using step False about
      by (auto simp: submit_def A_def [symmetric] bt_find_None split: option.splits)
    have "\<forall>p \<in> dom (bt_get (ms_pending s)). p < index"
      using pending_before [OF ok later] by auto
    moreover have "expired s p index \<Longrightarrow> \<not> sat_sub index p < pending_expiry (ms_settings s)" for p
      by (simp add: expired_def)
    ultimately show ?thesis
      using ok free about no_target
      unfolding t pre_sweep_def ms_ok_def entries_ok_def one_per_subject_def entry_ok_def
      by (auto simp: group_ok_update_pending founded domI less_imp_le split: if_splits) metis+
  qed
qed

lemma decided_update_pending:
  "decided (s\<lparr>ms_pending := x\<rparr>) event A = decided s event A"
proof -
  have "approvals_needed (s\<lparr>ms_pending := x\<rparr>) event = approvals_needed s event"
    by (cases event) (simp_all add: is_core_def)
  then show ?thesis by (simp add: decided_def counting_def is_core_def [abs_def])
qed

text \<open>What a successful approval did: recorded one more approval, or enacted the proposal.\<close>

lemma approve_effect:
  assumes "approve s index p m = done_with t"
  obtains e where "bt_get (ms_pending s) p = Some e"
    and "still_allowed (s\<lparr>ms_pending := bt_remove p (ms_pending s)\<rparr>) index p e m = Inr ()"
    and "if decided s (prop_event e) (bts_insert m (prop_approvals e))
      then enact (s\<lparr>ms_pending := bt_remove p (ms_pending s)\<rparr>) (prop_event e) = done_with t
      else t = s\<lparr>ms_pending :=
        bt_insert p (e\<lparr>prop_approvals := bts_insert m (prop_approvals e)\<rparr>) (ms_pending s)\<rparr>"
proof -
  obtain e where e: "bt_get (ms_pending s) p = Some e"
    using assms by (cases "bt_get (ms_pending s) p") (auto simp: approve_def)
  obtain u where "still_allowed (s\<lparr>ms_pending := bt_remove p (ms_pending s)\<rparr>) index p e m = Inr u"
    using assms e by (auto simp: approve_def Let_def split: sum.splits)
  with assms e show ?thesis
    by (intro that [OF e])
      (auto simp: approve_def Let_def decided_update_pending bt.insert_removed split: if_splits sum.splits prod.splits)
qed

lemma authorise_update_pending: "authorise (s\<lparr>ms_pending := x\<rparr>) m event = authorise s m event"
  by (cases event)
    (simp_all add: check_pledge_def core_supports_def speaks_def [abs_def])

lemma still_allowed_ok_iff:
  "still_allowed (s\<lparr>ms_pending := x\<rparr>) index p e m = Inr () \<longleftrightarrow>
     \<not> expired s p index \<and> target (prop_event e) \<noteq> Some m \<and> is_member s (prop_proposer e)
     \<and> authorise s (prop_proposer e) (prop_event e) = Inr ()"
  by (simp add: still_allowed_def authorise_update_pending expired_def is_member_def)

lemma approve_pre_sweep:
  assumes ok: "ms_ok s" and later: "ms_changed_at s < index" and founded: "ms_group s \<noteq> None"
    and step: "approve s index p m = done_with t"
  shows "pre_sweep index t \<and> ms_settings t = ms_settings s"
  using step
proof (rule approve_effect)
  fix e :: proposal
  let ?s = "s\<lparr>ms_pending := bt_remove p (ms_pending s)\<rparr>"
  let ?A = "bts_insert m (prop_approvals e)"
  assume e: "bt_get (ms_pending s) p = Some e" and "still_allowed ?s index p e m = Inr ()"
    and effect: "if decided s (prop_event e) ?A then enact ?s (prop_event e) = done_with t
      else t = s\<lparr>ms_pending := bt_insert p (e\<lparr>prop_approvals := ?A\<rparr>) (ms_pending s)\<rparr>"
  then have auth: "authorise s (prop_proposer e) (prop_event e) = Inr ()"
    and not_m: "target (prop_event e) \<noteq> Some m"
    by (simp_all add: still_allowed_ok_iff)
  have entry: "entry_ok e" using ok e by (simp add: ms_ok_def entries_ok_def)
  with not_m have no_target: "\<forall>x. target (prop_event e) = Some x \<longrightarrow> \<not> bt_has ?A x"
    by (auto simp: entry_ok_def)
  show ?thesis
  proof (cases "decided s (prop_event e) ?A")
    case True
    with effect have en: "enact ?s (prop_event e) = done_with t" by simp
    have "group_ok t"
      using ok founded auth True no_target en
      by (intro enact_group_ok [of ?s "prop_proposer e" "prop_event e" ?A t])
        (simp_all add: ms_ok_def group_ok_update_pending authorise_update_pending
          decided_update_pending)
    moreover have "fewer_pending t s"
      using enact_frame [OF en] by (simp add: fewer_pending_def) (metis option.distinct(1))
    ultimately show ?thesis
      using enact_frame [OF en] pre_sweep_fewer [OF ok later] by simp
  next
    case False
    with effect have t: "t = s\<lparr>ms_pending := bt_insert p (e\<lparr>prop_approvals := ?A\<rparr>) (ms_pending s)\<rparr>"
      by simp
    have "\<forall>q e. bt_get (ms_pending s) q = Some e \<longrightarrow> q \<le> index"
      using pending_before [OF ok later] by (auto intro: less_imp_le)
    then show ?thesis
      using ok entry no_target e founded
      by (auto simp: t pre_sweep_def ms_ok_def entries_ok_def one_per_subject_def entry_ok_def
          group_ok_update_pending split: if_splits)
  qed
qed

lemma withdraw_pre_sweep:
  assumes "ms_ok s" and "ms_changed_at s < index" and "ms_group s \<noteq> None"
    and "withdraw s p m = done_with t"
  shows "pre_sweep index t \<and> ms_settings t = ms_settings s"
proof -
  have t: "t = s\<lparr>ms_pending := bt_remove p (ms_pending s)\<rparr>"
    using assms(4) by (auto simp: withdraw_def split: option.splits if_splits)
  have "fewer_pending t s" by (simp add: t fewer_pending_def)
  moreover have "group_ok t"
    using assms(1,3) by (simp add: t ms_ok_def group_ok_update_pending)
  ultimately show ?thesis
    using pre_sweep_fewer [OF assms(1,2)] by (simp add: t)
qed

lemma found_effect:
  assumes "found s g founders st m = done_with t"
  shows "ms_group s = None \<and> founders \<noteq> [] \<and> distinct (founder_ids founders)
    \<and> m \<in> set (founder_ids founders) \<and> check_settings st = Inr ()
    \<and> t = s\<lparr>ms_group := Some g, ms_settings := st, ms_protocol := FIRST_PROTOCOL,
        ms_members := bt_collect
          (map (\<lambda>(f, _). (profile_id f, record_of f 0 FIRST_PROTOCOL)) founders),
        ms_core := bt_collect (map (\<lambda>(f, a). (profile_id f, a)) founders)\<rparr>"
  using assms
  by (fastforce simp: found_def guarded_ok_iff check_founders_ok_iff list_ex_iff split: if_splits)

lemma found_pre_sweep:
  assumes ok: "ms_ok s" and step: "found s g founders st m = done_with t"
  shows "pre_sweep index t"
proof -
  note effect = found_effect [OF step]
  have pending: "ms_pending s = bt_empty" using ok effect by (simp add: ms_ok_def group_ok_def)
  have filed: "\<exists>f a. (f, a) \<in> set founders \<and> profile_id f = k \<and> r = record_of f 0 FIRST_PROTOCOL"
    if "bt_get (ms_members t) k = Some r" for k r
    using that effect map_of_SomeD by (fastforce simp: bt_get_collect)
  have keys: "dom (bt_get (ms_members t)) = set (founder_ids founders)"
    "dom (bt_get (ms_core t)) = set (founder_ids founders)"
    using effect by (auto simp: image_image case_prod_beta)
  have "group_ok t"
    unfolding group_ok_def
  proof (intro conjI allI impI)
    show "\<exists>k. is_core t k" using keys(2) effect by (auto simp: is_core_def bt_has_dom)
    fix k assume "is_core t k"
    then show "is_member t k" using keys by (simp add: is_core_def is_member_def bt_has_dom)
    then obtain r where r: "bt_get (ms_members t) k = Some r" by (auto simp: is_member_def bt_has_def)
    with filed effect show "speaks t k (ms_protocol t)"
      by (fastforce simp: speaks_iff record_of_def)
  next
    fix k r assume "bt_get (ms_members t) k = Some r"
    with filed show "rec_id r = k" by (fastforce simp: record_of_def)
  qed (use effect in auto)
  with pending effect show ?thesis
    by (simp add: pre_sweep_def entries_ok_def one_per_subject_def)
qed

lemma dispatch_pre_sweep:
  assumes "ms_ok s" and "ms_changed_at s < index" and "dispatch s index m event = done_with t"
  shows "pre_sweep index t"
proof (cases event)
  case (GroupFounded g f st)
  with assms show ?thesis by (auto simp: dispatch_def intro: found_pre_sweep)
next
  case (Approved p)
  with assms show ?thesis
    using approve_pre_sweep by (auto simp: dispatch_def guarded_ok_iff split: if_splits)
next
  case (Withdrawn p)
  with assms show ?thesis
    using withdraw_pre_sweep by (auto simp: dispatch_def guarded_ok_iff split: if_splits)
qed (use assms submit_pre_sweep in
      \<open>fastforce simp: dispatch_def guarded_ok_iff simp del: authorise.simps split: if_splits\<close>)+

lemma ms_apply_ok:
  assumes "ms_apply cr s index entry = done_with t"
  obtains u where "event_of cr entry = Inr (se_event entry)"
    and "se_changed_at entry = ms_changed_at s"
    and "dispatch s index (se_proposer entry) (se_event entry) = done_with u"
    and "t = sweep index (u\<lparr>ms_changed_at := index\<rparr>)"
proof -
  obtain ev where ev: "event_of cr entry = Inr ev"
    using assms by (cases "event_of cr entry") (auto simp: ms_apply_def)
  obtain r u where ru: "dispatch s index (se_proposer entry) ev = (r, u)" by fastforce
  from assms ev ru have "r = Inr ()"
    by (cases r) (auto simp: ms_apply_def split: if_splits)
  with assms ev ru show ?thesis
    using event_of_ok [OF ev] by (intro that [of u]) (auto simp: ms_apply_def split: if_splits)
qed

lemma ms_apply_keeps_ok:
  assumes "ms_ok s" and "ms_changed_at s < index" and "ms_apply cr s index entry = (r, t)"
  shows "ms_ok t"
proof (cases r)
  case (Inl e)
  with assms have "t = s"
    by (auto simp: ms_apply_def and_then_def dest: dispatch_refused
        split: sum.splits if_splits prod.splits)
  with assms show ?thesis by simp
next
  case (Inr x)
  with assms(3) have "ms_apply cr s index entry = done_with t" by simp
  then show ?thesis
    by (rule ms_apply_ok) (metis assms(1,2) dispatch_pre_sweep sweep_establishes)
qed

end
