(* ===== verification/Membership_Log.thy ===== *)
theory Membership_Log
  imports Membership_Laws
begin

text \<open>
  The membership log as a state machine: the states a node can reach by folding committed
  entries, what holds in every one of them, and what a single entry can change and on whose
  word.
\<close>

section \<open>Reachable states\<close>

text \<open>
  One step: the entry at an index past the last change is folded in, whatever the verdict.
  Raft delivers entries in the order of their indexes, each once.
\<close>

inductive log_step :: "('sk, 'sig) crypto \<Rightarrow> membership_state \<Rightarrow> membership_state \<Rightarrow> bool"
  for cr where
  commit: "ms_changed_at s < index \<Longrightarrow> ms_apply cr s index entry = (verdict, t) \<Longrightarrow> log_step cr s t"

inductive reachable :: "('sk, 'sig) crypto \<Rightarrow> membership_state \<Rightarrow> bool"
  for cr where
  start: "reachable cr ms_new"
| step: "reachable cr s \<Longrightarrow> log_step cr s t \<Longrightarrow> reachable cr t"

inductive_simps log_step_iff: "log_step cr s t"

text \<open>Folding a list of entries, each with its log index.\<close>

fun fold_log ::
    "('sk, 'sig) crypto \<Rightarrow> membership_state \<Rightarrow> (u64 \<times> 'sig signed_event) list \<Rightarrow> membership_state" where
  "fold_log cr s [] = s"
| "fold_log cr s ((index, entry) # rest) = fold_log cr (snd (ms_apply cr s index entry)) rest"

lemma ms_new_ok: "ms_ok ms_new"
  by (simp add: ms_ok_def group_ok_def entries_ok_def one_per_subject_def in_time_def ms_new_def
      membership_queries)

lemma reachable_ok: "reachable cr s \<Longrightarrow> ms_ok s"
  by (induction rule: reachable.induct) (auto simp: log_step_iff ms_new_ok intro: ms_apply_keeps_ok)

lemma ms_apply_changed_at:
  "ms_apply cr s index entry = (verdict, t) \<Longrightarrow> ms_changed_at t = ms_changed_at s \<or> ms_changed_at t = index"
proof (cases verdict)
  case (Inl e)
  assume "ms_apply cr s index entry = (verdict, t)"
  with Inl show ?thesis
    by (auto simp: ms_apply_def and_then_def dest: dispatch_refused
        split: sum.splits if_splits prod.splits)
next
  case (Inr u)
  assume "ms_apply cr s index entry = (verdict, t)"
  with Inr have "ms_apply cr s index entry = done_with t" by simp
  then show ?thesis by (rule ms_apply_ok) (simp add: sweep_def Let_def)
qed

lemma fold_log_reachable:
  assumes "reachable cr s" and "\<forall>(i, _) \<in> set log. ms_changed_at s < i"
    and "sorted_wrt (<) (map fst log)"
  shows "reachable cr (fold_log cr s log)"
  using assms
proof (induction log arbitrary: s)
  case (Cons x log)
  obtain i entry where x: "x = (i, entry)" by (cases x)
  obtain verdict t where t: "ms_apply cr s i entry = (verdict, t)" by fastforce
  have "reachable cr t"
    using Cons.prems t by (auto simp: x intro: reachable.step log_step.commit)
  moreover have "\<forall>(j, _) \<in> set log. ms_changed_at t < j"
    using Cons.prems ms_apply_changed_at [OF t] by (auto simp: x)
  ultimately show ?case
    using Cons.IH [of t] Cons.prems(3) by (simp add: x t)
qed simp

section \<open>What an entry enacts\<close>

text \<open>
  \<open>enacts s entry event proposer A\<close>: the change that takes effect when \<open>entry\<close> does, who
  proposed it and the approvals it then has. Either the entry is the proposal itself, or it
  approves the one waiting.
\<close>

definition own_approval :: "membership_state \<Rightarrow> member_id \<Rightarrow> membership_event \<Rightarrow> member_id btset" where
  "own_approval s m event =
     (if is_core s m \<and> target event \<noteq> Some m then bts_insert m bt_empty else bt_empty)"

inductive enacts ::
    "membership_state \<Rightarrow> u64 \<Rightarrow> 'sig signed_event \<Rightarrow> membership_event \<Rightarrow> member_id \<Rightarrow> member_id btset \<Rightarrow> bool"
  for s index entry where
  proposal: "subject (se_event entry) \<noteq> None \<or> approvals_needed s (se_event entry) = 0 \<Longrightarrow>
    enacts s index entry (se_event entry) (se_proposer entry)
      (own_approval s (se_proposer entry) (se_event entry))"
| approval: "se_event entry = Approved p \<Longrightarrow> bt_get (ms_pending s) p = Some e \<Longrightarrow>
    \<not> expired s p index \<Longrightarrow> target (prop_event e) \<noteq> Some (se_proposer entry) \<Longrightarrow>
    enacts s index entry (prop_event e) (prop_proposer e)
      (bts_insert (se_proposer entry) (prop_approvals e))"

text \<open>The voters behind a change: those of its approvals that count now.\<close>

definition voters_behind :: "membership_state \<Rightarrow> member_id btset \<Rightarrow> member_id set" where
  "voters_behind s A = {m. is_core s m \<and> bt_has A m}"

lemma decided_iff: "decided s event A \<longleftrightarrow> approvals_needed s event \<le> card (voters_behind s A)"
  by (simp add: decided_def length_counting voters_behind_def)

lemma sweep_frame [simp]:
  "ms_group (sweep i s) = ms_group s" "ms_members (sweep i s) = ms_members s"
  "ms_core (sweep i s) = ms_core s" "ms_settings (sweep i s) = ms_settings s"
  "ms_protocol (sweep i s) = ms_protocol s" "ms_changed_at (sweep i s) = ms_changed_at s"
  by (simp_all add: sweep_def Let_def)

definition same_group :: "membership_state \<Rightarrow> membership_state \<Rightarrow> bool" where
  "same_group s t \<longleftrightarrow> ms_members t = ms_members s \<and> ms_core t = ms_core s \<and> ms_protocol t = ms_protocol s"

lemma apply_to_founded_group_update_pending:
  "apply_to_founded_group (s\<lparr>ms_pending := x\<rparr>) event = done_with u \<Longrightarrow>
     \<exists>v. apply_to_founded_group s event = done_with v \<and> same_group v u"
  by (cases event)
    (auto simp: Let_def guarded_ok_iff same_group_def core_supports_ok_iff speaks_def
      split: if_splits option.splits prod.splits)

lemma submit_enacts:
  assumes "submit s index m event = done_with t"
  shows "same_group s t \<or>
    (decided s event (own_approval s m event) \<and>
     (\<exists>u. apply_to_founded_group s event = done_with u \<and> same_group u t))"
proof (cases "decided s event (own_approval s m event)")
  case True
  with assms have "enact s event = done_with t" by (simp add: submit_def own_approval_def Let_def)
  then show ?thesis by (rule enact_effect) (use True in \<open>auto simp: same_group_def\<close>)
next
  case False
  with assms show ?thesis
    by (auto simp: submit_def own_approval_def Let_def same_group_def split: option.splits)
qed

lemma approve_enacts:
  assumes "approve s index p m = done_with t"
  obtains e where "bt_get (ms_pending s) p = Some e" and "\<not> expired s p index"
    and "target (prop_event e) \<noteq> Some m"
    and "authorise s (prop_proposer e) (prop_event e) = Inr ()"
    and "same_group s t \<or>
      (decided s (prop_event e) (bts_insert m (prop_approvals e)) \<and>
       (\<exists>u. apply_to_founded_group s (prop_event e) = done_with u \<and> same_group u t))"
  using assms
proof (rule approve_effect)
  fix e :: proposal
  let ?s = "s\<lparr>ms_pending := bt_remove p (ms_pending s)\<rparr>"
  let ?A = "bts_insert m (prop_approvals e)"
  assume e: "bt_get (ms_pending s) p = Some e" and allowed: "still_allowed ?s index p e m = Inr ()"
    and effect: "if decided s (prop_event e) ?A then enact ?s (prop_event e) = done_with t
      else t = s\<lparr>ms_pending := bt_insert p (e\<lparr>prop_approvals := ?A\<rparr>) (ms_pending s)\<rparr>"
  have "same_group s t \<or> (decided s (prop_event e) ?A \<and>
      (\<exists>u. apply_to_founded_group s (prop_event e) = done_with u \<and> same_group u t))"
  proof (cases "decided s (prop_event e) ?A")
    case True
    with effect have "enact ?s (prop_event e) = done_with t" by simp
    then show ?thesis
      by (rule enact_effect)
        (use True in \<open>auto simp: same_group_def dest!: apply_to_founded_group_update_pending\<close>)
  qed (use effect in \<open>simp add: same_group_def\<close>)
  with that e allowed show ?thesis by (simp add: still_allowed_ok_iff)
qed

text \<open>
  What a successful entry of a founded group does: nothing to the group itself (it waits, or is
  one more approval, or a withdrawal), or it enacts exactly one change, which is authorised and
  decided in the state it is folded into.
\<close>

lemma apply_enacts:
  assumes step: "ms_apply cr s index entry = done_with t" and founded: "ms_group s \<noteq> None"
  obtains (same) "same_group s t"
  | (change) event m A u where "enacts s index entry event m A" and "decided s event A"
      and "authorise s m event = Inr ()" and "apply_to_founded_group s event = done_with u"
      and "same_group u t"
  using step
proof (rule ms_apply_ok)
  fix v
  assume run: "dispatch s index (se_proposer entry) (se_event entry) = done_with v"
    and t: "t = sweep index (v\<lparr>ms_changed_at := index\<rparr>)"
  have vt: "same_group v t" by (simp add: t same_group_def)
  have auth: "authorise s (se_proposer entry) (se_event entry) = Inr ()"
    if "\<And>g f st. se_event entry \<noteq> GroupFounded g f st"
    using run founded that
    by (auto simp: dispatch_def guarded_ok_iff split: membership_event.splits if_splits)
  show thesis
  proof (cases "se_event entry")
    case (GroupFounded g f st)
    with run founded show thesis by (auto simp: dispatch_def found_def)
  next
    case (Withdrawn p)
    with run founded have "withdraw s p (se_proposer entry) = done_with v"
      by (auto simp: dispatch_def guarded_ok_iff split: if_splits)
    then have "same_group s v"
      by (auto simp: withdraw_def same_group_def split: option.splits if_splits)
    with vt show thesis by (intro same) (simp add: same_group_def)
  next
    case (Approved p)
    with run founded have "approve s index p (se_proposer entry) = done_with v"
      by (auto simp: dispatch_def guarded_ok_iff split: if_splits)
    then show thesis
    proof (rule approve_enacts)
      fix e :: proposal
      assume e: "bt_get (ms_pending s) p = Some e" "\<not> expired s p index"
        "target (prop_event e) \<noteq> Some (se_proposer entry)"
        and "authorise s (prop_proposer e) (prop_event e) = Inr ()"
        and "same_group s v \<or>
          (decided s (prop_event e) (bts_insert (se_proposer entry) (prop_approvals e)) \<and>
           (\<exists>u. apply_to_founded_group s (prop_event e) = done_with u \<and> same_group u v))"
      with vt show thesis
        using same change [OF enacts.approval [OF Approved e]] by (auto simp: same_group_def)
    qed
  qed (use run founded auth vt same submit_enacts [of s index "se_proposer entry" "se_event entry" v]
        change [OF enacts.proposal] in
      \<open>fastforce simp: dispatch_def guarded_ok_iff same_group_def simp del: authorise.simps
        apply_to_founded_group.simps split: if_splits\<close>)+
qed

lemma apply_by_member:
  assumes "ms_apply cr s index entry = done_with t" and "ms_group s \<noteq> None"
  shows "is_member s (se_proposer entry) \<and> verify_event cr entry = Inr ()
    \<and> se_changed_at entry = ms_changed_at s"
  using assms(1)
proof (rule ms_apply_ok)
  fix v
  assume "event_of cr entry = Inr (se_event entry)" and "se_changed_at entry = ms_changed_at s"
    and "dispatch s index (se_proposer entry) (se_event entry) = done_with v"
  with assms(2) show ?thesis
    by (auto simp: dispatch_def is_member_def found_def dest: event_of_ok
        split: membership_event.splits if_splits)
qed

lemma voters_change:
  assumes "apply_to_founded_group s event = done_with u"
    and "{m. is_core u m} \<noteq> {m. is_core s m}"
  shows "changes_the_voters s event"
proof (cases event)
  case (CoreGroupChanged core)
  then have u: "u = s\<lparr>ms_core := bt_collect core\<rparr>" and len: "bt_len (bt_collect core) = length core"
    using assms(1) by (auto simp: Let_def guarded_ok_iff split: if_splits)
  have new: "{m. is_core u m} = dom (bt_get (bt_collect core))"
    by (simp add: u is_core_def bt_has_dom)
  have old: "{m. is_core s m} = dom (bt_get (ms_core s))"
    by (simp add: is_core_def bt_has_dom)
  show ?thesis
  proof (rule ccontr)
    assume "\<not> ?thesis"
    then have "length core = card {m. is_core s m}" and "fst ` set core \<subseteq> {m. is_core s m}"
      by (auto simp: CoreGroupChanged list_ex_iff core_len is_core_def)
    with len new have "{m. is_core u m} = {m. is_core s m}"
      by (intro card_subset_eq) (simp_all add: bt_len_card)
    with assms(2) show False by simp
  qed
next
  case (MemberExpelled m r)
  with assms show ?thesis
    by (auto simp: Let_def is_core_def bt_has_def split: if_splits)
qed (use assms in \<open>auto simp: is_core_def Let_def split: option.splits prod.splits\<close>)

lemma same_group_core: "same_group s t \<Longrightarrow> is_core t = is_core s"
  by (auto simp: same_group_def is_core_def fun_eq_iff)

section \<open>The log's guarantees\<close>


text \<open>
  C3. In every state a log can reach, what waits for approvals is in order: each entry is a
  change that needs them, no two are about the same subject, no expulsion carries the approval of its
  target, and none had been waiting for \<open>pending_expiry\<close> log entries when the last change was accepted.
  (Entries that are refused or are Raft's own do not count as changes; while only such entries come, a
  proposal waits on past its time.)
\<close>

theorem pending_of_reachable_state:
  assumes "reachable cr s" and "bt_get (ms_pending s) p = Some e"
  shows "subject (prop_event e) \<noteq> None
    \<and> (\<forall>m. target (prop_event e) = Some m \<longrightarrow> \<not> bt_has (prop_approvals e) m)
    \<and> p \<le> ms_changed_at s \<and> unat (ms_changed_at s) - unat p < unat (pending_expiry (ms_settings s))
    \<and> (\<forall>q f. bt_get (ms_pending s) q = Some f \<and> subject (prop_event f) = subject (prop_event e)
        \<longrightarrow> q = p)"
proof -
  note ok = reachable_ok [OF assms(1)]
  have "entry_ok e" using ok assms(2) by (simp add: ms_ok_def entries_ok_def)
  moreover have "p \<le> ms_changed_at s" "sat_sub (ms_changed_at s) p < pending_expiry (ms_settings s)"
    using ok assms(2) by (auto simp: ms_ok_def in_time_def)
  moreover have "\<forall>q f. bt_get (ms_pending s) q = Some f \<and>
      subject (prop_event f) = subject (prop_event e) \<longrightarrow> q = p"
    using ok assms(2) unfolding ms_ok_def one_per_subject_def by blast
  ultimately show ?thesis by (simp add: entry_ok_def word_less_nat_alt unat_sat_sub)
qed

text \<open>
  C4. The set of voters never changes without a majority of the voters: if an entry of a founded
  group takes effect and leaves a different set of core members, then it enacted a change that
  more than half of the core, as it stood, has approved.
\<close>

theorem voters_change_by_majority:
  assumes "ms_apply cr s index entry = done_with t" and "ms_group s \<noteq> None"
    and "{m. is_core t m} \<noteq> {m. is_core s m}"
  shows "\<exists>event m A. enacts s index entry event m A
    \<and> card {m. is_core s m} < 2 * card (voters_behind s A)"
  using assms(1,2)
proof (cases rule: apply_enacts)
  case same
  with assms(3) same_group_core show ?thesis by force
next
  case (change event m A u)
  then have "changes_the_voters s event"
    using assms(3) voters_change [of s event u] same_group_core [of u t] by simp
  then have "approvals_needed s event = bt_len (ms_core s) div 2 + 1"
    by (cases event) simp_all
  with change(2) have "card {m. is_core s m} < 2 * card (voters_behind s A)"
    by (simp add: decided_iff core_len)
  with change(1) show ?thesis by blast
qed

lemma protocol_change:
  assumes "apply_to_founded_group s event = done_with u" and "ms_protocol u \<noteq> ms_protocol s"
  shows "event = ProtocolRaised (ms_protocol u)"
  using assms
  by (cases event) (auto simp: Let_def guarded_ok_iff split: if_splits option.splits prod.splits)

text \<open>
  The group protocol moves one step up at a time, by a majority of the core, and only while
  every core member's build speaks the new one.
\<close>

theorem protocol_raised_in_step:
  assumes "ms_apply cr s index entry = done_with t" and "ms_group s \<noteq> None"
    and "ms_protocol t \<noteq> ms_protocol s"
  shows "ms_protocol t = ms_protocol s + 1
    \<and> (\<forall>m. is_core s m \<longrightarrow> speaks s m (ms_protocol t))
    \<and> (\<exists>m A. enacts s index entry (ProtocolRaised (ms_protocol t)) m A
        \<and> card {m. is_core s m} < 2 * card (voters_behind s A))"
  using assms(1,2)
proof (cases rule: apply_enacts)
  case same
  with assms(3) show ?thesis by (simp add: same_group_def)
next
  case (change event m A u)
  then have ev: "event = ProtocolRaised (ms_protocol t)"
    using assms(3) protocol_change [of s event u] by (simp add: same_group_def)
  with change(2) have "card {m. is_core s m} < 2 * card (voters_behind s A)"
    by (simp add: decided_iff core_len)
  with change(1,3) ev show ?thesis
    by (auto simp: core_supports_ok_iff is_core_def bt_has_def split: if_splits)
qed

lemma members_change:
  assumes "apply_to_founded_group s event = done_with u" and "is_member u m \<noteq> is_member s m"
  shows "if is_member u m then \<exists>name. event = MemberAdded \<lparr>profile_id = m, profile_name = name\<rparr>
    else \<exists>reason. event = MemberExpelled m reason"
proof (cases event)
  case (MemberAdded profile)
  with assms show ?thesis
    by (cases profile) (auto simp: is_member_def bt_has_def Let_def split: option.splits if_splits)
qed (use assms in \<open>auto simp: is_member_def bt_has_def Let_def guarded_ok_iff
      split: option.splits if_splits\<close>)

lemma enacts_no_target:
  assumes "ms_ok s" and "enacts s index entry event m A" and "target event = Some x"
  shows "x \<notin> voters_behind s A"
  using assms(2,1,3)
  by (cases rule: enacts.cases)
    (auto simp: voters_behind_def own_approval_def ms_ok_def entries_ok_def entry_ok_def)

text \<open>
  C9. The log is closed: an entry takes effect in a founded group only if a current member signed
  it against the current membership; and nobody joins or leaves by it unless at least one core
  member, other than the one who leaves, has approved.
\<close>

theorem membership_is_closed:
  assumes "reachable cr s" and "ms_apply cr s index entry = done_with t" and "ms_group s \<noteq> None"
  shows "is_member s (se_proposer entry) \<and> verify_event cr entry = Inr ()
    \<and> se_changed_at entry = ms_changed_at s
    \<and> (\<forall>x. is_member t x \<noteq> is_member s x \<longrightarrow>
        (\<exists>event m A. enacts s index entry event m A \<and> subject event = Some (AboutMember x)
           \<and> (\<exists>c \<in> voters_behind s A. is_member t x \<or> c \<noteq> x)))"
proof -
  have "\<exists>event m A. enacts s index entry event m A \<and> subject event = Some (AboutMember x)
      \<and> (\<exists>c \<in> voters_behind s A. is_member t x \<or> c \<noteq> x)"
    if x: "is_member t x \<noteq> is_member s x" for x
    using assms(2,3)
  proof (cases rule: apply_enacts)
    case same
    with x show ?thesis by (simp add: same_group_def is_member_def)
  next
    case (change event m A u)
    have tu: "is_member t x = is_member u x" using change(5) by (simp add: same_group_def is_member_def)
    have kind: "if is_member t x then \<exists>name. event = MemberAdded \<lparr>profile_id = x, profile_name = name\<rparr>
        else \<exists>reason. event = MemberExpelled x reason"
      using members_change [OF change(4)] x by (simp only: tu)
    then have "1 \<le> approvals_needed s event" and about: "subject event = Some (AboutMember x)"
      by (auto split: if_splits)
    with change(2) obtain c where c: "c \<in> voters_behind s A"
      by (metis card.empty decided_iff ex_in_conv not_one_le_zero order.trans)
    have "is_member t x \<or> c \<noteq> x"
      using kind enacts_no_target [OF reachable_ok [OF assms(1)] change(1), of x] c
      by (auto split: if_splits)
    with change(1) about c show ?thesis by blast
  qed
  with apply_by_member [OF assms(2,3)] show ?thesis by blast
qed

lemma pledge_change:
  assumes "apply_to_founded_group s event = done_with u"
    and "bt_get (ms_members s) x = Some r" and "bt_get (ms_members u) x = Some r'"
    and "rec_pledge r' \<noteq> rec_pledge r"
  shows "event = PledgeChanged x (rec_pledge r')"
  using assms
  by (cases event)
    (auto simp: Let_def guarded_ok_iff record_of_def split: if_splits option.splits prod.splits)

text \<open>
  C10. A pledge is its member's own: an entry that changes the pledge of somebody who is a member
  before and after is that member's own \<open>PledgeChanged\<close>, at no less than the group's minimum.
  Correcting a record or approving a proposal never touches one.
\<close>

theorem pledge_is_own:
  assumes "reachable cr s" and "ms_apply cr s index entry = done_with t"
    and "bt_get (ms_members s) x = Some r" and "bt_get (ms_members t) x = Some r'"
    and "rec_pledge r' \<noteq> rec_pledge r"
  shows "se_event entry = PledgeChanged x (rec_pledge r') \<and> se_proposer entry = x
    \<and> min_pledge_bytes (ms_settings s) \<le> rec_pledge r'"
proof -
  have ok: "ms_ok s" using assms(1) by (rule reachable_ok)
  with assms(3) have "ms_group s \<noteq> None" by (auto simp: ms_ok_def group_ok_def)
  with assms(2) show ?thesis
  proof (cases rule: apply_enacts)
    case same
    with assms(3-5) show ?thesis by (simp add: same_group_def)
  next
    case (change event m A u)
    have ev: "event = PledgeChanged x (rec_pledge r')"
      using change(4,5) assms(3-5) pledge_change [of s event u x r r'] by (simp add: same_group_def)
    have m: "m = x" and "min_pledge_bytes (ms_settings s) \<le> rec_pledge r'"
      using change(3) ev by (auto simp: check_pledge_def split: if_splits)
    with change(1) ev ok show ?thesis
      by (cases rule: enacts.cases) (auto simp: ms_ok_def entries_ok_def entry_ok_def, force)
  qed
qed

lemma changed_at_grows: "log_step cr s t \<Longrightarrow> ms_changed_at s \<le> ms_changed_at t"
  using ms_apply_changed_at by (force simp: log_step_iff)

lemma changed_at_grows_steps:
  "rtranclp (log_step cr) s t \<Longrightarrow> ms_changed_at s \<le> ms_changed_at t"
  by (induction rule: rtranclp_induct) (auto dest: changed_at_grows)

text \<open>
  C11. No entry takes effect twice. Once one has been applied, it is refused in every state the
  log goes on to, at whatever index it turns up again.
\<close>

theorem no_entry_applies_twice:
  assumes "ms_apply cr s index entry = done_with t" and "ms_changed_at s < index"
    and "rtranclp (log_step cr) t u"
  shows "ms_apply cr u index' entry = refused (StaleProposal (ms_changed_at s) (ms_changed_at u)) u"
  using assms(1)
proof (rule ms_apply_ok)
  fix v
  assume ev: "event_of cr entry = Inr (se_event entry)"
    and c: "se_changed_at entry = ms_changed_at s"
    and t: "t = sweep index (v\<lparr>ms_changed_at := index\<rparr>)"
  have "index \<le> ms_changed_at u" using changed_at_grows_steps [OF assms(3)] by (simp add: t)
  with assms(2) have "ms_changed_at u \<noteq> ms_changed_at s" by auto
  with ev c show ?thesis by (simp add: ms_apply_def)
qed

section \<open>Logs to evaluate\<close>

text \<open>
  Three small logs: a group of one that learns a second protocol; a group of three that is asked
  to expel one of them; a group of four in which two expulsions overlap.
\<close>

definition demo_founders :: "256 word list \<Rightarrow> (member_profile \<times> node_addr) list" where
  "demo_founders =
     map (\<lambda>k. (\<lparr>profile_id = MemberId k, profile_name = ''m''\<rparr>, lookup_only))"

abbreviation demo_founding :: "256 word list \<Rightarrow> u64 \<times> member_id signed_event" where
  "demo_founding ks \<equiv>
     (1, plain_entry (MemberId 1) (GroupFounded (GroupId 9) (demo_founders ks) default_settings) 0)"

definition solo_log :: "(u64 \<times> member_id signed_event) list" where
  "solo_log =
     [demo_founding [1], (2, plain_entry (MemberId 1) (ProtocolSupported (MemberId 1) 2) 1)]"

definition trio_log :: "(u64 \<times> member_id signed_event) list" where
  "trio_log =
     [demo_founding [1, 2, 3],
      (2, plain_entry (MemberId 1) (MemberExpelled (MemberId 3) ''gone'') 1)]"

definition four_log :: "(u64 \<times> member_id signed_event) list" where
  "four_log =
     [demo_founding [1, 2, 3, 4],
      (2, plain_entry (MemberId 1) (MemberExpelled (MemberId 4) ''gone'') 1),
      (3, plain_entry (MemberId 2) (Approved 2) 2),
      (4, plain_entry (MemberId 1) (MemberExpelled (MemberId 3) ''gone'') 3),
      (5, plain_entry (MemberId 2) (Approved 4) 4),
      (6, plain_entry (MemberId 4) (Approved 4) 5)]"

abbreviation demo :: "(u64 \<times> member_id signed_event) list \<Rightarrow> membership_state" where
  "demo log \<equiv> fold_log plain_crypto ms_new log"

lemma demo_reachable:
  assumes "sorted_wrt (<) (0 # map fst log)"
  shows "reachable plain_crypto (demo log)"
proof (rule fold_log_reachable [OF reachable.start])
  show "\<forall>(i, _) \<in> set log. ms_changed_at ms_new < i"
    using assms by (auto simp: ms_new_def)
qed (use assms in simp)

lemma solo_reachable: "reachable plain_crypto (demo solo_log)"
  by (rule demo_reachable) code_simp

lemma trio_reachable: "reachable plain_crypto (demo trio_log)"
  by (rule demo_reachable) code_simp

lemma four_reachable: "reachable plain_crypto (demo four_log)"
  by (rule demo_reachable) code_simp

lemma trio_pending:
  "bt_get (ms_pending (demo trio_log)) 2 =
     Some \<lparr>prop_event = MemberExpelled (MemberId 3) ''gone'', prop_proposer = MemberId 1,
       prop_approvals = bts_of [MemberId 1]\<rparr>"
  by code_simp

lemma core_keys: "bt_keys (ms_core s) = ks \<Longrightarrow> {m. is_core s m} = set ks"
  by (auto simp: is_core_def bt_has_dom simp flip: set_bt_keys)

abbreviation second_vote :: "member_id signed_event" where
  "second_vote \<equiv> plain_entry (MemberId 2) (Approved 2) 2"

lemma trio_founded: "ms_group (demo trio_log) \<noteq> None"
  by code_simp

lemma trio_step:
  "ms_apply plain_crypto (demo trio_log) 3 second_vote =
     done_with (snd (ms_apply plain_crypto (demo trio_log) 3 second_vote))"
  by (rule outcome_okI) code_simp

lemma trio_core: "{m. is_core (demo trio_log) m} = set [MemberId 1, MemberId 2, MemberId 3]"
  by (rule core_keys) code_simp

lemma trio_step_core:
  "{m. is_core (snd (ms_apply plain_crypto (demo trio_log) 3 second_vote)) m} =
     set [MemberId 1, MemberId 2]"
  by (rule core_keys) code_simp

lemma trio_step_member:
  "\<not> is_member (snd (ms_apply plain_crypto (demo trio_log) 3 second_vote)) (MemberId 3)
     \<and> is_member (demo trio_log) (MemberId 3)"
  by code_simp

theorem refused_entry_changes_nothing_witness:
  "\<exists>t. ms_apply plain_crypto (demo trio_log) 3 (plain_entry (MemberId 3) (Approved 2) 2) =
     refused (SelfApproval (MemberId 3)) t \<and> t = demo trio_log"
proof -
  let ?r = "ms_apply plain_crypto (demo trio_log) 3 (plain_entry (MemberId 3) (Approved 2) 2)"
  have r: "?r = refused (SelfApproval (MemberId 3)) (snd ?r)"
    by (rule outcome_errI) code_simp
  with refused_entry_changes_nothing [OF r] show ?thesis by metis
qed


theorem pending_of_reachable_state_witness:
  "unat (ms_changed_at (demo trio_log)) - unat (2::u64) < unat (pending_expiry (ms_settings (demo trio_log)))"
  using pending_of_reachable_state [OF trio_reachable trio_pending] by blast

theorem voters_change_by_majority_witness:
  "\<exists>event m A. enacts (demo trio_log) 3 second_vote event m A
     \<and> card {m. is_core (demo trio_log) m} < 2 * card (voters_behind (demo trio_log) A)"
proof (rule voters_change_by_majority [OF trio_step trio_founded])
  have "MemberId 3 \<in> {m. is_core (demo trio_log) m}" by (simp only: trio_core) simp
  moreover have "MemberId 3 \<notin> {m. is_core (snd (ms_apply plain_crypto (demo trio_log) 3 second_vote)) m}"
    by (simp only: trio_step_core) simp
  ultimately show "{m. is_core (snd (ms_apply plain_crypto (demo trio_log) 3 second_vote)) m} \<noteq>
      {m. is_core (demo trio_log) m}" by blast
qed

theorem membership_is_closed_witness:
  "\<exists>event m A. enacts (demo trio_log) 3 second_vote event m A
     \<and> subject event = Some (AboutMember (MemberId 3))
     \<and> (\<exists>c \<in> voters_behind (demo trio_log) A. c \<noteq> MemberId 3)"
  using membership_is_closed [OF trio_reachable trio_step trio_founded] trio_step_member by blast

abbreviation raise_to_2 :: "member_id signed_event" where
  "raise_to_2 \<equiv> plain_entry (MemberId 1) (ProtocolRaised 2) 2"

theorem protocol_raised_in_step_witness:
  "ms_protocol (snd (ms_apply plain_crypto (demo solo_log) 3 raise_to_2)) =
     ms_protocol (demo solo_log) + 1"
proof -
  let ?r = "ms_apply plain_crypto (demo solo_log) 3 raise_to_2"
  have ok: "?r = done_with (snd ?r)" by (rule outcome_okI) code_simp
  have founded: "ms_group (demo solo_log) \<noteq> None" by code_simp
  have moved: "ms_protocol (snd ?r) \<noteq> ms_protocol (demo solo_log)" by code_simp
  from protocol_raised_in_step [OF ok founded moved] show ?thesis by blast
qed

abbreviation pledge_200 :: "member_id signed_event" where
  "pledge_200 \<equiv> plain_entry (MemberId 1) (PledgeChanged (MemberId 1) (200 * GB)) 2"

theorem pledge_is_own_witness:
  "\<exists>r'. bt_get (ms_members (snd (ms_apply plain_crypto (demo solo_log) 3 pledge_200))) (MemberId 1) = Some r'
     \<and> min_pledge_bytes (ms_settings (demo solo_log)) \<le> rec_pledge r'"
proof -
  let ?t = "ms_apply plain_crypto (demo solo_log) 3 pledge_200"
  let ?r = "\<lparr>rec_id = MemberId 1, rec_name = ''m'', rec_pledge = 0, rec_protocol_max = 2\<rparr>"
  have ok: "?t = done_with (snd ?t)" by (rule outcome_okI) code_simp
  have before: "bt_get (ms_members (demo solo_log)) (MemberId 1) = Some ?r" by code_simp
  have after: "bt_get (ms_members (snd ?t)) (MemberId 1) = Some (?r\<lparr>rec_pledge := 200 * GB\<rparr>)"
    by code_simp
  have moved: "rec_pledge (?r\<lparr>rec_pledge := 200 * GB\<rparr>) \<noteq> rec_pledge ?r" by code_simp
  from pledge_is_own [OF solo_reachable ok before after moved] after show ?thesis by blast
qed

theorem no_entry_applies_twice_witness:
  "\<exists>t. ms_apply plain_crypto (demo solo_log) 3 pledge_200 = done_with t
     \<and> ms_apply plain_crypto t 4 pledge_200 = refused (StaleProposal 2 3) t"
proof -
  let ?t = "ms_apply plain_crypto (demo solo_log) 3 pledge_200"
  have ok: "?t = done_with (snd ?t)" by (rule outcome_okI) code_simp
  have later: "ms_changed_at (demo solo_log) < 3" by code_simp
  have at: "ms_changed_at (demo solo_log) = 2" "ms_changed_at (snd ?t) = 3" by code_simp+
  have "rtranclp (log_step plain_crypto) (snd ?t) (snd ?t)" by simp
  from no_entry_applies_twice [OF ok later this, of 4] ok at show ?thesis by metis
qed

section \<open>What the comments say otherwise\<close>

text \<open>
  A proposal can wait with all the approvals it needs. The documentation of
  \<open>approvals_counting\<close> says that while a proposal is pending the approvals that count are
  always fewer than \<open>approvals_needed\<close>; but a core group that shrinks lowers the threshold
  under a proposal already waiting, and nothing enacts it until somebody approves again. A log
  of six entries gets there.
\<close>

theorem pending_with_enough_approvals:
  "\<exists>s p e. reachable plain_crypto s \<and> bt_get (ms_pending s) p = Some e
     \<and> approvals_needed s (prop_event e) \<le> length (approvals_counting s e)"
proof (intro exI conjI)
  let ?e = "\<lparr>prop_event = MemberExpelled (MemberId 4) ''gone'', prop_proposer = MemberId 1,
    prop_approvals = bts_of [MemberId 1, MemberId 2]\<rparr>"
  show "reachable plain_crypto (demo four_log)" by (rule four_reachable)
  show "bt_get (ms_pending (demo four_log)) 2 = Some ?e" by code_simp
  show "approvals_needed (demo four_log) (prop_event ?e) \<le>
      length (approvals_counting (demo four_log) ?e)" by code_simp
qed

text \<open>
  \<open>expires_after\<close> does not count changes. Its documentation, and that of the
  \<open>pending_expiry\<close> setting, call it a number of changes to the membership; what the sweep
  measures is log indexes, which Raft's own entries and refused ones use up too. Here a proposal
  that will, by that number, outlast 127 more changes is gone with the next one.
\<close>

theorem expiry_counts_log_entries:
  "\<exists>s p e t index entry.
     reachable plain_crypto s \<and> bt_get (ms_pending s) p = Some e \<and> expires_after s p = 127
     \<and> ms_apply plain_crypto s index entry = done_with t \<and> same_group s t = False
     \<and> bt_get (ms_pending t) p = None"
proof (intro exI conjI)
  let ?entry = "plain_entry (MemberId 1) (PledgeChanged (MemberId 1) (200 * GB)) 2"
  let ?r = "ms_apply plain_crypto (demo trio_log) 130 ?entry"
  show "reachable plain_crypto (demo trio_log)" by (rule trio_reachable)
  show "bt_get (ms_pending (demo trio_log)) 2 =
     Some \<lparr>prop_event = MemberExpelled (MemberId 3) ''gone'', prop_proposer = MemberId 1,
       prop_approvals = bts_of [MemberId 1]\<rparr>" by (rule trio_pending)
  show "expires_after (demo trio_log) 2 = 127" by code_simp
  show "?r = done_with (snd ?r)" by (rule outcome_okI) code_simp
  show "same_group (demo trio_log) (snd ?r) = False" by code_simp
  show "bt_get (ms_pending (snd ?r)) 2 = None" by code_simp
qed

end
