(* ===== verification/Keeping.thy ===== *)
theory Keeping
  imports Ids "HOL-Library.Option_ord" "HOL-Library.Product_Lexorder"
begin

text \<open>
  Why a node keeps a blob, how much it keeps and what it lets go of:
  \<open>crates/distlib-core/src/keeping.rs\<close>. The hash map of kept blobs is a map ordered by blob:
  nothing below returns its order. Times are instants on a line. The hexadecimal text of an
  identifier is BLAKE3's own and so an argument of what spells or reads a tag. A panic of the
  source (a missing entry, an unsigned subtraction below zero) is the result \<open>None\<close>.
\<close>

section \<open>Reasons and tags\<close>

datatype keep_reason = Own | Custody | Cache

fun strength :: "keep_reason \<Rightarrow> nat" where
  "strength Own = 0"
| "strength Custody = 1"
| "strength Cache = 2"

instantiation keep_reason :: linorder
begin

definition less_eq_keep_reason :: "keep_reason \<Rightarrow> keep_reason \<Rightarrow> bool" where
  "less_eq_keep_reason a b \<longleftrightarrow> strength a \<le> strength b"

definition less_keep_reason :: "keep_reason \<Rightarrow> keep_reason \<Rightarrow> bool" where
  "less_keep_reason a b \<longleftrightarrow> strength a < strength b"

instance
proof
  fix a b :: keep_reason
  show "a \<le> b \<Longrightarrow> b \<le> a \<Longrightarrow> a = b"
    by (cases a; cases b) (simp_all add: less_eq_keep_reason_def)
qed (auto simp: less_eq_keep_reason_def less_keep_reason_def)

end

definition all_reasons :: "keep_reason list" where
  "all_reasons = [Own, Custody, Cache]"

definition is_mandatory :: "keep_reason \<Rightarrow> bool" where
  "is_mandatory r \<longleftrightarrow> r \<noteq> Cache"

fun reason_prefix :: "keep_reason \<Rightarrow> string" where
  "reason_prefix Own = ''own/''"
| "reason_prefix Custody = ''custody/''"
| "reason_prefix Cache = ''cache/''"

record hex_codec =
  to_hex :: "256 word \<Rightarrow> string"
  from_hex :: "string \<Rightarrow> 256 word option"

definition reason_tag :: "hex_codec \<Rightarrow> keep_reason \<Rightarrow> item_id \<Rightarrow> content_hash \<Rightarrow> string" where
  "reason_tag hx r item blob =
     reason_prefix r @ to_hex hx (item_bytes item) @ ''/'' @ to_hex hx (hash_bytes blob)"

definition item_prefix :: "hex_codec \<Rightarrow> keep_reason \<Rightarrow> item_id \<Rightarrow> string" where
  "item_prefix hx r item = reason_prefix r @ to_hex hx (item_bytes item) @ ''/''"

text \<open>\<open>str::strip_prefix\<close> and \<open>str::split_once\<close>.\<close>

fun strip_prefix :: "string \<Rightarrow> string \<Rightarrow> string option" where
  "strip_prefix [] s = Some s"
| "strip_prefix (c # p) [] = None"
| "strip_prefix (c # p) (d # s) = (if c = d then strip_prefix p s else None)"

fun split_once :: "char \<Rightarrow> string \<Rightarrow> (string \<times> string) option" where
  "split_once c [] = None"
| "split_once c (d # s) =
     (if c = d then Some ([], s) else map_option (\<lambda>(a, b). (d # a, b)) (split_once c s))"

definition parse_tag :: "hex_codec \<Rightarrow> keep_reason \<Rightarrow> string \<Rightarrow> (item_id \<times> content_hash) option" where
  "parse_tag hx r tag =
     (case strip_prefix (reason_prefix r) tag of
        None \<Rightarrow> None
      | Some rest \<Rightarrow>
          (case split_once (CHR ''/'') rest of
             None \<Rightarrow> None
           | Some (item, blob) \<Rightarrow>
               (case (from_hex hx item, from_hex hx blob) of
                  (Some i, Some b) \<Rightarrow> Some (ItemId i, ContentHash b)
                | _ \<Rightarrow> None)))"

section \<open>What is kept\<close>

record kept_blob =
  kb_bytes :: u64
  kb_tags :: "(keep_reason \<times> item_id) list"

type_synonym kept_blobs = "(content_hash, kept_blob) btmap"

record storage_use =
  own_bytes :: u64
  custody_bytes :: u64
  cache_bytes :: u64

record evictions =
  ev_items :: "item_id list"
  ev_short_by :: u64

definition strongest_reason :: "kept_blob \<Rightarrow> keep_reason option" where
  "strongest_reason k =
     (case map fst (kb_tags k) of [] \<Rightarrow> None | r # rs \<Rightarrow> Some (fold min rs r))"

definition kept_add ::
    "kept_blobs \<Rightarrow> keep_reason \<Rightarrow> item_id \<Rightarrow> content_hash \<Rightarrow> u64 \<Rightarrow> kept_blobs" where
  "kept_add kept reason item blob bytes =
     (let entry = (case bt_get kept blob of None \<Rightarrow> \<lparr>kb_bytes = bytes, kb_tags = []\<rparr> | Some k \<Rightarrow> k)
      in bt_insert blob (entry\<lparr>kb_tags := kb_tags entry @ [(reason, item)]\<rparr>) kept)"

definition count_use :: "kept_blob \<Rightarrow> storage_use \<Rightarrow> storage_use" where
  "count_use k u =
     (case strongest_reason k of
        None \<Rightarrow> u
      | Some Own \<Rightarrow> u\<lparr>own_bytes := own_bytes u + kb_bytes k\<rparr>
      | Some Custody \<Rightarrow> u\<lparr>custody_bytes := custody_bytes u + kb_bytes k\<rparr>
      | Some Cache \<Rightarrow> u\<lparr>cache_bytes := cache_bytes u + kb_bytes k\<rparr>)"

definition usage :: "kept_blobs \<Rightarrow> storage_use" where
  "usage kept = fold count_use (bt_values kept) \<lparr>own_bytes = 0, custody_bytes = 0, cache_bytes = 0\<rparr>"

definition mandatory_bytes :: "storage_use \<Rightarrow> u64" where
  "mandatory_bytes u = own_bytes u + custody_bytes u"

definition total_bytes :: "storage_use \<Rightarrow> u64" where
  "total_bytes u = mandatory_bytes u + cache_bytes u"

definition mandatory_growth :: "kept_blobs \<Rightarrow> (content_hash \<times> u64) list \<Rightarrow> u64" where
  "mandatory_growth kept blobs =
     sum_list (map snd (filter (\<lambda>(blob, _).
       \<not> (case Option.bind (bt_get kept blob) strongest_reason of
            None \<Rightarrow> False | Some r \<Rightarrow> is_mandatory r)) blobs))"

definition uncounted_bytes :: "kept_blobs \<Rightarrow> (content_hash \<times> u64) list \<Rightarrow> u64" where
  "uncounted_bytes kept blobs =
     sum_list (map snd (filter (\<lambda>(blob, _).
       \<not> (case bt_get kept blob of None \<Rightarrow> False | Some k \<Rightarrow> kb_bytes k > 0)) blobs))"

section \<open>Evictions\<close>

text \<open>Every tag, in the order the loop meets them.\<close>

definition all_tags :: "kept_blobs \<Rightarrow> (content_hash \<times> keep_reason \<times> item_id) list" where
  "all_tags kept =
     concat (map (\<lambda>(blob, k). map (\<lambda>(reason, item). (blob, reason, item)) (kb_tags k))
       (bt_entries kept))"

definition sort_out ::
    "content_hash \<times> keep_reason \<times> item_id
      \<Rightarrow> (item_id, content_hash list) btmap \<times> item_id btset
      \<Rightarrow> (item_id, content_hash list) btmap \<times> item_id btset" where
  "sort_out = (\<lambda>(blob, reason, item) (cached, mandatory).
     if is_mandatory reason then (cached, bts_insert item mandatory)
     else (bt_push item blob cached, mandatory))"

text \<open>One blob of an evicted item: a tag fewer, and its bytes free with the last of them.\<close>

definition free_blob ::
    "kept_blobs \<Rightarrow> content_hash \<Rightarrow> (content_hash, nat) btmap \<times> u64
      \<Rightarrow> ((content_hash, nat) btmap \<times> u64) option" where
  "free_blob kept blob = (\<lambda>(tags_left, tot).
     case bt_get tags_left blob of
       None \<Rightarrow> None
     | Some left \<Rightarrow>
         if left = 0 then None
         else let tags_left' = bt_insert blob (left - 1) tags_left
              in if left - 1 = 0
                 then (case bt_get kept blob of
                         None \<Rightarrow> None
                       | Some k \<Rightarrow>
                           if kb_bytes k \<le> tot then Some (tags_left', tot - kb_bytes k) else None)
                 else Some (tags_left', tot))"

fun free_blobs ::
    "kept_blobs \<Rightarrow> content_hash list \<Rightarrow> (content_hash, nat) btmap \<times> u64
      \<Rightarrow> ((content_hash, nat) btmap \<times> u64) option" where
  "free_blobs kept [] st = Some st"
| "free_blobs kept (blob # blobs) st = Option.bind (free_blob kept blob st) (free_blobs kept blobs)"

fun evict_loop ::
    "kept_blobs \<Rightarrow> (item_id, content_hash list) btmap \<Rightarrow> u64 \<Rightarrow> item_id list
      \<Rightarrow> (content_hash, nat) btmap \<times> u64 \<Rightarrow> item_id list \<Rightarrow> (u64 \<times> item_id list) option" where
  "evict_loop kept cached limit [] (tags_left, tot) items = Some (tot, items)"
| "evict_loop kept cached limit (item # rest) (tags_left, tot) items =
     (if tot \<le> limit then Some (tot, items)
      else case bt_get cached item of
             None \<Rightarrow> None
           | Some blobs \<Rightarrow>
               Option.bind (free_blobs kept blobs (tags_left, tot))
                 (\<lambda>st. evict_loop kept cached limit rest st (items @ [item])))"

definition eviction_order ::
    "kept_blobs \<Rightarrow> item_id \<Rightarrow> (item_id \<Rightarrow> int option) \<Rightarrow> (int option \<times> item_id) list" where
  "eviction_order kept keeping last_used =
     (let (cached, mandatory) = fold sort_out (all_tags kept) (bt_empty, bt_empty)
      in sort (map (\<lambda>item. (last_used item, item))
           (filter (\<lambda>item. item \<noteq> keeping \<and> \<not> bt_has mandatory item) (bt_keys cached))))"

definition evictions_for ::
    "kept_blobs \<Rightarrow> item_id \<Rightarrow> u64 \<Rightarrow> u64 \<Rightarrow> (item_id \<Rightarrow> int option) \<Rightarrow> evictions option" where
  "evictions_for kept keeping needed limit last_used =
     (let (cached, mandatory) = fold sort_out (all_tags kept) (bt_empty, bt_empty);
          candidates = map snd (eviction_order kept keeping last_used);
          tags_left = bt_map (\<lambda>k. length (kb_tags k)) kept;
          tot = total_bytes (usage kept) + needed
      in map_option (\<lambda>(tot', items). \<lparr>ev_items = items, ev_short_by = sat_sub tot' limit\<rparr>)
           (evict_loop kept cached limit candidates (tags_left, tot) []))"

section \<open>What is stored\<close>

definition blob_bytes :: "kept_blobs \<Rightarrow> content_hash \<Rightarrow> nat" where
  "blob_bytes kept b = (case bt_get kept b of None \<Rightarrow> 0 | Some k \<Rightarrow> unat (kb_bytes k))"

definition tags_of :: "kept_blobs \<Rightarrow> content_hash \<Rightarrow> (keep_reason \<times> item_id) list" where
  "tags_of kept b = (case bt_get kept b of None \<Rightarrow> [] | Some k \<Rightarrow> kb_tags k)"

text \<open>The bytes of the blobs that some tag keeps, and what is left when items' cache tags go.\<close>

definition stored :: "kept_blobs \<Rightarrow> nat" where
  "stored kept = (\<Sum>b \<in> dom (bt_get kept). if tags_of kept b = [] then 0 else blob_bytes kept b)"

definition release :: "item_id list \<Rightarrow> kept_blobs \<Rightarrow> kept_blobs" where
  "release items =
     bt_map (\<lambda>k. k\<lparr>kb_tags := filter (\<lambda>(r, i). \<not> (r = Cache \<and> i \<in> set items)) (kb_tags k)\<rparr>)"

lemma strongest_reason_None [simp]: "strongest_reason k = None \<longleftrightarrow> kb_tags k = []"
  by (auto simp: strongest_reason_def split: list.splits)

lemma total_bytes_fold:
  "total_bytes (fold count_use ks u) =
     total_bytes u + sum_list (map (\<lambda>k. if kb_tags k = [] then 0 else kb_bytes k) ks)"
proof (induction ks arbitrary: u)
  case (Cons k ks)
  have "total_bytes (count_use k u) = total_bytes u + (if kb_tags k = [] then 0 else kb_bytes k)"
  proof (cases "strongest_reason k")
    case None
    then have "kb_tags k = []" by simp
    with None show ?thesis by (simp add: count_use_def del: strongest_reason_None)
  next
    case (Some r)
    then have "kb_tags k \<noteq> []" by (metis option.distinct(1) strongest_reason_None)
    with Some show ?thesis
      by (cases r) (simp_all add: count_use_def total_bytes_def mandatory_bytes_def)
  qed
  with Cons show ?case by simp
qed simp

lemma total_bytes_usage: "total_bytes (usage kept) = of_nat (stored kept)"
proof -
  have "total_bytes (usage kept) =
      (\<Sum>b \<in> dom (bt_get kept). if kb_tags (the (bt_get kept b)) = [] then 0
        else kb_bytes (the (bt_get kept b)))"
    unfolding usage_def total_bytes_fold sum_bt_values
    by (simp add: total_bytes_def mandatory_bytes_def)
  also have "\<dots> = of_nat (stored kept)"
    unfolding stored_def of_nat_sum
    by (rule sum.cong) (auto simp: tags_of_def blob_bytes_def)
  finally show ?thesis .
qed

lemma dom_release [simp]: "dom (bt_get (release items kept)) = dom (bt_get kept)"
  by (auto simp: release_def)

lemma tags_of_release:
  "tags_of (release items kept) b =
     filter (\<lambda>(r, i). \<not> (r = Cache \<and> i \<in> set items)) (tags_of kept b)"
  by (cases "bt_get kept b") (simp_all add: tags_of_def release_def)

lemma blob_bytes_release [simp]: "blob_bytes (release items kept) = blob_bytes kept"
  by (auto simp: fun_eq_iff blob_bytes_def release_def split: option.splits)

lemma release_nothing [simp]: "release [] kept = kept"
  by (rule bt_ext) (simp add: release_def option.map_ident)

lemma stored_release_le: "stored (release items kept) \<le> stored kept"
  unfolding stored_def by (auto intro!: sum_mono simp: tags_of_release)

section \<open>Sorting the tags out\<close>

definition cached_blobs :: "kept_blobs \<Rightarrow> item_id \<Rightarrow> content_hash list" where
  "cached_blobs kept item = map fst (filter (\<lambda>(b, r, i). r = Cache \<and> i = item) (all_tags kept))"

lemma sort_out_simp:
  "sort_out (b, r, i) (c, m) =
     (if is_mandatory r then (c, bts_insert i m)
      else (bt_push i b c, m))"
  by (simp add: sort_out_def)

lemma sort_out_cached:
  "bt_get (fst (fold sort_out tags (c, m))) item =
     (let bs = map fst (filter (\<lambda>(b, r, i). r = Cache \<and> i = item) tags)
      in case bt_get c item of
           None \<Rightarrow> if bs = [] then None else Some bs
         | Some xs \<Rightarrow> Some (xs @ bs))"
proof (induction tags arbitrary: c m)
  case (Cons t tags)
  obtain b r i where t: "t = (b, r, i)" by (cases t)
  show ?case
    by (cases "r = Cache"; cases "bt_get c i")
      (auto simp: t sort_out_simp is_mandatory_def bt_get_push Cons Let_def split: option.splits)
qed (simp split: option.split)

lemma sort_out_mandatory:
  "bt_has (snd (fold sort_out tags (c, m))) item \<longleftrightarrow>
     bt_has m item \<or> (\<exists>b r. (b, r, item) \<in> set tags \<and> is_mandatory r)"
proof (induction tags arbitrary: c m)
  case (Cons t tags)
  obtain b r i where t: "t = (b, r, i)" by (cases t)
  show ?case
    by (cases "is_mandatory r") (auto simp: t sort_out_simp Cons)
qed simp

lemma set_all_tags: "(b, r, i) \<in> set (all_tags kept) \<longleftrightarrow> (r, i) \<in> set (tags_of kept b)"
proof -
  have "(b, r, i) \<in> set (all_tags kept) \<longleftrightarrow>
      (\<exists>k. (b, k) \<in> set (bt_entries kept) \<and> (r, i) \<in> set (kb_tags k))"
    by (force simp: all_tags_def)
  then show ?thesis by (auto simp: bt_entries_iff tags_of_def split: option.splits)
qed

lemma tags_of_blob:
  "map snd (filter (\<lambda>t. fst t = b) (all_tags kept)) = tags_of kept b"
proof -
  have "map snd (filter (\<lambda>t. fst t = b)
      (concat (map (\<lambda>(blob, k). map (\<lambda>(r, i). (blob, r, i)) (kb_tags k)) es))) =
    (case map_of es b of None \<Rightarrow> [] | Some k \<Rightarrow> kb_tags k)"
    if "distinct (map fst es)" for es
    using that
  proof (induction es)
    case (Cons e es)
    obtain blob k where e: "e = (blob, k)" by (cases e)
    have "filter (\<lambda>t. fst t = b) (map (\<lambda>(r, i). (blob, r, i)) tags) =
        (if blob = b then map (\<lambda>(r, i). (blob, r, i)) tags else [])"
      for tags :: "(keep_reason \<times> item_id) list"
      by (auto simp: filter_empty_conv filter_id_conv)
    moreover have "map_of es b = None" if "blob = b"
      using Cons.prems that by (simp add: e map_of_eq_None_iff)
    ultimately show ?case
      using Cons by (auto simp: e comp_def case_prod_unfold)
  qed simp
  from this [OF bt_entries_distinct] show ?thesis
    unfolding all_tags_def tags_of_def bt_get.rep_eq .
qed

lemma count_cached_blobs:
  "count_list (cached_blobs kept item) b =
     length (filter (\<lambda>(r, i). r = Cache \<and> i = item) (tags_of kept b))"
proof -
  have "count_list (map fst ts) b = length (filter (\<lambda>t. fst t = b) ts)"
    for ts :: "(content_hash \<times> keep_reason \<times> item_id) list"
    by (induction ts) auto
  then show ?thesis
    unfolding cached_blobs_def tags_of_blob [symmetric]
    by (simp add: filter_map comp_def case_prod_unfold conj_commute)
qed

section \<open>The loop\<close>

definition live :: "kept_blobs \<Rightarrow> (content_hash, nat) btmap \<Rightarrow> nat" where
  "live kept left =
     (\<Sum>b \<in> dom (bt_get kept). if bt_get left b = Some 0 then 0 else blob_bytes kept b)"

lemma free_blob_ok:
  assumes "bt_get left b = Some (Suc n)" and "b \<in> dom (bt_get kept)"
    and "unat tot = c + live kept left"
  shows "\<exists>tot'. free_blob kept b (left, tot) = Some (bt_insert b n left, tot') \<and>
    unat tot' = c + live kept (bt_insert b n left)"
proof -
  let ?D = "dom (bt_get kept)"
  define rest where
    "rest = (\<Sum>a \<in> ?D - {b}. if bt_get left a = Some 0 then 0 else blob_bytes kept a)"
  have before: "live kept left = blob_bytes kept b + rest"
    using assms(1,2) by (simp add: live_def rest_def sum.remove [OF _ assms(2)])
  have after: "live kept (bt_insert b n left) = (if n = 0 then 0 else blob_bytes kept b) + rest"
    unfolding live_def rest_def sum.remove [OF finite_dom_bt_get assms(2)]
    by (auto intro!: sum.cong)
  show ?thesis
  proof (cases "n = 0")
    case True
    obtain k where k: "bt_get kept b = Some k" using assms(2) by auto
    then have "kb_bytes k \<le> tot"
      using assms(3) before by (simp add: word_le_nat_alt blob_bytes_def)
    then show ?thesis
      using assms(1,3) k True before after
      by (auto simp: free_blob_def Let_def unat_sub word_le_nat_alt blob_bytes_def)
  next
    case False
    then show ?thesis
      using assms(1,3) before after by (simp add: free_blob_def Let_def)
  qed
qed

lemma free_blobs_ok:
  assumes "set bs \<subseteq> dom (bt_get kept)"
    and "\<forall>b \<in> dom (bt_get kept). bt_get left b = Some (f b + count_list bs b)"
    and "unat tot = c + live kept left"
  shows "\<exists>left' tot'. free_blobs kept bs (left, tot) = Some (left', tot') \<and>
    (\<forall>b \<in> dom (bt_get kept). bt_get left' b = Some (f b)) \<and> unat tot' = c + live kept left'"
  using assms
proof (induction bs arbitrary: left tot)
  case (Cons b bs)
  have b: "b \<in> dom (bt_get kept)" "bt_get left b = Some (Suc (f b + count_list bs b))"
    using Cons.prems(1,2) by auto
  from free_blob_ok [OF b(2,1) Cons.prems(3)] obtain tot' where
    step: "free_blob kept b (left, tot) = Some (bt_insert b (f b + count_list bs b) left, tot')"
    and tot': "unat tot' = c + live kept (bt_insert b (f b + count_list bs b) left)"
    by blast
  have "\<forall>a \<in> dom (bt_get kept). bt_get (bt_insert b (f b + count_list bs b) left) a =
      Some (f a + count_list bs a)"
    using Cons.prems(2) by auto
  from Cons.IH [OF _ this tot'] Cons.prems(1) step show ?case by auto
qed simp

text \<open>The tags left when the cache tags of some items are gone.\<close>

definition left_without :: "kept_blobs \<Rightarrow> item_id list \<Rightarrow> (content_hash, nat) btmap \<Rightarrow> bool" where
  "left_without kept items left \<longleftrightarrow>
     (\<forall>b \<in> dom (bt_get kept). bt_get left b = Some (length (tags_of (release items kept) b)))"

lemma live_stored: "left_without kept items left \<Longrightarrow> live kept left = stored (release items kept)"
  unfolding live_def stored_def by (auto simp: left_without_def intro!: sum.cong)

lemma left_with_one_more:
  assumes "left_without kept items left" and "item \<notin> set items"
  shows "\<forall>b \<in> dom (bt_get kept). bt_get left b =
    Some (length (tags_of (release (items @ [item]) kept) b) + count_list (cached_blobs kept item) b)"
proof -
  have "length (filter (\<lambda>(r, i). \<not> (r = Cache \<and> i \<in> set items)) ts) =
      length (filter (\<lambda>(r, i). \<not> (r = Cache \<and> i \<in> set (items @ [item]))) ts) +
      length (filter (\<lambda>(r, i). r = Cache \<and> i = item) ts)" for ts
    using assms(2) by (induction ts) auto
  with assms(1) show ?thesis
    by (simp add: left_without_def tags_of_release count_cached_blobs)
qed

lemma cached_blobs_kept: "set (cached_blobs kept item) \<subseteq> dom (bt_get kept)"
proof
  fix b assume "b \<in> set (cached_blobs kept item)"
  then have "(Cache, item) \<in> set (tags_of kept b)"
    by (auto simp: cached_blobs_def set_all_tags)
  then show "b \<in> dom (bt_get kept)" by (cases "bt_get kept b") (auto simp: tags_of_def)
qed

lemma evict_loop_ok:
  assumes "distinct (done @ rest)"
    and "\<forall>i \<in> set rest. bt_get cached i = Some (cached_blobs kept i)"
    and "left_without kept done left"
    and "unat tot = c + stored (release done kept)"
  shows "\<exists>n tot'. evict_loop kept cached limit rest (left, tot) done = Some (tot', done @ take n rest) \<and>
    n \<le> length rest \<and> unat tot' = c + stored (release (done @ take n rest) kept) \<and>
    (\<forall>m < n. unat limit < c + stored (release (done @ take m rest) kept)) \<and>
    (n = length rest \<or> tot' \<le> limit)"
  using assms
proof (induction rest arbitrary: "done" left tot)
  case (Cons item rest)
  show ?case
  proof (cases "tot \<le> limit")
    case True
    then show ?thesis
      using Cons.prems(4) by (intro exI [where x = 0] exI [where x = tot]) simp
  next
    case False
    have "item \<notin> set done" using Cons.prems(1) by auto
    from free_blobs_ok [OF cached_blobs_kept left_with_one_more [OF Cons.prems(3) this]]
    obtain left' tot' where
      free: "free_blobs kept (cached_blobs kept item) (left, tot) = Some (left', tot')"
      and left': "left_without kept (done @ [item]) left'"
      and tot': "unat tot' = c + live kept left'"
      using Cons.prems(4) live_stored [OF Cons.prems(3)] unfolding left_without_def by metis
    have "unat tot' = c + stored (release (done @ [item]) kept)"
      using tot' live_stored [OF left'] by simp
    from Cons.IH [OF _ _ left' this] Cons.prems(1,2) obtain n t where
      ih: "evict_loop kept cached limit rest (left', tot') (done @ [item]) =
          Some (t, done @ item # take n rest)"
        "n \<le> length rest" "unat t = c + stored (release (done @ item # take n rest) kept)"
        "\<forall>m < n. unat limit < c + stored (release (done @ item # take m rest) kept)"
        "n = length rest \<or> t \<le> limit"
      by auto
    have "unat limit < c + stored (release (done @ take m (item # rest)) kept)" if "m < Suc n" for m
      using that ih(4) False Cons.prems(4) by (cases m) (auto simp: word_le_nat_alt)
    then show ?thesis
      using ih False free Cons.prems(2) by (intro exI [of _ "Suc n"]) auto
  qed
qed simp

section \<open>What an eviction promises\<close>

lemma eviction_order_items:
  "set (map snd (eviction_order kept keeping last_used)) =
     {i. i \<noteq> keeping \<and> (\<exists>b. (Cache, i) \<in> set (tags_of kept b)) \<and>
       (\<forall>b r. (r, i) \<in> set (tags_of kept b) \<longrightarrow> r = Cache)}"
proof -
  obtain c m where f: "fold sort_out (all_tags kept) (bt_empty, bt_empty) = (c, m)" by fastforce
  have "bt_get c i \<noteq> None \<longleftrightarrow> (\<exists>b. (Cache, i) \<in> set (tags_of kept b))" for i
    using sort_out_cached [of "all_tags kept" bt_empty bt_empty i] f
    by (force simp: Let_def set_all_tags [symmetric] filter_empty_conv split: if_splits)
  moreover have "bt_has m i \<longleftrightarrow> (\<exists>b r. (r, i) \<in> set (tags_of kept b) \<and> r \<noteq> Cache)" for i
    using sort_out_mandatory [of "all_tags kept" bt_empty bt_empty i] f
    by (auto simp: set_all_tags is_mandatory_def)
  ultimately show ?thesis
    by (auto simp: eviction_order_def f image_image dom_def)
qed

lemma eviction_order_distinct: "distinct (map snd (eviction_order kept keeping last_used))"
proof -
  obtain c m where f: "fold sort_out (all_tags kept) (bt_empty, bt_empty) = (c, m)" by fastforce
  have "distinct (map snd (sort (map (\<lambda>i. (last_used i, i)) is)))" if "distinct is" for "is"
    using that by (simp add: distinct_map inj_on_def image_iff)
  then show ?thesis by (simp add: eviction_order_def f)
qed

lemma evictions_for_loop:
  assumes "stored kept + unat needed < 2 ^ 64"
  shows "\<exists>n ev. evictions_for kept keeping needed limit last_used = Some ev \<and>
    n \<le> length (eviction_order kept keeping last_used) \<and>
    ev_items ev = take n (map snd (eviction_order kept keeping last_used)) \<and>
    unat (ev_short_by ev) = stored (release (ev_items ev) kept) + unat needed - unat limit \<and>
    (\<forall>m < n. unat limit <
      stored (release (take m (map snd (eviction_order kept keeping last_used))) kept) + unat needed) \<and>
    (n = length (eviction_order kept keeping last_used) \<or> ev_short_by ev = 0)"
proof -
  let ?order = "map snd (eviction_order kept keeping last_used)"
  obtain c m where f: "fold sort_out (all_tags kept) (bt_empty, bt_empty) = (c, m)" by fastforce
  define left where "left = bt_map (\<lambda>k. length (kb_tags k)) kept"
  define tot where "tot = total_bytes (usage kept) + needed"
  have cached: "\<forall>i \<in> set ?order. bt_get c i = Some (cached_blobs kept i)"
  proof
    fix i assume "i \<in> set ?order"
    then obtain b where "(Cache, i) \<in> set (tags_of kept b)"
      unfolding eviction_order_items by blast
    then have "(b, Cache, i) \<in> set (all_tags kept)" by (simp add: set_all_tags)
    then have "cached_blobs kept i \<noteq> []" by (force simp: cached_blobs_def filter_empty_conv)
    then show "bt_get c i = Some (cached_blobs kept i)"
      using sort_out_cached [of "all_tags kept" bt_empty bt_empty i] f
      by (simp add: Let_def cached_blobs_def)
  qed
  have "unat (of_nat (stored kept) :: u64) = stored kept"
    using assms by (simp add: unat_of_nat)
  then have tot: "unat tot = unat needed + stored (release [] kept)"
    using assms by (simp add: tot_def total_bytes_usage unat_word_ariths)
  have "left_without kept [] left"
    by (auto simp: left_without_def left_def tags_of_def)
  from evict_loop_ok [of "[]" ?order, OF _ cached this tot, of limit]
  obtain n tot' where loop:
      "evict_loop kept c limit ?order (left, tot) [] = Some (tot', take n ?order)"
    and n: "n \<le> length ?order"
    and tot': "unat tot' = unat needed + stored (release (take n ?order) kept)"
    and few: "\<forall>m < n. unat limit < unat needed + stored (release (take m ?order) kept)"
    and enough: "n = length ?order \<or> tot' \<le> limit"
    using eviction_order_distinct by auto
  let ?ev = "\<lparr>ev_items = take n ?order, ev_short_by = sat_sub tot' limit\<rparr>"
  have "evictions_for kept keeping needed limit last_used = Some ?ev"
    using loop by (simp add: evictions_for_def f left_def tot_def)
  moreover have "unat (sat_sub tot' limit) =
      stored (release (take n ?order) kept) + unat needed - unat limit"
    by (simp add: unat_sat_sub tot')
  moreover have "n = length ?order \<or> sat_sub tot' limit = 0"
    using enough by (auto simp: sat_sub_def)
  ultimately show ?thesis
    using n few by (intro exI [where x = n] exI [where x = ?ev]) (simp add: add.commute)
qed

text \<open>
  C25. While everything kept and what is needed stay within a \<open>u64\<close>, working out evictions does
  not panic, and \<open>short_by\<close> is exactly what is over the limit once the cache tags of those items
  are gone, a blob shared with another item or kept for another reason still counted. No item is
  let go of in vain: without the last of them it was not yet enough; and if it is still not
  enough, every item that may go has gone.
\<close>

theorem evictions_make_room:
  assumes "stored kept + unat needed < 2 ^ 64"
  shows "\<exists>ev. evictions_for kept keeping needed limit last_used = Some ev \<and>
    unat (ev_short_by ev) = stored (release (ev_items ev) kept) + unat needed - unat limit \<and>
    (ev_items ev \<noteq> [] \<longrightarrow>
      unat limit < stored (release (butlast (ev_items ev)) kept) + unat needed) \<and>
    (ev_short_by ev \<noteq> 0 \<longrightarrow> ev_items ev = map snd (eviction_order kept keeping last_used))"
proof -
  let ?eo = "eviction_order kept keeping last_used"
  let ?order = "map snd ?eo"
  from evictions_for_loop [OF assms, of keeping limit last_used] obtain n ev where
    ev: "evictions_for kept keeping needed limit last_used = Some ev"
      "n \<le> length ?eo" "ev_items ev = take n ?order"
      "unat (ev_short_by ev) = stored (release (ev_items ev) kept) + unat needed - unat limit"
      "n = length ?eo \<or> ev_short_by ev = 0"
    and few: "\<forall>m < n. unat limit < stored (release (take m ?order) kept) + unat needed"
    by blast
  have "unat limit < stored (release (butlast (ev_items ev)) kept) + unat needed"
    if "ev_items ev \<noteq> []"
  proof -
    from that have "n - 1 < n" unfolding ev(3) by (cases n) auto
    moreover have "butlast (ev_items ev) = take (n - 1) ?order"
      unfolding ev(3) using ev(2) by (intro butlast_take) simp
    ultimately show ?thesis using few by simp
  qed
  with ev show ?thesis by auto
qed

text \<open>
  What is let go of is the least recently used, items never used first and ties by item, and
  never the item room is made for nor anything kept as own or custody: a blob with such a tag
  keeps every one of those tags.
\<close>

theorem evictions_spare_what_is_kept:
  assumes "evictions_for kept keeping needed limit last_used = Some ev"
    and "stored kept + unat needed < 2 ^ 64"
  shows "distinct (ev_items ev) \<and> keeping \<notin> set (ev_items ev) \<and>
    sorted (map (\<lambda>i. (last_used i, i)) (ev_items ev)) \<and>
    (\<forall>blob r item. (r, item) \<in> set (tags_of kept blob) \<and> item \<in> set (ev_items ev) \<longrightarrow> r = Cache) \<and>
    (\<forall>evicted \<in> set (ev_items ev). \<forall>item \<in> set (map snd (eviction_order kept keeping last_used)).
      item \<notin> set (ev_items ev) \<longrightarrow> (last_used evicted, evicted) \<le> (last_used item, item))"
proof -
  let ?order = "eviction_order kept keeping last_used"
  from evictions_for_loop [OF assms(2), of keeping limit last_used] assms(1)
  obtain n where items: "ev_items ev = map snd (take n ?order)" by (auto simp: take_map)
  have pairs: "x = (last_used (snd x), snd x)" if "x \<in> set ?order" for x
    using that by (auto simp: eviction_order_def split: prod.splits)
  have sorted: "sorted ?order"
    by (simp add: eviction_order_def split: prod.split)
  have again: "map (\<lambda>i. (last_used i, i)) (map snd (take n ?order)) = take n ?order"
    using pairs in_set_takeD by (force intro!: map_idI)
  have allowed: "i \<noteq> keeping \<and> (\<forall>b r. (r, i) \<in> set (tags_of kept b) \<longrightarrow> r = Cache)"
    if "i \<in> set (ev_items ev)" for i
  proof -
    have "i \<in> set (map snd ?order)"
      using that unfolding items by (auto dest: in_set_takeD)
    then show ?thesis unfolding eviction_order_items by blast
  qed
  have "(last_used a, a) \<le> (last_used i, i)"
    if "a \<in> set (ev_items ev)" "i \<in> set (map snd ?order)" "i \<notin> set (ev_items ev)" for a i
  proof -
    have "(last_used a, a) \<in> set (take n ?order)"
      using that(1) pairs in_set_takeD unfolding items by fastforce
    moreover have "(last_used i, i) \<in> set (drop n ?order)"
    proof -
      have "(last_used i, i) \<in> set (take n ?order @ drop n ?order)"
        using that(2) pairs by fastforce
      moreover have "(last_used i, i) \<notin> set (take n ?order)"
        using that(3) unfolding items by force
      ultimately show ?thesis unfolding set_append by blast
    qed
    ultimately show ?thesis
      using sorted by (metis append_take_drop_id sorted_append)
  qed
  moreover have "distinct (ev_items ev)"
    using eviction_order_distinct [of kept keeping last_used] by (simp add: items take_map [symmetric])
  moreover have "sorted (map (\<lambda>i. (last_used i, i)) (ev_items ev))"
    unfolding items again using sorted by (rule sorted_wrt_take)
  ultimately show ?thesis using allowed by blast
qed

section \<open>Tags\<close>

text \<open>What \<open>blake3::Hash\<close> promises of its hexadecimal form.\<close>

definition hex_ok :: "hex_codec \<Rightarrow> bool" where
  "hex_ok hx \<longleftrightarrow> (\<forall>w. from_hex hx (to_hex hx w) = Some w \<and> CHR ''/'' \<notin> set (to_hex hx w))"

lemma strip_prefix_append [simp]: "strip_prefix p (p @ s) = Some s"
  by (induction p) simp_all

lemma split_once_append: "c \<notin> set a \<Longrightarrow> split_once c (a @ c # b) = Some (a, b)"
  by (induction a) auto

lemma strip_prefix_other: "r \<noteq> r' \<Longrightarrow> strip_prefix (reason_prefix r') (reason_prefix r @ s) = None"
  by (cases r; cases r') simp_all

text \<open>
  A tag reads back as the item and the blob it was made for, under its own reason and under
  no other, and starts with what every tag of that item and reason starts with.
\<close>

theorem tag_reads_back:
  assumes "hex_ok hx"
  shows "parse_tag hx r' (reason_tag hx r item blob) = (if r' = r then Some (item, blob) else None) \<and>
    take (length (item_prefix hx r item)) (reason_tag hx r item blob) = item_prefix hx r item"
proof (cases "r' = r")
  case True
  have "CHR ''/'' \<notin> set (to_hex hx (item_bytes item))"
    and "from_hex hx (to_hex hx w) = Some w" for w
    using assms by (auto simp: hex_ok_def)
  then show ?thesis
    using True by (simp add: parse_tag_def reason_tag_def item_prefix_def split_once_append)
next
  case False
  then show ?thesis
    using strip_prefix_other [of r r'] by (simp add: parse_tag_def reason_tag_def item_prefix_def)
qed

section \<open>A node that runs short\<close>

text \<open>
  Four blobs: one the node's own, one cached for two items, one cached for item 3, and one cached
  for item 4 that is in custody too. Item 2 was used after item 3, items 1 and 4 never.
\<close>

definition demo_kept :: kept_blobs where
  "demo_kept =
     (let k1 = kept_add bt_empty Own (ItemId 5) (ContentHash 1) 40;
          k2 = kept_add k1 Cache (ItemId 1) (ContentHash 2) 10;
          k3 = kept_add k2 Cache (ItemId 2) (ContentHash 2) 10;
          k4 = kept_add k3 Cache (ItemId 3) (ContentHash 3) 20;
          k5 = kept_add k4 Cache (ItemId 4) (ContentHash 4) 30
      in kept_add k5 Custody (ItemId 4) (ContentHash 4) 30)"

definition demo_used :: "item_id \<Rightarrow> int option" where
  "demo_used i = (if i = ItemId 2 then Some 200 else if i = ItemId 3 then Some 100 else None)"

lemma demo_evictions:
  "evictions_for demo_kept (ItemId 9) 5 90 demo_used =
     Some \<lparr>ev_items = [ItemId 1, ItemId 3], ev_short_by = 0\<rparr>"
  by code_simp

lemma demo_stored: "stored demo_kept = 100"
proof -
  have "dom (bt_get demo_kept) = set (bt_keys demo_kept)" by simp
  also have "bt_keys demo_kept = [ContentHash 1, ContentHash 2, ContentHash 3, ContentHash 4]"
    by code_simp
  finally have dom: "dom (bt_get demo_kept) = {ContentHash 1, ContentHash 2, ContentHash 3, ContentHash 4}"
    by simp
  have "bt_get demo_kept (ContentHash 1) = Some \<lparr>kb_bytes = 40, kb_tags = [(Own, ItemId 5)]\<rparr>"
    "bt_get demo_kept (ContentHash 2) =
       Some \<lparr>kb_bytes = 10, kb_tags = [(Cache, ItemId 1), (Cache, ItemId 2)]\<rparr>"
    "bt_get demo_kept (ContentHash 3) = Some \<lparr>kb_bytes = 20, kb_tags = [(Cache, ItemId 3)]\<rparr>"
    "bt_get demo_kept (ContentHash 4) =
       Some \<lparr>kb_bytes = 30, kb_tags = [(Cache, ItemId 4), (Custody, ItemId 4)]\<rparr>"
    by code_simp+
  then show ?thesis
    by (simp add: stored_def dom tags_of_def blob_bytes_def)
qed

theorem evictions_make_room_witness:
  "stored (release [ItemId 1, ItemId 3] demo_kept) + 5 \<le> 90 \<and>
   90 < stored (release [ItemId 1] demo_kept) + 5"
proof -
  have "stored demo_kept + unat (5 :: u64) < 2 ^ 64" by (simp add: demo_stored)
  from evictions_make_room [OF this, of "ItemId 9" 90 demo_used] show ?thesis
    by (simp add: demo_evictions)
qed

theorem evictions_spare_what_is_kept_witness:
  "(Custody, ItemId 4) \<in> set (tags_of demo_kept (ContentHash 4)) \<and>
   ItemId 4 \<notin> set [ItemId 1, ItemId 3 :: item_id]"
proof -
  have "(Custody, ItemId 4) \<in> set (tags_of demo_kept (ContentHash 4))" by code_simp
  moreover have "stored demo_kept + unat (5 :: u64) < 2 ^ 64" by (simp add: demo_stored)
  ultimately show ?thesis
    using evictions_spare_what_is_kept [OF demo_evictions] by fastforce
qed

text \<open>A stand-in for hexadecimal: one letter for each bit.\<close>

definition bit_hex :: hex_codec where
  "bit_hex =
     \<lparr>to_hex = \<lambda>w. map (\<lambda>i. if bit w i then CHR ''1'' else CHR ''0'') [0..<256],
      from_hex = \<lambda>s. if length s = 256 then Some (horner_sum of_bool 2 (map (\<lambda>c. c = CHR ''1'') s))
        else None\<rparr>"

lemma bit_hex_ok: "hex_ok bit_hex"
proof -
  have "horner_sum of_bool 2 (map (\<lambda>c. c = CHR ''1'')
      (map (\<lambda>i. if bit w i then CHR ''1'' else CHR ''0'') [0..<256])) = w" for w :: "256 word"
  proof -
    have "map (\<lambda>c. c = CHR ''1'') (map (\<lambda>i. if bit w i then CHR ''1'' else CHR ''0'') [0..<256]) =
        map (bit w) [0..<256]"
      unfolding map_map by (rule map_cong) simp_all
    moreover have "horner_sum of_bool 2 (map (bit w) [0..<256]) = take_bit 256 w"
      by (rule horner_sum_bit_eq_take_bit)
    moreover have "take_bit 256 w = w"
      by (rule bit_word_eqI) (simp add: bit_take_bit_iff)
    ultimately show ?thesis by (simp only:)
  qed
  then show ?thesis by (auto simp: hex_ok_def bit_hex_def split: if_splits)
qed

theorem tag_reads_back_witness:
  "parse_tag bit_hex Custody (reason_tag bit_hex Custody (ItemId 1) (ContentHash 2)) =
     Some (ItemId 1, ContentHash 2) \<and>
   parse_tag bit_hex Cache (reason_tag bit_hex Custody (ItemId 1) (ContentHash 2)) = None"
  using tag_reads_back [OF bit_hex_ok, of _ Custody "ItemId 1" "ContentHash 2"] by simp

end
