(* ===== verification/Storage.thy ===== *)
theory Storage
  imports Keeping Membership_State
begin

text \<open>
  Keeping to the storage limit: the tags of \<open>crates/distlib-net/src/blobs.rs\<close>,
  \<open>crates/distlib-custody/src/storage.rs\<close> and the gate of \<open>serving.rs\<close>. The blob store is
  iroh's: here it is the tags it holds and the status it reports of a blob. A tag is the reason,
  item and blob that its name spells, which the name reads back as. Every call to the store may
  fail; which ones do is the argument \<open>fails\<close>, and what was done before a failure stays done.
\<close>

section \<open>Tags in the blob store\<close>

datatype blob_status = Complete u64 | Partial "u64 option" | NotFound

type_synonym tag = "keep_reason \<times> item_id \<times> content_hash"

record blob_store =
  bs_tags :: "tag list"
  bs_status :: "content_hash \<Rightarrow> blob_status"
  bs_held :: "item_id btset"

fun counted_size :: "blob_status \<Rightarrow> u64" where
  "counted_size (Complete n) = n"
| "counted_size (Partial (Some n)) = n"
| "counted_size (Partial None) = 0"
| "counted_size NotFound = 0"

definition blobs_keep :: "keep_reason \<Rightarrow> item_id \<Rightarrow> content_hash \<Rightarrow> blob_store \<Rightarrow> blob_store" where
  "blobs_keep reason item blob bs = bs\<lparr>bs_tags := List.insert (reason, item, blob) (bs_tags bs)\<rparr>"

definition blobs_release :: "keep_reason \<Rightarrow> item_id \<Rightarrow> content_hash \<Rightarrow> blob_store \<Rightarrow> blob_store" where
  "blobs_release reason item blob bs =
     bs\<lparr>bs_tags := filter (\<lambda>t. t \<noteq> (reason, item, blob)) (bs_tags bs)\<rparr>"

definition kept_tags :: "keep_reason \<Rightarrow> blob_store \<Rightarrow> (item_id \<times> content_hash) list" where
  "kept_tags reason bs = map snd (filter (\<lambda>(r, _, _). r = reason) (bs_tags bs))"

definition kept_for :: "keep_reason \<Rightarrow> item_id \<Rightarrow> blob_store \<Rightarrow> content_hash list" where
  "kept_for reason item bs = map snd (filter (\<lambda>(i, _). i = item) (kept_tags reason bs))"

definition kept_blobs_of :: "blob_store \<Rightarrow> kept_blobs" where
  "kept_blobs_of bs =
     fold (\<lambda>reason kept.
         fold (\<lambda>(item, blob) kept. kept_add kept reason item blob (counted_size (bs_status bs blob)))
           (kept_tags reason bs) kept)
       all_reasons bt_empty"

definition holdings_forget :: "item_id \<Rightarrow> blob_store \<Rightarrow> blob_store" where
  "holdings_forget item bs = bs\<lparr>bs_held := bt_remove item (bs_held bs)\<rparr>"

section \<open>Making room\<close>

datatype room = Made | Short u64

datatype when_short = EvictAnyway | EvictNothing

datatype storage_error = BlobsError | StoreError

fun release_all ::
    "(item_id \<Rightarrow> content_hash \<Rightarrow> bool) \<Rightarrow> item_id \<Rightarrow> content_hash list \<Rightarrow> blob_store
      \<Rightarrow> (storage_error, blob_store) outcome" where
  "release_all fails item [] bs = done_with bs"
| "release_all fails item (blob # blobs) bs =
     (if fails item blob then refused BlobsError bs
      else release_all fails item blobs (blobs_release Cache item blob bs))"

definition evict ::
    "(item_id \<Rightarrow> content_hash \<Rightarrow> bool) \<Rightarrow> item_id \<Rightarrow> blob_store \<Rightarrow> (storage_error, blob_store) outcome" where
  "evict fails item bs =
     and_then (release_all fails item (kept_for Cache item bs) bs)
       (\<lambda>bs'. done_with (holdings_forget item bs'))"

fun evict_all ::
    "(item_id \<Rightarrow> content_hash \<Rightarrow> bool) \<Rightarrow> item_id list \<Rightarrow> blob_store
      \<Rightarrow> (storage_error, blob_store) outcome" where
  "evict_all fails [] bs = done_with bs"
| "evict_all fails (item # items) bs = and_then (evict fails item bs) (evict_all fails items)"

text \<open>
  \<open>read_last_used\<close> is what the store answers, \<open>None\<close> when it cannot be read. The outer option is
  \<open>None\<close> when working out the evictions would panic.
\<close>

definition evict_for ::
    "(item_id \<Rightarrow> content_hash \<Rightarrow> bool) \<Rightarrow> (item_id \<Rightarrow> int option) option \<Rightarrow> u64 option
      \<Rightarrow> item_id \<Rightarrow> (content_hash \<times> u64) list \<Rightarrow> when_short \<Rightarrow> blob_store
      \<Rightarrow> ((storage_error + room) \<times> blob_store) option" where
  "evict_for fails read_last_used limit item files short bs =
     (case limit of
        None \<Rightarrow> Some (Inr Made, bs)
      | Some lim \<Rightarrow>
          let kept = kept_blobs_of bs
          in case read_last_used of
               None \<Rightarrow> Some (Inl StoreError, bs)
             | Some last_used \<Rightarrow>
                 (case evictions_for kept item (uncounted_bytes kept files) lim last_used of
                    None \<Rightarrow> None
                  | Some plan \<Rightarrow>
                      if ev_short_by plan > 0 \<and> short = EvictNothing
                      then Some (Inr (Short (ev_short_by plan)), bs)
                      else (case evict_all fails (ev_items plan) bs of
                              (Inl e, bs') \<Rightarrow> Some (Inl e, bs')
                            | (Inr _, bs') \<Rightarrow>
                                Some (Inr (if ev_short_by plan = 0 then Made
                                           else Short (ev_short_by plan)), bs'))))"

definition make_room ::
    "(item_id \<Rightarrow> content_hash \<Rightarrow> bool) \<Rightarrow> (item_id \<Rightarrow> int option) option \<Rightarrow> u64 option
      \<Rightarrow> item_id \<Rightarrow> (content_hash \<times> u64) list \<Rightarrow> blob_store
      \<Rightarrow> ((storage_error + room) \<times> blob_store) option" where
  "make_room fails read limit item files = evict_for fails read limit item files EvictAnyway"

definition make_room_if_it_fits ::
    "(item_id \<Rightarrow> content_hash \<Rightarrow> bool) \<Rightarrow> (item_id \<Rightarrow> int option) option \<Rightarrow> u64 option
      \<Rightarrow> item_id \<Rightarrow> (content_hash \<times> u64) list \<Rightarrow> blob_store
      \<Rightarrow> ((storage_error + room) \<times> blob_store) option" where
  "make_room_if_it_fits fails read limit item files = evict_for fails read limit item files EvictNothing"

section \<open>Who is served\<close>

text \<open>Whether a blob is an item's content: \<open>None\<close> when the store cannot be read.\<close>

definition may_serve ::
    "membership_state \<Rightarrow> (content_hash \<Rightarrow> bool option) \<Rightarrow> member_id \<Rightarrow> content_hash \<Rightarrow> bool" where
  "may_serve s is_content_file requester hash =
     (if pledges_the_minimum s requester then True
      else case is_content_file hash of Some content \<Rightarrow> \<not> content | None \<Rightarrow> False)"

section \<open>What the tags come to\<close>

definition tag_blob :: "tag \<Rightarrow> content_hash" where
  "tag_blob t = snd (snd t)"

definition size_of :: "blob_store \<Rightarrow> content_hash \<Rightarrow> u64" where
  "size_of bs b = counted_size (bs_status bs b)"

definition tags_by_reason :: "blob_store \<Rightarrow> tag list" where
  "tags_by_reason bs = concat (map (\<lambda>r. filter (\<lambda>t. fst t = r) (bs_tags bs)) all_reasons)"

lemma set_tags_by_reason [simp]: "set (tags_by_reason bs) = set (bs_tags bs)"
proof -
  have "r \<in> set all_reasons" for r by (cases r) (simp_all add: all_reasons_def)
  then show ?thesis by (auto simp: tags_by_reason_def)
qed

lemma kept_blobs_fold:
  "kept_blobs_of bs =
     fold (\<lambda>(r, i, b) kept. kept_add kept r i b (size_of bs b)) (tags_by_reason bs) bt_empty"
proof -
  have "fold (\<lambda>(i, b) kept. kept_add kept r i b (size_of bs b))
        (map snd (filter (\<lambda>(r', _, _). r' = r) ts)) kept =
      fold (\<lambda>(r, i, b) kept. kept_add kept r i b (size_of bs b)) (filter (\<lambda>t. fst t = r) ts) kept"
    for r kept ts
    by (induction ts arbitrary: kept) auto
  then show ?thesis
    by (simp add: kept_blobs_of_def tags_by_reason_def all_reasons_def size_of_def kept_tags_def)
qed

lemma bt_get_kept_add:
  "bt_get (kept_add kept r i c n) b =
     (if b = c
      then Some (case bt_get kept c of
                   None \<Rightarrow> \<lparr>kb_bytes = n, kb_tags = [(r, i)]\<rparr>
                 | Some k \<Rightarrow> k\<lparr>kb_tags := kb_tags k @ [(r, i)]\<rparr>)
      else bt_get kept b)"
  by (simp add: kept_add_def Let_def split: option.split)

lemma get_fold_kept_add:
  "bt_get (fold (\<lambda>(r, i, b) kept. kept_add kept r i b (f b)) ts kept) b =
     (let tags = map (\<lambda>(r, i, _). (r, i)) (filter (\<lambda>t. tag_blob t = b) ts)
      in case bt_get kept b of
           None \<Rightarrow> if tags = [] then None else Some \<lparr>kb_bytes = f b, kb_tags = tags\<rparr>
         | Some k \<Rightarrow> Some (k\<lparr>kb_tags := kb_tags k @ tags\<rparr>))"
proof (induction ts arbitrary: kept)
  case (Cons t ts)
  obtain r i c where t: "t = (r, i, c)" by (cases t)
  show ?case
    by (cases "bt_get kept b") (auto simp: t Cons bt_get_kept_add tag_blob_def Let_def)
qed (simp add: option.case_eq_if)

lemma kept_blobs_get:
  "bt_get (kept_blobs_of bs) b =
     (let tags = map (\<lambda>(r, i, _). (r, i)) (filter (\<lambda>t. tag_blob t = b) (tags_by_reason bs))
      in if tags = [] then None else Some \<lparr>kb_bytes = size_of bs b, kb_tags = tags\<rparr>)"
  by (simp add: kept_blobs_fold get_fold_kept_add)

lemma tags_of_kept_blobs: "(r, i) \<in> set (tags_of (kept_blobs_of bs) b) \<longleftrightarrow> (r, i, b) \<in> set (bs_tags bs)"
proof -
  have "tags_of (kept_blobs_of bs) b =
      map (\<lambda>(r, i, _). (r, i)) (filter (\<lambda>t. tag_blob t = b) (tags_by_reason bs))"
    by (simp add: tags_of_def kept_blobs_get Let_def)
  then show ?thesis by (force simp: tag_blob_def)
qed

text \<open>What is stored, from the tags alone: each blob with a tag, once.\<close>

lemma stored_release_kept:
  "stored (release items (kept_blobs_of bs)) =
     (\<Sum>b \<in> tag_blob ` {t \<in> set (bs_tags bs). \<not> (fst t = Cache \<and> fst (snd t) \<in> set items)}.
       unat (size_of bs b))"
proof -
  let ?kept = "kept_blobs_of bs" and ?left = "{t \<in> set (bs_tags bs). \<not> (fst t = Cache \<and> fst (snd t) \<in> set items)}"
  have left: "tags_of (release items ?kept) b \<noteq> [] \<longleftrightarrow> b \<in> tag_blob ` ?left" for b
  proof -
    have "tags_of (release items ?kept) b \<noteq> [] \<longleftrightarrow>
        (\<exists>r i. (r, i) \<in> set (tags_of ?kept b) \<and> \<not> (r = Cache \<and> i \<in> set items))"
      by (auto simp: tags_of_release filter_empty_conv)
    then show ?thesis unfolding tags_of_kept_blobs by (force simp: tag_blob_def)
  qed
  have bytes: "blob_bytes ?kept b = unat (size_of bs b)" if "tags_of ?kept b \<noteq> []" for b
    using that by (auto simp: tags_of_def blob_bytes_def kept_blobs_get Let_def split: if_splits)
  have sub: "tags_of ?kept b \<noteq> []" if "b \<in> tag_blob ` ?left" for b
    using that left [of b] by (auto simp: tags_of_release)
  have dom: "b \<in> dom (bt_get ?kept)" if "b \<in> tag_blob ` ?left" for b
    using sub [OF that] by (auto simp: tags_of_def split: option.splits)
  have "stored (release items ?kept) =
      (\<Sum>b \<in> dom (bt_get ?kept). if b \<in> tag_blob ` ?left then unat (size_of bs b) else 0)"
    unfolding stored_def dom_release blob_bytes_release
    by (rule sum.cong) (use left bytes sub in auto)
  also have "\<dots> = (\<Sum>b \<in> dom (bt_get ?kept) \<inter> tag_blob ` ?left. unat (size_of bs b))"
    by (simp add: sum.inter_restrict [symmetric])
  also have "dom (bt_get ?kept) \<inter> tag_blob ` ?left = tag_blob ` ?left"
    using dom by blast
  finally show ?thesis .
qed

section \<open>Eviction in the store\<close>

lemma release_all_tags:
  assumes "release_all fails item blobs bs = (res, bs')"
  shows "bs_status bs' = bs_status bs \<and> bs_held bs' = bs_held bs \<and>
    (\<exists>gone \<subseteq> set blobs. set (bs_tags bs') = set (bs_tags bs) - {(Cache, item, b) |b. b \<in> gone} \<and>
      (res = Inr () \<longrightarrow> gone = set blobs))"
  using assms
proof (induction blobs arbitrary: bs)
  case (Cons blob blobs)
  show ?case
  proof (cases "fails item blob")
    case True
    with Cons.prems show ?thesis by auto
  next
    case False
    let ?bs1 = "blobs_release Cache item blob bs"
    have "release_all fails item blobs ?bs1 = (res, bs')" using False Cons.prems by simp
    from Cons.IH [OF this] obtain gone where "gone \<subseteq> set blobs"
      "set (bs_tags bs') = set (bs_tags ?bs1) - {(Cache, item, b) |b. b \<in> gone}"
      "res = Inr () \<longrightarrow> gone = set blobs"
      "bs_status bs' = bs_status ?bs1" "bs_held bs' = bs_held ?bs1"
      by blast
    then show ?thesis
      by (auto simp: blobs_release_def intro!: exI [of _ "insert blob gone"])
  qed
qed auto

lemma evict_all_tags:
  assumes "evict_all fails items bs = (res, bs')"
  shows "bs_status bs' = bs_status bs \<and>
    set (bs_tags bs') \<subseteq> set (bs_tags bs) \<and>
    {t \<in> set (bs_tags bs). \<not> (fst t = Cache \<and> fst (snd t) \<in> set items)} \<subseteq> set (bs_tags bs') \<and>
    (res = Inr () \<longrightarrow>
      set (bs_tags bs') = {t \<in> set (bs_tags bs). \<not> (fst t = Cache \<and> fst (snd t) \<in> set items)})"
  using assms
proof (induction items arbitrary: bs)
  case (Cons item items)
  obtain res1 bs1 where one: "release_all fails item (kept_for Cache item bs) bs = (res1, bs1)"
    by fastforce
  have here: "b \<in> set (kept_for Cache item bs) \<longleftrightarrow> (Cache, item, b) \<in> set (bs_tags bs)" for b
    by (force simp: kept_for_def kept_tags_def)
  from release_all_tags [OF one] obtain gone where gone: "gone \<subseteq> set (kept_for Cache item bs)"
    "set (bs_tags bs1) = set (bs_tags bs) - {(Cache, item, b) |b. b \<in> gone}"
    "res1 = Inr () \<longrightarrow> gone = set (kept_for Cache item bs)" "bs_status bs1 = bs_status bs"
    by blast
  show ?case
  proof (cases res1)
    case (Inl e)
    then have "res = Inl e \<and> bs' = bs1" using Cons.prems one by (simp add: evict_def)
    with gone show ?thesis by auto
  next
    case (Inr u)
    let ?bs2 = "holdings_forget item bs1"
    have "evict_all fails items ?bs2 = (res, bs')"
      using Cons.prems one Inr by (simp add: evict_def)
    from Cons.IH [OF this] gone Inr here show ?thesis
      by (auto simp: holdings_forget_def)
  qed
qed auto

lemma stored_after:
  assumes "evict_all fails items bs = (Inr (), bs')"
  shows "stored (kept_blobs_of bs') = stored (release items (kept_blobs_of bs))"
proof -
  have "size_of bs' = size_of bs" "set (bs_tags bs') =
      {t \<in> set (bs_tags bs). \<not> (fst t = Cache \<and> fst (snd t) \<in> set items)}"
    using evict_all_tags [OF assms] by (simp_all add: fun_eq_iff size_of_def)
  then show ?thesis
    using stored_release_kept [of "[]" bs'] stored_release_kept [of items bs] by simp
qed

text \<open>
  Making room never panics while sizes stay within a \<open>u64\<close>. If it answers \<open>Made\<close>, what the
  store then keeps, and what is about to be kept, fit under the limit. If custody is told it is
  short, nothing was evicted. Whatever happens, also when the store fails halfway, the only tags
  gone are cache tags of other items, none of which is also kept as own or custody.
\<close>

theorem making_room:
  assumes "stored (kept_blobs_of bs) + unat (uncounted_bytes (kept_blobs_of bs) files) < 2 ^ 64"
  shows "\<exists>res bs'. evict_for fails (Some last_used) (Some limit) item files short bs = Some (res, bs') \<and>
    (res = Inr Made \<longrightarrow> stored (kept_blobs_of bs') +
      unat (uncounted_bytes (kept_blobs_of bs) files) \<le> unat limit) \<and>
    (short = EvictNothing \<and> res \<noteq> Inr Made \<and> (\<forall>e. res \<noteq> Inl e) \<longrightarrow> bs' = bs) \<and>
    (\<forall>r i b. (r, i, b) \<in> set (bs_tags bs) \<and> (r, i, b) \<notin> set (bs_tags bs') \<longrightarrow>
      r = Cache \<and> i \<noteq> item \<and> (\<forall>r' b'. (r', i, b') \<in> set (bs_tags bs) \<longrightarrow> r' = Cache))"
proof -
  let ?kept = "kept_blobs_of bs" and ?needed = "uncounted_bytes (kept_blobs_of bs) files"
  from evictions_for_loop [OF assms, of item limit last_used] obtain n plan where
    plan: "evictions_for ?kept item ?needed limit last_used = Some plan"
    and items: "ev_items plan = take n (map snd (eviction_order ?kept item last_used))"
    and short_by: "unat (ev_short_by plan) = stored (release (ev_items plan) ?kept) + unat ?needed - unat limit"
    by blast
  have allowed: "i \<noteq> item \<and> (\<forall>r' b'. (r', i, b') \<in> set (bs_tags bs) \<longrightarrow> r' = Cache)"
    if "i \<in> set (ev_items plan)" for i
  proof -
    have "i \<in> set (map snd (eviction_order ?kept item last_used))"
      using that unfolding items by (rule in_set_takeD)
    then show ?thesis unfolding eviction_order_items tags_of_kept_blobs by blast
  qed
  show ?thesis
  proof (cases "ev_short_by plan > 0 \<and> short = EvictNothing")
    case True
    then show ?thesis using plan by (simp add: evict_for_def Let_def)
  next
    case False
    obtain e bs' where ev: "evict_all fails (ev_items plan) bs = (e, bs')" by fastforce
    note tags = evict_all_tags [OF ev]
    have "r = Cache \<and> i \<in> set (ev_items plan)"
      if "(r, i, b) \<in> set (bs_tags bs)" "(r, i, b) \<notin> set (bs_tags bs')" for r i b
      using tags that by fastforce
    with allowed have gone: "\<forall>r i b. (r, i, b) \<in> set (bs_tags bs) \<and> (r, i, b) \<notin> set (bs_tags bs') \<longrightarrow>
        r = Cache \<and> i \<noteq> item \<and> (\<forall>r' b'. (r', i, b') \<in> set (bs_tags bs) \<longrightarrow> r' = Cache)"
      by blast
    have fits: "stored (kept_blobs_of bs') + unat ?needed \<le> unat limit"
      if "e = Inr ()" "ev_short_by plan = 0"
      using stored_after [of fails "ev_items plan" bs bs'] ev that short_by by simp
    have "evict_for fails (Some last_used) (Some limit) item files short bs = Some
        (case e of Inl x \<Rightarrow> Inl x
         | Inr _ \<Rightarrow> Inr (if ev_short_by plan = 0 then Made else Short (ev_short_by plan)), bs')"
      using False plan ev by (auto simp: evict_for_def Let_def split: sum.split)
    then show ?thesis
    proof (intro exI conjI, assumption)
      show "(case e of Inl x \<Rightarrow> Inl x
          | Inr _ \<Rightarrow> Inr (if ev_short_by plan = 0 then Made else Short (ev_short_by plan))) = Inr Made \<longrightarrow>
          stored (kept_blobs_of bs') + unat ?needed \<le> unat limit"
        using fits by (cases e) auto
    qed (use False gone in \<open>auto simp: word_gt_0 split: sum.splits if_splits\<close>)
  qed
qed

text \<open>
  An item's content is sent only to members that pledge the group's minimum, and everything
  else to anyone: a member that does not is refused a blob exactly when it is content or it cannot
  be told whether it is.
\<close>

theorem content_only_for_pledgers:
  "may_serve s is_content_file requester hash \<longleftrightarrow>
     (\<exists>r. bt_get (ms_members s) requester = Some r \<and> min_pledge_bytes (ms_settings s) \<le> rec_pledge r) \<or>
     is_content_file hash = Some False"
  by (auto simp: may_serve_def pledges_the_minimum_def split: option.splits)

section \<open>A store over its limit\<close>

definition demo_store :: blob_store where
  "demo_store =
     \<lparr>bs_tags = [(Cache, ItemId 1, ContentHash 1), (Own, ItemId 2, ContentHash 2),
        (Cache, ItemId 3, ContentHash 3)],
      bs_status = \<lambda>_. Complete 10, bs_held = bts_of [ItemId 1, ItemId 2, ItemId 3]\<rparr>"

lemma demo_store_stored:
  "stored (kept_blobs_of demo_store) = 30" "uncounted_bytes (kept_blobs_of demo_store) [(ContentHash 4, 5)] = 5"
proof -
  have "tag_blob ` set (bs_tags demo_store) = {ContentHash 1, ContentHash 2, ContentHash 3}"
    by (simp add: demo_store_def tag_blob_def)
  moreover have "unat (size_of demo_store b) = 10" for b
    by (simp add: size_of_def demo_store_def)
  ultimately show "stored (kept_blobs_of demo_store) = 30"
    using stored_release_kept [of "[]" demo_store] by simp
  show "uncounted_bytes (kept_blobs_of demo_store) [(ContentHash 4, 5)] = 5" by code_simp
qed

theorem making_room_witness:
  "\<exists>bs'. evict_for (\<lambda>_ _. False) (Some (\<lambda>_. None)) (Some 30) (ItemId 3) [(ContentHash 4, 5)]
     EvictNothing demo_store = Some (Inr Made, bs') \<and> stored (kept_blobs_of bs') \<le> 25 \<and>
     (Own, ItemId 2, ContentHash 2) \<in> set (bs_tags bs') \<and>
     (Cache, ItemId 3, ContentHash 3) \<in> set (bs_tags bs')"
proof -
  have made: "map_option fst (evict_for (\<lambda>_ _. False) (Some (\<lambda>_. None)) (Some 30) (ItemId 3)
      [(ContentHash 4, 5)] EvictNothing demo_store) = Some (Inr Made)"
    by code_simp
  have "stored (kept_blobs_of demo_store) +
      unat (uncounted_bytes (kept_blobs_of demo_store) [(ContentHash 4, 5)]) < 2 ^ 64"
    by (simp add: demo_store_stored)
  from making_room [OF this, of "\<lambda>_ _. False" "\<lambda>_. None" 30 "ItemId 3" EvictNothing] made
  obtain bs' where bs': "evict_for (\<lambda>_ _. False) (Some (\<lambda>_. None)) (Some 30) (ItemId 3)
      [(ContentHash 4, 5)] EvictNothing demo_store = Some (Inr Made, bs')"
    "stored (kept_blobs_of bs') + 5 \<le> 30"
    "\<forall>r i b. (r, i, b) \<in> set (bs_tags demo_store) \<and> (r, i, b) \<notin> set (bs_tags bs') \<longrightarrow>
      r = Cache \<and> i \<noteq> ItemId 3"
    by (auto simp: demo_store_stored)
  moreover have "(Own, ItemId 2, ContentHash 2) \<in> set (bs_tags demo_store)"
    "(Cache, ItemId 3, ContentHash 3) \<in> set (bs_tags demo_store)"
    by (simp_all add: demo_store_def)
  ultimately show ?thesis by (intro exI [of _ bs']) auto
qed

end
