(* ===== verification/Std_Slices.thy ===== *)
theory Std_Slices
  imports BTree_Map "HOL-Library.Multiset"
begin

text \<open>
  The operations of Rust's slices and vectors that the components call: \<open>binary_search_by_key\<close>,
  \<open>dedup_by_key\<close>, \<open>select_nth_unstable_by\<close> and sorting from the highest down. Each is an
  executable definition with the lemma its callers use. What a caller may rely on in a selection
  is the locale \<open>selection\<close>: the standard library does not say in which order it leaves the
  elements, so the clients' lemmas are proved there, and partitioning around a pivot interprets it.
\<close>

section \<open>Binary search\<close>

text \<open>The index of \<open>k\<close> among \<open>f lo, .., f (hi - 1)\<close>, halving the interval.\<close>

function bsearch :: "(nat \<Rightarrow> 'k::linorder) \<Rightarrow> 'k \<Rightarrow> nat \<Rightarrow> nat \<Rightarrow> nat option" where
  "bsearch f k lo hi =
     (if hi \<le> lo then None
      else let mid = (lo + hi) div 2
           in if f mid < k then bsearch f k (mid + 1) hi
              else if f mid = k then Some mid
              else bsearch f k lo mid)"
  by pat_completeness auto
termination
  by (relation "measure (\<lambda>(f, k, lo, hi). hi - lo)") auto

declare bsearch.simps [simp del]

lemma bsearch_Some: "bsearch f k lo hi = Some i \<Longrightarrow> lo \<le> i \<and> i < hi \<and> f i = k"
proof (induction f k lo hi rule: bsearch.induct)
  case (1 f k lo hi)
  define mid where "mid = (lo + hi) div 2"
  show ?case
  proof (cases "hi \<le> lo")
    case True
    with "1.prems" show ?thesis by (subst (asm) bsearch.simps) simp
  next
    case False
    then have "lo \<le> mid" "mid < hi" by (auto simp: mid_def)
    moreover have "bsearch f k lo hi =
        (if f mid < k then bsearch f k (mid + 1) hi
         else if f mid = k then Some mid else bsearch f k lo mid)"
      using False by (subst bsearch.simps) (simp add: mid_def Let_def)
    ultimately show ?thesis
      using "1.prems" "1.IH"(1) [OF False mid_def] "1.IH"(2) [OF False mid_def]
      by (fastforce split: if_splits)
  qed
qed

lemma bsearch_None:
  assumes "bsearch f k lo hi = None"
    and "\<And>i j. lo \<le> i \<Longrightarrow> i < j \<Longrightarrow> j < hi \<Longrightarrow> f i < f j"
    and "lo \<le> i" and "i < hi"
  shows "f i \<noteq> k"
  using assms
proof (induction f k lo hi rule: bsearch.induct)
  case (1 f k lo hi)
  define mid where "mid = (lo + hi) div 2"
  have mid: "lo \<le> mid" "mid < hi" using "1.prems"(3,4) by (auto simp: mid_def)
  have inc: "f a < f b" if "lo \<le> a" "a < b" "b < hi" for a b using "1.prems"(2) that by blast
  have step: "bsearch f k lo hi =
      (if f mid < k then bsearch f k (mid + 1) hi
       else if f mid = k then Some mid else bsearch f k lo mid)"
    using mid by (subst bsearch.simps) (simp add: mid_def Let_def)
  consider "f mid < k" | "f mid > k" using "1.prems"(1) step by fastforce
  then show ?case
  proof cases
    case 1
    show ?thesis
    proof (cases "i \<le> mid")
      case True
      then have "f i \<le> f mid" using inc [of i mid] mid "1.prems"(3) by (cases "i = mid") auto
      with 1 show ?thesis by auto
    next
      case False
      then show ?thesis
        using "1.IH"(1) [OF _ mid_def 1] "1.prems" step 1 mid inc by auto
    qed
  next
    case 2
    show ?thesis
    proof (cases "mid \<le> i")
      case True
      then have "f mid \<le> f i" using inc [of mid i] mid "1.prems"(4) by (cases "i = mid") auto
      with 2 show ?thesis by auto
    next
      case False
      have "bsearch f k lo mid = None"
        using "1.prems"(1) step 2 by (auto split: if_splits)
      moreover have "f a < f b" if "lo \<le> a" "a < b" "b < mid" for a b
        using inc that mid by simp
      ultimately show ?thesis
        using "1.IH"(2) [OF _ mid_def] "1.prems"(3,4) 2 mid False by fastforce
    qed
  qed
qed

definition binary_search_by_key :: "('k::linorder \<times> 'v) list \<Rightarrow> 'k \<Rightarrow> nat option" where
  "binary_search_by_key es k = bsearch (\<lambda>i. fst (es ! i)) k 0 (length es)"

text \<open>On entries sorted by key it finds exactly what an association list would.\<close>

lemma binary_search_map_of:
  assumes "sorted_wrt (<) (map fst es)"
  shows "map_option (\<lambda>i. snd (es ! i)) (binary_search_by_key es k) = map_of es k"
proof (cases "binary_search_by_key es k")
  case None
  have "fst (es ! i) \<noteq> k" if "i < length es" for i
  proof (rule bsearch_None [where lo = 0 and hi = "length es"])
    show "bsearch (\<lambda>i. fst (es ! i)) k 0 (length es) = None"
      using None by (simp add: binary_search_by_key_def)
    show "fst (es ! a) < fst (es ! b)" if "a < b" "b < length es" for a b
      using assms that by (simp add: sorted_wrt_iff_nth_less)
  qed (use that in simp_all)
  then have "k \<notin> fst ` set es" by (metis image_iff in_set_conv_nth)
  then have "map_of es k = None" by (simp add: map_of_eq_None_iff)
  with None show ?thesis by simp
next
  case (Some i)
  then have "i < length es" "fst (es ! i) = k"
    using bsearch_Some [of "\<lambda>i. fst (es ! i)" k 0 "length es" i]
    by (simp_all add: binary_search_by_key_def)
  then have "(k, snd (es ! i)) \<in> set es" by (metis nth_mem prod.collapse)
  moreover have "distinct (map fst es)" using assms by (rule strict_sorted_distinct)
  ultimately show ?thesis using Some by simp
qed

lemma binary_search_found:
  assumes "sorted_wrt (<) (map fst es)"
  shows "binary_search_by_key es k \<noteq> None \<longleftrightarrow> k \<in> fst ` set es"
proof -
  have "binary_search_by_key es k = None \<longleftrightarrow> map_of es k = None"
    unfolding binary_search_map_of [OF assms, of k, symmetric] by simp
  then show ?thesis by (auto simp: map_of_eq_None_iff)
qed

section \<open>Removing neighbours with one key\<close>

fun dedup_by_key :: "('k \<times> 'v) list \<Rightarrow> ('k \<times> 'v) list" where
  "dedup_by_key (a # b # es) =
     (if fst a = fst b then dedup_by_key (a # es) else a # dedup_by_key (b # es))"
| "dedup_by_key es = es"

lemma keys_dedup_by_key: "fst ` set (dedup_by_key es) = fst ` set es"
  by (induction es rule: dedup_by_key.induct) auto

lemma dedup_by_key_subset: "set (dedup_by_key es) \<subseteq> set es"
  by (induction es rule: dedup_by_key.induct) auto

lemma dedup_by_key_sorted:
  fixes es :: "('k::linorder \<times> 'v) list"
  assumes "sorted (map fst es)"
  shows "sorted_wrt (<) (map fst (dedup_by_key es))"
  using assms
proof (induction es rule: dedup_by_key.induct)
  case (1 a b es)
  show ?case
  proof (cases "fst a = fst b")
    case True
    with 1 show ?thesis by auto
  next
    case False
    have "fst a < k" if "k \<in> fst ` set (dedup_by_key (b # es))" for k
      using that 1(3) False unfolding keys_dedup_by_key by force
    then show ?thesis
      using 1 False by auto
  qed
qed auto

lemma dedup_by_key_distinct: "distinct (map fst es) \<Longrightarrow> dedup_by_key es = es"
  by (induction es rule: dedup_by_key.induct) auto

text \<open>Sorted and then rid of duplicates, entries with distinct keys depend on no order.\<close>

lemma sort_dedup_unique:
  fixes es fs :: "('k::linorder \<times> 'v) list"
  assumes "set es = set fs" and "distinct (map fst es)" and "distinct (map fst fs)"
  shows "dedup_by_key (sort_key fst es) = dedup_by_key (sort_key fst fs)"
proof -
  have same: "dedup_by_key (sort_key fst gs) = sort_key fst gs"
    if "distinct (map fst gs)" for gs :: "('k \<times> 'v) list"
    using that by (intro dedup_by_key_distinct) (simp add: distinct_map)
  have keys: "sorted_wrt (<) (map fst (sort_key fst gs))" if "distinct (map fst gs)"
    for gs :: "('k \<times> 'v) list"
    using that by (simp add: strict_sorted_iff distinct_map)
  have "map_of (sort_key fst es) = map_of (sort_key fst fs)"
    using assms keys by (subst map_of_inject_set) (auto simp: strict_sorted_iff)
  then have "sort_key fst es = sort_key fst fs"
    using assms keys by (intro entries_eqI) auto
  with assms(2,3) show ?thesis by (simp add: same)
qed

section \<open>Selecting the highest\<close>

definition highest_first :: "'a::linorder list \<Rightarrow> 'a list" where
  "highest_first xs = rev (sort xs)"

lemma highest_first_set [simp]: "set (highest_first xs) = set xs"
  by (simp add: highest_first_def)

lemma highest_first_length [simp]: "length (highest_first xs) = length xs"
  by (simp add: highest_first_def)

lemma highest_first_distinct [simp]: "distinct (highest_first xs) = distinct xs"
  by (simp add: highest_first_def)

lemma highest_first_sorted: "sorted_wrt (\<ge>) (highest_first xs)"
  by (simp add: highest_first_def sorted_wrt_rev)

lemma highest_first_strict: "distinct xs \<Longrightarrow> sorted_wrt (>) (highest_first xs)"
  by (simp add: highest_first_def sorted_wrt_rev strict_sorted_iff)

lemma highest_first_filter: "highest_first (filter P xs) = filter P (highest_first xs)"
  by (simp add: highest_first_def filter_sort [symmetric] rev_filter [symmetric])

locale selection =
  fixes select :: "nat \<Rightarrow> 'a::linorder list \<Rightarrow> 'a list"
  assumes select_perm: "mset (select n xs) = mset xs"
    and select_parts: "n < length xs \<Longrightarrow> x \<in> set (take n (select n xs)) \<Longrightarrow>
      y \<in> set (drop n (select n xs)) \<Longrightarrow> y \<le> x"
begin

text \<open>Whatever order it leaves, what is kept and then sorted is the top of the ranking.\<close>

lemma sorted_selection:
  assumes "n < length xs"
  shows "highest_first (take n (select n xs)) = take n (highest_first xs)"
proof -
  let ?top = "take n (select n xs)" and ?rest = "drop n (select n xs)"
  have "mset xs = mset ?rest + mset ?top"
    by (metis add.commute append_take_drop_id mset_append select_perm)
  then have "sort xs = sort ?rest @ sort ?top"
    using select_parts [OF assms]
    by (intro properties_for_sort) (auto simp: sorted_append)
  moreover have "length ?top = n"
    using assms by (metis length_take min.absorb2 less_imp_le mset_eq_length select_perm)
  ultimately show ?thesis by (simp add: highest_first_def)
qed

lemma sorted_selection_all:
  "highest_first (if n < length xs then take n (select n xs) else xs) = take n (highest_first xs)"
  using sorted_selection by simp

end

text \<open>
  \<open>select_nth_unstable_by(n, ..)\<close> for an order given by what comes before what: partition around
  a pivot, go on in one part.
\<close>

function select_by :: "('a \<Rightarrow> 'a \<Rightarrow> bool) \<Rightarrow> nat \<Rightarrow> 'a list \<Rightarrow> 'a list" where
  "select_by before n [] = []"
| "select_by before n (p # xs) =
     (let first = filter (\<lambda>x. before x p) xs; others = filter (\<lambda>x. \<not> before x p) xs
      in if n \<le> length first then select_by before n first @ p # others
         else first @ p # select_by before (n - length first - 1) others)"
  by pat_completeness auto
termination
  by (relation "measure (\<lambda>(before, n, xs). length xs)") (auto simp: less_Suc_eq_le)

lemma mset_select_by: "mset (select_by before n xs) = mset xs"
  by (induction before n xs rule: select_by.induct) (auto simp: Let_def)

lemma length_select_by [simp]: "length (select_by before n xs) = length xs"
  by (metis mset_eq_length mset_select_by)

lemma set_select_by [simp]: "set (select_by before n xs) = set xs"
  by (metis mset_eq_setD mset_select_by)

lemma select_by_parts:
  assumes "transp before" and "asymp before"
    and "n \<le> length xs" and "x \<in> set (take n (select_by before n xs))"
    and "y \<in> set (drop n (select_by before n xs))"
  shows "\<not> before y x"
  using assms
proof (induction before n xs arbitrary: x y rule: select_by.induct)
  case (2 before n p xs)
  define first where "first = filter (\<lambda>x. before x p) xs"
  define others where "others = filter (\<lambda>x. \<not> before x p) xs"
  have len: "length xs = length first + length others"
    unfolding first_def others_def by (rule sum_length_filter_compl [symmetric])
  have others_not: "\<not> before z p" if "z \<in> set others" for z using that by (auto simp: others_def)
  have first_before: "before z p" if "z \<in> set first" for z using that by (auto simp: first_def)
  show ?case
  proof (cases "n \<le> length first")
    case True
    have eq: "select_by before n (p # xs) = select_by before n first @ p # others"
      using True by (simp add: Let_def first_def others_def)
    have x: "x \<in> set (take n (select_by before n first))"
      using "2.prems"(4) True unfolding eq by simp
    then have "before x p" using first_before by (metis in_set_takeD set_select_by)
    then have "\<not> before p x" "\<not> before z x" if "z \<in> set others" for z
      using "2.prems"(1,2) others_not [OF that] by (meson asympD, meson transpD)
    moreover have "\<not> before p x" using \<open>before x p\<close> "2.prems"(2) by (meson asympD)
    moreover have "y \<in> set (drop n (select_by before n first)) \<or> y = p \<or> y \<in> set others"
      using "2.prems"(5) True unfolding eq by auto
    ultimately show ?thesis
      using "2.IH"(1) [OF first_def others_def True "2.prems"(1,2) True x] by blast
  next
    case False
    define m where "m = n - length first - 1"
    have n: "n = length first + Suc m" using False by (simp add: m_def)
    have eq: "select_by before n (p # xs) = first @ p # select_by before m others"
      using False by (simp add: Let_def first_def others_def m_def)
    have y: "y \<in> set (drop m (select_by before m others))"
      using "2.prems"(5) unfolding eq by (simp add: n)
    then have "\<not> before y p" using others_not by (metis in_set_dropD set_select_by)
    moreover have "x \<in> set first \<or> x = p \<or> x \<in> set (take m (select_by before m others))"
      using "2.prems"(4) unfolding eq by (auto simp: n)
    moreover have "m \<le> length others" using "2.prems"(3) len n by simp
    ultimately show ?thesis
      using "2.IH"(2) [OF first_def others_def False "2.prems"(1,2), folded m_def] y
        first_before "2.prems"(1) by (meson transpD)
  qed
qed simp

definition select_nth :: "nat \<Rightarrow> 'a::linorder list \<Rightarrow> 'a list" where
  "select_nth = select_by (>)"

lemma transp_asymp_less:
  "transp ((<) :: 'a::order \<Rightarrow> _)" "asymp ((<) :: 'a::order \<Rightarrow> _)"
  "transp ((>) :: 'a::order \<Rightarrow> _)" "asymp ((>) :: 'a::order \<Rightarrow> _)"
  by (auto intro!: transpI asympI)

interpretation quick: selection select_nth
proof
  fix n :: nat and xs :: "'a list" and x y
  show "mset (select_nth n xs) = mset xs" by (simp add: select_nth_def mset_select_by)
  assume "n < length xs" "x \<in> set (take n (select_nth n xs))" "y \<in> set (drop n (select_nth n xs))"
  then show "y \<le> x"
    using select_by_parts [of "(>)" n xs x y] transp_asymp_less(3,4) by (auto simp: select_nth_def)
qed

end
