(* ===== verification/Float64.thy ===== *)
theory Float64
  imports Prelude
begin

text \<open>
  Rust's \<open>f64\<close>, as far as custody scores use it: an IEEE 754 binary64 value is its 64 bits, and
  conversion, addition, division and \<open>total_cmp\<close> are written out on them, rounding to nearest
  with ties to even. Exact intermediate results are fractions of integers, so every definition
  computes. Where IEEE leaves a NaN's payload open, the one of Rust's \<open>f64::NAN\<close> is used.
\<close>

type_synonym f64 = "64 word"

definition f64_zero :: f64 where "f64_zero = 0"
definition f64_half :: f64 where "f64_half = 0x3FE0000000000000"
definition f64_one :: f64 where "f64_one = 0x3FF0000000000000"
definition f64_infinity :: f64 where "f64_infinity = 0x7FF0000000000000"
definition f64_nan :: f64 where "f64_nan = 0x7FF8000000000000"
definition sign_bit :: f64 where "sign_bit = 0x8000000000000000"

definition f64_negative :: "f64 \<Rightarrow> bool" where
  "f64_negative x \<longleftrightarrow> sign_bit \<le> x"

definition f64_abs :: "f64 \<Rightarrow> f64" where
  "f64_abs x = (if f64_negative x then x - sign_bit else x)"

definition f64_neg :: "f64 \<Rightarrow> f64" where
  "f64_neg x = x + sign_bit"

definition f64_is_nan :: "f64 \<Rightarrow> bool" where
  "f64_is_nan x \<longleftrightarrow> f64_infinity < f64_abs x"

definition f64_is_inf :: "f64 \<Rightarrow> bool" where
  "f64_is_inf x \<longleftrightarrow> f64_abs x = f64_infinity"

definition f64_is_zero :: "f64 \<Rightarrow> bool" where
  "f64_is_zero x \<longleftrightarrow> f64_abs x = 0"

definition with_sign :: "bool \<Rightarrow> f64 \<Rightarrow> f64" where
  "with_sign negative x = (if negative then f64_neg x else x)"

section \<open>Exact values and rounding\<close>

text \<open>The magnitude of a finite value, as numerator and denominator.\<close>

definition magnitude :: "f64 \<Rightarrow> int \<times> int" where
  "magnitude x =
     (let bits = uint (f64_abs x); e = bits div 2 ^ 52; frac = bits mod 2 ^ 52
      in if e = 0 then (frac, 2 ^ 1074)
         else if e \<ge> 1075 then ((2 ^ 52 + frac) * 2 ^ nat (e - 1075), 1)
         else (2 ^ 52 + frac, 2 ^ nat (1075 - e)))"

definition round_half_even :: "int \<Rightarrow> int \<Rightarrow> int" where
  "round_half_even n d =
     (let q = n div d; r = n mod d
      in if 2 * r < d \<or> (2 * r = d \<and> even q) then q else q + 1)"

function int_bits :: "int \<Rightarrow> int" where
  "int_bits n = (if n \<le> 0 then 0 else 1 + int_bits (n div 2))"
  by pat_completeness auto
termination
  by (relation "measure nat") auto

declare int_bits.simps [simp del]

text \<open>
  The exponent of the unit in the last place that a positive fraction is rounded to: 53
  significant bits, or fewer at the subnormal end.
\<close>

definition ulp_exponent :: "int \<Rightarrow> int \<Rightarrow> int" where
  "ulp_exponent n d =
     (let e = int_bits n - int_bits d - 53;
          small = (if e + 53 \<ge> 0 then n < d * 2 ^ nat (e + 53) else n * 2 ^ nat (- (e + 53)) < d)
      in max (if small then e else e + 1) (- 1074))"

text \<open>
  A positive fraction rounded to a value: the significand, carry included, is added to the
  shifted exponent.
\<close>

definition round_fraction :: "int \<Rightarrow> int \<Rightarrow> f64" where
  "round_fraction n d =
     (if n = 0 then 0
      else let e = ulp_exponent n d;
               m = (if e \<ge> 0 then round_half_even n (d * 2 ^ nat e)
                    else round_half_even (n * 2 ^ nat (- e)) d);
               bits = (e + 1074) * 2 ^ 52 + m
           in if bits \<ge> 0x7FF0000000000000 then f64_infinity else word_of_int bits)"

definition f64_of_int :: "int \<Rightarrow> f64" where
  "f64_of_int n = round_fraction n 1"

section \<open>Operations\<close>

definition f64_add :: "f64 \<Rightarrow> f64 \<Rightarrow> f64" where
  "f64_add x y =
     (if f64_is_nan x \<or> f64_is_nan y then f64_nan
      else if f64_is_inf x then
        (if f64_is_inf y \<and> f64_negative x \<noteq> f64_negative y then f64_nan else x)
      else if f64_is_inf y then y
      else if f64_is_zero x \<and> f64_is_zero y then
        with_sign (f64_negative x \<and> f64_negative y) 0
      else
        let (nx, dx) = magnitude x; (ny, dy) = magnitude y;
            n = (if f64_negative x then - nx else nx) * dy + (if f64_negative y then - ny else ny) * dx
        in with_sign (n < 0) (round_fraction \<bar>n\<bar> (dx * dy)))"

definition f64_div :: "f64 \<Rightarrow> f64 \<Rightarrow> f64" where
  "f64_div x y =
     (let negative = (f64_negative x \<noteq> f64_negative y)
      in if f64_is_nan x \<or> f64_is_nan y \<or> (f64_is_inf x \<and> f64_is_inf y)
            \<or> (f64_is_zero x \<and> f64_is_zero y) then f64_nan
         else if f64_is_inf x \<or> f64_is_zero y then with_sign negative f64_infinity
         else if f64_is_inf y then with_sign negative 0
         else let (nx, dx) = magnitude x; (ny, dy) = magnitude y
              in with_sign negative (round_fraction (nx * dy) (dx * ny)))"

text \<open>The key \<open>total_cmp\<close> compares: the bits as a signed number, negative values reversed.\<close>

definition total_key :: "f64 \<Rightarrow> int" where
  "total_key x = (if f64_negative x then 2 ^ 63 - 1 - uint x else uint x)"

definition f64_positive :: "f64 \<Rightarrow> bool" where
  "f64_positive x \<longleftrightarrow> \<not> f64_is_nan x \<and> \<not> f64_negative x \<and> \<not> f64_is_zero x"

lemma total_key_inject: "total_key x = total_key y \<longleftrightarrow> x = y"
proof -
  have "uint sign_bit = 2 ^ 63" by (simp add: sign_bit_def)
  then have key: "total_key z = (if 2 ^ 63 \<le> uint z then 2 ^ 63 - 1 - uint z else uint z)" for z
    by (simp add: total_key_def f64_negative_def word_le_def)
  have "0 \<le> uint x" and "0 \<le> uint y" by simp_all
  then show ?thesis
    unfolding key word_uint_eq_iff by (smt (verit))
qed

text \<open>A positive value over zero is infinite, over a negated zero or negated itself with that sign.\<close>

lemma f64_div_zero:
  assumes "f64_positive w" and "\<not> f64_is_inf w"
  shows "f64_div (f64_neg w) f64_zero = f64_neg f64_infinity"
proof -
  have neg: "f64_negative (f64_neg w)" "f64_abs (f64_neg w) = f64_abs w"
  proof -
    have "\<not> sign_bit \<le> w" using assms(1) by (simp add: f64_positive_def f64_negative_def)
    then have "uint w < 2 ^ 63" by (simp add: word_le_def sign_bit_def)
    then have "uint (w + sign_bit) = uint w + 2 ^ 63"
      by (simp add: uint_word_ariths sign_bit_def)
    then show "f64_negative (f64_neg w)"
      by (simp add: f64_negative_def f64_neg_def word_le_def sign_bit_def)
    then show "f64_abs (f64_neg w) = f64_abs w"
      using \<open>\<not> sign_bit \<le> w\<close> by (simp add: f64_abs_def f64_neg_def f64_negative_def)
  qed
  have "\<not> f64_negative f64_zero" "f64_is_zero f64_zero" "\<not> f64_is_nan f64_zero" "\<not> f64_is_inf f64_zero"
    by code_simp+
  then show ?thesis
    using assms neg
    by (simp add: f64_div_def f64_positive_def f64_is_nan_def f64_is_zero_def f64_is_inf_def
        with_sign_def)
qed

text \<open>Conversions and quotients at known values, against the bits a processor gives.\<close>

lemma f64_samples:
  "f64_of_int 1 = f64_one"
  "f64_of_int (2 ^ 53 + 1) = f64_of_int (2 ^ 53)"
  "f64_add f64_half f64_half = f64_one"
  "f64_div f64_one (f64_of_int 3) = 0x3FD5555555555555"
  "f64_div f64_one (f64_of_int 10) = 0x3FB999999999999A"
  "f64_add f64_one (f64_neg f64_half) = f64_half"
  by code_simp+

end
