(* ===== verification/Custody_Rendezvous.thy ===== *)
theory Custody_Rendezvous
  imports Ids Group_Settings Std_Slices Float64
begin

text \<open>
  Who keeps which item: the weighted rendezvous hashing of
  \<open>crates/distlib-core/src/custody.rs\<close>. A group is the sorted pledges and the sorted weights;
  an item's custodians are its best-ranked candidates. BLAKE3 and \<open>libm::log\<close> are not part of
  the repository: they are the fields of \<open>scorer\<close>, an argument of what uses them. \<open>usize\<close>
  counts are natural numbers, bounded by the 8-bit \<open>replicas\<close>.
\<close>

section \<open>Scores\<close>

record scorer =
  derive_key :: "string \<Rightarrow> u8 list \<Rightarrow> 256 word"
  keyed_hash :: "256 word \<Rightarrow> u8 list \<Rightarrow> u8 list"
  libm_log :: "f64 \<Rightarrow> f64"

definition CUSTODY_CONTEXT :: string where
  "CUSTODY_CONTEXT = ''distlib.custody.v1''"

definition PARALLEL_FROM :: nat where
  "PARALLEL_FROM = 1024"

definition from_le_bytes :: "u8 list \<Rightarrow> u64" where
  "from_le_bytes bytes = foldr (\<lambda>b acc. ucast b + push_bit 8 acc) bytes 0"

datatype ranked = Ranked (score: f64) (ranked_member: member_id)

text \<open>\<open>h\<close>, from the first eight bytes of the hash.\<close>

definition hash_unit :: "u8 list \<Rightarrow> f64" where
  "hash_unit first =
     (let bits = drop_bit 11 (from_le_bytes first)
      in f64_div (f64_add (f64_of_int (uint bits)) f64_half) (f64_of_int (2 ^ 53)))"

definition ranked_new :: "scorer \<Rightarrow> 256 word \<Rightarrow> item_id \<Rightarrow> member_id \<Rightarrow> f64 \<Rightarrow> ranked" where
  "ranked_new sc key item member w =
     (let ids = be_bytes 32 (item_bytes item) @ be_bytes 32 (member_bytes member);
          first = take 8 (keyed_hash sc key ids);
          h = hash_unit first
      in Ranked (f64_div (f64_neg w) (libm_log sc h)) member)"

text \<open>\<open>Ranked::cmp\<close>: the higher score ranks higher; of equal scores, the lower member.\<close>

definition ranked_below :: "ranked \<Rightarrow> ranked \<Rightarrow> bool" where
  "ranked_below a b \<longleftrightarrow>
     (if total_key (score a) = total_key (score b) then ranked_member b < ranked_member a
      else total_key (score a) < total_key (score b))"

instantiation ranked :: linorder
begin

definition less_eq_ranked :: "ranked \<Rightarrow> ranked \<Rightarrow> bool" where
  "less_eq_ranked a b \<longleftrightarrow> \<not> ranked_below b a"

definition less_ranked :: "ranked \<Rightarrow> ranked \<Rightarrow> bool" where
  "less_ranked a b \<longleftrightarrow> ranked_below a b"

instance
proof
  fix a b :: ranked
  show "a \<le> b \<Longrightarrow> b \<le> a \<Longrightarrow> a = b"
    by (auto simp: less_eq_ranked_def ranked_below_def total_key_inject ranked.expand split: if_splits)
qed (auto simp: less_eq_ranked_def less_ranked_def ranked_below_def split: if_splits)

end

section \<open>Groups\<close>

record custody_item =
  ci_item :: item_id
  ci_creators :: "member_id list"
  ci_size :: u64

record custody_group =
  cg_replicas :: u8
  cg_key :: "256 word"
  cg_members :: "(member_id \<times> u64) list"
  cg_weighted :: "(member_id \<times> f64) list"

text \<open>
  \<open>sort_unstable_by_key\<close> may leave entries of one member in any order; the callers pass the
  pledges of a map, one for each member, where there is only one order to leave.
\<close>

definition cg_new :: "scorer \<Rightarrow> u8 \<Rightarrow> weight_rule \<Rightarrow> (member_id \<times> u64) list \<Rightarrow> custody_group" where
  "cg_new sc copies rule pledges =
     (let ps = dedup_by_key (sort_key fst pledges);
          weights = map (\<lambda>(m, pledge). (m, weight rule pledge)) ps;
          weighted = map (\<lambda>(m, w). (m, f64_of_int (uint w))) (filter (\<lambda>(_, w). w > 0) weights)
      in \<lparr>cg_replicas = copies,
          cg_key = derive_key sc CUSTODY_CONTEXT [],
          cg_members = ps,
          cg_weighted = weighted\<rparr>)"

definition slots :: "custody_group \<Rightarrow> custody_item \<Rightarrow> nat" where
  "slots g item =
     (let created_here =
            list_ex (\<lambda>c. binary_search_by_key (cg_members g) c \<noteq> None) (ci_creators item)
      in unat (cg_replicas g) - (if created_here then 1 else 0))"

definition candidates :: "custody_group \<Rightarrow> custody_item \<Rightarrow> (member_id \<times> f64) list" where
  "candidates g item = filter (\<lambda>(m, _). m \<notin> set (ci_creators item)) (cg_weighted g)"

definition weight_of :: "custody_group \<Rightarrow> member_id \<Rightarrow> f64 option" where
  "weight_of g m =
     map_option (\<lambda>i. snd (cg_weighted g ! i)) (binary_search_by_key (cg_weighted g) m)"

definition pledge_of :: "custody_group \<Rightarrow> member_id \<Rightarrow> u64" where
  "pledge_of g m =
     (case binary_search_by_key (cg_members g) m of
        None \<Rightarrow> 0
      | Some i \<Rightarrow> snd (cg_members g ! i))"

definition rank_candidates :: "scorer \<Rightarrow> custody_group \<Rightarrow> custody_item \<Rightarrow> ranked list" where
  "rank_candidates sc g item =
     map (\<lambda>(m, w). ranked_new sc (cg_key g) (ci_item item) m w) (candidates g item)"

definition custodians :: "scorer \<Rightarrow> custody_group \<Rightarrow> custody_item \<Rightarrow> member_id list" where
  "custodians sc g item =
     (let n = slots g item;
          ranked = rank_candidates sc g item;
          kept = (if n < length ranked then take n (select_nth n ranked) else ranked)
      in map ranked_member (highest_first kept))"

definition is_custodian :: "scorer \<Rightarrow> custody_group \<Rightarrow> custody_item \<Rightarrow> member_id \<Rightarrow> bool" where
  "is_custodian sc g item me =
     (let n = slots g item
      in case weight_of g me of
           None \<Rightarrow> False
         | Some w \<Rightarrow>
             if n = 0 \<or> me \<in> set (ci_creators item) then False
             else
               let rank = ranked_new sc (cg_key g) (ci_item item);
                   mine = rank me w;
                   others = filter (\<lambda>(m, _). m \<noteq> me) (candidates g item);
                   above = filter (\<lambda>(m, v). rank m v > mine) others
               in length above \<le> n - 1)"

text \<open>
  From \<open>PARALLEL_FROM\<close> items on, \<open>custody_of\<close> uses rayon's parallel iterator over a slice: it
  halves the slice and puts what the halves collect back together in order, as rayon documents of
  collecting an indexed slice. How far it halves is rayon's choice; here it goes down to single items.
\<close>

function par_filter_map :: "('a \<Rightarrow> 'b option) \<Rightarrow> 'a list \<Rightarrow> 'b list" where
  "par_filter_map f xs =
     (if length xs \<le> 1 then List.map_filter f xs
      else let mid = length xs div 2
           in par_filter_map f (take mid xs) @ par_filter_map f (drop mid xs))"
  by pat_completeness auto
termination
  by (relation "measure (length \<circ> snd)") auto

declare par_filter_map.simps [simp del]

definition custody_of :: "scorer \<Rightarrow> custody_group \<Rightarrow> member_id \<Rightarrow> custody_item list \<Rightarrow> item_id list" where
  "custody_of sc g me items =
     (if weight_of g me = None then []
      else let kept = (\<lambda>item. if is_custodian sc g item me then Some (ci_item item) else None)
           in if length items < PARALLEL_FROM then List.map_filter kept items
              else par_filter_map kept items)"

definition first_after_custodians ::
    "scorer \<Rightarrow> custody_group \<Rightarrow> custody_item \<Rightarrow> (member_id \<Rightarrow> bool) \<Rightarrow> member_id option" where
  "first_after_custodians sc g item eligible =
     List.find eligible
       (map ranked_member (drop (slots g item) (highest_first (rank_candidates sc g item))))"

definition demand_bytes :: "custody_group \<Rightarrow> custody_item \<Rightarrow> u64" where
  "demand_bytes g item = sat_mul (ci_size item) (of_nat (slots g item))"

definition load_factor :: "custody_group \<Rightarrow> 128 word \<Rightarrow> f64 option" where
  "load_factor g demand =
     (let total = fold (\<lambda>(_, w) acc. f64_add acc w) (cg_weighted g) f64_zero
      in if f64_positive total then Some (f64_div (f64_of_int (uint demand)) total) else None)"

section \<open>Well-formed groups\<close>

text \<open>What \<open>CustodyGroup::new\<close> establishes, and binary searches rely on.\<close>

definition cg_ok :: "custody_group \<Rightarrow> bool" where
  "cg_ok g \<longleftrightarrow>
     sorted_wrt (<) (map fst (cg_members g)) \<and> sorted_wrt (<) (map fst (cg_weighted g)) \<and>
     fst ` set (cg_weighted g) \<subseteq> fst ` set (cg_members g)"

lemma sorted_keys_filter_map:
  fixes es :: "('k::linorder \<times> 'v) list"
  assumes "sorted_wrt (<) (map fst es)"
  shows "sorted_wrt (<) (map fst (filter P (map (\<lambda>(k, v). (k, f k v)) es)))"
  using assms
  by (intro sorted_filter_entries) (simp add: case_prod_unfold comp_def)

lemma cg_new_members: "cg_members (cg_new sc r rule ps) = dedup_by_key (sort_key fst ps)"
  by (simp add: cg_new_def Let_def)

lemma cg_new_weighted:
  "cg_weighted (cg_new sc r rule ps) =
     map (\<lambda>(m, p). (m, f64_of_int (uint (weight rule p))))
       (filter (\<lambda>(_, p). weight rule p > 0) (dedup_by_key (sort_key fst ps)))"
  by (simp add: cg_new_def Let_def filter_map comp_def case_prod_unfold)

lemma cg_new_ok [simp]: "cg_ok (cg_new sc r rule ps)"
proof -
  let ?ps = "dedup_by_key (sort_key fst ps)"
  have members: "sorted_wrt (<) (map fst ?ps)"
    by (rule dedup_by_key_sorted) simp
  then have "sorted_wrt (<) (map fst (filter (\<lambda>(_, p). weight rule p > 0) ?ps))"
    by (rule sorted_filter_entries)
  then show ?thesis
    using members
    by (force simp: cg_ok_def cg_new_members cg_new_weighted case_prod_unfold comp_def)
qed

lemma weight_of_map_of: "cg_ok g \<Longrightarrow> weight_of g m = map_of (cg_weighted g) m"
  by (simp add: weight_of_def cg_ok_def binary_search_map_of)

lemma pledge_of_map_of:
  assumes "cg_ok g"
  shows "pledge_of g m = (case map_of (cg_members g) m of None \<Rightarrow> 0 | Some p \<Rightarrow> p)"
proof -
  have "sorted_wrt (<) (map fst (cg_members g))" using assms by (simp add: cg_ok_def)
  from binary_search_map_of [OF this, of m] show ?thesis
    by (auto simp: pledge_of_def split: option.splits)
qed

lemma slots_eq:
  assumes "cg_ok g"
  shows "slots g item =
    unat (cg_replicas g) - (if \<exists>c \<in> set (ci_creators item). c \<in> fst ` set (cg_members g) then 1 else 0)"
proof -
  have "sorted_wrt (<) (map fst (cg_members g))" using assms by (simp add: cg_ok_def)
  then show ?thesis
    using binary_search_found [of "cg_members g"] by (simp add: slots_def Let_def list_ex_iff)
qed

section \<open>The ranking\<close>

text \<open>All candidates of an item, best first: what the custodians are the top of.\<close>

definition ranking :: "scorer \<Rightarrow> custody_group \<Rightarrow> custody_item \<Rightarrow> member_id list" where
  "ranking sc g item = map ranked_member (highest_first (rank_candidates sc g item))"

lemma ranked_member_new [simp]: "ranked_member (ranked_new sc key item m w) = m"
  by (simp add: ranked_new_def Let_def)

lemma members_of_rank_candidates:
  "map ranked_member (rank_candidates sc g item) = map fst (candidates g item)"
  by (simp add: rank_candidates_def case_prod_unfold)

lemma candidates_distinct:
  assumes "cg_ok g"
  shows "distinct (map fst (candidates g item))"
proof -
  have "sorted_wrt (<) (map fst (candidates g item))"
    unfolding candidates_def by (rule sorted_filter_entries) (use assms in \<open>simp add: cg_ok_def\<close>)
  then show ?thesis by (rule strict_sorted_distinct)
qed

lemma rank_candidates_distinct:
  assumes "cg_ok g"
  shows "distinct (map ranked_member (rank_candidates sc g item))"
    and "distinct (rank_candidates sc g item)"
proof -
  show "distinct (map ranked_member (rank_candidates sc g item))"
    unfolding members_of_rank_candidates by (rule candidates_distinct [OF assms])
  then show "distinct (rank_candidates sc g item)" by (simp add: distinct_map)
qed

lemma custodians_take: "custodians sc g item = take (slots g item) (ranking sc g item)"
  by (simp add: custodians_def ranking_def Let_def quick.sorted_selection_all take_map)

lemma first_after_eq:
  "first_after_custodians sc g item eligible =
     List.find eligible (drop (slots g item) (ranking sc g item))"
  by (simp add: first_after_custodians_def ranking_def drop_map)

lemma set_ranking: "set (ranking sc g item) = fst ` set (candidates g item)"
  using arg_cong [OF members_of_rank_candidates, of set]
  by (simp add: ranking_def)

lemma ranking_distinct: "cg_ok g \<Longrightarrow> distinct (ranking sc g item)"
  using rank_candidates_distinct [of g sc item]
  by (simp add: ranking_def distinct_map)

lemma length_ranking [simp]: "length (ranking sc g item) = length (candidates g item)"
  by (simp add: ranking_def rank_candidates_def)

text \<open>In a strictly falling list, an element is in front exactly when few are above it.\<close>

lemma in_take_iff_few_above:
  fixes xs :: "'a::linorder list"
  assumes "sorted_wrt (>) xs" and "x \<in> set xs"
  shows "x \<in> set (take n xs) \<longleftrightarrow> length (filter (\<lambda>y. y > x) xs) < n"
proof -
  obtain as bs where xs: "xs = as @ x # bs" using split_list [OF assms(2)] by blast
  then have "\<forall>y \<in> set as. y > x" and "\<forall>y \<in> set bs. y < x"
    using assms(1) by (auto simp: sorted_wrt_append)
  then have above: "filter (\<lambda>y. y > x) xs = as"
    by (auto simp: xs filter_id_conv filter_empty_conv not_less less_imp_le)
  have "x \<notin> set as" using \<open>\<forall>y \<in> set as. y > x\<close> by auto
  then have "x \<in> set (take n xs) \<longleftrightarrow> length as < n"
    by (cases "n - length as") (auto simp: xs dest: in_set_takeD)
  with above show ?thesis by simp
qed

lemma member_in_take_ranking:
  fixes sc :: scorer
  assumes "cg_ok g" and "(me, w) \<in> set (candidates g item)"
  defines "mine \<equiv> ranked_new sc (cg_key g) (ci_item item) me w"
  shows "me \<in> set (take n (ranking sc g item)) \<longleftrightarrow>
    length (filter (\<lambda>r. r > mine) (rank_candidates sc g item)) < n"
proof -
  let ?rs = "highest_first (rank_candidates sc g item)"
  note dist = rank_candidates_distinct [OF assms(1), of sc item]
  have mine: "mine \<in> set ?rs" "ranked_member mine = me"
    using assms(2) by (force simp: mine_def rank_candidates_def)+
  have "inj_on ranked_member (set ?rs)"
    using dist(1) by (simp add: distinct_map)
  then have "me \<in> ranked_member ` set (take n ?rs) \<longleftrightarrow> mine \<in> set (take n ?rs)"
    using mine by (metis (no_types, lifting) imageE imageI in_set_takeD inj_onD)
  then have "me \<in> set (take n (ranking sc g item)) \<longleftrightarrow> mine \<in> set (take n ?rs)"
    by (simp add: ranking_def take_map)
  also have "\<dots> \<longleftrightarrow> length (filter (\<lambda>r. r > mine) ?rs) < n"
    using highest_first_strict [OF dist(2)] mine(1) by (rule in_take_iff_few_above)
  also have "length (filter (\<lambda>r. r > mine) ?rs) =
      length (filter (\<lambda>r. r > mine) (rank_candidates sc g item))"
    by (simp add: highest_first_filter [symmetric])
  finally show ?thesis .
qed

lemma is_custodian_iff:
  assumes "cg_ok g"
  shows "is_custodian sc g item me \<longleftrightarrow> me \<in> set (custodians sc g item)"
proof (cases "me \<in> fst ` set (candidates g item)")
  case False
  have "weight_of g me = None \<or> me \<in> set (ci_creators item)"
    using False weight_of_map_of [OF assms, of me]
    by (cases "weight_of g me") (force simp: candidates_def dest: map_of_SomeD)+
  then have "\<not> is_custodian sc g item me"
    by (auto simp: is_custodian_def Let_def split: option.splits)
  moreover have "me \<notin> set (custodians sc g item)"
    using False set_ranking [of sc g item] by (auto simp: custodians_take dest: in_set_takeD)
  ultimately show ?thesis by simp
next
  case True
  then obtain w where w: "(me, w) \<in> set (candidates g item)" by auto
  then have "(me, w) \<in> set (cg_weighted g)" and creator: "me \<notin> set (ci_creators item)"
    by (auto simp: candidates_def)
  then have weight: "weight_of g me = Some w"
    using assms by (simp add: weight_of_map_of cg_ok_def strict_sorted_distinct)
  let ?rank = "ranked_new sc (cg_key g) (ci_item item)"
  let ?above = "filter (\<lambda>(m, v). ?rank m v > ?rank me w) (candidates g item)"
  have "filter (\<lambda>(m, v). ?rank m v > ?rank me w) (filter (\<lambda>(m, _). m \<noteq> me) (candidates g item))
      = ?above"
  proof -
    have "v = w" if "(me, v) \<in> set (candidates g item)" for v
      using that w candidates_distinct [OF assms, of item] by (metis eq_key_imp_eq_value)
    then show ?thesis by (auto simp: filter_filter intro!: filter_cong)
  qed
  then have "is_custodian sc g item me \<longleftrightarrow> length ?above < slots g item"
    using weight creator by (auto simp: is_custodian_def Let_def)
  moreover have "length ?above =
      length (filter (\<lambda>r. r > ?rank me w) (rank_candidates sc g item))"
    by (simp add: rank_candidates_def filter_map comp_def case_prod_unfold)
  ultimately show ?thesis
    using member_in_take_ranking [OF assms w, of "slots g item" sc]
    by (simp add: custodians_take)
qed

lemma par_filter_map_eq: "par_filter_map f xs = List.map_filter f xs"
proof (induction f xs rule: par_filter_map.induct)
  case (1 f xs)
  have "List.map_filter f (take n xs) @ List.map_filter f (drop n xs) = List.map_filter f xs" for n
    by (metis append_take_drop_id filter_append map_append map_filter_def)
  with 1 show ?case by (subst par_filter_map.simps) (simp add: Let_def)
qed

section \<open>When a member leaves\<close>

lemma dedup_by_key_Cons:
  "\<forall>x \<in> set xs. fst x \<noteq> fst a \<Longrightarrow> dedup_by_key (a # xs) = a # dedup_by_key xs"
  by (cases xs) auto

lemma dedup_by_key_filter:
  fixes es :: "('k::linorder \<times> 'v) list"
  assumes "sorted (map fst es)"
  shows "dedup_by_key (filter (\<lambda>e. fst e \<noteq> m) es) = filter (\<lambda>e. fst e \<noteq> m) (dedup_by_key es)"
  using assms
proof (induction es rule: dedup_by_key.induct)
  case (1 a b es)
  show ?case
  proof (cases "fst a = fst b")
    case True
    with 1 show ?thesis by (cases "fst a = m") auto
  next
    case False
    then have "\<forall>x \<in> set (filter (\<lambda>e. fst e \<noteq> m) (b # es)). fst x \<noteq> fst a"
      using "1.prems" by (auto dest: order.trans)
    from dedup_by_key_Cons [OF this] False 1 show ?thesis by auto
  qed
qed auto

lemma cg_new_without:
  shows "cg_members (cg_new sc r rule (filter (\<lambda>e. fst e \<noteq> m) ps)) =
      filter (\<lambda>e. fst e \<noteq> m) (cg_members (cg_new sc r rule ps))"
    and "cg_weighted (cg_new sc r rule (filter (\<lambda>e. fst e \<noteq> m) ps)) =
      filter (\<lambda>e. fst e \<noteq> m) (cg_weighted (cg_new sc r rule ps))"
proof -
  have sorted: "dedup_by_key (sort_key fst (filter (\<lambda>e. fst e \<noteq> m) ps)) =
      filter (\<lambda>e. fst e \<noteq> m) (dedup_by_key (sort_key fst ps))"
    by (simp add: dedup_by_key_filter filter_sort [symmetric])
  then show "cg_members (cg_new sc r rule (filter (\<lambda>e. fst e \<noteq> m) ps)) =
      filter (\<lambda>e. fst e \<noteq> m) (cg_members (cg_new sc r rule ps))"
    by (simp add: cg_new_members)
  show "cg_weighted (cg_new sc r rule (filter (\<lambda>e. fst e \<noteq> m) ps)) =
      filter (\<lambda>e. fst e \<noteq> m) (cg_weighted (cg_new sc r rule ps))"
    by (simp add: cg_new_weighted sorted filter_map comp_def case_prod_unfold conj_commute)
qed

lemma cg_new_fields [simp]:
  "cg_key (cg_new sc r rule ps) = derive_key sc CUSTODY_CONTEXT []"
  "cg_replicas (cg_new sc r rule ps) = r"
  by (simp_all add: cg_new_def Let_def)

lemma ranking_without:
  "ranking sc (cg_new sc r rule (filter (\<lambda>e. fst e \<noteq> m) ps)) item =
     filter (\<lambda>x. x \<noteq> m) (ranking sc (cg_new sc r rule ps) item)"
proof -
  let ?g = "cg_new sc r rule ps" and ?g' = "cg_new sc r rule (filter (\<lambda>e. fst e \<noteq> m) ps)"
  have "candidates ?g' item = filter (\<lambda>e. fst e \<noteq> m) (candidates ?g item)"
    by (simp add: candidates_def cg_new_without case_prod_unfold conj_commute)
  then have "rank_candidates sc ?g' item =
      filter (\<lambda>r. ranked_member r \<noteq> m) (rank_candidates sc ?g item)"
    by (simp add: rank_candidates_def filter_map comp_def case_prod_unfold)
  then show ?thesis
    by (simp add: ranking_def highest_first_filter filter_map comp_def)
qed

lemma slots_without:
  assumes "m \<notin> set (ci_creators item)"
  shows "slots (cg_new sc r rule (filter (\<lambda>e. fst e \<noteq> m) ps)) item = slots (cg_new sc r rule ps) item"
proof -
  have "(\<exists>c \<in> set (ci_creators item). c \<in> fst ` {e \<in> S. fst e \<noteq> m}) \<longleftrightarrow>
      (\<exists>c \<in> set (ci_creators item). c \<in> fst ` S)" for S :: "(member_id \<times> u64) set"
    using assms by force
  then show ?thesis by (simp add: slots_eq cg_new_without)
qed

lemma take_without:
  assumes "distinct xs"
  shows "take n (filter (\<lambda>x. x \<noteq> m) xs) =
    (if m \<in> set (take n xs) then filter (\<lambda>x. x \<noteq> m) (take n xs) @ take 1 (drop n xs) else take n xs)"
proof (cases "m \<in> set xs")
  case False
  then have "filter (\<lambda>x. x \<noteq> m) xs = xs" by (auto simp: filter_id_conv)
  with False show ?thesis by (auto dest: in_set_takeD)
next
  case True
  then obtain as bs where xs: "xs = as @ m # bs" by (meson split_list)
  with assms have "m \<notin> set as" "m \<notin> set bs" by auto
  then have without: "filter (\<lambda>x. x \<noteq> m) as = as" "filter (\<lambda>x. x \<noteq> m) bs = bs"
    by (auto simp: filter_id_conv)
  show ?thesis
  proof (cases "n \<le> length as")
    case True
    with \<open>m \<notin> set as\<close> show ?thesis by (auto simp: xs without dest: in_set_takeD)
  next
    case False
    then obtain k where n: "n = length as + Suc k" by (metis add_Suc_right less_imp_Suc_add not_le)
    have "filter (\<lambda>x. x \<noteq> m) (take k bs) = take k bs"
      using \<open>m \<notin> set bs\<close> by (auto simp: filter_id_conv dest: in_set_takeD)
    moreover have "take (Suc k) bs = take k bs @ take 1 (drop k bs)"
      by (metis Suc_eq_plus1 take_add)
    ultimately show ?thesis by (simp add: n xs without)
  qed
qed

lemma find_any: "(case List.find (\<lambda>_. True) xs of None \<Rightarrow> [] | Some x \<Rightarrow> [x]) = take 1 xs"
  by (cases xs) auto

section \<open>What custody promises\<close>

text \<open>
  C23. The quick test of custody, which stops at the first members that outrank one, agrees with
  the ranking of all members: a member is told to keep exactly those of the items, in their order,
  that list it as a custodian, whether the work is done in sequence or in parallel.
\<close>

theorem custody_of_is_the_ranking:
  "(is_custodian sc (cg_new sc r rule ps) item me \<longleftrightarrow>
      me \<in> set (custodians sc (cg_new sc r rule ps) item)) \<and>
   custody_of sc (cg_new sc r rule ps) me items =
     map ci_item (filter (\<lambda>item. me \<in> set (custodians sc (cg_new sc r rule ps) item)) items)"
proof -
  let ?g = "cg_new sc r rule ps"
  have member: "is_custodian sc ?g item me \<longleftrightarrow> me \<in> set (custodians sc ?g item)" for item
    by (simp add: is_custodian_iff)
  have "List.map_filter (\<lambda>item. if P item then Some (ci_item item) else None) items =
      map ci_item (filter P items)" for P
    by (induction items) (simp_all add: map_filter_simps)
  moreover have "\<not> is_custodian sc ?g item me" if "weight_of ?g me = None" for item
    using that by (simp add: is_custodian_def Let_def)
  ultimately have "custody_of sc ?g me items =
      map ci_item (filter (\<lambda>item. me \<in> set (custodians sc ?g item)) items)"
    by (auto simp: custody_of_def Let_def par_filter_map_eq member [symmetric] filter_empty_conv)
  with member show ?thesis by blast
qed

text \<open>
  An item has as many distinct custodians as the group wants copies beside the creator's own,
  or every candidate when there are too few; each is a member whose pledge carries a weight, and
  none is a creator.
\<close>

theorem custodians_of_an_item:
  fixes sc :: scorer and r :: u8 and rule :: weight_rule and item :: custody_item
  assumes "distinct (map fst ps)"
  defines "g \<equiv> cg_new sc r rule ps"
    and "able \<equiv> {m. \<exists>p. (m, p) \<in> set ps \<and> weight rule p > 0 \<and> m \<notin> set (ci_creators item)}"
  shows "distinct (custodians sc g item) \<and> set (custodians sc g item) \<subseteq> able \<and>
    length (custodians sc g item) =
      min (unat r - (if \<exists>c \<in> set (ci_creators item). c \<in> fst ` set ps then 1 else 0)) (card able)"
proof -
  have ps: "set (cg_members g) = set ps"
    using assms(1) by (simp add: g_def cg_new_members dedup_by_key_distinct distinct_map)
  have cands: "fst ` set (candidates g item) = able"
    unfolding candidates_def g_def able_def cg_new_weighted
    using ps by (force simp: cg_new_members g_def image_iff)
  have "length (candidates g item) = card (fst ` set (candidates g item))"
    using distinct_card [OF candidates_distinct, of g item] by (simp add: g_def)
  then have "length (custodians sc g item) =
      min (unat r - (if \<exists>c \<in> set (ci_creators item). c \<in> fst ` set ps then 1 else 0)) (card able)"
    using cands ps by (simp add: custodians_take slots_eq min.commute g_def)
  moreover have "distinct (custodians sc g item)"
    by (simp add: custodians_take ranking_distinct g_def)
  moreover have "set (custodians sc g item) \<subseteq> able"
    using cands set_ranking [of sc g item] by (auto simp: custodians_take dest!: in_set_takeD)
  ultimately show ?thesis by blast
qed

text \<open>
  C24. When a member that did not add an item leaves the group, the item's custodians change by
  no more than they must: a member that was none of them takes none of them along, and the place
  of one that was is filled by the member that came first after them.
\<close>

theorem leaving_moves_only_what_it_must:
  fixes sc :: scorer and r :: u8 and rule :: weight_rule and item :: custody_item
    and ps :: "(member_id \<times> u64) list"
  assumes "m \<notin> set (ci_creators item)"
  defines "g \<equiv> cg_new sc r rule ps"
    and "g' \<equiv> cg_new sc r rule (filter (\<lambda>e. fst e \<noteq> m) ps)"
  shows "custodians sc g' item =
    (if m \<in> set (custodians sc g item)
     then filter (\<lambda>x. x \<noteq> m) (custodians sc g item) @
       (case first_after_custodians sc g item (\<lambda>_. True) of None \<Rightarrow> [] | Some x \<Rightarrow> [x])
     else custodians sc g item)"
  using take_without [OF ranking_distinct, of g "slots g item" m sc item]
  by (simp add: custodians_take first_after_eq find_any slots_without [OF assms(1)]
      ranking_without g_def g'_def)

text \<open>
  Every node computes the same group from the same pledges: with one pledge for each member,
  the order they are given in makes no difference.
\<close>

theorem custody_needs_no_order:
  assumes "set ps = set qs" and "distinct (map fst ps)" and "distinct (map fst qs)"
  shows "cg_new sc r rule ps = cg_new sc r rule qs"
  unfolding cg_new_def by (simp only: sort_dedup_unique [OF assms])

text \<open>
  The hash is not kept off both ends of the interval: when its top 53 bits are all ones,
  adding half a step rounds up to the whole, \<open>h\<close> is exactly one, its logarithm zero, and the
  member's score minus infinity, below every finite score however much it pledges.
\<close>

theorem hash_reaches_one:
  assumes "drop_bit 11 (from_le_bytes (take 8 (keyed_hash sc key
        (be_bytes 32 (item_bytes item) @ be_bytes 32 (member_bytes m))))) = 2 ^ 53 - 1"
    and "libm_log sc f64_one = f64_zero"
    and "f64_positive w" and "\<not> f64_is_inf w"
  shows "ranked_new sc key item m w = Ranked (f64_neg f64_infinity) m"
proof -
  have "f64_div (f64_add (f64_of_int (uint (2 ^ 53 - 1 :: u64))) f64_half) (f64_of_int (2 ^ 53)) =
      f64_one"
    by code_simp
  then show ?thesis
    using assms(1,2) f64_div_zero [OF assms(3,4)]
    by (simp add: ranked_new_def hash_unit_def Let_def)
qed

section \<open>The promises at work\<close>

text \<open>
  A small group under a stand-in for the hash: the keyed hash starts with the last eight bytes
  of the member, and the logarithm is minus one below one and zero there, which a logarithm is at one.
\<close>

definition demo_scorer :: scorer where
  "demo_scorer =
     \<lparr>derive_key = \<lambda>_ _. 0,
      keyed_hash = \<lambda>_ bytes. drop 56 bytes @ take 24 bytes,
      libm_log = \<lambda>h. if h = f64_one then f64_zero else f64_neg f64_one\<rparr>"

definition demo_rule :: weight_rule where
  "demo_rule = \<lparr>rule_cap = 1000, rule_step = 10, rule_min = 100\<rparr>"

definition demo_pledges :: "(member_id \<times> u64) list" where
  "demo_pledges =
     [(MemberId 3, 100), (MemberId 1, 400), (MemberId 4, 50), (MemberId 2, 300), (MemberId 5, 200)]"

definition demo_item :: custody_item where
  "demo_item = \<lparr>ci_item = ItemId 9, ci_creators = [MemberId 3], ci_size = 7\<rparr>"

lemma demo_custodians:
  "custodians demo_scorer (cg_new demo_scorer 3 demo_rule demo_pledges) demo_item =
     [MemberId 1, MemberId 2]"
  by code_simp

lemma demo_after:
  "first_after_custodians demo_scorer (cg_new demo_scorer 3 demo_rule demo_pledges) demo_item
     (\<lambda>_. True) = Some (MemberId 5)"
  by code_simp

theorem custodians_of_an_item_witness:
  "length (custodians demo_scorer (cg_new demo_scorer 3 demo_rule demo_pledges) demo_item) = 2 \<and>
   card {m. \<exists>p. (m, p) \<in> set demo_pledges \<and> weight demo_rule p > 0
     \<and> m \<notin> set (ci_creators demo_item)} \<ge> 2"
proof -
  have "distinct (map fst demo_pledges)" by code_simp
  from custodians_of_an_item [OF this, of demo_scorer 3 demo_rule demo_item]
  have "length (custodians demo_scorer (cg_new demo_scorer 3 demo_rule demo_pledges) demo_item) \<le>
      card {m. \<exists>p. (m, p) \<in> set demo_pledges \<and> weight demo_rule p > 0
        \<and> m \<notin> set (ci_creators demo_item)}"
    by (elim conjE) (simp only: min.cobounded2)
  then show ?thesis by (simp add: demo_custodians)
qed

theorem leaving_moves_only_what_it_must_witness:
  "custodians demo_scorer
     (cg_new demo_scorer 3 demo_rule (filter (\<lambda>e. fst e \<noteq> MemberId 1) demo_pledges)) demo_item =
   [MemberId 2, MemberId 5]"
  using leaving_moves_only_what_it_must
    [of "MemberId 1" demo_item demo_scorer 3 demo_rule demo_pledges]
  by (simp add: demo_custodians demo_after) (simp add: demo_item_def)

theorem custody_needs_no_order_witness:
  "cg_new demo_scorer 3 demo_rule demo_pledges = cg_new demo_scorer 3 demo_rule (rev demo_pledges)"
  by (rule custody_needs_no_order) code_simp+

theorem hash_reaches_one_witness:
  "ranked_new demo_scorer 0 (ItemId 1) (MemberId (2 ^ 64 - 1)) (f64_of_int 1000) =
     Ranked (f64_neg f64_infinity) (MemberId (2 ^ 64 - 1))"
  by (rule hash_reaches_one) code_simp+

end
