(* ===== verification/Settling.thy ===== *)
theory Settling
  imports Prelude
begin

text \<open>
  Waiting for a value to settle: \<open>crates/distlib-custody/src/settling.rs\<close>. Instants and
  durations are natural numbers of nanoseconds; adding them does not overflow. What the operations
  come to is stated against the history of values: since when the value has been what it is, and
  since when it has been away from the adopted one.
\<close>

type_synonym instant = nat
type_synonym duration = nat

definition from_secs :: "u32 \<Rightarrow> duration" where
  "from_secs n = unat n * 1000000000"

record 'a waiting =
  w_value :: 'a
  first_change :: instant
  last_change :: instant

record 'a settling =
  st_settle :: duration
  st_max_settle :: duration
  st_adopted :: 'a
  st_waiting :: "'a waiting option"

definition settling_new :: "'a \<Rightarrow> duration \<Rightarrow> duration \<Rightarrow> 'a settling" where
  "settling_new adopted settle max_settle =
     \<lparr>st_settle = settle, st_max_settle = max_settle, st_adopted = adopted, st_waiting = None\<rparr>"

definition change :: "'a \<Rightarrow> instant \<Rightarrow> 'a settling \<Rightarrow> 'a settling" where
  "change v now s =
     (if v = st_adopted s then s\<lparr>st_waiting := None\<rparr>
      else case st_waiting s of
             Some w \<Rightarrow>
               if w_value w = v then s
               else s\<lparr>st_waiting := Some (w\<lparr>w_value := v, last_change := now\<rparr>)\<rparr>
           | None \<Rightarrow>
               s\<lparr>st_waiting := Some \<lparr>w_value = v, first_change = now, last_change = now\<rparr>\<rparr>)"

definition deadline :: "'a settling \<Rightarrow> instant option" where
  "deadline s =
     map_option (\<lambda>w. min (last_change w + st_settle s) (first_change w + st_max_settle s))
       (st_waiting s)"

definition settle :: "instant \<Rightarrow> 'a settling \<Rightarrow> 'a option \<times> 'a settling" where
  "settle now s =
     (case deadline s of
        None \<Rightarrow> (None, s)
      | Some d \<Rightarrow>
          if d > now then (None, s)
          else case st_waiting s of
                 None \<Rightarrow> (None, s)
               | Some w \<Rightarrow> (Some (w_value w), s\<lparr>st_adopted := w_value w, st_waiting := None\<rparr>))"

section \<open>Against the history of values\<close>

text \<open>
  A history lists the values given, latest first, with their times. \<open>steady_since\<close> is when the
  present value was first given in a row, \<open>away_since\<close> when the values first left \<open>a\<close> in a row.
\<close>

fun since_while :: "('a \<Rightarrow> bool) \<Rightarrow> (instant \<times> 'a) list \<Rightarrow> instant option" where
  "since_while P [] = None"
| "since_while P ((t, v) # hist) =
     (if P v then (case since_while P hist of None \<Rightarrow> Some t | Some t' \<Rightarrow> Some t') else None)"

definition changes :: "(instant \<times> 'a) list \<Rightarrow> 'a settling \<Rightarrow> 'a settling" where
  "changes evs = fold (\<lambda>(t, v). change v t) evs"

text \<open>What is waiting, read off the history.\<close>

definition waiting_of :: "'a \<Rightarrow> (instant \<times> 'a) list \<Rightarrow> 'a waiting option" where
  "waiting_of a hist =
     (case hist of
        [] \<Rightarrow> None
      | (t, v) # _ \<Rightarrow>
          if v = a then None
          else Some \<lparr>w_value = v,
                     first_change = the (since_while (\<lambda>u. u \<noteq> a) hist),
                     last_change = the (since_while (\<lambda>u. u = v) hist)\<rparr>)"

lemma since_while_Some: "since_while P ((t, v) # hist) \<noteq> None \<longleftrightarrow> P v"
  by (simp split: option.split)

lemma changes_waiting:
  "changes evs (settling_new a s m) =
     (settling_new a s m)\<lparr>st_waiting := waiting_of a (rev evs)\<rparr>"
proof (induction evs rule: rev_induct)
  case Nil
  then show ?case by (simp add: changes_def waiting_of_def settling_new_def)
next
  case (snoc e evs)
  obtain t v where e: "e = (t, v)" by (cases e)
  have step: "changes (evs @ [e]) (settling_new a s m) =
      change v t ((settling_new a s m)\<lparr>st_waiting := waiting_of a (rev evs)\<rparr>)"
    using snoc by (simp add: changes_def e)
  show ?case
  proof (cases "rev evs")
    case Nil
    then show ?thesis
      unfolding step by (simp add: e waiting_of_def change_def settling_new_def)
  next
    case (Cons e' hist)
    obtain t' v' where e': "e' = (t', v')" by (cases e')
    show ?thesis
      unfolding step Cons
      by (auto simp: e e' Cons waiting_of_def change_def settling_new_def split: option.splits)
  qed
qed

text \<open>
  However the value moves, it is adopted exactly when it is not the adopted one and either it
  has stayed the same for \<open>settle\<close> or the values have been away from the adopted one for
  \<open>max_settle\<close>; what is adopted is the latest value, and nothing is left waiting.
\<close>

theorem settled_values_are_adopted:
  "settle now (changes evs (settling_new a s m)) =
     (case rev evs of
        [] \<Rightarrow> (None, settling_new a s m)
      | (t, v) # _ \<Rightarrow>
          if v \<noteq> a \<and> (the (since_while (\<lambda>u. u = v) (rev evs)) + s \<le> now \<or>
                     the (since_while (\<lambda>u. u \<noteq> a) (rev evs)) + m \<le> now)
          then (Some v, settling_new v s m)
          else (None, changes evs (settling_new a s m)))"
proof (cases "rev evs")
  case Nil
  then show ?thesis
    unfolding changes_waiting
    by (simp add: waiting_of_def settle_def deadline_def settling_new_def)
next
  case (Cons e hist)
  obtain t v where "e = (t, v)" by (cases e)
  then show ?thesis
    using Cons unfolding changes_waiting
    by (simp add: waiting_of_def settle_def deadline_def settling_new_def min_le_iff_disj not_less)
qed

end
