(* ===== verification/Custody_View.thy ===== *)
theory Custody_View
  imports Custody_Rendezvous Settling Membership_State
begin

text \<open>
  This node's custody as of the last settled membership, and the task that keeps it up to date:
  \<open>crates/distlib-custody/src/view.rs\<close>, \<open>service.rs\<close> and the handle of \<open>lib.rs\<close>. The totals
  are natural numbers for the source's \<open>u128\<close> and \<open>usize\<close>: fewer than \<open>2 ^ 64\<close> items of
  fewer than \<open>2 ^ 64\<close> bytes stay below those bounds. The clock is an argument. What the store
  answers arrives with each message, as the value the source awaits.
\<close>

section \<open>The view\<close>

record custody_status =
  cs_items :: nat
  cs_bytes :: u64
  cs_pledge :: u64
  cs_load :: "f64 option"

record part =
  pt_size :: u64
  pt_demand :: u64
  pt_mine :: bool
  pt_since :: instant

record custody_view =
  cv_group :: custody_group
  cv_me :: member_id
  cv_items :: "(item_id, part) btmap"
  cv_my_items :: nat
  cv_my_bytes :: nat
  cv_demand :: nat

definition add_to_totals :: "part \<Rightarrow> custody_view \<Rightarrow> custody_view" where
  "add_to_totals p v =
     (let v' = v\<lparr>cv_demand := cv_demand v + unat (pt_demand p)\<rparr>
      in if pt_mine p
         then v'\<lparr>cv_my_items := cv_my_items v' + 1, cv_my_bytes := cv_my_bytes v' + unat (pt_size p)\<rparr>
         else v')"

definition remove_from_totals :: "part \<Rightarrow> custody_view \<Rightarrow> custody_view" where
  "remove_from_totals p v =
     (let v' = v\<lparr>cv_demand := cv_demand v - unat (pt_demand p)\<rparr>
      in if pt_mine p
         then v'\<lparr>cv_my_items := cv_my_items v' - 1, cv_my_bytes := cv_my_bytes v' - unat (pt_size p)\<rparr>
         else v')"

definition view_insert :: "custody_item \<Rightarrow> bool \<Rightarrow> instant \<Rightarrow> custody_view \<Rightarrow> custody_view" where
  "view_insert item mine since v =
     (let p = \<lparr>pt_size = ci_size item, pt_demand = demand_bytes (cv_group v) item,
               pt_mine = mine, pt_since = since\<rparr>;
          old = bt_get (cv_items v) (ci_item item);
          v1 = v\<lparr>cv_items := bt_insert (ci_item item) p (cv_items v)\<rparr>;
          v2 = (case old of None \<Rightarrow> v1 | Some o' \<Rightarrow> remove_from_totals o' v1)
      in add_to_totals p v2)"

definition view_compute ::
    "scorer \<Rightarrow> custody_group \<Rightarrow> member_id \<Rightarrow> custody_item list \<Rightarrow> instant \<Rightarrow> custody_view" where
  "view_compute sc g me items now =
     (let mine = custody_of sc g me items;
          empty = \<lparr>cv_group = g, cv_me = me, cv_items = bt_empty,
                   cv_my_items = 0, cv_my_bytes = 0, cv_demand = 0\<rparr>
      in fold (\<lambda>item. view_insert item (ci_item item \<in> set mine) now) items empty)"

definition view_update ::
    "scorer \<Rightarrow> custody_item \<Rightarrow> instant \<Rightarrow> custody_view \<Rightarrow> bool \<times> custody_view" where
  "view_update sc item now v =
     (let since = (case bt_get (cv_items v) (ci_item item) of
                     None \<Rightarrow> now
                   | Some old \<Rightarrow>
                       if pt_size old = ci_size item \<and> pt_demand old = demand_bytes (cv_group v) item
                       then pt_since old else now);
          mine = is_custodian sc (cv_group v) item (cv_me v)
      in (mine, view_insert item mine since v))"

definition is_mine :: "custody_view \<Rightarrow> item_id \<Rightarrow> bool" where
  "is_mine v i = (case bt_get (cv_items v) i of None \<Rightarrow> False | Some p \<Rightarrow> pt_mine p)"

definition view_my_items :: "custody_view \<Rightarrow> item_id list" where
  "view_my_items v = map fst (filter (\<lambda>(_, p). pt_mine p) (bt_entries (cv_items v)))"

definition view_custodians :: "scorer \<Rightarrow> custody_view \<Rightarrow> custody_item \<Rightarrow> member_id list" where
  "view_custodians sc v item = custodians sc (cv_group v) item"

definition assigned_since :: "custody_view \<Rightarrow> item_id \<Rightarrow> instant option" where
  "assigned_since v i = map_option pt_since (bt_get (cv_items v) i)"

text \<open>\<open>u64::try_from(..).unwrap_or(u64::MAX)\<close>.\<close>

definition clamp_u64 :: "nat \<Rightarrow> u64" where
  "clamp_u64 n = (if n < 2 ^ 64 then of_nat n else - 1)"

definition view_status :: "custody_view \<Rightarrow> custody_status" where
  "view_status v =
     \<lparr>cs_items = cv_my_items v,
      cs_bytes = clamp_u64 (cv_my_bytes v),
      cs_pledge = pledge_of (cv_group v) (cv_me v),
      cs_load = load_factor (cv_group v) (of_nat (cv_demand v))\<rparr>"

section \<open>The handle\<close>

definition assignments ::
    "custody_view option \<Rightarrow> item_id list \<Rightarrow> (custody_group \<times> (item_id \<times> instant) list) option" where
  "assignments view items =
     map_option (\<lambda>v. (cv_group v,
       List.map_filter (\<lambda>i. map_option (\<lambda>s. (i, s)) (assigned_since v i)) items)) view"

definition keeps :: "custody_view option \<Rightarrow> item_id \<Rightarrow> bool" where
  "keeps view i = (case view of None \<Rightarrow> False | Some v \<Rightarrow> is_mine v i)"

section \<open>The task\<close>

datatype custody_change = Recomputed | ItemChange item_id bool

definition custody_group_of :: "scorer \<Rightarrow> membership_state \<Rightarrow> custody_group" where
  "custody_group_of sc s =
     cg_new sc (replicas (ms_settings s)) (weight_rule_of (ms_settings s))
       (map (\<lambda>r. (rec_id r, rec_pledge r)) (bt_values (ms_members s)))"

definition first_group :: "scorer \<Rightarrow> membership_state \<Rightarrow> custody_group settling option" where
  "first_group sc s =
     (if ms_group s = None then None
      else Some (settling_new (custody_group_of sc s)
             (from_secs (settle_secs (ms_settings s))) (from_secs (max_settle_secs (ms_settings s)))))"

record service =
  sv_settling :: "custody_group settling"
  sv_view :: "custody_view option"
  sv_sent :: "custody_change list"

text \<open>\<open>None\<close> for the items: the store could not be read, and the view stays as it was.\<close>

definition whole_pass ::
    "scorer \<Rightarrow> member_id \<Rightarrow> custody_item list option \<Rightarrow> custody_group \<Rightarrow> instant \<Rightarrow> service \<Rightarrow> service" where
  "whole_pass sc me read g now sv =
     (case read of
        None \<Rightarrow> sv
      | Some items \<Rightarrow>
          sv\<lparr>sv_view := Some (view_compute sc g me items now), sv_sent := sv_sent sv @ [Recomputed]\<rparr>)"

text \<open>The stored item, \<open>None\<close> when it is not there or could not be read.\<close>

definition follow_item ::
    "scorer \<Rightarrow> item_id \<Rightarrow> custody_item option \<Rightarrow> instant \<Rightarrow> service \<Rightarrow> service" where
  "follow_item sc i read now sv =
     (case sv_view sv of
        None \<Rightarrow> sv
      | Some v \<Rightarrow>
          (case read of
             None \<Rightarrow> sv
           | Some item \<Rightarrow>
               let (mine, v') = view_update sc item now v
               in sv\<lparr>sv_view := Some v', sv_sent := sv_sent sv @ [ItemChange i mine]\<rparr>))"

text \<open>What the loop of \<open>run\<close> selects on, with what it then reads.\<close>

datatype service_msg =
    MembershipChanged membership_state
  | DeadlineReached "custody_item list option"
  | Replayed "custody_item list option"
  | ItemEvent item_id "custody_item option"
  | Lagged "custody_item list option"

fun service_step :: "scorer \<Rightarrow> member_id \<Rightarrow> service_msg \<Rightarrow> instant \<Rightarrow> service \<Rightarrow> service" where
  "service_step sc me (MembershipChanged s) now sv =
     sv\<lparr>sv_settling := change (custody_group_of sc s) now (sv_settling sv)\<rparr>"
| "service_step sc me (DeadlineReached read) now sv =
     (let (adopted, settling') = settle now (sv_settling sv);
          sv' = sv\<lparr>sv_settling := settling'\<rparr>
      in case adopted of None \<Rightarrow> sv' | Some g \<Rightarrow> whole_pass sc me read g now sv')"
| "service_step sc me (Replayed read) now sv =
     whole_pass sc me read (st_adopted (sv_settling sv)) now sv"
| "service_step sc me (ItemEvent i read) now sv = follow_item sc i read now sv"
| "service_step sc me (Lagged read) now sv =
     whole_pass sc me read (st_adopted (sv_settling sv)) now sv"

section \<open>The totals\<close>

definition view_ok :: "custody_view \<Rightarrow> bool" where
  "view_ok v \<longleftrightarrow>
     cv_my_items v = bt_sum (\<lambda>p. if pt_mine p then 1 else 0) (cv_items v) \<and>
     cv_my_bytes v = bt_sum (\<lambda>p. if pt_mine p then unat (pt_size p) else 0) (cv_items v) \<and>
     cv_demand v = bt_sum (\<lambda>p. unat (pt_demand p)) (cv_items v)"

definition part_of :: "scorer \<Rightarrow> custody_group \<Rightarrow> member_id \<Rightarrow> instant \<Rightarrow> custody_item \<Rightarrow> part" where
  "part_of sc g me since item =
     \<lparr>pt_size = ci_size item, pt_demand = demand_bytes g item,
      pt_mine = is_custodian sc g item me, pt_since = since\<rparr>"

lemma view_insert_frame [simp]:
  "cv_group (view_insert item mine since v) = cv_group v"
  "cv_me (view_insert item mine since v) = cv_me v"
  "cv_items (view_insert item mine since v) =
     bt_insert (ci_item item) \<lparr>pt_size = ci_size item, pt_demand = demand_bytes (cv_group v) item,
       pt_mine = mine, pt_since = since\<rparr> (cv_items v)"
  by (simp_all add: view_insert_def Let_def add_to_totals_def remove_from_totals_def
      split: option.split)

lemma view_insert_ok:
  assumes "view_ok v"
  shows "view_ok (view_insert item mine since v)"
proof -
  have "cv_my_items v = bt_sum (\<lambda>p. if pt_mine p then 1 else 0) (cv_items v)"
    "cv_my_bytes v = bt_sum (\<lambda>p. if pt_mine p then unat (pt_size p) else 0) (cv_items v)"
    "cv_demand v = bt_sum (\<lambda>p. unat (pt_demand p)) (cv_items v)"
    using assms by (simp_all add: view_ok_def)
  then show ?thesis
    by (cases "bt_get (cv_items v) (ci_item item)")
      (simp_all add: view_ok_def view_insert_def Let_def add_to_totals_def remove_from_totals_def
        bt_sum_replace)
qed

lemma view_update_simps [simp]:
  "cv_group (snd (view_update sc item now v)) = cv_group v"
  "cv_me (snd (view_update sc item now v)) = cv_me v"
  "view_ok v \<Longrightarrow> view_ok (snd (view_update sc item now v))"
  by (simp_all add: view_update_def Let_def view_insert_ok)

text \<open>A view without the dates: what a status and a listing are read from.\<close>

definition undated :: "custody_view \<Rightarrow> (item_id, u64 \<times> u64 \<times> bool) btmap" where
  "undated v = bt_map (\<lambda>p. (pt_size p, pt_demand p, pt_mine p)) (cv_items v)"

definition facts :: "scorer \<Rightarrow> custody_group \<Rightarrow> member_id \<Rightarrow> custody_item \<Rightarrow> u64 \<times> u64 \<times> bool" where
  "facts sc g me item = (ci_size item, demand_bytes g item, is_custodian sc g item me)"

lemma bt_map_insert: "bt_map f (bt_insert k v m) = bt_insert k (f v) (bt_map f m)"
  by (rule bt_ext) simp

lemma bt_map_empty [simp]: "bt_map f bt_empty = bt_empty"
  by (rule bt_ext) simp

lemma undated_insert:
  "mine = is_custodian sc (cv_group v) item (cv_me v) \<Longrightarrow>
   undated (view_insert item mine since v) =
     bt_insert (ci_item item) (facts sc (cv_group v) (cv_me v) item) (undated v)"
  by (simp add: undated_def facts_def bt_map_insert)

lemma status_undated:
  assumes "view_ok v" and "view_ok w" and "cv_group v = cv_group w" and "cv_me v = cv_me w"
    and "undated v = undated w"
  shows "view_status v = view_status w \<and> is_mine v = is_mine w"
proof -
  have sums: "bt_sum (\<lambda>p. h (pt_size p, pt_demand p, pt_mine p)) (cv_items v) =
      bt_sum (\<lambda>p. h (pt_size p, pt_demand p, pt_mine p)) (cv_items w)" for h
    using arg_cong [OF assms(5), of "bt_sum h"] by (simp add: undated_def bt_sum_map)
  have "cv_my_items v = cv_my_items w" "cv_my_bytes v = cv_my_bytes w" "cv_demand v = cv_demand w"
    using assms(1,2) sums [of "\<lambda>(_, _, m). if m then 1 else 0"]
      sums [of "\<lambda>(s, _, m). if m then unat s else 0"] sums [of "\<lambda>(_, d, _). unat d"]
    by (simp_all add: view_ok_def)
  moreover have "is_mine u i = (case bt_get (undated u) i of None \<Rightarrow> False | Some (_, _, m) \<Rightarrow> m)"
    for u i
    by (simp add: is_mine_def undated_def split: option.split)
  ultimately show ?thesis
    using assms(3,4,5) by (simp add: view_status_def fun_eq_iff)
qed

lemma undated_fold:
  assumes "\<And>x v. x \<in> set xs \<Longrightarrow> cv_group v = g \<Longrightarrow> cv_me v = me \<Longrightarrow>
      cv_group (f x v) = g \<and> cv_me (f x v) = me \<and> (view_ok v \<longrightarrow> view_ok (f x v)) \<and>
      undated (f x v) = bt_insert (ci_item x) (facts sc g me x) (undated v)"
    and "cv_group v = g" and "cv_me v = me" and "view_ok v"
  shows "cv_group (fold f xs v) = g \<and> cv_me (fold f xs v) = me \<and> view_ok (fold f xs v) \<and>
    undated (fold f xs v) = fold (\<lambda>x. bt_insert (ci_item x) (facts sc g me x)) xs (undated v)"
  using assms
proof (induction xs arbitrary: v)
  case (Cons x xs)
  then show ?case by simp
qed simp

lemma collect_facts:
  "fold (\<lambda>x. bt_insert (ci_item x) (facts sc g me x)) xs bt_empty =
     bt_map (facts sc g me) (collect_by ci_item xs)"
proof -
  have "fold (\<lambda>x. bt_insert (ci_item x) (facts sc g me x)) xs bt_empty =
      bt_collect (map (\<lambda>x. (ci_item x, facts sc g me x)) xs)"
    by (simp add: bt_collect_def fold_map comp_def)
  then show ?thesis by (simp add: bt_collect_keyed)
qed

lemma mine_is_custodian:
  assumes "cg_ok g" and "distinct (map ci_item items)" and "item \<in> set items"
  shows "ci_item item \<in> set (custody_of sc g me items) \<longleftrightarrow> is_custodian sc g item me"
proof -
  have "set (custody_of sc g me items) = ci_item ` {x \<in> set items. is_custodian sc g x me}"
  proof (cases "weight_of g me")
    case None
    then show ?thesis by (simp add: custody_of_def is_custodian_def)
  next
    case (Some w)
    have "set (List.map_filter (\<lambda>x. if P x then Some (ci_item x) else None) items) =
        ci_item ` {x \<in> set items. P x}" for P
      by (induction items) (auto simp: map_filter_simps)
    with Some show ?thesis by (simp add: custody_of_def Let_def par_filter_map_eq)
  qed
  moreover have "inj_on ci_item (set items)" using assms(2) by (simp add: distinct_map)
  ultimately show ?thesis using assms(3) by (auto dest: inj_onD)
qed

lemma view_compute_undated:
  fixes sc :: scorer and me :: member_id and now :: instant
  assumes "cg_ok g" and "distinct (map ci_item items)"
  defines "v \<equiv> view_compute sc g me items now"
  shows "cv_group v = g \<and> cv_me v = me \<and> view_ok v \<and>
    undated v = bt_map (facts sc g me) (collect_by ci_item items)"
proof -
  let ?empty = "\<lparr>cv_group = g, cv_me = me, cv_items = bt_empty,
    cv_my_items = 0, cv_my_bytes = 0, cv_demand = 0\<rparr>"
  have "undated ?empty = bt_empty" "view_ok ?empty"
    by (simp_all add: undated_def view_ok_def)
  then show ?thesis
    using undated_fold [where f = "\<lambda>item. view_insert item
        (ci_item item \<in> set (custody_of sc g me items)) now" and xs = items and v = ?empty
        and g = g and me = me and sc = sc]
    by (simp add: v_def view_compute_def Let_def mine_is_custodian [OF assms(1,2)] view_insert_ok
        undated_insert collect_facts)
qed

lemma view_updates_undated:
  fixes sc :: scorer and us :: "(custody_item \<times> instant) list"
  assumes "cv_group v = g" and "cv_me v = me" and "view_ok v"
  defines "w \<equiv> fold (\<lambda>(item, now) v. snd (view_update sc item now v)) us v"
  shows "cv_group w = g \<and> cv_me w = me \<and> view_ok w \<and>
    undated w = fold (\<lambda>x. bt_insert (ci_item x) (facts sc g me x)) (map fst us) (undated v)"
  unfolding w_def
  using assms(1-3)
proof (induction us arbitrary: v)
  case (Cons u us)
  obtain item now where u: "u = (item, now)" by (cases u)
  have "undated (snd (view_update sc item now v)) =
      bt_insert (ci_item item) (facts sc g me item) (undated v)"
    using Cons.prems by (simp add: view_update_def Let_def undated_insert)
  with Cons show ?case by (simp add: u)
qed simp

text \<open>
  Following items one by one comes to the same as working custody out anew: after any run of
  additions and changes, the status (items, bytes, pledge and load) and the items this node keeps
  are those of a whole pass over each item as it was last seen.
\<close>

theorem view_follows_items:
  fixes sc :: scorer and r :: u8 and rule :: weight_rule and ps :: "(member_id \<times> u64) list"
    and items :: "custody_item list" and us :: "(custody_item \<times> instant) list"
  assumes "distinct (map ci_item items)"
  defines "g \<equiv> cg_new sc r rule ps"
    and "seen \<equiv> bt_values (collect_by ci_item (items @ map fst us))"
  shows "view_status (fold (\<lambda>(item, now) v. snd (view_update sc item now v)) us
        (view_compute sc g me items now)) = view_status (view_compute sc g me seen later) \<and>
    is_mine (fold (\<lambda>(item, now) v. snd (view_update sc item now v)) us
        (view_compute sc g me items now)) = is_mine (view_compute sc g me seen later)"
proof -
  let ?v = "view_compute sc g me items now"
  have g: "cg_ok g" by (simp add: g_def)
  have "distinct (map ci_item seen)"
  proof -
    have "map ci_item seen = bt_keys (collect_by ci_item (items @ map fst us))"
      unfolding seen_def bt_values_keys map_map
    proof (rule map_idI)
      fix i assume "i \<in> set (bt_keys (collect_by ci_item (items @ map fst us)))"
      then obtain x where "bt_get (collect_by ci_item (items @ map fst us)) i = Some x"
        unfolding set_bt_keys by blast
      with get_collect_by_Some [OF this]
      show "(ci_item \<circ> (\<lambda>k. the (bt_get (collect_by ci_item (items @ map fst us)) k))) i = i"
        by simp
    qed
    then show ?thesis by simp
  qed
  note fresh = view_compute_undated [OF g this, of sc me later]
  note first = view_compute_undated [OF g assms(1), of sc me now]
  have "undated (fold (\<lambda>(item, now) v. snd (view_update sc item now v)) us ?v) =
      fold (\<lambda>x. bt_insert (ci_item x) (facts sc g me x)) (items @ map fst us) bt_empty"
    using view_updates_undated [of ?v g me sc us] first by (simp add: collect_facts)
  also have "\<dots> = undated (view_compute sc g me seen later)"
    using fresh unfolding collect_facts by (simp add: seen_def collect_by_values)
  finally show ?thesis
    using view_updates_undated [of ?v g me sc us] first fresh by (intro status_undated) auto
qed

text \<open>An item that a second member adds too, and its custodians before and after.\<close>

definition demo_added_twice :: custody_item where
  "demo_added_twice = demo_item\<lparr>ci_creators := [MemberId 3, MemberId 1]\<rparr>"

abbreviation demo_cg :: custody_group where
  "demo_cg \<equiv> cg_new demo_scorer 3 demo_rule demo_pledges"

lemma demo_custodians_later:
  "custodians demo_scorer demo_cg demo_added_twice = [MemberId 2, MemberId 5]"
  by code_simp

lemma demo_demand: "demand_bytes demo_cg demo_added_twice = demand_bytes demo_cg demo_item"
  by code_simp

theorem view_follows_items_witness:
  "view_status (snd (view_update demo_scorer demo_added_twice 100
     (view_compute demo_scorer demo_cg (MemberId 5) [demo_item] 0))) =
   view_status (view_compute demo_scorer demo_cg (MemberId 5) [demo_added_twice] 50)"
proof -
  have "distinct (map ci_item [demo_item])" by simp
  moreover have "bt_values (collect_by ci_item ([demo_item] @ map fst [(demo_added_twice, 100 :: nat)])) =
      [demo_added_twice]"
    by code_simp
  ultimately show ?thesis
    using view_follows_items [where items = "[demo_item]" and us = "[(demo_added_twice, 100)]"
        and sc = demo_scorer and me = "MemberId 5" and r = 3 and rule = demo_rule
        and ps = demo_pledges and now = 0 and later = 50]
    by simp
qed

text \<open>
  When a second member adds an item it was custodian of, the custodians change but neither
  the size nor the demand does, so the item keeps its old date: the member that takes the place
  over is a custodian from now on, with an assignment as old as the one before it.
\<close>

theorem new_custodian_with_an_old_date:
  "let v = view_compute demo_scorer demo_cg (MemberId 5) [demo_item] 0;
       (mine, v') = view_update demo_scorer demo_added_twice 100 v
   in \<not> is_mine v (ci_item demo_item) \<and> mine \<and> is_mine v' (ci_item demo_item) \<and>
      assigned_since v' (ci_item demo_item) = Some 0"
proof -
  have mine: "\<not> is_custodian demo_scorer demo_cg demo_item (MemberId 5)"
    "is_custodian demo_scorer demo_cg demo_added_twice (MemberId 5)"
    by (simp_all add: is_custodian_iff demo_custodians demo_custodians_later)
  then have "ci_item demo_item \<notin> set (custody_of demo_scorer demo_cg (MemberId 5) [demo_item])"
    using mine_is_custodian [of demo_cg "[demo_item]" demo_item] by simp
  then show ?thesis
    using mine
    by (simp add: view_compute_def view_update_def Let_def is_mine_def assigned_since_def demo_demand)
       (simp add: demo_added_twice_def)
qed

end
