(* ===== verification/Probe_Failures.thy ===== *)
theory Probe_Failures
  imports Membership_State Keeping Settling Custody_Rendezvous
begin

text \<open>
  What recorded probe failures mean: the copies they say are missing
  (\<open>crates/distlib-custody/src/failed_copies.rs\<close>), the members they make suspects
  (\<open>suspects.rs\<close>) and the coverage other members announce (\<open>coverage.rs\<close>). Times of day are
  nanoseconds since the epoch, durations natural numbers of nanoseconds. Text is the list of its
  UTF-8 bytes. How iroh shortens a member, BLAKE3 spells an item and chrono prints a date are
  arguments.
\<close>

record probe_failure =
  pf_item :: item_id
  pf_blob :: content_hash
  pf_chunk :: u64
  pf_in_a_row :: u32

record recorded_failure =
  rf_custodian :: member_id
  rf_prober :: member_id
  rf_failure :: probe_failure
  rf_written :: u64

section \<open>Failed copies\<close>

definition failure_window :: "membership_state \<Rightarrow> duration" where
  "failure_window s = from_secs (failure_window_secs (ms_settings s))"

definition left_in_window :: "recorded_failure \<Rightarrow> duration \<Rightarrow> int \<Rightarrow> duration option" where
  "left_in_window recorded window now =
     (let since_epoch = nat now;
          age = since_epoch - nat (uint (rf_written recorded)) * 1000
      in if age \<le> window \<and> window - age \<noteq> 0 then Some (window - age) else None)"

text \<open>The closure of the fold: a set of copies, and the shortest time left.\<close>

definition failed_within ::
    "recorded_failure list \<Rightarrow> duration \<Rightarrow> int \<Rightarrow> (member_id \<times> item_id) list \<times> duration option" where
  "failed_within failures window now =
     fold (\<lambda>(copy, left) (copies, next_out).
         (List.insert copy copies,
          Some (case next_out of None \<Rightarrow> left | Some next \<Rightarrow> min left next)))
       (List.map_filter (\<lambda>recorded.
           map_option (\<lambda>left. ((rf_custodian recorded, pf_item (rf_failure recorded)), left))
             (left_in_window recorded window now))
         failures)
       ([], None)"

section \<open>Suspects\<close>

definition RED_FROM_PROBERS :: nat where
  "RED_FROM_PROBERS = 2"

record suspect =
  su_member :: member_id
  su_failures :: "recorded_failure list"

definition is_red :: "suspect \<Rightarrow> bool" where
  "is_red s \<longleftrightarrow> length (su_failures s) \<ge> RED_FROM_PROBERS"

definition in_a_row :: "suspect \<Rightarrow> u32" where
  "in_a_row s = sum_list (map (\<lambda>r. pf_in_a_row (rf_failure r)) (su_failures s))"

definition counts :: "(member_id \<Rightarrow> bool) \<Rightarrow> duration \<Rightarrow> int \<Rightarrow> recorded_failure \<Rightarrow> bool" where
  "counts member_p window now r \<longleftrightarrow>
     member_p (rf_custodian r) \<and> member_p (rf_prober r) \<and> left_in_window r window now \<noteq> None"

text \<open>
  \<open>sort_unstable_by_key\<close> leaves failures written in the same microsecond in any order; here they
  stay in the order given.
\<close>

definition suspects_among ::
    "recorded_failure list \<Rightarrow> (member_id \<Rightarrow> bool) \<Rightarrow> duration \<Rightarrow> int \<Rightarrow> suspect list" where
  "suspects_among failures member_p window now =
     (let by_member = fold (\<lambda>r. bt_push (rf_custodian r) r)
            (filter (counts member_p window now) failures) bt_empty;
          found = map (\<lambda>(m, rs).
              \<lparr>su_member = m, su_failures = sort_key (\<lambda>r. - uint (rf_written r)) rs\<rparr>)
            (bt_entries by_member)
      in sort_key (\<lambda>s. (- int (length (su_failures s)), - uint (in_a_row s))) found)"

definition suspects :: "recorded_failure list \<Rightarrow> membership_state \<Rightarrow> int \<Rightarrow> suspect list" where
  "suspects failures s now = suspects_among failures (is_member s) (failure_window s) now"

section \<open>Evidence\<close>

fun decimal :: "nat \<Rightarrow> string" where
  "decimal n =
     (if n < 10 then [char_of (48 + n)] else decimal (n div 10) @ [char_of (48 + n mod 10)])"

declare decimal.simps [simp del]

definition days_or_hours :: "duration \<Rightarrow> string" where
  "days_or_hours window =
     (let secs = window div 1000000000; day = 24 * 60 * 60
      in if secs mod day = 0 then decimal (secs div day) @ '' days''
         else decimal ((secs + 3599) div 3600) @ '' hours'')"

definition ellipsis :: string where
  "ellipsis = [CHR 0xE2, CHR 0x80, CHR 0xA6]"

text \<open>\<open>is_char_boundary\<close>: an end of the text, or a byte that does not continue a character.\<close>

definition continuation :: "char \<Rightarrow> bool" where
  "continuation c \<longleftrightarrow> (of_char c :: nat) div 64 = 2"

definition is_char_boundary :: "string \<Rightarrow> nat \<Rightarrow> bool" where
  "is_char_boundary text i \<longleftrightarrow>
     i = 0 \<or> i = length text \<or> (i < length text \<and> \<not> continuation (text ! i))"

fun boundary_at_or_before :: "string \<Rightarrow> nat \<Rightarrow> nat" where
  "boundary_at_or_before text 0 = 0"
| "boundary_at_or_before text (Suc n) =
     (if is_char_boundary text (Suc n) then Suc n else boundary_at_or_before text n)"

definition within_bytes :: "string \<Rightarrow> nat \<Rightarrow> string" where
  "within_bytes text limit =
     (if length text \<le> limit then text
      else take (boundary_at_or_before text (limit - length ellipsis)) text @ ellipsis)"

text \<open>The white space \<open>str::trim\<close> removes, in UTF-8.\<close>

definition white_space :: "string list" where
  "white_space =
     map (\<lambda>n. [char_of n]) [9..<14] @ ['' '', [CHR 0xC2, CHR 0x85], [CHR 0xC2, CHR 0xA0],
       [CHR 0xE1, CHR 0x9A, CHR 0x80]] @
     map (\<lambda>n. [CHR 0xE2, CHR 0x80, char_of n]) ([128..<139] @ [168, 169, 175 :: nat]) @
     [[CHR 0xE2, CHR 0x81, CHR 0x9F], [CHR 0xE3, CHR 0x80, CHR 0x80]]"

fun strip_any :: "string list \<Rightarrow> nat \<Rightarrow> string \<Rightarrow> string" where
  "strip_any forms 0 text = text"
| "strip_any forms (Suc n) text =
     (case List.find (\<lambda>w. strip_prefix w text \<noteq> None) forms of
        None \<Rightarrow> text
      | Some w \<Rightarrow> strip_any forms n (drop (length w) text))"

definition trim :: "string \<Rightarrow> string" where
  "trim text =
     (let front = strip_any white_space (length text) text
      in rev (strip_any (map rev white_space) (length front) (rev front)))"

record printers =
  fmt_short :: "member_id \<Rightarrow> string"
  item_hex :: "item_id \<Rightarrow> string"
  date_of_micros :: "int \<Rightarrow> string option"

definition join :: "string \<Rightarrow> string list \<Rightarrow> string" where
  "join sep parts = (case parts of [] \<Rightarrow> [] | p # ps \<Rightarrow> p @ concat (map (\<lambda>q. sep @ q) ps))"

definition failure_text :: "printers \<Rightarrow> recorded_failure \<Rightarrow> string" where
  "failure_text pr r =
     (let date = (if uint (rf_written r) < 2 ^ 63
                  then date_of_micros pr (uint (rf_written r)) else None);
          when = (case date of None \<Rightarrow> ''an unknown time'' | Some d \<Rightarrow> d)
      in ''by '' @ fmt_short pr (rf_prober r) @ '' at '' @ when @ '': item '' @
         take 10 (item_hex pr (pf_item (rf_failure r))) @ '' chunk '' @
         decimal (unat (pf_chunk (rf_failure r))) @ '', '' @
         decimal (unat (pf_in_a_row (rf_failure r))) @ '' in a row'')"

definition evidence_reason ::
    "printers \<Rightarrow> string option \<Rightarrow> suspect \<Rightarrow> membership_state \<Rightarrow> string" where
  "evidence_reason pr reason s m =
     (let probers = length (su_failures s);
          evidence = ''failed probes by '' @ decimal probers @ '' member'' @
            (if probers = 1 then '''' else ''s'') @ '' within '' @ days_or_hours (failure_window m) @
            '': '' @ join ''; '' (map (failure_text pr) (su_failures s));
          given = (case reason of None \<Rightarrow> None
                   | Some r \<Rightarrow> if trim r = [] then None else Some (trim r))
      in within_bytes
           (case given of None \<Rightarrow> evidence
            | Some r \<Rightarrow> r @ '' '' @ [CHR 0xE2, CHR 0x80, CHR 0x94] @ '' '' @ evidence)
           MAX_REASON)"

section \<open>Coverage\<close>

record member_coverage =
  mc_expected :: nat
  mc_announced :: nat

definition is_low :: "member_coverage \<Rightarrow> bool" where
  "is_low c \<longleftrightarrow> mc_announced c < mc_expected c"

definition low :: "(member_id, member_coverage) btmap \<Rightarrow> member_id list" where
  "low counted = map fst (filter (\<lambda>(_, c). is_low c) (bt_entries counted))"

definition to_judge :: "member_id list \<Rightarrow> (member_id \<Rightarrow> bool) \<Rightarrow> member_id btset" where
  "to_judge online knows_holdings_of = bts_of (filter knows_holdings_of online)"

definition count_custodian ::
    "member_id list \<Rightarrow> member_id \<Rightarrow> (member_id, member_coverage) btmap
      \<Rightarrow> (member_id, member_coverage) btmap" where
  "count_custodian announced_by custodian counted =
     (let c = (case bt_get counted custodian of
                 None \<Rightarrow> \<lparr>mc_expected = 0, mc_announced = 0\<rparr> | Some c \<Rightarrow> c);
          c1 = c\<lparr>mc_expected := mc_expected c + 1\<rparr>;
          c2 = (if custodian \<in> set announced_by then c1\<lparr>mc_announced := mc_announced c1 + 1\<rparr> else c1)
      in bt_insert custodian c2 counted)"

definition count ::
    "scorer \<Rightarrow> custody_group \<Rightarrow> (custody_item \<times> instant) list \<Rightarrow> member_id btset
      \<Rightarrow> (item_id \<Rightarrow> member_id list) \<Rightarrow> (instant \<Rightarrow> bool) \<Rightarrow> (member_id, member_coverage) btmap" where
  "count sc g held judged holders old_enough =
     fold (\<lambda>(item, _).
         fold (count_custodian (holders (ci_item item)))
           (filter (bt_has judged) (custodians sc g item)))
       (filter (\<lambda>(_, since). old_enough since) held)
       (bt_map (\<lambda>_. \<lparr>mc_expected = 0, mc_announced = 0\<rparr>) judged)"

text \<open>\<open>saturating_duration_since(since) >= max_settle\<close>.\<close>

definition settled_since :: "instant \<Rightarrow> duration \<Rightarrow> instant \<Rightarrow> bool" where
  "settled_since now max_settle since \<longleftrightarrow> now - since \<ge> max_settle"

section \<open>What suspicion takes\<close>

lemma suspects_among_set:
  "s \<in> set (suspects_among failures member_p window now) \<longleftrightarrow>
     (let rs = filter (\<lambda>r. counts member_p window now r \<and> rf_custodian r = su_member s) failures
      in rs \<noteq> [] \<and> s = \<lparr>su_member = su_member s, su_failures = sort_key (\<lambda>r. - uint (rf_written r)) rs\<rparr>)"
proof -
  let ?m = "fold (\<lambda>r. bt_push (rf_custodian r) r) (filter (counts member_p window now) failures) bt_empty"
  let ?rs = "\<lambda>m. filter (\<lambda>r. counts member_p window now r \<and> rf_custodian r = m) failures"
  have got: "bt_get ?m m = (if ?rs m = [] then None else Some (?rs m))" for m
    by (simp add: get_fold_push Let_def conj_commute)
  have "s \<in> set (suspects_among failures member_p window now) \<longleftrightarrow>
      (\<exists>m rs. bt_get ?m m = Some rs \<and>
        s = \<lparr>su_member = m, su_failures = sort_key (\<lambda>r. - uint (rf_written r)) rs\<rparr>)"
    by (force simp: suspects_among_def Let_def bt_entries_iff)
  then show ?thesis
    unfolding got by (cases s) (auto simp: Let_def split: if_splits)
qed

text \<open>
  With one recorded failure for each custodian and prober, a member is shown red exactly when
  at least two members of the group have failed it within the window; suspects come with the most
  probers first and, among as many, the most failures in a row.
\<close>

theorem red_takes_two_probers:
  assumes "distinct failures"
    and "inj_on (\<lambda>r. (rf_custodian r, rf_prober r)) (set failures)"
  shows "((\<exists>s \<in> set (suspects_among failures member_p window now). su_member s = m \<and> is_red s) \<longleftrightarrow>
      2 \<le> card {rf_prober r |r. r \<in> set failures \<and> rf_custodian r = m \<and> member_p m \<and>
        member_p (rf_prober r) \<and> left_in_window r window now \<noteq> None}) \<and>
    sorted_wrt (\<lambda>a b. length (su_failures b) < length (su_failures a) \<or>
        length (su_failures b) = length (su_failures a) \<and> in_a_row b \<le> in_a_row a)
      (suspects_among failures member_p window now)"
proof
  let ?rs = "filter (\<lambda>r. counts member_p window now r \<and> rf_custodian r = m) failures"
  have "inj_on rf_prober (set ?rs)"
    using assms(2) by (auto simp: inj_on_def)
  then have "card (rf_prober ` set ?rs) = length ?rs"
    using assms(1) distinct_card [of ?rs] by (simp add: card_image)
  moreover have "rf_prober ` set ?rs = {rf_prober r |r. r \<in> set failures \<and> rf_custodian r = m \<and>
      member_p m \<and> member_p (rf_prober r) \<and> left_in_window r window now \<noteq> None}"
    by (auto simp: counts_def)
  moreover have "(\<exists>s \<in> set (suspects_among failures member_p window now). su_member s = m \<and> is_red s) \<longleftrightarrow>
      2 \<le> length ?rs"
  proof
    assume "2 \<le> length ?rs"
    moreover from this have "?rs \<noteq> []" by auto
    ultimately show "\<exists>s \<in> set (suspects_among failures member_p window now). su_member s = m \<and> is_red s"
      by (intro bexI [of _ "\<lparr>su_member = m, su_failures = sort_key (\<lambda>r. - uint (rf_written r)) ?rs\<rparr>"])
        (simp_all add: suspects_among_set Let_def is_red_def RED_FROM_PROBERS_def)
  qed (auto simp: suspects_among_set Let_def is_red_def RED_FROM_PROBERS_def
      dest!: arg_cong [of _ _ su_failures] arg_cong [of _ _ length])
  ultimately show "(\<exists>s \<in> set (suspects_among failures member_p window now). su_member s = m \<and> is_red s) \<longleftrightarrow>
      2 \<le> card {rf_prober r |r. r \<in> set failures \<and> rf_custodian r = m \<and> member_p m \<and>
        member_p (rf_prober r) \<and> left_in_window r window now \<noteq> None}" by simp
next
  let ?key = "\<lambda>s. (- int (length (su_failures s)), - uint (in_a_row s))"
  have "sorted (map ?key (suspects_among failures member_p window now))"
    by (simp add: suspects_among_def Let_def)
  then show "sorted_wrt (\<lambda>a b. length (su_failures b) < length (su_failures a) \<or>
        length (su_failures b) = length (su_failures a) \<and> in_a_row b \<le> in_a_row a)
      (suspects_among failures member_p window now)"
    by (simp add: sorted_map word_le_def) (auto elim!: sorted_wrt_mono_rel [rotated])
qed

section \<open>What coverage counts\<close>

definition coverage_plus :: "member_coverage option \<Rightarrow> nat \<Rightarrow> nat \<Rightarrow> member_coverage option" where
  "coverage_plus c e a =
     map_option (\<lambda>c. c\<lparr>mc_expected := mc_expected c + e, mc_announced := mc_announced c + a\<rparr>) c"

lemma coverage_plus_simps [simp]:
  "coverage_plus c 0 0 = c"
  "coverage_plus (coverage_plus c e a) e' a' = coverage_plus c (e + e') (a + a')"
  by (cases c; simp add: coverage_plus_def add.assoc)+

lemma count_custodians:
  assumes "distinct cs" and "\<forall>c \<in> set cs. bt_has counted c"
  shows "bt_get (fold (count_custodian by) cs counted) m =
    coverage_plus (bt_get counted m) (if m \<in> set cs then 1 else 0)
      (if m \<in> set cs \<and> m \<in> set by then 1 else 0)"
  using assms
proof (induction cs arbitrary: counted)
  case (Cons c cs)
  obtain v where v: "bt_get counted c = Some v" using Cons.prems(2) by (auto simp: bt_has_def)
  have "\<forall>d \<in> set cs. bt_has (count_custodian by c counted) d"
    using Cons.prems(2) by (simp add: count_custodian_def Let_def)
  from Cons.IH [OF _ this] Cons.prems(1) v show ?case
    by (auto simp: count_custodian_def Let_def coverage_plus_def)
qed simp

lemma count_keeps_keys:
  "\<forall>c \<in> set cs. bt_has counted c \<Longrightarrow>
   bt_has (fold (count_custodian by) cs counted) d \<longleftrightarrow> bt_has counted d"
  by (induction cs arbitrary: counted) (auto simp: count_custodian_def Let_def)

text \<open>
  A judged member's coverage is exact: \<open>expected\<close> is how many of the items held here, assigned
  long enough ago, list it as a custodian, and \<open>announced\<close> how many of those it announces. Members
  that are not judged are not counted at all.
\<close>

theorem coverage_is_exact:
  fixes sc :: scorer and r :: u8 and rule :: weight_rule and ps :: "(member_id \<times> u64) list"
  defines "g \<equiv> cg_new sc r rule ps"
  shows "bt_get (count sc g held judged holders old_enough) m =
    (if bt_has judged m
     then Some
       \<lparr>mc_expected = length (filter (\<lambda>(item, since).
          old_enough since \<and> m \<in> set (custodians sc g item)) held),
        mc_announced = length (filter (\<lambda>(item, since).
          old_enough since \<and> m \<in> set (custodians sc g item) \<and> m \<in> set (holders (ci_item item))) held)\<rparr>
     else None)"
proof -
  define start where "start = bt_map (\<lambda>_. \<lparr>mc_expected = 0, mc_announced = 0\<rparr>) judged"
  define each where "each = (\<lambda>(item, since :: instant). fold (count_custodian (holders (ci_item item)))
    (filter (bt_has judged) (custodians sc g item)))"
  have dist: "distinct (custodians sc g item)" for item
    by (simp add: custodians_take ranking_distinct g_def)
  have "bt_get (fold each held' c) m = coverage_plus (bt_get c m)
      (length (filter (\<lambda>(item, since). bt_has judged m \<and> m \<in> set (custodians sc g item)) held'))
      (length (filter (\<lambda>(item, since). bt_has judged m \<and> m \<in> set (custodians sc g item) \<and>
        m \<in> set (holders (ci_item item))) held'))"
    if "\<forall>d. bt_has judged d \<longrightarrow> bt_has c d" for held' c
    using that
  proof (induction held' arbitrary: c)
    case (Cons h held')
    obtain item since where h: "h = (item, since)" by (cases h)
    let ?cs = "filter (bt_has judged) (custodians sc g item)"
    have "\<forall>d \<in> set ?cs. bt_has c d" using Cons.prems by simp
    note one = count_custodians [OF _ this] and keys = count_keeps_keys [OF this]
    have "\<forall>d. bt_has judged d \<longrightarrow> bt_has (each h c) d"
      using Cons.prems keys by (simp add: each_def h)
    from Cons.IH [OF this] one [of "holders (ci_item item)" m] dist [of item] show ?case
      by (auto simp: each_def h)
  qed simp
  from this [of start "filter (\<lambda>(_, since). old_enough since) held"]
  have "bt_get (count sc g held judged holders old_enough) m = coverage_plus (bt_get start m)
      (length (filter (\<lambda>(item, since). bt_has judged m \<and> m \<in> set (custodians sc g item))
        (filter (\<lambda>(_, since). old_enough since) held)))
      (length (filter (\<lambda>(item, since). bt_has judged m \<and> m \<in> set (custodians sc g item) \<and>
        m \<in> set (holders (ci_item item))) (filter (\<lambda>(_, since). old_enough since) held)))"
    by (simp add: count_def start_def each_def bt_has_def)
  then show ?thesis
    by (cases "bt_get judged m")
      (auto simp: start_def bt_has_def coverage_plus_def case_prod_unfold conj_ac cong: filter_cong)
qed

section \<open>What evidence fits\<close>

lemma boundary_at_or_before:
  "boundary_at_or_before t n \<le> n \<and> is_char_boundary t (boundary_at_or_before t n)"
  by (induction n) (auto simp: is_char_boundary_def le_SucI)

lemma boundary_is_last: "boundary_at_or_before t n < k \<Longrightarrow> k \<le> n \<Longrightarrow> \<not> is_char_boundary t k"
  by (induction n) (auto simp: le_Suc_eq split: if_splits)

lemma within_bytes_length:
  assumes "length ellipsis \<le> limit"
  shows "length (within_bytes t limit) \<le> limit"
  using assms boundary_at_or_before [of t "limit - length ellipsis"]
  by (auto simp: within_bytes_def min_def)

text \<open>
  A reason made of evidence always fits the limit on the reason of an expulsion, so the event
  it goes into is never refused as too long. A text that has to be cut is cut at the last boundary
  of a character that leaves room for the mark.
\<close>

theorem evidence_fits_an_expulsion:
  assumes "3 \<le> limit" and "limit < length t"
  shows "within_limits (MemberExpelled m (evidence_reason pr reason s ms)) = Inr () \<and>
    (\<exists>n. within_bytes t limit = take n t @ ellipsis \<and> n \<le> limit - 3 \<and> is_char_boundary t n \<and>
      (\<forall>k. n < k \<and> k \<le> limit - 3 \<longrightarrow> \<not> is_char_boundary t k))"
proof
  obtain tx where tx: "evidence_reason pr reason s ms = within_bytes tx MAX_REASON"
    unfolding evidence_reason_def Let_def by blast
  have "length (within_bytes tx MAX_REASON) \<le> MAX_REASON"
    by (rule within_bytes_length) (simp add: ellipsis_def MAX_REASON_def)
  then show "within_limits (MemberExpelled m (evidence_reason pr reason s ms)) = Inr ()"
    by (simp add: tx within_ok_iff)
  have "length ellipsis = 3" by (simp add: ellipsis_def)
  then show "\<exists>n. within_bytes t limit = take n t @ ellipsis \<and> n \<le> limit - 3 \<and> is_char_boundary t n \<and>
      (\<forall>k. n < k \<and> k \<le> limit - 3 \<longrightarrow> \<not> is_char_boundary t k)"
    using assms boundary_at_or_before [of t "limit - 3"] boundary_is_last [of t "limit - 3"]
    by (intro exI [of _ "boundary_at_or_before t (limit - 3)"]) (auto simp: within_bytes_def)
qed

section \<open>Failures of one afternoon\<close>

text \<open>Member 1 failed by members 2 and 3, and member 2 by member 3 only, all written just now.\<close>

definition demo_failure :: "nat \<Rightarrow> nat \<Rightarrow> u32 \<Rightarrow> recorded_failure" where
  "demo_failure custodian prober row =
     \<lparr>rf_custodian = MemberId (of_nat custodian), rf_prober = MemberId (of_nat prober),
      rf_failure = \<lparr>pf_item = ItemId 1, pf_blob = ContentHash 2, pf_chunk = 0, pf_in_a_row = row\<rparr>,
      rf_written = 5\<rparr>"

definition demo_failures :: "recorded_failure list" where
  "demo_failures = [demo_failure 2 3 9, demo_failure 1 2 1, demo_failure 1 3 1]"

lemma demo_suspects:
  "map (\<lambda>s. (su_member s, is_red s)) (suspects_among demo_failures (\<lambda>_. True) 10 5000) =
     [(MemberId 1, True), (MemberId 2, False)]"
  by code_simp

theorem red_takes_two_probers_witness:
  "2 \<le> card {rf_prober r |r. r \<in> set demo_failures \<and> rf_custodian r = MemberId 1 \<and>
     left_in_window r 10 5000 \<noteq> None}"
proof -
  have "\<exists>s \<in> set (suspects_among demo_failures (\<lambda>_. True) 10 5000). su_member s = MemberId 1 \<and> is_red s"
  proof -
    have "(MemberId 1, True) \<in> set (map (\<lambda>s. (su_member s, is_red s))
        (suspects_among demo_failures (\<lambda>_. True) 10 5000))"
      unfolding demo_suspects by simp
    then show ?thesis by auto
  qed
  moreover have "distinct demo_failures" by code_simp
  moreover have "inj_on (\<lambda>r. (rf_custodian r, rf_prober r)) (set demo_failures)"
    by (simp add: demo_failures_def demo_failure_def inj_on_def)
  ultimately show ?thesis
    using red_takes_two_probers [of demo_failures "\<lambda>_. True" 10 5000 "MemberId 1"] by simp
qed

definition demo_printers :: printers where
  "demo_printers =
     \<lparr>fmt_short = \<lambda>_. ''a member'', item_hex = \<lambda>_. ''0123456789abcdef'', date_of_micros = \<lambda>_. None\<rparr>"

theorem evidence_fits_an_expulsion_witness:
  "within_limits (MemberExpelled (MemberId 1) (evidence_reason demo_printers (Some '' its disk '')
     \<lparr>su_member = MemberId 1, su_failures = demo_failures\<rparr> ms_new)) = Inr () \<and>
   (\<exists>n. within_bytes ''a long text'' 7 = take n ''a long text'' @ ellipsis \<and> n \<le> 4)"
  using evidence_fits_an_expulsion [of 7 "''a long text''" "MemberId 1" demo_printers
      "Some '' its disk ''" "\<lparr>su_member = MemberId 1, su_failures = demo_failures\<rparr>" ms_new]
  by auto

end
