(* ===== verification/Emergency.thy ===== *)
theory Emergency
  imports Custody_Rendezvous Settling
begin

text \<open>
  The emergency copy of an item down to its last one:
  \<open>crates/distlib-custody/src/emergency.rs\<close>. The task is a state of items alone and copies being
  made, stepped by what its loop selects on: a look at availability, a copy that ends and a copy
  that panics. What availability, the membership and the store answer comes with the look. A
  missing key in \<open>holders[&item]\<close> would panic and is \<open>None\<close> here.
\<close>

section \<open>Items alone\<close>

datatype alone = Since instant | Due | Copying

type_synonym alone_items = "(item_id, alone) btmap"

text \<open>One item of \<open>alone_now\<close>: what it was before, taken out, or alone from now on.\<close>

definition take_over :: "instant \<Rightarrow> item_id \<Rightarrow> alone_items \<times> alone_items \<Rightarrow> alone_items \<times> alone_items" where
  "take_over now item = (\<lambda>(previous, m).
     (bt_remove item previous,
      bt_insert item (case bt_get previous item of None \<Rightarrow> Since now | Some a \<Rightarrow> a) m))"

definition grow_due :: "instant \<Rightarrow> duration \<Rightarrow> alone \<Rightarrow> alone" where
  "grow_due now delay a =
     (case a of Since since \<Rightarrow> if now \<ge> since + delay then Due else a | _ \<Rightarrow> a)"

definition alone_update ::
    "item_id list \<Rightarrow> instant \<Rightarrow> duration \<Rightarrow> alone_items \<Rightarrow> item_id list \<times> alone_items" where
  "alone_update alone_now now delay m =
     (let (previous, m1) = fold (take_over now) alone_now (m, bt_empty);
          copying = bt_retain (\<lambda>_ a. a = Copying) previous;
          m2 = fold (\<lambda>(i, a). bt_insert i a) (bt_entries copying) m1;
          m3 = bt_map (grow_due now delay) m2
      in (map fst (filter (\<lambda>(_, a). a = Due) (bt_entries m3)), m3))"

definition next_due :: "duration \<Rightarrow> alone_items \<Rightarrow> instant option" where
  "next_due delay m =
     (case List.map_filter (\<lambda>a. case a of Since since \<Rightarrow> Some (since + delay) | _ \<Rightarrow> None) (bt_values m) of
        [] \<Rightarrow> None
      | t # ts \<Rightarrow> Some (fold min ts t))"

definition mark_copying :: "item_id \<Rightarrow> alone_items \<Rightarrow> alone_items" where
  "mark_copying item m = bt_insert item Copying m"

definition mark_copied :: "item_id \<Rightarrow> bool \<Rightarrow> alone_items \<Rightarrow> alone_items" where
  "mark_copied item succeeded m = (if succeeded then bt_remove item m else bt_insert item Due m)"

section \<open>The task\<close>

text \<open>
  What a look reads: the sole holder of each item alone that is not held here, who is online, the
  group of the current membership, and each item as the store has it (\<open>Inl\<close> when it cannot be
  read).
\<close>

record look_env =
  le_holders :: "(item_id, member_id) btmap"
  le_online :: "member_id list"
  le_group :: custody_group
  le_item :: "item_id \<Rightarrow> unit + custody_item option"

definition is_mine_to_copy :: "scorer \<Rightarrow> member_id \<Rightarrow> look_env \<Rightarrow> item_id \<Rightarrow> member_id \<Rightarrow> unit + bool" where
  "is_mine_to_copy sc me env item holder =
     (case le_item env item of
        Inl e \<Rightarrow> Inl e
      | Inr None \<Rightarrow> Inr False
      | Inr (Some stored) \<Rightarrow>
          Inr (first_after_custodians sc (le_group env) stored
                 (\<lambda>m. m \<noteq> holder \<and> (m = me \<or> m \<in> set (le_online env))) = Some me))"

record emergency =
  em_alone :: alone_items
  em_copies :: "item_id list"

fun look_at_due ::
    "scorer \<Rightarrow> member_id \<Rightarrow> look_env \<Rightarrow> item_id list \<Rightarrow> emergency \<Rightarrow> emergency option" where
  "look_at_due sc me env [] em = Some em"
| "look_at_due sc me env (item # due) em =
     (case bt_get (le_holders env) item of
        None \<Rightarrow> None
      | Some holder \<Rightarrow>
          look_at_due sc me env due
            (if is_mine_to_copy sc me env item holder = Inr True
             then \<lparr>em_alone = mark_copying item (em_alone em), em_copies = em_copies em @ [item]\<rparr>
             else em))"

definition look ::
    "scorer \<Rightarrow> member_id \<Rightarrow> look_env \<Rightarrow> instant \<Rightarrow> duration \<Rightarrow> emergency \<Rightarrow> emergency option" where
  "look sc me env now delay em =
     (let (due, m) = alone_update (bt_keys (le_holders env)) now delay (em_alone em)
      in look_at_due sc me env due (em\<lparr>em_alone := m\<rparr>))"

definition copy_ended :: "item_id \<Rightarrow> bool \<Rightarrow> emergency \<Rightarrow> emergency" where
  "copy_ended item succeeded em =
     \<lparr>em_alone = mark_copied item succeeded (em_alone em), em_copies = remove1 item (em_copies em)\<rparr>"

text \<open>A join error names no item: only the log says that it happened.\<close>

definition copy_panicked :: "item_id \<Rightarrow> emergency \<Rightarrow> emergency" where
  "copy_panicked item em = em\<lparr>em_copies := remove1 item (em_copies em)\<rparr>"

inductive em_step :: "scorer \<Rightarrow> member_id \<Rightarrow> duration \<Rightarrow> emergency \<Rightarrow> emergency \<Rightarrow> bool"
  for sc me delay where
  looked: "look sc me env now delay em = Some em' \<Longrightarrow> em_step sc me delay em em'"
| ended: "item \<in> set (em_copies em) \<Longrightarrow> em_step sc me delay em (copy_ended item ok em)"
| panicked: "item \<in> set (em_copies em) \<Longrightarrow> em_step sc me delay em (copy_panicked item em)"

inductive_cases em_stepE: "em_step sc me delay em em'"

definition em_start :: emergency where
  "em_start = \<lparr>em_alone = bt_empty, em_copies = []\<rparr>"

section \<open>What an update does\<close>

lemma take_over_fold:
  assumes "distinct items"
  shows "bt_get (fst (fold (take_over now) items (p, m))) i =
      (if i \<in> set items then None else bt_get p i) \<and>
    bt_get (snd (fold (take_over now) items (p, m))) i =
      (if i \<in> set items then Some (case bt_get p i of None \<Rightarrow> Since now | Some a \<Rightarrow> a) else bt_get m i)"
  using assms
proof (induction items arbitrary: p m)
  case (Cons item items)
  from Cons.IH [of "bt_remove item p" "bt_insert item
      (case bt_get p item of None \<Rightarrow> Since now | Some a \<Rightarrow> a) m"] Cons.prems
  show ?case by (auto simp: take_over_def)
qed simp

lemma extend_entries:
  "bt_get (fold (\<lambda>(i, a). bt_insert i a) (bt_entries n) m) k =
     (case bt_get n k of None \<Rightarrow> bt_get m k | Some a \<Rightarrow> Some a)"
proof -
  have "bt_get (fold (\<lambda>(i, a). bt_insert i a) es m) k =
      (case map_of (rev es) k of None \<Rightarrow> bt_get m k | Some a \<Rightarrow> Some a)" for es
    by (induction es arbitrary: m) (auto simp: map_add_def split: option.splits)
  moreover have "map_of (rev (bt_entries n)) k = bt_get n k"
    using bt_collect_distinct [OF bt_entries_distinct, of n k]
    unfolding bt_get_collect by (simp add: bt_get.rep_eq)
  ultimately show ?thesis by simp
qed

lemma alone_update_get:
  assumes "distinct items"
  shows "bt_get (snd (alone_update items now delay m)) i = map_option (grow_due now delay)
    (if i \<in> set items then Some (case bt_get m i of None \<Rightarrow> Since now | Some a \<Rightarrow> a)
     else if bt_get m i = Some Copying then Some Copying else None)"
proof -
  obtain p m1 where f: "fold (take_over now) items (m, bt_empty) = (p, m1)" by fastforce
  show ?thesis
    using take_over_fold [OF assms, of now m bt_empty i]
    by (auto simp: alone_update_def Let_def f extend_entries split: option.splits)
qed

lemma alone_update_due:
  "i \<in> set (fst (alone_update items now delay m)) \<longleftrightarrow>
     bt_get (snd (alone_update items now delay m)) i = Some Due"
proof -
  obtain p m1 where f: "fold (take_over now) items (m, bt_empty) = (p, m1)" by fastforce
  show ?thesis
    unfolding alone_update_def f Let_def prod.case fst_conv snd_conv bt_entries_iff [symmetric]
    by force
qed

lemma due_is_alone:
  assumes "distinct items" and "i \<in> set (fst (alone_update items now delay m))"
  shows "i \<in> set items" and "bt_get m i \<noteq> Some Copying"
  using assms alone_update_get [OF assms(1), of now delay m i]
  by (auto simp: alone_update_due grow_due_def split: if_splits option.splits alone.splits)

section \<open>Against the history of looks\<close>

text \<open>
  Looks with their times, latest first, without copies in between. \<open>alone_since\<close> is when the item
  was first alone in a row.
\<close>

definition looks :: "duration \<Rightarrow> (instant \<times> item_id list) list \<Rightarrow> alone_items" where
  "looks delay hist = foldr (\<lambda>(now, items) m. snd (alone_update items now delay m)) hist bt_empty"

lemma looks_get:
  assumes "sorted_wrt (\<lambda>a b. fst b \<le> fst a) hist" and "\<forall>e \<in> set hist. distinct (snd e)"
  shows "bt_get (looks delay hist) i =
    (case since_while (\<lambda>items. i \<in> set items) hist of
       None \<Rightarrow> None
     | Some t \<Rightarrow> Some (if t + delay \<le> fst (hd hist) then Due else Since t))"
  using assms
proof (induction hist)
  case (Cons e hist)
  obtain now items where e: "e = (now, items)" by (cases e)
  have step: "looks delay (e # hist) = snd (alone_update items now delay (looks delay hist))"
    by (simp add: looks_def e)
  have before: "bt_get (looks delay hist) i =
      (case since_while (\<lambda>items. i \<in> set items) hist of None \<Rightarrow> None
       | Some t \<Rightarrow> Some (if t + delay \<le> fst (hd hist) then Due else Since t))"
    using Cons by simp
  have later: "fst (hd hist) \<le> now" if "hist \<noteq> []"
    using Cons.prems(1) that by (cases hist) (auto simp: e)
  have "hist \<noteq> []" if "since_while (\<lambda>items. i \<in> set items) hist = Some t" for t
    using that by (cases hist) auto
  with before later Cons.prems(2) show ?case
    unfolding step
    by (auto simp: alone_update_get e grow_due_def split: option.splits if_splits)
qed (simp add: looks_def)

text \<open>
  An item becomes due exactly when it has been down to one live copy at every look for the
  whole delay: a look that sees a second copy starts the delay over. What is due is always alone
  at this look, so its holder is known.
\<close>

theorem due_once_alone_for_the_delay:
  assumes "sorted_wrt (\<lambda>a b. fst b \<le> fst a) ((now, items) # hist)"
    and "\<forall>e \<in> set ((now, items) # hist). distinct (snd e)"
  shows "i \<in> set (fst (alone_update items now delay (looks delay hist))) \<longleftrightarrow>
    (\<exists>t. since_while (\<lambda>seen. i \<in> set seen) ((now, items) # hist) = Some t \<and> t + delay \<le> now)"
proof -
  have "i \<in> set (fst (alone_update items now delay (looks delay hist))) \<longleftrightarrow>
      bt_get (looks delay ((now, items) # hist)) i = Some Due"
    by (simp add: alone_update_due looks_def)
  then show ?thesis
    unfolding looks_get [OF assms] by (auto split: option.splits)
qed

section \<open>Copies\<close>

lemma look_at_due_ok:
  assumes "\<forall>i \<in> set due. bt_has (le_holders env) i" and "distinct due"
    and "\<forall>i \<in> set due. i \<notin> set (em_copies em)"
    and "distinct (em_copies em)" and "\<forall>i \<in> set (em_copies em). bt_get (em_alone em) i = Some Copying"
  shows "\<exists>em'. look_at_due sc me env due em = Some em' \<and> distinct (em_copies em') \<and>
    (\<forall>i \<in> set (em_copies em'). bt_get (em_alone em') i = Some Copying)"
  using assms
proof (induction due arbitrary: em)
  case (Cons item due)
  obtain holder where h: "bt_get (le_holders env) item = Some holder"
    using Cons.prems(1) by (auto simp: bt_has_def)
  let ?em = "if is_mine_to_copy sc me env item holder = Inr True
    then \<lparr>em_alone = mark_copying item (em_alone em), em_copies = em_copies em @ [item]\<rparr> else em"
  have "\<exists>em'. look_at_due sc me env due ?em = Some em' \<and> distinct (em_copies em') \<and>
      (\<forall>i \<in> set (em_copies em'). bt_get (em_alone em') i = Some Copying)"
    using Cons.prems by (intro Cons.IH) (auto simp: mark_copying_def)
  then show ?case by (simp add: h)
qed simp

definition em_ok :: "emergency \<Rightarrow> bool" where
  "em_ok em \<longleftrightarrow> distinct (em_copies em) \<and>
     (\<forall>i \<in> set (em_copies em). bt_get (em_alone em) i = Some Copying)"

lemma look_ok:
  assumes "em_ok em"
  shows "\<exists>em'. look sc me env now delay em = Some em' \<and> em_ok em'"
proof -
  let ?keys = "bt_keys (le_holders env)"
  obtain due m where u: "alone_update ?keys now delay (em_alone em) = (due, m)" by fastforce
  have keys: "distinct ?keys" by simp
  have copying: "bt_get m i = Some Copying" if "bt_get (em_alone em) i = Some Copying" for i
    using alone_update_get [OF keys, of now delay "em_alone em" i] that
    by (simp add: u grow_due_def)
  have "distinct due"
  proof -
    have "due = map fst (filter (\<lambda>(_, a). a = Due) (bt_entries m))"
      using u by (auto simp: alone_update_def Let_def split: prod.splits)
    then show ?thesis by (simp add: distinct_map_filter)
  qed
  moreover have "\<forall>i \<in> set due. bt_has (le_holders env) i"
    using due_is_alone(1) [OF keys, of _ now delay "em_alone em"] by (simp add: u bt_has_dom)
  moreover have "\<forall>i \<in> set due. i \<notin> set (em_copies em)"
    using due_is_alone(2) [OF keys, of _ now delay "em_alone em"] assms by (auto simp: u em_ok_def)
  ultimately show ?thesis
    using look_at_due_ok [of due env "em\<lparr>em_alone := m\<rparr>" sc me] assms copying
    by (simp add: look_def u em_ok_def)
qed

lemma em_step_ok: "em_step sc me delay em em' \<Longrightarrow> em_ok em \<Longrightarrow> em_ok em'"
proof (elim em_stepE)
  fix env now assume "look sc me env now delay em = Some em'" "em_ok em"
  then show "em_ok em'" using look_ok [of em sc me env now delay] by simp
next
  fix item ok assume "em' = copy_ended item ok em" "em_ok em"
  then show "em_ok em'" by (auto simp: em_ok_def copy_ended_def mark_copied_def)
next
  fix item assume "em' = copy_panicked item em" "em_ok em"
  then show "em_ok em'" by (auto simp: em_ok_def copy_panicked_def dest: notin_set_remove1)
qed

text \<open>
  At any moment of the task, a look returns (the holder of an item that is due is there), and
  no item is being copied twice at once: each copy under way is of a different item, marked so.
\<close>

theorem one_copy_at_a_time:
  assumes "(em_step sc me delay)\<^sup>*\<^sup>* em_start em"
  shows "(\<exists>em'. look sc me env now delay em = Some em') \<and> distinct (em_copies em) \<and>
    (\<forall>i \<in> set (em_copies em). bt_get (em_alone em) i = Some Copying)"
proof -
  from assms have "em_ok em"
    by (induction rule: rtranclp_induct) (auto simp: em_ok_def em_start_def dest: em_step_ok [unfolded em_ok_def])
  then show ?thesis
    using look_ok [of em sc me env now delay] by (auto simp: em_ok_def)
qed

lemma look_at_due_keeps:
  "look_at_due sc me env due em = Some em' \<Longrightarrow> bt_get (em_alone em) i = Some Copying \<Longrightarrow>
   i \<notin> set due \<Longrightarrow> bt_get (em_alone em') i = Some Copying \<and>
     (i \<in> set (em_copies em') \<longrightarrow> i \<in> set (em_copies em))"
proof (induction due arbitrary: em)
  case (Cons item due)
  from Cons.prems obtain holder where h: "bt_get (le_holders env) item = Some holder"
    by (auto split: option.splits)
  show ?case
  proof (cases "is_mine_to_copy sc me env item holder = Inr True")
    case True
    then show ?thesis
      using Cons.IH [of "\<lparr>em_alone = mark_copying item (em_alone em),
          em_copies = em_copies em @ [item]\<rparr>"] Cons.prems h
      by (simp add: mark_copying_def)
  next
    case False
    then show ?thesis using Cons.IH [of em] Cons.prems h by simp
  qed
qed simp

text \<open>
  After a copy panicked, its item stays marked as being copied for good: however often
  availability is looked at, and whether or not it was no longer alone in between, it is not due
  again and no copy of it is started.
\<close>

theorem panicked_copy_is_never_made_again:
  assumes "bt_get (em_alone em) i = Some Copying" and "i \<notin> set (em_copies em)"
    and "(em_step sc me delay)\<^sup>*\<^sup>* em em'"
  shows "bt_get (em_alone em') i = Some Copying \<and> i \<notin> set (em_copies em')"
  using assms(3,1,2)
proof (induction rule: rtranclp_induct)
  case (step a b)
  then have a: "bt_get (em_alone a) i = Some Copying" "i \<notin> set (em_copies a)" by simp_all
  from step(2) show ?case
  proof (cases rule: em_step.cases)
    case (looked env now)
    let ?keys = "bt_keys (le_holders env)"
    obtain due m where u: "alone_update ?keys now delay (em_alone a) = (due, m)" by fastforce
    have "bt_get m i = Some Copying" "i \<notin> set due"
      using alone_update_get [of ?keys now delay "em_alone a" i] a(1)
        due_is_alone(2) [of ?keys i now delay "em_alone a"] by (auto simp: u grow_due_def)
    then show ?thesis
      using look_at_due_keeps [of sc me env due "a\<lparr>em_alone := m\<rparr>" b i] looked a(2)
      by (auto simp: look_def u)
  next
    case (ended item ok)
    with a show ?thesis by (auto simp: copy_ended_def mark_copied_def dest: notin_set_remove1)
  next
    case (panicked item)
    with a show ?thesis by (auto simp: copy_panicked_def dest: notin_set_remove1)
  qed
qed simp

section \<open>A copy that panics\<close>

text \<open>
  Member 5 is the first after the custodians of an item that member 3 holds alone. With no delay
  it starts a copy at the first look.
\<close>

definition demo_env :: look_env where
  "demo_env =
     \<lparr>le_holders = bt_insert (ci_item demo_item) (MemberId 3) bt_empty, le_online = [MemberId 3],
      le_group = cg_new demo_scorer 3 demo_rule demo_pledges,
      le_item = \<lambda>_. Inr (Some demo_item)\<rparr>"

definition demo_copying :: emergency where
  "demo_copying =
     \<lparr>em_alone = bt_insert (ci_item demo_item) Copying bt_empty, em_copies = [ci_item demo_item]\<rparr>"

lemma demo_look: "look demo_scorer (MemberId 5) demo_env 7 0 em_start = Some demo_copying"
  by code_simp

lemma demo_copying_reached: "(em_step demo_scorer (MemberId 5) 0)\<^sup>*\<^sup>* em_start demo_copying"
  using looked [OF demo_look] by blast

theorem due_once_alone_for_the_delay_witness:
  "ItemId 1 \<in> set (fst (alone_update [ItemId 1] 20 15
     (looks 15 [(10, [ItemId 1, ItemId 2]), (5, [ItemId 1])])))"
  using due_once_alone_for_the_delay
    [of 20 "[ItemId 1]" "[(10, [ItemId 1, ItemId 2]), (5, [ItemId 1])]" "ItemId 1" 15]
  by simp

theorem one_copy_at_a_time_witness:
  "\<exists>em'. look demo_scorer (MemberId 5) demo_env 8 0 demo_copying = Some em'"
  using one_copy_at_a_time [OF demo_copying_reached, of demo_env 8] by blast

theorem panicked_copy_is_never_made_again_witness:
  "\<exists>em. look demo_scorer (MemberId 5) demo_env 9 0 (copy_panicked (ci_item demo_item) demo_copying) = Some em \<and>
     ci_item demo_item \<notin> set (em_copies em) \<and> bt_get (em_alone em) (ci_item demo_item) = Some Copying"
proof -
  let ?em = "copy_panicked (ci_item demo_item) demo_copying"
  have here: "bt_get (em_alone ?em) (ci_item demo_item) = Some Copying"
    "ci_item demo_item \<notin> set (em_copies ?em)"
    by (simp_all add: copy_panicked_def demo_copying_def)
  have "em_ok ?em" by (simp add: em_ok_def copy_panicked_def demo_copying_def)
  then obtain em where em: "look demo_scorer (MemberId 5) demo_env 9 0 ?em = Some em"
    using look_ok by blast
  then have "(em_step demo_scorer (MemberId 5) 0)\<^sup>*\<^sup>* ?em em" using looked by blast
  from panicked_copy_is_never_made_again [OF here this] em show ?thesis by blast
qed

end
