(* ===== verification/Pins.thy ===== *)
theory Pins
  imports Storage Std_Slices
begin

text \<open>
  The pin manager, \<open>crates/distlib-custody/src/pins.rs\<close>: the state each item in custody is in,
  the fetches under way, and when custody is let go of into the cache. The loop of \<open>run\<close> is a
  step on messages; what custody, availability, the membership and the stores answer is the
  environment of a step. The order a \<open>HashMap\<close> is walked in is part of the environment too.
  Turns and task numbers are natural numbers.
\<close>

section \<open>Pins\<close>

datatype pin =
    Queued nat
  | Fetching nat bool bool
  | Failed
  | WaitingForRoom
  | Kept
  | Releasing

fun wanted :: "pin option \<Rightarrow> nat \<Rightarrow> pin" where
  "wanted (Some (Queued t)) turn = Queued t"
| "wanted (Some (Fetching task _ availability_changed)) turn = Fetching task True availability_changed"
| "wanted _ turn = Queued turn"

text \<open>\<open>select_nth_unstable(count)\<close> on the pairs, then \<open>truncate(count)\<close>.\<close>

definition queued_keys ::
    "(item_id, pin) btmap \<Rightarrow> (item_id \<Rightarrow> nat) \<Rightarrow> ((nat \<times> nat) \<times> item_id) list" where
  "queued_keys pins live_copies =
     List.map_filter (\<lambda>(item, p).
         case p of Queued turn \<Rightarrow> Some ((live_copies item, turn), item) | _ \<Rightarrow> None)
       (bt_entries pins)"

definition next_to_fetch :: "(item_id, pin) btmap \<Rightarrow> nat \<Rightarrow> (item_id \<Rightarrow> nat) \<Rightarrow> item_id list" where
  "next_to_fetch pins n live_copies =
     (let queued = queued_keys pins live_copies
      in map snd (if length queued > n then take n (select_by (<) n queued) else queued))"

datatype keep_error =
    KeepStore
  | KeepBlobs bool
  | KeepHoldings
  | KeepStorage storage_error
  | Stalled
  | NoRoom u64

text \<open>\<open>KeepBlobs True\<close> is the error of a fetch.\<close>

fun is_unavailable :: "keep_error \<Rightarrow> bool" where
  "is_unavailable Stalled = True"
| "is_unavailable (KeepBlobs fetch) = fetch"
| "is_unavailable _ = False"

record pins =
  pn_pins :: "(item_id, pin) btmap"
  pn_next_turn :: nat
  pn_max_fetches :: nat
  pn_tasks :: "(nat \<times> item_id) list"
  pn_next_task :: nat
  pn_store :: blob_store

record pin_env =
  pe_me :: member_id
  pe_my_items :: "item_id list option"
  pe_keeps :: "item_id \<Rightarrow> bool"
  pe_holds :: "item_id \<Rightarrow> bool"
  pe_real_holders :: "item_id \<Rightarrow> member_id list"
  pe_online :: "member_id list"
  pe_knows_holdings_of :: "member_id \<Rightarrow> bool"
  pe_replicas :: u8
  pe_upgrade_required :: bool
  pe_order :: "item_id list \<Rightarrow> item_id list"
  pe_keep_fails :: "item_id \<Rightarrow> content_hash \<Rightarrow> bool"
  pe_release_fails :: "item_id \<Rightarrow> content_hash \<Rightarrow> bool"
  pe_mark_used_fails :: "item_id \<Rightarrow> bool"

definition walk :: "pin_env \<Rightarrow> pins \<Rightarrow> item_id list" where
  "walk env p = pe_order env (bt_keys (pn_pins p))"

section \<open>The keeper\<close>

definition live_copies :: "pin_env \<Rightarrow> item_id \<Rightarrow> nat" where
  "live_copies env item =
     length (filter (\<lambda>m. m \<noteq> pe_me env \<and> m \<in> set (pe_online env)) (pe_real_holders env item))"

definition enough_copies_elsewhere :: "pin_env \<Rightarrow> item_id \<Rightarrow> bool" where
  "enough_copies_elsewhere env item =
     (if list_ex (\<lambda>m. m \<noteq> pe_me env \<and> \<not> pe_knows_holdings_of env m) (pe_online env) then False
      else live_copies env item \<ge> unat (pe_replicas env))"

fun move_to_cache ::
    "pin_env \<Rightarrow> item_id \<Rightarrow> content_hash list \<Rightarrow> blob_store \<Rightarrow> (keep_error, blob_store) outcome" where
  "move_to_cache env item [] bs = done_with bs"
| "move_to_cache env item (hash # hashes) bs =
     (if pe_keep_fails env item hash then refused (KeepBlobs False) bs
      else
        let bs1 = blobs_keep Cache item hash bs
        in if pe_release_fails env item hash then refused (KeepBlobs False) bs1
           else move_to_cache env item hashes (blobs_release Custody item hash bs1))"

definition keeper_release :: "pin_env \<Rightarrow> item_id \<Rightarrow> blob_store \<Rightarrow> (keep_error, blob_store) outcome" where
  "keeper_release env item bs =
     and_then (move_to_cache env item (kept_for Custody item bs) bs)
       (\<lambda>bs'. if pe_mark_used_fails env item then refused KeepStore bs' else done_with bs')"

section \<open>The operations\<close>

definition set_pin :: "item_id \<Rightarrow> pin \<Rightarrow> pins \<Rightarrow> pins" where
  "set_pin item q p = p\<lparr>pn_pins := bt_insert item q (pn_pins p)\<rparr>"

text \<open>\<open>next_turn.take()\<close>: an item joins the queue behind those already in.\<close>

definition enqueue :: "item_id \<Rightarrow> pins \<Rightarrow> pins" where
  "enqueue item p =
     (set_pin item (Queued (pn_next_turn p)) p)\<lparr>pn_next_turn := pn_next_turn p + 1\<rparr>"

definition want :: "item_id \<Rightarrow> pins \<Rightarrow> pins" where
  "want item p =
     (set_pin item (wanted (bt_get (pn_pins p) item) (pn_next_turn p)) p)
       \<lparr>pn_next_turn := pn_next_turn p + 1\<rparr>"

definition ask_again_for_room :: "pin_env \<Rightarrow> pins \<Rightarrow> pins" where
  "ask_again_for_room env p =
     fold (\<lambda>item p. if bt_get (pn_pins p) item = Some WaitingForRoom then enqueue item p else p)
       (walk env p) p"

definition release_if_safe :: "pin_env \<Rightarrow> item_id \<Rightarrow> pins \<Rightarrow> pins" where
  "release_if_safe env item p =
     (if pe_upgrade_required env \<or> (pe_holds env item \<and> \<not> enough_copies_elsewhere env item)
      then set_pin item Releasing p
      else case keeper_release env item (pn_store p) of
             (Inr _, bs) \<Rightarrow>
               ask_again_for_room env
                 (p\<lparr>pn_pins := bt_remove item (pn_pins p), pn_store := bs\<rparr>)
           | (Inl _, bs) \<Rightarrow> set_pin item Releasing (p\<lparr>pn_store := bs\<rparr>))"

definition lose :: "pin_env \<Rightarrow> item_id \<Rightarrow> pins \<Rightarrow> pins" where
  "lose env item p =
     (case bt_get (pn_pins p) item of
        None \<Rightarrow> p
      | Some (Fetching _ _ _) \<Rightarrow> p
      | Some _ \<Rightarrow> release_if_safe env item p)"

definition needs_keeping :: "pin_env \<Rightarrow> item_id \<Rightarrow> pin option \<Rightarrow> bool" where
  "needs_keeping env item q =
     (case q of
        None \<Rightarrow> True
      | Some Releasing \<Rightarrow> True
      | Some Kept \<Rightarrow> \<not> pe_holds env item
      | Some _ \<Rightarrow> False)"

definition read_custody_again :: "pin_env \<Rightarrow> pins \<Rightarrow> pins" where
  "read_custody_again env p =
     (case pe_my_items env of
        None \<Rightarrow> p
      | Some mine \<Rightarrow>
          let p1 = fold (\<lambda>item p.
                if needs_keeping env item (bt_get (pn_pins p) item) then want item p else p) mine p;
              lost = filter (\<lambda>item. item \<notin> set mine) (walk env p1)
          in fold (lose env) lost p1)"

definition fewest_copies_first :: "pin_env \<Rightarrow> nat \<Rightarrow> pins \<Rightarrow> item_id list" where
  "fewest_copies_first env n p =
     (if \<not> list_ex (\<lambda>q. case q of Queued _ \<Rightarrow> True | _ \<Rightarrow> False) (bt_values (pn_pins p)) then []
      else next_to_fetch (pn_pins p) n (live_copies env))"

definition spawn_fetch :: "item_id \<Rightarrow> pins \<Rightarrow> pins" where
  "spawn_fetch item p =
     (set_pin item (Fetching (pn_next_task p) False False) p)
       \<lparr>pn_tasks := pn_tasks p @ [(pn_next_task p, item)], pn_next_task := pn_next_task p + 1\<rparr>"

definition start_fetches :: "pin_env \<Rightarrow> pins \<Rightarrow> pins" where
  "start_fetches env p =
     (let free = pn_max_fetches p - length (pn_tasks p)
      in if free = 0 then p else fold spawn_fetch (fewest_copies_first env free p) p)"

definition join_task :: "nat \<Rightarrow> pins \<Rightarrow> pins" where
  "join_task task p = p\<lparr>pn_tasks := filter (\<lambda>(t, _). t \<noteq> task) (pn_tasks p)\<rparr>"

definition fetched :: "pin_env \<Rightarrow> item_id \<Rightarrow> keep_error + unit \<Rightarrow> pins \<Rightarrow> pins" where
  "fetched env item kept p =
     (case bt_get (pn_pins p) item of
        Some (Fetching _ wanted_again availability_changed) \<Rightarrow>
          if \<not> pe_keeps env item then release_if_safe env item p
          else (case kept of
                  Inr _ \<Rightarrow> if wanted_again then enqueue item p else set_pin item Kept p
                | Inl (NoRoom _) \<Rightarrow>
                    if wanted_again then enqueue item p else set_pin item WaitingForRoom p
                | Inl _ \<Rightarrow>
                    if wanted_again \<or> availability_changed then enqueue item p
                    else set_pin item Failed p)
      | _ \<Rightarrow> p)"

definition fetch_panicked :: "nat \<Rightarrow> pins \<Rightarrow> pins" where
  "fetch_panicked task p =
     (case bt_find (\<lambda>_ q. case q of Fetching t _ _ \<Rightarrow> t = task | _ \<Rightarrow> False) (pn_pins p) of
        None \<Rightarrow> p
      | Some (item, _) \<Rightarrow> set_pin item Failed p)"

text \<open>One pin of the walk over all of them.\<close>

definition look_at_pin :: "item_id \<Rightarrow> pins \<times> item_id list \<Rightarrow> pins \<times> item_id list" where
  "look_at_pin item = (\<lambda>(p, releasing).
     case bt_get (pn_pins p) item of
       Some (Fetching task again _) \<Rightarrow> (set_pin item (Fetching task again True) p, releasing)
     | Some Failed \<Rightarrow> (enqueue item p, releasing)
     | Some Releasing \<Rightarrow> (p, releasing @ [item])
     | _ \<Rightarrow> (p, releasing))"

definition availability_changed :: "pin_env \<Rightarrow> pins \<Rightarrow> pins" where
  "availability_changed env p =
     (let (p1, releasing) = fold look_at_pin (walk env p) (p, [])
      in fold (release_if_safe env) releasing p1)"

record pin_counts =
  pc_queued :: nat
  pc_fetching :: nat
  pc_failed :: nat
  pc_waiting_for_room :: nat
  pc_kept :: nat
  pc_releasing :: nat

fun count_pin :: "pin \<Rightarrow> pin_counts \<Rightarrow> pin_counts" where
  "count_pin (Queued _) c = c\<lparr>pc_queued := pc_queued c + 1\<rparr>"
| "count_pin (Fetching _ _ _) c = c\<lparr>pc_fetching := pc_fetching c + 1\<rparr>"
| "count_pin Failed c = c\<lparr>pc_failed := pc_failed c + 1\<rparr>"
| "count_pin WaitingForRoom c = c\<lparr>pc_waiting_for_room := pc_waiting_for_room c + 1\<rparr>"
| "count_pin Kept c = c\<lparr>pc_kept := pc_kept c + 1\<rparr>"
| "count_pin Releasing c = c\<lparr>pc_releasing := pc_releasing c + 1\<rparr>"

definition publish_counts :: "pins \<Rightarrow> pin_counts" where
  "publish_counts p =
     fold count_pin (bt_values (pn_pins p))
       \<lparr>pc_queued = 0, pc_fetching = 0, pc_failed = 0, pc_waiting_for_room = 0, pc_kept = 0,
        pc_releasing = 0\<rparr>"

section \<open>The loop\<close>

definition pins_start :: "pin_env \<Rightarrow> nat \<Rightarrow> blob_store \<Rightarrow> pins" where
  "pins_start env max_fetches bs =
     (let p = \<lparr>pn_pins = bt_collect (map (\<lambda>(item, _). (item, Kept)) (kept_tags Custody bs)),
               pn_next_turn = 0, pn_max_fetches = max_fetches, pn_tasks = [], pn_next_task = 0,
               pn_store = bs\<rparr>
      in start_fetches env (read_custody_again env p))"

datatype pin_msg =
    CustodyRecomputed
  | CustodyItem item_id bool
  | LookAtAvailability
  | FetchEnded nat "keep_error + unit"
  | FetchPanicked nat

fun handle :: "pin_env \<Rightarrow> pin_msg \<Rightarrow> pins \<Rightarrow> pins" where
  "handle env CustodyRecomputed p = read_custody_again env p"
| "handle env (CustodyItem item mine) p = (if mine then want item p else lose env item p)"
| "handle env LookAtAvailability p = availability_changed env p"
| "handle env (FetchEnded task kept) p =
     (case List.find (\<lambda>(t, _). t = task) (pn_tasks p) of
        None \<Rightarrow> p
      | Some (_, item) \<Rightarrow> fetched env item kept (join_task task p))"
| "handle env (FetchPanicked task) p =
     (case List.find (\<lambda>(t, _). t = task) (pn_tasks p) of
        None \<Rightarrow> p
      | Some _ \<Rightarrow> fetch_panicked task (join_task task p))"

definition pin_step :: "pin_env \<Rightarrow> pin_msg \<Rightarrow> pins \<Rightarrow> pins" where
  "pin_step env msg p = start_fetches env (handle env msg p)"

text \<open>The fetches change the store too, between any two steps.\<close>

inductive pins_reach :: "nat \<Rightarrow> pins \<Rightarrow> bool" for n where
  started: "pins_reach n (pins_start env n bs)"
| stepped: "pins_reach n p \<Longrightarrow> pins_reach n (pin_step env msg p)"
| store_changed: "pins_reach n p \<Longrightarrow> pins_reach n (p\<lparr>pn_store := bs\<rparr>)"

section \<open>Fetches and turns\<close>

lemma set_pin_fields [simp]:
  "pn_tasks (set_pin i q p) = pn_tasks p" "pn_next_task (set_pin i q p) = pn_next_task p"
  "pn_max_fetches (set_pin i q p) = pn_max_fetches p" "pn_next_turn (set_pin i q p) = pn_next_turn p"
  "pn_store (set_pin i q p) = pn_store p"
  by (simp_all add: set_pin_def)

definition fetching_task :: "pins \<Rightarrow> item_id \<Rightarrow> nat option" where
  "fetching_task p i = (case bt_get (pn_pins p) i of Some (Fetching t _ _) \<Rightarrow> Some t | _ \<Rightarrow> None)"

definition fetch_ok :: "pins \<Rightarrow> bool" where
  "fetch_ok p \<longleftrightarrow>
     (\<forall>i t. fetching_task p i = Some t \<longleftrightarrow> (t, i) \<in> set (pn_tasks p)) \<and>
     distinct (map fst (pn_tasks p)) \<and> (\<forall>(t, _) \<in> set (pn_tasks p). t < pn_next_task p) \<and>
     length (pn_tasks p) \<le> pn_max_fetches p"

definition turns_ok :: "pins \<Rightarrow> bool" where
  "turns_ok p \<longleftrightarrow>
     (\<forall>i t. bt_get (pn_pins p) i = Some (Queued t) \<longrightarrow> t < pn_next_turn p) \<and>
     (\<forall>i j t. bt_get (pn_pins p) i = Some (Queued t) \<and> bt_get (pn_pins p) j = Some (Queued t) \<longrightarrow> i = j)"

text \<open>What every operation but starting a fetch leaves alone.\<close>

definition same_tasks :: "pins \<Rightarrow> pins \<Rightarrow> bool" where
  "same_tasks p p' \<longleftrightarrow> pn_tasks p' = pn_tasks p \<and> pn_next_task p' = pn_next_task p \<and>
     pn_max_fetches p' = pn_max_fetches p \<and> (turns_ok p \<longrightarrow> turns_ok p')"

definition quiet :: "pins \<Rightarrow> pins \<Rightarrow> bool" where
  "quiet p p' \<longleftrightarrow> same_tasks p p' \<and> fetching_task p' = fetching_task p"

definition cleared :: "item_id \<Rightarrow> pins \<Rightarrow> pins \<Rightarrow> bool" where
  "cleared item p p' \<longleftrightarrow> same_tasks p p' \<and> fetching_task p' = (fetching_task p)(item := None)"

named_theorems pin_frames \<open>which operations leave the fetches alone\<close>

lemma quiet_refl [pin_frames]: "quiet p p"
  by (simp add: quiet_def same_tasks_def)

lemma quiet_trans: "quiet p q \<Longrightarrow> quiet q r \<Longrightarrow> quiet p r"
  by (auto simp: quiet_def same_tasks_def)

lemma cleared_quiet: "cleared item p q \<Longrightarrow> quiet q r \<Longrightarrow> cleared item p r"
  by (auto simp: quiet_def cleared_def same_tasks_def)

lemma quiet_cleared: "quiet p q \<Longrightarrow> cleared item q r \<Longrightarrow> cleared item p r"
  by (auto simp: quiet_def cleared_def same_tasks_def)

lemma quiet_if_idle: "cleared item p q \<Longrightarrow> fetching_task p item = None \<Longrightarrow> quiet p q"
  by (auto simp: quiet_def cleared_def fun_upd_idem)

lemma quiet_fold: "(\<And>x q. x \<in> set xs \<Longrightarrow> quiet q (f x q)) \<Longrightarrow> quiet p (fold f xs p)"
proof (induction xs arbitrary: p)
  case (Cons x xs)
  have "quiet p (f x p)" using Cons.prems by simp
  moreover have "quiet (f x p) (fold f xs (f x p))" using Cons by simp
  ultimately show ?case by (simp add: quiet_trans)
qed (simp add: quiet_refl)

lemma set_pin_cleared:
  "(case q of Queued _ \<Rightarrow> False | Fetching _ _ _ \<Rightarrow> False | _ \<Rightarrow> True) \<Longrightarrow> cleared item p (set_pin item q p)"
  by (cases q) (auto simp: cleared_def same_tasks_def fetching_task_def set_pin_def turns_ok_def fun_eq_iff)

lemma enqueue_cleared: "cleared item p (enqueue item p)"
proof -
  have "turns_ok p \<Longrightarrow> turns_ok (enqueue item p)"
    by (auto simp: turns_ok_def enqueue_def set_pin_def split: if_splits) (fastforce intro: less_SucI)+
  then show ?thesis
    by (auto simp: cleared_def same_tasks_def fetching_task_def set_pin_def enqueue_def fun_eq_iff)
qed

lemma remove_cleared: "cleared item p (p\<lparr>pn_pins := bt_remove item (pn_pins p), pn_store := bs\<rparr>)"
  by (auto simp: cleared_def same_tasks_def fetching_task_def turns_ok_def fun_eq_iff split: if_splits)

lemma store_quiet: "quiet p (p\<lparr>pn_store := bs\<rparr>)"
  by (auto simp: quiet_def same_tasks_def fetching_task_def turns_ok_def fun_eq_iff)

lemma want_quiet [pin_frames]: "quiet p (want item p)"
proof (cases "bt_get (pn_pins p) item")
  case None
  then have "want item p = enqueue item p" "fetching_task p item = None"
    by (simp_all add: want_def enqueue_def fetching_task_def)
  then show ?thesis using quiet_if_idle [OF enqueue_cleared] by simp
next
  case (Some q)
  show ?thesis
  proof (cases q)
    case (Queued t)
    have "turns_ok p \<Longrightarrow> turns_ok (want item p)"
      using Some Queued by (auto simp: turns_ok_def want_def set_pin_def less_SucI split: if_splits)
    then show ?thesis
      using Some Queued by (auto simp: quiet_def same_tasks_def want_def set_pin_def fetching_task_def fun_eq_iff)
  next
    case (Fetching t again av)
    have "turns_ok p \<Longrightarrow> turns_ok (want item p)"
      using Some Fetching by (auto simp: turns_ok_def want_def set_pin_def less_SucI split: if_splits)
    then show ?thesis
      using Some Fetching by (auto simp: quiet_def same_tasks_def want_def set_pin_def fetching_task_def fun_eq_iff)
  qed (use Some quiet_if_idle [OF enqueue_cleared, of p item] in
      \<open>simp_all add: want_def enqueue_def fetching_task_def\<close>)
qed

lemma ask_again_quiet [pin_frames]: "quiet p (ask_again_for_room env p)"
  unfolding ask_again_for_room_def
proof (rule quiet_fold)
  fix item q
  show "quiet q (if bt_get (pn_pins q) item = Some WaitingForRoom then enqueue item q else q)"
    using quiet_if_idle [OF enqueue_cleared, of q item] by (auto simp: fetching_task_def quiet_refl)
qed

lemma release_if_safe_cleared: "cleared item p (release_if_safe env item p)"
proof -
  obtain res bs where r: "keeper_release env item (pn_store p) = (res, bs)" by fastforce
  have "cleared item p (set_pin item Releasing (p\<lparr>pn_store := bs\<rparr>))"
    by (rule quiet_cleared [OF store_quiet set_pin_cleared]) simp
  moreover have "cleared item p (ask_again_for_room env
      (p\<lparr>pn_pins := bt_remove item (pn_pins p), pn_store := bs\<rparr>))"
    using cleared_quiet [OF remove_cleared ask_again_quiet] .
  ultimately show ?thesis
    using set_pin_cleared [of Releasing item p]
    by (auto simp: release_if_safe_def r split: sum.split)
qed

lemma release_if_safe_quiet: "fetching_task p item = None \<Longrightarrow> quiet p (release_if_safe env item p)"
  using quiet_if_idle [OF release_if_safe_cleared] .

lemma lose_quiet [pin_frames]: "quiet p (lose env item p)"
  using release_if_safe_quiet [of p item env]
  by (auto simp: lose_def fetching_task_def quiet_refl split: option.splits pin.splits)

lemma read_custody_again_quiet [pin_frames]: "quiet p (read_custody_again env p)"
proof (cases "pe_my_items env")
  case (Some mine)
  have "quiet p (fold (\<lambda>item p. if needs_keeping env item (bt_get (pn_pins p) item)
      then want item p else p) mine p)"
    by (rule quiet_fold) (simp add: pin_frames)
  moreover have "quiet q (fold (lose env) items q)" for items q
    by (rule quiet_fold) (simp add: pin_frames)
  ultimately show ?thesis
    using Some quiet_trans by (simp add: read_custody_again_def Let_def)
qed (simp add: read_custody_again_def pin_frames)

lemma look_at_pin_quiet: "quiet p (fst (look_at_pin item (p, rs)))"
proof (cases "bt_get (pn_pins p) item")
  case (Some q)
  show ?thesis
  proof (cases q)
    case (Fetching task again av)
    have "turns_ok p \<Longrightarrow> turns_ok (set_pin item (Fetching task again True) p)"
      using Some Fetching by (auto simp: turns_ok_def set_pin_def split: if_splits)
    then show ?thesis
      using Some Fetching
      by (auto simp: look_at_pin_def quiet_def same_tasks_def set_pin_def fetching_task_def fun_eq_iff)
  next
    case Failed
    then show ?thesis
      using Some quiet_if_idle [OF enqueue_cleared, of p item]
      by (simp add: look_at_pin_def fetching_task_def)
  qed (use Some in \<open>simp_all add: look_at_pin_def quiet_refl\<close>)
qed (simp add: look_at_pin_def quiet_refl)

lemma look_at_pins:
  assumes "\<forall>i \<in> set rs. bt_get (pn_pins p) i = Some Releasing" and "fold look_at_pin items (p, rs) = (p', rs')"
  shows "quiet p p' \<and> (\<forall>i \<in> set rs'. bt_get (pn_pins p') i = Some Releasing)"
  using assms
proof (induction items arbitrary: p rs)
  case (Cons item items)
  obtain q qs where one: "look_at_pin item (p, rs) = (q, qs)" by fastforce
  then have "quiet p q" using look_at_pin_quiet [of p item rs] by simp
  moreover have "\<forall>i \<in> set qs. bt_get (pn_pins q) i = Some Releasing"
    using one Cons.prems(1)
    by (auto simp: look_at_pin_def enqueue_def set_pin_def split: option.splits pin.splits)
  ultimately show ?case
    using Cons.IH [of qs q] Cons.prems(2) one quiet_trans by fastforce
qed (simp add: quiet_refl)

lemma quiet_release_fold:
  "\<forall>i \<in> set rs. fetching_task p i = None \<Longrightarrow> quiet p (fold (release_if_safe env) rs p)"
proof (induction rs arbitrary: p)
  case (Cons i rs)
  have one: "quiet p (release_if_safe env i p)"
    using Cons.prems by (simp add: release_if_safe_quiet)
  then have "\<forall>j \<in> set rs. fetching_task (release_if_safe env i p) j = None"
    using Cons.prems by (simp add: quiet_def)
  from Cons.IH [OF this] one show ?case using quiet_trans by simp
qed (simp add: quiet_refl)

lemma availability_changed_quiet [pin_frames]: "quiet p (availability_changed env p)"
proof -
  obtain p1 rs where f: "fold look_at_pin (walk env p) (p, []) = (p1, rs)" by fastforce
  from look_at_pins [OF _ f] have "quiet p p1" "\<forall>i \<in> set rs. fetching_task p1 i = None"
    by (auto simp: fetching_task_def)
  then show ?thesis
    using quiet_trans [OF _ quiet_release_fold] by (simp add: availability_changed_def f)
qed

lemma fetched_cleared:
  assumes "fetching_task p item \<noteq> None"
  shows "cleared item p (fetched env item kept p)"
proof -
  obtain t again av where q: "bt_get (pn_pins p) item = Some (Fetching t again av)"
    using assms by (auto simp: fetching_task_def split: option.splits pin.splits)
  show ?thesis
    using release_if_safe_cleared enqueue_cleared set_pin_cleared
    by (simp add: fetched_def q split: sum.split keep_error.split)
qed

lemma fetch_panicked_fails:
  assumes "\<And>i. fetching_task p i = Some task \<longleftrightarrow> i = item"
  shows "fetch_panicked task p = set_pin item Failed p"
proof -
  have "fetching_task p item = Some task" using assms by simp
  then obtain again av where q: "bt_get (pn_pins p) item = Some (Fetching task again av)"
    by (auto simp: fetching_task_def split: option.splits pin.splits)
  have "bt_find (\<lambda>_ q. case q of Fetching t _ _ \<Rightarrow> t = task | _ \<Rightarrow> False) (pn_pins p) \<noteq> None"
    unfolding bt_find_None using q by force
  then obtain i q where found: "bt_find (\<lambda>_ q. case q of Fetching t _ _ \<Rightarrow> t = task | _ \<Rightarrow> False)
      (pn_pins p) = Some (i, q)"
    by auto
  then have "fetching_task p i = Some task"
    using bt_find_Some [OF found] by (cases q) (simp_all add: fetching_task_def)
  then have "i = item" using assms by simp
  then show ?thesis by (simp add: fetch_panicked_def found)
qed

text \<open>A task joined and its item cleared are gone together.\<close>

lemma fetch_ok_joined:
  assumes "fetch_ok p" and "(task, item) \<in> set (pn_tasks p)" and "cleared item (join_task task p) q"
  shows "fetch_ok q"
proof -
  have tasks: "pn_tasks q = filter (\<lambda>(t, _). t \<noteq> task) (pn_tasks p)"
    "pn_next_task q = pn_next_task p" "pn_max_fetches q = pn_max_fetches p"
    using assms(3) by (simp_all add: cleared_def same_tasks_def join_task_def)
  have ft: "fetching_task q = (fetching_task p)(item := None)"
    using assms(3) by (simp add: cleared_def join_task_def fetching_task_def fun_eq_iff)
  have "fetching_task q i = Some t \<longleftrightarrow> (t, i) \<in> set (pn_tasks q)" for i t
    using assms(1,2) unfolding ft tasks fetch_ok_def
    by (auto split: if_splits) (metis option.inject eq_key_imp_eq_value)+
  moreover have "distinct (map fst (pn_tasks q))"
    using assms(1) by (simp add: tasks fetch_ok_def distinct_map_filter)
  moreover have "length (pn_tasks q) \<le> pn_max_fetches q"
    using assms(1) length_filter_le le_trans unfolding tasks fetch_ok_def by blast
  ultimately show ?thesis
    using assms(1) by (auto simp: fetch_ok_def tasks)
qed

lemma quiet_fetch_ok: "quiet p q \<Longrightarrow> fetch_ok p \<Longrightarrow> fetch_ok q"
  by (simp add: quiet_def same_tasks_def fetch_ok_def)

section \<open>Who is fetched next\<close>

lemma queued_keys_set:
  "(k, i) \<in> set (queued_keys pins f) \<longleftrightarrow> (\<exists>t. k = (f i, t) \<and> bt_get pins i = Some (Queued t))"
  by (force simp: queued_keys_def map_filter_def bt_entries_iff [symmetric] split: pin.splits)

lemma queued_keys_distinct: "distinct (map snd (queued_keys pins f))"
proof -
  have "map snd (queued_keys pins f) =
      map fst (filter (\<lambda>(i, q). case q of Queued _ \<Rightarrow> True | _ \<Rightarrow> False) (bt_entries pins))"
    unfolding queued_keys_def by (induction "bt_entries pins" arbitrary: pins rule: list.induct)
      (auto simp: map_filter_def comp_def case_prod_unfold split: pin.splits)
  then show ?thesis by (simp add: distinct_map_filter)
qed

lemma next_to_fetch_picks:
  "distinct (next_to_fetch pins n f) \<and> length (next_to_fetch pins n f) \<le> n \<and>
   (\<forall>i \<in> set (next_to_fetch pins n f). \<exists>t. bt_get pins i = Some (Queued t))"
proof -
  let ?q = "queued_keys pins f"
  let ?picked = "if length ?q > n then take n (select_by (<) n ?q) else ?q"
  have "set ?picked \<subseteq> set ?q" by (auto dest: in_set_takeD)
  then have "\<forall>i \<in> set (map snd ?picked). \<exists>t. bt_get pins i = Some (Queued t)"
    using queued_keys_set [of _ _ pins f] by fastforce
  moreover have "distinct (map snd ?picked)"
  proof -
    have "mset (map snd (select_by (<) n ?q)) = mset (map snd ?q)" by (simp add: mset_select_by)
    then have "distinct (map snd (select_by (<) n ?q))"
      using queued_keys_distinct by (metis mset_eq_imp_distinct_iff)
    then show ?thesis using queued_keys_distinct [of pins f] by (simp add: take_map [symmetric])
  qed
  moreover have "length (map snd ?picked) \<le> n" by simp
  ultimately show ?thesis by (simp add: next_to_fetch_def Let_def)
qed

lemma spawn_fetches:
  assumes "distinct items" and "\<forall>i \<in> set items. \<exists>t. bt_get (pn_pins p) i = Some (Queued t)"
    and "fetch_ok p" and "turns_ok p" and "length (pn_tasks p) + length items \<le> pn_max_fetches p"
  shows "fetch_ok (fold spawn_fetch items p) \<and> turns_ok (fold spawn_fetch items p) \<and>
    pn_max_fetches (fold spawn_fetch items p) = pn_max_fetches p"
  using assms
proof (induction items arbitrary: p)
  case (Cons item items)
  let ?q = "spawn_fetch item p"
  have ft: "fetching_task ?q = (fetching_task p)(item := Some (pn_next_task p))"
    by (auto simp: fetching_task_def spawn_fetch_def set_pin_def fun_eq_iff)
  have idle: "fetching_task p item = None"
    using Cons.prems(2) by (auto simp: fetching_task_def)
  have fresh: "(t, i) \<in> set (pn_tasks p) \<Longrightarrow> t < pn_next_task p" for t i
    using Cons.prems(3) by (auto simp: fetch_ok_def)
  have "fetching_task ?q i = Some t \<longleftrightarrow> (t, i) \<in> set (pn_tasks ?q)" for i t
  proof (cases "i = item")
    case True
    have "(u, item) \<notin> set (pn_tasks p)" for u
      using Cons.prems(3) idle unfolding fetch_ok_def by (metis option.distinct(1))
    then show ?thesis unfolding ft using True by (auto simp: spawn_fetch_def)
  next
    case False
    then show ?thesis
      using Cons.prems(3) unfolding ft by (auto simp: fetch_ok_def spawn_fetch_def)
  qed
  then have "fetch_ok ?q"
    using Cons.prems(3,5) fresh
    by (auto simp: fetch_ok_def spawn_fetch_def less_SucI)
  moreover have "turns_ok ?q"
    using Cons.prems(4) by (auto simp: turns_ok_def spawn_fetch_def set_pin_def split: if_splits)
  moreover have "\<forall>i \<in> set items. \<exists>t. bt_get (pn_pins ?q) i = Some (Queued t)"
    using Cons.prems(1,2) by (auto simp: spawn_fetch_def set_pin_def)
  ultimately show ?case
    using Cons.IH [of ?q] Cons.prems(1,5) by (simp add: spawn_fetch_def set_pin_def)
qed simp

lemma start_fetches_ok:
  assumes "fetch_ok p" and "turns_ok p"
  shows "fetch_ok (start_fetches env p) \<and> turns_ok (start_fetches env p) \<and>
    pn_max_fetches (start_fetches env p) = pn_max_fetches p"
proof -
  let ?free = "pn_max_fetches p - length (pn_tasks p)"
  let ?items = "fewest_copies_first env ?free p"
  have "distinct ?items" "length ?items \<le> ?free"
    "\<forall>i \<in> set ?items. \<exists>t. bt_get (pn_pins p) i = Some (Queued t)"
    using next_to_fetch_picks [of "pn_pins p" ?free "live_copies env"]
    by (auto simp: fewest_copies_first_def)
  moreover have "length (pn_tasks p) \<le> pn_max_fetches p" using assms(1) by (simp add: fetch_ok_def)
  ultimately show ?thesis
    using spawn_fetches [of ?items p] assms by (simp add: start_fetches_def Let_def)
qed

lemma join_turns: "turns_ok p \<Longrightarrow> turns_ok (join_task task p)"
  by (simp add: turns_ok_def join_task_def)

lemma handle_ok:
  assumes "fetch_ok p" and "turns_ok p"
  shows "fetch_ok (handle env msg p) \<and> turns_ok (handle env msg p) \<and>
    pn_max_fetches (handle env msg p) = pn_max_fetches p"
proof -
  have still: "fetch_ok q \<and> turns_ok q \<and> pn_max_fetches q = pn_max_fetches p" if "quiet p q" for q
    using that assms quiet_fetch_ok by (auto simp: quiet_def same_tasks_def)
  have joined: "fetch_ok q \<and> turns_ok q \<and> pn_max_fetches q = pn_max_fetches p"
    if "(task, item) \<in> set (pn_tasks p)" "cleared item (join_task task p) q" for task item q
    using fetch_ok_joined [OF assms(1) that] join_turns [OF assms(2)] that(2)
    by (auto simp: cleared_def same_tasks_def join_task_def)
  have ft: "fetching_task (join_task task p) = fetching_task p" for task
    by (simp add: fun_eq_iff fetching_task_def join_task_def)
  show ?thesis
  proof (cases msg)
    case (FetchEnded task kept)
    show ?thesis
    proof (cases "List.find (\<lambda>(t, _). t = task) (pn_tasks p)")
      case (Some e)
      then obtain item where e: "e = (task, item)" "(task, item) \<in> set (pn_tasks p)"
        using find_Some_in by (metis (mono_tags, lifting) case_prodE)
      then have "fetching_task (join_task task p) item \<noteq> None"
        using assms(1) unfolding ft fetch_ok_def by (metis option.distinct(1))
      from joined [OF e(2) fetched_cleared [OF this]] show ?thesis
        using FetchEnded Some e(1) by simp
    qed (use FetchEnded assms in simp)
  next
    case (FetchPanicked task)
    show ?thesis
    proof (cases "List.find (\<lambda>(t, _). t = task) (pn_tasks p)")
      case (Some e)
      then obtain item where e: "e = (task, item)" "(task, item) \<in> set (pn_tasks p)"
        using find_Some_in by (metis (mono_tags, lifting) case_prodE)
      have "fetching_task (join_task task p) i = Some task \<longleftrightarrow> i = item" for i
        using assms(1) e(2) unfolding ft fetch_ok_def by (metis eq_key_imp_eq_value)
      from fetch_panicked_fails [OF this]
      have "cleared item (join_task task p) (fetch_panicked task (join_task task p))"
        using set_pin_cleared by simp
      from joined [OF e(2) this] show ?thesis using FetchPanicked Some by simp
    qed (use FetchPanicked assms in simp)
  next
    case CustodyRecomputed
    then show ?thesis using still [OF read_custody_again_quiet] by simp
  next
    case (CustodyItem item mine)
    then show ?thesis using still [OF want_quiet] still [OF lose_quiet] by simp
  next
    case LookAtAvailability
    then show ?thesis using still [OF availability_changed_quiet] by simp
  qed
qed

lemma pins_start_ok:
  "fetch_ok (pins_start env n bs) \<and> turns_ok (pins_start env n bs) \<and>
   pn_max_fetches (pins_start env n bs) = n"
proof -
  let ?p = "\<lparr>pn_pins = bt_collect (map (\<lambda>(item, _). (item, Kept)) (kept_tags Custody bs)),
    pn_next_turn = 0, pn_max_fetches = n, pn_tasks = [], pn_next_task = 0, pn_store = bs\<rparr>"
  have kept: "q = Kept" if "bt_get (pn_pins ?p) i = Some q" for i q
    using that by (auto simp: bt_get_collect dest!: map_of_SomeD)
  have "fetching_task ?p i = None" for i
    using kept [of i] by (cases "bt_get (pn_pins ?p) i") (simp_all add: fetching_task_def)
  moreover have "turns_ok ?p" using kept unfolding turns_ok_def by (metis pin.distinct)
  ultimately have p: "fetch_ok ?p" "turns_ok ?p" by (simp_all add: fetch_ok_def)
  then have "fetch_ok (read_custody_again env ?p)" "turns_ok (read_custody_again env ?p)"
    "pn_max_fetches (read_custody_again env ?p) = n"
    using quiet_fetch_ok [OF read_custody_again_quiet] read_custody_again_quiet [of ?p env]
    by (auto simp: quiet_def same_tasks_def)
  then show ?thesis
    using start_fetches_ok by (simp add: pins_start_def)
qed

lemma pins_reach_ok: "pins_reach n p \<Longrightarrow> fetch_ok p \<and> turns_ok p \<and> pn_max_fetches p = n"
proof (induction rule: pins_reach.induct)
  case (stepped p env msg)
  then show ?case
    using handle_ok [of p env msg] start_fetches_ok [of "handle env msg p" env]
    by (simp add: pin_step_def)
next
  case (store_changed p bs)
  then show ?case
    using quiet_fetch_ok [OF store_quiet] store_quiet [of p bs] by (simp add: quiet_def same_tasks_def)
qed (rule pins_start_ok)

text \<open>
  Throughout the pin manager's run, the items marked as being fetched are exactly those with a
  fetch under way, each with its own task, no more fetches run than are allowed, and no two queued
  items have the same turn.
\<close>

theorem fetches_match_pins:
  assumes "pins_reach n p"
  shows "(\<forall>i t. (\<exists>w a. bt_get (pn_pins p) i = Some (Fetching t w a)) \<longleftrightarrow> (t, i) \<in> set (pn_tasks p)) \<and>
    distinct (map fst (pn_tasks p)) \<and> length (pn_tasks p) \<le> n \<and>
    (\<forall>i j t. bt_get (pn_pins p) i = Some (Queued t) \<and> bt_get (pn_pins p) j = Some (Queued t) \<longrightarrow> i = j)"
proof -
  have "fetch_ok p \<and> turns_ok p \<and> pn_max_fetches p = n"
    by (rule pins_reach_ok [OF assms])
  moreover have "(\<exists>w a. bt_get (pn_pins p) i = Some (Fetching t w a)) \<longleftrightarrow> fetching_task p i = Some t" for i t
    by (auto simp: fetching_task_def split: option.splits pin.splits)
  ultimately show ?thesis
    by (auto simp: fetch_ok_def turns_ok_def)
qed

text \<open>
  As many of the queued items are fetched next as are asked for, or all of them, and no queued
  item left out has fewer live copies than one picked, nor as many and an earlier turn.
\<close>

theorem fewest_copies_go_first:
  "length (next_to_fetch pins n copies) = min n (card {i. \<exists>t. bt_get pins i = Some (Queued t)}) \<and>
   (\<forall>i \<in> set (next_to_fetch pins n copies). \<forall>j t u.
     bt_get pins i = Some (Queued t) \<and> bt_get pins j = Some (Queued u) \<and>
     j \<notin> set (next_to_fetch pins n copies) \<longrightarrow>
       copies i < copies j \<or> copies i = copies j \<and> t \<le> u)"
proof
  let ?q = "queued_keys pins copies"
  have "card (set (map snd ?q)) = length ?q"
    using distinct_card [OF queued_keys_distinct] by simp
  moreover have "set (map snd ?q) = {i. \<exists>t. bt_get pins i = Some (Queued t)}"
    using queued_keys_set [of _ _ pins copies] by force
  ultimately show "length (next_to_fetch pins n copies) =
      min n (card {i. \<exists>t. bt_get pins i = Some (Queued t)})"
    by (simp add: next_to_fetch_def Let_def min_def)
  show "\<forall>i \<in> set (next_to_fetch pins n copies). \<forall>j t u.
      bt_get pins i = Some (Queued t) \<and> bt_get pins j = Some (Queued u) \<and>
      j \<notin> set (next_to_fetch pins n copies) \<longrightarrow> copies i < copies j \<or> copies i = copies j \<and> t \<le> u"
  proof (intro ballI allI impI, elim conjE)
    fix i j t u
    assume i: "i \<in> set (next_to_fetch pins n copies)" "bt_get pins i = Some (Queued t)"
      and j: "bt_get pins j = Some (Queued u)" "j \<notin> set (next_to_fetch pins n copies)"
    have jq: "((copies j, u), j) \<in> set ?q" using j(1) queued_keys_set by fastforce
    then have many: "n < length ?q"
      using j(2) by (force simp: next_to_fetch_def Let_def)
    then have picked: "next_to_fetch pins n copies = map snd (take n (select_by (<) n ?q))"
      by (simp add: next_to_fetch_def Let_def)
    then obtain k where "(k, i) \<in> set (take n (select_by (<) n ?q))" using i(1) by auto
    moreover from this have "(k, i) \<in> set ?q" by (metis in_set_takeD set_select_by)
    then have "k = (copies i, t)" using i(2) queued_keys_set by fastforce
    moreover have "((copies j, u), j) \<in> set (drop n (select_by (<) n ?q))"
    proof -
      have "((copies j, u), j) \<in> set (take n (select_by (<) n ?q) @ drop n (select_by (<) n ?q))"
        using jq by simp
      moreover have "((copies j, u), j) \<notin> set (take n (select_by (<) n ?q))"
        using j(2) picked by force
      ultimately show ?thesis unfolding set_append by blast
    qed
    ultimately have "\<not> ((copies j, u), j) < ((copies i, t), i)"
      using select_by_parts [OF transp_asymp_less(1,2)] many by (metis less_imp_le)
    then show "copies i < copies j \<or> copies i = copies j \<and> t \<le> u"
      by (auto simp: not_less less_eq_prod_def)
  qed
qed

section \<open>Letting go of custody\<close>

definition safe_to_release :: "pin_env \<Rightarrow> item_id \<Rightarrow> bool" where
  "safe_to_release env i \<longleftrightarrow>
     \<not> pe_upgrade_required env \<and> (pe_holds env i \<longrightarrow> enough_copies_elsewhere env i)"

text \<open>
  From one store to the next, own and cache tags stay, and a custody tag goes only when that is
  safe, leaving a cache tag behind.
\<close>

definition tags_kept :: "pin_env \<Rightarrow> blob_store \<Rightarrow> blob_store \<Rightarrow> bool" where
  "tags_kept env bs bs' \<longleftrightarrow>
     (\<forall>r i b. (r, i, b) \<in> set (bs_tags bs) \<longrightarrow> (r, i, b) \<in> set (bs_tags bs') \<or>
        r = Custody \<and> safe_to_release env i \<and> (Cache, i, b) \<in> set (bs_tags bs'))"

lemma tags_kept_refl: "tags_kept env bs bs"
  by (simp add: tags_kept_def)

lemma tags_kept_trans: "tags_kept env a b \<Longrightarrow> tags_kept env b c \<Longrightarrow> tags_kept env a c"
  unfolding tags_kept_def by (metis keep_reason.distinct(5))

lemma move_to_cache_kept:
  assumes "safe_to_release env item" and "move_to_cache env item hashes bs = (res, bs')"
  shows "tags_kept env bs bs'"
  using assms(2)
proof (induction hashes arbitrary: bs)
  case (Cons hash hashes)
  let ?bs1 = "blobs_keep Cache item hash bs" and ?bs2 = "blobs_release Custody item hash (blobs_keep Cache item hash bs)"
  have "tags_kept env bs ?bs1" "tags_kept env bs ?bs2"
    using assms(1) by (auto simp: tags_kept_def blobs_keep_def blobs_release_def)
  then show ?case
    using Cons.prems Cons.IH [of ?bs2] tags_kept_refl tags_kept_trans
    by (auto simp: Let_def split: if_splits)
qed (simp add: tags_kept_refl)

lemma keeper_release_kept:
  assumes "safe_to_release env item" and "keeper_release env item bs = (res, bs')"
  shows "tags_kept env bs bs'"
proof -
  obtain r bs1 where m: "move_to_cache env item (kept_for Custody item bs) bs = (r, bs1)" by fastforce
  with assms(2) have "bs' = bs1"
    by (cases r) (auto simp: keeper_release_def split: if_splits)
  with move_to_cache_kept [OF assms(1) m] show ?thesis by simp
qed

lemma store_fold:
  "(\<And>x q. tags_kept env (pn_store q) (pn_store (f x q))) \<Longrightarrow>
   tags_kept env (pn_store p) (pn_store (fold f xs p))"
proof (induction xs arbitrary: p)
  case (Cons x xs)
  have "tags_kept env (pn_store p) (pn_store (f x p))" by (rule Cons.prems)
  from tags_kept_trans [OF this Cons.IH [OF Cons.prems]] show ?case by simp
qed (simp add: tags_kept_refl)

lemma store_same [simp]:
  "pn_store (enqueue item p) = pn_store p"
  "pn_store (want item p) = pn_store p"
  "pn_store (spawn_fetch item p) = pn_store p"
  "pn_store (join_task task p) = pn_store p"
  "pn_store (fetch_panicked task p) = pn_store p"
  by (simp_all add: enqueue_def want_def spawn_fetch_def join_task_def fetch_panicked_def
      split: option.split)

lemma store_fold_same: "(\<And>x q. pn_store (f x q) = pn_store q) \<Longrightarrow> pn_store (fold f xs p) = pn_store p"
  by (induction xs arbitrary: p) simp_all

lemma ask_again_store [simp]: "pn_store (ask_again_for_room env p) = pn_store p"
  unfolding ask_again_for_room_def by (rule store_fold_same) simp

lemma start_fetches_store [simp]: "pn_store (start_fetches env p) = pn_store p"
  by (simp add: start_fetches_def Let_def store_fold_same)

lemma release_if_safe_kept: "tags_kept env (pn_store p) (pn_store (release_if_safe env item p))"
proof (cases "safe_to_release env item")
  case True
  obtain r bs where k: "keeper_release env item (pn_store p) = (r, bs)" by fastforce
  from keeper_release_kept [OF True k] show ?thesis
    using True k by (auto simp: release_if_safe_def safe_to_release_def split: sum.split)
next
  case False
  then show ?thesis
    by (auto simp: release_if_safe_def safe_to_release_def tags_kept_refl)
qed

lemma lose_kept: "tags_kept env (pn_store p) (pn_store (lose env item p))"
  by (simp add: lose_def tags_kept_refl release_if_safe_kept split: option.split pin.split)

lemma read_custody_again_kept: "tags_kept env (pn_store p) (pn_store (read_custody_again env p))"
proof (cases "pe_my_items env")
  case (Some mine)
  let ?f = "\<lambda>item p. if needs_keeping env item (bt_get (pn_pins p) item) then want item p else p"
  have "pn_store (fold ?f mine p) = pn_store p"
    by (rule store_fold_same) simp
  then show ?thesis
    using Some store_fold [of env "lose env" "fold ?f mine p", OF lose_kept]
    by (simp add: read_custody_again_def Let_def)
qed (simp add: read_custody_again_def tags_kept_refl)

lemma availability_changed_kept: "tags_kept env (pn_store p) (pn_store (availability_changed env p))"
proof -
  obtain p1 rs where f: "fold look_at_pin (walk env p) (p, []) = (p1, rs)" by fastforce
  have "pn_store (fst (fold look_at_pin items st)) = pn_store (fst st)" for items st
  proof (induction items arbitrary: st)
    case (Cons item items)
    have "pn_store (fst (look_at_pin item st)) = pn_store (fst st)"
      by (cases st) (simp add: look_at_pin_def split: option.split pin.split)
    with Cons show ?case by simp
  qed simp
  from this [of "walk env p" "(p, [])"] f have "pn_store p1 = pn_store p" by simp
  then show ?thesis
    using store_fold [of env "release_if_safe env" p1 rs, OF release_if_safe_kept]
    by (simp add: availability_changed_def f)
qed

lemma fetched_kept: "tags_kept env (pn_store p) (pn_store (fetched env item kept p))"
  using release_if_safe_kept [of env p item]
  by (auto simp: fetched_def tags_kept_refl split: option.split pin.split sum.split keep_error.split)


section \<open>A fetch that panics\<close>

lemma spawn_keeps:
  "i \<notin> set items \<Longrightarrow> bt_get (pn_pins (fold spawn_fetch items p)) i = bt_get (pn_pins p) i"
  by (induction items arbitrary: p) (auto simp: spawn_fetch_def set_pin_def)

lemma start_fetches_keeps:
  assumes "\<forall>t. bt_get (pn_pins p) i \<noteq> Some (Queued t)"
  shows "bt_get (pn_pins (start_fetches env p)) i = bt_get (pn_pins p) i"
proof -
  have "i \<notin> set (fewest_copies_first env n p)" for n
    using assms next_to_fetch_picks [of "pn_pins p" n "live_copies env"]
    by (auto simp: fewest_copies_first_def)
  then show ?thesis by (simp add: start_fetches_def Let_def spawn_keeps)
qed

text \<open>
  An item that changed while it was being fetched is not fetched again when that fetch
  panics: what happened meanwhile is forgotten with it, and the item waits as failed for the next
  change of availability.
\<close>

theorem panicked_fetch_is_not_wanted_again:
  assumes "pins_reach n p" and "bt_get (pn_pins p) i = Some (Fetching task True av)"
  shows "bt_get (pn_pins (pin_step env (FetchPanicked task) p)) i = Some Failed \<and>
    (task, i) \<notin> set (pn_tasks (handle env (FetchPanicked task) p))"
proof -
  have ok: "fetch_ok p" using pins_reach_ok [OF assms(1)] by simp
  have "fetching_task p i = Some task" using assms(2) by (simp add: fetching_task_def)
  then have running: "(task, i) \<in> set (pn_tasks p)" using ok by (simp add: fetch_ok_def)
  have "fetching_task (join_task task p) j = Some task \<longleftrightarrow> j = i" for j
  proof -
    have "fetching_task (join_task task p) j = fetching_task p j"
      by (simp add: fetching_task_def join_task_def)
    then show ?thesis using ok running unfolding fetch_ok_def by (metis eq_key_imp_eq_value)
  qed
  from fetch_panicked_fails [OF this]
  have failed: "fetch_panicked task (join_task task p) = set_pin i Failed (join_task task p)" .
  obtain e where "List.find (\<lambda>(t, _). t = task) (pn_tasks p) = Some e"
    using running find_None_iff_all [of "\<lambda>(t, _). t = task" "pn_tasks p"]
    by (cases "List.find (\<lambda>(t, _). t = task) (pn_tasks p)") auto
  then have handled: "handle env (FetchPanicked task) p = set_pin i Failed (join_task task p)"
    by (simp add: failed)
  then have "bt_get (pn_pins (handle env (FetchPanicked task) p)) i = Some Failed"
    by (simp add: set_pin_def)
  with start_fetches_keeps [of "handle env (FetchPanicked task) p" i env] handled
  show ?thesis by (simp add: pin_step_def join_task_def)
qed

section \<open>A small node\<close>

text \<open>
  Item 1 in custody and held, with copies at members 2 and 3; item 2 wanted, not here yet. Two
  fetches at most.
\<close>

definition demo_pin_store :: blob_store where
  "demo_pin_store =
     \<lparr>bs_tags = [(Custody, ItemId 1, ContentHash 1)], bs_status = \<lambda>_. Complete 10,
      bs_held = bts_of [ItemId 1]\<rparr>"

definition demo_pin_env :: pin_env where
  "demo_pin_env =
     \<lparr>pe_me = MemberId 1, pe_my_items = Some [ItemId 1, ItemId 2], pe_keeps = \<lambda>_. True,
      pe_holds = \<lambda>i. i = ItemId 1, pe_real_holders = \<lambda>_. [MemberId 2, MemberId 3],
      pe_online = [MemberId 2, MemberId 3], pe_knows_holdings_of = \<lambda>_. True, pe_replicas = 2,
      pe_upgrade_required = False, pe_order = \<lambda>xs. xs, pe_keep_fails = \<lambda>_ _. False,
      pe_release_fails = \<lambda>_ _. False, pe_mark_used_fails = \<lambda>_. False\<rparr>"

definition demo_pins :: pins where
  "demo_pins = pin_step demo_pin_env (CustodyItem (ItemId 2) True) (pins_start demo_pin_env 2 demo_pin_store)"

lemma demo_pins_reached: "pins_reach 2 demo_pins"
  unfolding demo_pins_def by (intro stepped started)

lemma demo_pins_fetching: "bt_get (pn_pins demo_pins) (ItemId 2) = Some (Fetching 0 True False)"
  by code_simp

lemma demo_let_go:
  "(Custody, ItemId 1, ContentHash 1) \<in> set (bs_tags (pn_store demo_pins))"
  "(Custody, ItemId 1, ContentHash 1) \<notin>
     set (bs_tags (pn_store (pin_step demo_pin_env (CustodyItem (ItemId 1) False) demo_pins)))"
  by code_simp+

theorem fetches_match_pins_witness: "length (pn_tasks demo_pins) \<le> 2 \<and> (0, ItemId 2) \<in> set (pn_tasks demo_pins)"
  using fetches_match_pins [OF demo_pins_reached] demo_pins_fetching by blast

theorem fewest_copies_go_first_witness:
  "let pins = bt_insert (ItemId 1) (Queued 4) (bt_insert (ItemId 2) (Queued 3) bt_empty);
       picked = next_to_fetch pins 1 (\<lambda>_. 1)
   in length picked = 1 \<and> (ItemId 1 \<notin> set picked)"
proof -
  let ?pins = "bt_insert (ItemId 1) (Queued 4) (bt_insert (ItemId 2) (Queued 3) bt_empty)"
  let ?picked = "next_to_fetch ?pins 1 (\<lambda>_. 1)"
  have "{i. \<exists>t. bt_get ?pins i = Some (Queued t)} = {ItemId 1, ItemId 2}" by auto
  then have one: "length ?picked = 1"
    using fewest_copies_go_first [of ?pins 1 "\<lambda>_. 1"] by simp
  have "ItemId 1 \<notin> set ?picked"
  proof
    assume first: "ItemId 1 \<in> set ?picked"
    with one have "ItemId 2 \<notin> set ?picked" by (cases ?picked) auto
    with fewest_copies_go_first [of ?pins 1 "\<lambda>_. 1", THEN conjunct2, rule_format, OF first,
        of 4 "ItemId 2" 3]
    show False by simp
  qed
  with one show ?thesis by (simp add: Let_def)
qed


theorem panicked_fetch_is_not_wanted_again_witness:
  "bt_get (pn_pins (pin_step demo_pin_env (FetchPanicked 0) demo_pins)) (ItemId 2) = Some Failed"
  using panicked_fetch_is_not_wanted_again [OF demo_pins_reached demo_pins_fetching] by blast

end
