(* ===== verification/Raft_Log.thy ===== *)
theory Raft_Log
  imports Membership_Log
begin

text \<open>
  What Raft keeps on disk: the transactions of \<open>distlib-consensus/src/raft/db.rs\<close> and the log of
  \<open>log_store.rs\<close>, with the types openraft is given in \<open>types.rs\<close> and the raw identifiers of
  \<open>id.rs\<close>. A transaction is a function on the tables that takes effect as a whole or not at all;
  whether the disk reads and commits during a call is an argument of the call. Values are kept as
  they are, since nothing but this code writes them; only the length an entry has as stored matters,
  which is an argument.

  The log is a range of entries without a hole, whatever order openraft appends, truncates and
  purges in within its contract, and pages of its events read one after another give every event of
  the range once.
\<close>

section \<open>Raw identifiers\<close>

datatype raw_member_id = RawMemberId (raw_bytes: "256 word")

instantiation raw_member_id :: linorder
begin

definition less_eq_raw_member_id :: "raw_member_id \<Rightarrow> raw_member_id \<Rightarrow> bool" where
  "less_eq_raw_member_id a b \<longleftrightarrow> raw_bytes a \<le> raw_bytes b"

definition less_raw_member_id :: "raw_member_id \<Rightarrow> raw_member_id \<Rightarrow> bool" where
  "less_raw_member_id a b \<longleftrightarrow> raw_bytes a < raw_bytes b"

instance
  by standard
    (auto simp: less_eq_raw_member_id_def less_raw_member_id_def raw_member_id.expand)

end

definition raw_of :: "member_id \<Rightarrow> raw_member_id" where
  "raw_of m = RawMemberId (member_bytes m)"

text \<open>Whether 32 bytes are a point of the curve is for the library of ed25519 to say.\<close>

definition member_of_raw :: "(256 word \<Rightarrow> bool) \<Rightarrow> raw_member_id \<Rightarrow> member_id option" where
  "member_of_raw on_curve raw =
     (if on_curve (raw_bytes raw) then Some (MemberId (raw_bytes raw)) else None)"

lemma raw_of_inj [simp]: "raw_of a = raw_of b \<longleftrightarrow> a = b"
  by (cases a; cases b) (simp add: raw_of_def)

lemma raw_of_less [simp]: "raw_of a < raw_of b \<longleftrightarrow> a < b"
  by (simp add: raw_of_def less_raw_member_id_def less_member_id_def)

lemma member_of_raw_of:
  "on_curve (member_bytes m) \<Longrightarrow> member_of_raw on_curve (raw_of m) = Some m"
  by (simp add: member_of_raw_def raw_of_def)

section \<open>Transactions\<close>

datatype error_subject = StoreSubject | LogsSubject | VoteSubject | StateMachineSubject | SnapshotSubject
datatype error_verb = Reading | Writing
datatype failing = DiskFailed | Undecodable string | Unencodable | PoisonedLock
datatype raft_error = RaftStorageError error_subject error_verb failing

text \<open>
  What the disk does during one call: whether its reads succeed, and whether its transaction begins,
  writes and commits.
\<close>

record disk =
  disk_reads :: bool
  disk_writes :: bool

definition good_disk :: disk where
  "good_disk = \<lparr>disk_reads = True, disk_writes = True\<rparr>"

definition write_txn ::
    "disk \<Rightarrow> error_subject \<Rightarrow> ('d \<Rightarrow> raft_error + 'd) \<Rightarrow> 'd \<Rightarrow> (raft_error, 'd) outcome" where
  "write_txn disk subj f db =
     (if \<not> disk_writes disk then refused (RaftStorageError subj Writing DiskFailed) db
      else case f db of
        Inl e \<Rightarrow> refused e db
      | Inr db' \<Rightarrow> done_with db')"

definition read_key ::
    "disk \<Rightarrow> error_subject \<Rightarrow> string \<Rightarrow> ('b \<Rightarrow> 'v option) \<Rightarrow> 'b option \<Rightarrow> raft_error + 'v option" where
  "read_key disk subj key decode value =
     (if \<not> disk_reads disk then Inl (RaftStorageError subj Reading DiskFailed)
      else case value of
        None \<Rightarrow> Inr None
      | Some bytes \<Rightarrow>
          (case decode bytes of
             None \<Rightarrow> Inl (RaftStorageError subj Reading (Undecodable key))
           | Some v \<Rightarrow> Inr (Some v)))"

text \<open>A transaction either did all it was to do, or nothing.\<close>

lemma write_txn_cases:
  "write_txn disk subj f db = (verdict, db') \<Longrightarrow>
     (verdict = Inr () \<and> f db = Inr db') \<or> (\<exists>e. verdict = Inl e \<and> db' = db)"
  by (auto simp: write_txn_def split: if_splits sum.splits)

lemma write_txn_good [simp]:
  "write_txn good_disk subj f db = (case f db of Inl e \<Rightarrow> refused e db | Inr db' \<Rightarrow> done_with db')"
  by (simp add: write_txn_def good_disk_def)

lemma read_key_good [simp]:
  "read_key good_disk subj key decode value =
     (case value of None \<Rightarrow> Inr None
      | Some bytes \<Rightarrow> (case decode bytes of
          None \<Rightarrow> Inl (RaftStorageError subj Reading (Undecodable key)) | Some v \<Rightarrow> Inr (Some v)))"
  by (simp add: read_key_def good_disk_def)

section \<open>Entries\<close>

text \<open>openraft's log identifier: the leader that wrote the entry, by term and node, and its index.\<close>

record leader_id =
  leader_term :: u64
  leader_node :: raw_member_id

record log_id =
  log_leader :: leader_id
  log_index :: u64

datatype ('sig, 'm) entry_payload =
    Blank
  | Normal "'sig signed_event"
  | MembershipChange 'm

record ('sig, 'm) raft_entry =
  entry_id :: log_id
  entry_payload :: "('sig, 'm) entry_payload"

abbreviation entry_index :: "('sig, 'm) raft_entry \<Rightarrow> u64" where
  "entry_index e \<equiv> log_index (entry_id e)"

section \<open>The log\<close>

record ('sig, 'm, 'vote) log_store =
  ls_log :: "(u64, ('sig, 'm) raft_entry) btmap"
  ls_vote :: "'vote option"
  ls_committed :: "log_id option option"
  ls_purged :: "log_id option option"

definition log_new :: "('sig, 'm, 'vote) log_store" where
  "log_new = \<lparr>ls_log = bt_empty, ls_vote = None, ls_committed = None, ls_purged = None\<rparr>"

record 'sig log_page =
  lp_events :: "(u64 \<times> 'sig signed_event) list"
  lp_cut_short :: bool

text \<open>The rows of an inclusive range of indexes, in order.\<close>

definition rows_between ::
    "('sig, 'm, 'vote) log_store \<Rightarrow> u64 \<Rightarrow> u64 \<Rightarrow> (u64 \<times> ('sig, 'm) raft_entry) list" where
  "rows_between s from to = filter (\<lambda>(i, _). from \<le> i \<and> i \<le> to) (bt_entries (ls_log s))"

text \<open>
  The loop of \<open>events_after\<close>: what the page holds so far, the bytes counted, and the rows left.
\<close>

fun page_of ::
    "(('sig, 'm) raft_entry \<Rightarrow> nat) \<Rightarrow> nat \<Rightarrow> nat \<Rightarrow> (u64 \<times> 'sig signed_event) list \<Rightarrow> nat
      \<Rightarrow> (u64 \<times> ('sig, 'm) raft_entry) list \<Rightarrow> 'sig log_page" where
  "page_of size_of at_most at_most_bytes evs bytes [] = \<lparr>lp_events = evs, lp_cut_short = False\<rparr>"
| "page_of size_of at_most at_most_bytes evs bytes ((i, e) # rows) =
     (case entry_payload e of
        Normal event \<Rightarrow>
          (let bytes' = bytes + size_of e
           in if length evs = at_most \<or> (evs \<noteq> [] \<and> at_most_bytes < bytes')
              then \<lparr>lp_events = evs, lp_cut_short = True\<rparr>
              else page_of size_of at_most at_most_bytes (evs @ [(i, event)]) bytes' rows)
      | _ \<Rightarrow> page_of size_of at_most at_most_bytes evs bytes rows)"

definition events_after ::
    "(('sig, 'm) raft_entry \<Rightarrow> nat) \<Rightarrow> disk \<Rightarrow> ('sig, 'm, 'vote) log_store \<Rightarrow> u64 \<Rightarrow> u64 \<Rightarrow> nat \<Rightarrow> nat
      \<Rightarrow> raft_error + 'sig log_page" where
  "events_after size_of disk s after up_to at_most at_most_bytes =
     (if \<not> disk_reads disk then Inl (RaftStorageError LogsSubject Reading DiskFailed)
      else Inr (page_of size_of at_most at_most_bytes [] 0 (rows_between s (sat_add after 1) up_to)))"

definition last_log_id :: "('sig, 'm, 'vote) log_store \<Rightarrow> log_id option" where
  "last_log_id s =
     (let es = bt_entries (ls_log s) in if es = [] then None else Some (entry_id (snd (last es))))"

definition try_get_log_entries ::
    "disk \<Rightarrow> ('sig, 'm, 'vote) log_store \<Rightarrow> u64 \<Rightarrow> u64 \<Rightarrow> raft_error + ('sig, 'm) raft_entry list" where
  "try_get_log_entries disk s from to =
     (if \<not> disk_reads disk then Inl (RaftStorageError LogsSubject Reading DiskFailed)
      else Inr (map snd (rows_between s from to)))"

record log_state =
  lst_purged :: "log_id option"
  lst_last :: "log_id option"

definition get_log_state :: "disk \<Rightarrow> ('sig, 'm, 'vote) log_store \<Rightarrow> raft_error + log_state" where
  "get_log_state disk s =
     (case read_key disk LogsSubject ''last_purged'' Some (ls_purged s) of
        Inl e \<Rightarrow> Inl e
      | Inr stored \<Rightarrow>
          (let purged = Option.bind stored id
           in Inr \<lparr>lst_purged = purged,
                lst_last = (case last_log_id s of Some l \<Rightarrow> Some l | None \<Rightarrow> purged)\<rparr>))"

definition save_vote ::
    "disk \<Rightarrow> 'vote \<Rightarrow> ('sig, 'm, 'vote) log_store \<Rightarrow> (raft_error, ('sig, 'm, 'vote) log_store) outcome" where
  "save_vote disk vote = write_txn disk VoteSubject (\<lambda>s. Inr (s\<lparr>ls_vote := Some vote\<rparr>))"

definition read_vote :: "disk \<Rightarrow> ('sig, 'm, 'vote) log_store \<Rightarrow> raft_error + 'vote option" where
  "read_vote disk s = read_key disk VoteSubject ''vote'' Some (ls_vote s)"

definition save_committed ::
    "disk \<Rightarrow> log_id option \<Rightarrow> ('sig, 'm, 'vote) log_store
      \<Rightarrow> (raft_error, ('sig, 'm, 'vote) log_store) outcome" where
  "save_committed disk committed =
     write_txn disk LogsSubject (\<lambda>s. Inr (s\<lparr>ls_committed := Some committed\<rparr>))"

definition read_committed :: "disk \<Rightarrow> ('sig, 'm, 'vote) log_store \<Rightarrow> raft_error + log_id option" where
  "read_committed disk s =
     (case read_key disk LogsSubject ''committed'' Some (ls_committed s) of
        Inl e \<Rightarrow> Inl e
      | Inr stored \<Rightarrow> Inr (Option.bind stored id))"

text \<open>The callback that tells openraft the entries are on disk fires exactly on success.\<close>

definition log_append ::
    "disk \<Rightarrow> ('sig, 'm) raft_entry list \<Rightarrow> ('sig, 'm, 'vote) log_store
      \<Rightarrow> (raft_error, ('sig, 'm, 'vote) log_store) outcome" where
  "log_append disk entries =
     write_txn disk LogsSubject
       (\<lambda>s. Inr (s\<lparr>ls_log := fold (\<lambda>e. bt_insert (entry_index e) e) entries (ls_log s)\<rparr>))"

definition log_truncate ::
    "disk \<Rightarrow> log_id \<Rightarrow> ('sig, 'm, 'vote) log_store
      \<Rightarrow> (raft_error, ('sig, 'm, 'vote) log_store) outcome" where
  "log_truncate disk from =
     write_txn disk LogsSubject
       (\<lambda>s. Inr (s\<lparr>ls_log := bt_retain (\<lambda>i _. \<not> log_index from \<le> i) (ls_log s)\<rparr>))"

definition log_purge ::
    "disk \<Rightarrow> log_id \<Rightarrow> ('sig, 'm, 'vote) log_store
      \<Rightarrow> (raft_error, ('sig, 'm, 'vote) log_store) outcome" where
  "log_purge disk through =
     write_txn disk LogsSubject
       (\<lambda>s. Inr (s\<lparr>ls_log := bt_retain (\<lambda>i _. \<not> i \<le> log_index through) (ls_log s),
                    ls_purged := Some (Some through)\<rparr>))"

section \<open>Pages of events\<close>

text \<open>The membership events among some rows, each with its index.\<close>

definition events_among :: "(u64 \<times> ('sig, 'm) raft_entry) list \<Rightarrow> (u64 \<times> 'sig signed_event) list" where
  "events_among rows =
     List.map_filter
       (\<lambda>(i, e). case entry_payload e of Normal event \<Rightarrow> Some (i, event) | _ \<Rightarrow> None) rows"

abbreviation events_between ::
    "('sig, 'm, 'vote) log_store \<Rightarrow> u64 \<Rightarrow> u64 \<Rightarrow> (u64 \<times> 'sig signed_event) list" where
  "events_between s from to \<equiv> events_among (rows_between s from to)"

lemma events_among_simps [simp]:
  "events_among [] = []"
  "events_among (r # rows) =
     (case entry_payload (snd r) of Normal event \<Rightarrow> (fst r, event) # events_among rows
      | _ \<Rightarrow> events_among rows)"
  by (auto simp: events_among_def map_filter_simps split: entry_payload.splits prod.splits)

lemma events_among_append [simp]: "events_among (xs @ ys) = events_among xs @ events_among ys"
  by (induction xs) (auto split: entry_payload.splits)

lemma events_among_rows: "set (map fst (events_among rows)) \<subseteq> set (map fst rows)"
  by (induction rows) (auto split: entry_payload.splits)

lemma events_among_sorted:
  "sorted_wrt (<) (map fst rows) \<Longrightarrow> sorted_wrt (<) (map fst (events_among rows))"
proof (induction rows)
  case (Cons r rows)
  have "\<forall>i \<in> set (map fst (events_among rows)). fst r < i"
    using Cons.prems events_among_rows [of rows] by (auto dest!: subsetD)
  with Cons show ?case by (auto split: entry_payload.splits)
qed simp

lemma events_among_filter:
  "events_among (filter (\<lambda>(i, _). P i) rows) = filter (\<lambda>(i, _). P i) (events_among rows)"
  by (induction rows) (auto split: entry_payload.splits)

text \<open>
  A page holds the first events of its rows: all of them, unless it says it was cut short. One event
  at least fits, so a page that was cut short is not empty.
\<close>

lemma page_of_takes:
  assumes "page_of size_of at_most at_most_bytes evs bytes rows = page" and "length evs \<le> at_most"
  shows "\<exists>n. lp_events page = evs @ take n (events_among rows)
    \<and> length (lp_events page) \<le> at_most
    \<and> (lp_cut_short page \<longleftrightarrow> n < length (events_among rows))
    \<and> (lp_cut_short page \<longrightarrow> 0 < at_most \<longrightarrow> lp_events page \<noteq> [])"
  using assms
proof (induction rows arbitrary: evs bytes)
  case Nil
  then show ?case by (auto intro!: exI [of _ 0])
next
  case (Cons r rows)
  obtain i e where r: "r = (i, e)" by (cases r)
  show ?case
  proof (cases "entry_payload e")
    case (Normal event)
    let ?bytes = "bytes + size_of e"
    show ?thesis
    proof (cases "length evs = at_most \<or> (evs \<noteq> [] \<and> at_most_bytes < ?bytes)")
      case True
      then show ?thesis
        using Cons.prems by (intro exI [of _ 0]) (auto simp: r Normal Let_def)
    next
      case False
      then have "page_of size_of at_most at_most_bytes (evs @ [(i, event)]) ?bytes rows = page"
        and "length (evs @ [(i, event)]) \<le> at_most"
        using Cons.prems by (auto simp: r Normal Let_def)
      from Cons.IH [OF this] obtain n where
        "lp_events page = (evs @ [(i, event)]) @ take n (events_among rows)"
        "length (lp_events page) \<le> at_most"
        "lp_cut_short page \<longleftrightarrow> n < length (events_among rows)"
        by blast
      then show ?thesis by (intro exI [of _ "Suc n"]) (simp add: r Normal)
    qed
  next
    case Blank
    then show ?thesis using Cons.IH [of evs bytes] Cons.prems by (simp add: r)
  next
    case (MembershipChange m)
    then show ?thesis using Cons.IH [of evs bytes] Cons.prems by (simp add: r)
  qed
qed

lemma rows_between_sorted [simp]: "sorted_wrt (<) (map fst (rows_between s a b))"
  unfolding rows_between_def by (rule sorted_filter_entries) simp

lemma rows_between_iff:
  "(i, e) \<in> set (rows_between s a b) \<longleftrightarrow> bt_get (ls_log s) i = Some e \<and> a \<le> i \<and> i \<le> b"
  by (auto simp: rows_between_def bt_entries_iff)

text \<open>
  Where a page ends is where the next one begins: the events up to the last one served and those
  after it are all of them.
\<close>

lemma filter_split_sorted:
  fixes xs :: "('k::linorder \<times> 'v) list"
  assumes "sorted_wrt (<) (map fst (xs @ ys))" and "xs \<noteq> []"
  shows "filter (\<lambda>(i, _). fst (last xs) < i) (xs @ ys) = ys"
proof -
  have "i \<le> fst (last xs)" if "(i, v) \<in> set xs" for i v
  proof -
    obtain zs z where z: "xs = zs @ [z]" using assms(2) by (cases xs rule: rev_cases) auto
    with that assms(1) show ?thesis by (force simp: sorted_wrt_append)
  qed
  then have "filter (\<lambda>(i, _). fst (last xs) < i) xs = []"
    by (fastforce simp: filter_empty_conv)
  moreover have "fst (last xs) < i" if "(i, v) \<in> set ys" for i v
    using assms that by (fastforce simp: sorted_wrt_append)
  then have "filter (\<lambda>(i, _). fst (last xs) < i) ys = ys"
    by (intro filter_True) auto
  ultimately show ?thesis by simp
qed

lemma sat_add_1_le:
  fixes a i :: u64
  assumes "a < b"
  shows "sat_add a 1 \<le> i \<longleftrightarrow> a < i"
proof -
  have "unat a < unat b" using assms by (simp add: word_less_nat_alt)
  moreover have "unat b < 2 ^ 64" using unsigned_less [where 'a = nat, of b] by simp
  ultimately have "unat (sat_add a 1) = Suc (unat a)" by (simp add: unat_sat_add)
  then show ?thesis
    by (simp add: word_le_nat_alt word_less_nat_alt Suc_le_eq)
qed

section \<open>The contract of openraft, and the log without a hole\<close>

text \<open>The index the next entry has: one past the last entry, or past what was purged.\<close>

definition log_purged :: "('sig, 'm, 'vote) log_store \<Rightarrow> log_id option" where
  "log_purged s = Option.bind (ls_purged s) id"

definition first_index :: "('sig, 'm, 'vote) log_store \<Rightarrow> nat" where
  "first_index s = (case log_purged s of None \<Rightarrow> 0 | Some p \<Rightarrow> Suc (unat (log_index p)))"

definition next_index :: "('sig, 'm, 'vote) log_store \<Rightarrow> nat" where
  "next_index s =
     (case last_log_id s of Some l \<Rightarrow> Suc (unat (log_index l)) | None \<Rightarrow> first_index s)"

text \<open>
  What openraft may do: it appends entries with consecutive indexes from the next one on, truncates
  from any entry on, and purges from the start, never less than it has purged. A disk may fail at
  every step.
\<close>

inductive log_reach :: "('sig, 'm, 'vote) log_store \<Rightarrow> bool" where
  opened: "log_reach log_new"
| append: "log_reach s \<Longrightarrow>
    map (\<lambda>e. unat (entry_index e)) es = [next_index s..<next_index s + length es] \<Longrightarrow>
    log_append disk es s = (verdict, t) \<Longrightarrow> log_reach t"
| truncate: "log_reach s \<Longrightarrow> log_truncate disk l s = (verdict, t) \<Longrightarrow> log_reach t"
| purge: "log_reach s \<Longrightarrow> first_index s \<le> Suc (unat (log_index l)) \<Longrightarrow>
    log_purge disk l s = (verdict, t) \<Longrightarrow> log_reach t"
| vote: "log_reach s \<Longrightarrow> save_vote disk v s = (verdict, t) \<Longrightarrow> log_reach t"
| committed: "log_reach s \<Longrightarrow> save_committed disk c s = (verdict, t) \<Longrightarrow> log_reach t"

definition log_ok :: "('sig, 'm, 'vote) log_store \<Rightarrow> bool" where
  "log_ok s \<longleftrightarrow>
     (\<forall>i e. bt_get (ls_log s) i = Some e \<longrightarrow> entry_index e = i) \<and>
     first_index s \<le> next_index s \<and>
     unat ` dom (bt_get (ls_log s)) = {first_index s..<next_index s}"

lemma last_log_id_cases:
  obtains (empty) "ls_log s = bt_empty" and "last_log_id s = None"
  | (last) i e where "last_log_id s = Some (entry_id e)" and "bt_get (ls_log s) i = Some e"
      and "\<And>j. j \<in> dom (bt_get (ls_log s)) \<Longrightarrow> j \<le> i"
proof (cases "bt_entries (ls_log s)" rule: rev_cases)
  case Nil
  then have "ls_log s = bt_empty" by (intro bt_ext) (simp add: bt_get.rep_eq bt_empty.rep_eq)
  with Nil show ?thesis by (intro empty) (simp_all add: last_log_id_def)
next
  case (snoc es r)
  obtain i e where r: "r = (i, e)" by (cases r)
  have sorted: "sorted_wrt (<) (map fst (es @ [(i, e)]))"
    using bt_entries_sorted [of "ls_log s"] by (simp add: snoc r)
  have "j \<le> i" if "j \<in> dom (bt_get (ls_log s))" for j
    using that sorted by (force simp: snoc r sorted_wrt_append simp flip: bt_entries_iff)
  moreover have "bt_get (ls_log s) i = Some e"
    by (simp add: snoc r flip: bt_entries_iff)
  moreover have "last_log_id s = Some (entry_id e)"
    by (simp add: last_log_id_def snoc r)
  ultimately show ?thesis by (intro last)
qed

text \<open>When the keys are a range that starts where it must, the next index is its end.\<close>

lemma next_index_of_range:
  assumes "\<forall>i e. bt_get (ls_log s) i = Some e \<longrightarrow> entry_index e = i"
    and "unat ` dom (bt_get (ls_log s)) = {first_index s..<hi}" and "first_index s \<le> hi"
  shows "next_index s = hi"
proof (cases s rule: last_log_id_cases)
  case empty
  then have "{first_index s..<hi} = {}" using assms(2) by simp
  with empty assms(3) show ?thesis by (simp add: next_index_def)
next
  case (last i e)
  have "unat i \<in> unat ` dom (bt_get (ls_log s))" using last(2) by blast
  then have i: "unat i \<in> {first_index s..<hi}" by (simp only: assms(2))
  then have "hi - 1 \<in> unat ` dom (bt_get (ls_log s))" by (auto simp: assms(2))
  then obtain j where "j \<in> dom (bt_get (ls_log s))" and "unat j = hi - 1" by force
  with last(3) have "hi - 1 \<le> unat i" by (metis word_le_nat_alt)
  with i have "Suc (unat i) = hi" by auto
  with last assms(1) show ?thesis by (simp add: next_index_def)
qed

lemma log_okI:
  assumes "\<forall>i e. bt_get (ls_log s) i = Some e \<longrightarrow> entry_index e = i"
    and "unat ` dom (bt_get (ls_log s)) = {first_index s..<hi}" and "first_index s \<le> hi"
  shows "log_ok s"
  using assms next_index_of_range [OF assms] by (simp add: log_ok_def)

lemma log_ok_same:
  assumes "ls_log t = ls_log s" and "ls_purged t = ls_purged s" and "log_ok s"
  shows "log_ok t"
proof -
  have "first_index t = first_index s"
    using assms(2) by (simp add: first_index_def log_purged_def)
  moreover from this have "next_index t = next_index s"
    using assms(1) by (simp add: next_index_def last_log_id_def Let_def)
  ultimately show ?thesis using assms(1,3) by (simp add: log_ok_def)
qed

lemma bt_get_fold_append:
  "bt_get (fold (\<lambda>e. bt_insert (entry_index e) e) es m) i =
     (case List.find (\<lambda>e. entry_index e = i) (rev es) of Some e \<Rightarrow> Some e | None \<Rightarrow> bt_get m i)"
  by (induction es arbitrary: m rule: rev_induct) auto

lemma dom_fold_append:
  "dom (bt_get (fold (\<lambda>e. bt_insert (entry_index e) e) es m)) =
     entry_index ` set es \<union> dom (bt_get m)"
proof (induction es arbitrary: m)
  case (Cons e es)
  have "dom (bt_get (bt_insert (entry_index e) e m)) = insert (entry_index e) (dom (bt_get m))"
    by (auto split: if_splits)
  with Cons show ?case by auto
qed simp

lemma first_index_simps [simp]:
  "first_index (s\<lparr>ls_log := L\<rparr>) = first_index s"
  "first_index (s\<lparr>ls_log := L, ls_purged := Some (Some l)\<rparr>) = Suc (unat (log_index l))"
  by (simp_all add: first_index_def log_purged_def)

lemma log_ok_append:
  assumes ok: "log_ok s"
    and es: "map (\<lambda>e. unat (entry_index e)) es = [next_index s..<next_index s + length es]"
  shows "log_ok (s\<lparr>ls_log := fold (\<lambda>e. bt_insert (entry_index e) e) es (ls_log s)\<rparr>)"
    (is "log_ok ?t")
proof (rule log_okI [where hi = "next_index s + length es"])
  have new: "unat ` entry_index ` set es = {next_index s..<next_index s + length es}"
    using arg_cong [OF es, of set] by (simp add: image_image)
  have dom: "dom (bt_get (ls_log ?t)) = entry_index ` set es \<union> dom (bt_get (ls_log s))"
    by (simp add: dom_fold_append)
  show "\<forall>i e. bt_get (ls_log ?t) i = Some e \<longrightarrow> entry_index e = i"
    using ok by (auto simp: bt_get_fold_append log_ok_def find_Some_iff split: option.splits)
  show "unat ` dom (bt_get (ls_log ?t)) = {first_index ?t..<next_index s + length es}"
    using ok unfolding dom image_Un new by (auto simp: log_ok_def)
  show "first_index ?t \<le> next_index s + length es"
    using ok by (simp add: log_ok_def)
qed

lemma unat_image_filter:
  "unat ` dom (bt_get (bt_retain (\<lambda>i _. P (unat i)) m)) = {n \<in> unat ` dom (bt_get m). P n}"
  by (auto split: option.splits if_splits intro!: image_eqI)

lemma log_ok_truncate:
  assumes "log_ok s"
  shows "log_ok (s\<lparr>ls_log := bt_retain (\<lambda>i _. \<not> log_index l \<le> i) (ls_log s)\<rparr>)" (is "log_ok ?t")
proof (rule log_okI [where hi = "max (first_index s) (min (next_index s) (unat (log_index l)))"])
  show "unat ` dom (bt_get (ls_log ?t)) =
      {first_index ?t..<max (first_index s) (min (next_index s) (unat (log_index l)))}"
    using assms unat_image_filter [of "\<lambda>n. \<not> unat (log_index l) \<le> n" "ls_log s"]
    by (auto simp: log_ok_def word_le_nat_alt)
qed (use assms in \<open>auto simp: log_ok_def split: option.splits\<close>)

lemma log_ok_purge:
  assumes "log_ok s" and "first_index s \<le> Suc (unat (log_index l))"
  shows "log_ok (s\<lparr>ls_log := bt_retain (\<lambda>i _. \<not> i \<le> log_index l) (ls_log s), ls_purged := Some (Some l)\<rparr>)"
    (is "log_ok ?t")
proof (rule log_okI [where hi = "max (next_index s) (Suc (unat (log_index l)))"])
  show "unat ` dom (bt_get (ls_log ?t)) =
      {first_index ?t..<max (next_index s) (Suc (unat (log_index l)))}"
    using assms unat_image_filter [of "\<lambda>n. \<not> n \<le> unat (log_index l)" "ls_log s"]
    by (auto simp: log_ok_def word_le_nat_alt)
  show "first_index ?t \<le> max (next_index s) (Suc (unat (log_index l)))"
    by simp
qed (use assms in \<open>auto simp: log_ok_def split: option.splits\<close>)

lemma log_reach_ok: "log_reach s \<Longrightarrow> log_ok s"
proof (induction rule: log_reach.induct)
  case opened
  show ?case
    by (rule log_okI [where hi = 0])
      (simp_all add: log_new_def first_index_def log_purged_def)
next
  case (append s es disk verdict t)
  then show ?case by (auto simp: log_append_def dest!: write_txn_cases intro: log_ok_append)
next
  case (truncate s disk l verdict t)
  then show ?case by (auto simp: log_truncate_def dest!: write_txn_cases intro: log_ok_truncate)
next
  case (purge s l disk verdict t)
  then show ?case by (auto simp: log_purge_def dest!: write_txn_cases intro: log_ok_purge)
next
  case (vote s disk v verdict t)
  then show ?case by (auto simp: save_vote_def dest!: write_txn_cases intro: log_ok_same)
next
  case (committed s disk c verdict t)
  then show ?case by (auto simp: save_committed_def dest!: write_txn_cases intro: log_ok_same)
qed

definition inside :: "log_state \<Rightarrow> u64 \<Rightarrow> bool" where
  "inside st i \<longleftrightarrow>
     (case lst_purged st of None \<Rightarrow> True | Some p \<Rightarrow> log_index p < i) \<and>
     (case lst_last st of None \<Rightarrow> False | Some l \<Rightarrow> i \<le> log_index l)"

definition demo_id :: "u64 \<Rightarrow> log_id" where
  "demo_id i = \<lparr>log_leader = \<lparr>leader_term = 1, leader_node = RawMemberId 1\<rparr>, log_index = i\<rparr>"

text \<open>
  C8. The log that \<open>get_log_state\<close> advertises has no hole. However openraft appends, truncates and
  purges within its contract, and whenever the disk fails, the entries that are there are exactly
  those past the last purged one and up to the last one: each index of the range has its entry, with
  that index in it, and there are no others.
\<close>

theorem advertised_log_has_no_hole:
  assumes "log_reach s" and "get_log_state good_disk s = Inr st"
  shows "(case bt_get (ls_log s) i of
        Some e \<Rightarrow> entry_index e = i \<and> inside st i
      | None \<Rightarrow> \<not> inside st i)"
proof -
  have ok: "log_ok s" using assms(1) by (rule log_reach_ok)
  have st: "lst_purged st = log_purged s"
    "lst_last st = (case last_log_id s of Some l \<Rightarrow> Some l | None \<Rightarrow> log_purged s)"
    using assms(2) by (auto simp: get_log_state_def log_purged_def Let_def split: option.splits)
  have "i \<in> dom (bt_get (ls_log s)) \<longleftrightarrow> unat i \<in> unat ` dom (bt_get (ls_log s))"
    by (auto simp: image_iff simp flip: word_unat_eq_iff)
  also have "\<dots> \<longleftrightarrow> inside st i"
    using ok by (auto simp: log_ok_def inside_def st first_index_def next_index_def
        word_le_nat_alt word_less_nat_alt split: option.splits)
  finally show ?thesis using ok by (auto simp: log_ok_def split: option.splits)
qed

theorem advertised_log_has_no_hole_witness:
  "\<exists>s :: (member_id, unit, unit) log_store. log_reach s \<and> bt_get (ls_log s) 1 \<noteq> None \<and>
     bt_get (ls_log s) 0 = None \<and> inside \<lparr>lst_purged = Some (demo_id 0), lst_last = Some (demo_id 1)\<rparr> 1"
proof -
  let ?e = "\<lambda>i. \<lparr>entry_id = demo_id i, entry_payload = Blank\<rparr> :: (member_id, unit) raft_entry"
  let ?s1 = "snd (log_append good_disk [?e 0, ?e 1] log_new) :: (member_id, unit, unit) log_store"
  let ?s2 = "snd (log_purge good_disk (demo_id 0) ?s1)"
  let ?st = "\<lparr>lst_purged = Some (demo_id 0), lst_last = Some (demo_id 1)\<rparr>"
  have "log_reach ?s1"
    by (rule log_reach.append [OF log_reach.opened, where es = "[?e 0, ?e 1]" and disk = good_disk and verdict = "Inr ()"])
      (simp_all add: log_append_def next_index_def first_index_def log_purged_def log_new_def
        last_log_id_def bt_empty.rep_eq demo_id_def upt_rec)
  then have reach: "log_reach ?s2"
    by (rule log_reach.purge [where l = "demo_id 0" and disk = good_disk and verdict = "Inr ()"])
      (simp_all add: log_purge_def first_index_def log_purged_def log_append_def log_new_def)
  have st: "get_log_state good_disk ?s2 = Inr ?st" by code_simp
  have "bt_get (ls_log ?s2) 1 \<noteq> None" and "bt_get (ls_log ?s2) 0 = None" by code_simp+
  moreover have "inside ?st 1"
    using advertised_log_has_no_hole [OF reach st, of 1] calculation by auto
  ultimately show ?thesis using reach by blast
qed

end
