(* ===== verification/Raft_State.thy ===== *)
theory Raft_State
  imports Raft_Log
begin

text \<open>
  The Raft state machine of \<open>distlib-consensus/src/raft/state_machine.rs\<close>: committed entries folded
  into the membership, on a core node through openraft's \<open>apply\<close> and on a follower through
  \<open>apply_followed\<close>, kept on disk with the snapshot and what a promotion needs, and announced to
  whoever watches.

  A store has its tables, the state in memory behind a lock that a panic poisons, and what it has
  announced; every method is a function of the store and of what the disk does during the call. A
  method that fails halfway leaves what it has changed by then. The encoding of the applied state,
  the order of log identifiers and the empty configuration are postcard's and openraft's, given as
  an argument. A snapshot's id is kept as the parts it is printed from.
\<close>

section \<open>State\<close>

record 'm stored_membership =
  stm_log_id :: "log_id option"
  stm_config :: 'm

record 'm applied =
  ap_last :: "log_id option"
  ap_membership :: "'m stored_membership"
  ap_state :: membership_state
  ap_followed :: u64

record promotion =
  pr_at :: u64
  pr_voters :: "member_id btset"

type_synonym predecessors = "(member_id, member_id btset) btmap"

record snapshot_id =
  sid_log :: "log_id option"
  sid_seq :: u64

record 'm snapshot_meta =
  meta_last :: "log_id option"
  meta_membership :: "'m stored_membership"
  meta_id :: snapshot_id

record ('m, 'b) stored_snapshot =
  ss_meta :: "'m snapshot_meta"
  ss_data :: 'b

record ('m, 'b) sm_tables =
  tb_applied :: "'b option"
  tb_snapshot :: "('m, 'b) stored_snapshot option"
  tb_promotion :: "promotion option option"
  tb_predecessors :: "predecessors option"

record ('m, 'b) sm_store =
  st_tables :: "('m, 'b) sm_tables"
  st_applied :: "'m applied"
  st_poisoned :: bool
  st_seq :: u64
  st_generation :: nat
  st_published :: membership_state
  st_raft_published :: "'m stored_membership"
  st_promotion :: "promotion option"

text \<open>
  What the libraries do: postcard on the applied state, the order of openraft's identifiers, and its
  empty configuration.
\<close>

record ('m, 'b) raft_lib =
  encode_applied :: "'m applied \<Rightarrow> 'b option"
  decode_applied :: "'b \<Rightarrow> 'm applied option"
  later_id :: "log_id option \<Rightarrow> log_id option \<Rightarrow> bool"
  no_config :: 'm

definition lib_ok :: "('m, 'b) raft_lib \<Rightarrow> bool" where
  "lib_ok lib \<longleftrightarrow>
     (\<forall>a b. encode_applied lib a = Some b \<longrightarrow> decode_applied lib b = Some a) \<and>
     (\<forall>x. \<not> later_id lib x x) \<and>
     (\<forall>x y z. later_id lib x y \<longrightarrow> \<not> later_id lib z y \<longrightarrow> later_id lib x z)"

definition no_membership :: "('m, 'b) raft_lib \<Rightarrow> 'm stored_membership" where
  "no_membership lib = \<lparr>stm_log_id = None, stm_config = no_config lib\<rparr>"

definition applied_default :: "('m, 'b) raft_lib \<Rightarrow> 'm applied" where
  "applied_default lib =
     \<lparr>ap_last = None, ap_membership = no_membership lib, ap_state = ms_new, ap_followed = 0\<rparr>"

definition tables_new :: "('m, 'b) sm_tables" where
  "tables_new = \<lparr>tb_applied = None, tb_snapshot = None, tb_promotion = None, tb_predecessors = None\<rparr>"

abbreviation state_machine_error :: "error_verb \<Rightarrow> failing \<Rightarrow> raft_error" where
  "state_machine_error \<equiv> RaftStorageError StateMachineSubject"

section \<open>Opening and reading\<close>

definition from_database ::
    "('m, 'b) raft_lib \<Rightarrow> disk \<Rightarrow> ('m, 'b) sm_tables \<Rightarrow> raft_error + ('m, 'b) sm_store" where
  "from_database lib disk tb =
     (case fst (write_txn disk StateMachineSubject Inr tb) of
        Inl e \<Rightarrow> Inl e
      | Inr _ \<Rightarrow>
     (case read_key disk StateMachineSubject ''applied'' (decode_applied lib) (tb_applied tb) of
        Inl e \<Rightarrow> Inl e
      | Inr stored \<Rightarrow>
     (case read_key disk StateMachineSubject ''promotion'' Some (tb_promotion tb) of
        Inl e \<Rightarrow> Inl e
      | Inr prom \<Rightarrow>
          (let applied = (case stored of None \<Rightarrow> applied_default lib | Some a \<Rightarrow> a)
           in Inr \<lparr>st_tables = tb, st_applied = applied, st_poisoned = False, st_seq = 0,
                st_generation = 0, st_published = ap_state applied,
                st_raft_published = ap_membership applied,
                st_promotion = Option.bind prom id\<rparr>))))"

definition poisoned :: raft_error where
  "poisoned = state_machine_error Reading PoisonedLock"

definition sm_lock :: "('m, 'b) sm_store \<Rightarrow> raft_error + 'm applied" where
  "sm_lock s = (if st_poisoned s then Inl poisoned else Inr (st_applied s))"

definition peek :: "('m, 'b) sm_store \<Rightarrow> 'm applied" where
  "peek s = st_applied s"

definition sm_membership :: "('m, 'b) sm_store \<Rightarrow> membership_state" where
  "sm_membership s = ap_state (peek s)"

definition index_or_0 :: "log_id option \<Rightarrow> u64" where
  "index_or_0 l = (case l of None \<Rightarrow> 0 | Some l' \<Rightarrow> log_index l')"

definition last_applied_index :: "('m, 'b) sm_store \<Rightarrow> u64" where
  "last_applied_index s = index_or_0 (ap_last (peek s))"

definition position :: "('m, 'b) sm_store \<Rightarrow> u64" where
  "position s = max (index_or_0 (ap_last (peek s))) (ap_followed (peek s))"

definition followed_upto :: "('m, 'b) sm_store \<Rightarrow> u64" where
  "followed_upto s = ap_followed (peek s)"

definition core_addresses :: "('m, 'b) sm_store \<Rightarrow> (member_id \<times> node_addr) list" where
  "core_addresses s = bt_entries (ms_core (ap_state (peek s)))"

definition stored_snapshot_of ::
    "disk \<Rightarrow> ('m, 'b) sm_store \<Rightarrow> raft_error + ('m, 'b) stored_snapshot option" where
  "stored_snapshot_of disk s = read_key disk SnapshotSubject ''snapshot'' Some (tb_snapshot (st_tables s))"

definition applied_state ::
    "('m, 'b) sm_store \<Rightarrow> raft_error + log_id option \<times> 'm stored_membership" where
  "applied_state s =
     (case sm_lock s of Inl e \<Rightarrow> Inl e | Inr a \<Rightarrow> Inr (ap_last a, ap_membership a))"

section \<open>Announcing and persisting\<close>

definition announce :: "membership_state \<Rightarrow> ('m, 'b) sm_store \<Rightarrow> ('m, 'b) sm_store" where
  "announce state s = (if st_published s \<noteq> state then s\<lparr>st_published := state\<rparr> else s)"

definition announce_raft :: "'m stored_membership \<Rightarrow> ('m, 'b) sm_store \<Rightarrow> ('m, 'b) sm_store" where
  "announce_raft membership s =
     (if st_raft_published s = membership then s else s\<lparr>st_raft_published := membership\<rparr>)"

definition persist ::
    "disk \<Rightarrow> error_subject \<Rightarrow> (('m, 'b) sm_tables \<Rightarrow> ('m, 'b) sm_tables) \<Rightarrow> ('m, 'b) sm_store
      \<Rightarrow> (raft_error, ('m, 'b) sm_store) outcome" where
  "persist disk subj f s =
     (case write_txn disk subj (\<lambda>tb. Inr (f tb)) (st_tables s) of
        (verdict, tb) \<Rightarrow> (verdict, s\<lparr>st_tables := tb\<rparr>))"

text \<open>
  Encoding the state in memory and writing it with \<open>f\<close> in one transaction; then, on success alone,
  what \<open>after\<close> does.
\<close>

definition persist_applied ::
    "('m, 'b) raft_lib \<Rightarrow> disk \<Rightarrow> (('m, 'b) sm_tables \<Rightarrow> ('m, 'b) sm_tables) \<Rightarrow> 'r
      \<Rightarrow> (('m, 'b) sm_store \<Rightarrow> ('m, 'b) sm_store) \<Rightarrow> ('m, 'b) sm_store
      \<Rightarrow> (raft_error + 'r) \<times> ('m, 'b) sm_store" where
  "persist_applied lib disk f r after s =
     (case encode_applied lib (st_applied s) of
        None \<Rightarrow> (Inl (state_machine_error Writing Unencodable), s)
      | Some b \<Rightarrow>
          (case persist disk StateMachineSubject (\<lambda>tb. f (tb\<lparr>tb_applied := Some b\<rparr>)) s of
             (Inl e, s') \<Rightarrow> (Inl e, s')
           | (Inr _, s') \<Rightarrow> (Inr r, after s')))"

section \<open>Applying what Raft committed\<close>

definition apply_entry ::
    "('sk, 'sig) crypto \<Rightarrow> ('sig, 'm) raft_entry \<Rightarrow> 'm applied \<times> (consensus_error + unit) list
      \<Rightarrow> 'm applied \<times> (consensus_error + unit) list" where
  "apply_entry cr e acc =
     (case acc of (a, responses) \<Rightarrow>
        (let a = a\<lparr>ap_last := Some (entry_id e)\<rparr>
         in case entry_payload e of
              Blank \<Rightarrow> (a, responses @ [Inr ()])
            | Normal event \<Rightarrow>
                (case ms_apply cr (ap_state a) (entry_index e) event of
                   (verdict, state) \<Rightarrow> (a\<lparr>ap_state := state\<rparr>, responses @ [verdict]))
            | MembershipChange m \<Rightarrow>
                (a\<lparr>ap_membership := \<lparr>stm_log_id = Some (entry_id e), stm_config = m\<rparr>\<rparr>,
                 responses @ [Inr ()])))"

definition sm_apply ::
    "('m, 'b) raft_lib \<Rightarrow> ('sk, 'sig) crypto \<Rightarrow> disk \<Rightarrow> ('sig, 'm) raft_entry list \<Rightarrow> ('m, 'b) sm_store
      \<Rightarrow> (raft_error + (consensus_error + unit) list) \<times> ('m, 'b) sm_store" where
  "sm_apply lib cr disk entries s =
     (case sm_lock s of
        Inl e \<Rightarrow> (Inl e, s)
      | Inr a \<Rightarrow>
          (case fold (apply_entry cr) entries (a, []) of
             (a', responses) \<Rightarrow>
               persist_applied lib disk id responses
                 (\<lambda>s'. announce (ap_state a') (announce_raft (ap_membership a') s'))
                 (s\<lparr>st_applied := a'\<rparr>)))"

section \<open>Following the log\<close>

definition core_set :: "membership_state \<Rightarrow> member_id btset" where
  "core_set s = bts_of (bt_keys (ms_core s))"

definition note_predecessors ::
    "member_id btset \<Rightarrow> membership_state \<Rightarrow> predecessors \<Rightarrow> predecessors" where
  "note_predecessors before state preds =
     fold (\<lambda>m ps. if bt_has before m then ps else bt_insert m before ps) (bt_keys (ms_core state))
       (bt_retain (\<lambda>m _. is_core state m) preds)"

text \<open>
  The loop over fetched events, with the index of the last one applied. It stops at the event after
  a raise this build does not speak, and then says where it stopped.
\<close>

fun follow_events ::
    "('sk, 'sig) crypto \<Rightarrow> (u64 \<times> 'sig signed_event) list \<Rightarrow> membership_state \<Rightarrow> predecessors \<Rightarrow> u64
      \<Rightarrow> (consensus_error + unit) list
      \<Rightarrow> membership_state \<times> predecessors \<times> (consensus_error + unit) list \<times> u64 option" where
  "follow_events cr [] state preds lst verdicts = (state, preds, verdicts, None)"
| "follow_events cr ((i, event) # events) state preds lst verdicts =
     (if PROTOCOL_MAX < ms_protocol state then (state, preds, verdicts, Some lst)
      else case ms_apply cr state i event of
        (verdict, state') \<Rightarrow>
          follow_events cr events state' (note_predecessors (core_set state) state' preds) i
            (verdicts @ [verdict]))"

definition apply_followed ::
    "('m, 'b) raft_lib \<Rightarrow> ('sk, 'sig) crypto \<Rightarrow> disk \<Rightarrow> u64 \<Rightarrow> (u64 \<times> 'sig signed_event) list
      \<Rightarrow> ('m, 'b) sm_store \<Rightarrow> (raft_error + (consensus_error + unit) list) \<times> ('m, 'b) sm_store" where
  "apply_followed lib cr disk up_to events s =
     (case read_key disk StateMachineSubject ''promotion_predecessors'' Some
             (tb_predecessors (st_tables s)) of
        Inl e \<Rightarrow> (Inl e, s)
      | Inr stored \<Rightarrow>
     (case sm_lock s of
        Inl e \<Rightarrow> (Inl e, s)
      | Inr a \<Rightarrow>
     (case follow_events cr events (ap_state a) (case stored of None \<Rightarrow> bt_empty | Some p \<Rightarrow> p)
             (ap_followed a) [] of
        (state, preds, verdicts, stopped) \<Rightarrow>
          persist_applied lib disk (tb_predecessors_update (\<lambda>_. Some preds)) verdicts
            (announce state)
            (s\<lparr>st_applied := a\<lparr>ap_state := state,
               ap_followed := (case stopped of None \<Rightarrow> up_to | Some lst \<Rightarrow> lst)\<rparr>\<rparr>))))"

section \<open>Promotion\<close>

text \<open>
  A reset clears the state in memory, under the lock, and moves the generation; what it writes then
  is fixed. The transaction follows, and others may come between.
\<close>

definition reset_begin ::
    "('m, 'b) raft_lib \<Rightarrow> ('m, 'b) sm_store \<Rightarrow> (raft_error + 'b) \<times> ('m, 'b) sm_store" where
  "reset_begin lib s =
     (case sm_lock s of
        Inl e \<Rightarrow> (Inl e, s)
      | Inr _ \<Rightarrow>
          (let s' = s\<lparr>st_applied := applied_default lib, st_generation := st_generation s + 1\<rparr>
           in case encode_applied lib (st_applied s') of
                None \<Rightarrow> (Inl (state_machine_error Writing Unencodable), s')
              | Some bytes \<Rightarrow> (Inr bytes, s')))"

definition reset_commit ::
    "('m, 'b) raft_lib \<Rightarrow> disk \<Rightarrow> 'b \<Rightarrow> promotion option \<Rightarrow> ('m, 'b) sm_store
      \<Rightarrow> (raft_error, ('m, 'b) sm_store) outcome" where
  "reset_commit lib disk bytes prom s =
     and_then
       (persist disk StateMachineSubject
          (\<lambda>tb. tb\<lparr>tb_applied := Some bytes, tb_snapshot := None, tb_promotion := Some prom\<rparr>) s)
       (\<lambda>s'. done_with
          (announce ms_new (announce_raft (no_membership lib) (s'\<lparr>st_promotion := prom\<rparr>))))"

definition reset_projection ::
    "('m, 'b) raft_lib \<Rightarrow> disk \<Rightarrow> promotion option \<Rightarrow> ('m, 'b) sm_store
      \<Rightarrow> (raft_error, ('m, 'b) sm_store) outcome" where
  "reset_projection lib disk prom s =
     (case reset_begin lib s of
        (Inl e, s') \<Rightarrow> refused e s'
      | (Inr bytes, s') \<Rightarrow> reset_commit lib disk bytes prom s')"

definition reset_for_promotion ::
    "('m, 'b) raft_lib \<Rightarrow> disk \<Rightarrow> ('m, 'b) sm_store \<Rightarrow> (raft_error, ('m, 'b) sm_store) outcome" where
  "reset_for_promotion lib disk s = reset_projection lib disk None s"

definition promotion_for :: "membership_state \<Rightarrow> predecessors \<Rightarrow> member_id \<Rightarrow> promotion" where
  "promotion_for membership preds me =
     \<lparr>pr_at = ms_changed_at membership,
      pr_voters = bts_of (filter (is_member membership)
        (bt_keys (ms_core membership) @ (case bt_get preds me of None \<Rightarrow> [] | Some p \<Rightarrow> bt_keys p)))\<rparr>"

definition prepare_promotion ::
    "('m, 'b) raft_lib \<Rightarrow> disk \<Rightarrow> member_id \<Rightarrow> ('m, 'b) sm_store
      \<Rightarrow> (raft_error + promotion) \<times> ('m, 'b) sm_store" where
  "prepare_promotion lib disk me s =
     (case read_key disk StateMachineSubject ''promotion_predecessors'' Some
             (tb_predecessors (st_tables s)) of
        Inl e \<Rightarrow> (Inl e, s)
      | Inr stored \<Rightarrow>
          (let prom = promotion_for (sm_membership s) (case stored of None \<Rightarrow> bt_empty | Some p \<Rightarrow> p) me
           in case reset_projection lib disk (Some prom) s of
                (Inl e, s') \<Rightarrow> (Inl e, s')
              | (Inr _, s') \<Rightarrow> (Inr prom, s')))"

definition current_promotion :: "('m, 'b) sm_store \<Rightarrow> promotion option" where
  "current_promotion s =
     (case st_promotion s of
        None \<Rightarrow> None
      | Some p \<Rightarrow>
          if (case stm_log_id (st_raft_published s) of None \<Rightarrow> True | Some l \<Rightarrow> log_index l < pr_at p)
          then Some p else None)"

definition resume_following ::
    "('m, 'b) raft_lib \<Rightarrow> disk \<Rightarrow> ('m, 'b) sm_store \<Rightarrow> (raft_error, ('m, 'b) sm_store) outcome" where
  "resume_following lib disk s =
     (case sm_lock s of
        Inl e \<Rightarrow> refused e s
      | Inr a \<Rightarrow>
          persist_applied lib disk id () id
            (s\<lparr>st_applied := a\<lparr>ap_followed := index_or_0 (ap_last a)\<rparr>\<rparr>))"

section \<open>Snapshots\<close>

record 'm snapshot_builder =
  bd_captured :: "('m applied \<times> nat) option"
  bd_seq :: u64

definition get_snapshot_builder :: "('m, 'b) sm_store \<Rightarrow> 'm snapshot_builder \<times> ('m, 'b) sm_store" where
  "get_snapshot_builder s =
     (\<lparr>bd_captured = (case sm_lock s of Inl _ \<Rightarrow> None | Inr a \<Rightarrow> Some (a, st_generation s)),
       bd_seq = st_seq s\<rparr>,
      s\<lparr>st_seq := st_seq s + 1\<rparr>)"

definition meta_of :: "'m applied \<Rightarrow> u64 \<Rightarrow> 'm snapshot_meta" where
  "meta_of a sq =
     \<lparr>meta_last = ap_last a, meta_membership = ap_membership a,
      meta_id = \<lparr>sid_log = ap_last a, sid_seq = sq\<rparr>\<rparr>"

definition build_snapshot ::
    "('m, 'b) raft_lib \<Rightarrow> disk \<Rightarrow> 'm snapshot_builder \<Rightarrow> ('m, 'b) sm_store
      \<Rightarrow> (raft_error + ('m, 'b) stored_snapshot) \<times> ('m, 'b) sm_store" where
  "build_snapshot lib disk b s =
     (case bd_captured b of
        None \<Rightarrow> (Inl poisoned, s)
      | Some (a, generation) \<Rightarrow>
     (case encode_applied lib a of
        None \<Rightarrow> (Inl (RaftStorageError SnapshotSubject Writing Unencodable), s)
      | Some bytes \<Rightarrow>
          (let snapshot = \<lparr>ss_meta = meta_of a (bd_seq b), ss_data = bytes\<rparr>;
               keep = (\<lambda>tb. (case tb_snapshot tb of
                                None \<Rightarrow> False
                              | Some st \<Rightarrow> later_id lib (meta_last (ss_meta st)) (ap_last a))
                           \<or> st_generation s \<noteq> generation)
           in case persist disk SnapshotSubject
                     (\<lambda>tb. if keep tb then tb else tb\<lparr>tb_snapshot := Some snapshot\<rparr>) s of
                (Inl e, s') \<Rightarrow> (Inl e, s')
              | (Inr _, s') \<Rightarrow> (Inr snapshot, s'))))"

definition install_snapshot ::
    "('m, 'b) raft_lib \<Rightarrow> disk \<Rightarrow> 'm snapshot_meta \<Rightarrow> 'b \<Rightarrow> ('m, 'b) sm_store
      \<Rightarrow> (raft_error, ('m, 'b) sm_store) outcome" where
  "install_snapshot lib disk meta bytes s =
     (case decode_applied lib bytes of
        None \<Rightarrow> refused (RaftStorageError SnapshotSubject Reading (Undecodable ''snapshot'')) s
      | Some a \<Rightarrow>
     (case sm_lock s of
        Inl e \<Rightarrow> refused e s
      | Inr _ \<Rightarrow>
          and_then
            (persist disk SnapshotSubject
               (\<lambda>tb. tb\<lparr>tb_applied := Some bytes, tb_snapshot := Some \<lparr>ss_meta = meta, ss_data = bytes\<rparr>\<rparr>)
               (s\<lparr>st_applied := a\<rparr>))
            (\<lambda>s'. done_with (announce (ap_state a) (announce_raft (ap_membership a) s')))))"

definition get_current_snapshot ::
    "disk \<Rightarrow> ('m, 'b) sm_store \<Rightarrow> raft_error + ('m, 'b) stored_snapshot option" where
  "get_current_snapshot disk s = stored_snapshot_of disk s"

section \<open>What is on disk\<close>

definition on_disk :: "('m, 'b) raft_lib \<Rightarrow> ('m, 'b) sm_store \<Rightarrow> 'm applied option" where
  "on_disk lib s =
     (case tb_applied (st_tables s) of None \<Rightarrow> Some (applied_default lib) | Some b \<Rightarrow> decode_applied lib b)"

lemma announce_simps [simp]:
  "st_published (announce p s) = p"
  "st_tables (announce p s) = st_tables s"
  "st_applied (announce p s) = st_applied s"
  "st_raft_published (announce p s) = st_raft_published s"
  "st_generation (announce p s) = st_generation s"
  "st_poisoned (announce p s) = st_poisoned s"
  "st_promotion (announce p s) = st_promotion s"
  by (simp_all add: announce_def)

lemma announce_raft_simps [simp]:
  "st_raft_published (announce_raft m s) = m"
  "st_tables (announce_raft m s) = st_tables s"
  "st_applied (announce_raft m s) = st_applied s"
  "st_published (announce_raft m s) = st_published s"
  "st_generation (announce_raft m s) = st_generation s"
  "st_poisoned (announce_raft m s) = st_poisoned s"
  "st_promotion (announce_raft m s) = st_promotion s"
  by (simp_all add: announce_raft_def)

text \<open>A write that fails leaves the store as it is; one that succeeds changes the tables.\<close>

lemma persist_cases:
  assumes "persist disk subj f s = (verdict, t)"
  obtains (failed) e where "verdict = Inl e" and "t = s"
  | (written) "verdict = Inr ()" and "t = s\<lparr>st_tables := f (st_tables s)\<rparr>"
  using assms by (auto simp: persist_def write_txn_def split: if_splits)

lemma persist_applied_cases:
  assumes "persist_applied lib disk f r after s = (verdict, t)"
  obtains (failed) e where "verdict = Inl e" and "t = s"
  | (written) b where "verdict = Inr r" and "encode_applied lib (st_applied s) = Some b"
      and "t = after (s\<lparr>st_tables := f ((st_tables s)\<lparr>tb_applied := Some b\<rparr>)\<rparr>)"
  using assms
  by (auto simp: persist_applied_def split: option.splits prod.splits sum.splits
      elim!: persist_cases)

section \<open>Runs\<close>

text \<open>
  A node runs the methods of its store one after another. Snapshots are built on tasks of their own,
  from what was captured when the builder was made; a reset begins and commits apart. A panic leaves
  whatever it had made of the state, and a poisoned lock; a restart forgets all but the tables.
\<close>

record ('m, 'b) raft_node =
  nd_store :: "('m, 'b) sm_store"
  nd_builders :: "'m snapshot_builder set"
  nd_resets :: "('b \<times> promotion option) set"

inductive node_step ::
    "('m, 'b) raft_lib \<Rightarrow> ('sk, 'sig) crypto \<Rightarrow> ('m, 'b) raft_node \<Rightarrow> ('m, 'b) raft_node \<Rightarrow> bool"
  for lib cr where
  core_apply: "sm_apply lib cr disk es (nd_store n) = (r, s) \<Longrightarrow> node_step lib cr n (n\<lparr>nd_store := s\<rparr>)"
| follow: "apply_followed lib cr disk up_to evs (nd_store n) = (r, s) \<Longrightarrow>
    node_step lib cr n (n\<lparr>nd_store := s\<rparr>)"
| begin_reset: "reset_begin lib (nd_store n) = (Inr bytes, s) \<Longrightarrow>
    node_step lib cr n (n\<lparr>nd_store := s, nd_resets := insert (bytes, prom) (nd_resets n)\<rparr>)"
| fail_reset: "reset_begin lib (nd_store n) = (Inl e, s) \<Longrightarrow> node_step lib cr n (n\<lparr>nd_store := s\<rparr>)"
| commit_reset: "(bytes, prom) \<in> nd_resets n \<Longrightarrow>
    reset_commit lib disk bytes prom (nd_store n) = (r, s) \<Longrightarrow>
    node_step lib cr n (n\<lparr>nd_store := s, nd_resets := nd_resets n - {(bytes, prom)}\<rparr>)"
| resume: "resume_following lib disk (nd_store n) = (r, s) \<Longrightarrow> node_step lib cr n (n\<lparr>nd_store := s\<rparr>)"
| capture: "get_snapshot_builder (nd_store n) = (b, s) \<Longrightarrow>
    node_step lib cr n (n\<lparr>nd_store := s, nd_builders := insert b (nd_builders n)\<rparr>)"
| build: "b \<in> nd_builders n \<Longrightarrow> build_snapshot lib disk b (nd_store n) = (r, s) \<Longrightarrow>
    node_step lib cr n (n\<lparr>nd_store := s\<rparr>)"
| install: "install_snapshot lib disk meta bytes (nd_store n) = (r, s) \<Longrightarrow>
    node_step lib cr n (n\<lparr>nd_store := s\<rparr>)"
| panic: "node_step lib cr n (n\<lparr>nd_store := (nd_store n)\<lparr>st_applied := a, st_poisoned := True\<rparr>\<rparr>)"
| restart: "from_database lib disk (st_tables (nd_store n)) = Inr s \<Longrightarrow>
    node_step lib cr n \<lparr>nd_store = s, nd_builders = {}, nd_resets = {}\<rparr>"

inductive node_reach :: "('m, 'b) raft_lib \<Rightarrow> ('sk, 'sig) crypto \<Rightarrow> ('m, 'b) raft_node \<Rightarrow> bool"
  for lib cr where
  opened: "from_database lib disk tables_new = Inr s \<Longrightarrow>
    node_reach lib cr \<lparr>nd_store = s, nd_builders = {}, nd_resets = {}\<rparr>"
| step: "node_reach lib cr n \<Longrightarrow> node_step lib cr n n' \<Longrightarrow> node_reach lib cr n'"

text \<open>
  Every builder was made at a generation the store has reached, and what a reset has yet to write is
  the empty state.
\<close>

definition node_ok :: "('m, 'b) raft_lib \<Rightarrow> ('m, 'b) raft_node \<Rightarrow> bool" where
  "node_ok lib n \<longleftrightarrow>
     (\<forall>b \<in> nd_builders n. \<forall>a g. bd_captured b = Some (a, g) \<longrightarrow> g \<le> st_generation (nd_store n)) \<and>
     (\<forall>(bytes, prom) \<in> nd_resets n. encode_applied lib (applied_default lib) = Some bytes)"

lemma sm_apply_frame:
  assumes "sm_apply lib cr disk es s = (r, t)"
  shows "st_generation t = st_generation s" and "st_promotion t = st_promotion s"
    and "tb_snapshot (st_tables t) = tb_snapshot (st_tables s)"
  using assms
  by (auto simp: sm_apply_def sm_lock_def split: sum.splits prod.splits if_splits
      elim!: persist_applied_cases)

lemma apply_followed_frame:
  assumes "apply_followed lib cr disk up_to evs s = (r, t)"
  shows "st_generation t = st_generation s" and "st_promotion t = st_promotion s"
    and "tb_snapshot (st_tables t) = tb_snapshot (st_tables s)"
    and "st_raft_published t = st_raft_published s"
  using assms
  by (auto simp: apply_followed_def sm_lock_def split: sum.splits prod.splits if_splits
      elim!: persist_applied_cases)

lemma resume_following_frame:
  assumes "resume_following lib disk s = (r, t)"
  shows "st_generation t = st_generation s" and "st_promotion t = st_promotion s"
    and "tb_snapshot (st_tables t) = tb_snapshot (st_tables s)"
    and "st_raft_published t = st_raft_published s" and "st_published t = st_published s"
  using assms
  by (auto simp: resume_following_def sm_lock_def split: sum.splits prod.splits if_splits
      elim!: persist_applied_cases)

lemma build_snapshot_cases:
  assumes "build_snapshot lib disk b s = (r, t)"
  obtains (unchanged) "t = s"
  | (stored) a g bytes where "bd_captured b = Some (a, g)" and "g = st_generation s"
      and "encode_applied lib a = Some bytes"
      and "\<And>st. tb_snapshot (st_tables s) = Some st \<Longrightarrow> \<not> later_id lib (meta_last (ss_meta st)) (ap_last a)"
      and "t = s\<lparr>st_tables := (st_tables s)\<lparr>tb_snapshot :=
        Some \<lparr>ss_meta = meta_of a (bd_seq b), ss_data = bytes\<rparr>\<rparr>\<rparr>"
proof (cases "bd_captured b")
  case None
  with assms show ?thesis by (intro unchanged) (simp add: build_snapshot_def)
next
  case (Some ag)
  obtain a g where ag: "ag = (a, g)" by (cases ag)
  show ?thesis
  proof (cases "encode_applied lib a")
    case None
    with assms show ?thesis by (intro unchanged) (simp add: build_snapshot_def Some ag)
  next
    case bytes: (Some bytes)
    let ?keep = "(case tb_snapshot (st_tables s) of None \<Rightarrow> False
        | Some st \<Rightarrow> later_id lib (meta_last (ss_meta st)) (ap_last a)) \<or> st_generation s \<noteq> g"
    let ?new = "Some \<lparr>ss_meta = meta_of a (bd_seq b), ss_data = bytes\<rparr>"
    have "t = s \<or> \<not> ?keep \<and> t = s\<lparr>st_tables := (st_tables s)\<lparr>tb_snapshot := ?new\<rparr>\<rparr>"
      using assms by (auto simp: build_snapshot_def Some ag bytes Let_def persist_def write_txn_def
          split: if_splits)
    then show ?thesis
      using Some ag bytes by (auto intro: unchanged stored split: option.splits)
  qed
qed

lemma install_snapshot_cases:
  assumes "install_snapshot lib disk meta bytes s = (r, t)"
  obtains (unchanged) "t = s"
  | (unwritten) a where "decode_applied lib bytes = Some a" and "\<not> st_poisoned s"
      and "t = s\<lparr>st_applied := a\<rparr>"
  | (installed) a where "decode_applied lib bytes = Some a" and "\<not> st_poisoned s"
      and "t = announce (ap_state a) (announce_raft (ap_membership a)
        (s\<lparr>st_applied := a, st_tables := (st_tables s)\<lparr>tb_applied := Some bytes,
           tb_snapshot := Some \<lparr>ss_meta = meta, ss_data = bytes\<rparr>\<rparr>\<rparr>))"
proof (cases "decode_applied lib bytes")
  case None
  with assms show ?thesis by (intro unchanged) (simp add: install_snapshot_def)
next
  case (Some a)
  show ?thesis
  proof (cases "st_poisoned s")
    case True
    with assms Some show ?thesis by (intro unchanged) (simp add: install_snapshot_def sm_lock_def)
  next
    case False
    obtain verdict s' where p: "persist disk SnapshotSubject
        (\<lambda>tb. tb\<lparr>tb_applied := Some bytes, tb_snapshot := Some \<lparr>ss_meta = meta, ss_data = bytes\<rparr>\<rparr>)
        (s\<lparr>st_applied := a\<rparr>) = (verdict, s')"
      by fastforce
    from p show ?thesis
      using assms Some False
      by (cases rule: persist_cases)
        (auto simp: install_snapshot_def sm_lock_def and_then_def p intro: unwritten installed)
  qed
qed

lemma reset_begin_cases:
  assumes "reset_begin lib s = (r, t)"
  obtains (refused) "st_poisoned s" and "t = s" and "r = Inl poisoned"
  | (cleared) "\<not> st_poisoned s"
      and "t = s\<lparr>st_applied := applied_default lib, st_generation := st_generation s + 1\<rparr>"
      and "\<And>bytes. r = Inr bytes \<Longrightarrow> encode_applied lib (applied_default lib) = Some bytes"
  using assms
  by (auto simp: reset_begin_def sm_lock_def Let_def split: if_splits option.splits)

lemma reset_commit_cases:
  assumes "reset_commit lib disk bytes prom s = (r, t)"
  obtains (failed) "t = s"
  | (written) "t = announce ms_new (announce_raft (no_membership lib)
      (s\<lparr>st_tables := (st_tables s)\<lparr>tb_applied := Some bytes, tb_snapshot := None,
          tb_promotion := Some prom\<rparr>, st_promotion := prom\<rparr>))"
proof -
  obtain verdict s' where p: "persist disk StateMachineSubject
      (\<lambda>tb. tb\<lparr>tb_applied := Some bytes, tb_snapshot := None, tb_promotion := Some prom\<rparr>) s
      = (verdict, s')"
    by fastforce
  from p show ?thesis
    using assms
    by (cases rule: persist_cases)
      (auto simp: reset_commit_def and_then_def p intro: failed written)
qed

lemma from_database_ok:
  assumes "from_database lib disk tb = Inr s"
  shows "st_tables s = tb" and "on_disk lib s = Some (st_applied s)"
    and "st_published s = ap_state (st_applied s)"
    and "st_raft_published s = ap_membership (st_applied s)" and "\<not> st_poisoned s"
  using assms
  by (auto simp: from_database_def on_disk_def read_key_def Let_def split: sum.splits if_splits option.splits)

lemma node_reach_ok: "node_reach lib cr n \<Longrightarrow> node_ok lib n"
proof (induction rule: node_reach.induct)
  case (opened disk s)
  show ?case by (simp add: node_ok_def)
next
  case (step n n')
  from step.hyps(2) step.IH show ?case
  proof (cases rule: node_step.cases)
    case (core_apply disk es r s)
    then show ?thesis using step.IH sm_apply_frame(1) [OF core_apply(2)] by (simp add: node_ok_def)
  next
    case (follow disk up_to evs r s)
    then show ?thesis using step.IH apply_followed_frame(1) [OF follow(2)] by (simp add: node_ok_def)
  next
    case (begin_reset bytes s prom)
    from begin_reset(2) show ?thesis
      using step.IH begin_reset(1) by (cases rule: reset_begin_cases) (force simp: node_ok_def)+
  next
    case (fail_reset e s)
    from fail_reset(2) show ?thesis
      using step.IH fail_reset(1) by (cases rule: reset_begin_cases) (force simp: node_ok_def)+
  next
    case (commit_reset bytes prom disk r s)
    from commit_reset(3) show ?thesis
      using step.IH commit_reset(1) by (cases rule: reset_commit_cases) (auto simp: node_ok_def)
  next
    case (resume disk r s)
    then show ?thesis using step.IH resume_following_frame(1) [OF resume(2)] by (simp add: node_ok_def)
  next
    case (capture b s)
    then show ?thesis
      using step.IH by (auto simp: node_ok_def get_snapshot_builder_def sm_lock_def split: if_splits)
  next
    case (build b disk r s)
    from build(3) show ?thesis
      using step.IH build(1) by (cases rule: build_snapshot_cases) (auto simp: node_ok_def)
  next
    case (install disk meta bytes r s)
    from install(2) show ?thesis
      using step.IH install(1) by (cases rule: install_snapshot_cases) (auto simp: node_ok_def)
  qed (auto simp: node_ok_def)
qed

section \<open>What observers are told\<close>

text \<open>
  What a step may do to what is announced and to what is on disk: announce only what is on disk, and
  write nothing of a state that a panic left, unless it is the empty state of a reset under way.
\<close>

definition told_after_commit :: "('m, 'b) raft_lib \<Rightarrow> ('m, 'b) sm_store \<Rightarrow> ('m, 'b) sm_store \<Rightarrow> bool" where
  "told_after_commit lib s t \<longleftrightarrow>
     (st_published t = st_published s \<or>
        map_option ap_state (on_disk lib t) = Some (st_published t)) \<and>
     (st_raft_published t = st_raft_published s \<or>
        map_option ap_membership (on_disk lib t) = Some (st_raft_published t)) \<and>
     (st_poisoned s \<longrightarrow>
        on_disk lib t = on_disk lib s \<or> on_disk lib t = Some (applied_default lib))"

lemma told_refl [simp]: "told_after_commit lib s s"
  by (simp add: told_after_commit_def)

lemma on_disk_written [simp]:
  "tb_applied (st_tables s) = Some b \<Longrightarrow> on_disk lib s = decode_applied lib b"
  by (simp add: on_disk_def)

lemma told_sm_apply:
  assumes "lib_ok lib" and "sm_apply lib cr disk es s = (r, t)"
  shows "told_after_commit lib s t"
proof (cases "st_poisoned s")
  case True
  with assms(2) show ?thesis by (simp add: sm_apply_def sm_lock_def)
next
  case False
  obtain a rs where f: "fold (apply_entry cr) es (st_applied s, []) = (a, rs)" by fastforce
  with assms(2) False have "persist_applied lib disk id rs
      (\<lambda>s'. announce (ap_state a) (announce_raft (ap_membership a) s')) (s\<lparr>st_applied := a\<rparr>) = (r, t)"
    by (simp add: sm_apply_def sm_lock_def)
  then show ?thesis
    using assms(1) False
    by (cases rule: persist_applied_cases) (auto simp: told_after_commit_def lib_ok_def on_disk_def)
qed

lemma told_apply_followed:
  assumes "lib_ok lib" and "apply_followed lib cr disk up_to evs s = (r, t)"
  shows "told_after_commit lib s t"
proof (cases "t = s")
  case False
  then obtain stored where stored: "read_key disk StateMachineSubject ''promotion_predecessors'' Some
      (tb_predecessors (st_tables s)) = Inr stored" and clean: "\<not> st_poisoned s"
    using assms(2) by (auto simp: apply_followed_def sm_lock_def split: sum.splits if_splits)
  obtain m ps vs st where f: "follow_events cr evs (ap_state (st_applied s))
      (case stored of None \<Rightarrow> bt_empty | Some p \<Rightarrow> p) (ap_followed (st_applied s)) [] = (m, ps, vs, st)"
    by (metis prod_cases4)
  from assms(2) stored clean f have "persist_applied lib disk (tb_predecessors_update (\<lambda>_. Some ps)) vs
      (announce m) (s\<lparr>st_applied := (st_applied s)\<lparr>ap_state := m,
         ap_followed := (case st of None \<Rightarrow> up_to | Some lst \<Rightarrow> lst)\<rparr>\<rparr>) = (r, t)"
    by (simp add: apply_followed_def sm_lock_def)
  then show ?thesis
    using assms(1) clean
    by (cases rule: persist_applied_cases) (auto simp: told_after_commit_def lib_ok_def on_disk_def)
qed simp

lemma told_resume:
  assumes "lib_ok lib" and "resume_following lib disk s = (r, t)"
  shows "told_after_commit lib s t"
  using assms resume_following_frame [OF assms(2)]
  by (auto simp: told_after_commit_def resume_following_def sm_lock_def split: if_splits)

lemma told_reset_commit:
  assumes "lib_ok lib" and "encode_applied lib (applied_default lib) = Some bytes"
    and "reset_commit lib disk bytes prom s = (r, t)"
  shows "told_after_commit lib s t"
proof -
  have "decode_applied lib bytes = Some (applied_default lib)"
    using assms(1,2) by (simp add: lib_ok_def)
  with assms(3) show ?thesis
    by (elim reset_commit_cases)
      (simp_all add: told_after_commit_def on_disk_def applied_default_def)
qed

lemma told_install:
  assumes "install_snapshot lib disk meta bytes s = (r, t)"
  shows "told_after_commit lib s t"
  using assms
  by (elim install_snapshot_cases) (simp_all add: told_after_commit_def on_disk_def)

lemma told_step:
  assumes "lib_ok lib" and "node_ok lib n" and "node_step lib cr n n'"
  shows "told_after_commit lib (nd_store n) (nd_store n')"
  using assms(3)
proof (cases rule: node_step.cases)
  case (core_apply disk es r s)
  then show ?thesis using told_sm_apply [OF assms(1)] by simp
next
  case (follow disk up_to evs r s)
  then show ?thesis using told_apply_followed [OF assms(1)] by simp
next
  case (begin_reset bytes s prom)
  from begin_reset(2) show ?thesis
    using begin_reset(1) by (cases rule: reset_begin_cases) (auto simp: told_after_commit_def on_disk_def)
next
  case (fail_reset e s)
  from fail_reset(2) show ?thesis
    using fail_reset(1) by (cases rule: reset_begin_cases) (auto simp: told_after_commit_def on_disk_def)
next
  case (commit_reset bytes prom disk r s)
  then have "encode_applied lib (applied_default lib) = Some bytes"
    using assms(2) by (auto simp: node_ok_def)
  then show ?thesis using told_reset_commit [OF assms(1)] commit_reset by simp
next
  case (resume disk r s)
  then show ?thesis using told_resume [OF assms(1)] by simp
next
  case (capture b s)
  then show ?thesis by (auto simp: get_snapshot_builder_def told_after_commit_def on_disk_def)
next
  case (build b disk r s)
  from build(3) show ?thesis
    using build(1)
    by (cases rule: build_snapshot_cases) (auto simp: told_after_commit_def on_disk_def)
next
  case (install disk meta bytes r s)
  then show ?thesis using told_install by simp
next
  case (panic a)
  then show ?thesis by (simp add: told_after_commit_def on_disk_def)
next
  case (restart disk s)
  then show ?thesis
    using from_database_ok [OF restart(2)]
    by (simp add: told_after_commit_def) (simp add: on_disk_def)
qed

text \<open>
  C5. Observers are never told of a membership that a crash could take back. Whatever a node does
  next, with whatever disk: if the membership it announces changes, that membership is what is on
  disk, and the same holds of Raft's configuration; and once a panic has poisoned the state in
  memory, nothing of it is written, so a restart resumes from the last whole state.
\<close>

theorem announced_is_on_disk:
  assumes "lib_ok lib" and "node_reach lib cr n" and "node_step lib cr n n'"
  shows "told_after_commit lib (nd_store n) (nd_store n')"
  using told_step [OF assms(1) node_reach_ok [OF assms(2)] assms(3)] .

text \<open>A library whose codec is the identity and whose identifiers are compared by index.\<close>

definition plain_lib :: "(unit, unit applied) raft_lib" where
  "plain_lib = \<lparr>encode_applied = Some, decode_applied = Some,
     later_id = (\<lambda>x y. map_option log_index x \<noteq> None \<and>
       (y = None \<or> index_or_0 y < index_or_0 x)),
     no_config = ()\<rparr>"

lemma plain_lib_ok: "lib_ok plain_lib"
  by (auto simp: lib_ok_def plain_lib_def)

definition plain_store :: "(unit, unit applied) sm_store" where
  "plain_store = (case from_database plain_lib good_disk tables_new of Inr s \<Rightarrow> s)"

definition plain_node :: "(unit, unit applied) raft_node" where
  "plain_node = \<lparr>nd_store = plain_store, nd_builders = {}, nd_resets = {}\<rparr>"

lemma plain_store_opened: "from_database plain_lib good_disk tables_new = Inr plain_store"
  by (simp add: plain_store_def from_database_def tables_new_def Let_def)

lemma plain_node_reach: "node_reach plain_lib plain_crypto plain_node"
  unfolding plain_node_def by (rule node_reach.opened [OF plain_store_opened])

definition demo_entries :: "(member_id, unit) raft_entry list" where
  "demo_entries =
     [\<lparr>entry_id = demo_id 0, entry_payload = MembershipChange ()\<rparr>,
      \<lparr>entry_id = demo_id 1, entry_payload = Normal (snd (demo_founding [1]))\<rparr>,
      \<lparr>entry_id = demo_id 2, entry_payload = Blank\<rparr>]"

theorem announced_is_on_disk_witness:
  "\<exists>n'. node_step plain_lib plain_crypto plain_node n'
     \<and> st_published (nd_store n') \<noteq> st_published (nd_store plain_node)
     \<and> map_option ap_state (on_disk plain_lib (nd_store n')) = Some (st_published (nd_store n'))"
proof -
  let ?r = "sm_apply plain_lib plain_crypto good_disk demo_entries plain_store"
  let ?n = "plain_node\<lparr>nd_store := snd ?r\<rparr>"
  have step: "node_step plain_lib plain_crypto plain_node ?n"
    by (rule node_step.core_apply [where r = "fst ?r"]) (simp add: plain_node_def)
  have "ms_group (st_published (snd ?r)) = Some (GroupId 9)" by code_simp
  moreover have "ms_group (st_published plain_store) = None" by code_simp
  ultimately have "st_published (nd_store ?n) \<noteq> st_published (nd_store plain_node)"
    by (auto simp: plain_node_def)
  then show ?thesis
    using announced_is_on_disk [OF plain_lib_ok plain_node_reach step] step
    by (auto simp: told_after_commit_def)
qed

section \<open>Snapshots\<close>

lemma generation_grows:
  assumes "node_step lib cr n n'" and "b \<in> nd_builders n" and "nd_builders n \<subseteq> nd_builders n'"
  shows "st_generation (nd_store n) \<le> st_generation (nd_store n')"
  using assms(1)
proof (cases rule: node_step.cases)
  case (core_apply disk es r s)
  then show ?thesis using sm_apply_frame(1) [OF core_apply(2)] by simp
next
  case (follow disk up_to evs r s)
  then show ?thesis using apply_followed_frame(1) [OF follow(2)] by simp
next
  case (begin_reset bytes s prom)
  from begin_reset(2) show ?thesis using begin_reset(1) by (cases rule: reset_begin_cases) auto
next
  case (fail_reset e s)
  from fail_reset(2) show ?thesis using fail_reset(1) by (cases rule: reset_begin_cases) auto
next
  case (commit_reset bytes prom disk r s)
  from commit_reset(3) show ?thesis using commit_reset(1) by (cases rule: reset_commit_cases) auto
next
  case (resume disk r s)
  then show ?thesis using resume_following_frame(1) [OF resume(2)] by simp
next
  case (capture c s)
  then show ?thesis by (auto simp: get_snapshot_builder_def)
next
  case (build c disk r s)
  from build(3) show ?thesis using build(1) by (cases rule: build_snapshot_cases) auto
next
  case (install disk meta bytes r s)
  from install(2) show ?thesis using install(1) by (cases rule: install_snapshot_cases) auto
qed (use assms in auto)

text \<open>A run of a node that is not restarted: what it captured is still to be built.\<close>

inductive running ::
    "('m, 'b) raft_lib \<Rightarrow> ('sk, 'sig) crypto \<Rightarrow> ('m, 'b) raft_node \<Rightarrow> ('m, 'b) raft_node \<Rightarrow> bool"
  for lib cr n where
  here: "running lib cr n n"
| further: "running lib cr n m \<Longrightarrow> node_step lib cr m m' \<Longrightarrow> nd_builders m \<subseteq> nd_builders m' \<Longrightarrow>
    running lib cr n m'"

lemma running_generation:
  assumes "running lib cr n m" and "b \<in> nd_builders n"
  shows "st_generation (nd_store n) \<le> st_generation (nd_store m) \<and> b \<in> nd_builders m"
  using assms
proof (induction rule: running.induct)
  case (further m m')
  then show ?case using generation_grows [OF further.hyps(2) _ further.hyps(3)] by force
qed simp

text \<open>
  C28. A snapshot never takes the node back. What was captured before a reset is not stored after the
  reset has begun, however captures, resets, entries and builds interleave; and no build puts its
  snapshot in the place of one of a later log identifier.
\<close>

theorem snapshots_never_go_back:
  assumes "get_snapshot_builder (nd_store n) = (b, s)"
    and "running lib cr (n\<lparr>nd_store := s, nd_builders := insert b (nd_builders n)\<rparr>) m"
    and "reset_begin lib (nd_store m) = (Inr bytes, s')"
    and "running lib cr (m\<lparr>nd_store := s', nd_resets := insert (bytes, prom) (nd_resets m)\<rparr>) m'"
    and "build_snapshot lib disk b (nd_store m') = (r, t)"
    and "build_snapshot lib disk' b' u = (r', u')"
  shows "t = nd_store m' \<and>
     (\<forall>old new. tb_snapshot (st_tables u) = Some old \<longrightarrow> tb_snapshot (st_tables u') = Some new \<longrightarrow>
        new = old \<or> \<not> later_id lib (meta_last (ss_meta old)) (meta_last (ss_meta new)))"
proof
  have s: "st_generation s = st_generation (nd_store n)"
    using assms(1) by (auto simp: get_snapshot_builder_def)
  have "st_generation s \<le> st_generation (nd_store m)" and b: "b \<in> nd_builders m"
    using running_generation [OF assms(2), of b] by simp_all
  moreover have "st_generation s' = Suc (st_generation (nd_store m))"
    using assms(3) by (auto elim: reset_begin_cases)
  moreover have "st_generation s' \<le> st_generation (nd_store m')"
    using running_generation [OF assms(4), of b] b by simp
  ultimately have later: "st_generation (nd_store n) < st_generation (nd_store m')"
    using s by simp
  from assms(5) show "t = nd_store m'"
  proof (cases rule: build_snapshot_cases)
    case (stored a g bytes')
    then show ?thesis
      using assms(1) later by (auto simp: get_snapshot_builder_def sm_lock_def split: if_splits)
  qed simp
  show "\<forall>old new. tb_snapshot (st_tables u) = Some old \<longrightarrow> tb_snapshot (st_tables u') = Some new \<longrightarrow>
      new = old \<or> \<not> later_id lib (meta_last (ss_meta old)) (meta_last (ss_meta new))"
    using assms(6) by (elim build_snapshot_cases) (auto simp: meta_of_def)
qed

theorem snapshots_never_go_back_witness:
  "\<exists>t. snd (build_snapshot plain_lib good_disk (fst (get_snapshot_builder plain_store))
      (snd (reset_begin plain_lib (snd (get_snapshot_builder plain_store))))) = t
    \<and> tb_snapshot (st_tables t) = None
    \<and> tb_snapshot (st_tables (snd (build_snapshot plain_lib good_disk
        (fst (get_snapshot_builder plain_store)) plain_store))) \<noteq> None"
proof -
  let ?b = "fst (get_snapshot_builder plain_store)" and ?s = "snd (get_snapshot_builder plain_store)"
  let ?m = "plain_node\<lparr>nd_store := ?s, nd_builders := insert ?b (nd_builders plain_node)\<rparr>"
  let ?s' = "snd (reset_begin plain_lib ?s)"
  let ?m' = "?m\<lparr>nd_store := ?s', nd_resets := insert (applied_default plain_lib, None) (nd_resets ?m)\<rparr>"
  let ?t = "build_snapshot plain_lib good_disk ?b (nd_store ?m')"
  have clean: "\<not> st_poisoned plain_store"
    by (rule from_database_ok(5) [OF plain_store_opened])
  have "snd ?t = nd_store ?m' \<and>
     (\<forall>old new. tb_snapshot (st_tables plain_store) = Some old \<longrightarrow>
        tb_snapshot (st_tables (snd (build_snapshot plain_lib good_disk ?b plain_store))) = Some new \<longrightarrow>
        new = old \<or> \<not> later_id plain_lib (meta_last (ss_meta old)) (meta_last (ss_meta new)))"
    by (rule snapshots_never_go_back [where n = plain_node and m = ?m and m' = ?m' and b = ?b
          and s = ?s and s' = ?s' and bytes = "applied_default plain_lib" and prom = None
          and disk = good_disk and disk' = good_disk and b' = ?b and r = "fst ?t" and cr = plain_crypto
          and r' = "fst (build_snapshot plain_lib good_disk ?b plain_store)"])
      (use clean in \<open>simp_all add: plain_node_def running.here reset_begin_def sm_lock_def
         get_snapshot_builder_def plain_lib_def\<close>)
  moreover have "tb_snapshot (st_tables ?s') = None"
    using clean from_database_ok(1) [OF plain_store_opened]
    by (simp add: reset_begin_def sm_lock_def get_snapshot_builder_def plain_lib_def tables_new_def)
  moreover have "tb_snapshot (st_tables (snd (build_snapshot plain_lib good_disk ?b plain_store))) \<noteq> None"
    by code_simp
  ultimately show ?thesis by simp
qed

end
