(* ===== verification/Directory.thy ===== *)
theory Directory
  imports Membership_Event
begin

text \<open>
  Where members can be reached: the signed statements of \<open>distlib-core/src/addr/signed_addr.rs\<close>, the
  conversions of \<open>addr.rs\<close>, and the two sets of addresses a node keeps, \<open>distlib-net/src/directory.rs\<close>
  for what members say of themselves and \<open>addresses.rs\<close> for what the log and its sources say, with
  \<open>learn_all\<close> of \<open>distlib-consensus/src/raft/memberlog.rs\<close>.

  The parser and printer of relay urls and the encoding that is signed are arguments. iroh's lookup
  is a map from members to addresses.

  The theorem is that directories converge: what is held is determined by which statements were
  heard, not by their order, and a forged statement changes nothing.
\<close>

section \<open>Signed addresses\<close>

datatype core_error =
    BadAddressSignature member_id
  | AddressEncoding string
  | BadHeartbeatSignature member_id
  | HeartbeatTooLarge nat nat
  | HeartbeatEncoding string
  | BadBaseList string
  | InvalidRating u8
  | TextTooLong string nat nat

record 'sig signed_address =
  sa_member :: member_id
  sa_addr :: node_addr
  sa_applied :: u64
  sa_signature :: 'sig

type_synonym addr_encoder = "member_id \<times> node_addr \<times> u64 \<Rightarrow> string + u8 list"

definition addr_signing_domain :: "u8 list" where
  "addr_signing_domain = ascii ''distlib.address.v1''"

definition addr_signing_payload ::
    "addr_encoder \<Rightarrow> member_id \<Rightarrow> node_addr \<Rightarrow> u64 \<Rightarrow> core_error + u8 list" where
  "addr_signing_payload enc member addr applied =
     (case enc (member, addr, applied) of
        Inl message \<Rightarrow> Inl (AddressEncoding message)
      | Inr bytes \<Rightarrow> Inr (addr_signing_domain @ bytes))"

definition sign_address ::
    "('sk, 'sig) crypto \<Rightarrow> addr_encoder \<Rightarrow> 'sk \<Rightarrow> node_addr \<Rightarrow> u64 \<Rightarrow> core_error + 'sig signed_address" where
  "sign_address cr enc sk addr applied =
     (let member = public_of cr sk
      in case addr_signing_payload enc member addr applied of
           Inl e \<Rightarrow> Inl e
         | Inr payload \<Rightarrow>
             Inr \<lparr>sa_member = member, sa_addr = addr, sa_applied = applied,
                  sa_signature = sign_with cr sk payload\<rparr>)"

definition verify_address ::
    "('sk, 'sig) crypto \<Rightarrow> addr_encoder \<Rightarrow> 'sig signed_address \<Rightarrow> core_error + unit" where
  "verify_address cr enc s =
     (case addr_signing_payload enc (sa_member s) (sa_addr s) (sa_applied s) of
        Inl e \<Rightarrow> Inl e
      | Inr payload \<Rightarrow>
          if verifies cr (sa_member s) payload (sa_signature s) then Inr ()
          else Inl (BadAddressSignature (sa_member s)))"

definition addr_of ::
    "('sk, 'sig) crypto \<Rightarrow> addr_encoder \<Rightarrow> 'sig signed_address \<Rightarrow> core_error + node_addr" where
  "addr_of cr enc s = (case verify_address cr enc s of Inl e \<Rightarrow> Inl e | Inr _ \<Rightarrow> Inr (sa_addr s))"

lemma sign_address_reads_back:
  assumes "signature_scheme cr" and "sign_address cr enc sk addr applied = Inr s"
  shows "addr_of cr enc s = Inr addr"
  using assms
  by (auto simp: sign_address_def addr_of_def verify_address_def signature_scheme_def Let_def
      split: sum.splits)

section \<open>What iroh dials\<close>

record 'url endpoint_addr =
  ea_id :: member_id
  ea_ips :: "socket_addr set"
  ea_relays :: "'url set"

definition to_endpoint_addr ::
    "(string \<Rightarrow> 'url option) \<Rightarrow> node_addr \<Rightarrow> member_id \<Rightarrow> 'url endpoint_addr option" where
  "to_endpoint_addr parse addr member =
     (case relay addr of
        None \<Rightarrow> Some \<lparr>ea_id = member, ea_ips = direct addr, ea_relays = {}\<rparr>
      | Some url \<Rightarrow>
          map_option (\<lambda>r. \<lparr>ea_id = member, ea_ips = direct addr, ea_relays = {r}\<rparr>)
            (parse url))"

text \<open>Which of several relay urls comes first is iroh's order of them.\<close>

definition node_addr_of ::
    "('url set \<Rightarrow> 'url option) \<Rightarrow> ('url \<Rightarrow> string) \<Rightarrow> 'url endpoint_addr \<Rightarrow> node_addr" where
  "node_addr_of first print ea =
     \<lparr>relay = map_option print (first (ea_relays ea)), direct = ea_ips ea\<rparr>"

lemma node_addr_round_trip:
  assumes "to_endpoint_addr parse addr member = Some ea"
    and "\<And>url r. relay addr = Some url \<Longrightarrow> parse url = Some r \<Longrightarrow> print r = url"
    and "first {} = None" and "\<And>r. first {r} = Some r"
  shows "node_addr_of first print ea = addr"
  using assms by (auto simp: to_endpoint_addr_def node_addr_of_def split: option.splits)

text \<open>\<open>MemoryLookup\<close>: adding merges what is held for an id, removing forgets it.\<close>

definition add_endpoint_info ::
    "'url endpoint_addr \<Rightarrow> (member_id, 'url endpoint_addr) btmap
      \<Rightarrow> (member_id, 'url endpoint_addr) btmap" where
  "add_endpoint_info ea m =
     bt_insert (ea_id ea)
       (case bt_get m (ea_id ea) of
          None \<Rightarrow> ea
        | Some held \<Rightarrow> held\<lparr>ea_ips := ea_ips held \<union> ea_ips ea,
                            ea_relays := ea_relays held \<union> ea_relays ea\<rparr>) m"

section \<open>The address book\<close>

definition book_learn ::
    "(string \<Rightarrow> 'url option) \<Rightarrow> member_id \<Rightarrow> node_addr \<Rightarrow> (member_id, 'url endpoint_addr) btmap
      \<Rightarrow> (member_id, 'url endpoint_addr) btmap" where
  "book_learn parse member addr book =
     (if relay addr = None \<and> direct addr = {} then book
      else case to_endpoint_addr parse addr member of
        None \<Rightarrow> book
      | Some ea \<Rightarrow> add_endpoint_info ea book)"

definition book_learn_all ::
    "(string \<Rightarrow> 'url option) \<Rightarrow> (member_id \<times> node_addr) list
      \<Rightarrow> (member_id, 'url endpoint_addr) btmap \<Rightarrow> (member_id, 'url endpoint_addr) btmap" where
  "book_learn_all parse = fold (\<lambda>(member, addr). book_learn parse member addr)"

section \<open>The directory\<close>

datatype net_error = BadAddress member_id core_error

record ('sig, 'url) directory =
  dir_lookup :: "(member_id, 'url endpoint_addr) btmap"
  dir_signed :: "(member_id, 'sig signed_address) btmap"
  dir_learned :: u64

definition directory_new :: "('sig, 'url) directory" where
  "directory_new = \<lparr>dir_lookup = bt_empty, dir_signed = bt_empty, dir_learned = 0\<rparr>"

definition learn ::
    "('sk, 'sig) crypto \<Rightarrow> addr_encoder \<Rightarrow> (string \<Rightarrow> 'url option) \<Rightarrow> 'sig signed_address
      \<Rightarrow> ('sig, 'url) directory \<Rightarrow> (net_error + bool) \<times> ('sig, 'url) directory" where
  "learn cr enc parse announced d =
     (let member = sa_member announced
      in case addr_of cr enc announced of
           Inl e \<Rightarrow> (Inl (BadAddress member e), d)
         | Inr addr \<Rightarrow>
             if relay addr = None \<and> direct addr = {} then (Inr False, d)
             else (case to_endpoint_addr parse addr member of
                None \<Rightarrow> (Inr False, d)
              | Some ea \<Rightarrow>
                  if (case bt_get (dir_signed d) member of
                        None \<Rightarrow> False | Some held \<Rightarrow> sa_applied announced < sa_applied held)
                  then (Inr False, d)
                  else if bt_get (dir_lookup d) member = Some ea
                  then (Inr False, d\<lparr>dir_signed := bt_insert member announced (dir_signed d)\<rparr>)
                  else (Inr True,
                    d\<lparr>dir_lookup := add_endpoint_info ea (bt_remove member (dir_lookup d)),
                      dir_signed := bt_insert member announced (dir_signed d),
                      dir_learned := dir_learned d + 1\<rparr>)))"

definition position_of :: "('sig, 'url) directory \<Rightarrow> member_id \<Rightarrow> u64 option" where
  "position_of d member = map_option sa_applied (bt_get (dir_signed d) member)"

definition everything :: "('sig, 'url) directory \<Rightarrow> 'sig signed_address list" where
  "everything d = bt_values (dir_signed d)"

definition address_of ::
    "('url set \<Rightarrow> 'url option) \<Rightarrow> ('url \<Rightarrow> string) \<Rightarrow> ('sig, 'url) directory \<Rightarrow> member_id
      \<Rightarrow> node_addr option" where
  "address_of first print d member =
     map_option (node_addr_of first print) (bt_get (dir_lookup d) member)"

text \<open>Verifying and recording each relayed statement, and how many changed anything.\<close>

fun learn_all ::
    "('sk, 'sig) crypto \<Rightarrow> addr_encoder \<Rightarrow> (string \<Rightarrow> 'url option) \<Rightarrow> 'sig signed_address list
      \<Rightarrow> ('sig, 'url) directory \<Rightarrow> nat \<times> ('sig, 'url) directory" where
  "learn_all cr enc parse [] d = (0, d)"
| "learn_all cr enc parse (s # ss) d =
     (case learn cr enc parse s d of
        (verdict, d') \<Rightarrow>
          (case learn_all cr enc parse ss d' of
             (n, d'') \<Rightarrow> ((if verdict = Inr True then Suc n else n), d'')))"

section \<open>Convergence\<close>

text \<open>
  A statement that can change anything: signed by the member it is about, and naming an address that
  can be dialled.
\<close>

definition usable ::
    "('sk, 'sig) crypto \<Rightarrow> addr_encoder \<Rightarrow> (string \<Rightarrow> 'url option) \<Rightarrow> 'sig signed_address \<Rightarrow> bool" where
  "usable cr enc parse s \<longleftrightarrow>
     verify_address cr enc s = Inr () \<and> \<not> addr_is_empty (sa_addr s) \<and>
     to_endpoint_addr parse (sa_addr s) (sa_member s) \<noteq> None"

abbreviation dialled ::
    "(string \<Rightarrow> 'url option) \<Rightarrow> 'sig signed_address \<Rightarrow> 'url endpoint_addr" where
  "dialled parse s \<equiv> the (to_endpoint_addr parse (sa_addr s) (sa_member s))"

text \<open>Which of the statement held and the one heard is held afterwards.\<close>

definition fresher ::
    "'sig signed_address option \<Rightarrow> 'sig signed_address \<Rightarrow> 'sig signed_address option" where
  "fresher held s =
     (case held of Some h \<Rightarrow> if sa_applied s < sa_applied h then Some h else Some s | None \<Rightarrow> Some s)"

text \<open>What iroh would dial is what the statement held says.\<close>

definition dir_ok :: "(string \<Rightarrow> 'url option) \<Rightarrow> ('sig, 'url) directory \<Rightarrow> bool" where
  "dir_ok parse d \<longleftrightarrow>
     (\<forall>m. bt_get (dir_lookup d) m = map_option (dialled parse) (bt_get (dir_signed d) m))"

lemma to_endpoint_addr_id: "to_endpoint_addr parse addr member = Some ea \<Longrightarrow> ea_id ea = member"
  by (auto simp: to_endpoint_addr_def split: option.splits)

lemma learn_unusable:
  assumes "\<not> usable cr enc parse s"
  shows "snd (learn cr enc parse s d) = d"
  using assms
  by (auto simp: usable_def learn_def addr_of_def addr_is_empty_def Let_def
      split: sum.splits option.splits)

lemma learn_usable:
  assumes "usable cr enc parse s" and "dir_ok parse d" and "learn cr enc parse s d = (verdict, d')"
  shows "bt_get (dir_signed d') m =
      (if m = sa_member s then fresher (bt_get (dir_signed d) m) s else bt_get (dir_signed d) m)"
    and "dir_ok parse d'"
proof -
  obtain ea where ea: "to_endpoint_addr parse (sa_addr s) (sa_member s) = Some ea"
    using assms(1) by (auto simp: usable_def)
  note id = to_endpoint_addr_id [OF ea]
  have l: "learn cr enc parse s d =
      (if (case bt_get (dir_signed d) (sa_member s) of
             None \<Rightarrow> False | Some held \<Rightarrow> sa_applied s < sa_applied held)
       then (Inr False, d)
       else if bt_get (dir_lookup d) (sa_member s) = Some ea
       then (Inr False, d\<lparr>dir_signed := bt_insert (sa_member s) s (dir_signed d)\<rparr>)
       else (Inr True,
         d\<lparr>dir_lookup := add_endpoint_info ea (bt_remove (sa_member s) (dir_lookup d)),
           dir_signed := bt_insert (sa_member s) s (dir_signed d),
           dir_learned := dir_learned d + 1\<rparr>))"
    using assms(1) ea by (auto simp: usable_def learn_def addr_of_def addr_is_empty_def Let_def)
  show "bt_get (dir_signed d') m =
      (if m = sa_member s then fresher (bt_get (dir_signed d) m) s else bt_get (dir_signed d) m)"
    using assms(3) by (auto simp: l fresher_def split: if_splits option.splits)
  have look: "bt_get (add_endpoint_info ea (bt_remove (sa_member s) (dir_lookup d))) k =
      (if k = sa_member s then Some ea else bt_get (dir_lookup d) k)" for k
    by (simp add: add_endpoint_info_def id)
  show "dir_ok parse d'"
    using assms(2,3) by (auto simp: l dir_ok_def look ea split: if_splits)
qed

text \<open>What is held for a member after a list of statements: a fold over the usable ones about it.\<close>

definition held_after ::
    "'sig signed_address list \<Rightarrow> member_id \<Rightarrow> 'sig signed_address option \<Rightarrow> 'sig signed_address option" where
  "held_after ss m h = fold (\<lambda>s h. fresher h s) (filter (\<lambda>s. sa_member s = m) ss) h"

lemma learn_all_held:
  assumes "dir_ok parse d" and "learn_all cr enc parse ss d = (n, d')"
  shows "bt_get (dir_signed d') m =
      held_after (filter (usable cr enc parse) ss) m (bt_get (dir_signed d) m) \<and> dir_ok parse d'"
  using assms
proof (induction ss arbitrary: d n)
  case Nil
  then show ?case by (simp add: held_after_def)
next
  case (Cons s ss)
  obtain verdict d1 where d1: "learn cr enc parse s d = (verdict, d1)" by fastforce
  obtain k where d2: "learn_all cr enc parse ss d1 = (k, d')"
    using Cons.prems(2) by (auto simp: d1 split: prod.splits)
  have "dir_ok parse d1 \<and> bt_get (dir_signed d1) m =
      (if usable cr enc parse s \<and> m = sa_member s then fresher (bt_get (dir_signed d) m) s
       else bt_get (dir_signed d) m)"
    using learn_usable [OF _ Cons.prems(1) d1] learn_unusable [of cr enc parse s d] d1 Cons.prems(1)
    by (cases "usable cr enc parse s") simp_all
  with Cons.IH [OF _ d2] show ?case by (auto simp: held_after_def)
qed

text \<open>The last of the statements with the highest position.\<close>

lemma fold_fresher:
  assumes "fold (\<lambda>s h. fresher h s) ss h = r"
  shows "(\<forall>s \<in> set ss \<union> set_option h. \<exists>x. r = Some x \<and> sa_applied s \<le> sa_applied x) \<and>
    (\<forall>x. r = Some x \<longrightarrow> x \<in> set ss \<union> set_option h)"
  using assms
proof (induction ss arbitrary: h)
  case (Cons s ss)
  have step: "(\<forall>y \<in> insert s (set_option h). \<exists>x. fresher h s = Some x \<and> sa_applied y \<le> sa_applied x) \<and>
      (\<forall>x. fresher h s = Some x \<longrightarrow> x \<in> insert s (set_option h))"
    by (auto simp: fresher_def not_less split: option.splits)
  with Cons.IH [of "fresher h s"] Cons.prems show ?case
    by (fastforce intro: order_trans)
qed auto

lemma held_after_spec:
  assumes "held_after ss m None = r"
  shows "(\<forall>s \<in> set ss. sa_member s = m \<longrightarrow> (\<exists>x. r = Some x \<and> sa_applied s \<le> sa_applied x)) \<and>
    (\<forall>x. r = Some x \<longrightarrow> x \<in> set ss \<and> sa_member x = m)"
  using fold_fresher [OF assms [unfolded held_after_def]] by auto

lemma dir_ok_new: "dir_ok parse directory_new"
  by (simp add: dir_ok_def directory_new_def)

text \<open>
  C30. Directories converge. Take two nodes that hear the same statements, in any order, any number of
  times, forged ones and useless ones among them, where no member signs two different addresses for
  one position. Both end up holding the same statement for every member, and both would dial the same
  address; what is held for a member is a statement of its own that verifies, at the highest position
  of those that do.
\<close>

theorem directories_converge:
  fixes parse :: "string \<Rightarrow> 'url option" and ss :: "'sig signed_address list"
  assumes "set ss = set ts"
    and "\<And>s t. s \<in> set ss \<Longrightarrow> t \<in> set ss \<Longrightarrow> usable cr enc parse s \<Longrightarrow> usable cr enc parse t \<Longrightarrow>
      sa_member s = sa_member t \<Longrightarrow> sa_applied s = sa_applied t \<Longrightarrow> s = t"
    and "learn_all cr enc parse ss directory_new = (n, d)"
    and "learn_all cr enc parse ts directory_new = (k, e)"
  shows "dir_signed d = dir_signed e \<and> dir_lookup d = dir_lookup e \<and>
    (\<forall>m. case bt_get (dir_signed d) m of
       None \<Rightarrow> \<forall>s \<in> set ss. usable cr enc parse s \<longrightarrow> sa_member s \<noteq> m
     | Some x \<Rightarrow> x \<in> set ss \<and> usable cr enc parse x \<and> sa_member x = m \<and>
         bt_get (dir_lookup d) m = Some (dialled parse x) \<and>
         (\<forall>s \<in> set ss. usable cr enc parse s \<and> sa_member s = m \<longrightarrow> sa_applied s \<le> sa_applied x))"
proof -
  have d: "bt_get (dir_signed d) m = held_after (filter (usable cr enc parse) ss) m None" for m
    using learn_all_held [OF dir_ok_new assms(3), of m] by (simp add: directory_new_def)
  have e: "bt_get (dir_signed e) m = held_after (filter (usable cr enc parse) ts) m None" for m
    using learn_all_held [OF dir_ok_new assms(4), of m] by (simp add: directory_new_def)
  have ok: "dir_ok parse d" "dir_ok parse e"
    using learn_all_held [OF dir_ok_new assms(3)] learn_all_held [OF dir_ok_new assms(4)] by auto
  note hd = held_after_spec [OF d [symmetric]] and he = held_after_spec [OF e [symmetric]]
  have same: "bt_get (dir_signed d) m = bt_get (dir_signed e) m" for m
  proof (cases "bt_get (dir_signed d) m"; cases "bt_get (dir_signed e) m")
    fix x y
    assume x: "bt_get (dir_signed d) m = Some x" and y: "bt_get (dir_signed e) m = Some y"
    have xs: "x \<in> set ss" "usable cr enc parse x" "sa_member x = m"
      using hd [of m] x by simp_all
    have ys: "y \<in> set ss" "usable cr enc parse y" "sa_member y = m"
      using he [of m] y assms(1) by simp_all
    have "sa_applied y \<le> sa_applied x" using hd [of m] x ys by simp
    moreover have "sa_applied x \<le> sa_applied y" using he [of m] y xs assms(1) by simp
    ultimately have "x = y" using assms(2) [OF xs(1) ys(1) xs(2) ys(2)] xs(3) ys(3) by simp
    with x y show ?thesis by simp
  qed (use hd [of m] he [of m] assms(1) in auto)
  then have "dir_signed d = dir_signed e" by (rule bt_ext)
  moreover have "dir_lookup d = dir_lookup e"
    using ok same by (intro bt_ext) (simp add: dir_ok_def)
  moreover have "case bt_get (dir_signed d) m of
       None \<Rightarrow> \<forall>s \<in> set ss. usable cr enc parse s \<longrightarrow> sa_member s \<noteq> m
     | Some x \<Rightarrow> x \<in> set ss \<and> usable cr enc parse x \<and> sa_member x = m \<and>
         bt_get (dir_lookup d) m = Some (dialled parse x) \<and>
         (\<forall>s \<in> set ss. usable cr enc parse s \<and> sa_member s = m \<longrightarrow> sa_applied s \<le> sa_applied x)" for m
  proof -
    have "bt_get (dir_lookup d) m = map_option (dialled parse) (bt_get (dir_signed d) m)"
      using ok(1) by (simp add: dir_ok_def)
    with hd [of m] show ?thesis by (cases "bt_get (dir_signed d) m") simp_all
  qed
  ultimately show ?thesis by blast
qed

definition demo_encoder :: addr_encoder where
  "demo_encoder = (\<lambda>(m, a, n). Inr (le_bytes 8 n))"

definition demo_statement :: "256 word \<Rightarrow> 16 word \<Rightarrow> u64 \<Rightarrow> member_id signed_address" where
  "demo_statement m port n =
     \<lparr>sa_member = MemberId m, sa_addr = with_direct lookup_only (SocketV4 0 port), sa_applied = n,
      sa_signature = MemberId m\<rparr>"

theorem directories_converge_witness:
  "let forged = (demo_statement 1 9 9)\<lparr>sa_signature := MemberId 2\<rparr>;
       old = demo_statement 1 7 2; new = demo_statement 1 8 3;
       d = snd (learn_all plain_crypto demo_encoder Some [new, forged, old] directory_new);
       e = snd (learn_all plain_crypto demo_encoder Some [old, new, new, forged] directory_new)
   in dir_signed d = dir_signed e \<and> bt_get (dir_signed d) (MemberId 1) = Some new"
proof -
  let ?new = "demo_statement 1 8 3" and ?old = "demo_statement 1 7 2"
  let ?forged = "(demo_statement 1 9 9)\<lparr>sa_signature := MemberId 2\<rparr>"
  let ?d = "learn_all plain_crypto demo_encoder Some [?new, ?forged, ?old] directory_new"
  let ?e = "learn_all plain_crypto demo_encoder Some [?old, ?new, ?new, ?forged] directory_new"
  have forged: "\<not> usable plain_crypto demo_encoder Some ?forged"
    by (simp add: usable_def verify_address_def addr_signing_payload_def demo_encoder_def
        demo_statement_def plain_crypto_def)
  have good: "usable plain_crypto demo_encoder Some ?new" "usable plain_crypto demo_encoder Some ?old"
    by (simp_all add: usable_def verify_address_def addr_signing_payload_def demo_encoder_def
        demo_statement_def plain_crypto_def addr_is_empty_def with_direct_def lookup_only_def
        to_endpoint_addr_def)
  have all: "dir_signed (snd ?d) = dir_signed (snd ?e) \<and> dir_lookup (snd ?d) = dir_lookup (snd ?e) \<and>
    (\<forall>m. case bt_get (dir_signed (snd ?d)) m of
       None \<Rightarrow> \<forall>s \<in> set [?new, ?forged, ?old]. usable plain_crypto demo_encoder Some s \<longrightarrow> sa_member s \<noteq> m
     | Some x \<Rightarrow> x \<in> set [?new, ?forged, ?old] \<and> usable plain_crypto demo_encoder Some x \<and> sa_member x = m \<and>
         bt_get (dir_lookup (snd ?d)) m = Some (dialled Some x) \<and>
         (\<forall>s \<in> set [?new, ?forged, ?old]. usable plain_crypto demo_encoder Some s \<and> sa_member s = m \<longrightarrow>
            sa_applied s \<le> sa_applied x))"
  proof (rule directories_converge)
    show "set [?new, ?forged, ?old] = set [?old, ?new, ?new, ?forged]" by auto
    show "?d = (fst ?d, snd ?d)" and "?e = (fst ?e, snd ?e)" by (rule prod.collapse [symmetric])+
    fix s t
    assume "s \<in> set [?new, ?forged, ?old]" "t \<in> set [?new, ?forged, ?old]"
      "usable plain_crypto demo_encoder Some s" "usable plain_crypto demo_encoder Some t"
      "sa_applied s = sa_applied t"
    with forged show "s = t" by (auto simp: demo_statement_def)
  qed
  then have "case bt_get (dir_signed (snd ?d)) (MemberId 1) of
       None \<Rightarrow> False | Some x \<Rightarrow> x \<in> {?new, ?forged, ?old} \<and> usable plain_crypto demo_encoder Some x \<and> 3 \<le> sa_applied x"
    using good by (auto simp: demo_statement_def split: option.splits)
  then have "bt_get (dir_signed (snd ?d)) (MemberId 1) = Some ?new"
    using forged by (auto simp: demo_statement_def split: option.splits)
  with all show ?thesis by (simp only: Let_def)
qed

end
