(* ===== verification/Memberlog.thy ===== *)
theory Memberlog
  imports Raft_State Directory
begin

text \<open>
  \<open>distlib/memberlog/0\<close>: what a member says to a core node about the log, both halves of
  \<open>distlib-consensus/src/raft/memberlog.rs\<close>, with the seat of \<open>seat.rs\<close>. A core node serves pages of
  the events it has applied, answers where members say they are, and commits or forwards proposals; a
  node without a seat serves what it has from before, and redirects.

  openraft's configurations and metrics are arguments, as are its answer to a write and what comes back
  over a connection. The time a request takes is not modelled, only that it may run out.
\<close>

section \<open>Requests and answers\<close>

record source =
  src_core :: "(member_id \<times> node_addr) list"
  src_leader :: "member_id option"

datatype 'sig fetched_log =
    Entries u64 "(u64 \<times> 'sig signed_event) list" bool source
  | NoGroup
  | Redirect source

datatype propose_outcome =
    AppliedAt u64
  | RejectedBy consensus_error
  | NotCommitted string

datatype 'sig request =
    Propose "'sig signed_event"
  | FromCursor u64
  | DirectoryOf

datatype 'sig response =
    Proposed propose_outcome
  | FetchedLog "'sig fetched_log"
  | DirectoryIs "'sig signed_address list"

datatype failure = Unreachable | RefusedUs | CannotDecode

record fetch_failed =
  ff_member :: member_id
  ff_message :: string
  ff_why :: failure

datatype propose_error =
    PeerUnreachable member_id string
  | LeaderDidNotCommit string
  | ProposalRejected consensus_error

definition EVENTS_PER_FETCH :: nat where
  "EVENTS_PER_FETCH = 1000"

definition BYTES_PER_FETCH :: nat where
  "BYTES_PER_FETCH = 4 * 1024 * 1024"

section \<open>The seat\<close>

text \<open>Whether this node has a Raft, and which.\<close>

type_synonym 'raft seat = "'raft option"

definition seat_take :: "'raft \<Rightarrow> 'raft seat \<Rightarrow> 'raft seat" where
  "seat_take raft seat = Some raft"

definition seat_vacate :: "'raft seat \<Rightarrow> 'raft option \<times> 'raft seat" where
  "seat_vacate seat = (seat, None)"

definition is_taken :: "'raft seat \<Rightarrow> bool" where
  "is_taken seat \<longleftrightarrow> seat \<noteq> None"

section \<open>Where to ask next\<close>

text \<open>openraft's view of a configuration, and the check of raw identifiers.\<close>

record 'm config_api =
  voter_ids :: "'m \<Rightarrow> raw_member_id list"
  get_node :: "'m \<Rightarrow> raw_member_id \<Rightarrow> node_addr option"
  on_curve :: "256 word \<Rightarrow> bool"

record 'm raft_metrics =
  mx_config :: 'm
  mx_leader :: "raw_member_id option"

definition voters_with_addresses :: "'m config_api \<Rightarrow> 'm \<Rightarrow> (member_id \<times> node_addr) list" where
  "voters_with_addresses api m =
     List.map_filter
       (\<lambda>raw. case member_of_raw (on_curve api) raw of
          None \<Rightarrow> None
        | Some member \<Rightarrow> map_option (Pair member) (get_node api m raw))
       (voter_ids api m)"

definition source_of :: "'m config_api \<Rightarrow> 'm raft_metrics \<Rightarrow> source" where
  "source_of api metrics =
     \<lparr>src_core = voters_with_addresses api (mx_config metrics),
      src_leader = Option.bind (mx_leader metrics) (member_of_raw (on_curve api))\<rparr>"

section \<open>Answering\<close>

definition page_end :: "u64 \<Rightarrow> 'sig log_page \<Rightarrow> u64" where
  "page_end applied page =
     (if lp_events page \<noteq> [] \<and> lp_cut_short page then fst (last (lp_events page)) else applied)"

definition memberlog_fetch ::
    "'m config_api \<Rightarrow> (('sig, 'm) raft_entry \<Rightarrow> nat) \<Rightarrow> disk \<Rightarrow> ('sig, 'm, 'vote) log_store \<Rightarrow> ('m, 'b) sm_store
      \<Rightarrow> 'm raft_metrics option \<Rightarrow> u64 \<Rightarrow> 'sig fetched_log" where
  "memberlog_fetch api size_of disk log sm raft cursor =
     (if ms_group (sm_membership sm) = None then NoGroup
      else
        (let applied = last_applied_index sm
         in case events_after size_of disk log cursor applied EVENTS_PER_FETCH BYTES_PER_FETCH of
              Inl e \<Rightarrow> NoGroup
            | Inr page \<Rightarrow>
                (let up_to = page_end applied page
                 in Entries up_to (lp_events page) (up_to < applied)
                      (case raft of
                         None \<Rightarrow> \<lparr>src_core = voters_with_addresses api (stm_config (st_raft_published sm)),
                                   src_leader = None\<rparr>
                       | Some metrics \<Rightarrow> source_of api metrics))))"

definition serve_directory ::
    "('sig, 'url) directory \<Rightarrow> ('m, 'b) sm_store \<Rightarrow> 'sig signed_address list" where
  "serve_directory dir sm =
     filter (\<lambda>s. is_member (sm_membership sm) (sa_member s)) (everything dir)"

text \<open>
  What openraft answers to a write: the entry's verdict and index, that another node leads (with its
  address, if it knows it, and how that reads as an error), or a failure.
\<close>

datatype client_write =
    Wrote "consensus_error + unit" u64
  | ForwardToLeader "raw_member_id option" "node_addr option" string
  | WriteFailed string

definition forward :: "propose_error + u64 \<Rightarrow> string \<Rightarrow> propose_outcome" where
  "forward answer unreachable =
     (case answer of
        Inr index \<Rightarrow> AppliedAt index
      | Inl (ProposalRejected e) \<Rightarrow> RejectedBy e
      | Inl (LeaderDidNotCommit message) \<Rightarrow> NotCommitted message
      | Inl (PeerUnreachable m message) \<Rightarrow> NotCommitted unreachable)"

text \<open>
  A proposal is handed on only for a sender that is not of the core; \<open>forwarded\<close> is what the leader
  answered then, and \<open>printed\<close> how a failure reads.
\<close>

definition commit_or_forward ::
    "(raw_member_id \<Rightarrow> node_addr \<Rightarrow> propose_error + u64) \<Rightarrow> (propose_error \<Rightarrow> string) \<Rightarrow> ('m, 'b) sm_store
      \<Rightarrow> member_id \<Rightarrow> client_write \<Rightarrow> propose_outcome" where
  "commit_or_forward forwarded printed sm sender wrote =
     (case wrote of
        Wrote verdict index \<Rightarrow>
          (case verdict of Inr _ \<Rightarrow> AppliedAt index | Inl e \<Rightarrow> RejectedBy e)
      | ForwardToLeader (Some leader) (Some addr) message \<Rightarrow>
          if \<not> is_core (sm_membership sm) sender
          then (let answer = forwarded leader addr
                in forward answer (case answer of Inl e \<Rightarrow> printed e | Inr _ \<Rightarrow> []))
          else NotCommitted message
      | ForwardToLeader _ _ message \<Rightarrow> NotCommitted message
      | WriteFailed message \<Rightarrow> NotCommitted message)"

definition memberlog_propose ::
    "('sk, 'sig) crypto \<Rightarrow> (raw_member_id \<Rightarrow> node_addr \<Rightarrow> propose_error + u64) \<Rightarrow> (propose_error \<Rightarrow> string)
      \<Rightarrow> ('m, 'b) sm_store \<Rightarrow> member_id \<Rightarrow> 'sig signed_event \<Rightarrow> client_write option \<Rightarrow> propose_outcome" where
  "memberlog_propose cr forwarded printed sm sender event wrote =
     (case (case event_of cr event of Inl e \<Rightarrow> Inl e | Inr ev \<Rightarrow> within_limits ev) of
        Inl e \<Rightarrow> RejectedBy e
      | Inr _ \<Rightarrow>
          (case wrote of
             None \<Rightarrow> NotCommitted ''the entry did not commit within 30s''
           | Some w \<Rightarrow> commit_or_forward forwarded printed sm sender w))"

text \<open>
  One request on a connection: the answer, or that the connection is closed to a peer that is not a
  voter's to serve.
\<close>

record ('sk, 'sig, 'm, 'b, 'vote, 'url) memberlog_protocol =
  mp_api :: "'m config_api"
  mp_size_of :: "('sig, 'm) raft_entry \<Rightarrow> nat"
  mp_crypto :: "('sk, 'sig) crypto"
  mp_forwarded :: "raw_member_id \<Rightarrow> node_addr \<Rightarrow> propose_error + u64"
  mp_printed :: "propose_error \<Rightarrow> string"
  mp_seat :: "'m raft_metrics seat"
  mp_log :: "('sig, 'm, 'vote) log_store"
  mp_state :: "('m, 'b) sm_store"
  mp_directory :: "('sig, 'url) directory"

definition answer ::
    "('sk, 'sig, 'm, 'b, 'vote, 'url) memberlog_protocol \<Rightarrow> disk \<Rightarrow> 'm raft_metrics \<Rightarrow> member_id
      \<Rightarrow> client_write option \<Rightarrow> 'sig request \<Rightarrow> 'sig response" where
  "answer mp disk raft sender wrote req =
     (case req of
        Propose event \<Rightarrow>
          Proposed (memberlog_propose (mp_crypto mp) (mp_forwarded mp) (mp_printed mp) (mp_state mp)
            sender event wrote)
      | FromCursor cursor \<Rightarrow>
          FetchedLog (memberlog_fetch (mp_api mp) (mp_size_of mp) disk (mp_log mp) (mp_state mp)
            (Some raft) cursor)
      | DirectoryOf \<Rightarrow> DirectoryIs (serve_directory (mp_directory mp) (mp_state mp)))"

definition accept_request ::
    "('sk, 'sig, 'm, 'b, 'vote, 'url) memberlog_protocol \<Rightarrow> disk \<Rightarrow> member_id \<Rightarrow> client_write option
      \<Rightarrow> 'sig request \<Rightarrow> 'sig response option" where
  "accept_request mp disk sender wrote req =
     (case mp_seat mp of
        Some raft \<Rightarrow> Some (answer mp disk raft sender wrote req)
      | None \<Rightarrow>
          (case req of
             FromCursor cursor \<Rightarrow>
               if cursor < last_applied_index (mp_state mp)
               then Some (FetchedLog (memberlog_fetch (mp_api mp) (mp_size_of mp) disk (mp_log mp)
                      (mp_state mp) None cursor))
               else Some (FetchedLog (Redirect
                      \<lparr>src_core = core_addresses (mp_state mp), src_leader = None\<rparr>))
           | _ \<Rightarrow> None))"

section \<open>Asking\<close>

record rebuffed =
  rb_message :: string
  rb_why :: failure

text \<open>What came of an exchange: nothing in time, a failure, or an answer.\<close>

type_synonym 'sig exchanged = "(rebuffed + 'sig response) option"

definition client_propose :: "member_id \<Rightarrow> 'sig exchanged \<Rightarrow> propose_error + u64" where
  "client_propose member got =
     (case got of
        None \<Rightarrow> Inl (PeerUnreachable member ''no answer within 45s'')
      | Some (Inl rebuffed) \<Rightarrow> Inl (PeerUnreachable member (rb_message rebuffed))
      | Some (Inr (Proposed (AppliedAt index))) \<Rightarrow> Inr index
      | Some (Inr (Proposed (RejectedBy e))) \<Rightarrow> Inl (ProposalRejected e)
      | Some (Inr (Proposed (NotCommitted message))) \<Rightarrow> Inl (LeaderDidNotCommit message)
      | Some (Inr _) \<Rightarrow>
          Inl (LeaderDidNotCommit ''the peer answered something other than a proposal''))"

definition propose_to_leader ::
    "(256 word \<Rightarrow> bool) \<Rightarrow> (member_id \<Rightarrow> 'sig exchanged) \<Rightarrow> string \<Rightarrow> raw_member_id \<Rightarrow> propose_error + u64" where
  "propose_to_leader curve exchange not_a_member leader =
     (case member_of_raw curve leader of
        None \<Rightarrow> Inl (LeaderDidNotCommit not_a_member)
      | Some member \<Rightarrow> client_propose member (exchange member))"

definition client_fetch ::
    "(string \<Rightarrow> 'url option) \<Rightarrow> member_id \<Rightarrow> 'sig exchanged \<Rightarrow> (member_id, 'url endpoint_addr) btmap
      \<Rightarrow> (fetch_failed + 'sig fetched_log) \<times> (member_id, 'url endpoint_addr) btmap" where
  "client_fetch parse member got book =
     (let failed = (\<lambda>message. \<lparr>ff_member = member, ff_message = message, ff_why = Unreachable\<rparr>)
      in case got of
           None \<Rightarrow> (Inl (failed ''no answer within 5s''), book)
         | Some (Inl rebuffed) \<Rightarrow>
             (Inl \<lparr>ff_member = member, ff_message = rb_message rebuffed, ff_why = rb_why rebuffed\<rparr>, book)
         | Some (Inr (FetchedLog fetched)) \<Rightarrow>
             (Inr fetched,
              (case fetched of
                 Entries _ _ _ source \<Rightarrow> book_learn_all parse (src_core source) book
               | Redirect source \<Rightarrow> book_learn_all parse (src_core source) book
               | NoGroup \<Rightarrow> book))
         | Some (Inr _) \<Rightarrow> (Inl (failed ''the peer answered something other than a fetch''), book))"

definition client_directory ::
    "('sk, 'sig) crypto \<Rightarrow> addr_encoder \<Rightarrow> (string \<Rightarrow> 'url option) \<Rightarrow> member_id \<Rightarrow> 'sig exchanged
      \<Rightarrow> ('sig, 'url) directory \<Rightarrow> (fetch_failed + nat) \<times> ('sig, 'url) directory" where
  "client_directory cr enc parse member got dir =
     (let failed = (\<lambda>message. \<lparr>ff_member = member, ff_message = message, ff_why = Unreachable\<rparr>)
      in case got of
           None \<Rightarrow> (Inl (failed ''no answer within 5s''), dir)
         | Some (Inl rebuffed) \<Rightarrow>
             (Inl \<lparr>ff_member = member, ff_message = rb_message rebuffed, ff_why = rb_why rebuffed\<rparr>, dir)
         | Some (Inr (DirectoryIs addresses)) \<Rightarrow>
             (case learn_all cr enc parse addresses dir of (n, dir') \<Rightarrow> (Inr n, dir'))
         | Some (Inr _) \<Rightarrow>
             (Inl (failed ''the peer answered something other than a directory''), dir))"

end
