(* ===== verification/Following.thy ===== *)
theory Following
  imports Memberlog Settling
begin

text \<open>
  Following the log without voting on it: \<open>distlib-consensus/src/raft/follower.rs\<close>. A pass asks core
  nodes one after another until one hands over entries, folds those in, and says what came of it; the
  loop decides from that how long to wait, and stops when this node is expelled or its build is too
  old.

  What each core node answers is a function of the member asked, since a pass asks nobody twice. The
  search along referrals ends because it asks at most 32 members.

  The theorems: a follower of an honest leader comes to the membership the leader has, in as many
  passes as there are pages; and what happens when a page cannot be stored.
\<close>

section \<open>Sources\<close>

definition IDLE_POLL :: duration where "IDLE_POLL = 30 * 1000000000"
definition RETRY_DELAY :: duration where "RETRY_DELAY = 1000000000"
definition REFUSED_BACKOFF :: duration where "REFUSED_BACKOFF = 60 * 1000000000"

type_synonym sources = source

definition follow_candidates :: "sources \<Rightarrow> member_id \<Rightarrow> (member_id \<times> node_addr) list" where
  "follow_candidates s me =
     sort_key (\<lambda>(member, _). Some member \<noteq> src_leader s) (filter (\<lambda>(member, _). member \<noteq> me) (src_core s))"

section \<open>One pass\<close>

datatype progress =
    Fetched bool
  | UpToDate
  | Refused
  | NobodyReached
  | NotStored
  | NoSources
  | NotDecodable

record answers =
  an_refusals :: nat
  an_otherwise :: nat
  an_undecodable :: nat

definition no_answers :: answers where
  "no_answers = \<lparr>an_refusals = 0, an_otherwise = 0, an_undecodable = 0\<rparr>"

definition answers_progress :: "answers \<Rightarrow> progress" where
  "answers_progress a =
     (if 0 < an_refusals a \<and> an_otherwise a = 0 then Refused
      else if 0 < an_undecodable a \<and> an_undecodable a = an_otherwise a then NotDecodable
      else NobodyReached)"

text \<open>What the search ended with: the entries of the member that gave some, or the answers of all.\<close>

datatype 'sig search_end = FoundEntries member_id u64 "(u64 \<times> 'sig signed_event) list" bool | NobodyGave answers

record 'sig searched =
  sr_found :: "'sig search_end"
  sr_sources :: sources
  sr_visited :: "member_id btset"
  sr_asked :: "(member_id \<times> node_addr) list"

text \<open>
  The loop over candidates: a queue that referrals extend, and the members asked so far. \<open>sr_asked\<close> has the
  calls to \<open>fetch\<close> in the order they are made.
\<close>

definition asked_first :: "member_id \<times> node_addr \<Rightarrow> 'sig searched \<Rightarrow> 'sig searched" where
  "asked_first c sr = sr\<lparr>sr_asked := c # sr_asked sr\<rparr>"

lemma asked_first_simps [simp]:
  "sr_found (asked_first c sr) = sr_found sr" "sr_sources (asked_first c sr) = sr_sources sr"
  "sr_visited (asked_first c sr) = sr_visited sr" "sr_asked (asked_first c sr) = c # sr_asked sr"
  by (simp_all add: asked_first_def)

function ask_around ::
    "member_id \<Rightarrow> (member_id \<Rightarrow> node_addr \<Rightarrow> fetch_failed + 'sig fetched_log) \<Rightarrow> (member_id \<times> node_addr) list
      \<Rightarrow> member_id btset \<Rightarrow> answers \<Rightarrow> sources \<Rightarrow> 'sig searched" where
  "ask_around me fetch [] visited an src =
     \<lparr>sr_found = NobodyGave an, sr_sources = src, sr_visited = visited, sr_asked = []\<rparr>"
| "ask_around me fetch ((member, addr) # queue) visited an src =
     (if 32 \<le> bt_len visited
      then \<lparr>sr_found = NobodyGave an, sr_sources = src, sr_visited = visited, sr_asked = []\<rparr>
      else if member = me \<or> bt_has visited member then ask_around me fetch queue visited an src
      else asked_first (member, addr)
        (let visited = bts_insert member visited
         in case fetch member addr of
              Inr (Entries up_to events further source) \<Rightarrow>
                \<lparr>sr_found = FoundEntries member up_to events further, sr_sources = source, sr_visited = visited, sr_asked = []\<rparr>
            | Inr (Redirect source) \<Rightarrow>
                ask_around me fetch (queue @ follow_candidates source me) visited
                  (an\<lparr>an_otherwise := an_otherwise an + 1\<rparr>) source
            | Inr NoGroup \<Rightarrow>
                ask_around me fetch queue visited (an\<lparr>an_otherwise := an_otherwise an + 1\<rparr>) src
            | Inl failed \<Rightarrow>
                (case ff_why failed of
                   CannotDecode \<Rightarrow>
                     ask_around me fetch queue visited
                       (an\<lparr>an_otherwise := an_otherwise an + 1, an_undecodable := an_undecodable an + 1\<rparr>) src
                 | RefusedUs \<Rightarrow>
                     ask_around me fetch queue visited (an\<lparr>an_refusals := an_refusals an + 1\<rparr>) src
                 | Unreachable \<Rightarrow> ask_around me fetch queue visited an src)))"
  by pat_completeness auto

termination ask_around
  by (relation "measures [\<lambda>(_, _, _, visited, _, _). 32 - bt_len visited,
        \<lambda>(_, _, queue, _, _, _). length queue]")
    (auto simp: bt_len_insert)

definition fetch_log_from_core_nodes ::
    "('m, 'b) raft_lib \<Rightarrow> ('sk, 'sig) crypto \<Rightarrow> disk \<Rightarrow> member_id
      \<Rightarrow> (u64 \<Rightarrow> member_id \<Rightarrow> node_addr \<Rightarrow> fetch_failed + 'sig fetched_log)
      \<Rightarrow> sources \<Rightarrow> ('m, 'b) sm_store \<Rightarrow> progress \<times> sources \<times> ('m, 'b) sm_store" where
  "fetch_log_from_core_nodes lib cr disk me fetch src sm =
     (let cursor = followed_upto sm;
          queue = follow_candidates src me
            @ filter (\<lambda>(member, _). member \<noteq> me) (bt_entries (ms_core (sm_membership sm)))
      in if queue = [] then (NoSources, src, sm)
         else
           (let sr = ask_around me (fetch cursor) queue bt_empty no_answers src
            in case sr_found sr of
                 NobodyGave an \<Rightarrow> (answers_progress an, sr_sources sr, sm)
               | FoundEntries member up_to events further \<Rightarrow>
                   if up_to \<le> cursor then (UpToDate, sr_sources sr, sm)
                   else (case apply_followed lib cr disk up_to events sm of
                      (Inl e, sm') \<Rightarrow> (NotStored, sr_sources sr, sm')
                    | (Inr verdicts, sm') \<Rightarrow> (Fetched further, sr_sources sr, sm'))))"

text \<open>Asking where the group is: the first core node that answers is enough.\<close>

fun ask_for_the_directory ::
    "(member_id \<Rightarrow> node_addr \<Rightarrow> 'd \<Rightarrow> (fetch_failed + nat) \<times> 'd) \<Rightarrow> (member_id \<times> node_addr) list \<Rightarrow> 'd
      \<Rightarrow> bool \<times> 'd" where
  "ask_for_the_directory directory [] dir = (False, dir)"
| "ask_for_the_directory directory ((member, addr) # rest) dir =
     (case directory member addr dir of
        (Inr learned, dir') \<Rightarrow> (True, dir')
      | (Inl failed, dir') \<Rightarrow> ask_for_the_directory directory rest dir')"

section \<open>The loop\<close>

datatype upgrade_required = ProtocolAhead u32 u64 | LogUndecodable u64

datatype hint = Reaches u64 | MayHaveMissed

text \<open>Whether one of the hints heard before the deadline is a reason to ask.\<close>

fun wait_for_a_reason :: "u64 \<Rightarrow> hint list \<Rightarrow> bool" where
  "wait_for_a_reason cursor [] = False"
| "wait_for_a_reason cursor (Reaches up_to # hints) =
     (if up_to \<le> cursor then wait_for_a_reason cursor hints else True)"
| "wait_for_a_reason cursor (MayHaveMissed # hints) = True"

definition stopped_behind_the_group :: "('m, 'b) sm_store \<Rightarrow> upgrade_required option" where
  "stopped_behind_the_group sm =
     (let group = ms_protocol (sm_membership sm)
      in if group \<le> PROTOCOL_MAX then None else Some (ProtocolAhead group (followed_upto sm)))"

record ('m, 'b, 'd) following =
  fo_me :: member_id
  fo_store :: "('m, 'b) sm_store"
  fo_sources :: sources
  fo_directory :: 'd
  fo_expelled :: bool
  fo_upgrade :: "upgrade_required option"
  fo_addresses_asked_for :: bool

text \<open>One turn of the loop: how long to wait before the next, or none when it stops.\<close>

definition follow_turn ::
    "('m, 'b) raft_lib \<Rightarrow> ('sk, 'sig) crypto \<Rightarrow> disk
      \<Rightarrow> (u64 \<Rightarrow> member_id \<Rightarrow> node_addr \<Rightarrow> fetch_failed + 'sig fetched_log)
      \<Rightarrow> (member_id \<Rightarrow> node_addr \<Rightarrow> 'd \<Rightarrow> (fetch_failed + nat) \<times> 'd)
      \<Rightarrow> ('m, 'b, 'd) following \<Rightarrow> duration option \<times> ('m, 'b, 'd) following" where
  "follow_turn lib cr disk fetch directory f =
     (case fetch_log_from_core_nodes lib cr disk (fo_me f) fetch (fo_sources f) (fo_store f) of
        (progress, src, sm) \<Rightarrow>
          (let f = f\<lparr>fo_sources := src, fo_store := sm\<rparr>
           in case stopped_behind_the_group sm of
                Some why \<Rightarrow> (None, f\<lparr>fo_upgrade := Some why\<rparr>)
              | None \<Rightarrow>
                  (let f = (if \<not> fo_addresses_asked_for f \<and> (progress = UpToDate \<or> (\<exists>m. progress = Fetched m))
                            then (case ask_for_the_directory directory (follow_candidates src (fo_me f)) (fo_directory f) of
                               (asked, dir) \<Rightarrow> f\<lparr>fo_addresses_asked_for := asked, fo_directory := dir\<rparr>)
                            else f)
                   in case progress of
                        Fetched further \<Rightarrow> (Some (if further then 0 else IDLE_POLL), f)
                      | UpToDate \<Rightarrow> (Some IDLE_POLL, f)
                      | NobodyReached \<Rightarrow> (Some RETRY_DELAY, f)
                      | NotStored \<Rightarrow> (Some RETRY_DELAY, f)
                      | NoSources \<Rightarrow> (Some IDLE_POLL, f)
                      | NotDecodable \<Rightarrow>
                          (None, f\<lparr>fo_upgrade := Some (LogUndecodable (followed_upto sm))\<rparr>)
                      | Refused \<Rightarrow>
                          if ms_group (sm_membership sm) \<noteq> None then (None, f\<lparr>fo_expelled := True\<rparr>)
                          else (Some REFUSED_BACKOFF, f))))"

section \<open>The fold of a follower and that of a core node\<close>

text \<open>A follower folds the events it is given, as long as it speaks the protocol before each.\<close>

definition speaks_throughout ::
    "('sk, 'sig) crypto \<Rightarrow> membership_state \<Rightarrow> (u64 \<times> 'sig signed_event) list \<Rightarrow> bool" where
  "speaks_throughout cr s evs \<longleftrightarrow>
     (\<forall>k < length evs. ms_protocol (fold_log cr s (take k evs)) \<le> PROTOCOL_MAX)"

lemma fold_log_append: "fold_log cr s (xs @ ys) = fold_log cr (fold_log cr s xs) ys"
  by (induction xs arbitrary: s) auto

lemma speaks_throughout_simps:
  "speaks_throughout cr s []"
  "speaks_throughout cr s ((i, e) # evs) \<longleftrightarrow>
     ms_protocol s \<le> PROTOCOL_MAX \<and> speaks_throughout cr (snd (ms_apply cr s i e)) evs"
  by (auto simp: speaks_throughout_def less_Suc_eq_0_disj)

lemma speaks_throughout_append:
  "speaks_throughout cr s (xs @ ys) \<Longrightarrow>
     speaks_throughout cr s xs \<and> speaks_throughout cr (fold_log cr s xs) ys"
  by (induction xs arbitrary: s) (auto simp: speaks_throughout_simps)

lemma follow_events_folds:
  assumes "speaks_throughout cr s evs"
  shows "\<exists>preds' verdicts'. follow_events cr evs s preds lst verdicts =
    (fold_log cr s evs, preds', verdicts', None)"
  using assms
proof (induction evs arbitrary: s preds lst verdicts)
  case (Cons x evs)
  obtain i e where x: "x = (i, e)" by (cases x)
  obtain v s' where a: "ms_apply cr s i e = (v, s')" by fastforce
  with Cons.prems have "speaks_throughout cr s' evs" and "\<not> PROTOCOL_MAX < ms_protocol s"
    by (auto simp: x speaks_throughout_simps)
  with Cons.IH show ?case by (simp add: x a)
qed simp

lemma fold_apply_entry:
  "ap_state (fst (fold (apply_entry cr) es (a, rs))) =
     fold_log cr (ap_state a) (events_among (map (\<lambda>e. (entry_index e, e)) es))"
proof (induction es arbitrary: a rs)
  case (Cons e es)
  obtain a1 rs1 where s: "apply_entry cr e (a, rs) = (a1, rs1)" by fastforce
  then have "ap_state a1 = (case entry_payload e of
      Normal ev \<Rightarrow> snd (ms_apply cr (ap_state a) (entry_index e) ev) | _ \<Rightarrow> ap_state a)"
    by (auto simp: apply_entry_def Let_def split: entry_payload.splits prod.splits)
  with Cons.IH [of a1 rs1] s show ?case by (auto split: entry_payload.splits)
qed simp

lemma fold_apply_entry_last:
  "ap_last (fst (fold (apply_entry cr) es (a, rs))) =
     (if es = [] then ap_last a else Some (entry_id (last es)))"
proof (induction es arbitrary: a rs)
  case (Cons e es)
  obtain a1 rs1 where s: "apply_entry cr e (a, rs) = (a1, rs1)" by fastforce
  then have "ap_last a1 = Some (entry_id e)"
    by (auto simp: apply_entry_def Let_def split: entry_payload.splits prod.splits)
  with Cons.IH [of a1 rs1] s show ?case by simp
qed simp

section \<open>Pages\<close>

text \<open>The events of the log past one index and up to another.\<close>

definition evs_after :: "('sig, 'm, 'vote) log_store \<Rightarrow> u64 \<Rightarrow> u64 \<Rightarrow> (u64 \<times> 'sig signed_event) list" where
  "evs_after L k n = filter (\<lambda>(i, _). k < i \<and> i \<le> n) (events_among (bt_entries (ls_log L)))"

lemma evs_after_between: "k < n \<Longrightarrow> events_between L (sat_add k 1) n = evs_after L k n"
  using events_among_filter [of "\<lambda>i. k < i \<and> i \<le> n" "bt_entries (ls_log L)"]
  by (simp add: evs_after_def rows_between_def sat_add_1_le)

lemma events_sorted: "sorted_wrt (<) (map fst (events_among (bt_entries (ls_log L))))"
  by (rule events_among_sorted) simp

lemma evs_after_sorted: "sorted_wrt (<) (map fst (evs_after L k n))"
  unfolding evs_after_def by (rule sorted_filter_entries [OF events_sorted])

lemma evs_after_none [simp]: "evs_after L n n = []"
  by (auto simp: evs_after_def filter_empty_conv)

lemma filter_in_two:
  fixes xs :: "(u64 \<times> 'v) list"
  assumes "sorted_wrt (<) (map fst xs)" and "k \<le> u" and "u \<le> n"
  shows "filter (\<lambda>(i, _). k < i \<and> i \<le> n) xs =
    filter (\<lambda>(i, _). k < i \<and> i \<le> u) xs @ filter (\<lambda>(i, _). u < i \<and> i \<le> n) xs"
  using assms
proof (induction xs)
  case (Cons x xs)
  obtain i v where x: "x = (i, v)" by (cases x)
  have later: "\<And>j w. (j, w) \<in> set xs \<Longrightarrow> i < j" using Cons.prems(1) by (auto simp: x)
  have IH: "filter (\<lambda>(i, _). k < i \<and> i \<le> n) xs =
      filter (\<lambda>(i, _). k < i \<and> i \<le> u) xs @ filter (\<lambda>(i, _). u < i \<and> i \<le> n) xs"
    using Cons by simp
  show ?case
  proof (cases "u < i")
    case True
    then have "filter (\<lambda>(i, _). k < i \<and> i \<le> u) xs = []"
      using later by (fastforce simp: filter_empty_conv)
    with IH True Cons.prems show ?thesis by (auto simp: x)
  next
    case False
    with IH Cons.prems show ?thesis by (auto simp: x)
  qed
qed simp

lemma evs_after_split: "k \<le> u \<Longrightarrow> u \<le> n \<Longrightarrow> evs_after L k n = evs_after L k u @ evs_after L u n"
  unfolding evs_after_def by (rule filter_in_two [OF events_sorted])

lemma page_of_log:
  assumes "k < n" and "0 < at_most"
    and "events_after size_of good_disk L k n at_most at_most_bytes = Inr page"
  shows "k < page_end n page \<and> page_end n page \<le> n
    \<and> lp_events page = evs_after L k (page_end n page)
    \<and> (page_end n page < n \<longrightarrow> lp_events page \<noteq> [])"
proof -
  let ?E = "evs_after L k n"
  have "page_of size_of at_most at_most_bytes [] 0 (rows_between L (sat_add k 1) n) = page"
    using assms(3) by (simp add: events_after_def good_disk_def)
  from page_of_takes [OF this] assms(2) obtain j where
    evs: "lp_events page = take j ?E" and cut: "lp_cut_short page \<longleftrightarrow> j < length ?E"
    and ne: "lp_cut_short page \<longrightarrow> lp_events page \<noteq> []"
    by (auto simp: evs_after_between [OF assms(1)])
  show ?thesis
  proof (cases "lp_cut_short page")
    case False
    then show ?thesis using assms(1) evs cut by (simp add: page_end_def)
  next
    case True
    let ?u = "fst (last (take j ?E))"
    have end_u: "page_end n page = ?u" using True ne evs by (simp add: page_end_def)
    have "last (take j ?E) \<in> set ?E" using True ne evs by (metis in_set_takeD last_in_set)
    then have u: "k < ?u" "?u \<le> n" by (auto simp: evs_after_def)
    have "filter (\<lambda>(i, _). ?u < i) (take j ?E @ drop j ?E) = drop j ?E"
      by (rule filter_split_sorted) (use True ne evs evs_after_sorted in auto)
    moreover have "evs_after L ?u n = filter (\<lambda>(i, _). ?u < i) ?E"
      using u(1) by (auto simp: evs_after_def intro: filter_cong)
    ultimately have rest: "evs_after L ?u n = drop j ?E" by simp
    have "?E = evs_after L k ?u @ evs_after L ?u n"
      using u by (intro evs_after_split) auto
    then have "take j ?E @ drop j ?E = evs_after L k ?u @ drop j ?E" by (simp add: rest)
    then have "take j ?E = evs_after L k ?u" by (simp only: append_same_eq)
    then have "lp_events page = evs_after L k ?u" using evs by simp
    with u end_u ne True show ?thesis by simp
  qed
qed

section \<open>Storing a page\<close>

lemma apply_followed_good:
  assumes "\<And>a. encode_applied lib a \<noteq> None" and "\<not> st_poisoned sm"
    and "speaks_throughout cr (sm_membership sm) evs"
  shows "\<exists>vs sm'. apply_followed lib cr good_disk up_to evs sm = (Inr vs, sm')
    \<and> \<not> st_poisoned sm' \<and> followed_upto sm' = up_to
    \<and> sm_membership sm' = fold_log cr (sm_membership sm) evs \<and> st_published sm' = sm_membership sm'"
proof -
  let ?preds = "case tb_predecessors (st_tables sm) of None \<Rightarrow> bt_empty | Some p \<Rightarrow> p"
  let ?a = "st_applied sm"
  obtain preds vs where f: "follow_events cr evs (ap_state ?a) ?preds (ap_followed ?a) [] =
      (fold_log cr (ap_state ?a) evs, preds, vs, None)"
    using follow_events_folds [OF assms(3) [unfolded sm_membership_def peek_def]] by blast
  let ?a' = "?a\<lparr>ap_state := fold_log cr (ap_state ?a) evs, ap_followed := up_to\<rparr>"
  obtain b where b: "encode_applied lib ?a' = Some b" using assms(1) by blast
  show ?thesis
    using assms(2) f b
    by (cases "tb_predecessors (st_tables sm)")
      (simp_all add: apply_followed_def sm_lock_def persist_applied_def persist_def followed_upto_def
        sm_membership_def peek_def)
qed

text \<open>When the transaction fails, the page has been folded in memory all the same.\<close>

lemma apply_followed_unwritten:
  assumes "\<And>a. encode_applied lib a \<noteq> None" and "\<not> st_poisoned sm"
    and "speaks_throughout cr (sm_membership sm) evs"
    and "disk_reads disk" and "\<not> disk_writes disk"
  shows "\<exists>e sm'. apply_followed lib cr disk up_to evs sm = (Inl e, sm')
    \<and> \<not> st_poisoned sm' \<and> followed_upto sm' = up_to
    \<and> sm_membership sm' = fold_log cr (sm_membership sm) evs
    \<and> st_published sm' = st_published sm \<and> st_tables sm' = st_tables sm"
proof -
  let ?preds = "case tb_predecessors (st_tables sm) of None \<Rightarrow> bt_empty | Some p \<Rightarrow> p"
  let ?a = "st_applied sm"
  obtain preds vs where f: "follow_events cr evs (ap_state ?a) ?preds (ap_followed ?a) [] =
      (fold_log cr (ap_state ?a) evs, preds, vs, None)"
    using follow_events_folds [OF assms(3) [unfolded sm_membership_def peek_def]] by blast
  let ?a' = "?a\<lparr>ap_state := fold_log cr (ap_state ?a) evs, ap_followed := up_to\<rparr>"
  obtain b where b: "encode_applied lib ?a' = Some b" using assms(1) by blast
  show ?thesis
    using assms(2,4,5) f b
    by (cases "tb_predecessors (st_tables sm)")
      (simp_all add: apply_followed_def sm_lock_def persist_applied_def persist_def followed_upto_def
        sm_membership_def peek_def read_key_def write_txn_def)
qed

section \<open>Passes\<close>

text \<open>The leader is the first to be asked.\<close>

lemma follow_candidates_leader_first:
  assumes "src_leader src = Some c" and "c \<noteq> me" and "c \<in> fst ` set (src_core src)"
  shows "\<exists>addr rest. follow_candidates src me = (c, addr) # rest"
proof -
  let ?xs = "follow_candidates src me"
  let ?key = "\<lambda>(member, _ :: node_addr). Some member \<noteq> src_leader src"
  have set: "set ?xs = {x \<in> set (src_core src). fst x \<noteq> me}"
    by (auto simp: follow_candidates_def)
  then obtain addr where "(c, addr) \<in> set ?xs" using assms(2,3) by auto
  then obtain x rest where xs: "?xs = x # rest" by (cases ?xs) auto
  have "sorted (map ?key ?xs)" by (simp add: follow_candidates_def)
  with xs \<open>(c, addr) \<in> set ?xs\<close> have "?key x \<le> ?key (c, addr)" by auto
  then have "fst x = c" using assms(1) by (cases x) simp
  with xs show ?thesis by (cases x) auto
qed

lemma pass_asks_leader:
  assumes "src_leader src = Some c" and "c \<noteq> me" and "c \<in> fst ` set (src_core src)"
    and "\<And>addr. fetch (followed_upto sm) c addr = Inr (Entries up_to events further source)"
  shows "fetch_log_from_core_nodes lib cr disk me fetch src sm =
    (if up_to \<le> followed_upto sm then (UpToDate, source, sm)
     else case apply_followed lib cr disk up_to events sm of
       (Inl e, sm') \<Rightarrow> (NotStored, source, sm')
     | (Inr verdicts, sm') \<Rightarrow> (Fetched further, source, sm'))"
proof -
  obtain addr rest where q: "follow_candidates src me = (c, addr) # rest"
    using follow_candidates_leader_first [OF assms(1-3)] by blast
  have asked: "ask_around me (fetch (followed_upto sm)) ((c, addr) # queue) bt_empty no_answers src =
      \<lparr>sr_found = FoundEntries c up_to events further, sr_sources = source,
       sr_visited = bts_insert c bt_empty, sr_asked = [(c, addr)]\<rparr>" for queue
    using assms(2) by (simp add: assms(4) bt_len_card bt_has_def Let_def asked_first_def)
  show ?thesis
    by (auto simp: fetch_log_from_core_nodes_def q asked Let_def simp del: ask_around.simps
        split: prod.splits sum.splits)
qed

text \<open>
  An honest leader: its log, without a hole and never purged, of which it has applied the entries up to
  some index, none of them an event at index zero; and it says of itself that it leads and where it is.
\<close>

record ('sig, 'm, 'b, 'vote) leader_node_state =
  ln_id :: member_id
  ln_log :: "('sig, 'm, 'vote) log_store"
  ln_state :: "('m, 'b) sm_store"
  ln_metrics :: "'m raft_metrics"

definition leads ::
    "('m, 'b) raft_lib \<Rightarrow> ('sk, 'sig) crypto \<Rightarrow> 'm config_api \<Rightarrow> ('sig, 'm, 'b, 'vote) leader_node_state
      \<Rightarrow> u64 \<Rightarrow> bool" where
  "leads lib cr api ln n \<longleftrightarrow>
     (\<exists>fresh disk responses. from_database lib disk tables_new = Inr fresh \<and>
        sm_apply lib cr disk (map snd (rows_between (ln_log ln) 0 n)) fresh = (Inr responses, ln_state ln)) \<and>
     log_reach (ln_log ln) \<and> bt_get (ls_log (ln_log ln)) n \<noteq> None \<and>
     (\<forall>e ev. bt_get (ls_log (ln_log ln)) 0 = Some e \<longrightarrow> entry_payload e \<noteq> Normal ev) \<and>
     ms_group (sm_membership (ln_state ln)) \<noteq> None \<and>
     src_leader (source_of api (ln_metrics ln)) = Some (ln_id ln) \<and>
     ln_id ln \<in> fst ` set (src_core (source_of api (ln_metrics ln)))"

lemma rows_of_log_ok:
  assumes "log_ok L"
  shows "map ((\<lambda>e. (entry_index e, e)) \<circ> snd) (rows_between L a b) = rows_between L a b"
proof -
  have "(entry_index e, e) = (i, e)" if "(i, e) \<in> set (rows_between L a b)" for i e
    using that assms by (auto simp: rows_between_iff log_ok_def)
  then show ?thesis by (auto simp: comp_def intro!: map_idI)
qed

lemma events_from_zero:
  assumes "\<forall>e ev. bt_get (ls_log L) 0 = Some e \<longrightarrow> entry_payload e \<noteq> Normal ev"
  shows "events_between L 0 n = evs_after L 0 n"
proof -
  have "0 < i" if "(i, ev) \<in> set (events_among rows)" and "set rows \<subseteq> set (bt_entries (ls_log L))" for i ev rows
    using that
  proof (induction rows)
    case (Cons r rows)
    obtain j e where r: "r = (j, e)" by (cases r)
    have "bt_get (ls_log L) j = Some e" using Cons.prems(2) by (simp add: r bt_entries_iff)
    with Cons assms show ?case
      by (cases "j = 0") (auto simp: r word_gt_0 split: entry_payload.splits)
  qed simp
  then have pos: "0 < i" if "(i, ev) \<in> set (events_among (bt_entries (ls_log L)))" for i ev
    using that by blast
  have "events_between L 0 n = filter (\<lambda>(i, _). i \<le> n) (events_among (bt_entries (ls_log L)))"
    using events_among_filter [of "\<lambda>i. i \<le> n" "bt_entries (ls_log L)"] by (simp add: rows_between_def)
  also have "\<dots> = evs_after L 0 n"
    unfolding evs_after_def using pos by (intro filter_cong) auto
  finally show ?thesis .
qed

lemma leader_has_folded:
  assumes "leads lib cr api ln n"
  shows "sm_membership (ln_state ln) = fold_log cr ms_new (evs_after (ln_log ln) 0 n)"
    and "last_applied_index (ln_state ln) = n"
proof -
  let ?L = "ln_log ln"
  obtain fresh disk responses where fresh: "from_database lib disk tables_new = Inr fresh"
    and applied: "sm_apply lib cr disk (map snd (rows_between ?L 0 n)) fresh = (Inr responses, ln_state ln)"
    using assms by (auto simp: leads_def)
  have ok: "log_ok ?L" using assms log_reach_ok by (auto simp: leads_def)
  have new: "ap_state (st_applied fresh) = ms_new"
    using fresh by (auto simp: from_database_def tables_new_def read_key_def applied_default_def Let_def
        split: sum.splits if_splits)
  have locked: "\<not> st_poisoned fresh" by (rule from_database_ok(5) [OF fresh])
  obtain a rs where f: "fold (apply_entry cr) (map snd (rows_between ?L 0 n)) (st_applied fresh, []) = (a, rs)"
    by fastforce
  have a: "st_applied (ln_state ln) = a"
    using applied locked f
    by (auto simp: sm_apply_def sm_lock_def elim: persist_applied_cases)
  have "ap_state a = fold_log cr ms_new (events_between ?L 0 n)"
    using fold_apply_entry [of cr "map snd (rows_between ?L 0 n)" "st_applied fresh" "[]"] f new
    by (simp add: rows_of_log_ok [OF ok])
  then show "sm_membership (ln_state ln) = fold_log cr ms_new (evs_after ?L 0 n)"
    using assms events_from_zero [of ?L n] by (simp add: sm_membership_def peek_def a leads_def)
  have "bt_get (ls_log ?L) n \<noteq> None" using assms by (simp add: leads_def)
  then obtain e where e: "(n, e) \<in> set (rows_between ?L 0 n)" by (auto simp: rows_between_iff)
  then obtain rows r where rows: "rows_between ?L 0 n = rows @ [r]"
    by (cases "rows_between ?L 0 n" rule: rev_cases) auto
  have "fst r = n"
  proof (rule ccontr)
    assume "fst r \<noteq> n"
    then have "(n, e) \<in> set rows" using e rows by auto
    moreover have "sorted_wrt (<) (map fst (rows @ [r]))" using rows_between_sorted [of ?L 0 n] rows by simp
    ultimately have "n < fst r" by (auto simp: sorted_wrt_append)
    moreover have "fst r \<le> n"
      using rows rows_between_iff [of "fst r" "snd r" ?L 0 n] by simp
    ultimately show False by simp
  qed
  moreover have "entry_index (snd r) = fst r"
    using rows rows_between_iff [of "fst r" "snd r" ?L 0 n] ok by (simp add: log_ok_def)
  ultimately show "last_applied_index (ln_state ln) = n"
    using fold_apply_entry_last [of cr "map snd (rows_between ?L 0 n)" "st_applied fresh" "[]"] f rows
    by (simp add: last_applied_index_def peek_def a index_or_0_def)
qed

section \<open>Catching up\<close>

definition pass_on ::
    "('m, 'b) raft_lib \<Rightarrow> ('sk, 'sig) crypto \<Rightarrow> member_id
      \<Rightarrow> (u64 \<Rightarrow> member_id \<Rightarrow> node_addr \<Rightarrow> fetch_failed + 'sig fetched_log)
      \<Rightarrow> sources \<times> ('m, 'b) sm_store \<Rightarrow> sources \<times> ('m, 'b) sm_store" where
  "pass_on lib cr me fetch st =
     (case fetch_log_from_core_nodes lib cr good_disk me fetch (fst st) (snd st) of
        (progress, src, sm) \<Rightarrow> (src, sm))"

text \<open>The leader answers from what it has; what others would answer does not matter.\<close>

definition served_by ::
    "'m config_api \<Rightarrow> (('sig, 'm) raft_entry \<Rightarrow> nat) \<Rightarrow> ('sig, 'm, 'b, 'vote) leader_node_state
      \<Rightarrow> (u64 \<Rightarrow> member_id \<Rightarrow> node_addr \<Rightarrow> fetch_failed + 'sig fetched_log) \<Rightarrow> bool" where
  "served_by api size_of ln fetch \<longleftrightarrow>
     (\<forall>cursor addr. fetch cursor (ln_id ln) addr =
        Inr (memberlog_fetch api size_of good_disk (ln_log ln) (ln_state ln) (Some (ln_metrics ln)) cursor))"

definition asks_leader :: "('sig, 'm, 'b, 'vote) leader_node_state \<Rightarrow> sources \<Rightarrow> bool" where
  "asks_leader ln src \<longleftrightarrow> src_leader src = Some (ln_id ln) \<and> ln_id ln \<in> fst ` set (src_core src)"

text \<open>A follower that has folded the leader's log up to where its cursor is.\<close>

definition follows_up_to ::
    "('sk, 'sig) crypto \<Rightarrow> ('sig, 'm, 'b, 'vote) leader_node_state \<Rightarrow> u64 \<Rightarrow> ('m, 'c) sm_store \<Rightarrow> bool" where
  "follows_up_to cr ln k sm \<longleftrightarrow>
     \<not> st_poisoned sm \<and> followed_upto sm = k \<and>
     sm_membership sm = fold_log cr ms_new (evs_after (ln_log ln) 0 k) \<and> st_published sm = sm_membership sm"

lemma memberlog_fetch_page:
  assumes "leads lib cr api ln n" and "k < n"
  shows "\<exists>u. memberlog_fetch api size_of good_disk (ln_log ln) (ln_state ln) (Some (ln_metrics ln)) k =
      Entries u (evs_after (ln_log ln) k u) (u < n) (source_of api (ln_metrics ln))
    \<and> k < u \<and> u \<le> n \<and> (u < n \<longrightarrow> evs_after (ln_log ln) k u \<noteq> [])"
proof -
  obtain page where page: "events_after size_of good_disk (ln_log ln) k n EVENTS_PER_FETCH BYTES_PER_FETCH
      = Inr page"
    by (simp add: events_after_def good_disk_def)
  have "0 < EVENTS_PER_FETCH" by (simp add: EVENTS_PER_FETCH_def)
  note ok = page_of_log [OF assms(2) this page]
  have "ms_group (sm_membership (ln_state ln)) \<noteq> None" using assms(1) by (simp add: leads_def)
  with ok page leader_has_folded(2) [OF assms(1)] show ?thesis
    by (intro exI [of _ "page_end n page"]) (auto simp: memberlog_fetch_def Let_def)
qed

lemma one_pass:
  assumes "leads lib cr api ln n" and "served_by api size_of ln fetch" and "\<And>a. encode_applied lib a \<noteq> None"
    and "speaks_throughout cr ms_new (evs_after (ln_log ln) 0 n)"
    and "me \<noteq> ln_id ln" and "asks_leader ln src" and "follows_up_to cr ln k sm" and "k < n"
  shows "\<exists>u src' sm'. pass_on lib cr me fetch (src, sm) = (src', sm') \<and> asks_leader ln src'
    \<and> follows_up_to cr ln u sm' \<and> u \<le> n
    \<and> (u = n \<or> length (evs_after (ln_log ln) u n) < length (evs_after (ln_log ln) k n))"
proof -
  let ?L = "ln_log ln" and ?src = "source_of api (ln_metrics ln)"
  obtain u where u: "memberlog_fetch api size_of good_disk ?L (ln_state ln) (Some (ln_metrics ln)) k =
      Entries u (evs_after ?L k u) (u < n) ?src" "k < u" "u \<le> n" "u < n \<longrightarrow> evs_after ?L k u \<noteq> []"
    using memberlog_fetch_page [OF assms(1,8)] by blast
  have k: "followed_upto sm = k" using assms(7) by (simp add: follows_up_to_def)
  have fetch: "fetch (followed_upto sm) (ln_id ln) addr = Inr (Entries u (evs_after ?L k u) (u < n) ?src)" for addr
    using assms(2) u(1) by (simp add: served_by_def k)
  have split: "evs_after ?L 0 n = evs_after ?L 0 k @ evs_after ?L k u @ evs_after ?L u n"
    using evs_after_split [of 0 k n ?L] evs_after_split [of k u n ?L] u(2,3) assms(8) by simp
  have "speaks_throughout cr (sm_membership sm) (evs_after ?L k u)"
    using assms(4,7) unfolding split
    by (auto simp: follows_up_to_def dest!: speaks_throughout_append)
  from apply_followed_good [OF assms(3) _ this, of u] assms(7) obtain vs sm' where
    sm': "apply_followed lib cr good_disk u (evs_after ?L k u) sm = (Inr vs, sm')"
      "\<not> st_poisoned sm'" "followed_upto sm' = u"
      "sm_membership sm' = fold_log cr (sm_membership sm) (evs_after ?L k u)"
      "st_published sm' = sm_membership sm'"
    by (auto simp: follows_up_to_def)
  have pass: "pass_on lib cr me fetch (src, sm) = (?src, sm')"
    using pass_asks_leader [where fetch = fetch and c = "ln_id ln" and sm = sm, OF _ _ _ fetch,
        of src me lib cr good_disk] assms(5,6) u(2) sm'(1)
    by (simp add: pass_on_def asks_leader_def k)
  have "evs_after ?L 0 u = evs_after ?L 0 k @ evs_after ?L k u"
    using u(2) by (intro evs_after_split) auto
  then have "follows_up_to cr ln u sm'"
    using sm' assms(7) by (simp add: follows_up_to_def fold_log_append)
  moreover have "u = n \<or> length (evs_after ?L u n) < length (evs_after ?L k n)"
  proof (cases "u < n")
    case True
    have "evs_after ?L k n = evs_after ?L k u @ evs_after ?L u n"
      using u(2,3) by (intro evs_after_split) auto
    then have "length (evs_after ?L k n) = length (evs_after ?L k u) + length (evs_after ?L u n)"
      by (metis length_append)
    then show ?thesis using True u(4) by auto
  qed (use u(3) in auto)
  moreover have "asks_leader ln ?src" using assms(1) by (simp add: asks_leader_def leads_def)
  ultimately show ?thesis using pass u(3) by blast
qed

lemma passes_reach:
  assumes "leads lib cr api ln n" and "served_by api size_of ln fetch" and "\<And>a. encode_applied lib a \<noteq> None"
    and "speaks_throughout cr ms_new (evs_after (ln_log ln) 0 n)" and "me \<noteq> ln_id ln"
    and "asks_leader ln src" and "follows_up_to cr ln k sm" and "k \<le> n"
  shows "\<exists>j \<le> Suc (length (evs_after (ln_log ln) k n)).
    follows_up_to cr ln n (snd ((pass_on lib cr me fetch ^^ j) (src, sm)))"
  using assms(6-8)
proof (induction "length (evs_after (ln_log ln) k n)" arbitrary: k src sm rule: less_induct)
  case less
  show ?case
  proof (cases "k = n")
    case True
    with less.prems show ?thesis by (intro exI [of _ 0]) simp
  next
    case False
    with less.prems(3) have "k < n" by simp
    from one_pass [OF assms(1-5) less.prems(1,2) this] obtain u src' sm' where
      p: "pass_on lib cr me fetch (src, sm) = (src', sm')" and src': "asks_leader ln src'"
      and sm': "follows_up_to cr ln u sm'" and u: "u \<le> n"
        "u = n \<or> length (evs_after (ln_log ln) u n) < length (evs_after (ln_log ln) k n)"
      by blast
    show ?thesis
    proof (cases "u = n")
      case True
      with p sm' show ?thesis by (intro exI [of _ 1]) simp
    next
      case False
      with u(2) less.hyps [OF _ src' sm' u(1)] obtain j where
        "j \<le> Suc (length (evs_after (ln_log ln) u n))"
        "follows_up_to cr ln n (snd ((pass_on lib cr me fetch ^^ j) (src', sm')))"
        by blast
      with False u(2) p show ?thesis
        by (intro exI [of _ "Suc j"]) (simp add: funpow_swap1)
    qed
  qed
qed

text \<open>
  C7. A follower catches up. Take a leader that has applied its log up to an index, and a fresh
  follower that is told who leads and speaks the protocol throughout. After at most one pass for each
  event, and one more, whatever the pages hold, the follower's cursor is that index, its membership is
  exactly the leader's, and it has announced it.
\<close>

theorem follower_catches_up:
  assumes "leads lib cr api ln n" and "served_by api size_of ln fetch" and "\<And>a. encode_applied lib a \<noteq> None"
    and "speaks_throughout cr ms_new (evs_after (ln_log ln) 0 n)"
    and "from_database lib good_disk tables_new = Inr sm" and "asks_leader ln src" and "me \<noteq> ln_id ln"
  shows "\<exists>j \<le> Suc (length (evs_after (ln_log ln) 0 n)).
    (let sm' = snd ((pass_on lib cr me fetch ^^ j) (src, sm))
     in followed_upto sm' = n \<and> sm_membership sm' = sm_membership (ln_state ln)
      \<and> st_published sm' = sm_membership (ln_state ln))"
proof -
  have "follows_up_to cr ln 0 sm"
    using assms(5)
    by (auto simp: follows_up_to_def followed_upto_def sm_membership_def peek_def from_database_def
        tables_new_def applied_default_def Let_def)
  from passes_reach [OF assms(1-4,7,6) this] obtain j where
    "j \<le> Suc (length (evs_after (ln_log ln) 0 n))"
    "follows_up_to cr ln n (snd ((pass_on lib cr me fetch ^^ j) (src, sm)))"
    by auto
  then show ?thesis
    using leader_has_folded(1) [OF assms(1)] by (auto simp: follows_up_to_def Let_def)
qed

definition demo_api :: "unit config_api" where
  "demo_api = \<lparr>voter_ids = (\<lambda>_. [RawMemberId 1]), get_node = (\<lambda>_ _. Some lookup_only), on_curve = (\<lambda>_. True)\<rparr>"

definition demo_log :: "(member_id, unit, unit) log_store" where
  "demo_log = snd (log_append good_disk demo_entries log_new)"

definition demo_leader :: "(member_id, unit, unit applied, unit) leader_node_state" where
  "demo_leader =
     \<lparr>ln_id = MemberId 1, ln_log = demo_log,
      ln_state = snd (sm_apply plain_lib plain_crypto good_disk (map snd (rows_between demo_log 0 2)) plain_store),
      ln_metrics = \<lparr>mx_config = (), mx_leader = Some (RawMemberId 1)\<rparr>\<rparr>"

definition demo_fetch ::
    "u64 \<Rightarrow> member_id \<Rightarrow> node_addr \<Rightarrow> fetch_failed + member_id fetched_log" where
  "demo_fetch cursor m addr =
     Inr (memberlog_fetch demo_api (\<lambda>_. 100) good_disk (ln_log demo_leader) (ln_state demo_leader)
       (Some (ln_metrics demo_leader)) cursor)"

definition demo_sources :: sources where
  "demo_sources = \<lparr>src_core = [(MemberId 1, lookup_only)], src_leader = Some (MemberId 1)\<rparr>"

lemma demo_log_reach: "log_reach demo_log"
  unfolding demo_log_def
  by (rule log_reach.append [OF log_reach.opened, where es = demo_entries and disk = good_disk
        and verdict = "Inr ()"])
    (simp_all add: log_append_def demo_entries_def next_index_def first_index_def log_purged_def log_new_def
      last_log_id_def bt_empty.rep_eq demo_id_def upt_rec)

lemma demo_leads: "leads plain_lib plain_crypto demo_api demo_leader 2"
proof -
  have "\<exists>responses. sm_apply plain_lib plain_crypto good_disk (map snd (rows_between demo_log 0 2)) plain_store =
      (Inr responses, ln_state demo_leader)"
  proof -
    have "isl (fst (sm_apply plain_lib plain_crypto good_disk (map snd (rows_between demo_log 0 2)) plain_store)) = False"
      by code_simp
    then show ?thesis
      by (cases "sm_apply plain_lib plain_crypto good_disk (map snd (rows_between demo_log 0 2)) plain_store")
        (auto simp: demo_leader_def isl_def intro: sum.exhaust)
  qed
  moreover have "bt_get (ls_log demo_log) 2 \<noteq> None" by code_simp
  moreover have "map_option entry_payload (bt_get (ls_log demo_log) 0) = Some (MembershipChange ())"
    by code_simp
  moreover have "ms_group (sm_membership (ln_state demo_leader)) = Some (GroupId 9)" by code_simp
  moreover have "src_leader (source_of demo_api (ln_metrics demo_leader)) = Some (MemberId 1)" by code_simp
  moreover have "map fst (src_core (source_of demo_api (ln_metrics demo_leader))) = [MemberId 1]" by code_simp
  ultimately show ?thesis
    unfolding leads_def using demo_log_reach plain_store_opened
    by (auto simp: demo_leader_def image_set)
qed

theorem follower_catches_up_witness:
  "\<exists>j \<le> 2. ms_group (st_published (snd ((pass_on plain_lib plain_crypto (MemberId 5) demo_fetch ^^ j)
     (demo_sources, plain_store)))) = Some (GroupId 9)"
proof -
  have one: "length (evs_after demo_log 0 2) = 1" by code_simp
  have "\<exists>j \<le> Suc (length (evs_after (ln_log demo_leader) 0 2)).
    (let sm' = snd ((pass_on plain_lib plain_crypto (MemberId 5) demo_fetch ^^ j) (demo_sources, plain_store))
     in followed_upto sm' = 2 \<and> sm_membership sm' = sm_membership (ln_state demo_leader)
      \<and> st_published sm' = sm_membership (ln_state demo_leader))"
  proof (rule follower_catches_up [OF demo_leads])
    show "served_by demo_api (\<lambda>_. 100) demo_leader demo_fetch"
      by (simp add: served_by_def demo_fetch_def)
    show "encode_applied plain_lib a \<noteq> None" for a by (simp add: plain_lib_def)
    show "speaks_throughout plain_crypto ms_new (evs_after (ln_log demo_leader) 0 2)"
      using one by (simp add: demo_leader_def speaks_throughout_def ms_new_def PROTOCOL_MAX_def)
    show "from_database plain_lib good_disk tables_new = Inr plain_store" by (rule plain_store_opened)
    show "asks_leader demo_leader demo_sources" by (simp add: asks_leader_def demo_leader_def demo_sources_def)
    show "MemberId 5 \<noteq> ln_id demo_leader" by (simp add: demo_leader_def)
  qed
  moreover have "ms_group (sm_membership (ln_state demo_leader)) = Some (GroupId 9)" by code_simp
  ultimately show ?thesis using one by (auto simp: Let_def demo_leader_def numeral_2_eq_2)
qed

section \<open>What a search concludes\<close>

abbreviation says :: "failure \<Rightarrow> fetch_failed + 'sig fetched_log \<Rightarrow> bool" where
  "says why got \<equiv> (\<exists>f. got = Inl f \<and> ff_why f = why)"

definition answered_otherwise :: "fetch_failed + 'sig fetched_log \<Rightarrow> bool" where
  "answered_otherwise got \<longleftrightarrow> got = Inr NoGroup \<or> (\<exists>src. got = Inr (Redirect src)) \<or> says CannotDecode got"

abbreviation how_many :: "(member_id \<Rightarrow> node_addr \<Rightarrow> fetch_failed + 'sig fetched_log) \<Rightarrow> (fetch_failed + 'sig fetched_log \<Rightarrow> bool)
    \<Rightarrow> (member_id \<times> node_addr) list \<Rightarrow> nat" where
  "how_many fetch P asked \<equiv> length (filter (\<lambda>(m, a). P (fetch m a)) asked)"

text \<open>What a search from some queue has done, on top of those already visited.\<close>

definition search_done ::
    "member_id \<Rightarrow> (member_id \<Rightarrow> node_addr \<Rightarrow> fetch_failed + 'sig fetched_log) \<Rightarrow> (member_id \<times> node_addr) list
      \<Rightarrow> member_id btset \<Rightarrow> answers \<Rightarrow> 'sig searched \<Rightarrow> bool" where
  "search_done me fetch queue visited an sr \<longleftrightarrow>
     distinct (map fst (sr_asked sr)) \<and>
     (\<forall>c \<in> set (sr_asked sr). fst c \<noteq> me \<and> \<not> bt_has visited (fst c)) \<and>
     bt_len visited + length (sr_asked sr) \<le> 32 \<and>
     (case sr_found sr of
        FoundEntries m up_to events further \<Rightarrow>
          (\<exists>a source. sr_asked sr \<noteq> [] \<and> last (sr_asked sr) = (m, a) \<and> fetch m a = Inr (Entries up_to events further source))
      | NobodyGave an' \<Rightarrow>
          an_refusals an' = an_refusals an + how_many fetch (says RefusedUs) (sr_asked sr) \<and>
          an_otherwise an' = an_otherwise an + how_many fetch answered_otherwise (sr_asked sr) \<and>
          an_undecodable an' = an_undecodable an + how_many fetch (says CannotDecode) (sr_asked sr) \<and>
          (bt_len visited + length (sr_asked sr) < 32 \<longrightarrow>
             (\<forall>c \<in> set queue. fst c = me \<or> bt_has visited (fst c) \<or> fst c \<in> fst ` set (sr_asked sr))))"

lemma search_done_asks:
  assumes "search_done me fetch queue' (bts_insert member visited) an1 sr" and "set queue \<subseteq> set queue'"
    and "member \<noteq> me" and "\<not> bt_has visited member"
    and "an_refusals an1 = an_refusals an + (if says RefusedUs (fetch member addr) then 1 else 0)"
    and "an_otherwise an1 = an_otherwise an + (if answered_otherwise (fetch member addr) then 1 else 0)"
    and "an_undecodable an1 = an_undecodable an + (if says CannotDecode (fetch member addr) then 1 else 0)"
  shows "search_done me fetch ((member, addr) # queue) visited an (asked_first (member, addr) sr)"
proof -
  have v: "bt_len (bts_insert member visited) = Suc (bt_len visited)" "\<And>m. bt_has (bts_insert member visited) m \<longleftrightarrow> m = member \<or> bt_has visited m"
    using assms(4) by (auto simp: bt_len_insert bt_has_def)
  note fin = assms(1) [unfolded search_done_def v]
  show ?thesis
  proof (cases "sr_found sr")
    case (FoundEntries m up_to events further)
    with fin assms(3,4) show ?thesis by (auto simp: search_done_def)
  next
    case (NobodyGave an')
    have everyone: "fst c = me \<or> bt_has visited (fst c) \<or> fst c \<in> fst ` set (sr_asked (asked_first (member, addr) sr))"
      if "bt_len visited + length (sr_asked (asked_first (member, addr) sr)) < 32" "c \<in> set ((member, addr) # queue)" for c
      using that fin assms(2) NobodyGave by (auto simp: image_iff)
    with fin assms(3-7) NobodyGave show ?thesis by (auto simp: search_done_def)
  qed
qed

lemma search_asks: "bt_len visited \<le> 32 \<Longrightarrow> search_done me fetch queue visited an (ask_around me fetch queue visited an src)"
proof (induction me fetch queue visited an src rule: ask_around.induct)
  case (1 me fetch visited an src)
  then show ?case by (simp add: search_done_def)
next
  case (2 me fetch member addr queue visited an src)
  consider (full) "32 \<le> bt_len visited" | (skip) "\<not> 32 \<le> bt_len visited" "member = me \<or> bt_has visited member"
    | (ask) "\<not> 32 \<le> bt_len visited" "member \<noteq> me" "\<not> bt_has visited member" by blast
  then show ?case
  proof cases
    case full
    with "2.prems" show ?thesis by (simp add: search_done_def)
  next
    case skip
    from "2.IH"(1) [OF skip "2.prems"] skip show ?thesis by (auto simp: search_done_def split: search_end.splits)
  next
    case ask
    have fresh: "\<not> (member = me \<or> bt_has visited member)" and room: "bt_len (bts_insert member visited) \<le> 32"
      using ask by (auto simp: bt_len_insert bt_has_def)
    note IH = "2.IH"(2-) [OF ask(1) fresh refl]
    have queue: "set queue \<subseteq> set queue" "set queue \<subseteq> set (queue @ more_candidates)" for more_candidates by auto
    note go = search_done_asks [OF _ _ ask(2,3)]
    show ?thesis
    proof (cases "fetch member addr")
      case (Inl f)
      show ?thesis
      proof (cases "ff_why f")
        case Unreachable
        from go [OF IH(1) [OF Inl Unreachable room] queue(1), of an addr] show ?thesis
          using ask Inl Unreachable by (simp add: Let_def answered_otherwise_def)
      next
        case RefusedUs
        from go [OF IH(2) [OF Inl RefusedUs room] queue(1), of an addr] show ?thesis
          using ask Inl RefusedUs by (simp add: Let_def answered_otherwise_def)
      next
        case CannotDecode
        from go [OF IH(3) [OF Inl CannotDecode room] queue(1), of an addr] show ?thesis
          using ask Inl CannotDecode by (simp add: Let_def answered_otherwise_def)
      qed
    next
      case (Inr x)
      show ?thesis
      proof (cases x)
        case (Entries up_to events further source)
        then show ?thesis
          using ask Inr by (auto simp: search_done_def Let_def)
      next
        case NoGroup
        from go [OF IH(4) [OF Inr NoGroup room] queue(1), of an addr] show ?thesis
          using ask Inr NoGroup by (simp add: Let_def answered_otherwise_def)
      next
        case (Redirect source)
        from go [OF IH(5) [OF Inr Redirect room] queue(2), of an addr] show ?thesis
          using ask Inr Redirect by (simp add: Let_def answered_otherwise_def)
      qed
    qed
  qed
qed

text \<open>
  C29. A search along referrals ends, and concludes what it was told. However the members refer to each
  other, in cycles or to ever new ones, a pass makes at most 32 calls, none to this node and no two to the
  same member. If entries are handed over, they are the last member's asked. If not, every member
  of the queue it began with was asked, unless 32 were; and it takes itself to be refused exactly when at least one of the members asked
  refused it and nobody answered otherwise, and to be too old exactly when some answer could not be
  read and every answer other than a refusal was such.
\<close>

theorem search_ends_with_what_was_said:
  fixes fetch :: "member_id \<Rightarrow> node_addr \<Rightarrow> fetch_failed + 'sig fetched_log"
  defines "sr \<equiv> \<lambda>me queue src. ask_around me fetch queue bt_empty no_answers src"
    and "asked \<equiv> \<lambda>me queue src. sr_asked (ask_around me fetch queue bt_empty no_answers src)"
  shows "length (asked me queue src) \<le> 32 \<and> distinct (map fst (asked me queue src)) \<and> me \<notin> fst ` set (asked me queue src) \<and>
    (case sr_found (sr me queue src) of
       FoundEntries m up_to events further \<Rightarrow>
         (\<exists>a source. last (asked me queue src) = (m, a) \<and> fetch m a = Inr (Entries up_to events further source))
     | NobodyGave an \<Rightarrow>
         (length (asked me queue src) < 32 \<longrightarrow> fst ` set queue - {me} \<subseteq> fst ` set (asked me queue src)) \<and>
         (answers_progress an = Refused \<longleftrightarrow>
            (\<exists>(m, a) \<in> set (asked me queue src). says RefusedUs (fetch m a)) \<and>
            (\<forall>(m, a) \<in> set (asked me queue src). \<not> answered_otherwise (fetch m a))) \<and>
         (answers_progress an = NotDecodable \<longleftrightarrow>
            (\<exists>(m, a) \<in> set (asked me queue src). says CannotDecode (fetch m a)) \<and>
            (\<forall>(m, a) \<in> set (asked me queue src). answered_otherwise (fetch m a) \<longrightarrow> says CannotDecode (fetch m a))))"
proof -
  let ?sr = "sr me queue src" and ?asked = "asked me queue src"
  have empty: "bt_len (bt_empty :: member_id btset) = 0" "\<And>m. \<not> bt_has (bt_empty :: member_id btset) m"
    by (simp_all add: bt_len_card bt_has_def)
  have "search_done me fetch queue bt_empty no_answers ?sr" unfolding sr_def by (rule search_asks) (simp add: empty)
  moreover have asked: "sr_asked ?sr = ?asked" by (simp add: sr_def asked_def)
  ultimately have fin: "distinct (map fst ?asked)" "me \<notin> fst ` set ?asked" "length ?asked \<le> 32"
      "case sr_found ?sr of
        FoundEntries m up_to events further \<Rightarrow>
          (\<exists>a source. ?asked \<noteq> [] \<and> last ?asked = (m, a) \<and> fetch m a = Inr (Entries up_to events further source))
      | NobodyGave an \<Rightarrow>
          an_refusals an = how_many fetch (says RefusedUs) ?asked \<and>
          an_otherwise an = how_many fetch answered_otherwise ?asked \<and>
          an_undecodable an = how_many fetch (says CannotDecode) ?asked \<and>
          (length ?asked < 32 \<longrightarrow> (\<forall>c \<in> set queue. fst c = me \<or> fst c \<in> fst ` set ?asked))"
    by (auto simp: search_done_def empty no_answers_def split: search_end.splits)
  show ?thesis
  proof (cases "sr_found ?sr")
    case (NobodyGave an)
    have none: "0 < how_many fetch P ?asked \<longleftrightarrow> (\<exists>(m, a) \<in> set ?asked. P (fetch m a))" for P
      by (auto simp: length_greater_0_conv filter_empty_conv)
    have all: "how_many fetch (says CannotDecode) xs = how_many fetch answered_otherwise xs \<longleftrightarrow>
        (\<forall>(m, a) \<in> set xs. answered_otherwise (fetch m a) \<longrightarrow> says CannotDecode (fetch m a))" for xs
    proof -
      have "how_many fetch (says CannotDecode) xs + how_many fetch (\<lambda>r. answered_otherwise r \<and> \<not> says CannotDecode r) xs =
          how_many fetch answered_otherwise xs"
        by (induction xs) (auto simp: answered_otherwise_def)
      moreover have "how_many fetch (\<lambda>r. answered_otherwise r \<and> \<not> says CannotDecode r) xs = 0 \<longleftrightarrow>
          (\<forall>(m, a) \<in> set xs. answered_otherwise (fetch m a) \<longrightarrow> says CannotDecode (fetch m a))"
        by (auto simp: filter_empty_conv)
      ultimately show ?thesis by linarith
    qed
    have verdict: "answers_progress an = Refused \<longleftrightarrow> 0 < an_refusals an \<and> \<not> 0 < an_otherwise an"
      "answers_progress an = NotDecodable \<longleftrightarrow> 0 < an_undecodable an \<and> an_undecodable an = an_otherwise an"
      by (auto simp: answers_progress_def)
    have an: "an_refusals an = how_many fetch (says RefusedUs) ?asked" "an_otherwise an = how_many fetch answered_otherwise ?asked"
        "an_undecodable an = how_many fetch (says CannotDecode) ?asked"
        "length ?asked < 32 \<Longrightarrow> \<forall>c \<in> set queue. fst c = me \<or> fst c \<in> fst ` set ?asked"
      using fin(4) by (simp_all add: NobodyGave)
    have "fst ` set queue - {me} \<subseteq> fst ` set ?asked" if "length ?asked < 32" using an(4) [OF that] by auto
    moreover have "answers_progress an = Refused \<longleftrightarrow>
        (\<exists>(m, a) \<in> set ?asked. says RefusedUs (fetch m a)) \<and> (\<forall>(m, a) \<in> set ?asked. \<not> answered_otherwise (fetch m a))"
      unfolding verdict an(1-3) none [of "says RefusedUs"] none [of answered_otherwise] by auto
    moreover have "answers_progress an = NotDecodable \<longleftrightarrow>
        (\<exists>(m, a) \<in> set ?asked. says CannotDecode (fetch m a)) \<and>
        (\<forall>(m, a) \<in> set ?asked. answered_otherwise (fetch m a) \<longrightarrow> says CannotDecode (fetch m a))"
      unfolding verdict an(1-3) none [of "says CannotDecode"] all ..
    ultimately show ?thesis unfolding NobodyGave search_end.case using fin(1-3) by blast
  qed (use fin in auto)
qed

definition demo_answers :: "member_id \<Rightarrow> fetch_failed + member_id fetched_log" where
  "demo_answers m =
     (if m = MemberId 2 then Inl \<lparr>ff_member = m, ff_message = [], ff_why = RefusedUs\<rparr>
      else Inl \<lparr>ff_member = m, ff_message = [], ff_why = Unreachable\<rparr>)"

theorem search_ends_with_what_was_said_witness:
  "let sr = ask_around (MemberId 1) (\<lambda>m _. demo_answers m)
       [(MemberId 3, lookup_only), (MemberId 2, lookup_only), (MemberId 3, lookup_only)] bt_empty no_answers demo_sources
   in length (sr_asked sr) \<le> 32 \<and> (\<exists>an. sr_found sr = NobodyGave an \<and> answers_progress an = Refused)"
proof -
  let ?q = "[(MemberId 3, lookup_only), (MemberId 2, lookup_only), (MemberId 3, lookup_only)]"
  let ?sr = "ask_around (MemberId 1) (\<lambda>m _. demo_answers m) ?q bt_empty no_answers demo_sources"
  have asked: "sr_asked ?sr = [(MemberId 3, lookup_only), (MemberId 2, lookup_only)]" by code_simp
  have nobody: "\<exists>an. sr_found ?sr = NobodyGave an"
  proof -
    have "(case sr_found ?sr of NobodyGave an \<Rightarrow> True | _ \<Rightarrow> False)" by code_simp
    then show ?thesis by (auto split: search_end.splits)
  qed
  define sr where "sr = ?sr"
  obtain an where an: "sr_found sr = NobodyGave an" using nobody by (auto simp only: sr_def)
  have "answers_progress an = Refused"
    using search_ends_with_what_was_said [where fetch = "\<lambda>m _. demo_answers m" and me = "MemberId 1" and queue = ?q
        and src = demo_sources, folded sr_def] an asked [folded sr_def]
    by (simp add: demo_answers_def answered_otherwise_def)
  with an asked show ?thesis unfolding Let_def sr_def by simp
qed

section \<open>A page that could not be stored\<close>

text \<open>
  A page that could not be stored is not asked for again. The documentation of the loop says that
  after a failure of this node's storage it tries the same thing again shortly. But the page has been
  folded in memory, with the cursor, before the write failed: the next pass asks from past it, hears
  that there is nothing new, and answers up to date. So until the log grows, the membership in memory
  is the new one while neither the disk nor anyone who watches it, such as the allowlist, has it.
\<close>

theorem unstored_page_is_not_asked_for_again:
  assumes "asks_leader ln src" and "asks_leader ln source" and "me \<noteq> ln_id ln"
    and "\<And>a. encode_applied lib a \<noteq> None" and "\<not> st_poisoned sm"
    and "speaks_throughout cr (sm_membership sm) evs"
    and "disk_reads disk" and "\<not> disk_writes disk" and "followed_upto sm < up_to"
    and "\<And>addr. fetch (followed_upto sm) (ln_id ln) addr = Inr (Entries up_to evs False source)"
    and "\<And>addr. fetch up_to (ln_id ln) addr = Inr (Entries up_to [] False source)"
  shows "case fetch_log_from_core_nodes lib cr disk me fetch src sm of (p1, src1, sm1) \<Rightarrow>
    (case fetch_log_from_core_nodes lib cr good_disk me fetch src1 sm1 of (p2, src2, sm2) \<Rightarrow>
       p1 = NotStored \<and> p2 = UpToDate
       \<and> sm_membership sm2 = fold_log cr (sm_membership sm) evs
       \<and> st_published sm2 = st_published sm \<and> st_tables sm2 = st_tables sm)"
proof -
  obtain e sm1 where sm1: "apply_followed lib cr disk up_to evs sm = (Inl e, sm1)"
      "followed_upto sm1 = up_to" "sm_membership sm1 = fold_log cr (sm_membership sm) evs"
      "st_published sm1 = st_published sm" "st_tables sm1 = st_tables sm"
    using apply_followed_unwritten [OF assms(4-8), of up_to] by blast
  have "fetch_log_from_core_nodes lib cr disk me fetch src sm = (NotStored, source, sm1)"
    using pass_asks_leader [where fetch = fetch and c = "ln_id ln" and sm = sm, OF _ _ _ assms(10),
        of src me lib cr disk] assms(1,3,9) sm1(1) by (simp add: asks_leader_def)
  moreover have "fetch_log_from_core_nodes lib cr good_disk me fetch source sm1 = (UpToDate, source, sm1)"
    using pass_asks_leader [where fetch = fetch and c = "ln_id ln" and sm = sm1 and src = source
        and up_to = up_to and events = "[]" and further = False and source = source and me = me
        and lib = lib and cr = cr and disk = good_disk] assms(2,3,11) sm1(2)
    by (simp add: asks_leader_def)
  ultimately show ?thesis using sm1 by simp
qed

theorem unstored_page_is_not_asked_for_again_witness:
  "case fetch_log_from_core_nodes plain_lib plain_crypto \<lparr>disk_reads = True, disk_writes = False\<rparr>
      (MemberId 5) demo_fetch demo_sources plain_store of (p1, src1, sm1) \<Rightarrow>
    (case fetch_log_from_core_nodes plain_lib plain_crypto good_disk (MemberId 5) demo_fetch src1 sm1 of
       (p2, src2, sm2) \<Rightarrow>
         p2 = UpToDate \<and> ms_group (sm_membership sm2) = Some (GroupId 9) \<and> ms_group (st_published sm2) = None)"
proof -
  let ?disk = "\<lparr>disk_reads = True, disk_writes = False\<rparr>"
  let ?source = "source_of demo_api (ln_metrics demo_leader)"
  have fresh: "followed_upto plain_store = 0" by code_simp
  have one: "length (evs_after demo_log 0 2) = 1" by code_simp
  have group: "ms_group (sm_membership (ln_state demo_leader)) = Some (GroupId 9)" by code_simp
  have applied: "last_applied_index (ln_state demo_leader) = 2"
    by (rule leader_has_folded(2) [OF demo_leads])
  have answer: "demo_fetch k m addr = Inr (Entries (page_end 2 page) (lp_events page) (page_end 2 page < 2) ?source)"
    if "events_after (\<lambda>_. 100) good_disk demo_log k 2 EVENTS_PER_FETCH BYTES_PER_FETCH = Inr page"
    for k m addr page
    using that group applied
    by (simp add: demo_fetch_def memberlog_fetch_def Let_def) (simp add: demo_leader_def Let_def)
  have first: "demo_fetch 0 (ln_id demo_leader) addr = Inr (Entries 2 (evs_after demo_log 0 2) False ?source)" for addr
  proof -
    have rows: "rows_between demo_log (sat_add 0 1) 2 =
        [(1, \<lparr>entry_id = demo_id 1, entry_payload = Normal (snd (demo_founding [1]))\<rparr>),
         (2, \<lparr>entry_id = demo_id 2, entry_payload = Blank\<rparr>)]" by code_simp
    have "evs_after demo_log 0 2 = [(1, snd (demo_founding [1]))]" by code_simp
    moreover have "events_after (\<lambda>_. 100) good_disk demo_log 0 2 EVENTS_PER_FETCH BYTES_PER_FETCH
        = Inr \<lparr>lp_events = [(1, snd (demo_founding [1]))], lp_cut_short = False\<rparr>"
      by (simp add: events_after_def good_disk_def rows EVENTS_PER_FETCH_def)
    ultimately show ?thesis using answer by (simp add: page_end_def)
  qed
  have second: "demo_fetch 2 (ln_id demo_leader) addr = Inr (Entries 2 [] False ?source)" for addr
  proof -
    have "rows_between demo_log (sat_add 2 1) 2 = []" by code_simp
    then have "events_after (\<lambda>_. 100) good_disk demo_log 2 2 EVENTS_PER_FETCH BYTES_PER_FETCH
        = Inr \<lparr>lp_events = [], lp_cut_short = False\<rparr>"
      by (simp add: events_after_def good_disk_def)
    then show ?thesis using answer by (simp add: page_end_def)
  qed
  have "case fetch_log_from_core_nodes plain_lib plain_crypto ?disk (MemberId 5) demo_fetch demo_sources plain_store of
    (p1, src1, sm1) \<Rightarrow>
    (case fetch_log_from_core_nodes plain_lib plain_crypto good_disk (MemberId 5) demo_fetch src1 sm1 of
       (p2, src2, sm2) \<Rightarrow>
       p1 = NotStored \<and> p2 = UpToDate
       \<and> sm_membership sm2 = fold_log plain_crypto (sm_membership plain_store) (evs_after demo_log 0 2)
       \<and> st_published sm2 = st_published plain_store \<and> st_tables sm2 = st_tables plain_store)"
  proof (rule unstored_page_is_not_asked_for_again [where ln = demo_leader and source = ?source and up_to = 2])
    show "asks_leader demo_leader demo_sources" by (simp add: asks_leader_def demo_leader_def demo_sources_def)
    show "asks_leader demo_leader ?source" using demo_leads by (simp add: asks_leader_def leads_def)
    show "MemberId 5 \<noteq> ln_id demo_leader" by (simp add: demo_leader_def)
    show "encode_applied plain_lib a \<noteq> None" for a by (simp add: plain_lib_def)
    show "\<not> st_poisoned plain_store" by code_simp
    show "speaks_throughout plain_crypto (sm_membership plain_store) (evs_after demo_log 0 2)"
    proof -
      have "ms_protocol (sm_membership plain_store) \<le> PROTOCOL_MAX" by code_simp
      then show ?thesis using one by (simp add: speaks_throughout_def)
    qed
  qed (use fresh first second in simp_all)
  moreover have "ms_group (fold_log plain_crypto (sm_membership plain_store) (evs_after demo_log 0 2)) = Some (GroupId 9)"
    by code_simp
  moreover have "ms_group (st_published plain_store) = None" by code_simp
  ultimately show ?thesis by (auto split: prod.splits)
qed

end
