(* ===== verification/Core_Group.thy ===== *)
theory Core_Group
  imports Memberlog
begin

text \<open>
  Making Raft's voters match the log's core group: \<open>distlib-consensus/src/raft/core_group.rs\<close>. A pass
  compares what the log wants with what openraft has and submits at most one change; the loop calls it
  again until there is nothing left to do. What openraft reports and what a change does to its
  configuration are arguments, with what openraft documents of them as a hypothesis.

  The theorems say what is asked for in every situation, and that passes converge: each change brings
  the voters nearer to the core group, and they end up equal.
\<close>

section \<open>What to change next\<close>

datatype core_change =
    Readdress "(raw_member_id, node_addr) btmap"
  | RemoveVoted "raw_member_id btset"
  | Learn "(raw_member_id, node_addr) btmap"
  | Promote "raw_member_id btset"
  | CatchingUp "member_id list"

definition next_change ::
    "(member_id, node_addr) btmap \<Rightarrow> (member_id, node_addr) btmap \<Rightarrow> (member_id, bool) btmap
      \<Rightarrow> core_change option" where
  "next_change wanted voters learners =
     (if bt_len wanted = 0 then None
      else
        (let moved = bt_collect (map (\<lambda>(m, a). (raw_of m, a))
               (filter (\<lambda>(m, a). case bt_get voters m of Some current \<Rightarrow> current \<noteq> a | None \<Rightarrow> False)
                  (bt_entries wanted)))
         in if bt_len moved \<noteq> 0 then Some (Readdress moved)
            else
              (let joining = filter (\<lambda>m. \<not> bt_has voters m) (bt_keys wanted);
                   known = filter (bt_has learners) joining;
                   unknown = filter (\<lambda>m. \<not> bt_has learners m) joining;
                   strangers = bt_collect
                     (List.map_filter (\<lambda>m. map_option (Pair (raw_of m)) (bt_get wanted m)) unknown)
               in if bt_len strangers \<noteq> 0 then Some (Learn strangers)
                  else
                    (let ready = filter (\<lambda>m. bt_get learners m = Some True) known;
                         behind = filter (\<lambda>m. bt_get learners m \<noteq> Some True) known
                     in if ready \<noteq> [] then Some (Promote (bts_of (map raw_of ready)))
                        else if behind \<noteq> [] then Some (CatchingUp behind)
                        else
                          (let departed = bts_of (map raw_of (filter (\<lambda>m. \<not> bt_has wanted m) (bt_keys voters)))
                           in if bt_len departed \<noteq> 0 then Some (RemoveVoted departed) else None)))))"

section \<open>What openraft has\<close>

record 'm reconfig_api = "'m config_api" +
  joint_config :: "'m \<Rightarrow> raw_member_id btset list"
  config_nodes :: "'m \<Rightarrow> (raw_member_id \<times> node_addr) list"

fun collect_options :: "'a option list \<Rightarrow> 'a list option" where
  "collect_options [] = Some []"
| "collect_options (x # xs) =
     (case x of None \<Rightarrow> None | Some a \<Rightarrow> map_option (Cons a) (collect_options xs))"

definition current_voters :: "('m, 'z) reconfig_api_scheme \<Rightarrow> 'm \<Rightarrow> (member_id, node_addr) btmap option" where
  "current_voters api m =
     map_option bt_collect
       (collect_options (map (\<lambda>raw. case member_of_raw (on_curve api) raw of
           None \<Rightarrow> None
         | Some member \<Rightarrow> map_option (Pair member) (get_node api m raw)) (voter_ids api m)))"

text \<open>A learner no replication is reported for counts as behind what was committed, if anything was.\<close>

definition at_least :: "u64 option \<Rightarrow> u64 option \<Rightarrow> bool" where
  "at_least matched committed =
     (case committed of
        None \<Rightarrow> True
      | Some c \<Rightarrow> (case matched of None \<Rightarrow> False | Some i \<Rightarrow> c \<le> i))"

definition learner_progress ::
    "('m, 'z) reconfig_api_scheme \<Rightarrow> 'm \<Rightarrow> (raw_member_id, log_id option) btmap option \<Rightarrow> u64 option
      \<Rightarrow> (member_id, bool) btmap" where
  "learner_progress api m replication committed =
     bt_collect (List.map_filter
       (\<lambda>(raw, _). case member_of_raw (on_curve api) raw of
          None \<Rightarrow> None
        | Some member \<Rightarrow>
            Some (member,
              at_least
                (map_option log_index
                   (Option.bind (Option.bind replication (\<lambda>progress. bt_get progress raw)) id))
                committed))
       (filter (\<lambda>(raw, _). raw \<notin> set (voter_ids api m)) (config_nodes api m)))"

section \<open>One pass\<close>

datatype pass = Converged | NotOurs | Changed | Waiting

datatype change_members =
    ReplaceAllVoters "raw_member_id btset"
  | SetNodes "(raw_member_id, node_addr) btmap"
  | RemoveVoters "raw_member_id btset"
  | AddNodes "(raw_member_id, node_addr) btmap"
  | AddVoterIds "raw_member_id btset"
  | RemoveNodes "raw_member_id btset"

text \<open>
  What the leader sees: whether it is one, the configuration in force, how far it has replicated and
  committed, and which learners say, when asked, that they know they no longer vote.
\<close>

record 'm leader_view =
  lv_leads :: bool
  lv_config :: 'm
  lv_replication :: "(raw_member_id, log_id option) btmap option"
  lv_committed :: "u64 option"
  lv_retired :: "raw_member_id \<Rightarrow> bool"

text \<open>
  What a pass submits, with whether removed voters are retained as learners, and what it answers once
  that has gone through.
\<close>

definition retire_learners ::
    "('m, 'z) reconfig_api_scheme \<Rightarrow> membership_state \<Rightarrow> 'm leader_view \<Rightarrow> (change_members \<times> bool) option \<times> pass" where
  "retire_learners api wanted view =
     (if bt_len (ms_core wanted) = 0 then (None, Converged)
      else
        (let leaving = filter (\<lambda>(raw, _). raw \<notin> set (voter_ids api (lv_config view)) \<and>
                 \<not> (case member_of_raw (on_curve api) raw of None \<Rightarrow> False | Some m \<Rightarrow> is_core wanted m))
               (config_nodes api (lv_config view));
             retired = bts_of (map fst (filter (\<lambda>(raw, _). lv_retired view raw) leaving))
         in if bt_len retired \<noteq> 0 then (Some (RemoveNodes retired, True), Changed)
            else (None, if leaving \<noteq> [] then Waiting else Converged)))"

definition enact_pass ::
    "('m, 'z) reconfig_api_scheme \<Rightarrow> membership_state \<Rightarrow> 'm leader_view \<Rightarrow> (change_members \<times> bool) option \<times> pass" where
  "enact_pass api published view =
     (if \<not> lv_leads view then (None, NotOurs)
      else if 1 < length (joint_config api (lv_config view))
      then (Some (ReplaceAllVoters (last (joint_config api (lv_config view))), True), Changed)
      else
        (case current_voters api (lv_config view) of
           None \<Rightarrow> (None, Converged)
         | Some voters \<Rightarrow>
             (case next_change (ms_core published) voters
                     (learner_progress api (lv_config view) (lv_replication view) (lv_committed view)) of
                None \<Rightarrow> retire_learners api published view
              | Some (Readdress moved) \<Rightarrow> (Some (SetNodes moved, False), Changed)
              | Some (RemoveVoted departed) \<Rightarrow> (Some (RemoveVoters departed, True), Changed)
              | Some (Learn joining) \<Rightarrow> (Some (AddNodes joining, False), Changed)
              | Some (Promote ready) \<Rightarrow> (Some (AddVoterIds ready, False), Changed)
              | Some (CatchingUp behind) \<Rightarrow> (None, Waiting))))"

section \<open>What is asked for\<close>

text \<open>The five situations, as sets of members.\<close>

definition moved_voters :: "(member_id, node_addr) btmap \<Rightarrow> (member_id, node_addr) btmap \<Rightarrow> member_id set" where
  "moved_voters wanted voters =
     {m. \<exists>a b. bt_get wanted m = Some a \<and> bt_get voters m = Some b \<and> b \<noteq> a}"

definition joining_as :: "(bool option \<Rightarrow> bool) \<Rightarrow> (member_id, node_addr) btmap \<Rightarrow> (member_id, node_addr) btmap
    \<Rightarrow> (member_id, bool) btmap \<Rightarrow> member_id set" where
  "joining_as P wanted voters learners =
     {m. bt_has wanted m \<and> \<not> bt_has voters m \<and> P (bt_get learners m)}"

abbreviation strangers_in where "strangers_in \<equiv> joining_as (\<lambda>p. p = None)"
abbreviation ready_in where "ready_in \<equiv> joining_as (\<lambda>p. p = Some True)"
abbreviation behind_in where "behind_in \<equiv> joining_as (\<lambda>p. p = Some False)"

definition departed_from :: "(member_id, node_addr) btmap \<Rightarrow> (member_id, node_addr) btmap \<Rightarrow> member_id set" where
  "departed_from wanted voters = {m. bt_has voters m \<and> \<not> bt_has wanted m}"

lemma bt_len_0_iff: "bt_len m = 0 \<longleftrightarrow> (\<forall>k. bt_get m k = None)"
  by (auto simp: bt_len_card)

lemma set_bt_keys_has: "m \<in> set (bt_keys t) \<longleftrightarrow> bt_has t m"
  by (simp add: bt_has_dom)

text \<open>A map collected from members keeps each member's entry under its raw key.\<close>

lemma get_collect_raw:
  assumes "distinct (map fst es)"
  shows "bt_get (bt_collect (map (\<lambda>(m, a). (raw_of m, a)) es)) raw = Some a
           \<longleftrightarrow> (\<exists>m. raw = raw_of m \<and> (m, a) \<in> set es)"
proof -
  have "map fst (map (\<lambda>(m, a). (raw_of m, a)) es) = map raw_of (map fst es)"
    by auto
  moreover have "distinct (map raw_of (map fst es))"
    using assms by (subst distinct_map) (simp add: inj_on_def)
  ultimately have d: "distinct (map fst (map (\<lambda>(m, a). (raw_of m, a)) es))"
    by metis
  show ?thesis
    unfolding bt_collect_distinct [OF d] map_of_eq_Some_iff [OF d] by force
qed

definition moved_map :: "(member_id, node_addr) btmap \<Rightarrow> (member_id, node_addr) btmap
    \<Rightarrow> (raw_member_id, node_addr) btmap" where
  "moved_map wanted voters = bt_collect (map (\<lambda>(m, a). (raw_of m, a))
     (filter (\<lambda>(m, a). case bt_get voters m of Some current \<Rightarrow> current \<noteq> a | None \<Rightarrow> False) (bt_entries wanted)))"

definition strangers_map :: "(member_id, node_addr) btmap \<Rightarrow> (member_id, node_addr) btmap
    \<Rightarrow> (member_id, bool) btmap \<Rightarrow> (raw_member_id, node_addr) btmap" where
  "strangers_map wanted voters learners = bt_collect
     (List.map_filter (\<lambda>m. map_option (Pair (raw_of m)) (bt_get wanted m))
        (filter (\<lambda>m. \<not> bt_has learners m) (filter (\<lambda>m. \<not> bt_has voters m) (bt_keys wanted))))"

lemma get_moved_map:
  "bt_get (moved_map wanted voters) raw = Some a \<longleftrightarrow>
     (\<exists>m \<in> moved_voters wanted voters. raw = raw_of m \<and> bt_get wanted m = Some a)"
proof -
  have "distinct (map fst (filter (\<lambda>(m, a). case bt_get voters m of Some current \<Rightarrow> current \<noteq> a | None \<Rightarrow> False)
      (bt_entries wanted)))"
    by (simp add: distinct_map_filter)
  from get_collect_raw [OF this] show ?thesis
    by (auto simp: moved_map_def moved_voters_def bt_entries_iff split: option.splits)
qed

lemma map_filter_pairs:
  "List.map_filter (\<lambda>m. map_option (Pair (raw_of m)) (f m)) ms =
     map (\<lambda>(m, a). (raw_of m, a)) (List.map_filter (\<lambda>m. map_option (Pair m) (f m)) ms)"
  by (induction ms) (auto simp: List.map_filter_simps split: option.splits)

lemma map_fst_map_filter:
  "map fst (List.map_filter (\<lambda>m. map_option (Pair m) (f m)) ms) = filter (\<lambda>m. f m \<noteq> None) ms"
  by (induction ms) (auto simp: List.map_filter_simps split: option.splits)

lemma get_strangers_map:
  "bt_get (strangers_map wanted voters learners) raw = Some a \<longleftrightarrow>
     (\<exists>m \<in> strangers_in wanted voters learners. raw = raw_of m \<and> bt_get wanted m = Some a)"
proof -
  let ?ms = "filter (\<lambda>m. \<not> bt_has learners m) (filter (\<lambda>m. \<not> bt_has voters m) (bt_keys wanted))"
  let ?es = "List.map_filter (\<lambda>m. map_option (Pair m) (bt_get wanted m)) ?ms"
  have "distinct (map fst ?es)"
    unfolding map_fst_map_filter by simp
  from get_collect_raw [OF this]
  have "bt_get (strangers_map wanted voters learners) raw = Some a \<longleftrightarrow>
      (\<exists>m. raw = raw_of m \<and> (m, a) \<in> set ?es)"
    by (simp add: strangers_map_def map_filter_pairs)
  also have "\<dots> \<longleftrightarrow> (\<exists>m \<in> strangers_in wanted voters learners. raw = raw_of m \<and> bt_get wanted m = Some a)"
    by (force simp: joining_as_def bt_has_def List.map_filter_def)
  finally show ?thesis .
qed

text \<open>The order in which the situations are looked for, with what is asked for in each.\<close>

lemma next_change_eq:
  "next_change wanted voters learners =
     (if bt_len wanted = 0 then None
      else if moved_voters wanted voters \<noteq> {} then Some (Readdress (moved_map wanted voters))
      else if strangers_in wanted voters learners \<noteq> {} then Some (Learn (strangers_map wanted voters learners))
      else if ready_in wanted voters learners \<noteq> {}
        then Some (Promote (bts_of (map raw_of (filter (\<lambda>m. m \<in> ready_in wanted voters learners) (bt_keys wanted)))))
      else if behind_in wanted voters learners \<noteq> {}
        then Some (CatchingUp (filter (\<lambda>m. m \<in> behind_in wanted voters learners) (bt_keys wanted)))
      else if departed_from wanted voters \<noteq> {}
        then Some (RemoveVoted (bts_of (map raw_of (filter (\<lambda>m. m \<in> departed_from wanted voters) (bt_keys voters)))))
      else None)"
proof -
  have moved: "bt_len (moved_map wanted voters) = 0 \<longleftrightarrow> moved_voters wanted voters = {}"
    unfolding bt_len_0_iff using get_moved_map [of wanted voters]
    by (auto simp: moved_voters_def) (metis not_None_eq option.inject)+
  have strangers: "bt_len (strangers_map wanted voters learners) = 0 \<longleftrightarrow> strangers_in wanted voters learners = {}"
    unfolding bt_len_0_iff using get_strangers_map [of wanted voters learners]
    by (auto simp: joining_as_def bt_has_def) (metis not_None_eq)+
  let ?known = "filter (bt_has learners) (filter (\<lambda>m. \<not> bt_has voters m) (bt_keys wanted))"
  have ready: "filter (\<lambda>m. bt_get learners m = Some True) ?known =
      filter (\<lambda>m. m \<in> ready_in wanted voters learners) (bt_keys wanted)"
    by (auto simp: joining_as_def bt_has_def intro!: filter_cong)
  have behind: "filter (\<lambda>m. bt_get learners m \<noteq> Some True) ?known =
      filter (\<lambda>m. m \<in> behind_in wanted voters learners) (bt_keys wanted)"
    by (auto simp: joining_as_def bt_has_def intro!: filter_cong)
  have departed: "filter (\<lambda>m. \<not> bt_has wanted m) (bt_keys voters) =
      filter (\<lambda>m. m \<in> departed_from wanted voters) (bt_keys voters)"
    by (auto simp: departed_from_def bt_has_def intro!: filter_cong)
  have some: "filter (\<lambda>m. m \<in> joining_as P wanted voters learners) (bt_keys wanted) \<noteq> [] \<longleftrightarrow>
      joining_as P wanted voters learners \<noteq> {}" for P
    by (auto simp: filter_empty_conv joining_as_def bt_has_def)
  have gone: "bt_len (bts_of (map raw_of (filter (\<lambda>m. m \<in> departed_from wanted voters) (bt_keys voters)))) = 0
      \<longleftrightarrow> departed_from wanted voters = {}"
    by (auto simp: bts_of_def bt_len_card departed_from_def bt_has_def filter_empty_conv)
  show ?thesis
    unfolding next_change_def moved_map_def [symmetric] strangers_map_def [symmetric] Let_def
      ready behind departed moved strangers gone some by (rule refl)
qed

text \<open>When nobody has moved, nobody is joining and nobody has left, the two maps are the same.\<close>

lemma voters_eq_wanted:
  "voters = wanted \<longleftrightarrow> moved_voters wanted voters = {} \<and> (\<forall>m. bt_has wanted m \<longrightarrow> bt_has voters m)
     \<and> departed_from wanted voters = {}"
proof
  assume *: "moved_voters wanted voters = {} \<and> (\<forall>m. bt_has wanted m \<longrightarrow> bt_has voters m)
     \<and> departed_from wanted voters = {}"
  show "voters = wanted"
  proof (rule bt_ext)
    show "bt_get voters m = bt_get wanted m" for m
    proof (cases "bt_get voters m")
      case None
      with * show ?thesis by (metis bt_has_def)
    next
      case (Some b)
      then have "bt_has wanted m"
        using * unfolding departed_from_def bt_has_def by blast
      with * Some show ?thesis by (auto simp: moved_voters_def bt_has_def)
    qed
  qed
qed (auto simp: moved_voters_def departed_from_def)

lemma joining_none:
  "strangers_in wanted voters learners = {} \<Longrightarrow> ready_in wanted voters learners = {}
     \<Longrightarrow> behind_in wanted voters learners = {} \<Longrightarrow> bt_has wanted m \<Longrightarrow> bt_has voters m"
proof (cases "bt_get learners m")
  case (Some b)
  assume "strangers_in wanted voters learners = {}" "ready_in wanted voters learners = {}"
    "behind_in wanted voters learners = {}" "bt_has wanted m"
  with Some show "bt_has voters m"
    by (cases b) (auto simp: joining_as_def)
qed (auto simp: joining_as_def)

text \<open>What each answer says about the situation it was given in.\<close>

lemma bt_has_raw_keys:
  "S \<subseteq> dom (bt_get t) \<Longrightarrow> bt_has (bts_of (map raw_of (filter (\<lambda>m. m \<in> S) (bt_keys t)))) raw \<longleftrightarrow> raw \<in> raw_of ` S"
  by auto

lemma joining_dom: "joining_as P wanted voters learners \<subseteq> dom (bt_get wanted)"
  and departed_dom: "departed_from wanted voters \<subseteq> dom (bt_get voters)"
  by (auto simp: joining_as_def departed_from_def bt_has_def)

lemma next_change_None: "next_change wanted voters learners = None \<longleftrightarrow> bt_len wanted = 0 \<or> voters = wanted"
proof -
  have "strangers_in wanted wanted learners = {}" "ready_in wanted wanted learners = {}"
    "behind_in wanted wanted learners = {}" "moved_voters wanted wanted = {}" "departed_from wanted wanted = {}"
    by (auto simp: joining_as_def moved_voters_def departed_from_def)
  moreover have "voters = wanted" if "next_change wanted voters learners = None" "bt_len wanted \<noteq> 0"
    using that joining_none [of wanted voters learners] unfolding voters_eq_wanted [of voters]
    by (auto simp: next_change_eq split: if_splits)
  ultimately show ?thesis
    by (auto simp: next_change_eq)
qed

lemma next_change_Readdress:
  assumes "next_change wanted voters learners = Some (Readdress ns)"
  shows "moved_voters wanted voters \<noteq> {}" "ns = moved_map wanted voters"
  using assms by (auto simp: next_change_eq split: if_splits)

lemma next_change_Learn:
  assumes "next_change wanted voters learners = Some (Learn ns)"
  shows "strangers_in wanted voters learners \<noteq> {}" "ns = strangers_map wanted voters learners"
  using assms by (auto simp: next_change_eq split: if_splits)

lemma next_change_Promote:
  assumes "next_change wanted voters learners = Some (Promote ids)"
  shows "ready_in wanted voters learners \<noteq> {}"
    "bt_has ids raw \<longleftrightarrow> raw \<in> raw_of ` ready_in wanted voters learners"
proof -
  from assms show "ready_in wanted voters learners \<noteq> {}"
    by (auto simp: next_change_eq split: if_splits)
  from assms have ids:
    "ids = bts_of (map raw_of (filter (\<lambda>m. m \<in> ready_in wanted voters learners) (bt_keys wanted)))"
    by (auto simp: next_change_eq split: if_splits)
  show "bt_has ids raw \<longleftrightarrow> raw \<in> raw_of ` ready_in wanted voters learners"
    unfolding ids by (rule bt_has_raw_keys [OF joining_dom])
qed

lemma next_change_CatchingUp:
  assumes "next_change wanted voters learners = Some (CatchingUp ms)"
  shows "behind_in wanted voters learners \<noteq> {}" "set ms = behind_in wanted voters learners"
    "moved_voters wanted voters = {}" "strangers_in wanted voters learners = {}"
    "ready_in wanted voters learners = {}"
  using assms by (auto simp: next_change_eq joining_as_def bt_has_dom split: if_splits)

lemma next_change_RemoveVoted:
  assumes "next_change wanted voters learners = Some (RemoveVoted ids)"
  shows "departed_from wanted voters \<noteq> {}" "bt_has ids raw \<longleftrightarrow> raw \<in> raw_of ` departed_from wanted voters"
    "moved_voters wanted voters = {}" "bt_has wanted m \<Longrightarrow> bt_has voters m"
proof -
  from assms have *: "strangers_in wanted voters learners = {}" "ready_in wanted voters learners = {}"
    "behind_in wanted voters learners = {}" "moved_voters wanted voters = {}" "departed_from wanted voters \<noteq> {}"
    and ids: "ids = bts_of (map raw_of (filter (\<lambda>m. m \<in> departed_from wanted voters) (bt_keys voters)))"
    by (auto simp: next_change_eq split: if_splits)
  from * show "departed_from wanted voters \<noteq> {}" "moved_voters wanted voters = {}"
    "bt_has wanted m \<Longrightarrow> bt_has voters m"
    by (simp_all add: joining_none)
  show "bt_has ids raw \<longleftrightarrow> raw \<in> raw_of ` departed_from wanted voters"
    unfolding ids by (rule bt_has_raw_keys [OF departed_dom])
qed

lemma unmoved:
  "moved_voters wanted voters = {} \<Longrightarrow> bt_get wanted m = Some a \<Longrightarrow> bt_has voters m \<Longrightarrow> bt_get voters m = Some a"
  by (auto simp: moved_voters_def bt_has_def)

lemma bt_len_pos: "bt_has m k \<Longrightarrow> bt_len m \<noteq> 0"
  by (auto simp: bt_len_0_iff bt_has_def)

text \<open>
  Reconfiguration asks for what the situation needs and nothing more. Nothing is asked for exactly
  when the core group is empty or the voters already are the core group at its addresses. Otherwise a
  voter is given a new address only if the log moved it; a member is made a learner only if the log
  wants it and it is unknown; one is promoted only if the log wants it and its log has caught up; and
  voters are removed only once every member of the core group votes at its address, when exactly the
  voters the log no longer lists go and the core group remains.
\<close>
theorem reconfiguration_asks_for_the_difference:
  "(next_change wanted voters learners = None \<longleftrightarrow> bt_len wanted = 0 \<or> voters = wanted) \<and>
   (case next_change wanted voters learners of
      None \<Rightarrow> True
    | Some (Readdress ns) \<Rightarrow>
        bt_len ns \<noteq> 0 \<and>
        (\<forall>raw a. bt_get ns raw = Some a \<longleftrightarrow>
           (\<exists>m b. raw = raw_of m \<and> bt_get wanted m = Some a \<and> bt_get voters m = Some b \<and> b \<noteq> a))
    | Some (Learn ns) \<Rightarrow>
        bt_len ns \<noteq> 0 \<and>
        (\<forall>raw a. bt_get ns raw = Some a \<longleftrightarrow>
           (\<exists>m. raw = raw_of m \<and> bt_get wanted m = Some a \<and> bt_get voters m = None \<and> bt_get learners m = None))
    | Some (Promote ids) \<Rightarrow>
        bt_len ids \<noteq> 0 \<and>
        (\<forall>raw. bt_has ids raw \<longleftrightarrow>
           (\<exists>m. raw = raw_of m \<and> bt_has wanted m \<and> bt_get voters m = None \<and> bt_get learners m = Some True))
    | Some (CatchingUp ms) \<Rightarrow>
        ms \<noteq> [] \<and>
        set ms = {m. bt_has wanted m \<and> bt_get voters m = None \<and> bt_get learners m = Some False} \<and>
        (\<forall>m a. bt_get wanted m = Some a \<longrightarrow> bt_get voters m = Some a \<or> m \<in> set ms)
    | Some (RemoveVoted ids) \<Rightarrow>
        bt_len ids \<noteq> 0 \<and>
        (\<forall>m a. bt_get wanted m = Some a \<longrightarrow> bt_get voters m = Some a) \<and>
        bt_retain (\<lambda>m _. \<not> bt_has ids (raw_of m)) voters = wanted)"
  (is "_ \<and> ?answer")
proof (intro conjI next_change_None, cases "next_change wanted voters learners")
  case (Some c)
  show ?answer
  proof (cases c)
    case (Readdress ns)
    note * = next_change_Readdress [OF Some [unfolded Readdress]]
    then obtain m a where "m \<in> moved_voters wanted voters" "bt_get wanted m = Some a"
      by (auto simp: moved_voters_def)
    then have "bt_has ns (raw_of m)"
      using * get_moved_map [of wanted voters "raw_of m" a] by (auto simp: bt_has_def)
    then show ?thesis
      using bt_len_pos [of ns] by (auto simp: Some Readdress * get_moved_map moved_voters_def)
  next
    case (Learn ns)
    note * = next_change_Learn [OF Some [unfolded Learn]]
    then obtain m a where "m \<in> strangers_in wanted voters learners" "bt_get wanted m = Some a"
      by (auto simp: joining_as_def bt_has_def)
    then have "bt_has ns (raw_of m)"
      using * get_strangers_map [of wanted voters learners "raw_of m" a] by (auto simp: bt_has_def)
    then show ?thesis
      using bt_len_pos [of ns] by (auto simp: Some Learn * get_strangers_map joining_as_def bt_has_def)
  next
    case (Promote ids)
    note * = next_change_Promote [OF Some [unfolded Promote]]
    then show ?thesis
      using bt_len_pos [of ids] by (auto simp: Some Promote joining_as_def bt_has_def)
  next
    case (CatchingUp ms)
    note * = next_change_CatchingUp [OF Some [unfolded CatchingUp]]
    have "bt_get voters m = Some a \<or> m \<in> set ms" if wants: "bt_get wanted m = Some a" for m a
    proof (cases "bt_has voters m")
      case False
      have "m \<notin> strangers_in wanted voters learners" "m \<notin> ready_in wanted voters learners"
        using *(4,5) by simp_all
      with False wants have "m \<in> behind_in wanted voters learners"
        by (cases "bt_get learners m") (simp_all add: joining_as_def bt_has_def)
      with * show ?thesis by simp
    qed (use unmoved [OF *(3) wants] in simp)
    then show ?thesis
      using * by (auto simp: Some CatchingUp joining_as_def bt_has_def)
  next
    case (RemoveVoted ids)
    note * = next_change_RemoveVoted [OF Some [unfolded RemoveVoted]]
    have "bt_retain (\<lambda>m _. \<not> bt_has ids (raw_of m)) voters = wanted"
    proof (rule bt_ext)
      show "bt_get (bt_retain (\<lambda>m _. \<not> bt_has ids (raw_of m)) voters) m = bt_get wanted m" for m
        using * unmoved [OF *(3)] by (cases "bt_get wanted m") (auto simp: departed_from_def bt_has_def split: option.splits)
    qed
    moreover obtain m where "m \<in> departed_from wanted voters"
      using *(1) by blast
    then have "bt_len ids \<noteq> 0"
      using *(2) by (intro bt_len_pos [of ids "raw_of m"]) simp
    moreover have "bt_get voters m = Some a" if "bt_get wanted m = Some a" for m a
      using unmoved [OF *(3) that] *(4) [of m] that by (simp add: bt_has_def)
    ultimately show ?thesis
      by (simp add: Some RemoveVoted)
  qed
qed simp

theorem reconfiguration_asks_for_the_difference_witness:
  "let wanted = bt_collect [(MemberId 1, lookup_only), (MemberId 4, lookup_only)];
       voters = bt_collect [(MemberId 1, lookup_only), (MemberId 2, lookup_only), (MemberId 4, lookup_only)]
   in next_change wanted voters bt_empty = Some (RemoveVoted (bts_of [RawMemberId 2])) \<and>
      bt_retain (\<lambda>m _. \<not> bt_has (bts_of [RawMemberId 2]) (raw_of m)) voters = wanted"
proof -
  let ?wanted = "bt_collect [(MemberId 1, lookup_only), (MemberId 4, lookup_only)]"
    and ?voters = "bt_collect [(MemberId 1, lookup_only), (MemberId 2, lookup_only), (MemberId 4, lookup_only)]"
  have asked: "next_change ?wanted ?voters bt_empty = Some (RemoveVoted (bts_of [RawMemberId 2]))"
    by code_simp
  show ?thesis
    using reconfiguration_asks_for_the_difference [of ?wanted ?voters bt_empty] by (simp add: asked)
qed

section \<open>Passes converge\<close>

text \<open>
  A configuration as openraft keeps it between changes: uniform, every voter and node the id of a
  member, every voter with a node.
\<close>

definition config_ok :: "('m, 'z) reconfig_api_scheme \<Rightarrow> 'm \<Rightarrow> bool" where
  "config_ok api m \<longleftrightarrow>
     length (joint_config api m) \<le> 1 \<and>
     (\<forall>raw a. (raw, a) \<in> set (config_nodes api m) \<longleftrightarrow> get_node api m raw = Some a) \<and>
     (\<forall>raw. get_node api m raw \<noteq> None \<longrightarrow> member_of_raw (on_curve api) raw \<noteq> None) \<and>
     (\<forall>raw \<in> set (voter_ids api m). get_node api m raw \<noteq> None)"

text \<open>
  What openraft documents of a change that has gone through: the configuration is uniform again; nodes
  set replace those there, nodes added are there if they were not; voters added had nodes; voters
  removed are retained as learners; nodes removed were not voters.
\<close>

definition changes_ok :: "('m, 'z) reconfig_api_scheme \<Rightarrow> ('m \<Rightarrow> change_members \<Rightarrow> bool \<Rightarrow> 'm) \<Rightarrow> bool" where
  "changes_ok api change \<longleftrightarrow>
     (\<forall>m ns retain. config_ok api m \<longrightarrow>
        length (joint_config api (change m (SetNodes ns) retain)) \<le> 1 \<and>
        set (voter_ids api (change m (SetNodes ns) retain)) = set (voter_ids api m) \<and>
        (\<forall>raw. get_node api (change m (SetNodes ns) retain) raw =
           (case bt_get ns raw of Some a \<Rightarrow> Some a | None \<Rightarrow> get_node api m raw))) \<and>
     (\<forall>m ns retain. config_ok api m \<longrightarrow>
        length (joint_config api (change m (AddNodes ns) retain)) \<le> 1 \<and>
        set (voter_ids api (change m (AddNodes ns) retain)) = set (voter_ids api m) \<and>
        (\<forall>raw. get_node api (change m (AddNodes ns) retain) raw =
           (case get_node api m raw of Some a \<Rightarrow> Some a | None \<Rightarrow> bt_get ns raw))) \<and>
     (\<forall>m ids retain. config_ok api m \<and> (\<forall>raw. bt_has ids raw \<longrightarrow> get_node api m raw \<noteq> None) \<longrightarrow>
        length (joint_config api (change m (AddVoterIds ids) retain)) \<le> 1 \<and>
        set (voter_ids api (change m (AddVoterIds ids) retain)) = set (voter_ids api m) \<union> {raw. bt_has ids raw} \<and>
        get_node api (change m (AddVoterIds ids) retain) = get_node api m) \<and>
     (\<forall>m ids. config_ok api m \<and> \<not> set (voter_ids api m) \<subseteq> {raw. bt_has ids raw} \<longrightarrow>
        length (joint_config api (change m (RemoveVoters ids) True)) \<le> 1 \<and>
        set (voter_ids api (change m (RemoveVoters ids) True)) = set (voter_ids api m) - {raw. bt_has ids raw} \<and>
        get_node api (change m (RemoveVoters ids) True) = get_node api m) \<and>
     (\<forall>m ids retain. config_ok api m \<and> (\<forall>raw \<in> set (voter_ids api m). \<not> bt_has ids raw) \<longrightarrow>
        length (joint_config api (change m (RemoveNodes ids) retain)) \<le> 1 \<and>
        set (voter_ids api (change m (RemoveNodes ids) retain)) = set (voter_ids api m) \<and>
        (\<forall>raw. get_node api (change m (RemoveNodes ids) retain) raw =
           (if bt_has ids raw then None else get_node api m raw))) \<and>
     (\<forall>m c retain raw a. config_ok api m \<longrightarrow>
        ((raw, a) \<in> set (config_nodes api (change m c retain)) \<longleftrightarrow> get_node api (change m c retain) raw = Some a))"

text \<open>One pass and its effect; what is looked at in each pass is the configuration it finds.\<close>

definition after_pass ::
    "('m, 'z) reconfig_api_scheme \<Rightarrow> ('m \<Rightarrow> change_members \<Rightarrow> bool \<Rightarrow> 'm) \<Rightarrow> membership_state
      \<Rightarrow> 'm leader_view \<Rightarrow> 'm" where
  "after_pass api change published view =
     (case fst (enact_pass api published view) of
        None \<Rightarrow> lv_config view
      | Some (c, retain) \<Rightarrow> change (lv_config view) c retain)"

primrec passes ::
    "('m, 'z) reconfig_api_scheme \<Rightarrow> ('m \<Rightarrow> change_members \<Rightarrow> bool \<Rightarrow> 'm) \<Rightarrow> membership_state
      \<Rightarrow> (nat \<Rightarrow> 'm leader_view) \<Rightarrow> 'm \<Rightarrow> nat \<Rightarrow> 'm" where
  "passes api change published looks m 0 = m"
| "passes api change published looks m (Suc k) =
     after_pass api change published ((looks k)\<lparr>lv_config := passes api change published looks m k\<rparr>)"

text \<open>Whether the leader is told that a node's log has caught up with what it has committed.\<close>

definition caught_up :: "'m leader_view \<Rightarrow> raw_member_id \<Rightarrow> bool" where
  "caught_up view raw \<longleftrightarrow>
     at_least (map_option log_index (Option.bind (Option.bind (lv_replication view) (\<lambda>p. bt_get p raw)) id))
       (lv_committed view)"

text \<open>What the members of a sound configuration are read as.\<close>

definition voter_at :: "('m, 'z) reconfig_api_scheme \<Rightarrow> 'm \<Rightarrow> member_id \<Rightarrow> node_addr option" where
  "voter_at api m member =
     (if raw_of member \<in> set (voter_ids api m) then get_node api m (raw_of member) else None)"

lemma member_of_raw_Some: "member_of_raw oc raw = Some member \<longleftrightarrow> raw = raw_of member \<and> oc (member_bytes member)"
  by (cases raw; cases member) (auto simp: member_of_raw_def raw_of_def)

lemma collect_options_all: "\<forall>x \<in> set xs. x \<noteq> None \<Longrightarrow> collect_options xs = Some (map the xs)"
  by (induction xs) auto

lemma set_map_filter_iff: "y \<in> set (List.map_filter f xs) \<longleftrightarrow> (\<exists>x \<in> set xs. f x = Some y)"
  by (induction xs) (auto simp: List.map_filter_simps split: option.splits)

text \<open>Collecting the graph of a function gives the function.\<close>

lemma collect_graph:
  assumes "\<And>k v. (k, v) \<in> set es \<longleftrightarrow> f k = Some v"
  shows "bt_get (bt_collect es) k = f k"
proof (cases "map_of (rev es) k")
  case None
  then have "k \<notin> fst ` set es" by (simp add: map_of_eq_None_iff)
  then show ?thesis using None assms [of k] by (cases "f k") (force simp: bt_get_collect)+
next
  case (Some v)
  then have "(k, v) \<in> set es" using map_of_SomeD by fastforce
  then show ?thesis using Some assms by (simp add: bt_get_collect)
qed

lemma config_okD:
  assumes "config_ok api m"
  shows "(raw, a) \<in> set (config_nodes api m) \<longleftrightarrow> get_node api m raw = Some a"
    "get_node api m raw = Some a \<Longrightarrow> \<exists>member. raw = raw_of member \<and> on_curve api (member_bytes member)"
    "raw \<in> set (voter_ids api m) \<Longrightarrow> \<exists>a. get_node api m raw = Some a"
    "length (joint_config api m) \<le> 1"
proof -
  show "\<exists>member. raw = raw_of member \<and> on_curve api (member_bytes member)" if "get_node api m raw = Some a"
  proof -
    have "member_of_raw (on_curve api) raw \<noteq> None"
      using assms that by (simp add: config_ok_def)
    then show ?thesis by (auto simp: member_of_raw_Some)
  qed
qed (use assms in \<open>auto simp: config_ok_def\<close>)

lemma config_okI:
  assumes "length (joint_config api m) \<le> 1"
    and "\<And>raw a. (raw, a) \<in> set (config_nodes api m) \<longleftrightarrow> get_node api m raw = Some a"
    and "\<And>raw. get_node api m raw \<noteq> None \<Longrightarrow> \<exists>k. raw = raw_of k \<and> on_curve api (member_bytes k)"
    and "\<And>raw. raw \<in> set (voter_ids api m) \<Longrightarrow> get_node api m raw \<noteq> None"
  shows "config_ok api m"
  unfolding config_ok_def using assms(1,2,4) assms(3) [THEN exE]
  by (auto simp: member_of_raw_of) (metis assms(3) member_of_raw_of option.discI)

lemma current_voters_ok:
  assumes "config_ok api m"
  obtains voters where "current_voters api m = Some voters" "\<And>member. bt_get voters member = voter_at api m member"
proof -
  let ?f = "\<lambda>raw. case member_of_raw (on_curve api) raw of
      None \<Rightarrow> None | Some member \<Rightarrow> map_option (Pair member) (get_node api m raw)"
  have read_voter: "?f raw = Some (k, v) \<longleftrightarrow> raw = raw_of k \<and> on_curve api (member_bytes k) \<and> get_node api m raw = Some v"
    for raw k v
    by (cases "member_of_raw (on_curve api) raw")
      (auto simp: member_of_raw_of dest: member_of_raw_Some [THEN iffD1])
  have all: "?f raw \<noteq> None" if "raw \<in> set (voter_ids api m)" for raw
    using assms that by (auto simp: config_ok_def split: option.splits)
  show ?thesis
  proof
    show "current_voters api m = Some (bt_collect (map the (map ?f (voter_ids api m))))"
      using all by (simp add: current_voters_def collect_options_all)
    show "bt_get (bt_collect (map the (map ?f (voter_ids api m)))) member = voter_at api m member" for member
    proof (rule collect_graph)
      show "(k, v) \<in> set (map the (map ?f (voter_ids api m))) \<longleftrightarrow> voter_at api m k = Some v" for k v
      proof -
        have "(k, v) \<in> set (map the (map ?f (voter_ids api m))) \<longleftrightarrow>
            (\<exists>raw \<in> set (voter_ids api m). ?f raw = Some (k, v))"
          using all by force
        also have "\<dots> \<longleftrightarrow> voter_at api m k = Some v"
          using config_okD(2) [OF assms, of "raw_of k"] by (auto simp: read_voter voter_at_def)
        finally show ?thesis .
      qed
    qed
  qed
qed

lemma learner_progress_ok:
  assumes "config_ok api m"
  shows "bt_get (learner_progress api m (lv_replication view) (lv_committed view)) member =
    (if raw_of member \<notin> set (voter_ids api m) \<and> get_node api m (raw_of member) \<noteq> None
     then Some (caught_up view (raw_of member)) else None)"
  unfolding learner_progress_def caught_up_def [symmetric]
proof (rule collect_graph)
  fix k v
  show "(k, v) \<in> set (List.map_filter
       (\<lambda>(raw, _). case member_of_raw (on_curve api) raw of
          None \<Rightarrow> None | Some member \<Rightarrow> Some (member, caught_up view raw))
       (filter (\<lambda>(raw, _). raw \<notin> set (voter_ids api m)) (config_nodes api m))) \<longleftrightarrow>
     (if raw_of k \<notin> set (voter_ids api m) \<and> get_node api m (raw_of k) \<noteq> None
      then Some (caught_up view (raw_of k)) else None) = Some v"
    (is "_ \<in> set (List.map_filter ?f ?nodes) \<longleftrightarrow> _")
  proof -
    have "(k, v) \<in> set (List.map_filter ?f ?nodes) \<longleftrightarrow> (\<exists>node \<in> set ?nodes. ?f node = Some (k, v))"
      by (rule set_map_filter_iff)
    also have "\<dots> \<longleftrightarrow> (\<exists>a. get_node api m (raw_of k) = Some a) \<and> on_curve api (member_bytes k)
        \<and> raw_of k \<notin> set (voter_ids api m) \<and> v = caught_up view (raw_of k)"
    proof -
      have "?f (raw, a) = Some (k, v) \<longleftrightarrow> raw = raw_of k \<and> on_curve api (member_bytes k) \<and> v = caught_up view raw"
        for raw a
        by (cases "member_of_raw (on_curve api) raw")
          (auto simp: member_of_raw_of dest: member_of_raw_Some [THEN iffD1])
      then show ?thesis
        by (auto simp: config_okD(1) [OF assms])
    qed
    finally show ?thesis
      using config_okD(2) [OF assms, of "raw_of k"] by auto
  qed
qed

text \<open>How far the voters are from the core group.\<close>

definition lag :: "('m, 'z) reconfig_api_scheme \<Rightarrow> (member_id, node_addr) btmap \<Rightarrow> 'm \<Rightarrow> member_id \<Rightarrow> nat" where
  "lag api core m member =
     (if raw_of member \<notin> set (voter_ids api m) then (if get_node api m (raw_of member) = None then 4 else 3)
      else if get_node api m (raw_of member) = bt_get core member then 0 else 1)"

definition distance :: "('m, 'z) reconfig_api_scheme \<Rightarrow> (member_id, node_addr) btmap \<Rightarrow> 'm \<Rightarrow> nat" where
  "distance api core m =
     (\<Sum>member \<in> dom (bt_get core). lag api core m member) +
     card (set (voter_ids api m) - raw_of ` dom (bt_get core))"

lemma distance_bound: "distance api core m \<le> 4 * bt_len core + length (voter_ids api m)"
proof -
  have "(\<Sum>member \<in> dom (bt_get core). lag api core m member) \<le> (\<Sum>member \<in> dom (bt_get core). 4)"
    by (rule sum_mono) (simp add: lag_def)
  moreover have "card (set (voter_ids api m) - raw_of ` dom (bt_get core)) \<le> length (voter_ids api m)"
    by (rule order_trans [OF card_mono card_length]) auto
  ultimately show ?thesis
    by (simp add: distance_def bt_len_card)
qed

lemma distance_less:
  assumes "set (voter_ids api m') - raw_of ` dom (bt_get core) \<subseteq> set (voter_ids api m)"
    and "\<And>member. bt_has core member \<Longrightarrow> lag api core m' member \<le> lag api core m member"
    and "bt_has core member" "lag api core m' member < lag api core m member"
  shows "distance api core m' < distance api core m"
proof -
  have "card (set (voter_ids api m') - raw_of ` dom (bt_get core))
      \<le> card (set (voter_ids api m) - raw_of ` dom (bt_get core))"
    using assms(1) by (intro card_mono) auto
  moreover have "(\<Sum>member \<in> dom (bt_get core). lag api core m' member)
      < (\<Sum>member \<in> dom (bt_get core). lag api core m member)"
    using assms(2-) by (intro sum_strict_mono_ex1) (auto simp: bt_has_def)
  ultimately show ?thesis by (simp add: distance_def)
qed

text \<open>What is known of one pass of a leader over a sound configuration.\<close>

lemma set_nodes_nearer:
  assumes ok: "config_ok api m" and laws: "changes_ok api change"
    and voters: "\<And>k. bt_get voters k = voter_at api m k"
    and next_is: "next_change core voters learners = Some (Readdress ns)"
  shows "config_ok api (change m (SetNodes ns) r) \<and> distance api core (change m (SetNodes ns) r) < distance api core m"
proof -
  note ns = next_change_Readdress [OF next_is]
  let ?m = "change m (SetNodes ns) r"
  from laws ok have vs: "set (voter_ids api ?m) = set (voter_ids api m)"
    and nodes: "\<And>raw. get_node api ?m raw = (case bt_get ns raw of Some a \<Rightarrow> Some a | None \<Rightarrow> get_node api m raw)"
    and rest: "length (joint_config api ?m) \<le> 1"
      "\<And>raw a. (raw, a) \<in> set (config_nodes api ?m) \<longleftrightarrow> get_node api ?m raw = Some a"
    by (simp_all add: changes_ok_def)
  have given: "bt_get ns raw = Some a \<Longrightarrow> \<exists>k. raw = raw_of k \<and> raw \<in> set (voter_ids api m) \<and> bt_get core k = Some a" for raw a
    using get_moved_map [of core voters] ns by (auto simp: moved_voters_def voters voter_at_def split: if_splits)
  have "config_ok api ?m"
  proof (rule config_okI [OF rest])
    show "get_node api ?m raw \<noteq> None" if "raw \<in> set (voter_ids api ?m)" for raw
      using config_okD(3) [OF ok] that by (auto simp: vs nodes split: option.splits)
    show "\<exists>k. raw = raw_of k \<and> on_curve api (member_bytes k)" if "get_node api ?m raw \<noteq> None" for raw
      using config_okD(2,3) [OF ok] given that by (force simp: nodes split: option.splits)
  qed
  moreover obtain k where "k \<in> moved_voters core voters" using ns by blast
  then obtain a where k: "bt_get core k = Some a" "bt_get ns (raw_of k) = Some a" "raw_of k \<in> set (voter_ids api m)"
    "get_node api m (raw_of k) \<noteq> Some a"
    using get_moved_map [of core voters "raw_of k"] ns
    by (auto simp: moved_voters_def voters voter_at_def split: if_splits)
  have "distance api core ?m < distance api core m"
  proof (rule distance_less [where member = k])
    show "lag api core ?m member \<le> lag api core m member" for member
      using given [of "raw_of member"] by (auto simp: lag_def vs nodes split: option.splits)
  qed (use k in \<open>auto simp: lag_def vs nodes bt_has_def\<close>)
  ultimately show ?thesis by blast
qed

lemma add_nodes_nearer:
  fixes view :: "'m leader_view"
  assumes ok: "config_ok api m" and laws: "changes_ok api change"
    and members: "\<And>k. bt_has core k \<Longrightarrow> on_curve api (member_bytes k)"
    and voters: "\<And>k. bt_get voters k = voter_at api m k"
    and learners: "learners = learner_progress api m (lv_replication view) (lv_committed view)"
    and next_is: "next_change core voters learners = Some (Learn ns)"
  shows "config_ok api (change m (AddNodes ns) r) \<and> distance api core (change m (AddNodes ns) r) < distance api core m"
proof -
  note ns = next_change_Learn [OF next_is]
  let ?m = "change m (AddNodes ns) r"
  from laws ok have vs: "set (voter_ids api ?m) = set (voter_ids api m)"
    and nodes: "\<And>raw. get_node api ?m raw = (case get_node api m raw of Some a \<Rightarrow> Some a | None \<Rightarrow> bt_get ns raw)"
    and rest: "length (joint_config api ?m) \<le> 1"
      "\<And>raw a. (raw, a) \<in> set (config_nodes api ?m) \<longleftrightarrow> get_node api ?m raw = Some a"
    by (simp_all add: changes_ok_def)
  have given: "bt_get ns raw = Some a \<Longrightarrow> \<exists>k. raw = raw_of k \<and> bt_get core k = Some a" for raw a
    using get_strangers_map [of core voters learners] ns by auto
  have "config_ok api ?m"
  proof (rule config_okI [OF rest])
    show "get_node api ?m raw \<noteq> None" if "raw \<in> set (voter_ids api ?m)" for raw
      using config_okD(3) [OF ok, of raw] that by (auto simp: vs nodes split: option.splits)
    show "\<exists>k. raw = raw_of k \<and> on_curve api (member_bytes k)" if "get_node api ?m raw \<noteq> None" for raw
      using config_okD(2) [OF ok] given that members by (force simp: nodes bt_has_def split: option.splits)
  qed
  moreover obtain k where k: "k \<in> strangers_in core voters learners" using ns by blast
  then obtain a where a: "bt_get core k = Some a" "bt_get ns (raw_of k) = Some a"
    using get_strangers_map [of core voters learners "raw_of k"] ns by (auto simp: joining_as_def bt_has_def)
  have new: "raw_of k \<notin> set (voter_ids api m)" "get_node api m (raw_of k) = None"
    using k config_okD(3) [OF ok, of "raw_of k"]
    by (auto simp: joining_as_def bt_has_def voters voter_at_def learners learner_progress_ok [OF ok] split: if_splits)
  have "distance api core ?m < distance api core m"
  proof (rule distance_less [where member = k])
    show "lag api core ?m member \<le> lag api core m member" for member
      using config_okD(3) [OF ok, of "raw_of member"] by (auto simp: lag_def vs nodes split: option.splits)
  qed (use a new in \<open>auto simp: lag_def vs nodes bt_has_def\<close>)
  ultimately show ?thesis by blast
qed

lemma add_voters_nearer:
  fixes view :: "'m leader_view"
  assumes ok: "config_ok api m" and laws: "changes_ok api change"
    and voters: "\<And>k. bt_get voters k = voter_at api m k"
    and learners: "learners = learner_progress api m (lv_replication view) (lv_committed view)"
    and next_is: "next_change core voters learners = Some (Promote ids)"
  shows "config_ok api (change m (AddVoterIds ids) r) \<and> distance api core (change m (AddVoterIds ids) r) < distance api core m"
proof -
  note ids = next_change_Promote [OF next_is]
  let ?m = "change m (AddVoterIds ids) r"
  have known: "\<exists>k. raw = raw_of k \<and> bt_has core k \<and> raw \<notin> set (voter_ids api m) \<and> get_node api m raw \<noteq> None"
    if "bt_has ids raw" for raw
    using that config_okD(3) [OF ok] unfolding ids(2)
    by (auto simp: joining_as_def bt_has_def voters voter_at_def learners learner_progress_ok [OF ok] split: if_splits)
  then have "\<forall>raw. bt_has ids raw \<longrightarrow> get_node api m raw \<noteq> None" by blast
  with laws ok have vs: "set (voter_ids api ?m) = set (voter_ids api m) \<union> {raw. bt_has ids raw}"
    and nodes: "get_node api ?m = get_node api m"
    and rest: "length (joint_config api ?m) \<le> 1"
      "\<And>raw a. (raw, a) \<in> set (config_nodes api ?m) \<longleftrightarrow> get_node api ?m raw = Some a"
    by (simp_all add: changes_ok_def)
  have "config_ok api ?m"
  proof (rule config_okI [OF rest])
    show "get_node api ?m raw \<noteq> None" if "raw \<in> set (voter_ids api ?m)" for raw
      using config_okD(3) [OF ok] that known by (auto simp: vs nodes)
    show "\<exists>k. raw = raw_of k \<and> on_curve api (member_bytes k)" if "get_node api ?m raw \<noteq> None" for raw
      using config_okD(2) [OF ok] that by (force simp: nodes)
  qed
  moreover obtain k where "bt_has ids (raw_of k)" using ids by blast
  then have k: "bt_has ids (raw_of k)" "bt_has core k" "raw_of k \<notin> set (voter_ids api m)" using known by force+
  have "distance api core ?m < distance api core m"
  proof (rule distance_less [where member = k])
    show "lag api core ?m member \<le> lag api core m member" for member
      by (auto simp: lag_def vs nodes)
    show "set (voter_ids api ?m) - raw_of ` dom (bt_get core) \<subseteq> set (voter_ids api m)"
      using known by (auto simp: vs bt_has_def)
  qed (use k in \<open>auto simp: lag_def vs nodes\<close>)
  ultimately show ?thesis by blast
qed

lemma remove_voters_nearer:
  assumes ok: "config_ok api m" and laws: "changes_ok api change"
    and some: "bt_len core \<noteq> 0"
    and voters: "\<And>k. bt_get voters k = voter_at api m k"
    and next_is: "next_change core voters learners = Some (RemoveVoted ids)"
  shows "config_ok api (change m (RemoveVoters ids) True)
     \<and> distance api core (change m (RemoveVoters ids) True) < distance api core m"
proof -
  note ids = next_change_RemoveVoted [OF next_is]
  let ?m = "change m (RemoveVoters ids) True"
  have stay: "raw_of k \<in> set (voter_ids api m)" "\<not> bt_has ids (raw_of k)" if "bt_has core k" for k
    using that ids(2) [of "raw_of k"] ids(4) [of k]
    by (auto simp: bt_has_def voters voter_at_def departed_from_def split: if_splits)
  obtain k where "bt_has core k" using some by (auto simp: bt_len_0_iff bt_has_def)
  then have "\<not> set (voter_ids api m) \<subseteq> {raw. bt_has ids raw}" using stay by blast
  with laws ok have vs: "set (voter_ids api ?m) = set (voter_ids api m) - {raw. bt_has ids raw}"
    and nodes: "get_node api ?m = get_node api m"
    and rest: "length (joint_config api ?m) \<le> 1"
      "\<And>raw a. (raw, a) \<in> set (config_nodes api ?m) \<longleftrightarrow> get_node api ?m raw = Some a"
    by (simp_all add: changes_ok_def)
  have "config_ok api ?m"
    using config_okD(2,3) [OF ok] by (intro config_okI [OF rest]) (force simp: vs nodes)+
  moreover have "distance api core ?m < distance api core m"
  proof -
    have "lag api core ?m k = lag api core m k" if "bt_has core k" for k
      using stay [OF that] by (simp add: lag_def vs nodes)
    then have "(\<Sum>k \<in> dom (bt_get core). lag api core ?m k) = (\<Sum>k \<in> dom (bt_get core). lag api core m k)"
      by (intro sum.cong) (auto simp: bt_has_def)
    moreover obtain d where "d \<in> departed_from core voters" using ids by blast
    then have "raw_of d \<in> set (voter_ids api m) - raw_of ` dom (bt_get core)" "bt_has ids (raw_of d)"
      using ids(2) by (auto simp: departed_from_def bt_has_def voters voter_at_def split: if_splits)
    then have "card (set (voter_ids api ?m) - raw_of ` dom (bt_get core))
        < card (set (voter_ids api m) - raw_of ` dom (bt_get core))"
      by (intro psubset_card_mono) (auto simp: vs)
    ultimately show ?thesis by (simp add: distance_def)
  qed
  ultimately show ?thesis by blast
qed

lemma retiring_keeps_voters:
  assumes ok: "config_ok api (lv_config view)" and laws: "changes_ok api change"
    and submitted: "retire_learners api published view = (c, p)"
  defines "m' \<equiv> (case c of None \<Rightarrow> lv_config view | Some (c, retain) \<Rightarrow> change (lv_config view) c retain)"
  shows "config_ok api m' \<and> set (voter_ids api m') = set (voter_ids api (lv_config view))
     \<and> (\<forall>raw \<in> set (voter_ids api m'). get_node api m' raw = get_node api (lv_config view) raw)"
proof (cases c)
  case None
  then show ?thesis using ok by (simp add: m'_def)
next
  case (Some s)
  from submitted Some obtain ids where s: "s = (RemoveNodes ids, True)"
    and ids: "\<forall>raw \<in> set (voter_ids api (lv_config view)). \<not> bt_has ids raw"
  proof -
    let ?leaving = "filter (\<lambda>(raw, _). raw \<notin> set (voter_ids api (lv_config view)) \<and>
        \<not> (case member_of_raw (on_curve api) raw of None \<Rightarrow> False | Some m \<Rightarrow> is_core published m))
      (config_nodes api (lv_config view))"
    let ?ids = "bts_of (map fst (filter (\<lambda>(raw, _). lv_retired view raw) ?leaving))"
    have "s = (RemoveNodes ?ids, True)"
      using submitted Some by (simp add: retire_learners_def Let_def split: if_splits)
    moreover have "\<forall>raw \<in> set (voter_ids api (lv_config view)). \<not> bt_has ?ids raw"
      by auto
    ultimately show ?thesis by (rule that)
  qed
  let ?m = "change (lv_config view) (RemoveNodes ids) True"
  have m': "m' = ?m" by (simp add: m'_def Some s)
  from laws ok ids have vs: "set (voter_ids api ?m) = set (voter_ids api (lv_config view))"
    and nodes: "\<And>raw. get_node api ?m raw = (if bt_has ids raw then None else get_node api (lv_config view) raw)"
    and rest: "length (joint_config api ?m) \<le> 1"
      "\<And>raw a. (raw, a) \<in> set (config_nodes api ?m) \<longleftrightarrow> get_node api ?m raw = Some a"
    by (simp_all add: changes_ok_def)
  have "config_ok api ?m"
  proof (rule config_okI [OF rest])
    show "get_node api ?m raw \<noteq> None" if "raw \<in> set (voter_ids api ?m)" for raw
      using config_okD(3) [OF ok, of raw] that ids by (auto simp: vs nodes)
    show "\<exists>k. raw = raw_of k \<and> on_curve api (member_bytes k)" if "get_node api ?m raw \<noteq> None" for raw
      using config_okD(2) [OF ok, of raw] that by (auto simp: nodes split: if_splits)
  qed
  then show ?thesis using vs nodes ids by (simp add: m')
qed

lemma current_voters_eq:
  assumes "config_ok api m" "config_ok api m'" "set (voter_ids api m') = set (voter_ids api m)"
    "\<forall>raw \<in> set (voter_ids api m'). get_node api m' raw = get_node api m raw"
  shows "current_voters api m' = current_voters api m"
proof -
  obtain v where v: "current_voters api m = Some v" "\<And>k. bt_get v k = voter_at api m k"
    by (rule current_voters_ok [OF assms(1)]) blast
  obtain v' where v': "current_voters api m' = Some v'" "\<And>k. bt_get v' k = voter_at api m' k"
    by (rule current_voters_ok [OF assms(2)]) blast
  have "v' = v"
    using assms(3,4) v(2) v'(2) by (intro bt_ext) (auto simp: voter_at_def)
  with v v' show ?thesis by simp
qed

lemma pass_step:
  fixes view :: "'m leader_view"
  assumes ok: "config_ok api (lv_config view)" and laws: "changes_ok api change"
    and leads: "lv_leads view" and some: "bt_len (ms_core published) \<noteq> 0"
    and members: "\<And>k. bt_has (ms_core published) k \<Longrightarrow> on_curve api (member_bytes k)"
  obtains
    (agreed) "current_voters api (lv_config view) = Some (ms_core published)"
      "current_voters api (after_pass api change published view) = Some (ms_core published)"
      "config_ok api (after_pass api change published view)"
  | (nearer) "current_voters api (lv_config view) \<noteq> Some (ms_core published)"
      "config_ok api (after_pass api change published view)"
      "distance api (ms_core published) (after_pass api change published view)
         < distance api (ms_core published) (lv_config view)"
  | (waits) "current_voters api (lv_config view) \<noteq> Some (ms_core published)"
      "after_pass api change published view = lv_config view"
      "fst (enact_pass api published view) = None"
      "\<exists>k. bt_has (ms_core published) k \<and> \<not> caught_up view (raw_of k)"
proof -
  let ?m = "lv_config view" and ?core = "ms_core published"
  obtain voters where v: "current_voters api ?m = Some voters" "\<And>k. bt_get voters k = voter_at api ?m k"
    by (rule current_voters_ok [OF ok]) blast
  define learners where l: "learners = learner_progress api ?m (lv_replication view) (lv_committed view)"
  have uniform: "\<not> 1 < length (joint_config api ?m)" using config_okD(4) [OF ok] by simp
  note pass = enact_pass_def [of api published view] after_pass_def [of api change published view] leads uniform v(1) l [symmetric]
  note same = next_change_None [of ?core voters learners]
  show ?thesis
  proof (cases "next_change ?core voters learners")
    case None
    then have eq: "voters = ?core" using same some by simp
    obtain c p where r: "retire_learners api published view = (c, p)" by fastforce
    have "after_pass api change published view =
        (case c of None \<Rightarrow> ?m | Some (c, retain) \<Rightarrow> change ?m c retain)"
      using pass None r by simp
    with retiring_keeps_voters [OF ok laws r] current_voters_eq [OF ok] v(1) eq show ?thesis
      by (intro agreed) simp_all
  next
    case (Some x)
    then have ne: "current_voters api ?m \<noteq> Some ?core" using same v(1) by auto
    show ?thesis
    proof (cases x)
      case (Readdress ns)
      with set_nodes_nearer [OF ok laws v(2)] Some pass show ?thesis by (intro nearer [OF ne]) simp_all
    next
      case (Learn ns)
      with add_nodes_nearer [OF ok laws members v(2) l] Some pass show ?thesis by (intro nearer [OF ne]) simp_all
    next
      case (Promote ids)
      with add_voters_nearer [OF ok laws v(2) l] Some pass show ?thesis by (intro nearer [OF ne]) simp_all
    next
      case (RemoveVoted ids)
      with remove_voters_nearer [OF ok laws some v(2)] Some pass show ?thesis by (intro nearer [OF ne]) simp_all
    next
      case (CatchingUp ms)
      obtain k where "k \<in> behind_in ?core voters learners"
        using next_change_CatchingUp(1) Some CatchingUp by blast
      then have "bt_has ?core k \<and> \<not> caught_up view (raw_of k)"
        by (auto simp: joining_as_def l learner_progress_ok [OF ok] split: if_splits)
      with CatchingUp Some pass show ?thesis by (intro waits [OF ne]) auto
    qed
  qed
qed

text \<open>
  A sequence that gets nearer to agreement with every step, except where it waits for something that
  comes again and again, agrees in the end, having moved at most as often as it was far.
\<close>

lemma nearer_and_nearer:
  fixes D :: "nat \<Rightarrow> nat"
  assumes step: "\<And>k. agree k \<and> agree (Suc k) \<or> \<not> agree k \<and> D (Suc k) < D k \<or>
      \<not> agree k \<and> \<not> moves k \<and> D (Suc k) = D k \<and> \<not> ready k"
  shows agrees_forever: "(\<And>n. \<exists>k \<ge> n. ready k) \<Longrightarrow> \<exists>n. \<forall>k \<ge> n. agree k"
    and moves_bounded: "card {k. k < n \<and> \<not> agree k \<and> moves k} \<le> D 0"
proof -
  have stays: "agree (n + k)" if "agree n" for n k
    using that by (induction k) (use step in auto)
  have falls: "(\<exists>k \<ge> n. agree k) \<or> D (n + i) \<le> D n" for n i
  proof (induction i)
    case (Suc i)
    then show ?case
    proof
      assume "D (n + i) \<le> D n"
      then show ?thesis using step [of "n + i"] by (metis add_Suc_right le_add1 le_trans less_imp_le_nat order.refl)
    qed simp
  qed simp
  have "\<exists>k \<ge> n. agree k" if again: "\<And>n. \<exists>k \<ge> n. ready k" for n
  proof (induction "D n" arbitrary: n rule: less_induct)
    case less
    from again obtain j where j: "ready (n + j)" by (metis le_iff_add)
    from falls [of n j] step [of "n + j"] j
    consider "\<exists>k \<ge> n. agree k" | "D (Suc (n + j)) < D n" using le_add1 by fastforce
    then show ?case
    proof cases
      case 2
      from less [OF this] show ?thesis by (meson le_add1 le_SucI order_trans)
    qed
  qed
  then show "(\<And>n. \<exists>k \<ge> n. ready k) \<Longrightarrow> \<exists>n. \<forall>k \<ge> n. agree k"
    using stays by (metis le_iff_add)
  have "card {k. k < n \<and> \<not> agree k \<and> moves k} + (if agree n then 0 else D n) \<le> D 0" for n
  proof (induction n)
    case (Suc n)
    have "{k. k < Suc n \<and> \<not> agree k \<and> moves k} =
        (if \<not> agree n \<and> moves n then insert n {k. k < n \<and> \<not> agree k \<and> moves k}
         else {k. k < n \<and> \<not> agree k \<and> moves k})"
      by (auto simp: less_Suc_eq)
    then have "card {k. k < Suc n \<and> \<not> agree k \<and> moves k} =
        card {k. k < n \<and> \<not> agree k \<and> moves k} + (if \<not> agree n \<and> moves n then 1 else 0)"
      by simp
    with Suc step [of n] show ?case by (simp split: if_splits) linarith+
  qed simp
  then show "card {k. k < n \<and> \<not> agree k \<and> moves k} \<le> D 0" by (metis add_leD1)
qed

text \<open>A run of passes of one leader over a sound configuration.\<close>

definition leads_soundly ::
    "('m, 'z) reconfig_api_scheme \<Rightarrow> ('m \<Rightarrow> change_members \<Rightarrow> bool \<Rightarrow> 'm) \<Rightarrow> membership_state
      \<Rightarrow> (nat \<Rightarrow> 'm leader_view) \<Rightarrow> bool" where
  "leads_soundly api change published looks \<longleftrightarrow>
     changes_ok api change \<and> (\<forall>k. lv_leads (looks k)) \<and> bt_len (ms_core published) \<noteq> 0 \<and>
     (\<forall>k. bt_has (ms_core published) k \<longrightarrow> on_curve api (member_bytes k))"

lemma run_step:
  fixes looks :: "nat \<Rightarrow> 'm leader_view" and k :: nat
  assumes "leads_soundly api change published looks" and ok: "config_ok api m"
  defines "m' \<equiv> after_pass api change published ((looks k)\<lparr>lv_config := m\<rparr>)"
    and "agree \<equiv> \<lambda>m. current_voters api m = Some (ms_core published)"
    and "D \<equiv> distance api (ms_core published)"
  shows "config_ok api m'"
    "agree m \<and> agree m' \<or> \<not> agree m \<and> D m' < D m \<or>
     \<not> agree m \<and> fst (enact_pass api published ((looks k)\<lparr>lv_config := m\<rparr>)) = None \<and> D m' = D m \<and>
       \<not> (\<forall>member. bt_has (ms_core published) member \<longrightarrow> caught_up (looks k) (raw_of member))"
proof -
  let ?view = "(looks k)\<lparr>lv_config := m\<rparr>"
  have "config_ok api m' \<and>
    (agree m \<and> agree m' \<or> \<not> agree m \<and> D m' < D m \<or>
     \<not> agree m \<and> fst (enact_pass api published ?view) = None \<and> D m' = D m \<and>
       \<not> (\<forall>member. bt_has (ms_core published) member \<longrightarrow> caught_up (looks k) (raw_of member)))"
  proof (rule pass_step [of api ?view change published])
  qed (use assms in \<open>auto simp: leads_soundly_def m'_def agree_def D_def caught_up_def\<close>)
  then show "config_ok api m'"
    "agree m \<and> agree m' \<or> \<not> agree m \<and> D m' < D m \<or>
     \<not> agree m \<and> fst (enact_pass api published ?view) = None \<and> D m' = D m \<and>
       \<not> (\<forall>member. bt_has (ms_core published) member \<longrightarrow> caught_up (looks k) (raw_of member))"
    by blast+
qed

text \<open>
  C6. The voters become the core group. A leader whose passes go on, over a configuration openraft
  keeps sound, with a core group that is not empty and whose members are told, now and again, to have
  caught up, ends with exactly the core group voting at its addresses, and it stays so; and before that
  it submits at most four changes for each member of the core group and one for each voter there was.
\<close>
theorem core_group_converges:
  fixes looks :: "nat \<Rightarrow> 'm leader_view"
  assumes lead: "leads_soundly api change published looks" and ok: "config_ok api m"
    and catch_up: "\<And>n. \<exists>k \<ge> n. \<forall>member. bt_has (ms_core published) member \<longrightarrow> caught_up (looks k) (raw_of member)"
  shows "(\<exists>n. \<forall>k \<ge> n. current_voters api (passes api change published looks m k) = Some (ms_core published)) \<and>
    (\<forall>n. card {k. k < n \<and> current_voters api (passes api change published looks m k) \<noteq> Some (ms_core published) \<and>
        fst (enact_pass api published ((looks k)\<lparr>lv_config := passes api change published looks m k\<rparr>)) \<noteq> None}
      \<le> 4 * bt_len (ms_core published) + length (voter_ids api m))"
proof -
  let ?run = "passes api change published looks m"
  have sound: "config_ok api (?run k)" for k
    by (induction k) (simp_all add: ok run_step [OF lead])
  let ?agree = "\<lambda>k. current_voters api (?run k) = Some (ms_core published)"
    and ?D = "\<lambda>k. distance api (ms_core published) (?run k)"
    and ?moves = "\<lambda>k. fst (enact_pass api published ((looks k)\<lparr>lv_config := ?run k\<rparr>)) \<noteq> None"
    and ?ready = "\<lambda>k. \<forall>member. bt_has (ms_core published) member \<longrightarrow> caught_up (looks k) (raw_of member)"
  have nearer: "?agree k \<and> ?agree (Suc k) \<or> \<not> ?agree k \<and> ?D (Suc k) < ?D k \<or>
      \<not> ?agree k \<and> \<not> ?moves k \<and> ?D (Suc k) = ?D k \<and> \<not> ?ready k" for k
    unfolding passes.simps(2) not_not by (rule run_step(2) [OF lead sound])
  have "\<exists>n. \<forall>k \<ge> n. ?agree k"
    by (rule agrees_forever [where D = ?D and moves = ?moves and ready = ?ready, OF nearer catch_up])
  moreover have "card {k. k < n \<and> \<not> ?agree k \<and> ?moves k} \<le> ?D 0" for n
    by (rule moves_bounded [where D = ?D and ready = ?ready, OF nearer])
  moreover have "?D 0 \<le> 4 * bt_len (ms_core published) + length (voter_ids api m)"
    using distance_bound by simp
  ultimately show ?thesis
    using order_trans by blast
qed

text \<open>A configuration as openraft documents it: its voters and its nodes.\<close>

definition plain_config_api :: "(raw_member_id btset \<times> (raw_member_id, node_addr) btmap) reconfig_api" where
  "plain_config_api =
     \<lparr>voter_ids = (\<lambda>(vs, ns). bt_keys vs), get_node = (\<lambda>(vs, ns). bt_get ns), on_curve = (\<lambda>_. True),
      joint_config = (\<lambda>(vs, ns). [vs]), config_nodes = (\<lambda>(vs, ns). bt_entries ns)\<rparr>"

fun plain_change :: "raw_member_id btset \<times> (raw_member_id, node_addr) btmap \<Rightarrow> change_members \<Rightarrow> bool
    \<Rightarrow> raw_member_id btset \<times> (raw_member_id, node_addr) btmap" where
  "plain_change (vs, ns) (SetNodes new) retain = (vs, bt_collect (bt_entries ns @ bt_entries new))"
| "plain_change (vs, ns) (AddNodes new) retain = (vs, bt_collect (bt_entries new @ bt_entries ns))"
| "plain_change (vs, ns) (AddVoterIds ids) retain = (bts_of (bt_keys vs @ bt_keys ids), ns)"
| "plain_change (vs, ns) (RemoveVoters ids) retain =
     (bt_retain (\<lambda>raw _. \<not> bt_has ids raw) vs,
      if retain then ns else bt_retain (\<lambda>raw _. \<not> bt_has ids raw) ns)"
| "plain_change (vs, ns) (RemoveNodes ids) retain = (vs, bt_retain (\<lambda>raw _. \<not> bt_has ids raw) ns)"
| "plain_change (vs, ns) (ReplaceAllVoters ids) retain = (ids, ns)"

lemma map_of_rev_entries: "map_of (rev (bt_entries m)) k = bt_get m k"
  by (metis bt_collect_distinct bt_entries_distinct bt_get_collect bt_get.rep_eq)

lemma bt_collect_two:
  "bt_get (bt_collect (bt_entries a @ bt_entries b)) k = (case bt_get b k of Some v \<Rightarrow> Some v | None \<Rightarrow> bt_get a k)"
  by (simp add: bt_get_collect map_add_def map_of_rev_entries split: option.split)

lemma plain_config_simps:
  "voter_ids plain_config_api m = bt_keys (fst m)" "get_node plain_config_api m = bt_get (snd m)"
  "joint_config plain_config_api m = [fst m]" "config_nodes plain_config_api m = bt_entries (snd m)"
  "on_curve plain_config_api k"
  by (cases m; simp add: plain_config_api_def)+

lemma plain_changes_ok: "changes_ok plain_config_api plain_change"
proof -
  have dom_retain: "dom (bt_get (bt_retain (\<lambda>raw _. \<not> bt_has ids raw) vs)) = dom (bt_get vs) - {raw. bt_has ids raw}"
    for ids and vs :: "raw_member_id btset"
    by (auto split: option.splits if_splits)
  have both: "dom (bt_get (bts_of (bt_keys vs @ bt_keys ids))) = dom (bt_get vs) \<union> {raw. bt_has ids raw}"
    for vs ids :: "raw_member_id btset"
    by (auto simp: bts_of_def bt_has_def image_Un image_comp)
  show ?thesis
    unfolding changes_ok_def plain_config_simps split_paired_All plain_change.simps fst_conv snd_conv set_bt_keys
      dom_retain both bt_entries_iff bt_collect_two
    by (simp split: option.splits)
qed

definition demo_core_state :: membership_state where
  "demo_core_state = ms_new\<lparr>ms_core := bt_collect [(MemberId 1, lookup_only), (MemberId 4, lookup_only)]\<rparr>"

theorem core_group_converges_witness:
  "let looks = (\<lambda>_. \<lparr>lv_leads = True, lv_config = (bt_empty, bt_empty), lv_replication = None,
         lv_committed = None, lv_retired = (\<lambda>_. False)\<rparr>);
       m = (bts_of [RawMemberId 2], bt_collect [(RawMemberId 2, lookup_only)])
   in \<exists>n. current_voters plain_config_api (passes plain_config_api plain_change demo_core_state looks m n) =
        Some (bt_collect [(MemberId 1, lookup_only), (MemberId 4, lookup_only)])"
proof -
  let ?looks = "\<lambda>_ :: nat. \<lparr>lv_leads = True, lv_config = (bt_empty, bt_empty), lv_replication = None,
         lv_committed = None, lv_retired = (\<lambda>_. False)\<rparr>"
  let ?m = "(bts_of [RawMemberId 2], bt_collect [(RawMemberId 2, lookup_only)])"
  have lead: "leads_soundly plain_config_api plain_change demo_core_state ?looks"
    by (simp add: leads_soundly_def plain_changes_ok) (simp add: demo_core_state_def plain_config_api_def bt_collect_def bt_len_insert)
  have ok: "config_ok plain_config_api ?m"
    by (auto simp: config_ok_def plain_config_api_def bt_entries_iff bt_collect_def bts_of_def member_of_raw_def
        split: if_splits raw_member_id.splits)
  have "\<exists>k \<ge> n. \<forall>member. bt_has (ms_core demo_core_state) member \<longrightarrow> caught_up (?looks k) (raw_of member)" for n :: nat
    by (auto simp: caught_up_def at_least_def)
  from core_group_converges [OF lead ok this]
  obtain n where "\<forall>k \<ge> n. current_voters plain_config_api (passes plain_config_api plain_change demo_core_state ?looks ?m k) =
      Some (ms_core demo_core_state)" by blast
  then show ?thesis
    by (auto simp: Let_def demo_core_state_def)
qed

end
