(* ===== verification/Pacing.thy ===== *)
theory Pacing
  imports Settling
begin

text \<open>
  Holding bytes to a rate: \<open>distlib-net/src/pacer.rs\<close>. The pacer's state changes under its lock, so
  the calls of all transfers that share it come one after another, each at its own instant and each
  then sleeping until the instant it is told. Instants and durations are in nanoseconds.

  The instants told are exactly those of a leaky bucket: over any run of calls since some earlier one,
  bytes go out no faster than the rate, but for the burst allowed after a pause, and no later than
  that makes necessary.
\<close>

definition BURST :: duration where
  "BURST = 100000000"

record byte_pacer =
  bp_rate :: "u64 option"
  bp_caught_up :: instant

definition pacer_new :: "u64 option \<Rightarrow> instant \<Rightarrow> byte_pacer" where
  "pacer_new rate now = \<lparr>bp_rate = rate, bp_caught_up = now\<rparr>"

definition set_rate :: "u64 option \<Rightarrow> byte_pacer \<Rightarrow> byte_pacer" where
  "set_rate rate p = p\<lparr>bp_rate := rate\<rparr>"

definition time_for :: "u64 \<Rightarrow> u64 \<Rightarrow> duration" where
  "time_for bytes rate = min (unat bytes * 1000000000 div unat rate) (2 ^ 64 - 1)"

definition earliest_from :: "instant \<Rightarrow> instant" where
  "earliest_from now = (if BURST \<le> now then now - BURST else now)"

text \<open>The instant the caller sleeps until, none when there is no limit, and the pacer afterwards.\<close>

definition pace :: "u64 \<Rightarrow> instant \<Rightarrow> byte_pacer \<Rightarrow> instant option \<times> byte_pacer" where
  "pace bytes now p =
     (case bp_rate p of
        None \<Rightarrow> (None, p)
      | Some rate \<Rightarrow>
          (let caught_up = max (bp_caught_up p) (earliest_from now) + time_for bytes rate
           in (Some caught_up, p\<lparr>bp_caught_up := caught_up\<rparr>)))"

text \<open>Calls one after another, each with its bytes and its instant, and what each is told.\<close>

fun paced :: "(u64 \<times> instant) list \<Rightarrow> byte_pacer \<Rightarrow> instant option list \<times> byte_pacer" where
  "paced [] p = ([], p)"
| "paced ((bytes, now) # calls) p =
     (case pace bytes now p of
        (told, p') \<Rightarrow> (case paced calls p' of (rest, p'') \<Rightarrow> (told # rest, p'')))"

text \<open>How long the bytes of some calls take at a rate.\<close>

definition time_for_all :: "u64 \<Rightarrow> (u64 \<times> instant) list \<Rightarrow> duration" where
  "time_for_all rate calls = (\<Sum>(bytes, now) \<leftarrow> calls. time_for bytes rate)"

lemma pace_simps [simp]:
  "pace bytes now \<lparr>bp_rate = Some rate, bp_caught_up = c\<rparr> =
     (Some (max c (earliest_from now) + time_for bytes rate),
      \<lparr>bp_rate = Some rate, bp_caught_up = max c (earliest_from now) + time_for bytes rate\<rparr>)"
  by (simp add: pace_def Let_def)

lemma paced_keeps_rate:
  "paced calls \<lparr>bp_rate = Some rate, bp_caught_up = c\<rparr> = (told, p) \<Longrightarrow>
     bp_rate p = Some rate \<and> length told = length calls"
  by (induction calls arbitrary: c told p) (auto split: prod.splits)

lemma paced_append:
  "paced (xs @ ys) p =
     (case paced xs p of (told, p') \<Rightarrow> (case paced ys p' of (rest, p'') \<Rightarrow> (told @ rest, p'')))"
  by (induction xs arbitrary: p) (auto split: prod.splits)

text \<open>
  The leaky bucket. A start is the pacer's own instant before all of the calls, or the burst before
  one of them; from each start the bytes of the calls from there on take their time, and the bucket is
  as far as the latest of those.
\<close>

definition bucket :: "u64 \<Rightarrow> instant \<Rightarrow> (u64 \<times> instant) list \<Rightarrow> instant" where
  "bucket rate c calls =
     Max (insert (c + time_for_all rate calls)
       ((\<lambda>i. earliest_from (snd (calls ! i)) + time_for_all rate (drop i calls)) ` {..<length calls}))"

lemma time_for_all_simps [simp]:
  "time_for_all rate [] = 0"
  "time_for_all rate (xs @ ys) = time_for_all rate xs + time_for_all rate ys"
  "time_for_all rate [(bytes, now)] = time_for bytes rate"
  by (simp_all add: time_for_all_def)

lemma bucket_Nil [simp]: "bucket rate c [] = c"
  by (simp add: bucket_def)

lemma Max_plus: "finite A \<Longrightarrow> A \<noteq> {} \<Longrightarrow> Max ((\<lambda>x. x + k) ` A) = Max A + (k :: nat)"
  using hom_Max_commute [of "\<lambda>x. x + k" A] by (simp add: max_add_distrib_left)

lemma bucket_snoc:
  "bucket rate c (calls @ [(bytes, now)]) =
     max (bucket rate c calls) (earliest_from now) + time_for bytes rate"
proof -
  let ?t = "time_for bytes rate" and ?n = "length calls"
  let ?f = "\<lambda>i. earliest_from (snd (calls ! i)) + time_for_all rate (drop i calls)"
  let ?A = "insert (c + time_for_all rate calls) (?f ` {..<?n})"
  have "(\<lambda>i. earliest_from (snd ((calls @ [(bytes, now)]) ! i))
      + time_for_all rate (drop i (calls @ [(bytes, now)]))) ` {..<Suc ?n}
      = insert (earliest_from now + ?t) ((\<lambda>x. x + ?t) ` ?f ` {..<?n})"
    by (auto simp: lessThan_Suc nth_append image_image intro!: image_cong)
  then have "bucket rate c (calls @ [(bytes, now)]) =
      Max (insert (earliest_from now + ?t) ((\<lambda>x. x + ?t) ` ?A))"
    by (simp add: bucket_def insert_commute add.assoc)
  also have "\<dots> = max (earliest_from now + ?t) (Max ?A + ?t)"
    by (subst Max_insert) (simp_all add: Max_plus del: image_insert)
  finally show ?thesis by (simp add: bucket_def max_add_distrib_left max.commute)
qed

lemma paced_caught_up:
  "snd (paced calls \<lparr>bp_rate = Some rate, bp_caught_up = c\<rparr>) =
     \<lparr>bp_rate = Some rate, bp_caught_up = bucket rate c calls\<rparr>"
proof (induction calls rule: rev_induct)
  case (snoc call calls)
  obtain bytes now where call: "call = (bytes, now)" by (cases call)
  obtain told p where "paced calls \<lparr>bp_rate = Some rate, bp_caught_up = c\<rparr> = (told, p)" by fastforce
  with snoc show ?case by (simp add: paced_append call bucket_snoc)
qed simp

text \<open>
  A pacer is a leaky bucket. Whatever calls share it and whenever they come, each is told to sleep
  until exactly the latest instant that any start makes: the pacer's own instant at first, or the
  burst before one of the calls so far, plus the time that the bytes of all calls from there on take
  at the rate. So the bytes of any run of calls are never let through faster than the rate allows
  since a burst before its first, and no call waits for more than that.
\<close>

theorem pacer_is_a_leaky_bucket:
  assumes "paced calls \<lparr>bp_rate = Some rate, bp_caught_up = c\<rparr> = (told, p)" and "k < length calls"
  shows "told ! k = Some (bucket rate c (take (Suc k) calls))"
proof -
  obtain bytes now where call: "calls ! k = (bytes, now)" by (cases "calls ! k")
  have split: "calls = take k calls @ (bytes, now) # drop (Suc k) calls"
    using assms(2) by (metis call id_take_nth_drop)
  obtain first p1 where p1: "paced (take k calls) \<lparr>bp_rate = Some rate, bp_caught_up = c\<rparr> = (first, p1)"
    by fastforce
  have p1': "p1 = \<lparr>bp_rate = Some rate, bp_caught_up = bucket rate c (take k calls)\<rparr>"
    using paced_caught_up [of "take k calls" rate c] p1 by simp
  have len: "length first = k" using paced_keeps_rate [OF p1] assms(2) by simp
  have "paced (take k calls @ (bytes, now) # drop (Suc k) calls)
      \<lparr>bp_rate = Some rate, bp_caught_up = c\<rparr> = (told, p)"
    using assms(1) split by simp
  then have "told ! k = Some (max (bucket rate c (take k calls)) (earliest_from now) + time_for bytes rate)"
    using len by (auto simp: paced_append p1 p1' nth_append split: prod.splits)
  also have "\<dots> = Some (bucket rate c (take (Suc k) calls))"
    using assms(2) by (simp add: take_Suc_conv_app_nth call bucket_snoc)
  finally show ?thesis .
qed

theorem pacer_is_a_leaky_bucket_witness:
  "fst (paced [(1000, 5000000000), (500, 5000000000)]
     \<lparr>bp_rate = Some 1000, bp_caught_up = 0\<rparr>) ! 1 = Some 6400000000"
proof -
  let ?calls = "[(1000, 5000000000), (500, 5000000000)]"
  let ?p = "\<lparr>bp_rate = Some 1000, bp_caught_up = 0\<rparr>"
  have "fst (paced ?calls ?p) ! 1 = Some (bucket 1000 0 (take (Suc 1) ?calls))"
    by (rule pacer_is_a_leaky_bucket [where p = "snd (paced ?calls ?p)"]) simp_all
  also have "bucket 1000 0 (take (Suc 1) ?calls) = 6400000000"
    using bucket_snoc [of 1000 0 "[(1000, 5000000000)]" 500 5000000000]
      bucket_snoc [of 1000 0 "[]" 1000 5000000000]
    by (simp add: earliest_from_def BURST_def time_for_def)
  finally show ?thesis .
qed

end
