(* ===== verification/Admission.thy ===== *)
theory Admission
  imports Settling Ids
begin

text \<open>
  Who may connect: the allowlist of \<open>distlib-net/src/allowlist.rs\<close>, the hooks of \<open>hooks.rs\<close> that
  every connection of the endpoint passes, and the cache of \<open>connections.rs\<close>.

  The connections themselves are the endpoint's: a map from numbers to the peer, the protocol and
  whether the connection is open, as far as iroh still knows it. A weak handle is a number, which no
  longer upgrades when the map has forgotten it.

  The theorem is that an expulsion reaches every connection: whatever was dialled, accepted, closed
  and forgotten before, one pass leaves no connection open to a peer that is not admitted.
\<close>

section \<open>The allowlist\<close>

record allow_list =
  al_members :: "member_id set"
  al_self :: member_id

definition is_allowed :: "allow_list \<Rightarrow> member_id \<Rightarrow> bool" where
  "is_allowed al m \<longleftrightarrow> m = al_self al \<or> m \<in> al_members al"

definition al_len :: "allow_list \<Rightarrow> nat" where
  "al_len al = card (al_members al)"

definition al_is_empty :: "allow_list \<Rightarrow> bool" where
  "al_is_empty al \<longleftrightarrow> al_len al = 0"

definition al_replace :: "member_id list \<Rightarrow> allow_list \<Rightarrow> allow_list" where
  "al_replace members al = al\<lparr>al_members := set members\<rparr>"

section \<open>Connections of the endpoint\<close>

datatype close_code = NOT_A_MEMBER | NOT_A_VOTER | MOVED

record connection =
  cn_peer :: member_id
  cn_alpn :: string
  cn_open :: bool

type_synonym endpoint = "(nat, connection) btmap"

definition RAFT_ALPN :: string where
  "RAFT_ALPN = ''distlib/raft/0''"

text \<open>\<open>Connection::close\<close>, and whether a handle upgrades to a connection that is still open.\<close>

definition close_connection :: "nat \<Rightarrow> endpoint \<Rightarrow> endpoint" where
  "close_connection h w =
     (case bt_get w h of None \<Rightarrow> w | Some c \<Rightarrow> bt_insert h (c\<lparr>cn_open := False\<rparr>) w)"

definition is_live :: "endpoint \<Rightarrow> nat \<Rightarrow> bool" where
  "is_live w h \<longleftrightarrow> (case bt_get w h of None \<Rightarrow> False | Some c \<Rightarrow> cn_open c)"

section \<open>The hooks\<close>

definition REFUSAL_QUIET :: duration where
  "REFUSAL_QUIET = 60000000000"

definition REFUSALS_REMEMBERED :: nat where
  "REFUSALS_REMEMBERED = 64"

record refusals =
  rf_last_logged :: instant
  rf_since :: u64

record allowlist_hooks =
  hk_allowlist :: allow_list
  hk_raft_peers :: "member_id set"
  hk_connections :: "(member_id, nat list) btmap"
  hk_refusals :: "(member_id, refusals) btmap"

definition hooks_new :: "allow_list \<Rightarrow> allowlist_hooks" where
  "hooks_new al =
     \<lparr>hk_allowlist = al, hk_raft_peers = {}, hk_connections = bt_empty, hk_refusals = bt_empty\<rparr>"

definition set_raft_peers :: "member_id list \<Rightarrow> allowlist_hooks \<Rightarrow> allowlist_hooks" where
  "set_raft_peers peers hk =
     (if hk_raft_peers hk = set peers then hk else hk\<lparr>hk_raft_peers := set peers\<rparr>)"

definition admits :: "allowlist_hooks \<Rightarrow> member_id \<Rightarrow> string \<Rightarrow> bool" where
  "admits hk peer alpn \<longleftrightarrow>
     is_allowed (hk_allowlist hk) peer \<or> (alpn = RAFT_ALPN \<and> peer \<in> hk_raft_peers hk)"

definition close_connections_to ::
    "member_id \<Rightarrow> allowlist_hooks \<Rightarrow> endpoint \<Rightarrow> nat \<times> allowlist_hooks \<times> endpoint" where
  "close_connections_to peer hk w =
     (let handles = (case bt_get (hk_connections hk) peer of None \<Rightarrow> [] | Some hs \<Rightarrow> hs);
          live = filter (is_live w) handles
      in (length live, hk\<lparr>hk_connections := bt_remove peer (hk_connections hk)\<rparr>,
          fold close_connection live w))"

text \<open>One pass over the handles of one peer: which stay, and the endpoint after closing the others.\<close>

definition evict_handle ::
    "allowlist_hooks \<Rightarrow> member_id \<Rightarrow> nat \<Rightarrow> nat list \<times> endpoint \<Rightarrow> nat list \<times> endpoint" where
  "evict_handle hk peer h acc =
     (case acc of (kept, w) \<Rightarrow>
        (case bt_get w h of
           None \<Rightarrow> (kept, w)
         | Some c \<Rightarrow>
             if \<not> cn_open c then (kept, w)
             else if admits hk peer (cn_alpn c) then (kept @ [h], w)
             else (kept, close_connection h w)))"

definition evict_peer ::
    "allowlist_hooks \<Rightarrow> member_id \<times> nat list \<Rightarrow> (member_id, nat list) btmap \<times> endpoint
      \<Rightarrow> (member_id, nat list) btmap \<times> endpoint" where
  "evict_peer hk entry acc =
     (case entry of (peer, handles) \<Rightarrow>
        (case acc of (m, w) \<Rightarrow>
           (case fold (evict_handle hk peer) handles ([], w) of
              (kept, w') \<Rightarrow> (if kept = [] then m else bt_insert peer kept m, w'))))"

definition evict_once :: "allowlist_hooks \<Rightarrow> endpoint \<Rightarrow> allowlist_hooks \<times> endpoint" where
  "evict_once hk w =
     (case fold (evict_peer hk) (bt_entries (hk_connections hk)) (bt_empty, w) of
        (m, w') \<Rightarrow> (hk\<lparr>hk_connections := m\<rparr>, w'))"

definition remember :: "member_id \<Rightarrow> nat \<Rightarrow> endpoint \<Rightarrow> allowlist_hooks \<Rightarrow> allowlist_hooks" where
  "remember peer h w hk =
     hk\<lparr>hk_connections :=
       bt_insert peer
         (filter (is_live w) (case bt_get (hk_connections hk) peer of None \<Rightarrow> [] | Some hs \<Rightarrow> hs) @ [h])
         (hk_connections hk)\<rparr>"

definition tracked_connections :: "allowlist_hooks \<Rightarrow> nat" where
  "tracked_connections hk = sum_list (map length (bt_values (hk_connections hk)))"

text \<open>The peer logged longest ago; where several were logged at one instant, the first of them.\<close>

fun stalest :: "(member_id \<times> refusals) list \<Rightarrow> member_id option" where
  "stalest [] = None"
| "stalest [(m, _)] = Some m"
| "stalest ((m, r) # (m', r') # rest) =
     stalest ((if rf_last_logged r' < rf_last_logged r then (m', r') else (m, r)) # rest)"

definition note_refusal ::
    "member_id \<Rightarrow> instant \<Rightarrow> (member_id, refusals) btmap \<Rightarrow> u64 option \<times> (member_id, refusals) btmap" where
  "note_refusal peer now refs =
     (case bt_get refs peer of
        Some seen \<Rightarrow>
          if now - rf_last_logged seen < REFUSAL_QUIET
          then (None, bt_insert peer (seen\<lparr>rf_since := rf_since seen + 1\<rparr>) refs)
          else (Some (rf_since seen), bt_insert peer (seen\<lparr>rf_since := 0, rf_last_logged := now\<rparr>) refs)
      | None \<Rightarrow>
          (let refs' =
             (if REFUSALS_REMEMBERED \<le> bt_len refs
              then (case stalest (bt_entries refs) of None \<Rightarrow> refs | Some m \<Rightarrow> bt_remove m refs)
              else refs)
           in (Some 0, bt_insert peer \<lparr>rf_last_logged = now, rf_since = 0\<rparr> refs')))"

definition before_connect :: "member_id \<Rightarrow> string \<Rightarrow> allowlist_hooks \<Rightarrow> bool" where
  "before_connect peer alpn hk \<longleftrightarrow> admits hk peer alpn"

text \<open>A connection after its handshake: whether it is accepted, and what to log.\<close>

datatype handshake_outcome = AcceptConnection | RejectConnection close_code "u64 option"

definition after_handshake ::
    "nat \<Rightarrow> instant \<Rightarrow> endpoint \<Rightarrow> allowlist_hooks \<Rightarrow> handshake_outcome \<times> allowlist_hooks" where
  "after_handshake h now w hk =
     (case bt_get w h of
        None \<Rightarrow> (AcceptConnection, hk)
      | Some c \<Rightarrow>
          if admits hk (cn_peer c) (cn_alpn c) then (AcceptConnection, remember (cn_peer c) h w hk)
          else (case note_refusal (cn_peer c) now (hk_refusals hk) of
             (logged, refs) \<Rightarrow> (RejectConnection NOT_A_MEMBER logged, hk\<lparr>hk_refusals := refs\<rparr>)))"

section \<open>The cache of connections\<close>

type_synonym connections = "member_id \<times> string \<rightharpoonup> nat"

definition cached :: "endpoint \<Rightarrow> member_id \<Rightarrow> string \<Rightarrow> connections \<Rightarrow> nat option \<times> connections" where
  "cached w peer alpn open_ones =
     (case open_ones (peer, alpn) of
        Some h \<Rightarrow> if is_live w h then (Some h, open_ones) else (None, open_ones((peer, alpn) := None))
      | None \<Rightarrow> (None, open_ones))"

definition get_or_connect ::
    "endpoint \<Rightarrow> 'e + nat \<Rightarrow> member_id \<Rightarrow> string \<Rightarrow> connections \<Rightarrow> ('e + nat) \<times> connections" where
  "get_or_connect w dialled peer alpn open_ones =
     (case cached w peer alpn open_ones of
        (Some h, open') \<Rightarrow> (Inr h, open')
      | (None, open') \<Rightarrow>
          (case dialled of
             Inl e \<Rightarrow> (Inl e, open')
           | Inr h \<Rightarrow> (Inr h, open'((peer, alpn) \<mapsto> h))))"

definition forget_connection :: "member_id \<Rightarrow> string \<Rightarrow> connections \<Rightarrow> connections" where
  "forget_connection peer alpn open_ones = open_ones((peer, alpn) := None)"

definition forget_peer :: "member_id \<Rightarrow> connections \<Rightarrow> connections" where
  "forget_peer peer open_ones = (\<lambda>(held, alpn). if held = peer then None else open_ones (held, alpn))"

text \<open>What is handed out is open, or was dialled just now, for this peer and protocol.\<close>

lemma get_or_connect_live:
  assumes "get_or_connect w dialled peer alpn open_ones = (Inr h, open')"
  shows "(is_live w h \<and> open_ones (peer, alpn) = Some h \<or> dialled = Inr h)
    \<and> open' = open_ones((peer, alpn) \<mapsto> h)"
  using assms
  by (auto simp: get_or_connect_def cached_def split: option.splits if_splits sum.splits)

section \<open>The table of refused peers is bounded\<close>

lemma stalest_in: "stalest es = Some m \<Longrightarrow> m \<in> fst ` set es"
  by (induction es rule: stalest.induct) (auto split: if_splits)

lemma stalest_some: "es \<noteq> [] \<Longrightarrow> \<exists>m. stalest es = Some m"
  by (induction es rule: stalest.induct) (auto split: if_splits)

lemma refusals_bounded:
  assumes "bt_len refs \<le> REFUSALS_REMEMBERED" and "note_refusal peer now refs = (logged, refs')"
  shows "bt_len refs' \<le> REFUSALS_REMEMBERED"
proof (cases "bt_get refs peer")
  case (Some seen)
  with assms show ?thesis
    by (auto simp: note_refusal_def bt_len_insert bt_has_def split: if_splits)
next
  case new: None
  show ?thesis
  proof (cases "REFUSALS_REMEMBERED \<le> bt_len refs")
    case True
    then have "bt_entries refs \<noteq> []" by (auto simp: bt_len_def REFUSALS_REMEMBERED_def)
    then obtain m where m: "stalest (bt_entries refs) = Some m" using stalest_some by blast
    then have "bt_has refs m"
      by (auto simp: bt_has_def simp flip: bt_entries_iff dest!: stalest_in)
    from bt_len_remove [OF this] assms new True m show ?thesis
      by (auto simp: note_refusal_def bt_len_insert)
  next
    case False
    with assms new show ?thesis by (auto simp: note_refusal_def bt_len_insert)
  qed
qed

section \<open>An expulsion reaches every connection\<close>

text \<open>The connections that a pass closes, and the endpoint without them.\<close>

definition to_close :: "allowlist_hooks \<Rightarrow> endpoint \<Rightarrow> member_id \<Rightarrow> nat \<Rightarrow> bool" where
  "to_close hk w peer h \<longleftrightarrow>
     (case bt_get w h of None \<Rightarrow> False | Some c \<Rightarrow> cn_open c \<and> \<not> admits hk peer (cn_alpn c))"

abbreviation shut :: "connection option \<Rightarrow> connection option" where
  "shut \<equiv> map_option (cn_open_update (\<lambda>_. False))"

lemma bt_get_close: "bt_get (close_connection h w) k = (if k = h then shut (bt_get w h) else bt_get w k)"
  by (auto simp: close_connection_def split: option.splits)

lemma shut_shut [simp]: "shut (shut c) = shut c"
  by (cases c) simp_all

lemma fold_close:
  "bt_get (fold close_connection hs w) k = (if k \<in> set hs then shut (bt_get w k) else bt_get w k)"
  by (induction hs arbitrary: w) (auto simp: bt_get_close)

text \<open>The handles of one peer.\<close>

lemma evict_handles:
  assumes "fold (evict_handle hk peer) hs (kept, w) = (kept', w')"
  shows "bt_get w' k = (if k \<in> set hs \<and> to_close hk w peer k then shut (bt_get w k) else bt_get w k)
    \<and> set kept' = set kept \<union> {h \<in> set hs. is_live w h \<and> \<not> to_close hk w peer h}"
  using assms
proof (induction hs arbitrary: kept w)
  case (Cons h hs)
  obtain kept1 w1 where step: "evict_handle hk peer h (kept, w) = (kept1, w1)" by fastforce
  have w1: "w1 = (if to_close hk w peer h then close_connection h w else w)"
    and kept1: "kept1 = (if is_live w h \<and> \<not> to_close hk w peer h then kept @ [h] else kept)"
    using step by (auto simp: evict_handle_def to_close_def is_live_def split: option.splits if_splits)
  have rest: "to_close hk w1 peer x = (to_close hk w peer x \<and> x \<noteq> h)" if "x \<noteq> h \<or> to_close hk w peer h" for x
    using that by (auto simp: w1 to_close_def bt_get_close split: option.splits)
  have live: "is_live w1 x = (is_live w x \<and> \<not> (x = h \<and> to_close hk w peer h))" for x
    by (auto simp: w1 is_live_def bt_get_close split: option.splits)
  have IH: "bt_get w' k = (if k \<in> set hs \<and> to_close hk w1 peer k then shut (bt_get w1 k) else bt_get w1 k)
    \<and> set kept' = set kept1 \<union> {h \<in> set hs. is_live w1 h \<and> \<not> to_close hk w1 peer h}"
    using Cons.IH [of kept1 w1] Cons.prems step by simp
  show ?case
  proof (cases "to_close hk w peer h")
    case True
    with IH rest live show ?thesis
      by (auto simp: w1 kept1 bt_get_close)
  next
    case False
    with IH show ?thesis by (auto simp: w1 kept1)
  qed
qed simp

text \<open>All of them.\<close>

lemma evict_peers:
  assumes "fold (evict_peer hk) es (m, w) = (m', w')" and "distinct (map fst es)"
  shows "(\<forall>k. bt_get w' k =
        (if \<exists>(p, hs) \<in> set es. k \<in> set hs \<and> to_close hk w p k then shut (bt_get w k) else bt_get w k))
    \<and> (\<forall>p. p \<notin> fst ` set es \<longrightarrow> bt_get m' p = bt_get m p)
    \<and> (\<forall>(p, hs) \<in> set es. (\<forall>h \<in> set hs. is_live w' h \<longrightarrow> (\<exists>kept. bt_get m' p = Some kept \<and> h \<in> set kept))
         \<and> (\<forall>kept. bt_get m p = None \<longrightarrow> bt_get m' p = Some kept \<longrightarrow> set kept \<subseteq> set hs))"
  using assms
proof (induction es arbitrary: m w)
  case (Cons e es)
  obtain p hs where e: "e = (p, hs)" by (cases e)
  obtain kept w1 where f: "fold (evict_handle hk p) hs ([], w) = (kept, w1)" by fastforce
  define m1 where "m1 = (if kept = [] then m else bt_insert p kept m)"
  note one = evict_handles [OF f]
  have IH: "(\<forall>k. bt_get w' k =
        (if \<exists>(p, hs) \<in> set es. k \<in> set hs \<and> to_close hk w1 p k then shut (bt_get w1 k) else bt_get w1 k))
    \<and> (\<forall>p. p \<notin> fst ` set es \<longrightarrow> bt_get m' p = bt_get m1 p)
    \<and> (\<forall>(p, hs) \<in> set es. (\<forall>h \<in> set hs. is_live w' h \<longrightarrow> (\<exists>kept. bt_get m' p = Some kept \<and> h \<in> set kept))
         \<and> (\<forall>kept. bt_get m1 p = None \<longrightarrow> bt_get m' p = Some kept \<longrightarrow> set kept \<subseteq> set hs))"
    using Cons.IH [of m1 w1] Cons.prems by (simp add: e evict_peer_def f m1_def)
  have closed: "to_close hk w1 q k \<longleftrightarrow> to_close hk w q k \<and> \<not> (k \<in> set hs \<and> to_close hk w p k)" for q k
    using one [of k] by (auto simp: to_close_def split: option.splits if_splits)
  have worlds: "bt_get w' k =
      (if \<exists>(p, hs) \<in> set (e # es). k \<in> set hs \<and> to_close hk w p k then shut (bt_get w k) else bt_get w k)"
    for k
    using IH one [of k] closed by (auto simp: e)
  have p: "p \<notin> fst ` set es" using Cons.prems(2) by (auto simp: e)
  have "\<exists>kept. bt_get m' p = Some kept \<and> h \<in> set kept" if "h \<in> set hs" "is_live w' h" for h
  proof -
    have "is_live w h \<and> \<not> to_close hk w p h"
      using that worlds [of h] by (auto simp: e is_live_def split: option.splits if_splits)
    then have "h \<in> set kept" using that(1) one by blast
    then show ?thesis using IH p by (auto simp: m1_def)
  qed
  moreover have "set k' \<subseteq> set hs" if "bt_get m p = None" "bt_get m' p = Some k'" for k'
    using that IH p one by (auto simp: m1_def split: if_splits)
  moreover have "bt_get m1 q = bt_get m q" if "(q, hs') \<in> set es" for q hs'
    using that p by (force simp: m1_def)
  then have "\<forall>(q, hs') \<in> set es.
      (\<forall>h \<in> set hs'. is_live w' h \<longrightarrow> (\<exists>kept. bt_get m' q = Some kept \<and> h \<in> set kept))
      \<and> (\<forall>kept. bt_get m q = None \<longrightarrow> bt_get m' q = Some kept \<longrightarrow> set kept \<subseteq> set hs')"
    using IH by fastforce
  moreover have "bt_get m' q = bt_get m q" if "q \<notin> fst ` set (e # es)" for q
    using that IH by (auto simp: e m1_def)
  ultimately show ?case
    using worlds by (simp add: e)
qed (auto simp: is_live_def)

section \<open>Runs\<close>

text \<open>
  Connections are made, to and from anyone, and go through the hook after their handshake; they end by
  themselves, or the endpoint forgets them; the allowlist and Raft's peers change; passes are made.
\<close>

inductive hook_step :: "allowlist_hooks \<times> endpoint \<Rightarrow> allowlist_hooks \<times> endpoint \<Rightarrow> bool" where
  accepted: "bt_get w h = None \<Longrightarrow> (\<forall>p hs. bt_get (hk_connections hk) p = Some hs \<longrightarrow> h \<notin> set hs) \<Longrightarrow>
    cn_open c \<Longrightarrow> after_handshake h now (bt_insert h c w) hk = (AcceptConnection, hk') \<Longrightarrow>
    hook_step (hk, w) (hk', bt_insert h c w)"
| rejected: "bt_get w h = None \<Longrightarrow> (\<forall>p hs. bt_get (hk_connections hk) p = Some hs \<longrightarrow> h \<notin> set hs) \<Longrightarrow>
    after_handshake h now (bt_insert h c w) hk = (RejectConnection code logged, hk') \<Longrightarrow>
    hook_step (hk, w) (hk', close_connection h (bt_insert h c w))"
| ended: "hook_step (hk, w) (hk, close_connection h w)"
| forgotten: "hook_step (hk, w) (hk, bt_remove h w)"
| members: "hook_step (hk, w) (hk\<lparr>hk_allowlist := al_replace ms (hk_allowlist hk)\<rparr>, w)"
| raft: "hook_step (hk, w) (set_raft_peers ms hk, w)"
| moved: "close_connections_to peer hk w = (n, hk', w') \<Longrightarrow> hook_step (hk, w) (hk', w')"
| evicted: "evict_once hk w = (hk', w') \<Longrightarrow> hook_step (hk, w) (hk', w')"

inductive hook_reach :: "allowlist_hooks \<times> endpoint \<Rightarrow> bool" where
  started: "hook_reach (hooks_new al, bt_empty)"
| step: "hook_reach s \<Longrightarrow> hook_step s t \<Longrightarrow> hook_reach t"

text \<open>Every open connection is tracked under its peer, and under no other.\<close>

definition tracked :: "allowlist_hooks \<times> endpoint \<Rightarrow> bool" where
  "tracked s \<longleftrightarrow>
     (\<forall>h c. bt_get (snd s) h = Some c \<and> cn_open c \<longrightarrow>
        (\<exists>hs. bt_get (hk_connections (fst s)) (cn_peer c) = Some hs \<and> h \<in> set hs)) \<and>
     (\<forall>p hs h c. bt_get (hk_connections (fst s)) p = Some hs \<and> h \<in> set hs \<and> bt_get (snd s) h = Some c \<longrightarrow>
        cn_peer c = p)"

lemma already_shut: "\<not> cn_open c \<Longrightarrow> c\<lparr>cn_open := False\<rparr> = c"
  by (cases c) simp

lemma trackedD:
  assumes "tracked s" and "bt_get (snd s) h = Some c"
  shows "cn_open c \<Longrightarrow> \<exists>hs. bt_get (hk_connections (fst s)) (cn_peer c) = Some hs \<and> h \<in> set hs"
    and "bt_get (hk_connections (fst s)) p = Some hs \<Longrightarrow> h \<in> set hs \<Longrightarrow> cn_peer c = p"
  using assms unfolding tracked_def by blast+

lemma trackedI:
  assumes "\<And>h c. bt_get w h = Some c \<Longrightarrow> cn_open c \<Longrightarrow>
      \<exists>hs. bt_get (hk_connections hk) (cn_peer c) = Some hs \<and> h \<in> set hs"
    and "\<And>p hs h c. bt_get (hk_connections hk) p = Some hs \<Longrightarrow> h \<in> set hs \<Longrightarrow> bt_get w h = Some c \<Longrightarrow>
      cn_peer c = p"
  shows "tracked (hk, w)"
  using assms unfolding tracked_def by auto

lemma evict_once_effect:
  assumes "evict_once hk w = (hk', w')" and "tracked (hk, w)"
  shows "bt_get w' h = (case bt_get w h of
        Some c \<Rightarrow> Some (if admits hk (cn_peer c) (cn_alpn c) then c else c\<lparr>cn_open := False\<rparr>)
      | None \<Rightarrow> None)"
    and "tracked (hk', w')"
proof -
  obtain m where f: "fold (evict_peer hk) (bt_entries (hk_connections hk)) (bt_empty, w) = (m, w')"
    and hk': "hk' = hk\<lparr>hk_connections := m\<rparr>"
    using assms(1) by (auto simp: evict_once_def split: prod.splits)
  note all = evict_peers [OF f bt_entries_distinct]
  have close: "(\<exists>(p, hs) \<in> set (bt_entries (hk_connections hk)). h \<in> set hs \<and> to_close hk w p h)
      \<longleftrightarrow> (\<exists>c. bt_get w h = Some c \<and> cn_open c \<and> \<not> admits hk (cn_peer c) (cn_alpn c))" for h
  proof
    assume "\<exists>(p, hs) \<in> set (bt_entries (hk_connections hk)). h \<in> set hs \<and> to_close hk w p h"
    then obtain p hs c where "bt_get (hk_connections hk) p = Some hs" "h \<in> set hs"
      and c: "bt_get w h = Some c" "cn_open c" "\<not> admits hk p (cn_alpn c)"
      by (auto simp: bt_entries_iff to_close_def split: option.splits)
    with trackedD(2) [OF assms(2), of h c p hs] show "\<exists>c. bt_get w h = Some c \<and> cn_open c \<and> \<not> admits hk (cn_peer c) (cn_alpn c)"
      by auto
  next
    assume "\<exists>c. bt_get w h = Some c \<and> cn_open c \<and> \<not> admits hk (cn_peer c) (cn_alpn c)"
    then obtain c where c: "bt_get w h = Some c" "cn_open c" "\<not> admits hk (cn_peer c) (cn_alpn c)" by blast
    with trackedD(1) [OF assms(2), of h c] obtain hs where
      "bt_get (hk_connections hk) (cn_peer c) = Some hs" "h \<in> set hs" by auto
    then show "\<exists>(p, hs) \<in> set (bt_entries (hk_connections hk)). h \<in> set hs \<and> to_close hk w p h"
      using c by (auto simp: bt_entries_iff to_close_def intro!: bexI [of _ "(cn_peer c, hs)"])
  qed
  show world: "bt_get w' h = (case bt_get w h of
        Some c \<Rightarrow> Some (if admits hk (cn_peer c) (cn_alpn c) then c else c\<lparr>cn_open := False\<rparr>)
      | None \<Rightarrow> None)" for h
    using all close [of h] by (auto simp: already_shut split: option.splits)
  have "\<exists>hs. bt_get m (cn_peer c) = Some hs \<and> h \<in> set hs" if c: "bt_get w' h = Some c" "cn_open c" for h c
  proof -
    have "bt_get w h = Some c" using c world [of h] by (auto split: option.splits if_splits)
    with trackedD(1) [OF assms(2), of h c] c obtain hs where
      "(cn_peer c, hs) \<in> set (bt_entries (hk_connections hk))" "h \<in> set hs"
      by (auto simp: bt_entries_iff)
    then show ?thesis using all c by (fastforce simp: is_live_def)
  qed
  moreover have "cn_peer c = p"
    if kept: "bt_get m p = Some kept" "h \<in> set kept" "bt_get w' h = Some c" for p kept h c
  proof -
    have "p \<in> fst ` set (bt_entries (hk_connections hk))"
      using all kept(1) by (metis bt_get_empty option.distinct(1))
    then obtain hs where hs: "(p, hs) \<in> set (bt_entries (hk_connections hk))" by auto
    then have "h \<in> set hs" using all kept(1,2) by fastforce
    moreover obtain c' where "bt_get w h = Some c'" "cn_peer c' = cn_peer c"
      using world [of h] kept(3) by (auto split: option.splits if_splits)
    ultimately show ?thesis
      using trackedD(2) [OF assms(2), of h c' p hs] hs by (auto simp: bt_entries_iff)
  qed
  ultimately show "tracked (hk', w')" by (intro trackedI) (simp_all add: hk')
qed

lemma tracked_close: "tracked (hk, w) \<Longrightarrow> tracked (hk, close_connection h w)"
  unfolding tracked_def by (auto simp: bt_get_close split: if_splits)

lemma tracked_same_connections:
  "tracked (hk, w) \<Longrightarrow> hk_connections hk' = hk_connections hk \<Longrightarrow> tracked (hk', w)"
  by (simp add: tracked_def)

lemma tracked_step:
  assumes "hook_step s t" and "tracked s"
  shows "tracked t"
  using assms(1)
proof (cases rule: hook_step.cases)
  case (accepted w h hk c now hk')
  have hk': "hk' = remember (cn_peer c) h (bt_insert h c w) hk"
    using accepted(6) by (auto simp: after_handshake_def split: if_splits prod.splits)
  define hs0 where "hs0 = (case bt_get (hk_connections hk) (cn_peer c) of None \<Rightarrow> [] | Some hs \<Rightarrow> hs)"
  have conns: "bt_get (hk_connections hk') p = (if p = cn_peer c
      then Some (filter (is_live (bt_insert h c w)) hs0 @ [h]) else bt_get (hk_connections hk) p)" for p
    by (simp add: hk' remember_def hs0_def)
  have tr: "tracked (hk, w)" using assms(2) accepted(1) by simp
  have "\<exists>hs. bt_get (hk_connections hk') (cn_peer d) = Some hs \<and> k \<in> set hs"
    if "bt_get (bt_insert h c w) k = Some d" "cn_open d" for k d
    using that trackedD(1) [OF tr, of k d] by (auto simp: conns hs0_def is_live_def split: if_splits)
  moreover have "cn_peer d = p"
    if k: "bt_get (hk_connections hk') p = Some hs" "k \<in> set hs" "bt_get (bt_insert h c w) k = Some d" for p hs k d
  proof (cases "k = h")
    case True
    then show ?thesis using k accepted(4) by (auto simp: conns split: if_splits)
  next
    case False
    then obtain hs' where "bt_get (hk_connections hk) p = Some hs'" "k \<in> set hs'"
      using k(1,2) by (auto simp: conns hs0_def split: if_splits option.splits)
    then show ?thesis using trackedD(2) [OF tr, of k d p hs'] False k(3) by simp
  qed
  ultimately show ?thesis unfolding accepted(2) by (rule trackedI)
next
  case (rejected w h hk now c code logged hk')
  have conns: "hk_connections hk' = hk_connections hk"
    using rejected(5) by (auto simp: after_handshake_def split: if_splits prod.splits)
  have tr: "tracked (hk, w)" using assms(2) rejected(1) by simp
  have "\<exists>hs. bt_get (hk_connections hk) (cn_peer d) = Some hs \<and> k \<in> set hs"
    if "bt_get (close_connection h (bt_insert h c w)) k = Some d" "cn_open d" for k d
    using that trackedD(1) [OF tr, of k d] by (auto simp: bt_get_close split: if_splits)
  moreover have "cn_peer d = p"
    if "bt_get (hk_connections hk) p = Some hs" "k \<in> set hs"
      "bt_get (close_connection h (bt_insert h c w)) k = Some d" for p hs k d
    using that trackedD(2) [OF tr, of k d p hs] rejected(4) by (auto simp: bt_get_close split: if_splits)
  ultimately show ?thesis unfolding rejected(2) conns [symmetric] by (rule trackedI)
next
  case (moved peer hk w n hk' w')
  define hs0 where "hs0 = (case bt_get (hk_connections hk) peer of None \<Rightarrow> [] | Some hs \<Rightarrow> hs)"
  have hk': "hk_connections hk' = bt_remove peer (hk_connections hk)"
    and w': "w' = fold close_connection (filter (is_live w) hs0) w"
    using moved(3) by (auto simp: close_connections_to_def hs0_def Let_def)
  have tr: "tracked (hk, w)" using assms(2) moved(1) by simp
  have world: "bt_get w' k = (if k \<in> set hs0 \<and> is_live w k then shut (bt_get w k) else bt_get w k)" for k
    by (simp add: w' fold_close)
  have "\<exists>hs. bt_get (hk_connections hk') (cn_peer d) = Some hs \<and> k \<in> set hs"
    if d: "bt_get w' k = Some d" "cn_open d" for k d
  proof -
    have get: "bt_get w k = Some d" and out: "k \<notin> set hs0"
      using d by (auto simp: world is_live_def split: if_splits option.splits)
    from trackedD(1) [OF tr, of k d] get d(2) obtain hs where
      "bt_get (hk_connections hk) (cn_peer d) = Some hs" "k \<in> set hs" by auto
    then show ?thesis using out by (auto simp: hk' hs0_def)
  qed
  moreover have "cn_peer d = p"
    if d: "bt_get (hk_connections hk') p = Some hs" "k \<in> set hs" "bt_get w' k = Some d" for p hs k d
  proof -
    obtain d' where "bt_get w k = Some d'" "cn_peer d' = cn_peer d"
      using d(3) by (auto simp: world split: if_splits)
    then show ?thesis
      using trackedD(2) [OF tr, of k d' p hs] d(1,2) by (auto simp: hk' split: if_splits)
  qed
  ultimately show ?thesis unfolding moved(2) by (rule trackedI)
next
  case (evicted hk w hk' w')
  then show ?thesis using evict_once_effect(2) assms(2) by blast
next
  case (forgotten hk w h)
  then show ?thesis using assms(2) by (auto simp: tracked_def split: if_splits)
qed (use assms(2) in \<open>auto simp: tracked_close set_raft_peers_def intro: tracked_same_connections\<close>)

lemma tracked_reach: "hook_reach s \<Longrightarrow> tracked s"
proof (induction rule: hook_reach.induct)
  case (started al)
  show ?case by (simp add: tracked_def hooks_new_def)
next
  case (step s t)
  then show ?case using tracked_step by blast
qed

text \<open>
  C27. An expulsion reaches every connection. Whatever connections were made, refused, ended, closed as
  moved or forgotten before, and however the allowlist and Raft's peers have changed: after one pass of
  the hooks no connection is open to a peer that is not admitted to its protocol, whoever opened it,
  and every other connection is as it was.
\<close>

theorem expulsion_closes_every_connection:
  assumes "hook_reach (hk, w)" and "evict_once hk w = (hk', w')"
  shows "case bt_get w h of
      None \<Rightarrow> bt_get w' h = None
    | Some c \<Rightarrow>
        if admits hk (cn_peer c) (cn_alpn c) then bt_get w' h = Some c
        else \<exists>d. bt_get w' h = Some d \<and> \<not> cn_open d"
  using evict_once_effect(1) [OF assms(2) tracked_reach [OF assms(1)], of h]
  by (auto split: option.splits)

theorem expulsion_closes_every_connection_witness:
  "\<exists>hk w. hook_reach (hk, w)
     \<and> bt_get w 0 = Some \<lparr>cn_peer = MemberId 2, cn_alpn = ''x'', cn_open = True\<rparr>
     \<and> \<not> admits hk (MemberId 2) ''x''
     \<and> (\<exists>d. bt_get (snd (evict_once hk w)) 0 = Some d \<and> \<not> cn_open d)"
proof -
  let ?al = "\<lparr>al_members = {MemberId 2}, al_self = MemberId 1\<rparr>"
  let ?c = "\<lparr>cn_peer = MemberId 2, cn_alpn = ''x'', cn_open = True\<rparr>"
  let ?w = "bt_insert 0 ?c bt_empty"
  let ?hk = "remember (MemberId 2) 0 ?w (hooks_new ?al)"
  let ?out = "?hk\<lparr>hk_allowlist := al_replace [] (hk_allowlist ?hk)\<rparr>"
  have "hook_step (hooks_new ?al, bt_empty) (?hk, ?w)"
    by (rule hook_step.accepted [where now = 0])
      (simp_all add: after_handshake_def admits_def is_allowed_def hooks_new_def)
  then have "hook_reach (?hk, ?w)" by (rule hook_reach.step [OF hook_reach.started])
  then have reach: "hook_reach (?out, ?w)" by (rule hook_reach.step) (rule hook_step.members)
  have out: "\<not> admits ?out (MemberId 2) ''x''"
    by (simp add: admits_def is_allowed_def al_replace_def remember_def hooks_new_def RAFT_ALPN_def)
  have "\<exists>d. bt_get (snd (evict_once ?out ?w)) 0 = Some d \<and> \<not> cn_open d"
    using expulsion_closes_every_connection [OF reach prod.collapse [symmetric], of 0] out by simp
  with reach out show ?thesis by (metis bt_get_insert)
qed

end
