(* ===== verification/Catalogue.thy ===== *)
theory Catalogue
  imports Keeping "HOL-Library.Countable"
begin

text \<open>
  What a catalogue entry is, \<open>crates/distlib-core/src/catalogue.rs\<close>: the keys an item's fields and
  files live under, and the item they make up. A key is a string of bytes. JSON and the hexadecimal
  text of an identifier are not part of the repository: they are arguments, the first a pair of
  functions for each type that is written.
\<close>

section \<open>Text\<close>

text \<open>
  \<open>str::from_utf8\<close>: whether bytes are well-formed UTF-8, by the ranges of the Unicode standard. The
  second byte of some leading bytes has a range of its own.
\<close>

definition byte_in :: "nat \<Rightarrow> nat \<Rightarrow> char \<Rightarrow> bool" where
  "byte_in lo hi c \<longleftrightarrow> lo \<le> of_char c \<and> of_char c \<le> hi"

definition is_tail :: "char \<Rightarrow> bool" where
  "is_tail = byte_in 128 191"

definition second_of_three :: "char \<Rightarrow> char \<Rightarrow> bool" where
  "second_of_three a b \<longleftrightarrow>
     (byte_in 224 224 a \<and> byte_in 160 191 b) \<or> (byte_in 225 236 a \<and> is_tail b) \<or>
     (byte_in 237 237 a \<and> byte_in 128 159 b) \<or> (byte_in 238 239 a \<and> is_tail b)"

definition second_of_four :: "char \<Rightarrow> char \<Rightarrow> bool" where
  "second_of_four a b \<longleftrightarrow>
     (byte_in 240 240 a \<and> byte_in 144 191 b) \<or> (byte_in 241 243 a \<and> is_tail b) \<or>
     (byte_in 244 244 a \<and> byte_in 128 143 b)"

fun is_utf8 :: "string \<Rightarrow> bool" where
  "is_utf8 [] = True"
| "is_utf8 [a] = byte_in 0 127 a"
| "is_utf8 [a, b] = (if byte_in 0 127 a then is_utf8 [b] else byte_in 194 223 a \<and> is_tail b)"
| "is_utf8 [a, b, c] =
     (if byte_in 0 127 a then is_utf8 [b, c]
      else if byte_in 194 223 a then is_tail b \<and> is_utf8 [c]
      else second_of_three a b \<and> is_tail c)"
| "is_utf8 (a # b # c # d # s) =
     (if byte_in 0 127 a then is_utf8 (b # c # d # s)
      else if byte_in 194 223 a then is_tail b \<and> is_utf8 (c # d # s)
      else if byte_in 224 239 a then second_of_three a b \<and> is_tail c \<and> is_utf8 (d # s)
      else second_of_four a b \<and> is_tail c \<and> is_tail d \<and> is_utf8 s)"

text \<open>\<open>str::split\<close> at a character: one piece more than there are separators.\<close>

fun split_at :: "char \<Rightarrow> string \<Rightarrow> string list" where
  "split_at c [] = [[]]"
| "split_at c (d # s) =
     (if d = c then [] # split_at c s
      else case split_at c s of [] \<Rightarrow> [[d]] | p # ps \<Rightarrow> (d # p) # ps)"

section \<open>The schema of an item\<close>

type_synonym i32 = "32 word"
type_synonym f32 = "32 word"
type_synonym bytes = "u8 list"

datatype item_kind = Ebook | Audiobook | Video | OtherKind

datatype file_role = Content | Cover | Subtitle | Metadata | OtherRole

record series =
  sr_name :: string
  sr_index :: "f32 option"

record file_record =
  fr_role :: file_role
  fr_format :: string
  fr_size :: u64
  fr_filename :: string
  fr_seq :: "u32 option"
  fr_disc :: "u32 option"
  fr_title :: "string option"
  fr_duration :: "u64 option"

datatype field = Kind | Title | Authors | Genres | Series | Year | Lang | Description

definition all_fields :: "field list" where
  "all_fields = [Kind, Title, Authors, Genres, Series, Year, Lang, Description]"

fun field_name :: "field \<Rightarrow> string" where
  "field_name Kind = ''type''"
| "field_name Title = ''title''"
| "field_name Authors = ''authors''"
| "field_name Genres = ''genres''"
| "field_name Series = ''series''"
| "field_name Year = ''year''"
| "field_name Lang = ''lang''"
| "field_name Description = ''description''"

definition parse_field :: "string \<Rightarrow> field option" where
  "parse_field name = List.find (\<lambda>f. field_name f = name) all_fields"

section \<open>Keys\<close>

datatype key = FieldKey item_id field | FileKey item_id content_hash

definition ITEMS :: string where "ITEMS = ''item''"
definition FILE :: string where "FILE = ''file''"

definition prefix_of :: "hex_codec \<Rightarrow> item_id \<Rightarrow> string" where
  "prefix_of hx item = ITEMS @ ''/'' @ to_hex hx (item_bytes item) @ ''/''"

definition all_items :: string where "all_items = ITEMS @ ''/''"

fun key_encode :: "hex_codec \<Rightarrow> key \<Rightarrow> string" where
  "key_encode hx (FieldKey item f) =
     ITEMS @ ''/'' @ to_hex hx (item_bytes item) @ ''/'' @ field_name f"
| "key_encode hx (FileKey item blob) =
     ITEMS @ ''/'' @ to_hex hx (item_bytes item) @ ''/'' @ FILE @ ''/'' @ to_hex hx (hash_bytes blob)"

text \<open>\<open>parts.next()?\<close>, the next piece and those left, and \<open>parts.next().is_none().then_some(..)\<close>.\<close>

fun next_part :: "'p list \<Rightarrow> ('p \<times> 'p list) option" where
  "next_part [] = None"
| "next_part (p # ps) = Some (p, ps)"

definition when_over :: "'p list \<Rightarrow> 'a \<Rightarrow> 'a option" where
  "when_over parts x = (if parts = [] then Some x else None)"

definition key_parse :: "hex_codec \<Rightarrow> string \<Rightarrow> key option" where
  "key_parse hx key =
     (if \<not> is_utf8 key then None
      else Option.bind (next_part (split_at CHR ''/'' key)) (\<lambda>(start, parts).
        if start \<noteq> ITEMS then None
        else Option.bind (next_part parts) (\<lambda>(text_id, parts).
          Option.bind (from_hex hx text_id) (\<lambda>item.
            Option.bind (next_part parts) (\<lambda>(third, parts).
              if third = FILE then
                Option.bind (next_part parts) (\<lambda>(text_hash, parts).
                  Option.bind (from_hex hx text_hash) (\<lambda>blob.
                    when_over parts (FileKey (ItemId item) (ContentHash blob))))
              else Option.bind (parse_field third) (\<lambda>f.
                when_over parts (FieldKey (ItemId item) f)))))))"

fun key_item :: "key \<Rightarrow> item_id" where
  "key_item (FieldKey item f) = item"
| "key_item (FileKey item blob) = item"

section \<open>Items\<close>

datatype absorbed = Took | NotThisItem | Unknown | Unreadable

record item =
  it_id :: item_id
  it_kind :: "item_kind option"
  it_title :: "string option"
  it_authors :: "string list option"
  it_genres :: "string list option"
  it_series :: "series option"
  it_year :: "i32 option"
  it_lang :: "string option"
  it_description :: "string option"
  it_files :: "(content_hash, file_record) btmap"

record item_fields =
  if_kind :: "item_kind option"
  if_title :: "string option"
  if_authors :: "string list option"
  if_genres :: "string list option"
  if_series :: "series option"
  if_year :: "i32 option"
  if_lang :: "string option"
  if_description :: "string option"

text \<open>How values of one type become JSON, which may fail, and are read back.\<close>

record 'v json =
  to_vec :: "'v \<Rightarrow> bytes option"
  from_slice :: "bytes \<Rightarrow> 'v option"

record item_json =
  js_kind :: "item_kind json"
  js_text :: "string json"
  js_texts :: "string list json"
  js_series :: "series json"
  js_year :: "i32 json"
  js_file :: "file_record json"

definition item_new :: "item_id \<Rightarrow> item" where
  "item_new i =
     \<lparr>it_id = i, it_kind = None, it_title = None, it_authors = None, it_genres = None,
      it_series = None, it_year = None, it_lang = None, it_description = None, it_files = bt_empty\<rparr>"

definition encode_value :: "'v json \<Rightarrow> 'v option \<Rightarrow> bytes option" where
  "encode_value js v = Option.bind v (to_vec js)"

definition field_entry ::
    "hex_codec \<Rightarrow> item \<Rightarrow> field \<Rightarrow> 'v json \<Rightarrow> 'v option \<Rightarrow> (string \<times> bytes) option" where
  "field_entry hx it f js v =
     map_option (Pair (key_encode hx (FieldKey (it_id it) f))) (encode_value js v)"

definition field_entries :: "hex_codec \<Rightarrow> item_json \<Rightarrow> item \<Rightarrow> (string \<times> bytes) list" where
  "field_entries hx js it = List.map_filter (\<lambda>e. e)
     [field_entry hx it Kind (js_kind js) (it_kind it),
      field_entry hx it Title (js_text js) (it_title it),
      field_entry hx it Authors (js_texts js) (it_authors it),
      field_entry hx it Genres (js_texts js) (it_genres it),
      field_entry hx it Series (js_series js) (it_series it),
      field_entry hx it Year (js_year js) (it_year it),
      field_entry hx it Lang (js_text js) (it_lang it),
      field_entry hx it Description (js_text js) (it_description it)]"

definition file_entries :: "hex_codec \<Rightarrow> item_json \<Rightarrow> item \<Rightarrow> (string \<times> bytes) list" where
  "file_entries hx js it = List.map_filter (\<lambda>(blob, r).
       map_option (Pair (key_encode hx (FileKey (it_id it) blob))) (encode_value (js_file js) (Some r)))
     (bt_entries (it_files it))"

definition item_entries :: "hex_codec \<Rightarrow> item_json \<Rightarrow> item \<Rightarrow> (string \<times> bytes) list" where
  "item_entries hx js it = field_entries hx js it @ file_entries hx js it"

definition take_value :: "'v json \<Rightarrow> bytes \<Rightarrow> 'v option \<Rightarrow> absorbed \<times> 'v option" where
  "take_value js value into =
     (case from_slice js value of Some v \<Rightarrow> (Took, Some v) | None \<Rightarrow> (Unreadable, into))"

fun absorb_field :: "item_json \<Rightarrow> field \<Rightarrow> bytes \<Rightarrow> item \<Rightarrow> absorbed \<times> item" where
  "absorb_field js Kind value it =
     map_prod (\<lambda>r. r) (\<lambda>v. it\<lparr>it_kind := v\<rparr>) (take_value (js_kind js) value (it_kind it))"
| "absorb_field js Title value it =
     map_prod (\<lambda>r. r) (\<lambda>v. it\<lparr>it_title := v\<rparr>) (take_value (js_text js) value (it_title it))"
| "absorb_field js Authors value it =
     map_prod (\<lambda>r. r) (\<lambda>v. it\<lparr>it_authors := v\<rparr>) (take_value (js_texts js) value (it_authors it))"
| "absorb_field js Genres value it =
     map_prod (\<lambda>r. r) (\<lambda>v. it\<lparr>it_genres := v\<rparr>) (take_value (js_texts js) value (it_genres it))"
| "absorb_field js Series value it =
     map_prod (\<lambda>r. r) (\<lambda>v. it\<lparr>it_series := v\<rparr>) (take_value (js_series js) value (it_series it))"
| "absorb_field js Year value it =
     map_prod (\<lambda>r. r) (\<lambda>v. it\<lparr>it_year := v\<rparr>) (take_value (js_year js) value (it_year it))"
| "absorb_field js Lang value it =
     map_prod (\<lambda>r. r) (\<lambda>v. it\<lparr>it_lang := v\<rparr>) (take_value (js_text js) value (it_lang it))"
| "absorb_field js Description value it =
     map_prod (\<lambda>r. r) (\<lambda>v. it\<lparr>it_description := v\<rparr>)
       (take_value (js_text js) value (it_description it))"

definition absorb :: "hex_codec \<Rightarrow> item_json \<Rightarrow> string \<Rightarrow> bytes \<Rightarrow> item \<Rightarrow> absorbed \<times> item" where
  "absorb hx js key value it =
     (case key_parse hx key of
        None \<Rightarrow> (Unknown, it)
      | Some k \<Rightarrow>
          if key_item k \<noteq> it_id it then (NotThisItem, it)
          else case k of
              FileKey _ blob \<Rightarrow>
                (case from_slice (js_file js) value of
                   Some r \<Rightarrow> (Took, it\<lparr>it_files := bt_insert blob r (it_files it)\<rparr>)
                 | None \<Rightarrow> (Unreadable, it))
            | FieldKey _ f \<Rightarrow> absorb_field js f value it)"

definition set_to :: "'v option \<Rightarrow> 'v option \<Rightarrow> 'v option" where
  "set_to new old = (case new of Some v \<Rightarrow> Some v | None \<Rightarrow> old)"

definition item_set :: "item_fields \<Rightarrow> item \<Rightarrow> item" where
  "item_set f it = it
     \<lparr>it_kind := set_to (if_kind f) (it_kind it),
      it_title := set_to (if_title f) (it_title it),
      it_authors := set_to (if_authors f) (it_authors it),
      it_genres := set_to (if_genres f) (it_genres it),
      it_series := set_to (if_series f) (it_series it),
      it_year := set_to (if_year f) (it_year it),
      it_lang := set_to (if_lang f) (it_lang it),
      it_description := set_to (if_description f) (it_description it)\<rparr>"

definition fingerprint :: "(u8 list \<Rightarrow> 256 word) \<Rightarrow> item \<Rightarrow> item_id option" where
  "fingerprint hash it =
     (let content = map (\<lambda>(blob, _). hash_bytes blob)
            (filter (\<lambda>(_, r). fr_role r = Content) (bt_entries (it_files it)))
      in if content = [] then None else Some (from_content_hashes hash content))"

section \<open>Keys read back\<close>

text \<open>What is relied on of the hexadecimal text: ASCII of one length, read back, and no slash in it.\<close>

definition hex_text :: "hex_codec \<Rightarrow> bool" where
  "hex_text hx \<longleftrightarrow> hex_ok hx \<and> (\<forall>w. list_all (byte_in 0 127) (to_hex hx w)) \<and>
     (\<forall>v w. length (to_hex hx v) = length (to_hex hx w))"

lemma hex_textD:
  assumes "hex_text hx"
  shows "from_hex hx (to_hex hx w) = Some w" and "CHR ''/'' \<notin> set (to_hex hx w)"
    and "list_all (byte_in 0 127) (to_hex hx w)" and "length (to_hex hx v) = length (to_hex hx w)"
  using assms by (auto simp: hex_text_def hex_ok_def)

lemma ascii_is_utf8: "list_all (byte_in 0 127) s \<Longrightarrow> is_utf8 s"
  by (induction s rule: is_utf8.induct) auto

lemma split_at_last [simp]: "c \<notin> set a \<Longrightarrow> split_at c a = [a]"
  by (induction a) auto

lemma split_at_append [simp]: "c \<notin> set a \<Longrightarrow> split_at c (a @ c # b) = a # split_at c b"
  by (induction a) auto

lemma no_slash_in_name [simp]: "CHR ''/'' \<notin> set (field_name f)"
  by (cases f) simp_all

lemma name_is_ascii [simp]: "list_all (byte_in 0 127) (field_name f)"
  by (cases f) (simp_all add: byte_in_def)

lemma name_is_not_file [simp]: "field_name f \<noteq> FILE"
  by (cases f) (simp_all add: FILE_def)

lemma parse_field_name [simp]: "parse_field (field_name f) = Some f"
  by (cases f) (simp_all add: parse_field_def all_fields_def)

lemma item_words [simp]:
  "list_all (byte_in 0 127) ITEMS" "list_all (byte_in 0 127) FILE"
  "byte_in 0 127 CHR ''/''" "CHR ''/'' \<notin> set ITEMS" "CHR ''/'' \<notin> set FILE"
  by (simp_all add: ITEMS_def FILE_def byte_in_def)

lemma key_reads_back:
  assumes "hex_text hx"
  shows "key_parse hx (key_encode hx k) = Some k"
  using hex_textD [OF assms]
  by (cases k) (simp_all add: key_parse_def ascii_is_utf8 when_over_def)

lemma key_starts_with_item:
  "take (length (prefix_of hx (key_item k))) (key_encode hx k) = prefix_of hx (key_item k)"
  by (cases k) (simp_all add: prefix_of_def)

text \<open>No key an item is written under is the beginning of another.\<close>

lemma name_not_a_prefix: "field_name g = field_name f @ s \<Longrightarrow> s = [] \<and> g = f"
  by (cases f; cases g) auto

lemma file_not_a_prefix: "field_name f \<noteq> FILE @ s" "FILE @ ''/'' @ s \<noteq> field_name f @ s'"
  by (cases f; simp add: FILE_def)+

lemma to_hex_eq:
  assumes "hex_text hx" and "to_hex hx v @ s = to_hex hx w @ s'"
  shows "v = w \<and> s = s'"
proof -
  have "to_hex hx v = to_hex hx w" and "s = s'"
    using assms hex_textD(4) [OF assms(1), of v w] by auto
  then show ?thesis using hex_textD(1) [OF assms(1)] by (metis option.inject)
qed

lemma key_not_a_prefix:
  assumes "hex_text hx" and "key_encode hx k' = key_encode hx k @ s"
  shows "k' = k \<and> s = []"
proof (cases k)
  case k: (FieldKey item f)
  show ?thesis
  proof (cases k')
    case (FieldKey item' f')
    then show ?thesis
      using assms(2) to_hex_eq [OF assms(1), of "item_bytes item'" "''/'' @ field_name f'"]
      by (auto simp: k item_id.expand dest!: name_not_a_prefix)
  next
    case (FileKey item' blob')
    then show ?thesis
      using assms(2) file_not_a_prefix(2)
        to_hex_eq [OF assms(1), of "item_bytes item'"
          "''/'' @ FILE @ ''/'' @ to_hex hx (hash_bytes blob')" "item_bytes item" "''/'' @ field_name f @ s"]
      by (auto simp: k)
  qed
next
  case k: (FileKey item blob)
  show ?thesis
  proof (cases k')
    case (FieldKey item' f')
    then show ?thesis
      using assms(2) file_not_a_prefix(1)
        to_hex_eq [OF assms(1), of "item_bytes item'" "''/'' @ field_name f'" "item_bytes item"
          "''/'' @ FILE @ ''/'' @ to_hex hx (hash_bytes blob) @ s"]
      by (auto simp: k)
  next
    case (FileKey item' blob')
    then have "to_hex hx (item_bytes item') @ ''/file/'' @ to_hex hx (hash_bytes blob') @ [] =
        to_hex hx (item_bytes item) @ ''/file/'' @ to_hex hx (hash_bytes blob) @ s"
      using assms(2) by (simp add: k FILE_def)
    then have "item' = item \<and> to_hex hx (hash_bytes blob') @ [] = to_hex hx (hash_bytes blob) @ s"
      using to_hex_eq [OF assms(1)] by (fastforce simp: item_id.expand)
    then show ?thesis
      using to_hex_eq [OF assms(1), of "hash_bytes blob'" "[]"] by (auto simp: k FileKey content_hash.expand)
  qed
qed

section \<open>An item is its entries\<close>

text \<open>
  What is relied on of JSON: what can be a value of the type reads back as it was written. Strings
  are UTF-8, and JSON has no number for an index that is not finite.
\<close>

definition json_ok :: "'v json \<Rightarrow> ('v \<Rightarrow> bool) \<Rightarrow> bool" where
  "json_ok js ok \<longleftrightarrow> (\<forall>v. ok v \<longrightarrow> (\<exists>b. to_vec js v = Some b \<and> from_slice js b = Some v))"

definition is_finite_f32 :: "f32 \<Rightarrow> bool" where
  "is_finite_f32 x \<longleftrightarrow> drop_bit 23 x AND 0xFF \<noteq> 0xFF"

definition series_ok :: "series \<Rightarrow> bool" where
  "series_ok s \<longleftrightarrow> is_utf8 (sr_name s) \<and> pred_option is_finite_f32 (sr_index s)"

definition file_ok :: "file_record \<Rightarrow> bool" where
  "file_ok r \<longleftrightarrow> is_utf8 (fr_format r) \<and> is_utf8 (fr_filename r) \<and> pred_option is_utf8 (fr_title r)"

definition item_json_ok :: "item_json \<Rightarrow> bool" where
  "item_json_ok js \<longleftrightarrow>
     json_ok (js_kind js) (\<lambda>_. True) \<and> json_ok (js_text js) is_utf8 \<and>
     json_ok (js_texts js) (list_all is_utf8) \<and> json_ok (js_series js) series_ok \<and>
     json_ok (js_year js) (\<lambda>_. True) \<and> json_ok (js_file js) file_ok"

definition item_ok :: "item \<Rightarrow> bool" where
  "item_ok u \<longleftrightarrow>
     pred_option is_utf8 (it_title u) \<and> pred_option (list_all is_utf8) (it_authors u) \<and>
     pred_option (list_all is_utf8) (it_genres u) \<and> pred_option series_ok (it_series u) \<and>
     pred_option is_utf8 (it_lang u) \<and> pred_option is_utf8 (it_description u) \<and>
     (\<forall>r \<in> set (bt_values (it_files u)). file_ok r)"

text \<open>What an item says, as an edit would say it.\<close>

definition fields_of :: "item \<Rightarrow> item_fields" where
  "fields_of u =
     \<lparr>if_kind = it_kind u, if_title = it_title u, if_authors = it_authors u,
      if_genres = it_genres u, if_series = it_series u, if_year = it_year u,
      if_lang = it_lang u, if_description = it_description u\<rparr>"

definition absorb_all :: "hex_codec \<Rightarrow> item_json \<Rightarrow> (string \<times> bytes) list \<Rightarrow> item \<Rightarrow> item" where
  "absorb_all hx js es it = fold (\<lambda>(k, v) it. snd (absorb hx js k v it)) es it"

definition absorb_entry :: "hex_codec \<Rightarrow> item_json \<Rightarrow> (string \<times> bytes) option \<Rightarrow> item \<Rightarrow> item" where
  "absorb_entry hx js e it = (case e of None \<Rightarrow> it | Some (k, v) \<Rightarrow> snd (absorb hx js k v it))"

lemma absorb_all_filter:
  "absorb_all hx js (List.map_filter f xs) it = fold (\<lambda>x. absorb_entry hx js (f x)) xs it"
  by (induction xs arbitrary: it)
    (auto simp: absorb_all_def absorb_entry_def List.map_filter_simps split: option.splits)

lemma set_to_simps [simp]: "set_to None old = old" "set_to (Some v) old = Some v" "set_to w None = w"
  by (simp_all add: set_to_def split: option.splits)

lemma absorb_own_field:
  assumes "hex_text hx" and "it_id it = it_id u" and "json_ok j ok" and "pred_option ok v"
    and "\<And>b w. from_slice j b = Some w \<Longrightarrow> absorb_field js f b it = (Took, upd (Some w))"
    and "upd old = it"
  shows "absorb_entry hx js (field_entry hx u f j v) it = upd (set_to v old)"
proof (cases v)
  case None
  then show ?thesis by (simp add: absorb_entry_def field_entry_def encode_value_def assms(6))
next
  case (Some w)
  then obtain b where "to_vec j w = Some b" and "from_slice j b = Some w"
    using assms(3,4) by (auto simp: json_ok_def)
  then show ?thesis
    using assms(2,5) key_reads_back [OF assms(1), of "FieldKey (it_id u) f"]
    by (simp add: Some absorb_entry_def field_entry_def encode_value_def absorb_def)
qed

lemma absorb_field_entries:
  assumes "hex_text hx" and "item_json_ok js" and "item_ok u" and "it_id it = it_id u"
  shows "absorb_all hx js (field_entries hx js u) it = item_set (fields_of u) it"
proof -
  have J: "json_ok (js_kind js) (\<lambda>_. True)" "json_ok (js_text js) is_utf8"
    "json_ok (js_texts js) (list_all is_utf8)" "json_ok (js_series js) series_ok"
    "json_ok (js_year js) (\<lambda>_. True)"
    using assms(2) by (simp_all add: item_json_ok_def)
  have U: "pred_option (\<lambda>_. True) (it_kind u)" "pred_option is_utf8 (it_title u)"
    "pred_option (list_all is_utf8) (it_authors u)" "pred_option (list_all is_utf8) (it_genres u)"
    "pred_option series_ok (it_series u)" "pred_option (\<lambda>_. True) (it_year u)"
    "pred_option is_utf8 (it_lang u)" "pred_option is_utf8 (it_description u)"
    using assms(3) by (simp_all add: item_ok_def pred_option_def)
  note own = absorb_own_field [OF assms(1)]
  have "absorb_entry hx js (field_entry hx u Kind (js_kind js) (it_kind u)) it =
      it\<lparr>it_kind := set_to (it_kind u) (it_kind it)\<rparr>" if "it_id it = it_id u" for it
    by (rule own [OF that J(1) U(1), where upd = "\<lambda>v. it\<lparr>it_kind := v\<rparr>"])
      (simp_all add: take_value_def)
  moreover have "absorb_entry hx js (field_entry hx u Title (js_text js) (it_title u)) it =
      it\<lparr>it_title := set_to (it_title u) (it_title it)\<rparr>" if "it_id it = it_id u" for it
    by (rule own [OF that J(2) U(2), where upd = "\<lambda>v. it\<lparr>it_title := v\<rparr>"])
      (simp_all add: take_value_def)
  moreover have "absorb_entry hx js (field_entry hx u Authors (js_texts js) (it_authors u)) it =
      it\<lparr>it_authors := set_to (it_authors u) (it_authors it)\<rparr>" if "it_id it = it_id u" for it
    by (rule own [OF that J(3) U(3), where upd = "\<lambda>v. it\<lparr>it_authors := v\<rparr>"])
      (simp_all add: take_value_def)
  moreover have "absorb_entry hx js (field_entry hx u Genres (js_texts js) (it_genres u)) it =
      it\<lparr>it_genres := set_to (it_genres u) (it_genres it)\<rparr>" if "it_id it = it_id u" for it
    by (rule own [OF that J(3) U(4), where upd = "\<lambda>v. it\<lparr>it_genres := v\<rparr>"])
      (simp_all add: take_value_def)
  moreover have "absorb_entry hx js (field_entry hx u Series (js_series js) (it_series u)) it =
      it\<lparr>it_series := set_to (it_series u) (it_series it)\<rparr>" if "it_id it = it_id u" for it
    by (rule own [OF that J(4) U(5), where upd = "\<lambda>v. it\<lparr>it_series := v\<rparr>"])
      (simp_all add: take_value_def)
  moreover have "absorb_entry hx js (field_entry hx u Year (js_year js) (it_year u)) it =
      it\<lparr>it_year := set_to (it_year u) (it_year it)\<rparr>" if "it_id it = it_id u" for it
    by (rule own [OF that J(5) U(6), where upd = "\<lambda>v. it\<lparr>it_year := v\<rparr>"])
      (simp_all add: take_value_def)
  moreover have "absorb_entry hx js (field_entry hx u Lang (js_text js) (it_lang u)) it =
      it\<lparr>it_lang := set_to (it_lang u) (it_lang it)\<rparr>" if "it_id it = it_id u" for it
    by (rule own [OF that J(2) U(7), where upd = "\<lambda>v. it\<lparr>it_lang := v\<rparr>"])
      (simp_all add: take_value_def)
  moreover have "absorb_entry hx js (field_entry hx u Description (js_text js) (it_description u)) it =
      it\<lparr>it_description := set_to (it_description u) (it_description it)\<rparr>" if "it_id it = it_id u" for it
    by (rule own [OF that J(2) U(8), where upd = "\<lambda>v. it\<lparr>it_description := v\<rparr>"])
      (simp_all add: take_value_def)
  ultimately show ?thesis
    using assms(4) unfolding field_entries_def absorb_all_filter
    by (simp add: item_set_def fields_of_def)
qed

lemma absorb_file_entries:
  assumes "hex_text hx" and "item_json_ok js" and "item_ok u" and "it_id it = it_id u"
  shows "absorb_all hx js (file_entries hx js u) it =
    it\<lparr>it_files := fold (\<lambda>(b, r). bt_insert b r) (bt_entries (it_files u)) (it_files it)\<rparr>"
proof -
  have "fold (\<lambda>(b, r). absorb_entry hx js (map_option (Pair (key_encode hx (FileKey (it_id u) b)))
            (encode_value (js_file js) (Some r)))) es it =
      it\<lparr>it_files := fold (\<lambda>(b, r). bt_insert b r) es (it_files it)\<rparr>"
    if "\<forall>(b, r) \<in> set es. file_ok r" and "it_id it = it_id u" for es it
    using that
  proof (induction es arbitrary: it)
    case (Cons e es)
    obtain b r where e: "e = (b, r)" by (cases e)
    with Cons.prems obtain v where "to_vec (js_file js) r = Some v" and "from_slice (js_file js) v = Some r"
      using assms(2) by (auto simp: item_json_ok_def json_ok_def)
    then show ?case
      using Cons.prems Cons.IH [of "it\<lparr>it_files := bt_insert b r (it_files it)\<rparr>"]
        key_reads_back [OF assms(1), of "FileKey (it_id u) b"]
      by (simp add: e absorb_entry_def encode_value_def absorb_def)
  qed simp
  moreover have "\<forall>(b, r) \<in> set (bt_entries (it_files u)). file_ok r"
    using assms(3) by (auto simp: item_ok_def bt_values_def)
  ultimately show ?thesis
    using assms(4) unfolding file_entries_def absorb_all_filter
    by (simp add: case_prod_unfold)
qed

lemma bt_get_fold_insert:
  "bt_get (fold (\<lambda>(k, v). bt_insert k v) (bt_entries m) n) k = set_to (bt_get m k) (bt_get n k)"
proof -
  have "bt_get (fold (\<lambda>(k, v). bt_insert k v) es n) k = set_to (map_of (rev es) k) (bt_get n k)" for es
    by (induction es arbitrary: n)
      (auto simp: btmap_simps set_to_def map_add_def split: option.splits)
  moreover have "map_of (rev (bt_entries m)) k = bt_get m k"
    using bt_collect_distinct [of "bt_entries m" k] unfolding bt_get_collect by (simp add: bt_get.rep_eq)
  ultimately show ?thesis by simp
qed

text \<open>
  C40. Writing an item writes only what it says. Whoever folds its entries into what they hold of the
  item has the fields it sets, as an edit sets them, its files beside those they had, and everything
  else as it was; folded into nothing, they are the item again.
\<close>

theorem entries_say_only_what_is_set:
  assumes "hex_text hx" and "item_json_ok js" and "item_ok u" and "it_id it = it_id u"
  shows "(absorb_all hx js (item_entries hx js u) it)\<lparr>it_files := it_files it\<rparr> = item_set (fields_of u) it \<and>
    (\<forall>b. bt_get (it_files (absorb_all hx js (item_entries hx js u) it)) b =
      set_to (bt_get (it_files u) b) (bt_get (it_files it) b)) \<and>
    absorb_all hx js (item_entries hx js u) (item_new (it_id u)) = u"
proof -
  define files where "files n = fold (\<lambda>(b, r). bt_insert b r) (bt_entries (it_files u)) n" for n
  have all: "absorb_all hx js (item_entries hx js u) it =
      (item_set (fields_of u) it)\<lparr>it_files := files (it_files it)\<rparr>"
    if "it_id it = it_id u" for it
  proof -
    have "it_id (item_set (fields_of u) it) = it_id u"
      and "it_files (item_set (fields_of u) it) = it_files it"
      using that by (simp_all add: item_set_def)
    then show ?thesis
      using absorb_field_entries [OF assms(1-3) that]
        absorb_file_entries [OF assms(1-3), of "item_set (fields_of u) it"]
      by (simp add: item_entries_def absorb_all_def files_def)
  qed
  have files: "bt_get (files n) b = set_to (bt_get (it_files u) b) (bt_get n b)" for n b
    unfolding files_def by (rule bt_get_fold_insert)
  have "files bt_empty = it_files u"
    by (rule bt_ext) (auto simp: files btmap_simps set_to_def split: option.splits)
  then have "absorb_all hx js (item_entries hx js u) (item_new (it_id u)) = u"
    using all [of "item_new (it_id u)"] by (simp add: item_new_def item_set_def fields_of_def)
  then show ?thesis
    using all [OF assms(4)] files by (simp add: item_set_def)
qed

section \<open>An item of two files\<close>

text \<open>A form of JSON for the examples: a value as that many zeros.\<close>

definition counted_json :: "('v \<Rightarrow> 'n::countable) \<Rightarrow> ('n \<Rightarrow> 'v) \<Rightarrow> 'v json" where
  "counted_json f g =
     \<lparr>to_vec = (\<lambda>v. Some (replicate (to_nat (f v)) 0)),
      from_slice = (\<lambda>b. Some (g (from_nat (length b))))\<rparr>"

lemma counted_json_ok: "(\<And>v. g (f v) = v) \<Longrightarrow> json_ok (counted_json f g) ok"
  by (simp add: json_ok_def counted_json_def)

definition kinds :: "item_kind list" where "kinds = [Ebook, Audiobook, Video, OtherKind]"
definition roles :: "file_role list" where "roles = [Content, Cover, Subtitle, Metadata, OtherRole]"

fun kind_number :: "item_kind \<Rightarrow> nat" where
  "kind_number Ebook = 0" | "kind_number Audiobook = 1" | "kind_number Video = 2" | "kind_number OtherKind = 3"

fun role_number :: "file_role \<Rightarrow> nat" where
  "role_number Content = 0" | "role_number Cover = 1" | "role_number Subtitle = 2"
| "role_number Metadata = 3" | "role_number OtherRole = 4"

lemma kind_of_number [simp]: "kinds ! kind_number k = k"
  by (cases k) (simp_all add: kinds_def)

lemma role_of_number [simp]: "roles ! role_number r = r"
  by (cases r) (simp_all add: roles_def)

definition demo_json :: item_json where
  "demo_json =
     \<lparr>js_kind = counted_json kind_number ((!) kinds),
      js_text = counted_json (\<lambda>s. s) (\<lambda>s. s),
      js_texts = counted_json (\<lambda>s. s) (\<lambda>s. s),
      js_series = counted_json (\<lambda>s. (sr_name s, map_option unat (sr_index s)))
        (\<lambda>(n, i). \<lparr>sr_name = n, sr_index = map_option of_nat i\<rparr>),
      js_year = counted_json unat of_nat,
      js_file = counted_json
        (\<lambda>r. (role_number (fr_role r), fr_format r, unat (fr_size r), fr_filename r,
          map_option unat (fr_seq r), map_option unat (fr_disc r), fr_title r, map_option unat (fr_duration r)))
        (\<lambda>(ro, fo, si, fn, se, di, ti, du).
          \<lparr>fr_role = roles ! ro, fr_format = fo, fr_size = of_nat si, fr_filename = fn,
           fr_seq = map_option of_nat se, fr_disc = map_option of_nat di, fr_title = ti,
           fr_duration = map_option of_nat du\<rparr>)\<rparr>"

lemma demo_json_ok: "item_json_ok demo_json"
  by (simp add: item_json_ok_def demo_json_def counted_json_ok option.map_comp comp_def option.map_ident)

lemma bit_hex_text: "hex_text bit_hex"
  using bit_hex_ok by (auto simp: hex_text_def bit_hex_def list_all_iff byte_in_def)

definition demo_file :: "file_role \<Rightarrow> file_record" where
  "demo_file ro = \<lparr>fr_role = ro, fr_format = ''epub'', fr_size = 7, fr_filename = ''a'',
     fr_seq = None, fr_disc = None, fr_title = None, fr_duration = None\<rparr>"

definition shared_item :: item where
  "shared_item = (item_new (ItemId 1))\<lparr>it_title := Some ''Dune'', it_year := Some 1965,
     it_files := bt_insert (ContentHash 2) (demo_file Content) bt_empty\<rparr>"

definition demo_held :: item where
  "demo_held = (item_new (ItemId 1))\<lparr>it_title := Some ''dune'', it_lang := Some ''en'',
     it_files := bt_insert (ContentHash 3) (demo_file Cover) bt_empty\<rparr>"

lemma shared_item_ok: "item_ok shared_item"
  by (simp add: item_ok_def shared_item_def item_new_def demo_file_def file_ok_def byte_in_def
      bt_values_def bt_insert.rep_eq bt_empty.rep_eq)

theorem entries_say_only_what_is_set_witness:
  "it_title (absorb_all bit_hex demo_json (item_entries bit_hex demo_json shared_item) demo_held) = Some ''Dune'' \<and>
   it_lang (absorb_all bit_hex demo_json (item_entries bit_hex demo_json shared_item) demo_held) = Some ''en'' \<and>
   bt_get (it_files (absorb_all bit_hex demo_json (item_entries bit_hex demo_json shared_item) demo_held))
     (ContentHash 3) = Some (demo_file Cover) \<and>
   absorb_all bit_hex demo_json (item_entries bit_hex demo_json shared_item) (item_new (ItemId 1)) = shared_item"
proof -
  let ?r = "absorb_all bit_hex demo_json (item_entries bit_hex demo_json shared_item) demo_held"
  have "it_id demo_held = it_id shared_item" by (simp add: demo_held_def shared_item_def item_new_def)
  note all = entries_say_only_what_is_set [OF bit_hex_text demo_json_ok shared_item_ok this]
  then have "?r\<lparr>it_files := it_files demo_held\<rparr> = item_set (fields_of shared_item) demo_held" by simp
  from arg_cong [OF this, of it_title] arg_cong [OF this, of it_lang]
  have "it_title ?r = it_title (item_set (fields_of shared_item) demo_held)"
    and "it_lang ?r = it_lang (item_set (fields_of shared_item) demo_held)"
    by simp_all
  then show ?thesis
    using all by (simp add: item_set_def fields_of_def shared_item_def demo_held_def item_new_def btmap_simps)
qed

end
