(* ===== verification/Community.thy ===== *)
theory Community
  imports Catalogue Directory
begin

text \<open>
  What members say about items, \<open>crates/distlib-core/src/community.rs\<close>: the keys that name the member
  who writes them, the values with their limits, and how the entries of a wish are resolved. The
  texts of identifiers and JSON are arguments; a text is its bytes in UTF-8.
\<close>

section \<open>Identifiers and their texts\<close>

datatype bookmark_id = BookmarkId (bookmark_bytes: "128 word")
datatype wish_id = WishId (wish_bytes: "256 word")

instantiation bookmark_id :: linorder
begin

definition less_eq_bookmark_id :: "bookmark_id \<Rightarrow> bookmark_id \<Rightarrow> bool" where
  "less_eq_bookmark_id a b \<longleftrightarrow> bookmark_bytes a \<le> bookmark_bytes b"

definition less_bookmark_id :: "bookmark_id \<Rightarrow> bookmark_id \<Rightarrow> bool" where
  "less_bookmark_id a b \<longleftrightarrow> bookmark_bytes a < bookmark_bytes b"

instance
  by standard (auto simp: less_eq_bookmark_id_def less_bookmark_id_def bookmark_id.expand)

end

instantiation wish_id :: linorder
begin

definition less_eq_wish_id :: "wish_id \<Rightarrow> wish_id \<Rightarrow> bool" where
  "less_eq_wish_id a b \<longleftrightarrow> wish_bytes a \<le> wish_bytes b"

definition less_wish_id :: "wish_id \<Rightarrow> wish_id \<Rightarrow> bool" where
  "less_wish_id a b \<longleftrightarrow> wish_bytes a < wish_bytes b"

instance
  by standard (auto simp: less_eq_wish_id_def less_wish_id_def wish_id.expand)

end

text \<open>\<open>Display\<close> and \<open>FromStr\<close> of an identifier.\<close>

record 'a text_form =
  show_id :: "'a \<Rightarrow> string"
  read_id :: "string \<Rightarrow> 'a option"

record id_texts =
  tx_hex :: hex_codec
  tx_member :: "member_id text_form"
  tx_bookmark :: "bookmark_id text_form"
  tx_wish :: "wish_id text_form"

definition tx_item :: "id_texts \<Rightarrow> item_id text_form" where
  "tx_item tx =
     \<lparr>show_id = (\<lambda>i. to_hex (tx_hex tx) (item_bytes i)),
      read_id = (\<lambda>s. map_option ItemId (from_hex (tx_hex tx) s))\<rparr>"

section \<open>Keys\<close>

datatype community_key =
    RatingKey item_id member_id
  | ReviewKey item_id member_id
  | BookmarkKey item_id member_id bookmark_id
  | WishKey wish_id member_id
  | WishCommentKey wish_id member_id
  | ProbeFailureKey member_id member_id

definition RATING :: string where "RATING = ''rating''"
definition REVIEW :: string where "REVIEW = ''review''"
definition BOOKMARK :: string where "BOOKMARK = ''bookmark''"
definition WISH :: string where "WISH = ''wish''"
definition WISH_COMMENT :: string where "WISH_COMMENT = ''wish_comment''"
definition PROBE :: string where "PROBE = ''probe''"

fun community_encode :: "id_texts \<Rightarrow> community_key \<Rightarrow> string" where
  "community_encode tx (RatingKey item member) =
     RATING @ ''/'' @ show_id (tx_item tx) item @ ''/'' @ show_id (tx_member tx) member"
| "community_encode tx (ReviewKey item member) =
     REVIEW @ ''/'' @ show_id (tx_item tx) item @ ''/'' @ show_id (tx_member tx) member"
| "community_encode tx (BookmarkKey item member bookmark) =
     BOOKMARK @ ''/'' @ show_id (tx_item tx) item @ ''/'' @ show_id (tx_member tx) member @ ''/'' @
       show_id (tx_bookmark tx) bookmark"
| "community_encode tx (WishKey wish member) =
     WISH @ ''/'' @ show_id (tx_wish tx) wish @ ''/'' @ show_id (tx_member tx) member"
| "community_encode tx (WishCommentKey wish member) =
     WISH_COMMENT @ ''/'' @ show_id (tx_wish tx) wish @ ''/'' @ show_id (tx_member tx) member"
| "community_encode tx (ProbeFailureKey custodian prober) =
     PROBE @ ''/'' @ show_id (tx_member tx) custodian @ ''/'' @ show_id (tx_member tx) prober"

definition segment :: "'a text_form \<Rightarrow> string list \<Rightarrow> ('a \<times> string list) option" where
  "segment form parts =
     Option.bind (next_part parts) (\<lambda>(p, rest). map_option (\<lambda>x. (x, rest)) (read_id form p))"

text \<open>Two segments, for the keys that end in them.\<close>

definition two_segments ::
    "'a text_form \<Rightarrow> 'b text_form \<Rightarrow> ('a \<Rightarrow> 'b \<Rightarrow> 'k) \<Rightarrow> string list \<Rightarrow> 'k option" where
  "two_segments fa fb mk parts =
     Option.bind (segment fa parts) (\<lambda>(a, parts).
       Option.bind (segment fb parts) (\<lambda>(b, parts). Some (mk a b)))"

definition community_parse :: "id_texts \<Rightarrow> string \<Rightarrow> community_key option" where
  "community_parse tx key =
     (if \<not> is_utf8 key then None
      else Option.bind (next_part (split_at CHR ''/'' key)) (\<lambda>(start, parts).
        Option.bind
          (if start = RATING then two_segments (tx_item tx) (tx_member tx) RatingKey parts
           else if start = REVIEW then two_segments (tx_item tx) (tx_member tx) ReviewKey parts
           else if start = BOOKMARK then
             Option.bind (segment (tx_item tx) parts) (\<lambda>(item, parts).
               two_segments (tx_member tx) (tx_bookmark tx) (BookmarkKey item) parts)
           else if start = WISH then two_segments (tx_wish tx) (tx_member tx) WishKey parts
           else if start = WISH_COMMENT then two_segments (tx_wish tx) (tx_member tx) WishCommentKey parts
           else if start = PROBE then two_segments (tx_member tx) (tx_member tx) ProbeFailureKey parts
           else None)
          (\<lambda>parsed. if community_encode tx parsed = key then Some parsed else None)))"

fun key_member :: "community_key \<Rightarrow> member_id" where
  "key_member (RatingKey item member) = member"
| "key_member (ReviewKey item member) = member"
| "key_member (BookmarkKey item member bookmark) = member"
| "key_member (WishKey wish member) = member"
| "key_member (WishCommentKey wish member) = member"
| "key_member (ProbeFailureKey custodian prober) = prober"

definition ratings_of :: "id_texts \<Rightarrow> item_id \<Rightarrow> string" where
  "ratings_of tx item = RATING @ ''/'' @ show_id (tx_item tx) item @ ''/''"

definition reviews_of :: "id_texts \<Rightarrow> item_id \<Rightarrow> string" where
  "reviews_of tx item = REVIEW @ ''/'' @ show_id (tx_item tx) item @ ''/''"

definition bookmarks_of :: "id_texts \<Rightarrow> item_id \<Rightarrow> string" where
  "bookmarks_of tx item = BOOKMARK @ ''/'' @ show_id (tx_item tx) item @ ''/''"

definition all_bookmarks :: string where "all_bookmarks = BOOKMARK @ ''/''"

definition wish_entries_of :: "id_texts \<Rightarrow> wish_id \<Rightarrow> string" where
  "wish_entries_of tx wish = WISH @ ''/'' @ show_id (tx_wish tx) wish @ ''/''"

definition comments_on :: "id_texts \<Rightarrow> wish_id \<Rightarrow> string" where
  "comments_on tx wish = WISH_COMMENT @ ''/'' @ show_id (tx_wish tx) wish @ ''/''"

definition all_wish_entries :: string where "all_wish_entries = WISH @ ''/''"

definition all_probe_failures :: string where "all_probe_failures = PROBE @ ''/''"

section \<open>Values\<close>

definition REVIEW_MAX_BYTES :: nat where "REVIEW_MAX_BYTES = 16 * 1024"
definition NOTE_MAX_BYTES :: nat where "NOTE_MAX_BYTES = 4 * 1024"
definition POSITION_MAX_BYTES :: nat where "POSITION_MAX_BYTES = 256"
definition WISH_MAX_BYTES :: nat where "WISH_MAX_BYTES = 16 * 1024"
definition COMMENT_MAX_BYTES :: nat where "COMMENT_MAX_BYTES = 4 * 1024"

text \<open>
  \<open>serde(try_from)\<close>: a value is read as what it is made from, which is then checked. Writing goes
  by the way back.
\<close>

definition decode_by :: "'w json \<Rightarrow> ('w \<Rightarrow> core_error + 'v) \<Rightarrow> bytes \<Rightarrow> 'v option" where
  "decode_by js try_from b =
     Option.bind (from_slice js b) (\<lambda>w. case try_from w of Inr v \<Rightarrow> Some v | Inl _ \<Rightarrow> None)"

datatype rating = Rating (rating_get: u8)

definition rating_try_from :: "u8 \<Rightarrow> core_error + rating" where
  "rating_try_from n = (if 1 \<le> n \<and> n \<le> 5 then Inr (Rating n) else Inl (InvalidRating n))"

definition capped :: "string \<Rightarrow> string \<Rightarrow> nat \<Rightarrow> core_error + string" where
  "capped what s limit =
     (if length s > limit then Inl (TextTooLong what (length s) limit) else Inr s)"

datatype review = Review (review_text: string)
datatype comment = Comment (comment_text: string)

definition review_try_from :: "string \<Rightarrow> core_error + review" where
  "review_try_from s = map_sum (\<lambda>e. e) Review (capped ''review'' s REVIEW_MAX_BYTES)"

definition comment_try_from :: "string \<Rightarrow> core_error + comment" where
  "comment_try_from s = map_sum (\<lambda>e. e) Comment (capped ''comment'' s COMMENT_MAX_BYTES)"

record bookmark =
  bm_position :: string
  bm_note :: string
  bm_created_at :: u64

definition bookmark_new :: "string \<Rightarrow> string \<Rightarrow> u64 \<Rightarrow> core_error + bookmark" where
  "bookmark_new position note created_at =
     (case capped ''bookmark position'' position POSITION_MAX_BYTES of
        Inl e \<Rightarrow> Inl e
      | Inr position \<Rightarrow>
          (case capped ''bookmark note'' note NOTE_MAX_BYTES of
             Inl e \<Rightarrow> Inl e
           | Inr note \<Rightarrow> Inr \<lparr>bm_position = position, bm_note = note, bm_created_at = created_at\<rparr>))"

definition bookmark_try_from :: "string \<times> string \<times> u64 \<Rightarrow> core_error + bookmark" where
  "bookmark_try_from = (\<lambda>(position, note, created_at). bookmark_new position note created_at)"

datatype wish_status = Open | Fulfilled item_id

record wish_fields =
  wf_kind :: "item_kind option"
  wf_title :: "string option"
  wf_authors :: "string list option"
  wf_description :: "string option"
  wf_created_at :: "u64 option"
  wf_status :: wish_status

datatype wish = Wish (wish_fields_of: wish_fields)

text \<open>\<open>to_json\<close> expects that numbers, strings and their structs encode: \<open>None\<close> is the panic if not.\<close>

definition wish_new :: "wish_fields json \<Rightarrow> wish_fields \<Rightarrow> (core_error + wish) option" where
  "wish_new js f =
     (case to_vec js f of
        None \<Rightarrow> None
      | Some b \<Rightarrow> Some (if length b > WISH_MAX_BYTES then Inl (TextTooLong ''wish'' (length b) WISH_MAX_BYTES)
                       else Inr (Wish f)))"

definition wish_decode :: "wish_fields json \<Rightarrow> bytes \<Rightarrow> wish option option" where
  "wish_decode js b =
     (case from_slice js b of
        None \<Rightarrow> Some None
      | Some f \<Rightarrow> map_option (\<lambda>r. case r of Inr w \<Rightarrow> Some w | Inl _ \<Rightarrow> None) (wish_new js f))"

section \<open>Wishes\<close>

record resolved_wish =
  rw_creator :: member_id
  rw_wished :: wish_fields
  rw_fulfilled_by :: "(member_id, item_id) btmap"

definition made_at :: "member_id \<times> wish \<Rightarrow> u64 \<times> member_id" where
  "made_at = (\<lambda>(member, w).
     ((case wf_created_at (wish_fields_of w) of Some t \<Rightarrow> t | None \<Rightarrow> - 1), member))"

text \<open>\<open>min_by_key\<close>: the first of the least.\<close>

fun min_by_key :: "('a \<Rightarrow> 'k::linorder) \<Rightarrow> 'a list \<Rightarrow> 'a option" where
  "min_by_key key [] = None"
| "min_by_key key (x # xs) =
     (case min_by_key key xs of None \<Rightarrow> Some x
      | Some y \<Rightarrow> if key y < key x then Some y else Some x)"

definition resolve :: "(member_id, wish) btmap \<Rightarrow> resolved_wish option" where
  "resolve es =
     (case min_by_key made_at
             (filter (\<lambda>(_, w). wf_title (wish_fields_of w) \<noteq> None) (bt_entries es)) of
        None \<Rightarrow> None
      | Some (creator, w) \<Rightarrow>
          Some \<lparr>rw_creator = creator, rw_wished = wish_fields_of w,
            rw_fulfilled_by = bt_collect (List.map_filter (\<lambda>(member, w).
              case wf_status (wish_fields_of w) of Fulfilled item \<Rightarrow> Some (member, item) | Open \<Rightarrow> None)
              (bt_entries es))\<rparr>)"

definition is_fulfilled :: "resolved_wish \<Rightarrow> bool" where
  "is_fulfilled r \<longleftrightarrow> bt_entries (rw_fulfilled_by r) \<noteq> []"

section \<open>One spelling\<close>

text \<open>
  What is relied on of the texts: ASCII of one length for each type of identifier, with no slash, and
  each reads back. That others may read as the same identifier is not excluded.
\<close>

definition text_ok :: "'a text_form \<Rightarrow> bool" where
  "text_ok form \<longleftrightarrow>
     (\<forall>x. read_id form (show_id form x) = Some x \<and> CHR ''/'' \<notin> set (show_id form x) \<and>
        list_all (byte_in 0 127) (show_id form x)) \<and>
     (\<forall>x y. length (show_id form x) = length (show_id form y))"

definition texts_ok :: "id_texts \<Rightarrow> bool" where
  "texts_ok tx \<longleftrightarrow> hex_text (tx_hex tx) \<and> text_ok (tx_member tx) \<and> text_ok (tx_bookmark tx) \<and>
     text_ok (tx_wish tx)"

lemma item_text_ok: "hex_text (tx_hex tx) \<Longrightarrow> text_ok (tx_item tx)"
  by (simp add: text_ok_def tx_item_def hex_text_def hex_ok_def)

lemma text_okD:
  assumes "text_ok form"
  shows "read_id form (show_id form x) = Some x" and "CHR ''/'' \<notin> set (show_id form x)"
    and "list_all (byte_in 0 127) (show_id form x)"
  using assms by (simp_all add: text_ok_def)

lemma show_id_eq:
  assumes "text_ok form" and "show_id form x @ s = show_id form y @ s'"
  shows "x = y \<and> s = s'"
proof -
  have "length (show_id form x) = length (show_id form y)"
    using assms(1) by (simp add: text_ok_def)
  then show ?thesis using assms(2) text_okD(1) [OF assms(1)] by (metis append_eq_append_conv option.inject)
qed

lemma texts_okD:
  assumes "texts_ok tx"
  shows "text_ok (tx_item tx)" and "text_ok (tx_member tx)" and "text_ok (tx_bookmark tx)"
    and "text_ok (tx_wish tx)" and "hex_text (tx_hex tx)"
  using assms item_text_ok by (auto simp: texts_ok_def)

lemmas community_words = RATING_def REVIEW_def BOOKMARK_def WISH_def WISH_COMMENT_def PROBE_def

lemma segment_shown [simp]: "text_ok form \<Longrightarrow> segment form (show_id form x # parts) = Some (x, parts)"
  by (simp add: segment_def text_okD)

lemma community_reads_back:
  assumes "texts_ok tx"
  shows "community_parse tx (community_encode tx k) = Some k"
proof -
  note ok = texts_okD [OF assms]
  note shown = ok(1-4) [THEN text_okD(2)] ok(1-4) [THEN text_okD(3)]
  have "list_all (byte_in 0 127) (community_encode tx k)"
    by (cases k) (simp_all add: shown community_words byte_in_def)
  then have "is_utf8 (community_encode tx k)" by (rule ascii_is_utf8)
  then show ?thesis
    by (cases k) (simp_all add: community_parse_def shown ok community_words two_segments_def)
qed

lemma parsed_is_encoded: "community_parse tx key = Some k \<Longrightarrow> key = community_encode tx k"
  by (auto simp: community_parse_def Option.bind_eq_Some_conv split: if_splits)

text \<open>
  A community key is read from one spelling alone, the one it is written in, so a member has one
  entry for each thing they can say and none beside it.
\<close>

theorem community_key_has_one_spelling:
  assumes "texts_ok tx"
  shows "community_parse tx key = Some k \<longleftrightarrow> key = community_encode tx k"
  using parsed_is_encoded community_reads_back [OF assms] by blast

section \<open>No key is the beginning of another\<close>

definition doc_encode :: "id_texts \<Rightarrow> key + community_key \<Rightarrow> string" where
  "doc_encode tx k = (case k of Inl k \<Rightarrow> key_encode (tx_hex tx) k | Inr c \<Rightarrow> community_encode tx c)"

text \<open>Two identifiers one after the other, and what follows.\<close>

lemma shown_pair_eq:
  assumes "text_ok fa" and "text_ok fb"
    and "show_id fa a @ c # show_id fb b @ s = show_id fa a' @ c # show_id fb b' @ s'"
  shows "a = a' \<and> b = b' \<and> s = s'"
proof -
  have "a = a' \<and> c # show_id fb b @ s = c # show_id fb b' @ s'"
    using assms(1,3) by (rule show_id_eq)
  then show ?thesis using show_id_eq [OF assms(2), of b s b' s'] by simp
qed

lemma community_not_a_prefix:
  assumes "texts_ok tx" and "community_encode tx k' = community_encode tx k @ s"
  shows "k' = k \<and> s = []"
proof -
  note ok = texts_okD [OF assms(1)]
  note im = shown_pair_eq [OF ok(1,2), where s = "[]"] and wm = shown_pair_eq [OF ok(4,2), where s = "[]"]
    and mm = shown_pair_eq [OF ok(2,2), where s = "[]"] and ims = shown_pair_eq [OF ok(1,2)]
  show ?thesis
  proof (cases k)
    case (RatingKey i m)
    then show ?thesis using assms(2) im [of _ "CHR ''/''" _ i m s] by (cases k') (auto simp: community_words)
  next
    case (ReviewKey i m)
    then show ?thesis using assms(2) im [of _ "CHR ''/''" _ i m s] by (cases k') (auto simp: community_words)
  next
    case (WishKey w m)
    then show ?thesis using assms(2) wm [of _ "CHR ''/''" _ w m s] by (cases k') (auto simp: community_words)
  next
    case (WishCommentKey w m)
    then show ?thesis using assms(2) wm [of _ "CHR ''/''" _ w m s] by (cases k') (auto simp: community_words)
  next
    case (ProbeFailureKey c m)
    then show ?thesis using assms(2) mm [of _ "CHR ''/''" _ c m s] by (cases k') (auto simp: community_words)
  next
    case (BookmarkKey i m b)
    then show ?thesis
    proof (cases k')
      case (BookmarkKey i' m' b')
      then have "i' = i \<and> m' = m \<and> CHR ''/'' # show_id (tx_bookmark tx) b' @ [] =
          CHR ''/'' # show_id (tx_bookmark tx) b @ s"
        using assms(2) \<open>k = _\<close> by (intro ims) (simp add: community_words)
      then show ?thesis
        using show_id_eq [OF ok(3), of b' "[]" b s] BookmarkKey \<open>k = _\<close> by simp
    qed (use assms(2) in \<open>simp_all add: community_words\<close>)
  qed
qed

lemma doc_not_a_prefix:
  assumes "texts_ok tx" and "doc_encode tx k' = doc_encode tx k @ s"
  shows "k' = k \<and> s = []"
proof (cases k)
  case (Inl a)
  show ?thesis
  proof (cases k')
    case (Inl a')
    then show ?thesis
      using assms(2) key_not_a_prefix [OF texts_okD(5) [OF assms(1)], of a' a s] \<open>k = Inl a\<close>
      by (simp add: doc_encode_def)
  next
    case (Inr c')
    then show ?thesis using assms(2) \<open>k = Inl a\<close>
      by (cases a; cases c') (simp_all add: doc_encode_def community_words ITEMS_def)
  qed
next
  case (Inr c)
  show ?thesis
  proof (cases k')
    case (Inl a')
    then show ?thesis using assms(2) \<open>k = Inr c\<close>
      by (cases a'; cases c) (simp_all add: doc_encode_def community_words ITEMS_def)
  next
    case (Inr c')
    then show ?thesis
      using assms(2) community_not_a_prefix [OF assms(1), of c' c s] \<open>k = Inr c\<close>
      by (simp add: doc_encode_def)
  qed
qed

text \<open>
  No key of the document is the beginning of another, whatever the two are about. Writing or
  deleting a key, which prunes the same author's longer keys beneath it, so removes nothing else.
\<close>

theorem no_key_begins_another:
  assumes "texts_ok tx"
  shows "doc_encode tx k' = doc_encode tx k @ s \<longleftrightarrow> k' = k \<and> s = []"
  using doc_not_a_prefix [OF assms] by auto

section \<open>Whose wish it is\<close>

lemma min_by_key_None [simp]: "min_by_key key xs = None \<longleftrightarrow> xs = []"
  by (cases xs) (auto split: option.splits)

lemma min_by_key_least: "min_by_key key xs = Some x \<Longrightarrow> x \<in> set xs \<and> (\<forall>y \<in> set xs. key x \<le> key y)"
  by (induction xs arbitrary: x) (fastforce split: option.splits if_splits)+

lemma entry_iff: "(k, v) \<in> set (bt_entries m) \<longleftrightarrow> bt_get m k = Some v"
  by (simp add: bt_get.rep_eq)

lemma made_at_member: "made_at (m, v) \<le> made_at (n, w) \<Longrightarrow> made_at (n, w) \<le> made_at (m, v) \<Longrightarrow> m = n"
  by (auto simp: made_at_def less_eq_prod_def)

definition titled :: "wish \<Rightarrow> bool" where
  "titled w \<longleftrightarrow> wf_title (wish_fields_of w) \<noteq> None"

definition fulfilled_with :: "wish \<Rightarrow> item_id option" where
  "fulfilled_with w = (case wf_status (wish_fields_of w) of Fulfilled item \<Rightarrow> Some item | Open \<Rightarrow> None)"

lemma map_of_map_filter:
  assumes "distinct (map fst xs)"
  shows "distinct (map fst (List.map_filter (\<lambda>(k, v). map_option (Pair k) (f v)) xs)) \<and>
    map_of (List.map_filter (\<lambda>(k, v). map_option (Pair k) (f v)) xs) k = Option.bind (map_of xs k) f"
  using assms
proof (induction xs)
  case (Cons x xs)
  have "fst ` set (List.map_filter (\<lambda>(k, v). map_option (Pair k) (f v)) xs) \<subseteq> fst ` set xs"
    by (force simp: List.map_filter_def)
  with Cons show ?case
    by (cases x) (auto simp: List.map_filter_simps map_of_eq_None_iff image_iff split: option.splits)
qed (simp add: List.map_filter_simps)

lemma get_fulfilled:
  fixes es :: "(member_id, wish) btmap"
  shows "bt_get (bt_collect (List.map_filter (\<lambda>(member, w).
     case wf_status (wish_fields_of w) of Fulfilled item \<Rightarrow> Some (member, item) | Open \<Rightarrow> None)
     (bt_entries es))) m = Option.bind (bt_get es m) fulfilled_with"
proof -
  have "(\<lambda>(member :: member_id, w). case wf_status (wish_fields_of w) of Fulfilled item \<Rightarrow> Some (member, item) | Open \<Rightarrow> None) =
      (\<lambda>(member, w). map_option (Pair member) (fulfilled_with w))"
    by (auto simp: fun_eq_iff fulfilled_with_def split: wish_status.splits)
  moreover note filtered = map_of_map_filter [OF bt_entries_distinct [of es], of fulfilled_with m]
  moreover note bt_collect_distinct [OF filtered [THEN conjunct1], of m]
  ultimately show ?thesis by (simp only: bt_get.rep_eq)
qed

text \<open>
  A wish is its creator's, whoever's entry with a title was made earliest, the lower member on a
  tie; an entry that does not say when it was made counts as the latest. It is fulfilled by each
  member whose entry says so, with the item that entry names.
\<close>

theorem wish_is_its_earliest_entry:
  "resolve es = Some r \<longleftrightarrow>
     (\<exists>w. bt_get es (rw_creator r) = Some w \<and> titled w \<and> rw_wished r = wish_fields_of w \<and>
        (\<forall>m v. bt_get es m = Some v \<longrightarrow> titled v \<longrightarrow> made_at (rw_creator r, w) \<le> made_at (m, v))) \<and>
     (\<forall>m. bt_get (rw_fulfilled_by r) m = Option.bind (bt_get es m) fulfilled_with)"
  (is "_ \<longleftrightarrow> ?R")
proof -
  let ?titled = "filter (\<lambda>(_, w). wf_title (wish_fields_of w) \<noteq> None) (bt_entries es)"
  have mem: "(m, v) \<in> set ?titled \<longleftrightarrow> bt_get es m = Some v \<and> titled v" for m v
    by (auto simp: entry_iff titled_def)
  show ?thesis
  proof
    assume "resolve es = Some r"
    then obtain c w where min: "min_by_key made_at ?titled = Some (c, w)"
      and r: "rw_creator r = c" "rw_wished r = wish_fields_of w"
        "\<And>m. bt_get (rw_fulfilled_by r) m = Option.bind (bt_get es m) fulfilled_with"
      by (auto simp: resolve_def get_fulfilled split: option.splits)
    note l = min_by_key_least [OF min]
    then have "bt_get es c = Some w \<and> titled w" using mem by blast
    moreover have "made_at (c, w) \<le> made_at (m, v)" if "bt_get es m = Some v" and "titled v" for m v
      using l mem that by blast
    ultimately show ?R using r by simp
  next
    assume R: ?R
    then obtain w where w: "bt_get es (rw_creator r) = Some w" "titled w" "rw_wished r = wish_fields_of w"
      and least: "\<And>m v. bt_get es m = Some v \<Longrightarrow> titled v \<Longrightarrow> made_at (rw_creator r, w) \<le> made_at (m, v)"
      by blast
    then have "(rw_creator r, w) \<in> set ?titled" using mem by blast
    then have "?titled \<noteq> []" by (metis empty_iff list.set(1))
    then obtain c v where min: "min_by_key made_at ?titled = Some (c, v)"
      by (metis min_by_key_None not_None_eq surj_pair)
    note l = min_by_key_least [OF min]
    have "c = rw_creator r"
      using l least [of c v] w mem made_at_member by blast
    then have "v = w" using l w mem by force
    moreover have "rw_fulfilled_by r = bt_collect (List.map_filter (\<lambda>(member, w).
        case wf_status (wish_fields_of w) of Fulfilled item \<Rightarrow> Some (member, item) | Open \<Rightarrow> None)
        (bt_entries es))"
      by (rule bt_ext) (use R get_fulfilled in simp)
    ultimately show "resolve es = Some r"
      using min w \<open>c = _\<close> by (simp add: resolve_def)
  qed
qed

section \<open>What three members said\<close>

definition hex_form :: "('a \<Rightarrow> 256 word) \<Rightarrow> (256 word \<Rightarrow> 'a) \<Rightarrow> 'a text_form" where
  "hex_form f g = \<lparr>show_id = (\<lambda>x. to_hex bit_hex (f x)), read_id = (\<lambda>s. map_option g (from_hex bit_hex s))\<rparr>"

lemma hex_form_ok: "(\<And>x. g (f x) = x) \<Longrightarrow> text_ok (hex_form f g)"
  using bit_hex_text by (simp add: text_ok_def hex_form_def hex_text_def hex_ok_def)

definition demo_texts :: id_texts where
  "demo_texts =
     \<lparr>tx_hex = bit_hex, tx_member = hex_form member_bytes MemberId,
      tx_bookmark = hex_form (\<lambda>b. ucast (bookmark_bytes b)) (\<lambda>w. BookmarkId (ucast w)),
      tx_wish = hex_form wish_bytes WishId\<rparr>"

lemma demo_texts_ok: "texts_ok demo_texts"
proof -
  have "ucast (ucast w :: 256 word) = w" for w :: "128 word"
    by (rule bit_word_eqI) (simp add: bit_ucast_iff)
  then show ?thesis
    using bit_hex_text by (auto simp: texts_ok_def demo_texts_def intro!: hex_form_ok)
qed

theorem community_key_has_one_spelling_witness:
  "community_parse demo_texts (community_encode demo_texts (RatingKey (ItemId 1) (MemberId 2))) =
     Some (RatingKey (ItemId 1) (MemberId 2)) \<and>
   community_parse demo_texts (''rating'' @ ''/'') \<noteq> Some (RatingKey (ItemId 1) (MemberId 2))"
  using community_key_has_one_spelling [OF demo_texts_ok, of _ "RatingKey (ItemId 1) (MemberId 2)"]
    hex_textD(2) [OF bit_hex_text, of 1]
  by (auto simp: RATING_def)

theorem no_key_begins_another_witness:
  "\<not> (\<exists>s. doc_encode demo_texts (Inr (WishCommentKey (WishId 1) (MemberId 2))) =
     doc_encode demo_texts (Inr (WishKey (WishId 1) (MemberId 2))) @ s) \<and>
   \<not> (\<exists>s. doc_encode demo_texts (Inl (FileKey (ItemId 1) (ContentHash 2))) =
     doc_encode demo_texts (Inl (FieldKey (ItemId 1) Title)) @ s)"
  using no_key_begins_another [OF demo_texts_ok] by simp

definition said_of_wish :: "string option \<Rightarrow> u64 option \<Rightarrow> wish_status \<Rightarrow> wish" where
  "said_of_wish title at st = Wish \<lparr>wf_kind = None, wf_title = title, wf_authors = None,
     wf_description = None, wf_created_at = at, wf_status = st\<rparr>"

definition demo_wish :: "(member_id, wish) btmap" where
  "demo_wish = bt_collect
     [(MemberId 1, said_of_wish (Some ''later'') (Some 20) Open),
      (MemberId 2, said_of_wish (Some ''first'') (Some 10) Open),
      (MemberId 3, said_of_wish None None (Fulfilled (ItemId 7)))]"

theorem wish_is_its_earliest_entry_witness:
  "\<exists>r. resolve demo_wish = Some r \<and> rw_creator r = MemberId 2 \<and>
     (\<exists>w. bt_get demo_wish (MemberId 2) = Some w \<and> titled w \<and> rw_wished r = wish_fields_of w) \<and>
     bt_get (rw_fulfilled_by r) (MemberId 3) = Some (ItemId 7)"
proof -
  obtain r where r: "resolve demo_wish = Some r" "rw_creator r = MemberId 2"
    by (simp add: resolve_def demo_wish_def bt_collect_def bt_insert.rep_eq bt_empty.rep_eq
        less_member_id_def said_of_wish_def made_at_def less_prod_def)
  have "bt_get demo_wish (MemberId 3) = Some (said_of_wish None None (Fulfilled (ItemId 7)))"
    by (simp add: demo_wish_def btmap_simps)
  with r show ?thesis
    using wish_is_its_earliest_entry [of demo_wish r] by (auto simp: fulfilled_with_def said_of_wish_def)
qed

end
