(* ===== verification/Document.thy ===== *)
theory Document
  imports Community Probe_Failures Storage
begin

text \<open>
  The group's document as the catalogue reads and writes it, \<open>crates/distlib-sync/src/catalogue.rs\<close>.
  The document itself is iroh-docs', its values are blobs of iroh-blobs: here they are what they
  answer when asked, which may be that the question failed or that an entry of the answer could not
  be read. What is written is the list of calls made.
\<close>

section \<open>What the document answers\<close>

datatype sync_error =
    NoGroupYet
  | Docs string
  | ContentFailed string
  | MissingContent content_hash
  | BaseFetch member_id
  | BaseTooBig member_id u64
  | BadBase member_id core_error

record doc_entry =
  de_key :: string
  de_author :: "256 word"
  de_timestamp :: u64
  de_hash :: content_hash
  de_len :: nat

text \<open>\<open>None\<close> if the question failed, and in the place of an entry that could not be read.\<close>

type_synonym doc_answer = "doc_entry option list option"

text \<open>
  \<open>dc_latest\<close> is \<open>single_latest_per_key().key_prefix(..)\<close>, \<open>dc_all\<close> is \<open>all().key_prefix(..)\<close>, one
  entry for each key and author, and \<open>dc_one\<close> the latest at exactly one key.
\<close>

record document =
  dc_open :: bool
  dc_latest :: "string \<Rightarrow> doc_answer"
  dc_all :: "string \<Rightarrow> doc_answer"
  dc_one :: "string \<Rightarrow> doc_entry option option"
  dc_status :: "content_hash \<Rightarrow> blob_status option"
  dc_bytes :: "content_hash \<Rightarrow> bytes option"

text \<open>The \<open>?\<close> of a method that changes nothing.\<close>

definition try_then :: "'e + 'a \<Rightarrow> ('a \<Rightarrow> 'e + 'b) \<Rightarrow> 'e + 'b" where
  "try_then r f = (case r of Inl e \<Rightarrow> Inl e | Inr x \<Rightarrow> f x)"

fun on_stream :: "(doc_entry \<Rightarrow> 's \<Rightarrow> sync_error + 's) \<Rightarrow> doc_entry option list \<Rightarrow> 's \<Rightarrow> sync_error + 's" where
  "on_stream f [] s = Inr s"
| "on_stream f (None # es) s = Inl (Docs ''read from'')"
| "on_stream f (Some e # es) s = try_then (f e s) (on_stream f es)"

definition over_answer ::
    "document \<Rightarrow> doc_answer \<Rightarrow> (doc_entry \<Rightarrow> 's \<Rightarrow> sync_error + 's) \<Rightarrow> 's \<Rightarrow> sync_error + 's" where
  "over_answer d answer f s =
     (if \<not> dc_open d then Inl NoGroupYet
      else case answer of None \<Rightarrow> Inl (Docs ''read from'') | Some es \<Rightarrow> on_stream f es s)"

section \<open>Values of entries\<close>

fun is_complete :: "blob_status \<Rightarrow> bool" where
  "is_complete (Complete n) = True"
| "is_complete _ = False"

definition entry_content :: "document \<Rightarrow> doc_entry \<Rightarrow> sync_error + bytes option" where
  "entry_content d e =
     (case dc_status d (de_hash e) of
        None \<Rightarrow> Inl (ContentFailed ''asked whether an entry's content is here'')
      | Some st \<Rightarrow>
          if \<not> is_complete st then Inr None
          else case dc_bytes d (de_hash e) of
                 None \<Rightarrow> Inl (ContentFailed ''reading an entry's content'')
               | Some b \<Rightarrow> Inr (Some b))"

definition doc_get :: "document \<Rightarrow> string \<Rightarrow> sync_error + bytes option" where
  "doc_get d key =
     (if \<not> dc_open d then Inl NoGroupYet
      else case dc_one d key of
             None \<Rightarrow> Inl (Docs ''read from'')
           | Some None \<Rightarrow> Inr None
           | Some (Some e) \<Rightarrow>
               try_then (entry_content d e) (\<lambda>content.
                 case content of None \<Rightarrow> Inl (MissingContent (de_hash e)) | Some b \<Rightarrow> Inr (Some b)))"

section \<open>Community entries\<close>

record community_json =
  cj_rating :: "u8 json"
  cj_text :: "string json"
  cj_bookmark :: "(string \<times> string \<times> u64) json"
  cj_wish :: "wish_fields json"
  cj_probe :: "probe_failure json"

record 'v community_entry =
  ce_key :: community_key
  ce_value :: 'v
  ce_written :: u64

record 'v community_entries =
  cs_entries :: "'v community_entry list"
  cs_waiting :: bool

text \<open>One turn of the loop: an entry counts only if its author is the member its key names.\<close>

definition count_entry ::
    "id_texts \<Rightarrow> document \<Rightarrow> (bytes \<Rightarrow> 'v option) \<Rightarrow> doc_entry \<Rightarrow> 'v community_entries
      \<Rightarrow> sync_error + 'v community_entries" where
  "count_entry tx d decode e s =
     (case community_parse tx (de_key e) of
        None \<Rightarrow> Inr s
      | Some k \<Rightarrow>
          if de_author e \<noteq> member_bytes (key_member k) then Inr s
          else try_then (entry_content d e) (\<lambda>content.
            case content of
              None \<Rightarrow> Inr (s\<lparr>cs_waiting := True\<rparr>)
            | Some b \<Rightarrow>
                (case decode b of
                   None \<Rightarrow> Inr s
                 | Some v \<Rightarrow> Inr (s\<lparr>cs_entries := cs_entries s @
                     [\<lparr>ce_key = k, ce_value = v, ce_written = de_timestamp e\<rparr>]\<rparr>))))"

definition read_community_entries ::
    "id_texts \<Rightarrow> document \<Rightarrow> string \<Rightarrow> (bytes \<Rightarrow> 'v option) \<Rightarrow> sync_error + 'v community_entries" where
  "read_community_entries tx d prefix decode =
     over_answer d (dc_all d prefix) (count_entry tx d decode) \<lparr>cs_entries = [], cs_waiting = False\<rparr>"

definition values_by_member :: "'v community_entry list \<Rightarrow> (member_id, 'v) btmap" where
  "values_by_member es = bt_collect (map (\<lambda>e. (key_member (ce_key e), ce_value e)) es)"

definition rating_decode :: "community_json \<Rightarrow> bytes \<Rightarrow> rating option" where
  "rating_decode cj = decode_by (cj_rating cj) rating_try_from"

definition review_decode :: "community_json \<Rightarrow> bytes \<Rightarrow> review option" where
  "review_decode cj = decode_by (cj_text cj) review_try_from"

definition comment_decode :: "community_json \<Rightarrow> bytes \<Rightarrow> comment option" where
  "comment_decode cj = decode_by (cj_text cj) comment_try_from"

definition bookmark_decode :: "community_json \<Rightarrow> bytes \<Rightarrow> bookmark option" where
  "bookmark_decode cj = decode_by (cj_bookmark cj) bookmark_try_from"

text \<open>A wish that was just read encodes again, so the panic of \<open>wish_decode\<close> is not told apart here.\<close>

definition read_wish_value :: "community_json \<Rightarrow> bytes \<Rightarrow> wish option" where
  "read_wish_value cj b = Option.bind (wish_decode (cj_wish cj) b) (\<lambda>r. r)"

definition doc_ratings ::
    "id_texts \<Rightarrow> community_json \<Rightarrow> document \<Rightarrow> item_id \<Rightarrow> sync_error + (member_id, rating) btmap" where
  "doc_ratings tx cj d item =
     try_then (read_community_entries tx d (ratings_of tx item) (rating_decode cj))
       (\<lambda>r. Inr (values_by_member (cs_entries r)))"

definition doc_reviews ::
    "id_texts \<Rightarrow> community_json \<Rightarrow> document \<Rightarrow> item_id \<Rightarrow> sync_error + (member_id, review) btmap" where
  "doc_reviews tx cj d item =
     try_then (read_community_entries tx d (reviews_of tx item) (review_decode cj))
       (\<lambda>r. Inr (values_by_member (cs_entries r)))"

definition doc_wishes ::
    "id_texts \<Rightarrow> community_json \<Rightarrow> document \<Rightarrow> wish_id \<Rightarrow> sync_error + (member_id, wish) btmap" where
  "doc_wishes tx cj d wish =
     try_then (read_community_entries tx d (wish_entries_of tx wish) (read_wish_value cj))
       (\<lambda>r. Inr (values_by_member (cs_entries r)))"

definition doc_wish_comments ::
    "id_texts \<Rightarrow> community_json \<Rightarrow> document \<Rightarrow> wish_id \<Rightarrow> sync_error + (member_id, comment) btmap" where
  "doc_wish_comments tx cj d wish =
     try_then (read_community_entries tx d (comments_on tx wish) (comment_decode cj))
       (\<lambda>r. Inr (values_by_member (cs_entries r)))"

definition doc_probe_failures ::
    "id_texts \<Rightarrow> community_json \<Rightarrow> document \<Rightarrow> sync_error + recorded_failure list" where
  "doc_probe_failures tx cj d =
     try_then (read_community_entries tx d all_probe_failures (from_slice (cj_probe cj))) (\<lambda>r.
       Inr (List.map_filter (\<lambda>e. case ce_key e of
            ProbeFailureKey custodian prober \<Rightarrow>
              Some \<lparr>rf_custodian = custodian, rf_prober = prober, rf_failure = ce_value e,
                rf_written = ce_written e\<rparr>
          | _ \<Rightarrow> None) (cs_entries r)))"

record read_bookmark =
  rb_member :: member_id
  rb_id :: bookmark_id
  rb_bookmark :: bookmark
  rb_last_modified :: u64

record item_bookmarks =
  ib_bookmarks :: "read_bookmark list"
  ib_waiting :: bool

definition read_bookmarks ::
    "id_texts \<Rightarrow> community_json \<Rightarrow> document \<Rightarrow> item_id \<Rightarrow> sync_error + item_bookmarks" where
  "read_bookmarks tx cj d item =
     try_then (read_community_entries tx d (bookmarks_of tx item) (bookmark_decode cj)) (\<lambda>r.
       Inr \<lparr>ib_bookmarks = sort_key (\<lambda>b. (rb_member b, rb_id b))
              (List.map_filter (\<lambda>e. case ce_key e of
                   BookmarkKey _ member bookmark \<Rightarrow>
                     Some \<lparr>rb_member = member, rb_id = bookmark, rb_bookmark = ce_value e,
                       rb_last_modified = ce_written e\<rparr>
                 | _ \<Rightarrow> None) (cs_entries r)),
            ib_waiting = cs_waiting r\<rparr>)"

record read_wish =
  rd_entries :: "(member_id, wish) btmap"
  rd_comments :: "(member_id, comment) btmap"
  rd_waiting :: bool

definition read_wish_of ::
    "id_texts \<Rightarrow> community_json \<Rightarrow> document \<Rightarrow> wish_id \<Rightarrow> sync_error + read_wish" where
  "read_wish_of tx cj d wish =
     try_then (read_community_entries tx d (wish_entries_of tx wish) (read_wish_value cj)) (\<lambda>es.
     try_then (read_community_entries tx d (comments_on tx wish) (comment_decode cj)) (\<lambda>cs.
       Inr \<lparr>rd_entries = values_by_member (cs_entries es), rd_comments = values_by_member (cs_entries cs),
            rd_waiting = (cs_waiting es \<or> cs_waiting cs)\<rparr>))"

section \<open>Items\<close>

record read_item =
  ri_item :: item
  ri_ratings :: "(member_id, rating) btmap"
  ri_reviews :: "(member_id, review) btmap"
  ri_file_authors :: "(content_hash, member_id btset) btmap"
  ri_last_modified :: u64
  ri_waiting :: bool

record item_so_far =
  sf_item :: item
  sf_last_modified :: u64
  sf_waiting :: bool
  sf_found :: bool

definition fold_entry ::
    "id_texts \<Rightarrow> item_json \<Rightarrow> document \<Rightarrow> doc_entry \<Rightarrow> item_so_far \<Rightarrow> sync_error + item_so_far" where
  "fold_entry tx js d e s =
     (let s1 = s\<lparr>sf_found := True, sf_last_modified := max (sf_last_modified s) (de_timestamp e)\<rparr>
      in try_then (entry_content d e) (\<lambda>content.
           case content of
             None \<Rightarrow> Inr (s1\<lparr>sf_waiting := True\<rparr>)
           | Some b \<Rightarrow> Inr (s1\<lparr>sf_item := snd (absorb (tx_hex tx) js (de_key e) b (sf_item s1))\<rparr>)))"

definition note_author ::
    "id_texts \<Rightarrow> (256 word \<Rightarrow> bool) \<Rightarrow> doc_entry \<Rightarrow> (content_hash, member_id btset) btmap
      \<Rightarrow> sync_error + (content_hash, member_id btset) btmap" where
  "note_author tx on_curve e authors =
     (case key_parse (tx_hex tx) (de_key e) of
        Some (FileKey _ blob) \<Rightarrow>
          Inr (if on_curve (de_author e)
               then bt_insert blob (bts_insert (MemberId (de_author e))
                      (case bt_get authors blob of None \<Rightarrow> bt_empty | Some s \<Rightarrow> s)) authors
               else authors)
      | _ \<Rightarrow> Inr authors)"

definition read_file_authors ::
    "id_texts \<Rightarrow> (256 word \<Rightarrow> bool) \<Rightarrow> document \<Rightarrow> item_id
      \<Rightarrow> sync_error + (content_hash, member_id btset) btmap" where
  "read_file_authors tx on_curve d i =
     over_answer d (dc_all d (prefix_of (tx_hex tx) i)) (note_author tx on_curve) bt_empty"

record codecs =
  co_texts :: id_texts
  co_item :: item_json
  co_community :: community_json
  co_on_curve :: "256 word \<Rightarrow> bool"

definition read_item_of :: "codecs \<Rightarrow> document \<Rightarrow> item_id \<Rightarrow> sync_error + read_item option" where
  "read_item_of co d i =
     try_then (over_answer d (dc_latest d (prefix_of (tx_hex (co_texts co)) i))
        (fold_entry (co_texts co) (co_item co) d)
        \<lparr>sf_item = item_new i, sf_last_modified = 0, sf_waiting = False, sf_found = False\<rparr>) (\<lambda>s.
     if \<not> sf_found s then Inr None
     else
       try_then (read_community_entries (co_texts co) d (ratings_of (co_texts co) i)
         (rating_decode (co_community co))) (\<lambda>ratings.
       try_then (read_community_entries (co_texts co) d (reviews_of (co_texts co) i)
         (review_decode (co_community co))) (\<lambda>reviews.
       try_then (read_file_authors (co_texts co) (co_on_curve co) d i) (\<lambda>authors.
         Inr (Some \<lparr>ri_item = sf_item s, ri_ratings = values_by_member (cs_entries ratings),
           ri_reviews = values_by_member (cs_entries reviews), ri_file_authors = authors,
           ri_last_modified = sf_last_modified s,
           ri_waiting = (sf_waiting s \<or> cs_waiting ratings \<or> cs_waiting reviews)\<rparr>)))))"

definition item_of :: "codecs \<Rightarrow> document \<Rightarrow> item_id \<Rightarrow> sync_error + item option" where
  "item_of co d i = try_then (read_item_of co d i) (\<lambda>r. Inr (map_option ri_item r))"

section \<open>Which items and wishes there are\<close>

definition items_in :: "hex_codec \<Rightarrow> string list \<Rightarrow> item_id btset" where
  "items_in hx keys = bts_of (map key_item (List.map_filter (key_parse hx) keys))"

definition item_ids :: "id_texts \<Rightarrow> document \<Rightarrow> sync_error + item_id btset" where
  "item_ids tx d =
     try_then (over_answer d (dc_latest d all_items) (\<lambda>e keys. Inr (keys @ [de_key e])) [])
       (\<lambda>keys. Inr (items_in (tx_hex tx) keys))"

definition wish_ids :: "id_texts \<Rightarrow> document \<Rightarrow> sync_error + wish_id btset" where
  "wish_ids tx d =
     over_answer d (dc_latest d all_wish_entries)
       (\<lambda>e ws. case community_parse tx (de_key e) of
            Some (WishKey w _) \<Rightarrow> Inr (bts_insert w ws) | _ \<Rightarrow> Inr ws) bt_empty"

definition bookmarked_item_ids :: "id_texts \<Rightarrow> document \<Rightarrow> sync_error + item_id btset" where
  "bookmarked_item_ids tx d =
     over_answer d (dc_latest d all_bookmarks)
       (\<lambda>e is. case community_parse tx (de_key e) of
            Some (BookmarkKey i _ _) \<Rightarrow> Inr (bts_insert i is) | _ \<Rightarrow> Inr is) bt_empty"

section \<open>Writing\<close>

datatype doc_write = SetBytes string bytes | Del string

text \<open>The calls made so far, and which keys iroh-docs fails at.\<close>

definition doc_put ::
    "(string \<Rightarrow> bool) \<Rightarrow> document \<Rightarrow> string \<Rightarrow> bytes \<Rightarrow> doc_write list \<Rightarrow> (sync_error, doc_write list) outcome" where
  "doc_put fails d key value ws =
     (if \<not> dc_open d then refused NoGroupYet ws
      else if fails key then refused (Docs ''written to'') ws
      else done_with (ws @ [SetBytes key value]))"

definition doc_delete ::
    "(string \<Rightarrow> bool) \<Rightarrow> document \<Rightarrow> string \<Rightarrow> doc_write list \<Rightarrow> (sync_error, doc_write list) outcome" where
  "doc_delete fails d key ws =
     (if \<not> dc_open d then refused NoGroupYet ws
      else if fails key then refused (Docs ''deleted from'') ws
      else done_with (ws @ [Del key]))"

fun put_all ::
    "(string \<Rightarrow> bool) \<Rightarrow> document \<Rightarrow> (string \<times> bytes) list \<Rightarrow> doc_write list
      \<Rightarrow> (sync_error, doc_write list) outcome" where
  "put_all fails d [] ws = done_with ws"
| "put_all fails d ((key, value) # es) ws = and_then (doc_put fails d key value ws) (put_all fails d es)"

definition write_item ::
    "(string \<Rightarrow> bool) \<Rightarrow> codecs \<Rightarrow> document \<Rightarrow> item \<Rightarrow> doc_write list \<Rightarrow> (sync_error, doc_write list) outcome" where
  "write_item fails co d it = put_all fails d (item_entries (tx_hex (co_texts co)) (co_item co) it)"

text \<open>What a member says. \<open>None\<close> is the panic of a value that does not encode.\<close>

definition say_value ::
    "(string \<Rightarrow> bool) \<Rightarrow> codecs \<Rightarrow> document \<Rightarrow> community_key \<Rightarrow> bytes option \<Rightarrow> doc_write list
      \<Rightarrow> (sync_error, doc_write list) outcome option" where
  "say_value fails co d k value ws =
     map_option (\<lambda>b. doc_put fails d (community_encode (co_texts co) k) b ws) value"

definition rate ::
    "(string \<Rightarrow> bool) \<Rightarrow> codecs \<Rightarrow> document \<Rightarrow> member_id \<Rightarrow> item_id \<Rightarrow> rating \<Rightarrow> doc_write list
      \<Rightarrow> (sync_error, doc_write list) outcome option" where
  "rate fails co d me i r =
     say_value fails co d (RatingKey i me) (to_vec (cj_rating (co_community co)) (rating_get r))"

definition review_item ::
    "(string \<Rightarrow> bool) \<Rightarrow> codecs \<Rightarrow> document \<Rightarrow> member_id \<Rightarrow> item_id \<Rightarrow> review \<Rightarrow> doc_write list
      \<Rightarrow> (sync_error, doc_write list) outcome option" where
  "review_item fails co d me i r =
     say_value fails co d (ReviewKey i me) (to_vec (cj_text (co_community co)) (review_text r))"

definition bookmark_item ::
    "(string \<Rightarrow> bool) \<Rightarrow> codecs \<Rightarrow> document \<Rightarrow> member_id \<Rightarrow> item_id \<Rightarrow> bookmark_id \<Rightarrow> bookmark \<Rightarrow> doc_write list
      \<Rightarrow> (sync_error, doc_write list) outcome option" where
  "bookmark_item fails co d me i b m =
     say_value fails co d (BookmarkKey i me b)
       (to_vec (cj_bookmark (co_community co)) (bm_position m, bm_note m, bm_created_at m))"

definition write_wish ::
    "(string \<Rightarrow> bool) \<Rightarrow> codecs \<Rightarrow> document \<Rightarrow> member_id \<Rightarrow> wish_id \<Rightarrow> wish \<Rightarrow> doc_write list
      \<Rightarrow> (sync_error, doc_write list) outcome option" where
  "write_wish fails co d me w v =
     say_value fails co d (WishKey w me) (to_vec (cj_wish (co_community co)) (wish_fields_of v))"

definition wish_comment ::
    "(string \<Rightarrow> bool) \<Rightarrow> codecs \<Rightarrow> document \<Rightarrow> member_id \<Rightarrow> wish_id \<Rightarrow> comment \<Rightarrow> doc_write list
      \<Rightarrow> (sync_error, doc_write list) outcome option" where
  "wish_comment fails co d me w c =
     say_value fails co d (WishCommentKey w me) (to_vec (cj_text (co_community co)) (comment_text c))"

definition record_probe_failure ::
    "(string \<Rightarrow> bool) \<Rightarrow> codecs \<Rightarrow> document \<Rightarrow> member_id \<Rightarrow> member_id \<Rightarrow> probe_failure \<Rightarrow> doc_write list
      \<Rightarrow> (sync_error, doc_write list) outcome option" where
  "record_probe_failure fails co d me custodian f =
     say_value fails co d (ProbeFailureKey custodian me) (to_vec (cj_probe (co_community co)) f)"

definition clear_rating where
  "clear_rating fails co d me i = doc_delete fails d (community_encode (co_texts co) (RatingKey i me))"

definition clear_review where
  "clear_review fails co d me i = doc_delete fails d (community_encode (co_texts co) (ReviewKey i me))"

definition delete_bookmark where
  "delete_bookmark fails co d me i b =
     doc_delete fails d (community_encode (co_texts co) (BookmarkKey i me b))"

definition clear_wish_comment where
  "clear_wish_comment fails co d me w =
     doc_delete fails d (community_encode (co_texts co) (WishCommentKey w me))"

definition clear_probe_failure where
  "clear_probe_failure fails co d me custodian =
     doc_delete fails d (community_encode (co_texts co) (ProbeFailureKey custodian me))"

section \<open>Only its author counts\<close>

lemma try_then_simps [simp]: "try_then (Inl e) f = Inl e" "try_then (Inr x) f = f x"
  by (simp_all add: try_then_def)

lemma try_then_Inr: "try_then r f = Inr y \<longleftrightarrow> (\<exists>x. r = Inr x \<and> f x = Inr y)"
  by (cases r) auto

lemma over_answer_Inr:
  "over_answer d answer f s = Inr r \<longleftrightarrow> dc_open d \<and> (\<exists>es. answer = Some es \<and> on_stream f es s = Inr r)"
  by (auto simp: over_answer_def split: option.splits)

text \<open>Whether an entry was written by the member its key names.\<close>

definition by_its_member :: "id_texts \<Rightarrow> doc_entry \<Rightarrow> bool" where
  "by_its_member tx e \<longleftrightarrow>
     (\<exists>k. community_parse tx (de_key e) = Some k \<and> de_author e = member_bytes (key_member k))"

definition without_forged :: "id_texts \<Rightarrow> document \<Rightarrow> document" where
  "without_forged tx d =
     d\<lparr>dc_all := \<lambda>p. map_option (filter (\<lambda>e. case e of None \<Rightarrow> True | Some e \<Rightarrow> by_its_member tx e)) (dc_all d p)\<rparr>"

lemma count_entry_forged: "\<not> by_its_member tx e \<Longrightarrow> count_entry tx d decode e s = Inr s"
  by (auto simp: count_entry_def by_its_member_def split: option.splits)

lemma entry_content_cong:
  "dc_status d' = dc_status d \<Longrightarrow> dc_bytes d' = dc_bytes d \<Longrightarrow> entry_content d' e = entry_content d e"
  unfolding entry_content_def by (simp only:)

lemma count_entry_cong:
  assumes "dc_status d' = dc_status d" and "dc_bytes d' = dc_bytes d"
  shows "count_entry tx d' decode = count_entry tx d decode"
proof -
  have "entry_content d' = entry_content d" using entry_content_cong [OF assms] by (rule ext)
  then show ?thesis unfolding count_entry_def fun_eq_iff by (simp only:) simp
qed

lemma on_stream_without_forged:
  "on_stream (count_entry tx d decode)
     (filter (\<lambda>e. case e of None \<Rightarrow> True | Some e \<Rightarrow> by_its_member tx e) es) s =
   on_stream (count_entry tx d decode) es s"
proof (induction es arbitrary: s)
  case (Cons e es)
  then show ?case
    by (cases e) (auto simp: count_entry_forged try_then_def split: sum.splits)
qed simp

text \<open>Where what a stream of entries leaves came from.\<close>

definition came_from :: "id_texts \<Rightarrow> document \<Rightarrow> (bytes \<Rightarrow> 'v option) \<Rightarrow> doc_entry \<Rightarrow> 'v community_entry \<Rightarrow> bool" where
  "came_from tx d decode e c \<longleftrightarrow>
     community_parse tx (de_key e) = Some (ce_key c) \<and> de_author e = member_bytes (key_member (ce_key c)) \<and>
     de_timestamp e = ce_written c \<and>
     (\<exists>b. entry_content d e = Inr (Some b) \<and> decode b = Some (ce_value c))"

lemma count_entry_adds:
  assumes "count_entry tx d decode e s = Inr r"
  shows "(\<exists>c. cs_entries r = cs_entries s @ [c] \<and> came_from tx d decode e c) \<or> cs_entries r = cs_entries s"
proof (cases "community_parse tx (de_key e)")
  case (Some k)
  show ?thesis
  proof (cases "de_author e = member_bytes (key_member k)")
    case True
    with Some assms obtain x where x: "entry_content d e = Inr x"
      by (cases "entry_content d e") (simp_all add: count_entry_def)
    show ?thesis
    proof (cases "Option.bind x decode")
      case None
      then show ?thesis
        using assms Some True by (cases x) (auto simp: count_entry_def x)
    next
      case (Some v)
      then obtain b where "x = Some b" "decode b = Some v" by (cases x) auto
      then show ?thesis
        using assms \<open>community_parse tx (de_key e) = Some k\<close> True
        by (auto simp: count_entry_def x came_from_def)
    qed
  qed (use assms Some in \<open>simp add: count_entry_def\<close>)
qed (use assms in \<open>simp add: count_entry_def\<close>)

lemma on_stream_came_from:
  assumes "on_stream (count_entry tx d decode) es s = Inr r" and "c \<in> set (cs_entries r)"
  shows "c \<in> set (cs_entries s) \<or> (\<exists>e. Some e \<in> set es \<and> came_from tx d decode e c)"
  using assms
proof (induction es arbitrary: s)
  case (Cons e es)
  then obtain x where e: "e = Some x" by (cases e) auto
  with Cons.prems obtain s' where s': "count_entry tx d decode x s = Inr s'"
    "on_stream (count_entry tx d decode) es s' = Inr r"
    by (auto simp: try_then_Inr)
  from Cons.IH [OF s'(2) Cons.prems(2)] count_entry_adds [OF s'(1)]
  show ?case by (auto simp: e)
qed simp

text \<open>
  C21. What a member is read to have said is what that member wrote: taking every entry out of the
  document that is not by the member its key names changes nothing of what is read, and each value
  counted is the readable value of an entry at its own key by its own member.
\<close>

theorem only_its_author_counts:
  assumes "texts_ok tx"
  shows "read_community_entries tx d p decode = read_community_entries tx (without_forged tx d) p decode \<and>
    (\<forall>r es c. read_community_entries tx d p decode = Inr r \<longrightarrow> dc_all d p = Some es \<longrightarrow> c \<in> set (cs_entries r) \<longrightarrow>
      (\<exists>e. Some e \<in> set es \<and> de_key e = community_encode tx (ce_key c) \<and>
         de_author e = member_bytes (key_member (ce_key c)) \<and> de_timestamp e = ce_written c \<and>
         (\<exists>b. entry_content d e = Inr (Some b) \<and> decode b = Some (ce_value c))))"
proof -
  have "count_entry tx (without_forged tx d) decode = count_entry tx d decode"
    by (rule count_entry_cong) (simp_all add: without_forged_def)
  then have "read_community_entries tx d p decode = read_community_entries tx (without_forged tx d) p decode"
    by (cases "dc_all d p")
      (simp_all add: read_community_entries_def over_answer_def without_forged_def on_stream_without_forged)
  moreover have "\<exists>e. Some e \<in> set es \<and> de_key e = community_encode tx (ce_key c) \<and>
         de_author e = member_bytes (key_member (ce_key c)) \<and> de_timestamp e = ce_written c \<and>
         (\<exists>b. entry_content d e = Inr (Some b) \<and> decode b = Some (ce_value c))"
    if "read_community_entries tx d p decode = Inr r" and "dc_all d p = Some es" and "c \<in> set (cs_entries r)"
    for r es c
  proof -
    have "on_stream (count_entry tx d decode) es \<lparr>cs_entries = [], cs_waiting = False\<rparr> = Inr r"
      using that(1,2) by (simp add: read_community_entries_def over_answer_Inr)
    from on_stream_came_from [OF this that(3)] obtain e
      where "Some e \<in> set es" "came_from tx d decode e c" by auto
    moreover from this(2) have "de_key e = community_encode tx (ce_key c)"
      using parsed_is_encoded by (auto simp: came_from_def)
    ultimately show ?thesis by (auto simp: came_from_def)
  qed
  ultimately show ?thesis by blast
qed

section \<open>What is read is of its type\<close>

text \<open>The limits that the constructors of the values members write keep.\<close>

definition rating_ok :: "rating \<Rightarrow> bool" where
  "rating_ok r \<longleftrightarrow> 1 \<le> rating_get r \<and> rating_get r \<le> 5"

definition review_ok :: "review \<Rightarrow> bool" where
  "review_ok r \<longleftrightarrow> length (review_text r) \<le> REVIEW_MAX_BYTES"

definition comment_ok :: "comment \<Rightarrow> bool" where
  "comment_ok c \<longleftrightarrow> length (comment_text c) \<le> COMMENT_MAX_BYTES"

definition bookmark_ok :: "bookmark \<Rightarrow> bool" where
  "bookmark_ok b \<longleftrightarrow> length (bm_position b) \<le> POSITION_MAX_BYTES \<and> length (bm_note b) \<le> NOTE_MAX_BYTES"

definition wish_ok :: "community_json \<Rightarrow> wish \<Rightarrow> bool" where
  "wish_ok cj w \<longleftrightarrow> (\<exists>b. to_vec (cj_wish cj) (wish_fields_of w) = Some b \<and> length b \<le> WISH_MAX_BYTES)"

lemma decodes_ok:
  "rating_decode cj b = Some r \<Longrightarrow> rating_ok r"
  "review_decode cj b = Some v \<Longrightarrow> review_ok v"
  "comment_decode cj b = Some c \<Longrightarrow> comment_ok c"
  "bookmark_decode cj b = Some m \<Longrightarrow> bookmark_ok m"
  "read_wish_value cj b = Some w \<Longrightarrow> wish_ok cj w"
  by (auto simp: rating_decode_def review_decode_def comment_decode_def bookmark_decode_def read_wish_value_def
      decode_by_def rating_try_from_def review_try_from_def comment_try_from_def bookmark_try_from_def bookmark_new_def
      wish_decode_def wish_new_def capped_def rating_ok_def review_ok_def comment_ok_def bookmark_ok_def wish_ok_def
      Option.bind_eq_Some_conv split: if_splits option.splits)

lemma read_entries_decoded:
  assumes "read_community_entries tx d p decode = Inr r" and "c \<in> set (cs_entries r)"
  shows "\<exists>b. decode b = Some (ce_value c)"
  using assms on_stream_came_from [of tx d decode _ "\<lparr>cs_entries = [], cs_waiting = False\<rparr>" r c]
  by (auto simp: read_community_entries_def over_answer_Inr came_from_def)

lemma read_values_decoded:
  assumes "read_community_entries tx d p decode = Inr r" and "bt_get (values_by_member (cs_entries r)) m = Some v"
  shows "\<exists>b. decode b = Some v"
  using assms read_entries_decoded [OF assms(1)]
  by (auto simp: values_by_member_def bt_get_collect dest!: map_of_SomeD)

text \<open>
  C22. Whatever members, or programs of theirs, wrote into the document, what is read of it is of its type: a
  rating is from one to five, and a review, a comment, a bookmark and a wish keep their limits.
\<close>

theorem what_is_read_keeps_its_limits:
  "(\<forall>r m v. read_item_of co d i = Inr (Some r) \<longrightarrow> bt_get (ri_ratings r) m = Some v \<longrightarrow> rating_ok v) \<and>
   (\<forall>r m v. read_item_of co d i = Inr (Some r) \<longrightarrow> bt_get (ri_reviews r) m = Some v \<longrightarrow> review_ok v) \<and>
   (\<forall>r b. read_bookmarks (co_texts co) (co_community co) d i = Inr r \<longrightarrow> b \<in> set (ib_bookmarks r) \<longrightarrow>
      bookmark_ok (rb_bookmark b)) \<and>
   (\<forall>r m w. read_wish_of (co_texts co) (co_community co) d wid = Inr r \<longrightarrow> bt_get (rd_entries r) m = Some w \<longrightarrow>
      wish_ok (co_community co) w) \<and>
   (\<forall>r m c. read_wish_of (co_texts co) (co_community co) d wid = Inr r \<longrightarrow> bt_get (rd_comments r) m = Some c \<longrightarrow>
      comment_ok c)"
proof (intro conjI allI impI)
  fix r m v
  assume "read_item_of co d i = Inr (Some r)" "bt_get (ri_ratings r) m = Some v"
  then show "rating_ok v"
    by (auto simp: read_item_of_def try_then_Inr dest: read_values_decoded intro: decodes_ok(1) split: if_splits)
next
  fix r m v
  assume "read_item_of co d i = Inr (Some r)" "bt_get (ri_reviews r) m = Some v"
  then show "review_ok v"
    by (auto simp: read_item_of_def try_then_Inr dest: read_values_decoded intro: decodes_ok(2) split: if_splits)
next
  fix r b
  assume "read_bookmarks (co_texts co) (co_community co) d i = Inr r" "b \<in> set (ib_bookmarks r)"
  then obtain es e where "read_community_entries (co_texts co) d (bookmarks_of (co_texts co) i)
      (bookmark_decode (co_community co)) = Inr es" "e \<in> set (cs_entries es)" "rb_bookmark b = ce_value e"
    by (auto simp: read_bookmarks_def try_then_Inr List.map_filter_def split: community_key.splits)
  then show "bookmark_ok (rb_bookmark b)"
    using read_entries_decoded decodes_ok(4) by metis
next
  fix r m w
  assume "read_wish_of (co_texts co) (co_community co) d wid = Inr r" "bt_get (rd_entries r) m = Some w"
  then show "wish_ok (co_community co) w"
    by (auto simp: read_wish_of_def try_then_Inr dest: read_values_decoded intro: decodes_ok(5))
next
  fix r m c
  assume "read_wish_of (co_texts co) (co_community co) d wid = Inr r" "bt_get (rd_comments r) m = Some c"
  then show "comment_ok c"
    by (auto simp: read_wish_of_def try_then_Inr dest: read_values_decoded intro: decodes_ok(3))
qed

section \<open>A forged rating\<close>

text \<open>Member 2 rated item 1; member 3 wrote another rating under member 2's key, later.\<close>

definition number_json :: "u8 json" where
  "number_json = \<lparr>to_vec = (\<lambda>n. Some [n]), from_slice = (\<lambda>b. case b of [n] \<Rightarrow> Some n | _ \<Rightarrow> None)\<rparr>"

definition demo_community_json :: community_json where
  "demo_community_json = \<lparr>cj_rating = number_json, cj_text = counted_json (\<lambda>s. s) (\<lambda>s. s),
     cj_bookmark = counted_json (\<lambda>(p, n, c). (p, n, unat c)) (\<lambda>(p, n, c). (p, n, of_nat c)),
     cj_wish = \<lparr>to_vec = (\<lambda>_. None), from_slice = (\<lambda>_. None)\<rparr>,
     cj_probe = \<lparr>to_vec = (\<lambda>_. None), from_slice = (\<lambda>_. None)\<rparr>\<rparr>"

definition rating_entry :: "256 word \<Rightarrow> u64 \<Rightarrow> 256 word \<Rightarrow> doc_entry" where
  "rating_entry author at h = \<lparr>de_key = community_encode demo_texts (RatingKey (ItemId 1) (MemberId 2)),
     de_author = author, de_timestamp = at, de_hash = ContentHash h, de_len = 1\<rparr>"

definition rated_doc :: document where
  "rated_doc = \<lparr>dc_open = True, dc_latest = (\<lambda>_. Some [Some (rating_entry 3 20 1)]),
     dc_all = (\<lambda>_. Some [Some (rating_entry 2 10 4), Some (rating_entry 3 20 1)]), dc_one = (\<lambda>_. Some None),
     dc_status = (\<lambda>_. Some (Complete 1)), dc_bytes = (\<lambda>h. Some [ucast (hash_bytes h)])\<rparr>"

theorem only_its_author_counts_witness:
  "\<exists>r c. read_community_entries demo_texts rated_doc (ratings_of demo_texts (ItemId 1))
       (rating_decode demo_community_json) = Inr r \<and>
     cs_entries r = [c] \<and> ce_value c = Rating 4 \<and>
     (\<exists>e. Some e \<in> set [Some (rating_entry 2 10 4), Some (rating_entry 3 20 1)] \<and>
        de_author e = member_bytes (key_member (ce_key c)))"
proof -
  let ?read = "read_community_entries demo_texts rated_doc (ratings_of demo_texts (ItemId 1))
      (rating_decode demo_community_json)"
  note parse = community_reads_back [OF demo_texts_ok, of "RatingKey (ItemId 1) (MemberId 2)"]
  obtain r where r: "?read = Inr r" and "cs_entries r =
      [\<lparr>ce_key = RatingKey (ItemId 1) (MemberId 2), ce_value = Rating 4, ce_written = 10\<rparr>]"
    using parse by (simp add: read_community_entries_def over_answer_def rated_doc_def count_entry_def
        rating_entry_def entry_content_def rating_decode_def decode_by_def demo_community_json_def
        number_json_def rating_try_from_def)
  moreover have "dc_all rated_doc (ratings_of demo_texts (ItemId 1)) =
      Some [Some (rating_entry 2 10 4), Some (rating_entry 3 20 1)]"
    by (simp add: rated_doc_def)
  ultimately show ?thesis
    using only_its_author_counts [OF demo_texts_ok, of rated_doc "ratings_of demo_texts (ItemId 1)"
        "rating_decode demo_community_json"] by fastforce
qed

text \<open>The same two entries in a document that has nothing else.\<close>

definition one_rating_doc :: document where
  "one_rating_doc = rated_doc\<lparr>dc_all := \<lambda>p. Some (if p = ratings_of demo_texts (ItemId 1)
     then [Some (rating_entry 2 10 4), Some (rating_entry 3 20 1)] else [])\<rparr>"

definition rating_codecs :: codecs where
  "rating_codecs = \<lparr>co_texts = demo_texts, co_item = demo_json, co_community = demo_community_json,
     co_on_curve = (\<lambda>_. True)\<rparr>"

theorem what_is_read_keeps_its_limits_witness:
  "\<exists>r. read_item_of rating_codecs one_rating_doc (ItemId 1) = Inr (Some r) \<and>
     bt_get (ri_ratings r) (MemberId 2) = Some (Rating 4) \<and> rating_ok (Rating 4)"
proof -
  note parse = community_reads_back [OF demo_texts_ok, of "RatingKey (ItemId 1) (MemberId 2)"]
  have other: "ratings_of demo_texts (ItemId 1) \<noteq> reviews_of demo_texts (ItemId 1)"
    "prefix_of (tx_hex demo_texts) (ItemId 1) \<noteq> ratings_of demo_texts (ItemId 1)"
    by (simp_all add: prefix_of_def ITEMS_def ratings_of_def reviews_of_def community_words)
  obtain r where "read_item_of rating_codecs one_rating_doc (ItemId 1) = Inr (Some r)"
    and "bt_get (ri_ratings r) (MemberId 2) = Some (Rating 4)"
    using parse other
    by (simp add: read_item_of_def read_file_authors_def read_community_entries_def over_answer_def one_rating_doc_def
        rated_doc_def count_entry_def rating_entry_def entry_content_def rating_decode_def decode_by_def
        demo_community_json_def number_json_def rating_try_from_def rating_codecs_def fold_entry_def
        values_by_member_def bt_get_collect Let_def)
  then show ?thesis
    using what_is_read_keeps_its_limits [of rating_codecs one_rating_doc "ItemId 1"] by blast
qed

end
