(* ===== verification/Held_Items.thy ===== *)
theory Held_Items
  imports Document "HOL-Library.Multiset"
begin

text \<open>
  The items whose content this node has, \<open>crates/distlib-sync/src/availability.rs\<close>, and whom to ask
  for an item's files, \<open>availability/ask_order.rs\<close>. The set and the blobs it is worked out from are
  the blob store of \<open>Storage\<close>; when the set last changed is beside it.
\<close>

section \<open>The set\<close>

record held_items =
  he_store :: blob_store
  he_changed :: instant

text \<open>Which listings of tags and which questions about a blob fail is up to iroh-blobs.\<close>

record blob_failures =
  bf_list :: "keep_reason \<Rightarrow> bool"
  bf_status :: "content_hash \<Rightarrow> bool"

fun kept_for_any ::
    "blob_failures \<Rightarrow> item_id \<Rightarrow> blob_store \<Rightarrow> keep_reason list \<Rightarrow> content_hash set
      \<Rightarrow> sync_error + content_hash set" where
  "kept_for_any bf i bs [] kept = Inr kept"
| "kept_for_any bf i bs (r # rs) kept =
     (if bf_list bf r then Inl (ContentFailed ''listed what is kept for an item'')
      else kept_for_any bf i bs rs (kept \<union> set (kept_for r i bs)))"

fun all_complete :: "blob_failures \<Rightarrow> blob_store \<Rightarrow> content_hash list \<Rightarrow> sync_error + bool" where
  "all_complete bf bs [] = Inr True"
| "all_complete bf bs (b # blobs) =
     (if bf_status bf b then Inl (ContentFailed ''asked whether an item's file is here'')
      else if \<not> is_complete (bs_status bs b) then Inr False
      else all_complete bf bs blobs)"

definition content_files :: "item \<Rightarrow> content_hash list" where
  "content_files it = map fst (filter (\<lambda>(_, r). fr_role r = Content) (bt_entries (it_files it)))"

definition note_change :: "instant \<Rightarrow> bool \<Rightarrow> held_items \<Rightarrow> held_items" where
  "note_change now changed h = (if changed then h\<lparr>he_changed := now\<rparr> else h)"

definition set_held :: "item_id btset \<Rightarrow> held_items \<Rightarrow> held_items" where
  "set_held s h = h\<lparr>he_store := (he_store h)\<lparr>bs_held := s\<rparr>\<rparr>"

definition recheck ::
    "blob_failures \<Rightarrow> instant \<Rightarrow> item \<Rightarrow> held_items \<Rightarrow> (sync_error + bool) \<times> held_items" where
  "recheck bf now it h =
     (let content = content_files it
      in case kept_for_any bf (it_id it) (he_store h) all_reasons {} of
           Inl e \<Rightarrow> (Inl e, h)
         | Inr kept \<Rightarrow>
             (case (if content \<noteq> [] \<and> list_all (\<lambda>b. b \<in> kept) content
                    then all_complete bf (he_store h) content else Inr False) of
                Inl e \<Rightarrow> (Inl e, h)
              | Inr held \<Rightarrow>
                  let was = bt_has (bs_held (he_store h)) (it_id it);
                      s = (if held then bts_insert (it_id it) (bs_held (he_store h))
                           else bt_remove (it_id it) (bs_held (he_store h)))
                  in (Inr held, note_change now (held \<noteq> was) (set_held s h))))"

definition held_forget :: "instant \<Rightarrow> item_id \<Rightarrow> held_items \<Rightarrow> held_items" where
  "held_forget now i h =
     note_change now (bt_has (bs_held (he_store h)) i)
       (h\<lparr>he_store := holdings_forget i (he_store h)\<rparr>)"

definition holds :: "held_items \<Rightarrow> item_id \<Rightarrow> bool" where
  "holds h i = bt_has (bs_held (he_store h)) i"

section \<open>Whom to ask\<close>

definition tiers :: "member_id list \<Rightarrow> member_id btset \<Rightarrow> member_id list \<Rightarrow> member_id list list" where
  "tiers holders online members =
     (let holding = filter (\<lambda>m. m \<in> set holders) members;
          others = filter (\<lambda>m. m \<notin> set holders) members
      in [holding, filter (bt_has online) others, filter (\<lambda>m. \<not> bt_has online m) others])"

definition swap_in :: "nat \<Rightarrow> nat \<Rightarrow> 'a list \<Rightarrow> 'a list" where
  "swap_in i j xs = xs[i := xs ! j, j := xs ! i]"

text \<open>The draws come from the operating system: \<open>None\<close> is one that failed.\<close>

fun shuffle_down :: "(nat \<Rightarrow> u32 option) \<Rightarrow> nat \<Rightarrow> 'a list \<Rightarrow> 'a list" where
  "shuffle_down draw 0 xs = xs"
| "shuffle_down draw (Suc n) xs =
     shuffle_down draw n
       (swap_in (Suc n) (case draw (Suc n) of None \<Rightarrow> Suc n | Some r \<Rightarrow> unat r mod (Suc n + 1)) xs)"

definition shuffled :: "(nat \<Rightarrow> u32 option) \<Rightarrow> 'a list \<Rightarrow> 'a list" where
  "shuffled draw xs = shuffle_down draw (length xs - 1) xs"

definition ask_order ::
    "(nat \<Rightarrow> nat \<Rightarrow> u32 option) \<Rightarrow> member_id list \<Rightarrow> member_id btset \<Rightarrow> member_id list \<Rightarrow> member_id list" where
  "ask_order draw holders online members =
     concat (map (\<lambda>(n, tier). shuffled (draw n) tier) (enumerate 0 (tiers holders online members)))"

section \<open>Held is kept and complete\<close>

lemma kept_for_any_Inr:
  "kept_for_any bf i bs rs kept = Inr k \<longleftrightarrow>
     (\<forall>r \<in> set rs. \<not> bf_list bf r) \<and> k = kept \<union> (\<Union>r \<in> set rs. set (kept_for r i bs))"
  by (induction rs arbitrary: kept) auto

lemma all_complete_Inr:
  assumes "all_complete bf bs blobs = Inr b"
  shows "b \<longleftrightarrow> (\<forall>x \<in> set blobs. is_complete (bs_status bs x))"
  using assms by (induction blobs) (auto split: if_splits)

definition has_content :: "blob_store \<Rightarrow> item \<Rightarrow> bool" where
  "has_content bs it \<longleftrightarrow> content_files it \<noteq> [] \<and>
     (\<forall>b \<in> set (content_files it). (\<exists>r. (r, it_id it, b) \<in> set (bs_tags bs)) \<and> is_complete (bs_status bs b))"

lemma all_reasons_all: "r \<in> set all_reasons"
  by (cases r) (simp_all add: all_reasons_def)

lemma set_kept_for: "set (kept_for r i bs) = {b. (r, i, b) \<in> set (bs_tags bs)}"
  by (force simp: kept_for_def kept_tags_def)

text \<open>
  Once it is worked out again, an item is held exactly when it has content files and each is
  complete here and kept for that item, whatever the reason; other items are held as before, and the
  time of the last change moves exactly when the answer changed. A failure changes nothing.
\<close>

theorem held_is_kept_and_complete:
  "(case fst (recheck bf now it h) of
      Inl e \<Rightarrow> snd (recheck bf now it h) = h
    | Inr b \<Rightarrow> b = has_content (he_store h) it \<and>
        (\<forall>i. holds (snd (recheck bf now it h)) i = (if i = it_id it then b else holds h i)) \<and>
        bs_tags (he_store (snd (recheck bf now it h))) = bs_tags (he_store h) \<and>
        he_changed (snd (recheck bf now it h)) = (if b = holds h (it_id it) then he_changed h else now))"
proof -
  let ?bs = "he_store h" and ?content = "content_files it"
  show ?thesis
  proof (cases "kept_for_any bf (it_id it) ?bs all_reasons {}")
    case (Inr kept)
    then have kept: "b \<in> kept \<longleftrightarrow> (\<exists>r. (r, it_id it, b) \<in> set (bs_tags ?bs))" for b
      using all_reasons_all by (auto simp: kept_for_any_Inr set_kept_for)
    show ?thesis
    proof (cases "if ?content \<noteq> [] \<and> list_all (\<lambda>b. b \<in> kept) ?content
        then all_complete bf ?bs ?content else Inr False")
      case (Inr b)
      then have "b = has_content ?bs it"
        by (auto simp: has_content_def list_all_iff kept dest: all_complete_Inr split: if_splits)
      then show ?thesis
        using \<open>kept_for_any bf (it_id it) ?bs all_reasons {} = Inr kept\<close> Inr
        by (auto simp: recheck_def Let_def holds_def set_held_def note_change_def bt_has_def btmap_simps)
    qed (simp add: recheck_def Inr Let_def)
  qed (simp add: recheck_def Let_def)
qed

section \<open>Nobody is left out\<close>

lemma mset_swap_in: "i < length xs \<Longrightarrow> j < length xs \<Longrightarrow> mset (swap_in i j xs) = mset xs"
  by (simp add: swap_in_def mset_swap)

lemma mset_shuffle_down: "n < length xs \<or> xs = [] \<and> n = 0 \<Longrightarrow> mset (shuffle_down draw n xs) = mset xs"
proof (induction n arbitrary: xs)
  case (Suc n)
  let ?j = "case draw (Suc n) of None \<Rightarrow> Suc n | Some r \<Rightarrow> unat r mod (Suc n + 1)"
  have "?j \<le> Suc n" by (auto split: option.splits simp: mod_le_divisor less_Suc_eq_le [symmetric])
  with Suc.prems have "mset (swap_in (Suc n) ?j xs) = mset xs" by (intro mset_swap_in) auto
  moreover have "length (swap_in (Suc n) ?j xs) = length xs" by (simp add: swap_in_def)
  ultimately show ?case using Suc by simp
qed simp

lemma mset_shuffled [simp]: "mset (shuffled draw xs) = mset xs"
  unfolding shuffled_def by (rule mset_shuffle_down) (cases xs; simp)

lemma set_shuffled [simp]: "set (shuffled draw xs) = set xs"
  by (rule mset_eq_setD) simp

text \<open>
  Every member is asked, as often as they were named: those that hold the item first, then the
  others that are online, and only then those that are not, whatever was drawn.
\<close>

theorem ask_order_is_complete_and_tiered:
  "mset (ask_order draw holders online members) = mset members \<and>
   (\<exists>hs os ns. ask_order draw holders online members = hs @ os @ ns \<and>
      set hs = set members \<inter> set holders \<and>
      set os = {m \<in> set members. m \<notin> set holders \<and> bt_has online m} \<and>
      set ns = {m \<in> set members. m \<notin> set holders \<and> \<not> bt_has online m})"
proof -
  let ?holding = "filter (\<lambda>m. m \<in> set holders) members" and ?others = "filter (\<lambda>m. m \<notin> set holders) members"
  have order: "ask_order draw holders online members =
      shuffled (draw 0) ?holding @ shuffled (draw 1) (filter (bt_has online) ?others) @
      shuffled (draw 2) (filter (\<lambda>m. \<not> bt_has online m) ?others)"
    by (simp add: ask_order_def tiers_def Let_def eval_nat_numeral)
  have "mset members = mset ?holding + mset ?others"
    by (metis mset_filter multiset_partition)
  moreover have "mset ?others = mset (filter (bt_has online) ?others) + mset (filter (\<lambda>m. \<not> bt_has online m) ?others)"
    by (metis mset_filter multiset_partition)
  ultimately have "mset (ask_order draw holders online members) = mset members"
    unfolding order by (simp only: mset_append mset_shuffled)
  moreover have "set (shuffled (draw 0) ?holding) = set members \<inter> set holders"
    and "set (shuffled (draw 1) (filter (bt_has online) ?others)) =
      {m \<in> set members. m \<notin> set holders \<and> bt_has online m}"
    and "set (shuffled (draw 2) (filter (\<lambda>m. \<not> bt_has online m) ?others)) =
      {m \<in> set members. m \<notin> set holders \<and> \<not> bt_has online m}"
    by auto
  ultimately show ?thesis using order by blast
qed

end
