(* ===== verification/Read_Model.thy ===== *)
theory Read_Model
  imports Held_Items
begin

text \<open>
  How the read model is kept in step with the document: what the document's events mark to be read
  again, \<open>crates/distlib-sync/src/changes.rs\<close>, and the task that reads it again into the tables,
  \<open>crates/distlib-store/src/projection.rs\<close>. The tables are what \<open>store.rs\<close> reads back of them: a row
  for each item, its bookmarks and each wish, each replaced as a whole in one transaction. Which calls
  fail is up to the environment. Times of day are integers.
\<close>

section \<open>What is to be read again\<close>

record batch =
  ba_items :: "item_id btset"
  ba_bookmarks :: "item_id btset"
  ba_wishes :: "wish_id btset"
  ba_content :: bool

definition batch_new :: batch where
  "batch_new = \<lparr>ba_items = bt_empty, ba_bookmarks = bt_empty, ba_wishes = bt_empty, ba_content = False\<rparr>"

definition batch_is_empty :: "batch \<Rightarrow> bool" where
  "batch_is_empty b \<longleftrightarrow> bt_entries (ba_items b) = [] \<and> bt_entries (ba_bookmarks b) = [] \<and>
     bt_entries (ba_wishes b) = [] \<and> \<not> ba_content b"

text \<open>Whether there is news, the batch, and whether a probe failure was told of.\<close>

definition note_key :: "id_texts \<Rightarrow> string \<Rightarrow> batch \<Rightarrow> bool \<times> batch \<times> bool" where
  "note_key tx key b =
     (case key_parse (tx_hex tx) key of
        Some k \<Rightarrow> (\<not> bt_has (ba_items b) (key_item k), b\<lparr>ba_items := bts_insert (key_item k) (ba_items b)\<rparr>, False)
      | None \<Rightarrow>
          (case community_parse tx key of
             Some (RatingKey i _) \<Rightarrow> (\<not> bt_has (ba_items b) i, b\<lparr>ba_items := bts_insert i (ba_items b)\<rparr>, False)
           | Some (ReviewKey i _) \<Rightarrow> (\<not> bt_has (ba_items b) i, b\<lparr>ba_items := bts_insert i (ba_items b)\<rparr>, False)
           | Some (BookmarkKey i _ _) \<Rightarrow>
               (\<not> bt_has (ba_bookmarks b) i, b\<lparr>ba_bookmarks := bts_insert i (ba_bookmarks b)\<rparr>, False)
           | Some (WishKey w _) \<Rightarrow> (\<not> bt_has (ba_wishes b) w, b\<lparr>ba_wishes := bts_insert w (ba_wishes b)\<rparr>, False)
           | Some (WishCommentKey w _) \<Rightarrow>
               (\<not> bt_has (ba_wishes b) w, b\<lparr>ba_wishes := bts_insert w (ba_wishes b)\<rparr>, False)
           | Some (ProbeFailureKey _ _) \<Rightarrow> (False, b, True)
           | None \<Rightarrow> (False, b, False)))"

section \<open>The pump\<close>

record last_sync =
  ls_finished :: int
  ls_ok :: bool

record sync_event =
  se_peer :: member_id
  se_started :: int
  se_finished :: int
  se_ok :: bool

datatype live_event =
    InsertLocal doc_entry
  | InsertRemote doc_entry
  | ContentReady
  | PendingContentReady
  | NeighborUp member_id
  | NeighborDown member_id
  | SyncFinished sync_event

text \<open>
  The counters count what is sent: \<open>pu_probe_told\<close> that a probe failure may have changed and
  \<open>pu_sync_told\<close> that the state of the swarm did. \<open>pu_again\<close> has the neighbours to sync with again.
\<close>

record pump =
  pu_batch :: batch
  pu_woke :: u64
  pu_probe_told :: nat
  pu_neighbours :: "member_id btset"
  pu_last_sync :: "(member_id, last_sync) btmap"
  pu_sync_told :: nat
  pu_up_since :: "(member_id, int) btmap"
  pu_again :: "member_id list"

definition pump_new :: pump where
  "pump_new = \<lparr>pu_batch = batch_new, pu_woke = 0, pu_probe_told = 0, pu_neighbours = bt_empty,
     pu_last_sync = bt_empty, pu_sync_told = 0, pu_up_since = bt_empty, pu_again = []\<rparr>"

definition pump_wake :: "pump \<Rightarrow> pump" where
  "pump_wake p = p\<lparr>pu_woke := pu_woke p + 1\<rparr>"

definition tell_probe_failures :: "pump \<Rightarrow> pump" where
  "tell_probe_failures p = p\<lparr>pu_probe_told := pu_probe_told p + 1\<rparr>"

definition mark_content_landed :: "pump \<Rightarrow> bool \<times> pump" where
  "mark_content_landed p =
     (\<not> ba_content (pu_batch p), p\<lparr>pu_batch := (pu_batch p)\<lparr>ba_content := True\<rparr>\<rparr>)"

definition content_landed :: "pump \<Rightarrow> pump" where
  "content_landed p =
     (case mark_content_landed (tell_probe_failures p) of (news, p') \<Rightarrow> if news then pump_wake p' else p')"

definition began_before_neighbour :: "pump \<Rightarrow> sync_event \<Rightarrow> bool" where
  "began_before_neighbour p sync =
     (case bt_get (pu_up_since p) (se_peer sync) of Some up \<Rightarrow> se_started sync < up | None \<Rightarrow> False)"

definition told_if :: "bool \<Rightarrow> pump \<Rightarrow> pump" where
  "told_if changed p = (if changed then p\<lparr>pu_sync_told := pu_sync_told p + 1\<rparr> else p)"

definition note_entry :: "id_texts \<Rightarrow> doc_entry \<Rightarrow> pump \<Rightarrow> bool \<times> pump" where
  "note_entry tx e p =
     (case note_key tx (de_key e) (pu_batch p) of
        (news, b, probe) \<Rightarrow>
          (news, (if probe then tell_probe_failures p else p)\<lparr>pu_batch := b\<rparr>))"

fun pump_note :: "id_texts \<Rightarrow> int \<Rightarrow> live_event \<Rightarrow> pump \<Rightarrow> bool \<times> pump" where
  "pump_note tx now (InsertLocal e) p = note_entry tx e p"
| "pump_note tx now (InsertRemote e) p = note_entry tx e p"
| "pump_note tx now ContentReady p = mark_content_landed (tell_probe_failures p)"
| "pump_note tx now PendingContentReady p = mark_content_landed (tell_probe_failures p)"
| "pump_note tx now (NeighborUp peer) p =
     (False, told_if (\<not> bt_has (pu_neighbours p) peer)
       (p\<lparr>pu_up_since := bt_insert peer now (pu_up_since p),
          pu_neighbours := bts_insert peer (pu_neighbours p)\<rparr>))"
| "pump_note tx now (NeighborDown peer) p =
     (False, told_if (bt_has (pu_neighbours p) peer)
       (p\<lparr>pu_up_since := bt_remove peer (pu_up_since p),
          pu_neighbours := bt_remove peer (pu_neighbours p)\<rparr>))"
| "pump_note tx now (SyncFinished sync) p =
     (False, told_if True
       (p\<lparr>pu_again := pu_again p @ (if began_before_neighbour p sync then [se_peer sync] else []),
          pu_last_sync := bt_insert (se_peer sync) \<lparr>ls_finished = se_finished sync, ls_ok = se_ok sync\<rparr>
            (pu_last_sync p)\<rparr>))"

text \<open>\<open>None\<close> is an event that could not be read.\<close>

definition pump_turn :: "id_texts \<Rightarrow> int \<Rightarrow> live_event option \<Rightarrow> pump \<Rightarrow> pump" where
  "pump_turn tx now ev p =
     (case ev of
        None \<Rightarrow> p
      | Some ev \<Rightarrow> (case pump_note tx now ev p of (news, p') \<Rightarrow> if news then pump_wake p' else p'))"

text \<open>One look at the batch: all of it if there is any, otherwise the reader waits to be woken.\<close>

definition take_changes :: "pump \<Rightarrow> batch option \<times> pump" where
  "take_changes p =
     (if batch_is_empty (pu_batch p) then (None, p) else (Some (pu_batch p), p\<lparr>pu_batch := batch_new\<rparr>))"

section \<open>The tables\<close>

record stored_item =
  st_item :: item
  st_ratings :: "(member_id, rating) btmap"
  st_reviews :: "(member_id, review) btmap"
  st_file_authors :: "(content_hash, member_id btset) btmap"
  st_last_modified :: u64

record stored_bookmark =
  sb_member :: member_id
  sb_id :: bookmark_id
  sb_bookmark :: bookmark
  sb_last_modified :: u64

record stored_wish =
  sw_entries :: "(member_id, wish) btmap"
  sw_comments :: "(member_id, comment) btmap"

record stored_member =
  sm_member :: member_id
  sm_display_name :: string
  sm_pledge_bytes :: u64
  sm_is_core :: bool

record tables =
  tb_items :: "(item_id, stored_item) btmap"
  tb_bookmarks :: "item_id \<Rightarrow> stored_bookmark list"
  tb_wishes :: "wish_id \<Rightarrow> stored_wish"
  tb_members :: "stored_member list"

datatype upserted = Created | Updated

definition upsert_item :: "stored_item \<Rightarrow> tables \<Rightarrow> upserted \<times> tables" where
  "upsert_item st t =
     (if bt_has (tb_items t) (it_id (st_item st)) then Updated else Created,
      t\<lparr>tb_items := bt_insert (it_id (st_item st)) st (tb_items t)\<rparr>)"

definition replace_bookmarks :: "item_id \<Rightarrow> stored_bookmark list \<Rightarrow> tables \<Rightarrow> tables" where
  "replace_bookmarks i bs t = t\<lparr>tb_bookmarks := (tb_bookmarks t)(i := bs)\<rparr>"

definition replace_wish :: "wish_id \<Rightarrow> stored_wish \<Rightarrow> tables \<Rightarrow> tables" where
  "replace_wish w st t = t\<lparr>tb_wishes := (tb_wishes t)(w := st)\<rparr>"

definition creators_of :: "(content_hash, member_id btset) btmap \<Rightarrow> member_id btset" where
  "creators_of authors = bts_of (concat (map bt_keys (bt_values authors)))"

definition custody_item_of :: "stored_item \<Rightarrow> custody_item" where
  "custody_item_of st =
     \<lparr>ci_item = it_id (st_item st), ci_creators = bt_keys (creators_of (st_file_authors st)),
      ci_size = fold (\<lambda>r t. sat_add t (fr_size r)) (bt_values (it_files (st_item st))) 0\<rparr>"

section \<open>The projection\<close>

record projection =
  pj_tables :: tables
  pj_indexed :: "(item_id, item) btmap"
  pj_committed :: "(item_id, item) btmap"
  pj_members :: "member_id btset"
  pj_replays :: nat
  pj_items_waiting :: "item_id btset"
  pj_bookmarks_waiting :: "item_id btset"
  pj_wishes_waiting :: "wish_id btset"
  pj_held :: held_items

record project_env =
  en_codecs :: codecs
  en_doc :: document
  en_blobs :: blob_failures
  en_now :: instant
  en_index_fails :: "item_id \<Rightarrow> bool"
  en_commit_fails :: bool
  en_item_fails :: "item_id \<Rightarrow> bool"
  en_bookmarks_fail :: "item_id \<Rightarrow> bool"
  en_wish_fails :: "wish_id \<Rightarrow> bool"
  en_members_fail :: bool

datatype catalogue_event =
    ItemAdded item_id
  | ItemChanged item_id
  | BookmarkChanged item_id
  | WishChanged wish_id

definition set_waiting :: "bool \<Rightarrow> 'k::linorder \<Rightarrow> 'k btset \<Rightarrow> 'k btset" where
  "set_waiting waiting k s = (if waiting then bts_insert k s else bt_remove k s)"

definition of_members :: "member_id btset \<Rightarrow> (member_id, 'v) btmap \<Rightarrow> (member_id, 'v) btmap" where
  "of_members members = bt_retain (\<lambda>m _. bt_has members m)"

definition stored_of :: "member_id btset \<Rightarrow> read_item \<Rightarrow> stored_item" where
  "stored_of members r =
     \<lparr>st_item = ri_item r, st_ratings = of_members members (ri_ratings r),
      st_reviews = of_members members (ri_reviews r), st_file_authors = ri_file_authors r,
      st_last_modified = ri_last_modified r\<rparr>"

text \<open>One item: what is written to tell of, whether the index was written to, and what is left.\<close>

definition project_item ::
    "project_env \<Rightarrow> item_id \<Rightarrow> projection \<Rightarrow> (catalogue_event list \<times> bool) \<times> projection" where
  "project_item env i w =
     (case read_item_of (en_codecs env) (en_doc env) i of
        Inl _ \<Rightarrow> (([], False), w)
      | Inr None \<Rightarrow> (([], False), w)
      | Inr (Some r) \<Rightarrow>
          let w1 = w\<lparr>pj_items_waiting := set_waiting (ri_waiting r) i (pj_items_waiting w)\<rparr>;
              w2 = w1\<lparr>pj_held := snd (recheck (en_blobs env) (en_now env) (ri_item r) (pj_held w1))\<rparr>;
              indexed = (\<not> en_index_fails env i);
              w3 = (if indexed then w2\<lparr>pj_indexed := bt_insert i (ri_item r) (pj_indexed w2)\<rparr> else w2)
          in if en_item_fails env i then (([], indexed), w3)
             else case upsert_item (stored_of (pj_members w) r) (pj_tables w3) of
                    (Created, t) \<Rightarrow> (([ItemAdded i], indexed), w3\<lparr>pj_tables := t\<rparr>)
                  | (Updated, t) \<Rightarrow> (([ItemChanged i], indexed), w3\<lparr>pj_tables := t\<rparr>))"

fun project_each ::
    "project_env \<Rightarrow> item_id list \<Rightarrow> projection \<Rightarrow> (catalogue_event list \<times> bool) \<times> projection" where
  "project_each env [] w = (([], False), w)"
| "project_each env (i # is) w =
     (case project_item env i w of
        ((evs, ix), w') \<Rightarrow> (case project_each env is w' of ((evs', ix'), w'') \<Rightarrow> ((evs @ evs', ix \<or> ix'), w'')))"

definition project_items ::
    "project_env \<Rightarrow> item_id btset \<Rightarrow> projection \<Rightarrow> catalogue_event list \<times> projection" where
  "project_items env items w =
     (case project_each env (bt_keys items) w of
        ((evs, indexed), w') \<Rightarrow>
          (evs, if indexed \<and> \<not> en_commit_fails env then w'\<lparr>pj_committed := pj_indexed w'\<rparr> else w'))"

definition stored_bookmarks :: "member_id btset \<Rightarrow> item_bookmarks \<Rightarrow> stored_bookmark list" where
  "stored_bookmarks members r =
     map (\<lambda>b. \<lparr>sb_member = rb_member b, sb_id = rb_id b, sb_bookmark = rb_bookmark b,
            sb_last_modified = rb_last_modified b\<rparr>)
       (filter (\<lambda>b. bt_has members (rb_member b)) (ib_bookmarks r))"

definition project_bookmarks_of ::
    "project_env \<Rightarrow> item_id \<Rightarrow> projection \<Rightarrow> catalogue_event list \<times> projection" where
  "project_bookmarks_of env i w =
     (case read_bookmarks (co_texts (en_codecs env)) (co_community (en_codecs env)) (en_doc env) i of
        Inl _ \<Rightarrow> ([], w)
      | Inr r \<Rightarrow>
          let w1 = w\<lparr>pj_bookmarks_waiting := set_waiting (ib_waiting r) i (pj_bookmarks_waiting w)\<rparr>
          in if en_bookmarks_fail env i then ([], w1)
             else ([BookmarkChanged i],
                   w1\<lparr>pj_tables := replace_bookmarks i (stored_bookmarks (pj_members w) r) (pj_tables w1)\<rparr>))"

definition stored_wish_of :: "member_id btset \<Rightarrow> read_wish \<Rightarrow> stored_wish" where
  "stored_wish_of members r =
     (let entries = of_members members (rd_entries r); comments = of_members members (rd_comments r)
      in \<lparr>sw_entries = entries, sw_comments = (if bt_entries entries = [] then bt_empty else comments)\<rparr>)"

definition project_wish :: "project_env \<Rightarrow> wish_id \<Rightarrow> projection \<Rightarrow> catalogue_event list \<times> projection" where
  "project_wish env wi w =
     (case read_wish_of (co_texts (en_codecs env)) (co_community (en_codecs env)) (en_doc env) wi of
        Inl _ \<Rightarrow> ([], w)
      | Inr r \<Rightarrow>
          let w1 = w\<lparr>pj_wishes_waiting := set_waiting (rd_waiting r) wi (pj_wishes_waiting w)\<rparr>
          in if en_wish_fails env wi then ([], w1)
             else ([WishChanged wi],
                   w1\<lparr>pj_tables := replace_wish wi (stored_wish_of (pj_members w) r) (pj_tables w1)\<rparr>))"

fun project_all ::
    "('k \<Rightarrow> projection \<Rightarrow> catalogue_event list \<times> projection) \<Rightarrow> 'k list \<Rightarrow> projection
      \<Rightarrow> catalogue_event list \<times> projection" where
  "project_all f [] w = ([], w)"
| "project_all f (k # ks) w =
     (case f k w of (evs, w') \<Rightarrow> (case project_all f ks w' of (evs', w'') \<Rightarrow> (evs @ evs', w'')))"

definition project_bookmarks ::
    "project_env \<Rightarrow> item_id btset \<Rightarrow> projection \<Rightarrow> catalogue_event list \<times> projection" where
  "project_bookmarks env items = project_all (project_bookmarks_of env) (bt_keys items)"

definition project_wishes ::
    "project_env \<Rightarrow> wish_id btset \<Rightarrow> projection \<Rightarrow> catalogue_event list \<times> projection" where
  "project_wishes env wishes = project_all (project_wish env) (bt_keys wishes)"

definition replay :: "project_env \<Rightarrow> projection \<Rightarrow> projection" where
  "replay env w =
     (let tx = co_texts (en_codecs env); d = en_doc env
      in case (item_ids tx d, bookmarked_item_ids tx d, wish_ids tx d) of
           (Inr items, Inr bookmarked, Inr wishes) \<Rightarrow>
             (let w1 = snd (project_items env items w);
                  w2 = snd (project_bookmarks env bookmarked w1);
                  w3 = snd (project_wishes env wishes w2)
              in w3\<lparr>pj_replays := pj_replays w3 + 1\<rparr>)
         | _ \<Rightarrow> w)"

definition bts_union :: "'k::linorder btset \<Rightarrow> 'k btset \<Rightarrow> 'k btset" where
  "bts_union s t = fold bts_insert (bt_keys t) s"

definition project_batch :: "project_env \<Rightarrow> batch \<Rightarrow> projection \<Rightarrow> catalogue_event list \<times> projection" where
  "project_batch env b w =
     (let items = (if ba_content b then bts_union (ba_items b) (pj_items_waiting w) else ba_items b);
          marked = (if ba_content b then bts_union (ba_bookmarks b) (pj_bookmarks_waiting w) else ba_bookmarks b);
          wishes = (if ba_content b then bts_union (ba_wishes b) (pj_wishes_waiting w) else ba_wishes b)
      in case project_items env items w of (evs1, w1) \<Rightarrow>
         (case project_bookmarks env marked w1 of (evs2, w2) \<Rightarrow>
         (case project_wishes env wishes w2 of (evs3, w3) \<Rightarrow> (evs1 @ evs2 @ evs3, w3))))"

definition project_members :: "project_env \<Rightarrow> membership_state \<Rightarrow> projection \<Rightarrow> member_id btset \<times> projection" where
  "project_members env s w =
     (let rows = map (\<lambda>(m, r). \<lparr>sm_member = rec_id r, sm_display_name = rec_name r,
            sm_pledge_bytes = rec_pledge r, sm_is_core = is_core s (rec_id r)\<rparr>) (bt_entries (ms_members s))
      in (bts_of (map sm_member rows),
          if en_members_fail env then w else w\<lparr>pj_tables := (pj_tables w)\<lparr>tb_members := rows\<rparr>\<rparr>))"

datatype projection_msg = Changed batch | Membership membership_state | Reindex

definition projection_turn ::
    "project_env \<Rightarrow> projection_msg \<Rightarrow> projection \<Rightarrow> catalogue_event list \<times> projection" where
  "projection_turn env msg w =
     (case msg of
        Changed b \<Rightarrow> project_batch env b w
      | Membership s \<Rightarrow>
          (case project_members env s w of
             (members, w1) \<Rightarrow>
               ([], if members \<noteq> pj_members w1 then replay env (w1\<lparr>pj_members := members\<rparr>) else w1))
      | Reindex \<Rightarrow> ([], replay env w))"

definition projection_start :: "project_env \<Rightarrow> membership_state \<Rightarrow> tables \<Rightarrow> held_items \<Rightarrow> projection" where
  "projection_start env s t h =
     (case project_members env s
        \<lparr>pj_tables = t, pj_indexed = bt_empty, pj_committed = bt_empty, pj_members = bt_empty, pj_replays = 0,
         pj_items_waiting = bt_empty, pj_bookmarks_waiting = bt_empty, pj_wishes_waiting = bt_empty, pj_held = h\<rparr>
      of (members, w) \<Rightarrow> replay env (w\<lparr>pj_members := members\<rparr>))"

end
