(* ===== verification/Read_Model_Laws.thy ===== *)
theory Read_Model_Laws
  imports Read_Model
begin

text \<open>
  The read model is a function of the document. Rows are read again one by one while entries go on
  arriving, content goes on landing and the membership goes on changing; whenever nothing is left to
  be read again, every row is what the document says. The argument is made once, for rows of any
  kind, in the locale \<open>rows_in_step\<close>, and holds of items, bookmarks and wishes by interpretation.
\<close>

section \<open>Rows that are read again\<close>

text \<open>
  \<open>row d k\<close> is what reading \<open>k\<close> gives now, and \<open>needs d k\<close> that content which has yet to land may change
  it. An arrival changes the rows of what it marks, content the rows of what needs it.
\<close>

locale rows_in_step =
  fixes row :: "'d \<Rightarrow> 'k \<Rightarrow> 'r"
    and needs :: "'d \<Rightarrow> 'k \<Rightarrow> bool"
    and arrival :: "'d \<Rightarrow> 'd \<Rightarrow> 'k set \<Rightarrow> bool"
    and landing :: "'d \<Rightarrow> 'd \<Rightarrow> bool"
  assumes arrival_row: "arrival d d' ks \<Longrightarrow> k \<notin> ks \<Longrightarrow> row d' k = row d k"
    and arrival_needs: "arrival d d' ks \<Longrightarrow> k \<notin> ks \<Longrightarrow> needs d' k \<Longrightarrow> needs d k"
    and landing_row: "landing d d' \<Longrightarrow> \<not> needs d k \<Longrightarrow> row d' k = row d k"
    and landing_needs: "landing d d' \<Longrightarrow> needs d' k \<Longrightarrow> needs d k"
begin

text \<open>
  Marked to be read, waiting for content that has landed, or in step: with what is marked, whether
  content has landed, what was left waiting and the rows there are.
\<close>

definition in_step :: "'d \<Rightarrow> 'k set \<Rightarrow> bool \<Rightarrow> 'k set \<Rightarrow> ('k \<Rightarrow> 'r) \<Rightarrow> bool" where
  "in_step d marked landed waiting rows \<longleftrightarrow>
     (\<forall>k. k \<in> marked \<or> (landed \<and> k \<in> waiting) \<or> (rows k = row d k \<and> (needs d k \<longrightarrow> k \<in> waiting)))"

lemma in_step_arrival:
  assumes "in_step d marked c waiting rows" and "arrival d d' ks" and "marked \<union> ks \<subseteq> marked'"
  shows "in_step d' marked' c waiting rows"
  unfolding in_step_def
proof
  fix k
  show "k \<in> marked' \<or> (c \<and> k \<in> waiting) \<or> (rows k = row d' k \<and> (needs d' k \<longrightarrow> k \<in> waiting))"
  proof (cases "k \<in> ks")
    case False
    then show ?thesis
      using assms arrival_row [OF assms(2) False] arrival_needs [OF assms(2) False]
      by (auto simp: in_step_def)
  qed (use assms(3) in blast)
qed

lemma in_step_landing:
  assumes "in_step d marked c waiting rows" and "landing d d'"
  shows "in_step d' marked True waiting rows"
  unfolding in_step_def
proof
  fix k
  show "k \<in> marked \<or> (True \<and> k \<in> waiting) \<or> (rows k = row d' k \<and> (needs d' k \<longrightarrow> k \<in> waiting))"
    using assms(1) landing_row [OF assms(2), of k] landing_needs [OF assms(2), of k]
    by (cases "needs d k") (auto simp: in_step_def)
qed

lemma in_step_take:
  assumes "in_step d marked c waiting rows" and "marked \<subseteq> marked'" and "c \<Longrightarrow> waiting \<subseteq> marked'"
  shows "in_step d marked' False waiting rows"
  using assms by (auto simp: in_step_def)

lemma in_step_read:
  assumes "in_step d marked c waiting rows" and "rows' = rows(k := row d k)"
    and "\<And>j. j \<noteq> k \<Longrightarrow> j \<in> waiting' \<longleftrightarrow> j \<in> waiting" and "needs d k \<Longrightarrow> k \<in> waiting'"
    and "marked \<subseteq> insert k marked'"
  shows "in_step d marked' c waiting' rows'"
  using assms by (auto simp: in_step_def)

lemma in_step_replay:
  assumes "in_step d marked c waiting rows" and "marked \<subseteq> marked'" and "ids \<subseteq> marked'"
    and "\<And>k. k \<notin> ids \<Longrightarrow> row d' k = row d k \<and> \<not> needs d' k"
  shows "in_step d' marked' c waiting rows"
  using assms unfolding in_step_def by (metis subsetD)

lemma in_step_start:
  assumes "ids \<subseteq> marked" and "\<And>k. k \<notin> ids \<Longrightarrow> rows k = row d k \<and> \<not> needs d k"
  shows "in_step d marked c waiting rows"
  using assms by (auto simp: in_step_def)

lemma in_step_done: "in_step d {} False waiting rows \<Longrightarrow> rows k = row d k"
  by (simp add: in_step_def)

end

section \<open>A document that answers\<close>

definition starts_with :: "string \<Rightarrow> string \<Rightarrow> bool" where
  "starts_with p k \<longleftrightarrow> take (length p) k = p"

text \<open>
  A document that answers every question as iroh-docs documents it: \<open>E\<close> has an entry for each key and
  author, \<open>L\<close> the latest for each key, and \<open>c\<close> the content that is here.
\<close>

definition answering ::
    "doc_entry list \<Rightarrow> doc_entry list \<Rightarrow> (content_hash \<Rightarrow> bytes option) \<Rightarrow> document" where
  "answering E L c =
     \<lparr>dc_open = True,
      dc_latest = (\<lambda>p. Some (map Some (filter (\<lambda>e. starts_with p (de_key e)) L))),
      dc_all = (\<lambda>p. Some (map Some (filter (\<lambda>e. starts_with p (de_key e)) E))),
      dc_one = (\<lambda>k. Some (List.find (\<lambda>e. de_key e = k) L)),
      dc_status = (\<lambda>h. Some (case c h of None \<Rightarrow> NotFound | Some b \<Rightarrow> Complete (of_nat (length b)))),
      dc_bytes = c\<rparr>"

lemma answering_content [simp]: "entry_content (answering E L c) e = Inr (c (de_hash e))"
  by (simp add: entry_content_def answering_def split: option.splits)

lemma over_answering [simp]:
  "over_answer (answering E L c) (dc_all (answering E L c) p) f s =
     on_stream f (map Some (filter (\<lambda>e. starts_with p (de_key e)) E)) s"
  "over_answer (answering E L c) (dc_latest (answering E L c) p) f s =
     on_stream f (map Some (filter (\<lambda>e. starts_with p (de_key e)) L)) s"
  by (simp_all add: over_answer_def answering_def)

text \<open>What a stream of entries that can all be read comes to.\<close>

fun fold_all :: "(doc_entry \<Rightarrow> 's \<Rightarrow> 's) \<Rightarrow> doc_entry list \<Rightarrow> 's \<Rightarrow> 's" where
  "fold_all g [] s = s"
| "fold_all g (e # es) s = fold_all g es (g e s)"

lemma on_stream_total:
  assumes "\<And>e s. f e s = Inr (g e s)"
  shows "on_stream f (map Some es) s = Inr (fold_all g es s)"
  by (induction es arbitrary: s) (simp_all add: assms)

definition counted_in ::
    "id_texts \<Rightarrow> (content_hash \<Rightarrow> bytes option) \<Rightarrow> (bytes \<Rightarrow> 'v option) \<Rightarrow> doc_entry
      \<Rightarrow> 'v community_entries \<Rightarrow> 'v community_entries" where
  "counted_in tx c decode e s =
     (if \<not> by_its_member tx e then s
      else case c (de_hash e) of
             None \<Rightarrow> s\<lparr>cs_waiting := True\<rparr>
           | Some b \<Rightarrow>
               (case decode b of
                  None \<Rightarrow> s
                | Some v \<Rightarrow> s\<lparr>cs_entries := cs_entries s @
                    [\<lparr>ce_key = the (community_parse tx (de_key e)), ce_value = v, ce_written = de_timestamp e\<rparr>]\<rparr>))"

lemma count_entry_answering:
  "count_entry tx (answering E L c) decode e s = Inr (counted_in tx c decode e s)"
proof (cases "by_its_member tx e")
  case True
  then show ?thesis
    by (auto simp: count_entry_def counted_in_def by_its_member_def split: option.splits)
qed (simp add: count_entry_forged counted_in_def)

text \<open>The entries under a prefix that count.\<close>

definition said :: "id_texts \<Rightarrow> string \<Rightarrow> doc_entry list \<Rightarrow> doc_entry list" where
  "said tx p E = filter (\<lambda>e. starts_with p (de_key e) \<and> by_its_member tx e) E"

definition said_values ::
    "id_texts \<Rightarrow> (content_hash \<Rightarrow> bytes option) \<Rightarrow> (bytes \<Rightarrow> 'v option) \<Rightarrow> doc_entry list \<Rightarrow> 'v community_entries" where
  "said_values tx c decode es = fold_all (counted_in tx c decode) es \<lparr>cs_entries = [], cs_waiting = False\<rparr>"

lemma fold_all_counted_filter:
  "fold_all (counted_in tx c decode) (filter (by_its_member tx) es) s = fold_all (counted_in tx c decode) es s"
  by (induction es arbitrary: s) (simp_all add: counted_in_def)

lemma read_community_answering:
  "read_community_entries tx (answering E L c) p decode = Inr (said_values tx c decode (said tx p E))"
proof -
  have "said tx p E = filter (by_its_member tx) (filter (\<lambda>e. starts_with p (de_key e)) E)"
    by (simp add: said_def conj_commute)
  then show ?thesis
    using on_stream_total [of "count_entry tx (answering E L c) decode" "counted_in tx c decode",
        OF count_entry_answering]
    by (simp only: read_community_entries_def over_answering said_values_def fold_all_counted_filter)
qed

text \<open>What is read of an item.\<close>

definition folded ::
    "codecs \<Rightarrow> (content_hash \<Rightarrow> bytes option) \<Rightarrow> doc_entry \<Rightarrow> item_so_far \<Rightarrow> item_so_far" where
  "folded co c e s =
     (let s1 = s\<lparr>sf_found := True, sf_last_modified := max (sf_last_modified s) (de_timestamp e)\<rparr>
      in case c (de_hash e) of
           None \<Rightarrow> s1\<lparr>sf_waiting := True\<rparr>
         | Some b \<Rightarrow> s1\<lparr>sf_item := snd (absorb (tx_hex (co_texts co)) (co_item co) (de_key e) b (sf_item s1))\<rparr>)"

lemma fold_entry_answering:
  "fold_entry (co_texts co) (co_item co) (answering E L c) e s = Inr (folded co c e s)"
  by (simp add: fold_entry_def folded_def Let_def split: option.splits)

definition item_entries_in :: "codecs \<Rightarrow> item_id \<Rightarrow> doc_entry list \<Rightarrow> doc_entry list" where
  "item_entries_in co i es = filter (\<lambda>e. starts_with (prefix_of (tx_hex (co_texts co)) i) (de_key e)) es"

definition seen_item ::
    "codecs \<Rightarrow> (content_hash \<Rightarrow> bytes option) \<Rightarrow> item_id \<Rightarrow> doc_entry list \<Rightarrow> item_so_far" where
  "seen_item co c i es = fold_all (folded co c) es
     \<lparr>sf_item = item_new i, sf_last_modified = 0, sf_waiting = False, sf_found = False\<rparr>"

definition seen_authors :: "codecs \<Rightarrow> doc_entry list \<Rightarrow> (content_hash, member_id btset) btmap" where
  "seen_authors co es = fold_all (\<lambda>e a. projr (note_author (co_texts co) (co_on_curve co) e a)) es bt_empty"

lemma note_author_total: "note_author tx oc e a = Inr (projr (note_author tx oc e a))"
  by (simp add: note_author_def split: option.splits key.splits)

lemma read_file_authors_answering:
  "read_file_authors (co_texts co) (co_on_curve co) (answering E L c) i =
     Inr (seen_authors co (item_entries_in co i E))"
  unfolding read_file_authors_def over_answering seen_authors_def item_entries_in_def
  by (rule on_stream_total) (rule note_author_total)

lemma found_fold_all: "sf_found (fold_all (folded co c) es s) \<longleftrightarrow> sf_found s \<or> es \<noteq> []"
  by (induction es arbitrary: s) (auto simp: folded_def Let_def split: option.splits)

lemma read_item_answering:
  "read_item_of co (answering E L c) i =
     Inr (if item_entries_in co i L = [] then None
       else let s = seen_item co c i (item_entries_in co i L); tx = co_texts co;
                ratings = said_values tx c (rating_decode (co_community co)) (said tx (ratings_of tx i) E);
                reviews = said_values tx c (review_decode (co_community co)) (said tx (reviews_of tx i) E)
            in Some \<lparr>ri_item = sf_item s, ri_ratings = values_by_member (cs_entries ratings),
               ri_reviews = values_by_member (cs_entries reviews),
               ri_file_authors = seen_authors co (item_entries_in co i E),
               ri_last_modified = sf_last_modified s,
               ri_waiting = (sf_waiting s \<or> cs_waiting ratings \<or> cs_waiting reviews)\<rparr>)"
proof -
  have "over_answer (answering E L c) (dc_latest (answering E L c) (prefix_of (tx_hex (co_texts co)) i))
      (fold_entry (co_texts co) (co_item co) (answering E L c))
      \<lparr>sf_item = item_new i, sf_last_modified = 0, sf_waiting = False, sf_found = False\<rparr> =
    Inr (seen_item co c i (item_entries_in co i L))"
    unfolding over_answering seen_item_def item_entries_in_def
    by (rule on_stream_total) (rule fold_entry_answering)
  moreover have "sf_found (seen_item co c i es) \<longleftrightarrow> es \<noteq> []" for es
    by (simp add: seen_item_def found_fold_all)
  ultimately show ?thesis
    by (simp add: read_item_of_def read_community_answering read_file_authors_answering Let_def)
qed

section \<open>What the three kinds of rows are\<close>

type_synonym doc_view =
  "doc_entry list \<times> doc_entry list \<times> (content_hash \<Rightarrow> bytes option) \<times> member_id btset"

fun item_row :: "codecs \<Rightarrow> doc_view \<Rightarrow> item_id \<Rightarrow> stored_item option" where
  "item_row co (E, L, c, m) i =
     (case read_item_of co (answering E L c) i of Inr (Some r) \<Rightarrow> Some (stored_of m r) | _ \<Rightarrow> None)"

fun item_needs :: "codecs \<Rightarrow> doc_view \<Rightarrow> item_id \<Rightarrow> bool" where
  "item_needs co (E, L, c, m) i =
     (case read_item_of co (answering E L c) i of Inr (Some r) \<Rightarrow> ri_waiting r | _ \<Rightarrow> False)"

fun bookmark_rows :: "codecs \<Rightarrow> doc_view \<Rightarrow> item_id \<Rightarrow> stored_bookmark list" where
  "bookmark_rows co (E, L, c, m) i =
     (case read_bookmarks (co_texts co) (co_community co) (answering E L c) i of
        Inr r \<Rightarrow> stored_bookmarks m r | Inl _ \<Rightarrow> [])"

fun bookmark_needs :: "codecs \<Rightarrow> doc_view \<Rightarrow> item_id \<Rightarrow> bool" where
  "bookmark_needs co (E, L, c, m) i =
     (case read_bookmarks (co_texts co) (co_community co) (answering E L c) i of
        Inr r \<Rightarrow> ib_waiting r | Inl _ \<Rightarrow> False)"

definition no_wish :: stored_wish where
  "no_wish = \<lparr>sw_entries = bt_empty, sw_comments = bt_empty\<rparr>"

fun wish_row :: "codecs \<Rightarrow> doc_view \<Rightarrow> wish_id \<Rightarrow> stored_wish" where
  "wish_row co (E, L, c, m) w =
     (case read_wish_of (co_texts co) (co_community co) (answering E L c) w of
        Inr r \<Rightarrow> stored_wish_of m r | Inl _ \<Rightarrow> no_wish)"

text \<open>A wish only comments speak of is none, whatever content lands.\<close>

fun wish_needs :: "codecs \<Rightarrow> doc_view \<Rightarrow> wish_id \<Rightarrow> bool" where
  "wish_needs co (E, L, c, m) w \<longleftrightarrow>
     said (co_texts co) (wish_entries_of (co_texts co) w) E \<noteq> [] \<and>
     (case read_wish_of (co_texts co) (co_community co) (answering E L c) w of
        Inr r \<Rightarrow> rd_waiting r | Inl _ \<Rightarrow> False)"

lemma read_bookmarks_answering:
  "read_bookmarks tx cj (answering E L c) i =
     (let r = said_values tx c (bookmark_decode cj) (said tx (bookmarks_of tx i) E)
      in Inr \<lparr>ib_bookmarks = sort_key (\<lambda>b. (rb_member b, rb_id b))
              (List.map_filter (\<lambda>e. case ce_key e of
                   BookmarkKey _ member bookmark \<Rightarrow>
                     Some \<lparr>rb_member = member, rb_id = bookmark, rb_bookmark = ce_value e,
                       rb_last_modified = ce_written e\<rparr>
                 | _ \<Rightarrow> None) (cs_entries r)),
            ib_waiting = cs_waiting r\<rparr>)"
  by (simp add: read_bookmarks_def read_community_answering Let_def)

lemma read_wish_answering:
  "read_wish_of tx cj (answering E L c) w =
     (let es = said_values tx c (read_wish_value cj) (said tx (wish_entries_of tx w) E);
          cs = said_values tx c (comment_decode cj) (said tx (comments_on tx w) E)
      in Inr \<lparr>rd_entries = values_by_member (cs_entries es), rd_comments = values_by_member (cs_entries cs),
            rd_waiting = (cs_waiting es \<or> cs_waiting cs)\<rparr>)"
  by (simp add: read_wish_of_def read_community_answering Let_def)

section \<open>Content lands\<close>

lemma counted_waits: "cs_waiting s \<Longrightarrow> cs_waiting (fold_all (counted_in tx c decode) es s)"
  by (induction es arbitrary: s) (auto simp: counted_in_def split: option.splits)

lemma folded_waits: "sf_waiting s \<Longrightarrow> sf_waiting (fold_all (folded co c) es s)"
  by (induction es arbitrary: s) (auto simp: folded_def Let_def split: option.splits)

text \<open>A step that does not wait reads content that was here already.\<close>

lemma fold_all_landing:
  assumes "\<And>es s. waits s \<Longrightarrow> waits (fold_all g es s)"
    and "\<And>e s. \<not> waits (g e s) \<Longrightarrow> g' e s = g e s" and "\<not> waits (fold_all g es s)"
  shows "fold_all g' es s = fold_all g es s"
  using assms(3)
proof (induction es arbitrary: s)
  case (Cons e es)
  then have "\<not> waits (g e s)" using assms(1) by auto
  with Cons show ?case by (simp add: assms(2))
qed simp

lemma landed_content: "c \<subseteq>\<^sub>m c' \<Longrightarrow> c h = Some b \<Longrightarrow> c' h = Some b"
  by (auto simp: map_le_def dom_def)

lemma said_values_landing:
  assumes "c \<subseteq>\<^sub>m c'" and "\<not> cs_waiting (said_values tx c decode es)"
  shows "said_values tx c' decode es = said_values tx c decode es"
proof -
  have "counted_in tx c' decode e s = counted_in tx c decode e s" if "\<not> cs_waiting (counted_in tx c decode e s)" for e s
    using that landed_content [OF assms(1), of "de_hash e"]
    by (auto simp: counted_in_def split: option.splits if_splits)
  then show ?thesis
    using assms(2) counted_waits unfolding said_values_def
    by (intro fold_all_landing [where waits = cs_waiting]) auto
qed

lemma seen_item_landing:
  assumes "c \<subseteq>\<^sub>m c'" and "\<not> sf_waiting (seen_item co c i es)"
  shows "seen_item co c' i es = seen_item co c i es"
proof -
  have "folded co c' e s = folded co c e s" if "\<not> sf_waiting (folded co c e s)" for e s
    using that landed_content [OF assms(1), of "de_hash e"]
    by (auto simp: folded_def Let_def split: option.splits if_splits)
  then show ?thesis
    using assms(2) folded_waits unfolding seen_item_def
    by (intro fold_all_landing [where waits = sf_waiting]) auto
qed

fun lands :: "doc_view \<Rightarrow> doc_view \<Rightarrow> bool" where
  "lands (E, L, c, m) (E', L', c', m') \<longleftrightarrow> E' = E \<and> L' = L \<and> c \<subseteq>\<^sub>m c' \<and> m' = m"

lemma item_lands:
  assumes "lands d d'" and "\<not> item_needs co d i"
  shows "item_row co d' i = item_row co d i \<and> \<not> item_needs co d' i"
proof -
  obtain E L c m c' where d: "d = (E, L, c, m)" "d' = (E, L, c', m)" "c \<subseteq>\<^sub>m c'"
    using assms(1) by (cases d; cases d') auto
  have "read_item_of co (answering E L c') i = read_item_of co (answering E L c) i"
  proof (cases "item_entries_in co i L = []")
    case False
    let ?tx = "co_texts co" and ?cj = "co_community co"
    have "\<not> sf_waiting (seen_item co c i (item_entries_in co i L))"
      and "\<not> cs_waiting (said_values ?tx c (rating_decode ?cj) (said ?tx (ratings_of ?tx i) E))"
      and "\<not> cs_waiting (said_values ?tx c (review_decode ?cj) (said ?tx (reviews_of ?tx i) E))"
      using assms(2) False by (simp_all add: d read_item_answering Let_def)
    note this(1) [THEN seen_item_landing [OF d(3)]] this(2,3) [THEN said_values_landing [OF d(3)]]
    then show ?thesis unfolding read_item_answering Let_def by (simp only:)
  qed (simp add: read_item_answering)
  then show ?thesis using assms(2) by (simp add: d)
qed

lemma bookmarks_land:
  assumes "lands d d'" and "\<not> bookmark_needs co d i"
  shows "bookmark_rows co d' i = bookmark_rows co d i \<and> \<not> bookmark_needs co d' i"
proof -
  obtain E L c m c' where d: "d = (E, L, c, m)" "d' = (E, L, c', m)" "c \<subseteq>\<^sub>m c'"
    using assms(1) by (cases d; cases d') auto
  have "read_bookmarks (co_texts co) (co_community co) (answering E L c') i =
      read_bookmarks (co_texts co) (co_community co) (answering E L c) i"
  proof -
    have "\<not> cs_waiting (said_values (co_texts co) c (bookmark_decode (co_community co))
        (said (co_texts co) (bookmarks_of (co_texts co) i) E))"
      using assms(2) by (simp add: d read_bookmarks_answering Let_def)
    from said_values_landing [OF d(3) this] show ?thesis
      unfolding read_bookmarks_answering by (simp only:)
  qed
  then show ?thesis using assms(2) by (simp add: d)
qed

lemma no_entries_no_wish:
  "said (co_texts co) (wish_entries_of (co_texts co) w) E = [] \<Longrightarrow> wish_row co (E, L, c, m) w = no_wish"
  by (simp add: read_wish_answering Let_def said_values_def values_by_member_def stored_wish_of_def
      of_members_def no_wish_def bt_collect_def bt_empty.rep_eq)

lemma wish_lands:
  assumes "lands d d'" and "\<not> wish_needs co d w"
  shows "wish_row co d' w = wish_row co d w \<and> \<not> wish_needs co d' w"
proof -
  obtain E L c m c' where d: "d = (E, L, c, m)" "d' = (E, L, c', m)" "c \<subseteq>\<^sub>m c'"
    using assms(1) by (cases d; cases d') auto
  show ?thesis
  proof (cases "said (co_texts co) (wish_entries_of (co_texts co) w) E = []")
    case True
    then show ?thesis using no_entries_no_wish [OF True] by (simp only: d wish_needs.simps) simp
  next
    case False
    have "read_wish_of (co_texts co) (co_community co) (answering E L c') w =
        read_wish_of (co_texts co) (co_community co) (answering E L c) w"
    proof -
      let ?tx = "co_texts co" and ?cj = "co_community co"
      have "\<not> cs_waiting (said_values ?tx c (read_wish_value ?cj) (said ?tx (wish_entries_of ?tx w) E))"
        and "\<not> cs_waiting (said_values ?tx c (comment_decode ?cj) (said ?tx (comments_on ?tx w) E))"
        using assms(2) False by (simp_all add: d read_wish_answering Let_def)
      from this [THEN said_values_landing [OF d(3)]] show ?thesis
        unfolding read_wish_answering by (simp only:)
    qed
    then show ?thesis using assms(2) False by (simp add: d)
  qed
qed

section \<open>An entry arrives\<close>

lemma starts_with_iff: "starts_with p k \<longleftrightarrow> (\<exists>s. k = p @ s)"
  by (metis append_take_drop_id starts_with_def append_eq_conv_conj)

lemma key_under_item:
  assumes "hex_text hx" and "starts_with (prefix_of hx i) k" and "key_parse hx k = Some key"
  shows "key_item key = i"
proof -
  obtain s where "k = ITEMS @ CHR ''/'' # to_hex hx (item_bytes i) @ CHR ''/'' # s"
    using assms(2) by (auto simp: starts_with_iff prefix_of_def)
  then have "split_at CHR ''/'' k = ITEMS # to_hex hx (item_bytes i) # split_at CHR ''/'' s"
    using hex_textD(2) [OF assms(1)] by simp
  then show ?thesis
    using assms(3) hex_textD(1) [OF assms(1)]
    by (auto simp: key_parse_def when_over_def Option.bind_eq_Some_conv split: if_splits)
qed

text \<open>A community key under a prefix is a key of the kind the prefix is of.\<close>

lemma shown_under:
  assumes "text_ok f" and "show_id f x @ CHR ''/'' # s = show_id f y @ CHR ''/'' # s'"
  shows "x = y"
  using show_id_eq [OF assms] by simp

lemma community_under:
  assumes "texts_ok tx" and "community_parse tx k = Some c"
  shows "starts_with (ratings_of tx i) k \<Longrightarrow> \<exists>m. c = RatingKey i m"
    and "starts_with (reviews_of tx i) k \<Longrightarrow> \<exists>m. c = ReviewKey i m"
    and "starts_with (bookmarks_of tx i) k \<Longrightarrow> \<exists>m b. c = BookmarkKey i m b"
    and "starts_with (wish_entries_of tx w) k \<Longrightarrow> \<exists>m. c = WishKey w m"
    and "starts_with (comments_on tx w) k \<Longrightarrow> \<exists>m. c = WishCommentKey w m"
proof -
  note k = parsed_is_encoded [OF assms(2)]
  note ok = texts_okD [OF assms(1)]
  show "starts_with (ratings_of tx i) k \<Longrightarrow> \<exists>m. c = RatingKey i m"
    using shown_under [OF ok(1)] by (cases c) (auto simp: k starts_with_iff ratings_of_def community_words)
  show "starts_with (reviews_of tx i) k \<Longrightarrow> \<exists>m. c = ReviewKey i m"
    using shown_under [OF ok(1)] by (cases c) (auto simp: k starts_with_iff reviews_of_def community_words)
  show "starts_with (bookmarks_of tx i) k \<Longrightarrow> \<exists>m b. c = BookmarkKey i m b"
    using shown_under [OF ok(1)] by (cases c) (auto simp: k starts_with_iff bookmarks_of_def community_words)
  show "starts_with (wish_entries_of tx w) k \<Longrightarrow> \<exists>m. c = WishKey w m"
    using shown_under [OF ok(4)] by (cases c) (auto simp: k starts_with_iff wish_entries_of_def community_words)
  show "starts_with (comments_on tx w) k \<Longrightarrow> \<exists>m. c = WishCommentKey w m"
    using shown_under [OF ok(4)] by (cases c) (auto simp: k starts_with_iff comments_on_def community_words)
qed

lemma community_is_no_item:
  assumes "community_parse tx k = Some c"
  shows "key_parse hx k = None"
proof -
  obtain s where "k = CHR ''r'' # s \<or> k = CHR ''b'' # s \<or> k = CHR ''w'' # s \<or> k = CHR ''p'' # s"
    using parsed_is_encoded [OF assms] by (cases c) (auto simp: community_words)
  then show ?thesis
    by (auto simp: key_parse_def Option.bind_eq_None_conv ITEMS_def split: list.splits)
qed

text \<open>What is marked for a key.\<close>

definition marks :: "id_texts \<Rightarrow> string \<Rightarrow> batch" where
  "marks tx k = fst (snd (note_key tx k batch_new))"

lemma note_key_marks:
  "bt_has (ba_items (fst (snd (note_key tx k b)))) i \<longleftrightarrow> bt_has (ba_items b) i \<or> bt_has (ba_items (marks tx k)) i"
  "bt_has (ba_bookmarks (fst (snd (note_key tx k b)))) i \<longleftrightarrow>
     bt_has (ba_bookmarks b) i \<or> bt_has (ba_bookmarks (marks tx k)) i"
  "bt_has (ba_wishes (fst (snd (note_key tx k b)))) w \<longleftrightarrow> bt_has (ba_wishes b) w \<or> bt_has (ba_wishes (marks tx k)) w"
  "ba_content (fst (snd (note_key tx k b))) = ba_content b"
  by (auto simp: marks_def note_key_def batch_new_def bt_has_def split: option.splits community_key.splits)

lemma marks_simps:
  assumes "community_parse tx k = Some c"
  shows "c = RatingKey i m \<Longrightarrow> bt_has (ba_items (marks tx k)) i"
    and "c = ReviewKey i m \<Longrightarrow> bt_has (ba_items (marks tx k)) i"
    and "c = BookmarkKey i m b \<Longrightarrow> bt_has (ba_bookmarks (marks tx k)) i"
    and "c = WishKey w m \<Longrightarrow> bt_has (ba_wishes (marks tx k)) w"
    and "c = WishCommentKey w m \<Longrightarrow> bt_has (ba_wishes (marks tx k)) w"
  using assms community_is_no_item [OF assms] by (simp_all add: marks_def note_key_def bt_has_def)

lemma item_marks: "key_parse (tx_hex tx) k = Some key \<Longrightarrow> bt_has (ba_items (marks tx k)) (key_item key)"
  by (simp add: marks_def note_key_def bt_has_def)

definition same_but :: "string \<Rightarrow> doc_entry list \<Rightarrow> doc_entry list \<Rightarrow> bool" where
  "same_but k xs ys \<longleftrightarrow> filter (\<lambda>e. de_key e \<noteq> k) xs = filter (\<lambda>e. de_key e \<noteq> k) ys"

lemma same_but_filter:
  assumes "same_but k xs ys" and "\<And>e. de_key e = k \<Longrightarrow> \<not> Q e"
  shows "filter Q ys = filter Q xs"
proof -
  have "filter Q zs = filter Q (filter (\<lambda>e. de_key e \<noteq> k) zs)" for zs
    using assms(2) by (auto intro!: filter_cong)
  then show ?thesis using assms(1) unfolding same_but_def by metis
qed

lemma same_but_keys:
  assumes "same_but k xs ys" and "j \<noteq> k"
  shows "j \<in> de_key ` set ys \<longleftrightarrow> j \<in> de_key ` set xs"
proof -
  have "j \<in> de_key ` set zs \<longleftrightarrow> j \<in> de_key ` set (filter (\<lambda>e. de_key e \<noteq> k) zs)" for zs
    using assms(2) by auto
  then show ?thesis using assms(1) unfolding same_but_def by metis
qed

text \<open>
  An entry at \<open>k\<close> arrives, is written over or is deleted: nothing else changes. A key under the items
  is one this build knows, and is not deleted.
\<close>

fun arrives :: "codecs \<Rightarrow> string \<Rightarrow> doc_view \<Rightarrow> doc_view \<Rightarrow> bool" where
  "arrives co k (E, L, c, m) (E', L', c', m') \<longleftrightarrow>
     same_but k E E' \<and> same_but k L L' \<and> c' = c \<and> m' = m \<and>
     (k \<in> de_key ` set L' \<longleftrightarrow> k \<in> de_key ` set E') \<and>
     (starts_with all_items k \<longrightarrow> key_parse (tx_hex (co_texts co)) k \<noteq> None \<and> k \<in> de_key ` set L')"

fun doc_ok :: "codecs \<Rightarrow> doc_view \<Rightarrow> bool" where
  "doc_ok co (E, L, c, m) \<longleftrightarrow> de_key ` set L = de_key ` set E \<and>
     (\<forall>k \<in> de_key ` set L. starts_with all_items k \<longrightarrow> key_parse (tx_hex (co_texts co)) k \<noteq> None)"

lemma doc_ok_arrives:
  assumes "doc_ok co d" and "arrives co k d d'"
  shows "doc_ok co d'"
proof -
  obtain E L c m E' L' where d: "d = (E, L, c, m)" "d' = (E', L', c, m)"
    using assms(2) by (cases d; cases d') auto
  have keys: "j \<in> de_key ` set L' \<longleftrightarrow> j \<in> de_key ` set E'" for j
    using assms same_but_keys [of k E E' j] same_but_keys [of k L L' j] by (cases "j = k") (auto simp: d)
  have "key_parse (tx_hex (co_texts co)) j \<noteq> None" if "j \<in> de_key ` set L'" and "starts_with all_items j" for j
  proof (cases "j = k")
    case False
    then have "j \<in> de_key ` set L" using assms(2) same_but_keys [of k L L' j] that(1) by (simp add: d)
    then show ?thesis using assms(1) that(2) unfolding d doc_ok.simps by blast
  qed (use assms(2) that(2) in \<open>simp add: d\<close>)
  with keys show ?thesis by (auto simp: d)
qed

lemma said_arrives:
  assumes "same_but k E E'" and "\<And>c. community_parse tx k = Some c \<Longrightarrow> \<not> starts_with p k"
  shows "said tx p E' = said tx p E"
  unfolding said_def by (rule same_but_filter [OF assms(1)]) (use assms(2) in \<open>auto simp: by_its_member_def\<close>)

lemma items_start: "starts_with (prefix_of hx i) k \<Longrightarrow> starts_with all_items k"
  by (auto simp: starts_with_iff prefix_of_def all_items_def)

lemma item_arrives:
  assumes "texts_ok (co_texts co)" and "arrives co k d d'"
    and "\<not> bt_has (ba_items (marks (co_texts co) k)) i"
  shows "item_row co d' i = item_row co d i \<and> item_needs co d' i = item_needs co d i"
proof -
  let ?tx = "co_texts co"
  obtain E L c m E' L' where d: "d = (E, L, c, m)" "d' = (E', L', c, m)"
    and same: "same_but k E E'" "same_but k L L'"
    and known: "starts_with all_items k \<Longrightarrow> key_parse (tx_hex ?tx) k \<noteq> None"
    using assms(2) by (cases d; cases d') auto
  have "\<not> starts_with (prefix_of (tx_hex ?tx) i) k"
    using known items_start key_under_item [OF texts_okD(5) [OF assms(1)]] item_marks [of ?tx k] assms(3)
    by fastforce
  then have "item_entries_in co i L' = item_entries_in co i L" "item_entries_in co i E' = item_entries_in co i E"
    unfolding item_entries_in_def by (auto intro!: same_but_filter [OF same(1)] same_but_filter [OF same(2)])
  moreover have "said ?tx (ratings_of ?tx i) E' = said ?tx (ratings_of ?tx i) E"
    using community_under(1) [OF assms(1)] marks_simps(1) assms(3) by (intro said_arrives [OF same(1)]) blast
  moreover have "said ?tx (reviews_of ?tx i) E' = said ?tx (reviews_of ?tx i) E"
    using community_under(2) [OF assms(1)] marks_simps(2) assms(3) by (intro said_arrives [OF same(1)]) blast
  ultimately have "read_item_of co (answering E' L' c) i = read_item_of co (answering E L c) i"
    unfolding read_item_answering Let_def by (simp only:)
  then show ?thesis by (simp add: d)
qed

lemma bookmarks_arrive:
  assumes "texts_ok (co_texts co)" and "arrives co k d d'"
    and "\<not> bt_has (ba_bookmarks (marks (co_texts co) k)) i"
  shows "bookmark_rows co d' i = bookmark_rows co d i \<and> bookmark_needs co d' i = bookmark_needs co d i"
proof -
  let ?tx = "co_texts co"
  obtain E L c m E' L' where d: "d = (E, L, c, m)" "d' = (E', L', c, m)" and same: "same_but k E E'"
    using assms(2) by (cases d; cases d') auto
  have "said ?tx (bookmarks_of ?tx i) E' = said ?tx (bookmarks_of ?tx i) E"
    using community_under(3) [OF assms(1)] marks_simps(3) assms(3) by (intro said_arrives [OF same]) blast
  then show ?thesis by (simp add: d read_bookmarks_answering)
qed

lemma wish_arrives:
  assumes "texts_ok (co_texts co)" and "arrives co k d d'"
    and "\<not> bt_has (ba_wishes (marks (co_texts co) k)) w"
  shows "wish_row co d' w = wish_row co d w \<and> wish_needs co d' w = wish_needs co d w"
proof -
  let ?tx = "co_texts co"
  obtain E L c m E' L' where d: "d = (E, L, c, m)" "d' = (E', L', c, m)" and same: "same_but k E E'"
    using assms(2) by (cases d; cases d') auto
  have "said ?tx (wish_entries_of ?tx w) E' = said ?tx (wish_entries_of ?tx w) E"
    using community_under(4) [OF assms(1)] marks_simps(4) assms(3) by (intro said_arrives [OF same]) blast
  moreover have "said ?tx (comments_on ?tx w) E' = said ?tx (comments_on ?tx w) E"
    using community_under(5) [OF assms(1)] marks_simps(5) assms(3) by (intro said_arrives [OF same]) blast
  ultimately show ?thesis by (simp add: d read_wish_answering)
qed

definition arrives_marking :: "codecs \<Rightarrow> (batch \<Rightarrow> 'k::linorder btset) \<Rightarrow> doc_view \<Rightarrow> doc_view \<Rightarrow> 'k set \<Rightarrow> bool" where
  "arrives_marking co sel d d' ks \<longleftrightarrow>
     texts_ok (co_texts co) \<and> (\<exists>k. arrives co k d d' \<and> ks = dom (bt_get (sel (marks (co_texts co) k))))"

lemma items_arrival:
  assumes "arrives_marking co ba_items d d' ks" and "k \<notin> ks"
  shows "item_row co d' k = item_row co d k \<and> item_needs co d' k = item_needs co d k"
  using assms item_arrives [of co _ d d' k] by (auto simp: arrives_marking_def bt_has_dom)

interpretation items_row: rows_in_step "item_row co" "item_needs co" "arrives_marking co ba_items" lands for co
  by unfold_locales (blast dest: items_arrival item_lands)+

lemma bookmarks_arrival:
  assumes "arrives_marking co ba_bookmarks d d' ks" and "k \<notin> ks"
  shows "bookmark_rows co d' k = bookmark_rows co d k \<and> bookmark_needs co d' k = bookmark_needs co d k"
  using assms bookmarks_arrive [of co _ d d' k] by (auto simp: arrives_marking_def bt_has_dom)

interpretation bookmarks_row: rows_in_step "bookmark_rows co" "bookmark_needs co" "arrives_marking co ba_bookmarks" lands for co
  by unfold_locales (blast dest: bookmarks_arrival bookmarks_land)+

lemma wishes_arrival:
  assumes "arrives_marking co ba_wishes d d' ks" and "k \<notin> ks"
  shows "wish_row co d' k = wish_row co d k \<and> wish_needs co d' k = wish_needs co d k"
  using assms wish_arrives [of co _ d d' k] by (auto simp: arrives_marking_def bt_has_dom)

interpretation wishes_row: rows_in_step "wish_row co" "wish_needs co" "arrives_marking co ba_wishes" lands for co
  by unfold_locales (blast dest: wishes_arrival wish_lands)+

section \<open>The read model at work\<close>

text \<open>
  The document and what is here of its content, the pump, the projection, and what of the last batch
  or replay is yet to be read, in that order.
\<close>

record read_model =
  rm_entries :: "doc_entry list"
  rm_latest :: "doc_entry list"
  rm_content :: "content_hash \<Rightarrow> bytes option"
  rm_pump :: pump
  rm_proj :: projection
  rm_items :: "item_id list"
  rm_bookmarked :: "item_id list"
  rm_wishes :: "wish_id list"

definition rm_doc :: "read_model \<Rightarrow> document" where
  "rm_doc s = answering (rm_entries s) (rm_latest s) (rm_content s)"

definition rm_view :: "read_model \<Rightarrow> doc_view" where
  "rm_view s = (rm_entries s, rm_latest s, rm_content s, pj_members (rm_proj s))"

definition rm_idle :: "read_model \<Rightarrow> bool" where
  "rm_idle s \<longleftrightarrow> rm_items s = [] \<and> rm_bookmarked s = [] \<and> rm_wishes s = []"

text \<open>Calls that do not fail, on the document as it is.\<close>

definition calm :: "codecs \<Rightarrow> read_model \<Rightarrow> project_env \<Rightarrow> bool" where
  "calm co s env \<longleftrightarrow> en_codecs env = co \<and> en_doc env = rm_doc s \<and> \<not> en_members_fail env \<and>
     (\<forall>i. \<not> en_item_fails env i \<and> \<not> en_bookmarks_fail env i) \<and> (\<forall>w. \<not> en_wish_fails env w)"

definition read_everything :: "codecs \<Rightarrow> read_model \<Rightarrow> read_model" where
  "read_everything co s =
     (case (item_ids (co_texts co) (rm_doc s), bookmarked_item_ids (co_texts co) (rm_doc s),
            wish_ids (co_texts co) (rm_doc s)) of
        (Inr is, Inr bs, Inr ws) \<Rightarrow>
          s\<lparr>rm_items := bt_keys is, rm_bookmarked := bt_keys bs, rm_wishes := bt_keys ws\<rparr>
      | _ \<Rightarrow> s)"

text \<open>The steps of the projection's own.\<close>

inductive rm_work :: "codecs \<Rightarrow> read_model \<Rightarrow> read_model \<Rightarrow> bool" for co where
  Take: "rm_idle s \<Longrightarrow> take_changes (rm_pump s) = (Some b, p) \<Longrightarrow>
    rm_work co s (s\<lparr>rm_pump := p,
      rm_items := bt_keys (if ba_content b then bts_union (ba_items b) (pj_items_waiting (rm_proj s)) else ba_items b),
      rm_bookmarked := bt_keys (if ba_content b then bts_union (ba_bookmarks b) (pj_bookmarks_waiting (rm_proj s))
        else ba_bookmarks b),
      rm_wishes := bt_keys (if ba_content b then bts_union (ba_wishes b) (pj_wishes_waiting (rm_proj s))
        else ba_wishes b)\<rparr>)"
| ReadItem: "rm_items s = i # is \<Longrightarrow> calm co s env \<Longrightarrow>
    rm_work co s (s\<lparr>rm_proj := snd (project_item env i (rm_proj s)), rm_items := is\<rparr>)"
| ReadBookmarks: "rm_items s = [] \<Longrightarrow> rm_bookmarked s = i # is \<Longrightarrow> calm co s env \<Longrightarrow>
    rm_work co s (s\<lparr>rm_proj := snd (project_bookmarks_of env i (rm_proj s)), rm_bookmarked := is\<rparr>)"
| ReadWish: "rm_items s = [] \<Longrightarrow> rm_bookmarked s = [] \<Longrightarrow> rm_wishes s = w # ws \<Longrightarrow> calm co s env \<Longrightarrow>
    rm_work co s (s\<lparr>rm_proj := snd (project_wish env w (rm_proj s)), rm_wishes := ws\<rparr>)"

text \<open>What of the projection the rows depend on; the search index and the count of replays are not of it.\<close>

definition rows_of ::
    "projection \<Rightarrow> tables \<times> member_id btset \<times> item_id btset \<times> item_id btset \<times> wish_id btset" where
  "rows_of w = (pj_tables w, pj_members w, pj_items_waiting w, pj_bookmarks_waiting w, pj_wishes_waiting w)"

text \<open>And everything that happens meanwhile.\<close>

fun of_the_swarm :: "live_event \<Rightarrow> bool" where
  "of_the_swarm (NeighborUp _) = True"
| "of_the_swarm (NeighborDown _) = True"
| "of_the_swarm (SyncFinished _) = True"
| "of_the_swarm _ = False"

inductive rm_step :: "codecs \<Rightarrow> read_model \<Rightarrow> read_model \<Rightarrow> bool" for co where
  Work: "rm_work co s s' \<Longrightarrow> rm_step co s s'"
| Arrives: "arrives co (de_key e) (rm_view s) (E', L', rm_content s, pj_members (rm_proj s)) \<Longrightarrow>
    ev = InsertLocal e \<or> ev = InsertRemote e \<Longrightarrow>
    rm_step co s (s\<lparr>rm_entries := E', rm_latest := L',
      rm_pump := pump_turn (co_texts co) now (Some ev) (rm_pump s)\<rparr>)"
| Lands: "rm_content s \<subseteq>\<^sub>m c' \<Longrightarrow>
    p = content_landed (rm_pump s) \<or>
    (\<exists>ev \<in> {ContentReady, PendingContentReady}. p = pump_turn (co_texts co) now (Some ev) (rm_pump s)) \<Longrightarrow>
    rm_step co s (s\<lparr>rm_content := c', rm_pump := p\<rparr>)"
| Swarm: "of_the_swarm ev \<Longrightarrow> rm_step co s (s\<lparr>rm_pump := pump_turn (co_texts co) now (Some ev) (rm_pump s)\<rparr>)"
| Members: "rm_idle s \<Longrightarrow> calm co s env \<Longrightarrow> project_members env log (rm_proj s) = (members, w) \<Longrightarrow>
    members \<noteq> pj_members w \<Longrightarrow>
    rm_step co s (read_everything co (s\<lparr>rm_proj := w\<lparr>pj_members := members\<rparr>\<rparr>))"
| SameMembers: "rm_idle s \<Longrightarrow> calm co s env \<Longrightarrow> project_members env log (rm_proj s) = (members, w) \<Longrightarrow>
    members = pj_members w \<Longrightarrow> rm_step co s (s\<lparr>rm_proj := w\<rparr>)"
| Reindex: "rm_idle s \<Longrightarrow> rm_step co s (read_everything co s)"
| Bookkeeping: "rows_of w = rows_of (rm_proj s) \<Longrightarrow> rm_step co s (s\<lparr>rm_proj := w\<rparr>)"

section \<open>What each step does to the rows\<close>

lemma absorb_keeps_id [simp]: "it_id (snd (absorb hx js k b it)) = it_id it"
proof -
  have "it_id (snd (absorb_field js f b it)) = it_id it" for f
    by (cases f) (simp_all split: prod.splits)
  then show ?thesis by (simp add: absorb_def split: option.splits key.splits)
qed

lemma seen_item_id [simp]: "it_id (sf_item (seen_item co c i es)) = i"
proof -
  have "it_id (sf_item (fold_all (folded co c) es s)) = it_id (sf_item s)" for s
    by (induction es arbitrary: s) (simp_all add: folded_def Let_def split: option.splits)
  then show ?thesis by (simp add: seen_item_def item_new_def)
qed

lemma set_waiting_dom [simp]:
  "dom (bt_get (set_waiting wt k s)) = (if wt then insert k (dom (bt_get s)) else dom (bt_get s) - {k})"
  by (auto simp: set_waiting_def)

lemma calm_view:
  assumes "calm co s env"
  shows "en_doc env = answering (rm_entries s) (rm_latest s) (rm_content s)" and "en_codecs env = co"
  using assms by (simp_all add: calm_def rm_doc_def)

lemma project_item_effect:
  assumes "calm co s env" and "w = rm_proj s" and "w' = snd (project_item env i w)"
  shows "bt_get (tb_items (pj_tables w')) =
      (if item_row co (rm_view s) i = None then bt_get (tb_items (pj_tables w))
       else (bt_get (tb_items (pj_tables w)))(i := item_row co (rm_view s) i))"
    and "j \<noteq> i \<Longrightarrow> j \<in> dom (bt_get (pj_items_waiting w')) \<longleftrightarrow> j \<in> dom (bt_get (pj_items_waiting w))"
    and "item_needs co (rm_view s) i \<Longrightarrow> i \<in> dom (bt_get (pj_items_waiting w'))"
    and "pj_members w' = pj_members w" and "tb_bookmarks (pj_tables w') = tb_bookmarks (pj_tables w)"
    and "tb_wishes (pj_tables w') = tb_wishes (pj_tables w)"
    and "pj_bookmarks_waiting w' = pj_bookmarks_waiting w" and "pj_wishes_waiting w' = pj_wishes_waiting w"
proof -
  let ?d = "answering (rm_entries s) (rm_latest s) (rm_content s)"
  have "\<not> en_item_fails env i" using assms(1) by (simp add: calm_def)
  note env = calm_view [OF assms(1)] this
  have "bt_get (tb_items (pj_tables w')) =
      (if item_row co (rm_view s) i = None then bt_get (tb_items (pj_tables w))
       else (bt_get (tb_items (pj_tables w)))(i := item_row co (rm_view s) i)) \<and>
    (j \<noteq> i \<longrightarrow> j \<in> dom (bt_get (pj_items_waiting w')) \<longleftrightarrow> j \<in> dom (bt_get (pj_items_waiting w))) \<and>
    (item_needs co (rm_view s) i \<longrightarrow> i \<in> dom (bt_get (pj_items_waiting w'))) \<and>
    pj_members w' = pj_members w \<and> tb_bookmarks (pj_tables w') = tb_bookmarks (pj_tables w) \<and>
    tb_wishes (pj_tables w') = tb_wishes (pj_tables w) \<and>
    pj_bookmarks_waiting w' = pj_bookmarks_waiting w \<and> pj_wishes_waiting w' = pj_wishes_waiting w"
  proof (cases "read_item_of co ?d i")
    case (Inr ro)
    show ?thesis
    proof (cases ro)
      case None
      then show ?thesis using Inr env by (simp add: assms(3) project_item_def rm_view_def)
    next
      case (Some r)
      then have "it_id (ri_item r) = i"
        using Inr by (auto simp: read_item_answering Let_def split: if_splits)
      then have "bt_get (tb_items (pj_tables w')) = (bt_get (tb_items (pj_tables w)))(i \<mapsto> stored_of (pj_members w) r)"
        and "pj_items_waiting w' = set_waiting (ri_waiting r) i (pj_items_waiting w)"
        and "pj_members w' = pj_members w \<and> tb_bookmarks (pj_tables w') = tb_bookmarks (pj_tables w) \<and>
          tb_wishes (pj_tables w') = tb_wishes (pj_tables w) \<and>
          pj_bookmarks_waiting w' = pj_bookmarks_waiting w \<and> pj_wishes_waiting w' = pj_wishes_waiting w"
        using Inr Some env
        by (auto simp: assms(3) project_item_def Let_def upsert_item_def stored_of_def fun_eq_iff split: if_splits)
      then show ?thesis using Inr Some assms(2) by (auto simp: rm_view_def)
    qed
  qed (simp add: read_item_answering)
  then show "bt_get (tb_items (pj_tables w')) =
      (if item_row co (rm_view s) i = None then bt_get (tb_items (pj_tables w))
       else (bt_get (tb_items (pj_tables w)))(i := item_row co (rm_view s) i))"
    and "j \<noteq> i \<Longrightarrow> j \<in> dom (bt_get (pj_items_waiting w')) \<longleftrightarrow> j \<in> dom (bt_get (pj_items_waiting w))"
    and "item_needs co (rm_view s) i \<Longrightarrow> i \<in> dom (bt_get (pj_items_waiting w'))"
    and "pj_members w' = pj_members w" and "tb_bookmarks (pj_tables w') = tb_bookmarks (pj_tables w)"
    and "tb_wishes (pj_tables w') = tb_wishes (pj_tables w)"
    and "pj_bookmarks_waiting w' = pj_bookmarks_waiting w" and "pj_wishes_waiting w' = pj_wishes_waiting w"
    by blast+
qed

lemma project_bookmarks_effect:
  assumes "calm co s env" and "w = rm_proj s" and "w' = snd (project_bookmarks_of env i w)"
  shows "tb_bookmarks (pj_tables w') = (tb_bookmarks (pj_tables w))(i := bookmark_rows co (rm_view s) i) \<and>
    pj_bookmarks_waiting w' = set_waiting (bookmark_needs co (rm_view s) i) i (pj_bookmarks_waiting w) \<and>
    pj_members w' = pj_members w \<and> tb_items (pj_tables w') = tb_items (pj_tables w) \<and>
    tb_wishes (pj_tables w') = tb_wishes (pj_tables w) \<and>
    pj_items_waiting w' = pj_items_waiting w \<and> pj_wishes_waiting w' = pj_wishes_waiting w"
proof -
  have "\<not> en_bookmarks_fail env i" using assms(1) by (simp add: calm_def)
  then show ?thesis
    using calm_view [OF assms(1)]
    by (simp add: assms(2,3) project_bookmarks_of_def read_bookmarks_answering Let_def
        replace_bookmarks_def rm_view_def)
qed

lemma project_wish_effect:
  assumes "calm co s env" and "w = rm_proj s" and "w' = snd (project_wish env wi w)"
  shows "tb_wishes (pj_tables w') = (tb_wishes (pj_tables w))(wi := wish_row co (rm_view s) wi) \<and>
    (\<forall>j. j \<noteq> wi \<longrightarrow> j \<in> dom (bt_get (pj_wishes_waiting w')) \<longleftrightarrow> j \<in> dom (bt_get (pj_wishes_waiting w))) \<and>
    (wish_needs co (rm_view s) wi \<longrightarrow> wi \<in> dom (bt_get (pj_wishes_waiting w'))) \<and>
    pj_members w' = pj_members w \<and> tb_items (pj_tables w') = tb_items (pj_tables w) \<and>
    tb_bookmarks (pj_tables w') = tb_bookmarks (pj_tables w) \<and>
    pj_items_waiting w' = pj_items_waiting w \<and> pj_bookmarks_waiting w' = pj_bookmarks_waiting w"
proof -
  have "\<not> en_wish_fails env wi" using assms(1) by (simp add: calm_def)
  then show ?thesis
    using calm_view [OF assms(1)]
    by (auto simp: assms(2,3) project_wish_def read_wish_answering Let_def replace_wish_def rm_view_def)
qed

text \<open>What each event of the document leaves of the batch.\<close>

lemma batch_after_insert:
  "ev = InsertLocal e \<or> ev = InsertRemote e \<Longrightarrow>
   pu_batch (pump_turn tx now (Some ev) p) = fst (snd (note_key tx (de_key e) (pu_batch p)))"
  by (auto simp: pump_turn_def note_entry_def pump_wake_def tell_probe_failures_def split: prod.splits)

lemma batch_after_landing:
  "p' = content_landed p \<or> (\<exists>ev \<in> {ContentReady, PendingContentReady}. p' = pump_turn tx now (Some ev) p) \<Longrightarrow>
   pu_batch p' = (pu_batch p)\<lparr>ba_content := True\<rparr>"
  by (auto simp: content_landed_def pump_turn_def mark_content_landed_def pump_wake_def tell_probe_failures_def
      split: prod.splits)

lemma batch_after_swarm: "of_the_swarm ev \<Longrightarrow> pu_batch (pump_turn tx now (Some ev) p) = pu_batch p"
  by (cases ev) (simp_all add: pump_turn_def told_if_def)

lemma bts_union_get [simp]:
  "bt_get (bts_union s t) k = (if bt_get s k = None then bt_get t k else Some ())"
proof -
  have "bt_get (fold bts_insert ks s) k = (if k \<in> set ks then Some () else bt_get s k)" for ks
    by (induction ks arbitrary: s) auto
  then show ?thesis by (cases "bt_get t k") (auto simp: bts_union_def)
qed

section \<open>A replay misses nothing\<close>

lemma item_ids_answering:
  "\<exists>ids. item_ids tx (answering E L c) = Inr ids \<and>
     (\<forall>e key. e \<in> set L \<longrightarrow> starts_with all_items (de_key e) \<longrightarrow> key_parse (tx_hex tx) (de_key e) = Some key \<longrightarrow>
        bt_has ids (key_item key))"
proof -
  have "on_stream (\<lambda>e keys. Inr (keys @ [de_key e])) (map Some es) ks = Inr (ks @ map de_key es)" for es ks
    by (induction es arbitrary: ks) simp_all
  then have "item_ids tx (answering E L c) =
      Inr (items_in (tx_hex tx) (map de_key (filter (\<lambda>e. starts_with all_items (de_key e)) L)))"
    by (simp add: item_ids_def)
  moreover have "bt_has (items_in hx ks) (key_item key)" if "k \<in> set ks" and "key_parse hx k = Some key" for hx ks k key
  proof -
    have "key \<in> set (List.map_filter (key_parse hx) ks)"
      using that by (force simp: List.map_filter_def)
    then show ?thesis by (simp add: items_in_def)
  qed
  note this [of _ "map de_key (filter (\<lambda>e. starts_with all_items (de_key e)) L)" "tx_hex tx"]
  ultimately show ?thesis by auto
qed

text \<open>Collecting something of each entry into a set.\<close>

lemma fold_all_collect:
  assumes "\<And>e s j. bt_has (g e s) j \<longleftrightarrow> bt_has s j \<or> P e j"
  shows "bt_has (fold_all g es s) j \<longleftrightarrow> bt_has s j \<or> (\<exists>e \<in> set es. P e j)"
  by (induction es arbitrary: s) (auto simp: assms)

lemma bookmarked_answering:
  "\<exists>ids. bookmarked_item_ids tx (answering E L c) = Inr ids \<and>
     (\<forall>i. bt_has ids i \<longleftrightarrow> (\<exists>e \<in> set L. starts_with all_bookmarks (de_key e) \<and>
        (\<exists>m b. community_parse tx (de_key e) = Some (BookmarkKey i m b))))"
proof -
  define g where "g e is = (case community_parse tx (de_key e) of
      Some (BookmarkKey i _ _) \<Rightarrow> bts_insert i is | _ \<Rightarrow> is)" for e :: doc_entry and "is"
  have "bookmarked_item_ids tx (answering E L c) =
      Inr (fold_all g (filter (\<lambda>e. starts_with all_bookmarks (de_key e)) L) bt_empty)"
    unfolding bookmarked_item_ids_def over_answering
    by (rule on_stream_total) (simp add: g_def split: option.splits community_key.splits)
  moreover have "bt_has (g e s) j \<longleftrightarrow> bt_has s j \<or> (\<exists>m b. community_parse tx (de_key e) = Some (BookmarkKey j m b))"
    for e s j
    by (auto simp: g_def split: option.splits community_key.splits)
  note fold_all_collect [of g, OF this]
  ultimately show ?thesis by auto
qed

lemma wish_ids_answering:
  "\<exists>ids. wish_ids tx (answering E L c) = Inr ids \<and>
     (\<forall>w. bt_has ids w \<longleftrightarrow> (\<exists>e \<in> set L. starts_with all_wish_entries (de_key e) \<and>
        (\<exists>m. community_parse tx (de_key e) = Some (WishKey w m))))"
proof -
  define g where "g e ws = (case community_parse tx (de_key e) of
      Some (WishKey w _) \<Rightarrow> bts_insert w ws | _ \<Rightarrow> ws)" for e :: doc_entry and ws
  have "wish_ids tx (answering E L c) =
      Inr (fold_all g (filter (\<lambda>e. starts_with all_wish_entries (de_key e)) L) bt_empty)"
    unfolding wish_ids_def over_answering
    by (rule on_stream_total) (simp add: g_def split: option.splits community_key.splits)
  moreover have "bt_has (g e s) j \<longleftrightarrow> bt_has s j \<or> (\<exists>m. community_parse tx (de_key e) = Some (WishKey j m))"
    for e s j
    by (auto simp: g_def split: option.splits community_key.splits)
  note fold_all_collect [of g, OF this]
  ultimately show ?thesis by auto
qed

lemma unlisted_item:
  assumes "texts_ok (co_texts co)" and "doc_ok co (E, L, c, m)"
    and "item_ids (co_texts co) (answering E L c) = Inr ids" and "\<not> bt_has ids i"
  shows "item_row co (E, L, c, m') i = None \<and> \<not> item_needs co (E, L, c, m') i"
proof -
  have "item_entries_in co i L = []"
  proof (rule ccontr)
    assume "item_entries_in co i L \<noteq> []"
    then obtain e where "e \<in> set (item_entries_in co i L)" by (metis last_in_set)
    then have e: "e \<in> set L" "starts_with (prefix_of (tx_hex (co_texts co)) i) (de_key e)"
      by (auto simp: item_entries_in_def)
    then obtain key where key: "key_parse (tx_hex (co_texts co)) (de_key e) = Some key"
      using assms(2) items_start by fastforce
    then have "bt_has ids (key_item key)"
      using item_ids_answering [of "co_texts co" E L c] assms(3) e items_start by fastforce
    then show False
      using key_under_item [OF texts_okD(5) [OF assms(1)] e(2) key] assms(4) by simp
  qed
  then show ?thesis by (simp add: read_item_answering)
qed

lemma unlisted_said:
  assumes "de_key ` set L = de_key ` set E" and "said tx p E \<noteq> []"
  shows "\<exists>e k. e \<in> set L \<and> starts_with p (de_key e) \<and> community_parse tx (de_key e) = Some k"
proof -
  obtain x where "x \<in> set (said tx p E)" using assms(2) by (metis last_in_set)
  then have "x \<in> set E" "starts_with p (de_key x)" "\<exists>k. community_parse tx (de_key x) = Some k"
    by (auto simp: said_def by_its_member_def)
  moreover from this(1) obtain e where "e \<in> set L" "de_key e = de_key x"
    using assms(1) by (metis (no_types, lifting) image_iff)
  ultimately show ?thesis by auto
qed

lemma unlisted_bookmarks:
  assumes "texts_ok (co_texts co)" and "doc_ok co (E, L, c, m)"
    and "bookmarked_item_ids (co_texts co) (answering E L c) = Inr ids" and "\<not> bt_has ids i"
  shows "bookmark_rows co (E, L, c, m') i = [] \<and> \<not> bookmark_needs co (E, L, c, m') i"
proof -
  let ?tx = "co_texts co"
  have "said ?tx (bookmarks_of ?tx i) E = []"
  proof (rule ccontr)
    assume "said ?tx (bookmarks_of ?tx i) E \<noteq> []"
    then obtain e k where e: "e \<in> set L" "starts_with (bookmarks_of ?tx i) (de_key e)"
      "community_parse ?tx (de_key e) = Some k"
      using unlisted_said [of L E ?tx "bookmarks_of ?tx i"] assms(2) by auto
    moreover have "starts_with all_bookmarks (de_key e)"
      using e(2) by (auto simp: starts_with_iff bookmarks_of_def all_bookmarks_def)
    moreover obtain m b where "k = BookmarkKey i m b"
      using community_under(3) [OF assms(1) e(3) e(2)] by auto
    ultimately have "bt_has ids i"
      using bookmarked_answering [of ?tx E L c] assms(3) by auto
    with assms(4) show False by simp
  qed
  then show ?thesis
    by (simp add: read_bookmarks_answering Let_def said_values_def stored_bookmarks_def List.map_filter_simps)
qed

lemma unlisted_wish:
  assumes "texts_ok (co_texts co)" and "doc_ok co (E, L, c, m)"
    and "wish_ids (co_texts co) (answering E L c) = Inr ids" and "\<not> bt_has ids w"
  shows "wish_row co (E, L, c, m') w = no_wish \<and> \<not> wish_needs co (E, L, c, m') w"
proof -
  let ?tx = "co_texts co"
  have none: "said ?tx (wish_entries_of ?tx w) E = []"
  proof (rule ccontr)
    assume "said ?tx (wish_entries_of ?tx w) E \<noteq> []"
    then obtain e k where e: "e \<in> set L" "starts_with (wish_entries_of ?tx w) (de_key e)"
      "community_parse ?tx (de_key e) = Some k"
      using unlisted_said [of L E ?tx "wish_entries_of ?tx w"] assms(2) by auto
    moreover have "starts_with all_wish_entries (de_key e)"
      using e(2) by (auto simp: starts_with_iff wish_entries_of_def all_wish_entries_def)
    moreover obtain m where "k = WishKey w m"
      using community_under(4) [OF assms(1) e(3) e(2)] by auto
    ultimately have "bt_has ids w"
      using wish_ids_answering [of ?tx E L c] assms(3) by auto
    with assms(4) show False by simp
  qed
  show ?thesis using no_entries_no_wish [OF none] none by simp
qed

section \<open>The rows are in step\<close>

definition marked_items :: "read_model \<Rightarrow> item_id set" where
  "marked_items s = set (rm_items s) \<union> dom (bt_get (ba_items (pu_batch (rm_pump s))))"

definition marked_bookmarks :: "read_model \<Rightarrow> item_id set" where
  "marked_bookmarks s = set (rm_bookmarked s) \<union> dom (bt_get (ba_bookmarks (pu_batch (rm_pump s))))"

definition marked_wishes :: "read_model \<Rightarrow> wish_id set" where
  "marked_wishes s = set (rm_wishes s) \<union> dom (bt_get (ba_wishes (pu_batch (rm_pump s))))"

abbreviation rm_landed :: "read_model \<Rightarrow> bool" where
  "rm_landed s \<equiv> ba_content (pu_batch (rm_pump s))"

definition items_in_step :: "codecs \<Rightarrow> read_model \<Rightarrow> bool" where
  "items_in_step co s \<longleftrightarrow> items_row.in_step co (rm_view s) (marked_items s) (rm_landed s)
     (dom (bt_get (pj_items_waiting (rm_proj s)))) (bt_get (tb_items (pj_tables (rm_proj s))))"

definition bookmarks_in_step :: "codecs \<Rightarrow> read_model \<Rightarrow> bool" where
  "bookmarks_in_step co s \<longleftrightarrow> bookmarks_row.in_step co (rm_view s) (marked_bookmarks s) (rm_landed s)
     (dom (bt_get (pj_bookmarks_waiting (rm_proj s)))) (tb_bookmarks (pj_tables (rm_proj s)))"

definition wishes_in_step :: "codecs \<Rightarrow> read_model \<Rightarrow> bool" where
  "wishes_in_step co s \<longleftrightarrow> wishes_row.in_step co (rm_view s) (marked_wishes s) (rm_landed s)
     (dom (bt_get (pj_wishes_waiting (rm_proj s)))) (tb_wishes (pj_tables (rm_proj s)))"

text \<open>An item once in the document stays there, so a row is never left without one.\<close>

definition items_listed :: "codecs \<Rightarrow> read_model \<Rightarrow> bool" where
  "items_listed co s \<longleftrightarrow>
     (\<forall>i. item_row co (rm_view s) i = None \<longrightarrow> bt_get (tb_items (pj_tables (rm_proj s))) i = None)"

definition rm_ok :: "codecs \<Rightarrow> read_model \<Rightarrow> bool" where
  "rm_ok co s \<longleftrightarrow> texts_ok (co_texts co) \<and> doc_ok co (rm_view s) \<and> items_listed co s \<and>
     items_in_step co s \<and> bookmarks_in_step co s \<and> wishes_in_step co s"

lemma item_row_None: "item_row co (E, L, c, m) i = None \<longleftrightarrow> item_entries_in co i L = []"
  by (simp add: read_item_answering Let_def)

lemma items_stay:
  assumes "arrives co k d d'" and "item_row co d' i = None"
  shows "item_row co d i = None"
proof -
  obtain E L c m E' L' where d: "d = (E, L, c, m)" "d' = (E', L', c, m)" and same: "same_but k L L'"
    using assms(1) by (cases d; cases d') auto
  let ?p = "prefix_of (tx_hex (co_texts co)) i"
  have none: "\<not> starts_with ?p j" if "j \<in> de_key ` set L'" for j
    using assms(2) that unfolding d item_row_None by (auto simp: item_entries_in_def filter_empty_conv)
  have "\<not> starts_with ?p j" if "j \<in> de_key ` set L" for j
  proof (cases "j = k")
    case True
    then show ?thesis using none [of k] assms(1) items_start unfolding d arrives.simps by blast
  qed (use none that same_but_keys [OF same, of j] in blast)
  then show ?thesis unfolding d item_row_None by (auto simp: item_entries_in_def filter_empty_conv)
qed

lemmas steps_defs = items_in_step_def bookmarks_in_step_def wishes_in_step_def
lemmas marked_defs = marked_items_def marked_bookmarks_def marked_wishes_def

lemma rm_okD:
  assumes "rm_ok co s"
  shows "texts_ok (co_texts co)" and "doc_ok co (rm_view s)" and "items_listed co s"
    and "items_in_step co s" and "bookmarks_in_step co s" and "wishes_in_step co s"
  using assms by (simp_all add: rm_ok_def)

lemma ok_arrives:
  assumes "rm_ok co s" and "arrives co k (rm_view s) (rm_view s')" and "rm_proj s' = rm_proj s"
    and "rm_items s' = rm_items s" and "rm_bookmarked s' = rm_bookmarked s" and "rm_wishes s' = rm_wishes s"
    and "pu_batch (rm_pump s') = fst (snd (note_key (co_texts co) k (pu_batch (rm_pump s))))"
  shows "rm_ok co s'"
proof -
  note ok = rm_okD [OF assms(1)]
  let ?m = "marks (co_texts co) k"
  have "arrives_marking co ba_items (rm_view s) (rm_view s') (dom (bt_get (ba_items ?m)))"
    and "arrives_marking co ba_bookmarks (rm_view s) (rm_view s') (dom (bt_get (ba_bookmarks ?m)))"
    and "arrives_marking co ba_wishes (rm_view s) (rm_view s') (dom (bt_get (ba_wishes ?m)))"
    using ok(1) assms(2) by (auto simp: arrives_marking_def)
  note came = this
  have "marked_items s \<union> dom (bt_get (ba_items ?m)) \<subseteq> marked_items s'"
    and "marked_bookmarks s \<union> dom (bt_get (ba_bookmarks ?m)) \<subseteq> marked_bookmarks s'"
    and "marked_wishes s \<union> dom (bt_get (ba_wishes ?m)) \<subseteq> marked_wishes s'"
    and "rm_landed s' = rm_landed s"
    unfolding marked_defs assms(4-7) using note_key_marks [of "co_texts co" k "pu_batch (rm_pump s)"]
    unfolding bt_has_dom by blast+
  then have "items_in_step co s'" and "bookmarks_in_step co s'" and "wishes_in_step co s'"
    using ok(4-6) items_row.in_step_arrival [OF _ came(1)] bookmarks_row.in_step_arrival [OF _ came(2)]
      wishes_row.in_step_arrival [OF _ came(3)]
    by (simp_all add: steps_defs assms(3))
  moreover have "items_listed co s'"
    using ok(3) items_stay [OF assms(2)] by (auto simp: items_listed_def assms(3))
  ultimately show ?thesis
    using ok(1) doc_ok_arrives [OF ok(2) assms(2)] by (simp add: rm_ok_def)
qed

lemma ok_lands:
  assumes "rm_ok co s" and "rm_content s \<subseteq>\<^sub>m rm_content s'" and "rm_proj s' = rm_proj s"
    and "rm_entries s' = rm_entries s" and "rm_latest s' = rm_latest s"
    and "rm_items s' = rm_items s" and "rm_bookmarked s' = rm_bookmarked s" and "rm_wishes s' = rm_wishes s"
    and "pu_batch (rm_pump s') = (pu_batch (rm_pump s))\<lparr>ba_content := True\<rparr>"
  shows "rm_ok co s'"
proof -
  note ok = rm_okD [OF assms(1)]
  have here: "lands (rm_view s) (rm_view s')" using assms(2-5) by (simp add: rm_view_def)
  have "items_in_step co s'" and "bookmarks_in_step co s'" and "wishes_in_step co s'"
    using ok(4-6) items_row.in_step_landing [OF _ here] bookmarks_row.in_step_landing [OF _ here]
      wishes_row.in_step_landing [OF _ here] assms(6-8)
    by (simp_all add: steps_defs marked_defs assms(3,9))
  moreover have "items_listed co s'"
    using ok(3) unfolding items_listed_def rm_view_def assms(3-5) item_row_None .
  moreover have "doc_ok co (rm_view s')" using ok(2) unfolding rm_view_def assms(3-5) doc_ok.simps .
  ultimately show ?thesis using ok(1) by (simp add: rm_ok_def)
qed

lemma take_changes_batch:
  assumes "take_changes p = (Some b, p')"
  shows "b = pu_batch p" and "pu_batch p' = batch_new"
  using assms by (auto simp: take_changes_def split: if_splits)

lemma batch_new_marks [simp]:
  "bt_get (ba_items batch_new) = Map.empty" "bt_get (ba_bookmarks batch_new) = Map.empty"
  "bt_get (ba_wishes batch_new) = Map.empty" "\<not> ba_content batch_new"
  by (simp_all add: batch_new_def fun_eq_iff)

lemma ok_take:
  assumes "rm_ok co s" and "rm_idle s" and "take_changes (rm_pump s) = (Some b, p)"
    and "s' = s\<lparr>rm_pump := p,
      rm_items := bt_keys (if ba_content b then bts_union (ba_items b) (pj_items_waiting (rm_proj s)) else ba_items b),
      rm_bookmarked := bt_keys (if ba_content b then bts_union (ba_bookmarks b) (pj_bookmarks_waiting (rm_proj s))
        else ba_bookmarks b),
      rm_wishes := bt_keys (if ba_content b then bts_union (ba_wishes b) (pj_wishes_waiting (rm_proj s))
        else ba_wishes b)\<rparr>"
  shows "rm_ok co s'"
proof -
  note ok = rm_okD [OF assms(1)] and b = take_changes_batch [OF assms(3)]
  have s': "rm_view s' = rm_view s" "rm_proj s' = rm_proj s" "\<not> rm_landed s'"
    by (simp_all add: assms(4) rm_view_def b)
  have "items_in_step co s'"
    using ok(4) assms(2) unfolding items_in_step_def s'(1,2) using s'(3)
    by (auto intro!: items_row.in_step_take simp: marked_items_def rm_idle_def assms(4) b)
  moreover have "bookmarks_in_step co s'"
    using ok(5) assms(2) unfolding bookmarks_in_step_def s'(1,2) using s'(3)
    by (auto intro!: bookmarks_row.in_step_take simp: marked_bookmarks_def rm_idle_def assms(4) b)
  moreover have "wishes_in_step co s'"
    using ok(6) assms(2) unfolding wishes_in_step_def s'(1,2) using s'(3)
    by (auto intro!: wishes_row.in_step_take simp: marked_wishes_def rm_idle_def assms(4) b)
  ultimately show ?thesis using ok(1-3) by (simp add: rm_ok_def items_listed_def s')
qed

lemma ok_read_item:
  assumes "rm_ok co s" and "rm_items s = i # is" and "calm co s env"
    and "s' = s\<lparr>rm_proj := snd (project_item env i (rm_proj s)), rm_items := is\<rparr>"
  shows "rm_ok co s'"
proof -
  note ok = rm_okD [OF assms(1)]
    and did = project_item_effect [OF assms(3) refl refl, where i = i]
  have s': "rm_view s' = rm_view s" "rm_landed s' = rm_landed s"
    by (simp_all add: assms(4) rm_view_def did(4))
  have "bt_get (tb_items (pj_tables (rm_proj s'))) =
      (bt_get (tb_items (pj_tables (rm_proj s))))(i := item_row co (rm_view s) i)"
    using did(1) ok(3) by (auto simp: assms(4) items_listed_def fun_eq_iff)
  note row = this
  have "items_in_step co s'"
    unfolding items_in_step_def s' row
    by (rule items_row.in_step_read [OF ok(4) [unfolded items_in_step_def] refl])
      (use did(2,3) assms(2) in \<open>auto simp: assms(4) marked_items_def\<close>)
  moreover have "items_listed co s'" using ok(3) unfolding items_listed_def s' row by auto
  moreover have "bookmarks_in_step co s'" and "wishes_in_step co s'"
    using ok(5,6) unfolding bookmarks_in_step_def wishes_in_step_def s'
    by (simp_all add: assms(4) did(5-8) marked_defs)
  ultimately show ?thesis using ok(1,2) by (simp add: rm_ok_def s')
qed

lemma ok_read_bookmarks:
  assumes "rm_ok co s" and "rm_bookmarked s = i # is" and "calm co s env"
    and "s' = s\<lparr>rm_proj := snd (project_bookmarks_of env i (rm_proj s)), rm_bookmarked := is\<rparr>"
  shows "rm_ok co s'"
proof -
  note ok = rm_okD [OF assms(1)]
    and did = project_bookmarks_effect [OF assms(3) refl refl, of i]
  have s': "rm_view s' = rm_view s" "rm_landed s' = rm_landed s"
    by (simp_all add: assms(4) rm_view_def did)
  have "bookmarks_in_step co s'"
    unfolding bookmarks_in_step_def s'
    by (rule bookmarks_row.in_step_read [OF ok(5) [unfolded bookmarks_in_step_def], where k = i])
      (use did assms(2) in \<open>auto simp: assms(4) marked_bookmarks_def set_waiting_def split: if_splits\<close>)
  moreover have "items_in_step co s'" and "wishes_in_step co s'" and "items_listed co s'"
    using ok(3,4,6) unfolding items_in_step_def wishes_in_step_def items_listed_def s'
    by (simp_all add: assms(4) did marked_defs)
  ultimately show ?thesis using ok(1,2) by (simp add: rm_ok_def s')
qed

lemma ok_read_wish:
  assumes "rm_ok co s" and "rm_wishes s = w # ws" and "calm co s env"
    and "s' = s\<lparr>rm_proj := snd (project_wish env w (rm_proj s)), rm_wishes := ws\<rparr>"
  shows "rm_ok co s'"
proof -
  note ok = rm_okD [OF assms(1)]
    and did = project_wish_effect [OF assms(3) refl refl, of w]
  have s': "rm_view s' = rm_view s" "rm_landed s' = rm_landed s"
    by (simp_all add: assms(4) rm_view_def did)
  have "wishes_in_step co s'"
    unfolding wishes_in_step_def s'
    by (rule wishes_row.in_step_read [OF ok(6) [unfolded wishes_in_step_def], where k = w])
      (use did assms(2) in \<open>auto simp: assms(4) marked_wishes_def\<close>)
  moreover have "items_in_step co s'" and "bookmarks_in_step co s'" and "items_listed co s'"
    using ok(3-5) unfolding items_in_step_def bookmarks_in_step_def items_listed_def s'
    by (simp_all add: assms(4) did marked_defs)
  ultimately show ?thesis using ok(1,2) by (simp add: rm_ok_def s')
qed

text \<open>What a replay sets out to read.\<close>

lemma read_everything_lists:
  obtains ids bs ws where "item_ids (co_texts co) (rm_doc s) = Inr ids"
    and "bookmarked_item_ids (co_texts co) (rm_doc s) = Inr bs" and "wish_ids (co_texts co) (rm_doc s) = Inr ws"
    and "read_everything co s =
      s\<lparr>rm_items := bt_keys ids, rm_bookmarked := bt_keys bs, rm_wishes := bt_keys ws\<rparr>"
  using item_ids_answering [of "co_texts co" "rm_entries s" "rm_latest s" "rm_content s"]
    bookmarked_answering [of "co_texts co" "rm_entries s" "rm_latest s" "rm_content s"]
    wish_ids_answering [of "co_texts co" "rm_entries s" "rm_latest s" "rm_content s"]
  by (auto simp: rm_doc_def read_everything_def)

text \<open>
  A replay after a change of the membership: the rows of what the document does not list are the same
  whoever the members are.
\<close>

lemma ok_replay:
  assumes "rm_ok co s" and "rm_idle s" and "pj_tables w = (pj_tables (rm_proj s))\<lparr>tb_members := rows\<rparr>"
    and "pj_items_waiting w = pj_items_waiting (rm_proj s)"
    and "pj_bookmarks_waiting w = pj_bookmarks_waiting (rm_proj s)"
    and "pj_wishes_waiting w = pj_wishes_waiting (rm_proj s)"
    and "s' = read_everything co (s\<lparr>rm_proj := w\<rparr>)"
  shows "rm_ok co s'"
proof -
  note ok = rm_okD [OF assms(1)]
  obtain ids bs ws where lists: "item_ids (co_texts co) (rm_doc s) = Inr ids"
    "bookmarked_item_ids (co_texts co) (rm_doc s) = Inr bs" "wish_ids (co_texts co) (rm_doc s) = Inr ws"
    and s': "s' = s\<lparr>rm_proj := w, rm_items := bt_keys ids, rm_bookmarked := bt_keys bs, rm_wishes := bt_keys ws\<rparr>"
    using read_everything_lists [of co "s\<lparr>rm_proj := w\<rparr>"] by (auto simp: assms(7) rm_doc_def)
  obtain E L c m where v: "rm_view s = (E, L, c, m)" "rm_view s' = (E, L, c, pj_members w)"
    "rm_doc s = answering E L c"
    by (simp add: rm_view_def rm_doc_def s')
  note doc = ok(2) [unfolded v(1)] and listed = lists [unfolded v(3)]
  have tables: "bt_get (tb_items (pj_tables (rm_proj s'))) = bt_get (tb_items (pj_tables (rm_proj s)))"
    "tb_bookmarks (pj_tables (rm_proj s')) = tb_bookmarks (pj_tables (rm_proj s))"
    "tb_wishes (pj_tables (rm_proj s')) = tb_wishes (pj_tables (rm_proj s))"
    "pj_items_waiting (rm_proj s') = pj_items_waiting (rm_proj s)"
    "pj_bookmarks_waiting (rm_proj s') = pj_bookmarks_waiting (rm_proj s)"
    "pj_wishes_waiting (rm_proj s') = pj_wishes_waiting (rm_proj s)" "rm_pump s' = rm_pump s"
    by (simp_all add: s' assms(3-6))
  have marked: "marked_items s \<subseteq> marked_items s'" "dom (bt_get ids) \<subseteq> marked_items s'"
    "marked_bookmarks s \<subseteq> marked_bookmarks s'" "dom (bt_get bs) \<subseteq> marked_bookmarks s'"
    "marked_wishes s \<subseteq> marked_wishes s'" "dom (bt_get ws) \<subseteq> marked_wishes s'"
    using assms(2) by (auto simp: marked_defs rm_idle_def s')
  have "item_row co (rm_view s') i = item_row co (rm_view s) i \<and> \<not> item_needs co (rm_view s') i"
    if "i \<notin> dom (bt_get ids)" for i
    unfolding v using unlisted_item [OF ok(1) doc listed(1)] that by (metis bt_has_dom)
  from items_row.in_step_replay [OF ok(4) [unfolded items_in_step_def] marked(1,2) this]
  have "items_in_step co s'" unfolding items_in_step_def tables .
  moreover
  have "bookmark_rows co (rm_view s') i = bookmark_rows co (rm_view s) i \<and> \<not> bookmark_needs co (rm_view s') i"
    if "i \<notin> dom (bt_get bs)" for i
    unfolding v using unlisted_bookmarks [OF ok(1) doc listed(2)] that by (metis bt_has_dom)
  from bookmarks_row.in_step_replay [OF ok(5) [unfolded bookmarks_in_step_def] marked(3,4) this]
  have "bookmarks_in_step co s'" unfolding bookmarks_in_step_def tables .
  moreover have "wish_row co (rm_view s') i = wish_row co (rm_view s) i \<and> \<not> wish_needs co (rm_view s') i"
    if "i \<notin> dom (bt_get ws)" for i
    unfolding v using unlisted_wish [OF ok(1) doc listed(3)] that by (metis bt_has_dom)
  from wishes_row.in_step_replay [OF ok(6) [unfolded wishes_in_step_def] marked(5,6) this]
  have "wishes_in_step co s'" unfolding wishes_in_step_def tables .
  moreover have "items_listed co s'"
    using ok(3) unfolding items_listed_def tables v item_row_None .
  moreover have "doc_ok co (rm_view s')" using doc unfolding v doc_ok.simps .
  ultimately show ?thesis using ok(1) by (simp add: rm_ok_def)
qed

section \<open>The read model is the document\<close>

text \<open>
  A start: the document is whole, nothing is waited for, the tables of an earlier run hold no row of what
  the document does not list, and everything it does list is to be read.
\<close>

definition rm_start :: "codecs \<Rightarrow> read_model \<Rightarrow> bool" where
  "rm_start co s \<longleftrightarrow> texts_ok (co_texts co) \<and> doc_ok co (rm_view s) \<and> items_listed co s \<and>
     (\<forall>i. i \<in> set (rm_bookmarked s) \<or> tb_bookmarks (pj_tables (rm_proj s)) i = []) \<and>
     (\<forall>w. w \<in> set (rm_wishes s) \<or> tb_wishes (pj_tables (rm_proj s)) w = no_wish) \<and>
     read_everything co s = s"

lemma start_ok:
  assumes "rm_start co s"
  shows "rm_ok co s"
proof -
  have ok: "texts_ok (co_texts co)" "doc_ok co (rm_view s)" "items_listed co s"
    and rows: "\<And>i. i \<in> set (rm_bookmarked s) \<or> tb_bookmarks (pj_tables (rm_proj s)) i = []"
      "\<And>w. w \<in> set (rm_wishes s) \<or> tb_wishes (pj_tables (rm_proj s)) w = no_wish"
    and all: "read_everything co s = s"
    using assms by (auto simp: rm_start_def)
  obtain ids bs ws where lists: "item_ids (co_texts co) (rm_doc s) = Inr ids"
    "bookmarked_item_ids (co_texts co) (rm_doc s) = Inr bs" "wish_ids (co_texts co) (rm_doc s) = Inr ws"
    and "s = s\<lparr>rm_items := bt_keys ids, rm_bookmarked := bt_keys bs, rm_wishes := bt_keys ws\<rparr>"
    using read_everything_lists [of co s] all by metis
  then have todo: "rm_items s = bt_keys ids" "rm_bookmarked s = bt_keys bs" "rm_wishes s = bt_keys ws"
    by (metis read_model.select_convs(6-8) read_model.surjective read_model.update_convs(6-8))+
  obtain E L c m where v: "rm_view s = (E, L, c, m)" "rm_doc s = answering E L c"
    by (simp add: rm_view_def rm_doc_def)
  note doc = ok(2) [unfolded v(1)] and listed = lists [unfolded v(2)]
  have "items_in_step co s"
    unfolding items_in_step_def
    by (rule items_row.in_step_start [where ids = "dom (bt_get ids)"])
      (use unlisted_item [OF ok(1) doc listed(1)] ok(3) in
        \<open>auto simp: marked_items_def todo bt_has_dom items_listed_def v(1) simp del: item_row.simps item_needs.simps\<close>)
  moreover have "bookmarks_in_step co s"
    unfolding bookmarks_in_step_def
    by (rule bookmarks_row.in_step_start [where ids = "dom (bt_get bs)"])
      (use unlisted_bookmarks [OF ok(1) doc listed(2)] rows(1) in
        \<open>auto simp: marked_bookmarks_def todo bt_has_dom v(1) simp del: bookmark_rows.simps bookmark_needs.simps\<close>)
  moreover have "wishes_in_step co s"
    unfolding wishes_in_step_def
    by (rule wishes_row.in_step_start [where ids = "dom (bt_get ws)"])
      (use unlisted_wish [OF ok(1) doc listed(3)] rows(2) in
        \<open>auto simp: marked_wishes_def todo bt_has_dom v(1) simp del: wish_row.simps wish_needs.simps\<close>)
  ultimately show ?thesis using ok by (simp add: rm_ok_def)
qed

lemma work_keeps_ok:
  assumes "rm_work co s s'" and "rm_ok co s"
  shows "rm_ok co s'"
  using assms(1)
proof cases
  case Take
  then show ?thesis using ok_take [OF assms(2)] by blast
next
  case ReadItem
  then show ?thesis using ok_read_item [OF assms(2)] by blast
next
  case ReadBookmarks
  then show ?thesis using ok_read_bookmarks [OF assms(2)] by blast
next
  case ReadWish
  then show ?thesis using ok_read_wish [OF assms(2)] by blast
qed

lemma members_tables:
  assumes "project_members env log w = (members, w')" and "\<not> en_members_fail env"
  obtains rows where "w' = w\<lparr>pj_tables := (pj_tables w)\<lparr>tb_members := rows\<rparr>\<rparr>"
  using assms by (auto simp: project_members_def Let_def)

lemma same_members_ok:
  assumes "rm_ok co s"
  shows "rm_ok co (s\<lparr>rm_proj := (rm_proj s)\<lparr>pj_tables := (pj_tables (rm_proj s))\<lparr>tb_members := rows\<rparr>\<rparr>\<rparr>)"
  using assms
  by (simp add: rm_ok_def items_listed_def steps_defs marked_defs rm_view_def del: doc_ok.simps)

lemma step_keeps_ok:
  assumes "rm_step co s s'" and "rm_ok co s"
  shows "rm_ok co s'"
  using assms(1)
proof cases
  case Work
  then show ?thesis using work_keeps_ok assms(2) by blast
next
  case (Arrives e E' L' ev now)
  show ?thesis
    by (rule ok_arrives [OF assms(2), of "de_key e"])
      (use Arrives(2) batch_after_insert [OF Arrives(3)] in \<open>simp_all add: Arrives(1) rm_view_def del: arrives.simps\<close>)
next
  case (Lands c' p now)
  show ?thesis
    by (rule ok_lands [OF assms(2)])
      (use Lands(2) batch_after_landing [OF Lands(3)] in \<open>simp_all add: Lands(1)\<close>)
next
  case (Swarm ev now)
  show ?thesis
    using assms(2) batch_after_swarm [OF Swarm(2)]
    by (simp add: Swarm(1) rm_ok_def items_listed_def steps_defs marked_defs rm_view_def del: doc_ok.simps)
next
  case (Members env log members w)
  obtain rows where "w = (rm_proj s)\<lparr>pj_tables := (pj_tables (rm_proj s))\<lparr>tb_members := rows\<rparr>\<rparr>"
    using members_tables [OF Members(4)] Members(3) by (auto simp: calm_def)
  then show ?thesis
    by (intro ok_replay [OF assms(2) Members(2), of "w\<lparr>pj_members := members\<rparr>" rows]) (simp_all add: Members(1))
next
  case (SameMembers env log members w)
  obtain rows where "w = (rm_proj s)\<lparr>pj_tables := (pj_tables (rm_proj s))\<lparr>tb_members := rows\<rparr>\<rparr>"
    using members_tables [OF SameMembers(4)] SameMembers(3) by (auto simp: calm_def)
  then show ?thesis using same_members_ok [OF assms(2)] by (simp add: SameMembers(1))
next
  case Reindex
  then show ?thesis
    by (intro ok_replay [OF assms(2) Reindex(2), of "rm_proj s" "tb_members (pj_tables (rm_proj s))"]) simp_all
next
  case (Bookkeeping w)
  then show ?thesis
    using assms(2)
    by (simp add: rows_of_def rm_ok_def items_listed_def steps_defs marked_defs rm_view_def del: doc_ok.simps)
qed

lemma reach_ok:
  assumes "(rm_step co)\<^sup>*\<^sup>* s s'" and "rm_ok co s"
  shows "rm_ok co s'"
  using assms by (induction rule: rtranclp_induct) (auto intro: step_keeps_ok)

section \<open>The projection's own work ends\<close>

definition rm_settled :: "read_model \<Rightarrow> bool" where
  "rm_settled s \<longleftrightarrow> rm_idle s \<and> batch_is_empty (pu_batch (rm_pump s))"

lemma batch_empty_marks:
  assumes "batch_is_empty b"
  shows "dom (bt_get (ba_items b)) = {}" and "dom (bt_get (ba_bookmarks b)) = {}"
    and "dom (bt_get (ba_wishes b)) = {}" and "\<not> ba_content b"
  using assms by (auto simp: batch_is_empty_def bt_keys_def simp flip: set_bt_keys)

lemma calm_exists: "\<exists>env. calm co s env"
  by (rule exI [of _ "\<lparr>en_codecs = co, en_doc = rm_doc s,
        en_blobs = \<lparr>bf_list = \<lambda>_. False, bf_status = \<lambda>_. False\<rparr>, en_now = 0, en_index_fails = \<lambda>_. False,
        en_commit_fails = False, en_item_fails = \<lambda>_. False, en_bookmarks_fail = \<lambda>_. False,
        en_wish_fails = \<lambda>_. False, en_members_fail = False\<rparr>"])
    (simp add: calm_def)

lemma work_to_do:
  assumes "\<not> rm_settled s"
  shows "\<exists>s'. rm_work co s s'"
proof -
  obtain env where env: "calm co s env" using calm_exists by blast
  show ?thesis
  proof (cases "rm_items s")
    case none: Nil
    show ?thesis
    proof (cases "rm_bookmarked s")
      case none': Nil
      show ?thesis
      proof (cases "rm_wishes s")
        case Nil
        with none none' have "rm_idle s" by (simp add: rm_idle_def)
        moreover from this have "take_changes (rm_pump s) =
            (Some (pu_batch (rm_pump s)), (rm_pump s)\<lparr>pu_batch := batch_new\<rparr>)"
          using assms by (simp add: rm_settled_def take_changes_def)
        ultimately show ?thesis by (blast intro: rm_work.Take)
      qed (use none none' env in \<open>blast intro: rm_work.ReadWish\<close>)
    qed (use none env in \<open>blast intro: rm_work.ReadBookmarks\<close>)
  qed (use env in \<open>blast intro: rm_work.ReadItem\<close>)
qed

text \<open>A batch is taken once, and a list read from the front gets shorter.\<close>

definition work_left :: "read_model \<Rightarrow> bool \<times> nat" where
  "work_left s = (\<not> batch_is_empty (pu_batch (rm_pump s)),
     length (rm_items s) + length (rm_bookmarked s) + length (rm_wishes s))"

lemma work_gets_less:
  assumes "rm_work co s s'"
  shows "(work_left s', work_left s) \<in> {(False, True)} <*lex*> less_than"
  using assms
proof cases
  case (Take b p)
  then show ?thesis
    using take_changes_batch [OF Take(3)]
    by (auto simp: work_left_def take_changes_def batch_is_empty_def batch_new_def bt_empty.rep_eq split: if_splits)
qed (simp_all add: work_left_def)

lemma work_keeps_view:
  assumes "rm_work co s s'"
  shows "rm_view s' = rm_view s"
  using assms
proof cases
  case (ReadItem i "is" env)
  then show ?thesis using project_item_effect(4) [OF ReadItem(3) refl refl] by (simp add: rm_view_def)
next
  case (ReadBookmarks i "is" env)
  then show ?thesis using project_bookmarks_effect [OF ReadBookmarks(4) refl refl] by (simp add: rm_view_def)
next
  case (ReadWish w ws env)
  then show ?thesis using project_wish_effect [OF ReadWish(5) refl refl] by (simp add: rm_view_def)
qed (simp_all add: rm_view_def)

lemma work_wf: "wfp (\<lambda>s' s. rm_work co s s')"
proof -
  have "wf ({(False, True)} :: (bool \<times> bool) set)" by (rule wf_insert [THEN iffD2]) simp
  then have "wf (inv_image ({(False, True)} <*lex*> less_than) work_left)" by blast
  then have "wf {(s', s). rm_work co s s'}"
    by (rule wf_subset) (auto simp: work_gets_less)
  then show ?thesis by (simp add: wfp_def)
qed

lemma work_settles: "\<exists>s'. (rm_work co)\<^sup>*\<^sup>* s s' \<and> rm_settled s' \<and> rm_view s' = rm_view s"
proof (induction s rule: wfp_induct_rule [OF work_wf [of co]])
  case (1 s)
  show ?case
  proof (cases "rm_settled s")
    case False
    then obtain t where "rm_work co s t" using work_to_do by blast
    with 1 [OF this] work_keeps_view [OF this] show ?thesis
      by (metis converse_rtranclp_into_rtranclp)
  qed auto
qed

lemma settled_rows:
  assumes "rm_ok co s" and "rm_settled s"
  shows "bt_get (tb_items (pj_tables (rm_proj s))) i = item_row co (rm_view s) i"
    and "tb_bookmarks (pj_tables (rm_proj s)) i = bookmark_rows co (rm_view s) i"
    and "tb_wishes (pj_tables (rm_proj s)) w = wish_row co (rm_view s) w"
proof -
  note ok = rm_okD [OF assms(1)]
  have none: "marked_items s = {}" "marked_bookmarks s = {}" "marked_wishes s = {}" "\<not> rm_landed s"
    using assms(2) batch_empty_marks by (auto simp: rm_settled_def rm_idle_def marked_defs)
  show "bt_get (tb_items (pj_tables (rm_proj s))) i = item_row co (rm_view s) i"
    using items_row.in_step_done ok(4) none(1,4) by (simp add: items_in_step_def)
  show "tb_bookmarks (pj_tables (rm_proj s)) i = bookmark_rows co (rm_view s) i"
    using bookmarks_row.in_step_done ok(5) none(2,4) by (simp add: bookmarks_in_step_def)
  show "tb_wishes (pj_tables (rm_proj s)) w = wish_row co (rm_view s) w"
    using wishes_row.in_step_done ok(6) none(3,4) by (simp add: wishes_in_step_def)
qed

text \<open>
  C19. However entries arrive, content lands and the membership changes between one read and the next,
  whenever nothing is left to read and no batch waits, every row of the read model is what the document
  says: the item as it is folded from its entries with the ratings and reviews of members, the bookmarks
  of an item, and the wish with its comments. This is so as long as no read of the document and no write
  of a row fails, entries are added or replaced and not deleted, those about items have keys this version knows, and the
  tables held no row at the start of what the document does not list. Without these conditions it is not:
  see \<open>stale_bookmarks_survive_a_start\<close> and \<open>unknown_entry_moves_a_row_unmarked\<close>.
\<close>

theorem read_model_is_the_document:
  assumes "rm_start co s0" and "(rm_step co)\<^sup>*\<^sup>* s0 s" and "rm_settled s"
  shows "bt_get (tb_items (pj_tables (rm_proj s))) i = item_row co (rm_view s) i \<and>
    tb_bookmarks (pj_tables (rm_proj s)) i = bookmark_rows co (rm_view s) i \<and>
    tb_wishes (pj_tables (rm_proj s)) w = wish_row co (rm_view s) w"
  using settled_rows [OF reach_ok [OF assms(2) start_ok [OF assms(1)]] assms(3)] by blast

section \<open>The turns of the projection are made of these steps\<close>

lemma items_in_steps:
  assumes "calm co s env"
  shows "(rm_step co)\<^sup>*\<^sup>* (s\<lparr>rm_items := is\<rparr>)
    (s\<lparr>rm_items := [], rm_proj := snd (project_each env is (rm_proj s))\<rparr>)"
  using assms
proof (induction "is" arbitrary: s)
  case (Cons i "is")
  let ?s = "s\<lparr>rm_proj := snd (project_item env i (rm_proj s))\<rparr>"
  have "rm_step co (s\<lparr>rm_items := i # is\<rparr>) (?s\<lparr>rm_items := is\<rparr>)"
    using rm_work.ReadItem [of "s\<lparr>rm_items := i # is\<rparr>" i "is" co env] Cons.prems
    by (auto intro: rm_step.Work simp: calm_def rm_doc_def)
  moreover have "calm co ?s env" using Cons.prems by (simp add: calm_def rm_doc_def)
  note Cons.IH [OF this]
  ultimately show ?case
    by (auto split: prod.splits intro: converse_rtranclp_into_rtranclp)
qed simp

lemma bookmarks_in_steps:
  assumes "calm co s env" and "rm_items s = []"
  shows "(rm_step co)\<^sup>*\<^sup>* (s\<lparr>rm_bookmarked := is\<rparr>)
    (s\<lparr>rm_bookmarked := [], rm_proj := snd (project_all (project_bookmarks_of env) is (rm_proj s))\<rparr>)"
  using assms
proof (induction "is" arbitrary: s)
  case (Cons i "is")
  let ?s = "s\<lparr>rm_proj := snd (project_bookmarks_of env i (rm_proj s))\<rparr>"
  have "rm_step co (s\<lparr>rm_bookmarked := i # is\<rparr>) (?s\<lparr>rm_bookmarked := is\<rparr>)"
    using rm_work.ReadBookmarks [of "s\<lparr>rm_bookmarked := i # is\<rparr>" i "is" co env] Cons.prems
    by (auto intro: rm_step.Work simp: calm_def rm_doc_def)
  moreover have "calm co ?s env" "rm_items ?s = []" using Cons.prems by (simp_all add: calm_def rm_doc_def)
  note Cons.IH [OF this]
  ultimately show ?case
    by (auto split: prod.splits intro: converse_rtranclp_into_rtranclp)
qed simp

lemma wishes_in_steps:
  assumes "calm co s env" and "rm_items s = []" and "rm_bookmarked s = []"
  shows "(rm_step co)\<^sup>*\<^sup>* (s\<lparr>rm_wishes := ws\<rparr>)
    (s\<lparr>rm_wishes := [], rm_proj := snd (project_all (project_wish env) ws (rm_proj s))\<rparr>)"
  using assms
proof (induction ws arbitrary: s)
  case (Cons w ws)
  let ?s = "s\<lparr>rm_proj := snd (project_wish env w (rm_proj s))\<rparr>"
  have "rm_step co (s\<lparr>rm_wishes := w # ws\<rparr>) (?s\<lparr>rm_wishes := ws\<rparr>)"
    using rm_work.ReadWish [of "s\<lparr>rm_wishes := w # ws\<rparr>" w ws co env] Cons.prems
    by (auto intro: rm_step.Work simp: calm_def rm_doc_def)
  moreover have "calm co ?s env" "rm_items ?s = []" "rm_bookmarked ?s = []"
    using Cons.prems by (simp_all add: calm_def rm_doc_def)
  note Cons.IH [OF this]
  ultimately show ?case
    by (auto split: prod.splits intro: converse_rtranclp_into_rtranclp)
qed simp

lemma bookkeeping_after:
  assumes "(rm_step co)\<^sup>*\<^sup>* s t" and "rows_of w = rows_of (rm_proj t)"
  shows "(rm_step co)\<^sup>*\<^sup>* s (t\<lparr>rm_proj := w\<rparr>)"
  using assms rm_step.Bookkeeping rtranclp.rtrancl_into_rtrancl by metis

lemma reading_in_steps:
  assumes "calm co s env" and "rm_idle s" and "w1 = snd (project_items env I (rm_proj s))"
    and "w2 = snd (project_bookmarks env B w1)" and "w3 = snd (project_wishes env W w2)"
  shows "(rm_step co)\<^sup>*\<^sup>* (s\<lparr>rm_items := bt_keys I, rm_bookmarked := bt_keys B, rm_wishes := bt_keys W\<rparr>)
    (s\<lparr>rm_proj := w3\<rparr>)"
proof -
  let ?s0 = "s\<lparr>rm_bookmarked := bt_keys B, rm_wishes := bt_keys W\<rparr>"
  have start: "s\<lparr>rm_items := bt_keys I, rm_bookmarked := bt_keys B, rm_wishes := bt_keys W\<rparr> =
      ?s0\<lparr>rm_items := bt_keys I\<rparr>" by simp
  have "(rm_step co)\<^sup>*\<^sup>* (?s0\<lparr>rm_items := bt_keys I\<rparr>)
      (?s0\<lparr>rm_items := [], rm_proj := snd (project_each env (bt_keys I) (rm_proj ?s0))\<rparr>)"
    by (rule items_in_steps) (use assms(1) in \<open>simp add: calm_def rm_doc_def\<close>)
  note bookkeeping_after [OF this, of w1]
  moreover have "rows_of w1 = rows_of (snd (project_each env (bt_keys I) (rm_proj s)))"
    by (simp add: assms(3) project_items_def rows_of_def split: prod.splits)
  ultimately have "(rm_step co)\<^sup>*\<^sup>* (?s0\<lparr>rm_items := bt_keys I\<rparr>) (?s0\<lparr>rm_items := [], rm_proj := w1\<rparr>)"
    by simp
  also have "?s0\<lparr>rm_items := [], rm_proj := w1\<rparr> =
      s\<lparr>rm_proj := w1, rm_items := [], rm_wishes := bt_keys W\<rparr>\<lparr>rm_bookmarked := bt_keys B\<rparr>" by simp
  also have "(rm_step co)\<^sup>*\<^sup>* \<dots> (s\<lparr>rm_proj := w1, rm_items := [], rm_wishes := bt_keys W\<rparr>\<lparr>rm_bookmarked := [],
      rm_proj := w2\<rparr>)"
    unfolding assms(4) project_bookmarks_def
    using bookmarks_in_steps [of co "s\<lparr>rm_proj := w1, rm_items := [], rm_wishes := bt_keys W\<rparr>" env] assms(1)
    by (simp add: calm_def rm_doc_def)
  also have "s\<lparr>rm_proj := w1, rm_items := [], rm_wishes := bt_keys W\<rparr>\<lparr>rm_bookmarked := [], rm_proj := w2\<rparr> =
      s\<lparr>rm_proj := w2, rm_items := [], rm_bookmarked := []\<rparr>\<lparr>rm_wishes := bt_keys W\<rparr>" by simp
  also have "(rm_step co)\<^sup>*\<^sup>* \<dots> (s\<lparr>rm_proj := w2, rm_items := [], rm_bookmarked := []\<rparr>\<lparr>rm_wishes := [],
      rm_proj := w3\<rparr>)"
    unfolding assms(5) project_wishes_def
    using wishes_in_steps [of co "s\<lparr>rm_proj := w2, rm_items := [], rm_bookmarked := []\<rparr>" env] assms(1)
    by (simp add: calm_def rm_doc_def)
  also have "s\<lparr>rm_proj := w2, rm_items := [], rm_bookmarked := []\<rparr>\<lparr>rm_wishes := [], rm_proj := w3\<rparr> =
      s\<lparr>rm_proj := w3\<rparr>"
    using assms(2) by (simp add: rm_idle_def)
  finally show ?thesis unfolding start .
qed

lemma replay_in_steps:
  assumes "calm co s env" and "rm_idle s"
  shows "(rm_step co)\<^sup>*\<^sup>* (read_everything co s) (s\<lparr>rm_proj := replay env (rm_proj s)\<rparr>)"
proof -
  obtain ids bs ws where lists: "item_ids (co_texts co) (rm_doc s) = Inr ids"
    "bookmarked_item_ids (co_texts co) (rm_doc s) = Inr bs" "wish_ids (co_texts co) (rm_doc s) = Inr ws"
    and all: "read_everything co s =
      s\<lparr>rm_items := bt_keys ids, rm_bookmarked := bt_keys bs, rm_wishes := bt_keys ws\<rparr>"
    by (rule read_everything_lists)
  define w where "w = snd (project_wishes env ws (snd (project_bookmarks env bs
      (snd (project_items env ids (rm_proj s))))))"
  have "replay env (rm_proj s) = w\<lparr>pj_replays := pj_replays w + 1\<rparr>"
    using assms(1) lists by (simp add: replay_def calm_def Let_def w_def)
  then have "rows_of (replay env (rm_proj s)) = rows_of w" by (simp add: rows_of_def)
  then show ?thesis
    using bookkeeping_after [OF reading_in_steps [OF assms refl refl w_def]] by (simp add: all)
qed

text \<open>Each turn of the loop is a run of the steps above, if no read of the document and no write of a row fails in it.\<close>

lemma projection_turns_are_steps:
  assumes "calm co s env" and "rm_idle s"
    and "case msg of Changed b \<Rightarrow> take_changes (rm_pump s) = (Some b, p) | _ \<Rightarrow> p = rm_pump s"
  shows "(rm_step co)\<^sup>*\<^sup>* s (s\<lparr>rm_pump := p, rm_proj := snd (projection_turn env msg (rm_proj s))\<rparr>)"
proof (cases msg)
  case (Changed b)
  then have b: "take_changes (rm_pump s) = (Some b, p)" using assms(3) by simp
  define I where "I = (if ba_content b then bts_union (ba_items b) (pj_items_waiting (rm_proj s)) else ba_items b)"
  define B where "B = (if ba_content b then bts_union (ba_bookmarks b) (pj_bookmarks_waiting (rm_proj s))
    else ba_bookmarks b)"
  define W where "W = (if ba_content b then bts_union (ba_wishes b) (pj_wishes_waiting (rm_proj s)) else ba_wishes b)"
  let ?s = "s\<lparr>rm_pump := p\<rparr>"
  have "rm_step co s (?s\<lparr>rm_items := bt_keys I, rm_bookmarked := bt_keys B, rm_wishes := bt_keys W\<rparr>)"
    using rm_work.Take [OF assms(2) b, of co] unfolding I_def B_def W_def by (rule rm_step.Work)
  moreover have "calm co ?s env" "rm_idle ?s" using assms(1,2) by (simp_all add: calm_def rm_doc_def rm_idle_def)
  note reading_in_steps [OF this refl refl refl, where I = I and B = B and W = W]
  moreover have "snd (projection_turn env msg (rm_proj s)) =
      snd (project_wishes env W (snd (project_bookmarks env B (snd (project_items env I (rm_proj s))))))"
    by (simp add: Changed projection_turn_def project_batch_def Let_def I_def B_def W_def split: prod.splits)
  ultimately show ?thesis by (simp add: converse_rtranclp_into_rtranclp)
next
  case (Membership log)
  then have p: "p = rm_pump s" using assms(3) by simp
  obtain members w where w: "project_members env log (rm_proj s) = (members, w)" by fastforce
  show ?thesis
  proof (cases "members = pj_members w")
    case True
    then show ?thesis
      using rm_step.SameMembers [OF assms(2,1) w] w by (simp add: Membership p projection_turn_def r_into_rtranclp)
  next
    case False
    let ?s = "s\<lparr>rm_proj := w\<lparr>pj_members := members\<rparr>\<rparr>"
    have "calm co ?s env" "rm_idle ?s" using assms(1,2) by (simp_all add: calm_def rm_doc_def rm_idle_def)
    from replay_in_steps [OF this] rm_step.Members [OF assms(2,1) w False] False w show ?thesis
      by (simp add: Membership p projection_turn_def converse_rtranclp_into_rtranclp)
  qed
next
  case Reindex
  then have "p = rm_pump s" using assms(3) by simp
  then show ?thesis
    using rm_step.Reindex [OF assms(2), of co] replay_in_steps [OF assms(1,2)]
    by (simp add: Reindex projection_turn_def converse_rtranclp_into_rtranclp)
qed

lemma taken_is_empty: "take_changes p = (b, p') \<Longrightarrow> batch_is_empty (pu_batch p')"
  by (auto simp: take_changes_def batch_is_empty_def batch_new_def bt_empty.rep_eq split: if_splits)

lemma one_keeps_members:
  "pj_members (snd (project_item env i w)) = pj_members w" "pj_members (snd (project_bookmarks_of env i w)) = pj_members w"
  "pj_members (snd (project_wish env k w)) = pj_members w"
  by (simp_all add: project_item_def project_bookmarks_of_def project_wish_def Let_def
      split: sum.splits option.splits prod.splits upserted.splits)

lemma all_keep_members: "(\<And>k w. pj_members (snd (f k w)) = pj_members w) \<Longrightarrow> pj_members (snd (project_all f ks w)) = pj_members w"
proof (induction f ks w rule: project_all.induct)
  case (2 f k ks w)
  obtain evs w1 where f: "f k w = (evs, w1)" by fastforce
  have "pj_members (snd (f k w)) = pj_members w" by (rule "2.prems")
  with f have "pj_members w1 = pj_members w" by simp
  with f "2.IH" [OF f [symmetric] "2.prems"] show ?case by (auto split: prod.splits)
qed simp

lemma each_keeps_members: "pj_members (snd (project_each env is w)) = pj_members w"
proof (induction env "is" w rule: project_each.induct)
  case (2 env i "is" w)
  then show ?case using one_keeps_members(1) [of env i w] by (auto split: prod.splits)
qed simp

lemma reading_keeps_members:
  "pj_members (snd (project_items env I w)) = pj_members w" "pj_members (snd (project_bookmarks env I w)) = pj_members w"
  "pj_members (snd (project_wishes env W w)) = pj_members w" "pj_members (replay env w) = pj_members w"
proof -
  show items: "pj_members (snd (project_items env I w)) = pj_members w" for I w
    using each_keeps_members [of env "bt_keys I" w] by (auto simp: project_items_def split: prod.splits)
  show marks: "pj_members (snd (project_bookmarks env I w)) = pj_members w" for I w
    unfolding project_bookmarks_def by (rule all_keep_members) (rule one_keeps_members)
  show wishes: "pj_members (snd (project_wishes env W w)) = pj_members w" for W w
    unfolding project_wishes_def by (rule all_keep_members) (rule one_keeps_members)
  show "pj_members (replay env w) = pj_members w"
    by (simp add: replay_def Let_def items marks wishes split: sum.splits prod.splits)
qed

lemma members_after_turn:
  "pj_members (snd (projection_turn env msg w)) =
     (case msg of Membership log \<Rightarrow> bts_of (map (\<lambda>(m, r). rec_id r) (bt_entries (ms_members log))) | _ \<Rightarrow> pj_members w)"
proof (cases msg)
  case (Changed b)
  then show ?thesis
    using reading_keeps_members(1-3) [of env] by (auto simp: projection_turn_def project_batch_def Let_def split: prod.splits) (metis snd_conv)+
next
  case (Membership log)
  have "map sm_member (map (\<lambda>(m, r). \<lparr>sm_member = rec_id r, sm_display_name = rec_name r,
      sm_pledge_bytes = rec_pledge r, sm_is_core = is_core log (rec_id r)\<rparr>) xs) = map (\<lambda>(m, r). rec_id r) xs" for xs :: "(member_id \<times> member_record) list"
    by (induction xs) auto
  then show ?thesis
    by (auto simp: Membership projection_turn_def project_members_def Let_def reading_keeps_members(4) simp del: map_map)
qed (simp add: projection_turn_def reading_keeps_members(4))

text \<open>
  C20. One turn of the projection's loop brings the read model up to date. Whatever happened before (as in
  the property above, and under its conditions), when the loop takes the batch that waits and projects
  it, or hears of a membership or of a reindex while no batch waits, and no read of the document and no write of a row
  fails in that turn, then after it every row is what the document says to the members there are, of whom
  the last membership decides, and nothing is left to be taken.
\<close>

theorem projection_catches_up:
  assumes "rm_start co s0" and "(rm_step co)\<^sup>*\<^sup>* s0 s" and "rm_idle s" and "calm co s env"
    and "case msg of Changed b \<Rightarrow> take_changes (rm_pump s) = (Some b, p) | _ \<Rightarrow> p = rm_pump s \<and> batch_is_empty (pu_batch p)"
    and "w = snd (projection_turn env msg (rm_proj s))"
    and "view = (rm_entries s, rm_latest s, rm_content s, pj_members w)"
  shows "bt_get (tb_items (pj_tables w)) i = item_row co view i \<and> tb_bookmarks (pj_tables w) i = bookmark_rows co view i \<and>
    tb_wishes (pj_tables w) k = wish_row co view k \<and> take_changes p = (None, p) \<and>
    pj_members w = (case msg of Membership log \<Rightarrow> bts_of (map (\<lambda>(m, r). rec_id r) (bt_entries (ms_members log)))
      | _ \<Rightarrow> pj_members (rm_proj s))"
proof -
  let ?s = "s\<lparr>rm_pump := p, rm_proj := w\<rparr>"
  have "(rm_step co)\<^sup>*\<^sup>* s ?s"
    unfolding assms(6) by (rule projection_turns_are_steps [OF assms(4,3)]) (use assms(5) in \<open>auto split: projection_msg.splits\<close>)
  then have ok: "rm_ok co ?s" using reach_ok start_ok [OF assms(1)] assms(2) by (meson rtranclp_trans)
  have empty: "batch_is_empty (pu_batch p)" using assms(5) taken_is_empty by (auto split: projection_msg.splits)
  then have settled: "rm_settled ?s" using assms(3) by (simp add: rm_settled_def rm_idle_def)
  have view: "rm_view ?s = view" by (simp add: rm_view_def assms(7))
  show ?thesis
    using settled_rows [OF ok settled, unfolded view] empty members_after_turn [of env msg "rm_proj s", folded assms(6)]
    by (simp add: take_changes_def)
qed

section \<open>Concrete runs\<close>

definition demo_codecs :: codecs where
  "demo_codecs = \<lparr>co_texts = demo_texts, co_item = demo_json, co_community = demo_community_json,
     co_on_curve = (\<lambda>_. True)\<rparr>"

definition no_rows :: tables where
  "no_rows = \<lparr>tb_items = bt_empty, tb_bookmarks = (\<lambda>_. []), tb_wishes = (\<lambda>_. no_wish), tb_members = []\<rparr>"

definition projecting :: "tables \<Rightarrow> projection" where
  "projecting t = \<lparr>pj_tables = t, pj_indexed = bt_empty, pj_committed = bt_empty, pj_members = bt_empty,
     pj_replays = 0, pj_items_waiting = bt_empty, pj_bookmarks_waiting = bt_empty, pj_wishes_waiting = bt_empty,
     pj_held = \<lparr>he_store = \<lparr>bs_tags = [], bs_status = \<lambda>_. NotFound, bs_held = bt_empty\<rparr>, he_changed = 0\<rparr>\<rparr>"

definition fresh_read_model :: read_model where
  "fresh_read_model = \<lparr>rm_entries = [], rm_latest = [], rm_content = Map.empty, rm_pump = pump_new,
     rm_proj = projecting no_rows, rm_items = [], rm_bookmarked = [], rm_wishes = []\<rparr>"

definition title_entry :: doc_entry where
  "title_entry = \<lparr>de_key = key_encode bit_hex (FieldKey (ItemId 1) Title), de_author = 2, de_timestamp = 10,
     de_hash = ContentHash 5, de_len = 6\<rparr>"

lemma empty_lists:
  "item_ids tx (answering [] [] c) = Inr bt_empty" "bookmarked_item_ids tx (answering [] [] c) = Inr bt_empty"
  "wish_ids tx (answering [] [] c) = Inr bt_empty"
  by (simp_all add: item_ids_def bookmarked_item_ids_def wish_ids_def items_in_def List.map_filter_simps bts_of_def
      bt_collect_def)

lemma fresh_start: "rm_start demo_codecs fresh_read_model"
  using demo_texts_ok
  by (simp add: rm_start_def fresh_read_model_def demo_codecs_def rm_view_def items_listed_def projecting_def
      no_rows_def read_everything_def rm_doc_def empty_lists bt_keys_def bt_empty.rep_eq)

definition one_item_read_model :: read_model where
  "one_item_read_model = fresh_read_model\<lparr>rm_entries := [title_entry], rm_latest := [title_entry],
     rm_pump := pump_turn demo_texts 0 (Some (InsertRemote title_entry)) (rm_pump fresh_read_model)\<rparr>"

lemma title_parses: "key_parse bit_hex (de_key title_entry) = Some (FieldKey (ItemId 1) Title)"
  using key_reads_back [OF bit_hex_text, of "FieldKey (ItemId 1) Title"] by (simp add: title_entry_def)

lemma title_arrives: "rm_step demo_codecs fresh_read_model one_item_read_model"
proof -
  have "arrives demo_codecs (de_key title_entry) (rm_view fresh_read_model)
      ([title_entry], [title_entry], rm_content fresh_read_model, pj_members (rm_proj fresh_read_model))"
    using title_parses by (simp add: rm_view_def fresh_read_model_def same_but_def demo_codecs_def demo_texts_def)
  from rm_step.Arrives [OF this, of "InsertRemote title_entry" 0] show ?thesis
    by (simp add: one_item_read_model_def demo_codecs_def)
qed

lemma title_found: "item_row demo_codecs (rm_view one_item_read_model) (ItemId 1) \<noteq> None"
proof -
  have "starts_with (prefix_of bit_hex (ItemId 1)) (de_key title_entry)"
    by (simp add: starts_with_iff title_entry_def prefix_of_def)
  then show ?thesis
    unfolding rm_view_def item_row_None
    by (simp add: one_item_read_model_def item_entries_in_def demo_codecs_def demo_texts_def)
qed

theorem read_model_is_the_document_witness:
  "\<exists>s. (rm_step demo_codecs)\<^sup>*\<^sup>* fresh_read_model s \<and> rm_settled s \<and>
     bt_get (tb_items (pj_tables (rm_proj s))) (ItemId 1) = item_row demo_codecs (rm_view s) (ItemId 1) \<and>
     bt_get (tb_items (pj_tables (rm_proj s))) (ItemId 1) \<noteq> None"
proof -
  obtain s where s: "(rm_work demo_codecs)\<^sup>*\<^sup>* one_item_read_model s" "rm_settled s"
    "rm_view s = rm_view one_item_read_model"
    using work_settles by blast
  have "rm_work demo_codecs \<le> rm_step demo_codecs" by (auto intro: rm_step.Work)
  then have "(rm_step demo_codecs)\<^sup>*\<^sup>* one_item_read_model s" using s(1) rtranclp_mono by blast
  then have reached: "(rm_step demo_codecs)\<^sup>*\<^sup>* fresh_read_model s"
    using title_arrives by (simp add: converse_rtranclp_into_rtranclp)
  then show ?thesis
    using read_model_is_the_document [OF fresh_start reached s(2), of "ItemId 1"] s(2,3) title_found by auto
qed

definition calm_env :: "read_model \<Rightarrow> project_env" where
  "calm_env s = \<lparr>en_codecs = demo_codecs, en_doc = rm_doc s,
     en_blobs = \<lparr>bf_list = \<lambda>_. False, bf_status = \<lambda>_. False\<rparr>, en_now = 0, en_index_fails = \<lambda>_. False,
     en_commit_fails = False, en_item_fails = \<lambda>_. False, en_bookmarks_fail = \<lambda>_. False,
     en_wish_fails = \<lambda>_. False, en_members_fail = False\<rparr>"

theorem projection_catches_up_witness:
  "\<exists>b p. take_changes (rm_pump one_item_read_model) = (Some b, p) \<and>
     bt_get (tb_items (pj_tables (snd (projection_turn (calm_env one_item_read_model) (Changed b) (rm_proj one_item_read_model))))) (ItemId 1) \<noteq> None \<and>
     take_changes p = (None, p)"
proof -
  let ?b = "pu_batch (rm_pump one_item_read_model)" and ?p = "(rm_pump one_item_read_model)\<lparr>pu_batch := batch_new\<rparr>"
  let ?w = "snd (projection_turn (calm_env one_item_read_model) (Changed ?b) (rm_proj one_item_read_model))"
  have "bt_has (ba_items ?b) (ItemId 1)"
    using batch_after_insert [of "InsertRemote title_entry" title_entry] note_key_marks(1) [of demo_texts]
      item_marks [of demo_texts "de_key title_entry"] title_parses
    by (simp add: one_item_read_model_def demo_texts_def)
  then have "\<not> batch_is_empty ?b" using batch_empty_marks(1) by (auto simp: bt_has_dom)
  then have taken: "take_changes (rm_pump one_item_read_model) = (Some ?b, ?p)"
    by (simp add: take_changes_def)
  have calm: "rm_idle one_item_read_model" "calm demo_codecs one_item_read_model (calm_env one_item_read_model)"
    by (simp_all add: calm_def calm_env_def rm_idle_def one_item_read_model_def fresh_read_model_def)
  have msg: "case Changed ?b of Changed b \<Rightarrow> take_changes (rm_pump one_item_read_model) = (Some b, ?p)
      | _ \<Rightarrow> ?p = rm_pump one_item_read_model \<and> batch_is_empty (pu_batch ?p)"
    using taken by simp
  have reached: "(rm_step demo_codecs)\<^sup>*\<^sup>* fresh_read_model one_item_read_model" using title_arrives by (rule r_into_rtranclp)
  note up = projection_catches_up [OF fresh_start reached calm msg refl refl, of "ItemId 1" "WishId 1"]
  have "pj_members ?w = pj_members (rm_proj one_item_read_model)" using up by simp
  then have "bt_get (tb_items (pj_tables ?w)) (ItemId 1) = item_row demo_codecs (rm_view one_item_read_model) (ItemId 1)"
    using up by (simp add: rm_view_def del: item_row.simps)
  then have "bt_get (tb_items (pj_tables ?w)) (ItemId 1) \<noteq> None" using title_found by simp
  moreover have "take_changes ?p = (None, ?p)" using up by blast
  ultimately show ?thesis using taken by blast
qed

section \<open>Where the rows are not a function of the document\<close>

text \<open>
  A replay reads the bookmarks of the items bookmarks point into. The bookmarks an earlier run left of
  any other item stay, although the document has none: the last bookmark of an item was deleted, and the
  node stopped before it was read again.
\<close>

lemma each_keeps_bookmarks: "tb_bookmarks (pj_tables (snd (project_each env is w))) = tb_bookmarks (pj_tables w)"
proof -
  have "tb_bookmarks (pj_tables (snd (project_item env i w))) = tb_bookmarks (pj_tables w)" for i w
    by (auto simp: project_item_def Let_def upsert_item_def split: sum.splits option.splits)
  then show ?thesis by (induction "is" arbitrary: w) (auto split: prod.splits, metis snd_conv)
qed

lemma wishes_keep_bookmarks:
  "tb_bookmarks (pj_tables (snd (project_wishes env ws w))) = tb_bookmarks (pj_tables w)"
proof -
  have one: "tb_bookmarks (pj_tables (snd (project_wish env wi w))) = tb_bookmarks (pj_tables w)" for wi w
    by (auto simp: project_wish_def Let_def replace_wish_def split: sum.splits)
  have "tb_bookmarks (pj_tables (snd (project_all (project_wish env) ks w))) = tb_bookmarks (pj_tables w)" for ks
    by (induction ks arbitrary: w) (auto split: prod.splits, metis one snd_conv)
  then show ?thesis by (simp add: project_wishes_def)
qed

lemma bookmarks_elsewhere_stay:
  assumes "\<not> bt_has items i"
  shows "tb_bookmarks (pj_tables (snd (project_bookmarks env items w))) i = tb_bookmarks (pj_tables w) i"
proof -
  have one: "tb_bookmarks (pj_tables (snd (project_bookmarks_of env j w))) i = tb_bookmarks (pj_tables w) i"
    if "i \<noteq> j" for j w
    using that by (auto simp: project_bookmarks_of_def Let_def replace_bookmarks_def split: sum.splits)
  have "i \<notin> set ks \<Longrightarrow>
      tb_bookmarks (pj_tables (snd (project_all (project_bookmarks_of env) ks w))) i = tb_bookmarks (pj_tables w) i" for ks
    by (induction ks arbitrary: w) (auto split: prod.splits, metis one snd_conv)
  then show ?thesis using assms by (simp add: project_bookmarks_def bt_has_dom)
qed

theorem stale_bookmarks_survive_a_start:
  assumes "en_doc env = answering E L c" and "bookmarked_item_ids (co_texts (en_codecs env)) (en_doc env) = Inr bs"
    and "\<not> bt_has bs i"
  shows "tb_bookmarks (pj_tables (projection_start env ms t h)) i = tb_bookmarks t i"
proof -
  obtain ids ws where "item_ids (co_texts (en_codecs env)) (en_doc env) = Inr ids"
    "wish_ids (co_texts (en_codecs env)) (en_doc env) = Inr ws"
    using item_ids_answering wish_ids_answering unfolding assms(1) by metis
  then have "tb_bookmarks (pj_tables (replay env w)) i = tb_bookmarks (pj_tables w) i" for w
    using assms(2) bookmarks_elsewhere_stay [OF assms(3)] each_keeps_bookmarks
    by (simp add: replay_def Let_def wishes_keep_bookmarks project_items_def split: prod.splits)
      (metis snd_conv)
  then show ?thesis by (simp add: projection_start_def project_members_def Let_def)
qed

text \<open>
  An entry under an item whose key this build does not know moves the time the item was last changed, but
  marks nothing: whether the row has the new time depends on whether the item was read again for another
  reason.
\<close>

definition later_entry :: doc_entry where
  "later_entry = \<lparr>de_key = prefix_of bit_hex (ItemId 1) @ ''isbn'', de_author = 2, de_timestamp = 20,
     de_hash = ContentHash 6, de_len = 3\<rparr>"

lemma later_is_unknown: "key_parse bit_hex (de_key later_entry) = None"
proof -
  have "split_at CHR ''/'' (de_key later_entry) = [ITEMS, to_hex bit_hex 1, ''isbn'']"
    using hex_textD(2) [OF bit_hex_text, of 1] by (simp add: later_entry_def prefix_of_def)
  then show ?thesis
    using hex_textD(1) [OF bit_hex_text, of 1]
    by (simp add: key_parse_def FILE_def parse_field_def all_fields_def when_over_def)
qed

theorem unknown_entry_moves_a_row_unmarked:
  "fst (note_key demo_texts (de_key later_entry) b) = False \<and>
   fst (snd (note_key demo_texts (de_key later_entry) b)) = b \<and>
   map_option st_last_modified (item_row demo_codecs ([title_entry], [title_entry], Map.empty, m) (ItemId 1)) = Some 10 \<and>
   map_option st_last_modified (item_row demo_codecs ([title_entry, later_entry], [title_entry, later_entry], Map.empty, m)
     (ItemId 1)) = Some 20"
proof -
  have "community_parse demo_texts (de_key later_entry) = None"
  proof (cases "community_parse demo_texts (de_key later_entry)")
    case (Some k)
    from parsed_is_encoded [OF this] show ?thesis
      by (cases k) (simp_all add: later_entry_def prefix_of_def ITEMS_def community_words)
  qed
  then have "note_key demo_texts (de_key later_entry) b = (False, b, False)"
    using later_is_unknown by (simp add: note_key_def demo_texts_def)
  moreover have "starts_with (prefix_of bit_hex (ItemId 1)) (de_key title_entry)"
    "starts_with (prefix_of bit_hex (ItemId 1)) (de_key later_entry)"
    by (simp_all add: starts_with_iff title_entry_def later_entry_def prefix_of_def)
  ultimately show ?thesis
    by (simp add: read_item_answering item_entries_in_def demo_codecs_def demo_texts_def seen_item_def folded_def
        Let_def stored_of_def title_entry_def later_entry_def)
qed

end
