(* ===== verification/Heartbeat.thy ===== *)
theory Heartbeat
  imports Directory
begin

text \<open>
  What a member says of itself every minute: \<open>distlib-core/src/availability.rs\<close>. The signed statement,
  the guard on its size, and the list of items it points at.

  postcard is not part of the repository: its encoder and decoder are the fields of a record that the
  definitions take as an argument.

  The theorems say that a heartbeat reads back for its own group and member only, and that a base list
  reads back as exactly the set it was made from, while every other sequence of bytes is refused.
\<close>

section \<open>Limits\<close>

definition GOSSIP_MAX_MESSAGE :: nat where "GOSSIP_MAX_MESSAGE = 16 * 1024"
definition HEARTBEAT_MAX :: nat where "HEARTBEAT_MAX = GOSSIP_MAX_MESSAGE - 512"
definition DELTA_MAX :: nat where "DELTA_MAX = 12 * 1024 div 32"
definition BASE_MAX :: nat where "BASE_MAX = 10000000"

definition heartbeat_domain :: "u8 list" where
  "heartbeat_domain = ascii ''distlib.heartbeat.v1''"

definition BASE_FORMAT :: u8 where "BASE_FORMAT = 1"

section \<open>The statement\<close>

record holdings =
  hd_count :: u64
  hd_base :: "content_hash option"
  hd_added :: "item_id list"
  hd_removed :: "item_id list"

record 'sig heartbeat =
  hb_address :: "'sig signed_address"
  hb_epoch :: u64
  hb_seq :: u64
  hb_interval_secs :: u32
  hb_holdings :: holdings
  hb_leaving :: bool

record 'sig signed_heartbeat =
  sh_heartbeat :: "'sig heartbeat"
  sh_signature :: 'sig

record 'sig beat_codec =
  encode_beat :: "'sig heartbeat \<Rightarrow> string + u8 list"
  encode_signed :: "'sig signed_heartbeat \<Rightarrow> string + u8 list"
  decode_signed :: "u8 list \<Rightarrow> string + 'sig signed_heartbeat"

text \<open>What the code relies on: what is encoded decodes to itself.\<close>

definition codec_ok :: "'sig beat_codec \<Rightarrow> bool" where
  "codec_ok codec \<longleftrightarrow>
     (\<forall>s bytes. encode_signed codec s = Inr bytes \<longrightarrow> decode_signed codec bytes = Inr s)"

definition heartbeat_payload ::
    "'sig beat_codec \<Rightarrow> group_id \<Rightarrow> 'sig heartbeat \<Rightarrow> core_error + u8 list" where
  "heartbeat_payload codec gid hb =
     (case encode_beat codec hb of
        Inl message \<Rightarrow> Inl (HeartbeatEncoding message)
      | Inr bytes \<Rightarrow> Inr (heartbeat_domain @ be_bytes 32 (group_bytes gid) @ bytes))"

definition sign_heartbeat ::
    "('sk, 'sig) crypto \<Rightarrow> 'sig beat_codec \<Rightarrow> 'sk \<Rightarrow> group_id \<Rightarrow> 'sig heartbeat
      \<Rightarrow> core_error + 'sig signed_heartbeat" where
  "sign_heartbeat cr codec sk gid hb =
     (let member = public_of cr sk
      in if sa_member (hb_address hb) \<noteq> member then Inl (BadHeartbeatSignature member)
         else case heartbeat_payload codec gid hb of
           Inl e \<Rightarrow> Inl e
         | Inr payload \<Rightarrow> Inr \<lparr>sh_heartbeat = hb, sh_signature = sign_with cr sk payload\<rparr>)"

definition encode_heartbeat :: "'sig beat_codec \<Rightarrow> 'sig signed_heartbeat \<Rightarrow> core_error + u8 list" where
  "encode_heartbeat codec s =
     (case encode_signed codec s of
        Inl message \<Rightarrow> Inl (HeartbeatEncoding message)
      | Inr bytes \<Rightarrow>
          if HEARTBEAT_MAX < length bytes then Inl (HeartbeatTooLarge (length bytes) HEARTBEAT_MAX)
          else Inr bytes)"

definition decode_heartbeat :: "'sig beat_codec \<Rightarrow> u8 list \<Rightarrow> core_error + 'sig signed_heartbeat" where
  "decode_heartbeat codec bytes =
     (if HEARTBEAT_MAX < length bytes then Inl (HeartbeatTooLarge (length bytes) HEARTBEAT_MAX)
      else case decode_signed codec bytes of Inl message \<Rightarrow> Inl (HeartbeatEncoding message) | Inr s \<Rightarrow> Inr s)"

definition beat_member :: "'sig signed_heartbeat \<Rightarrow> member_id" where
  "beat_member s = sa_member (hb_address (sh_heartbeat s))"

definition open_heartbeat ::
    "('sk, 'sig) crypto \<Rightarrow> addr_encoder \<Rightarrow> 'sig beat_codec \<Rightarrow> group_id \<Rightarrow> 'sig signed_heartbeat
      \<Rightarrow> core_error + 'sig heartbeat" where
  "open_heartbeat cr enc codec gid s =
     (case verify_address cr enc (hb_address (sh_heartbeat s)) of
        Inl e \<Rightarrow> Inl e
      | Inr _ \<Rightarrow>
          (case heartbeat_payload codec gid (sh_heartbeat s) of
             Inl e \<Rightarrow> Inl e
           | Inr payload \<Rightarrow>
               if verifies cr (beat_member s) payload (sh_signature s) then Inr (sh_heartbeat s)
               else Inl (BadHeartbeatSignature (beat_member s))))"

section \<open>Base lists\<close>

definition encode_base :: "item_id list \<Rightarrow> u8 list" where
  "encode_base items =
     BASE_FORMAT # concat (map (\<lambda>i. be_bytes 32 (item_bytes i)) (remdups_adj (sort items)))"

text \<open>\<open>as_chunks\<close>: the whole blocks of a slice, and what is left over.\<close>

fun as_chunks :: "nat \<Rightarrow> 'a list \<Rightarrow> 'a list list \<times> 'a list" where
  "as_chunks n xs =
     (if n = 0 \<or> length xs < n then ([], xs)
      else case as_chunks n (drop n xs) of (blocks, rest) \<Rightarrow> (take n xs # blocks, rest))"

declare as_chunks.simps [simp del]

definition of_be_bytes :: "u8 list \<Rightarrow> 256 word" where
  "of_be_bytes bytes = foldl (\<lambda>acc b. acc * 256 + ucast b) 0 bytes"

definition decode_base :: "u8 list \<Rightarrow> core_error + item_id list" where
  "decode_base bytes =
     (case bytes of
        [] \<Rightarrow> Inl (BadBaseList ''it is empty'')
      | format # ids \<Rightarrow>
          if format \<noteq> BASE_FORMAT
          then Inl (BadBaseList ''it is in a format this build does not read'')
          else (case as_chunks 32 ids of
             (ids, rest) \<Rightarrow>
               if rest \<noteq> [] then Inl (BadBaseList ''it ends partway through an id'')
               else if BASE_MAX < length ids
               then Inl (BadBaseList ''it holds more ids than any list may'')
               else Inr (map (\<lambda>b. ItemId (of_be_bytes b)) ids)))"

section \<open>Bytes\<close>

lemma le_bytes_Suc: "le_bytes (Suc n) w = ucast w # le_bytes n (drop_bit 8 w)"
  by (simp add: le_bytes_def map_upt_Suc add.commute del: upt_Suc)

lemma be_bytes_Suc: "be_bytes (Suc n) w = be_bytes n (drop_bit 8 w) @ [ucast w]"
  by (simp add: be_bytes_def le_bytes_Suc)

lemma of_be_bytes_append: "of_be_bytes (bs @ [b]) = of_be_bytes bs * 256 + ucast b"
  by (simp add: of_be_bytes_def)

lemma of_be_bytes_be_bytes: "of_be_bytes (be_bytes n w) = take_bit (8 * n) w"
proof (induction n arbitrary: w)
  case 0
  then show ?case by (simp add: of_be_bytes_def be_bytes_def le_bytes_def)
next
  case (Suc n)
  have "take_bit (8 * n) (drop_bit 8 w) * 256 + ucast (ucast w :: u8) = take_bit (8 * Suc n) w"
  proof -
    have "drop_bit 8 (take_bit (8 * Suc n) w) = take_bit (8 * n) (drop_bit 8 w)"
      by (simp add: drop_bit_take_bit)
    moreover have "take_bit 8 (take_bit (8 * Suc n) w) = ucast (ucast w :: u8)"
      by (rule bit_word_eqI) (auto simp: bit_take_bit_iff bit_ucast_iff)
    moreover have "push_bit 8 (drop_bit 8 (take_bit (8 * Suc n) w)) + take_bit 8 (take_bit (8 * Suc n) w)
        = take_bit (8 * Suc n) w"
      by (rule bits_ident)
    ultimately show ?thesis by (simp add: push_bit_eq_mult)
  qed
  then show ?case by (simp add: be_bytes_Suc of_be_bytes_append Suc)
qed

lemma of_be_bytes_32 [simp]: "of_be_bytes (be_bytes 32 w) = w"
  unfolding of_be_bytes_be_bytes by (rule bit_word_eqI) (simp add: bit_take_bit_iff bit_imp_le_length)

text \<open>Blocks of one length are found again.\<close>

lemma as_chunks_concat:
  "0 < n \<Longrightarrow> \<forall>b \<in> set blocks. length b = n \<Longrightarrow> length rest < n
     \<Longrightarrow> as_chunks n (concat blocks @ rest) = (blocks, rest)"
proof (induction blocks)
  case Nil
  then show ?case by (subst as_chunks.simps) simp
next
  case (Cons b blocks)
  then show ?case by (subst as_chunks.simps) simp
qed

lemma as_chunks_inverse:
  "as_chunks n xs = (blocks, rest) \<Longrightarrow> 0 < n
     \<Longrightarrow> xs = concat blocks @ rest \<and> (\<forall>b \<in> set blocks. length b = n) \<and> length rest < n"
proof (induction n xs arbitrary: blocks rest rule: as_chunks.induct)
  case (1 n xs)
  show ?case
  proof (cases "length xs < n")
    case True
    with 1(2,3) show ?thesis by (subst (asm) as_chunks.simps) auto
  next
    case False
    obtain bs r where step: "as_chunks n (drop n xs) = (bs, r)" by fastforce
    with 1(2,3) False have "blocks = take n xs # bs" "rest = r"
      by (subst (asm) as_chunks.simps; simp)+
    moreover from 1(1) [OF _ step] 1(3) False
    have "drop n xs = concat bs @ r" "\<forall>b \<in> set bs. length b = n" "length r < n" by auto
    ultimately show ?thesis
      using False by (metis (no_types, lifting) append.assoc append_take_drop_id concat.simps(2) length_take
          min.absorb2 not_less set_ConsD)
  qed
qed

lemma bit_shift_in:
  "bit (x * 256 + ucast (b :: u8) :: 256 word) k \<longleftrightarrow>
     k < 256 \<and> (if k < 8 then bit b k else bit x (k - 8))"
proof -
  have "push_bit 8 x + ucast b = push_bit 8 x OR (ucast b :: 256 word)"
    by (rule disjunctive_add) (auto simp: bit_push_bit_iff bit_ucast_iff dest: bit_imp_le_length)
  then have "x * 256 + ucast b = push_bit 8 x OR (ucast b :: 256 word)"
    by (simp add: push_bit_eq_mult)
  then show ?thesis
    by (auto simp: bit_or_iff bit_push_bit_iff bit_ucast_iff dest: bit_imp_le_length)
qed

lemma bit_of_be_bytes: "bit (of_be_bytes bytes) k \<Longrightarrow> k < 8 * length bytes"
proof (induction bytes arbitrary: k rule: rev_induct)
  case (snoc b bytes)
  then show ?case
    by (cases "k < 8") (auto simp: of_be_bytes_append bit_shift_in dest!: snoc.IH)
qed (simp add: of_be_bytes_def)

lemma be_bytes_of_be_bytes:
  "length bytes \<le> 32 \<Longrightarrow> be_bytes (length bytes) (of_be_bytes bytes) = bytes"
proof (induction bytes rule: rev_induct)
  case (snoc b bytes)
  have "drop_bit 8 (of_be_bytes (bytes @ [b])) = of_be_bytes bytes"
    using snoc.prems bit_of_be_bytes [of bytes]
    by (intro bit_word_eqI) (force simp: bit_drop_bit_eq of_be_bytes_append bit_shift_in)
  moreover have "ucast (of_be_bytes (bytes @ [b])) = b"
    by (rule bit_word_eqI) (simp add: bit_ucast_iff of_be_bytes_append bit_shift_in)
  ultimately show ?case using snoc by (simp add: be_bytes_Suc)
qed (simp add: be_bytes_def le_bytes_def)

section \<open>Lists read back\<close>

lemma decode_base_iff:
  "decode_base bytes = Inr ids \<longleftrightarrow>
     length ids \<le> BASE_MAX \<and> bytes = BASE_FORMAT # concat (map (\<lambda>i. be_bytes 32 (item_bytes i)) ids)"
proof
  assume read: "decode_base bytes = Inr ids"
  then obtain body blocks where bytes: "bytes = BASE_FORMAT # body" and cut: "as_chunks 32 body = (blocks, [])"
    and few: "length blocks \<le> BASE_MAX" and ids: "ids = map (\<lambda>b. ItemId (of_be_bytes b)) blocks"
    by (auto simp: decode_base_def split: list.splits if_splits prod.splits)
  from as_chunks_inverse [OF cut] have body: "body = concat blocks" and whole: "\<forall>b \<in> set blocks. length b = 32"
    by auto
  have "map (\<lambda>i. be_bytes 32 (item_bytes i)) ids = blocks"
  proof -
    have "be_bytes 32 (of_be_bytes b) = b" if "b \<in> set blocks" for b
      using be_bytes_of_be_bytes [of b] whole that by simp
    then show ?thesis unfolding ids map_map by (intro map_idI) simp
  qed
  then show "length ids \<le> BASE_MAX \<and> bytes = BASE_FORMAT # concat (map (\<lambda>i. be_bytes 32 (item_bytes i)) ids)"
    using bytes body few ids by simp
next
  assume *: "length ids \<le> BASE_MAX \<and> bytes = BASE_FORMAT # concat (map (\<lambda>i. be_bytes 32 (item_bytes i)) ids)"
  have "as_chunks 32 (concat (map (\<lambda>i. be_bytes 32 (item_bytes i)) ids) @ []) =
      (map (\<lambda>i. be_bytes 32 (item_bytes i)) ids, [])"
    by (rule as_chunks_concat) auto
  with * show "decode_base bytes = Inr ids"
    by (simp add: decode_base_def o_def)
qed

lemma distinct_remdups_adj_sorted: "sorted xs \<Longrightarrow> distinct (remdups_adj xs)" for xs :: "'a::linorder list"
  by (induction xs rule: remdups_adj.induct) auto

lemma remdups_adj_sort: "remdups_adj (sort xs) = sorted_list_of_set (set xs)" for xs :: "'a::linorder list"
  by (rule sorted_wrt_less_unique) (simp_all add: strict_sorted_iff distinct_remdups_adj_sorted)

text \<open>
  A base list reads back as the set it was made from. Lists of the same items, in any order and
  with repeats, are encoded as the same bytes and different sets as different bytes; what was encoded
  decodes to the set, sorted, unless it is longer than any list may be; and nothing decodes but the
  bytes of some list within that length.
\<close>
theorem base_list_reads_back:
  "(encode_base xs = encode_base ys \<longleftrightarrow> set xs = set ys) \<and>
   (decode_base (encode_base xs) =
      (if card (set xs) \<le> BASE_MAX then Inr (sorted_list_of_set (set xs))
       else Inl (BadBaseList ''it holds more ids than any list may''))) \<and>
   (decode_base bytes = Inr ids \<longleftrightarrow>
      length ids \<le> BASE_MAX \<and> bytes = BASE_FORMAT # concat (map (\<lambda>i. be_bytes 32 (item_bytes i)) ids))"
proof (intro conjI decode_base_iff)
  have "encode_base xs = encode_base ys \<longleftrightarrow> remdups_adj (sort xs) = remdups_adj (sort ys)"
    using concat_ids_inject [of "map item_bytes (remdups_adj (sort xs))" "map item_bytes (remdups_adj (sort ys))"]
    by (simp add: encode_base_def o_def inj_map_eq_map inj_def item_id.expand)
  also have "\<dots> \<longleftrightarrow> set xs = set ys"
    by (metis remdups_adj_set remdups_adj_sort set_sort)
  finally show "encode_base xs = encode_base ys \<longleftrightarrow> set xs = set ys" .
  let ?ids = "sorted_list_of_set (set xs)"
  have cut: "as_chunks 32 (concat (map (\<lambda>i. be_bytes 32 (item_bytes i)) ?ids) @ []) =
      (map (\<lambda>i. be_bytes 32 (item_bytes i)) ?ids, [])"
    by (rule as_chunks_concat) auto
  show "decode_base (encode_base xs) =
      (if card (set xs) \<le> BASE_MAX then Inr ?ids
       else Inl (BadBaseList ''it holds more ids than any list may''))"
    using cut by (simp add: decode_base_def encode_base_def remdups_adj_sort o_def not_le)
qed

section \<open>Heartbeats read back\<close>

lemma payload_of_one_group:
  assumes "heartbeat_payload codec gid hb = Inr p" "heartbeat_payload codec gid' hb' = Inr p"
  shows "gid = gid'"
proof -
  have "be_bytes 32 (group_bytes gid) = be_bytes 32 (group_bytes gid')"
    using assms by (auto simp: heartbeat_payload_def append_eq_append_conv split: sum.splits)
  then show ?thesis by (simp add: be_bytes_inject group_id.expand)
qed

text \<open>
  What a member says of itself reads back, and only so. A heartbeat that could be signed and sent
  fits a frame, and whoever receives those bytes reads the same heartbeat for the same group; a member
  signs only a heartbeat with its own address; and what opens for a group is signed, by the member it is
  from, over bytes that no heartbeat for another group has.
\<close>
theorem heartbeat_reads_back:
  assumes "signature_scheme cr" "codec_ok codec" "verify_address cr enc (hb_address hb) = Inr ()"
    and sent: "sign_heartbeat cr codec sk gid hb = Inr s" "encode_heartbeat codec s = Inr bytes"
  shows "length bytes \<le> HEARTBEAT_MAX \<and> decode_heartbeat codec bytes = Inr s \<and>
    open_heartbeat cr enc codec gid s = Inr hb \<and> sa_member (hb_address hb) = public_of cr sk \<and>
    (\<forall>gid' s' hb'. open_heartbeat cr enc codec gid' s' = Inr hb' \<longrightarrow>
       (\<exists>payload. verifies cr (beat_member s') payload (sh_signature s') \<and>
          (\<forall>other hb''. heartbeat_payload codec other hb'' = Inr payload \<longrightarrow> other = gid')))"
proof (intro conjI allI impI)
  show "length bytes \<le> HEARTBEAT_MAX"
    using sent(2) by (auto simp: encode_heartbeat_def split: sum.splits if_splits)
  moreover have "encode_signed codec s = Inr bytes"
    using sent(2) by (auto simp: encode_heartbeat_def split: sum.splits if_splits)
  ultimately show "decode_heartbeat codec bytes = Inr s"
    using assms(2) by (simp add: decode_heartbeat_def codec_ok_def)
  show "open_heartbeat cr enc codec gid s = Inr hb" "sa_member (hb_address hb) = public_of cr sk"
    using assms(1,3) sent(1)
    by (auto simp: sign_heartbeat_def open_heartbeat_def beat_member_def signature_scheme_def Let_def
        split: sum.splits if_splits)
  fix gid' s' hb'
  assume "open_heartbeat cr enc codec gid' s' = Inr hb'"
  then obtain payload where "heartbeat_payload codec gid' (sh_heartbeat s') = Inr payload"
    "verifies cr (beat_member s') payload (sh_signature s')"
    by (auto simp: open_heartbeat_def split: sum.splits if_splits)
  then show "\<exists>payload. verifies cr (beat_member s') payload (sh_signature s') \<and>
      (\<forall>other hb''. heartbeat_payload codec other hb'' = Inr payload \<longrightarrow> other = gid')"
    using payload_of_one_group by blast
qed

definition demo_beat :: "member_id heartbeat" where
  "demo_beat =
     \<lparr>hb_address = demo_statement 1 7 2, hb_epoch = 5, hb_seq = 2, hb_interval_secs = 60,
      hb_holdings = \<lparr>hd_count = 0, hd_base = None, hd_added = [], hd_removed = []\<rparr>, hb_leaving = False\<rparr>"

definition demo_signed :: "member_id signed_heartbeat" where
  "demo_signed = \<lparr>sh_heartbeat = demo_beat, sh_signature = MemberId 1\<rparr>"

definition demo_codec :: "member_id beat_codec" where
  "demo_codec =
     \<lparr>encode_beat = (\<lambda>_. Inr []),
      encode_signed = (\<lambda>s. if s = demo_signed then Inr [7] else Inl ''unknown''),
      decode_signed = (\<lambda>b. if b = [7] then Inr demo_signed else Inl ''unknown'')\<rparr>"

theorem heartbeat_reads_back_witness:
  "sign_heartbeat plain_crypto demo_codec (MemberId 1) (GroupId 9) demo_beat = Inr demo_signed \<and>
   encode_heartbeat demo_codec demo_signed = Inr [7] \<and>
   decode_heartbeat demo_codec [7] = Inr demo_signed \<and>
   open_heartbeat plain_crypto demo_encoder demo_codec (GroupId 9) demo_signed = Inr demo_beat"
proof -
  have codec: "codec_ok demo_codec"
    by (simp add: codec_ok_def demo_codec_def)
  have addr: "verify_address plain_crypto demo_encoder (hb_address demo_beat) = Inr ()"
    by (simp add: verify_address_def addr_signing_payload_def demo_encoder_def demo_beat_def demo_statement_def
        plain_crypto_def)
  have signed: "sign_heartbeat plain_crypto demo_codec (MemberId 1) (GroupId 9) demo_beat = Inr demo_signed"
    by (simp add: sign_heartbeat_def heartbeat_payload_def demo_codec_def demo_signed_def demo_beat_def
        demo_statement_def plain_crypto_def Let_def)
  have encoded: "encode_heartbeat demo_codec demo_signed = Inr [7]"
    by (simp add: encode_heartbeat_def demo_codec_def HEARTBEAT_MAX_def GOSSIP_MAX_MESSAGE_def)
  from heartbeat_reads_back [OF plain_crypto_scheme codec addr signed encoded] signed encoded
  show ?thesis by blast
qed

end
