(* ===== verification/Presence.thy ===== *)
theory Presence
  imports Heartbeat Settling
begin

text \<open>
  Who is online: \<open>distlib-sync/src/availability/online.rs\<close>, with how often a member beats, from
  \<open>availability/heartbeat.rs\<close>. Durations and instants are nanoseconds.

  The theorems say that a member is online exactly as long as the newest beat taken in from it is to be
  believed, that a member which beats as often as it says survives the loss of two beats, and that a
  beat from before a restart is taken in after it.
\<close>

section \<open>How long a beat is believed\<close>

definition secs :: "nat \<Rightarrow> duration" where "secs n = n * 1000000000"

definition MAX_INTERVAL :: duration where "MAX_INTERVAL = secs (20 * 60)"
definition TTL_MIN :: duration where "TTL_MIN = secs 1"
definition TTL_MAX :: duration where "TTL_MAX = secs (3 * (20 * 60))"

definition ttl :: "u32 \<Rightarrow> duration" where
  "ttl interval_secs = min TTL_MAX (max TTL_MIN (secs (unat interval_secs) * 3))"

definition BUDGET :: nat where "BUDGET = 50"

definition stretch :: "duration \<Rightarrow> nat \<Rightarrow> duration" where
  "stretch interval members =
     (let times = max 1 ((members + BUDGET - 1) div BUDGET)
      in min MAX_INTERVAL (interval * (if times < 2 ^ 32 then times else 2 ^ 32 - 1)))"

definition whole_seconds :: "duration \<Rightarrow> u32" where
  "whole_seconds interval =
     (let n = (interval div 1000000 + 999) div 1000
      in max 1 (if n < 2 ^ 32 then of_nat n else - 1))"

section \<open>The members heard from\<close>

record heard_beat =
  ht_epoch :: u64
  ht_seq :: u64
  ht_until :: "instant option"

record online =
  on_me :: member_id
  on_heard :: "(member_id, heard_beat) btmap"

definition online_new :: "member_id \<Rightarrow> online" where
  "online_new me = \<lparr>on_me = me, on_heard = bt_empty\<rparr>"

definition online_retain :: "(member_id \<Rightarrow> bool) \<Rightarrow> online \<Rightarrow> online" where
  "online_retain is_member on = on\<lparr>on_heard := bt_retain (\<lambda>m _. is_member m) (on_heard on)\<rparr>"

definition online_heard ::
    "'sig heartbeat \<Rightarrow> instant \<Rightarrow> (member_id \<Rightarrow> bool) \<Rightarrow> online \<Rightarrow> bool \<times> online" where
  "online_heard beat now is_member on =
     (let member = sa_member (hb_address beat)
      in if member = on_me on \<or> \<not> is_member member then (False, on)
         else if (case bt_get (on_heard on) member of
                    None \<Rightarrow> False
                  | Some held \<Rightarrow> ht_epoch held = hb_epoch beat \<and> hb_seq beat \<le> ht_seq held)
         then (False, on)
         else (True,
           on\<lparr>on_heard := bt_insert member
               \<lparr>ht_epoch = hb_epoch beat, ht_seq = hb_seq beat,
                ht_until = (if hb_leaving beat then None else Some (now + ttl (hb_interval_secs beat)))\<rparr>
               (on_heard on)\<rparr>))"

definition run_out :: "instant \<Rightarrow> heard_beat \<Rightarrow> heard_beat" where
  "run_out now h =
     (if (case ht_until h of None \<Rightarrow> False | Some until \<Rightarrow> until \<le> now) then h\<lparr>ht_until := None\<rparr> else h)"

definition expire :: "instant \<Rightarrow> online \<Rightarrow> online" where
  "expire now on =
     on\<lparr>on_heard := bt_map (run_out now) (on_heard on)\<rparr>"

definition next_expiry :: "online \<Rightarrow> instant option" where
  "next_expiry on =
     (case List.map_filter ht_until (bt_values (on_heard on)) of
        [] \<Rightarrow> None
      | t # ts \<Rightarrow> Some (fold min ts t))"

definition online_members :: "online \<Rightarrow> member_id list" where
  "online_members on = map fst (filter (\<lambda>(_, h). ht_until h \<noteq> None) (bt_entries (on_heard on)))"

section \<open>Beating often enough\<close>

lemma times_bounds:
  fixes members :: nat
  defines "k \<equiv> max 1 ((members + BUDGET - 1) div BUDGET)"
  shows "members \<le> BUDGET * k" "BUDGET * k \<le> members + BUDGET"
proof -
  have "members \<le> 50 * ((members + 49) div 50)" "50 * ((members + 49) div 50) \<le> members + 50" by linarith+
  then show "members \<le> BUDGET * k" "BUDGET * k \<le> members + BUDGET"
    by (auto simp: k_def BUDGET_def max_def)
qed

lemma whole_seconds_covers:
  assumes "d mod 1000000 = 0" "d \<le> MAX_INTERVAL"
  shows "d \<le> secs (unat (whole_seconds d))" "unat (whole_seconds d) \<le> 20 * 60"
proof -
  let ?n = "(d div 1000000 + 999) div 1000"
  have "?n \<le> 1200" using assms(2) by (simp add: MAX_INTERVAL_def secs_def)
  then have n: "?n < 2 ^ 32" "unat (of_nat ?n :: u32) = ?n" by (simp_all add: unsigned_of_nat take_bit_nat_eq_self)
  then have w: "unat (whole_seconds d) = max 1 ?n"
    by (simp add: whole_seconds_def Let_def max_def word_le_nat_alt)
  have "d = 1000000 * (d div 1000000)" using assms(1) by (metis mult_div_mod_eq add_0_right)
  moreover have "d div 1000000 \<le> 1000 * ?n" by linarith
  ultimately show "d \<le> secs (unat (whole_seconds d))" unfolding w secs_def by linarith
  show "unat (whole_seconds d) \<le> 20 * 60" unfolding w using \<open>?n \<le> 1200\<close> by simp
qed

text \<open>
  A member that beats as often as it says is not taken offline by two lost beats, and beats stay
  within the budget. Whatever the interval, in whole milliseconds, and however many the members, what a
  beat states is believed for at least three of the sender's intervals; the interval is never longer
  than twenty minutes; and unless it is that long, the members of a group of any size together send at
  most fifty beats in one of the set intervals, and nobody's interval is longer than that takes.
\<close>
theorem three_intervals_are_believed:
  assumes "interval mod 1000000 = 0" "members < 50 * (2 ^ 32 - 1)"
  shows "3 * stretch interval members \<le> ttl (whole_seconds (stretch interval members)) \<and>
    stretch interval members \<le> MAX_INTERVAL \<and>
    (stretch interval members < MAX_INTERVAL \<longrightarrow>
       members * interval \<le> BUDGET * stretch interval members \<and>
       BUDGET * stretch interval members \<le> (members + BUDGET) * interval)"
proof (intro conjI impI)
  let ?times = "max 1 ((members + BUDGET - 1) div BUDGET)" and ?d = "stretch interval members"
  have small: "?times < 2 ^ 32" using assms(2) by (simp add: BUDGET_def)
  then have d: "?d = min MAX_INTERVAL (interval * ?times)" by (simp add: stretch_def Let_def)
  then show "?d \<le> MAX_INTERVAL" by simp
  have ms: "?d mod 1000000 = 0"
    using assms(1) unfolding d by (auto simp: min_def MAX_INTERVAL_def secs_def mod_eq_0_iff_dvd)
  from whole_seconds_covers [OF ms \<open>?d \<le> MAX_INTERVAL\<close>] show "3 * ?d \<le> ttl (whole_seconds ?d)"
    by (simp add: ttl_def TTL_MAX_def TTL_MIN_def secs_def MAX_INTERVAL_def)
  assume "?d < MAX_INTERVAL"
  with d have "?d = interval * ?times" by (simp add: min_def split: if_splits)
  then have eq: "BUDGET * ?d = BUDGET * ?times * interval" by (simp only: mult.assoc mult.commute [of interval])
  show "members * interval \<le> BUDGET * ?d"
    unfolding eq by (rule mult_le_mono1 [OF times_bounds(1)])
  show "BUDGET * ?d \<le> (members + BUDGET) * interval"
    unfolding eq by (rule mult_le_mono1 [OF times_bounds(2)])
qed

theorem three_intervals_are_believed_witness:
  "3 * stretch (secs 60) 200 \<le> ttl (whole_seconds (stretch (secs 60) 200)) \<and>
   stretch (secs 60) 200 = secs 240"
  using three_intervals_are_believed [of "secs 60" 200]
  by (simp add: secs_def stretch_def BUDGET_def MAX_INTERVAL_def)

section \<open>Online as long as a beat is believed\<close>

text \<open>What the listening loop takes in, and the members it then knows to be online.\<close>

datatype 'sig listened = Beat "'sig heartbeat" instant | Timer instant | Members "member_id set"

fun presence_step :: "'sig listened \<Rightarrow> online \<times> member_id set \<Rightarrow> online \<times> member_id set" where
  "presence_step (Beat b now) (on, members) = (snd (online_heard b now (\<lambda>m. m \<in> members) on), members)"
| "presence_step (Timer now) (on, members) = (expire now on, members)"
| "presence_step (Members members') (on, members) = (online_retain (\<lambda>m. m \<in> members') on, members')"

text \<open>The newest beat of each member, with when it was heard: what a listener would note down.\<close>

fun newest_step ::
    "member_id \<Rightarrow> 'sig listened \<Rightarrow> (member_id \<Rightarrow> ('sig heartbeat \<times> instant) option) \<times> member_id set
      \<Rightarrow> (member_id \<Rightarrow> ('sig heartbeat \<times> instant) option) \<times> member_id set" where
  "newest_step me (Beat b now) (newest, members) =
     (let m = sa_member (hb_address b)
      in if m = me \<or> m \<notin> members \<or> (\<exists>b' t. newest m = Some (b', t) \<and> hb_epoch b' = hb_epoch b \<and> hb_seq b \<le> hb_seq b')
         then (newest, members) else (newest(m \<mapsto> (b, now)), members))"
| "newest_step me (Timer now) s = s"
| "newest_step me (Members members') (newest, members) =
     ((\<lambda>m. if m \<in> members' then newest m else None), members')"

definition believed :: "instant \<Rightarrow> 'sig heartbeat \<times> instant \<Rightarrow> heard_beat \<Rightarrow> bool" where
  "believed now = (\<lambda>(b, t) h.
     ht_epoch h = hb_epoch b \<and> ht_seq h = hb_seq b \<and>
     (if hb_leaving b then ht_until h = None
      else ht_until h = Some (t + ttl (hb_interval_secs b)) \<or>
           ht_until h = None \<and> t + ttl (hb_interval_secs b) \<le> now))"

definition presence_ok ::
    "member_id \<Rightarrow> instant \<Rightarrow> (member_id \<Rightarrow> ('sig heartbeat \<times> instant) option) \<Rightarrow> online \<Rightarrow> bool" where
  "presence_ok me now newest on \<longleftrightarrow> on_me on = me \<and>
     (\<forall>m. rel_option (believed now) (newest m) (bt_get (on_heard on) m))"

lemma set_online_members:
  "m \<in> set (online_members on) \<longleftrightarrow> (\<exists>h u. bt_get (on_heard on) m = Some h \<and> ht_until h = Some u)"
  unfolding online_members_def by (auto simp: bt_entries_iff image_iff split_def)

lemma run_out_simps [simp]:
  "ht_epoch (run_out now h) = ht_epoch h" "ht_seq (run_out now h) = ht_seq h"
  "ht_until (run_out now h) = Some u \<longleftrightarrow> ht_until h = Some u \<and> now < u"
  "ht_until (run_out now h) = None \<longleftrightarrow> ht_until h = None \<or> (\<exists>u. ht_until h = Some u \<and> u \<le> now)"
  by (auto simp: run_out_def split: option.splits)

lemma presence_step_ok:
  assumes "presence_ok me now newest on" and "\<And>t. ev = Timer t \<Longrightarrow> t \<le> now"
  shows "\<exists>newest' on' members'. newest_step me ev (newest, members) = (newest', members') \<and>
    presence_step ev (on, members) = (on', members') \<and> presence_ok me now newest' on'"
proof (cases ev)
  case (Beat b t)
  let ?m = "sa_member (hb_address b)"
  have held: "(case bt_get (on_heard on) ?m of
        None \<Rightarrow> False | Some held \<Rightarrow> ht_epoch held = hb_epoch b \<and> hb_seq b \<le> ht_seq held) \<longleftrightarrow>
      (\<exists>b' t. newest ?m = Some (b', t) \<and> hb_epoch b' = hb_epoch b \<and> hb_seq b \<le> hb_seq b')"
  proof -
    have "rel_option (believed now) (newest ?m) (bt_get (on_heard on) ?m)"
      using assms(1) by (simp add: presence_ok_def)
    then show ?thesis by (cases rule: option.rel_cases) (auto simp: believed_def)
  qed
  have me: "on_me on = me" using assms(1) by (simp add: presence_ok_def)
  show ?thesis
  proof (cases "?m = me \<or> ?m \<notin> members \<or>
      (\<exists>b' t. newest ?m = Some (b', t) \<and> hb_epoch b' = hb_epoch b \<and> hb_seq b \<le> hb_seq b')")
    case True
    then have "presence_step ev (on, members) = (on, members)" "newest_step me ev (newest, members) = (newest, members)"
      by (auto simp: Beat online_heard_def held Let_def me)
    with assms(1) show ?thesis by simp
  next
    case False
    let ?h = "\<lparr>ht_epoch = hb_epoch b, ht_seq = hb_seq b,
      ht_until = (if hb_leaving b then None else Some (t + ttl (hb_interval_secs b)))\<rparr>"
    from False have "presence_step ev (on, members) = (on\<lparr>on_heard := bt_insert ?m ?h (on_heard on)\<rparr>, members)"
      "newest_step me ev (newest, members) = (newest(?m \<mapsto> (b, t)), members)"
      by (auto simp: Beat online_heard_def held Let_def me)
    moreover have "presence_ok me now (newest(?m \<mapsto> (b, t))) (on\<lparr>on_heard := bt_insert ?m ?h (on_heard on)\<rparr>)"
      using assms(1) by (simp add: presence_ok_def believed_def)
    ultimately show ?thesis by simp
  qed
next
  case (Timer t)
  then have keeps: "believed now bt h \<Longrightarrow> believed now bt (run_out t h)" for bt :: "'a heartbeat \<times> instant" and h
    using assms(2) by (cases bt) (auto simp: believed_def not_less split: if_splits)
  have "rel_option (\<lambda>bt h. believed now bt (run_out t h)) (newest m) (bt_get (on_heard on) m)" for m
    by (rule option.rel_mono_strong [of "believed now"])
      (use assms(1) keeps in \<open>auto simp: presence_ok_def\<close>)
  with assms(1) have "presence_ok me now newest (expire t on)"
    by (simp add: presence_ok_def expire_def option.rel_map)
  with Timer show ?thesis by simp
next
  case (Members S)
  have "rel_option (believed now) (if m \<in> S then newest m else None)
      (bt_get (bt_retain (\<lambda>m _. m \<in> S) (on_heard on)) m)" for m
    using assms(1) by (cases "newest m"; cases "bt_get (on_heard on) m") (auto simp: presence_ok_def dest: spec [of _ m])
  with assms(1) Members show ?thesis
    by (simp add: presence_ok_def online_retain_def)
qed

lemma presence_run_ok:
  assumes "\<And>t. Timer t \<in> set evs \<Longrightarrow> t \<le> now" "presence_ok me now newest on"
    "fold presence_step evs (on, members) = (on', members')"
    "fold (newest_step me) evs (newest, members) = (newest', members'')"
  shows "presence_ok me now newest' on'"
  using assms
proof (induction evs arbitrary: newest on members)
  case (Cons ev evs)
  from presence_step_ok [OF Cons.prems(2), of ev members] Cons.prems(1)
  obtain n o1 ms where "newest_step me ev (newest, members) = (n, ms)" "presence_step ev (on, members) = (o1, ms)"
    "presence_ok me now n o1" by auto
  with Cons.IH [of n o1 ms] Cons.prems show ?case by simp
qed simp

text \<open>
  A member is online exactly as long as its newest beat is to be believed. Whatever beats, timers
  and changes of membership the listener takes in, the members it has online at a moment, once whatever
  has run out by then is expired, are those that are members still, whose newest beat (by its sequence
  within a run) did not say that they leave, and was heard less than its time to live ago.
\<close>
theorem online_while_believed:
  fixes evs :: "'sig listened list"
  assumes "\<And>t. Timer t \<in> set evs \<Longrightarrow> t \<le> now"
    and "fold presence_step evs (online_new me, {}) = (on, members)"
    and "fold (newest_step me) evs (\<lambda>_. None, {}) = (newest, members')"
  shows "set (online_members (expire now on)) =
    {m. \<exists>b t. newest m = Some (b, t) \<and> \<not> hb_leaving b \<and> now < t + ttl (hb_interval_secs b)}"
proof -
  have "presence_ok me now newest on"
    by (rule presence_run_ok [OF assms(1) _ assms(2,3)]) (simp_all add: presence_ok_def online_new_def)
  then have each: "rel_option (believed now) (newest m) (bt_get (on_heard on) m)" for m
    by (simp add: presence_ok_def)
  have "m \<in> set (online_members (expire now on)) \<longleftrightarrow>
      (\<exists>b t. newest m = Some (b, t) \<and> \<not> hb_leaving b \<and> now < t + ttl (hb_interval_secs b))" for m
  proof -
    have "m \<in> set (online_members (expire now on)) \<longleftrightarrow>
        (\<exists>h u. bt_get (on_heard on) m = Some h \<and> ht_until h = Some u \<and> now < u)"
      unfolding set_online_members by (auto simp: expire_def)
    also have "\<dots> \<longleftrightarrow> (\<exists>b t. newest m = Some (b, t) \<and> \<not> hb_leaving b \<and> now < t + ttl (hb_interval_secs b))"
    proof (cases "newest m")
      case None
      with each [of m] show ?thesis by simp
    next
      case (Some bt)
      with each [of m] obtain h where "bt_get (on_heard on) m = Some h" "believed now bt h"
        by (auto simp: option_rel_Some1)
      with Some show ?thesis by (cases bt) (auto simp: believed_def split: if_splits)
    qed
    finally show ?thesis .
  qed
  then show ?thesis by blast
qed

definition beat_of :: "256 word \<Rightarrow> u64 \<Rightarrow> u64 \<Rightarrow> bool \<Rightarrow> member_id heartbeat" where
  "beat_of m epoch seq leaving =
     \<lparr>hb_address = demo_statement m 7 2, hb_epoch = epoch, hb_seq = seq, hb_interval_secs = 60,
      hb_holdings = \<lparr>hd_count = 0, hd_base = None, hd_added = [], hd_removed = []\<rparr>, hb_leaving = leaving\<rparr>"

theorem online_while_believed_witness:
  "set (online_members (expire (secs 100) (fst (fold presence_step
      [Members {MemberId 2, MemberId 3}, Beat (beat_of 2 5 3 False) 0, Beat (beat_of 3 6 3 False) 0,
       Timer (secs 50), Beat (beat_of 3 6 4 True) (secs 60)] (online_new (MemberId 1), {}))))) = {MemberId 2}"
proof -
  let ?evs = "[Members {MemberId 2, MemberId 3}, Beat (beat_of 2 5 3 False) 0, Beat (beat_of 3 6 3 False) 0,
       Timer (secs 50), Beat (beat_of 3 6 4 True) (secs 60)]"
  let ?run = "fold presence_step ?evs (online_new (MemberId 1), {})"
  let ?newest = "fold (newest_step (MemberId 1)) ?evs (\<lambda>_. None, {})"
  have times: "\<And>t. Timer t \<in> set ?evs \<Longrightarrow> t \<le> secs 100" by (auto simp: secs_def)
  have "set (online_members (expire (secs 100) (fst ?run))) =
    {m. \<exists>b t. fst ?newest m = Some (b, t) \<and> \<not> hb_leaving b \<and> secs 100 < t + ttl (hb_interval_secs b)}"
    by (rule online_while_believed [OF times prod.collapse [symmetric] prod.collapse [symmetric]])
  also have "\<dots> = {MemberId 2}"
  proof -
    have "fst ?newest = [MemberId 2 \<mapsto> (beat_of 2 5 3 False, 0), MemberId 3 \<mapsto> (beat_of 3 6 4 True, secs 60)]"
      by (simp add: beat_of_def demo_statement_def Let_def fun_upd_twist)
    then show ?thesis
      by (auto simp: ttl_def TTL_MAX_def TTL_MIN_def secs_def split: if_splits) (simp_all add: beat_of_def)
  qed
  finally show ?thesis .
qed

text \<open>
  A beat of an earlier run brings a member back. What took a member offline is kept so that a late beat
  older than it cannot bring the member back, says the documentation of \<open>Heard::until\<close>. It can, if it is
  from before a restart: the new run says goodbye, and a beat of the old run that comes late has another
  epoch than the one held, so it counts as news and the member is online again.
\<close>
theorem beat_from_before_a_restart:
  fixes t1 t2 t3 :: instant
  assumes "sa_member (hb_address old) = m" "sa_member (hb_address goodbye) = m" "m \<noteq> on_me on" "is_member m"
    and "hb_epoch old \<noteq> hb_epoch goodbye" "hb_leaving goodbye" "\<not> hb_leaving old"
    and "bt_get (on_heard on) m = None"
  defines "on1 \<equiv> snd (online_heard old t1 is_member on)"
  defines "on2 \<equiv> snd (online_heard goodbye t2 is_member on1)"
  defines "on3 \<equiv> snd (online_heard old t3 is_member on2)"
  shows "m \<notin> set (online_members on2) \<and> fst (online_heard old t3 is_member on2) \<and> m \<in> set (online_members on3)"
  using assms(1-8) by (simp add: set_online_members online_heard_def on1_def on2_def on3_def)

theorem beat_from_before_a_restart_witness:
  "MemberId 2 \<in> set (online_members (snd (online_heard (beat_of 2 5 3 False) 90 (\<lambda>_. True)
     (snd (online_heard (beat_of 2 6 4 True) 60 (\<lambda>_. True)
       (snd (online_heard (beat_of 2 5 3 False) 0 (\<lambda>_. True) (online_new (MemberId 1)))))))))"
proof -
  have "sa_member (hb_address (beat_of 2 5 3 False)) = MemberId 2" "sa_member (hb_address (beat_of 2 6 4 True)) = MemberId 2"
    "MemberId 2 \<noteq> on_me (online_new (MemberId 1))"
    "hb_epoch (beat_of 2 5 3 False) \<noteq> hb_epoch (beat_of 2 6 4 True)"
    "hb_leaving (beat_of 2 6 4 True)" "\<not> hb_leaving (beat_of 2 5 3 False)"
    "bt_get (on_heard (online_new (MemberId 1))) (MemberId 2) = None"
    by (simp_all add: beat_of_def demo_statement_def online_new_def)
  from beat_from_before_a_restart [where is_member = "\<lambda>_. True" and ?t1.0 = 0 and ?t2.0 = 60 and ?t3.0 = 90,
      OF this(1-3) TrueI this(4-)]
  show ?thesis by blast
qed

end
