(* ===== verification/Holders.thy ===== *)
theory Holders
  imports Heartbeat Settling
begin

text \<open>
  Who holds what: \<open>distlib-sync/src/availability/holders.rs\<close>, which reads the beats of others into one
  map, and \<open>availability/statement.rs\<close>, which states what this node holds. The count kept for a member is
  a natural number: it counts entries of the map. A hash map is an ordered one where its order is not
  used.

  The theorem joins the two: whatever beats are lost, repeated or delayed, and whenever base lists
  arrive, a listener that knows what a member holds knows exactly the set that member held at the beat
  it heard last.
\<close>

section \<open>The map\<close>

type_synonym item_index = "(item_id, member_id list) btmap"

definition index_holders :: "item_index \<Rightarrow> item_id \<Rightarrow> member_id list" where
  "index_holders ix item = (case bt_get ix item of None \<Rightarrow> [] | Some ms \<Rightarrow> ms)"

definition index_add :: "member_id \<Rightarrow> item_id \<Rightarrow> item_index \<Rightarrow> bool \<times> item_index" where
  "index_add member item ix =
     (let members = index_holders ix item
      in if member \<in> set members then (False, bt_insert item members ix)
         else (True, bt_insert item (members @ [member]) ix))"

text \<open>\<open>Vec::swap_remove\<close>: the last element takes the place of the one removed.\<close>

definition swap_remove :: "nat \<Rightarrow> 'a list \<Rightarrow> 'a list" where
  "swap_remove at xs = butlast (xs[at := last xs])"

fun position_in :: "('a \<Rightarrow> bool) \<Rightarrow> 'a list \<Rightarrow> nat option" where
  "position_in P [] = None"
| "position_in P (x # xs) = (if P x then Some 0 else map_option Suc (position_in P xs))"

definition index_remove :: "member_id \<Rightarrow> item_id \<Rightarrow> item_index \<Rightarrow> bool \<times> item_index" where
  "index_remove member item ix =
     (case bt_get ix item of
        None \<Rightarrow> (False, ix)
      | Some members \<Rightarrow>
          (case position_in (\<lambda>held. held = member) members of
             None \<Rightarrow> (False, ix)
           | Some at \<Rightarrow>
               (let members' = swap_remove at members
                in (True, if members' = [] then bt_remove item ix else bt_insert item members' ix))))"

text \<open>An operation on each item in turn, counting how often it answers \<open>true\<close>.\<close>

fun counting_each :: "('i \<Rightarrow> 's \<Rightarrow> bool \<times> 's) \<Rightarrow> 'i list \<Rightarrow> 's \<Rightarrow> nat \<times> 's" where
  "counting_each f [] s = (0, s)"
| "counting_each f (i # is) s =
     (case f i s of (b, s') \<Rightarrow> (case counting_each f is s' of (n, s'') \<Rightarrow> (of_bool b + n, s'')))"

definition index_shift ::
    "member_id \<Rightarrow> nat \<Rightarrow> item_id list \<Rightarrow> item_id list \<Rightarrow> item_index \<Rightarrow> nat \<times> item_index" where
  "index_shift member held coming going ix =
     (case counting_each (index_add member) coming ix of
        (came, ix1) \<Rightarrow>
          (case counting_each (index_remove member) going ix1 of
             (went, ix2) \<Rightarrow> (held + came - went, ix2)))"

definition index_retain :: "(member_id \<Rightarrow> bool) \<Rightarrow> item_index \<Rightarrow> item_index" where
  "index_retain keep ix = bt_retain (\<lambda>_ members. members \<noteq> []) (bt_map (filter keep) ix)"

definition index_clear :: "member_id \<Rightarrow> item_index \<Rightarrow> item_index" where
  "index_clear member ix = index_retain (\<lambda>held. held \<noteq> member) ix"

section \<open>What members state\<close>

datatype stated =
    Unknown content_hash holdings bool
  | Known "content_hash option" "item_id list" "item_id list" nat
  | Broken "content_hash option"

record holders =
  hs_index :: item_index
  hs_stated :: "(member_id, stated) btmap"
  hs_failed_copies :: "(member_id \<times> item_id) set"

record heard_holdings =
  hh_fetch :: "content_hash option"
  hh_changed :: bool

definition holders_new :: holders where
  "holders_new = \<lparr>hs_index = bt_empty, hs_stated = bt_empty, hs_failed_copies = {}\<rparr>"

definition is_known :: "holders \<Rightarrow> member_id \<Rightarrow> bool" where
  "is_known h member = (case bt_get (hs_stated h) member of Some (Known _ _ _ _) \<Rightarrow> True | _ \<Rightarrow> False)"

definition restate :: "member_id \<Rightarrow> holdings \<Rightarrow> holders \<Rightarrow> holders" where
  "restate member said h =
     (case bt_get (hs_stated h) member of
        Some (Known base added removed held) \<Rightarrow>
          (case index_shift member held removed added (hs_index h) of
             (undone, ix1) \<Rightarrow>
               (case index_shift member undone (hd_added said) (hd_removed said) ix1 of
                  (held', ix2) \<Rightarrow>
                    if held' = unat (hd_count said)
                    then h\<lparr>hs_index := ix2,
                           hs_stated := bt_insert member (Known base (hd_added said) (hd_removed said) held') (hs_stated h)\<rparr>
                    else h\<lparr>hs_index := index_clear member ix2,
                           hs_stated := bt_insert member (Broken base) (hs_stated h)\<rparr>))
      | _ \<Rightarrow> h)"

definition make_known :: "member_id \<Rightarrow> content_hash option \<Rightarrow> nat \<Rightarrow> holdings \<Rightarrow> holders \<Rightarrow> holders" where
  "make_known member base held said h =
     restate member said (h\<lparr>hs_stated := bt_insert member (Known base [] [] held) (hs_stated h)\<rparr>)"

definition heard_anew :: "member_id \<Rightarrow> holdings \<Rightarrow> holders \<Rightarrow> heard_holdings \<times> holders" where
  "heard_anew member said h =
     (let h = h\<lparr>hs_index := index_clear member (hs_index h)\<rparr>
      in (\<lparr>hh_fetch = hd_base said, hh_changed = True\<rparr>,
          case hd_base said of
            Some base \<Rightarrow> h\<lparr>hs_stated := bt_insert member (Unknown base said True) (hs_stated h)\<rparr>
          | None \<Rightarrow> make_known member None 0 said h))"

definition holders_heard :: "member_id \<Rightarrow> holdings \<Rightarrow> holders \<Rightarrow> heard_holdings \<times> holders" where
  "holders_heard member said h =
     (case bt_get (hs_stated h) member of
        Some (Known base added removed held) \<Rightarrow>
          if base = hd_base said
          then (let same = added = hd_added said \<and> removed = hd_removed said;
                    h' = restate member said h
                in (\<lparr>hh_fetch = None, hh_changed = \<not> same \<or> \<not> is_known h' member\<rparr>, h'))
          else heard_anew member said h
      | Some (Unknown base latest fetching) \<Rightarrow>
          if Some base = hd_base said
          then (\<lparr>hh_fetch = (if fetching then None else Some base), hh_changed = False\<rparr>,
                h\<lparr>hs_stated := bt_insert member (Unknown base said True) (hs_stated h)\<rparr>)
          else heard_anew member said h
      | Some (Broken base) \<Rightarrow>
          if base = hd_base said then (\<lparr>hh_fetch = None, hh_changed = False\<rparr>, h)
          else heard_anew member said h
      | None \<Rightarrow> heard_anew member said h)"

definition arrived :: "member_id \<Rightarrow> content_hash \<Rightarrow> item_id list \<Rightarrow> holders \<Rightarrow> bool \<times> holders" where
  "arrived member base items h =
     (case bt_get (hs_stated h) member of
        Some (Unknown wanted latest fetching) \<Rightarrow>
          if wanted = base
          then (case counting_each (index_add member) items (hs_index h) of
             (held, ix) \<Rightarrow>
               (True, make_known member (Some base) held latest
                        (h\<lparr>hs_index := ix, hs_stated := bt_remove member (hs_stated h)\<rparr>)))
          else (False, h)
      | _ \<Rightarrow> (False, h))"

definition fetch_failed_for :: "member_id \<Rightarrow> content_hash \<Rightarrow> bool \<Rightarrow> holders \<Rightarrow> holders" where
  "fetch_failed_for member base retry h =
     (case bt_get (hs_stated h) member of
        Some (Unknown wanted latest fetching) \<Rightarrow>
          if wanted \<noteq> base then h
          else h\<lparr>hs_stated := bt_insert member
                 (if retry then Unknown wanted latest False else Broken (Some base)) (hs_stated h)\<rparr>
      | _ \<Rightarrow> h)"

definition holders_retain :: "(member_id \<Rightarrow> bool) \<Rightarrow> holders \<Rightarrow> holders" where
  "holders_retain is_member h =
     h\<lparr>hs_stated := bt_retain (\<lambda>m _. is_member m) (hs_stated h),
       hs_index := index_retain is_member (hs_index h)\<rparr>"

definition holders_of :: "holders \<Rightarrow> item_id \<Rightarrow> member_id list" where
  "holders_of h item = index_holders (hs_index h) item"

definition real_holders :: "holders \<Rightarrow> item_id \<Rightarrow> member_id list" where
  "real_holders h item = filter (\<lambda>m. (m, item) \<notin> hs_failed_copies h) (holders_of h item)"

definition set_failed_copies :: "(member_id \<times> item_id) set \<Rightarrow> holders \<Rightarrow> member_id set \<times> holders" where
  "set_failed_copies failed h =
     (fst ` ((hs_failed_copies h - failed) \<union> (failed - hs_failed_copies h)), h\<lparr>hs_failed_copies := failed\<rparr>)"

definition sole_holders :: "member_id set \<Rightarrow> holders \<Rightarrow> (item_id \<times> member_id) list" where
  "sole_holders online h =
     List.map_filter
       (\<lambda>(item, members).
          case filter (\<lambda>m. m \<in> online \<and> (m, item) \<notin> hs_failed_copies h) members of
            [holder] \<Rightarrow> Some (item, holder)
          | _ \<Rightarrow> None)
       (bt_entries (hs_index h))"

section \<open>Stating what is held\<close>

definition QUIET :: duration where "QUIET = 10 * 60 * 1000000000"

record base_list =
  bl_hash :: content_hash
  bl_items :: "item_id set"

type_synonym statement = "base_list option"

definition sorted_items :: "item_id set \<Rightarrow> item_id list" where
  "sorted_items s = sorted_list_of_set s"

definition delta :: "statement \<Rightarrow> item_id set \<Rightarrow> item_id list \<times> item_id list" where
  "delta st held =
     (case st of
        None \<Rightarrow> (sorted_items held, [])
      | Some base \<Rightarrow> (sorted_items (held - bl_items base), sorted_items (bl_items base - held)))"

text \<open>Publishing stores the list under the one tag; \<open>published\<close> is the hash, or none if the store fails.\<close>

definition publish :: "content_hash option \<Rightarrow> item_id set \<Rightarrow> statement \<Rightarrow> (string, statement) outcome" where
  "publish published held st =
     (case published of
        None \<Rightarrow> refused ''published the list of items held here'' st
      | Some hash \<Rightarrow> done_with (Some \<lparr>bl_hash = hash, bl_items = held\<rparr>))"

definition needs_base :: "statement \<Rightarrow> item_id set \<Rightarrow> instant \<Rightarrow> instant \<Rightarrow> bool" where
  "needs_base st held changed_at now \<longleftrightarrow>
     (let size = length (fst (delta st held)) + length (snd (delta st held))
      in DELTA_MAX < size \<or> 0 < size \<and> QUIET \<le> now - changed_at)"

definition state_holdings ::
    "content_hash option \<Rightarrow> item_id set \<Rightarrow> instant \<Rightarrow> instant \<Rightarrow> statement \<Rightarrow> (string + holdings) \<times> statement" where
  "state_holdings published held changed_at now st =
     (let say = (\<lambda>(added, removed) st.
            \<lparr>hd_count = (if card held < 2 ^ 64 then of_nat (card held) else - 1),
             hd_base = map_option bl_hash st, hd_added = added, hd_removed = removed\<rparr>)
      in if needs_base st held changed_at now
         then (case publish published held st of
            (Inl e, st') \<Rightarrow> (Inl e, st')
          | (Inr _, st') \<Rightarrow> (Inr (say ([], []) st'), st'))
         else (Inr (say (delta st held) st), st))"

section \<open>What the map says of a member\<close>

definition items_of :: "item_index \<Rightarrow> member_id \<Rightarrow> item_id set" where
  "items_of ix m = {i. m \<in> set (index_holders ix i)}"

definition index_ok :: "item_index \<Rightarrow> bool" where
  "index_ok ix \<longleftrightarrow> (\<forall>i ms. bt_get ix i = Some ms \<longrightarrow> ms \<noteq> [] \<and> distinct ms)"

lemma in_items_of: "i \<in> items_of ix m \<longleftrightarrow> (\<exists>ms. bt_get ix i = Some ms \<and> m \<in> set ms)"
  by (cases "bt_get ix i") (simp_all add: items_of_def index_holders_def)

lemma index_okD: "index_ok ix \<Longrightarrow> bt_get ix i = Some ms \<Longrightarrow> ms \<noteq> [] \<and> distinct ms"
  by (simp add: index_ok_def)

lemma finite_items_of [simp]: "finite (items_of ix m)"
proof -
  have "items_of ix m \<subseteq> dom (bt_get ix)"
    by (auto simp: in_items_of)
  then show ?thesis by (rule finite_subset) simp
qed

lemma mset_swap_remove: "at < length xs \<Longrightarrow> mset (swap_remove at xs) = mset xs - {#xs ! at#}"
proof -
  assume at: "at < length xs"
  let ?ys = "xs[at := last xs]"
  have ne: "?ys \<noteq> []" using at by auto
  have "last ?ys = last xs"
    using at ne by (cases "at = length xs - 1") (simp_all add: last_conv_nth nth_list_update)
  then have "mset ?ys = add_mset (last xs) (mset (butlast ?ys))"
    by (metis append_butlast_last_id mset.simps(2) mset_append ne add_mset_add_single mset.simps(1))
  moreover have "mset ?ys = add_mset (last xs) (mset xs - {#xs ! at#})"
    using at by (simp add: mset_update)
  ultimately show ?thesis by (simp add: swap_remove_def)
qed

lemma position_in_Some: "position_in P xs = Some at \<Longrightarrow> at < length xs \<and> P (xs ! at)"
  by (induction xs arbitrary: at) (auto split: if_splits)

lemma position_in_None: "position_in P xs = None \<longleftrightarrow> (\<forall>x \<in> set xs. \<not> P x)"
  by (induction xs) auto

lemma swap_remove_position:
  assumes "position_in (\<lambda>x. x = m) xs = Some at" "distinct xs"
  shows "set (swap_remove at xs) = set xs - {m}" "distinct (swap_remove at xs)"
proof -
  have at: "at < length xs" "xs ! at = m" using position_in_Some [OF assms(1)] by auto
  then have eq: "mset (swap_remove at xs) = mset xs - {#m#}" by (simp add: mset_swap_remove)
  then have "mset (swap_remove at xs) = mset (remove1 m xs)" by simp
  then show "set (swap_remove at xs) = set xs - {m}" "distinct (swap_remove at xs)"
    using assms(2) by (metis mset_eq_setD set_remove1_eq, metis distinct_remove1 mset_eq_imp_distinct_iff)
qed

lemma index_add_ok:
  assumes "index_ok ix" "index_add m i ix = (b, ix')"
  shows "index_ok ix'" "b \<longleftrightarrow> i \<notin> items_of ix m" "items_of ix' m = insert i (items_of ix m)"
    "m' \<noteq> m \<Longrightarrow> items_of ix' m' = items_of ix m'"
proof -
  let ?ms = "index_holders ix i"
  have ms: "distinct ?ms" using assms(1) by (auto simp: index_holders_def index_ok_def split: option.splits)
  have ix': "ix' = bt_insert i (if m \<in> set ?ms then ?ms else ?ms @ [m]) ix" "b \<longleftrightarrow> m \<notin> set ?ms"
    using assms(2) by (auto simp: index_add_def Let_def split: if_splits)
  have holders: "index_holders ix' j = (if j = i then (if m \<in> set ?ms then ?ms else ?ms @ [m]) else index_holders ix j)" for j
    using ix' by (simp add: index_holders_def)
  show "b \<longleftrightarrow> i \<notin> items_of ix m" "items_of ix' m = insert i (items_of ix m)"
    "m' \<noteq> m \<Longrightarrow> items_of ix' m' = items_of ix m'"
    by (auto simp: items_of_def ix'(2) holders)
  show "index_ok ix'"
    using assms(1) ms ix'(1) by (auto simp: index_ok_def)
qed

lemma index_remove_ok:
  assumes ok: "index_ok ix" and rem: "index_remove m i ix = (b, ix')"
  shows "index_ok ix' \<and> (b \<longleftrightarrow> i \<in> items_of ix m) \<and> items_of ix' m = items_of ix m - {i} \<and>
    (\<forall>m'. m' \<noteq> m \<longrightarrow> items_of ix' m' = items_of ix m')"
proof (cases "bt_get ix i")
  case None
  with ok rem show ?thesis
    by (auto simp: index_remove_def items_of_def index_holders_def)
next
  case (Some ms)
  with ok have ms: "distinct ms" by (simp add: index_ok_def)
  show ?thesis
  proof (cases "position_in (\<lambda>held. held = m) ms")
    case None
    then have "m \<notin> set ms" unfolding position_in_None by blast
    with ok rem Some None show ?thesis
      by (auto simp: index_remove_def items_of_def index_holders_def)
  next
    case (Some at)
    note rest = swap_remove_position [OF Some ms]
    have "m \<in> set ms" using position_in_Some [OF Some] by auto
    have ix': "b" "ix' = (if swap_remove at ms = [] then bt_remove i ix else bt_insert i (swap_remove at ms) ix)"
      using rem \<open>bt_get ix i = Some ms\<close> Some by (simp_all add: index_remove_def Let_def)
    have "index_holders ix' j = (if j = i then swap_remove at ms else index_holders ix j)" for j
      using ix'(2) by (simp add: index_holders_def)
    moreover have "index_ok ix'"
      using ok rest(2) ix'(2) by (auto simp: index_ok_def)
    ultimately show ?thesis
      using ix'(1) rest(1) \<open>m \<in> set ms\<close> \<open>bt_get ix i = Some ms\<close>
      by (auto simp: items_of_def index_holders_def split: if_splits)
  qed
qed

lemma adds_ok:
  assumes "index_ok ix" "counting_each (index_add m) is ix = (n, ix')"
  shows "index_ok ix' \<and> n = card (set is - items_of ix m) \<and> items_of ix' m = items_of ix m \<union> set is \<and>
    (\<forall>m'. m' \<noteq> m \<longrightarrow> items_of ix' m' = items_of ix m')"
  using assms
proof (induction "is" arbitrary: ix n)
  case (Cons i "is")
  obtain b ix1 where add: "index_add m i ix = (b, ix1)" by fastforce
  obtain k where rest: "counting_each (index_add m) is ix1 = (k, ix')" and n: "n = of_bool b + k"
    using Cons.prems(2) add by (auto split: prod.splits)
  note a = index_add_ok [OF Cons.prems(1) add] and IH = Cons.IH [OF index_add_ok(1) [OF Cons.prems(1) add] rest]
  have "set (i # is) - items_of ix m = (if b then insert i (set is - items_of ix1 m) else set is - items_of ix1 m)"
    using a(2,3) by auto
  then have "n = card (set (i # is) - items_of ix m)"
    using IH a n by (auto simp: card_insert_if)
  with IH a show ?case by auto
qed simp

lemma removes_ok:
  assumes "index_ok ix" "counting_each (index_remove m) is ix = (n, ix')"
  shows "index_ok ix' \<and> n = card (set is \<inter> items_of ix m) \<and> items_of ix' m = items_of ix m - set is \<and>
    (\<forall>m'. m' \<noteq> m \<longrightarrow> items_of ix' m' = items_of ix m')"
  using assms
proof (induction "is" arbitrary: ix n)
  case (Cons i "is")
  obtain b ix1 where rem: "index_remove m i ix = (b, ix1)" by fastforce
  obtain k where rest: "counting_each (index_remove m) is ix1 = (k, ix')" and n: "n = of_bool b + k"
    using Cons.prems(2) rem by (auto split: prod.splits)
  note a = index_remove_ok [OF Cons.prems(1) rem]
  have IH: "index_ok ix' \<and> k = card (set is \<inter> items_of ix1 m) \<and> items_of ix' m = items_of ix1 m - set is \<and>
      (\<forall>m'. m' \<noteq> m \<longrightarrow> items_of ix' m' = items_of ix1 m')"
    using Cons.IH [OF _ rest] a by blast
  have "set (i # is) \<inter> items_of ix m = (if b then insert i (set is \<inter> items_of ix1 m) else set is \<inter> items_of ix1 m)"
    using a by auto
  then have "n = card (set (i # is) \<inter> items_of ix m)"
    using IH a n by (auto simp: card_insert_if)
  with IH a show ?case by auto
qed simp

lemma index_shift_ok:
  assumes "index_ok ix" "held = card (items_of ix m)" "index_shift m held coming going ix = (n, ix')"
  shows "index_ok ix' \<and> items_of ix' m = (items_of ix m \<union> set coming) - set going \<and> n = card (items_of ix' m) \<and>
    (\<forall>m'. m' \<noteq> m \<longrightarrow> items_of ix' m' = items_of ix m')"
proof -
  obtain came ix1 where c: "counting_each (index_add m) coming ix = (came, ix1)" by fastforce
  obtain went where g: "counting_each (index_remove m) going ix1 = (went, ix')" and n: "n = held + came - went"
    using assms(3) c by (auto simp: index_shift_def split: prod.splits)
  note C = adds_ok [OF assms(1) c]
  then have G: "index_ok ix' \<and> went = card (set going \<inter> items_of ix1 m) \<and> items_of ix' m = items_of ix1 m - set going \<and>
      (\<forall>m'. m' \<noteq> m \<longrightarrow> items_of ix' m' = items_of ix1 m')"
    using removes_ok [OF _ g] by blast
  have "held + came = card (items_of ix1 m)"
    using C assms(2) by (simp add: card_Un_disjoint [symmetric] Un_Diff_cancel2 Diff_disjoint)
  moreover have "card (items_of ix1 m) = card (items_of ix1 m - set going) + went"
    using G card_Int_Diff [of "items_of ix1 m" "set going"] by (simp add: Int_commute)
  ultimately have "n = card (items_of ix' m)" using G n by simp
  with C G show ?thesis by blast
qed

lemma index_retain_ok:
  assumes "index_ok ix"
  shows "index_ok (index_retain keep ix)" "items_of (index_retain keep ix) m = (if keep m then items_of ix m else {})"
proof -
  have get: "bt_get (index_retain keep ix) i = Some ms \<longleftrightarrow>
      (\<exists>ms'. bt_get ix i = Some ms' \<and> ms = filter keep ms' \<and> ms \<noteq> [])" for i ms
    by (auto simp: index_retain_def split: option.splits)
  show "index_ok (index_retain keep ix)"
    using assms by (auto simp: index_ok_def get)
  have "i \<in> items_of (index_retain keep ix) m \<longleftrightarrow> keep m \<and> i \<in> items_of ix m" for i
    unfolding in_items_of get by (auto simp: filter_empty_conv)
  then show "items_of (index_retain keep ix) m = (if keep m then items_of ix m else {})" by auto
qed

section \<open>Counts are exact\<close>

text \<open>What is known of a member is counted exactly; of one that is not known, the map has nothing.\<close>

abbreviation items_held :: "holders \<Rightarrow> member_id \<Rightarrow> item_id set" where
  "items_held h \<equiv> items_of (hs_index h)"

definition member_ok :: "holders \<Rightarrow> member_id \<Rightarrow> bool" where
  "member_ok h m \<longleftrightarrow>
     (case bt_get (hs_stated h) m of
        Some (Known _ _ _ held) \<Rightarrow> held = card (items_held h m)
      | _ \<Rightarrow> items_held h m = {})"

definition holders_ok :: "holders \<Rightarrow> bool" where
  "holders_ok h \<longleftrightarrow> index_ok (hs_index h) \<and> (\<forall>m. member_ok h m)"

text \<open>What an operation on one member leaves of the others.\<close>

definition only_touches :: "member_id \<Rightarrow> holders \<Rightarrow> holders \<Rightarrow> bool" where
  "only_touches m h h' \<longleftrightarrow> index_ok (hs_index h') \<and>
     (\<forall>m'. m' \<noteq> m \<longrightarrow> bt_get (hs_stated h') m' = bt_get (hs_stated h) m' \<and> items_held h' m' = items_held h m')"

lemma only_touches_ok:
  "holders_ok h \<Longrightarrow> only_touches m h h' \<Longrightarrow> member_ok h' m \<Longrightarrow> holders_ok h'"
  unfolding holders_ok_def only_touches_def by (metis member_ok_def)

lemma only_touches_trans: "only_touches m h h' \<Longrightarrow> only_touches m h' h'' \<Longrightarrow> only_touches m h h''"
  by (simp add: only_touches_def)

lemma restate_Known:
  fixes said :: holdings
  assumes ok: "index_ok (hs_index h)" and known: "bt_get (hs_stated h) m = Some (Known base added removed held)"
    and held: "held = card (items_held h m)"
  defines "items \<equiv> ((items_held h m \<union> set removed) - set added \<union> set (hd_added said)) - set (hd_removed said)"
  shows "only_touches m h (restate m said h)"
    "card items = unat (hd_count said) \<Longrightarrow>
       bt_get (hs_stated (restate m said h)) m = Some (Known base (hd_added said) (hd_removed said) (card items)) \<and>
       items_held (restate m said h) m = items"
    "card items \<noteq> unat (hd_count said) \<Longrightarrow>
       bt_get (hs_stated (restate m said h)) m = Some (Broken base) \<and> items_held (restate m said h) m = {}"
proof -
  obtain undone ix1 where s1: "index_shift m held removed added (hs_index h) = (undone, ix1)" by fastforce
  obtain held' ix2 where s2: "index_shift m undone (hd_added said) (hd_removed said) ix1 = (held', ix2)" by fastforce
  note one = index_shift_ok [OF ok held s1]
  then have two: "index_ok ix2" "items_of ix2 m = items" "held' = card items"
    "\<And>m'. m' \<noteq> m \<Longrightarrow> items_of ix2 m' = items_held h m'"
    using index_shift_ok [OF _ _ s2] by (auto simp: items_def)
  note clear = index_retain_ok [OF two(1), of "\<lambda>held. held \<noteq> m", folded index_clear_def]
  show "only_touches m h (restate m said h)"
    using two clear by (simp add: restate_def known s1 s2 only_touches_def)
  show "bt_get (hs_stated (restate m said h)) m = Some (Known base (hd_added said) (hd_removed said) (card items)) \<and>
       items_held (restate m said h) m = items" if "card items = unat (hd_count said)"
    using two that by (simp add: restate_def known s1 s2)
  show "bt_get (hs_stated (restate m said h)) m = Some (Broken base) \<and> items_held (restate m said h) m = {}"
    if "card items \<noteq> unat (hd_count said)"
    using two that clear by (simp add: restate_def known s1 s2)
qed

lemma restate_ok:
  assumes "index_ok (hs_index h)" "bt_get (hs_stated h) m = Some (Known base added removed (card (items_held h m)))"
  shows "only_touches m h (restate m said h)" "member_ok (restate m said h) m"
proof -
  note r = restate_Known [OF assms refl, of said]
  show "only_touches m h (restate m said h)" by (rule r(1))
  show "member_ok (restate m said h) m"
    using r(2,3) by (cases "card (items_held h m \<union> set removed - set added \<union> set (hd_added said) - set (hd_removed said))
        = unat (hd_count said)") (simp_all add: member_ok_def)
qed

lemma make_known_ok:
  assumes "index_ok (hs_index h)" "held = card (items_held h m)"
  shows "only_touches m h (make_known m base held said h)" "member_ok (make_known m base held said h) m"
proof -
  let ?h = "h\<lparr>hs_stated := bt_insert m (Known base [] [] held) (hs_stated h)\<rparr>"
  have "only_touches m h ?h" using assms(1) by (simp add: only_touches_def)
  moreover have "only_touches m ?h (restate m said ?h)" "member_ok (restate m said ?h) m"
    by (rule restate_ok; use assms in simp)+
  ultimately show "only_touches m h (make_known m base held said h)" "member_ok (make_known m base held said h) m"
    unfolding make_known_def by (auto intro: only_touches_trans)
qed

lemma heard_anew_ok:
  assumes "index_ok (hs_index h)"
  shows "only_touches m h (snd (heard_anew m said h))" "member_ok (snd (heard_anew m said h)) m"
proof -
  let ?h = "h\<lparr>hs_index := index_clear m (hs_index h)\<rparr>"
  note clear = index_retain_ok [OF assms, of "\<lambda>held. held \<noteq> m", folded index_clear_def]
  have h: "only_touches m h ?h" using clear by (simp add: only_touches_def)
  have k: "only_touches m ?h (make_known m None 0 said ?h)" "member_ok (make_known m None 0 said ?h) m"
    by (rule make_known_ok; use clear in simp)+
  show "only_touches m h (snd (heard_anew m said h))" "member_ok (snd (heard_anew m said h)) m"
    using only_touches_trans [OF h k(1)] k(2) clear
    by (auto simp: heard_anew_def Let_def only_touches_def member_ok_def split: option.splits)
qed

lemma holders_heard_ok:
  assumes "holders_ok h"
  shows "only_touches m h (snd (holders_heard m said h))" "holders_ok (snd (holders_heard m said h))"
proof -
  have ix: "index_ok (hs_index h)" and m: "member_ok h m" using assms by (simp_all add: holders_ok_def)
  have "only_touches m h (snd (holders_heard m said h)) \<and> member_ok (snd (holders_heard m said h)) m"
  proof (cases "bt_get (hs_stated h) m")
    case None
    then show ?thesis using heard_anew_ok [OF ix] by (simp add: holders_heard_def)
  next
    case (Some st)
    show ?thesis
    proof (cases st)
      case (Known base added removed held)
      with Some m have known: "bt_get (hs_stated h) m = Some (Known base added removed (card (items_held h m)))"
        by (simp add: member_ok_def)
      show ?thesis
        using heard_anew_ok [OF ix] restate_ok [OF ix known] by (simp add: holders_heard_def Some Known Let_def)
    qed (use Some m ix heard_anew_ok [OF ix] in \<open>auto simp: holders_heard_def only_touches_def member_ok_def\<close>)
  qed
  then show "only_touches m h (snd (holders_heard m said h))" "holders_ok (snd (holders_heard m said h))"
    using only_touches_ok [OF assms] by blast+
qed

lemma arrived_ok:
  assumes "holders_ok h"
  shows "only_touches m h (snd (arrived m base items h))" "holders_ok (snd (arrived m base items h))"
proof -
  have ix: "index_ok (hs_index h)" and m: "member_ok h m" using assms by (simp_all add: holders_ok_def)
  have "only_touches m h (snd (arrived m base items h)) \<and> member_ok (snd (arrived m base items h)) m"
  proof (cases "\<exists>latest fetching. bt_get (hs_stated h) m = Some (Unknown base latest fetching)")
    case True
    then obtain latest fetching where st: "bt_get (hs_stated h) m = Some (Unknown base latest fetching)" by blast
    obtain held ix1 where add: "counting_each (index_add m) items (hs_index h) = (held, ix1)" by fastforce
    let ?h = "h\<lparr>hs_index := ix1, hs_stated := bt_remove m (hs_stated h)\<rparr>"
    have none: "items_held h m = {}" using m st by (simp add: member_ok_def)
    note a = adds_ok [OF ix add]
    have "only_touches m h ?h" using a by (simp add: only_touches_def)
    moreover have "only_touches m ?h (make_known m (Some base) held latest ?h)"
      "member_ok (make_known m (Some base) held latest ?h) m"
      by (rule make_known_ok; use a none in simp)+
    ultimately show ?thesis
      by (auto simp: arrived_def st add intro: only_touches_trans)
  next
    case False
    then have "snd (arrived m base items h) = h"
      by (auto simp: arrived_def split: option.splits stated.splits)
    with ix m show ?thesis by (simp add: only_touches_def)
  qed
  then show "only_touches m h (snd (arrived m base items h))" "holders_ok (snd (arrived m base items h))"
    using only_touches_ok [OF assms] by blast+
qed

lemma fetch_failed_ok:
  assumes "holders_ok h"
  shows "only_touches m h (fetch_failed_for m base retry h)" "holders_ok (fetch_failed_for m base retry h)"
proof -
  have ix: "index_ok (hs_index h)" and m: "member_ok h m" using assms by (simp_all add: holders_ok_def)
  have "only_touches m h (fetch_failed_for m base retry h) \<and> member_ok (fetch_failed_for m base retry h) m"
    using ix m by (auto simp: fetch_failed_for_def only_touches_def member_ok_def split: option.splits stated.splits)
  then show "only_touches m h (fetch_failed_for m base retry h)" "holders_ok (fetch_failed_for m base retry h)"
    using only_touches_ok [OF assms] by blast+
qed

lemma holders_retain_ok:
  assumes "holders_ok h"
  shows "holders_ok (holders_retain P h)" "items_held (holders_retain P h) m = (if P m then items_held h m else {})"
    "bt_get (hs_stated (holders_retain P h)) m = (if P m then bt_get (hs_stated h) m else None)"
proof -
  have ix: "index_ok (hs_index h)" using assms by (simp add: holders_ok_def)
  note r = index_retain_ok [OF ix, of P]
  show i: "items_held (holders_retain P h) m = (if P m then items_held h m else {})" for m
    by (simp add: holders_retain_def r)
  show s: "bt_get (hs_stated (holders_retain P h)) m = (if P m then bt_get (hs_stated h) m else None)" for m
    by (simp add: holders_retain_def split: option.splits)
  have "member_ok (holders_retain P h) m" for m
    using assms unfolding member_ok_def i s by (simp add: holders_ok_def member_ok_def)
  then show "holders_ok (holders_retain P h)"
    using r(1) by (simp add: holders_ok_def holders_retain_def)
qed

section \<open>Listening to an honest member\<close>

text \<open>
  What a member that keeps to \<open>state_holdings\<close> says while it holds a set, given the lists it has
  published.
\<close>

definition honest :: "(content_hash \<rightharpoonup> item_id set) \<Rightarrow> holdings \<Rightarrow> item_id set \<Rightarrow> bool" where
  "honest listed said held \<longleftrightarrow>
     finite held \<and> unat (hd_count said) = card held \<and>
     (case hd_base said of
        None \<Rightarrow> set (hd_added said) = held \<and> hd_removed said = []
      | Some b \<Rightarrow> \<exists>base. listed b = Some base \<and>
          set (hd_added said) = held - base \<and> set (hd_removed said) = base - held)"

lemma honest_mono: "honest listed said held \<Longrightarrow> listed \<subseteq>\<^sub>m listed' \<Longrightarrow> honest listed' said held"
  by (auto simp: honest_def map_le_def split: option.splits) (metis domI)+

text \<open>The set a base with a change on top comes to, and what it is once the change is taken back.\<close>

definition base_of :: "(content_hash \<rightharpoonup> item_id set) \<Rightarrow> content_hash option \<Rightarrow> item_id set" where
  "base_of listed b = (case b of None \<Rightarrow> {} | Some b \<Rightarrow> (case listed b of None \<Rightarrow> {} | Some base \<Rightarrow> base))"

lemma honest_items:
  assumes "honest listed said held"
  shows "(base_of listed (hd_base said) \<union> set (hd_added said)) - set (hd_removed said) = held"
    "(held \<union> set (hd_removed said)) - set (hd_added said) = base_of listed (hd_base said)"
    "card held = unat (hd_count said)"
  using assms by (auto simp: honest_def base_of_def split: option.splits)

definition tracks ::
    "(content_hash \<rightharpoonup> item_id set) \<Rightarrow> member_id \<Rightarrow> holders \<Rightarrow> item_id set option \<Rightarrow> bool" where
  "tracks listed m h lst \<longleftrightarrow>
     (case bt_get (hs_stated h) m of
        None \<Rightarrow> lst = None
      | Some (Unknown b latest fetching) \<Rightarrow>
          \<exists>held. lst = Some held \<and> honest listed latest held \<and> hd_base latest = Some b
      | Some (Known b added removed n) \<Rightarrow>
          \<exists>held said. lst = Some held \<and> honest listed said held \<and> b = hd_base said \<and>
            added = hd_added said \<and> removed = hd_removed said \<and> items_held h m = held
      | Some (Broken b) \<Rightarrow> False)"

lemma make_known_tracks:
  assumes "index_ok (hs_index h)" "n = card (items_held h m)" "honest listed said held"
    "items_held h m = base_of listed (hd_base said)"
  shows "tracks listed m (make_known m (hd_base said) n said h) (Some held)"
    "is_known (make_known m (hd_base said) n said h) m"
proof -
  let ?h = "h\<lparr>hs_stated := bt_insert m (Known (hd_base said) [] [] n) (hs_stated h)\<rparr>"
  note r = restate_Known(2) [of ?h m "hd_base said" "[]" "[]" n said, folded make_known_def]
  have "bt_get (hs_stated (make_known m (hd_base said) n said h)) m =
      Some (Known (hd_base said) (hd_added said) (hd_removed said) (card held)) \<and>
      items_held (make_known m (hd_base said) n said h) m = held"
    using r honest_items [OF assms(3)] assms by simp
  then show "tracks listed m (make_known m (hd_base said) n said h) (Some held)"
    "is_known (make_known m (hd_base said) n said h) m"
    using assms(3) by (auto simp: tracks_def is_known_def)
qed

lemma heard_anew_tracks:
  assumes "index_ok (hs_index h)" "honest listed said held"
  shows "tracks listed m (snd (heard_anew m said h)) (Some held)"
proof -
  note clear = index_retain_ok [OF assms(1), of "\<lambda>held. held \<noteq> m", folded index_clear_def]
  show ?thesis
  proof (cases "hd_base said")
    case None
    have "tracks listed m (make_known m (hd_base said) 0 said (h\<lparr>hs_index := index_clear m (hs_index h)\<rparr>)) (Some held)"
      by (rule make_known_tracks) (use assms clear None in \<open>simp_all add: base_of_def\<close>)
    with None show ?thesis by (simp add: heard_anew_def Let_def)
  next
    case (Some b)
    with assms show ?thesis by (simp add: heard_anew_def Let_def tracks_def)
  qed
qed

lemma heard_tracks:
  assumes ok: "holders_ok h" and t: "tracks listed m h lst" and honest: "honest listed said held"
  shows "tracks listed m (snd (holders_heard m said h)) (Some held)"
proof -
  have ix: "index_ok (hs_index h)" and m: "member_ok h m" using ok by (simp_all add: holders_ok_def)
  note anew = heard_anew_tracks [OF ix honest, of m]
  show ?thesis
  proof (cases "bt_get (hs_stated h) m")
    case None
    with anew show ?thesis by (simp add: holders_heard_def)
  next
    case (Some st)
    show ?thesis
    proof (cases st)
      case (Unknown b latest fetching)
      with Some anew honest show ?thesis by (auto simp: holders_heard_def tracks_def)
    next
      case (Broken b)
      with Some t show ?thesis by (simp add: tracks_def)
    next
      case (Known b added removed n)
      show ?thesis
      proof (cases "b = hd_base said")
        case False
        with Some Known anew show ?thesis by (simp add: holders_heard_def)
      next
        case True
        from t Some Known obtain held' said' where before: "honest listed said' held'" "b = hd_base said'"
          "added = hd_added said'" "removed = hd_removed said'" "items_held h m = held'"
          by (auto simp: tracks_def)
        have known: "bt_get (hs_stated h) m = Some (Known b added removed (card (items_held h m)))"
          using m Some Known by (simp add: member_ok_def)
        have "items_held h m \<union> set removed - set added \<union> set (hd_added said) - set (hd_removed said) = held"
          using honest_items(2) [OF before(1)] honest_items(1) [OF honest] before True by simp
        with restate_Known(2) [OF ix known refl, of said] honest_items(3) [OF honest] honest True
        show ?thesis by (auto simp: holders_heard_def Some Known Let_def tracks_def)
      qed
    qed
  qed
qed

lemma arrived_tracks:
  assumes ok: "holders_ok h" and t: "tracks listed m h lst" and b: "listed b = Some (set items)"
  shows "tracks listed m (snd (arrived m b items h)) lst"
    "bt_get (hs_stated h) m = Some (Unknown b latest fetching) \<Longrightarrow> is_known (snd (arrived m b items h)) m"
proof -
  have "tracks listed m (snd (arrived m b items h)) lst \<and>
    (\<forall>latest fetching. bt_get (hs_stated h) m = Some (Unknown b latest fetching) \<longrightarrow> is_known (snd (arrived m b items h)) m)"
  proof (cases "\<exists>latest fetching. bt_get (hs_stated h) m = Some (Unknown b latest fetching)")
    case True
    then obtain latest fetching where st: "bt_get (hs_stated h) m = Some (Unknown b latest fetching)" by blast
    have ix: "index_ok (hs_index h)" and none: "items_held h m = {}"
      using ok st by (auto simp: holders_ok_def member_ok_def dest: spec [of _ m])
    obtain n ix1 where add: "counting_each (index_add m) items (hs_index h) = (n, ix1)" by fastforce
    note a = adds_ok [OF ix add]
    from t st obtain held where lst: "lst = Some held" "honest listed latest held" "hd_base latest = Some b"
      by (auto simp: tracks_def)
    let ?h = "h\<lparr>hs_index := ix1, hs_stated := bt_remove m (hs_stated h)\<rparr>"
    have base: "items_held ?h m = base_of listed (hd_base latest)" "n = card (items_held ?h m)" "index_ok (hs_index ?h)"
      using a none by (simp_all add: base_of_def lst b)
    have "tracks listed m (make_known m (hd_base latest) n latest ?h) (Some held)"
      "is_known (make_known m (hd_base latest) n latest ?h) m"
      by (rule make_known_tracks [OF base(3,2) lst(2) base(1)])+
    then show ?thesis using lst by (simp add: arrived_def st add)
  next
    case False
    then have "snd (arrived m b items h) = h"
      by (auto simp: arrived_def split: option.splits stated.splits)
    with t False show ?thesis by simp
  qed
  then show "tracks listed m (snd (arrived m b items h)) lst"
    "bt_get (hs_stated h) m = Some (Unknown b latest fetching) \<Longrightarrow> is_known (snd (arrived m b items h)) m" by blast+
qed

section \<open>A member and a listener\<close>

text \<open>
  The member: what it holds, the base it last published, the lists published so far and the beats sent,
  each with the set held then. The listener: its map, and the set held at the beat of this member it
  heard last.
\<close>

record told =
  to_held :: "item_id set"
  to_statement :: statement
  to_listed :: "content_hash \<rightharpoonup> item_id set"
  to_sent :: "(holdings \<times> item_id set) set"
  to_holders :: holders
  to_last :: "item_id set option"

text \<open>
  Beats are heard in any order, any number of times or not at all; lists arrive at any time, in any
  order of their items; fetches fail; other members say and send what they like; the member restarts and
  the membership changes. Two lists of different items have different hashes.
\<close>

inductive told_step :: "member_id \<Rightarrow> told \<Rightarrow> told \<Rightarrow> bool" for m where
  holds: "finite held \<Longrightarrow> card held < 2 ^ 64 \<Longrightarrow> told_step m s (s\<lparr>to_held := held\<rparr>)"
| restarts: "told_step m s (s\<lparr>to_statement := None\<rparr>)"
| says: "state_holdings published (to_held s) changed_at now (to_statement s) = (Inr said, st)
    \<Longrightarrow> (if needs_base (to_statement s) (to_held s) changed_at now
         then \<exists>hash. published = Some hash \<and> (to_listed s hash = None \<or> to_listed s hash = Some (to_held s)) \<and>
                listed = (to_listed s)(hash \<mapsto> to_held s)
         else listed = to_listed s)
    \<Longrightarrow> told_step m s (s\<lparr>to_statement := st, to_listed := listed, to_sent := insert (said, to_held s) (to_sent s)\<rparr>)"
| hears: "(said, held) \<in> to_sent s
    \<Longrightarrow> told_step m s (s\<lparr>to_holders := snd (holders_heard m said (to_holders s)), to_last := Some held\<rparr>)"
| arrives: "to_listed s b = Some (set items)
    \<Longrightarrow> told_step m s (s\<lparr>to_holders := snd (arrived m b items (to_holders s))\<rparr>)"
| not_reached: "told_step m s (s\<lparr>to_holders := fetch_failed_for m b True (to_holders s)\<rparr>)"
| others_say: "m' \<noteq> m \<Longrightarrow> told_step m s (s\<lparr>to_holders := snd (holders_heard m' any_said (to_holders s))\<rparr>)"
| others_arrive: "m' \<noteq> m \<Longrightarrow> told_step m s (s\<lparr>to_holders := snd (arrived m' b any_items (to_holders s))\<rparr>)"
| others_fail: "m' \<noteq> m \<Longrightarrow> told_step m s (s\<lparr>to_holders := fetch_failed_for m' b retry (to_holders s)\<rparr>)"
| members_change: "told_step m s (s\<lparr>to_holders := holders_retain P (to_holders s),
      to_last := (if P m then to_last s else None)\<rparr>)"
| probes: "told_step m s (s\<lparr>to_holders := snd (set_failed_copies failed (to_holders s))\<rparr>)"

definition told_start :: told where
  "told_start =
     \<lparr>to_held = {}, to_statement = None, to_listed = Map.empty, to_sent = {}, to_holders = holders_new, to_last = None\<rparr>"

inductive told_reach :: "member_id \<Rightarrow> told \<Rightarrow> bool" for m where
  start: "told_reach m told_start"
| step: "told_reach m s \<Longrightarrow> told_step m s s' \<Longrightarrow> told_reach m s'"

definition told_ok :: "member_id \<Rightarrow> told \<Rightarrow> bool" where
  "told_ok m s \<longleftrightarrow>
     finite (to_held s) \<and> card (to_held s) < 2 ^ 64 \<and>
     (\<forall>base. to_statement s = Some base \<longrightarrow>
        to_listed s (bl_hash base) = Some (bl_items base) \<and> finite (bl_items base)) \<and>
     (\<forall>said held. (said, held) \<in> to_sent s \<longrightarrow> honest (to_listed s) said held) \<and>
     holders_ok (to_holders s) \<and> tracks (to_listed s) m (to_holders s) (to_last s)"

lemma tracks_mono: "tracks listed m h lst \<Longrightarrow> listed \<subseteq>\<^sub>m listed' \<Longrightarrow> tracks listed' m h lst"
  unfolding tracks_def by (auto split: option.splits stated.splits intro: honest_mono)

lemma tracks_cong:
  "bt_get (hs_stated h') m = bt_get (hs_stated h) m \<Longrightarrow> items_held h' m = items_held h m
     \<Longrightarrow> tracks listed m h' lst \<longleftrightarrow> tracks listed m h lst"
  unfolding tracks_def by (simp only:)

lemma tracks_others: "tracks listed m h lst \<Longrightarrow> only_touches m' h h' \<Longrightarrow> m' \<noteq> m \<Longrightarrow> tracks listed m h' lst"
  by (subst tracks_cong [of h' m h]) (auto simp: only_touches_def)

text \<open>What is stated is honest.\<close>

lemma state_holdings_honest:
  assumes said: "state_holdings published held changed_at now st = (Inr said, st')"
    and held: "finite held" "card held < 2 ^ 64"
    and base: "\<And>base. st = Some base \<Longrightarrow> listed (bl_hash base) = Some (bl_items base) \<and> finite (bl_items base)"
    and lists: "if needs_base st held changed_at now then \<exists>hash. published = Some hash \<and> listed' = listed(hash \<mapsto> held)
      else listed' = listed"
  shows "honest listed' said held"
    "st' = Some new \<Longrightarrow> listed' (bl_hash new) = Some (bl_items new) \<and> finite (bl_items new)"
proof -
  have count: "unat (if card held < 2 ^ 64 then of_nat (card held) else - 1 :: u64) = card held"
    using held(2) by (simp add: unsigned_of_nat take_bit_nat_eq_self)
  have "honest listed' said held \<and> (\<forall>new. st' = Some new \<longrightarrow> listed' (bl_hash new) = Some (bl_items new) \<and> finite (bl_items new))"
  proof (cases "needs_base st held changed_at now")
    case True
    with lists obtain hash where "published = Some hash" "listed' = listed(hash \<mapsto> held)" by auto
    with said True have "st' = Some \<lparr>bl_hash = hash, bl_items = held\<rparr>"
      "said = \<lparr>hd_count = (if card held < 2 ^ 64 then of_nat (card held) else - 1), hd_base = Some hash,
         hd_added = [], hd_removed = []\<rparr>"
      by (auto simp: state_holdings_def publish_def Let_def)
    with \<open>listed' = _\<close> count held show ?thesis
      by (simp add: honest_def)
  next
    case False
    with lists said have "listed' = listed" "st' = st" and
      s: "said = \<lparr>hd_count = (if card held < 2 ^ 64 then of_nat (card held) else - 1), hd_base = map_option bl_hash st,
        hd_added = fst (delta st held), hd_removed = snd (delta st held)\<rparr>"
      by (auto simp: state_holdings_def Let_def split_def)
    with base count held show ?thesis
      by (cases st) (auto simp: honest_def delta_def sorted_items_def)
  qed
  then show "honest listed' said held"
    "st' = Some new \<Longrightarrow> listed' (bl_hash new) = Some (bl_items new) \<and> finite (bl_items new)" by blast+
qed

lemma told_step_ok: "told_step m s s' \<Longrightarrow> told_ok m s \<Longrightarrow> told_ok m s'"
proof (induction rule: told_step.induct)
  case (says published s changed_at now said st listed)
  have grows: "to_listed s \<subseteq>\<^sub>m listed"
    using says.hyps(2) by (auto simp: map_le_def split: if_splits)
  have lists: "if needs_base (to_statement s) (to_held s) changed_at now
      then \<exists>hash. published = Some hash \<and> listed = (to_listed s)(hash \<mapsto> to_held s) else listed = to_listed s"
    using says.hyps(2) by (auto split: if_splits)
  have "honest listed said (to_held s)"
    "\<And>new. st = Some new \<Longrightarrow> listed (bl_hash new) = Some (bl_items new) \<and> finite (bl_items new)"
    by (rule state_holdings_honest [OF says.hyps(1) _ _ _ lists]; use says.prems in \<open>simp add: told_ok_def\<close>)+
  moreover have "honest listed said' held'" if "(said', held') \<in> to_sent s" for said' held'
    using says.prems grows that by (auto simp: told_ok_def intro: honest_mono)
  moreover have "tracks listed m (to_holders s) (to_last s)"
    using says.prems grows by (auto simp: told_ok_def intro: tracks_mono)
  ultimately show ?case
    using says.prems by (auto simp: told_ok_def)
next
  case (hears said held s)
  then show ?case using heard_tracks by (simp add: told_ok_def holders_heard_ok) blast
next
  case (arrives s b items)
  then show ?case by (simp add: told_ok_def arrived_ok arrived_tracks)
next
  case (not_reached s b)
  have "tracks (to_listed s) m (fetch_failed_for m b True (to_holders s)) (to_last s)"
    using not_reached by (auto simp: told_ok_def tracks_def fetch_failed_for_def split: option.splits stated.splits)
  with not_reached show ?case by (simp add: told_ok_def fetch_failed_ok)
next
  case (others_say m' s any_said)
  then show ?case
    by (simp add: told_ok_def holders_heard_ok tracks_others [OF _ holders_heard_ok(1)])
next
  case (others_arrive m' s b any_items)
  then show ?case
    by (simp add: told_ok_def arrived_ok tracks_others [OF _ arrived_ok(1)])
next
  case (others_fail m' s b retry)
  then show ?case
    by (simp add: told_ok_def fetch_failed_ok tracks_others [OF _ fetch_failed_ok(1)])
next
  case (members_change s P)
  then have "holders_ok (to_holders s)" by (simp add: told_ok_def)
  note r = holders_retain_ok [OF this, of P]
  have "tracks (to_listed s) m (holders_retain P (to_holders s)) (if P m then to_last s else None)"
  proof (cases "P m")
    case True
    with members_change show ?thesis
      by (subst tracks_cong [of _ m "to_holders s"]) (simp_all add: r told_ok_def)
  qed (simp add: tracks_def r)
  with members_change r(1) show ?case by (simp add: told_ok_def)
next
  case (probes s failed)
  have "tracks (to_listed s) m (snd (set_failed_copies failed (to_holders s))) (to_last s)"
    using probes by (subst tracks_cong [of _ m "to_holders s"]) (simp_all add: set_failed_copies_def told_ok_def)
  moreover have "member_ok (snd (set_failed_copies failed h)) m = member_ok h m" for h m
  proof -
    have "hs_index (snd (set_failed_copies failed h)) = hs_index h" "hs_stated (snd (set_failed_copies failed h)) = hs_stated h"
      by (simp_all add: set_failed_copies_def)
    then show ?thesis unfolding member_ok_def by (simp only:)
  qed
  then have "holders_ok (snd (set_failed_copies failed (to_holders s)))"
    using probes by (simp add: told_ok_def holders_ok_def) (simp add: set_failed_copies_def)
  ultimately show ?case using probes by (simp add: told_ok_def)
qed (auto simp: told_ok_def)

lemma told_reach_ok: "told_reach m s \<Longrightarrow> told_ok m s"
proof (induction rule: told_reach.induct)
  case start
  show ?case
    by (simp add: told_ok_def told_start_def holders_new_def holders_ok_def member_ok_def index_ok_def tracks_def
        items_of_def index_holders_def)
qed (rule told_step_ok)

text \<open>
  C32. A listener that knows what a member holds is right. Take a member that states what it holds as
  the code does, restarting now and again, and a listener that hears any of its beats, in any order and
  any number of times, fetches its lists with any failures, and hears whatever others say. Whenever the
  listener takes the member's holdings as known, it has the member down for exactly the items the member
  held at the beat heard last; it never finds the member's statements broken; and once the list that a
  beat named arrives, the holdings are known.
\<close>
theorem listener_knows_what_is_held:
  assumes "told_reach m s"
  shows "(is_known (to_holders s) m \<longrightarrow>
      (\<exists>held. to_last s = Some held \<and> (\<forall>item. m \<in> set (holders_of (to_holders s) item) \<longleftrightarrow> item \<in> held))) \<and>
    (\<forall>base. bt_get (hs_stated (to_holders s)) m \<noteq> Some (Broken base)) \<and>
    (\<forall>base latest fetching items.
       bt_get (hs_stated (to_holders s)) m = Some (Unknown base latest fetching) \<and> to_listed s base = Some (set items)
       \<longrightarrow> is_known (snd (arrived m base items (to_holders s))) m)"
proof -
  have ok: "holders_ok (to_holders s)" and t: "tracks (to_listed s) m (to_holders s) (to_last s)"
    using told_reach_ok [OF assms] by (simp_all add: told_ok_def)
  show ?thesis
  proof (intro conjI impI allI)
    assume "is_known (to_holders s) m"
    with t show "\<exists>held. to_last s = Some held \<and> (\<forall>item. m \<in> set (holders_of (to_holders s) item) \<longleftrightarrow> item \<in> held)"
      by (auto simp: is_known_def tracks_def holders_of_def items_of_def split: option.splits stated.splits)
  next
    show "bt_get (hs_stated (to_holders s)) m \<noteq> Some (Broken base)" for base
      using t by (auto simp: tracks_def)
  qed (use arrived_tracks(2) [OF ok t] in blast)
qed

theorem listener_knows_what_is_held_witness:
  "\<exists>s. told_reach (MemberId 2) s \<and> is_known (to_holders s) (MemberId 2) \<and>
     (\<forall>item. MemberId 2 \<in> set (holders_of (to_holders s) item) \<longleftrightarrow> item = ItemId 7)"
proof -
  let ?m = "MemberId 2"
  let ?said = "\<lparr>hd_count = 1, hd_base = None, hd_added = [ItemId 7], hd_removed = []\<rparr>"
  define s1 where "s1 = told_start\<lparr>to_held := {ItemId 7}\<rparr>"
  define s2 where "s2 = s1\<lparr>to_statement := None, to_listed := Map.empty, to_sent := insert (?said, to_held s1) (to_sent s1)\<rparr>"
  define s3 where "s3 = s2\<lparr>to_holders := snd (holders_heard ?m ?said (to_holders s2)), to_last := Some {ItemId 7}\<rparr>"
  have r1: "told_reach ?m s1"
    unfolding s1_def by (rule told_reach.step [OF told_reach.start]) (rule told_step.holds; simp)
  have few: "\<not> needs_base (to_statement s1) (to_held s1) 0 0"
    by (simp add: needs_base_def s1_def told_start_def delta_def sorted_items_def DELTA_MAX_def QUIET_def)
  have r2: "told_reach ?m s2"
    unfolding s2_def
  proof (rule told_reach.step [OF r1], rule told_step.says [where published = None and changed_at = 0 and now = 0])
    show "state_holdings None (to_held s1) 0 0 (to_statement s1) = (Inr ?said, None)"
      using few by (simp add: state_holdings_def s1_def told_start_def delta_def sorted_items_def)
  qed (use few in \<open>simp add: s1_def told_start_def\<close>)
  have "told_step ?m s2 s3"
    unfolding s3_def by (rule told_step.hears) (simp add: s2_def s1_def)
  then have r3: "told_reach ?m s3" by (rule told_reach.step [OF r2])
  have known: "is_known (to_holders s3) ?m"
  proof -
    have "to_holders s3 = snd (holders_heard ?m ?said holders_new)"
      by (simp add: s3_def s2_def s1_def told_start_def)
    moreover have "is_known (snd (holders_heard ?m ?said holders_new)) ?m" by code_simp
    ultimately show ?thesis by simp
  qed
  have "to_last s3 = Some {ItemId 7}" by (simp add: s3_def)
  with listener_knows_what_is_held [OF r3] known r3 show ?thesis by auto
qed

end
