(* ===== verification/Availability.thy ===== *)
theory Availability
  imports Presence Holders Held_Items
begin

text \<open>
  The heartbeat service (\<open>distlib-sync/src/availability/heartbeat.rs\<close>): the half that beats, the half
  that listens, and the fetches of base lists beside them. What the gossip swarm delivers, what the
  store and the network answer and when a wait ends come with each turn.
\<close>

section \<open>Constants and the topic\<close>

definition TOPIC_TAG :: "u8 list" where "TOPIC_TAG = ascii ''distlib.availability.v1''"

definition CHANGE_FLOOR :: duration where "CHANGE_FLOOR = secs 10"

definition BASE_BYTES_MAX :: u64 where "BASE_BYTES_MAX = 1 + 32 * of_nat BASE_MAX"

text \<open>BLAKE3 of the tag and the group, fed in that order.\<close>

definition topic_for :: "(u8 list \<Rightarrow> 256 word) \<Rightarrow> group_id \<Rightarrow> 256 word" where
  "topic_for blake3 gid = blake3 (TOPIC_TAG @ be_bytes 32 (group_bytes gid))"

section \<open>Beating\<close>

text \<open>
  What the beating half keeps: the number and time of its last beat, what a goodbye follows, and the
  statement of holdings; \<open>bg_sent\<close> are the messages handed to the swarm.
\<close>

record 'sig beating =
  bg_seq :: u64
  bg_last_beat :: instant
  bg_said :: "'sig heartbeat option"
  bg_statement :: statement
  bg_sent :: "u8 list list"

definition beating_new :: "instant \<Rightarrow> 'sig beating" where
  "beating_new now = \<lparr>bg_seq = 0, bg_last_beat = now, bg_said = None, bg_statement = None, bg_sent = []\<rparr>"

text \<open>Signs, encodes and sends one beat; what cannot be sealed or encoded is not sent.\<close>

definition say ::
    "('sk, 'sig) crypto \<Rightarrow> 'sig beat_codec \<Rightarrow> 'sk \<Rightarrow> group_id \<Rightarrow> 'sig heartbeat \<Rightarrow> 'sig beating \<Rightarrow> 'sig beating" where
  "say cr codec sk gid beat bg =
     (case sign_heartbeat cr codec sk gid beat of
        Inl _ \<Rightarrow> bg
      | Inr sealed \<Rightarrow>
          (case encode_heartbeat codec sealed of
             Inl _ \<Rightarrow> bg
           | Inr encoded \<Rightarrow> bg\<lparr>bg_sent := bg_sent bg @ [encoded]\<rparr>))"

text \<open>What one pass of the loop sees: the setting, the group's size, the address, what is held.\<close>

record 'sig beat_env =
  ev_interval :: duration
  ev_members :: nat
  ev_address :: "'sig signed_address option"
  ev_held :: "item_id set"
  ev_changed_at :: instant
  ev_published :: "content_hash option"
  ev_now :: instant

definition beat_pass ::
    "('sk, 'sig) crypto \<Rightarrow> 'sig beat_codec \<Rightarrow> 'sk \<Rightarrow> group_id \<Rightarrow> u64 \<Rightarrow> 'sig beat_env \<Rightarrow> 'sig beating \<Rightarrow> 'sig beating" where
  "beat_pass cr codec sk gid epoch ev bg =
     (case ev_address ev of
        None \<Rightarrow> bg
      | Some address \<Rightarrow>
          (case state_holdings (ev_published ev) (ev_held ev) (ev_changed_at ev) (ev_now ev) (bg_statement bg) of
             (Inl _, st) \<Rightarrow> bg\<lparr>bg_statement := st\<rparr>
           | (Inr stated, st) \<Rightarrow>
               let seq = bg_seq bg + 1;
                   beat = \<lparr>hb_address = address, hb_epoch = epoch, hb_seq = seq,
                     hb_interval_secs = whole_seconds (stretch (ev_interval ev) (ev_members ev)),
                     hb_holdings = stated, hb_leaving = False\<rparr>
               in (say cr codec sk gid beat (bg\<lparr>bg_statement := st, bg_seq := seq, bg_said := Some beat\<rparr>))
                    \<lparr>bg_last_beat := ev_now ev\<rparr>))"

text \<open>
  Why the wait after a pass ends, with when it did; the beat a change of the holdings prompts is held
  back, but never past the one already due. \<open>None\<close>: the loop ends.
\<close>

datatype woken = Due | NeighbourUp instant | Moved instant | AddressGone | HoldingsChanged instant

definition wake_at :: "instant \<Rightarrow> instant \<Rightarrow> woken \<Rightarrow> instant option" where
  "wake_at last_beat due w =
     (case w of
        Due \<Rightarrow> Some due
      | NeighbourUp t \<Rightarrow> Some t
      | Moved t \<Rightarrow> Some t
      | AddressGone \<Rightarrow> None
      | HoldingsChanged t \<Rightarrow> Some (max t (min (last_beat + CHANGE_FLOOR) due)))"

text \<open>The goodbye, one past the last beat that was recorded.\<close>

definition goodbye :: "'sig heartbeat \<Rightarrow> 'sig heartbeat" where
  "goodbye beat = beat\<lparr>hb_seq := hb_seq beat + 1, hb_leaving := True\<rparr>"

definition leave ::
    "('sk, 'sig) crypto \<Rightarrow> 'sig beat_codec \<Rightarrow> 'sk \<Rightarrow> group_id \<Rightarrow> 'sig beating \<Rightarrow> 'sig beating" where
  "leave cr codec sk gid bg =
     (case bg_said bg of
        None \<Rightarrow> bg
      | Some beat \<Rightarrow>
          say cr codec sk gid (goodbye beat) (bg\<lparr>bg_said := None\<rparr>))"

section \<open>Listening\<close>

record base_fetch =
  bf_member :: member_id
  bf_base :: content_hash

text \<open>
  What the listening half keeps, what it shares, and what it has told: the members whose
  \<open>availability.changed\<close> was sent, in order, and whether the beating half was asked to beat.
\<close>

record ('sig, 'url) listener =
  li_online :: online
  li_holders :: holders
  li_directory :: "('sig, 'url) directory"
  li_published :: "member_id list"
  li_told :: "member_id list"
  li_fetches :: "base_fetch list"
  li_neighbour_up :: bool

definition listener_new :: "member_id \<Rightarrow> ('sig, 'url) listener" where
  "listener_new me = \<lparr>li_online = online_new me, li_holders = holders_new, li_directory = directory_new,
     li_published = [], li_told = [], li_fetches = [], li_neighbour_up = False\<rparr>"

definition tell :: "member_id \<Rightarrow> ('sig, 'url) listener \<Rightarrow> ('sig, 'url) listener" where
  "tell m li = li\<lparr>li_told := li_told li @ [m]\<rparr>"

text \<open>What verifying and reading need of the outside.\<close>

record ('sk, 'sig, 'url) beat_lib =
  hl_crypto :: "('sk, 'sig) crypto"
  hl_encoder :: addr_encoder
  hl_codec :: "'sig beat_codec"
  hl_parse :: "string \<Rightarrow> 'url option"

definition hear ::
    "('sk, 'sig, 'url) beat_lib \<Rightarrow> group_id \<Rightarrow> (member_id \<Rightarrow> bool) \<Rightarrow> instant \<Rightarrow> u8 list
      \<Rightarrow> ('sig, 'url) listener \<Rightarrow> (core_error + base_fetch option) \<times> ('sig, 'url) listener" where
  "hear lib gid in_group now content li =
     (case decode_heartbeat (hl_codec lib) content of
        Inl e \<Rightarrow> (Inl e, li)
      | Inr sealed \<Rightarrow>
          (case open_heartbeat (hl_crypto lib) (hl_encoder lib) (hl_codec lib) gid sealed of
             Inl e \<Rightarrow> (Inl e, li)
           | Inr beat \<Rightarrow>
               (case online_heard beat now in_group (li_online li) of
                  (False, on) \<Rightarrow> (Inr None, li\<lparr>li_online := on\<rparr>)
                | (True, on) \<Rightarrow>
                    let member = sa_member (hb_address beat);
                        d = snd (learn (hl_crypto lib) (hl_encoder lib) (hl_parse lib) (hb_address beat)
                              (li_directory li))
                    in case holders_heard member (hb_holdings beat) (li_holders li) of
                         (heard, h) \<Rightarrow>
                           let li1 = li\<lparr>li_online := on, li_directory := d, li_holders := h\<rparr>
                           in (Inr (map_option (base_fetch.make member) (hh_fetch heard)),
                               if hh_changed heard then tell member li1 else li1))))"

definition worth_retrying :: "sync_error \<Rightarrow> bool" where
  "worth_retrying e = (case e of BaseFetch _ \<Rightarrow> True | _ \<Rightarrow> False)"

text \<open>
  Fetching a base list: whether the member could be reached, the verified size of the blob and its
  bytes, each of which may fail to come.
\<close>

definition fetch_base :: "member_id \<Rightarrow> bool \<Rightarrow> u64 option \<Rightarrow> u8 list option \<Rightarrow> sync_error + u8 list" where
  "fetch_base member connected verified body =
     (if \<not> connected then Inl (BaseFetch member)
      else (case verified of
        None \<Rightarrow> Inl (BaseFetch member)
      | Some n \<Rightarrow>
          if BASE_BYTES_MAX < n then Inl (BaseTooBig member n)
          else (case body of None \<Rightarrow> Inl (BaseFetch member) | Some b \<Rightarrow> Inr b)))"

definition take_in ::
    "base_fetch \<Rightarrow> sync_error + u8 list \<Rightarrow> ('sig, 'url) listener \<Rightarrow> ('sig, 'url) listener" where
  "take_in f fetched li =
     (let failed = (\<lambda>e. li\<lparr>li_holders := fetch_failed_for (bf_member f) (bf_base f) (worth_retrying e) (li_holders li)\<rparr>)
      in case fetched of
           Inr bytes \<Rightarrow>
             (case decode_base bytes of
                Inr items \<Rightarrow>
                  (case arrived (bf_member f) (bf_base f) items (li_holders li) of
                     (news, h) \<Rightarrow>
                       if news then tell (bf_member f) (li\<lparr>li_holders := h\<rparr>) else li\<lparr>li_holders := h\<rparr>)
              | Inl source \<Rightarrow> failed (BadBase (bf_member f) source))
         | Inl e \<Rightarrow> failed e)"

text \<open>Publishing who is online after a turn, and telling of those whose state changed.\<close>

definition publish_online :: "('sig, 'url) listener \<Rightarrow> ('sig, 'url) listener" where
  "publish_online li =
     (let now = online_members (li_online li); was = li_published li
      in if was = now then li
         else li\<lparr>li_told := li_told li @
                  sort (filter (\<lambda>m. m \<notin> set now) was @ filter (\<lambda>m. m \<notin> set was) now),
                li_published := now\<rparr>)"

datatype gossip_event =
    Received "u8 list" "member_id set"
  | PeerUp
  | OtherGossip
  | ExpiryDue
  | MembershipIs "member_id set"
  | TopicOver

text \<open>One turn of the listening loop; whether it goes on.\<close>

definition listen_turn ::
    "('sk, 'sig, 'url) beat_lib \<Rightarrow> group_id \<Rightarrow> instant \<Rightarrow> gossip_event \<Rightarrow> ('sig, 'url) listener
      \<Rightarrow> bool \<times> ('sig, 'url) listener" where
  "listen_turn lib gid now ev li =
     (case ev of
        TopicOver \<Rightarrow> (False, li)
      | Received content members \<Rightarrow>
          (case hear lib gid (\<lambda>m. m \<in> members) now content li of
             (Inr (Some f), li') \<Rightarrow> (True, publish_online (li'\<lparr>li_fetches := li_fetches li' @ [f]\<rparr>))
           | (_, li') \<Rightarrow> (True, publish_online li'))
      | PeerUp \<Rightarrow> (True, publish_online (li\<lparr>li_neighbour_up := True\<rparr>))
      | OtherGossip \<Rightarrow> (True, publish_online li)
      | ExpiryDue \<Rightarrow> (True, publish_online (li\<lparr>li_online := expire now (li_online li)\<rparr>))
      | MembershipIs members \<Rightarrow>
          (True, publish_online
            (li\<lparr>li_online := online_retain (\<lambda>m. m \<in> members) (li_online li),
                li_holders := holders_retain (\<lambda>m. m \<in> members) (li_holders li)\<rparr>)))"

text \<open>A fetch ends: its task takes what it brought in.\<close>

definition learn_ends ::
    "base_fetch \<Rightarrow> sync_error + u8 list \<Rightarrow> ('sig, 'url) listener \<Rightarrow> ('sig, 'url) listener" where
  "learn_ends f fetched li = take_in f fetched (li\<lparr>li_fetches := remove1 f (li_fetches li)\<rparr>)"

inductive listening :: "('sk, 'sig, 'url) beat_lib \<Rightarrow> group_id \<Rightarrow> member_id \<Rightarrow> ('sig, 'url) listener \<Rightarrow> bool"
  for lib gid me where
  Starts: "listening lib gid me (listener_new me)"
| Turns: "listening lib gid me li \<Longrightarrow> listen_turn lib gid now ev li = (True, li') \<Longrightarrow> listening lib gid me li'"
| Fetched: "listening lib gid me li \<Longrightarrow> f \<in> set (li_fetches li) \<Longrightarrow> listening lib gid me (learn_ends f fetched li)"

section \<open>What the listener keeps in step\<close>

text \<open>A member whose list is being fetched has a fetch under way, so its holdings do not stay unknown.\<close>

definition fetching_in :: "base_fetch set \<Rightarrow> holders \<Rightarrow> bool" where
  "fetching_in F h \<longleftrightarrow> (\<forall>m base latest. bt_get (hs_stated h) m = Some (stated.Unknown base latest True) \<longrightarrow>
     base_fetch.make m base \<in> F)"

text \<open>What a member is known to hold agrees with the change it last stated.\<close>

definition delta_in :: "holders \<Rightarrow> bool" where
  "delta_in h \<longleftrightarrow> (\<forall>m base added removed held. bt_get (hs_stated h) m = Some (Known base added removed held) \<longrightarrow>
     set added - set removed \<subseteq> items_held h m \<and> items_held h m \<inter> set removed = {})"

definition listener_ok :: "('sig, 'url) listener \<Rightarrow> bool" where
  "listener_ok li \<longleftrightarrow> holders_ok (li_holders li) \<and> delta_in (li_holders li) \<and>
     fetching_in (set (li_fetches li)) (li_holders li) \<and> li_published li = online_members (li_online li)"

lemma restate_not_unknown:
  assumes "bt_get (hs_stated h) m = Some (Known base added removed held)"
  shows "bt_get (hs_stated (restate m said h)) m' \<noteq> Some (stated.Unknown b latest True) \<or>
    m' \<noteq> m \<and> bt_get (hs_stated (restate m said h)) m' = bt_get (hs_stated h) m'"
  using assms by (auto simp: restate_def split: prod.splits)

lemma make_known_fetching:
  "fetching_in F h \<Longrightarrow> fetching_in F (make_known m base held said h)"
  unfolding fetching_in_def make_known_def
  using restate_not_unknown [of "h\<lparr>hs_stated := bt_insert m (Known base [] [] held) (hs_stated h)\<rparr>" m]
  by (fastforce split: if_splits)

lemma heard_anew_fetching:
  assumes "fetching_in F h" and "heard_anew m said h = (heard, h')"
  shows "fetching_in (F \<union> base_fetch.make m ` set_option (hh_fetch heard)) h'"
  using assms make_known_fetching [of F "h\<lparr>hs_index := index_clear m (hs_index h)\<rparr>" m None 0 said]
  by (auto simp: heard_anew_def fetching_in_def Let_def split: option.splits if_splits)

lemma heard_fetching:
  assumes "fetching_in F h" and "holders_heard m said h = (heard, h')"
  shows "fetching_in (F \<union> base_fetch.make m ` set_option (hh_fetch heard)) h'"
proof (cases "heard_anew m said h = (heard, h')")
  case True
  then show ?thesis by (rule heard_anew_fetching [OF assms(1)])
next
  case False
  note assms(2) [unfolded holders_heard_def]
  with False show ?thesis
    using assms(1) restate_not_unknown [of h m]
    by (fastforce simp: fetching_in_def Let_def split: option.splits stated.splits if_splits)
qed

lemma make_fetch_eq [simp]: "base_fetch.make m b = base_fetch.make m' b' \<longleftrightarrow> m = m' \<and> b = b'"
  by (simp add: base_fetch.make_def)

lemma fetching_without:
  assumes "fetching_in F h" and "\<And>latest. bt_get (hs_stated h) m \<noteq> Some (stated.Unknown base latest True)"
  shows "fetching_in (F - {base_fetch.make m base}) h"
  using assms by (auto simp: fetching_in_def)

lemma arrived_fetching:
  assumes "fetching_in F h"
  shows "fetching_in (F - {base_fetch.make m base}) (snd (arrived m base items h))"
proof (cases "\<exists>latest fetching. bt_get (hs_stated h) m = Some (stated.Unknown base latest fetching)")
  case True
  have "fetching_in (F - {base_fetch.make m base}) (h\<lparr>hs_index := ix, hs_stated := bt_remove m (hs_stated h)\<rparr>)" for ix
    using assms by (auto simp: fetching_in_def)
  note make_known_fetching [OF this]
  with True show ?thesis by (auto simp: arrived_def split: prod.splits)
next
  case False
  then have "snd (arrived m base items h) = h" by (auto simp: arrived_def split: option.splits stated.splits)
  with fetching_without [OF assms, of m base] False show ?thesis by auto
qed

lemma failed_fetching:
  assumes "fetching_in F h"
  shows "fetching_in (F - {base_fetch.make m base}) (fetch_failed_for m base retry h)"
proof (cases "\<exists>latest fetching. bt_get (hs_stated h) m = Some (stated.Unknown base latest fetching)")
  case True
  with assms show ?thesis by (auto simp: fetch_failed_for_def fetching_in_def split: if_splits)
next
  case False
  then have "fetch_failed_for m base retry h = h"
    by (auto simp: fetch_failed_for_def split: option.splits stated.splits)
  with fetching_without [OF assms, of m base] False show ?thesis by auto
qed

lemma retain_fetching: "fetching_in F h \<Longrightarrow> fetching_in F (holders_retain P h)"
  by (auto simp: fetching_in_def holders_retain_def split: if_splits option.splits)

lemma delta_touched:
  assumes "delta_in h" and "only_touches m h h'"
    and "\<And>base added removed held. bt_get (hs_stated h') m = Some (Known base added removed held) \<Longrightarrow>
      set added - set removed \<subseteq> items_held h' m \<and> items_held h' m \<inter> set removed = {}"
  shows "delta_in h'"
  using assms unfolding delta_in_def only_touches_def by metis

lemma restate_delta:
  assumes "index_ok (hs_index h)" "bt_get (hs_stated h) m = Some (Known base added removed (card (items_held h m)))"
    and "bt_get (hs_stated (restate m said h)) m = Some (Known base' added' removed' held')"
  shows "set added' - set removed' \<subseteq> items_held (restate m said h) m \<and>
    items_held (restate m said h) m \<inter> set removed' = {}"
proof -
  note r = restate_Known [OF assms(1,2) refl, of said]
  show ?thesis
    using r(2,3) assms(3)
    by (cases "card (items_held h m \<union> set removed - set added \<union> set (hd_added said) - set (hd_removed said))
        = unat (hd_count said)") auto
qed

lemma make_known_delta:
  assumes "index_ok (hs_index h)" "held = card (items_held h m)"
    and "bt_get (hs_stated (make_known m base held said h)) m = Some (Known base' added removed held')"
  shows "set added - set removed \<subseteq> items_held (make_known m base held said h) m \<and>
    items_held (make_known m base held said h) m \<inter> set removed = {}"
  using assms(3) unfolding make_known_def
  by (rule restate_delta [rotated -1]) (use assms(1,2) in simp_all)

lemma heard_anew_delta:
  assumes "delta_in h" and "holders_ok h"
  shows "delta_in (snd (heard_anew m said h))"
proof (rule delta_touched [OF assms(1)])
  have ok: "index_ok (hs_index h)" using assms(2) by (simp add: holders_ok_def)
  then show "only_touches m h (snd (heard_anew m said h))" by (rule heard_anew_ok)
  fix base added removed held
  assume known: "bt_get (hs_stated (snd (heard_anew m said h))) m = Some (Known base added removed held)"
  then have "hd_base said = None" by (auto simp: heard_anew_def Let_def split: option.splits)
  with known show "set added - set removed \<subseteq> items_held (snd (heard_anew m said h)) m \<and>
      items_held (snd (heard_anew m said h)) m \<inter> set removed = {}"
    using make_known_delta [of "h\<lparr>hs_index := index_clear m (hs_index h)\<rparr>" 0 m None said]
      index_retain_ok [OF ok, of "\<lambda>held. held \<noteq> m", folded index_clear_def]
    by (auto simp: heard_anew_def Let_def)
qed

lemma known_count:
  assumes "holders_ok h" and "bt_get (hs_stated h) m = Some (Known base added removed held)"
  shows "index_ok (hs_index h)" and "held = card (items_held h m)"
  using assms by (auto simp: holders_ok_def member_ok_def split: option.splits stated.splits dest!: spec [of _ m])

lemma heard_delta:
  assumes "delta_in h" and "holders_ok h"
  shows "delta_in (snd (holders_heard m said h))"
proof (cases "snd (holders_heard m said h) = snd (heard_anew m said h)")
  case False
  have "delta_in (restate m said h)" if "bt_get (hs_stated h) m = Some (Known base added removed held)"
    for base added removed held
  proof (rule delta_touched [OF assms(1)])
    note k = known_count [OF assms(2) that]
    show "only_touches m h (restate m said h)" using restate_ok(1) [OF k(1)] that k(2) by simp
  qed (use restate_delta [OF known_count(1) [OF assms(2) that]] that known_count(2) [OF assms(2) that] in blast)
  with False assms(1) show ?thesis
    by (auto simp: holders_heard_def delta_in_def Let_def split: option.splits stated.splits if_splits)
qed (simp add: heard_anew_delta [OF assms])

lemma arrived_delta:
  assumes "delta_in h" and "holders_ok h"
  shows "delta_in (snd (arrived m base items h))"
proof (rule delta_touched [OF assms(1)])
  show "only_touches m h (snd (arrived m base items h))" by (rule arrived_ok [OF assms(2)])
  fix base' added removed held
  assume known: "bt_get (hs_stated (snd (arrived m base items h))) m = Some (Known base' added removed held)"
  show "set added - set removed \<subseteq> items_held (snd (arrived m base items h)) m \<and>
      items_held (snd (arrived m base items h)) m \<inter> set removed = {}"
  proof (cases "\<exists>latest fetching. bt_get (hs_stated h) m = Some (stated.Unknown base latest fetching)")
    case True
    then obtain latest fetching where u: "bt_get (hs_stated h) m = Some (stated.Unknown base latest fetching)" by blast
    obtain n ix where add: "counting_each (index_add m) items (hs_index h) = (n, ix)" by fastforce
    have "index_ok (hs_index h)" "items_held h m = {}"
      using assms(2) u by (auto simp: holders_ok_def member_ok_def dest!: spec [of _ m])
    with adds_ok [OF _ add] have "index_ok ix" "n = card (items_of ix m)" by auto
    with make_known_delta [of "h\<lparr>hs_index := ix, hs_stated := bt_remove m (hs_stated h)\<rparr>" n m "Some base" latest] known
    show ?thesis by (simp add: arrived_def u add)
  next
    case False
    then have "snd (arrived m base items h) = h" by (auto simp: arrived_def split: option.splits stated.splits)
    with known assms(1) show ?thesis by (auto simp: delta_in_def)
  qed
qed

lemma failed_delta: "delta_in h \<Longrightarrow> delta_in (fetch_failed_for m base retry h)"
  by (auto simp: delta_in_def fetch_failed_for_def split: option.splits stated.splits if_splits)

lemma retain_delta:
  assumes "delta_in h" and "holders_ok h"
  shows "delta_in (holders_retain P h)"
  unfolding delta_in_def holders_retain_ok(2) [OF assms(2)]
  using assms(1) by (auto simp: delta_in_def holders_retain_def split: option.splits if_splits)

section \<open>The invariant, and what is told\<close>

text \<open>What a node can tell about a member: whether it is online, whether it is known what it holds, and what.\<close>

definition told_of :: "('sig, 'url) listener \<Rightarrow> member_id \<Rightarrow> bool \<times> bool \<times> item_id set" where
  "told_of li m = (m \<in> set (online_members (li_online li)), is_known (li_holders li) m, items_held (li_holders li) m)"

lemma heard_quietly:
  assumes "holders_ok h" and "delta_in h" and "holders_heard m said h = (heard, h')" and "\<not> hh_changed heard"
  shows "is_known h' m = is_known h m \<and> items_held h' m = items_held h m"
proof (cases "\<exists>base held. bt_get (hs_stated h) m = Some (Known base (hd_added said) (hd_removed said) held)")
  case True
  then obtain base held where k: "bt_get (hs_stated h) m = Some (Known base (hd_added said) (hd_removed said) held)" by blast
  have h': "h' = restate m said h" "is_known h' m" "is_known h m"
    using assms(3,4) k by (auto simp: holders_heard_def is_known_def heard_anew_def Let_def split: if_splits)
  let ?items = "items_held h m \<union> set (hd_removed said) - set (hd_added said) \<union> set (hd_added said) - set (hd_removed said)"
  have "?items = items_held h m" using assms(2) k unfolding delta_in_def by blast
  with restate_Known(2,3) [OF known_count(1) [OF assms(1) k] k known_count(2) [OF assms(1) k], of said] h'
  show ?thesis by (cases "card (items_held h m) = unat (hd_count said)") (auto simp: is_known_def)
next
  case False
  then show ?thesis
    using assms(3,4)
    by (auto simp: holders_heard_def heard_anew_def is_known_def Let_def
        split: option.splits stated.splits if_splits)
qed

lemma others_untouched:
  "only_touches m h h' \<Longrightarrow> m' \<noteq> m \<Longrightarrow> is_known h' m' = is_known h m' \<and> items_held h' m' = items_held h m'"
  by (simp add: only_touches_def is_known_def)

lemma publish_online_simps [simp]:
  "li_online (publish_online li) = li_online li" "li_holders (publish_online li) = li_holders li"
  "li_fetches (publish_online li) = li_fetches li" "li_published (publish_online li) = online_members (li_online li)"
  "li_directory (publish_online li) = li_directory li"
  by (simp_all add: publish_online_def Let_def)

lemma publish_online_tells:
  "\<exists>ms. li_told (publish_online li) = li_told li @ ms \<and>
     set ms = (set (li_published li) - set (online_members (li_online li))) \<union>
       (set (online_members (li_online li)) - set (li_published li))"
  by (auto simp: publish_online_def Let_def)

lemma tell_simps [simp]:
  "li_online (tell m li) = li_online li" "li_holders (tell m li) = li_holders li"
  "li_fetches (tell m li) = li_fetches li" "li_published (tell m li) = li_published li"
  "li_directory (tell m li) = li_directory li" "li_told (tell m li) = li_told li @ [m]"
  by (simp_all add: tell_def)

text \<open>Hearing a message: the four ways it goes.\<close>

lemma hear_cases:
  assumes "hear lib gid in_group now content li = (r, li')"
  obtains e where "r = Inl e" "li' = li"
  | sealed beat on where "decode_heartbeat (hl_codec lib) content = Inr sealed"
      "open_heartbeat (hl_crypto lib) (hl_encoder lib) (hl_codec lib) gid sealed = Inr beat"
      "online_heard beat now in_group (li_online li) = (False, on)" "r = Inr None" "li' = li\<lparr>li_online := on\<rparr>"
  | sealed beat on heard h li1 where "decode_heartbeat (hl_codec lib) content = Inr sealed"
      "open_heartbeat (hl_crypto lib) (hl_encoder lib) (hl_codec lib) gid sealed = Inr beat"
      "online_heard beat now in_group (li_online li) = (True, on)"
      "holders_heard (sa_member (hb_address beat)) (hb_holdings beat) (li_holders li) = (heard, h)"
      "li1 = li\<lparr>li_online := on, li_directory := snd (learn (hl_crypto lib) (hl_encoder lib) (hl_parse lib)
         (hb_address beat) (li_directory li)), li_holders := h\<rparr>"
      "r = Inr (map_option (base_fetch.make (sa_member (hb_address beat))) (hh_fetch heard))"
      "li' = (if hh_changed heard then tell (sa_member (hb_address beat)) li1 else li1)"
proof (cases "decode_heartbeat (hl_codec lib) content")
  case (Inl e)
  then show ?thesis using that(1) [of e] assms by (simp add: hear_def)
next
  case d: (Inr sealed)
  show ?thesis
  proof (cases "open_heartbeat (hl_crypto lib) (hl_encoder lib) (hl_codec lib) gid sealed")
    case (Inl e)
    then show ?thesis using that(1) [of e] assms d by (simp add: hear_def)
  next
    case o: (Inr beat)
    obtain news on where n: "online_heard beat now in_group (li_online li) = (news, on)" by fastforce
    obtain heard h where h: "holders_heard (sa_member (hb_address beat)) (hb_holdings beat) (li_holders li) = (heard, h)"
      by fastforce
    show ?thesis
    proof (cases news)
      case True
      then show ?thesis using that(3) [OF d o] assms n h by (simp add: hear_def d o Let_def)
    next
      case False
      then show ?thesis using that(2) [OF d o] assms n by (simp add: hear_def d o)
    qed
  qed
qed

lemma hear_ok:
  assumes "hear lib gid in_group now content li = (r, li')" and "listener_ok li"
    and "fs = (case r of Inr (Some f) \<Rightarrow> [f] | _ \<Rightarrow> [])"
  shows "holders_ok (li_holders li') \<and> delta_in (li_holders li') \<and>
    fetching_in (set (li_fetches li' @ fs)) (li_holders li')"
  using assms(1)
proof (cases rule: hear_cases)
  case (3 sealed beat on heard h li1)
  let ?m = "sa_member (hb_address beat)"
  have ok: "holders_ok (li_holders li)" "delta_in (li_holders li)"
    "fetching_in (set (li_fetches li)) (li_holders li)"
    using assms(2) by (simp_all add: listener_ok_def)
  have "set fs = base_fetch.make ?m ` set_option (hh_fetch heard)"
    using 3(6) assms(3) by (cases "hh_fetch heard") auto
  moreover have "li_holders li' = h" "li_fetches li' = li_fetches li" using 3(5,7) by simp_all
  ultimately show ?thesis
    using holders_heard_ok(2) [OF ok(1)] heard_delta [OF ok(2,1)] heard_fetching [OF ok(3) 3(4)] 3(4)
    by (metis set_append snd_conv)
qed (use assms(2,3) in \<open>auto simp: listener_ok_def\<close>)

lemma listen_turn_ok:
  assumes "listen_turn lib gid now ev li = (True, li')" and "listener_ok li"
  shows "listener_ok li'"
proof (cases ev)
  case (Received content members)
  obtain r li1 where h: "hear lib gid (\<lambda>m. m \<in> members) now content li = (r, li1)" by fastforce
  note hear_ok [OF h assms(2) refl]
  then show ?thesis
    using assms(1) by (auto simp: Received listen_turn_def h listener_ok_def split: sum.splits option.splits)
next
  case (MembershipIs members)
  have ok: "holders_ok (li_holders li)" "delta_in (li_holders li)"
    "fetching_in (set (li_fetches li)) (li_holders li)"
    using assms(2) by (simp_all add: listener_ok_def)
  then show ?thesis
    using assms(1) holders_retain_ok(1) [OF ok(1)] retain_delta [OF ok(2,1)] retain_fetching [OF ok(3)]
    by (auto simp: MembershipIs listen_turn_def listener_ok_def)
qed (use assms in \<open>auto simp: listen_turn_def listener_ok_def\<close>)

lemma fetching_mono: "fetching_in F h \<Longrightarrow> F \<subseteq> G \<Longrightarrow> fetching_in G h"
  by (auto simp: fetching_in_def)

lemma learn_ends_ok:
  assumes "listener_ok li"
  shows "listener_ok (learn_ends f fetched li)"
proof -
  have ok: "holders_ok (li_holders li)" "delta_in (li_holders li)"
    "fetching_in (set (li_fetches li)) (li_holders li)" "li_published li = online_members (li_online li)"
    using assms by (simp_all add: listener_ok_def)
  have f: "f = base_fetch.make (bf_member f) (bf_base f)" by (simp add: base_fetch.make_def)
  have "set (li_fetches li) - {f} \<subseteq> set (remove1 f (li_fetches li))"
    using in_set_remove1 [of _ f "li_fetches li"] by blast
  note sub = fetching_mono [OF _ this]
  show ?thesis
    using ok arrived_ok(2) [OF ok(1)] fetch_failed_ok(2) [OF ok(1)] arrived_delta [OF ok(2,1)] failed_delta [OF ok(2)]
      arrived_fetching [OF ok(3), of "bf_member f" "bf_base f", folded f, THEN sub]
      failed_fetching [OF ok(3), of "bf_member f" "bf_base f", folded f, THEN sub]
    by (auto simp: learn_ends_def take_in_def listener_ok_def Let_def split: sum.splits prod.splits)
       (metis snd_conv)+
qed

lemma listening_ok: "listening lib gid me li \<Longrightarrow> listener_ok li"
proof (induction rule: listening.induct)
  case Starts
  have "index_ok (hs_index holders_new)" by (simp add: index_ok_def holders_new_def)
  moreover have "items_held holders_new m = {}" for m by (auto simp: items_of_def index_holders_def holders_new_def)
  ultimately show ?case
    by (simp add: listener_ok_def listener_new_def holders_ok_def member_ok_def delta_in_def fetching_in_def
        online_members_def online_new_def bt_empty.rep_eq) (simp add: holders_new_def)
qed (auto intro: listen_turn_ok learn_ends_ok)

text \<open>
  Whatever is said on the topic, however members come and go and however fetches end: who is
  published as online is who is online, and a member whose base list is to be fetched has a fetch under
  way, so what it holds does not stay unknown for want of one.
\<close>

theorem listener_in_step:
  assumes "listening lib gid me li"
  shows "li_published li = online_members (li_online li) \<and>
    (bt_get (hs_stated (li_holders li)) m = Some (stated.Unknown base latest True) \<longrightarrow>
       base_fetch.make m base \<in> set (li_fetches li)) \<and>
    (m \<in> set (holders_of (li_holders li) item) \<longrightarrow> is_known (li_holders li) m)"
proof -
  note ok = listening_ok [OF assms, unfolded listener_ok_def]
  have "items_held (li_holders li) m = {}" if "\<not> is_known (li_holders li) m"
    using ok that by (auto simp: holders_ok_def member_ok_def is_known_def split: option.splits stated.splits
        dest!: spec [of _ m])
  with ok show ?thesis by (auto simp: fetching_in_def holders_of_def items_of_def)
qed

text \<open>A turn in three parts: what it tells before publishing, and that publishing tells of the rest.\<close>

lemma hear_tells:
  assumes "hear lib gid in_group now content li = (r, li')" and "listener_ok li"
    and "(is_known (li_holders li') m, items_held (li_holders li') m) \<noteq>
      (is_known (li_holders li) m, items_held (li_holders li) m)"
  shows "li_told li' = li_told li @ [m]"
  using assms(1)
proof (cases rule: hear_cases)
  case (3 sealed beat on heard h li1)
  let ?m = "sa_member (hb_address beat)"
  have ok: "holders_ok (li_holders li)" "delta_in (li_holders li)" using assms(2) by (simp_all add: listener_ok_def)
  have h: "li_holders li' = h" using 3(5,7) by simp
  have "only_touches ?m (li_holders li) h" using holders_heard_ok(1) [OF ok(1)] 3(4) by (metis snd_conv)
  then have m: "m = ?m" using others_untouched assms(3) h by auto
  moreover have "hh_changed heard" using heard_quietly [OF ok 3(4)] assms(3) h m by auto
  ultimately show ?thesis using 3(5,7) by simp
qed (use assms(3) in auto)

lemma hear_keeps_published: "hear lib gid in_group now content li = (r, li') \<Longrightarrow> li_published li' = li_published li"
  by (erule hear_cases) simp_all

lemma hear_told_grows: "hear lib gid in_group now content li = (r, li') \<Longrightarrow> \<exists>ms. li_told li' = li_told li @ ms"
  by (erule hear_cases) auto

lemma learn_ends_tells:
  assumes "listener_ok li" and "told_of (learn_ends f fetched li) m \<noteq> told_of li m"
  shows "\<exists>ms. li_told (learn_ends f fetched li) = li_told li @ ms \<and> m \<in> set ms"
proof -
  have h: "holders_ok (li_holders li)" using assms(1) by (simp add: listener_ok_def)
  have "is_known (fetch_failed_for a b c (li_holders li)) m = is_known (li_holders li) m \<and>
      items_held (fetch_failed_for a b c (li_holders li)) m = items_held (li_holders li) m" for a b c
    by (auto simp: fetch_failed_for_def is_known_def split: option.splits stated.splits)
  moreover have "(fst (arrived a b is (li_holders li)) \<and> m = a) \<or>
      is_known (snd (arrived a b is (li_holders li))) m = is_known (li_holders li) m \<and>
      items_held (snd (arrived a b is (li_holders li))) m = items_held (li_holders li) m" for a b "is"
    using others_untouched [OF arrived_ok(1) [OF h]]
    by (cases "fst (arrived a b is (li_holders li))")
      (fastforce simp: arrived_def split: option.splits stated.splits if_splits prod.splits)+
  ultimately show ?thesis
    using assms(2)
    by (auto simp: told_of_def learn_ends_def take_in_def Let_def split: sum.splits prod.splits if_splits)
       (metis fst_conv snd_conv)+
qed

text \<open>
  Nobody has to ask again: when a turn of the loop, or a fetch that ends, changes what this node can
  tell about a member (whether it is online, whether its holdings are known, what it holds), that member
  is told of. Of a change of the membership, only who is online is told.
\<close>

theorem changes_are_told:
  assumes "listening lib gid me li"
    and "listen_turn lib gid now ev li = (True, li') \<and> (\<forall>members. ev \<noteq> MembershipIs members) \<or>
      li' = learn_ends f fetched li"
    and "told_of li' m \<noteq> told_of li m"
  shows "\<exists>ms. li_told li' = li_told li @ ms \<and> m \<in> set ms"
proof -
  note ok = listening_ok [OF assms(1)]
  have on: "\<exists>ms. li_told (publish_online li1) = li_told li @ ms \<and> m \<in> set ms"
    if "(m \<in> set (online_members (li_online li1))) \<noteq> (m \<in> set (online_members (li_online li)))"
      and "li_published li1 = li_published li" and "\<exists>ms. li_told li1 = li_told li @ ms" for li1
    using publish_online_tells [of li1] that ok by (auto simp: listener_ok_def)
  from assms(2) show ?thesis
  proof
    assume "listen_turn lib gid now ev li = (True, li') \<and> (\<forall>members. ev \<noteq> MembershipIs members)"
    then have turn: "listen_turn lib gid now ev li = (True, li')" "\<And>members. ev \<noteq> MembershipIs members" by auto
    show ?thesis
    proof (cases ev)
      case (Received content members)
      obtain r li1 where h: "hear lib gid (\<lambda>m. m \<in> members) now content li = (r, li1)" by fastforce
      define li2 where "li2 = (case r of Inr (Some f) \<Rightarrow> li1\<lparr>li_fetches := li_fetches li1 @ [f]\<rparr> | _ \<Rightarrow> li1)"
      have li': "li' = publish_online li2"
        using turn(1) by (auto simp: Received listen_turn_def h li2_def split: sum.splits option.splits)
      have li2: "li_online li2 = li_online li1" "li_holders li2 = li_holders li1" "li_told li2 = li_told li1"
        "li_published li2 = li_published li1"
        by (simp_all add: li2_def split: sum.splits option.splits)
      show ?thesis
      proof (cases "(m \<in> set (online_members (li_online li2))) = (m \<in> set (online_members (li_online li)))")
        case True
        then have "(is_known (li_holders li1) m, items_held (li_holders li1) m) \<noteq>
            (is_known (li_holders li) m, items_held (li_holders li) m)"
          using assms(3) by (simp add: li' told_of_def li2)
        from hear_tells [OF h ok this] publish_online_tells [of li2] show ?thesis by (auto simp: li' li2)
      next
        case False
        then show ?thesis
          using on [of li2] hear_keeps_published [OF h] hear_told_grows [OF h] by (simp add: li' li2)
      qed
    next
      case (MembershipIs members)
      then show ?thesis using turn(2) by blast
    qed (use turn(1) assms(3) on [of "li\<lparr>li_online := expire now (li_online li)\<rparr>"] in
        \<open>auto simp: listen_turn_def told_of_def\<close>)
  next
    assume li': "li' = learn_ends f fetched li"
    then show ?thesis using learn_ends_tells [OF ok] assms(3) by blast
  qed
qed

section \<open>Only signed beats count\<close>

text \<open>
  What this node can tell about a member, and where it would dial it, changes by a message only if
  the message is a beat of that member of this group, signed by it; a message that does not verify leaves
  everything as it was.
\<close>

theorem only_signed_beats_count:
  assumes "hear lib gid in_group now content li = (r, li')" and "holders_ok (li_holders li)"
    and "told_of li' m \<noteq> told_of li m \<or>
      bt_get (dir_signed (li_directory li')) m \<noteq> bt_get (dir_signed (li_directory li)) m \<and>
      dir_ok (hl_parse lib) (li_directory li)"
  shows "\<exists>sealed payload. decode_heartbeat (hl_codec lib) content = Inr sealed \<and> beat_member sealed = m \<and>
    heartbeat_payload (hl_codec lib) gid (sh_heartbeat sealed) = Inr payload \<and>
    verifies (hl_crypto lib) m payload (sh_signature sealed) \<and>
    verify_address (hl_crypto lib) (hl_encoder lib) (hb_address (sh_heartbeat sealed)) = Inr () \<and>
    in_group m \<and> m \<noteq> on_me (li_online li)"
  using assms(1)
proof (cases rule: hear_cases)
  case (3 sealed beat on heard h li1)
  obtain payload where opened: "beat = sh_heartbeat sealed"
    "heartbeat_payload (hl_codec lib) gid beat = Inr payload"
    "verifies (hl_crypto lib) (beat_member sealed) payload (sh_signature sealed)"
    "verify_address (hl_crypto lib) (hl_encoder lib) (hb_address beat) = Inr ()"
    using 3(2) by (auto simp: open_heartbeat_def split: sum.splits if_splits)
  let ?b = "sa_member (hb_address beat)"
  have news: "in_group ?b" "?b \<noteq> on_me (li_online li)"
    using 3(3) by (auto simp: online_heard_def Let_def split: if_splits)
  have "m = ?b"
  proof (rule ccontr)
    assume m: "m \<noteq> ?b"
    have "only_touches ?b (li_holders li) h" using holders_heard_ok(1) [OF assms(2)] 3(4) by (metis snd_conv)
    then have "told_of li' m = told_of li m"
      using m others_untouched 3(3,5,7)
      by (auto simp: told_of_def set_online_members online_heard_def Let_def split: if_splits)
    moreover have "bt_get (dir_signed (li_directory li')) m = bt_get (dir_signed (li_directory li)) m"
      if "dir_ok (hl_parse lib) (li_directory li)"
      using 3(5,7) m that
        learn_usable(1) [OF _ that, of "hl_crypto lib" "hl_encoder lib" "hb_address beat"]
        learn_unusable [of "hl_crypto lib" "hl_encoder lib" "hl_parse lib" "hb_address beat" "li_directory li"]
      by (cases "usable (hl_crypto lib) (hl_encoder lib) (hl_parse lib) (hb_address beat)") (auto, metis prod.collapse)
    ultimately show False using assms(3) by blast
  qed
  with opened news 3(1) show ?thesis by (auto simp: beat_member_def)
next
  case (2 sealed beat on)
  then have "on = li_online li" by (auto simp: online_heard_def Let_def split: if_splits)
  with 2 assms(3) show ?thesis by simp
qed (use assms(3) in simp)

section \<open>A goodbye is final\<close>

text \<open>The beats recorded in turn, as the run of passes says them.\<close>

inductive beats_of ::
    "('sk, 'sig) crypto \<Rightarrow> 'sig beat_codec \<Rightarrow> 'sk \<Rightarrow> group_id \<Rightarrow> u64 \<Rightarrow> 'sig heartbeat list \<Rightarrow> 'sig beating \<Rightarrow> bool"
  for cr codec sk gid epoch where
  Starts: "beats_of cr codec sk gid epoch [] (beating_new now)"
| Passes: "beats_of cr codec sk gid epoch bs bg \<Longrightarrow> bg' = beat_pass cr codec sk gid epoch ev bg \<Longrightarrow>
    bs' = (if bg_seq bg' = bg_seq bg then bs else bs @ [the (bg_said bg')]) \<Longrightarrow>
    beats_of cr codec sk gid epoch bs' bg'"

lemma say_simps [simp]:
  "bg_seq (say cr codec sk gid beat bg) = bg_seq bg" "bg_said (say cr codec sk gid beat bg) = bg_said bg"
  "bg_statement (say cr codec sk gid beat bg) = bg_statement bg"
  by (simp_all add: say_def split: sum.splits)

lemma beat_pass_cases:
  obtains "bg_seq (beat_pass cr codec sk gid epoch ev bg) = bg_seq bg"
      "bg_said (beat_pass cr codec sk gid epoch ev bg) = bg_said bg"
  | beat where "bg_seq (beat_pass cr codec sk gid epoch ev bg) = bg_seq bg + 1"
      "bg_said (beat_pass cr codec sk gid epoch ev bg) = Some beat" "hb_epoch beat = epoch"
      "hb_seq beat = bg_seq bg + 1" "\<not> hb_leaving beat"
  by (cases "ev_address ev"; cases "state_holdings (ev_published ev) (ev_held ev) (ev_changed_at ev) (ev_now ev)
      (bg_statement bg)"; cases "fst (state_holdings (ev_published ev) (ev_held ev) (ev_changed_at ev) (ev_now ev)
      (bg_statement bg))") (auto simp: beat_pass_def Let_def)

lemma beats_numbered:
  assumes "beats_of cr codec sk gid epoch bs bg" and "length bs < 2 ^ 64"
  shows "unat (bg_seq bg) = length bs \<and> bg_said bg = (if bs = [] then None else Some (last bs)) \<and>
    (\<forall>b \<in> set bs. hb_epoch b = epoch \<and> \<not> hb_leaving b \<and> unat (hb_seq b) \<le> length bs) \<and>
    (bs \<noteq> [] \<longrightarrow> unat (hb_seq (last bs)) = length bs)"
  using assms
proof (induction rule: beats_of.induct)
  case (Passes bs bg bg' ev bs')
  show ?case
  proof (cases rule: beat_pass_cases [of cr codec sk gid epoch ev bg])
    case 1
    with Passes show ?thesis by simp
  next
    case (2 beat)
    have bs': "bs' = bs @ [beat]" using Passes.hyps(2,3) 2 by simp
    then have "length bs + 1 < 2 ^ 64" using Passes.prems by simp
    moreover have IH: "unat (bg_seq bg) = length bs"
      "\<forall>b \<in> set bs. hb_epoch b = epoch \<and> \<not> hb_leaving b \<and> unat (hb_seq b) \<le> length bs"
      using Passes.IH Passes.prems bs' by simp_all
    ultimately have "unat (bg_seq bg + 1) = length bs + 1"
      using unat_add_lem [of "bg_seq bg" 1] by simp
    with IH 2 Passes.hyps(2) bs' show ?thesis by (auto simp: le_Suc_eq)
  qed
qed (simp add: beating_new_def)

text \<open>What is held of the member before and after the goodbye was heard.\<close>

definition before_goodbye :: "'sig heartbeat \<Rightarrow> online \<Rightarrow> bool" where
  "before_goodbye g on \<longleftrightarrow> (\<forall>h. bt_get (on_heard on) (sa_member (hb_address g)) = Some h \<longrightarrow>
     ht_epoch h = hb_epoch g \<longrightarrow> ht_seq h < hb_seq g \<or> ht_seq h = hb_seq g \<and> ht_until h = None)"

definition after_goodbye :: "'sig heartbeat \<Rightarrow> online \<Rightarrow> bool" where
  "after_goodbye g on \<longleftrightarrow> bt_get (on_heard on) (sa_member (hb_address g)) =
     Some \<lparr>ht_epoch = hb_epoch g, ht_seq = hb_seq g, ht_until = None\<rparr>"

text \<open>Beats of the run that says \<open>g\<close> in the end, and anybody else's.\<close>

definition of_its_run :: "'sig heartbeat \<Rightarrow> 'sig heartbeat \<Rightarrow> bool" where
  "of_its_run g b \<longleftrightarrow> b = g \<or> hb_epoch b = hb_epoch g \<and> hb_seq b < hb_seq g"

lemma before_goodbye_step:
  assumes "before_goodbye g on" and "hb_leaving g"
    and "\<And>b t. ev = Beat b t \<Longrightarrow> sa_member (hb_address b) = sa_member (hb_address g) \<Longrightarrow>
      hb_epoch b = hb_epoch g \<Longrightarrow> of_its_run g b"
  shows "before_goodbye g (fst (presence_step ev (on, members)))"
proof (cases ev)
  case (Beat b t)
  with assms show ?thesis
    by (auto simp: before_goodbye_def online_heard_def of_its_run_def Let_def split: option.splits if_splits)
next
  case (Timer t)
  with assms(1) show ?thesis by (auto simp: before_goodbye_def expire_def)
next
  case (Members ms)
  with assms(1) show ?thesis
    by (auto simp: before_goodbye_def online_retain_def split: option.splits if_splits)
qed

lemma after_goodbye_step:
  assumes "after_goodbye g on"
    and "\<And>b t. ev = Beat b t \<Longrightarrow> sa_member (hb_address b) = sa_member (hb_address g) \<Longrightarrow> of_its_run g b"
    and "\<And>ms. ev = Members ms \<Longrightarrow> sa_member (hb_address g) \<in> ms"
  shows "after_goodbye g (fst (presence_step ev (on, members)))"
proof (cases ev)
  case (Beat b t)
  show ?thesis
  proof (cases "sa_member (hb_address b) = sa_member (hb_address g)")
    case True
    then have "hb_epoch b = hb_epoch g \<and> hb_seq b \<le> hb_seq g"
      using assms(2) [OF Beat] by (auto simp: of_its_run_def)
    with True assms(1) show ?thesis by (simp add: Beat after_goodbye_def online_heard_def Let_def)
  next
    case False
    with assms(1) show ?thesis by (simp add: Beat after_goodbye_def online_heard_def Let_def)
  qed
next
  case (Timer t)
  with assms(1) show ?thesis by (auto simp: after_goodbye_def expire_def run_out_def)
next
  case (Members ms)
  with assms(1,3) show ?thesis by (auto simp: after_goodbye_def online_retain_def)
qed

lemma presence_step_me: "on_me (fst (presence_step ev (on, members))) = on_me on"
  by (cases ev) (auto simp: online_heard_def expire_def online_retain_def Let_def)

lemma fold_presence_inv:
  assumes "I on" and "\<And>ev on members. ev \<in> set evs \<Longrightarrow> I on \<Longrightarrow> I (fst (presence_step ev (on, members)))"
  shows "I (fst (fold presence_step evs (on, members)))"
  using assms
proof (induction evs arbitrary: on members)
  case (Cons ev evs)
  obtain on' members' where s: "presence_step ev (on, members) = (on', members')" by fastforce
  have "I on'" using Cons.prems(2) [of ev on members] Cons.prems(1) s by simp
  with Cons show ?case by (simp add: s)
qed simp

text \<open>
  A goodbye is final. Take a node that has beaten and then says goodbye, and a listener that has
  heard whatever it has of the beats, in any order, any number of times, with gaps. Once the goodbye is
  heard the member is offline, and late beats of the same run do not bring it back: a goodbye always
  counts past every beat of its run.
\<close>

theorem goodbye_is_final:
  assumes "beats_of cr codec sk gid epoch bs bg" and "length bs + 1 < 2 ^ 64" and "bg_said bg = Some beat"
    and "g = goodbye beat" and "m = sa_member (hb_address g)"
    and "\<And>b t. Beat b t \<in> set evs1 \<Longrightarrow> sa_member (hb_address b) = m \<Longrightarrow> hb_epoch b = epoch \<Longrightarrow> b \<in> set (g # bs)"
    and "fold presence_step evs1 (online_new me, {}) = (on1, members1)" and "m \<in> members1" and "m \<noteq> me"
    and "\<And>b t. Beat b t \<in> set evs2 \<Longrightarrow> sa_member (hb_address b) = m \<Longrightarrow> b \<in> set (g # bs)"
    and "\<And>ms. Members ms \<in> set evs2 \<Longrightarrow> m \<in> ms"
  shows "m \<notin> set (online_members (fst (fold presence_step (evs1 @ Beat g t # evs2) (online_new me, {}))))"
proof -
  note num = beats_numbered [OF assms(1)]
  have bs: "bs \<noteq> []" "beat = last bs" using num assms(2,3) by (auto split: if_splits)
  then have g: "hb_leaving g" "hb_epoch g = epoch" "unat (hb_seq g) = length bs + 1"
    using num assms(2) last_in_set [OF bs(1)] unat_add_lem [of "hb_seq beat" 1]
    by (auto simp: assms(4) goodbye_def)
  have run: "of_its_run g b" if "b \<in> set (g # bs)" for b
    using that num assms(2) g by (auto simp: of_its_run_def word_less_nat_alt)
  have "before_goodbye g (fst (fold presence_step evs1 (online_new me, {})))"
  proof (rule fold_presence_inv)
    show "before_goodbye g (online_new me)" by (simp add: before_goodbye_def online_new_def)
    fix ev on members
    assume "ev \<in> set evs1" "before_goodbye g on"
    then show "before_goodbye g (fst (presence_step ev (on, members)))"
      using before_goodbye_step [of g on ev members] run assms(5,6) g(1,2) by blast
  qed
  then have b: "before_goodbye g on1" by (simp add: assms(7))
  have "on_me (fst (fold presence_step evs1 (online_new me, {}))) = me"
    by (rule fold_presence_inv) (simp_all add: presence_step_me online_new_def)
  then have me: "on_me on1 = me" by (simp add: assms(7))
  have "after_goodbye g (snd (online_heard g t (\<lambda>m. m \<in> members1) on1))"
    using b me assms(5,8,9) g(1)
    by (cases "bt_get (on_heard on1) m") (auto simp: before_goodbye_def after_goodbye_def online_heard_def Let_def)
  then have "after_goodbye g (fst (fold presence_step evs2 (snd (online_heard g t (\<lambda>m. m \<in> members1) on1), members1)))"
  proof (rule fold_presence_inv)
    fix ev on members
    assume "ev \<in> set evs2" "after_goodbye g on"
    then show "after_goodbye g (fst (presence_step ev (on, members)))"
      using after_goodbye_step [of g on ev members] run assms(5,10,11) by blast
  qed
  then show ?thesis
    using assms(5,7) by (simp add: set_online_members after_goodbye_def)
qed

section \<open>Beats come in time\<close>

text \<open>
  The wait of the loop with its jitter: at most a tenth more than the stretched interval, and woken
  earlier only by what came before the beat was due.
\<close>

definition waits :: "duration \<Rightarrow> instant \<Rightarrow> duration \<Rightarrow> woken \<Rightarrow> instant \<Rightarrow> bool" where
  "waits stretched sent jitter w again \<longleftrightarrow> 10 * jitter \<le> 11 * stretched \<and>
     (\<forall>t. w = NeighbourUp t \<or> w = Moved t \<or> w = HoldingsChanged t \<longrightarrow> sent \<le> t \<and> t \<le> sent + jitter) \<and>
     wake_at sent (sent + jitter) w = Some again"

lemma wait_ends:
  assumes "waits stretched sent jitter w again"
  shows "sent \<le> again \<and> again \<le> sent + jitter \<and> 10 * again \<le> 10 * sent + 11 * stretched"
proof -
  have "sent \<le> again \<and> again \<le> sent + jitter" "10 * jitter \<le> 11 * stretched"
    using assms by (cases w; auto simp: waits_def wake_at_def)+
  then show ?thesis by linarith
qed

text \<open>
  A node that beats is not taken for offline although one of its beats is lost: whatever wakes it
  between beats, the second beat after the one heard is out while that one is still believed, with eight
  tenths of an interval to spare for its way. And a change of what it holds prompts a beat no sooner than
  ten seconds after the last, or else the one that was due.
\<close>

theorem one_lost_beat_is_not_missed:
  assumes "interval mod 1000000 = 0" and "members < 50 * (2 ^ 32 - 1)" and "S = stretch interval members"
    and "waits S t0 j1 w1 t1" and "waits S t1 j2 w2 t2"
  shows "10 * t2 + 8 * S \<le> 10 * (t0 + ttl (whole_seconds S)) \<and>
    (\<forall>t. w1 = HoldingsChanged t \<longrightarrow> t0 + CHANGE_FLOOR \<le> t1 \<or> t1 = t0 + j1)"
proof
  have "3 * S \<le> ttl (whole_seconds S)"
    using three_intervals_are_believed [OF assms(1,2)] by (simp add: assms(3))
  then show "10 * t2 + 8 * S \<le> 10 * (t0 + ttl (whole_seconds S))"
    using wait_ends [OF assms(4), THEN conjunct2, THEN conjunct2] wait_ends [OF assms(5), THEN conjunct2, THEN conjunct2]
    unfolding distrib_left by linarith
  show "\<forall>t. w1 = HoldingsChanged t \<longrightarrow> t0 + CHANGE_FLOOR \<le> t1 \<or> t1 = t0 + j1"
    using assms(4) by (auto simp: waits_def wake_at_def)
qed

section \<open>Concrete runs\<close>

definition demo_lib :: "(member_id, member_id, string) beat_lib" where
  "demo_lib = \<lparr>hl_crypto = plain_crypto, hl_encoder = demo_encoder, hl_codec = demo_codec, hl_parse = Some\<rparr>"

definition demo_listener :: "(member_id, string) listener" where
  "demo_listener = snd (listen_turn demo_lib (GroupId 9) 0 (Received [7] {MemberId 1}) (listener_new (MemberId 4)))"

lemma demo_opens: "decode_heartbeat demo_codec [7] = Inr demo_signed"
  "open_heartbeat plain_crypto demo_encoder demo_codec (GroupId 9) demo_signed = Inr demo_beat"
  by (simp_all add: decode_heartbeat_def demo_codec_def HEARTBEAT_MAX_def GOSSIP_MAX_MESSAGE_def open_heartbeat_def
      verify_address_def addr_signing_payload_def demo_encoder_def demo_signed_def demo_beat_def demo_statement_def
      plain_crypto_def heartbeat_payload_def beat_member_def)

lemma demo_hears:
  obtains li' where "hear demo_lib (GroupId 9) (\<lambda>m. m \<in> {MemberId 1}) 0 [7] (listener_new (MemberId 4)) = (Inr None, li')"
    and "li_told li' = [MemberId 1]" and "li_published li' = []"
    and "set (online_members (li_online li')) = {MemberId 1}" and "is_known (li_holders li') (MemberId 1)"
proof -
  have m: "sa_member (hb_address demo_beat) = MemberId 1" "hb_leaving demo_beat = False"
    "hb_holdings demo_beat = \<lparr>hd_count = 0, hd_base = None, hd_added = [], hd_removed = []\<rparr>"
    by (simp_all add: demo_beat_def demo_statement_def)
  obtain on where heard: "online_heard demo_beat 0 (\<lambda>m. m \<in> {MemberId 1}) (online_new (MemberId 4)) = (True, on)"
    by (simp add: online_heard_def online_new_def m Let_def)
  then have "m \<in> set (online_members on) \<longleftrightarrow> m = MemberId 1" for m
    by (auto simp: online_heard_def online_new_def m Let_def set_online_members split: if_splits)
  then have on: "set (online_members on) = {MemberId 1}" by auto
  obtain h where "holders_heard (MemberId 1) (hb_holdings demo_beat) holders_new =
      (\<lparr>hh_fetch = None, hh_changed = True\<rparr>, h)" "is_known h (MemberId 1)"
    by (auto simp: m holders_heard_def holders_new_def heard_anew_def make_known_def restate_def index_shift_def
        is_known_def index_clear_def index_retain_def Let_def)
  then show ?thesis
    using that heard on demo_opens by (simp add: hear_def demo_lib_def listener_new_def m Let_def)
qed

theorem listener_in_step_witness:
  "\<exists>li. listening demo_lib (GroupId 9) (MemberId 4) li \<and> li_published li = online_members (li_online li) \<and>
     MemberId 1 \<in> set (li_published li)"
proof -
  obtain li1 where h: "hear demo_lib (GroupId 9) (\<lambda>m. m \<in> {MemberId 1}) 0 [7] (listener_new (MemberId 4)) = (Inr None, li1)"
    "set (online_members (li_online li1)) = {MemberId 1}" by (rule demo_hears)
  let ?li = "publish_online li1"
  have "listen_turn demo_lib (GroupId 9) 0 (Received [7] {MemberId 1}) (listener_new (MemberId 4)) = (True, ?li)"
    using h by (simp add: listen_turn_def)
  then have reach: "listening demo_lib (GroupId 9) (MemberId 4) ?li" by (rule listening.Turns [OF listening.Starts])
  then show ?thesis using listener_in_step [OF reach] h by auto
qed

theorem changes_are_told_witness:
  "\<exists>li. listen_turn demo_lib (GroupId 9) 0 (Received [7] {MemberId 1}) (listener_new (MemberId 4)) = (True, li) \<and>
     MemberId 1 \<in> set (li_told li)"
proof -
  obtain li1 where h: "hear demo_lib (GroupId 9) (\<lambda>m. m \<in> {MemberId 1}) 0 [7] (listener_new (MemberId 4)) = (Inr None, li1)"
    "set (online_members (li_online li1)) = {MemberId 1}" by (rule demo_hears)
  let ?li = "publish_online li1"
  have turn: "listen_turn demo_lib (GroupId 9) 0 (Received [7] {MemberId 1}) (listener_new (MemberId 4)) = (True, ?li)"
    using h by (simp add: listen_turn_def)
  have "told_of ?li (MemberId 1) \<noteq> told_of (listener_new (MemberId 4)) (MemberId 1)"
    using h by (simp add: told_of_def listener_new_def online_members_def online_new_def bt_empty.rep_eq)
  with turn show ?thesis using changes_are_told [OF listening.Starts] by fastforce
qed

theorem only_signed_beats_count_witness:
  "\<exists>sealed. decode_heartbeat (hl_codec demo_lib) [7] = Inr sealed \<and> beat_member sealed = MemberId 1 \<and>
     sh_signature sealed = MemberId 1"
proof -
  obtain li1 where h: "hear demo_lib (GroupId 9) (\<lambda>m. m \<in> {MemberId 1}) 0 [7] (listener_new (MemberId 4)) = (Inr None, li1)"
    "set (online_members (li_online li1)) = {MemberId 1}" by (rule demo_hears)
  have "holders_ok (li_holders (listener_new (MemberId 4) :: (member_id, string) listener))"
    using listening_ok [OF listening.Starts] by (auto simp: listener_ok_def)
  moreover have "told_of li1 (MemberId 1) \<noteq> told_of (listener_new (MemberId 4)) (MemberId 1)"
    using h by (simp add: told_of_def listener_new_def online_members_def online_new_def bt_empty.rep_eq)
  ultimately show ?thesis
    using only_signed_beats_count [OF h(1), of "MemberId 1"] by (auto simp: demo_lib_def plain_crypto_def)
qed

theorem one_lost_beat_is_not_missed_witness:
  "10 * secs 132 + 8 * secs 60 \<le> 10 * (secs 0 + ttl (whole_seconds (stretch (secs 60) 3)))"
  using one_lost_beat_is_not_missed [of "secs 60" 3 "secs 60" "secs 0" "secs 66" Due "secs 66" "secs 66" Due "secs 132"]
  by (simp add: secs_def stretch_def BUDGET_def MAX_INTERVAL_def waits_def wake_at_def)

definition beat_demo_env :: "member_id beat_env" where
  "beat_demo_env = \<lparr>ev_interval = secs 60, ev_members = 3, ev_address = Some (demo_statement 1 7 2), ev_held = {},
     ev_changed_at = 0, ev_published = None, ev_now = 0\<rparr>"

theorem goodbye_is_final_witness:
  "\<exists>bg beat. beats_of plain_crypto demo_codec (MemberId 1) (GroupId 9) 5 [beat] bg \<and> bg_said bg = Some beat \<and>
     MemberId 1 \<notin> set (online_members (fst (fold presence_step
       ([Members {MemberId 1}, Beat beat 0] @ Beat (goodbye beat) 1 # [Beat beat 2]) (online_new (MemberId 4), {}))))"
proof -
  let ?bg = "beat_pass plain_crypto demo_codec (MemberId 1) (GroupId 9) 5 beat_demo_env (beating_new 0)"
  obtain beat where b: "bg_said ?bg = Some beat" "bg_seq ?bg = 1" "hb_address beat = demo_statement 1 7 2" "hb_epoch beat = 5"
    by (simp add: beat_pass_def beat_demo_env_def state_holdings_def needs_base_def delta_def sorted_items_def
        beating_new_def Let_def)
  have seq0: "bg_seq (beating_new 0 :: member_id beating) = 0" by (simp add: beating_new_def)
  have beats: "beats_of plain_crypto demo_codec (MemberId 1) (GroupId 9) 5 [beat] ?bg"
    by (rule beats_of.Passes [OF beats_of.Starts [where now = 0] refl, where ev = beat_demo_env])
      (use b seq0 in simp)
  let ?g = "goodbye beat"
  have g: "MemberId 1 = sa_member (hb_address ?g)" by (simp add: goodbye_def b demo_statement_def)
  obtain on1 where on1: "fold presence_step [Members {MemberId 1}, Beat beat 0] (online_new (MemberId 4), {}) =
      (on1, {MemberId 1})" by simp
  show ?thesis
    using goodbye_is_final [OF beats _ b(1) refl g _ on1, of "[Beat beat 2]" 1] beats b(1) by auto
qed

end
