(* ===== verification/Gossip.thy ===== *)
theory Gossip
  imports Following
begin

text \<open>
  Announcements on the membership topic (\<open>distlib-consensus/src/gossip.rs\<close>): that the log has moved,
  and where members are. Every announcement of an address that is news to a node makes that node
  announce its own, so the group is followed as a whole to show that it falls silent.
\<close>

section \<open>Whom to reach\<close>

text \<open>The address in the log for a core member, the announced one for anybody else.\<close>

definition reachable_members ::
    "('url set \<Rightarrow> 'url option) \<Rightarrow> ('url \<Rightarrow> string) \<Rightarrow> membership_state \<Rightarrow> member_id \<Rightarrow> ('sig, 'url) directory
      \<Rightarrow> (member_id \<times> node_addr) list" where
  "reachable_members first print ms me d =
     List.map_filter
       (\<lambda>m. map_option (Pair m)
          (case bt_get (ms_core ms) m of Some addr \<Rightarrow> Some addr | None \<Rightarrow> address_of first print d m))
       (filter (\<lambda>m. m \<noteq> me) (allowlist ms))"

text \<open>The topic is the group's identifier itself.\<close>

definition membership_topic :: "group_id \<Rightarrow> 256 word" where
  "membership_topic gid = group_bytes gid"

section \<open>Announcing and hearing\<close>

datatype 'sig announcement = Applied u64 | ReachableAt "'sig signed_address"

text \<open>What a core node announces each time the membership may have changed.\<close>

definition announce_log :: "u64 \<Rightarrow> 'sig announcement option" where
  "announce_log last_applied = (if last_applied > 0 then Some (Applied last_applied) else None)"

text \<open>
  One pass of announcing the node's own address: what is broadcast, and what the heartbeat is told,
  with whether that was news to it.
\<close>

definition announce_address ::
    "('sk, 'sig) crypto \<Rightarrow> addr_encoder \<Rightarrow> 'sk \<Rightarrow> node_addr \<Rightarrow> u64 \<Rightarrow> 'sig signed_address option
      \<Rightarrow> 'sig announcement option \<times> bool \<times> 'sig signed_address option" where
  "announce_address cr enc sk addr at said =
     (if addr_is_empty addr then (None, False, said)
      else case sign_address cr enc sk addr at of
        Inl _ \<Rightarrow> (None, False, said)
      | Inr sealed \<Rightarrow> (Some (ReachableAt sealed), said \<noteq> Some sealed, Some sealed))"

definition LEAST_BETWEEN_ANNOUNCEMENTS :: duration where "LEAST_BETWEEN_ANNOUNCEMENTS = 5 * 1000000000"

definition note_where_a_member_is ::
    "('sk, 'sig) crypto \<Rightarrow> addr_encoder \<Rightarrow> (string \<Rightarrow> 'url option) \<Rightarrow> 'sig signed_address
      \<Rightarrow> ('sig, 'url) directory \<Rightarrow> ('sig, 'url) directory" where
  "note_where_a_member_is cr enc parse sealed d = snd (learn cr enc parse sealed d)"

datatype 'sig topic_event =
    TopicMessage "'sig announcement option"
  | TopicLagged
  | TopicNeighborUp
  | TopicNeighborDown
  | TopicFails

text \<open>
  One event of the topic, a message being \<open>None\<close> if it did not decode: the hint it gives the follow loop,
  the directory, and whether the listener goes on. \<open>followed\<close> is whether anybody still waits for hints.
\<close>

definition gossip_listen ::
    "('sk, 'sig) crypto \<Rightarrow> addr_encoder \<Rightarrow> (string \<Rightarrow> 'url option) \<Rightarrow> bool \<Rightarrow> bool \<Rightarrow> 'sig topic_event
      \<Rightarrow> ('sig, 'url) directory \<Rightarrow> hint option \<times> bool \<times> ('sig, 'url) directory" where
  "gossip_listen cr enc parse core followed ev d =
     (let say = (\<lambda>h. if core then (None, True, d) else if followed then (Some h, True, d) else (None, False, d))
      in case ev of
           TopicMessage (Some (ReachableAt sealed)) \<Rightarrow> (None, True, note_where_a_member_is cr enc parse sealed d)
         | TopicMessage (Some (Applied up_to)) \<Rightarrow> say (Reaches up_to)
         | TopicMessage None \<Rightarrow> (None, True, d)
         | TopicLagged \<Rightarrow> say MayHaveMissed
         | TopicNeighborUp \<Rightarrow> say MayHaveMissed
         | TopicNeighborDown \<Rightarrow> say MayHaveMissed
         | TopicFails \<Rightarrow> (None, False, d))"

section \<open>A group of nodes that announce\<close>

text \<open>
  A node: its directory, the number of addresses learned when it last had a reason to speak (\<open>None\<close>
  before it has spoken at all), and what it last said. The other reason there is, a report by the endpoint
  of its own address, is not among them: the group is followed from when these have been taken.
\<close>

record ('sig, 'url) speaker =
  sp_directory :: "('sig, 'url) directory"
  sp_seen :: "u64 option"
  sp_said :: "'sig signed_address option"

definition has_reason :: "('sig, 'url) speaker \<Rightarrow> bool" where
  "has_reason sp \<longleftrightarrow> sp_seen sp \<noteq> Some (dir_learned (sp_directory sp))"

text \<open>What is outside: keys, addresses that stay as they are, and who the members are.\<close>

record ('sk, 'sig, 'url) gossip_env =
  ge_crypto :: "('sk, 'sig) crypto"
  ge_encoder :: addr_encoder
  ge_parse :: "string \<Rightarrow> 'url option"
  ge_key :: "member_id \<Rightarrow> 'sk"
  ge_addr :: "member_id \<Rightarrow> node_addr"
  ge_members :: "member_id set"

record ('sig, 'url) gossip_net =
  gn_nodes :: "member_id \<Rightarrow> ('sig, 'url) speaker"
  gn_air :: "'sig signed_address set"

text \<open>A reason is taken up: the pass of the loop, and what was learned counts as seen.\<close>

definition speak ::
    "('sk, 'sig, 'url) gossip_env \<Rightarrow> u64 \<Rightarrow> member_id \<Rightarrow> ('sig, 'url) gossip_net \<Rightarrow> ('sig, 'url) gossip_net" where
  "speak ge at n net =
     (let sp = gn_nodes net n
      in case announce_address (ge_crypto ge) (ge_encoder ge) (ge_key ge n) (ge_addr ge n) at (sp_said sp) of
           (out, news, said) \<Rightarrow>
             net\<lparr>gn_nodes := (gn_nodes net)(n := sp\<lparr>sp_seen := Some (dir_learned (sp_directory sp)), sp_said := said\<rparr>),
                 gn_air := (case out of Some (ReachableAt s) \<Rightarrow> insert s (gn_air net) | _ \<Rightarrow> gn_air net)\<rparr>)"

definition hear_at ::
    "('sk, 'sig, 'url) gossip_env \<Rightarrow> 'sig signed_address \<Rightarrow> member_id \<Rightarrow> ('sig, 'url) gossip_net \<Rightarrow> ('sig, 'url) gossip_net" where
  "hear_at ge s n net =
     (let sp = gn_nodes net n
      in case gossip_listen (ge_crypto ge) (ge_encoder ge) (ge_parse ge) False True (TopicMessage (Some (ReachableAt s)))
             (sp_directory sp) of
           (_, _, d) \<Rightarrow> net\<lparr>gn_nodes := (gn_nodes net)(n := sp\<lparr>sp_directory := d\<rparr>)\<rparr>)"

text \<open>
  Steps: a member with a reason speaks, at whatever position its log has; a member hears something that
  is in the air, again if it likes; somebody puts a statement into the air that does not verify.
\<close>

datatype gossip_act = Speak member_id | Hear member_id | Forge

inductive gossip_step ::
    "('sk, 'sig, 'url) gossip_env \<Rightarrow> gossip_act \<Rightarrow> ('sig, 'url) gossip_net \<Rightarrow> ('sig, 'url) gossip_net \<Rightarrow> bool" for ge where
  speaks: "n \<in> ge_members ge \<Longrightarrow> has_reason (gn_nodes net n) \<Longrightarrow> gossip_step ge (Speak n) net (speak ge at n net)"
| hears: "n \<in> ge_members ge \<Longrightarrow> s \<in> gn_air net \<Longrightarrow> gossip_step ge (Hear n) net (hear_at ge s n net)"
| forges: "verify_address (ge_crypto ge) (ge_encoder ge) s \<noteq> Inr () \<Longrightarrow>
    gossip_step ge Forge net (net\<lparr>gn_air := insert s (gn_air net)\<rparr>)"

inductive gossip_run ::
    "('sk, 'sig, 'url) gossip_env \<Rightarrow> gossip_act list \<Rightarrow> ('sig, 'url) gossip_net \<Rightarrow> ('sig, 'url) gossip_net \<Rightarrow> bool" for ge where
  over: "gossip_run ge [] net net"
| more: "gossip_run ge acts net net' \<Longrightarrow> gossip_step ge act net' net'' \<Longrightarrow> gossip_run ge (acts @ [act]) net net''"

inductive_cases gossip_stepE [elim!]: "gossip_step ge act net net'"

text \<open>What verifies is what the member itself said, of the address it has.\<close>

definition truthful :: "('sk, 'sig, 'url) gossip_env \<Rightarrow> 'sig signed_address \<Rightarrow> bool" where
  "truthful ge s \<longleftrightarrow> (verify_address (ge_crypto ge) (ge_encoder ge) s = Inr () \<longrightarrow>
     sa_member s \<in> ge_members ge \<and> sa_addr s = ge_addr ge (sa_member s))"

definition gossip_ok :: "('sk, 'sig, 'url) gossip_env \<Rightarrow> ('sig, 'url) gossip_net \<Rightarrow> bool" where
  "gossip_ok ge net \<longleftrightarrow> (\<forall>s \<in> gn_air net. truthful ge s)"

definition gossip_env_ok :: "('sk, 'sig, 'url) gossip_env \<Rightarrow> bool" where
  "gossip_env_ok ge \<longleftrightarrow> finite (ge_members ge) \<and> (\<forall>n \<in> ge_members ge. public_of (ge_crypto ge) (ge_key ge n) = n)"

text \<open>Whom a node does not know to be where it is, and who has a reason to speak.\<close>

definition unlearned :: "('sk, 'sig, 'url) gossip_env \<Rightarrow> ('sig, 'url) gossip_net \<Rightarrow> (member_id \<times> member_id) set" where
  "unlearned ge net = {(n, m) \<in> ge_members ge \<times> ge_members ge.
     bt_get (dir_lookup (sp_directory (gn_nodes net n))) m \<noteq> to_endpoint_addr (ge_parse ge) (ge_addr ge m) m}"

definition reasons :: "('sk, 'sig, 'url) gossip_env \<Rightarrow> ('sig, 'url) gossip_net \<Rightarrow> member_id set" where
  "reasons ge net = {n \<in> ge_members ge. has_reason (gn_nodes net n)}"

definition left_to_say :: "('sk, 'sig, 'url) gossip_env \<Rightarrow> ('sig, 'url) gossip_net \<Rightarrow> nat" where
  "left_to_say ge net = 2 * card (unlearned ge net) + card (reasons ge net)"

lemma truthful_speaks:
  assumes "gossip_env_ok ge" and "gossip_ok ge net" and "n \<in> ge_members ge"
  shows "gossip_ok ge (speak ge at n net)"
proof -
  have "sa_member s = n \<and> sa_addr s = ge_addr ge n" if "sign_address (ge_crypto ge) (ge_encoder ge) (ge_key ge n) (ge_addr ge n) at = Inr s" for s
    using that assms(1,3) by (auto simp: sign_address_def gossip_env_ok_def Let_def split: sum.splits)
  then show ?thesis
    using assms by (auto simp: gossip_ok_def speak_def announce_address_def truthful_def Let_def split: sum.splits)
qed

lemma learn_effect:
  assumes "truthful ge s" and "d' = snd (learn (ge_crypto ge) (ge_encoder ge) (ge_parse ge) s d)"
  obtains "dir_lookup d' = dir_lookup d" "dir_learned d' = dir_learned d"
  | ea where "sa_member s \<in> ge_members ge"
      "to_endpoint_addr (ge_parse ge) (ge_addr ge (sa_member s)) (sa_member s) = Some ea"
      "bt_get (dir_lookup d) (sa_member s) \<noteq> Some ea"
      "\<And>m. bt_get (dir_lookup d') m = (if m = sa_member s then Some ea else bt_get (dir_lookup d) m)"
proof (cases "dir_lookup d' = dir_lookup d \<and> dir_learned d' = dir_learned d")
  case False
  then have "\<exists>addr ea. addr_of (ge_crypto ge) (ge_encoder ge) s = Inr addr \<and>
      to_endpoint_addr (ge_parse ge) addr (sa_member s) = Some ea \<and>
      bt_get (dir_lookup d) (sa_member s) \<noteq> Some ea \<and>
      dir_lookup d' = add_endpoint_info ea (bt_remove (sa_member s) (dir_lookup d))"
    unfolding assms(2) learn_def Let_def by (auto split: sum.splits option.splits if_splits)
  then obtain addr ea where a: "addr_of (ge_crypto ge) (ge_encoder ge) s = Inr addr"
    "to_endpoint_addr (ge_parse ge) addr (sa_member s) = Some ea"
    "bt_get (dir_lookup d) (sa_member s) \<noteq> Some ea"
    "dir_lookup d' = add_endpoint_info ea (bt_remove (sa_member s) (dir_lookup d))" by blast
  have "verify_address (ge_crypto ge) (ge_encoder ge) s = Inr ()" "addr = sa_addr s"
    using a(1) by (auto simp: addr_of_def split: sum.splits)
  with assms(1) have "sa_member s \<in> ge_members ge" "addr = ge_addr ge (sa_member s)" by (auto simp: truthful_def)
  with that(2) a to_endpoint_addr_id [OF a(2)] show ?thesis by (simp add: add_endpoint_info_def)
qed (use that(1) in blast)

lemma hear_at_simps:
  "gn_air (hear_at ge s n net) = gn_air net"
  "gn_nodes (hear_at ge s n net) = (gn_nodes net)(n := (gn_nodes net n)\<lparr>sp_directory :=
     snd (learn (ge_crypto ge) (ge_encoder ge) (ge_parse ge) s (sp_directory (gn_nodes net n)))\<rparr>)"
  by (simp_all add: hear_at_def gossip_listen_def note_where_a_member_is_def Let_def)

lemma finite_left:
  assumes "gossip_env_ok ge"
  shows "finite (unlearned ge net)" and "finite (reasons ge net)"
proof -
  have "unlearned ge net \<subseteq> ge_members ge \<times> ge_members ge" "finite (ge_members ge)"
    using assms by (auto simp: unlearned_def gossip_env_ok_def)
  then show "finite (unlearned ge net)" by (meson finite_SigmaI finite_subset)
  show "finite (reasons ge net)" using assms by (simp add: reasons_def gossip_env_ok_def)
qed

lemma hearing_leaves_less:
  assumes "gossip_env_ok ge" and "truthful ge s" and "n \<in> ge_members ge"
  shows "left_to_say ge (hear_at ge s n net) \<le> left_to_say ge net"
proof -
  let ?net = "hear_at ge s n net" and ?d = "sp_directory (gn_nodes net n)"
  define d' where "d' = snd (learn (ge_crypto ge) (ge_encoder ge) (ge_parse ge) s ?d)"
  have nodes: "gn_nodes ?net = (gn_nodes net)(n := (gn_nodes net n)\<lparr>sp_directory := d'\<rparr>)"
    by (simp add: hear_at_simps d'_def)
  show ?thesis
  proof (cases rule: learn_effect [OF assms(2) d'_def])
    case 1
    then have "unlearned ge ?net = unlearned ge net" "reasons ge ?net = reasons ge net"
      by (auto simp: unlearned_def reasons_def has_reason_def nodes split: if_splits)
    then show ?thesis by (simp add: left_to_say_def)
  next
    case (2 ea)
    let ?p = "(n, sa_member s)"
    have "unlearned ge ?net = unlearned ge net - {?p}"
      using 2(2,4) by (auto simp: unlearned_def nodes split: if_splits)
    moreover have "?p \<in> unlearned ge net" using 2(1-3) assms(3) by (auto simp: unlearned_def)
    ultimately have less: "card (unlearned ge ?net) + 1 = card (unlearned ge net)"
      using finite_left(1) [OF assms(1), of net] by (metis Suc_eq_plus1 card_Suc_Diff1)
    have "reasons ge ?net \<subseteq> insert n (reasons ge net)" by (auto simp: reasons_def nodes split: if_splits)
    then have "card (reasons ge ?net) \<le> card (reasons ge net) + 1"
      using finite_left(2) [OF assms(1), of net]
      by (metis Suc_eq_plus1 card_insert_le_m1 card_mono card_insert_if finite_insert le_SucI)
    with less show ?thesis by (simp add: left_to_say_def)
  qed
qed

lemma speaking_leaves_less:
  assumes "gossip_env_ok ge" and "n \<in> ge_members ge" and "has_reason (gn_nodes net n)"
  shows "left_to_say ge (speak ge at n net) + 1 = left_to_say ge net"
proof -
  obtain out news said where a: "announce_address (ge_crypto ge) (ge_encoder ge) (ge_key ge n) (ge_addr ge n) at
      (sp_said (gn_nodes net n)) = (out, news, said)" by (metis prod_cases3)
  have nodes: "gn_nodes (speak ge at n net) = (gn_nodes net)(n := (gn_nodes net n)\<lparr>sp_seen :=
      Some (dir_learned (sp_directory (gn_nodes net n))), sp_said := said\<rparr>)"
    by (simp add: speak_def a Let_def)
  have "unlearned ge (speak ge at n net) = unlearned ge net"
    by (auto simp: unlearned_def nodes split: if_splits)
  moreover have "reasons ge (speak ge at n net) = reasons ge net - {n}"
    by (auto simp: reasons_def has_reason_def nodes split: if_splits)
  moreover have "n \<in> reasons ge net" using assms by (simp add: reasons_def)
  ultimately show ?thesis
    using finite_left(2) [OF assms(1), of net] card_Suc_Diff1 [of "reasons ge net" n] by (simp add: left_to_say_def)
qed

fun is_speak :: "gossip_act \<Rightarrow> bool" where
  "is_speak (Speak _) = True"
| "is_speak _ = False"

lemma run_leaves_less:
  assumes "gossip_run ge acts net net'" and "gossip_env_ok ge" and "gossip_ok ge net"
  shows "gossip_ok ge net' \<and> length (filter is_speak acts) + left_to_say ge net' \<le> left_to_say ge net"
  using assms
proof (induction rule: gossip_run.induct)
  case (more acts net net' act net'')
  then have IH: "gossip_ok ge net'" "length (filter is_speak acts) + left_to_say ge net' \<le> left_to_say ge net" by auto
  from more.hyps(2) show ?case
  proof cases
    case (speaks n at)
    then show ?thesis
      using IH truthful_speaks [OF assms(2) IH(1)] speaking_leaves_less [OF assms(2), of n net' at] by simp
  next
    case (hears n s)
    then have "truthful ge s" using IH(1) by (simp add: gossip_ok_def)
    with hears IH hearing_leaves_less [OF assms(2), of s n net'] show ?thesis
      by (simp add: gossip_ok_def hear_at_simps)
  next
    case (forges s)
    have "truthful ge s" using forges(3) by (simp add: truthful_def)
    moreover have "left_to_say ge net'' = left_to_say ge net'"
      by (simp add: forges left_to_say_def unlearned_def reasons_def)
    ultimately show ?thesis using IH forges by (simp add: gossip_ok_def)
  qed
qed simp

lemma left_bound:
  assumes "gossip_env_ok ge"
  shows "left_to_say ge net \<le> 2 * card (ge_members ge) ^ 2 + card (ge_members ge)"
proof -
  have fin: "finite (ge_members ge)" using assms by (simp add: gossip_env_ok_def)
  have "unlearned ge net \<subseteq> ge_members ge \<times> ge_members ge" "reasons ge net \<subseteq> ge_members ge"
    by (auto simp: unlearned_def reasons_def)
  then have "card (unlearned ge net) \<le> card (ge_members ge \<times> ge_members ge)"
    "card (reasons ge net) \<le> card (ge_members ge)"
    using card_mono [OF finite_cartesian_product [OF fin fin]] card_mono [OF fin] by blast+
  then show ?thesis by (simp add: left_to_say_def power2_eq_square card_cartesian_product)
qed

text \<open>
  C31. Announcements die out. Hearing where somebody is makes a member say where it is, and everybody
  hears that. Still, from when addresses stay as they are, endpoints have nothing left to report
  of their own (their first report included) and every statement on its way that verifies is a member's, of its present address (no older statement of a member is on its way any more, and
  nobody outside the group signs for itself), the members speak at most as often as there are addresses left
  to learn, twice over, and members with a reason at the start, however often statements are delivered, in
  whatever order, at whatever positions of the log they are signed, and whatever statements that do not
  verify are sent among them.
\<close>

theorem announcements_die_out:
  assumes "gossip_env_ok ge" and "gossip_ok ge net" and "gossip_run ge acts net net'"
  shows "length (filter is_speak acts) + left_to_say ge net' \<le> left_to_say ge net \<and>
    length (filter is_speak acts) \<le> 2 * card (ge_members ge) ^ 2 + card (ge_members ge) \<and>
    (left_to_say ge net' = 0 \<longrightarrow> (\<forall>n net''. \<not> gossip_step ge (Speak n) net' net''))"
proof (intro conjI impI allI)
  show less: "length (filter is_speak acts) + left_to_say ge net' \<le> left_to_say ge net"
    using run_leaves_less [OF assms(3,1,2)] by blast
  then show "length (filter is_speak acts) \<le> 2 * card (ge_members ge) ^ 2 + card (ge_members ge)"
    using left_bound [OF assms(1), of net] by linarith
  fix n net''
  assume "left_to_say ge net' = 0"
  then have "reasons ge net' = {}" using finite_left(2) [OF assms(1), of net'] by (simp add: left_to_say_def)
  then show "\<not> gossip_step ge (Speak n) net' net''" by (auto simp: reasons_def)
qed

section \<open>A concrete group\<close>

definition two_nodes :: "(member_id, member_id, string) gossip_env" where
  "two_nodes = \<lparr>ge_crypto = plain_crypto, ge_encoder = demo_encoder, ge_parse = Some, ge_key = (\<lambda>m. m),
     ge_addr = (\<lambda>_. with_direct lookup_only (SocketV4 0 7)), ge_members = {MemberId 1, MemberId 2}\<rparr>"

definition quiet_net :: "(member_id, string) gossip_net" where
  "quiet_net = \<lparr>gn_nodes = (\<lambda>_. \<lparr>sp_directory = directory_new, sp_seen = None, sp_said = None\<rparr>), gn_air = {}\<rparr>"

theorem announcements_die_out_witness:
  "\<exists>net. gossip_run two_nodes [Speak (MemberId 1)] quiet_net net \<and>
     1 + left_to_say two_nodes net \<le> left_to_say two_nodes quiet_net"
proof -
  have ok: "gossip_env_ok two_nodes" "gossip_ok two_nodes quiet_net"
    by (simp_all add: gossip_env_ok_def two_nodes_def plain_crypto_def gossip_ok_def quiet_net_def)
  have "gossip_step two_nodes (Speak (MemberId 1)) quiet_net (speak two_nodes 0 (MemberId 1) quiet_net)"
    by (rule gossip_step.speaks) (simp_all add: two_nodes_def quiet_net_def has_reason_def)
  from gossip_run.more [OF gossip_run.over this]
  have run: "gossip_run two_nodes [Speak (MemberId 1)] quiet_net (speak two_nodes 0 (MemberId 1) quiet_net)" by simp
  then show ?thesis using announcements_die_out [OF ok run] by auto
qed

end
