(* ===== verification/Catalogue_Sync.thy ===== *)
theory Catalogue_Sync
  imports Gossip Read_Model
begin

text \<open>
  The tasks that keep the catalogue's document in touch with the group (\<open>distlib-sync/src/catalogue.rs\<close>):
  offering it peers as their addresses are learned, and fetching content nobody offered. What iroh-docs
  and iroh-blobs do with a peer or a hash they are handed is outside; what they are handed is a trace.
\<close>

section \<open>Which document, and whom to sync with\<close>

definition CATALOGUE_TAG :: "u8 list" where "CATALOGUE_TAG = ascii ''distlib.catalogue.v1''"

definition catalogue_key :: "(u8 list \<Rightarrow> 256 word) \<Rightarrow> group_id \<Rightarrow> 256 word" where
  "catalogue_key blake3 gid = blake3 (CATALOGUE_TAG @ be_bytes 32 (group_bytes gid))"

text \<open>What iroh has to be told to print and parse addresses.\<close>

record 'url url_lib =
  ul_first :: "'url set \<Rightarrow> 'url option"
  ul_print :: "'url \<Rightarrow> string"
  ul_parse :: "string \<Rightarrow> 'url option"

definition sync_with ::
    "'url url_lib \<Rightarrow> membership_state \<Rightarrow> member_id \<Rightarrow> ('sig, 'url) directory \<Rightarrow> 'url endpoint_addr list" where
  "sync_with ul ms me d =
     List.map_filter (\<lambda>(m, addr). to_endpoint_addr (ul_parse ul) addr m)
       (reachable_members (ul_first ul) (ul_print ul) ms me d)"

section \<open>Offering peers\<close>

definition BACKSTOP :: duration where "BACKSTOP = 600 * 1000000000"
definition LEAST_BETWEEN_OFFERS :: duration where "LEAST_BETWEEN_OFFERS = 2 * 1000000000"
definition SETTLE :: duration where "SETTLE = 1000000000"

text \<open>What was handed over; \<open>of_handed\<close> is every offer made, latest last.\<close>

record 'url offering =
  of_still_learning :: bool
  of_offered :: "(member_id, 'url endpoint_addr) btmap"
  of_last_full :: instant
  of_handed :: "'url endpoint_addr list list"

definition offering_new :: "instant \<Rightarrow> 'url offering" where
  "offering_new now = \<lparr>of_still_learning = True, of_offered = bt_empty, of_last_full = now, of_handed = []\<rparr>"

text \<open>Which arm of the wait fired; for a channel, whether its sender is still there.\<close>

datatype offer_wake = ShutDown | LearnedAddress bool | MembershipMoved bool | BackstopDue

definition offered_peers :: "'url endpoint_addr list \<Rightarrow> (member_id, 'url endpoint_addr) btmap
      \<Rightarrow> (member_id, 'url endpoint_addr) btmap" where
  "offered_peers peers m = fold (\<lambda>p. bt_insert (ea_id p) p) peers m"

text \<open>One round: \<open>None\<close> when the loop ends.\<close>

definition offer_round ::
    "instant \<Rightarrow> offer_wake \<Rightarrow> 'url endpoint_addr list \<Rightarrow> 'url offering \<Rightarrow> 'url offering option" where
  "offer_round now w peers_now st =
     (case w of
        ShutDown \<Rightarrow> None
      | MembershipMoved False \<Rightarrow> None
      | _ \<Rightarrow>
          let st1 = (if w = LearnedAddress False then st\<lparr>of_still_learning := False\<rparr> else st);
              repair = (case w of LearnedAddress _ \<Rightarrow> False | _ \<Rightarrow> True) \<or> of_last_full st1 + BACKSTOP \<le> now;
              news = filter (\<lambda>p. bt_get (of_offered st1) (ea_id p) \<noteq> Some p) peers_now;
              peers = (if repair then peers_now else news);
              st2 = (if repair then st1\<lparr>of_last_full := now, of_offered := offered_peers peers_now bt_empty\<rparr>
                     else st1\<lparr>of_offered := offered_peers news (of_offered st1)\<rparr>)
          in Some (if peers = [] then st2 else st2\<lparr>of_handed := of_handed st2 @ [peers]\<rparr>))"

section \<open>Content nobody offered\<close>

definition FETCH_AGAIN :: duration where "FETCH_AGAIN = 5 * 1000000000"
definition ASK_AGAIN :: duration where "ASK_AGAIN = 300 * 1000000000"
definition FETCH_DEADLINE :: duration where "FETCH_DEADLINE = 20 * 1000000000"

record retry =
  re_at :: instant
  re_waited :: duration

type_synonym unanswered = "(content_hash, retry) btmap"

definition retry_due :: "unanswered \<Rightarrow> content_hash \<Rightarrow> instant \<Rightarrow> bool" where
  "retry_due un h now = (case bt_get un h of None \<Rightarrow> True | Some r \<Rightarrow> re_at r \<le> now)"

definition retry_failed :: "content_hash \<Rightarrow> instant \<Rightarrow> unanswered \<Rightarrow> unanswered" where
  "retry_failed h now un =
     (let waited = (case bt_get un h of None \<Rightarrow> FETCH_AGAIN | Some r \<Rightarrow> min (re_waited r * 2) ASK_AGAIN)
      in bt_insert h \<lparr>re_at = now + waited, re_waited = waited\<rparr> un)"

definition forget_all :: "unanswered \<Rightarrow> unanswered" where
  "forget_all un = bt_empty"

text \<open>The wait for a round: each change of the membership before it is over, or that the log is gone.\<close>

fun wait_for_the_next_round :: "bool list \<Rightarrow> unanswered \<Rightarrow> bool \<times> unanswered" where
  "wait_for_the_next_round [] un = (True, un)"
| "wait_for_the_next_round (changed # rest) un =
     (if changed then wait_for_the_next_round rest (forget_all un) else (False, un))"

text \<open>How a download ends, within its deadline or not.\<close>

datatype download = Downloaded | NobodyHadIt | TimedOut

definition fetch_one :: "download \<Rightarrow> pump \<Rightarrow> bool \<times> pump" where
  "fetch_one result p = (if result = Downloaded then (True, content_landed p) else (False, p))"

definition want_entry :: "document \<Rightarrow> doc_entry \<Rightarrow> content_hash set \<Rightarrow> sync_error + content_hash set" where
  "want_entry d e wanted =
     (if de_len e = 0 \<or> de_hash e \<in> wanted then Inr wanted
      else case dc_status d (de_hash e) of
        None \<Rightarrow> Inl (ContentFailed ''asked whether an entry's content is here'')
      | Some st \<Rightarrow> Inr (if is_complete st then wanted else insert (de_hash e) wanted))"

definition content_not_here :: "document \<Rightarrow> sync_error + content_hash set" where
  "content_not_here d =
     (case dc_all d [] of
        None \<Rightarrow> Inl (Docs ''read from'')
      | Some es \<Rightarrow> on_stream (want_entry d) es {})"

text \<open>
  The loop over what is wanted: how each download ends and when it has is up to the outside. What is
  asked for is recorded.
\<close>

record fetch_sweep =
  sweep_unanswered :: unanswered
  sweep_pump :: pump
  sweep_asked :: "content_hash list"

fun ask_each ::
    "(content_hash \<Rightarrow> download \<times> instant) \<Rightarrow> instant \<Rightarrow> content_hash list \<Rightarrow> fetch_sweep \<Rightarrow> fetch_sweep" where
  "ask_each ended now [] sw = sw"
| "ask_each ended now (h # hs) sw =
     ask_each ended now hs
       (if \<not> retry_due (sweep_unanswered sw) h now then sw
        else case fetch_one (fst (ended h)) (sweep_pump sw) of
               (here, p) \<Rightarrow>
                 let sw1 = sw\<lparr>sweep_pump := p, sweep_asked := sweep_asked sw @ [h]\<rparr>
                 in if here then sw1
                    else sw1\<lparr>sweep_unanswered := retry_failed h (snd (ended h)) (sweep_unanswered sw1)\<rparr>)"

text \<open>
  One round, after its wait: nothing without providers, nothing if the document cannot be read. The
  wanted hashes are walked in an order of the outside's.
\<close>

definition fetch_round ::
    "'p list \<Rightarrow> document \<Rightarrow> (content_hash set \<Rightarrow> content_hash list) \<Rightarrow> (content_hash \<Rightarrow> download \<times> instant)
      \<Rightarrow> instant \<Rightarrow> fetch_sweep \<Rightarrow> fetch_sweep" where
  "fetch_round providers d order ended now sw =
     (if providers = [] then sw
      else case content_not_here d of
        Inl _ \<Rightarrow> sw
      | Inr wanted \<Rightarrow>
          ask_each ended now (order wanted)
            (sw\<lparr>sweep_unanswered := bt_retain (\<lambda>h _. h \<in> wanted) (sweep_unanswered sw)\<rparr>))"

definition fetch_content_nobody_offered ::
    "bool list \<Rightarrow> 'p list \<Rightarrow> document \<Rightarrow> (content_hash set \<Rightarrow> content_hash list)
      \<Rightarrow> (content_hash \<Rightarrow> download \<times> instant) \<Rightarrow> instant \<Rightarrow> fetch_sweep \<Rightarrow> fetch_sweep option" where
  "fetch_content_nobody_offered moves providers d order ended now sw =
     (case wait_for_the_next_round moves (sweep_unanswered sw) of
        (False, _) \<Rightarrow> None
      | (True, un) \<Rightarrow> Some (fetch_round providers d order ended now (sw\<lparr>sweep_unanswered := un\<rparr>)))"

section \<open>Everybody reachable is offered\<close>

inductive offers :: "instant \<Rightarrow> instant \<Rightarrow> 'url endpoint_addr list \<Rightarrow> 'url offering \<Rightarrow> bool" for start where
  Opens: "offers start start [] (offering_new start)"
| Rounds: "offers start now peers st \<Longrightarrow> now \<le> now' \<Longrightarrow> distinct (map ea_id peers') \<Longrightarrow>
    (w = BackstopDue \<longrightarrow> of_last_full st + BACKSTOP \<le> now') \<Longrightarrow>
    offer_round now' w peers' st = Some st' \<Longrightarrow> offers start now' peers' st'"

lemma offered_peers_get:
  assumes "distinct (map ea_id ps)"
  shows "bt_get (offered_peers ps m) k = (case List.find (\<lambda>p. ea_id p = k) ps of Some p \<Rightarrow> Some p | None \<Rightarrow> bt_get m k)"
  using assms
proof (induction ps arbitrary: m)
  case (Cons p ps)
  have "List.find (\<lambda>q. ea_id q = k) ps = None" if "ea_id p = k"
    using Cons.prems that unfolding find_None_iff by (metis distinct.simps(2) image_eqI list.simps(9) set_map)
  with Cons show ?case by (auto simp: offered_peers_def split: option.splits)
qed (simp add: offered_peers_def)

lemma offered_peers_mem:
  assumes "distinct (map ea_id ps)" and "p \<in> set ps"
  shows "bt_get (offered_peers ps m) (ea_id p) = Some p"
proof -
  obtain q where "List.find (\<lambda>q. ea_id q = ea_id p) ps = Some q"
    using assms(2) by (cases "List.find (\<lambda>q. ea_id q = ea_id p) ps") (auto simp: find_None_iff)
  moreover from this have "q = p" using assms
    by (auto simp: find_Some_iff distinct_conv_nth in_set_conv_nth)
  ultimately show ?thesis by (simp add: offered_peers_get [OF assms(1)])
qed

lemma offered_peers_new:
  assumes "distinct (map ea_id ps)" and "bt_get (offered_peers ps m) k = Some p"
  shows "p \<in> set ps \<or> bt_get m k = Some p"
  using assms(2) by (auto simp: offered_peers_get [OF assms(1)] find_Some_iff split: option.splits)

text \<open>
  The document is offered to everybody this node can reach: after each round, every peer there is an
  address for has been handed over at the address it has, a peer recorded as offered really was handed
  over, and no more than ten minutes lie between a round and the last time everybody was offered.
\<close>

theorem everybody_reachable_is_offered:
  assumes "offers start now peers st"
  shows "(p \<in> set peers \<longrightarrow> bt_get (of_offered st) (ea_id p) = Some p) \<and>
    (bt_get (of_offered st) k = Some p \<longrightarrow> (\<exists>ps \<in> set (of_handed st). p \<in> set ps)) \<and>
    of_last_full st \<le> now \<and> now < of_last_full st + BACKSTOP"
  using assms
proof (induction arbitrary: p k rule: offers.induct)
  case Opens
  then show ?case by (simp add: offering_new_def BACKSTOP_def)
next
  case (Rounds now peers st now' peers' w st')
  define st1 where "st1 = (if w = LearnedAddress False then st\<lparr>of_still_learning := False\<rparr> else st)"
  have st1: "of_offered st1 = of_offered st" "of_last_full st1 = of_last_full st" "of_handed st1 = of_handed st"
    by (simp_all add: st1_def)
  define repair where "repair \<longleftrightarrow> (case w of LearnedAddress _ \<Rightarrow> False | _ \<Rightarrow> True) \<or> of_last_full st + BACKSTOP \<le> now'"
  define news where "news = filter (\<lambda>p. bt_get (of_offered st) (ea_id p) \<noteq> Some p) peers'"
  have news: "distinct (map ea_id news)" using Rounds.hyps(3) by (simp add: news_def distinct_map_filter)
  have st': "of_offered st' = (if repair then offered_peers peers' bt_empty else offered_peers news (of_offered st))"
    "of_last_full st' = (if repair then now' else of_last_full st)"
    "of_handed st' = of_handed st @ (if (if repair then peers' else news) = [] then [] else [if repair then peers' else news])"
    using Rounds.hyps(5)
    by (auto simp: offer_round_def Let_def st1_def [symmetric] st1 repair_def news_def
        split: offer_wake.splits bool.splits)
  show ?case
  proof (cases repair)
    case True
    then show ?thesis
      using st' offered_peers_mem [OF Rounds.hyps(3)] offered_peers_new [OF Rounds.hyps(3), of bt_empty]
      by (fastforce simp: BACKSTOP_def)
  next
    case False
    have "bt_get (offered_peers news (of_offered st)) (ea_id p) = Some p" if "p \<in> set peers'" for p
    proof (cases "p \<in> set news")
      case True
      then show ?thesis by (rule offered_peers_mem [OF news])
    next
      case False
      then have held: "bt_get (of_offered st) (ea_id p) = Some p" using that by (simp add: news_def)
      have "List.find (\<lambda>q. ea_id q = ea_id p) news = None"
        using Rounds.hyps(3) that False by (auto simp: news_def find_None_iff distinct_map dest: inj_onD)
      with held show ?thesis by (simp add: offered_peers_get [OF news])
    qed
    moreover have "\<exists>ps \<in> set (of_handed st'). p \<in> set ps" if "bt_get (offered_peers news (of_offered st)) k = Some p" for p k
      using offered_peers_new [OF news that] Rounds.IH [of p k] False st'(3) by (cases news) auto
    moreover have "of_last_full st \<le> now'" using Rounds.IH [of p k] Rounds.hyps(2) by linarith
    ultimately show ?thesis
      using False st' by (auto simp: repair_def)
  qed
qed

section \<open>Waits double, up to five minutes\<close>

fun failing_at :: "content_hash \<Rightarrow> instant list \<Rightarrow> unanswered \<Rightarrow> unanswered" where
  "failing_at h [] un = un"
| "failing_at h (t # ts) un = failing_at h ts (retry_failed h t un)"

text \<open>
  A hash nobody could serve waits five seconds the first time and twice as long each time after,
  never more than five minutes; until then it is not asked about, and from then on it is. A change of the
  membership makes it, and every other, due at once.
\<close>

theorem waits_double_up_to_five_minutes:
  assumes "bt_get un h = None"
  shows "bt_get (failing_at h (ts @ [t]) un) h =
      Some \<lparr>re_at = t + min (FETCH_AGAIN * 2 ^ length ts) ASK_AGAIN,
        re_waited = min (FETCH_AGAIN * 2 ^ length ts) ASK_AGAIN\<rparr> \<and>
    (retry_due (failing_at h (ts @ [t]) un) h now \<longleftrightarrow> t + min (FETCH_AGAIN * 2 ^ length ts) ASK_AGAIN \<le> now) \<and>
    (h' \<noteq> h \<longrightarrow> retry_due (failing_at h (ts @ [t]) un) h' now = retry_due un h' now) \<and>
    (moves \<noteq> [] \<and> set moves = {True} \<longrightarrow>
       retry_due (snd (wait_for_the_next_round moves (failing_at h (ts @ [t]) un))) h now)"
proof (intro conjI impI)
  let ?un = "failing_at h (ts @ [t]) un"
  have one_more: "failing_at h (us @ [u]) un = retry_failed h u (failing_at h us un)" for us u
    by (induction us arbitrary: un) simp_all
  have all: "bt_get (failing_at h (us @ [u]) un) h =
      Some \<lparr>re_at = u + min (FETCH_AGAIN * 2 ^ length us) ASK_AGAIN,
        re_waited = min (FETCH_AGAIN * 2 ^ length us) ASK_AGAIN\<rparr>" for us u
  proof (induction us arbitrary: u rule: rev_induct)
    case Nil
    show ?case using assms by (simp add: retry_failed_def FETCH_AGAIN_def ASK_AGAIN_def)
  next
    case (snoc v vs)
    have "min (min (FETCH_AGAIN * 2 ^ length vs) ASK_AGAIN * 2) ASK_AGAIN = min (FETCH_AGAIN * 2 ^ Suc (length vs)) ASK_AGAIN"
      by (simp add: min_def)
    then show ?case
      unfolding one_more [of "vs @ [v]"]
      by (simp add: retry_failed_def snoc.IH Let_def)
  qed
  show "bt_get ?un h = Some \<lparr>re_at = t + min (FETCH_AGAIN * 2 ^ length ts) ASK_AGAIN,
      re_waited = min (FETCH_AGAIN * 2 ^ length ts) ASK_AGAIN\<rparr>" by (rule all)
  then show "retry_due ?un h now \<longleftrightarrow> t + min (FETCH_AGAIN * 2 ^ length ts) ASK_AGAIN \<le> now"
    by (simp add: retry_due_def)
  have others: "h' \<noteq> h \<Longrightarrow> bt_get (failing_at h us un) h' = bt_get un h'" for us
    by (induction us arbitrary: un) (simp_all add: retry_failed_def Let_def)
  show "retry_due ?un h' now = retry_due un h' now" if "h' \<noteq> h"
    using others [OF that] by (simp add: retry_due_def)
  have forgot: "set ms \<subseteq> {True} \<Longrightarrow> un' = bt_empty \<or> ms \<noteq> [] \<Longrightarrow> snd (wait_for_the_next_round ms un') = bt_empty" for ms un'
    by (induction ms arbitrary: un') (auto simp: forget_all_def)
  show "retry_due (snd (wait_for_the_next_round moves ?un)) h now" if "moves \<noteq> [] \<and> set moves = {True}"
    using forgot [of moves ?un] that by (simp add: retry_due_def)
qed

section \<open>The sweep asks for what is missing\<close>

lemma want_entry_Inr:
  assumes "want_entry d e wanted = Inr wanted'"
  shows "wanted' = wanted \<union>
    {h. h = de_hash e \<and> de_len e \<noteq> 0 \<and> (h \<in> wanted \<or> (\<exists>st. dc_status d h = Some st \<and> \<not> is_complete st))}"
  using assms by (auto simp: want_entry_def split: option.splits if_splits)

lemma wanted_stream:
  assumes "on_stream (want_entry d) es wanted = Inr wanted'"
  shows "wanted' = wanted \<union> {h. \<exists>e. Some e \<in> set es \<and> h = de_hash e \<and> de_len e \<noteq> 0 \<and>
    (h \<in> wanted \<or> (\<exists>st. dc_status d h = Some st \<and> \<not> is_complete st))}"
  using assms
proof (induction es arbitrary: wanted)
  case (Cons x es)
  then obtain e wanted1 where x: "x = Some e" "want_entry d e wanted = Inr wanted1"
    "on_stream (want_entry d) es wanted1 = Inr wanted'"
    by (cases x) (auto simp: try_then_def split: sum.splits)
  show ?case using Cons.IH [OF x(3)] want_entry_Inr [OF x(2)] x(1) by auto
qed simp

lemma content_not_here_is:
  assumes "content_not_here d = Inr wanted" and "dc_all d [] = Some es"
  shows "wanted = {de_hash e | e. Some e \<in> set es \<and> de_len e \<noteq> 0 \<and>
    (\<exists>st. dc_status d (de_hash e) = Some st \<and> \<not> is_complete st)}"
proof -
  have "on_stream (want_entry d) es {} = Inr wanted" using assms by (simp add: content_not_here_def)
  from wanted_stream [OF this] show ?thesis by auto
qed

lemma retry_failed_other: "h' \<noteq> h \<Longrightarrow> bt_get (retry_failed h t un) h' = bt_get un h'"
  by (simp add: retry_failed_def Let_def)

lemma retry_failed_soon: "\<exists>r. bt_get (retry_failed h t un) h = Some r \<and> t < re_at r \<and> re_at r \<le> t + ASK_AGAIN"
  if "\<forall>r. bt_get un h = Some r \<longrightarrow> 0 < re_waited r"
  using that by (auto simp: retry_failed_def Let_def FETCH_AGAIN_def ASK_AGAIN_def split: option.splits)

definition waits_positive :: "unanswered \<Rightarrow> bool" where
  "waits_positive un \<longleftrightarrow> (\<forall>h r. bt_get un h = Some r \<longrightarrow> 0 < re_waited r)"

lemma retry_failed_positive: "waits_positive un \<Longrightarrow> waits_positive (retry_failed h t un)"
  by (auto simp: waits_positive_def retry_failed_def Let_def FETCH_AGAIN_def ASK_AGAIN_def split: option.splits if_splits)

lemma ask_each_all:
  assumes "distinct hs" and "waits_positive (sweep_unanswered sw)"
  shows "sweep_asked (ask_each ended now hs sw) =
      sweep_asked sw @ filter (\<lambda>h. retry_due (sweep_unanswered sw) h now) hs \<and>
    (\<forall>h. if h \<in> set hs \<and> retry_due (sweep_unanswered sw) h now \<and> fst (ended h) \<noteq> Downloaded
       then \<exists>r. bt_get (sweep_unanswered (ask_each ended now hs sw)) h = Some r \<and>
         snd (ended h) < re_at r \<and> re_at r \<le> snd (ended h) + ASK_AGAIN
       else bt_get (sweep_unanswered (ask_each ended now hs sw)) h = bt_get (sweep_unanswered sw) h)"
  using assms
proof (induction hs arbitrary: sw)
  case (Cons h hs)
  define sw1 where "sw1 = (if \<not> retry_due (sweep_unanswered sw) h now then sw
      else if fst (ended h) = Downloaded then sw\<lparr>sweep_pump := content_landed (sweep_pump sw), sweep_asked := sweep_asked sw @ [h]\<rparr>
      else sw\<lparr>sweep_asked := sweep_asked sw @ [h],
        sweep_unanswered := retry_failed h (snd (ended h)) (sweep_unanswered sw)\<rparr>)"
  have step: "ask_each ended now (h # hs) sw = ask_each ended now hs sw1"
    by (simp add: sw1_def fetch_one_def Let_def)
  have others: "bt_get (sweep_unanswered sw1) k = bt_get (sweep_unanswered sw) k" if "k \<noteq> h" for k
    using that by (simp add: sw1_def retry_failed_other)
  have same: "retry_due (sweep_unanswered sw1) k now = retry_due (sweep_unanswered sw) k now" if "k \<in> set hs" for k
  proof -
    have "k \<noteq> h" using that Cons.prems(1) by auto
    from others [OF this] show ?thesis by (simp add: retry_due_def)
  qed
  have pos: "waits_positive (sweep_unanswered sw1)" using Cons.prems(2) by (simp add: sw1_def retry_failed_positive)
  have "distinct hs" "h \<notin> set hs" using Cons.prems(1) by auto
  note IH = Cons.IH [OF this(1) pos] and notin = this(2)
  have soon: "\<exists>r. bt_get (retry_failed h t (sweep_unanswered sw)) h = Some r \<and> t < re_at r \<and> re_at r \<le> t + ASK_AGAIN" for t
    using retry_failed_soon [of "sweep_unanswered sw" h] Cons.prems(2) unfolding waits_positive_def by blast
  have asked: "sweep_asked sw1 = sweep_asked sw @ (if retry_due (sweep_unanswered sw) h now then [h] else [])"
    by (simp add: sw1_def)
  show ?case
  proof (intro conjI allI)
    show "sweep_asked (ask_each ended now (h # hs) sw) =
        sweep_asked sw @ filter (\<lambda>h. retry_due (sweep_unanswered sw) h now) (h # hs)"
      unfolding step using IH asked same by (simp cong: filter_cong)
    fix k
    show "if k \<in> set (h # hs) \<and> retry_due (sweep_unanswered sw) k now \<and> fst (ended k) \<noteq> Downloaded
       then \<exists>r. bt_get (sweep_unanswered (ask_each ended now (h # hs) sw)) k = Some r \<and>
         snd (ended k) < re_at r \<and> re_at r \<le> snd (ended k) + ASK_AGAIN
       else bt_get (sweep_unanswered (ask_each ended now (h # hs) sw)) k = bt_get (sweep_unanswered sw) k"
    proof (cases "k = h")
      case True
      have "bt_get (sweep_unanswered (ask_each ended now hs sw1)) h = bt_get (sweep_unanswered sw1) h"
        using IH notin by auto
      moreover have "bt_get (sweep_unanswered sw1) h =
          (if retry_due (sweep_unanswered sw) h now \<and> fst (ended h) \<noteq> Downloaded
           then bt_get (retry_failed h (snd (ended h)) (sweep_unanswered sw)) h else bt_get (sweep_unanswered sw) h)"
        by (simp add: sw1_def)
      ultimately show ?thesis unfolding step True using soon by auto
    next
      case False
      have "retry_due (sweep_unanswered sw1) k now = retry_due (sweep_unanswered sw) k now"
        using others [OF False] by (simp add: retry_due_def)
      then show ?thesis unfolding step using False IH [THEN conjunct2, rule_format, of k] others [OF False] by simp
    qed
  qed
qed simp

text \<open>
  A round of the sweep asks for the content of every entry that has some and is not here, each once,
  unless its wait is not over; so what was never asked for is asked for at once, however much else is
  stranded. What does not come waits no more than five minutes from then, what comes waits for nothing,
  and nothing is remembered of what is no longer wanted.
\<close>

theorem sweep_asks_for_what_is_missing:
  assumes "providers \<noteq> []" and "content_not_here d = Inr wanted"
    and "set (order wanted) = wanted" and "distinct (order wanted)" and "waits_positive (sweep_unanswered sw)"
    and "sw' = fetch_round providers d order ended now sw" and "dc_all d [] = Some es"
  shows "wanted = {de_hash e | e. Some e \<in> set es \<and> de_len e \<noteq> 0 \<and>
      (\<exists>st. dc_status d (de_hash e) = Some st \<and> \<not> is_complete st)} \<and>
    sweep_asked sw' = sweep_asked sw @ filter (\<lambda>h. retry_due (sweep_unanswered sw) h now) (order wanted) \<and>
    (h \<in> wanted \<and> retry_due (sweep_unanswered sw) h now \<and> fst (ended h) \<noteq> Downloaded \<longrightarrow>
       (\<exists>r. bt_get (sweep_unanswered sw') h = Some r \<and> snd (ended h) < re_at r \<and> re_at r \<le> snd (ended h) + ASK_AGAIN)) \<and>
    (h \<notin> wanted \<longrightarrow> bt_get (sweep_unanswered sw') h = None)"
proof -
  define sw1 where "sw1 = sw\<lparr>sweep_unanswered := bt_retain (\<lambda>h _. h \<in> wanted) (sweep_unanswered sw)\<rparr>"
  have sw': "sw' = ask_each ended now (order wanted) sw1" using assms(1,2,6) by (simp add: fetch_round_def sw1_def)
  have same: "bt_get (sweep_unanswered sw1) k = (if k \<in> wanted then bt_get (sweep_unanswered sw) k else None)" for k
    by (simp add: sw1_def split: option.splits)
  then have due: "retry_due (sweep_unanswered sw1) k now = retry_due (sweep_unanswered sw) k now" if "k \<in> wanted" for k
    using that by (simp add: retry_due_def)
  have "waits_positive (sweep_unanswered sw1)" using assms(5) same by (auto simp: waits_positive_def split: if_splits)
  note asked = ask_each_all [OF assms(4) this, of ended now, folded sw']
  have "sweep_asked sw' = sweep_asked sw @ filter (\<lambda>h. retry_due (sweep_unanswered sw) h now) (order wanted)"
    using asked filter_cong [OF refl due, of "order wanted"] assms(3) by (simp add: sw1_def)
  moreover have "\<exists>r. bt_get (sweep_unanswered sw') h = Some r \<and> snd (ended h) < re_at r \<and> re_at r \<le> snd (ended h) + ASK_AGAIN"
    if "h \<in> wanted" "retry_due (sweep_unanswered sw) h now" "fst (ended h) \<noteq> Downloaded"
    using asked [THEN conjunct2, rule_format, of h] that due assms(3) by simp
  moreover have "bt_get (sweep_unanswered sw') h = None" if "h \<notin> wanted"
    using asked [THEN conjunct2, rule_format, of h] that same assms(3) by simp
  moreover note content_not_here_is [OF assms(2,7)]
  ultimately show ?thesis by blast
qed

section \<open>Concrete runs\<close>

definition demo_peer :: "string endpoint_addr" where
  "demo_peer = \<lparr>ea_id = MemberId 2, ea_ips = {SocketV4 0 7}, ea_relays = {}\<rparr>"

theorem everybody_reachable_is_offered_witness:
  "\<exists>st. offers 0 1 [demo_peer] st \<and> bt_get (of_offered st) (MemberId 2) = Some demo_peer \<and>
     (\<exists>ps \<in> set (of_handed st). demo_peer \<in> set ps)"
proof -
  obtain st where "offer_round 1 (LearnedAddress True) [demo_peer] (offering_new 0) = Some st"
    by (simp add: offer_round_def Let_def)
  from offers.Rounds [OF offers.Opens, of 0 1 "[demo_peer]" "LearnedAddress True", OF _ _ _ this]
  have st: "offers 0 1 [demo_peer] st" by simp
  show ?thesis
    using st everybody_reachable_is_offered [OF st, of demo_peer "MemberId 2"] by (auto simp: demo_peer_def)
qed

theorem waits_double_up_to_five_minutes_witness:
  "bt_get (failing_at (ContentHash 1) ([0] @ [10]) bt_empty) (ContentHash 1) =
     Some \<lparr>re_at = 10 + 2 * FETCH_AGAIN, re_waited = 2 * FETCH_AGAIN\<rparr>"
  using waits_double_up_to_five_minutes [of bt_empty "ContentHash 1" "[0]" 10]
  by (simp add: FETCH_AGAIN_def ASK_AGAIN_def)

definition missing_doc :: document where
  "missing_doc = \<lparr>dc_open = True, dc_latest = (\<lambda>_. Some []),
     dc_all = (\<lambda>_. Some [Some \<lparr>de_key = [], de_author = 2, de_timestamp = 1, de_hash = ContentHash 1, de_len = 3\<rparr>]),
     dc_one = (\<lambda>_. Some None), dc_status = (\<lambda>_. Some NotFound), dc_bytes = (\<lambda>_. None)\<rparr>"

theorem sweep_asks_for_what_is_missing_witness:
  "sweep_asked (fetch_round [MemberId 2] missing_doc (\<lambda>_. [ContentHash 1]) (\<lambda>_. (NobodyHadIt, 3)) 0
     \<lparr>sweep_unanswered = bt_empty, sweep_pump = pump_new, sweep_asked = []\<rparr>) = [ContentHash 1]"
proof -
  have wanted: "content_not_here missing_doc = Inr {ContentHash 1}"
    by (simp add: content_not_here_def missing_doc_def want_entry_def)
  have entries: "dc_all missing_doc [] = Some [Some \<lparr>de_key = [], de_author = 2, de_timestamp = 1,
      de_hash = ContentHash 1, de_len = 3\<rparr>]" by (simp add: missing_doc_def)
  note sweep_asks_for_what_is_missing [OF _ wanted _ _ _ refl entries, of "[MemberId 2]" "\<lambda>_. [ContentHash 1]"
      "\<lparr>sweep_unanswered = bt_empty, sweep_pump = pump_new, sweep_asked = []\<rparr>" "\<lambda>_. (NobodyHadIt, 3)" 0]
  moreover have "waits_positive bt_empty" by (simp add: waits_positive_def)
  ultimately show ?thesis by (simp add: retry_due_def)
qed

end
