(* ===== verification/Probes.thy ===== *)
theory Probes
  imports Read_Model Custody_View
begin

text \<open>
  Probes (\<open>distlib-custody/src/probes.rs\<close>): whom a node asks for which chunk, and what it records of how
  that came out. Random numbers are drawn one by one from a list that may hold failures; the answers
  of the store, the blobs and the other services come with each probe.
\<close>

section \<open>Counts, errors and targets\<close>

record probe_counts =
  pc_passed :: nat
  pc_failed :: nat
  pc_skipped :: nat

datatype probed = Passed | Failed | Unreachable

datatype probe_error =
    ProbesOff
  | BelowMinimum
  | Itself
  | StoreFailed
  | NetFailed
  | SyncFailed sync_error
  | NoRandom

record probe_target =
  tg_custodian :: member_id
  tg_item :: item_id
  tg_blob :: content_hash
  tg_chunk :: u64

text \<open>How a probe comes out: whether it connected in time, and whether the chunk arrived in time and verified.\<close>

definition probe_blob :: "bool \<Rightarrow> bool \<Rightarrow> probed" where
  "probe_blob connected arrived_whole =
     (if \<not> connected then Unreachable else if arrived_whole then Passed else Failed)"

definition recorded_target :: "member_id \<Rightarrow> probe_failure \<Rightarrow> probe_target" where
  "recorded_target custodian f =
     \<lparr>tg_custodian = custodian, tg_item = pf_item f, tg_blob = pf_blob f, tg_chunk = pf_chunk f\<rparr>"

text \<open>How many chunks this node's own copy has; \<open>None\<close> at its outermost if the store fails.\<close>

definition CHUNK_BYTES :: u64 where "CHUNK_BYTES = 1024"

definition blob_chunks :: "blob_status option \<Rightarrow> u64 option option" where
  "blob_chunks status =
     map_option (\<lambda>st. case st of
         Complete n \<Rightarrow> Some (max 1 (n div CHUNK_BYTES + (if n mod CHUNK_BYTES = 0 then 0 else 1)))
       | _ \<Rightarrow> None) status"

section \<open>Choosing at random\<close>

text \<open>What is drawn, and the draws that are left; one that fails is \<open>None\<close>.\<close>

type_synonym draws = "u64 option list"

definition draw :: "draws \<Rightarrow> (probe_error + u64) \<times> draws" where
  "draw ds = (case ds of Some n # ds' \<Rightarrow> (Inr n, ds') | None # ds' \<Rightarrow> (Inl NoRandom, ds') | [] \<Rightarrow> (Inl NoRandom, []))"

definition below :: "u64 \<Rightarrow> draws \<Rightarrow> (probe_error + u64) \<times> draws" where
  "below bound ds = (case draw ds of (Inl e, ds') \<Rightarrow> (Inl e, ds') | (Inr n, ds') \<Rightarrow> (Inr (n mod bound), ds'))"

definition pick :: "'a list \<Rightarrow> draws \<Rightarrow> (probe_error + 'a option) \<times> draws" where
  "pick choices ds =
     (if choices = [] then (Inr None, ds)
      else case below (of_nat (length choices)) ds of
        (Inl e, ds') \<Rightarrow> (Inl e, ds')
      | (Inr n, ds') \<Rightarrow> (Inr (if unat n < length choices then Some (choices ! unat n) else None), ds'))"

text \<open>The \<open>?\<close> of a step that draws.\<close>

definition and_draw ::
    "(probe_error + 'a) \<times> draws \<Rightarrow> ('a \<Rightarrow> draws \<Rightarrow> (probe_error + 'b) \<times> draws) \<Rightarrow> (probe_error + 'b) \<times> draws" where
  "and_draw r f = (case r of (Inl e, ds) \<Rightarrow> (Inl e, ds) | (Inr x, ds) \<Rightarrow> f x ds)"

definition SUSPECT_ONE_IN :: u64 where "SUSPECT_ONE_IN = 4"

definition others_failures :: "recorded_failure list \<Rightarrow> member_id \<Rightarrow> duration \<Rightarrow> int \<Rightarrow> probe_target list" where
  "others_failures failures me window now =
     map (\<lambda>r. recorded_target (rf_custodian r) (rf_failure r))
       (filter (\<lambda>r. rf_prober r \<noteq> me \<and> rf_custodian r \<noteq> me \<and> left_in_window r window now \<noteq> None) failures)"

datatype suspect_choice = RecordedSuspect probe_target | LowCoverage member_id

definition suspect_of ::
    "probe_target list \<Rightarrow> probe_target list \<Rightarrow> member_id list \<Rightarrow> (probe_target \<Rightarrow> bool) \<Rightarrow> draws
      \<Rightarrow> (probe_error + suspect_choice option) \<times> draws" where
  "suspect_of own others low_ones announces ds =
     and_draw (pick (filter announces own) ds) (\<lambda>t ds.
       case t of
         Some t \<Rightarrow> (Inr (Some (RecordedSuspect t)), ds)
       | None \<Rightarrow>
           and_draw (pick (filter announces others) ds) (\<lambda>t ds.
             case t of
               Some t \<Rightarrow> (Inr (Some (RecordedSuspect t)), ds)
             | None \<Rightarrow> and_draw (pick low_ones ds) (\<lambda>m ds. (Inr (map_option LowCoverage m), ds))))"

definition may_probe :: "member_id \<Rightarrow> member_id \<Rightarrow> member_id list \<Rightarrow> member_id option \<Rightarrow> bool" where
  "may_probe custodian me announcers only \<longleftrightarrow>
     custodian \<noteq> me \<and> custodian \<in> set announcers \<and> (case only of None \<Rightarrow> True | Some m \<Rightarrow> m = custodian)"

text \<open>
  What a probe is chosen from: who this node is, the group's state, what it holds, who announces what,
  the stored items, the custody group, what the store has of a blob, the recorded
  failures and the members with low coverage. A question that fails is \<open>None\<close> at its outermost.
\<close>

record probe_sources =
  ps_me :: member_id
  ps_membership :: membership_state
  ps_held :: "item_id list"
  ps_holders :: "item_id \<Rightarrow> member_id list"
  ps_item :: "item_id \<Rightarrow> stored_item option option"
  ps_group :: "custody_group option"
  ps_scorer :: scorer
  ps_status :: "content_hash \<Rightarrow> blob_status option"
  ps_failures :: "sync_error + recorded_failure list"
  ps_low :: "member_id list"
  ps_now :: int

definition refusal :: "probe_sources \<Rightarrow> probe_error option" where
  "refusal ps =
     (if \<not> probes (ms_settings (ps_membership ps)) then Some ProbesOff
      else if \<not> pledges_the_minimum (ps_membership ps) (ps_me ps) then Some BelowMinimum
      else None)"

definition content_blobs :: "stored_item \<Rightarrow> content_hash list" where
  "content_blobs st = map fst (filter (\<lambda>(_, f). fr_role f = Content) (bt_entries (it_files (st_item st))))"

definition random_target ::
    "probe_sources \<Rightarrow> member_id option \<Rightarrow> draws \<Rightarrow> (probe_error + probe_target option) \<times> draws" where
  "random_target ps only ds =
     and_draw (pick (filter (\<lambda>i. case only of None \<Rightarrow> True | Some m \<Rightarrow> m \<in> set (ps_holders ps i)) (ps_held ps)) ds)
       (\<lambda>i ds. case i of
          None \<Rightarrow> (Inr None, ds)
        | Some i \<Rightarrow>
            (case ps_item ps i of
               None \<Rightarrow> (Inl StoreFailed, ds)
             | Some None \<Rightarrow> (Inr None, ds)
             | Some (Some st) \<Rightarrow>
                 (case ps_group ps of
                    None \<Rightarrow> (Inr None, ds)
                  | Some g \<Rightarrow>
                      and_draw (pick (filter (\<lambda>c. may_probe c (ps_me ps) (ps_holders ps i) only)
                          (custodians (ps_scorer ps) g (custody_item_of st))) ds)
                        (\<lambda>c ds. and_draw (pick (content_blobs st) ds)
                           (\<lambda>b ds. case (c, b) of
                              (Some c, Some b) \<Rightarrow>
                                (case blob_chunks (ps_status ps b) of
                                   None \<Rightarrow> (Inl NetFailed, ds)
                                 | Some None \<Rightarrow> (Inr None, ds)
                                 | Some (Some n) \<Rightarrow>
                                     and_draw (below n ds) (\<lambda>k ds.
                                       (Inr (Some \<lparr>tg_custodian = c, tg_item = i, tg_blob = b, tg_chunk = k\<rparr>), ds)))
                            | _ \<Rightarrow> (Inr None, ds))))))"

definition announced :: "probe_sources \<Rightarrow> probe_target \<Rightarrow> bool" where
  "announced ps t \<longleftrightarrow> tg_custodian t \<in> set (ps_holders ps (tg_item t))"

type_synonym my_failures = "(member_id, probe_failure) btmap"

definition suspect_target ::
    "probe_sources \<Rightarrow> my_failures \<Rightarrow> draws \<Rightarrow> (probe_error + probe_target option) \<times> draws" where
  "suspect_target ps mine ds =
     (case ps_failures ps of
        Inl e \<Rightarrow> (Inl (SyncFailed e), ds)
      | Inr failures \<Rightarrow>
          and_draw (suspect_of (map (\<lambda>(c, f). recorded_target c f) (bt_entries mine))
              (others_failures failures (ps_me ps) (failure_window (ps_membership ps)) (ps_now ps))
              (ps_low ps) (announced ps) ds)
            (\<lambda>s ds. case s of
               None \<Rightarrow> (Inr None, ds)
             | Some (RecordedSuspect t) \<Rightarrow> (Inr (Some t), ds)
             | Some (LowCoverage m) \<Rightarrow> random_target ps (Some m) ds))"

text \<open>\<open>Iterator::max_by_key\<close>: the last of those with the greatest key.\<close>

fun max_by_written :: "recorded_failure list \<Rightarrow> recorded_failure option" where
  "max_by_written [] = None"
| "max_by_written (r # rs) =
     (case max_by_written rs of
        None \<Rightarrow> Some r
      | Some best \<Rightarrow> if rf_written best < rf_written r then Some r else Some best)"

definition latest_evidence :: "probe_sources \<Rightarrow> member_id \<Rightarrow> probe_error + probe_target option" where
  "latest_evidence ps member =
     (case ps_failures ps of
        Inl e \<Rightarrow> Inl (SyncFailed e)
      | Inr failures \<Rightarrow>
          Inr (case max_by_written (filter (\<lambda>r. rf_custodian r = member \<and>
                 left_in_window r (failure_window (ps_membership ps)) (ps_now ps) \<noteq> None) failures) of
                 None \<Rightarrow> None
               | Some r \<Rightarrow>
                   (let t = recorded_target member (rf_failure r)
                    in if member \<in> set (ps_holders ps (tg_item t)) then Some t else None)))"

section \<open>Making a probe\<close>

text \<open>
  What a node keeps: its own failures, once they were read, its counts, and what it wrote to the
  document.
\<close>

record prober =
  pr_mine :: "my_failures option"
  pr_counts :: probe_counts
  pr_writes :: "doc_write list"

definition my_failures_of :: "recorded_failure list \<Rightarrow> member_id \<Rightarrow> my_failures" where
  "my_failures_of failures me =
     bt_collect (map (\<lambda>r. (rf_custodian r, rf_failure r)) (filter (\<lambda>r. rf_prober r = me) failures))"

definition loaded :: "probe_sources \<Rightarrow> prober \<Rightarrow> (probe_error + my_failures) \<times> prober" where
  "loaded ps pr =
     (case pr_mine pr of
        Some mine \<Rightarrow> (Inr mine, pr)
      | None \<Rightarrow>
          (case ps_failures ps of
             Inl e \<Rightarrow> (Inl (SyncFailed e), pr)
           | Inr failures \<Rightarrow>
               (let mine = my_failures_of failures (ps_me ps) in (Inr mine, pr\<lparr>pr_mine := Some mine\<rparr>))))"

text \<open>Where the document is written to: which keys fail, how values are encoded.\<close>

record probe_doc =
  pd_fails :: "string \<Rightarrow> bool"
  pd_codecs :: codecs
  pd_doc :: document

definition in_a_row_now :: "my_failures \<Rightarrow> member_id \<Rightarrow> u32" where
  "in_a_row_now mine custodian = (case bt_get mine custodian of None \<Rightarrow> 1 | Some before \<Rightarrow> pf_in_a_row before + 1)"

text \<open>
  Recording how a probe came out, on the own failures and the writes to the document. \<open>None\<close> is the panic
  of a failure that does not encode.
\<close>

definition record_outcome ::
    "probe_doc \<Rightarrow> member_id \<Rightarrow> probe_target \<Rightarrow> probed \<Rightarrow> my_failures \<times> doc_write list
      \<Rightarrow> (sync_error, my_failures \<times> doc_write list) outcome option" where
  "record_outcome pd me t result = (\<lambda>(mine, ws).
     let custodian = tg_custodian t
     in case result of
          Unreachable \<Rightarrow> Some (done_with (mine, ws))
        | Passed \<Rightarrow>
            if bt_has mine custodian
            then (case clear_probe_failure (pd_fails pd) (pd_codecs pd) (pd_doc pd) me custodian ws of
                    (r, ws') \<Rightarrow> Some (r, bt_remove custodian mine, ws'))
            else Some (done_with (mine, ws))
        | Failed \<Rightarrow>
            (let failure = \<lparr>pf_item = tg_item t, pf_blob = tg_blob t, pf_chunk = tg_chunk t,
                   pf_in_a_row = in_a_row_now mine custodian\<rparr>
             in map_option (\<lambda>(r, ws').
                    (r, if r = Inr () then bt_insert custodian failure mine else mine, ws'))
                  (record_probe_failure (pd_fails pd) (pd_codecs pd) (pd_doc pd) me custodian failure ws)))"

definition count_probe :: "probed \<Rightarrow> probe_counts \<Rightarrow> probe_counts" where
  "count_probe result c =
     (case result of
        Passed \<Rightarrow> c\<lparr>pc_passed := pc_passed c + 1\<rparr>
      | Failed \<Rightarrow> c\<lparr>pc_failed := pc_failed c + 1\<rparr>
      | Unreachable \<Rightarrow> c\<lparr>pc_skipped := pc_skipped c + 1\<rparr>)"

definition make_probe ::
    "probe_doc \<Rightarrow> (probe_target \<Rightarrow> probed) \<Rightarrow> member_id \<Rightarrow> my_failures \<Rightarrow> probe_target \<Rightarrow> prober \<Rightarrow> ((probe_error + probed) \<times> prober) option" where
  "make_probe pd probe me mine t pr =
     (let result = probe t; pr1 = pr\<lparr>pr_counts := count_probe result (pr_counts pr)\<rparr>
      in map_option (\<lambda>(r, mine', ws).
             (case r of Inl e \<Rightarrow> Inl (SyncFailed e) | Inr _ \<Rightarrow> Inr result, pr1\<lparr>pr_mine := Some mine', pr_writes := ws\<rparr>))
           (record_outcome pd me t result (mine, pr_writes pr)))"

definition choose_target :: "probe_sources \<Rightarrow> my_failures \<Rightarrow> draws \<Rightarrow> probe_error + probe_target option" where
  "choose_target ps mine ds =
     fst (and_draw (and_draw (below SUSPECT_ONE_IN ds)
            (\<lambda>n ds. if n = 0 then suspect_target ps mine ds else (Inr None, ds)))
          (\<lambda>s ds. case s of Some t \<Rightarrow> (Inr (Some t), ds) | None \<Rightarrow> random_target ps None ds))"

definition check_target :: "probe_sources \<Rightarrow> member_id \<Rightarrow> draws \<Rightarrow> probe_error + probe_target option" where
  "check_target ps member ds =
     (case latest_evidence ps member of
        Inl e \<Rightarrow> Inl e
      | Inr (Some t) \<Rightarrow> Inr (Some t)
      | Inr None \<Rightarrow> fst (random_target ps (Some member) ds))"

text \<open>The rest of a probe, once it is known what to ask for.\<close>

definition probe_at ::
    "probe_doc \<Rightarrow> (probe_target \<Rightarrow> probed) \<Rightarrow> member_id \<Rightarrow> my_failures \<Rightarrow> probe_error + probe_target option \<Rightarrow> prober
      \<Rightarrow> ((probe_error + probed option) \<times> prober) option" where
  "probe_at pd probe me mine choice pr =
     (case choice of
        Inl e \<Rightarrow> Some (Inl e, pr)
      | Inr None \<Rightarrow> Some (Inr None, pr)
      | Inr (Some t) \<Rightarrow>
          map_option (map_prod (map_sum (\<lambda>e. e) Some) (\<lambda>p. p)) (make_probe pd probe me mine t pr))"

definition probe_once ::
    "probe_doc \<Rightarrow> (probe_target \<Rightarrow> probed) \<Rightarrow> probe_sources \<Rightarrow> draws \<Rightarrow> prober \<Rightarrow> ((probe_error + probed option) \<times> prober) option" where
  "probe_once pd probe ps ds pr =
     (if refusal ps \<noteq> None then Some (Inr None, pr)
      else case loaded ps pr of
        (Inl e, pr) \<Rightarrow> Some (Inl e, pr)
      | (Inr mine, pr) \<Rightarrow>
          probe_at pd probe (ps_me ps) mine (choose_target ps mine ds) pr)"

definition check_member ::
    "probe_doc \<Rightarrow> (probe_target \<Rightarrow> probed) \<Rightarrow> probe_sources \<Rightarrow> member_id \<Rightarrow> draws \<Rightarrow> prober \<Rightarrow> ((probe_error + probed option) \<times> prober) option" where
  "check_member pd probe ps member ds pr =
     (case refusal ps of
        Some e \<Rightarrow> Some (Inl e, pr)
      | None \<Rightarrow>
          if member = ps_me ps then Some (Inl Itself, pr)
          else case loaded ps pr of
            (Inl e, pr) \<Rightarrow> Some (Inl e, pr)
          | (Inr mine, pr) \<Rightarrow>
              probe_at pd probe (ps_me ps) mine (check_target ps member ds) pr)"

section \<open>Probes are fair\<close>

text \<open>
  A target that may be asked about: recorded by somebody, this node or within the window another, or one
  of its own making, of an item this node holds, a custodian of it, a content file of it and a chunk
  its own copy has.
\<close>

definition recorded_by :: "probe_sources \<Rightarrow> my_failures \<Rightarrow> probe_target \<Rightarrow> bool" where
  "recorded_by ps mine t \<longleftrightarrow> (\<exists>f. t = recorded_target (tg_custodian t) f \<and>
     (bt_get mine (tg_custodian t) = Some f \<or>
      (\<exists>rs r. ps_failures ps = Inr rs \<and> r \<in> set rs \<and> rf_custodian r = tg_custodian t \<and> rf_failure r = f \<and>
         left_in_window r (failure_window (ps_membership ps)) (ps_now ps) \<noteq> None)))"

definition made_up :: "probe_sources \<Rightarrow> probe_target \<Rightarrow> bool" where
  "made_up ps t \<longleftrightarrow> tg_item t \<in> set (ps_held ps) \<and>
     (\<exists>st g n. ps_item ps (tg_item t) = Some (Some st) \<and> ps_group ps = Some g \<and>
        tg_custodian t \<in> set (custodians (ps_scorer ps) g (custody_item_of st)) \<and>
        (\<exists>f. bt_get (it_files (st_item st)) (tg_blob t) = Some f \<and> fr_role f = Content) \<and>
        ps_status ps (tg_blob t) = Some (Complete n) \<and> (tg_chunk t = 0 \<or> unat (tg_chunk t) * 1024 < unat n))"

lemma draw_Inr [simp]: "and_draw r f = (Inr y, ds') \<longleftrightarrow> (\<exists>x ds. r = (Inr x, ds) \<and> f x ds = (Inr y, ds'))"
  by (auto simp: and_draw_def split: prod.splits sum.splits)

lemma draw_Some:
  assumes "and_draw r f = (Inr (Some y), ds')" and "\<And>ds. fst (f None ds) \<noteq> Inr (Some y)"
  obtains x ds where "r = (Inr (Some x), ds)" and "f (Some x) ds = (Inr (Some y), ds')"
proof -
  from assms(1) obtain x' ds where x: "r = (Inr x', ds)" "f x' ds = (Inr (Some y), ds')" by auto
  then show thesis using assms(2) [of ds] that by (cases x') auto
qed

lemma pick_mem: "pick xs ds = (Inr (Some x), ds') \<Longrightarrow> x \<in> set xs"
  by (auto simp: pick_def split: if_splits prod.splits sum.splits)

lemma below_less: "below n ds = (Inr k, ds') \<Longrightarrow> n \<noteq> 0 \<Longrightarrow> k < n"
  by (auto simp: below_def word_mod_less_divisor word_neq_0_conv split: prod.splits sum.splits)

lemma blob_chunks_Some:
  assumes "blob_chunks status = Some (Some n)"
  obtains sz where "status = Some (Complete sz)"
    and "n = max 1 (sz div CHUNK_BYTES + (if sz mod CHUNK_BYTES = 0 then 0 else 1))"
proof (cases status)
  case (Some st)
  then show ?thesis using assms that by (cases st) (auto simp: blob_chunks_def)
qed (use assms in \<open>simp add: blob_chunks_def\<close>)

lemma chunk_within: "(k::nat) < sz div 1024 + (if sz mod 1024 = 0 then 0 else 1) \<Longrightarrow> k * 1024 < sz"
proof -
  assume k: "k < sz div 1024 + (if sz mod 1024 = 0 then 0 else 1)"
  have "k * 1024 < q * 1024 + r" if "k < q + (if r = 0 then 0 else 1)" for q r :: nat
    using that by (cases "r = 0") auto
  from this [OF k] show ?thesis by simp
qed

lemma chunk_here:
  assumes "blob_chunks status = Some (Some n)" and "k < n"
  shows "\<exists>sz. status = Some (Complete sz) \<and> (k = 0 \<or> unat k * 1024 < unat sz)"
proof -
  from assms(1) obtain sz where sz: "status = Some (Complete sz)"
    "n = max 1 (sz div CHUNK_BYTES + (if sz mod CHUNK_BYTES = 0 then 0 else 1))"
    by (elim blob_chunks_Some)
  have q: "unat (sz div CHUNK_BYTES) = unat sz div 1024" "unat (sz mod CHUNK_BYTES) = unat sz mod 1024"
    by (simp_all add: CHUNK_BYTES_def unat_div unat_mod)
  have sz_bound: "unat sz < 18446744073709551616"
    by (rule order_less_le_trans [OF unsigned_less]) simp
  have step: "unat (sz div CHUNK_BYTES + 1) = unat sz div 1024 + 1"
    using sz_bound by (subst unat_add_lem [THEN iffD1]) (auto simp: q)
  have "unat k * 1024 < unat sz" if "k \<noteq> 0"
  proof -
    have "1 \<le> k" using that by (simp add: word_le_nat_alt unat_eq_0 [symmetric] Suc_le_eq)
    then have "k < sz div CHUNK_BYTES + (if sz mod CHUNK_BYTES = 0 then 0 else 1)"
      using assms(2) sz(2) by (auto simp: max_def split: if_splits)
    then have "unat k < unat sz div 1024 + (if unat sz mod 1024 = 0 then 0 else 1)"
      using q step by (auto simp: word_less_nat_alt unat_eq_0 [symmetric] split: if_splits)
    then show ?thesis by (rule chunk_within)
  qed
  then show ?thesis using sz(1) by blast
qed

lemma chunks_positive: "blob_chunks status = Some (Some n) \<Longrightarrow> n \<noteq> 0"
  by (elim blob_chunks_Some) (auto simp: max_def split: if_splits)

lemma content_blobs_iff:
  "b \<in> set (content_blobs st) \<longleftrightarrow> (\<exists>f. bt_get (it_files (st_item st)) b = Some f \<and> fr_role f = Content)"
  by (force simp: content_blobs_def bt_entries_iff)

text \<open>The second half of a random choice: the custodian, the file and the chunk, of an item that was picked.\<close>

lemma random_target_cases:
  assumes "random_target ps only ds = (Inr (Some t), ds')"
  obtains st g c b n k where "tg_item t \<in> set (ps_held ps)"
    and "ps_item ps (tg_item t) = Some (Some st)" and "ps_group ps = Some g"
    and "c \<in> set (custodians (ps_scorer ps) g (custody_item_of st))"
    and "may_probe c (ps_me ps) (ps_holders ps (tg_item t)) only"
    and "b \<in> set (content_blobs st)"
    and "blob_chunks (ps_status ps b) = Some (Some n)" and "k < n"
    and "t = \<lparr>tg_custodian = c, tg_item = tg_item t, tg_blob = b, tg_chunk = k\<rparr>"
proof -
  let ?held = "filter (\<lambda>i. case only of None \<Rightarrow> True | Some m \<Rightarrow> m \<in> set (ps_holders ps i)) (ps_held ps)"
  from assms obtain i ds1 where i: "pick ?held ds = (Inr (Some i), ds1)"
    unfolding random_target_def by (rule draw_Some) simp_all
  note rest = assms [unfolded random_target_def draw_Inr i, simplified i, simplified]
  from rest obtain st where st: "ps_item ps i = Some (Some st)"
    by (cases "ps_item ps i") (auto split: option.splits)
  from rest obtain g where g: "ps_group ps = Some g"
    by (cases "ps_group ps") (auto simp: st)
  let ?cs = "filter (\<lambda>c. may_probe c (ps_me ps) (ps_holders ps i) only) (custodians (ps_scorer ps) g (custody_item_of st))"
  from rest obtain c ds2 b ds3 where c: "pick ?cs ds1 = (Inr (Some c), ds2)"
    and b: "pick (content_blobs st) ds2 = (Inr (Some b), ds3)"
    by (auto simp: st g split: option.splits)
  from rest obtain n where n: "blob_chunks (ps_status ps b) = Some (Some n)"
    by (cases "blob_chunks (ps_status ps b)") (auto simp: st g c b split: option.splits)
  from rest obtain k where k: "below n ds3 = (Inr k, ds')"
    and t: "t = \<lparr>tg_custodian = c, tg_item = i, tg_blob = b, tg_chunk = k\<rparr>"
    by (auto simp: st g c b n)
  have item: "tg_item t = i" by (simp add: t)
  show thesis
    by (rule that [of st g c b n k])
      (use pick_mem [OF i] pick_mem [OF c] pick_mem [OF b] below_less [OF k chunks_positive [OF n]] st g n t item
        in simp_all)
qed

lemma random_target_fair:
  assumes "random_target ps only ds = (Inr (Some t), ds')"
  shows "made_up ps t \<and> announced ps t \<and> tg_custodian t \<noteq> ps_me ps \<and>
    (case only of None \<Rightarrow> True | Some m \<Rightarrow> tg_custodian t = m)"
  using assms
proof (rule random_target_cases)
  fix st g c b n k
  assume item: "tg_item t \<in> set (ps_held ps)" "ps_item ps (tg_item t) = Some (Some st)" "ps_group ps = Some g"
    and c: "c \<in> set (custodians (ps_scorer ps) g (custody_item_of st))"
      "may_probe c (ps_me ps) (ps_holders ps (tg_item t)) only"
    and b: "b \<in> set (content_blobs st)" "blob_chunks (ps_status ps b) = Some (Some n)" "k < n"
    and t: "t = \<lparr>tg_custodian = c, tg_item = tg_item t, tg_blob = b, tg_chunk = k\<rparr>"
  have parts: "tg_custodian t = c" "tg_blob t = b" "tg_chunk t = k" by (subst t, simp)+
  obtain sz where "ps_status ps b = Some (Complete sz)" "k = 0 \<or> unat k * 1024 < unat sz"
    using chunk_here [OF b(2,3)] by blast
  then have "made_up ps t"
    using item c(1) b(1) by (auto simp: made_up_def parts content_blobs_iff)
  then show ?thesis
    using c(2) by (auto simp: announced_def may_probe_def parts split: option.splits)
qed

lemma suspect_of_fair:
  assumes "suspect_of own others low_ones ok ds = (Inr (Some s), ds')"
  shows "case s of RecordedSuspect t \<Rightarrow> ok t \<and> (t \<in> set own \<or> t \<in> set others) | LowCoverage m \<Rightarrow> m \<in> set low_ones"
  using assms by (auto simp: suspect_of_def dest!: pick_mem split: option.splits)

lemma others_failures_mem:
  "t \<in> set (others_failures rs me w now) \<Longrightarrow> tg_custodian t \<noteq> me \<and>
     (\<exists>r \<in> set rs. rf_prober r \<noteq> me \<and> rf_custodian r = tg_custodian t \<and>
        t = recorded_target (tg_custodian t) (rf_failure r) \<and> left_in_window r w now \<noteq> None)"
  by (auto simp: others_failures_def recorded_target_def)

text \<open>What is asked for may be asked: it is announced, of another member, and recorded or made up.\<close>

definition fair :: "probe_sources \<Rightarrow> my_failures \<Rightarrow> probe_target \<Rightarrow> bool" where
  "fair ps mine t \<longleftrightarrow> announced ps t \<and> tg_custodian t \<noteq> ps_me ps \<and> (recorded_by ps mine t \<or> made_up ps t)"

lemma suspect_target_fair:
  assumes "suspect_target ps mine ds = (Inr (Some t), ds')" and "\<not> bt_has mine (ps_me ps)"
  shows "fair ps mine t"
proof -
  from assms(1) obtain rs where rs: "ps_failures ps = Inr rs"
    by (cases "ps_failures ps") (auto simp: suspect_target_def)
  let ?own = "map (\<lambda>(c, f). recorded_target c f) (bt_entries mine)"
  let ?others = "others_failures rs (ps_me ps) (failure_window (ps_membership ps)) (ps_now ps)"
  from assms(1) obtain s ds1 where s: "suspect_of ?own ?others (ps_low ps) (announced ps) ds = (Inr (Some s), ds1)"
    and t: "(case s of RecordedSuspect t \<Rightarrow> (Inr (Some t), ds1) | LowCoverage m \<Rightarrow> random_target ps (Some m) ds1)
      = (Inr (Some t), ds')"
    by (auto simp: suspect_target_def rs split: option.splits)
  show ?thesis
  proof (cases s)
    case (RecordedSuspect u)
    then have u: "announced ps t" "t \<in> set ?own \<or> t \<in> set ?others"
      using suspect_of_fair [OF s] t by simp_all
    from u(2) show ?thesis
    proof
      assume "t \<in> set ?own"
      then obtain c f where cf: "bt_get mine c = Some f" "t = recorded_target c f"
        by (auto simp: bt_entries_iff)
      then have "c \<noteq> ps_me ps" using assms(2) by (auto simp: bt_has_def)
      then show ?thesis using cf u(1) by (auto simp: fair_def recorded_by_def recorded_target_def)
    next
      assume "t \<in> set ?others"
      then show ?thesis
        using others_failures_mem [of t rs] rs u(1) unfolding fair_def recorded_by_def by blast
    qed
  next
    case (LowCoverage m)
    then show ?thesis using random_target_fair [of ps "Some m" ds1 t ds'] t by (auto simp: fair_def)
  qed
qed

lemma max_by_written_mem: "max_by_written rs = Some r \<Longrightarrow> r \<in> set rs"
  by (induction rs arbitrary: r) (auto split: option.splits if_splits)

lemma latest_evidence_fair:
  assumes "latest_evidence ps member = Inr (Some t)" and "member \<noteq> ps_me ps"
  shows "fair ps mine t \<and> tg_custodian t = member"
  using assms
  by (fastforce simp: latest_evidence_def fair_def announced_def recorded_by_def recorded_target_def Let_def
      dest!: max_by_written_mem split: sum.splits option.splits if_splits)

lemma choose_target_fair:
  assumes "choose_target ps mine ds = Inr (Some t)" and "\<not> bt_has mine (ps_me ps)"
  shows "fair ps mine t"
proof -
  obtain r ds' where "and_draw (and_draw (below SUSPECT_ONE_IN ds)
      (\<lambda>n ds. if n = 0 then suspect_target ps mine ds else (Inr None, ds)))
    (\<lambda>s ds. case s of Some t \<Rightarrow> (Inr (Some t), ds) | None \<Rightarrow> random_target ps None ds) = (r, ds')"
    by (rule prod.exhaust)
  moreover from this have "r = Inr (Some t)" using assms(1) by (simp add: choose_target_def)
  ultimately show ?thesis
    using assms(2)
    by (auto dest!: suspect_target_fair random_target_fair simp: fair_def split: if_splits option.splits)
qed

lemma check_target_fair:
  assumes "check_target ps member ds = Inr (Some t)" and "member \<noteq> ps_me ps"
  shows "fair ps mine t \<and> tg_custodian t = member"
proof (cases "latest_evidence ps member")
  case (Inr o')
  show ?thesis
  proof (cases o')
    case None
    then obtain ds' where "random_target ps (Some member) ds = (Inr (Some t), ds')"
      using assms(1) Inr by (cases "random_target ps (Some member) ds") (simp add: check_target_def)
    from random_target_fair [OF this] show ?thesis by (auto simp: fair_def)
  next
    case (Some u)
    then show ?thesis using latest_evidence_fair [of ps member t mine] assms Inr by (simp add: check_target_def)
  qed
qed (use assms(1) in \<open>simp add: check_target_def\<close>)

text \<open>A node that has not recorded a failure of itself, in the document or in what it read of it.\<close>

definition no_own_record :: "probe_sources \<Rightarrow> prober \<Rightarrow> bool" where
  "no_own_record ps pr \<longleftrightarrow>
     (case pr_mine pr of
        Some mine \<Rightarrow> \<not> bt_has mine (ps_me ps)
      | None \<Rightarrow> \<forall>rs. ps_failures ps = Inr rs \<longrightarrow> (\<forall>r \<in> set rs. rf_prober r = ps_me ps \<longrightarrow> rf_custodian r \<noteq> ps_me ps))"

definition own_record :: "probe_sources \<Rightarrow> prober \<Rightarrow> my_failures" where
  "own_record ps pr =
     (case (pr_mine pr, ps_failures ps) of
        (Some mine, _) \<Rightarrow> mine
      | (None, Inr rs) \<Rightarrow> my_failures_of rs (ps_me ps)
      | (None, Inl _) \<Rightarrow> bt_empty)"

lemma collect_has: "bt_has (bt_collect xs) k \<longleftrightarrow> k \<in> fst ` set xs"
  by (simp add: bt_has_def bt_get_collect map_of_eq_None_iff)

lemma loaded_cases:
  assumes "loaded ps pr = (Inr mine, pr')" and "no_own_record ps pr"
  shows "pr' = pr\<lparr>pr_mine := Some mine\<rparr>" and "\<not> bt_has mine (ps_me ps)" and "mine = own_record ps pr"
  using assms
  by (fastforce simp: own_record_def loaded_def no_own_record_def my_failures_of_def collect_has Let_def split: option.splits sum.splits)+

lemma record_outcome_has:
  "record_outcome pd me t r (mine, ws) = Some (res, mine', ws') \<Longrightarrow> bt_has mine' c \<Longrightarrow> c \<noteq> tg_custodian t \<Longrightarrow> bt_has mine c"
  by (cases r) (auto simp: record_outcome_def bt_has_def Let_def split: if_splits prod.splits)

text \<open>A turn: a scheduled probe, or one somebody asked for.\<close>

definition probe_turn ::
    "probe_doc \<Rightarrow> (probe_target \<Rightarrow> probed) \<Rightarrow> probe_sources \<Rightarrow> member_id option \<Rightarrow> draws \<Rightarrow> prober
      \<Rightarrow> ((probe_error + probed option) \<times> prober) option" where
  "probe_turn pd probe ps only ds pr =
     (case only of None \<Rightarrow> probe_once pd probe ps ds pr | Some m \<Rightarrow> check_member pd probe ps m ds pr)"

lemma probe_at_asks:
  assumes "probe_at pd probe me mine choice pr = Some (r, pr')"
  shows "pr' = pr \<or> (\<exists>t r'. choice = Inr (Some t) \<and> make_probe pd probe me mine t pr = Some (r', pr'))"
  using assms by (auto simp: probe_at_def split: sum.splits option.splits)

lemma probe_turn_asks:
  assumes "probe_turn pd probe ps only ds pr = Some (r, pr')" and "no_own_record ps pr"
  shows "pr' = pr \<or> (\<exists>mine. mine = own_record ps pr \<and> \<not> bt_has mine (ps_me ps) \<and>
    (pr' = pr\<lparr>pr_mine := Some mine\<rparr> \<or>
     (\<exists>t r'. refusal ps = None \<and> fair ps mine t \<and> (only = None \<or> only = Some (tg_custodian t)) \<and>
       make_probe pd probe (ps_me ps) mine t (pr\<lparr>pr_mine := Some mine\<rparr>) = Some (r', pr'))))"
proof (cases "loaded ps pr")
  case (Pair l pr1)
  show ?thesis
  proof (cases l)
    case (Inl e)
    then have "pr1 = pr" using Pair by (auto simp: loaded_def Let_def split: option.splits sum.splits)
    then show ?thesis
      using assms(1) Pair Inl
      by (auto simp: probe_turn_def probe_once_def check_member_def split: option.splits if_splits)
  next
    case (Inr mine)
    note l = loaded_cases [OF Pair [unfolded Inr] assms(2)]
    let ?choice = "case only of None \<Rightarrow> choose_target ps mine ds | Some m \<Rightarrow> check_target ps m ds"
    have turn: "pr' = pr \<or> refusal ps = None \<and> only \<noteq> Some (ps_me ps) \<and>
        probe_at pd probe (ps_me ps) mine ?choice pr1 = Some (r, pr')"
      using assms(1) Pair Inr
      by (auto simp: probe_turn_def probe_once_def check_member_def split: option.splits if_splits)
    have fair: "fair ps mine t \<and> (only = None \<or> only = Some (tg_custodian t))"
      if "?choice = Inr (Some t)" "only \<noteq> Some (ps_me ps)" for t
      using that choose_target_fair [OF _ l(2), of ds t] check_target_fair [of ps _ ds t mine]
      by (cases only) auto
    from turn consider "pr' = pr" | "pr' = pr1"
      | t r' where "?choice = Inr (Some t)" "refusal ps = None" "only \<noteq> Some (ps_me ps)"
        "make_probe pd probe (ps_me ps) mine t pr1 = Some (r', pr')"
      using probe_at_asks [of pd probe "ps_me ps" mine ?choice pr1 r pr'] by blast
    then show ?thesis
    proof cases
      case (3 t r')
      then show ?thesis using fair [OF 3(1,3)] l by blast
    qed (use l in blast)+
  qed
qed

lemma make_probe_cases:
  assumes "make_probe pd probe me mine t pr = Some (r, pr')"
  obtains res mine' ws' where "record_outcome pd me t (probe t) (mine, pr_writes pr) = Some (res, mine', ws')"
    and "pr' = pr\<lparr>pr_counts := count_probe (probe t) (pr_counts pr), pr_mine := Some mine', pr_writes := ws'\<rparr>"
  using assms by (auto simp: make_probe_def Let_def)

text \<open>
  C33. Probes are fair. Whether it is scheduled or asked for, a turn either writes and counts nothing, or
  this node probes: the group probes, the node pledges the minimum, and what it asks for is announced
  by the custodian it asks, which is another member, and the one that was named if one was. It was
  recorded, by this node or by another within the window, or it is a chunk of this node's own
  complete copy of a content file of an item it holds, and the one asked is a custodian of that item.
  One probe is counted, and the node never comes to record a failure of itself.
\<close>
theorem probes_are_fair:
  assumes "probe_turn pd probe ps only ds pr = Some (r, pr')" and "no_own_record ps pr"
  shows "no_own_record ps pr' \<and>
    (pr_writes pr' = pr_writes pr \<and> pr_counts pr' = pr_counts pr \<or>
     (\<exists>t. probes (ms_settings (ps_membership ps)) \<and> pledges_the_minimum (ps_membership ps) (ps_me ps) \<and>
        announced ps t \<and> tg_custodian t \<noteq> ps_me ps \<and> (only = None \<or> only = Some (tg_custodian t)) \<and>
        (recorded_by ps (own_record ps pr) t \<or> made_up ps t) \<and>
        pr_counts pr' = count_probe (probe t) (pr_counts pr)))"
proof -
  consider "pr' = pr" | mine where "\<not> bt_has mine (ps_me ps)" "pr' = pr\<lparr>pr_mine := Some mine\<rparr>"
    | mine t r' where "mine = own_record ps pr" "\<not> bt_has mine (ps_me ps)" "refusal ps = None" "fair ps mine t"
      "only = None \<or> only = Some (tg_custodian t)"
      "make_probe pd probe (ps_me ps) mine t (pr\<lparr>pr_mine := Some mine\<rparr>) = Some (r', pr')"
    using probe_turn_asks [OF assms] by blast
  then show ?thesis
  proof cases
    case (3 mine t r')
    note me = 3(2) and t = 3(4,3,5)
    have made: "make_probe pd probe (ps_me ps) mine t (pr\<lparr>pr_mine := Some mine\<rparr>) = Some (r', pr')" by (rule 3(6))
    from made obtain res mine' ws' where
        rec: "record_outcome pd (ps_me ps) t (probe t) (mine, pr_writes pr) = Some (res, mine', ws')"
      and pr': "pr' = pr\<lparr>pr_mine := Some mine', pr_counts := count_probe (probe t) (pr_counts pr), pr_writes := ws'\<rparr>"
      by (elim make_probe_cases) simp
    have "\<not> bt_has mine' (ps_me ps)"
      using record_outcome_has [OF rec, of "ps_me ps"] me t(1) by (auto simp: fair_def)
    then show ?thesis
      using t pr' 3(1) by (auto simp: no_own_record_def fair_def refusal_def split: if_splits)
  qed (use assms(2) in \<open>auto simp: no_own_record_def\<close>)
qed

section \<open>What is recorded\<close>

text \<open>What the document says of this node's failures, after a sequence of writes.\<close>

fun doc_effect :: "doc_write \<Rightarrow> (string \<rightharpoonup> bytes) \<Rightarrow> (string \<rightharpoonup> bytes)" where
  "doc_effect (SetBytes k v) m = m(k \<mapsto> v)"
| "doc_effect (Del k) m = m(k := None)"

definition failure_key :: "probe_doc \<Rightarrow> member_id \<Rightarrow> member_id \<Rightarrow> string" where
  "failure_key pd me c = community_encode (co_texts (pd_codecs pd)) (ProbeFailureKey c me)"

definition in_step_with ::
    "probe_doc \<Rightarrow> member_id \<Rightarrow> (string \<rightharpoonup> bytes) \<Rightarrow> my_failures \<times> doc_write list \<Rightarrow> bool" where
  "in_step_with pd me before = (\<lambda>(mine, ws). \<forall>c.
     fold doc_effect ws before (failure_key pd me c)
       = Option.bind (bt_get mine c) (to_vec (cj_probe (co_community (pd_codecs pd)))))"

text \<open>A run of probes, each with the keys the document fails at then; an error is logged, and the next goes on.\<close>

fun record_all ::
    "probe_doc \<Rightarrow> member_id \<Rightarrow> ((string \<Rightarrow> bool) \<times> probe_target \<times> probed) list \<Rightarrow> my_failures \<times> doc_write list
      \<Rightarrow> (my_failures \<times> doc_write list) option" where
  "record_all pd me [] s = Some s"
| "record_all pd me ((fails, t, r) # ts) s =
     Option.bind (record_outcome (pd\<lparr>pd_fails := fails\<rparr>) me t r s) (\<lambda>(_, s'). record_all pd me ts s')"

text \<open>How many probes of \<open>c\<close> failed in a row, of those that were recorded.\<close>

definition failed_before :: "my_failures \<Rightarrow> member_id \<Rightarrow> nat" where
  "failed_before mine c = (case bt_get mine c of None \<Rightarrow> 0 | Some f \<Rightarrow> unat (pf_in_a_row f))"

fun row_of :: "probe_doc \<Rightarrow> member_id \<Rightarrow> member_id \<Rightarrow> ((string \<Rightarrow> bool) \<times> probe_target \<times> probed) list \<Rightarrow> nat \<Rightarrow> nat" where
  "row_of pd me c [] n = n"
| "row_of pd me c ((fails, t, r) # ts) n =
     row_of pd me c ts
       (if tg_custodian t \<noteq> c then n
        else case r of Passed \<Rightarrow> 0 | Unreachable \<Rightarrow> n | Failed \<Rightarrow> if fails (failure_key pd me c) then n else n + 1)"

lemma row_of_Cons: "row_of pd me c (x # ts) n = row_of pd me c ts (row_of pd me c [x] n)"
  by (cases x) simp

lemma failure_key_inj:
  assumes "texts_ok (co_texts (pd_codecs pd))" and "failure_key pd me c = failure_key pd me c'"
  shows "c = c'"
proof -
  have "Some (ProbeFailureKey c me) = Some (ProbeFailureKey c' me)"
    unfolding community_reads_back [OF assms(1), symmetric]
    by (rule arg_cong [OF assms(2) [unfolded failure_key_def]])
  then show ?thesis by simp
qed

lemma fold_append_one [simp]: "fold f (xs @ [x]) s = f x (fold f xs s)"
  by simp

lemma record_outcome_open:
  assumes "dc_open (pd_doc pd)"
  shows "record_outcome pd me t r (mine, ws) =
    (case r of
       Unreachable \<Rightarrow> Some (done_with (mine, ws))
     | Passed \<Rightarrow>
         if bt_has mine (tg_custodian t)
         then if pd_fails pd (failure_key pd me (tg_custodian t))
           then Some (refused (Docs ''deleted from'') (bt_remove (tg_custodian t) mine, ws))
           else Some (done_with (bt_remove (tg_custodian t) mine, ws @ [Del (failure_key pd me (tg_custodian t))]))
         else Some (done_with (mine, ws))
     | Failed \<Rightarrow>
         (let failure = \<lparr>pf_item = tg_item t, pf_blob = tg_blob t, pf_chunk = tg_chunk t,
                pf_in_a_row = in_a_row_now mine (tg_custodian t)\<rparr>
          in map_option (\<lambda>v.
                if pd_fails pd (failure_key pd me (tg_custodian t)) then refused (Docs ''written to'') (mine, ws)
                else done_with (bt_insert (tg_custodian t) failure mine,
                       ws @ [SetBytes (failure_key pd me (tg_custodian t)) v]))
              (to_vec (cj_probe (co_community (pd_codecs pd))) failure)))"
proof (cases r)
  case Failed
  then show ?thesis
    using assms
    by (cases "pd_fails pd (failure_key pd me (tg_custodian t))")
      (simp_all add: record_outcome_def record_probe_failure_def say_value_def doc_put_def failure_key_def Let_def
        option.map_comp comp_def)
qed (use assms in \<open>simp_all add: record_outcome_def clear_probe_failure_def doc_delete_def failure_key_def Let_def\<close>)

text \<open>
  The next number in a row: each failure that is recorded counts one more than the failures before it.
\<close>

lemma record_outcome_row:
  assumes "dc_open (pd_doc pd)" and "record_outcome pd me t r (mine, ws) = Some (res, mine', ws')"
    and "failed_before mine (tg_custodian t) + 1 < 2 ^ 32"
  shows "failed_before mine' c = row_of pd me c [(pd_fails pd, t, r)] (failed_before mine c)"
  using assms unfolding record_outcome_open [OF assms(1)]
  by (cases r)
    (auto simp: failed_before_def in_a_row_now_def bt_has_def Let_def unat_word_ariths split: if_splits option.splits)

lemma record_outcome_in_step:
  assumes "dc_open (pd_doc pd)" and "texts_ok (co_texts (pd_codecs pd))"
    and "in_step_with pd me before (mine, ws)" and "record_outcome pd me t r (mine, ws) = Some (res, mine', ws')"
    and "r = Passed \<Longrightarrow> \<not> pd_fails pd (failure_key pd me (tg_custodian t))"
  shows "in_step_with pd me before (mine', ws')"
proof -
  have key: "failure_key pd me c = failure_key pd me (tg_custodian t) \<longleftrightarrow> c = tg_custodian t" for c
    using failure_key_inj [OF assms(2)] by blast
  have said: "fold doc_effect ws before (failure_key pd me c)
      = Option.bind (bt_get mine c) (to_vec (cj_probe (co_community (pd_codecs pd))))" for c
    using assms(3) by (simp add: in_step_with_def)
  show ?thesis
    using assms(4,5) said unfolding record_outcome_open [OF assms(1)] in_step_with_def
    by (cases r) (auto simp: key Let_def split: if_splits)
qed

text \<open>
  C34. A node's own failures are what the document says of them. Whatever probes come out how, and
  whatever writes fail on the way, as long as no clearing fails and no count reaches 2 ^ 32, at the end of
  a run that began so the document, which is open and whose keys read back, has,
  at this node's key of a custodian, exactly the failure the node knows of it, and nothing where it
  knows none; and the number in it is how many probes of that custodian in a row failed and were
  recorded, since one passed.
\<close>
theorem own_failures_are_recorded:
  assumes "dc_open (pd_doc pd)" and "texts_ok (co_texts (pd_codecs pd))"
    and "in_step_with pd me before s" and "record_all pd me ts s = Some s'"
    and "\<And>fails t. (fails, t, Passed) \<in> set ts \<Longrightarrow> \<not> fails (failure_key pd me (tg_custodian t))"
    and "\<And>c. failed_before (fst s) c + length ts < 2 ^ 32"
  shows "in_step_with pd me before s' \<and> (\<forall>c. failed_before (fst s') c = row_of pd me c ts (failed_before (fst s) c))"
  using assms(3-6)
proof (induction ts arbitrary: s)
  case (Cons x ts)
  obtain fails t r where x: "x = (fails, t, r)" by (cases x)
  obtain mine ws where s: "s = (mine, ws)" by (cases s)
  let ?pd = "pd\<lparr>pd_fails := fails\<rparr>"
  have key: "failure_key ?pd me c = failure_key pd me c" for c by (simp add: failure_key_def)
  have step: "in_step_with ?pd me before s \<longleftrightarrow> in_step_with pd me before s" for s
    by (simp add: in_step_with_def key)
  from Cons.prems(2) obtain res mine1 ws1
    where rec: "record_outcome ?pd me t r (mine, ws) = Some (res, mine1, ws1)"
      and rest: "record_all pd me ts (mine1, ws1) = Some s'"
    by (auto simp: x s Option.bind_eq_Some_conv)
  have instep: "in_step_with pd me before (mine1, ws1)"
    using record_outcome_in_step [of ?pd me before mine ws t r] rec assms(1,2) Cons.prems(1)
      Cons.prems(3) [of fails t] by (auto simp: step s x key)
  have row: "failed_before mine1 c = row_of pd me c [(fails, t, r)] (failed_before mine c)" for c
    using record_outcome_row [of ?pd me t r mine ws, OF _ rec] assms(1) Cons.prems(4) [of "tg_custodian t"]
    by (simp add: s key)
  have bound: "failed_before (fst (mine1, ws1)) c + length ts < 2 ^ 32" for c
    using Cons.prems(4) [of c] row [of c] by (auto simp: s split: probed.splits if_splits)
  have cleared: "\<not> fails' (failure_key pd me (tg_custodian t'))" if "(fails', t', Passed) \<in> set ts" for fails' t'
    using that by (intro Cons.prems(3)) simp
  have "in_step_with pd me before s' \<and>
      (\<forall>c. failed_before (fst s') c = row_of pd me c ts (failed_before (fst (mine1, ws1)) c))"
    by (rule Cons.IH [OF instep rest]) (use cleared bound in blast)+
  then show ?case
    by (simp only: x s fst_conv row row_of_Cons [of pd me _ "(fails, t, r)" ts] simp_thms)
qed simp

text \<open>
  A clearing that fails is not made good. When a custodian passes and the document does not take the
  clearing, the node forgets its failure all the same: however often the custodian passes after that, with
  nothing failing any more, nothing is written, and the document goes on to say that it failed.
\<close>
theorem failed_clearing_is_not_made_good:
  assumes "dc_open (pd_doc pd)" and "bt_has mine (tg_custodian t)"
    and "pd_fails pd (failure_key pd me (tg_custodian t))"
  shows "\<exists>mine'. record_outcome pd me t Passed (mine, ws) = Some (refused (Docs ''deleted from'') (mine', ws)) \<and>
    record_all pd me (replicate n (\<lambda>_. False, t, Passed)) (mine', ws) = Some (mine', ws)"
proof -
  let ?mine = "bt_remove (tg_custodian t) mine"
  have again: "record_outcome (pd\<lparr>pd_fails := \<lambda>_. False\<rparr>) me t Passed (?mine, ws) = Some (done_with (?mine, ws))"
    using assms(1) by (subst record_outcome_open) (simp_all add: bt_has_def)
  have "record_all pd me (replicate n (\<lambda>_. False, t, Passed)) (?mine, ws) = Some (?mine, ws)"
    by (induction n) (simp_all add: again)
  moreover have "record_outcome pd me t Passed (mine, ws) = Some (refused (Docs ''deleted from'') (?mine, ws))"
    using assms by (subst record_outcome_open) simp_all
  ultimately show ?thesis by blast
qed

section \<open>Concrete probes\<close>

text \<open>Member 1 holds an item that member 2 announces, and recorded a failure of member 2.\<close>

definition row_json :: "probe_failure json" where
  "row_json = \<lparr>to_vec = (\<lambda>f. Some [ucast (pf_in_a_row f)]), from_slice = (\<lambda>_. None)\<rparr>"

definition probe_codecs :: codecs where
  "probe_codecs = \<lparr>co_texts = demo_texts, co_item = demo_json,
     co_community = demo_community_json\<lparr>cj_probe := row_json\<rparr>, co_on_curve = (\<lambda>_. True)\<rparr>"

definition probed_doc :: "(string \<Rightarrow> bool) \<Rightarrow> probe_doc" where
  "probed_doc fails = \<lparr>pd_fails = fails, pd_codecs = probe_codecs, pd_doc = rated_doc\<rparr>"

definition first_failure :: probe_failure where
  "first_failure = \<lparr>pf_item = ItemId 1, pf_blob = ContentHash 7, pf_chunk = 3, pf_in_a_row = 1\<rparr>"

definition probing_group :: membership_state where
  "probing_group = ms_new
     \<lparr>ms_members := bt_insert (MemberId 1) \<lparr>rec_id = MemberId 1, rec_name = ''ann'', rec_pledge = 1, rec_protocol_max = 0\<rparr> bt_empty,
      ms_settings := default_settings\<lparr>min_pledge_bytes := 1, probes := True\<rparr>\<rparr>"

definition probing_sources :: probe_sources where
  "probing_sources =
     \<lparr>ps_me = MemberId 1, ps_membership = probing_group, ps_held = [], ps_holders = (\<lambda>_. [MemberId 2]),
      ps_item = (\<lambda>_. Some None), ps_group = None, ps_scorer = demo_scorer, ps_status = (\<lambda>_. None),
      ps_failures = Inr [\<lparr>rf_custodian = MemberId 2, rf_prober = MemberId 1, rf_failure = first_failure, rf_written = 5\<rparr>],
      ps_low = [], ps_now = 0\<rparr>"

definition new_prober :: prober where
  "new_prober = \<lparr>pr_mine = None, pr_counts = \<lparr>pc_passed = 0, pc_failed = 0, pc_skipped = 0\<rparr>, pr_writes = []\<rparr>"

lemma encodes: "to_vec (cj_probe (co_community (pd_codecs (probed_doc fails)))) f = Some [ucast (pf_in_a_row f)]"
  by (simp add: probed_doc_def probe_codecs_def row_json_def)

lemma own_failure_known: "own_record probing_sources new_prober = bt_insert (MemberId 2) first_failure bt_empty"
  by (rule bt_ext) (simp add: own_record_def probing_sources_def new_prober_def my_failures_of_def bt_get_collect)

lemma own_failure_chosen:
  "choose_target probing_sources (bt_insert (MemberId 2) first_failure bt_empty) [Some 0, Some 0]
     = Inr (Some (recorded_target (MemberId 2) first_failure))"
proof -
  have "bt_entries (bt_insert (MemberId 2) first_failure bt_empty) = [(MemberId 2, first_failure)]"
    by (simp add: bt_insert.rep_eq bt_empty.rep_eq)
  then show ?thesis
    by (simp add: choose_target_def and_draw_def below_def draw_def suspect_target_def suspect_of_def pick_def
        SUSPECT_ONE_IN_def probing_sources_def announced_def recorded_target_def)
qed

theorem probes_are_fair_witness:
  "\<exists>r pr'. probe_turn (probed_doc (\<lambda>_. False)) (\<lambda>_. Failed) probing_sources None [Some 0, Some 0] new_prober = Some (r, pr') \<and>
     pr_writes pr' \<noteq> [] \<and> no_own_record probing_sources pr' \<and> pc_failed (pr_counts pr') = 1"
proof -
  let ?turn = "probe_turn (probed_doc (\<lambda>_. False)) (\<lambda>_. Failed) probing_sources None [Some 0, Some 0] new_prober"
  let ?mine = "bt_insert (MemberId 2) first_failure bt_empty"
  have mine: "loaded probing_sources new_prober = (Inr ?mine, new_prober\<lparr>pr_mine := Some ?mine\<rparr>)"
    using own_failure_known by (simp add: loaded_def own_record_def probing_sources_def new_prober_def Let_def)
  have opened: "dc_open (pd_doc (probed_doc (\<lambda>_. False)))" by (simp add: probed_doc_def rated_doc_def)
  have allowed: "refusal probing_sources = None"
    by (simp add: refusal_def probing_sources_def probing_group_def pledges_the_minimum_def)
  obtain r pr' where turn: "?turn = Some (r, pr')" "pr_writes pr' \<noteq> []"
    unfolding probe_turn_def probe_once_def
    by (simp add: mine allowed own_failure_chosen probe_at_def make_probe_def record_outcome_open [OF opened] encodes
        Let_def)
      (simp add: probed_doc_def)
  have start: "no_own_record probing_sources new_prober"
    by (simp add: no_own_record_def probing_sources_def new_prober_def)
  show ?thesis
    using probes_are_fair [OF turn(1) start] turn by (auto simp: new_prober_def count_probe_def)
qed

theorem own_failures_are_recorded_witness:
  "\<exists>s'. record_all (probed_doc (\<lambda>_. False)) (MemberId 1)
      [(\<lambda>_. False, recorded_target (MemberId 2) first_failure, Failed),
       (\<lambda>_. True, recorded_target (MemberId 2) first_failure, Failed),
       (\<lambda>_. False, recorded_target (MemberId 2) first_failure, Failed)] (bt_empty, []) = Some s' \<and>
     in_step_with (probed_doc (\<lambda>_. False)) (MemberId 1) Map.empty s' \<and> failed_before (fst s') (MemberId 2) = 2"
proof -
  let ?pd = "probed_doc (\<lambda>_. False)" and ?t = "recorded_target (MemberId 2) first_failure"
  let ?ts = "[(\<lambda>_. False, ?t, Failed), (\<lambda>_. True, ?t, Failed), (\<lambda>_. False, ?t, Failed)]"
  have opened: "dc_open (pd_doc ?pd)" "\<And>fails. dc_open (pd_doc (?pd\<lparr>pd_fails := fails\<rparr>))"
    by (simp_all add: probed_doc_def rated_doc_def)
  have texts: "texts_ok (co_texts (pd_codecs ?pd))"
    using demo_texts_ok by (simp add: probed_doc_def probe_codecs_def)
  have start: "in_step_with ?pd (MemberId 1) Map.empty (bt_empty, [])" by (simp add: in_step_with_def)
  obtain s' where run: "record_all ?pd (MemberId 1) ?ts (bt_empty, []) = Some s'"
    by (simp add: record_outcome_open [OF opened(2)] encodes Let_def)
  have row: "row_of ?pd (MemberId 1) (MemberId 2) ?ts 0 = 2"
    by (simp add: recorded_target_def)
  show ?thesis
    using own_failures_are_recorded [OF opened(1) texts start run] run row by (auto simp: failed_before_def)
qed

theorem failed_clearing_is_not_made_good_witness:
  "\<exists>mine'. record_outcome (probed_doc (\<lambda>_. True)) (MemberId 1) (recorded_target (MemberId 2) first_failure) Passed
      (bt_insert (MemberId 2) first_failure bt_empty, []) = Some (refused (Docs ''deleted from'') (mine', [])) \<and>
    record_all (probed_doc (\<lambda>_. True)) (MemberId 1)
      (replicate 3 (\<lambda>_. False, recorded_target (MemberId 2) first_failure, Passed)) (mine', []) = Some (mine', [])"
  by (rule failed_clearing_is_not_made_good)
    (simp_all add: probed_doc_def rated_doc_def recorded_target_def bt_has_def)

end
