(* ===== verification/Proposing.thy ===== *)
theory Proposing
  imports Following
begin

text \<open>
  Proposing a change (\<open>distlib-consensus/src/node.rs\<close>): signing it against the membership this node
  enforces, committing it through its own Raft or by a core node, again when the membership moved in
  between, and waiting until it is in effect here. What Raft, the other nodes and time do in between is
  a world that each call moves on; every event that leaves the node is noted.
\<close>

section \<open>Errors and constants\<close>

datatype node_error =
    DatabaseFailed string
  | RaftFailed string
  | EventRefused consensus_error
  | ForwardFailed raw_member_id propose_error
  | NoLeader
  | NotCore
  | EndpointClosed
  | BehindTheGroup u64
  | NotYetApplied u64

definition PROPOSE_ATTEMPTS :: nat where "PROPOSE_ATTEMPTS = 3"

definition ELECTION_TIMEOUT_MAX :: u64 where "ELECTION_TIMEOUT_MAX = 2000"

definition LEADER_CHANGE_WAIT :: duration where
  "LEADER_CHANGE_WAIT = (unat ELECTION_TIMEOUT_MAX + 1000) * 1000000"

definition LEADERSHIP_TIMEOUT :: duration where "LEADERSHIP_TIMEOUT = 30 * 1000000000"

definition ANNOUNCE_RETRY :: duration where "ANNOUNCE_RETRY = 5 * 1000000000"

fun sent_again_when_stale :: "membership_event \<Rightarrow> bool" where
  "sent_again_when_stale (CoreGroupChanged core) = False"
| "sent_again_when_stale (ProtocolSupported m n) = False"
| "sent_again_when_stale _ = True"

record raft_config =
  heartbeat_interval :: u64
  election_timeout_min :: u64
  election_timeout_max :: u64
  max_in_snapshot_log_to_keep :: u64

definition our_raft_config :: raft_config where
  "our_raft_config = \<lparr>heartbeat_interval = 250, election_timeout_min = 1000,
     election_timeout_max = ELECTION_TIMEOUT_MAX, max_in_snapshot_log_to_keep = - 1\<rparr>"

section \<open>The world of a proposal\<close>

text \<open>
  Where an event went, with what came back: to this node's own Raft, or to another node.
\<close>

datatype 'sig sending =
    ToRaft "'sig signed_event" client_write
  | ToNode raw_member_id "'sig signed_event" "propose_error + u64"

text \<open>
  What the world answers, and how it moves: what this node enforces now and comes to enforce before time
  is up, what its Raft and the other nodes answer, and whether a leader comes up in time.
\<close>

record ('sig, 'w) group_world =
  gw_enforced :: "'w \<Rightarrow> membership_state"
  gw_now :: "'w \<Rightarrow> u64"
  gw_voting :: "'w \<Rightarrow> bool"
  gw_sources :: "'w \<Rightarrow> sources"
  gw_write :: "'sig signed_event \<Rightarrow> 'w \<Rightarrow> client_write \<times> 'w"
  gw_propose :: "raw_member_id \<Rightarrow> node_addr \<Rightarrow> 'sig signed_event \<Rightarrow> 'w \<Rightarrow> (propose_error + u64) \<times> 'w"
  gw_leader_moves :: "raw_member_id \<Rightarrow> 'w \<Rightarrow> 'w"
  gw_leader_emerges :: "'w \<Rightarrow> bool \<times> 'w"
  gw_later :: "'w \<Rightarrow> 'w list"
  gw_hint :: "u64 \<Rightarrow> 'w \<Rightarrow> 'w"

record ('sig, 'w) proposing =
  po_world :: 'w
  po_sent :: "'sig sending list"

definition write_here ::
    "('sig, 'w) group_world \<Rightarrow> 'sig signed_event \<Rightarrow> ('sig, 'w) proposing \<Rightarrow> client_write \<times> ('sig, 'w) proposing" where
  "write_here gw ev p =
     (case gw_write gw ev (po_world p) of
        (wrote, w) \<Rightarrow> (wrote, \<lparr>po_world = w, po_sent = po_sent p @ [ToRaft ev wrote]\<rparr>))"

definition propose_to ::
    "('sig, 'w) group_world \<Rightarrow> raw_member_id \<Rightarrow> node_addr \<Rightarrow> 'sig signed_event \<Rightarrow> ('sig, 'w) proposing
      \<Rightarrow> (propose_error + u64) \<times> ('sig, 'w) proposing" where
  "propose_to gw node addr ev p =
     (case gw_propose gw node addr ev (po_world p) of
        (got, w) \<Rightarrow> (got, \<lparr>po_world = w, po_sent = po_sent p @ [ToNode node ev got]\<rparr>))"

section \<open>Committing\<close>

fun ask_candidates ::
    "('sig, 'w) group_world \<Rightarrow> 'sig signed_event \<Rightarrow> (member_id \<times> node_addr) list \<Rightarrow> (raw_member_id \<times> propose_error) option
      \<Rightarrow> ('sig, 'w) proposing \<Rightarrow> (node_error + u64) \<times> ('sig, 'w) proposing" where
  "ask_candidates gw ev [] unreached p =
     (Inl (case unreached of Some (member, e) \<Rightarrow> ForwardFailed member e | None \<Rightarrow> NoLeader), p)"
| "ask_candidates gw ev ((member, addr) # rest) unreached p =
     (case propose_to gw (raw_of member) addr ev p of
        (Inr index, p) \<Rightarrow> (Inr index, p\<lparr>po_world := gw_hint gw index (po_world p)\<rparr>)
      | (Inl (ProposalRejected e), p) \<Rightarrow> (Inl (EventRefused e), p)
      | (Inl e, p) \<Rightarrow> ask_candidates gw ev rest (Some (raw_of member, e)) p)"

definition commit_as_follower ::
    "('sig, 'w) group_world \<Rightarrow> member_id \<Rightarrow> 'sig signed_event \<Rightarrow> ('sig, 'w) proposing
      \<Rightarrow> (node_error + u64) \<times> ('sig, 'w) proposing" where
  "commit_as_follower gw me ev p =
     (let candidates = follow_candidates (gw_sources gw (po_world p)) me
      in if candidates = [] then (Inl NoLeader, p) else ask_candidates gw ev candidates None p)"

primrec commit_attempts ::
    "nat \<Rightarrow> ('sig, 'w) group_world \<Rightarrow> 'sig signed_event \<Rightarrow> (raw_member_id \<times> propose_error) option \<Rightarrow> ('sig, 'w) proposing
      \<Rightarrow> (node_error + u64) \<times> ('sig, 'w) proposing" where
  "commit_attempts 0 gw ev unreached p =
     (Inl (case unreached of Some (leader, e) \<Rightarrow> ForwardFailed leader e | None \<Rightarrow> NoLeader), p)"
| "commit_attempts (Suc n) gw ev unreached p =
     (case write_here gw ev p of
        (Wrote verdict index, p) \<Rightarrow>
          (case verdict of Inr _ \<Rightarrow> (Inr index, p) | Inl e \<Rightarrow> (Inl (EventRefused e), p))
      | (WriteFailed message, p) \<Rightarrow> (Inl (RaftFailed message), p)
      | (ForwardToLeader named at_addr message, p) \<Rightarrow>
          (case (named, at_addr) of
             (Some leader, Some addr) \<Rightarrow>
               (case propose_to gw leader addr ev p of
                  (Inr index, p) \<Rightarrow> (Inr index, p)
                | (Inl (ProposalRejected e), p) \<Rightarrow> (Inl (EventRefused e), p)
                | (Inl e, p) \<Rightarrow>
                    commit_attempts n gw ev (Some (leader, e)) (p\<lparr>po_world := gw_leader_moves gw leader (po_world p)\<rparr>))
           | _ \<Rightarrow>
               (case gw_leader_emerges gw (po_world p) of
                  (True, w) \<Rightarrow> commit_attempts n gw ev unreached (p\<lparr>po_world := w\<rparr>)
                | (False, w) \<Rightarrow> (Inl (RaftFailed ''a leader to emerge''), p\<lparr>po_world := w\<rparr>))))"

definition commit_as_core ::
    "('sig, 'w) group_world \<Rightarrow> 'sig signed_event \<Rightarrow> ('sig, 'w) proposing \<Rightarrow> (node_error + u64) \<times> ('sig, 'w) proposing" where
  "commit_as_core gw ev p = commit_attempts PROPOSE_ATTEMPTS gw ev None p"

section \<open>Proposing\<close>

definition propose_once ::
    "('sk, 'sig) crypto \<Rightarrow> ('sig, 'w) group_world \<Rightarrow> member_id \<Rightarrow> 'sk \<Rightarrow> membership_event \<Rightarrow> ('sig, 'w) proposing
      \<Rightarrow> (node_error + u64) \<times> ('sig, 'w) proposing" where
  "propose_once cr gw me sk event p =
     (case within_limits event of
        Inl e \<Rightarrow> (Inl (EventRefused e), p)
      | Inr _ \<Rightarrow>
          (case sign_event cr sk event (gw_now gw (po_world p)) (ms_changed_at (gw_enforced gw (po_world p))) of
             Inl e \<Rightarrow> (Inl (EventRefused e), p)
           | Inr ev \<Rightarrow>
               if gw_voting gw (po_world p) then commit_as_core gw ev p else commit_as_follower gw me ev p))"

text \<open>Waiting for the membership to reach an index, as far as the world goes before time is up.\<close>

fun wait_until :: "('sig, 'w) group_world \<Rightarrow> u64 \<Rightarrow> 'w \<Rightarrow> 'w list \<Rightarrow> bool \<times> 'w" where
  "wait_until gw changed_at w later =
     (if changed_at \<le> ms_changed_at (gw_enforced gw w) then (True, w)
      else case later of [] \<Rightarrow> (False, w) | w' # later' \<Rightarrow> wait_until gw changed_at w' later')"

definition catch_up_to ::
    "('sig, 'w) group_world \<Rightarrow> u64 \<Rightarrow> ('sig, 'w) proposing \<Rightarrow> (node_error + unit) \<times> ('sig, 'w) proposing" where
  "catch_up_to gw changed_at p =
     (case wait_until gw changed_at (po_world p) (gw_later gw (po_world p)) of
        (reached, w) \<Rightarrow> (if reached then Inr () else Inl (BehindTheGroup changed_at), p\<lparr>po_world := w\<rparr>))"

definition propose_and_retry ::
    "('sk, 'sig) crypto \<Rightarrow> ('sig, 'w) group_world \<Rightarrow> member_id \<Rightarrow> 'sk \<Rightarrow> membership_event \<Rightarrow> ('sig, 'w) proposing
      \<Rightarrow> (node_error + u64) \<times> ('sig, 'w) proposing" where
  "propose_and_retry cr gw me sk event p =
     (case propose_once cr gw me sk event p of
        (Inl (EventRefused (StaleProposal stated current)), p) \<Rightarrow>
          if sent_again_when_stale event
          then (case catch_up_to gw current p of
                  (Inl e, p) \<Rightarrow> (Inl e, p)
                | (Inr _, p) \<Rightarrow> propose_once cr gw me sk event p)
          else (Inl (EventRefused (StaleProposal stated current)), p)
      | other \<Rightarrow> other)"

definition propose ::
    "('sk, 'sig) crypto \<Rightarrow> ('sig, 'w) group_world \<Rightarrow> member_id \<Rightarrow> 'sk \<Rightarrow> membership_event \<Rightarrow> ('sig, 'w) proposing
      \<Rightarrow> (node_error + u64) \<times> ('sig, 'w) proposing" where
  "propose cr gw me sk event p =
     (case propose_and_retry cr gw me sk event p of
        (Inl e, p) \<Rightarrow> (Inl e, p)
      | (Inr index, p) \<Rightarrow>
          (case catch_up_to gw index p of
             (Inl _, p) \<Rightarrow> (Inl (NotYetApplied index), p)
           | (Inr _, p) \<Rightarrow> (Inr index, p)))"

text \<open>
  Founding: Raft is initialised with the founders, this node waits until it leads, and proposes the
  founding event. \<open>started\<close> is what Raft makes of the voters, \<open>comes_to_lead\<close> whether this node came to lead in time.
\<close>

definition init_group ::
    "('sk, 'sig) crypto \<Rightarrow> (u8 list \<Rightarrow> 256 word) \<Rightarrow> ('sig, 'w) group_world
      \<Rightarrow> ((raw_member_id, node_addr) btmap \<Rightarrow> 'w \<Rightarrow> (string + unit) \<times> 'w) \<Rightarrow> ('w \<Rightarrow> (string + unit) \<times> 'w)
      \<Rightarrow> member_id \<Rightarrow> 'sk \<Rightarrow> (member_profile \<times> node_addr) list \<Rightarrow> group_settings \<Rightarrow> ('sig, 'w) proposing
      \<Rightarrow> (node_error + unit) \<times> ('sig, 'w) proposing" where
  "init_group cr hash gw started comes_to_lead me sk founders s p =
     (if \<not> gw_voting gw (po_world p) then (Inl NotCore, p)
      else case started (bt_collect (map (\<lambda>(profile, addr). (raw_of (profile_id profile), addr)) founders)) (po_world p) of
        (Inl message, w) \<Rightarrow> (Inl (RaftFailed message), p\<lparr>po_world := w\<rparr>)
      | (Inr _, w) \<Rightarrow>
          (case comes_to_lead w of
             (Inl message, w) \<Rightarrow> (Inl (RaftFailed message), p\<lparr>po_world := w\<rparr>)
           | (Inr _, w) \<Rightarrow>
               (case found_event hash founders s (gw_now gw w) of
                  Inl e \<Rightarrow> (Inl (EventRefused e), p\<lparr>po_world := w\<rparr>)
                | Inr event \<Rightarrow>
                    (case propose cr gw me sk event (p\<lparr>po_world := w\<rparr>) of
                       (Inl e, p) \<Rightarrow> (Inl e, p)
                     | (Inr _, p) \<Rightarrow> (Inr (), p)))))"

section \<open>Saying which protocols this node supports\<close>

datatype look_again = AtOnce | After duration | WhenChanged

definition says_less :: "membership_state \<Rightarrow> member_id \<Rightarrow> u32 \<Rightarrow> bool" where
  "says_less s me newest \<longleftrightarrow>
     ms_protocol s \<le> newest \<and> (case bt_get (ms_members s) me of None \<Rightarrow> False | Some r \<Rightarrow> rec_protocol_max r < newest)"

text \<open>One turn of the loop: when it looks again.\<close>

definition announce_protocol_support ::
    "('sk, 'sig) crypto \<Rightarrow> ('sig, 'w) group_world \<Rightarrow> 'sk \<Rightarrow> u32 \<Rightarrow> ('sig, 'w) proposing \<Rightarrow> look_again \<times> ('sig, 'w) proposing" where
  "announce_protocol_support cr gw sk newest p =
     (let me = public_of cr sk
      in if says_less (gw_enforced gw (po_world p)) me newest
         then (case propose cr gw me sk (ProtocolSupported me newest) p of
                 (Inr _, p) \<Rightarrow> (AtOnce, p)
               | (Inl (EventRefused e), p) \<Rightarrow> (WhenChanged, p)
               | (Inl e, p) \<Rightarrow> (After ANNOUNCE_RETRY, p))
         else (WhenChanged, p))"

section \<open>How often an event is sent\<close>

fun event_sent :: "'sig sending \<Rightarrow> 'sig signed_event" where
  "event_sent (ToRaft ev _) = ev"
| "event_sent (ToNode _ ev _) = ev"

text \<open>What was sent since, and whether one of those committed at an index.\<close>

definition sent_since :: "('sig, 'w) proposing \<Rightarrow> ('sig, 'w) proposing \<Rightarrow> 'sig sending list" where
  "sent_since p p' = drop (length (po_sent p)) (po_sent p')"

fun committed_at :: "u64 \<Rightarrow> 'sig sending \<Rightarrow> bool" where
  "committed_at i (ToRaft _ wrote) \<longleftrightarrow> wrote = Wrote (Inr ()) i"
| "committed_at i (ToNode _ _ got) \<longleftrightarrow> got = Inr i"

fun refused_by_the_rules :: "consensus_error \<Rightarrow> 'sig sending \<Rightarrow> bool" where
  "refused_by_the_rules e (ToRaft _ wrote) \<longleftrightarrow> (\<exists>i. wrote = Wrote (Inl e) i)"
| "refused_by_the_rules e (ToNode _ _ got) \<longleftrightarrow> got = Inl (ProposalRejected e)"

text \<open>
  What every way to commit an event keeps: it sends that event alone, at most so often, only the last
  sending is decided one way or the other, and the verdict is what that sending was answered.
\<close>

definition is_decided :: "'sig sending \<Rightarrow> bool" where
  "is_decided s \<longleftrightarrow> (\<exists>i. committed_at i s) \<or> (\<exists>e. refused_by_the_rules e s)"

definition commits_at_most ::
    "nat \<Rightarrow> 'sig signed_event \<Rightarrow> ('sig, 'w) proposing \<Rightarrow> (node_error + u64) \<times> ('sig, 'w) proposing \<Rightarrow> bool" where
  "commits_at_most n ev p = (\<lambda>(r, p'). \<exists>new. po_sent p' = po_sent p @ new \<and> length new \<le> n \<and>
     (\<forall>s \<in> set new. event_sent s = ev) \<and> (\<forall>s \<in> set (butlast new). \<not> is_decided s) \<and>
     (case r of
        Inr i \<Rightarrow> new \<noteq> [] \<and> committed_at i (last new)
      | Inl (EventRefused e) \<Rightarrow> new \<noteq> [] \<and> refused_by_the_rules e (last new)
      | Inl _ \<Rightarrow> \<forall>s \<in> set new. \<not> is_decided s))"

lemma is_decided_simps [simp]:
  "is_decided (ToRaft ev (Wrote v i))" "\<not> is_decided (ToRaft ev (ForwardToLeader a b m))" "\<not> is_decided (ToRaft ev (WriteFailed m))"
  "is_decided (ToNode n ev (Inr i))" "is_decided (ToNode n ev (Inl (ProposalRejected e)))"
  "\<not> is_decided (ToNode n ev (Inl (PeerUnreachable q m)))" "\<not> is_decided (ToNode n ev (Inl (LeaderDidNotCommit m)))"
  by (cases v) (auto simp: is_decided_def)

lemma committed_decided: "committed_at i s \<Longrightarrow> is_decided s"
  by (auto simp: is_decided_def)

lemma refused_not_committed: "refused_by_the_rules e s \<Longrightarrow> \<not> committed_at i s"
  by (cases s) auto

lemma commits_after_one:
  assumes "commits_at_most n ev p1 out" and "po_sent p1 = po_sent p @ [s]" and "event_sent s = ev" and "\<not> is_decided s"
  shows "commits_at_most (Suc n) ev p out"
proof -
  obtain r p' where out: "out = (r, p')" by (cases out)
  from assms(1) obtain new where new: "po_sent p' = po_sent p1 @ new" "length new \<le> n"
      "\<forall>s \<in> set new. event_sent s = ev" "\<forall>s \<in> set (butlast new). \<not> is_decided s"
    and r: "case r of Inr i \<Rightarrow> new \<noteq> [] \<and> committed_at i (last new)
      | Inl (EventRefused e) \<Rightarrow> new \<noteq> [] \<and> refused_by_the_rules e (last new)
      | Inl _ \<Rightarrow> \<forall>s \<in> set new. \<not> is_decided s"
    by (auto simp: commits_at_most_def out)
  have "\<forall>u \<in> set (butlast (s # new)). \<not> is_decided u"
    using new(4) assms(4) by (cases "new = []") auto
  then show ?thesis
    unfolding commits_at_most_def out prod.case using new r assms(2-4)
    by (intro exI [of _ "s # new"]) (auto split: sum.splits node_error.splits)
qed

lemma commits_later:
  assumes "commits_at_most n ev p1 out" and "po_sent p1 = po_sent p" and "n \<le> m"
  shows "commits_at_most m ev p out"
  using assms by (fastforce simp: commits_at_most_def)

lemma commits_now:
  assumes "po_sent p' = po_sent p @ [s]" and "event_sent s = ev"
    and "case r of Inr i \<Rightarrow> committed_at i s | Inl (EventRefused e) \<Rightarrow> refused_by_the_rules e s | Inl _ \<Rightarrow> \<not> is_decided s"
  shows "commits_at_most (Suc n) ev p (r, p')"
  using assms by (auto simp: commits_at_most_def split: sum.splits node_error.splits)

lemma commits_nothing:
  assumes "po_sent p' = po_sent p" and "\<And>e. x \<noteq> EventRefused e"
  shows "commits_at_most n ev p (Inl x, p')"
  using assms by (auto simp: commits_at_most_def split: node_error.splits)

lemma propose_to_sends:
  "propose_to gw node addr ev p = (got, p') \<Longrightarrow> po_sent p' = po_sent p @ [ToNode node ev got]"
  by (auto simp: propose_to_def split: prod.splits)

lemma write_here_sends: "write_here gw ev p = (wrote, p') \<Longrightarrow> po_sent p' = po_sent p @ [ToRaft ev wrote]"
  by (auto simp: write_here_def split: prod.splits)

lemma ask_candidates_commits: "commits_at_most (length cs) ev p (ask_candidates gw ev cs unreached p)"
proof (induction cs arbitrary: unreached p)
  case Nil
  show ?case by (auto intro!: commits_nothing split: option.splits)
next
  case (Cons c cs)
  obtain member addr where c: "c = (member, addr)" by (cases c)
  obtain got p1 where got: "propose_to gw (raw_of member) addr ev p = (got, p1)"
    by (cases "propose_to gw (raw_of member) addr ev p")
  note sent = propose_to_sends [OF got]
  show ?case
  proof (cases got)
    case (Inl e)
    then show ?thesis
      using got sent commits_after_one [OF Cons.IH sent]
      by (cases e) (auto simp: c intro!: commits_now)
  qed (auto simp: c got sent intro!: commits_now)
qed

lemma commit_attempts_commits: "commits_at_most (2 * n) ev p (commit_attempts n gw ev unreached p)"
proof (induction n arbitrary: unreached p)
  case 0
  show ?case by (auto intro!: commits_nothing split: option.splits)
next
  case (Suc n)
  obtain wrote p1 where wrote: "write_here gw ev p = (wrote, p1)" by (cases "write_here gw ev p")
  note sent = write_here_sends [OF wrote]
  show ?case
  proof (cases wrote)
    case (Wrote verdict i)
    then show ?thesis using wrote by (cases verdict) (auto intro!: commits_now [OF sent])
  next
    case (WriteFailed m)
    then show ?thesis using wrote by (auto intro!: commits_now [OF sent])
  next
    case (ForwardToLeader named at_addr m)
    have undecided: "event_sent (ToRaft ev wrote) = ev" "\<not> is_decided (ToRaft ev wrote)" by (simp_all add: ForwardToLeader)
    have "commits_at_most (Suc (2 * n)) ev p1 (commit_attempts (Suc n) gw ev unreached p)"
    proof (cases "named = None \<or> at_addr = None")
      case True
      obtain emerged w where w: "gw_leader_emerges gw (po_world p1) = (emerged, w)"
        by (cases "gw_leader_emerges gw (po_world p1)")
      have "commit_attempts (Suc n) gw ev unreached p =
          (if emerged then commit_attempts n gw ev unreached (p1\<lparr>po_world := w\<rparr>)
           else (Inl (RaftFailed ''a leader to emerge''), p1\<lparr>po_world := w\<rparr>))"
        using True w by (auto simp: wrote ForwardToLeader split: option.splits bool.splits)
      then show ?thesis
        using commits_later [OF Suc.IH [of "p1\<lparr>po_world := w\<rparr>" unreached], of p1]
        by (auto intro!: commits_nothing)
    next
      case False
      then obtain leader addr where la: "named = Some leader" "at_addr = Some addr" by auto
      obtain got p2 where got: "propose_to gw leader addr ev p1 = (got, p2)" by (cases "propose_to gw leader addr ev p1")
      note sent2 = propose_to_sends [OF got]
      show ?thesis
      proof (cases got)
        case (Inl e)
        have again: "commits_at_most (Suc (2 * n)) ev p1
            (commit_attempts n gw ev (Some (leader, e)) (p2\<lparr>po_world := gw_leader_moves gw leader (po_world p2)\<rparr>))"
          if "\<not> is_decided (ToNode leader ev (Inl e))"
          by (rule commits_after_one [OF Suc.IH]) (use sent2 that Inl in auto)
        show ?thesis
          using again by (cases e) (auto simp: wrote ForwardToLeader la got Inl intro!: commits_now [OF sent2])
      qed (auto simp: wrote ForwardToLeader la got intro!: commits_now [OF sent2])
    qed
    from commits_after_one [OF this sent undecided] show ?thesis by simp
  qed
qed

text \<open>Where the attempts of one proposal go, and how many there are at most.\<close>

definition attempts_of :: "('sig, 'w) group_world \<Rightarrow> member_id \<Rightarrow> 'w \<Rightarrow> nat" where
  "attempts_of gw me w =
     (if gw_voting gw w then 2 * PROPOSE_ATTEMPTS else length (follow_candidates (gw_sources gw w) me))"

lemma propose_once_commits:
  "(\<exists>e. (within_limits event = Inl e \<or>
        sign_event cr sk event (gw_now gw (po_world p)) (ms_changed_at (gw_enforced gw (po_world p))) = Inl e) \<and>
      propose_once cr gw me sk event p = (Inl (EventRefused e), p)) \<or>
   (\<exists>ev. sign_event cr sk event (gw_now gw (po_world p)) (ms_changed_at (gw_enforced gw (po_world p))) = Inr ev \<and>
      commits_at_most (attempts_of gw me (po_world p)) ev p (propose_once cr gw me sk event p))"
proof (cases "within_limits event")
  case (Inr u)
  show ?thesis
  proof (cases "sign_event cr sk event (gw_now gw (po_world p)) (ms_changed_at (gw_enforced gw (po_world p)))")
    case (Inr ev)
    have "commits_at_most (attempts_of gw me (po_world p)) ev p (propose_once cr gw me sk event p)"
      using commit_attempts_commits [of PROPOSE_ATTEMPTS ev p gw None]
        ask_candidates_commits [of "follow_candidates (gw_sources gw (po_world p)) me" ev p gw None]
      by (auto simp: propose_once_def \<open>within_limits event = Inr u\<close> Inr attempts_of_def commit_as_core_def
          commit_as_follower_def Let_def intro: commits_nothing)
    then show ?thesis using Inr by blast
  qed (simp add: propose_once_def Inr)
qed (simp add: propose_once_def)

lemma signed_as_sent:
  assumes "sign_event cr sk event at changed_at = Inr ev"
  shows "se_event ev = event" and "se_proposer ev = public_of cr sk" and "se_changed_at ev = changed_at"
  using assms by (auto simp: sign_event_def Let_def split: sum.splits)

lemma catch_up_keeps: "catch_up_to gw i p = (r, p') \<Longrightarrow> po_sent p' = po_sent p"
  by (auto simp: catch_up_to_def split: prod.splits)

lemma wait_until_reaches: "wait_until gw i w later = (True, w') \<Longrightarrow> i \<le> ms_changed_at (gw_enforced gw w')"
  by (induction gw i w later rule: wait_until.induct) (simp split: if_splits list.splits)

declare wait_until.simps [simp del]

lemma catch_up_reaches: "catch_up_to gw i p = (Inr u, p') \<Longrightarrow> i \<le> ms_changed_at (gw_enforced gw (po_world p'))"
  by (auto simp: catch_up_to_def dest: wait_until_reaches split: prod.splits if_splits)

text \<open>One round, as the events it sends.\<close>

definition round_sends :: "'sk \<Rightarrow> membership_event \<Rightarrow> u64 \<Rightarrow> ('sk, 'sig) crypto \<Rightarrow> 'sig sending list \<Rightarrow> bool" where
  "round_sends sk event base cr new \<longleftrightarrow>
     (\<forall>s \<in> set new. se_event (event_sent s) = event \<and> se_proposer (event_sent s) = public_of cr sk \<and>
        se_changed_at (event_sent s) = base) \<and>
     (\<forall>s \<in> set (butlast new). \<not> is_decided s)"

lemma propose_once_round:
  assumes "propose_once cr gw me sk event p = (r, p')"
  obtains new where "po_sent p' = po_sent p @ new" and "length new \<le> attempts_of gw me (po_world p)"
    and "round_sends sk event (ms_changed_at (gw_enforced gw (po_world p))) cr new"
    and "\<And>i. r = Inr i \<Longrightarrow> new \<noteq> [] \<and> committed_at i (last new)"
    and "\<And>e. r = Inl (EventRefused e) \<Longrightarrow> new \<noteq> [] \<Longrightarrow> refused_by_the_rules e (last new)"
    and "\<And>x. r = Inl x \<Longrightarrow> (\<And>e. x \<noteq> EventRefused e) \<Longrightarrow> \<forall>s \<in> set new. \<not> is_decided s"
proof -
  from propose_once_commits [where cr = cr and gw = gw and me = me and sk = sk and event = event and p = p]
  consider e where "propose_once cr gw me sk event p = (Inl (EventRefused e), p)"
    | ev where "sign_event cr sk event (gw_now gw (po_world p)) (ms_changed_at (gw_enforced gw (po_world p))) = Inr ev"
      "commits_at_most (attempts_of gw me (po_world p)) ev p (propose_once cr gw me sk event p)"
    by blast
  then show thesis
  proof cases
    case (1 e)
    have "propose_once cr gw me sk event p = (Inl (EventRefused e), p)" by (rule 1)
    then show thesis
      by (intro that [of "[]"]) (use assms in \<open>auto simp: round_sends_def\<close>)
  next
    case (2 ev)
    note ev = 2(1)
    from 2(2) obtain new where new: "po_sent p' = po_sent p @ new" "length new \<le> attempts_of gw me (po_world p)"
        "\<forall>s \<in> set new. event_sent s = ev" "\<forall>s \<in> set (butlast new). \<not> is_decided s"
        "case r of Inr i \<Rightarrow> new \<noteq> [] \<and> committed_at i (last new)
          | Inl (EventRefused e) \<Rightarrow> new \<noteq> [] \<and> refused_by_the_rules e (last new)
          | Inl _ \<Rightarrow> \<forall>s \<in> set new. \<not> is_decided s"
      by (auto simp: commits_at_most_def assms)
    show thesis
      by (rule that [of new]) (use new signed_as_sent [OF ev] in \<open>auto simp: round_sends_def split: node_error.splits\<close>)
  qed
qed

lemma propose_and_retry_rounds:
  assumes "propose_and_retry cr gw me sk event p = (r, p')"
  obtains (once) "propose_once cr gw me sk event p = (r, p')"
  | (behind) stated current p1 where "propose_once cr gw me sk event p = (Inl (EventRefused (StaleProposal stated current)), p1)"
      and "r = Inl (BehindTheGroup current)" and "po_sent p' = po_sent p1"
  | (again) stated current p1 p2 where "sent_again_when_stale event"
      and "propose_once cr gw me sk event p = (Inl (EventRefused (StaleProposal stated current)), p1)"
      and "catch_up_to gw current p1 = (Inr (), p2)" and "propose_once cr gw me sk event p2 = (r, p')"
proof (cases "propose_once cr gw me sk event p")
  case (Pair r1 p1)
  show thesis
  proof (cases "\<exists>stated current. r1 = Inl (EventRefused (StaleProposal stated current)) \<and> sent_again_when_stale event")
    case True
    then obtain stated current where r1: "r1 = Inl (EventRefused (StaleProposal stated current))"
      and resend: "sent_again_when_stale event" by blast
    obtain c p2 where c: "catch_up_to gw current p1 = (c, p2)" by (cases "catch_up_to gw current p1")
    show thesis
    proof (cases c)
      case (Inl x)
      then have "x = BehindTheGroup current" "po_sent p2 = po_sent p1"
        using c by (auto simp: catch_up_to_def split: prod.splits if_splits)
      then show thesis
        using behind [of stated current p1] assms Pair r1 resend c Inl by (simp add: propose_and_retry_def)
    next
      case (Inr u)
      then show thesis
        using again [of stated current p1 p2] assms Pair r1 resend c by (simp add: propose_and_retry_def)
    qed
  next
    case False
    then have "propose_and_retry cr gw me sk event p = (r1, p1)"
      using Pair by (auto simp: propose_and_retry_def split: sum.splits node_error.splits consensus_error.splits)
    then show thesis using once assms Pair by simp
  qed
qed

lemma try_for_each_Inl: "try_for_each f xs = Inl e \<Longrightarrow> \<exists>x \<in> set xs. f x = Inl e"
  by (induction xs) (auto split: sum.splits)

lemma refusals_before_sending:
  "within_limits event \<noteq> Inl (StaleProposal a b)" "sign_event cr sk event at base \<noteq> Inl (StaleProposal a b)"
  by (cases event) (auto simp: within_def sign_event_def signing_payload_def Let_def
      dest!: try_for_each_Inl split: sum.splits if_splits)

lemma stale_was_sent:
  assumes "propose_once cr gw me sk event p = (Inl (EventRefused (StaleProposal stated current)), p')"
  shows "po_sent p' \<noteq> po_sent p"
  using propose_once_commits [where cr = cr and gw = gw and me = me and sk = sk and event = event and p = p] assms refusals_before_sending
  by (fastforce simp: commits_at_most_def)

text \<open>
  C16. A proposal is sent a bounded number of times, and says what this node knew. In a first round it
  goes at most six times, from a voter, or once to each core node this node knows of, otherwise, and states
  the membership this node enforced when it was asked. A second round follows only for an event that may be
  sent again, once the group refused the first as stale and this node reached the membership it was
  refused against; it states what the node enforces by then. Within a round, nothing is sent after
  the group has decided.
\<close>
theorem proposals_are_bounded:
  assumes "propose cr gw me sk event p = (r, p')"
  shows "\<exists>first second w. po_sent p' = po_sent p @ first @ second \<and>
    length first \<le> attempts_of gw me (po_world p) \<and> length second \<le> attempts_of gw me w \<and>
    round_sends sk event (ms_changed_at (gw_enforced gw (po_world p))) cr first \<and>
    round_sends sk event (ms_changed_at (gw_enforced gw w)) cr second \<and>
    (second \<noteq> [] \<longrightarrow> sent_again_when_stale event \<and> first \<noteq> [] \<and>
      (\<exists>stated current. refused_by_the_rules (StaleProposal stated current) (last first) \<and>
         current \<le> ms_changed_at (gw_enforced gw w)))"
proof -
  obtain r1 p1 where first: "propose_and_retry cr gw me sk event p = (r1, p1)"
    by (cases "propose_and_retry cr gw me sk event p")
  have sent: "po_sent p' = po_sent p1"
    using assms first by (auto simp: propose_def dest: catch_up_keeps split: sum.splits prod.splits)
  have one: ?thesis if q: "po_sent p1 = po_sent q" "propose_once cr gw me sk event p = (r', q)" for q r'
  proof -
    obtain new where "po_sent q = po_sent p @ new" "length new \<le> attempts_of gw me (po_world p)"
        "round_sends sk event (ms_changed_at (gw_enforced gw (po_world p))) cr new"
      using propose_once_round [OF q(2)] by metis
    then show ?thesis
      by (intro exI [of _ new] exI [of _ "[]"] exI [of _ "po_world p"])
        (simp add: sent q(1) round_sends_def)
  qed
  from first show ?thesis
  proof (cases rule: propose_and_retry_rounds)
    case (again stated current q1 q2)
    obtain new1 where new1: "po_sent q1 = po_sent p @ new1" "length new1 \<le> attempts_of gw me (po_world p)"
        "round_sends sk event (ms_changed_at (gw_enforced gw (po_world p))) cr new1"
        "new1 \<noteq> [] \<Longrightarrow> refused_by_the_rules (StaleProposal stated current) (last new1)"
      using propose_once_round [OF again(2)] by metis
    obtain new2 where new2: "po_sent p1 = po_sent q2 @ new2" "length new2 \<le> attempts_of gw me (po_world q2)"
        "round_sends sk event (ms_changed_at (gw_enforced gw (po_world q2))) cr new2"
      using propose_once_round [OF again(4)] by metis
    have "new1 \<noteq> []" using stale_was_sent [OF again(2)] new1(1) by auto
    then show ?thesis
      using new1 new2 again(1) catch_up_keeps [OF again(3)] catch_up_reaches [OF again(3)]
      by (intro exI [of _ new1] exI [of _ new2] exI [of _ "po_world q2"]) (auto simp: sent)
  qed (use one in auto)
qed

text \<open>
  C17. A proposal that is answered has been applied here. When proposing answers with an index, the last
  sending of its event was answered as committed at that index and accepted, to take effect or to wait
  for approvals; no earlier sending of it was answered so; and the membership this node enforces has
  changed at that index or later.
\<close>
theorem proposed_is_in_effect:
  assumes "propose cr gw me sk event p = (Inr i, p')"
  shows "\<exists>new. po_sent p' = po_sent p @ new \<and> new \<noteq> [] \<and> committed_at i (last new) \<and>
    (\<forall>s \<in> set (butlast new). \<forall>j. \<not> committed_at j s) \<and> se_event (event_sent (last new)) = event \<and>
    i \<le> ms_changed_at (gw_enforced gw (po_world p'))"
proof -
  obtain p1 where p1: "propose_and_retry cr gw me sk event p = (Inr i, p1)" "catch_up_to gw i p1 = (Inr (), p')"
    using assms by (auto simp: propose_def split: sum.splits prod.splits)
  note kept = catch_up_keeps [OF p1(2)] and reached = catch_up_reaches [OF p1(2)]
  from p1(1) show ?thesis
  proof (cases rule: propose_and_retry_rounds)
    case once
    obtain new where "po_sent p1 = po_sent p @ new" "new \<noteq> []" "committed_at i (last new)"
        "round_sends sk event (ms_changed_at (gw_enforced gw (po_world p))) cr new"
      using propose_once_round [OF once] by metis
    then show ?thesis
      by (intro exI [of _ new]) (auto simp: kept reached round_sends_def dest: committed_decided)
  next
    case (again stated current q1 q2)
    obtain new1 where new1: "po_sent q1 = po_sent p @ new1"
        "round_sends sk event (ms_changed_at (gw_enforced gw (po_world p))) cr new1"
        "new1 \<noteq> [] \<Longrightarrow> refused_by_the_rules (StaleProposal stated current) (last new1)"
      using propose_once_round [OF again(2)] by metis
    obtain new2 where new2: "po_sent p1 = po_sent q2 @ new2" "new2 \<noteq> []" "committed_at i (last new2)"
        "round_sends sk event (ms_changed_at (gw_enforced gw (po_world q2))) cr new2"
      using propose_once_round [OF again(4)] by metis
    have "\<not> committed_at j s" if "s \<in> set new1" for j s
    proof -
      have "new1 \<noteq> []" "s \<in> set (butlast new1) \<or> s = last new1"
        using that by (cases new1 rule: rev_cases; auto)+
      then show ?thesis using new1(2,3) that by (auto simp: round_sends_def dest: committed_decided refused_not_committed)
    qed
    then show ?thesis
      using new1(1) new2 catch_up_keeps [OF again(3)]
      by (intro exI [of _ "new1 @ new2"])
        (auto simp: kept reached round_sends_def butlast_append dest: committed_decided)
  qed simp
qed

section \<open>A concrete proposal\<close>

text \<open>
  A follower at index 4 proposes a pledge to the one core node it knows of, which is at index 5 already:
  it is refused, catches up, and is taken at index 6.
\<close>

definition moving_group :: "(member_id, nat) group_world" where
  "moving_group =
     \<lparr>gw_enforced = (\<lambda>w. ms_new\<lparr>ms_changed_at := of_nat w\<rparr>), gw_now = (\<lambda>_. 0), gw_voting = (\<lambda>_. False),
      gw_sources = (\<lambda>_. \<lparr>src_core = [(MemberId 2, \<lparr>relay = None, direct = {}\<rparr>)], src_leader = None\<rparr>),
      gw_write = (\<lambda>_ w. (WriteFailed ''no Raft'', w)),
      gw_propose = (\<lambda>_ _ ev w. (if se_changed_at ev = 5 then Inr 6
         else Inl (ProposalRejected (StaleProposal (se_changed_at ev) 5)), w)),
      gw_leader_moves = (\<lambda>_ w. w), gw_leader_emerges = (\<lambda>w. (False, w)), gw_later = (\<lambda>_. [5, 6]), gw_hint = (\<lambda>_ w. w)\<rparr>"

definition asked_at_4 :: "(member_id, nat) proposing" where
  "asked_at_4 = \<lparr>po_world = 4, po_sent = []\<rparr>"

lemma moving_group_run:
  "\<exists>p'. propose plain_crypto moving_group (MemberId 1) (MemberId 1) (PledgeChanged (MemberId 1) 7) asked_at_4 = (Inr 6, p') \<and>
     length (po_sent p') = 2 \<and> refused_by_the_rules (StaleProposal 4 5) (hd (po_sent p'))"
  by (simp add: propose_def propose_and_retry_def propose_once_def commit_as_follower_def follow_candidates_def
      catch_up_to_def wait_until.simps propose_to_def moving_group_def asked_at_4_def plain_crypto_def sign_event_def
      signing_payload_def Let_def)

theorem proposals_are_bounded_witness:
  "\<exists>p' first second. propose plain_crypto moving_group (MemberId 1) (MemberId 1) (PledgeChanged (MemberId 1) 7) asked_at_4 = (Inr 6, p') \<and>
     po_sent p' = first @ second \<and> length first = 1 \<and> length second = 1 \<and>
     (\<forall>s \<in> set first. se_changed_at (event_sent s) = 4) \<and>
     refused_by_the_rules (StaleProposal 4 5) (last first)"
proof -
  obtain p' where run: "propose plain_crypto moving_group (MemberId 1) (MemberId 1) (PledgeChanged (MemberId 1) 7) asked_at_4 = (Inr 6, p')"
    and two: "length (po_sent p') = 2" "refused_by_the_rules (StaleProposal 4 5) (hd (po_sent p'))"
    using moving_group_run by blast
  have most: "attempts_of moving_group (MemberId 1) w = 1" for w
    by (simp add: attempts_of_def moving_group_def follow_candidates_def)
  have start: "ms_changed_at (gw_enforced moving_group (po_world asked_at_4)) = 4" "po_sent asked_at_4 = []"
    by (simp_all add: moving_group_def asked_at_4_def)
  from proposals_are_bounded [OF run, unfolded start most] obtain first second w where sent: "po_sent p' = first @ second"
      "length first \<le> 1" "length second \<le> 1" "round_sends (MemberId 1) (PledgeChanged (MemberId 1) 7) 4 plain_crypto first"
    by (elim exE conjE) simp
  moreover from this two(1) have "length first = 1" "length second = 1" by auto
  moreover from this obtain s where "first = [s]" by (cases first) auto
  ultimately show ?thesis
    using run two(2) by (intro exI [of _ p'] exI [of _ first] exI [of _ second]) (auto simp: round_sends_def)
qed

theorem proposed_is_in_effect_witness:
  "\<exists>p'. propose plain_crypto moving_group (MemberId 1) (MemberId 1) (PledgeChanged (MemberId 1) 7) asked_at_4 = (Inr 6, p') \<and>
     committed_at 6 (last (po_sent p')) \<and> 6 \<le> ms_changed_at (gw_enforced moving_group (po_world p'))"
proof -
  obtain p' where run: "propose plain_crypto moving_group (MemberId 1) (MemberId 1) (PledgeChanged (MemberId 1) 7) asked_at_4 = (Inr 6, p')"
    using moving_group_run by blast
  show ?thesis using proposed_is_in_effect [OF run] run by (auto simp: asked_at_4_def)
qed

end
