(* ===== verification/Raft_Network.thy ===== *)
theory Raft_Network
  imports Core_Group Admission
begin

text \<open>
  \<open>distlib/raft/0\<close>, both halves of \<open>distlib-consensus/src/raft/network.rs\<close>: who may speak Raft to this
  node, what becomes of each request, and how a peer is asked. Raft itself is a state that requests
  move; their payloads and its answers are openraft's. What a connection does comes with each call.
\<close>

section \<open>Requests and answers\<close>

definition MAX_RPC_BYTES :: nat where "MAX_RPC_BYTES = 16 * 1024 * 1024"

datatype 'q raft_request =
    AppendEntries 'q
  | Vote 'q
  | InstallSnapshot 'q
  | AskRetired
  | ForgetMe

datatype 'a raft_response =
    AppendedEntries 'a
  | Voted 'a
  | InstalledSnapshot 'a
  | IsRetired bool
  | Forgotten bool

text \<open>A Raft, and what it makes of a request and of a change of its configuration in time.\<close>

record ('q, 'a, 'r) raft_engine =
  re_append :: "'q \<Rightarrow> 'r \<Rightarrow> 'a \<times> 'r"
  re_vote :: "'q \<Rightarrow> 'r \<Rightarrow> 'a \<times> 'r"
  re_install :: "'q \<Rightarrow> 'r \<Rightarrow> 'a \<times> 'r"
  re_change :: "change_members \<Rightarrow> bool \<Rightarrow> 'r \<Rightarrow> bool \<times> 'r"

type_synonym trusted_core = "member_id btset"

definition trusted_contains :: "trusted_core \<Rightarrow> member_id \<Rightarrow> bool" where
  "trusted_contains trusted peer = bt_has trusted peer"

definition trusted_replace :: "member_id btset \<Rightarrow> trusted_core \<Rightarrow> trusted_core" where
  "trusted_replace members trusted = members"

record ('m, 'b) raft_protocol =
  rp_api :: "'m reconfig_api"
  rp_seat :: "'m raft_metrics seat"
  rp_state :: "('m, 'b) sm_store"
  rp_trusted :: trusted_core

section \<open>Who may speak\<close>

definition applied_voter :: "('m, 'b) raft_protocol \<Rightarrow> member_id \<Rightarrow> bool" where
  "applied_voter rp peer \<longleftrightarrow> raw_of peer \<in> set (voter_ids (rp_api rp) (stm_config (st_raft_published (rp_state rp))))"

definition may_speak_raft :: "('m, 'b) raft_protocol \<Rightarrow> 'm raft_metrics \<Rightarrow> member_id \<Rightarrow> bool" where
  "may_speak_raft rp metrics peer =
     (if (case current_promotion (rp_state rp) of None \<Rightarrow> False | Some p \<Rightarrow> bt_has (pr_voters p) peer) then True
      else if applied_voter rp peer then True
      else
        (let voters = voter_ids (rp_api rp) (mx_config metrics)
         in if voters \<noteq> []
            then (\<exists>raw \<in> set voters. member_of_raw (on_curve (rp_api rp)) raw = Some peer)
            else ms_group (sm_membership (rp_state rp)) = None \<and> trusted_contains (rp_trusted rp) peer))"

definition may_query_retirement :: "('m, 'b) raft_protocol \<Rightarrow> member_id \<Rightarrow> bool" where
  "may_query_retirement rp peer \<longleftrightarrow>
     (case rp_seat rp of None \<Rightarrow> False | Some metrics \<Rightarrow> may_speak_raft rp metrics peer) \<or>
     is_core (sm_membership (rp_state rp)) peer \<or>
     raw_of peer \<in> fst ` set (config_nodes (rp_api rp) (stm_config (st_raft_published (rp_state rp))))"

section \<open>Answering\<close>

definition forget_retired ::
    "('q, 'a, 'r) raft_engine \<Rightarrow> ('m, 'b) raft_protocol \<Rightarrow> member_id \<Rightarrow> 'r \<Rightarrow> bool \<times> 'r" where
  "forget_retired re rp peer r =
     (if rp_seat rp = None then (False, r)
      else
        (let applied = stm_config (st_raft_published (rp_state rp))
         in if is_member (sm_membership (rp_state rp)) peer \<or> length (joint_config (rp_api rp) applied) \<noteq> 1 \<or>
               raw_of peer \<in> set (voter_ids (rp_api rp) applied)
            then (False, r)
            else re_change re (RemoveNodes (bts_of [raw_of peer])) True r))"

definition raft_answer ::
    "('q, 'a, 'r) raft_engine \<Rightarrow> ('m, 'b) raft_protocol \<Rightarrow> 'q raft_request \<Rightarrow> 'r \<Rightarrow> 'a raft_response \<times> 'r" where
  "raft_answer re rp req r =
     (case req of
        AskRetired \<Rightarrow> (IsRetired (rp_seat rp = None), r)
      | ForgetMe \<Rightarrow> (Forgotten False, r)
      | AppendEntries q \<Rightarrow> map_prod AppendedEntries id (re_append re q r)
      | Vote q \<Rightarrow> map_prod Voted id (re_vote re q r)
      | InstallSnapshot q \<Rightarrow> map_prod InstalledSnapshot id (re_install re q r))"

text \<open>
  One turn of the loop over a connection: \<open>before\<close> is the node as it waits for a stream, \<open>rp\<close> as it is
  once the request has come. No answer means that the connection is closed, to one that is not a voter.
\<close>

definition serve_request ::
    "('q, 'a, 'r) raft_engine \<Rightarrow> ('m, 'b) raft_protocol \<Rightarrow> member_id \<Rightarrow> 'q raft_request \<Rightarrow> 'r
      \<Rightarrow> 'a raft_response option \<times> 'r" where
  "serve_request re rp peer req r =
     (let authorized = (case rp_seat rp of None \<Rightarrow> applied_voter rp peer | Some metrics \<Rightarrow> may_speak_raft rp metrics peer);
          may_query = may_query_retirement rp peer
      in if req = AskRetired \<and> may_query then (Some (IsRetired (rp_seat rp = None)), r)
         else if req = ForgetMe \<and> may_query then map_prod (\<lambda>finished. Some (Forgotten finished)) id (forget_retired re rp peer r)
         else if rp_seat rp \<noteq> None \<and> authorized then map_prod Some id (raft_answer re rp req r)
         else (None, r))"

definition accept_turn ::
    "('q, 'a, 'r) raft_engine \<Rightarrow> ('m, 'b) raft_protocol \<Rightarrow> ('m, 'b) raft_protocol \<Rightarrow> member_id \<Rightarrow> 'q raft_request \<Rightarrow> 'r
      \<Rightarrow> 'a raft_response option \<times> 'r" where
  "accept_turn re before rp peer req r =
     (if \<not> may_query_retirement before peer then (None, r) else serve_request re rp peer req r)"

section \<open>Asking\<close>

text \<open>What openraft is told: that the peer cannot be dialled, that the exchange failed, or the peer's own error.\<close>

datatype 'e rpc_error = RpcUnreachable string | RpcNetwork string | RpcRemote raw_member_id 'e

record raft_client =
  rc_target :: raw_member_id
  rc_addr :: node_addr

text \<open>
  What happens on the way: a dial, and then the exchange on the connection, with whether the connection
  was closed as a rejection.
\<close>

datatype dial_error = RejectedByRemote | DialFailed string

record ('url, 'a) wire =
  wi_curve :: "256 word \<Rightarrow> bool"
  wi_parse :: "string \<Rightarrow> 'url option"
  wi_endpoint :: endpoint
  wi_dialled :: "dial_error + nat"
  wi_exchange :: "string + 'a raft_response"
  wi_rejected :: bool

definition client_endpoint_addr :: "('url, 'a) wire \<Rightarrow> raft_client \<Rightarrow> 'e rpc_error + 'url endpoint_addr" where
  "client_endpoint_addr wi rc =
     (case member_of_raw (wi_curve wi) (rc_target rc) of
        None \<Rightarrow> Inl (RpcUnreachable ''not a member id'')
      | Some member \<Rightarrow>
          (case to_endpoint_addr (wi_parse wi) (rc_addr rc) member of
             None \<Rightarrow> Inl (RpcUnreachable ''unparseable relay url'')
           | Some ea \<Rightarrow> Inr ea))"

definition rpc_connection ::
    "('url, 'a) wire \<Rightarrow> raft_client \<Rightarrow> connections \<Rightarrow> ('e rpc_error + nat) \<times> connections" where
  "rpc_connection wi rc cs =
     (case member_of_raw (wi_curve wi) (rc_target rc) of
        None \<Rightarrow> (Inl (RpcUnreachable ''not a member id''), cs)
      | Some peer \<Rightarrow>
          (case client_endpoint_addr wi rc of
             Inl e \<Rightarrow> (Inl e, cs)
           | Inr ea \<Rightarrow>
               (case get_or_connect (wi_endpoint wi) (wi_dialled wi) peer RAFT_ALPN cs of
                  (Inl e, cs') \<Rightarrow> (Inl (RpcUnreachable ''could not connect''), cs')
                | (Inr h, cs') \<Rightarrow> (Inr h, cs'))))"

definition rpc_exchange ::
    "('url, 'a) wire \<Rightarrow> raft_client \<Rightarrow> connections \<Rightarrow> ('e rpc_error + 'a raft_response) \<times> connections" where
  "rpc_exchange wi rc cs =
     (case rpc_connection wi rc cs of
        (Inl e, cs') \<Rightarrow> (Inl e, cs')
      | (Inr _, cs') \<Rightarrow> (case wi_exchange wi of Inl message \<Rightarrow> (Inl (RpcNetwork message), cs') | Inr a \<Rightarrow> (Inr a, cs')))"

definition rpc_call ::
    "('url, 'a) wire \<Rightarrow> raft_client \<Rightarrow> connections \<Rightarrow> ('e rpc_error + 'a raft_response) \<times> connections" where
  "rpc_call wi rc cs =
     (case rpc_exchange wi rc cs of
        (Inr a, cs') \<Rightarrow> (Inr a, cs')
      | (Inl e, cs') \<Rightarrow>
          (Inl e, case member_of_raw (wi_curve wi) (rc_target rc) of
             None \<Rightarrow> cs' | Some peer \<Rightarrow> forget_connection peer RAFT_ALPN cs'))"

definition mismatched :: "raw_member_id \<Rightarrow> 'e rpc_error" where
  "mismatched asked = RpcNetwork ''a different request was answered''"

text \<open>The three requests of openraft, by the response that belongs to each.\<close>

definition ask_raft ::
    "('a raft_response \<Rightarrow> ('e + 'b) option) \<Rightarrow> ('url, 'a) wire \<Rightarrow> raft_client \<Rightarrow> connections
      \<Rightarrow> ('e rpc_error + 'b) \<times> connections" where
  "ask_raft belongs wi rc cs =
     (case rpc_call wi rc cs of
        (Inl e, cs') \<Rightarrow> (Inl e, cs')
      | (Inr a, cs') \<Rightarrow>
          (case belongs a of
             None \<Rightarrow> Inl (mismatched (rc_target rc))
           | Some (Inl e) \<Rightarrow> Inl (RpcRemote (rc_target rc) e)
           | Some (Inr b) \<Rightarrow> Inr b, cs'))"

definition append_entries where
  "append_entries = ask_raft (\<lambda>a. case a of AppendedEntries r \<Rightarrow> Some r | _ \<Rightarrow> None)"

definition vote where
  "vote = ask_raft (\<lambda>a. case a of Voted r \<Rightarrow> Some r | _ \<Rightarrow> None)"

definition client_install_snapshot where
  "client_install_snapshot = ask_raft (\<lambda>a. case a of InstalledSnapshot r \<Rightarrow> Some r | _ \<Rightarrow> None)"

definition ask_retired :: "('url, 'a) wire \<Rightarrow> raft_client \<Rightarrow> connections \<Rightarrow> ('e rpc_error + bool) \<times> connections" where
  "ask_retired wi rc cs =
     (case rpc_call wi rc cs of
        (Inl e, cs') \<Rightarrow> (Inl e, cs')
      | (Inr (IsRetired retired), cs') \<Rightarrow> (Inr retired, cs')
      | (Inr _, cs') \<Rightarrow> (Inl (mismatched (rc_target rc)), cs'))"

definition forget_me :: "('url, 'a) wire \<Rightarrow> raft_client \<Rightarrow> connections \<Rightarrow> bool \<times> connections" where
  "forget_me wi rc cs =
     (case member_of_raw (wi_curve wi) (rc_target rc) of
        None \<Rightarrow> (False, cs)
      | Some peer \<Rightarrow>
          (case (client_endpoint_addr wi rc :: unit rpc_error + 'url endpoint_addr) of
             Inl _ \<Rightarrow> (False, cs)
           | Inr _ \<Rightarrow>
               (case get_or_connect (wi_endpoint wi) (wi_dialled wi) peer RAFT_ALPN cs of
                  (Inl RejectedByRemote, cs') \<Rightarrow> (True, cs')
                | (Inl (DialFailed _), cs') \<Rightarrow> (False, cs')
                | (Inr h, cs') \<Rightarrow>
                    (case (rpc_call wi rc cs' :: (unit rpc_error + 'a raft_response) \<times> connections) of
                       (Inr (Forgotten True), cs'') \<Rightarrow> (True, cs'')
                     | (_, cs'') \<Rightarrow> (wi_rejected wi, cs'')))))"

section \<open>Only voters move Raft\<close>

text \<open>Whether a peer is one this node's log or its Raft says votes, now or in the promotion under way.\<close>

definition votes_here :: "('m, 'b) raft_protocol \<Rightarrow> 'm raft_metrics \<Rightarrow> member_id \<Rightarrow> bool" where
  "votes_here rp metrics peer \<longleftrightarrow>
     raw_of peer \<in> set (voter_ids (rp_api rp) (stm_config (st_raft_published (rp_state rp)))) \<or>
     (\<exists>raw \<in> set (voter_ids (rp_api rp) (mx_config metrics)). member_of_raw (on_curve (rp_api rp)) raw = Some peer) \<or>
     (\<exists>p. current_promotion (rp_state rp) = Some p \<and> bt_has (pr_voters p) peer)"

lemma may_speak_raft_cases:
  assumes "may_speak_raft rp metrics peer"
  shows "votes_here rp metrics peer \<or>
    (ms_group (sm_membership (rp_state rp)) = None \<and> voter_ids (rp_api rp) (mx_config metrics) = [] \<and>
     bt_has (rp_trusted rp) peer)"
  using assms
  by (auto simp: may_speak_raft_def votes_here_def applied_voter_def trusted_contains_def Let_def
      split: option.splits if_splits)

lemma raft_answer_moves:
  assumes "raft_answer re rp req r = (resp, r')" and "r' \<noteq> r"
  shows "\<exists>q. req = AppendEntries q \<or> req = Vote q \<or> req = InstallSnapshot q"
  using assms by (cases req) (auto simp: raft_answer_def)

text \<open>
  C18. Only voters move Raft. When a request changes anything of this node's Raft, the node has a seat, and
  either the request is Raft's own and comes from a voter, or from one of the trusted core while there
  is no group and no voter yet; or an expelled member that votes in no configuration, with no change of
  configuration under way, asks to be forgotten, and then that member alone is removed. What the
  node was while it waited for the request makes no difference.
\<close>
theorem only_voters_move_raft:
  assumes "accept_turn re before rp peer req r = (resp, r')" and "r' \<noteq> r"
  shows "\<exists>metrics. rp_seat rp = Some metrics \<and>
    ((\<exists>q. req = AppendEntries q \<or> req = Vote q \<or> req = InstallSnapshot q) \<and>
       (votes_here rp metrics peer \<or>
        (ms_group (sm_membership (rp_state rp)) = None \<and> voter_ids (rp_api rp) (mx_config metrics) = [] \<and>
         bt_has (rp_trusted rp) peer)) \<or>
     req = ForgetMe \<and> \<not> is_member (sm_membership (rp_state rp)) peer \<and>
       length (joint_config (rp_api rp) (stm_config (st_raft_published (rp_state rp)))) = 1 \<and>
       raw_of peer \<notin> set (voter_ids (rp_api rp) (stm_config (st_raft_published (rp_state rp)))) \<and>
       r' = snd (re_change re (RemoveNodes (bts_of [raw_of peer])) True r))"
proof -
  have serve: "serve_request re rp peer req r = (resp, r')"
    using assms by (auto simp: accept_turn_def split: if_splits)
  show ?thesis
  proof (cases "req = ForgetMe \<and> may_query_retirement rp peer")
    case True
    then obtain finished where "forget_retired re rp peer r = (finished, r')"
      using serve by (auto simp: serve_request_def map_prod_def split: prod.splits)
    then show ?thesis
      using assms(2) True by (auto simp: forget_retired_def Let_def split: if_splits)
  next
    case False
    then obtain metrics where m: "rp_seat rp = Some metrics" "may_speak_raft rp metrics peer"
      and answered: "\<exists>resp'. raft_answer re rp req r = (resp', r')"
      using serve assms(2)
      by (auto simp: serve_request_def Let_def map_prod_def split: if_splits option.splits prod.splits)
    then show ?thesis
      using may_speak_raft_cases [OF m(2)] raft_answer_moves [OF _ assms(2)] by blast
  qed
qed

section \<open>A connection that failed is not used again\<close>

text \<open>
  A call that fails leaves no connection behind: the next one to that peer dials anew. A call that is
  answered leaves a connection that is open or was dialled just now. Connections to other
  peers and other protocols are as they were.
\<close>
theorem failed_calls_leave_no_connection:
  assumes "(rpc_call wi rc cs :: ('e rpc_error + 'a raft_response) \<times> connections) = (res, cs')"
    and "member_of_raw (wi_curve wi) (rc_target rc) = Some peer"
  shows "(case res of
      Inl _ \<Rightarrow> cs' (peer, RAFT_ALPN) = None \<and>
        get_or_connect w again peer RAFT_ALPN cs' =
          (again, case again of Inl _ \<Rightarrow> cs' | Inr h \<Rightarrow> cs'((peer, RAFT_ALPN) \<mapsto> h))
    | Inr _ \<Rightarrow> \<exists>h. cs' (peer, RAFT_ALPN) = Some h \<and> (is_live (wi_endpoint wi) h \<or> wi_dialled wi = Inr h)) \<and>
    (\<forall>k. k \<noteq> (peer, RAFT_ALPN) \<longrightarrow> cs' k = cs k)"
proof -
  obtain conn cs1 where conn: "(rpc_connection wi rc cs :: ('e rpc_error + nat) \<times> connections) = (conn, cs1)"
    by (cases "rpc_connection wi rc cs :: ('e rpc_error + nat) \<times> connections")
  have others: "k \<noteq> (peer, RAFT_ALPN) \<Longrightarrow> cs1 k = cs k" for k
    using conn assms(2)
    by (auto simp: rpc_connection_def get_or_connect_def cached_def split: sum.splits option.splits if_splits prod.splits)
  have live: "cs1 (peer, RAFT_ALPN) = Some h \<and> (is_live (wi_endpoint wi) h \<or> wi_dialled wi = Inr h)" if "conn = Inr h" for h
    using conn assms(2) that
    by (auto simp: rpc_connection_def dest!: get_or_connect_live split: sum.splits prod.splits)
  show ?thesis
  proof (cases "\<exists>h a. conn = Inr h \<and> wi_exchange wi = Inr a")
    case True
    then show ?thesis using assms(1) conn others live by (auto simp: rpc_call_def rpc_exchange_def)
  next
    case False
    then obtain e where "(rpc_exchange wi rc cs :: ('e rpc_error + 'a raft_response) \<times> connections) = (Inl e, cs1)"
      using conn by (cases conn; cases "wi_exchange wi") (auto simp: rpc_exchange_def)
    then have "res = Inl e" "cs' = forget_connection peer RAFT_ALPN cs1"
      using assms by (auto simp: rpc_call_def)
    then show ?thesis
      using others by (auto simp: forget_connection_def get_or_connect_def cached_def split: sum.splits)
  qed
qed

section \<open>Concrete requests\<close>

text \<open>A founded node whose Raft counts member 2 as a voter.\<close>

definition demo_engine :: "(nat, bool, nat) raft_engine" where
  "demo_engine = \<lparr>re_append = (\<lambda>q r. (True, r + q)), re_vote = (\<lambda>q r. (True, r + q)), re_install = (\<lambda>q r. (True, r + q)),
     re_change = (\<lambda>_ _ r. (True, r + 1))\<rparr>"

definition listed_config_api :: "raw_member_id list reconfig_api" where
  "listed_config_api = \<lparr>voter_ids = (\<lambda>vs. vs), get_node = (\<lambda>_ _. Some lookup_only), on_curve = (\<lambda>_. True),
     joint_config = (\<lambda>vs. [bts_of vs]), config_nodes = map (\<lambda>raw. (raw, lookup_only))\<rparr>"

definition seated_store :: "(raw_member_id list, unit) sm_store" where
  "seated_store =
     (let config = \<lparr>stm_log_id = Some (demo_id 1), stm_config = [raw_of (MemberId 2)]\<rparr>;
          state = ms_new\<lparr>ms_group := Some (GroupId 9)\<rparr>
      in \<lparr>st_tables = tables_new, st_applied = \<lparr>ap_last = None, ap_membership = config, ap_state = state, ap_followed = 0\<rparr>,
          st_poisoned = False, st_seq = 0, st_generation = 0, st_published = state, st_raft_published = config,
          st_promotion = None\<rparr>)"

definition demo_protocol :: "(raw_member_id list, unit) raft_protocol" where
  "demo_protocol = \<lparr>rp_api = listed_config_api, rp_seat = Some \<lparr>mx_config = [], mx_leader = None\<rparr>, rp_state = seated_store,
     rp_trusted = bts_of [MemberId 3]\<rparr>"

lemmas demo_protocol_defs = demo_protocol_def seated_store_def listed_config_api_def demo_engine_def

theorem only_voters_move_raft_witness:
  "\<exists>resp. accept_turn demo_engine demo_protocol demo_protocol (MemberId 2) (Vote 5) 0 = (resp, 5) \<and>
     votes_here demo_protocol \<lparr>mx_config = [], mx_leader = None\<rparr> (MemberId 2) \<and>
     accept_turn demo_engine demo_protocol demo_protocol (MemberId 3) (Vote 5) 0 = (None, 0)"
proof -
  obtain resp where voter: "accept_turn demo_engine demo_protocol demo_protocol (MemberId 2) (Vote 5) 0 = (resp, 5)"
    by (simp add: accept_turn_def serve_request_def may_query_retirement_def may_speak_raft_def applied_voter_def
        raft_answer_def demo_protocol_defs Let_def current_promotion_def)
  have other: "accept_turn demo_engine demo_protocol demo_protocol (MemberId 3) (Vote 5) 0 = (None, 0)"
    by (simp add: accept_turn_def serve_request_def may_query_retirement_def may_speak_raft_def applied_voter_def
        raft_answer_def demo_protocol_defs Let_def current_promotion_def sm_membership_def peek_def is_core_def raw_of_def
        ms_new_def bt_has_def)
  show ?thesis
    using only_voters_move_raft [OF voter] voter other by (auto simp: demo_protocol_defs sm_membership_def peek_def Let_def)
qed

definition cut_wire :: "(string, bool) wire" where
  "cut_wire = \<lparr>wi_curve = (\<lambda>_. True), wi_parse = Some, wi_endpoint = bt_empty, wi_dialled = Inr 4,
     wi_exchange = Inl ''reset'', wi_rejected = False\<rparr>"

theorem failed_calls_leave_no_connection_witness:
  "\<exists>e cs'. (rpc_call cut_wire \<lparr>rc_target = raw_of (MemberId 2), rc_addr = lookup_only\<rparr> Map.empty
       :: (unit rpc_error + bool raft_response) \<times> connections) = (Inl e, cs') \<and>
     get_or_connect bt_empty (Inr 7 :: unit + nat) (MemberId 2) RAFT_ALPN cs' = (Inr 7, cs'((MemberId 2, RAFT_ALPN) \<mapsto> 7))"
proof -
  let ?rc = "\<lparr>rc_target = raw_of (MemberId 2), rc_addr = lookup_only\<rparr>"
  have peer: "member_of_raw (wi_curve cut_wire) (rc_target ?rc) = Some (MemberId 2)"
    by (simp add: cut_wire_def member_of_raw_def raw_of_def)
  obtain e cs' where call: "(rpc_call cut_wire ?rc Map.empty :: (unit rpc_error + bool raft_response) \<times> connections) = (Inl e, cs')"
    by (simp add: rpc_call_def rpc_exchange_def rpc_connection_def client_endpoint_addr_def cut_wire_def member_of_raw_def
        raw_of_def to_endpoint_addr_def lookup_only_def get_or_connect_def cached_def)
  show ?thesis
    using failed_calls_leave_no_connection [OF call peer, of bt_empty "Inr 7 :: unit + nat"] call by auto
qed

end
