(* ===== verification/Node_Roles.thy ===== *)
theory Node_Roles
  imports Raft_Network Following
begin

text \<open>
  The life of a consensus node (\<open>distlib-consensus/src/node.rs\<close>): whether it votes or follows, how it
  changes from one to the other while it runs and across restarts, and how a membership that was applied
  becomes one that is enforced. The node is a record of its store, its seat and the tasks that run, and
  its life a step relation: its own turns, Raft's, the follow loop's, and restarts.
\<close>

section \<open>Starting\<close>

definition raft_config_of :: "('m, 'b) sm_store \<Rightarrow> 'm" where
  "raft_config_of sm = stm_config (st_raft_published sm)"

definition starts_as_core ::
    "('m, 'z) reconfig_api_scheme \<Rightarrow> ('m, 'b) sm_store \<Rightarrow> member_id \<Rightarrow> (member_id \<times> node_addr) list \<Rightarrow> bool" where
  "starts_as_core api sm me core =
     (if current_promotion sm \<noteq> None then True
      else if ms_group (sm_membership sm) \<noteq> None
      then is_core (sm_membership sm) me \<or> raw_of me \<in> set (voter_ids api (raft_config_of sm))
      else me \<in> fst ` set core)"

definition initial_sources ::
    "('m, 'z) reconfig_api_scheme \<Rightarrow> ('m, 'b) sm_store \<Rightarrow> (member_id \<times> node_addr) list \<Rightarrow> (member_id \<times> node_addr) list" where
  "initial_sources api sm core =
     (if ms_group (sm_membership sm) \<noteq> None
      then bt_entries (fold (\<lambda>raw known.
             case (member_of_raw (on_curve api) raw, get_node api (raft_config_of sm) raw) of
               (Some m, Some addr) \<Rightarrow> if bt_has known m then known else bt_insert m addr known
             | _ \<Rightarrow> known) (voter_ids api (raft_config_of sm)) (ms_core (sm_membership sm)))
      else core)"

definition retired_and_expelled :: "('m, 'b) sm_store \<Rightarrow> member_id \<Rightarrow> bool" where
  "retired_and_expelled sm me \<longleftrightarrow>
     ms_group (sm_membership sm) \<noteq> None \<and> \<not> is_member (sm_membership sm) me \<and> stm_log_id (st_raft_published sm) \<noteq> None"

definition may_retire ::
    "('m, 'z) reconfig_api_scheme \<Rightarrow> membership_state \<Rightarrow> 'm stored_membership \<Rightarrow> member_id \<Rightarrow> u64 \<Rightarrow> bool" where
  "may_retire api wanted applied me seated_at \<longleftrightarrow>
     ms_group wanted \<noteq> None \<and> seated_at \<le> ms_changed_at wanted \<and> \<not> is_core wanted me \<and>
     (case stm_log_id applied of None \<Rightarrow> False | Some l \<Rightarrow> seated_at \<le> log_index l) \<and>
     length (joint_config api (stm_config applied)) = 1 \<and> raw_of me \<notin> set (voter_ids api (stm_config applied))"

section \<open>Following a page in two halves\<close>

text \<open>
  The follow loop folds a page into memory under the lock, and commits it on a thread of its own. A loop
  that is stopped between the two announces nothing more, and the commit still happens.
\<close>

record 'b followed_page =
  fp_bytes :: 'b
  fp_predecessors :: predecessors
  fp_state :: membership_state

definition followed_begin ::
    "('m, 'b) raft_lib \<Rightarrow> ('sk, 'sig) crypto \<Rightarrow> disk \<Rightarrow> u64 \<Rightarrow> (u64 \<times> 'sig signed_event) list
      \<Rightarrow> ('m, 'b) sm_store \<Rightarrow> (raft_error + 'b followed_page) \<times> ('m, 'b) sm_store" where
  "followed_begin lib cr disk up_to events s =
     (case read_key disk StateMachineSubject ''promotion_predecessors'' Some
             (tb_predecessors (st_tables s)) of
        Inl e \<Rightarrow> (Inl e, s)
      | Inr stored \<Rightarrow>
     (case sm_lock s of
        Inl e \<Rightarrow> (Inl e, s)
      | Inr a \<Rightarrow>
     (case follow_events cr events (ap_state a) (case stored of None \<Rightarrow> bt_empty | Some p \<Rightarrow> p) (ap_followed a) [] of
        (state, preds, verdicts, stopped) \<Rightarrow>
          (let s' = s\<lparr>st_applied := a\<lparr>ap_state := state,
                 ap_followed := (case stopped of None \<Rightarrow> up_to | Some lst \<Rightarrow> lst)\<rparr>\<rparr>
           in case encode_applied lib (st_applied s') of
                None \<Rightarrow> (Inl (state_machine_error Writing Unencodable), s')
              | Some b \<Rightarrow> (Inr \<lparr>fp_bytes = b, fp_predecessors = preds, fp_state = state\<rparr>, s')))))"

definition followed_write :: "disk \<Rightarrow> 'b followed_page \<Rightarrow> ('m, 'b) sm_store \<Rightarrow> (raft_error, ('m, 'b) sm_store) outcome" where
  "followed_write disk page s =
     persist disk StateMachineSubject
       (\<lambda>tb. tb\<lparr>tb_applied := Some (fp_bytes page), tb_predecessors := Some (fp_predecessors page)\<rparr>) s"

definition followed_commit :: "disk \<Rightarrow> 'b followed_page \<Rightarrow> ('m, 'b) sm_store \<Rightarrow> (raft_error, ('m, 'b) sm_store) outcome" where
  "followed_commit disk page s = and_then (followed_write disk page s) (\<lambda>s. done_with (announce (fp_state page) s))"

text \<open>Both halves at once are what the store's method does.\<close>

lemma followed_halves:
  assumes "followed_begin lib cr disk up_to events s = (Inr page, s1)"
  shows "snd (apply_followed lib cr disk up_to events s) = snd (followed_commit disk page s1)"
proof -
  obtain stored a where ok: "read_key disk StateMachineSubject ''promotion_predecessors'' Some (tb_predecessors (st_tables s)) = Inr stored"
      "sm_lock s = Inr a"
    using assms by (auto simp: followed_begin_def split: sum.splits)
  obtain state preds verdicts stopped where fold:
      "follow_events cr events (ap_state a) (case stored of None \<Rightarrow> bt_empty | Some p \<Rightarrow> p) (ap_followed a) [] = (state, preds, verdicts, stopped)"
    by (metis prod_cases4)
  show ?thesis
    using assms
    by (auto simp: followed_begin_def apply_followed_def ok fold persist_applied_def followed_commit_def followed_write_def
        persist_def Let_def and_then_def split: option.splits prod.splits sum.splits)
qed

section \<open>The node and its role\<close>

datatype role_phase = ToBeSeated | ToStandDown | ToBeForgotten | RoleOver

record ('m, 'b) role_node =
  ro_store :: "('m, 'b) sm_store"
  ro_raft :: "unit seat"
  ro_follow :: bool
  ro_page :: "'b followed_page option"
  ro_stray :: "'b followed_page set"
  ro_core_group :: bool
  ro_sources :: sources
  ro_trusted :: trusted_core
  ro_expelled :: bool
  ro_seated_at :: u64
  ro_phase :: role_phase

definition start_first_role :: "member_id \<Rightarrow> ('m, 'b) role_node \<Rightarrow> ('m, 'b) role_node" where
  "start_first_role me n =
     (if \<not> is_taken (ro_raft n)
      then (if retired_and_expelled (ro_store n) me then n else n\<lparr>ro_follow := True\<rparr>)
      else n\<lparr>ro_core_group := True\<rparr>)"

text \<open>What \<open>serve_role\<close> begins with, before it waits for anything.\<close>

definition serve_role_begins :: "member_id \<Rightarrow> ('m, 'b) role_node \<Rightarrow> ('m, 'b) role_node" where
  "serve_role_begins me n =
     (if \<not> is_taken (ro_raft n) \<and> retired_and_expelled (ro_store n) me then n\<lparr>ro_phase := ToBeForgotten\<rparr>
      else n\<lparr>ro_seated_at := (case current_promotion (ro_store n) of
               None \<Rightarrow> ms_changed_at (sm_membership (ro_store n)) | Some p \<Rightarrow> pr_at p),
             ro_phase := (if is_taken (ro_raft n) then ToStandDown else ToBeSeated)\<rparr>)"

text \<open>\<open>MembershipNode::start\<close> on a store that was opened; \<open>None\<close> when Raft does not start.\<close>

definition node_start ::
    "('m, 'z) reconfig_api_scheme \<Rightarrow> member_id \<Rightarrow> (member_id \<times> node_addr) list \<Rightarrow> bool \<Rightarrow> ('m, 'b) sm_store
      \<Rightarrow> ('m, 'b) role_node option" where
  "node_start api me core raft_ok sm =
     (let voting = starts_as_core api sm me core
      in if voting \<and> \<not> raft_ok then None
         else Some (serve_role_begins me (start_first_role me
           \<lparr>ro_store = sm, ro_raft = (if voting then seat_take () None else None), ro_follow = False, ro_page = None,
            ro_stray = {}, ro_core_group = False,
            ro_sources = \<lparr>src_core = initial_sources api sm core, src_leader = None\<rparr>,
            ro_trusted = bts_of (map fst core), ro_expelled = False, ro_seated_at = 0, ro_phase = ToBeSeated\<rparr>)))"

definition stop_following :: "('m, 'b) role_node \<Rightarrow> ('m, 'b) role_node" where
  "stop_following n =
     n\<lparr>ro_follow := False, ro_page := None,
       ro_stray := (case ro_page n of None \<Rightarrow> ro_stray n | Some page \<Rightarrow> insert page (ro_stray n))\<rparr>"

definition take_the_seat ::
    "('m, 'b) raft_lib \<Rightarrow> disk \<Rightarrow> member_id \<Rightarrow> bool \<Rightarrow> ('m, 'b) role_node \<Rightarrow> ('m, 'b) role_node" where
  "take_the_seat lib disk me raft_ok n =
     (if \<not> is_core (st_published (ro_store n)) me then n
      else
        (let at = ms_changed_at (st_published (ro_store n)); n1 = stop_following n
         in case prepare_promotion lib disk me (ro_store n1) of
              (Inl e, sm) \<Rightarrow> n1\<lparr>ro_store := sm, ro_phase := RoleOver\<rparr>
            | (Inr prom, sm) \<Rightarrow>
                (let n2 = n1\<lparr>ro_store := sm, ro_trusted := trusted_replace (pr_voters prom) (ro_trusted n1)\<rparr>
                 in if \<not> raft_ok then n2\<lparr>ro_phase := RoleOver\<rparr>
                    else n2\<lparr>ro_raft := seat_take () (ro_raft n2), ro_core_group := True, ro_seated_at := at,
                            ro_phase := ToStandDown\<rparr>)))"

definition stand_down ::
    "('m, 'z) reconfig_api_scheme \<Rightarrow> ('m, 'b) raft_lib \<Rightarrow> disk \<Rightarrow> member_id \<Rightarrow> ('m, 'b) role_node \<Rightarrow> ('m, 'b) role_node" where
  "stand_down api lib disk me n =
     (if \<not> may_retire api (st_published (ro_store n)) (st_raft_published (ro_store n)) me (ro_seated_at n) then n
      else
        (let n1 = n\<lparr>ro_core_group := False, ro_raft := snd (seat_vacate (ro_raft n)),
                    ro_store := snd (resume_following lib disk (ro_store n))\<rparr>;
             n2 = n1\<lparr>ro_sources := \<lparr>src_core = List.map_filter
                         (\<lambda>raw. case member_of_raw (on_curve api) raw of
                            None \<Rightarrow> None
                          | Some member \<Rightarrow> map_option (Pair member) (get_node api (raft_config_of (ro_store n1)) raw))
                         (voter_ids api (raft_config_of (ro_store n1))), src_leader = None\<rparr>\<rparr>
         in if \<not> is_member (sm_membership (ro_store n2)) me then n2\<lparr>ro_phase := ToBeForgotten\<rparr>
            else n2\<lparr>ro_follow := True, ro_phase := ToBeSeated\<rparr>))"

text \<open>One round over the voters: whether one of those asked confirmed that it forgot this node.\<close>

definition finish_expulsion :: "(member_id \<Rightarrow> node_addr \<Rightarrow> bool) \<Rightarrow> member_id \<Rightarrow> ('m, 'b) role_node \<Rightarrow> ('m, 'b) role_node" where
  "finish_expulsion confirms me n =
     (if \<exists>(member, addr) \<in> set (follow_candidates (ro_sources n) me). confirms member addr
      then n\<lparr>ro_expelled := True, ro_phase := RoleOver\<rparr> else n)"

definition serve_role ::
    "('m, 'z) reconfig_api_scheme \<Rightarrow> ('m, 'b) raft_lib \<Rightarrow> disk \<Rightarrow> member_id \<Rightarrow> bool \<Rightarrow> (member_id \<Rightarrow> node_addr \<Rightarrow> bool)
      \<Rightarrow> ('m, 'b) role_node \<Rightarrow> ('m, 'b) role_node" where
  "serve_role api lib disk me raft_ok confirms n =
     (case ro_phase n of
        ToBeSeated \<Rightarrow> take_the_seat lib disk me raft_ok n
      | ToStandDown \<Rightarrow> stand_down api lib disk me n
      | ToBeForgotten \<Rightarrow> finish_expulsion confirms me n
      | RoleOver \<Rightarrow> n)"

section \<open>A life\<close>

text \<open>
  Raft writes to the store while there is a seat, the follow loop while it runs; what is left of a page
  whose loop was stopped is written when its thread comes to it (\<open>role_move\<close>). A restart keeps the tables alone.
\<close>

inductive role_move ::
    "('m, 'z) reconfig_api_scheme \<Rightarrow> ('m, 'b) raft_lib \<Rightarrow> ('sk, 'sig) crypto \<Rightarrow> member_id
      \<Rightarrow> ('m, 'b) role_node \<Rightarrow> ('m, 'b) role_node \<Rightarrow> bool"
  for api lib cr me where
  raft_applies: "is_taken (ro_raft n) \<Longrightarrow> sm_apply lib cr disk es (ro_store n) = (r, s) \<Longrightarrow>
    role_move api lib cr me n (n\<lparr>ro_store := s\<rparr>)"
| raft_installs: "is_taken (ro_raft n) \<Longrightarrow> install_snapshot lib disk meta bytes (ro_store n) = (r, s) \<Longrightarrow>
    role_move api lib cr me n (n\<lparr>ro_store := s\<rparr>)"
| page_folded: "ro_follow n \<Longrightarrow> ro_page n = None \<Longrightarrow> followed_begin lib cr disk up_to evs (ro_store n) = (r, s) \<Longrightarrow>
    role_move api lib cr me n
      (n\<lparr>ro_store := s, ro_page := (case r of Inl _ \<Rightarrow> None | Inr page \<Rightarrow> Some page)\<rparr>)"
| page_committed: "ro_follow n \<Longrightarrow> ro_page n = Some page \<Longrightarrow> followed_commit disk page (ro_store n) = (r, s) \<Longrightarrow>
    role_move api lib cr me n (n\<lparr>ro_store := s, ro_page := None\<rparr>)"
| stray_written: "page \<in> ro_stray n \<Longrightarrow> followed_write disk page (ro_store n) = (r, s) \<Longrightarrow>
    role_move api lib cr me n (n\<lparr>ro_store := s, ro_stray := ro_stray n - {page}\<rparr>)"
| follow_ends: "ro_follow n \<Longrightarrow> ro_page n = None \<Longrightarrow> role_move api lib cr me n (n\<lparr>ro_follow := False, ro_expelled := gone\<rparr>)"
| role_turn: "role_move api lib cr me n (serve_role api lib disk me raft_ok confirms n)"

inductive role_step ::
    "('m, 'z) reconfig_api_scheme \<Rightarrow> ('m, 'b) raft_lib \<Rightarrow> ('sk, 'sig) crypto \<Rightarrow> member_id \<Rightarrow> (member_id \<times> node_addr) list
      \<Rightarrow> ('m, 'b) role_node \<Rightarrow> ('m, 'b) role_node \<Rightarrow> bool"
  for api lib cr me core where
  moved: "role_move api lib cr me n n' \<Longrightarrow> role_step api lib cr me core n n'"
| restarted: "from_database lib disk (st_tables (ro_store n)) = Inr s \<Longrightarrow> node_start api me core raft_ok s = Some n' \<Longrightarrow>
    role_step api lib cr me core n n'"

inductive role_reach ::
    "('m, 'z) reconfig_api_scheme \<Rightarrow> ('m, 'b) raft_lib \<Rightarrow> ('sk, 'sig) crypto \<Rightarrow> member_id \<Rightarrow> (member_id \<times> node_addr) list
      \<Rightarrow> ('m, 'b) role_node \<Rightarrow> bool"
  for api lib cr me core where
  first_start: "from_database lib disk tables_new = Inr s \<Longrightarrow> node_start api me core raft_ok s = Some n \<Longrightarrow>
    role_reach api lib cr me core n"
| lived: "role_reach api lib cr me core n \<Longrightarrow> role_step api lib cr me core n n' \<Longrightarrow> role_reach api lib cr me core n'"

text \<open>A node votes or follows, never both; it reconciles the core group exactly while it votes.\<close>

definition role_ok :: "('m, 'b) role_node \<Rightarrow> bool" where
  "role_ok n \<longleftrightarrow>
     \<not> (is_taken (ro_raft n) \<and> ro_follow n) \<and> (ro_core_group n \<longleftrightarrow> is_taken (ro_raft n)) \<and>
     (ro_page n \<noteq> None \<longrightarrow> ro_follow n) \<and> (is_taken (ro_raft n) \<longleftrightarrow> ro_phase n = ToStandDown) \<and>
     (ro_phase n = ToBeForgotten \<longrightarrow> \<not> ro_follow n)"

lemma seat_simps [simp]: "is_taken (seat_take r s)" "snd (seat_vacate s) = None" "\<not> is_taken None" "is_taken (Some r)"
  by (simp_all add: is_taken_def seat_take_def seat_vacate_def)

lemma node_start_ok: "node_start api me core raft_ok s = Some n \<Longrightarrow> role_ok n"
  by (auto simp: node_start_def start_first_role_def serve_role_begins_def role_ok_def Let_def split: if_splits)

lemma take_the_seat_ok: "role_ok n \<Longrightarrow> ro_phase n = ToBeSeated \<Longrightarrow> role_ok (take_the_seat lib disk me raft_ok n)"
  by (auto simp: take_the_seat_def role_ok_def stop_following_def Let_def split: prod.splits sum.splits)

lemma stand_down_ok: "role_ok n \<Longrightarrow> ro_phase n = ToStandDown \<Longrightarrow> role_ok (stand_down api lib disk me n)"
  by (auto simp: stand_down_def role_ok_def Let_def)

lemma finish_expulsion_ok: "role_ok n \<Longrightarrow> ro_phase n = ToBeForgotten \<Longrightarrow> role_ok (finish_expulsion confirms me n)"
  by (auto simp: finish_expulsion_def role_ok_def)

lemma serve_role_ok: "role_ok n \<Longrightarrow> role_ok (serve_role api lib disk me raft_ok confirms n)"
  by (auto simp: serve_role_def take_the_seat_ok stand_down_ok finish_expulsion_ok split: role_phase.splits)

lemma role_move_ok: "role_move api lib cr me n n' \<Longrightarrow> role_ok n \<Longrightarrow> role_ok n'"
  by (induction rule: role_move.induct) (auto simp: serve_role_ok, auto simp: role_ok_def)

lemma role_step_ok: "role_step api lib cr me core n n' \<Longrightarrow> role_ok n \<Longrightarrow> role_ok n'"
  by (induction rule: role_step.induct) (auto intro: role_move_ok node_start_ok)

lemma role_reach_ok: "role_reach api lib cr me core n \<Longrightarrow> role_ok n"
  by (induction rule: role_reach.induct) (auto intro: node_start_ok role_step_ok)

text \<open>
  C12. One role at a time. In every state of a node's life, promotions, demotions, restarts and failures
  of the disk included, there is not a Raft that votes beside a loop that follows; changes of the core group
  are put into effect exactly while it votes; and a node that waits to be forgotten does neither. (This is
  about the tasks that run. What a stopped loop had handed to the disk may still be written, see
  \<open>stray_page_undoes_the_reset\<close>.)
\<close>
theorem one_role_at_a_time:
  assumes "role_reach api lib cr me core n"
  shows "\<not> (is_taken (ro_raft n) \<and> ro_follow n) \<and> (ro_core_group n \<longleftrightarrow> is_taken (ro_raft n)) \<and>
    (ro_phase n = ToBeForgotten \<longrightarrow> \<not> ro_follow n \<and> \<not> is_taken (ro_raft n))"
  using role_reach_ok [OF assms] by (auto simp: role_ok_def)

section \<open>A promotion survives replay and restarts\<close>

definition raft_reached :: "u64 \<Rightarrow> ('m, 'b) role_node \<Rightarrow> bool" where
  "raft_reached at n \<longleftrightarrow> (case stm_log_id (st_raft_published (ro_store n)) of None \<Rightarrow> False | Some l \<Rightarrow> at \<le> log_index l)"

definition seated_by :: "promotion \<Rightarrow> u64 \<Rightarrow> ('m, 'b) role_node \<Rightarrow> bool" where
  "seated_by prom at n \<longleftrightarrow>
     is_taken (ro_raft n) \<and> at \<le> ro_seated_at n \<and> at \<le> pr_at prom \<and>
     tb_promotion (st_tables (ro_store n)) = Some (Some prom) \<and> st_promotion (ro_store n) = Some prom"

lemma persist_promotion:
  assumes "persist disk subj f s = (r, t)" and "\<And>tb. tb_promotion (f tb) = tb_promotion tb"
  shows "tb_promotion (st_tables t) = tb_promotion (st_tables s) \<and> st_promotion t = st_promotion s"
  using assms by (auto elim!: persist_cases)

lemma sm_apply_promotion:
  assumes "sm_apply lib cr disk es s = (r, t)"
  shows "tb_promotion (st_tables t) = tb_promotion (st_tables s) \<and> st_promotion t = st_promotion s"
  using assms
  by (auto simp: sm_apply_def sm_lock_def split: sum.splits prod.splits if_splits elim!: persist_applied_cases)

lemma install_promotion:
  assumes "install_snapshot lib disk meta bytes s = (r, t)"
  shows "tb_promotion (st_tables t) = tb_promotion (st_tables s) \<and> st_promotion t = st_promotion s"
  using assms
  by (auto simp: install_snapshot_def sm_lock_def and_then_def split: sum.splits prod.splits if_splits option.splits
      dest!: persist_promotion)

lemma stray_promotion:
  assumes "followed_write disk page s = (r, t)"
  shows "tb_promotion (st_tables t) = tb_promotion (st_tables s) \<and> st_promotion t = st_promotion s"
  using assms unfolding followed_write_def by (rule persist_promotion) simp

lemma reopened_promotion:
  assumes "from_database lib disk tb = Inr s" and "tb_promotion tb = Some (Some prom)"
  shows "st_promotion s = Some prom \<and> st_tables s = tb"
  using assms by (auto simp: from_database_def read_key_def Let_def split: sum.splits option.splits if_splits)

lemma restart_seated:
  assumes "node_start api me core raft_ok s = Some n'" and "st_promotion s = Some prom" and "\<not> raft_reached at n'"
    and "at \<le> pr_at prom"
  shows "is_taken (ro_raft n') \<and> at \<le> ro_seated_at n' \<and> ro_store n' = s"
proof -
  have store: "ro_store n' = s"
    using assms(1) by (auto simp: node_start_def start_first_role_def serve_role_begins_def Let_def split: if_splits)
  then have "current_promotion s = Some prom"
    using assms(2-4) by (auto simp: current_promotion_def raft_reached_def split: option.splits)
  then have "is_taken (ro_raft n') \<and> at \<le> ro_seated_at n'"
    using assms(1,4)
    by (auto simp: node_start_def start_first_role_def serve_role_begins_def starts_as_core_def Let_def split: if_splits)
  with store show ?thesis by simp
qed

lemma seated_move:
  assumes "role_move api lib cr me n n'" and "role_ok n" and "seated_by prom at n" and "\<not> raft_reached at n"
  shows "seated_by prom at n'"
  using assms(1)
proof (cases rule: role_move.cases)
  case (role_turn disk raft_ok confirms)
  have "ro_phase n = ToStandDown" using assms(2,3) by (auto simp: role_ok_def seated_by_def)
  moreover have "\<not> may_retire api (st_published (ro_store n)) (st_raft_published (ro_store n)) me (ro_seated_at n)"
    using assms(3,4) by (auto simp: may_retire_def raft_reached_def seated_by_def split: option.splits)
  ultimately show ?thesis
    using role_turn assms(3) by (simp add: serve_role_def stand_down_def)
qed (use assms(2,3) in \<open>auto simp: seated_by_def role_ok_def dest: sm_apply_promotion install_promotion stray_promotion\<close>)

lemma seated_step:
  assumes "role_step api lib cr me core n n'" and "role_ok n" and "seated_by prom at n"
    and "\<not> raft_reached at n" and "\<not> raft_reached at n'"
  shows "seated_by prom at n'"
  using assms(1)
proof (cases rule: role_step.cases)
  case (restarted disk s raft_ok)
  have "st_promotion s = Some prom \<and> st_tables s = st_tables (ro_store n)"
    using reopened_promotion [OF restarted(1)] assms(3) by (simp add: seated_by_def)
  then show ?thesis
    using restart_seated [OF restarted(2) _ assms(5)] assms(3) by (auto simp: seated_by_def)
qed (use seated_move assms(2-4) in blast)

lemma seated_by_promotion:
  assumes "\<not> is_taken (ro_raft n)" and "is_taken (ro_raft (take_the_seat lib disk me raft_ok n))"
    and "at \<le> ms_changed_at (st_published (ro_store n))" and "at \<le> ms_changed_at (sm_membership (ro_store n))"
  shows "(\<exists>prom. seated_by prom at (take_the_seat lib disk me raft_ok n)) \<and>
    \<not> raft_reached at (take_the_seat lib disk me raft_ok n)"
proof -
  let ?n = "take_the_seat lib disk me raft_ok n"
  have kept: "ro_store (stop_following n) = ro_store n" "ro_raft (stop_following n) = ro_raft n"
    by (simp_all add: stop_following_def)
  obtain verdict sm where p: "prepare_promotion lib disk me (ro_store n) = (verdict, sm)" by fastforce
  then obtain prom where prom: "verdict = Inr prom" "raft_ok" "is_core (st_published (ro_store n)) me"
    using assms(1,2) by (cases verdict) (auto simp: take_the_seat_def kept Let_def split: if_splits)
  have n': "ro_store ?n = sm" "ro_seated_at ?n = ms_changed_at (st_published (ro_store n))"
    using p prom by (simp_all add: take_the_seat_def kept Let_def)
  obtain stored where stored: "prom = promotion_for (sm_membership (ro_store n)) stored me"
    and reset: "\<exists>u. reset_projection lib disk (Some prom) (ro_store n) = (Inr u, sm)"
    using p prom(1) by (auto simp: prepare_promotion_def Let_def split: sum.splits prod.splits)
  then obtain bytes s1 u where "reset_commit lib disk bytes (Some prom) s1 = (Inr u, sm)"
    by (auto simp: reset_projection_def split: prod.splits sum.splits)
  moreover from this obtain v s2 where "persist disk StateMachineSubject
      (\<lambda>tb. tb\<lparr>tb_applied := Some bytes, tb_snapshot := None, tb_promotion := Some (Some prom)\<rparr>) s1 = (v, s2)" by fastforce
  ultimately have "tb_promotion (st_tables sm) = Some (Some prom)" "st_promotion sm = Some prom"
    "st_raft_published sm = no_membership lib"
    by (auto simp: reset_commit_def and_then_def elim!: persist_cases)
  then show ?thesis
    using assms(2-4) n' stored
    by (auto simp: seated_by_def raft_reached_def no_membership_def promotion_for_def)
qed

text \<open>
  C13. A promotion survives. A node that took its seat keeps it, however much of the log it replays, whatever
  older memberships and configurations that shows it, and however often it restarts, as long as Raft's
  applied configuration is older than the memberships it was promoted by.
\<close>
theorem promotion_survives:
  assumes "role_reach api lib cr me core n" and "ro_phase n = ToBeSeated"
    and "is_taken (ro_raft (take_the_seat lib disk me raft_ok n))"
    and "at \<le> ms_changed_at (st_published (ro_store n))" and "at \<le> ms_changed_at (sm_membership (ro_store n))"
    and "(\<lambda>a b. role_step api lib cr me core a b \<and> \<not> raft_reached at b)\<^sup>*\<^sup>* (take_the_seat lib disk me raft_ok n) n'"
  shows "is_taken (ro_raft n')"
proof -
  note ok = role_reach_ok [OF assms(1)]
  then have "\<not> is_taken (ro_raft n)" using assms(2) by (auto simp: role_ok_def)
  from seated_by_promotion [OF this assms(3-5)] obtain prom
    where start: "seated_by prom at (take_the_seat lib disk me raft_ok n)" "\<not> raft_reached at (take_the_seat lib disk me raft_ok n)"
    by blast
  have "role_ok n' \<and> seated_by prom at n' \<and> \<not> raft_reached at n'"
    using assms(6)
  proof (induction rule: rtranclp_induct)
    case base
    then show ?case using start take_the_seat_ok [OF ok assms(2)] by blast
  next
    case (step y z)
    then show ?case using seated_step role_step_ok by blast
  qed
  then show ?thesis by (simp add: seated_by_def)
qed

section \<open>A page that outlives its loop\<close>

lemma prepared_applied:
  assumes "prepare_promotion lib disk me s = (Inr prom, s')"
  shows "st_applied s' = applied_default lib \<and> st_promotion s' = Some prom \<and> tb_promotion (st_tables s') = Some (Some prom)"
proof -
  obtain u where "reset_projection lib disk (Some prom) s = (Inr u, s')"
    using assms by (auto simp: prepare_promotion_def Let_def split: sum.splits prod.splits)
  then obtain bytes s1 where begun: "reset_begin lib s = (Inr bytes, s1)" and commit: "reset_commit lib disk bytes (Some prom) s1 = (Inr u, s')"
    by (auto simp: reset_projection_def split: prod.splits sum.splits)
  have "st_applied s1 = applied_default lib"
    using begun by (auto simp: reset_begin_def Let_def split: sum.splits option.splits)
  moreover obtain v s2 where "persist disk StateMachineSubject
      (\<lambda>tb. tb\<lparr>tb_applied := Some bytes, tb_snapshot := None, tb_promotion := Some (Some prom)\<rparr>) s1 = (v, s2)" by fastforce
  ultimately show ?thesis
    using commit by (auto simp: reset_commit_def and_then_def announce_def announce_raft_def elim!: persist_cases split: if_splits)
qed

text \<open>
  A promotion's reset can be undone on disk. Stopping the follow loop does not wait for the page it had
  handed to the disk: written after the reset, the page puts the projection the loop had followed back in
  the tables. The node goes on from an empty one in memory; started again before Raft has applied anything
  it has the followed one, promoted as it is, and Raft folds the log from its beginning into that.
\<close>
theorem stray_page_undoes_the_reset:
  assumes "role_reach api lib cr me core n" and "ro_phase n = ToBeSeated" and "ro_page n = Some page"
    and "is_taken (ro_raft (take_the_seat lib disk me raft_ok n))"
    and "followed_write later_disk page (ro_store (take_the_seat lib disk me raft_ok n)) = (Inr u, s)"
    and "from_database lib start_disk (st_tables s) = Inr s'" and "decode_applied lib (fp_bytes page) = Some a"
  shows "role_move api lib cr me (take_the_seat lib disk me raft_ok n)
      ((take_the_seat lib disk me raft_ok n)\<lparr>ro_store := s, ro_stray := ro_stray (take_the_seat lib disk me raft_ok n) - {page}\<rparr>) \<and>
    st_applied s = applied_default lib \<and> st_applied s' = a \<and> st_promotion s' = st_promotion s \<and> st_promotion s' \<noteq> None"
proof -
  let ?n = "take_the_seat lib disk me raft_ok n"
  have "\<not> is_taken (ro_raft n)" using role_reach_ok [OF assms(1)] assms(2) by (auto simp: role_ok_def)
  moreover obtain verdict sm where p: "prepare_promotion lib disk me (ro_store n) = (verdict, sm)" by fastforce
  ultimately obtain prom where prom: "verdict = Inr prom" "raft_ok" "is_core (st_published (ro_store n)) me"
    using assms(4) by (cases verdict) (auto simp: take_the_seat_def stop_following_def Let_def split: if_splits)
  have n': "ro_store ?n = sm" "page \<in> ro_stray ?n"
    using p prom assms(3) by (simp_all add: take_the_seat_def stop_following_def Let_def)
  note reset = prepared_applied [OF p [unfolded prom(1)]]
  have s: "s = sm\<lparr>st_tables := (st_tables sm)\<lparr>tb_applied := Some (fp_bytes page), tb_predecessors := Some (fp_predecessors page)\<rparr>\<rparr>"
    using assms(5) unfolding n'(1) followed_write_def by (auto elim: persist_cases)
  have "st_applied s' = a \<and> st_promotion s' = Some prom"
    using assms(6,7) reset by (auto simp: s from_database_def read_key_def Let_def split: sum.splits option.splits if_splits)
  then show ?thesis
    using role_move.stray_written [OF n'(2) assms(5)] reset by (simp add: s)
qed

section \<open>A life in five turns\<close>

text \<open>
  Member 2 follows a group that member 1 is to be asked about, learns in one page that the group was
  founded with it as a voter, takes its seat, and is started again before Raft has replayed anything.
\<close>

definition role_api :: "unit reconfig_api" where
  "role_api = \<lparr>voter_ids = (\<lambda>_. []), get_node = (\<lambda>_ _. None), on_curve = (\<lambda>_. True), joint_config = (\<lambda>_. []),
     config_nodes = (\<lambda>_. [])\<rparr>"

definition role_core :: "(member_id \<times> node_addr) list" where
  "role_core = [(MemberId 1, lookup_only)]"

definition role_first :: "(unit, unit applied) role_node" where
  "role_first = the (node_start role_api (MemberId 2) role_core True plain_store)"

definition role_folding :: "(raft_error + unit applied followed_page) \<times> (unit, unit applied) sm_store" where
  "role_folding = followed_begin plain_lib plain_crypto good_disk 1 [demo_founding [1, 2]] (ro_store role_first)"

definition role_folded :: "(unit, unit applied) role_node" where
  "role_folded = role_first\<lparr>ro_store := snd role_folding,
     ro_page := (case fst role_folding of Inl _ \<Rightarrow> None | Inr page \<Rightarrow> Some page)\<rparr>"

definition role_told :: "(unit, unit applied) role_node" where
  "role_told = role_folded\<lparr>ro_store := snd (followed_commit good_disk (the (ro_page role_folded)) (ro_store role_folded)),
     ro_page := None\<rparr>"

definition role_seated :: "(unit, unit applied) role_node" where
  "role_seated = take_the_seat plain_lib good_disk (MemberId 2) True role_told"

definition role_reopened :: "(unit, unit applied) sm_store" where
  "role_reopened = (case from_database plain_lib good_disk (st_tables (ro_store role_seated)) of Inr s \<Rightarrow> s)"

definition role_again :: "(unit, unit applied) role_node" where
  "role_again = the (node_start role_api (MemberId 2) role_core True role_reopened)"

abbreviation "role_lives \<equiv> role_reach role_api plain_lib plain_crypto (MemberId 2) role_core"

lemma role_first_started: "node_start role_api (MemberId 2) role_core True plain_store = Some role_first"
  by (simp add: role_first_def node_start_def Let_def)

lemma role_first_lives: "role_lives role_first"
  by (rule role_reach.first_start [OF plain_store_opened role_first_started])

lemma role_folded_lives: "role_lives role_folded"
proof (rule role_reach.lived [OF role_first_lives], rule role_step.moved)
  show "role_move role_api plain_lib plain_crypto (MemberId 2) role_first role_folded"
    unfolding role_folded_def
  proof (rule role_move.page_folded)
    show "ro_follow role_first" by code_simp
    show "ro_page role_first = None"
      by (simp add: role_first_def node_start_def start_first_role_def serve_role_begins_def Let_def)
    show "followed_begin plain_lib plain_crypto good_disk 1 [demo_founding [1, 2]] (ro_store role_first) =
        (fst role_folding, snd role_folding)"
      by (simp add: role_folding_def)
  qed
qed

lemma role_told_lives: "role_lives role_told"
proof (rule role_reach.lived [OF role_folded_lives], rule role_step.moved)
  have page: "ro_page role_folded = Some (the (ro_page role_folded))"
  proof -
    have "\<not> Option.is_none (ro_page role_folded)" by code_simp
    then show ?thesis by (cases "ro_page role_folded") simp_all
  qed
  show "role_move role_api plain_lib plain_crypto (MemberId 2) role_folded role_told"
    unfolding role_told_def
  proof (rule role_move.page_committed [OF _ page])
    show "ro_follow role_folded" by code_simp
    show "followed_commit good_disk (the (ro_page role_folded)) (ro_store role_folded) =
        (fst (followed_commit good_disk (the (ro_page role_folded)) (ro_store role_folded)),
         snd (followed_commit good_disk (the (ro_page role_folded)) (ro_store role_folded)))"
      by simp
  qed
qed

lemma role_told_facts:
  "ro_phase role_told = ToBeSeated" "is_taken (ro_raft role_seated)"
  "ms_changed_at (st_published (ro_store role_told)) = 1" "ms_changed_at (sm_membership (ro_store role_told)) = 1"
  "\<not> raft_reached 1 role_seated" "\<not> raft_reached 1 role_again"
  by code_simp+

lemma role_seated_restarts:
  "role_step role_api plain_lib plain_crypto (MemberId 2) role_core role_seated role_again"
proof (rule role_step.restarted)
  show "from_database plain_lib good_disk (st_tables (ro_store role_seated)) = Inr role_reopened"
  proof -
    have "case from_database plain_lib good_disk (st_tables (ro_store role_seated)) of Inl _ \<Rightarrow> False | Inr _ \<Rightarrow> True" by code_simp
    then show ?thesis by (auto simp: role_reopened_def split: sum.splits)
  qed
  show "node_start role_api (MemberId 2) role_core True role_reopened = Some role_again"
    by (simp add: role_again_def node_start_def Let_def)
qed

lemma role_seated_lives: "role_lives role_seated"
proof (rule role_reach.lived [OF role_told_lives], rule role_step.moved)
  have "role_move role_api plain_lib plain_crypto (MemberId 2) role_told
      (serve_role role_api plain_lib good_disk (MemberId 2) True (\<lambda>_ _. False) role_told)"
    by (rule role_move.role_turn)
  then show "role_move role_api plain_lib plain_crypto (MemberId 2) role_told role_seated"
    by (simp add: serve_role_def role_told_facts(1) role_seated_def)
qed

theorem one_role_at_a_time_witness: "is_taken (ro_raft role_seated) \<and> \<not> ro_follow role_seated \<and> ro_core_group role_seated"
  using one_role_at_a_time [OF role_seated_lives] role_told_facts(2) by blast

theorem promotion_survives_witness:
  "role_step role_api plain_lib plain_crypto (MemberId 2) role_core role_seated role_again \<and> is_taken (ro_raft role_again) \<and>
     \<not> starts_as_core role_api plain_store (MemberId 2) role_core"
proof -
  have run: "(\<lambda>a b. role_step role_api plain_lib plain_crypto (MemberId 2) role_core a b \<and> \<not> raft_reached 1 b)\<^sup>*\<^sup>*
      (take_the_seat plain_lib good_disk (MemberId 2) True role_told) role_again"
    using role_seated_restarts role_told_facts(6) by (auto simp: role_seated_def)
  have "is_taken (ro_raft role_again)"
    by (rule promotion_survives [OF role_told_lives role_told_facts(1) _ _ _ run])
      (use role_told_facts in \<open>simp_all add: role_seated_def\<close>)
  moreover have "\<not> starts_as_core role_api plain_store (MemberId 2) role_core" by code_simp
  ultimately show ?thesis using role_seated_restarts by blast
qed

text \<open>The same node, promoted while its loop has a further page on its way to the disk.\<close>

definition role_next :: "(raft_error + unit applied followed_page) \<times> (unit, unit applied) sm_store" where
  "role_next = followed_begin plain_lib plain_crypto good_disk 2 [] (ro_store role_told)"

definition role_paging :: "(unit, unit applied) role_node" where
  "role_paging = role_told\<lparr>ro_store := snd role_next, ro_page := (case fst role_next of Inl _ \<Rightarrow> None | Inr page \<Rightarrow> Some page)\<rparr>"

definition role_page :: "unit applied followed_page" where
  "role_page = projr (fst role_next)"

definition role_strayed :: "(unit, unit applied) sm_store" where
  "role_strayed = snd (followed_write good_disk role_page (ro_store (take_the_seat plain_lib good_disk (MemberId 2) True role_paging)))"

lemma role_paging_lives: "role_lives role_paging" "ro_page role_paging = Some role_page"
proof -
  have inr: "fst role_next = Inr role_page"
  proof -
    have "case fst role_next of Inl _ \<Rightarrow> False | Inr _ \<Rightarrow> True" by code_simp
    then show ?thesis by (auto simp: role_page_def split: sum.splits)
  qed
  then show "ro_page role_paging = Some role_page" by (simp add: role_paging_def)
  show "role_lives role_paging"
  proof (rule role_reach.lived [OF role_told_lives], rule role_step.moved)
    show "role_move role_api plain_lib plain_crypto (MemberId 2) role_told role_paging"
      unfolding role_paging_def
    proof (rule role_move.page_folded)
      show "ro_follow role_told" by code_simp
      show "ro_page role_told = None" by (simp add: role_told_def)
      show "followed_begin plain_lib plain_crypto good_disk 2 [] (ro_store role_told) = (fst role_next, snd role_next)"
        by (simp add: role_next_def)
    qed
  qed
qed

theorem stray_page_undoes_the_reset_witness:
  "\<exists>s'. from_database plain_lib good_disk (st_tables role_strayed) = Inr s' \<and>
     st_applied role_strayed = applied_default plain_lib \<and> st_applied s' = fp_bytes role_page \<and> fp_bytes role_page \<noteq> applied_default plain_lib"
proof -
  have facts: "ro_phase role_paging = ToBeSeated" "is_taken (ro_raft (take_the_seat plain_lib good_disk (MemberId 2) True role_paging))"
    "ap_followed (fp_bytes role_page) = 2"
    by code_simp+
  obtain s' where s': "from_database plain_lib good_disk (st_tables role_strayed) = Inr s'"
  proof -
    have "case from_database plain_lib good_disk (st_tables role_strayed) of Inl _ \<Rightarrow> False | Inr _ \<Rightarrow> True" by code_simp
    then show ?thesis using that by (auto split: sum.splits)
  qed
  have "\<exists>u. followed_write good_disk role_page (ro_store (take_the_seat plain_lib good_disk (MemberId 2) True role_paging)) = (Inr u, role_strayed)"
    by (simp add: role_strayed_def followed_write_def persist_def)
  then obtain u where w: "followed_write good_disk role_page (ro_store (take_the_seat plain_lib good_disk (MemberId 2) True role_paging)) = (Inr u, role_strayed)"
    by blast
  have "decode_applied plain_lib (fp_bytes role_page) = Some (fp_bytes role_page)" by (simp add: plain_lib_def)
  from stray_page_undoes_the_reset [OF role_paging_lives(1) facts(1) role_paging_lives(2) facts(2) w s' this]
  have "st_applied role_strayed = applied_default plain_lib" "st_applied s' = fp_bytes role_page" by blast+
  moreover have "ap_followed (applied_default plain_lib) \<noteq> 2" by code_simp
  ultimately show ?thesis using s' facts(3) by metis
qed

end
