(* ===== verification/Enforcement.thy ===== *)
theory Enforcement
  imports Node_Roles Gossip
begin

text \<open>
  How a membership that was applied becomes one that is enforced (\<open>follow_membership\<close> and
  \<open>enforce_membership\<close> of \<open>distlib-consensus/src/node.rs\<close>), beside the life of the node whose memberships
  it enforces: a promotion has the node replay the log, and the memberships it passes on the way are not
  to replace the one its connections are admitted by.
\<close>

section \<open>The task\<close>

record 'url enforcement =
  en_hooks :: allowlist_hooks
  en_endpoint :: endpoint
  en_book :: "(member_id, 'url endpoint_addr) btmap"
  en_published :: "(member_id, node_addr) btmap"
  en_enforced :: membership_state

abbreviation en_allowlist :: "'url enforcement \<Rightarrow> allow_list" where
  "en_allowlist en \<equiv> hk_allowlist (en_hooks en)"

definition let_go_of_the_moved ::
    "(member_id, node_addr) btmap \<Rightarrow> (member_id, node_addr) btmap \<Rightarrow> allowlist_hooks \<times> endpoint
      \<Rightarrow> allowlist_hooks \<times> endpoint" where
  "let_go_of_the_moved published core =
     fold (\<lambda>(member, addr) (hk, w).
       case bt_get published member of
         None \<Rightarrow> (hk, w)
       | Some was \<Rightarrow> if was \<noteq> addr then snd (close_connections_to member hk w) else (hk, w)) (bt_entries core)"

definition raft_peers_of ::
    "('m, 'z) reconfig_api_scheme \<Rightarrow> 'm stored_membership \<Rightarrow> promotion option \<Rightarrow> member_id list" where
  "raft_peers_of api applied prom =
     List.map_filter (\<lambda>(raw, _). member_of_raw (on_curve api) raw) (config_nodes api (stm_config applied)) @
     (case prom of None \<Rightarrow> [] | Some p \<Rightarrow> bt_keys (pr_voters p))"

text \<open>
  One turn. The loop reads the store three times: the two watches, as \<open>seen\<close>; the promotion whose
  voters may speak Raft, as \<open>peers\<close>; and whether it replays, with the addresses of the core, as \<open>now\<close>.
\<close>

definition is_replaying :: "membership_state \<Rightarrow> ('m, 'b) sm_store \<Rightarrow> bool" where
  "is_replaying membership now =
     (case current_promotion now of None \<Rightarrow> False | Some p \<Rightarrow> ms_changed_at membership < pr_at p)"

definition follow_membership ::
    "('m, 'z) reconfig_api_scheme \<Rightarrow> (string \<Rightarrow> 'url option) \<Rightarrow> ('m, 'b) sm_store \<Rightarrow> ('m, 'b) sm_store \<Rightarrow> ('m, 'b) sm_store
      \<Rightarrow> 'url enforcement \<Rightarrow> 'url enforcement" where
  "follow_membership api parse seen peers now en =
     (let membership = st_published seen;
          en1 = en\<lparr>en_hooks := set_raft_peers (raft_peers_of api (st_raft_published seen) (current_promotion peers)) (en_hooks en)\<rparr>;
          replaying = is_replaying membership now;
          en2 = (if ms_group membership \<noteq> None \<and> \<not> replaying
                 then (let core = bt_collect (core_addresses now);
                           book = book_learn_all parse (bt_entries core) (en_book en1);
                           (hk, w) = let_go_of_the_moved (en_published en1) core (en_hooks en1, en_endpoint en1)
                       in en1\<lparr>en_book := book, en_endpoint := w, en_published := core,
                              en_hooks := hk\<lparr>hk_allowlist := al_replace (allowlist membership) (hk_allowlist hk)\<rparr>\<rparr>)
                 else en1)
      in if \<not> replaying then en2\<lparr>en_enforced := membership\<rparr> else en2)"

text \<open>The task as it starts, on the hooks and the book the node was built with.\<close>

definition enforce_membership ::
    "('m, 'b) sm_store \<Rightarrow> allowlist_hooks \<Rightarrow> endpoint \<Rightarrow> (member_id, 'url endpoint_addr) btmap \<Rightarrow> 'url enforcement" where
  "enforce_membership sm hk w book =
     \<lparr>en_hooks = hk, en_endpoint = w, en_book = book, en_published = bt_empty, en_enforced = sm_membership sm\<rparr>"

section \<open>What a turn does to the allowlist\<close>

definition allows_exactly :: "membership_state \<Rightarrow> 'url enforcement \<Rightarrow> bool" where
  "allows_exactly membership en \<longleftrightarrow> al_members (en_allowlist en) = {m. is_member membership m}"

lemma close_keeps_allowlist [simp]:
  "hk_allowlist (fst (snd (close_connections_to m hk w))) = hk_allowlist hk"
  by (simp add: close_connections_to_def Let_def)

lemma set_raft_peers_keeps_allowlist [simp]: "hk_allowlist (set_raft_peers peers hk) = hk_allowlist hk"
  by (simp add: set_raft_peers_def)

lemma allowlist_members: "set (allowlist s) = {m. is_member s m}"
  by (auto simp: allowlist_def is_member_def bt_has_dom)

lemma turn_replaying:
  assumes "is_replaying (st_published seen) now"
  shows "en_enforced (follow_membership api parse seen peers now en) = en_enforced en \<and>
    en_allowlist (follow_membership api parse seen peers now en) = en_allowlist en"
  using assms by (simp add: follow_membership_def Let_def)

lemma turn_enforces:
  assumes "\<not> is_replaying (st_published seen) now"
  shows "en_enforced (follow_membership api parse seen peers now en) = st_published seen \<and>
    (ms_group (st_published seen) \<noteq> None \<longrightarrow> allows_exactly (st_published seen) (follow_membership api parse seen peers now en))"
  using assms
  by (auto simp: follow_membership_def Let_def allows_exactly_def al_replace_def allowlist_members split: prod.splits)

section \<open>A replay is not enforced\<close>

text \<open>
  The node and the task beside it, for as long as one process runs, that is without restarts; the store is
  read at one moment.
\<close>

inductive enforcing_step ::
    "('m, 'z) reconfig_api_scheme \<Rightarrow> ('m, 'b) raft_lib \<Rightarrow> ('sk, 'sig) crypto \<Rightarrow> member_id \<Rightarrow> (string \<Rightarrow> 'url option)
      \<Rightarrow> ('m, 'b) role_node \<times> 'url enforcement \<Rightarrow> ('m, 'b) role_node \<times> 'url enforcement \<Rightarrow> bool"
  for api lib cr me parse where
  node_moves: "role_move api lib cr me n n' \<Longrightarrow> enforcing_step api lib cr me parse (n, en) (n', en)"
| enforces: "enforcing_step api lib cr me parse (n, en) (n, follow_membership api parse (ro_store n) peers (ro_store n) en)"

definition enforced_since :: "u64 \<Rightarrow> 'url enforcement \<Rightarrow> bool" where
  "enforced_since at en \<longleftrightarrow>
     at \<le> ms_changed_at (en_enforced en) \<and> (ms_group (en_enforced en) \<noteq> None \<longrightarrow> allows_exactly (en_enforced en) en)"

lemma seated_replays:
  assumes "seated_by prom at n" and "\<not> raft_reached at n" and "ms_changed_at membership < pr_at prom"
  shows "is_replaying membership (ro_store n)"
proof -
  have "current_promotion (ro_store n) = Some prom"
    using assms(1,2) by (auto simp: seated_by_def raft_reached_def current_promotion_def split: option.splits)
  then show ?thesis using assms(3) by (simp add: is_replaying_def)
qed

lemma enforcing_turn:
  assumes "seated_by prom at n" and "\<not> raft_reached at n" and "enforced_since at en"
  shows "enforced_since at (follow_membership api parse (ro_store n) peers (ro_store n) en)"
proof (cases "is_replaying (st_published (ro_store n)) (ro_store n)")
  case True
  then show ?thesis
    using turn_replaying [OF True, of api parse peers en] assms(3) by (simp add: enforced_since_def allows_exactly_def)
next
  case False
  then have "at \<le> ms_changed_at (st_published (ro_store n))"
    using seated_replays [OF assms(1,2)] assms(1) by (force simp: seated_by_def not_less)
  then show ?thesis
    using turn_enforces [OF False, of api parse peers en] by (simp add: enforced_since_def)
qed

text \<open>
  C14. A replay is not enforced while the process runs. Take a node that takes its seat, enforces the
  membership it was promoted by or a later one, and allows exactly its members. Until Raft's configuration
  reaches that membership, or the process ends, whatever older memberships the replay passes, the membership
  it enforces is never one from before the promotion, and its allowlist holds exactly the members of the one
  it enforces. (The reads of a turn are taken at one moment here, and a restart is not covered: see
  \<open>stale_membership_is_enforced\<close> and \<open>restart_forgets_what_was_enforced\<close>.)
\<close>
theorem replay_is_not_enforced:
  assumes "role_reach api lib cr me core n" and "ro_phase n = ToBeSeated"
    and "is_taken (ro_raft (take_the_seat lib disk me raft_ok n))"
    and "at \<le> ms_changed_at (st_published (ro_store n))" and "at \<le> ms_changed_at (sm_membership (ro_store n))"
    and "at \<le> ms_changed_at (en_enforced en)" and "allows_exactly (en_enforced en) en"
    and "(\<lambda>a b. enforcing_step api lib cr me parse a b \<and> \<not> raft_reached at (fst b))\<^sup>*\<^sup>*
           (take_the_seat lib disk me raft_ok n, en) (n', en')"
  shows "at \<le> ms_changed_at (en_enforced en') \<and> (ms_group (en_enforced en') \<noteq> None \<longrightarrow> allows_exactly (en_enforced en') en')"
proof -
  note ok = role_reach_ok [OF assms(1)]
  then have "\<not> is_taken (ro_raft n)" using assms(2) by (auto simp: role_ok_def)
  from seated_by_promotion [OF this assms(3-5)] obtain prom
    where start: "seated_by prom at (take_the_seat lib disk me raft_ok n)" "\<not> raft_reached at (take_the_seat lib disk me raft_ok n)"
    by blast
  have "role_ok (fst b) \<and> seated_by prom at (fst b) \<and> \<not> raft_reached at (fst b) \<and> enforced_since at (snd b)"
    if "(\<lambda>a b. enforcing_step api lib cr me parse a b \<and> \<not> raft_reached at (fst b))\<^sup>*\<^sup>* (take_the_seat lib disk me raft_ok n, en) b"
    for b using that
  proof (induction rule: rtranclp_induct)
    case base
    then show ?case
      using start take_the_seat_ok [OF ok assms(2)] assms(6,7) by (simp add: enforced_since_def)
  next
    case (step y z)
    then have "enforcing_step api lib cr me parse y z" by blast
    then show ?case
    proof (cases rule: enforcing_step.cases)
      case (node_moves m m' e)
      then show ?thesis using step role_move_ok seated_move by fastforce
    next
      case (enforces m e peers)
      then show ?thesis using step enforcing_turn by fastforce
    qed
  qed
  from this [OF assms(8)] show ?thesis by (simp add: enforced_since_def)
qed

section \<open>What the reads of a turn can miss\<close>

text \<open>
  C15. The end of a replay can be enforced too early. A turn reads the membership before it reads whether
  the node replays. When Raft applies the entries that end the promotion in between, the turn enforces
  the replayed membership it read, which the same turn a moment earlier would not have touched: the
  allowlist is that of a membership from before the promotion until the next turn.
\<close>
theorem stale_membership_is_enforced:
  assumes "current_promotion s = Some prom" and "ms_changed_at (st_published s) < pr_at prom"
    and "ms_group (st_published s) \<noteq> None"
    and "sm_apply lib cr disk es s = (Inr verdicts, s')"
    and "case stm_log_id (st_raft_published s') of None \<Rightarrow> False | Some l \<Rightarrow> pr_at prom \<le> log_index l"
  shows "en_enforced (follow_membership api parse s peers s en) = en_enforced en \<and>
    en_allowlist (follow_membership api parse s peers s en) = en_allowlist en \<and>
    en_enforced (follow_membership api parse s peers s' en) = st_published s \<and>
    allows_exactly (st_published s) (follow_membership api parse s peers s' en)"
proof -
  have prom: "st_promotion s = Some prom"
    using assms(1) by (auto simp: current_promotion_def split: option.splits if_splits)
  have "is_replaying (st_published s) s"
    using assms(1,2) by (simp add: is_replaying_def)
  moreover have "current_promotion s' = None"
    using sm_apply_promotion [OF assms(4)] assms(5) prom by (auto simp: current_promotion_def not_less split: option.splits)
  then have "\<not> is_replaying (st_published s) s'"
    by (simp add: is_replaying_def)
  ultimately show ?thesis
    using turn_replaying [of s s] turn_enforces [of s s'] assms(3) by blast
qed

text \<open>
  A restart forgets what was enforced. A node that is started again while it replays begins with the
  membership the replay had reached, one from before the promotion, as the one it says it enforces, and
  keeps it and the allowlist it was configured with until the replay is over.
\<close>
theorem restart_forgets_what_was_enforced:
  assumes "from_database lib disk tables = Inr s" and "current_promotion s = Some prom"
    and "ms_changed_at (sm_membership s) < pr_at prom"
  shows "en_enforced (follow_membership api parse s peers s (enforce_membership s hk w book)) = sm_membership s \<and>
    en_allowlist (follow_membership api parse s peers s (enforce_membership s hk w book)) = hk_allowlist hk"
proof -
  have "st_published s = sm_membership s"
    using assms(1) by (auto simp: from_database_def sm_membership_def peek_def Let_def split: sum.splits)
  then have "is_replaying (st_published s) s" using assms(2,3) by (simp add: is_replaying_def)
  from turn_replaying [OF this, of api parse peers "enforce_membership s hk w book"] show ?thesis
    by (simp add: enforce_membership_def)
qed

section \<open>Addresses announced after a promotion\<close>

lemma prepared_position:
  assumes "prepare_promotion lib disk me s = (Inr prom, s')"
  shows "position s' = 0"
  using prepared_applied [OF assms] by (simp add: position_def peek_def applied_default_def index_or_0_def)

text \<open>
  A promotion loses the position addresses are dated by. What a node announces of its address between
  taking its seat and replaying the log is dated zero, and no directory that holds an address the node
  announced earlier takes it: members that have heard of the node go on dialling where it was.
\<close>
theorem promoted_addresses_are_stale:
  assumes "prepare_promotion lib disk me s = (Inr prom, s')"
    and "announce_address cr enc sk addr (position s') said = (Some (ReachableAt sealed), news, said')"
    and "bt_get (dir_signed d) (public_of cr sk) = Some held" and "0 < sa_applied held"
  shows "note_where_a_member_is cr enc parse sealed d = d"
proof -
  have "sa_member sealed = public_of cr sk \<and> sa_applied sealed = 0"
    using assms(2) prepared_position [OF assms(1)]
    by (auto simp: announce_address_def sign_address_def Let_def split: if_splits sum.splits)
  then show ?thesis
    using assms(3,4) by (auto simp: note_where_a_member_is_def learn_def Let_def split: sum.splits option.splits)
qed

section \<open>Concrete turns\<close>

definition enforcing_at_start :: "string enforcement" where
  "enforcing_at_start =
     enforce_membership plain_store (hooks_new \<lparr>al_members = {MemberId 1}, al_self = MemberId 2\<rparr>) bt_empty bt_empty"

abbreviation "turn_on s \<equiv> follow_membership role_api Some s s s"

text \<open>Member 2 of the group founded in \<open>role_told\<close>, before it takes its seat.\<close>

definition enforcing_told :: "string enforcement" where
  "enforcing_told = turn_on (ro_store role_told) enforcing_at_start"

lemma enforcing_told_facts:
  "en_enforced enforcing_told = st_published (ro_store role_told) \<and> allows_exactly (en_enforced enforcing_told) enforcing_told"
proof -
  have "\<not> is_replaying (st_published (ro_store role_told)) (ro_store role_told)" by code_simp
  moreover have "\<not> Option.is_none (ms_group (st_published (ro_store role_told)))" by code_simp
  ultimately show ?thesis
    using turn_enforces [of "ro_store role_told" "ro_store role_told" role_api Some "ro_store role_told" enforcing_at_start]
    by (auto simp: enforcing_told_def Option.is_none_def)
qed

theorem replay_is_not_enforced_witness:
  "ms_group (st_published (ro_store role_seated)) = None \<and>
     1 \<le> ms_changed_at (en_enforced (turn_on (ro_store role_seated) enforcing_told))"
proof -
  have "enforcing_step role_api plain_lib plain_crypto (MemberId 2) Some (role_seated, enforcing_told)
      (role_seated, turn_on (ro_store role_seated) enforcing_told)"
    by (rule enforcing_step.enforces)
  then have run: "(\<lambda>a b. enforcing_step role_api plain_lib plain_crypto (MemberId 2) Some a b \<and> \<not> raft_reached 1 (fst b))\<^sup>*\<^sup>*
      (take_the_seat plain_lib good_disk (MemberId 2) True role_told, enforcing_told)
      (role_seated, turn_on (ro_store role_seated) enforcing_told)"
    using role_told_facts(5) by (intro r_into_rtranclp) (simp add: role_seated_def)
  have taken: "is_taken (ro_raft (take_the_seat plain_lib good_disk (MemberId 2) True role_told))"
    using role_told_facts(2) by (simp add: role_seated_def)
  have at: "1 \<le> ms_changed_at (st_published (ro_store role_told))" "1 \<le> ms_changed_at (sm_membership (ro_store role_told))"
    "1 \<le> ms_changed_at (en_enforced enforcing_told)"
    using role_told_facts(3,4) enforcing_told_facts by simp_all
  have "Option.is_none (ms_group (st_published (ro_store role_seated)))" by code_simp
  then show ?thesis
    using replay_is_not_enforced [OF role_told_lives role_told_facts(1) taken at conjunct2 [OF enforcing_told_facts] run]
    by (simp add: Option.is_none_def)
qed

theorem restart_forgets_what_was_enforced_witness:
  "ms_changed_at (en_enforced (turn_on role_reopened (enforce_membership role_reopened
     (hooks_new \<lparr>al_members = {MemberId 1}, al_self = MemberId 2\<rparr>) bt_empty bt_empty))) = 0"
proof -
  have opened: "from_database plain_lib good_disk (st_tables (ro_store role_seated)) = Inr role_reopened"
  proof -
    have "case from_database plain_lib good_disk (st_tables (ro_store role_seated)) of Inl _ \<Rightarrow> False | Inr _ \<Rightarrow> True" by code_simp
    then show ?thesis by (auto simp: role_reopened_def split: sum.splits)
  qed
  have "case current_promotion role_reopened of None \<Rightarrow> False | Some p \<Rightarrow> pr_at p = 1" by code_simp
  then obtain p where p: "current_promotion role_reopened = Some p" "pr_at p = 1" by (auto split: option.splits)
  have at: "ms_changed_at (sm_membership role_reopened) = 0" by code_simp
  have "ms_changed_at (sm_membership role_reopened) < pr_at p" using p(2) at by simp
  from restart_forgets_what_was_enforced [OF opened p(1) this, of role_api Some role_reopened] at show ?thesis by simp
qed

text \<open>A node promoted by the membership of index 5 that has replayed the founding of the group.\<close>

definition replaying_store :: "(unit, unit applied) sm_store" where
  "replaying_store = (let state = snd (ms_apply plain_crypto ms_new 1 (snd (demo_founding [1])))
     in plain_store\<lparr>st_published := state, st_promotion := Some \<lparr>pr_at = 5, pr_voters = bts_of [MemberId 1]\<rparr>\<rparr>)"

definition replay_ends :: "(raft_error + (consensus_error + unit) list) \<times> (unit, unit applied) sm_store" where
  "replay_ends = sm_apply plain_lib plain_crypto good_disk
     [\<lparr>entry_id = demo_id 5, entry_payload = MembershipChange ()\<rparr>] replaying_store"

theorem stale_membership_is_enforced_witness:
  "en_enforced (follow_membership role_api Some replaying_store replaying_store (snd replay_ends) enforcing_at_start) =
     st_published replaying_store \<and> ms_changed_at (st_published replaying_store) = 1"
proof -
  have prom: "current_promotion replaying_store = Some \<lparr>pr_at = 5, pr_voters = bts_of [MemberId 1]\<rparr>"
    by (simp add: current_promotion_def replaying_store_def plain_store_def from_database_def tables_new_def
        applied_default_def no_membership_def Let_def)
  have at: "ms_changed_at (st_published replaying_store) = 1" by code_simp
  have "\<not> Option.is_none (ms_group (st_published replaying_store))" by code_simp
  then have founded: "ms_group (st_published replaying_store) \<noteq> None" by (auto simp: Option.is_none_def)
  have "case fst replay_ends of Inl _ \<Rightarrow> False | Inr _ \<Rightarrow> True" by code_simp
  then obtain vs where "fst replay_ends = Inr vs" by (auto split: sum.splits)
  then have ends: "sm_apply plain_lib plain_crypto good_disk
      [\<lparr>entry_id = demo_id 5, entry_payload = MembershipChange ()\<rparr>] replaying_store = (Inr vs, snd replay_ends)"
    by (metis replay_ends_def prod.collapse)
  have "case stm_log_id (st_raft_published (snd replay_ends)) of None \<Rightarrow> False | Some l \<Rightarrow> 5 \<le> log_index l" by code_simp
  then have reached: "case stm_log_id (st_raft_published (snd replay_ends)) of None \<Rightarrow> False
      | Some l \<Rightarrow> pr_at \<lparr>pr_at = 5, pr_voters = bts_of [MemberId 1]\<rparr> \<le> log_index l" by (auto split: option.splits)
  have behind: "ms_changed_at (st_published replaying_store) < pr_at \<lparr>pr_at = 5, pr_voters = bts_of [MemberId 1]\<rparr>"
    by (simp add: at)
  show ?thesis
    using stale_membership_is_enforced [OF prom behind founded ends reached, of role_api Some replaying_store enforcing_at_start] at
    by blast
qed

theorem promoted_addresses_are_stale_witness:
  "\<exists>prom s' sealed d. prepare_promotion plain_lib good_disk (MemberId 1) plain_store = (Inr prom, s') \<and>
     fst (announce_address plain_crypto demo_encoder (MemberId 1) (with_direct lookup_only (SocketV4 0 8)) (position s') None)
       = Some (ReachableAt sealed) \<and>
     bt_get (dir_signed d) (MemberId 1) = Some (demo_statement 1 7 3) \<and> note_where_a_member_is plain_crypto demo_encoder Some sealed d = d"
proof -
  let ?at = "with_direct lookup_only (SocketV4 0 8)" and ?d = "directory_new\<lparr>dir_signed := bt_insert (MemberId 1) (demo_statement 1 7 3) bt_empty\<rparr>"
  obtain prom s' where prepared: "prepare_promotion plain_lib good_disk (MemberId 1) plain_store = (Inr prom, s')"
    by (simp add: prepare_promotion_def reset_projection_def reset_begin_def reset_commit_def sm_lock_def plain_store_def
        from_database_def tables_new_def plain_lib_def persist_def and_then_def Let_def)
  obtain sealed news said' where said: "announce_address plain_crypto demo_encoder (MemberId 1) ?at (position s') None = (Some (ReachableAt sealed), news, said')"
    by (simp add: announce_address_def sign_address_def addr_signing_payload_def demo_encoder_def addr_is_empty_def
        with_direct_def lookup_only_def Let_def)
  have "note_where_a_member_is plain_crypto demo_encoder Some sealed ?d = ?d"
    by (rule promoted_addresses_are_stale [OF prepared said, where held = "demo_statement 1 7 3"])
      (simp_all add: plain_crypto_def demo_statement_def)
  then show ?thesis
    using prepared said by (intro exI [of _ prom] exI [of _ s'] exI [of _ sealed] exI [of _ ?d]) simp
qed

end
