(* ===== verification/Uploads.thy ===== *)
theory Uploads
  imports Probe_Failures Catalogue
begin

text \<open>
  Files a browser sends (\<open>distlib-api/src/uploads.rs\<close>), and how \<open>library.add\<close> takes them: each is held in
  a directory of its own under the node's, and a guard removes the directory wherever a request ends that
  does not keep it. The paths are those of Unix.
\<close>

section \<open>Paths\<close>

text \<open>\<open>Path::file_name\<close> and \<open>Path::extension\<close>: a path's last component, if it is a plain one.\<close>

definition path_components :: "string \<Rightarrow> string list" where
  "path_components path = filter (\<lambda>c. c \<noteq> [] \<and> c \<noteq> ''.'') (split_at CHR ''/'' path)"

definition path_file_name :: "string \<Rightarrow> string option" where
  "path_file_name path =
     (case rev (path_components path) of [] \<Rightarrow> None | c # _ \<Rightarrow> if c = ''..'' then None else Some c)"

definition path_extension :: "string \<Rightarrow> string option" where
  "path_extension path =
     (case path_file_name path of
        None \<Rightarrow> None
      | Some name \<Rightarrow>
          (case split_once CHR ''.'' (rev name) of
             None \<Rightarrow> None
           | Some (after, before) \<Rightarrow> if before = [] then None else Some (rev after)))"

definition is_plain :: "string \<Rightarrow> bool" where
  "is_plain name \<longleftrightarrow>
     path_file_name name = Some name \<and> trim name = name \<and> strip_prefix ''.'' name = None \<and>
     strip_prefix ''.'' (rev name) = None \<and> path_extension name \<noteq> None \<and>
     CHR 0x5C \<notin> set name \<and> CHR '':'' \<notin> set name \<and> CHR 0x00 \<notin> set name"

section \<open>What is held\<close>

type_synonym upload_id = "128 word"

text \<open>How an identifier is written: hexadecimal digits, by a crate.\<close>

record upload_codec =
  uc_display :: "upload_id \<Rightarrow> string"
  uc_parse :: "string \<Rightarrow> upload_id option"

definition upload_codec_ok :: "upload_codec \<Rightarrow> bool" where
  "upload_codec_ok uc \<longleftrightarrow> (\<forall>u name. uc_parse uc name = Some u \<longleftrightarrow> name = uc_display uc u)"

record uploaded =
  ud_upload :: upload_id
  ud_filename :: string
  ud_size :: u64

datatype upload_error =
    Filename string
  | TooLarge u64
  | Broken string
  | UnknownUpload upload_id
  | UploadIo string

text \<open>The directories under the one uploads are held in, by their names, each a map from filenames to bytes.\<close>

type_synonym upload_dirs = "string \<rightharpoonup> (string \<rightharpoonup> u8 list)"

record uploads =
  us_codec :: upload_codec
  us_max_bytes :: u64

text \<open>A guard holds the directory it removes when it is dropped, nothing once it was kept.\<close>

type_synonym staged = "string option"

definition staged_keep :: "staged \<Rightarrow> staged" where
  "staged_keep guard = None"

definition staged_drop :: "bool \<Rightarrow> staged \<Rightarrow> upload_dirs \<Rightarrow> upload_dirs" where
  "staged_drop removes guard dirs =
     (case guard of None \<Rightarrow> dirs | Some name \<Rightarrow> if removes then dirs(name := None) else dirs)"

text \<open>
  Opening: the entries the directory lists are looked at in turn, and one that cannot be removed ends the
  start. \<open>None\<close> is a directory that is not there.
\<close>

fun clear_leftovers :: "upload_codec \<Rightarrow> (string \<Rightarrow> bool) \<Rightarrow> string list \<Rightarrow> upload_dirs \<Rightarrow> bool \<times> upload_dirs" where
  "clear_leftovers uc removes [] dirs = (True, dirs)"
| "clear_leftovers uc removes (name # names) dirs =
     (if uc_parse uc name = None then clear_leftovers uc removes names dirs
      else if removes name then clear_leftovers uc removes names (dirs(name := None))
      else (False, dirs))"

definition open_uploads ::
    "upload_codec \<Rightarrow> u64 \<Rightarrow> string list option \<Rightarrow> (string \<Rightarrow> bool) \<Rightarrow> upload_dirs \<Rightarrow> uploads option \<times> upload_dirs" where
  "open_uploads uc max_bytes entries removes dirs =
     (case entries of
        None \<Rightarrow> (Some \<lparr>us_codec = uc, us_max_bytes = max_bytes\<rparr>, dirs)
      | Some names \<Rightarrow>
          (case clear_leftovers uc removes names dirs of
             (ok, dirs') \<Rightarrow> (if ok then Some \<lparr>us_codec = uc, us_max_bytes = max_bytes\<rparr> else None, dirs')))"

section \<open>Receiving\<close>

text \<open>
  A body as it arrives: chunk by chunk, until it ends, breaks off, or its client is gone, which drops the
  handler where it waits.
\<close>

datatype body =
    BodyEnds
  | BodyGone
  | BodyBroken string
  | BodyChunk "u8 list" body

record upload_io =
  ui_random :: "upload_id option"
  ui_create_dir :: bool
  ui_create_file :: bool
  ui_writes :: "nat \<Rightarrow> bool"
  ui_flushes :: bool
  ui_removes :: bool

datatype received = Dropped | Refused upload_error | Received u64

fun receive_chunks :: "upload_io \<Rightarrow> u64 \<Rightarrow> body \<Rightarrow> u64 \<Rightarrow> u8 list \<Rightarrow> received \<times> u8 list" where
  "receive_chunks io most BodyEnds sz written =
     (if ui_flushes io then Received sz else Refused (UploadIo ''flush''), written)"
| "receive_chunks io most BodyGone sz written = (Dropped, written)"
| "receive_chunks io most (BodyBroken why) sz written = (Refused (Broken why), written)"
| "receive_chunks io most (BodyChunk chunk body) sz written =
     (let sz' = sz + of_nat (length chunk)
      in if most < sz' then (Refused (TooLarge most), written)
         else if ui_writes io (length written) then receive_chunks io most body sz' (written @ chunk)
         else (Refused (UploadIo ''write''), written))"

text \<open>The request: what it answers, nothing if it was dropped, and the directories it leaves.\<close>

definition receive ::
    "upload_io \<Rightarrow> uploads \<Rightarrow> string \<Rightarrow> body \<Rightarrow> upload_dirs \<Rightarrow> (upload_error + uploaded) option \<times> upload_dirs" where
  "receive io us filename body dirs =
     (if \<not> is_plain filename then (Some (Inl (Filename filename)), dirs)
      else case ui_random io of
        None \<Rightarrow> (Some (Inl (UploadIo ''random'')), dirs)
      | Some upload \<Rightarrow>
          (let name = uc_display (us_codec us) upload; guard = Some name
           in if \<not> ui_create_dir io then (Some (Inl (UploadIo ''create'')), staged_drop (ui_removes io) guard dirs)
              else
                (let held = (case dirs name of None \<Rightarrow> Map.empty | Some files \<Rightarrow> files); dirs1 = dirs(name \<mapsto> held)
                 in if \<not> ui_create_file io then (Some (Inl (UploadIo ''create'')), staged_drop (ui_removes io) guard dirs1)
                    else case receive_chunks io (us_max_bytes us) body 0 [] of
                      (res, written) \<Rightarrow>
                        (let dirs2 = dirs1(name \<mapsto> held(filename \<mapsto> written))
                         in case res of
                              Dropped \<Rightarrow> (None, staged_drop (ui_removes io) guard dirs2)
                            | Refused e \<Rightarrow> (Some (Inl e), staged_drop (ui_removes io) guard dirs2)
                            | Received sz \<Rightarrow>
                                (Some (Inr \<lparr>ud_upload = upload, ud_filename = filename, ud_size = sz\<rparr>),
                                 staged_drop (ui_removes io) (staged_keep guard) dirs2)))))"

section \<open>Taking\<close>

text \<open>\<open>first\<close> is what listing a directory gives first, nothing if it is empty or cannot be listed.\<close>

definition take_upload ::
    "((string \<rightharpoonup> u8 list) \<Rightarrow> string option) \<Rightarrow> bool \<Rightarrow> uploads \<Rightarrow> upload_id \<Rightarrow> upload_dirs
      \<Rightarrow> (upload_error + string \<times> staged) \<times> upload_dirs" where
  "take_upload first removes us upload dirs =
     (let name = uc_display (us_codec us) upload; guard = Some name
      in case Option.bind (dirs name) first of
           None \<Rightarrow> (Inl (UnknownUpload upload), staged_drop removes guard dirs)
         | Some file \<Rightarrow> (Inr (name @ ''/'' @ file, guard), dirs))"

fun take_uploads ::
    "((string \<rightharpoonup> u8 list) \<Rightarrow> string option) \<Rightarrow> bool \<Rightarrow> uploads \<Rightarrow> upload_id list \<Rightarrow> string list \<Rightarrow> staged list \<Rightarrow> upload_dirs
      \<Rightarrow> (upload_error + string list \<times> staged list) \<times> upload_dirs" where
  "take_uploads first removes us [] paths guards dirs = (Inr (paths, guards), dirs)"
| "take_uploads first removes us (upload # rest) paths guards dirs =
     (case take_upload first removes us upload dirs of
        (Inl e, dirs') \<Rightarrow> (Inl e, fold (staged_drop removes) guards dirs')
      | (Inr (path, guard), dirs') \<Rightarrow> take_uploads first removes us rest (paths @ [path]) (guards @ [guard]) dirs')"

definition files_or_uploads :: "string list \<Rightarrow> string list \<Rightarrow> string + string list" where
  "files_or_uploads files uploaded =
     (case (files = [], uploaded = []) of
        (False, True) \<Rightarrow> Inr files
      | (True, False) \<Rightarrow> Inr uploaded
      | (True, True) \<Rightarrow> Inl ''library.add needs at least one file''
      | (False, False) \<Rightarrow> Inl ''library.add takes files or uploads, not both'')"

text \<open>
  \<open>library.add\<close> around its uploads: they are taken before anything else, \<open>work\<close> is what the rest makes of the
  files, and the guards are dropped however it ends.
\<close>

definition add_uploads ::
    "((string \<rightharpoonup> u8 list) \<Rightarrow> string option) \<Rightarrow> bool \<Rightarrow> uploads \<Rightarrow> upload_id list \<Rightarrow> string list \<Rightarrow> (string list \<Rightarrow> string + 'r) \<Rightarrow> upload_dirs
      \<Rightarrow> (upload_error + (string + 'r)) \<times> upload_dirs" where
  "add_uploads first removes us uploads files work dirs =
     (case take_uploads first removes us uploads [] [] dirs of
        (Inl e, dirs') \<Rightarrow> (Inl e, dirs')
      | (Inr (uploaded, guards), dirs') \<Rightarrow>
          (Inr (case files_or_uploads files uploaded of Inl e \<Rightarrow> Inl e | Inr paths \<Rightarrow> work paths),
           fold (staged_drop removes) guards dirs'))"

section \<open>A name stays in its directory\<close>

lemma split_at_pieces: "p \<in> set (split_at c s) \<Longrightarrow> c \<notin> set p"
  by (induction s arbitrary: p) (auto split: if_splits list.splits)

lemma path_file_name_plain:
  assumes "path_file_name path = Some name"
  shows "name \<noteq> [] \<and> name \<noteq> ''.'' \<and> name \<noteq> ''..'' \<and> CHR ''/'' \<notin> set name"
proof -
  have "name \<in> set (path_components path)" "name \<noteq> ''..''"
    using assms by (auto simp: path_file_name_def split: list.splits if_splits)
  then show ?thesis by (auto simp: path_components_def dest: split_at_pieces)
qed

section \<open>An upload is held whole or not at all\<close>

fun body_bytes :: "body \<Rightarrow> u8 list" where
  "body_bytes (BodyChunk chunk body) = chunk @ body_bytes body"
| "body_bytes _ = []"

fun body_ends :: "body \<Rightarrow> bool" where
  "body_ends BodyEnds \<longleftrightarrow> True"
| "body_ends (BodyChunk chunk body) \<longleftrightarrow> body_ends body"
| "body_ends _ \<longleftrightarrow> False"

lemma receive_chunks_whole:
  assumes "receive_chunks io most body sz written = (Received sz', written')"
    and "unat sz = length written" and "length written \<le> unat most" and "length written + length (body_bytes body) < 2 ^ 64"
  shows "body_ends body \<and> written' = written @ body_bytes body \<and> unat sz' = length written' \<and> length written' \<le> unat most"
  using assms
proof (induction io most body sz written rule: receive_chunks.induct)
  case (4 io most chunk body sz written)
  have "unat (sz + of_nat (length chunk)) = length (written @ chunk)"
    using "4.prems"(2,4) by (simp add: unat_word_ariths unat_of_nat)
  with 4 show ?case
    by (auto simp: Let_def not_less word_le_nat_alt split: if_splits)
qed (auto split: if_splits)


section \<open>What an add removes\<close>

definition upload_known :: "((string \<rightharpoonup> u8 list) \<Rightarrow> string option) \<Rightarrow> uploads \<Rightarrow> upload_dirs \<Rightarrow> upload_id \<Rightarrow> bool" where
  "upload_known first us dirs upload \<longleftrightarrow> Option.bind (dirs (uc_display (us_codec us) upload)) first \<noteq> None"

lemma drop_all: "fold (staged_drop True) (map Some names) dirs k = (if k \<in> set names then None else dirs k)"
  by (induction names arbitrary: dirs) (auto simp: staged_drop_def)

lemma drop_all_uploads:
  "fold (staged_drop True) (map (Some \<circ> f) xs) dirs k = (if k \<in> f ` set xs then None else dirs k)"
  using drop_all [of "map f xs"] by simp

lemma take_uploads_leaves:
  assumes "take_uploads first True us uploads paths (map Some names) dirs = (res, dirs')"
  shows "let n = length (takeWhile (upload_known first us dirs) uploads);
             taken = map (uc_display (us_codec us)) (take (Suc n) uploads)
         in (\<exists>e. res = Inl e \<and> n < length uploads \<and> dirs' = (\<lambda>k. if k \<in> set names \<union> set taken then None else dirs k)) \<or>
            (\<exists>ps. res = Inr (ps, map Some (names @ taken)) \<and> n = length uploads \<and> dirs' = dirs)"
  using assms
proof (induction uploads arbitrary: paths names)
  case Nil
  then show ?case by auto
next
  case (Cons upload uploads)
  let ?name = "uc_display (us_codec us) upload"
  show ?case
  proof (cases "upload_known first us dirs upload")
    case True
    then obtain held where "Option.bind (dirs ?name) first = Some held" by (auto simp: upload_known_def)
    then have "take_uploads first True us uploads (paths @ [?name @ ''/'' @ held]) (map Some (names @ [?name])) dirs = (res, dirs')"
      using Cons.prems by (simp add: take_upload_def Let_def)
    from Cons.IH [OF this] True show ?thesis by (auto simp: Let_def fun_eq_iff)
  next
    case False
    then show ?thesis
      using Cons.prems
      by (auto simp: take_upload_def upload_known_def Let_def drop_all staged_drop_def fun_eq_iff split: if_splits)
  qed
qed

text \<open>
  What an add removes of its uploads: all of them, whatever it makes of their files, when it knows them
  all. One it does not know ends it there, with those named before it removed and those named after it left
  in place, where only a restart removes them.
\<close>
theorem add_removes_uploads_up_to_an_unknown_one:
  "snd (add_uploads first True us uploads files work dirs) =
     (let known = takeWhile (upload_known first us dirs) uploads;
          gone = take (Suc (length known)) uploads
      in (\<lambda>k. if k \<in> uc_display (us_codec us) ` set gone then None else dirs k))"
proof -
  obtain res dirs' where taken: "take_uploads first True us uploads [] (map Some []) dirs = (res, dirs')" by fastforce
  from take_uploads_leaves [OF this] show ?thesis
    using taken by (auto simp: add_uploads_def Let_def fun_eq_iff drop_all_uploads)
qed

text \<open>What the next start removes: whatever is named like an upload, and nothing else.\<close>

lemma clear_leftovers_all:
  assumes "clear_leftovers uc removes names dirs = (True, dirs')"
  shows "dirs' = (\<lambda>k. if k \<in> set names \<and> uc_parse uc k \<noteq> None then None else dirs k)"
  using assms by (induction uc removes names dirs rule: clear_leftovers.induct) (auto simp: fun_eq_iff split: if_splits)

lemma start_clears_uploads:
  assumes "upload_codec_ok uc" and "set names = dom dirs" and "open_uploads uc most (Some names) removes dirs = (Some us, dirs')"
  shows "dirs' (uc_display uc u) = None" and "(\<forall>u. k \<noteq> uc_display uc u) \<Longrightarrow> dirs' k = dirs k"
proof -
  have "clear_leftovers uc removes names dirs = (True, dirs')"
    using assms(3) by (auto simp: open_uploads_def split: prod.splits if_splits)
  note cleared = clear_leftovers_all [OF this]
  have parses: "uc_parse uc name = None \<longleftrightarrow> (\<forall>u. name \<noteq> uc_display uc u)" for name
    using assms(1) unfolding upload_codec_ok_def by (metis not_Some_eq)
  show "dirs' (uc_display uc u) = None" using assms(2) parses by (auto simp: cleared)
  show "(\<forall>u. k \<noteq> uc_display uc u) \<Longrightarrow> dirs' k = dirs k" using parses by (simp add: cleared)
qed

section \<open>A concrete upload\<close>

definition bit_codec :: upload_codec where
  "bit_codec = \<lparr>uc_display = (\<lambda>u. map (\<lambda>i. if bit u i then CHR ''1'' else CHR ''0'') [0..<128]),
     uc_parse = (\<lambda>name. None)\<rparr>"

definition demo_io :: upload_io where
  "demo_io = \<lparr>ui_random = Some 5, ui_create_dir = True, ui_create_file = True, ui_writes = (\<lambda>_. True), ui_flushes = True,
     ui_removes = True\<rparr>"

abbreviation demo_uploads :: uploads where
  "demo_uploads \<equiv> \<lparr>us_codec = bit_codec, us_max_bytes = 4\<rparr>"


end
