(* ===== verification/Downloads.thy ===== *)
theory Downloads
  imports Settling BTree_Map Ids
begin

text \<open>
  The registry of downloads (\<open>distlib-api/src/tasks.rs\<close>): what a node answers when asked how a download is
  going, and what it publishes of it. A handle is owned by the task that does the work, and dropping it is
  one of the ways a download ends.
\<close>

section \<open>The registry\<close>

type_synonym task_id = u64

record progress_of =
  pg_bytes_done :: u64
  pg_bytes_total :: u64
  pg_files_done :: u64
  pg_files_total :: u64

datatype download_source = Network | Store | Destination

record downloaded =
  dd_file :: content_hash
  dd_filename :: string
  dd_path :: string
  dd_from :: download_source

datatype task_outcome =
    Running
  | Finished "downloaded list"
  | Failed string

record task_state =
  ts_task_id :: task_id
  ts_item_id :: item_id
  ts_title :: "string option"
  ts_progress :: progress_of
  ts_outcome :: task_outcome

record registry =
  rg_next :: u64
  rg_tasks :: "(task_id, task_state) btmap"

text \<open>The events a registry publishes, of those the bus carries.\<close>

datatype download_event =
    DownloadProgress task_id item_id progress_of
  | DownloadFinished task_id item_id
  | DownloadFailed task_id item_id

record tasks =
  tk_registry :: registry
  tk_sent :: "download_event list"

record download_handle =
  dh_task_id :: task_id
  dh_item_id :: item_id
  dh_progress :: progress_of
  dh_published :: "duration option"
  dh_ended :: bool

definition KEEP_ENDED :: nat where "KEEP_ENDED = 64"

definition PUBLISH_EVERY :: duration where "PUBLISH_EVERY = 250 * 1000000"

definition tasks_new :: tasks where
  "tasks_new = \<lparr>tk_registry = \<lparr>rg_next = 0, rg_tasks = bt_empty\<rparr>, tk_sent = []\<rparr>"

definition start_download ::
    "item_id \<Rightarrow> string option \<Rightarrow> u64 \<Rightarrow> u64 \<Rightarrow> tasks \<Rightarrow> download_handle \<times> tasks" where
  "start_download item title files_total bytes_total tk =
     (let progress = \<lparr>pg_bytes_done = 0, pg_bytes_total = bytes_total, pg_files_done = 0, pg_files_total = files_total\<rparr>;
          next = rg_next (tk_registry tk) + 1;
          task = \<lparr>ts_task_id = next, ts_item_id = item, ts_title = title, ts_progress = progress, ts_outcome = Running\<rparr>
      in (\<lparr>dh_task_id = next, dh_item_id = item, dh_progress = progress, dh_published = None, dh_ended = False\<rparr>,
          tk\<lparr>tk_registry := \<lparr>rg_next = next, rg_tasks = bt_insert next task (rg_tasks (tk_registry tk))\<rparr>\<rparr>))"

definition get_task :: "task_id \<Rightarrow> tasks \<Rightarrow> task_state option" where
  "get_task k tk = bt_get (rg_tasks (tk_registry tk)) k"

definition running_downloads :: "tasks \<Rightarrow> download_event list" where
  "running_downloads tk =
     map (\<lambda>task. DownloadProgress (ts_task_id task) (ts_item_id task) (ts_progress task))
       (filter (\<lambda>task. ts_outcome task = Running) (bt_values (rg_tasks (tk_registry tk))))"

definition record_progress :: "task_id \<Rightarrow> progress_of \<Rightarrow> tasks \<Rightarrow> tasks" where
  "record_progress k progress tk =
     (case bt_get (rg_tasks (tk_registry tk)) k of
        None \<Rightarrow> tk
      | Some task \<Rightarrow> tk\<lparr>tk_registry := (tk_registry tk)\<lparr>rg_tasks :=
          bt_insert k (task\<lparr>ts_progress := progress\<rparr>) (rg_tasks (tk_registry tk))\<rparr>\<rparr>)"

definition prune_ended :: "(task_id, task_state) btmap \<Rightarrow> (task_id, task_state) btmap" where
  "prune_ended ts =
     (let ended = map ts_task_id (filter (\<lambda>task. ts_outcome task \<noteq> Running) (bt_values ts))
      in fold bt_remove (take (length ended - KEEP_ENDED) ended) ts)"

definition end_task :: "task_id \<Rightarrow> task_outcome \<Rightarrow> tasks \<Rightarrow> tasks" where
  "end_task k outcome tk =
     (let ts = rg_tasks (tk_registry tk);
          ts' = (case bt_get ts k of None \<Rightarrow> ts | Some task \<Rightarrow> bt_insert k (task\<lparr>ts_outcome := outcome\<rparr>) ts)
      in tk\<lparr>tk_registry := (tk_registry tk)\<lparr>rg_tasks := prune_ended ts'\<rparr>\<rparr>)"

definition publish_event :: "download_event \<Rightarrow> tasks \<Rightarrow> tasks" where
  "publish_event event tk = tk\<lparr>tk_sent := tk_sent tk @ [event]\<rparr>"

section \<open>A handle\<close>

definition publish_progress :: "duration \<Rightarrow> download_handle \<times> tasks \<Rightarrow> download_handle \<times> tasks" where
  "publish_progress now = (\<lambda>(dh, tk).
     (dh\<lparr>dh_published := Some now\<rparr>,
      publish_event (DownloadProgress (dh_task_id dh) (dh_item_id dh) (dh_progress dh)) tk))"

definition download_progress :: "duration \<Rightarrow> u64 \<Rightarrow> download_handle \<times> tasks \<Rightarrow> download_handle \<times> tasks" where
  "download_progress now bytes_done = (\<lambda>(dh, tk).
     (let dh' = dh\<lparr>dh_progress := (dh_progress dh)\<lparr>pg_bytes_done := bytes_done\<rparr>\<rparr>;
          tk' = record_progress (dh_task_id dh) (dh_progress dh') tk
      in if (case dh_published dh of None \<Rightarrow> True | Some at \<Rightarrow> PUBLISH_EVERY \<le> now - at)
         then publish_progress now (dh', tk') else (dh', tk')))"

definition file_written :: "duration \<Rightarrow> u64 \<Rightarrow> download_handle \<times> tasks \<Rightarrow> download_handle \<times> tasks" where
  "file_written now bytes_done = (\<lambda>(dh, tk).
     (let dh' = dh\<lparr>dh_progress := (dh_progress dh)\<lparr>pg_bytes_done := bytes_done, pg_files_done := pg_files_done (dh_progress dh) + 1\<rparr>\<rparr>
      in publish_progress now (dh', record_progress (dh_task_id dh) (dh_progress dh') tk)))"

definition end_download :: "task_outcome \<Rightarrow> download_event \<Rightarrow> download_handle \<times> tasks \<Rightarrow> download_handle \<times> tasks" where
  "end_download outcome event = (\<lambda>(dh, tk).
     (dh\<lparr>dh_ended := True\<rparr>, publish_event event (end_task (dh_task_id dh) outcome tk)))"

definition failed_download :: "string \<Rightarrow> download_handle \<times> tasks \<Rightarrow> download_handle \<times> tasks" where
  "failed_download error = (\<lambda>(dh, tk).
     end_download (Failed error) (DownloadFailed (dh_task_id dh) (dh_item_id dh)) (dh, tk))"

text \<open>Dropping a handle, which \<open>finish\<close> and \<open>fail\<close> end with, having consumed it.\<close>

definition drop_download :: "download_handle \<times> tasks \<Rightarrow> tasks" where
  "drop_download = (\<lambda>(dh, tk).
     if \<not> dh_ended dh then snd (failed_download ''interrupted before it finished'' (dh, tk)) else tk)"

definition finish_download :: "duration \<Rightarrow> downloaded list \<Rightarrow> download_handle \<times> tasks \<Rightarrow> tasks" where
  "finish_download now files = (\<lambda>(dh, tk).
     (let progress = (dh_progress dh)\<lparr>pg_bytes_done := pg_bytes_total (dh_progress dh), pg_files_done := pg_files_total (dh_progress dh)\<rparr>;
          dh' = dh\<lparr>dh_progress := progress\<rparr>
      in drop_download (end_download (Finished files) (DownloadFinished (dh_task_id dh) (dh_item_id dh))
           (publish_progress now (dh', record_progress (dh_task_id dh) progress tk)))))"

definition fail_download :: "string \<Rightarrow> download_handle \<times> tasks \<Rightarrow> tasks" where
  "fail_download error ht = drop_download (failed_download error ht)"

section \<open>What pruning leaves\<close>

lemma get_fold_remove: "bt_get (fold bt_remove ks m) k = (if k \<in> set ks then None else bt_get m k)"
  by (induction ks arbitrary: m) auto

lemma sorted_later:
  fixes xs :: "'a::linorder list"
  assumes "sorted_wrt (<) xs" and "i < length xs"
  shows "filter (\<lambda>y. xs ! i < y) xs = drop (Suc i) xs"
proof -
  have "xs ! j \<le> xs ! i" if "j < Suc i" for j
    using sorted_wrt_nth_less [OF assms(1), of j i] assms(2) that by (cases "j = i") auto
  then have "filter (\<lambda>y. xs ! i < y) (take (Suc i) xs) = []"
    by (auto simp: filter_empty_conv in_set_conv_nth not_less)
  moreover have "filter (\<lambda>y. xs ! i < y) (drop (Suc i) xs) = drop (Suc i) xs"
    using assms by (auto simp: filter_id_conv in_set_conv_nth intro!: sorted_wrt_nth_less [OF assms(1)])
  ultimately show ?thesis
    by (metis append_Nil append_take_drop_id filter_append)
qed

lemma among_the_first:
  fixes xs :: "'a::linorder list"
  assumes "sorted_wrt (<) xs"
  shows "x \<in> set (take (length xs - K) xs) \<longleftrightarrow> x \<in> set xs \<and> K \<le> length (filter (\<lambda>y. x < y) xs)"
proof -
  have dist: "distinct xs" by (rule strict_sorted_distinct [OF assms])
  have "xs ! i \<in> set (take (length xs - K) xs) \<longleftrightarrow> K \<le> length (filter (\<lambda>y. xs ! i < y) xs)" if "i < length xs" for i
  proof -
    have "xs ! i \<in> set (take (length xs - K) xs) \<longleftrightarrow> i < length xs - K"
      using dist that by (auto simp: in_set_conv_nth nth_eq_iff_index_eq)
    then show ?thesis using that by (auto simp: sorted_later [OF assms that])
  qed
  then show ?thesis by (metis in_set_conv_nth in_set_takeD)
qed

definition keyed_by_id :: "(task_id, task_state) btmap \<Rightarrow> bool" where
  "keyed_by_id ts \<longleftrightarrow> (\<forall>k task. bt_get ts k = Some task \<longrightarrow> ts_task_id task = k)"

definition has_ended :: "(task_id, task_state) btmap \<Rightarrow> task_id \<Rightarrow> bool" where
  "has_ended ts k = (case bt_get ts k of None \<Rightarrow> False | Some task \<Rightarrow> ts_outcome task \<noteq> Running)"

definition ended_ids :: "(task_id, task_state) btmap \<Rightarrow> task_id list" where
  "ended_ids ts = filter (has_ended ts) (bt_keys ts)"

lemma ended_ids_listed:
  assumes "keyed_by_id ts"
  shows "map ts_task_id (filter (\<lambda>task. ts_outcome task \<noteq> Running) (bt_values ts)) = ended_ids ts"
proof -
  have "map ts_task_id (filter (\<lambda>task. ts_outcome task \<noteq> Running) (map (\<lambda>k. the (bt_get ts k)) ks)) = filter (has_ended ts) ks"
    if "set ks \<subseteq> dom (bt_get ts)" for ks using that assms
    by (induction ks) (auto simp: keyed_by_id_def has_ended_def)
  then show ?thesis by (simp add: bt_values_keys ended_ids_def)
qed

lemma ended_ids_sorted: "sorted_wrt (<) (ended_ids ts)"
  by (simp add: ended_ids_def sorted_wrt_filter)

lemma prune_ended_get:
  assumes "keyed_by_id ts"
  shows "bt_get (prune_ended ts) k =
    (if has_ended ts k \<and> KEEP_ENDED \<le> length (filter (\<lambda>j. k < j) (ended_ids ts)) then None else bt_get ts k)"
proof -
  have "k \<in> set (ended_ids ts) \<longleftrightarrow> has_ended ts k"
    by (auto simp: ended_ids_def has_ended_def split: option.splits)
  then show ?thesis
    by (simp add: prune_ended_def Let_def ended_ids_listed [OF assms] get_fold_remove among_the_first [OF ended_ids_sorted])
qed

lemma prune_ended_length:
  assumes "keyed_by_id ts"
  shows "length (ended_ids (prune_ended ts)) \<le> KEEP_ENDED"
proof -
  let ?xs = "ended_ids ts" and ?gone = "set (take (length (ended_ids ts) - KEEP_ENDED) (ended_ids ts))"
  have "set (ended_ids (prune_ended ts)) = set ?xs - ?gone"
    by (auto simp: ended_ids_def has_ended_def prune_ended_get [OF assms] among_the_first [OF ended_ids_sorted, unfolded ended_ids_def]
        split: option.splits if_splits)
  moreover have "card ?gone = length ?xs - KEEP_ENDED"
    using strict_sorted_distinct [OF ended_ids_sorted, of ts] by (simp add: distinct_card)
  moreover have "card (set ?xs) = length ?xs" "card (set (ended_ids (prune_ended ts))) = length (ended_ids (prune_ended ts))"
    by (simp_all add: distinct_card strict_sorted_distinct [OF ended_ids_sorted])
  ultimately show ?thesis
    by (simp add: card_Diff_subset [OF _ set_take_subset])
qed

section \<open>Runs\<close>

text \<open>
  The registry and the handles that are held. Each is used by the task that owns it until that task
  finishes it, fails it, or is gone. Identifiers are counted as long as the counter does not wrap.
\<close>

record dl_world =
  dw_tasks :: tasks
  dw_live :: "(task_id, download_handle) btmap"

abbreviation dw_store :: "dl_world \<Rightarrow> (task_id, task_state) btmap" where
  "dw_store w \<equiv> rg_tasks (tk_registry (dw_tasks w))"

abbreviation dw_next :: "dl_world \<Rightarrow> u64" where
  "dw_next w \<equiv> rg_next (tk_registry (dw_tasks w))"

inductive dl_step :: "dl_world \<Rightarrow> dl_world \<Rightarrow> bool" where
  begun: "dw_next w \<noteq> - 1 \<Longrightarrow> start_download item title files bytes (dw_tasks w) = (dh, tk) \<Longrightarrow>
    dl_step w \<lparr>dw_tasks = tk, dw_live = bt_insert (dh_task_id dh) dh (dw_live w)\<rparr>"
| reported: "bt_get (dw_live w) k = Some dh \<Longrightarrow> download_progress now bytes (dh, dw_tasks w) = (dh', tk) \<Longrightarrow>
    dl_step w \<lparr>dw_tasks = tk, dw_live = bt_insert k dh' (dw_live w)\<rparr>"
| wrote: "bt_get (dw_live w) k = Some dh \<Longrightarrow> file_written now bytes (dh, dw_tasks w) = (dh', tk) \<Longrightarrow>
    dl_step w \<lparr>dw_tasks = tk, dw_live = bt_insert k dh' (dw_live w)\<rparr>"
| finished: "bt_get (dw_live w) k = Some dh \<Longrightarrow>
    dl_step w \<lparr>dw_tasks = finish_download now files (dh, dw_tasks w), dw_live = bt_remove k (dw_live w)\<rparr>"
| failed: "bt_get (dw_live w) k = Some dh \<Longrightarrow>
    dl_step w \<lparr>dw_tasks = fail_download error (dh, dw_tasks w), dw_live = bt_remove k (dw_live w)\<rparr>"
| dropped: "bt_get (dw_live w) k = Some dh \<Longrightarrow>
    dl_step w \<lparr>dw_tasks = drop_download (dh, dw_tasks w), dw_live = bt_remove k (dw_live w)\<rparr>"

inductive dl_reach :: "dl_world \<Rightarrow> bool" where
  nothing_yet: "dl_reach \<lparr>dw_tasks = tasks_new, dw_live = bt_empty\<rparr>"
| went_on: "dl_reach w \<Longrightarrow> dl_step w w' \<Longrightarrow> dl_reach w'"

fun ends_download :: "task_id \<Rightarrow> download_event \<Rightarrow> bool" where
  "ends_download k (DownloadProgress _ _ _) \<longleftrightarrow> False"
| "ends_download k (DownloadFinished j _) \<longleftrightarrow> j = k"
| "ends_download k (DownloadFailed j _) \<longleftrightarrow> j = k"

definition endings :: "task_id \<Rightarrow> tasks \<Rightarrow> nat" where
  "endings k tk = length (filter (ends_download k) (tk_sent tk))"

definition held_running :: "dl_world \<Rightarrow> bool" where
  "held_running w \<longleftrightarrow> (\<forall>k dh. bt_get (dw_live w) k = Some dh \<longrightarrow> dh_task_id dh = k \<and> \<not> dh_ended dh \<and>
     (\<exists>task. bt_get (dw_store w) k = Some task \<and> ts_outcome task = Running \<and> ts_item_id task = dh_item_id dh \<and>
        ts_progress task = dh_progress dh))"

definition stored_known :: "dl_world \<Rightarrow> bool" where
  "stored_known w \<longleftrightarrow> keyed_by_id (dw_store w) \<and>
     (\<forall>k task. bt_get (dw_store w) k = Some task \<longrightarrow> 0 < k \<and> k \<le> dw_next w \<and> (ts_outcome task = Running \<longrightarrow> bt_has (dw_live w) k))"

definition ended_once :: "dl_world \<Rightarrow> bool" where
  "ended_once w \<longleftrightarrow>
     (\<forall>k. endings k (dw_tasks w) = (if 0 < k \<and> k \<le> dw_next w \<and> \<not> bt_has (dw_live w) k then 1 else 0))"

definition dl_ok :: "dl_world \<Rightarrow> bool" where
  "dl_ok w \<longleftrightarrow> held_running w \<and> stored_known w \<and> ended_once w \<and> length (ended_ids (dw_store w)) \<le> KEEP_ENDED"

section \<open>Every download ends once\<close>

lemma finish_download_parts:
  "finish_download now files (dh, tk) =
     (let progress = (dh_progress dh)\<lparr>pg_bytes_done := pg_bytes_total (dh_progress dh), pg_files_done := pg_files_total (dh_progress dh)\<rparr>
      in publish_event (DownloadFinished (dh_task_id dh) (dh_item_id dh)) (end_task (dh_task_id dh) (Finished files)
           (publish_event (DownloadProgress (dh_task_id dh) (dh_item_id dh) progress) (record_progress (dh_task_id dh) progress tk))))"
  by (simp add: finish_download_def drop_download_def end_download_def publish_progress_def Let_def)

lemma failed_parts:
  "\<not> dh_ended dh \<Longrightarrow> fail_download error (dh, tk) =
     publish_event (DownloadFailed (dh_task_id dh) (dh_item_id dh)) (end_task (dh_task_id dh) (Failed error) tk)"
  "\<not> dh_ended dh \<Longrightarrow> drop_download (dh, tk) = fail_download ''interrupted before it finished'' (dh, tk)"
  by (simp_all add: fail_download_def drop_download_def failed_download_def end_download_def)

lemma publish_event_simps [simp]:
  "tk_registry (publish_event e tk) = tk_registry tk"
  "endings k (publish_event e tk) = endings k tk + (if ends_download k e then 1 else 0)"
  by (simp_all add: publish_event_def endings_def)

lemma record_progress_simps [simp]:
  "rg_next (tk_registry (record_progress k p tk)) = rg_next (tk_registry tk)"
  "endings j (record_progress k p tk) = endings j tk"
  "bt_get (rg_tasks (tk_registry (record_progress k p tk))) j =
     (if j = k then map_option (\<lambda>task. task\<lparr>ts_progress := p\<rparr>) (bt_get (rg_tasks (tk_registry tk)) k)
      else bt_get (rg_tasks (tk_registry tk)) j)"
  by (auto simp: record_progress_def endings_def split: option.splits)

lemma end_task_simps [simp]:
  "rg_next (tk_registry (end_task k outcome tk)) = rg_next (tk_registry tk)"
  "endings j (end_task k outcome tk) = endings j tk"
  by (simp_all add: end_task_def endings_def Let_def)

lemma ended_ids_cong: "(\<And>k. has_ended ts k = has_ended us k) \<Longrightarrow> set (bt_keys ts) = set (bt_keys us) \<Longrightarrow> ended_ids ts = ended_ids us"
  by (metis (no_types, lifting) bt_keys_sorted ended_ids_def filter_cong sorted_wrt_filter strict_sorted_equal)

lemma dl_ok_publish:
  "dl_ok \<lparr>dw_tasks = tk, dw_live = live\<rparr> \<Longrightarrow> dl_ok \<lparr>dw_tasks = publish_event (DownloadProgress k item p) tk, dw_live = live\<rparr>"
  by (simp add: dl_ok_def held_running_def stored_known_def ended_once_def)

lemma dl_ok_record:
  assumes "dl_ok w" and "bt_get (dw_live w) k = Some dh"
    and "dh_task_id dh' = k" and "dh_item_id dh' = dh_item_id dh" and "\<not> dh_ended dh'" and "dh_progress dh' = p"
  shows "dl_ok \<lparr>dw_tasks = record_progress k p (dw_tasks w), dw_live = bt_insert k dh' (dw_live w)\<rparr>"
proof -
  have "ended_ids (rg_tasks (tk_registry (record_progress k p (dw_tasks w)))) = ended_ids (dw_store w)"
    by (rule ended_ids_cong) (auto simp: has_ended_def split: option.splits if_splits)
  moreover have has: "bt_has (dw_live w) k" using assms(2) by (simp add: bt_has_def)
  moreover have "held_running \<lparr>dw_tasks = record_progress k p (dw_tasks w), dw_live = bt_insert k dh' (dw_live w)\<rparr>"
    using assms by (fastforce simp: dl_ok_def held_running_def)
  moreover have "stored_known \<lparr>dw_tasks = record_progress k p (dw_tasks w), dw_live = bt_insert k dh' (dw_live w)\<rparr>"
    using assms has by (auto simp: dl_ok_def stored_known_def keyed_by_id_def split: if_splits)
  ultimately show ?thesis
    using assms(1) by (auto simp: dl_ok_def ended_once_def)
qed

lemma end_task_get:
  fixes outcome :: task_outcome
  assumes "bt_get (rg_tasks (tk_registry tk)) k = Some task" and "keyed_by_id (rg_tasks (tk_registry tk))"
  defines "ts \<equiv> bt_insert k (task\<lparr>ts_outcome := outcome\<rparr>) (rg_tasks (tk_registry tk))"
  shows "bt_get (rg_tasks (tk_registry (end_task k outcome tk))) j =
      (if has_ended ts j \<and> KEEP_ENDED \<le> length (filter (\<lambda>i. j < i) (ended_ids ts)) then None else bt_get ts j)"
    and "length (ended_ids (rg_tasks (tk_registry (end_task k outcome tk)))) \<le> KEEP_ENDED"
    and "keyed_by_id ts"
proof -
  show keyed: "keyed_by_id ts" using assms by (auto simp: keyed_by_id_def)
  have "rg_tasks (tk_registry (end_task k outcome tk)) = prune_ended ts" by (simp add: end_task_def Let_def assms)
  then show "bt_get (rg_tasks (tk_registry (end_task k outcome tk))) j =
      (if has_ended ts j \<and> KEEP_ENDED \<le> length (filter (\<lambda>i. j < i) (ended_ids ts)) then None else bt_get ts j)"
    and "length (ended_ids (rg_tasks (tk_registry (end_task k outcome tk)))) \<le> KEEP_ENDED"
    using prune_ended_get [OF keyed] prune_ended_length [OF keyed] by auto
qed

lemma dl_ok_end:
  assumes "dl_ok w" and "bt_get (dw_live w) k = Some dh" and "outcome \<noteq> Running" and "\<forall>j. ends_download j e \<longleftrightarrow> k = j"
  shows "dl_ok \<lparr>dw_tasks = publish_event e (end_task k outcome (dw_tasks w)), dw_live = bt_remove k (dw_live w)\<rparr>"
proof -
  obtain task where task: "bt_get (dw_store w) k = Some task" "ts_outcome task = Running"
    using assms(1,2) by (auto simp: dl_ok_def held_running_def)
  have keyed: "keyed_by_id (dw_store w)" using assms(1) by (simp add: dl_ok_def stored_known_def)
  note got = end_task_get [OF task(1) keyed, of outcome]
  have live: "bt_has (dw_live w) k" using assms(2) by (simp add: bt_has_def)
  have "0 < k \<and> k \<le> dw_next w" using assms(1) task(1) by (simp add: dl_ok_def stored_known_def)
  then have "ended_once \<lparr>dw_tasks = publish_event e (end_task k outcome (dw_tasks w)), dw_live = bt_remove k (dw_live w)\<rparr>"
    using assms(1,4) live by (auto simp: dl_ok_def ended_once_def)
  moreover have "stored_known \<lparr>dw_tasks = publish_event e (end_task k outcome (dw_tasks w)), dw_live = bt_remove k (dw_live w)\<rparr>"
    using assms(1,3) task(1) by (simp add: dl_ok_def stored_known_def keyed_by_id_def got(1)) 
  moreover have "held_running \<lparr>dw_tasks = publish_event e (end_task k outcome (dw_tasks w)), dw_live = bt_remove k (dw_live w)\<rparr>"
    unfolding held_running_def
  proof (intro allI impI)
    fix j d assume "bt_get (dw_live \<lparr>dw_tasks = publish_event e (end_task k outcome (dw_tasks w)), dw_live = bt_remove k (dw_live w)\<rparr>) j = Some d"
    then have j: "bt_get (dw_live w) j = Some d" "j \<noteq> k" by (auto split: if_splits)
    moreover from this obtain other where "bt_get (dw_store w) j = Some other" "ts_outcome other = Running"
        "ts_item_id other = dh_item_id d" "ts_progress other = dh_progress d" "dh_task_id d = j" "\<not> dh_ended d"
      using assms(1) unfolding dl_ok_def held_running_def by blast
    ultimately show "dh_task_id d = j \<and> \<not> dh_ended d \<and> (\<exists>task. bt_get (dw_store \<lparr>dw_tasks = publish_event e (end_task k outcome (dw_tasks w)),
        dw_live = bt_remove k (dw_live w)\<rparr>) j = Some task \<and> ts_outcome task = Running \<and> ts_item_id task = dh_item_id d \<and>
        ts_progress task = dh_progress d)"
      by (simp add: got(1) has_ended_def)
  qed
  ultimately show ?thesis using got(2) by (simp add: dl_ok_def)
qed

lemma begun_ended:
  assumes "start_download item title files bytes tk = (dh, tk')"
    and "bt_get (rg_tasks (tk_registry tk)) (rg_next (tk_registry tk) + 1) = None"
  shows "ended_ids (rg_tasks (tk_registry tk')) = ended_ids (rg_tasks (tk_registry tk))"
proof (rule strict_sorted_equal)
  show "set (ended_ids (rg_tasks (tk_registry tk'))) = set (ended_ids (rg_tasks (tk_registry tk)))"
    using assms by (auto simp: ended_ids_def has_ended_def start_download_def Let_def split: option.splits if_splits)
qed (simp_all add: ended_ids_sorted)

lemma next_is_fresh:
  assumes "dl_ok w" and "dw_next w \<noteq> - 1"
  shows "dw_next w < dw_next w + 1" and "bt_get (dw_store w) (dw_next w + 1) = None"
proof -
  show more: "dw_next w < dw_next w + 1"
    using inc_less_eq_self_iff_eq [of "dw_next w"] assms(2) by (simp add: not_le [symmetric])
  show "bt_get (dw_store w) (dw_next w + 1) = None"
    using assms(1) more by (cases "bt_get (dw_store w) (dw_next w + 1)") (auto simp: dl_ok_def stored_known_def not_le [symmetric])
qed

lemma dl_ok_begin:
  assumes "dl_ok w" and "dw_next w \<noteq> - 1" and "start_download item title files bytes (dw_tasks w) = (dh, tk)"
  shows "dl_ok \<lparr>dw_tasks = tk, dw_live = bt_insert (dh_task_id dh) dh (dw_live w)\<rparr>" (is "dl_ok ?w")
proof -
  let ?new = "dw_next w + 1"
  note more = next_is_fresh(1) [OF assms(1,2)] and fresh = next_is_fresh(2) [OF assms(1,2)]
  have pos: "0 < ?new" using more le_less_trans word_zero_le by blast
  have upto: "k \<le> ?new \<longleftrightarrow> k \<le> dw_next w \<or> k = ?new" for k
    using more less_inc_imp_less_eq [of k "dw_next w"] by (auto simp: le_less)
  obtain task where w': "rg_tasks (tk_registry tk) = bt_insert ?new task (dw_store w)" "rg_next (tk_registry tk) = ?new" "dh_task_id dh = ?new"
      "tk_sent tk = tk_sent (dw_tasks w)" "ts_task_id task = ?new" "ts_outcome task = Running"
      "ts_item_id task = dh_item_id dh" "ts_progress task = dh_progress dh" "\<not> dh_ended dh"
    using assms(3) by (auto simp: start_download_def Let_def)
  have "ended_ids (dw_store ?w) = ended_ids (dw_store w)"
    using begun_ended [OF assms(3) fresh] by simp
  moreover have "held_running ?w"
    using assms(1) w' fresh by (fastforce simp: dl_ok_def held_running_def)
  moreover have "stored_known ?w"
    unfolding stored_known_def keyed_by_id_def
  proof (intro conjI allI impI; (elim conjE)?)
    fix k st assume "bt_get (dw_store ?w) k = Some st"
    then have "(k = ?new \<and> st = task) \<or> bt_get (dw_store w) k = Some st" by (auto simp: w'(1) split: if_splits)
    then show "ts_task_id st = k" "0 < k" "k \<le> dw_next ?w" "ts_outcome st = Running \<Longrightarrow> bt_has (dw_live ?w) k"
      using assms(1) w'(2,3,5) pos upto by (auto simp: dl_ok_def stored_known_def keyed_by_id_def)
  qed
  moreover have "ended_once ?w"
    unfolding ended_once_def
  proof
    fix k
    have "endings k (dw_tasks ?w) = endings k (dw_tasks w)" by (simp add: endings_def w'(4))
    moreover have "\<not> ?new \<le> dw_next w" using more by simp
    ultimately show "endings k (dw_tasks ?w) = (if 0 < k \<and> k \<le> dw_next ?w \<and> \<not> bt_has (dw_live ?w) k then 1 else 0)"
      using assms(1) w'(2,3) upto [of k] by (auto simp: dl_ok_def ended_once_def)
  qed
  ultimately show ?thesis using assms(1) by (simp add: dl_ok_def)
qed

lemma dl_step_ok: "dl_step w w' \<Longrightarrow> dl_ok w \<Longrightarrow> dl_ok w'"
proof (induction rule: dl_step.induct)
  case (begun w item title files bytes dh tk)
  then show ?case by (blast intro: dl_ok_begin)
next
  case (reported w k dh now bytes dh' tk)
  let ?dh = "dh\<lparr>dh_progress := (dh_progress dh)\<lparr>pg_bytes_done := bytes\<rparr>\<rparr>"
  have ids: "dh_task_id dh = k" "\<not> dh_ended dh" using reported by (auto simp: dl_ok_def held_running_def)
  have "dl_ok \<lparr>dw_tasks = record_progress k (dh_progress ?dh) (dw_tasks w), dw_live = bt_insert k (?dh\<lparr>dh_published := at\<rparr>) (dw_live w)\<rparr>" for at
    by (rule dl_ok_record [OF reported(3,1)]) (use ids in simp_all)
  from this [of "dh_published dh"] dl_ok_publish [OF this [of "Some now"]] show ?case
    using reported(2) ids by (auto simp: download_progress_def publish_progress_def Let_def split: if_splits)
next
  case (wrote w k dh now bytes dh' tk)
  have ids: "dh_task_id dh = k" "\<not> dh_ended dh" using wrote by (auto simp: dl_ok_def held_running_def)
  have "dl_ok \<lparr>dw_tasks = record_progress k (dh_progress dh') (dw_tasks w), dw_live = bt_insert k dh' (dw_live w)\<rparr>"
    by (rule dl_ok_record [OF wrote(3,1)]) (use ids wrote(2) in \<open>auto simp: file_written_def publish_progress_def Let_def\<close>)
  from dl_ok_publish [OF this] show ?case
    using wrote(2) ids by (auto simp: file_written_def publish_progress_def Let_def)
next
  case (finished w k dh now files)
  have ids: "dh_task_id dh = k" "\<not> dh_ended dh" using finished by (auto simp: dl_ok_def held_running_def)
  let ?p = "(dh_progress dh)\<lparr>pg_bytes_done := pg_bytes_total (dh_progress dh), pg_files_done := pg_files_total (dh_progress dh)\<rparr>"
  let ?w = "\<lparr>dw_tasks = publish_event (DownloadProgress k (dh_item_id dh) ?p) (record_progress k ?p (dw_tasks w)),
    dw_live = bt_insert k (dh\<lparr>dh_progress := ?p\<rparr>) (dw_live w)\<rparr>"
  have "dl_ok \<lparr>dw_tasks = record_progress k ?p (dw_tasks w), dw_live = bt_insert k (dh\<lparr>dh_progress := ?p\<rparr>) (dw_live w)\<rparr>"
    by (rule dl_ok_record [OF finished(2,1)]) (use ids in simp_all)
  then have "dl_ok ?w" by (rule dl_ok_publish)
  then have "dl_ok \<lparr>dw_tasks = publish_event (DownloadFinished k (dh_item_id dh)) (end_task k (Finished files) (dw_tasks ?w)),
      dw_live = bt_remove k (dw_live ?w)\<rparr>"
    by (rule dl_ok_end [where dh = "dh\<lparr>dh_progress := ?p\<rparr>"]) auto
  moreover have "bt_remove k (dw_live ?w) = bt_remove k (dw_live w)" by (rule bt_ext) simp
  ultimately show ?case by (simp add: finish_download_parts ids Let_def)
next
  case (failed w k dh error)
  have ids: "dh_task_id dh = k" "\<not> dh_ended dh" using failed by (auto simp: dl_ok_def held_running_def)
  then show ?case using dl_ok_end [OF failed(2,1), of "Failed error" "DownloadFailed k (dh_item_id dh)"] by (simp add: failed_parts)
next
  case (dropped w k dh)
  have ids: "dh_task_id dh = k" "\<not> dh_ended dh" using dropped by (auto simp: dl_ok_def held_running_def)
  then show ?case
    using dl_ok_end [OF dropped(2,1), of "Failed ''interrupted before it finished''" "DownloadFailed k (dh_item_id dh)"]
    by (simp add: failed_parts)
qed

lemma dl_reach_ok: "dl_reach w \<Longrightarrow> dl_ok w"
proof (induction rule: dl_reach.induct)
  case nothing_yet
  have "ended_ids bt_empty = []" by (simp add: ended_ids_def bt_keys_def bt_empty.rep_eq)
  then show ?case
    by (auto simp: dl_ok_def held_running_def stored_known_def ended_once_def tasks_new_def keyed_by_id_def endings_def)
qed (rule dl_step_ok)

text \<open>
  C35. Every download ends once, and few ended ones are kept. At any time, of every identifier handed out
  either the handle is held, the registry tells a caller it is running with the progress the handle has, and
  no ending was published, or exactly one ending was; the registry tells no caller that a download runs whose
  handle is gone, and holds at most 64 that ended.
\<close>
theorem downloads_end_once:
  assumes "dl_reach w"
  shows "(\<forall>k. 0 < k \<and> k \<le> dw_next w \<longrightarrow>
      (case bt_get (dw_live w) k of
         Some dh \<Rightarrow> endings k (dw_tasks w) = 0 \<and>
           (\<exists>task. get_task k (dw_tasks w) = Some task \<and> ts_outcome task = Running \<and> ts_progress task = dh_progress dh)
       | None \<Rightarrow> endings k (dw_tasks w) = 1 \<and>
           (\<forall>task. get_task k (dw_tasks w) = Some task \<longrightarrow> ts_outcome task \<noteq> Running))) \<and>
    length (filter (\<lambda>task. ts_outcome task \<noteq> Running) (bt_values (dw_store w))) \<le> KEEP_ENDED"
proof
  note ok = dl_reach_ok [OF assms]
  have "keyed_by_id (dw_store w)" using ok by (simp add: dl_ok_def stored_known_def)
  from ended_ids_listed [OF this] show "length (filter (\<lambda>task. ts_outcome task \<noteq> Running) (bt_values (dw_store w))) \<le> KEEP_ENDED"
    using ok unfolding dl_ok_def by (metis length_map)
  show "\<forall>k. 0 < k \<and> k \<le> dw_next w \<longrightarrow>
      (case bt_get (dw_live w) k of
         Some dh \<Rightarrow> endings k (dw_tasks w) = 0 \<and>
           (\<exists>task. get_task k (dw_tasks w) = Some task \<and> ts_outcome task = Running \<and> ts_progress task = dh_progress dh)
       | None \<Rightarrow> endings k (dw_tasks w) = 1 \<and>
           (\<forall>task. get_task k (dw_tasks w) = Some task \<longrightarrow> ts_outcome task \<noteq> Running))"
  proof (intro allI impI)
    fix k assume "0 < k \<and> k \<le> dw_next w"
    then show "case bt_get (dw_live w) k of
         Some dh \<Rightarrow> endings k (dw_tasks w) = 0 \<and>
           (\<exists>task. get_task k (dw_tasks w) = Some task \<and> ts_outcome task = Running \<and> ts_progress task = dh_progress dh)
       | None \<Rightarrow> endings k (dw_tasks w) = 1 \<and>
           (\<forall>task. get_task k (dw_tasks w) = Some task \<longrightarrow> ts_outcome task \<noteq> Running)"
      using ok
      by (cases "bt_get (dw_live w) k")
        (fastforce simp: dl_ok_def held_running_def stored_known_def ended_once_def get_task_def bt_has_def)+
  qed
qed

section \<open>Asking how a download ended\<close>

lemma later_ended:
  assumes "\<And>j. k < j \<Longrightarrow> bt_get ts j = bt_get us j"
  shows "filter (\<lambda>j. k < j) (ended_ids ts) = filter (\<lambda>j. k < j) (ended_ids us)"
proof (rule strict_sorted_equal)
  show "set (filter (\<lambda>j. k < j) (ended_ids ts)) = set (filter (\<lambda>j. k < j) (ended_ids us))"
    using assms by (auto simp: ended_ids_def has_ended_def split: option.splits)
qed (simp_all add: ended_ids_sorted sorted_wrt_filter)

text \<open>
  Who hears that a download finished is not always told so. The event is published whatever the registry
  holds; asked for it then, the registry answers that it finished, with all its files and bytes, unless 64
  downloads that started later have ended: then the one that just finished is the first to be pruned.
\<close>
theorem finished_download_is_told:
  assumes "dl_reach w" and "bt_get (dw_live w) k = Some dh"
  shows "last (tk_sent (finish_download now files (dh, dw_tasks w))) = DownloadFinished k (dh_item_id dh) \<and>
    (if KEEP_ENDED \<le> length (filter (\<lambda>j. k < j) (ended_ids (dw_store w)))
     then get_task k (finish_download now files (dh, dw_tasks w)) = None
     else \<exists>task. get_task k (finish_download now files (dh, dw_tasks w)) = Some task \<and> ts_outcome task = Finished files \<and>
       pg_bytes_done (ts_progress task) = pg_bytes_total (dh_progress dh) \<and>
       pg_files_done (ts_progress task) = pg_files_total (dh_progress dh))"
proof -
  let ?p = "(dh_progress dh)\<lparr>pg_bytes_done := pg_bytes_total (dh_progress dh), pg_files_done := pg_files_total (dh_progress dh)\<rparr>"
  let ?tk = "publish_event (DownloadProgress k (dh_item_id dh) ?p) (record_progress k ?p (dw_tasks w))"
  obtain task where held: "dh_task_id dh = k" "bt_get (dw_store w) k = Some task"
    using dl_reach_ok [OF assms(1)] assms(2) by (auto simp: dl_ok_def held_running_def)
  have keyed: "keyed_by_id (rg_tasks (tk_registry ?tk))"
    using dl_reach_ok [OF assms(1)] by (auto simp: dl_ok_def stored_known_def keyed_by_id_def)
  have "bt_get (rg_tasks (tk_registry ?tk)) k = Some (task\<lparr>ts_progress := ?p\<rparr>)" by (simp add: held)
  note got = end_task_get(1) [OF this keyed, of "Finished files" k]
  let ?ts = "bt_insert k (task\<lparr>ts_progress := ?p, ts_outcome := Finished files\<rparr>) (rg_tasks (tk_registry ?tk))"
  have later: "filter (\<lambda>j. k < j) (ended_ids ?ts) = filter (\<lambda>j. k < j) (ended_ids (dw_store w))"
    by (rule later_ended) auto
  have "has_ended ?ts k" by (simp add: has_ended_def)
  moreover have "finish_download now files (dh, dw_tasks w) =
      publish_event (DownloadFinished k (dh_item_id dh)) (end_task k (Finished files) ?tk)"
    by (simp add: finish_download_parts held Let_def)
  ultimately show ?thesis
    using got later by (auto simp: get_task_def publish_event_def)
qed

section \<open>One long download and many short ones\<close>

definition one_download :: "dl_world \<Rightarrow> dl_world" where
  "one_download w =
     (case start_download (ItemId 1) None 2 100 (dw_tasks w) of
        (dh, tk) \<Rightarrow> \<lparr>dw_tasks = tk, dw_live = bt_insert (dh_task_id dh) dh (dw_live w)\<rparr>)"

definition and_finished :: "dl_world \<Rightarrow> dl_world" where
  "and_finished w =
     (let k = dw_next w in case bt_get (dw_live w) k of
        None \<Rightarrow> w
      | Some dh \<Rightarrow> \<lparr>dw_tasks = finish_download 0 [] (dh, dw_tasks w), dw_live = bt_remove k (dw_live w)\<rparr>)"

fun busy_world :: "nat \<Rightarrow> dl_world" where
  "busy_world 0 = one_download \<lparr>dw_tasks = tasks_new, dw_live = bt_empty\<rparr>"
| "busy_world (Suc n) = and_finished (one_download (busy_world n))"

lemma finish_ended:
  assumes "dl_ok w" and "bt_get (dw_live w) k = Some dh" and "length (ended_ids (dw_store w)) < KEEP_ENDED"
  shows "length (ended_ids (rg_tasks (tk_registry (finish_download now files (dh, dw_tasks w))))) = Suc (length (ended_ids (dw_store w)))"
proof -
  let ?p = "(dh_progress dh)\<lparr>pg_bytes_done := pg_bytes_total (dh_progress dh), pg_files_done := pg_files_total (dh_progress dh)\<rparr>"
  let ?us = "rg_tasks (tk_registry (record_progress k ?p (dw_tasks w)))"
  obtain task where task: "dh_task_id dh = k" "bt_get (dw_store w) k = Some task" "ts_outcome task = Running"
    using assms(1,2) by (auto simp: dl_ok_def held_running_def)
  let ?ts = "bt_insert k (task\<lparr>ts_progress := ?p, ts_outcome := Finished files\<rparr>) ?us"
  have keyed: "keyed_by_id ?ts"
    using assms(1) task(2) by (auto simp: dl_ok_def stored_known_def keyed_by_id_def)
  have "set (ended_ids ?ts) = insert k (set (ended_ids (dw_store w)))" "k \<notin> set (ended_ids (dw_store w))"
    using task(2,3) by (auto simp: ended_ids_def has_ended_def split: option.splits if_splits)
  then have "card (set (ended_ids ?ts)) = Suc (card (set (ended_ids (dw_store w))))" by simp
  then have len: "length (ended_ids ?ts) = Suc (length (ended_ids (dw_store w)))"
    by (simp add: distinct_card strict_sorted_distinct [OF ended_ids_sorted])
  then have "prune_ended ?ts = ?ts"
    using assms(3) by (simp add: prune_ended_def ended_ids_listed [OF keyed])
  moreover have "rg_tasks (tk_registry (finish_download now files (dh, dw_tasks w))) = prune_ended ?ts"
    by (simp add: finish_download_parts task end_task_def Let_def)
  ultimately show ?thesis using len by simp
qed

lemma one_download_step:
  assumes "dl_reach w" and "dw_next w \<noteq> - 1"
  shows "dl_reach (one_download w)" and "dw_next (one_download w) = dw_next w + 1"
    and "\<exists>dh. dw_live (one_download w) = bt_insert (dw_next w + 1) dh (dw_live w)"
    and "ended_ids (dw_store (one_download w)) = ended_ids (dw_store w)"
proof -
  obtain dh tk where started: "start_download (ItemId 1) None 2 100 (dw_tasks w) = (dh, tk)" by fastforce
  then have "dh_task_id dh = dw_next w + 1" "rg_next (tk_registry tk) = dw_next w + 1" by (auto simp: start_download_def Let_def)
  with started show "dl_reach (one_download w)" "dw_next (one_download w) = dw_next w + 1"
      "\<exists>dh. dw_live (one_download w) = bt_insert (dw_next w + 1) dh (dw_live w)"
    using dl_reach.went_on [OF assms(1) dl_step.begun [OF assms(2) started]] by (auto simp: one_download_def)
  show "ended_ids (dw_store (one_download w)) = ended_ids (dw_store w)"
    using begun_ended [OF started next_is_fresh(2) [OF dl_reach_ok [OF assms(1)] assms(2)]] started by (simp add: one_download_def)
qed

lemma busy_world_state:
  "n \<le> KEEP_ENDED \<Longrightarrow> dl_reach (busy_world n) \<and> (\<exists>dh. bt_get (dw_live (busy_world n)) 1 = Some dh) \<and>
     dw_next (busy_world n) = of_nat n + 1 \<and> length (ended_ids (dw_store (busy_world n))) = n"
proof (induction n)
  case 0
  let ?w = "\<lparr>dw_tasks = tasks_new, dw_live = bt_empty\<rparr>"
  have "dw_next ?w \<noteq> - 1" "dw_next ?w = 0" "ended_ids (dw_store ?w) = []"
    by (simp_all add: tasks_new_def ended_ids_def bt_keys_def bt_empty.rep_eq)
  with one_download_step [OF dl_reach.nothing_yet this(1)] show ?case by auto
next
  case (Suc n)
  let ?w = "busy_world n"
  let ?v = "one_download ?w"
  obtain held where IH: "dl_reach ?w" "bt_get (dw_live ?w) 1 = Some held" "dw_next ?w = of_nat n + 1" "length (ended_ids (dw_store ?w)) = n"
    using Suc by auto
  have apart: "(of_nat m :: u64) \<noteq> 0" if "0 < m" "m < 100" for m
    using that by (auto simp: word_of_nat_eq_0_iff dest: dvd_imp_le)
  have "n < 90" using Suc.prems by (simp add: KEEP_ENDED_def)
  then have "(of_nat (n + 2) :: u64) \<noteq> 0" "(of_nat (n + 1) :: u64) \<noteq> 0" by (intro apart; simp)+
  then have small: "dw_next ?w \<noteq> - 1" "dw_next ?w + 1 \<noteq> 1"
    by (auto simp: IH(3) algebra_simps eq_neg_iff_add_eq_0)
  note one = one_download_step [OF IH(1) small(1)]
  then obtain dh where live: "dw_live ?v = bt_insert (dw_next ?w + 1) dh (dw_live ?w)" by blast
  then have dh: "bt_get (dw_live ?v) (dw_next ?v) = Some dh" by (simp add: one(2))
  have next_world: "busy_world (Suc n) = \<lparr>dw_tasks = finish_download 0 [] (dh, dw_tasks ?v), dw_live = bt_remove (dw_next ?v) (dw_live ?v)\<rparr>"
    using dh by (simp add: and_finished_def)
  have "dl_reach (busy_world (Suc n))"
    unfolding next_world by (rule dl_reach.went_on [OF one(1) dl_step.finished [OF dh]])
  moreover have "length (ended_ids (dw_store (busy_world (Suc n)))) = Suc n"
    unfolding next_world using finish_ended [OF dl_reach_ok [OF one(1)] dh, of 0 "[]"] IH(4) one(4) Suc.prems by simp
  moreover have "dw_next (busy_world (Suc n)) = of_nat (Suc n) + 1"
    unfolding next_world by (simp add: finish_download_parts Let_def one(2) IH(3))
  moreover have "bt_get (dw_live (busy_world (Suc n))) 1 = Some held"
    unfolding next_world using IH(2) small(2) live by (simp add: one(2))
  ultimately show ?case by blast
qed

theorem downloads_end_once_witness: "dl_reach (busy_world 3) \<and> endings 1 (dw_tasks (busy_world 3)) = 0"
proof -
  have reach: "dl_reach (busy_world 3)" and held: "\<exists>dh. bt_get (dw_live (busy_world 3)) 1 = Some dh" and upto: "dw_next (busy_world 3) = 4"
    using busy_world_state [of 3] by (simp_all add: KEEP_ENDED_def)
  have "(1 :: u64) \<le> 4" "(0 :: u64) < 1" by simp_all
  then show ?thesis
    using downloads_end_once [OF reach] held upto reach by (auto split: option.splits)
qed

theorem finished_download_is_told_witness:
  "\<exists>dh. bt_get (dw_live (busy_world 64)) 1 = Some dh \<and> get_task 1 (finish_download 0 [] (dh, dw_tasks (busy_world 64))) = None"
proof -
  have reach: "dl_reach (busy_world 64)" and many: "length (ended_ids (dw_store (busy_world 64))) = 64"
    using busy_world_state [of 64] by (simp_all add: KEEP_ENDED_def)
  obtain dh where dh: "bt_get (dw_live (busy_world 64)) 1 = Some dh" using busy_world_state [of 64] by (auto simp: KEEP_ENDED_def)
  have "filter (\<lambda>j. 1 < j) (ended_ids (dw_store (busy_world 64))) = ended_ids (dw_store (busy_world 64))"
  proof (rule filter_True, rule ballI)
    fix j assume "j \<in> set (ended_ids (dw_store (busy_world 64)))"
    then obtain task where j: "bt_get (dw_store (busy_world 64)) j = Some task" "ts_outcome task \<noteq> Running"
      by (auto simp: ended_ids_def has_ended_def)
    then have "0 < j" "j \<noteq> 1"
      using dl_reach_ok [OF reach] dh by (auto simp: dl_ok_def stored_known_def) (fastforce simp: held_running_def)
    then show "1 < j" by (simp add: less_le inc_le [of 0 j, simplified])
  qed
  then show ?thesis
    using finished_download_is_told [OF reach dh, of 0 "[]"] many dh by (simp add: KEEP_ENDED_def)
qed

end
