(* ===== verification/Library_Download.thy ===== *)
theory Library_Download
  imports Uploads Downloads Storage
begin

text \<open>
  \<open>library.download\<close> (\<open>distlib-api/src/methods.rs\<close>): where each file of an item is to go, what is fetched and
  from where, and what is written, the hidden copies beside each file included. The files of the machine
  are a map from paths to what is there, a symbolic link being one kind of it; what a path leads to when
  links are followed is a separate function, which may fail where something is (a dangling link, a
  directory that cannot be searched). While a download runs nobody else changes the directory it writes to.
\<close>

section \<open>Where files go\<close>

datatype fs_entry = FsFile "u8 list" | FsDir | FsLink

type_synonym files_here = "string \<rightharpoonup> fs_entry"

datatype download_error =
    NeedsAPledge u64
  | NotADirectory string
  | NoSuchItem item_id
  | NoSuchFile item_id content_hash
  | NoFilesYet item_id
  | NotAFilename content_hash string
  | SameName content_hash content_hash string
  | NotThisFile string
  | NoRoom u64
  | CallFailed string

record target_file =
  tg_hash :: content_hash
  tg_record :: file_record
  tg_path :: string
  tg_in_place :: bool

definition path_join :: "string \<Rightarrow> string \<Rightarrow> string" where
  "path_join dir name = (if dir = [] \<or> last dir = CHR ''/'' then dir @ name else dir @ ''/'' @ name)"

definition files_to_download ::
    "item_id \<Rightarrow> (content_hash, file_record) btmap \<Rightarrow> content_hash option \<Rightarrow> download_error + (content_hash \<times> file_record) list" where
  "files_to_download item files wanted =
     (case (case wanted of
              Some hash \<Rightarrow> (case bt_get files hash of None \<Rightarrow> Inl (NoSuchFile item hash) | Some r \<Rightarrow> Inr [(hash, r)])
            | None \<Rightarrow> Inr (bt_entries files)) of
        Inl e \<Rightarrow> Inl e
      | Inr chosen \<Rightarrow> if chosen = [] then Inl (NoFilesYet item) else Inr chosen)"

text \<open>
  \<open>stat\<close> is what \<open>metadata\<close> answers and \<open>exists\<close> goes by, links followed; \<open>reads\<close> whether a file can be
  read, \<open>blake3\<close> the hash of bytes.
\<close>

record disk_view =
  dv_files :: files_here
  dv_stat :: "string \<Rightarrow> string + fs_entry"
  dv_reads :: "string \<Rightarrow> bool"
  dv_blake3 :: "u8 list \<Rightarrow> content_hash"

definition already_there :: "disk_view \<Rightarrow> string \<Rightarrow> content_hash \<Rightarrow> u64 \<Rightarrow> download_error + bool" where
  "already_there dv path hash sz =
     (case dv_stat dv path of
        Inl why \<Rightarrow> Inl (CallFailed path)
      | Inr (FsFile bytes) \<Rightarrow>
          if of_nat (length bytes) \<noteq> sz then Inr False
          else if \<not> dv_reads dv path then Inl (CallFailed path)
          else Inr (dv_blake3 dv bytes = hash)
      | Inr _ \<Rightarrow> Inr False)"

definition path_exists :: "disk_view \<Rightarrow> string \<Rightarrow> bool" where
  "path_exists dv path \<longleftrightarrow> (case dv_stat dv path of Inl _ \<Rightarrow> False | Inr _ \<Rightarrow> True)"

fun targets_in ::
    "disk_view \<Rightarrow> string \<Rightarrow> (content_hash \<times> file_record) list \<Rightarrow> (string \<rightharpoonup> content_hash) \<Rightarrow> target_file list
      \<Rightarrow> download_error + target_file list" where
  "targets_in dv dest [] taken targets = Inr targets"
| "targets_in dv dest ((hash, r) # wanted) taken targets =
     (case path_file_name (fr_filename r) of
        None \<Rightarrow> Inl (NotAFilename hash (fr_filename r))
      | Some name \<Rightarrow>
          (let path = path_join dest name
           in case taken path of
                Some other \<Rightarrow> Inl (SameName hash other path)
              | None \<Rightarrow>
                  (let in_place = path_exists dv path;
                       go_on = targets_in dv dest wanted (taken(path \<mapsto> hash))
                         (targets @ [\<lparr>tg_hash = hash, tg_record = r, tg_path = path, tg_in_place = in_place\<rparr>])
                   in if in_place
                      then (case already_there dv path hash (fr_size r) of
                              Inl e \<Rightarrow> Inl e
                            | Inr False \<Rightarrow> Inl (NotThisFile path)
                            | Inr True \<Rightarrow> go_on)
                      else go_on)))"

section \<open>Fetching\<close>

text \<open>What the downloader's stream brings, and what \<open>fetch_with_progress\<close> makes of it: reports, waits, and an end.\<close>

datatype fetch_item = FetchedTo u64 | FetchError string | NobodyServed | OtherFetchItem

fun fetch_with_progress :: "fetch_item list \<Rightarrow> u64 \<Rightarrow> u64 list \<Rightarrow> u64 list \<Rightarrow> u64 list \<times> u64 list \<times> (string + unit)" where
  "fetch_with_progress [] lst reports paced = (reports, paced, Inr ())"
| "fetch_with_progress (FetchedTo offset # items) lst reports paced =
     fetch_with_progress items offset (reports @ [offset]) (paced @ [if lst \<le> offset then offset - lst else offset])"
| "fetch_with_progress (FetchError why # items) lst reports paced = (reports, paced, Inl why)"
| "fetch_with_progress (NobodyServed # items) lst reports paced =
     (reports, paced, Inl ''every provider was tried, and none of them served it'')"
| "fetch_with_progress (OtherFetchItem # items) lst reports paced = fetch_with_progress items lst reports paced"

datatype blob_call = Kept content_hash | Fetch content_hash | Refreshed | Exported content_hash string

text \<open>
  The other parts of the node as a download meets them: the blob store, the stream of each attempt to
  fetch a file, whether a core node says where members are, and the bytes a blob has. \<open>copy\<close> is how the
  store's copy of a blob into a file fails, with what it left there if it had begun; \<open>rename\<close> and
  \<open>remove\<close> whether the file system does so, and \<open>through_link\<close> what a write to a link comes to.
\<close>

record download_env =
  de_keep :: "content_hash \<Rightarrow> string option"
  de_has :: "content_hash \<Rightarrow> string + bool"
  de_start :: "nat \<Rightarrow> content_hash \<Rightarrow> string option"
  de_stream :: "nat \<Rightarrow> content_hash \<Rightarrow> fetch_item list"
  de_answered :: bool
  de_copy :: "content_hash \<Rightarrow> (string \<times> u8 list option) option"
  de_rename :: "string \<Rightarrow> string option"
  de_remove :: "string \<Rightarrow> bool"
  de_through_link :: "string \<Rightarrow> u8 list \<Rightarrow> files_here \<Rightarrow> files_here"
  de_bytes :: "content_hash \<Rightarrow> u8 list"
  de_now :: duration

text \<open>
  \<open>Blobs::export\<close>: the copy is made at a hidden sibling of the target, which is then renamed, or removed if
  anything failed. A path whose last part is its file name has the sibling in the same directory.
\<close>

definition partial_of :: "string \<Rightarrow> string" where
  "partial_of dest_path =
     rev (dropWhile (\<lambda>c. c \<noteq> CHR ''/'') (rev dest_path)) @
     ''.'' @ (case path_file_name dest_path of None \<Rightarrow> [] | Some name \<Rightarrow> name) @ ''.partial''"

definition copy_to :: "download_env \<Rightarrow> string \<Rightarrow> u8 list \<Rightarrow> files_here \<Rightarrow> files_here" where
  "copy_to de path bytes files =
     (if files path = Some FsLink then de_through_link de path bytes files else files(path \<mapsto> FsFile bytes))"

definition remove_file :: "download_env \<Rightarrow> string \<Rightarrow> files_here \<Rightarrow> files_here" where
  "remove_file de path files = (if de_remove de path \<and> files path \<noteq> Some FsDir then files(path := None) else files)"

definition blobs_export :: "download_env \<Rightarrow> content_hash \<Rightarrow> string \<Rightarrow> files_here \<Rightarrow> string option \<times> files_here" where
  "blobs_export de hash dest_path files =
     (let partial = partial_of dest_path
      in case de_copy de hash of
           Some (why, left_there) \<Rightarrow>
             (Some why, remove_file de partial
               (case left_there of None \<Rightarrow> files | Some bytes \<Rightarrow> copy_to de partial bytes files))
         | None \<Rightarrow>
             (let copied = copy_to de partial (de_bytes de hash) files
              in case de_rename de dest_path of
                   Some why \<Rightarrow> (Some why, remove_file de partial copied)
                 | None \<Rightarrow> (None, copied(dest_path := copied partial, partial := None))))"

record download_run =
  dr_task :: "download_handle \<times> tasks"
  dr_spent :: bool
  dr_files :: files_here
  dr_calls :: "blob_call list"

abbreviation note_call :: "blob_call \<Rightarrow> download_run \<Rightarrow> download_run" where
  "note_call c dr \<equiv> dr\<lparr>dr_calls := dr_calls dr @ [c]\<rparr>"

definition fetch_file :: "download_env \<Rightarrow> nat \<Rightarrow> content_hash \<Rightarrow> u64 \<Rightarrow> download_run \<Rightarrow> (string + unit) \<times> download_run" where
  "fetch_file de attempt hash before dr =
     (let dr = note_call (Fetch hash) dr
      in case de_start de attempt hash of
           Some why \<Rightarrow> (Inl why, dr)
         | None \<Rightarrow>
             (case fetch_with_progress (de_stream de attempt hash) 0 [] [] of
                (reports, paced, verdict) \<Rightarrow>
                  (verdict, dr\<lparr>dr_task := fold (\<lambda>got. download_progress (de_now de) (before + got)) reports (dr_task dr)\<rparr>)))"

text \<open>\<open>OneRefresh::spend\<close>, which asks a core node the first time only.\<close>

definition spend :: "download_env \<Rightarrow> download_run \<Rightarrow> bool \<times> download_run" where
  "spend de dr = (if dr_spent dr then (False, dr) else (de_answered de, note_call Refreshed (dr\<lparr>dr_spent := True\<rparr>)))"

definition fetch_missing :: "download_env \<Rightarrow> content_hash \<Rightarrow> u64 \<Rightarrow> download_run \<Rightarrow> (string + unit) \<times> download_run" where
  "fetch_missing de hash before dr =
     (case fetch_file de 0 hash before dr of
        (Inr _, dr) \<Rightarrow> (Inr (), dr)
      | (Inl failure, dr) \<Rightarrow>
          (case spend de dr of
             (False, dr) \<Rightarrow> (Inl failure, dr)
           | (True, dr) \<Rightarrow> fetch_file de 1 hash before dr))"

fun fetch_all ::
    "download_env \<Rightarrow> target_file list \<Rightarrow> u64 \<Rightarrow> downloaded list \<Rightarrow> download_run \<Rightarrow> (string + downloaded list) \<times> download_run" where
  "fetch_all de [] before files dr = (Inr files, dr)"
| "fetch_all de (t # targets) before files dr =
     (let hash = tg_hash t; after = before + fr_size (tg_record t);
          wrote = (\<lambda>from. files @ [\<lparr>dd_file = hash, dd_filename = fr_filename (tg_record t), dd_path = tg_path t, dd_from = from\<rparr>])
      in if tg_in_place t
         then fetch_all de targets after (wrote Destination) (dr\<lparr>dr_task := file_written (de_now de) after (dr_task dr)\<rparr>)
         else case de_keep de hash of
           Some why \<Rightarrow> (Inl why, dr)
         | None \<Rightarrow>
             (let dr = note_call (Kept hash) dr
              in case de_has de hash of
                Inl why \<Rightarrow> (Inl why, dr)
              | Inr already_here \<Rightarrow>
                  (case (if already_here then (Inr (), dr) else fetch_missing de hash before dr) of
                     (Inl why, dr) \<Rightarrow> (Inl why, dr)
                   | (Inr _, dr) \<Rightarrow>
                       (case blobs_export de hash (tg_path t) (dr_files dr) of
                          (Some why, here) \<Rightarrow> (Inl why, dr\<lparr>dr_files := here\<rparr>)
                        | (None, here) \<Rightarrow>
                            fetch_all de targets after (wrote (if already_here then Store else Network))
                              (note_call (Exported hash (tg_path t))
                                (dr\<lparr>dr_files := here, dr_task := file_written (de_now de) after (dr_task dr)\<rparr>))))))"

section \<open>The call\<close>

record library_api =
  la_membership :: membership_state
  la_me :: member_id
  la_downloads :: string
  la_makes_dir :: bool
  la_item :: "item_id \<Rightarrow> string + item option"
  la_mark_used :: "item_id \<Rightarrow> string option"
  la_make_room :: "item_id \<Rightarrow> (content_hash \<times> u64) list \<Rightarrow> string + room"

definition make_room_for_download :: "library_api \<Rightarrow> item_id \<Rightarrow> target_file list \<Rightarrow> download_error + unit" where
  "make_room_for_download la item targets =
     (case la_make_room la item (map (\<lambda>t. (tg_hash t, fr_size (tg_record t))) (filter (\<lambda>t. \<not> tg_in_place t) targets)) of
        Inl why \<Rightarrow> Inl (CallFailed why)
      | Inr (Short short_by) \<Rightarrow> Inl (NoRoom short_by)
      | Inr Made \<Rightarrow> Inr ())"

definition download_destination :: "library_api \<Rightarrow> disk_view \<Rightarrow> string option \<Rightarrow> (download_error + string) \<times> disk_view" where
  "download_destination la dv dest =
     (case dest of
        Some dir \<Rightarrow> (if dv_stat dv dir = Inr FsDir then Inr dir else Inl (NotADirectory dir), dv)
      | None \<Rightarrow>
          (let dir = la_downloads la
           in if \<not> la_makes_dir la then (Inl (CallFailed dir), dv)
              else
                (let dv = (if dv_files dv dir = None
                       then dv\<lparr>dv_files := (dv_files dv)(dir \<mapsto> FsDir), dv_stat := (dv_stat dv)(dir := Inr FsDir)\<rparr> else dv)
                 in (if dv_stat dv dir = Inr FsDir then Inr dir else Inl (NotADirectory dir), dv))))"

definition library_download ::
    "library_api \<Rightarrow> disk_view \<Rightarrow> item_id \<Rightarrow> content_hash option \<Rightarrow> string option \<Rightarrow> tasks
      \<Rightarrow> (download_error + download_handle \<times> target_file list) \<times> disk_view \<times> tasks" where
  "library_download la dv item wanted dest tk =
     (if \<not> pledges_the_minimum (la_membership la) (la_me la)
      then (Inl (NeedsAPledge (min_pledge_bytes (ms_settings (la_membership la)))), dv, tk)
      else case download_destination la dv dest of
        (Inl e, dv) \<Rightarrow> (Inl e, dv, tk)
      | (Inr dir, dv) \<Rightarrow>
          (case la_item la item of
             Inl why \<Rightarrow> (Inl (CallFailed why), dv, tk)
           | Inr None \<Rightarrow> (Inl (NoSuchItem item), dv, tk)
           | Inr (Some it) \<Rightarrow>
               (case files_to_download item (it_files it) wanted of
                  Inl e \<Rightarrow> (Inl e, dv, tk)
                | Inr chosen \<Rightarrow>
                    (case targets_in dv dir chosen Map.empty [] of
                       Inl e \<Rightarrow> (Inl e, dv, tk)
                     | Inr targets \<Rightarrow>
                         (case la_mark_used la item of
                            Some why \<Rightarrow> (Inl (CallFailed why), dv, tk)
                          | None \<Rightarrow>
                              (case make_room_for_download la item targets of
                                 Inl e \<Rightarrow> (Inl e, dv, tk)
                               | Inr _ \<Rightarrow>
                                   (case start_download item (it_title it) (of_nat (length targets))
                                           (\<Sum>t\<leftarrow>targets. fr_size (tg_record t)) tk of
                                      (dh, tk) \<Rightarrow> (Inr (dh, targets), dv, tk))))))))"

text \<open>The task in the background: it fetches, and then says how it ended.\<close>

definition finish_download_in_background ::
    "download_env \<Rightarrow> target_file list \<Rightarrow> download_handle \<times> tasks \<Rightarrow> files_here \<Rightarrow> (string + downloaded list) \<times> download_run \<times> tasks" where
  "finish_download_in_background de targets ht files =
     (case fetch_all de targets 0 [] \<lparr>dr_task = ht, dr_spent = False, dr_files = files, dr_calls = []\<rparr> of
        (Inr done_files, dr) \<Rightarrow> (Inr done_files, dr, finish_download (de_now de) done_files (dr_task dr))
      | (Inl why, dr) \<Rightarrow> (Inl why, dr, fail_download why (dr_task dr)))"

section \<open>Where the hidden copies are\<close>

lemma split_at_some: "split_at c s \<noteq> []"
  by (induction s) (auto split: list.splits)

lemma split_at_join: "split_at c (a @ c # b) = split_at c a @ split_at c b"
  using split_at_some by (induction a) (auto split: list.splits)

lemma dir_part:
  assumes "CHR ''/'' \<notin> set name" and "pre = [] \<or> last pre = CHR ''/''"
  shows "rev (dropWhile (\<lambda>c. c \<noteq> CHR ''/'') (rev (pre @ name))) = pre"
proof -
  have "dropWhile (\<lambda>c. c \<noteq> CHR ''/'') (rev name @ rev pre) = dropWhile (\<lambda>c. c \<noteq> CHR ''/'') (rev pre)"
    using assms(1) by (intro dropWhile_append2) auto
  also have "\<dots> = rev pre" using assms(2) by (cases pre rule: rev_cases) auto
  finally show ?thesis by simp
qed

lemma joined_file_name:
  assumes "name \<noteq> []" "name \<noteq> ''.''" "name \<noteq> ''..''" "CHR ''/'' \<notin> set name"
  shows "path_file_name (path_join dest name) = Some name"
proof -
  have one: "split_at CHR ''/'' name = [name]" using assms(4) by simp
  obtain pieces where "split_at CHR ''/'' (path_join dest name) = pieces @ [name]"
  proof (cases "dest = []")
    case True
    then show ?thesis using that [of "[]"] one by (simp add: path_join_def)
  next
    case False
    show ?thesis
    proof (cases "last dest = CHR ''/''")
      case True
      then have "path_join dest name = butlast dest @ CHR ''/'' # name"
        using False by (metis append_butlast_last_id append_Cons append_Nil append_assoc path_join_def)
      then show ?thesis using that split_at_join one by metis
    next
      case last_not: False
      then have "path_join dest name = dest @ CHR ''/'' # name" using False by (simp add: path_join_def)
      then show ?thesis using that split_at_join one by metis
    qed
  qed
  then show ?thesis using assms(1-3) by (simp add: path_file_name_def path_components_def)
qed

lemma partial_of_joined:
  assumes "name \<noteq> []" "name \<noteq> ''.''" "name \<noteq> ''..''" "CHR ''/'' \<notin> set name"
  shows "partial_of (path_join dest name) = path_join dest (''.'' @ name @ ''.partial'')"
proof -
  let ?pre = "if dest = [] \<or> last dest = CHR ''/'' then dest else dest @ ''/''"
  have join: "path_join dest n = ?pre @ n" for n by (simp add: path_join_def)
  have "rev (dropWhile (\<lambda>c. c \<noteq> CHR ''/'') (rev (?pre @ name))) = ?pre" using assms(4) by (rule dir_part) simp
  then show ?thesis
    using joined_file_name [OF assms, of dest] unfolding partial_of_def join [of name] by (simp add: join [of "CHR ''.'' # name @ ''.partial''"])
qed

lemma partial_of_other:
  assumes "name \<noteq> []" "name \<noteq> ''.''" "name \<noteq> ''..''" "CHR ''/'' \<notin> set name"
  shows "partial_of (path_join dest name) \<noteq> path_join dest name"
proof -
  have "length (path_join dest (''.'' @ name @ ''.partial'')) \<noteq> length (path_join dest name)" by (simp add: path_join_def)
  then show ?thesis unfolding partial_of_joined [OF assms] by metis
qed

section \<open>Nothing is overwritten\<close>

text \<open>What was checked of a target before anything was fetched.\<close>

definition plain_name :: "string \<Rightarrow> bool" where
  "plain_name name \<longleftrightarrow> name \<noteq> [] \<and> name \<noteq> ''.'' \<and> name \<noteq> ''..'' \<and> CHR ''/'' \<notin> set name"

definition target_ok :: "disk_view \<Rightarrow> string \<Rightarrow> target_file \<Rightarrow> bool" where
  "target_ok dv dest t \<longleftrightarrow>
     (\<exists>name. path_file_name (fr_filename (tg_record t)) = Some name \<and> tg_path t = path_join dest name \<and> plain_name name) \<and>
     (if tg_in_place t then \<exists>bytes. dv_stat dv (tg_path t) = Inr (FsFile bytes) \<and> dv_blake3 dv bytes = tg_hash t
      else \<exists>why. dv_stat dv (tg_path t) = Inl why)"

lemma target_ok_partial:
  assumes "target_ok dv dest t"
  shows "partial_of (tg_path t) \<noteq> tg_path t"
    and "\<exists>name. plain_name name \<and> tg_path t = path_join dest name \<and> partial_of (tg_path t) = path_join dest (''.'' @ name @ ''.partial'')"
proof -
  obtain name where name: "tg_path t = path_join dest name" "plain_name name" using assms by (auto simp: target_ok_def)
  then have plain: "name \<noteq> []" "name \<noteq> ''.''" "name \<noteq> ''..''" "CHR ''/'' \<notin> set name" by (simp_all add: plain_name_def)
  show "partial_of (tg_path t) \<noteq> tg_path t" unfolding name(1) by (rule partial_of_other [OF plain])
  show "\<exists>name. plain_name name \<and> tg_path t = path_join dest name \<and> partial_of (tg_path t) = path_join dest (''.'' @ name @ ''.partial'')"
    using name partial_of_joined [OF plain, of dest] by metis
qed

lemma targets_in_ok:
  assumes "targets_in dv dest wanted taken targets = Inr targets'"
    and "\<forall>t \<in> set targets. target_ok dv dest t" and "distinct (map tg_path targets)" and "dom taken = tg_path ` set targets"
  shows "(\<forall>t \<in> set targets'. target_ok dv dest t) \<and> distinct (map tg_path targets') \<and>
    map (\<lambda>t. (tg_hash t, tg_record t)) targets' = map (\<lambda>t. (tg_hash t, tg_record t)) targets @ wanted"
  using assms
proof (induction dv dest wanted taken targets rule: targets_in.induct)
  case (1 dv dest taken targets)
  then show ?case by simp
next
  case (2 dv dest hash r wanted taken targets)
  obtain name where name: "path_file_name (fr_filename r) = Some name"
    using "2.prems"(1) by (auto split: option.splits)
  let ?path = "path_join dest name"
  let ?t = "\<lparr>tg_hash = hash, tg_record = r, tg_path = ?path, tg_in_place = path_exists dv ?path\<rparr>"
  have free: "taken ?path = None" using "2.prems"(1) name by (auto simp: Let_def split: option.splits)
  have same: "path_exists dv ?path \<Longrightarrow> already_there dv ?path hash (fr_size r) = Inr True"
    and rest: "targets_in dv dest wanted (taken(?path \<mapsto> hash)) (targets @ [?t]) = Inr targets'"
    using "2.prems"(1) name free by (auto simp: Let_def split: option.splits if_splits sum.splits bool.splits)
  have "target_ok dv dest ?t"
    using path_file_name_plain [OF name] same name
    by (auto simp: target_ok_def plain_name_def already_there_def path_exists_def split: sum.splits fs_entry.splits if_splits)
  moreover have "?path \<notin> tg_path ` set targets" using "2.prems"(4) free by auto
  ultimately have "(\<forall>t \<in> set targets'. target_ok dv dest t) \<and> distinct (map tg_path targets') \<and>
      map (\<lambda>t. (tg_hash t, tg_record t)) targets' = map (\<lambda>t. (tg_hash t, tg_record t)) (targets @ [?t]) @ wanted"
    by (intro "2.IH" [OF name refl free refl rest]) (use "2.prems"(2-4) in \<open>simp_all del: fun_upd_apply\<close>)
  then show ?case by simp
qed

text \<open>What an export does, at its target, at the hidden sibling and anywhere else.\<close>

lemma blobs_export_does:
  assumes "blobs_export de hash dest_path files = (verdict, files')" and "files (partial_of dest_path) \<noteq> Some FsLink"
    and "partial_of dest_path \<noteq> dest_path"
  shows "p \<noteq> dest_path \<Longrightarrow> p \<noteq> partial_of dest_path \<Longrightarrow> files' p = files p" and "files' (partial_of dest_path) \<noteq> Some FsLink"
    and "verdict = None \<Longrightarrow> files' dest_path = Some (FsFile (de_bytes de hash)) \<and> files' (partial_of dest_path) = None"
    and "verdict \<noteq> None \<Longrightarrow> files' dest_path = files dest_path"
  using assms
  by (auto simp: blobs_export_def copy_to_def remove_file_def Let_def split: option.splits prod.splits if_splits)

definition fetches :: "download_run \<Rightarrow> nat" where
  "fetches dr = length (filter (\<lambda>c. case c of Fetch _ \<Rightarrow> True | _ \<Rightarrow> False) (dr_calls dr))"

definition refreshes :: "download_run \<Rightarrow> nat" where
  "refreshes dr = length (filter (\<lambda>c. c = Refreshed) (dr_calls dr))"

definition refresh_left :: "download_run \<Rightarrow> nat" where
  "refresh_left dr = (if dr_spent dr then 0 else 1)"

lemmas call_counts = fetches_def refreshes_def refresh_left_def

lemma fetch_file_counts:
  assumes "fetch_file de attempt hash before dr = (res, dr')"
  shows "dr_files dr' = dr_files dr" "refreshes dr' = refreshes dr" "refresh_left dr' = refresh_left dr" "fetches dr' = Suc (fetches dr)"
  using assms by (auto simp: fetch_file_def call_counts Let_def split: option.splits prod.splits)

lemma spend_counts:
  assumes "spend de dr = (again, dr')"
  shows "dr_files dr' = dr_files dr" "refreshes dr' + refresh_left dr' = refreshes dr + refresh_left dr"
    "fetches dr' + refresh_left dr' + (if again then 1 else 0) \<le> fetches dr + refresh_left dr"
  using assms by (auto simp: spend_def call_counts split: if_splits)

lemma fetch_missing_counts:
  assumes "fetch_missing de hash before dr = (res, dr')"
  shows "dr_files dr' = dr_files dr" "refreshes dr' + refresh_left dr' = refreshes dr + refresh_left dr"
    "fetches dr' + refresh_left dr' \<le> Suc (fetches dr + refresh_left dr)"
proof -
  obtain r1 dr1 where one: "fetch_file de 0 hash before dr = (r1, dr1)" by fastforce
  obtain again dr2 where two: "spend de dr1 = (again, dr2)" by fastforce
  obtain r3 dr3 where three: "fetch_file de (Suc 0) hash before dr2 = (r3, dr3)" by fastforce
  note c = fetch_file_counts [OF one] spend_counts [OF two] fetch_file_counts [OF three]
  have "dr' = dr1 \<or> (\<not> again \<and> dr' = dr2) \<or> (again \<and> dr' = dr3)"
    using assms by (auto simp: fetch_missing_def one two three split: sum.splits bool.splits)
  then show "dr_files dr' = dr_files dr" "refreshes dr' + refresh_left dr' = refreshes dr + refresh_left dr"
    "fetches dr' + refresh_left dr' \<le> Suc (fetches dr + refresh_left dr)"
    using c by (auto split: if_splits)
qed

abbreviation fetched_paths :: "target_file list \<Rightarrow> target_file set" where
  "fetched_paths targets \<equiv> {t \<in> set targets. \<not> tg_in_place t}"

text \<open>No file asked for goes by the name of another's hidden copy, and no link is at one.\<close>

definition siblings_free :: "target_file list \<Rightarrow> files_here \<Rightarrow> bool" where
  "siblings_free targets files \<longleftrightarrow>
     (\<forall>t \<in> set targets. files (partial_of (tg_path t)) \<noteq> Some FsLink \<and> (\<forall>u \<in> set targets. tg_path u \<noteq> partial_of (tg_path t)))"

definition fetched_ok :: "download_env \<Rightarrow> target_file list \<Rightarrow> files_here \<Rightarrow> files_here \<Rightarrow> bool" where
  "fetched_ok de targets files files' \<longleftrightarrow>
     (\<forall>p. files' p \<noteq> files p \<longrightarrow> (\<exists>t \<in> fetched_paths targets. p = partial_of (tg_path t) \<or>
        p = tg_path t \<and> files' p = Some (FsFile (de_bytes de (tg_hash t)))))"

lemma fetched_ok_refl: "fetched_ok de targets files files"
  by (simp add: fetched_ok_def)

definition all_fetched :: "download_env \<Rightarrow> target_file list \<Rightarrow> files_here \<Rightarrow> bool" where
  "all_fetched de targets files' \<longleftrightarrow>
     (\<forall>t \<in> fetched_paths targets. files' (tg_path t) = Some (FsFile (de_bytes de (tg_hash t))) \<and> files' (partial_of (tg_path t)) = None)"

lemma exported_then_fetched:
  assumes "blobs_export de (tg_hash t) (tg_path t) files = (None, here)" and "\<not> tg_in_place t"
    and "siblings_free (t # targets) files" and "tg_path t \<notin> tg_path ` set targets"
    and "fetched_ok de targets here files'"
  shows "siblings_free targets here" and "fetched_ok de (t # targets) files files'"
    and "all_fetched de targets files' \<Longrightarrow> all_fetched de (t # targets) files'"
proof -
  have free: "files (partial_of (tg_path t)) \<noteq> Some FsLink" "partial_of (tg_path t) \<noteq> tg_path t"
    "\<And>u. u \<in> set targets \<Longrightarrow> tg_path u \<noteq> partial_of (tg_path t) \<and> tg_path t \<noteq> partial_of (tg_path u) \<and> files (partial_of (tg_path u)) \<noteq> Some FsLink"
    using assms(3) by (auto simp: siblings_free_def)
  note does = blobs_export_does [OF assms(1) free(1,2)]
  have mine: "files' (tg_path t) = Some (FsFile (de_bytes de (tg_hash t)))"
  proof (rule ccontr)
    assume "files' (tg_path t) \<noteq> Some (FsFile (de_bytes de (tg_hash t)))"
    then have "files' (tg_path t) \<noteq> here (tg_path t)" using does(3) by simp
    then obtain u where "u \<in> set targets" "tg_path t = partial_of (tg_path u) \<or> tg_path t = tg_path u"
      using assms(5) by (auto simp: fetched_ok_def)
    then show False using free(3) assms(4) by auto
  qed
  show "siblings_free targets here"
    unfolding siblings_free_def
  proof (intro ballI conjI)
    fix u assume u: "u \<in> set targets"
    show "here (partial_of (tg_path u)) \<noteq> Some FsLink"
      using does(1) [of "partial_of (tg_path u)"] does(2) free(3) [OF u] by (cases "partial_of (tg_path u) = partial_of (tg_path t)") auto
  qed (use assms(3) in \<open>auto simp: siblings_free_def\<close>)
  show "fetched_ok de (t # targets) files files'"
    unfolding fetched_ok_def
  proof (intro allI impI)
    fix p assume p: "files' p \<noteq> files p"
    show "\<exists>t \<in> fetched_paths (t # targets). p = partial_of (tg_path t) \<or> p = tg_path t \<and> files' p = Some (FsFile (de_bytes de (tg_hash t)))"
    proof (cases "p = tg_path t \<or> p = partial_of (tg_path t)")
      case True
      then show ?thesis using mine assms(2) by auto
    next
      case False
      then have "files' p \<noteq> here p" using does(1) [of p] p by simp
      then show ?thesis using assms(5) by (auto simp: fetched_ok_def)
    qed
  qed
  show "all_fetched de (t # targets) files'" if all: "all_fetched de targets files'"
  proof -
    have "files' (partial_of (tg_path t)) = None"
    proof (cases "files' (partial_of (tg_path t)) = here (partial_of (tg_path t))")
      case False
      then obtain u where u: "u \<in> fetched_paths targets" "partial_of (tg_path t) = partial_of (tg_path u) \<or> partial_of (tg_path t) = tg_path u"
        using assms(5) by (auto simp: fetched_ok_def)
      moreover have "partial_of (tg_path t) \<noteq> tg_path u" using free(3) [of u] u(1) by auto
      ultimately show ?thesis using all by (auto simp: all_fetched_def)
    qed (use does(3) in simp)
    then show ?thesis using all mine by (auto simp: all_fetched_def)
  qed
qed

definition said_of :: "target_file \<Rightarrow> content_hash \<times> string" where
  "said_of t = (tg_hash t, tg_path t)"

abbreviation downloaded_of :: "downloaded \<Rightarrow> content_hash \<times> string" where
  "downloaded_of f \<equiv> (dd_file f, dd_path f)"

lemma fetch_all_does:
  assumes "fetch_all de targets before files dr = (res, dr')" and "distinct (map tg_path targets)"
    and "siblings_free targets (dr_files dr)"
  shows "fetched_ok de targets (dr_files dr) (dr_files dr')"
    and "res = Inr all \<Longrightarrow> map downloaded_of all = map downloaded_of files @ map said_of targets \<and> all_fetched de targets (dr_files dr')"
    and "refreshes dr' + refresh_left dr' = refreshes dr + refresh_left dr"
    and "fetches dr' + refresh_left dr' \<le> fetches dr + refresh_left dr + length targets"
proof -
  have "fetched_ok de targets (dr_files dr) (dr_files dr') \<and>
    (\<forall>all. res = Inr all \<longrightarrow> map downloaded_of all = map downloaded_of files @ map said_of targets \<and> all_fetched de targets (dr_files dr')) \<and>
    refreshes dr' + refresh_left dr' = refreshes dr + refresh_left dr \<and>
    fetches dr' + refresh_left dr' \<le> fetches dr + refresh_left dr + length targets"
    using assms
  proof (induction targets arbitrary: before files dr)
    case Nil
    then show ?case by (auto simp: fetched_ok_refl all_fetched_def)
  next
    case (Cons t targets)
    let ?after = "before + fr_size (tg_record t)"
    have apart: "distinct (map tg_path targets)" "tg_path t \<notin> tg_path ` set targets" using Cons.prems(2) by simp_all
    show ?case
    proof (cases "tg_in_place t")
      case True
      let ?dr = "dr\<lparr>dr_task := file_written (de_now de) ?after (dr_task dr)\<rparr>"
      let ?files = "files @ [\<lparr>dd_file = tg_hash t, dd_filename = fr_filename (tg_record t), dd_path = tg_path t, dd_from = Destination\<rparr>]"
      have "fetch_all de targets ?after ?files ?dr = (res, dr')" using Cons.prems(1) True by (simp add: Let_def)
      moreover have "siblings_free targets (dr_files ?dr)" using Cons.prems(3) by (auto simp: siblings_free_def)
      ultimately have IH: "fetched_ok de targets (dr_files dr) (dr_files dr')"
          "\<forall>all. res = Inr all \<longrightarrow> map downloaded_of all = map downloaded_of ?files @ map said_of targets \<and> all_fetched de targets (dr_files dr')"
          "refreshes dr' + refresh_left dr' = refreshes ?dr + refresh_left ?dr"
          "fetches dr' + refresh_left dr' \<le> fetches ?dr + refresh_left ?dr + length targets"
        using Cons.IH [OF _ apart(1), of ?after ?files ?dr] by simp_all
      have paths: "fetched_paths (t # targets) = fetched_paths targets" using True by auto
      have same: "fetched_ok de (t # targets) a b = fetched_ok de targets a b" "all_fetched de (t # targets) b = all_fetched de targets b" for a b
        unfolding fetched_ok_def all_fetched_def paths by (rule refl)+
      have counts: "refreshes ?dr = refreshes dr" "refresh_left ?dr = refresh_left dr" "fetches ?dr = fetches dr"
        by (simp_all add: call_counts)
      show ?thesis unfolding same using IH counts by (simp add: said_of_def)
    next
      case False
      let ?kept = "note_call (Kept (tg_hash t)) dr"
      have kept: "dr_files ?kept = dr_files dr" "refreshes ?kept = refreshes dr" "refresh_left ?kept = refresh_left dr" "fetches ?kept = fetches dr"
        by (simp_all add: call_counts)
      show ?thesis
      proof (cases "de_keep de (tg_hash t) = None \<and> (\<exists>here. de_has de (tg_hash t) = Inr here)")
        case True
        then obtain here where here: "de_keep de (tg_hash t) = None" "de_has de (tg_hash t) = Inr here" by blast
        obtain got dr1 where got: "(if here then (Inr (), ?kept) else fetch_missing de (tg_hash t) before ?kept) = (got, dr1)" by fastforce
        have c: "dr_files dr1 = dr_files dr" "refreshes dr1 + refresh_left dr1 = refreshes dr + refresh_left dr"
            "fetches dr1 + refresh_left dr1 \<le> Suc (fetches dr + refresh_left dr)"
          using got kept fetch_missing_counts [of de "tg_hash t" before ?kept got dr1] by (auto split: if_splits)
        obtain verdict fs where export: "blobs_export de (tg_hash t) (tg_path t) (dr_files dr) = (verdict, fs)" by fastforce
        show ?thesis
        proof (cases "(\<exists>u. got = Inr u) \<and> verdict = None")
          case True
          let ?dr = "note_call (Exported (tg_hash t) (tg_path t)) (dr1\<lparr>dr_files := fs, dr_task := file_written (de_now de) ?after (dr_task dr1)\<rparr>)"
          let ?files = "files @ [\<lparr>dd_file = tg_hash t, dd_filename = fr_filename (tg_record t), dd_path = tg_path t,
            dd_from = (if here then Store else Network)\<rparr>]"
          have ok: "blobs_export de (tg_hash t) (tg_path t) (dr_files dr) = (None, fs)" using True export by simp
          have run: "fetch_all de targets ?after ?files ?dr = (res, dr')"
            using Cons.prems(1) False here got True export c(1) by (auto simp: Let_def split: if_splits)
          have free: "siblings_free targets fs"
            by (rule exported_then_fetched(1) [OF ok False Cons.prems(3) apart(2) fetched_ok_refl])
          then have IH: "fetched_ok de targets fs (dr_files dr')"
              "\<forall>all. res = Inr all \<longrightarrow> map downloaded_of all = map downloaded_of ?files @ map said_of targets \<and> all_fetched de targets (dr_files dr')"
              "refreshes dr' + refresh_left dr' = refreshes ?dr + refresh_left ?dr"
              "fetches dr' + refresh_left dr' \<le> fetches ?dr + refresh_left ?dr + length targets"
            using Cons.IH [OF run apart(1)] by simp_all
          note step = exported_then_fetched(2,3) [OF ok False Cons.prems(3) apart(2) IH(1)]
          have counts: "refreshes ?dr = refreshes dr1" "refresh_left ?dr = refresh_left dr1" "fetches ?dr = fetches dr1"
            by (simp_all add: call_counts)
          show ?thesis using step IH(2-4) c counts by (auto simp: said_of_def)
        next
          case stop: False
          then have "(\<exists>why. res = Inl why) \<and> (dr' = dr1 \<or> (\<exists>why. verdict = Some why \<and> dr' = dr1\<lparr>dr_files := fs\<rparr>))"
            using Cons.prems(1) False here got export c(1) by (auto simp: Let_def split: sum.splits option.splits prod.splits)
          moreover have "fetched_ok de (t # targets) (dr_files dr) fs" if "verdict = Some why" for why
          proof -
            have "dr_files dr (partial_of (tg_path t)) \<noteq> Some FsLink" "partial_of (tg_path t) \<noteq> tg_path t"
              using Cons.prems(3) by (auto simp: siblings_free_def)
            note does = blobs_export_does [OF export this]
            have "fs p = dr_files dr p" if "p \<noteq> partial_of (tg_path t)" for p
              using does(1) [of p] does(4) \<open>verdict = Some why\<close> that by (cases "p = tg_path t") auto
            then show ?thesis using False unfolding fetched_ok_def by auto
          qed
          ultimately show ?thesis using c fetched_ok_refl by (auto simp: call_counts)
        qed
      next
        case stop: False
        then have "(dr' = dr \<or> dr' = ?kept) \<and> (\<exists>why. res = Inl why)"
          using Cons.prems(1) False by (auto simp: Let_def split: sum.splits option.splits)
        then show ?thesis using kept fetched_ok_refl [of de "t # targets" "dr_files dr"] by auto
      qed
    qed
  qed
  then show "fetched_ok de targets (dr_files dr) (dr_files dr')"
    and "res = Inr all \<Longrightarrow> map downloaded_of all = map downloaded_of files @ map said_of targets \<and> all_fetched de targets (dr_files dr')"
    and "refreshes dr' + refresh_left dr' = refreshes dr + refresh_left dr"
    and "fetches dr' + refresh_left dr' \<le> fetches dr + refresh_left dr + length targets" by blast+
qed

lemma changed_places:
  assumes "t \<in> fetched_paths targets" and "target_ok dv dest t" and "map (\<lambda>t. (tg_hash t, tg_record t)) targets = wanted"
    and "p = partial_of (tg_path t) \<or> p = tg_path t \<and> files p = Some (FsFile (de_bytes de (tg_hash t)))"
  shows "\<exists>h r name. (h, r) \<in> set wanted \<and> path_file_name (fr_filename r) = Some name \<and> plain_name name \<and>
    (p = path_join dest (''.'' @ name @ ''.partial'') \<or> p = path_join dest name \<and> \<not> path_exists dv p \<and> files p = Some (FsFile (de_bytes de h)))"
proof -
  obtain name why where name: "path_file_name (fr_filename (tg_record t)) = Some name" "tg_path t = path_join dest name" "plain_name name"
    "dv_stat dv (tg_path t) = Inl why" using assms(1,2) by (auto simp: target_ok_def)
  have "partial_of (tg_path t) = path_join dest (''.'' @ name @ ''.partial'')"
    unfolding name(2) by (rule partial_of_joined) (use name(3) in \<open>simp_all add: plain_name_def\<close>)
  moreover have "\<not> path_exists dv (tg_path t)" using name(4) by (simp add: path_exists_def)
  moreover have "(tg_hash t, tg_record t) \<in> set wanted" using assms(1) unfolding assms(3) [symmetric] by auto
  ultimately show ?thesis using assms(4) name by metis
qed

text \<open>A target that ends well has its bytes, found or written.\<close>

lemma place_of_target:
  assumes "t \<in> set targets" and "target_ok dv dest t" and "distinct (map tg_path targets)" and "siblings_free targets (dv_files dv)"
    and "fetched_ok de targets (dv_files dv) files" and "all_fetched de targets files" and "dv_blake3 dv (de_bytes de (tg_hash t)) = tg_hash t"
  shows "\<exists>bytes. dv_blake3 dv bytes = tg_hash t \<and> (files (tg_path t) = Some (FsFile bytes) \<or>
    dv_stat dv (tg_path t) = Inr (FsFile bytes) \<and> files (tg_path t) = dv_files dv (tg_path t))"
proof (cases "tg_in_place t")
  case True
  then obtain bytes where "dv_stat dv (tg_path t) = Inr (FsFile bytes)" "dv_blake3 dv bytes = tg_hash t"
    using assms(2) by (auto simp: target_ok_def)
  moreover have "files (tg_path t) = dv_files dv (tg_path t)"
  proof (rule ccontr)
    assume "files (tg_path t) \<noteq> dv_files dv (tg_path t)"
    then obtain u where u: "u \<in> set targets" "\<not> tg_in_place u" "tg_path t = partial_of (tg_path u) \<or> tg_path t = tg_path u"
      using assms(5) by (auto simp: fetched_ok_def)
    have "tg_path t \<noteq> partial_of (tg_path u)" using assms(1,4) u(1) by (simp add: siblings_free_def)
    with u(3) have "t = u" using assms(1,3) u(1) by (metis distinct_map inj_on_def)
    then show False using True u(2) by simp
  qed
  ultimately show ?thesis by blast
next
  case False
  then have "files (tg_path t) = Some (FsFile (de_bytes de (tg_hash t)))" using assms(1,6) by (simp add: all_fetched_def)
  with assms(7) show ?thesis by blast
qed

lemma places_named:
  assumes "map downloaded_of files = map said_of targets" and "map (\<lambda>t. (tg_hash t, tg_record t)) targets = wanted"
  shows "map dd_file files = map fst wanted"
    and "i < length wanted \<Longrightarrow> targets ! i \<in> set targets \<and> wanted ! i = (tg_hash (targets ! i), tg_record (targets ! i)) \<and>
      dd_path (files ! i) = tg_path (targets ! i)"
proof -
  have "map fst (map downloaded_of files) = map fst (map said_of targets)" by (simp only: assms(1))
  then show "map dd_file files = map fst wanted" unfolding assms(2) [symmetric] by (simp add: said_of_def comp_def)
  have len: "length targets = length wanted" "length files = length wanted" using assms by (metis length_map)+
  show "targets ! i \<in> set targets \<and> wanted ! i = (tg_hash (targets ! i), tg_record (targets ! i)) \<and>
      dd_path (files ! i) = tg_path (targets ! i)" if "i < length wanted"
  proof (intro conjI)
    show "targets ! i \<in> set targets" using that len(1) by simp
    have "(map (\<lambda>t. (tg_hash t, tg_record t)) targets) ! i = (tg_hash (targets ! i), tg_record (targets ! i))"
      using that len(1) by (intro nth_map) simp
    then show "wanted ! i = (tg_hash (targets ! i), tg_record (targets ! i))" unfolding assms(2) .
    have "map downloaded_of files ! i = map said_of targets ! i" by (simp only: assms(1))
    then show "dd_path (files ! i) = tg_path (targets ! i)" using that len by (simp add: said_of_def)
  qed
qed

text \<open>
  C36. What a download leaves of the machine. All that can differ afterwards, well ended or not, is in the
  destination itself: the places of the files asked for where nothing was to be seen (links being followed),
  each of which then holds that file, whole, and the hidden copies beside them, \<open>.name.partial\<close>. What is anywhere else, and
  whatever was seen at a place, is as it was. When the download ends well it names the files asked for, in order, each at the place of its
  name, and there are the bytes of that very file: written, or as they were found. It asks a core node for addresses at most once, and the
  other members at most once for each file and once more. (No file asked for may be called like another's
  hidden copy, and no link may be at one; a blob's bytes have its hash.)
\<close>
theorem download_overwrites_nothing:
  assumes "targets_in dv dest wanted Map.empty [] = Inr targets"
    and "finish_download_in_background de targets ht (dv_files dv) = (res, dr, tk)"
    and "\<forall>h \<in> fst ` set wanted. dv_blake3 dv (de_bytes de h) = h"
    and "siblings_free targets (dv_files dv)"
  shows "(\<forall>p. dr_files dr p \<noteq> dv_files dv p \<longrightarrow>
      (\<exists>h r name. (h, r) \<in> set wanted \<and> path_file_name (fr_filename r) = Some name \<and> plain_name name \<and>
         (p = path_join dest (''.'' @ name @ ''.partial'') \<or>
          p = path_join dest name \<and> \<not> path_exists dv p \<and> dr_files dr p = Some (FsFile (de_bytes de h))))) \<and>
    (\<forall>files. res = Inr files \<longrightarrow> map dd_file files = map fst wanted \<and>
      (\<forall>i < length wanted. \<exists>name bytes. path_file_name (fr_filename (snd (wanted ! i))) = Some name \<and>
         dd_path (files ! i) = path_join dest name \<and> dv_blake3 dv bytes = fst (wanted ! i) \<and>
         (dr_files dr (path_join dest name) = Some (FsFile bytes) \<or>
          dv_stat dv (path_join dest name) = Inr (FsFile bytes) \<and>
          dr_files dr (path_join dest name) = dv_files dv (path_join dest name)))) \<and>
    refreshes dr \<le> 1 \<and> fetches dr \<le> length wanted + 1"
proof -
  have "(\<forall>t \<in> set targets. target_ok dv dest t) \<and> distinct (map tg_path targets) \<and> map (\<lambda>t. (tg_hash t, tg_record t)) targets = wanted"
    using targets_in_ok [OF assms(1)] by simp
  then have ok: "\<And>t. t \<in> set targets \<Longrightarrow> target_ok dv dest t" "distinct (map tg_path targets)"
      "map (\<lambda>t. (tg_hash t, tg_record t)) targets = wanted" by blast+
  let ?start = "\<lparr>dr_task = ht, dr_spent = False, dr_files = dv_files dv, dr_calls = []\<rparr>"
  have run: "fetch_all de targets 0 [] ?start = (res, dr)"
    using assms(2) by (auto simp: finish_download_in_background_def split: prod.splits sum.splits)
  have free: "siblings_free targets (dr_files ?start)" using assms(4) by simp
  note does = fetch_all_does [OF run ok(2) free]
  have start: "fetched_ok de targets (dv_files dv) (dr_files dr)" using does(1) by simp
  have changes: "\<exists>h r name. (h, r) \<in> set wanted \<and> path_file_name (fr_filename r) = Some name \<and> plain_name name \<and>
      (p = path_join dest (''.'' @ name @ ''.partial'') \<or> p = path_join dest name \<and> \<not> path_exists dv p \<and> dr_files dr p = Some (FsFile (de_bytes de h)))"
    if p: "dr_files dr p \<noteq> dv_files dv p" for p
  proof -
    obtain t where t: "t \<in> fetched_paths targets" "p = partial_of (tg_path t) \<or> p = tg_path t \<and> dr_files dr p = Some (FsFile (de_bytes de (tg_hash t)))"
      using start p unfolding fetched_ok_def by blast
    have "target_ok dv dest t" using ok(1) t(1) by simp
    from changed_places [where files = "dr_files dr", OF t(1) this ok(3) t(2)] show ?thesis .
  qed
  have places: "\<exists>name bytes. path_file_name (fr_filename (snd (wanted ! i))) = Some name \<and>
       dd_path (files ! i) = path_join dest name \<and> dv_blake3 dv bytes = fst (wanted ! i) \<and>
       (dr_files dr (path_join dest name) = Some (FsFile bytes) \<or>
        dv_stat dv (path_join dest name) = Inr (FsFile bytes) \<and> dr_files dr (path_join dest name) = dv_files dv (path_join dest name))"
    if res: "res = Inr files" and i: "i < length wanted" for files i
  proof -
    have said: "map downloaded_of files = map said_of targets" "all_fetched de targets (dr_files dr)" using does(2) [OF res] by simp_all
    note t = places_named(2) [OF said(1) ok(3) i]
    have "fst (wanted ! i) \<in> fst ` set wanted" using nth_mem [OF i] by (rule imageI)
    from bspec [OF assms(3) this] have "dv_blake3 dv (de_bytes de (tg_hash (targets ! i))) = tg_hash (targets ! i)" using t by simp
    from place_of_target [OF conjunct1 [OF t] ok(1) [OF conjunct1 [OF t]] ok(2) assms(4) start said(2) this]
    show ?thesis using t ok(1) [of "targets ! i"] by (auto simp: target_ok_def)
  qed
  have "map dd_file files = map fst wanted" if "res = Inr files" for files
    using places_named(1) does(2) [OF that] ok(3) by simp
  moreover have "length targets = length wanted" using ok(3) by (metis length_map)
  then have "refreshes dr \<le> 1" "fetches dr \<le> length wanted + 1" using does(3,4) by (auto simp: call_counts)
  ultimately show ?thesis using changes places by blast
qed

text \<open>
  Nothing is overwritten, says the text of the code. But a file beside a target under the name of its hidden copy is lost, whether the
  export succeeds or, if the clean-up succeeds, fails.
\<close>
theorem hidden_sibling_is_lost:
  assumes "files (partial_of dest_path) = Some (FsFile old)" and "partial_of dest_path \<noteq> dest_path"
    and "blobs_export de hash dest_path files = (verdict, files')" and "verdict = None \<or> de_remove de (partial_of dest_path)"
  shows "files' (partial_of dest_path) = None"
  using assms
  by (auto simp: blobs_export_def copy_to_def remove_file_def Let_def split: option.splits prod.splits if_splits)

section \<open>A concrete download\<close>

text \<open>Two files into \<open>/d\<close>, of which one is there already and the other is fetched at the second attempt.\<close>

definition demo_files :: files_here where
  "demo_files = [''/d'' \<mapsto> FsDir, ''/d/a'' \<mapsto> FsFile [1]]"

definition demo_view :: disk_view where
  "demo_view = \<lparr>dv_files = demo_files, dv_stat = (\<lambda>p. case demo_files p of None \<Rightarrow> Inl ''nothing there'' | Some e \<Rightarrow> Inr e),
     dv_reads = (\<lambda>_. True), dv_blake3 = (\<lambda>bytes. case bytes of [] \<Rightarrow> ContentHash 0 | b # _ \<Rightarrow> ContentHash (ucast b))\<rparr>"

definition plain_file :: "string \<Rightarrow> file_record" where
  "plain_file name = \<lparr>fr_role = Content, fr_format = ''x'', fr_size = 1, fr_filename = name, fr_seq = None, fr_disc = None,
     fr_title = None, fr_duration = None\<rparr>"

definition demo_wanted :: "(content_hash \<times> file_record) list" where
  "demo_wanted = [(ContentHash 1, plain_file ''a''), (ContentHash 2, plain_file ''../b'')]"

definition lone_env :: download_env where
  "lone_env = \<lparr>de_keep = (\<lambda>_. None), de_has = (\<lambda>_. Inr False), de_start = (\<lambda>_ _. None),
     de_stream = (\<lambda>attempt _. if attempt = 0 then [FetchedTo 1, NobodyServed] else [OtherFetchItem, FetchedTo 1]),
     de_answered = True, de_copy = (\<lambda>_. None), de_rename = (\<lambda>_. None), de_remove = (\<lambda>_. True), de_through_link = (\<lambda>_ _ files. files),
     de_bytes = (\<lambda>h. if h = ContentHash 1 then [1] else [2]), de_now = 0\<rparr>"

definition demo_targets :: "target_file list" where
  "demo_targets = [\<lparr>tg_hash = ContentHash 1, tg_record = plain_file ''a'', tg_path = ''/d/a'', tg_in_place = True\<rparr>,
     \<lparr>tg_hash = ContentHash 2, tg_record = plain_file ''../b'', tg_path = ''/d/b'', tg_in_place = False\<rparr>]"

definition demo_started :: "download_handle \<times> tasks" where
  "demo_started = start_download (ItemId 1) None 2 2 tasks_new"

lemma demo_partials: "partial_of ''/d/a'' = ''/d/.a.partial''" "partial_of ''/d/b'' = ''/d/.b.partial''"
  by code_simp+

theorem download_overwrites_nothing_witness:
  "\<exists>files dr tk. finish_download_in_background lone_env demo_targets demo_started (dv_files demo_view) = (Inr files, dr, tk) \<and>
     map dd_file files = [ContentHash 1, ContentHash 2] \<and> dr_files dr ''/d/a'' = Some (FsFile [1]) \<and> refreshes dr \<le> 1"
proof -
  have targets: "targets_in demo_view ''/d'' demo_wanted Map.empty [] = Inr demo_targets"
    by (simp add: demo_wanted_def demo_targets_def demo_view_def demo_files_def plain_file_def path_file_name_def path_components_def path_join_def
        already_there_def path_exists_def Let_def)
  obtain res dr tk where run: "finish_download_in_background lone_env demo_targets demo_started (dv_files demo_view) = (res, dr, tk)"
    by (cases "finish_download_in_background lone_env demo_targets demo_started (dv_files demo_view)")
  then obtain files where files: "res = Inr files"
    by (auto simp: finish_download_in_background_def demo_targets_def lone_env_def fetch_missing_def fetch_file_def spend_def
        blobs_export_def Let_def)
  have bytes: "\<forall>h \<in> fst ` set demo_wanted. dv_blake3 demo_view (de_bytes lone_env h) = h"
    by (simp add: demo_wanted_def demo_view_def lone_env_def)
  have free: "siblings_free demo_targets (dv_files demo_view)"
    by (simp add: siblings_free_def demo_targets_def demo_partials demo_view_def demo_files_def)
  note all = download_overwrites_nothing [OF targets run bytes free]
  have "map dd_file files = map fst demo_wanted" using all files by blast
  moreover have "dr_files dr ''/d/a'' = dv_files demo_view ''/d/a''"
  proof (rule ccontr)
    assume "dr_files dr ''/d/a'' \<noteq> dv_files demo_view ''/d/a''"
    then obtain name where "''/d/a'' = path_join ''/d'' (''.'' @ name @ ''.partial'') \<or> \<not> path_exists demo_view ''/d/a''" using all by blast
    moreover have "path_exists demo_view ''/d/a''" by (simp add: path_exists_def demo_view_def demo_files_def)
    ultimately have "''/d/a'' = path_join ''/d'' (''.'' @ name @ ''.partial'')" by blast
    from arg_cong [OF this, of length] show False by (simp add: path_join_def)
  qed
  ultimately show ?thesis using all run files by (auto simp: demo_wanted_def demo_view_def demo_files_def)
qed

theorem hidden_sibling_is_lost_witness:
  "\<exists>files'. blobs_export lone_env (ContentHash 2) ''/d/b'' [''/d/.b.partial'' \<mapsto> FsFile [9]] = (None, files') \<and> files' ''/d/.b.partial'' = None"
proof -
  obtain verdict files' where run: "blobs_export lone_env (ContentHash 2) ''/d/b'' [''/d/.b.partial'' \<mapsto> FsFile [9]] = (verdict, files')" by fastforce
  have "[''/d/.b.partial'' \<mapsto> FsFile [9]] (partial_of ''/d/b'') = Some (FsFile [9])" "partial_of ''/d/b'' \<noteq> ''/d/b''"
    by (simp_all add: demo_partials)
  moreover have "verdict = None" using run by (auto simp: blobs_export_def lone_env_def Let_def)
  ultimately show ?thesis using hidden_sibling_is_lost [OF _ _ run] run by (auto simp: demo_partials)
qed

text \<open>
  A file that is reported as downloaded can be gone: of two files asked for, \<open>.b.partial\<close> and \<open>b\<close>, the first is
  written, taken for the hidden copy of the second, and renamed away; the download ends well and names both.
\<close>
theorem reported_file_is_gone:
  "\<exists>targets files dr tk. targets_in demo_view ''/d'' [(ContentHash 2, plain_file ''.b.partial''), (ContentHash 3, plain_file ''b'')] Map.empty [] = Inr targets \<and>
     finish_download_in_background (lone_env\<lparr>de_has := \<lambda>_. Inr True\<rparr>) targets demo_started (dv_files demo_view) = (Inr files, dr, tk) \<and>
     map dd_path files = [''/d/.b.partial'', ''/d/b''] \<and> dr_files dr ''/d/.b.partial'' = None"
proof -
  let ?targets = "[\<lparr>tg_hash = ContentHash 2, tg_record = plain_file ''.b.partial'', tg_path = ''/d/.b.partial'', tg_in_place = False\<rparr>,
     \<lparr>tg_hash = ContentHash 3, tg_record = plain_file ''b'', tg_path = ''/d/b'', tg_in_place = False\<rparr>]"
  have targets: "targets_in demo_view ''/d'' [(ContentHash 2, plain_file ''.b.partial''), (ContentHash 3, plain_file ''b'')] Map.empty [] = Inr ?targets"
    by (simp add: demo_view_def demo_files_def plain_file_def path_file_name_def path_components_def path_join_def path_exists_def Let_def)
  have "partial_of ''/d/.b.partial'' = ''/d/..b.partial.partial''" by code_simp
  then have "\<exists>files dr tk. finish_download_in_background (lone_env\<lparr>de_has := \<lambda>_. Inr True\<rparr>) ?targets demo_started (dv_files demo_view) = (Inr files, dr, tk) \<and>
      map dd_path files = [''/d/.b.partial'', ''/d/b''] \<and> dr_files dr ''/d/.b.partial'' = None"
    by (simp add: finish_download_in_background_def lone_env_def fetch_missing_def fetch_file_def spend_def blobs_export_def copy_to_def
        remove_file_def demo_partials demo_view_def demo_files_def Let_def)
  then obtain files dr tk where ends: "finish_download_in_background (lone_env\<lparr>de_has := \<lambda>_. Inr True\<rparr>) ?targets demo_started (dv_files demo_view) = (Inr files, dr, tk)"
      "map dd_path files = [''/d/.b.partial'', ''/d/b'']" "dr_files dr ''/d/.b.partial'' = None" by (elim exE conjE)
  show ?thesis by (intro exI conjI) (rule targets ends)+
qed


end
