(* ===== verification/Group_Methods.thy ===== *)
theory Group_Methods
  imports Proposing Probe_Failures
begin

text \<open>
  The calls of \<open>distlib-api/src/methods.rs\<close> that propose changes of the group: what each checks before
  anything is proposed, the event it makes, and what it answers of the proposal. A proposal that is
  refused by the group is still an entry of the log, so what can be refused is refused here.
\<close>

section \<open>Answers\<close>

datatype method_error =
    CoreLacks member_id u32
  | NoEvidence member_id
  | ReasonNeeded
  | AlreadyAt member_id
  | NotACoreNode member_id
  | PledgeNotBelowLimit u64 u64
  | PledgeRefused consensus_error
  | FarUnderPledged u64 u64
  | ReadFailed string
  | ProposeFailed node_error

record proposal_answer =
  pa_changed_at :: u64
  pa_proposal :: u64
  pa_waiting :: "(nat \<times> nat) option"

definition proposal_outcome :: "membership_state \<Rightarrow> u64 \<Rightarrow> proposal_answer" where
  "proposal_outcome s proposal =
     \<lparr>pa_changed_at = ms_changed_at s, pa_proposal = proposal,
      pa_waiting = map_option (\<lambda>entry. (length (approvals_counting s entry), approvals_needed s (prop_event entry)))
        (bt_get (ms_pending s) proposal)\<rparr>"

definition commit_event ::
    "('sk, 'sig) crypto \<Rightarrow> ('sig, 'w) group_world \<Rightarrow> 'sk \<Rightarrow> membership_event \<Rightarrow> ('sig, 'w) proposing
      \<Rightarrow> (method_error + u64) \<times> ('sig, 'w) proposing" where
  "commit_event cr gw sk event p =
     (case propose cr gw (public_of cr sk) sk event p of
        (Inl e, p) \<Rightarrow> (Inl (ProposeFailed e), p)
      | (Inr index, p) \<Rightarrow> (Inr index, p))"

definition propose_event ::
    "('sk, 'sig) crypto \<Rightarrow> ('sig, 'w) group_world \<Rightarrow> 'sk \<Rightarrow> membership_event \<Rightarrow> ('sig, 'w) proposing
      \<Rightarrow> (method_error + proposal_answer) \<times> ('sig, 'w) proposing" where
  "propose_event cr gw sk event p =
     (case commit_event cr gw sk event p of
        (Inl e, p) \<Rightarrow> (Inl e, p)
      | (Inr index, p) \<Rightarrow> (Inr (proposal_outcome (gw_enforced gw (po_world p)) index), p))"

section \<open>The calls\<close>

definition approve_proposal ::
    "('sk, 'sig) crypto \<Rightarrow> ('sig, 'w) group_world \<Rightarrow> 'sk \<Rightarrow> u64 \<Rightarrow> ('sig, 'w) proposing
      \<Rightarrow> (method_error + proposal_answer \<times> bool) \<times> ('sig, 'w) proposing" where
  "approve_proposal cr gw sk proposal p =
     (let s = gw_enforced gw (po_world p);
          already = (case bt_get (ms_pending s) proposal of
             None \<Rightarrow> False | Some entry \<Rightarrow> public_of cr sk \<in> set (approvals_counting s entry))
      in case commit_event cr gw sk (Approved proposal) p of
           (Inl e, p) \<Rightarrow> (Inl e, p)
         | (Inr _, p) \<Rightarrow> (Inr (proposal_outcome (gw_enforced gw (po_world p)) proposal, already), p))"

definition raise_protocol ::
    "('sk, 'sig) crypto \<Rightarrow> ('sig, 'w) group_world \<Rightarrow> 'sk \<Rightarrow> ('sig, 'w) proposing
      \<Rightarrow> (method_error + proposal_answer \<times> u32) \<times> ('sig, 'w) proposing" where
  "raise_protocol cr gw sk p =
     (let s = gw_enforced gw (po_world p); to = ms_protocol s + 1
      in case core_not_speaking s to of
           member # _ \<Rightarrow> (Inl (CoreLacks member to), p)
         | [] \<Rightarrow>
             (case propose_event cr gw sk (ProtocolRaised to) p of
                (Inl e, p) \<Rightarrow> (Inl e, p)
              | (Inr a, p) \<Rightarrow> (Inr (a, to), p)))"

definition withdraw_proposal ::
    "('sk, 'sig) crypto \<Rightarrow> ('sig, 'w) group_world \<Rightarrow> 'sk \<Rightarrow> u64 \<Rightarrow> ('sig, 'w) proposing
      \<Rightarrow> (method_error + u64 \<times> u64) \<times> ('sig, 'w) proposing" where
  "withdraw_proposal cr gw sk proposal p =
     (case commit_event cr gw sk (Withdrawn proposal) p of
        (Inl e, p) \<Rightarrow> (Inl e, p)
      | (Inr _, p) \<Rightarrow> (Inr (ms_changed_at (gw_enforced gw (po_world p)), proposal), p))"

definition propose_add where
  "propose_add cr gw sk member name p =
     propose_event cr gw sk
       (MemberAdded \<lparr>profile_id = member, profile_name = (case name of None \<Rightarrow> [] | Some n \<Rightarrow> n)\<rparr>) p"

text \<open>\<open>known\<close> is what reading the probe failures gives.\<close>

definition expulsion_reason ::
    "printers \<Rightarrow> membership_state \<Rightarrow> (string + suspect list) \<Rightarrow> member_id \<Rightarrow> string option \<Rightarrow> bool \<Rightarrow> method_error + string" where
  "expulsion_reason pr s known member reason with_evidence =
     (if with_evidence
      then (case known of
              Inl why \<Rightarrow> Inl (ReadFailed why)
            | Inr accused \<Rightarrow>
                (case List.find (\<lambda>x. su_member x = member) accused of
                   None \<Rightarrow> Inl (NoEvidence member)
                 | Some x \<Rightarrow> Inr (evidence_reason pr reason x s)))
      else case reason of None \<Rightarrow> Inl ReasonNeeded | Some r \<Rightarrow> Inr r)"

definition propose_expel ::
    "printers \<Rightarrow> ('sk, 'sig) crypto \<Rightarrow> ('sig, 'w) group_world \<Rightarrow> 'sk \<Rightarrow> (string + suspect list) \<Rightarrow> member_id \<Rightarrow> string option \<Rightarrow> bool
      \<Rightarrow> ('sig, 'w) proposing \<Rightarrow> (method_error + proposal_answer \<times> string) \<times> ('sig, 'w) proposing" where
  "propose_expel pr cr gw sk known member reason with_evidence p =
     (case expulsion_reason pr (gw_enforced gw (po_world p)) known member reason with_evidence of
        Inl e \<Rightarrow> (Inl e, p)
      | Inr why \<Rightarrow>
          (case propose_event cr gw sk (MemberExpelled member why) p of
             (Inl e, p) \<Rightarrow> (Inl e, p)
           | (Inr a, p) \<Rightarrow> (Inr (a, why), p)))"

datatype core_edit = SetCore member_id node_addr | RemoveCore member_id

fun changed_core :: "core_edit \<Rightarrow> (member_id, node_addr) btmap \<Rightarrow> method_error + (member_id, node_addr) btmap" where
  "changed_core (SetCore member addr) core =
     (if bt_get core member = Some addr then Inl (AlreadyAt member) else Inr (bt_insert member addr core))"
| "changed_core (RemoveCore member) core =
     (if bt_get core member = None then Inl (NotACoreNode member) else Inr (bt_remove member core))"

text \<open>\<open>read\<close> is the membership as the call reads it; proposing reads it once more, to sign.\<close>

definition propose_core ::
    "('sk, 'sig) crypto \<Rightarrow> ('sig, 'w) group_world \<Rightarrow> 'sk \<Rightarrow> membership_state \<Rightarrow> core_edit \<Rightarrow> ('sig, 'w) proposing
      \<Rightarrow> (method_error + proposal_answer) \<times> ('sig, 'w) proposing" where
  "propose_core cr gw sk read wanted p =
     (case changed_core wanted (ms_core read) of
        Inl e \<Rightarrow> (Inl e, p)
      | Inr core \<Rightarrow> propose_event cr gw sk (CoreGroupChanged (bt_entries core)) p)"

record requirement =
  rq_pledge_bytes :: u64
  rq_required :: u64

definition requirement_of ::
    "(string + (member_id, u64) btmap) \<Rightarrow> membership_state \<Rightarrow> member_id \<Rightarrow> u64 \<Rightarrow> method_error + requirement" where
  "requirement_of added s me more_bytes =
     (case added of
        Inl why \<Rightarrow> Inl (ReadFailed why)
      | Inr by_member \<Rightarrow>
          Inr \<lparr>rq_pledge_bytes = (case bt_get (ms_members s) me of None \<Rightarrow> 0 | Some r \<Rightarrow> rec_pledge r),
               rq_required = required_pledge (ms_settings s)
                 (sat_add (case bt_get by_member me of None \<Rightarrow> 0 | Some n \<Rightarrow> n) more_bytes)\<rparr>)"

definition standing :: "requirement \<Rightarrow> pledge_standing" where
  "standing rq = standing_of (rq_pledge_bytes rq) (rq_required rq)"

definition under_pledged :: "requirement \<Rightarrow> (u64 \<times> u64) option" where
  "under_pledged rq = (case standing rq of Enough \<Rightarrow> None | _ \<Rightarrow> Some (rq_pledge_bytes rq, rq_required rq))"

definition pledge_checks ::
    "membership_state \<Rightarrow> member_id \<Rightarrow> u64 option \<Rightarrow> (string + (member_id, u64) btmap) \<Rightarrow> u64 \<Rightarrow> method_error + requirement" where
  "pledge_checks s me limit added pledge =
     (case (case limit of Some most \<Rightarrow> if most \<le> pledge then Some most else None | None \<Rightarrow> None) of
        Some most \<Rightarrow> Inl (PledgeNotBelowLimit pledge most)
      | None \<Rightarrow>
          (case check_pledge s pledge of
             Inl e \<Rightarrow> Inl (PledgeRefused e)
           | Inr _ \<Rightarrow>
               (case requirement_of added s me 0 of
                  Inl e \<Rightarrow> Inl e
                | Inr rq \<Rightarrow>
                    (let rq = rq\<lparr>rq_pledge_bytes := pledge\<rparr>
                     in if standing rq = FarUnder then Inl (FarUnderPledged pledge (rq_required rq)) else Inr rq))))"

definition pledge_set ::
    "('sk, 'sig) crypto \<Rightarrow> ('sig, 'w) group_world \<Rightarrow> 'sk \<Rightarrow> u64 option \<Rightarrow> (string + (member_id, u64) btmap) \<Rightarrow> u64
      \<Rightarrow> ('sig, 'w) proposing \<Rightarrow> (method_error + proposal_answer \<times> (u64 \<times> u64) option) \<times> ('sig, 'w) proposing" where
  "pledge_set cr gw sk limit added pledge p =
     (case pledge_checks (gw_enforced gw (po_world p)) (public_of cr sk) limit added pledge of
        Inl e \<Rightarrow> (Inl e, p)
      | Inr rq \<Rightarrow>
          (case propose_event cr gw sk (PledgeChanged (public_of cr sk) pledge) p of
             (Inl e, p) \<Rightarrow> (Inl e, p)
           | (Inr a, p) \<Rightarrow> (Inr (a, under_pledged rq), p)))"

section \<open>What a call sends\<close>

lemma sat_add_zero [simp]: "sat_add n 0 = (n :: u64)"
  using unsigned_less [of n, where ?'a = nat] by (simp add: sat_add_def)

lemma propose_sends:
  assumes "propose cr gw me sk event p = (r, p')"
  obtains (sends) new where "po_sent p' = po_sent p @ new"
    and "\<forall>s \<in> set new. se_event (event_sent s) = event \<and> se_proposer (event_sent s) = public_of cr sk"
    and "\<not> sent_again_when_stale event \<Longrightarrow>
      \<forall>s \<in> set new. se_changed_at (event_sent s) = ms_changed_at (gw_enforced gw (po_world p))"
    and "\<And>i. r = Inr i \<Longrightarrow> i \<le> ms_changed_at (gw_enforced gw (po_world p'))"
proof -
  obtain r1 p1 where first: "propose_and_retry cr gw me sk event p = (r1, p1)"
    by (cases "propose_and_retry cr gw me sk event p")
  have sent: "po_sent p' = po_sent p1" and reached: "\<And>i. r = Inr i \<Longrightarrow> i \<le> ms_changed_at (gw_enforced gw (po_world p'))"
    using assms first by (auto simp: propose_def dest: catch_up_keeps catch_up_reaches split: sum.splits prod.splits)
  have one: thesis if q: "po_sent p1 = po_sent q" "propose_once cr gw me sk event p = (r', q)" for q r'
  proof -
    obtain new where "po_sent q = po_sent p @ new" "round_sends sk event (ms_changed_at (gw_enforced gw (po_world p))) cr new"
      using propose_once_round [OF q(2)] by metis
    then show thesis by (intro sends [of new] reached) (auto simp: sent q(1) round_sends_def)
  qed
  from first show thesis
  proof (cases rule: propose_and_retry_rounds)
    case (again stated current q1 q2)
    obtain new1 where new1: "po_sent q1 = po_sent p @ new1" "round_sends sk event (ms_changed_at (gw_enforced gw (po_world p))) cr new1"
      using propose_once_round [OF again(2)] by metis
    obtain new2 where new2: "po_sent p1 = po_sent q2 @ new2" "round_sends sk event (ms_changed_at (gw_enforced gw (po_world q2))) cr new2"
      using propose_once_round [OF again(4)] by metis
    show thesis
      by (rule sends [of "new1 @ new2", OF _ _ _ reached])
        (use new1 new2 again(1) catch_up_keeps [OF again(3)] in \<open>auto simp: sent round_sends_def\<close>)
  qed (use one in auto)
qed

lemma propose_event_sends:
  assumes "propose_event cr gw sk event p = (r, p')"
  obtains new where "po_sent p' = po_sent p @ new"
    and "\<forall>s \<in> set new. se_event (event_sent s) = event \<and> se_proposer (event_sent s) = public_of cr sk"
    and "\<not> sent_again_when_stale event \<Longrightarrow>
      \<forall>s \<in> set new. se_changed_at (event_sent s) = ms_changed_at (gw_enforced gw (po_world p))"
    and "\<And>a. r = Inr a \<Longrightarrow> pa_proposal a \<le> pa_changed_at a \<and>
      (pa_waiting a = None \<longleftrightarrow> bt_get (ms_pending (gw_enforced gw (po_world p'))) (pa_proposal a) = None)"
proof -
  obtain r1 where proposed: "propose cr gw (public_of cr sk) sk event p = (r1, p')"
    using assms by (auto simp: propose_event_def commit_event_def split: prod.splits sum.splits)
  have r: "\<And>a. r = Inr a \<Longrightarrow> \<exists>i. r1 = Inr i \<and> a = proposal_outcome (gw_enforced gw (po_world p')) i"
    using assms proposed by (auto simp: propose_event_def commit_event_def split: sum.splits)
  from propose_sends [OF proposed] obtain new where "po_sent p' = po_sent p @ new"
      "\<forall>s \<in> set new. se_event (event_sent s) = event \<and> se_proposer (event_sent s) = public_of cr sk"
      "\<not> sent_again_when_stale event \<Longrightarrow>
        \<forall>s \<in> set new. se_changed_at (event_sent s) = ms_changed_at (gw_enforced gw (po_world p))"
      "\<And>i. r1 = Inr i \<Longrightarrow> i \<le> ms_changed_at (gw_enforced gw (po_world p'))"
    by metis
  then show thesis
    using r by (intro that [of new]) (auto simp: proposal_outcome_def dest!: r)
qed

text \<open>
  A change of the core group is one change. Every event the call sends is the core group as the call
  read it with the one member changed, and it does change that member; it states the membership enforced
  when it is signed, which is read after the other. If another change of the core group was enforced in
  between, the event puts the earlier one back, and nothing in it says that it is stale.
\<close>
theorem core_changes_are_one_change:
  assumes "propose_core cr gw sk read wanted p = (r, p')" and "s \<in> set (sent_since p p')"
  shows "\<exists>core member. se_event (event_sent s) = CoreGroupChanged core \<and>
    (case wanted of SetCore m addr \<Rightarrow> member = m \<and> map_of core m = Some addr | RemoveCore m \<Rightarrow> member = m \<and> map_of core m = None) \<and>
    map_of core member \<noteq> bt_get (ms_core read) member \<and>
    (\<forall>m. m \<noteq> member \<longrightarrow> map_of core m = bt_get (ms_core read) m) \<and>
    se_changed_at (event_sent s) = ms_changed_at (gw_enforced gw (po_world p))"
proof -
  have "\<exists>core. changed_core wanted (ms_core read) = Inr core"
    using assms by (auto simp: propose_core_def sent_since_def split: sum.splits)
  then obtain core where core: "changed_core wanted (ms_core read) = Inr core" ..
  then have "propose_event cr gw sk (CoreGroupChanged (bt_entries core)) p = (r, p')"
    using assms(1) by (simp add: propose_core_def)
  then obtain new where new: "po_sent p' = po_sent p @ new" "\<forall>s \<in> set new. se_event (event_sent s) = CoreGroupChanged (bt_entries core)"
      "\<forall>s \<in> set new. se_changed_at (event_sent s) = ms_changed_at (gw_enforced gw (po_world p))"
    by (rule propose_event_sends) simp
  then have s: "se_event (event_sent s) = CoreGroupChanged (bt_entries core)"
      "se_changed_at (event_sent s) = ms_changed_at (gw_enforced gw (po_world p))"
    using assms(2) by (simp_all add: sent_since_def)
  then show ?thesis
    using core by (cases wanted) (auto simp: bt_get.rep_eq [symmetric] split: if_splits)
qed

text \<open>
  A pledge is proposed only if it keeps the rules: it is this node's own, not below the group's minimum,
  below the node's storage limit, and not far under what it added requires. Otherwise nothing is sent.
\<close>
theorem pledges_are_checked_first:
  assumes "pledge_set cr gw sk limit added pledge p = (r, p')" and "s \<in> set (sent_since p p')"
  shows "se_event (event_sent s) = PledgeChanged (public_of cr sk) pledge \<and>
    min_pledge_bytes (ms_settings (gw_enforced gw (po_world p))) \<le> pledge \<and> (\<forall>most. limit = Some most \<longrightarrow> pledge < most) \<and>
    (\<exists>by_member. added = Inr by_member \<and>
       standing_of pledge (required_pledge (ms_settings (gw_enforced gw (po_world p)))
         (case bt_get by_member (public_of cr sk) of None \<Rightarrow> 0 | Some n \<Rightarrow> n)) \<noteq> FarUnder)"
proof -
  obtain rq where rq: "pledge_checks (gw_enforced gw (po_world p)) (public_of cr sk) limit added pledge = Inr rq"
    using assms by (auto simp: pledge_set_def sent_since_def split: sum.splits)
  then have "\<exists>r1. propose_event cr gw sk (PledgeChanged (public_of cr sk) pledge) p = (r1, p')"
    using assms(1) by (auto simp: pledge_set_def split: sum.splits prod.splits)
  then obtain new where "po_sent p' = po_sent p @ new" "\<forall>s \<in> set new. se_event (event_sent s) = PledgeChanged (public_of cr sk) pledge"
    by (elim exE) (rule propose_event_sends, auto)
  then have "se_event (event_sent s) = PledgeChanged (public_of cr sk) pledge"
    using assms(2) by (simp add: sent_since_def)
  then show ?thesis
    using rq by (auto simp: pledge_checks_def check_pledge_def requirement_of_def standing_def Let_def not_le
        split: sum.splits option.splits if_splits)
qed

section \<open>Concrete calls\<close>

text \<open>The group of \<open>moving_group\<close>, with a core group of one, seen from a node that votes and whose Raft takes what it is given.\<close>

definition core_at :: "256 word list \<Rightarrow> u64 \<Rightarrow> membership_state" where
  "core_at ks at = ms_new\<lparr>ms_core := bt_collect (map (\<lambda>k. (MemberId k, lookup_only)) ks), ms_changed_at := at,
     ms_settings := default_settings\<lparr>min_pledge_bytes := 5\<rparr>\<rparr>"

definition taking_group :: "(member_id, nat) group_world" where
  "taking_group = moving_group\<lparr>gw_enforced := (\<lambda>w. if w = 0 then core_at [1] 4 else core_at [1, 2] 5), gw_voting := (\<lambda>_. True),
     gw_write := (\<lambda>_ w. (Wrote (Inr ()) 5, 2)), gw_later := (\<lambda>_. [])\<rparr>"

lemma sends_here:
  assumes "propose_event plain_crypto taking_group (MemberId 1) event \<lparr>po_world = 2, po_sent = []\<rparr> = (r, p')"
    and "within_limits event = Inr ()"
  shows "po_sent p' \<noteq> []"
  using assms
  by (auto simp: propose_event_def commit_event_def propose_def propose_and_retry_def propose_once_def commit_as_core_def
      PROPOSE_ATTEMPTS_def eval_nat_numeral write_here_def catch_up_to_def wait_until.simps taking_group_def moving_group_def core_at_def
      plain_crypto_def sign_event_def signing_payload_def Let_def)

theorem core_changes_are_one_change_witness:
  "\<exists>r p' core. propose_core plain_crypto taking_group (MemberId 1) (core_at [1] 4) (SetCore (MemberId 3) lookup_only)
       \<lparr>po_world = 2, po_sent = []\<rparr> = (r, p') \<and>
     se_event (event_sent (hd (po_sent p'))) = CoreGroupChanged core \<and> map_of core (MemberId 2) = None \<and>
     bt_get (ms_core (gw_enforced taking_group 2)) (MemberId 2) \<noteq> None \<and> se_changed_at (event_sent (hd (po_sent p'))) = 5"
proof -
  let ?p = "\<lparr>po_world = 2, po_sent = []\<rparr> :: (member_id, nat) proposing"
  obtain r p' where run: "propose_core plain_crypto taking_group (MemberId 1) (core_at [1] 4) (SetCore (MemberId 3) lookup_only) ?p = (r, p')"
    by fastforce
  moreover have free: "bt_get (ms_core (core_at [1] 4)) (MemberId 3) = None" "bt_get (ms_core (core_at [1] 4)) (MemberId 2) = None"
    by (simp_all add: core_at_def bt_collect_def)
  ultimately have "po_sent p' \<noteq> []"
    by (auto simp: propose_core_def dest: sends_here)
  then have one: "hd (po_sent p') \<in> set (sent_since ?p p')" by (simp add: sent_since_def)
  from core_changes_are_one_change [OF run one] obtain core where core: "se_event (event_sent (hd (po_sent p'))) = CoreGroupChanged core"
      "map_of core (MemberId 2) = None" "se_changed_at (event_sent (hd (po_sent p'))) = 5"
    using free(2) by (auto simp: taking_group_def core_at_def)
  moreover have "bt_get (ms_core (gw_enforced taking_group 2)) (MemberId 2) \<noteq> None"
    by (simp add: taking_group_def core_at_def bt_collect_def)
  ultimately show ?thesis using run by blast
qed

theorem pledges_are_checked_first_witness:
  "\<exists>r p'. pledge_set plain_crypto taking_group (MemberId 1) (Some 9) (Inr bt_empty) 7 \<lparr>po_world = 2, po_sent = []\<rparr> = (r, p') \<and>
     se_event (event_sent (hd (po_sent p'))) = PledgeChanged (MemberId 1) 7 \<and>
     fst (pledge_set plain_crypto taking_group (MemberId 1) (Some 7) (Inr bt_empty) 7 \<lparr>po_world = 2, po_sent = []\<rparr>)
       = Inl (PledgeNotBelowLimit 7 7)"
proof -
  let ?p = "\<lparr>po_world = 2, po_sent = []\<rparr> :: (member_id, nat) proposing"
  obtain r p' where run: "pledge_set plain_crypto taking_group (MemberId 1) (Some 9) (Inr bt_empty) 7 ?p = (r, p')" by fastforce
  have checks: "pledge_checks (gw_enforced taking_group 2) (MemberId 1) (Some 9) (Inr bt_empty) 7 =
      Inr \<lparr>rq_pledge_bytes = 7, rq_required = 5\<rparr>" by code_simp
  then have "po_sent p' \<noteq> []"
    using run by (auto simp: pledge_set_def plain_crypto_def dest: sends_here [unfolded plain_crypto_def] split: prod.splits sum.splits)
  then have one: "hd (po_sent p') \<in> set (sent_since ?p p')" by (simp add: sent_since_def)
  have "fst (pledge_set plain_crypto taking_group (MemberId 1) (Some 7) (Inr bt_empty) 7 ?p) = Inl (PledgeNotBelowLimit 7 7)"
    by (simp add: pledge_set_def pledge_checks_def)
  then show ?thesis
    using pledges_are_checked_first [OF run one] run by (auto simp: plain_crypto_def)
qed

end
