(* ===== verification/Library_Methods.thy ===== *)
theory Library_Methods
  imports Uploads Group_Methods Document Storage
begin

text \<open>
  The calls of \<open>distlib-api/src/methods.rs\<close> that write to the library: \<open>library.add\<close> after its uploads were
  taken, the edits of an item's metadata, and what a member says about items and wishes. Each reads the
  document and writes to it through the operations of \<open>Document\<close>; a call's writes are a list.
\<close>

section \<open>An item of files\<close>

datatype add_error =
    NotAFilePath string
  | NoExtension string
  | ImportFailed string string
  | TwoFilesOneName string string string
  | OverTheLimit u64 u64
  | AddFarUnder u64 u64
  | AddFailed sync_error
  | AddReadFailed string

text \<open>\<open>lower\<close> is \<open>str::to_lowercase\<close>, \<open>add_file\<close> what importing a file gives.\<close>

definition hash_file ::
    "(string \<Rightarrow> string) \<Rightarrow> (string \<Rightarrow> string + content_hash \<times> u64) \<Rightarrow> string \<Rightarrow> add_error + (content_hash \<times> u64) \<times> file_record" where
  "hash_file lower add_file path =
     (case path_file_name path of
        None \<Rightarrow> Inl (NotAFilePath path)
      | Some filename \<Rightarrow>
          (case path_extension path of
             None \<Rightarrow> Inl (NoExtension path)
           | Some ext \<Rightarrow>
               (case add_file path of
                  Inl why \<Rightarrow> Inl (ImportFailed path why)
                | Inr (hash, sz) \<Rightarrow>
                    Inr ((hash, sz), \<lparr>fr_role = Content, fr_format = lower ext, fr_size = sz, fr_filename = filename, fr_seq = None,
                      fr_disc = None, fr_title = None, fr_duration = None\<rparr>))))"

fun files_of_item ::
    "(string \<Rightarrow> add_error + (content_hash \<times> u64) \<times> file_record) \<Rightarrow> string list \<Rightarrow> (string \<rightharpoonup> string)
      \<Rightarrow> (content_hash, file_record) btmap \<Rightarrow> (content_hash \<times> u64) list
      \<Rightarrow> add_error + (content_hash, file_record) btmap \<times> (content_hash \<times> u64) list" where
  "files_of_item hashed [] named files imported = Inr (files, imported)"
| "files_of_item hashed (path # paths) named files imported =
     (case hashed path of
        Inl e \<Rightarrow> Inl e
      | Inr ((hash, sz), r) \<Rightarrow>
          (case (if bt_has files hash then None else named (fr_filename r)) of
             Some first \<Rightarrow> Inl (TwoFilesOneName first path (fr_filename r))
           | None \<Rightarrow>
               files_of_item hashed paths (named(fr_filename r \<mapsto> path)) (bt_insert hash r files) (imported @ [(hash, sz)])))"

text \<open>\<open>None\<close> is the panic of an item without content.\<close>

definition item_from_files ::
    "(u8 list \<Rightarrow> 256 word) \<Rightarrow> (string \<Rightarrow> add_error + (content_hash \<times> u64) \<times> file_record) \<Rightarrow> string list
      \<Rightarrow> (add_error + item \<times> (content_hash \<times> u64) list) option" where
  "item_from_files blake3 hashed paths =
     (case files_of_item hashed paths Map.empty bt_empty [] of
        Inl e \<Rightarrow> Some (Inl e)
      | Inr (files, imported) \<Rightarrow>
          (let it = (item_new (ItemId 0))\<lparr>it_files := files\<rparr>
           in map_option (\<lambda>i. Inr (it\<lparr>it_id := i\<rparr>, imported)) (fingerprint blake3 it)))"

section \<open>Adding\<close>

record add_params =
  ap_kind :: item_kind
  ap_title :: "string option"
  ap_authors :: "string list"
  ap_genres :: "string list"
  ap_series :: "series option"
  ap_year :: "i32 option"
  ap_lang :: "string option"
  ap_description :: "string option"

record add_answer =
  aa_item_id :: item_id
  aa_created :: bool
  aa_title :: "string option"
  aa_contributed :: "content_hash list"

record add_env =
  ae_codecs :: codecs
  ae_document :: document
  ae_fails :: "string \<Rightarrow> bool"
  ae_limit :: "u64 option"
  ae_kept :: "string + kept_blobs"
  ae_added :: "string + (member_id, u64) btmap"
  ae_membership :: membership_state
  ae_me :: member_id

definition check_room_for :: "add_env \<Rightarrow> item \<Rightarrow> add_error + unit" where
  "check_room_for ae it =
     (case ae_limit ae of
        None \<Rightarrow> Inr ()
      | Some limit \<Rightarrow>
          (case ae_kept ae of
             Inl why \<Rightarrow> Inl (AddReadFailed why)
           | Inr kept \<Rightarrow>
               (let growth = mandatory_growth kept (map (\<lambda>(hash, r). (hash, fr_size r)) (bt_entries (it_files it)));
                    mandatory = mandatory_bytes (usage kept) + growth
                in if 0 < growth \<and> limit < mandatory then Inl (OverTheLimit mandatory limit) else Inr ())))"

definition missing_files :: "item \<Rightarrow> item \<Rightarrow> (content_hash, file_record) btmap" where
  "missing_files it existing = bt_retain (\<lambda>hash _. \<not> bt_has (it_files existing) hash) (it_files it)"

definition add_missing_files ::
    "add_env \<Rightarrow> item \<Rightarrow> item \<Rightarrow> doc_write list \<Rightarrow> (add_error + add_answer) \<times> doc_write list" where
  "add_missing_files ae it existing ws =
     (let missing = missing_files it existing;
          ans = \<lparr>aa_item_id = it_id it, aa_created = False, aa_title = it_title existing, aa_contributed = bt_keys missing\<rparr>
      in if bt_keys missing = [] then (Inr ans, ws)
         else case write_item (ae_fails ae) (ae_codecs ae) (ae_document ae) ((item_new (it_id it))\<lparr>it_files := missing\<rparr>) ws of
           (Inl e, ws) \<Rightarrow> (Inl (AddFailed e), ws)
         | (Inr _, ws) \<Rightarrow> (Inr ans, ws))"

definition write_new_item ::
    "add_env \<Rightarrow> item \<Rightarrow> add_params \<Rightarrow> doc_write list \<Rightarrow> (add_error + add_answer) \<times> doc_write list" where
  "write_new_item ae it ap ws =
     (let it = it\<lparr>it_kind := Some (ap_kind ap), it_title := ap_title ap,
            it_authors := (if ap_authors ap = [] then None else Some (ap_authors ap)),
            it_genres := (if ap_genres ap = [] then None else Some (ap_genres ap)),
            it_series := ap_series ap, it_year := ap_year ap, it_lang := ap_lang ap, it_description := ap_description ap\<rparr>
      in case write_item (ae_fails ae) (ae_codecs ae) (ae_document ae) it ws of
           (Inl e, ws) \<Rightarrow> (Inl (AddFailed e), ws)
         | (Inr _, ws) \<Rightarrow> (Inr \<lparr>aa_item_id = it_id it, aa_created = True, aa_title = it_title it, aa_contributed = []\<rparr>, ws))"

text \<open>
  The call, on an item and the files imported for it: what it answers, with the standing of the pledge, its
  writes to the document, and what it then asks of the store and of the storage limit, whose failures after
  the tags are only logged. \<open>keeps\<close> is whether the store can tag a file.
\<close>

datatype add_call = KeepOwn item_id content_hash | RecheckHoldings item_id | MakeRoom item_id "(content_hash \<times> u64) list"

fun keep_own :: "(content_hash \<Rightarrow> bool) \<Rightarrow> item_id \<Rightarrow> (content_hash \<times> u64) list \<Rightarrow> add_call list \<Rightarrow> bool \<times> add_call list" where
  "keep_own keeps i [] calls = (True, calls)"
| "keep_own keeps i ((hash, _) # files) calls =
     (if keeps hash then keep_own keeps i files (calls @ [KeepOwn i hash]) else (False, calls))"

definition growth_of :: "item \<Rightarrow> item option \<Rightarrow> u64" where
  "growth_of it existing =
     fold (\<lambda>(_, r) n. sat_add n (fr_size r))
       (filter (\<lambda>(hash, _). case existing of None \<Rightarrow> True | Some e \<Rightarrow> \<not> bt_has (it_files e) hash) (bt_entries (it_files it))) 0"

definition add_item ::
    "add_env \<Rightarrow> (content_hash \<Rightarrow> bool) \<Rightarrow> add_params \<Rightarrow> item \<Rightarrow> (content_hash \<times> u64) list
      \<Rightarrow> (add_error + add_answer \<times> (u64 \<times> u64) option) \<times> doc_write list \<times> add_call list" where
  "add_item ae keeps ap it imported =
     (case check_room_for ae it of
        Inl e \<Rightarrow> (Inl e, [], [])
      | Inr _ \<Rightarrow>
     (case item_of (ae_codecs ae) (ae_document ae) (it_id it) of
        Inl e \<Rightarrow> (Inl (AddFailed e), [], [])
      | Inr existing \<Rightarrow>
     (case requirement_of (ae_added ae) (ae_membership ae) (ae_me ae) (growth_of it existing) of
        Inl _ \<Rightarrow> (Inl (AddReadFailed ''added bytes''), [], [])
      | Inr rq \<Rightarrow>
          if 0 < growth_of it existing \<and> standing rq = FarUnder
          then (Inl (AddFarUnder (rq_pledge_bytes rq) (rq_required rq)), [], [])
          else (case (case existing of
                        Some e \<Rightarrow> add_missing_files ae it e []
                      | None \<Rightarrow> write_new_item ae it ap []) of
                  (Inl e, ws) \<Rightarrow> (Inl e, ws, [])
                | (Inr ans, ws) \<Rightarrow>
                    (case keep_own keeps (it_id it) imported [] of
                       (True, calls) \<Rightarrow>
                         (Inr (ans, under_pledged rq), ws, calls @ [RecheckHoldings (it_id it), MakeRoom (it_id it) imported])
                     | (False, calls) \<Rightarrow> (Inl (AddReadFailed ''keep''), ws, calls))))))"

section \<open>What a member says\<close>

datatype say_error =
    NoSuchItemHere item_id
  | NoFieldGiven
  | NoSuchWish wish_id
  | NoSuchBookmark bookmark_id item_id
  | TooLong core_error
  | NoTitle
  | NoRandomness
  | SayFailed sync_error

text \<open>
  A call's answer with its writes; \<open>None\<close> is the panic of a value that does not encode. \<open>saying\<close> is what
  the calls share: the document, the member, the time and a random identifier.
\<close>

type_synonym 'a said_answer = "((say_error + 'a) \<times> doc_write list) option"

record saying =
  sy_codecs :: codecs
  sy_document :: document
  sy_fails :: "string \<Rightarrow> bool"
  sy_me :: member_id
  sy_now :: u64

definition refuse_unknown_item :: "saying \<Rightarrow> item_id \<Rightarrow> say_error + unit" where
  "refuse_unknown_item sy i =
     (case item_of (sy_codecs sy) (sy_document sy) i of
        Inl e \<Rightarrow> Inl (SayFailed e)
      | Inr None \<Rightarrow> Inl (NoSuchItemHere i)
      | Inr (Some _) \<Rightarrow> Inr ())"

definition written :: "'a \<Rightarrow> (sync_error, doc_write list) outcome \<Rightarrow> (say_error + 'a) \<times> doc_write list" where
  "written a = (\<lambda>(r, ws). (case r of Inl e \<Rightarrow> Inl (SayFailed e) | Inr _ \<Rightarrow> Inr a, ws))"

definition edit_metadata :: "saying \<Rightarrow> item_id \<Rightarrow> item_fields \<Rightarrow> item_id said_answer" where
  "edit_metadata sy i given =
     (let edit = item_set given (item_new i)
      in if edit = item_new i then Some (Inl NoFieldGiven, [])
         else case refuse_unknown_item sy i of
           Inl e \<Rightarrow> Some (Inl e, [])
         | Inr _ \<Rightarrow> Some (written i (write_item (sy_fails sy) (sy_codecs sy) (sy_document sy) edit [])))"

definition rate_item :: "saying \<Rightarrow> item_id \<Rightarrow> rating option \<Rightarrow> item_id said_answer" where
  "rate_item sy i rated =
     (case refuse_unknown_item sy i of
        Inl e \<Rightarrow> Some (Inl e, [])
      | Inr _ \<Rightarrow>
          (case rated of
             Some r \<Rightarrow> map_option (written i) (rate (sy_fails sy) (sy_codecs sy) (sy_document sy) (sy_me sy) i r [])
           | None \<Rightarrow> Some (written i (clear_rating (sy_fails sy) (sy_codecs sy) (sy_document sy) (sy_me sy) i []))))"

definition review_method :: "saying \<Rightarrow> item_id \<Rightarrow> review option \<Rightarrow> item_id said_answer" where
  "review_method sy i reviewed =
     (case refuse_unknown_item sy i of
        Inl e \<Rightarrow> Some (Inl e, [])
      | Inr _ \<Rightarrow>
          (case reviewed of
             Some r \<Rightarrow> map_option (written i) (review_item (sy_fails sy) (sy_codecs sy) (sy_document sy) (sy_me sy) i r [])
           | None \<Rightarrow> Some (written i (clear_review (sy_fails sy) (sy_codecs sy) (sy_document sy) (sy_me sy) i []))))"

definition own_bookmark :: "saying \<Rightarrow> item_id \<Rightarrow> bookmark_id \<Rightarrow> say_error + bookmark" where
  "own_bookmark sy i b =
     (case read_bookmarks (co_texts (sy_codecs sy)) (co_community (sy_codecs sy)) (sy_document sy) i of
        Inl e \<Rightarrow> Inl (SayFailed e)
      | Inr marks \<Rightarrow>
          (case List.find (\<lambda>x. rb_member x = sy_me sy \<and> rb_id x = b) (ib_bookmarks marks) of
             None \<Rightarrow> Inl (NoSuchBookmark b i)
           | Some x \<Rightarrow> Inr (rb_bookmark x)))"

definition bookmark_method ::
    "saying \<Rightarrow> bookmark_id option \<Rightarrow> item_id \<Rightarrow> bookmark_id option \<Rightarrow> string \<Rightarrow> string \<Rightarrow> (item_id \<times> bookmark_id) said_answer" where
  "bookmark_method sy random i edited place note =
     (case refuse_unknown_item sy i of
        Inl e \<Rightarrow> Some (Inl e, [])
      | Inr _ \<Rightarrow>
          (case (case edited of
                   Some b \<Rightarrow> (case own_bookmark sy i b of Inl e \<Rightarrow> Inl e | Inr mark \<Rightarrow> Inr (b, bm_created_at mark))
                 | None \<Rightarrow> (case random of None \<Rightarrow> Inl NoRandomness | Some b \<Rightarrow> Inr (b, sy_now sy))) of
             Inl e \<Rightarrow> Some (Inl e, [])
           | Inr (b, created_at) \<Rightarrow>
               (case bookmark_new place note created_at of
                  Inl e \<Rightarrow> Some (Inl (TooLong e), [])
                | Inr mark \<Rightarrow>
                    map_option (written (i, b)) (bookmark_item (sy_fails sy) (sy_codecs sy) (sy_document sy) (sy_me sy) i b mark []))))"

definition bookmark_delete :: "saying \<Rightarrow> item_id \<Rightarrow> bookmark_id \<Rightarrow> (item_id \<times> bookmark_id) said_answer" where
  "bookmark_delete sy i b =
     (case own_bookmark sy i b of
        Inl e \<Rightarrow> Some (Inl e, [])
      | Inr _ \<Rightarrow> Some (written (i, b) (delete_bookmark (sy_fails sy) (sy_codecs sy) (sy_document sy) (sy_me sy) i b [])))"

definition write_wish_fields :: "saying \<Rightarrow> wish_id \<Rightarrow> wish_fields \<Rightarrow> wish_id said_answer" where
  "write_wish_fields sy w wished =
     (case wish_new (cj_wish (co_community (sy_codecs sy))) wished of
        None \<Rightarrow> None
      | Some (Inl e) \<Rightarrow> Some (Inl (TooLong e), [])
      | Some (Inr wish) \<Rightarrow>
          map_option (written w) (write_wish (sy_fails sy) (sy_codecs sy) (sy_document sy) (sy_me sy) w wish []))"

definition wish_create ::
    "saying \<Rightarrow> wish_id option \<Rightarrow> item_kind option \<Rightarrow> string \<Rightarrow> string list \<Rightarrow> string option \<Rightarrow> wish_id said_answer" where
  "wish_create sy random kind title authors description =
     (if trim title = [] then Some (Inl NoTitle, [])
      else case random of
        None \<Rightarrow> Some (Inl NoRandomness, [])
      | Some w \<Rightarrow>
          write_wish_fields sy w \<lparr>wf_kind = kind, wf_title = Some title,
            wf_authors = (if authors = [] then None else Some authors), wf_description = description,
            wf_created_at = Some (sy_now sy), wf_status = Open\<rparr>)"

definition known_wish_entries :: "saying \<Rightarrow> wish_id \<Rightarrow> say_error + (member_id, wish) btmap" where
  "known_wish_entries sy w =
     (case doc_wishes (co_texts (sy_codecs sy)) (co_community (sy_codecs sy)) (sy_document sy) w of
        Inl e \<Rightarrow> Inl (SayFailed e)
      | Inr entries \<Rightarrow> (case resolve entries of None \<Rightarrow> Inl (NoSuchWish w) | Some _ \<Rightarrow> Inr entries))"

definition wish_comment_method :: "saying \<Rightarrow> wish_id \<Rightarrow> comment option \<Rightarrow> wish_id said_answer" where
  "wish_comment_method sy w commented =
     (case known_wish_entries sy w of
        Inl e \<Rightarrow> Some (Inl e, [])
      | Inr _ \<Rightarrow>
          (case commented of
             Some c \<Rightarrow> map_option (written w) (wish_comment (sy_fails sy) (sy_codecs sy) (sy_document sy) (sy_me sy) w c [])
           | None \<Rightarrow> Some (written w (clear_wish_comment (sy_fails sy) (sy_codecs sy) (sy_document sy) (sy_me sy) w []))))"

definition wish_fulfill :: "saying \<Rightarrow> wish_id \<Rightarrow> item_id \<Rightarrow> wish_id said_answer" where
  "wish_fulfill sy w i =
     (case known_wish_entries sy w of
        Inl e \<Rightarrow> Some (Inl e, [])
      | Inr entries \<Rightarrow>
          (case refuse_unknown_item sy i of
             Inl e \<Rightarrow> Some (Inl e, [])
           | Inr _ \<Rightarrow>
               (let mine = (case bt_get entries (sy_me sy) of
                      None \<Rightarrow> \<lparr>wf_kind = None, wf_title = None, wf_authors = None, wf_description = None,
                        wf_created_at = Some (sy_now sy), wf_status = Open\<rparr>
                    | Some wish \<Rightarrow> wish_fields_of wish)
                in write_wish_fields sy w (mine\<lparr>wf_status := Fulfilled i\<rparr>))))"

section \<open>Files under their names\<close>

definition told_apart :: "(content_hash, file_record) btmap \<Rightarrow> bool" where
  "told_apart files \<longleftrightarrow>
     (\<forall>h h' r r'. bt_get files h = Some r \<and> bt_get files h' = Some r' \<and> fr_filename r = fr_filename r' \<longrightarrow> h = h')"

definition one_name_each :: "(string \<Rightarrow> add_error + (content_hash \<times> u64) \<times> file_record) \<Rightarrow> string list \<Rightarrow> bool" where
  "one_name_each hashed paths \<longleftrightarrow>
     (\<forall>p \<in> set paths. \<forall>q \<in> set paths. \<forall>h n r m r'. hashed p = Inr ((h, n), r) \<and> hashed q = Inr ((h, m), r') \<longrightarrow>
        fr_filename r = fr_filename r')"

lemma told_apart_insert:
  assumes "told_apart files" and "\<And>h' r'. bt_get files h' = Some r' \<Longrightarrow> fr_filename r' = fr_filename r \<Longrightarrow> h' = h"
  shows "told_apart (bt_insert h r files)"
  unfolding told_apart_def
proof (intro allI impI, elim conjE)
  fix a b ra rb assume *: "bt_get (bt_insert h r files) a = Some ra" "bt_get (bt_insert h r files) b = Some rb" "fr_filename ra = fr_filename rb"
  consider "a = h" "b = h" | "a = h" "b \<noteq> h" | "a \<noteq> h" "b = h" | "a \<noteq> h" "b \<noteq> h" by blast
  then show "a = b"
  proof cases
    case 2
    with * have "bt_get files b = Some rb" "fr_filename rb = fr_filename r" by simp_all
    from assms(2) [OF this] 2 show ?thesis by simp
  next
    case 3
    with * have "bt_get files a = Some ra" "fr_filename ra = fr_filename r" by simp_all
    from assms(2) [OF this] 3 show ?thesis by simp
  next
    case 4
    with * have "bt_get files a = Some ra" "bt_get files b = Some rb" by simp_all
    with *(3) assms(1) show ?thesis unfolding told_apart_def by blast
  qed simp
qed

lemma one_name_eachD:
  "\<lbrakk>one_name_each hashed paths; p \<in> set paths; q \<in> set paths; hashed p = Inr ((h, n), r); hashed q = Inr ((h, m), r')\<rbrakk>
    \<Longrightarrow> fr_filename r = fr_filename r'"
  unfolding one_name_each_def by blast

lemma files_of_item_told_apart:
  assumes "files_of_item hashed paths named files imported = Inr (files', imported')"
    and "told_apart files" and "\<forall>h r. bt_get files h = Some r \<longrightarrow> named (fr_filename r) \<noteq> None"
    and "one_name_each hashed (seen @ paths)"
    and "\<forall>h r. bt_get files h = Some r \<longrightarrow> (\<exists>p \<in> set seen. \<exists>n. hashed p = Inr ((h, n), r))"
  shows "told_apart files'"
  using assms
proof (induction hashed paths named files imported arbitrary: seen rule: files_of_item.induct)
  case (1 hashed named files imported)
  then show ?case by simp
next
  case (2 hashed path paths named files imported)
  from "2.prems"(1) obtain h n r where h: "hashed path = Inr ((h, n), r)"
    and ok: "bt_has files h \<or> named (fr_filename r) = None"
    and go: "files_of_item hashed paths (named(fr_filename r \<mapsto> path)) (bt_insert h r files) (imported @ [(h, n)]) = Inr (files', imported')"
    by (auto split: sum.splits prod.splits option.splits if_splits)
  have new: "h' = h" if "bt_get files h' = Some r'" "fr_filename r' = fr_filename r" for h' r'
  proof (cases "bt_has files h")
    case True
    then obtain r0 where r0: "bt_get files h = Some r0" by (auto simp: bt_has_def)
    with "2.prems"(5) obtain p m where "p \<in> set seen" "hashed p = Inr ((h, m), r0)" by blast
    then have "fr_filename r0 = fr_filename r"
      using one_name_eachD [OF "2.prems"(4), of p path h m r0 n r] h by simp
    with "2.prems"(2) r0 that show ?thesis unfolding told_apart_def by metis
  next
    case False
    with ok that "2.prems"(3) show ?thesis by force
  qed
  have name: "(if bt_has files h then None else named (fr_filename r)) = None" using ok by auto
  show ?case
  proof (rule "2.IH" [OF h refl refl name go, of "seen @ [path]"])
    show "told_apart (bt_insert h r files)" using "2.prems"(2) new by (rule told_apart_insert)
    show "\<forall>h' r'. bt_get (bt_insert h r files) h' = Some r' \<longrightarrow> (named(fr_filename r \<mapsto> path)) (fr_filename r') \<noteq> None"
      using "2.prems"(3) by auto
    show "one_name_each hashed ((seen @ [path]) @ paths)" using "2.prems"(4) by simp
    show "\<forall>h' r'. bt_get (bt_insert h r files) h' = Some r' \<longrightarrow> (\<exists>p \<in> set (seen @ [path]). \<exists>n. hashed p = Inr ((h', n), r'))"
      using "2.prems"(5) h by auto
  qed
qed

text \<open>
  The files of a new item can be told apart by name, if each of them goes by one name only however often it
  is given.
\<close>
theorem added_files_are_told_apart:
  assumes "item_from_files blake3 hashed paths = Some (Inr (it, imported))" and "one_name_each hashed paths"
  shows "told_apart (it_files it)"
proof -
  from assms(1) have "files_of_item hashed paths Map.empty bt_empty [] = Inr (it_files it, imported)"
    by (auto simp: item_from_files_def item_new_def split: sum.splits prod.splits option.splits)
  then show ?thesis
    by (rule files_of_item_told_apart [where seen = "[]"]) (simp_all add: told_apart_def assms(2))
qed

text \<open>
  Without that condition they cannot always: a file given under a second name is not compared with the names
  of the others, so after \<open>x/a.txt\<close> and \<open>y/b.txt\<close> a copy of the first at \<open>z/b.txt\<close> leaves two different files
  under the name \<open>b.txt\<close>.
\<close>
theorem two_files_under_one_name:
  assumes "add_file ''x/a.txt'' = Inr (h1, n1)" and "add_file ''y/b.txt'' = Inr (h2, n2)"
    and "add_file ''z/b.txt'' = Inr (h1, n1)" and "h1 \<noteq> h2"
  shows "\<exists>it imported. item_from_files blake3 (hash_file lower add_file) [''x/a.txt'', ''y/b.txt'', ''z/b.txt''] = Some (Inr (it, imported)) \<and>
    map_option fr_filename (bt_get (it_files it) h1) = Some ''b.txt'' \<and>
    map_option fr_filename (bt_get (it_files it) h2) = Some ''b.txt''"
proof -
  let ?r = "\<lambda>name n. \<lparr>fr_role = Content, fr_format = lower ''txt'', fr_size = n, fr_filename = name, fr_seq = None,
      fr_disc = None, fr_title = None, fr_duration = None\<rparr>"
  have paths: "path_file_name ''x/a.txt'' = Some ''a.txt''" "path_file_name ''y/b.txt'' = Some ''b.txt''" "path_file_name ''z/b.txt'' = Some ''b.txt''"
      "path_extension ''x/a.txt'' = Some ''txt''" "path_extension ''y/b.txt'' = Some ''txt''" "path_extension ''z/b.txt'' = Some ''txt''"
    by code_simp+
  let ?files = "bt_insert h1 (?r ''b.txt'' n1) (bt_insert h2 (?r ''b.txt'' n2) (bt_insert h1 (?r ''a.txt'' n1) bt_empty))"
  have files: "files_of_item (hash_file lower add_file) [''x/a.txt'', ''y/b.txt'', ''z/b.txt''] Map.empty bt_empty [] =
      Inr (?files, [(h1, n1), (h2, n2), (h1, n1)])"
    using assms by (simp add: hash_file_def paths)
  have "(h1, ?r ''b.txt'' n1) \<in> set (bt_entries ?files)" by (simp add: bt_entries_iff)
  then have "\<exists>x \<in> set (bt_entries ?files). (\<lambda>(_, r). fr_role r = Content) x" by (rule rev_bexI) simp
  then have "filter (\<lambda>(_, r). fr_role r = Content) (bt_entries ?files) \<noteq> []" unfolding filter_empty_conv by blast
  then have "fingerprint blake3 ((item_new (ItemId 0))\<lparr>it_files := ?files\<rparr>) \<noteq> None"
    by (simp add: fingerprint_def Let_def)
  then show ?thesis
    using files assms(4) by (auto simp: item_from_files_def Let_def)
qed

section \<open>What adding writes\<close>

lemma put_all_writes:
  assumes "put_all fails d es ws = (r, ws')"
  shows "\<exists>n. ws' = ws @ map (\<lambda>(k, v). SetBytes k v) (take n es) \<and> (\<forall>u. r = Inr u \<longrightarrow> length es \<le> n)"
  using assms
proof (induction es arbitrary: ws)
  case (Cons e es)
  obtain k v where e: "e = (k, v)" by (cases e)
  show ?case
  proof (cases "dc_open d \<and> \<not> fails k")
    case True
    with Cons.prems e have "put_all fails d es (ws @ [SetBytes k v]) = (r, ws')" by (simp add: doc_put_def and_then_def)
    from Cons.IH [OF this] obtain n where "ws' = ws @ [SetBytes k v] @ map (\<lambda>(k, v). SetBytes k v) (take n es)"
        "\<forall>u. r = Inr u \<longrightarrow> length es \<le> n" by auto
    then show ?thesis by (intro exI [of _ "Suc n"]) (simp add: e)
  next
    case False
    with Cons.prems e have "ws' = ws \<and> (\<forall>u. r \<noteq> Inr u)" by (auto simp: doc_put_def and_then_def split: if_splits)
    then show ?thesis by (intro exI [of _ 0]) simp
  qed
qed simp

lemma files_alone_are_entries:
  "item_entries hx js ((item_new i)\<lparr>it_files := files\<rparr>) = file_entries hx js ((item_new i)\<lparr>it_files := files\<rparr>)"
  by (simp add: item_entries_def field_entries_def field_entry_def encode_value_def item_new_def map_filter_def)

lemma file_entries_keys:
  "set (file_entries hx js it) = {(key_encode hx (FileKey (it_id it) h), b) | h b. \<exists>r. bt_get (it_files it) h = Some r \<and> to_vec (js_file js) r = Some b}"
  by (force simp: file_entries_def encode_value_def map_filter_def bt_entries_iff [symmetric] image_iff split: prod.splits)

definition file_written_in :: "codecs \<Rightarrow> item_id \<Rightarrow> content_hash \<Rightarrow> file_record \<Rightarrow> doc_write list \<Rightarrow> bool" where
  "file_written_in co i h r ws \<longleftrightarrow>
     (\<forall>b. to_vec (js_file (co_item co)) r = Some b \<longrightarrow> SetBytes (key_encode (tx_hex (co_texts co)) (FileKey i h)) b \<in> set ws)"

lemma write_item_writes_files:
  assumes "write_item fails co d it [] = (Inr u, ws)" and "bt_get (it_files it) h = Some r"
  shows "file_written_in co (it_id it) h r ws"
proof -
  let ?es = "item_entries (tx_hex (co_texts co)) (co_item co) it"
  from assms(1) have "put_all fails d ?es [] = (Inr u, ws)" by (simp add: write_item_def)
  from put_all_writes [OF this] have "ws = map (\<lambda>(k, v). SetBytes k v) ?es" by auto
  moreover have "(key_encode (tx_hex (co_texts co)) (FileKey (it_id it) h), b) \<in> set ?es" if "to_vec (js_file (co_item co)) r = Some b" for b
    using that assms(2) by (auto simp: item_entries_def file_entries_keys)
  ultimately show ?thesis by (force simp: file_written_in_def)
qed

lemma write_files_only:
  assumes "write_item fails co d ((item_new i)\<lparr>it_files := files\<rparr>) [] = (r, ws)" and "w \<in> set ws"
  shows "\<exists>h b. w = SetBytes (key_encode (tx_hex (co_texts co)) (FileKey i h)) b \<and> bt_has files h"
proof -
  let ?it = "(item_new i)\<lparr>it_files := files\<rparr>"
  let ?es = "item_entries (tx_hex (co_texts co)) (co_item co) ?it"
  from assms(1) have "put_all fails d ?es [] = (r, ws)" by (simp add: write_item_def)
  then obtain n where "ws = map (\<lambda>(k, v). SetBytes k v) (take n ?es)" using put_all_writes by fastforce
  then obtain k v where "w = SetBytes k v" "(k, v) \<in> set (take n ?es)" using assms(2) by auto
  then have "w = SetBytes k v \<and> (k, v) \<in> set (file_entries (tx_hex (co_texts co)) (co_item co) ?it)"
    using set_take_subset [of n ?es] unfolding files_alone_are_entries by blast
  then show ?thesis by (auto simp: file_entries_keys item_new_def bt_has_def)
qed

lemma keep_own_calls: "keep_own keeps i imported calls = (b, calls') \<Longrightarrow> \<exists>more_calls. calls' = calls @ more_calls"
  by (induction keeps i imported calls rule: keep_own.induct) (auto split: if_splits)

lemma add_missing_files_writes:
  assumes "add_missing_files ae it e [] = (r, ws)"
  shows "w \<in> set ws \<Longrightarrow> \<exists>h b. w = SetBytes (key_encode (tx_hex (co_texts (ae_codecs ae))) (FileKey (it_id it) h)) b \<and>
      bt_has (it_files it) h \<and> \<not> bt_has (it_files e) h"
    and "r = Inr ans \<Longrightarrow> bt_get (it_files it) h = Some f \<Longrightarrow>
      bt_has (it_files e) h \<or> file_written_in (ae_codecs ae) (it_id it) h f ws"
proof -
  let ?it = "(item_new (it_id it))\<lparr>it_files := missing_files it e\<rparr>"
  have missing: "bt_has (missing_files it e) h \<longleftrightarrow> bt_has (it_files it) h \<and> \<not> bt_has (it_files e) h" for h
    by (auto simp: missing_files_def bt_has_def split: option.splits)
  show "\<exists>h b. w = SetBytes (key_encode (tx_hex (co_texts (ae_codecs ae))) (FileKey (it_id it) h)) b \<and>
      bt_has (it_files it) h \<and> \<not> bt_has (it_files e) h" if "w \<in> set ws"
  proof -
    from assms that obtain r' where "write_item (ae_fails ae) (ae_codecs ae) (ae_document ae) ?it [] = (r', ws)"
      by (auto simp: add_missing_files_def Let_def split: if_splits prod.splits sum.splits)
    from write_files_only [OF this that] missing show ?thesis by blast
  qed
  show "bt_has (it_files e) h \<or> file_written_in (ae_codecs ae) (it_id it) h f ws" if ok: "r = Inr ans" and "bt_get (it_files it) h = Some f"
  proof (cases "bt_has (it_files e) h")
    case False
    then have f: "bt_get (missing_files it e) h = Some f" using that(2) by (simp add: missing_files_def)
    then have "h \<in> set (bt_keys (missing_files it e))" unfolding set_bt_keys by (rule domI)
    then have "bt_keys (missing_files it e) \<noteq> []" by (metis empty_iff empty_set)
    then obtain u where "write_item (ae_fails ae) (ae_codecs ae) (ae_document ae) ?it [] = (Inr u, ws)"
      using assms ok by (auto simp: add_missing_files_def Let_def split: if_splits prod.splits sum.splits)
    from write_item_writes_files [OF this, of h f] f show ?thesis by (simp add: item_new_def)
  qed simp
qed

lemma write_new_item_writes:
  assumes "write_new_item ae it ap [] = (Inr ans, ws)" and "bt_get (it_files it) h = Some f"
  shows "file_written_in (ae_codecs ae) (it_id it) h f ws"
proof -
  let ?it = "it\<lparr>it_kind := Some (ap_kind ap), it_title := ap_title ap,
            it_authors := (if ap_authors ap = [] then None else Some (ap_authors ap)),
            it_genres := (if ap_genres ap = [] then None else Some (ap_genres ap)),
            it_series := ap_series ap, it_year := ap_year ap, it_lang := ap_lang ap, it_description := ap_description ap\<rparr>"
  obtain u where "write_item (ae_fails ae) (ae_codecs ae) (ae_document ae) ?it [] = (Inr u, ws)"
    using assms(1) by (auto simp: write_new_item_def Let_def split: prod.splits sum.splits)
  from write_item_writes_files [OF this, of h f] assms(2) show ?thesis by simp
qed

text \<open>The two limits of \<open>library.add\<close>, each checked before anything is written.\<close>

lemma over_the_limit_is_refused:
  assumes "add_item ae keeps ap it imported = (r, ws, calls)"
  shows "\<forall>limit kept growth. ae_limit ae = Some limit \<and> ae_kept ae = Inr kept \<and>
      growth = mandatory_growth kept (map (\<lambda>(h, f). (h, fr_size f)) (bt_entries (it_files it))) \<and>
      0 < growth \<and> limit < mandatory_bytes (usage kept) + growth \<longrightarrow>
    r = Inl (OverTheLimit (mandatory_bytes (usage kept) + growth) limit) \<and> ws = [] \<and> calls = []"
  using assms by (auto simp: add_item_def check_room_for_def Let_def)

lemma far_under_is_refused:
  assumes "add_item ae keeps ap it imported = (r, ws, calls)"
    and "item_of (ae_codecs ae) (ae_document ae) (it_id it) = Inr existing"
  shows "\<forall>by_member. ae_added ae = Inr by_member \<and> 0 < growth_of it existing \<and>
      standing_of (case bt_get (ms_members (ae_membership ae)) (ae_me ae) of None \<Rightarrow> 0 | Some m \<Rightarrow> rec_pledge m)
        (required_pledge (ms_settings (ae_membership ae))
          (sat_add (case bt_get by_member (ae_me ae) of None \<Rightarrow> 0 | Some n \<Rightarrow> n) (growth_of it existing))) = FarUnder \<longrightarrow>
    (\<exists>e. r = Inl e) \<and> ws = [] \<and> calls = []"
  using assms by (cases "check_room_for ae it") (auto simp: add_item_def requirement_of_def standing_def)


section \<open>Fulfilling a wish\<close>

text \<open>
  Fulfilling a wish keeps what this member said of it, and when: of the member's own entry only the status
  changes.
\<close>
lemma fulfilling_keeps_the_wish:
  assumes "wish_fulfill sy w i = Some (Inr a, ws)" and "known_wish_entries sy w = Inr entries"
    and "bt_get entries (sy_me sy) = Some wish"
  shows "\<exists>b. ws = [SetBytes (community_encode (co_texts (sy_codecs sy)) (WishKey w (sy_me sy))) b] \<and>
    to_vec (cj_wish (co_community (sy_codecs sy))) ((wish_fields_of wish)\<lparr>wf_status := Fulfilled i\<rparr>) = Some b \<and>
    length b \<le> WISH_MAX_BYTES"
proof -
  from assms have "write_wish_fields sy w ((wish_fields_of wish)\<lparr>wf_status := Fulfilled i\<rparr>) = Some (Inr a, ws)"
    by (auto simp: wish_fulfill_def Let_def split: sum.splits)
  then show ?thesis
    by (auto simp: write_wish_fields_def write_wish_def say_value_def written_def wish_new_def doc_put_def
        simp del: community_encode.simps split: option.splits if_splits sum.splits)
qed

section \<open>Concrete calls\<close>

definition import_of :: "string \<Rightarrow> string + content_hash \<times> u64" where
  "import_of path = (if path = ''y/b.txt'' then Inr (ContentHash 2, 5) else Inr (ContentHash 1, 3))"

theorem two_files_under_one_name_witness:
  "\<exists>it imported. item_from_files (\<lambda>_. 9) (hash_file (\<lambda>s. s) import_of) [''x/a.txt'', ''y/b.txt'', ''z/b.txt''] = Some (Inr (it, imported)) \<and>
    map_option fr_filename (bt_get (it_files it) (ContentHash 1)) = Some ''b.txt'' \<and>
    map_option fr_filename (bt_get (it_files it) (ContentHash 2)) = Some ''b.txt''"
  by (rule two_files_under_one_name) (simp_all add: import_of_def)

theorem added_files_are_told_apart_witness:
  "\<exists>it imported. item_from_files (\<lambda>_. 9) (hash_file (\<lambda>s. s) import_of) [''x/a.txt'', ''y/b.txt'', ''x/a.txt''] = Some (Inr (it, imported)) \<and>
    told_apart (it_files it) \<and> bt_len (it_files it) = 2"
proof -
  let ?paths = "[''x/a.txt'', ''y/b.txt'', ''x/a.txt'']"
  obtain it imported where run: "item_from_files (\<lambda>_. 9) (hash_file (\<lambda>s. s) import_of) ?paths = Some (Inr (it, imported))"
      and two: "bt_len (it_files it) = 2"
  proof -
    assume *: "\<And>it imported. item_from_files (\<lambda>_. 9) (hash_file (\<lambda>s. s) import_of) ?paths = Some (Inr (it, imported)) \<Longrightarrow>
        bt_len (it_files it) = 2 \<Longrightarrow> thesis"
    have "case item_from_files (\<lambda>_. 9) (hash_file (\<lambda>s. s) import_of) ?paths of Some (Inr (it, _)) \<Rightarrow> bt_len (it_files it) = 2 | _ \<Rightarrow> False"
      by code_simp
    then show thesis by (auto intro: * split: option.splits sum.splits prod.splits)
  qed
  have "one_name_each (hash_file (\<lambda>s. s) import_of) ?paths"
    by (auto simp: one_name_each_def hash_file_def import_of_def split: option.splits)
  from added_files_are_told_apart [OF run this] run two show ?thesis by blast
qed

text \<open>A document that holds the title of item 1 and nothing else.\<close>

definition titled_doc :: document where
  "titled_doc = \<lparr>dc_open = True,
     dc_latest = (\<lambda>_. Some [Some \<lparr>de_key = key_encode bit_hex (FieldKey (ItemId 1) Title), de_author = 2, de_timestamp = 10,
       de_hash = ContentHash 4, de_len = 1\<rparr>]),
     dc_all = (\<lambda>_. Some []), dc_one = (\<lambda>_. Some None), dc_status = (\<lambda>_. Some (Complete 1)),
     dc_bytes = (\<lambda>_. to_vec (js_text demo_json) ''Dune'')\<rparr>"

definition adding_codecs :: codecs where
  "adding_codecs = \<lparr>co_texts = demo_texts, co_item = demo_json, co_community = demo_community_json, co_on_curve = (\<lambda>_. True)\<rparr>"

definition adding :: add_env where
  "adding = \<lparr>ae_codecs = adding_codecs, ae_document = titled_doc, ae_fails = (\<lambda>_. False), ae_limit = None,
     ae_kept = Inl ''not asked'', ae_added = Inr bt_empty, ae_membership = (core_at [2] 5)\<lparr>ms_members := bt_insert (MemberId 2) (\<lparr>rec_id = MemberId 2, rec_name = ''ann'', rec_pledge = 1000, rec_protocol_max = 0\<rparr>) bt_empty\<rparr>, ae_me = MemberId 2\<rparr>"


lemma titled_doc_item: "\<exists>e. item_of adding_codecs titled_doc (ItemId 1) = Inr (Some e) \<and> it_files e = bt_empty \<and> it_title e = Some ''Dune''"
proof -
  have "key_parse bit_hex (key_encode bit_hex (FieldKey (ItemId 1) Title)) = Some (FieldKey (ItemId 1) Title)"
    using bit_hex_text by (rule key_reads_back)
  then show ?thesis
    by (simp add: item_of_def read_item_of_def read_file_authors_def read_community_entries_def over_answer_def titled_doc_def
        adding_codecs_def demo_texts_def fold_entry_def entry_content_def absorb_def take_value_def Let_def item_new_def
        values_by_member_def demo_json_def counted_json_def del: key_encode.simps)
qed

definition few_fields :: add_params where
  "few_fields = \<lparr>ap_kind = kinds ! 0, ap_title = Some ''dune'', ap_authors = [], ap_genres = [], ap_series = None, ap_year = None,
     ap_lang = None, ap_description = None\<rparr>"

lemma put_all_never_fails: "dc_open d \<Longrightarrow> \<exists>ws'. put_all (\<lambda>_. False) d es ws = (Inr (), ws')"
  by (induction es arbitrary: ws) (auto simp: doc_put_def and_then_def)

lemma adding_goes_through:
  assumes "item_of adding_codecs titled_doc (ItemId 1) = Inr (Some e)" and "it_files e = bt_empty"
  shows "\<exists>r ws. add_item adding (\<lambda>_. True) few_fields shared_item [(ContentHash 2, 7)] =
    (r, ws, [KeepOwn (ItemId 1) (ContentHash 2), RecheckHoldings (ItemId 1), MakeRoom (ItemId 1) [(ContentHash 2, 7)]])"
proof -
  have "\<exists>rq. requirement_of (ae_added adding) (ae_membership adding) (MemberId 2) 7 = Inr rq \<and> standing rq \<noteq> FarUnder"
  proof -
    have "case requirement_of (ae_added adding) (ae_membership adding) (MemberId 2) 7 of Inr rq \<Rightarrow> standing rq \<noteq> FarUnder | _ \<Rightarrow> False"
      by code_simp
    then show ?thesis by (auto split: sum.splits)
  qed
  moreover have "growth_of shared_item (Some e) = 7"
    using assms(2) by (simp add: growth_of_def shared_item_def item_new_def demo_file_def bt_insert.rep_eq bt_empty.rep_eq sat_add_def)
  moreover have "\<exists>ans ws. add_missing_files adding shared_item e [] = (Inr ans, ws)"
  proof -
    let ?it = "(item_new (it_id shared_item))\<lparr>it_files := missing_files shared_item e\<rparr>"
    have "dc_open titled_doc" by (simp add: titled_doc_def)
    from put_all_never_fails [OF this] obtain ws where
      "put_all (\<lambda>_. False) titled_doc (item_entries (tx_hex (co_texts adding_codecs)) (co_item adding_codecs) ?it) [] = (Inr (), ws)" by blast
    then show ?thesis by (simp add: add_missing_files_def adding_def write_item_def Let_def)
  qed
  ultimately show ?thesis
    using assms(1) by (auto simp: add_item_def check_room_for_def adding_def shared_item_def item_new_def split: prod.splits)
qed


end
