(* ===== verification/Said_And_Read.thy ===== *)
theory Said_And_Read
  imports Library_Methods Read_Model_Laws
begin

text \<open>
  What a member says through a call of the node, \<open>distlib-api/src/methods.rs\<close>, and what the readers of the
  group's document, \<open>crates/distlib-sync/src/catalogue.rs\<close>, then answer. Seen from its readers the document
  is a map with a cell for each thing a member can say; a call that goes through changes one cell, its own
  member's. iroh-docs is a parameter: what is relied on of writing and deleting is \<open>entered\<close>.
\<close>

section \<open>The cells of the document\<close>

datatype remark =
    Rated rating
  | Reviewed review
  | Marked bookmark
  | Wished wish
  | Commented comment

text \<open>What the readers answer for one cell, nothing if they fail.\<close>

definition answered :: "sync_error + 'a \<Rightarrow> ('a \<Rightarrow> 'b option) \<Rightarrow> 'b option" where
  "answered r f = (case r of Inl _ \<Rightarrow> None | Inr x \<Rightarrow> f x)"

fun told_at :: "codecs \<Rightarrow> document \<Rightarrow> community_key \<Rightarrow> remark option" where
  "told_at co d (RatingKey i m) = answered (doc_ratings (co_texts co) (co_community co) d i) (\<lambda>rs. map_option Rated (bt_get rs m))"
| "told_at co d (ReviewKey i m) = answered (doc_reviews (co_texts co) (co_community co) d i) (\<lambda>rs. map_option Reviewed (bt_get rs m))"
| "told_at co d (BookmarkKey i m b) = answered (read_bookmarks (co_texts co) (co_community co) d i)
     (\<lambda>r. map_option (\<lambda>x. Marked (rb_bookmark x)) (List.find (\<lambda>x. rb_member x = m \<and> rb_id x = b) (ib_bookmarks r)))"
| "told_at co d (WishKey w m) = answered (doc_wishes (co_texts co) (co_community co) d w) (\<lambda>ws. map_option Wished (bt_get ws m))"
| "told_at co d (WishCommentKey w m) = answered (doc_wish_comments (co_texts co) (co_community co) d w) (\<lambda>cs. map_option Commented (bt_get cs m))"
| "told_at co d (ProbeFailureKey c m) = None"

text \<open>A value as it is written and as it is read back at a key.\<close>

fun remark_bytes :: "community_json \<Rightarrow> remark \<Rightarrow> bytes option" where
  "remark_bytes cj (Rated r) = to_vec (cj_rating cj) (rating_get r)"
| "remark_bytes cj (Reviewed r) = to_vec (cj_text cj) (review_text r)"
| "remark_bytes cj (Marked m) = to_vec (cj_bookmark cj) (bm_position m, bm_note m, bm_created_at m)"
| "remark_bytes cj (Wished w) = to_vec (cj_wish cj) (wish_fields_of w)"
| "remark_bytes cj (Commented c) = to_vec (cj_text cj) (comment_text c)"

fun remark_at :: "community_json \<Rightarrow> community_key \<Rightarrow> bytes \<Rightarrow> remark option" where
  "remark_at cj (RatingKey _ _) b = map_option Rated (rating_decode cj b)"
| "remark_at cj (ReviewKey _ _) b = map_option Reviewed (review_decode cj b)"
| "remark_at cj (BookmarkKey _ _ _) b = map_option Marked (bookmark_decode cj b)"
| "remark_at cj (WishKey _ _) b = map_option Wished (read_wish_value cj b)"
| "remark_at cj (WishCommentKey _ _) b = map_option Commented (comment_decode cj b)"
| "remark_at cj (ProbeFailureKey _ _) b = None"

text \<open>The limits a value's constructor keeps.\<close>

fun remark_ok :: "community_json \<Rightarrow> remark \<Rightarrow> bool" where
  "remark_ok cj (Rated r) = rating_ok r"
| "remark_ok cj (Reviewed r) = review_ok r"
| "remark_ok cj (Marked m) = bookmark_ok m"
| "remark_ok cj (Wished w) = wish_ok cj w"
| "remark_ok cj (Commented c) = comment_ok c"

fun belongs :: "community_key \<Rightarrow> remark \<Rightarrow> bool" where
  "belongs (RatingKey _ _) (Rated _) = True"
| "belongs (ReviewKey _ _) (Reviewed _) = True"
| "belongs (BookmarkKey _ _ _) (Marked _) = True"
| "belongs (WishKey _ _) (Wished _) = True"
| "belongs (WishCommentKey _ _) (Commented _) = True"
| "belongs _ _ = False"

text \<open>What is relied on of JSON: a value that was encoded is read back.\<close>

definition reads_back :: "'v json \<Rightarrow> bool" where
  "reads_back js \<longleftrightarrow> (\<forall>v b. to_vec js v = Some b \<longrightarrow> from_slice js b = Some v)"

definition community_reads :: "community_json \<Rightarrow> bool" where
  "community_reads cj \<longleftrightarrow> reads_back (cj_rating cj) \<and> reads_back (cj_text cj) \<and> reads_back (cj_bookmark cj) \<and> reads_back (cj_wish cj)"

lemma remark_reads_back:
  assumes "community_reads cj" and "belongs k v" and "remark_ok cj v" and "remark_bytes cj v = Some b"
  shows "remark_at cj k b = Some v"
  using assms
  by (cases k; cases v)
    (auto simp: community_reads_def reads_back_def rating_decode_def review_decode_def bookmark_decode_def comment_decode_def
      read_wish_value_def wish_decode_def wish_new_def decode_by_def rating_try_from_def review_try_from_def comment_try_from_def
      bookmark_try_from_def bookmark_new_def capped_def rating_ok_def review_ok_def comment_ok_def bookmark_ok_def wish_ok_def)

section \<open>What is read is what the member's own entry holds\<close>

definition one_entry_each :: "doc_entry list \<Rightarrow> bool" where
  "one_entry_each E \<longleftrightarrow> distinct (map (\<lambda>e. (de_key e, de_author e)) E)"

definition own_entry :: "id_texts \<Rightarrow> community_key \<Rightarrow> doc_entry \<Rightarrow> bool" where
  "own_entry tx k e \<longleftrightarrow> de_key e = community_encode tx k \<and> de_author e = member_bytes (key_member k)"

definition cell :: "id_texts \<Rightarrow> (content_hash \<Rightarrow> bytes option) \<Rightarrow> doc_entry list \<Rightarrow> community_key \<Rightarrow> bytes option" where
  "cell tx c E k = Option.bind (List.find (own_entry tx k) E) (\<lambda>e. c (de_hash e))"

lemma one_entry_eachD:
  "one_entry_each E \<Longrightarrow> e \<in> set E \<Longrightarrow> e' \<in> set E \<Longrightarrow> de_key e = de_key e' \<Longrightarrow> de_author e = de_author e' \<Longrightarrow> e = e'"
  unfolding one_entry_each_def distinct_map inj_on_def by blast

lemma find_the_only:
  assumes "\<And>x y. x \<in> set xs \<Longrightarrow> y \<in> set xs \<Longrightarrow> P x \<Longrightarrow> P y \<Longrightarrow> x = y"
  shows "List.find P xs = Some x \<longleftrightarrow> x \<in> set xs \<and> P x"
  using assms by (induction xs) auto

lemma cell_Some:
  assumes "one_entry_each E"
  shows "cell tx c E k = Some b \<longleftrightarrow> (\<exists>e \<in> set E. own_entry tx k e \<and> c (de_hash e) = Some b)"
proof -
  have "List.find (own_entry tx k) E = Some e \<longleftrightarrow> e \<in> set E \<and> own_entry tx k e" for e
    using one_entry_eachD [OF assms] by (intro find_the_only) (simp add: own_entry_def)
  then show ?thesis by (auto simp: cell_def Option.bind_eq_Some_conv)
qed

text \<open>The entries counted under a prefix.\<close>

definition counted ::
    "id_texts \<Rightarrow> (content_hash \<Rightarrow> bytes option) \<Rightarrow> (bytes \<Rightarrow> 'v option) \<Rightarrow> doc_entry \<Rightarrow> 'v community_entry option" where
  "counted tx c decode e =
     (if \<not> by_its_member tx e then None
      else map_option (\<lambda>v. \<lparr>ce_key = the (community_parse tx (de_key e)), ce_value = v, ce_written = de_timestamp e\<rparr>)
        (Option.bind (c (de_hash e)) decode))"

lemma fold_all_counted:
  "cs_entries (fold_all (counted_in tx c decode) es s) = cs_entries s @ List.map_filter (counted tx c decode) es"
  by (induction es arbitrary: s)
    (auto simp: List.map_filter_simps counted_in_def counted_def split: option.splits)

lemma community_encode_eq: "texts_ok tx \<Longrightarrow> community_encode tx k = community_encode tx k' \<longleftrightarrow> k = k'"
  by (metis community_reads_back option.inject)

lemma counted_under:
  assumes "texts_ok tx"
  shows "x \<in> set (cs_entries (said_values tx c decode (said tx p E))) \<longleftrightarrow>
    (\<exists>e \<in> set E. own_entry tx (ce_key x) e \<and> starts_with p (community_encode tx (ce_key x)) \<and>
       Option.bind (c (de_hash e)) decode = Some (ce_value x) \<and> de_timestamp e = ce_written x)"
proof -
  have "starts_with p (de_key e) \<and> by_its_member tx e \<and> counted tx c decode e = Some x \<longleftrightarrow>
      own_entry tx (ce_key x) e \<and> starts_with p (community_encode tx (ce_key x)) \<and>
      Option.bind (c (de_hash e)) decode = Some (ce_value x) \<and> de_timestamp e = ce_written x" for e
  proof (cases "community_parse tx (de_key e)")
    case None
    then have "\<not> own_entry tx (ce_key x) e" using community_reads_back [OF assms, of "ce_key x"] by (auto simp: own_entry_def)
    then show ?thesis using None by (simp add: by_its_member_def)
  next
    case (Some k)
    have "own_entry tx (ce_key x) e \<longleftrightarrow> k = ce_key x \<and> de_author e = member_bytes (key_member k)"
      using parsed_is_encoded [OF Some] community_encode_eq [OF assms] by (auto simp: own_entry_def)
    then show ?thesis
      using Some parsed_is_encoded [OF Some] by (cases x) (auto simp: by_its_member_def counted_def)
  qed
  then show ?thesis
    by (auto simp: said_values_def fold_all_counted said_def List.map_filter_def image_iff) (metis option.sel)+
qed

text \<open>A map of members has their cells, where the keys under the prefix are one for each member.\<close>

lemma map_of_the_only:
  assumes "\<And>v v'. (k, v) \<in> set xs \<Longrightarrow> (k, v') \<in> set xs \<Longrightarrow> v = v'"
  shows "map_of xs k = Some v \<longleftrightarrow> (k, v) \<in> set xs"
  using assms by (induction xs) auto

lemma cells_by_member:
  assumes "texts_ok tx" and "one_entry_each E" and "\<And>m. key_member (K m) = m"
    and "\<And>k. starts_with p (community_encode tx k) \<longleftrightarrow> (\<exists>m. k = K m)"
  shows "bt_get (values_by_member (cs_entries (said_values tx c decode (said tx p E)))) m = Option.bind (cell tx c E (K m)) decode"
proof -
  let ?es = "cs_entries (said_values tx c decode (said tx p E))"
  have in_iff: "(m, v) \<in> set (map (\<lambda>e. (key_member (ce_key e), ce_value e)) ?es) \<longleftrightarrow> Option.bind (cell tx c E (K m)) decode = Some v" for v
  proof
    assume "(m, v) \<in> set (map (\<lambda>e. (key_member (ce_key e), ce_value e)) ?es)"
    then obtain x where x: "x \<in> set ?es" "m = key_member (ce_key x)" "v = ce_value x" by auto
    from x(1) obtain e where e: "e \<in> set E" "own_entry tx (ce_key x) e" "starts_with p (community_encode tx (ce_key x))"
        "Option.bind (c (de_hash e)) decode = Some (ce_value x)"
      unfolding counted_under [OF assms(1)] by blast
    from e(3) x(2) have k: "ce_key x = K m" unfolding assms(4) by (auto simp: assms(3))
    from e(4) obtain b where "c (de_hash e) = Some b" "decode b = Some v" using x(3) by (auto simp: Option.bind_eq_Some_conv)
    with e(1,2) have "cell tx c E (K m) = Some b" unfolding cell_Some [OF assms(2)] k by blast
    then show "Option.bind (cell tx c E (K m)) decode = Some v" using \<open>decode b = Some v\<close> by simp
  next
    assume "Option.bind (cell tx c E (K m)) decode = Some v"
    then obtain b where "cell tx c E (K m) = Some b" "decode b = Some v" by (auto simp: Option.bind_eq_Some_conv)
    with assms(2) obtain e where "e \<in> set E" "own_entry tx (K m) e" "c (de_hash e) = Some b" by (auto simp: cell_Some)
    with \<open>decode b = Some v\<close> have "\<lparr>ce_key = K m, ce_value = v, ce_written = de_timestamp e\<rparr> \<in> set ?es"
      unfolding counted_under [OF assms(1)] assms(4) by auto
    then have "(key_member (K m), v) \<in> set (map (\<lambda>e. (key_member (ce_key e), ce_value e)) ?es)" by force
    then show "(m, v) \<in> set (map (\<lambda>e. (key_member (ce_key e), ce_value e)) ?es)" by (simp only: assms(3))
  qed
  have "bt_get (values_by_member ?es) m = Some v \<longleftrightarrow> (m, v) \<in> set (map (\<lambda>e. (key_member (ce_key e), ce_value e)) ?es)" for v
    unfolding values_by_member_def bt_get_collect
    using in_iff by (subst map_of_the_only) (simp_all only: set_rev, metis option.inject)
  with in_iff show ?thesis by (metis not_Some_eq option.inject)
qed

lemma keys_under:
  assumes "texts_ok tx"
  shows "starts_with (ratings_of tx i) (community_encode tx k) \<longleftrightarrow> (\<exists>m. k = RatingKey i m)"
    and "starts_with (reviews_of tx i) (community_encode tx k) \<longleftrightarrow> (\<exists>m. k = ReviewKey i m)"
    and "starts_with (bookmarks_of tx i) (community_encode tx k) \<longleftrightarrow> (\<exists>m b. k = BookmarkKey i m b)"
    and "starts_with (wish_entries_of tx w) (community_encode tx k) \<longleftrightarrow> (\<exists>m. k = WishKey w m)"
    and "starts_with (comments_on tx w) (community_encode tx k) \<longleftrightarrow> (\<exists>m. k = WishCommentKey w m)"
  using community_under [OF assms community_reads_back [OF assms, of k]]
  by (auto simp: starts_with_iff ratings_of_def reviews_of_def bookmarks_of_def wish_entries_of_def comments_on_def)

lemma bookmark_cells:
  assumes "texts_ok tx" and "one_entry_each E"
  shows "answered (read_bookmarks tx cj (answering E L c) i)
      (\<lambda>r. map_option (\<lambda>x. Marked (rb_bookmark x)) (List.find (\<lambda>x. rb_member x = m \<and> rb_id x = b) (ib_bookmarks r))) =
    map_option Marked (Option.bind (cell tx c E (BookmarkKey i m b)) (bookmark_decode cj))"
proof -
  let ?es = "cs_entries (said_values tx c (bookmark_decode cj) (said tx (bookmarks_of tx i) E))"
  obtain r where r: "read_bookmarks tx cj (answering E L c) i = Inr r" and marks: "set (ib_bookmarks r) =
      {\<lparr>rb_member = n, rb_id = a, rb_bookmark = ce_value x, rb_last_modified = ce_written x\<rparr> | x j n a. x \<in> set ?es \<and> ce_key x = BookmarkKey j n a}"
    unfolding read_bookmarks_answering Let_def
    by (force simp: List.map_filter_def image_iff split: community_key.splits)
  let ?P = "\<lambda>x. rb_member x = m \<and> rb_id x = b"
  have mark_iff: "y \<in> set (ib_bookmarks r) \<and> ?P y \<longleftrightarrow>
      (\<exists>e \<in> set E. own_entry tx (BookmarkKey i m b) e \<and> Option.bind (c (de_hash e)) (bookmark_decode cj) = Some (rb_bookmark y) \<and>
        y = \<lparr>rb_member = m, rb_id = b, rb_bookmark = rb_bookmark y, rb_last_modified = de_timestamp e\<rparr>)" (is "?L \<longleftrightarrow> ?R") for y
  proof
    assume ?L
    then obtain x j where x: "x \<in> set ?es" "ce_key x = BookmarkKey j m b"
        "y = \<lparr>rb_member = m, rb_id = b, rb_bookmark = ce_value x, rb_last_modified = ce_written x\<rparr>" unfolding marks by auto
    with x(1) show ?R unfolding counted_under [OF assms(1)] keys_under [OF assms(1)] by auto
  next
    assume ?R
    then obtain e where e: "e \<in> set E" "own_entry tx (BookmarkKey i m b) e" "Option.bind (c (de_hash e)) (bookmark_decode cj) = Some (rb_bookmark y)"
        "y = \<lparr>rb_member = m, rb_id = b, rb_bookmark = rb_bookmark y, rb_last_modified = de_timestamp e\<rparr>" by blast
    let ?x = "\<lparr>ce_key = BookmarkKey i m b, ce_value = rb_bookmark y, ce_written = de_timestamp e\<rparr>"
    have "?x \<in> set ?es" unfolding counted_under [OF assms(1)] keys_under [OF assms(1)] using e(1-3) by auto
    then have "y \<in> set (ib_bookmarks r)" unfolding marks using e(4) by force
    then show ?L using e(4) by (metis read_bookmark.select_convs(1,2))
  qed
  have "List.find ?P (ib_bookmarks r) = Some y \<longleftrightarrow> y \<in> set (ib_bookmarks r) \<and> ?P y" for y
  proof (rule find_the_only)
    fix y z assume "y \<in> set (ib_bookmarks r)" "z \<in> set (ib_bookmarks r)" "?P y" "?P z"
    with mark_iff [of y] mark_iff [of z] one_entry_eachD [OF assms(2)] show "y = z"
      unfolding own_entry_def by (metis option.inject)
  qed
  with mark_iff have find_iff: "List.find ?P (ib_bookmarks r) = Some y \<longleftrightarrow>
      (\<exists>e \<in> set E. own_entry tx (BookmarkKey i m b) e \<and> Option.bind (c (de_hash e)) (bookmark_decode cj) = Some (rb_bookmark y) \<and>
        y = \<lparr>rb_member = m, rb_id = b, rb_bookmark = rb_bookmark y, rb_last_modified = de_timestamp e\<rparr>)" for y by blast
  have cell_iff: "Option.bind (cell tx c E (BookmarkKey i m b)) (bookmark_decode cj) = Some v \<longleftrightarrow>
      (\<exists>e \<in> set E. own_entry tx (BookmarkKey i m b) e \<and> Option.bind (c (de_hash e)) (bookmark_decode cj) = Some v)" for v
    unfolding Option.bind_eq_Some_conv cell_Some [OF assms(2)] by blast
  have "map_option rb_bookmark (List.find ?P (ib_bookmarks r)) = Some v \<longleftrightarrow>
      Option.bind (cell tx c E (BookmarkKey i m b)) (bookmark_decode cj) = Some v" for v
    unfolding map_option_eq_Some find_iff cell_iff by (metis read_bookmark.select_convs(3))
  then have "map_option rb_bookmark (List.find ?P (ib_bookmarks r)) = Option.bind (cell tx c E (BookmarkKey i m b)) (bookmark_decode cj)"
    by (metis not_Some_eq)
  then have "map_option Marked (map_option rb_bookmark (List.find ?P (ib_bookmarks r))) =
      map_option Marked (Option.bind (cell tx c E (BookmarkKey i m b)) (bookmark_decode cj))" by (rule arg_cong)
  then show ?thesis by (simp add: r answered_def option.map_comp comp_def)
qed

text \<open>The readers answer, for each cell, what the entry at its key by its own member holds.\<close>

lemma told_is_the_cell:
  assumes "texts_ok (co_texts co)" and "one_entry_each E"
  shows "told_at co (answering E L c) k = Option.bind (cell (co_texts co) c E k) (remark_at (co_community co) k)"
proof -
  note by_member = cells_by_member [OF assms]
  show ?thesis
  proof (cases k)
    case (RatingKey i m)
    have "bt_get (values_by_member (cs_entries (said_values (co_texts co) c (rating_decode (co_community co))
        (said (co_texts co) (ratings_of (co_texts co) i) E)))) m =
      Option.bind (cell (co_texts co) c E (RatingKey i m)) (rating_decode (co_community co))"
      by (rule by_member [OF _ keys_under(1) [OF assms(1)]]) simp
    then show ?thesis
      unfolding RatingKey by (cases "cell (co_texts co) c E (RatingKey i m)") (simp_all add: doc_ratings_def read_community_answering answered_def)
  next
    case (ReviewKey i m)
    have "bt_get (values_by_member (cs_entries (said_values (co_texts co) c (review_decode (co_community co))
        (said (co_texts co) (reviews_of (co_texts co) i) E)))) m =
      Option.bind (cell (co_texts co) c E (ReviewKey i m)) (review_decode (co_community co))"
      by (rule by_member [OF _ keys_under(2) [OF assms(1)]]) simp
    then show ?thesis
      unfolding ReviewKey by (cases "cell (co_texts co) c E (ReviewKey i m)") (simp_all add: doc_reviews_def read_community_answering answered_def)
  next
    case (BookmarkKey i m b)
    show ?thesis
      unfolding BookmarkKey told_at.simps bookmark_cells [OF assms]
      by (cases "cell (co_texts co) c E (BookmarkKey i m b)") simp_all
  next
    case (WishKey w m)
    have "bt_get (values_by_member (cs_entries (said_values (co_texts co) c (read_wish_value (co_community co))
        (said (co_texts co) (wish_entries_of (co_texts co) w) E)))) m =
      Option.bind (cell (co_texts co) c E (WishKey w m)) (read_wish_value (co_community co))"
      by (rule by_member [OF _ keys_under(4) [OF assms(1)]]) simp
    then show ?thesis
      unfolding WishKey by (cases "cell (co_texts co) c E (WishKey w m)") (simp_all add: doc_wishes_def read_community_answering answered_def)
  next
    case (WishCommentKey w m)
    have "bt_get (values_by_member (cs_entries (said_values (co_texts co) c (comment_decode (co_community co))
        (said (co_texts co) (comments_on (co_texts co) w) E)))) m =
      Option.bind (cell (co_texts co) c E (WishCommentKey w m)) (comment_decode (co_community co))"
      by (rule by_member [OF _ keys_under(5) [OF assms(1)]]) simp
    then show ?thesis
      unfolding WishCommentKey by (cases "cell (co_texts co) c E (WishCommentKey w m)") (simp_all add: doc_wish_comments_def read_community_answering answered_def)
  next
    case (ProbeFailureKey m n)
    then show ?thesis by (cases "cell (co_texts co) c E k") simp_all
  qed
qed

section \<open>A write changes one cell\<close>

text \<open>
  What is relied on of iroh-docs: after an author's write the document has the author's entry at that key,
  after a deletion it has none, the author's longer keys beneath it go with it, and everything else is as it
  was. \<open>hash\<close> is the content's hash.
\<close>

definition pruned :: "256 word \<Rightarrow> string \<Rightarrow> doc_entry list \<Rightarrow> doc_entry set" where
  "pruned author k E = {e \<in> set E. \<not> (de_author e = author \<and> starts_with k (de_key e))}"

fun entered :: "(bytes \<Rightarrow> content_hash) \<Rightarrow> 256 word \<Rightarrow> doc_write \<Rightarrow> doc_entry list \<Rightarrow> doc_entry list \<Rightarrow> bool" where
  "entered hash author (SetBytes k b) E E' \<longleftrightarrow> one_entry_each E' \<and>
     (\<exists>e. de_key e = k \<and> de_author e = author \<and> de_hash e = hash b \<and> set E' = insert e (pruned author k E))"
| "entered hash author (Del k) E E' \<longleftrightarrow> one_entry_each E' \<and> set E' = pruned author k E"

lemma own_entry_pruned:
  assumes "texts_ok tx" and "e \<in> set E" and "own_entry tx k' e" and "member_bytes (key_member k) = author"
  shows "e \<in> pruned author (community_encode tx k) E \<longleftrightarrow> k' \<noteq> k"
proof
  assume "e \<in> pruned author (community_encode tx k) E"
  then show "k' \<noteq> k" using assms(3,4) by (auto simp: pruned_def own_entry_def starts_with_def)
next
  assume "k' \<noteq> k"
  then have "\<not> starts_with (community_encode tx k) (de_key e)"
    using assms(3) community_not_a_prefix [OF assms(1), of k' k] by (auto simp: own_entry_def starts_with_iff)
  then show "e \<in> pruned author (community_encode tx k) E" using assms(2) by (simp add: pruned_def)
qed

lemma cell_pruned:
  assumes "texts_ok tx" and "one_entry_each E" and "member_bytes (key_member k) = author"
  shows "(\<exists>e \<in> pruned author (community_encode tx k) E. own_entry tx k' e \<and> c (de_hash e) = Some b) \<longleftrightarrow>
    k' \<noteq> k \<and> cell tx c E k' = Some b"
proof -
  have "e \<in> pruned author (community_encode tx k) E \<and> own_entry tx k' e \<longleftrightarrow> e \<in> set E \<and> own_entry tx k' e \<and> k' \<noteq> k" for e
    using own_entry_pruned [OF assms(1) _ _ assms(3), of e E k'] by (auto simp: pruned_def)
  then show ?thesis unfolding cell_Some [OF assms(2)] by blast
qed

lemma entered_cell:
  assumes "texts_ok tx" and "one_entry_each E" and "member_bytes (key_member k) = author"
    and "entered hash author w E E'"
  shows "w = SetBytes (community_encode tx k) b \<Longrightarrow> cell tx c E' = (cell tx c E)(k := c (hash b))"
    and "w = Del (community_encode tx k) \<Longrightarrow> cell tx c E' = (cell tx c E)(k := None)"
proof -
  have one: "one_entry_each E'" using assms(4) by (cases w) simp_all
  show "cell tx c E' = (cell tx c E)(k := c (hash b))" if w: "w = SetBytes (community_encode tx k) b"
  proof
    fix k'
    obtain e where e: "own_entry tx k e" "de_hash e = hash b" "set E' = insert e (pruned author (community_encode tx k) E)"
      using assms(3,4) w by (auto simp: own_entry_def)
    have "own_entry tx k' e \<longleftrightarrow> k' = k"
      using e(1) community_encode_eq [OF assms(1)] by (auto simp: own_entry_def)
    then have "cell tx c E' k' = Some d \<longleftrightarrow> ((cell tx c E)(k := c (hash b))) k' = Some d" for d
      unfolding cell_Some [OF one] e(3) bex_simps(5) cell_pruned [OF assms(1-3)] by (auto simp: e(2))
    then show "cell tx c E' k' = ((cell tx c E)(k := c (hash b))) k'" by (metis not_Some_eq)
  qed
  show "cell tx c E' = (cell tx c E)(k := None)" if w: "w = Del (community_encode tx k)"
  proof
    fix k'
    have "set E' = pruned author (community_encode tx k) E" using assms(4) w by simp
    then have "cell tx c E' k' = Some d \<longleftrightarrow> ((cell tx c E)(k := None)) k' = Some d" for d
      unfolding cell_Some [OF one] by (simp add: cell_pruned [OF assms(1-3)])
    then show "cell tx c E' k' = ((cell tx c E)(k := None)) k'" by (metis not_Some_eq)
  qed
qed

section \<open>What a call tells\<close>

text \<open>
  After the write \<open>w\<close> of this member, and with its bytes among the content that is here, the readers answer
  what they would have, except for the cell \<open>k\<close>, where they answer \<open>v\<close>.
\<close>

definition changes_cell ::
    "codecs \<Rightarrow> (bytes \<Rightarrow> content_hash) \<Rightarrow> member_id \<Rightarrow> doc_entry list \<Rightarrow> doc_write \<Rightarrow> community_key \<Rightarrow> remark option \<Rightarrow> bool" where
  "changes_cell co hash me E w k v \<longleftrightarrow>
     (\<forall>c E' L L'. entered hash (member_bytes me) w E E' \<and> (\<forall>key b. w = SetBytes key b \<longrightarrow> c (hash b) = Some b) \<longrightarrow>
        told_at co (answering E' L' c) = (told_at co (answering E L c))(k := v))"

text \<open>
  A call that goes through was allowed to and makes one write, which changes the cell \<open>k\<close> to \<open>v\<close>; one that
  fails makes none, and was not allowed to or failed in iroh-docs; it panics only over a value that does not encode.
\<close>

definition tells ::
    "saying \<Rightarrow> (bytes \<Rightarrow> content_hash) \<Rightarrow> doc_entry list \<Rightarrow> bool \<Rightarrow> community_key \<Rightarrow> remark option \<Rightarrow> 'a said_answer \<Rightarrow> bool" where
  "tells sy hash E allowed k v r \<longleftrightarrow>
     (case r of
        None \<Rightarrow> (\<exists>x. v = Some x \<and> remark_bytes (co_community (sy_codecs sy)) x = None)
      | Some (Inl _, ws) \<Rightarrow> ws = [] \<and> (allowed \<longrightarrow> sy_fails sy (community_encode (co_texts (sy_codecs sy)) k))
      | Some (Inr _, ws) \<Rightarrow> allowed \<and> (\<exists>w. ws = [w] \<and> changes_cell (sy_codecs sy) hash (sy_me sy) E w k v))"

definition saying_ok :: "saying \<Rightarrow> doc_entry list \<Rightarrow> bool" where
  "saying_ok sy E \<longleftrightarrow> texts_ok (co_texts (sy_codecs sy)) \<and> community_reads (co_community (sy_codecs sy)) \<and> one_entry_each E \<and>
     (\<exists>L c. sy_document sy = answering E L c)"

definition known_item :: "saying \<Rightarrow> item_id \<Rightarrow> bool" where
  "known_item sy i \<longleftrightarrow> (\<exists>it. item_of (sy_codecs sy) (sy_document sy) i = Inr (Some it))"

definition known_wish :: "saying \<Rightarrow> wish_id \<Rightarrow> bool" where
  "known_wish sy w \<longleftrightarrow> (\<exists>es. doc_wishes (co_texts (sy_codecs sy)) (co_community (sy_codecs sy)) (sy_document sy) w = Inr es \<and> resolve es \<noteq> None)"

lemma saying_open: "saying_ok sy E \<Longrightarrow> dc_open (sy_document sy)"
  by (auto simp: saying_ok_def answering_def)

lemma tells_refused: "\<not> allowed \<Longrightarrow> tells sy hash E allowed k v (Some (Inl e, []))"
  by (simp add: tells_def)

lemma told_after:
  assumes "saying_ok sy E" and "key_member k = sy_me sy" and "entered hash (member_bytes (sy_me sy)) w E E'"
  shows "w = SetBytes (community_encode (co_texts (sy_codecs sy)) k) b \<Longrightarrow>
      told_at (sy_codecs sy) (answering E' L' c) = (told_at (sy_codecs sy) (answering E L c))
        (k := Option.bind (c (hash b)) (remark_at (co_community (sy_codecs sy)) k))"
    and "w = Del (community_encode (co_texts (sy_codecs sy)) k) \<Longrightarrow>
      told_at (sy_codecs sy) (answering E' L' c) = (told_at (sy_codecs sy) (answering E L c))(k := None)"
proof -
  from assms(1) have ok: "texts_ok (co_texts (sy_codecs sy))" "one_entry_each E" by (simp_all add: saying_ok_def)
  have one: "one_entry_each E'" using assms(3) by (cases w) simp_all
  note cell = entered_cell [OF ok _ assms(3), of k]
  show "told_at (sy_codecs sy) (answering E' L' c) = (told_at (sy_codecs sy) (answering E L c))
        (k := Option.bind (c (hash b)) (remark_at (co_community (sy_codecs sy)) k))"
    if "w = SetBytes (community_encode (co_texts (sy_codecs sy)) k) b"
    using cell(1) [OF _ that] by (simp add: fun_eq_iff told_is_the_cell ok one assms(2))
  show "told_at (sy_codecs sy) (answering E' L' c) = (told_at (sy_codecs sy) (answering E L c))(k := None)"
    if "w = Del (community_encode (co_texts (sy_codecs sy)) k)"
    using cell(2) [OF _ that] by (simp add: fun_eq_iff told_is_the_cell ok one assms(2))
qed

lemma tells_says:
  assumes "saying_ok sy E" and "key_member k = sy_me sy" and "belongs k v" and "remark_ok (co_community (sy_codecs sy)) v"
    and "allowed"
  shows "tells sy hash E allowed k (Some v)
    (map_option (written a) (say_value (sy_fails sy) (sy_codecs sy) (sy_document sy) k (remark_bytes (co_community (sy_codecs sy)) v) []))"
proof (cases "remark_bytes (co_community (sy_codecs sy)) v")
  case (Some b)
  have reads: "remark_at (co_community (sy_codecs sy)) k b = Some v"
    using assms(1) by (intro remark_reads_back assms(3,4) Some) (simp add: saying_ok_def)
  have "changes_cell (sy_codecs sy) hash (sy_me sy) E (SetBytes (community_encode (co_texts (sy_codecs sy)) k) b) k (Some v)"
    unfolding changes_cell_def
  proof (intro allI impI, elim conjE)
    fix c E' L L'
    assume e: "entered hash (member_bytes (sy_me sy)) (SetBytes (community_encode (co_texts (sy_codecs sy)) k) b) E E'"
      and "\<forall>key b'. SetBytes (community_encode (co_texts (sy_codecs sy)) k) b = SetBytes key b' \<longrightarrow> c (hash b') = Some b'"
    then have "c (hash b) = Some b" by blast
    with reads show "told_at (sy_codecs sy) (answering E' L' c) = (told_at (sy_codecs sy) (answering E L c))(k := Some v)"
      using told_after(1) [OF assms(1,2) e refl, where c = c and L = L and L' = L'] by simp
  qed
  with saying_open [OF assms(1)] Some assms(5) show ?thesis
    by (simp add: tells_def say_value_def written_def doc_put_def)
qed (simp add: tells_def say_value_def)

lemma tells_deletes:
  assumes "saying_ok sy E" and "key_member k = sy_me sy" and "allowed"
  shows "tells sy hash E allowed k None
    (Some (written a (doc_delete (sy_fails sy) (sy_document sy) (community_encode (co_texts (sy_codecs sy)) k) [])))"
proof -
  have "changes_cell (sy_codecs sy) hash (sy_me sy) E (Del (community_encode (co_texts (sy_codecs sy)) k)) k None"
    using told_after(2) [OF assms(1,2) _ refl] unfolding changes_cell_def by blast
  with saying_open [OF assms(1)] assms(3) show ?thesis
    by (simp add: tells_def written_def doc_delete_def)
qed

lemma refuses_unknown: "known_item sy i \<longleftrightarrow> refuse_unknown_item sy i = Inr ()"
  by (auto simp: known_item_def refuse_unknown_item_def split: sum.splits option.splits)

lemma own_bookmark_told: "own_bookmark sy i b = Inr m \<longleftrightarrow> told_at (sy_codecs sy) (sy_document sy) (BookmarkKey i (sy_me sy) b) = Some (Marked m)"
  by (auto simp: own_bookmark_def answered_def split: sum.splits option.splits)

section \<open>The calls\<close>

lemma rating_told:
  assumes "saying_ok sy E" and "\<forall>r. rated = Some r \<longrightarrow> rating_ok r"
  shows "tells sy hash E (known_item sy i) (RatingKey i (sy_me sy)) (map_option Rated rated) (rate_item sy i rated)"
proof (cases "known_item sy i")
  case True
  then have "refuse_unknown_item sy i = Inr ()" by (simp add: refuses_unknown)
  moreover have "tells sy hash E True (RatingKey i (sy_me sy)) (Some (Rated r))
      (map_option (written i) (rate (sy_fails sy) (sy_codecs sy) (sy_document sy) (sy_me sy) i r []))" if "rated = Some r" for r
    using tells_says [OF assms(1), of "RatingKey i (sy_me sy)" "Rated r" True] assms(2) that by (simp add: rate_def)
  moreover have "tells sy hash E True (RatingKey i (sy_me sy)) None
      (Some (written i (clear_rating (sy_fails sy) (sy_codecs sy) (sy_document sy) (sy_me sy) i [])))"
    using tells_deletes [OF assms(1), of "RatingKey i (sy_me sy)" True] by (simp add: clear_rating_def)
  ultimately show ?thesis using True by (simp add: rate_item_def split: option.split)
qed (auto simp: rate_item_def refuses_unknown intro: tells_refused split: sum.splits)

lemma review_told:
  assumes "saying_ok sy E" and "\<forall>r. reviewed = Some r \<longrightarrow> review_ok r"
  shows "tells sy hash E (known_item sy i) (ReviewKey i (sy_me sy)) (map_option Reviewed reviewed) (review_method sy i reviewed)"
proof (cases "known_item sy i")
  case True
  then have "refuse_unknown_item sy i = Inr ()" by (simp add: refuses_unknown)
  moreover have "tells sy hash E True (ReviewKey i (sy_me sy)) (Some (Reviewed r))
      (map_option (written i) (review_item (sy_fails sy) (sy_codecs sy) (sy_document sy) (sy_me sy) i r []))" if "reviewed = Some r" for r
    using tells_says [OF assms(1), of "ReviewKey i (sy_me sy)" "Reviewed r" True] assms(2) that by (simp add: review_item_def)
  moreover have "tells sy hash E True (ReviewKey i (sy_me sy)) None
      (Some (written i (clear_review (sy_fails sy) (sy_codecs sy) (sy_document sy) (sy_me sy) i [])))"
    using tells_deletes [OF assms(1), of "ReviewKey i (sy_me sy)" True] by (simp add: clear_review_def)
  ultimately show ?thesis using True by (simp add: review_method_def split: option.split)
qed (auto simp: review_method_def refuses_unknown intro: tells_refused split: sum.splits)

lemma known_wish_told:
  "known_wish sy w \<longleftrightarrow> (\<exists>es. known_wish_entries sy w = Inr es)"
  "known_wish_entries sy w = Inr es \<Longrightarrow> told_at (sy_codecs sy) (sy_document sy) (WishKey w m) = map_option Wished (bt_get es m)"
  by (auto simp: known_wish_def known_wish_entries_def answered_def split: sum.splits option.splits)

lemma comment_told:
  assumes "saying_ok sy E" and "\<forall>c. commented = Some c \<longrightarrow> comment_ok c"
  shows "tells sy hash E (known_wish sy w) (WishCommentKey w (sy_me sy)) (map_option Commented commented) (wish_comment_method sy w commented)"
proof (cases "known_wish sy w")
  case True
  then obtain es where "known_wish_entries sy w = Inr es" by (auto simp: known_wish_told)
  moreover have "tells sy hash E True (WishCommentKey w (sy_me sy)) (Some (Commented r))
      (map_option (written w) (wish_comment (sy_fails sy) (sy_codecs sy) (sy_document sy) (sy_me sy) w r []))" if "commented = Some r" for r
    using tells_says [OF assms(1), of "WishCommentKey w (sy_me sy)" "Commented r" True] assms(2) that by (simp add: wish_comment_def)
  moreover have "tells sy hash E True (WishCommentKey w (sy_me sy)) None
      (Some (written w (clear_wish_comment (sy_fails sy) (sy_codecs sy) (sy_document sy) (sy_me sy) w [])))"
    using tells_deletes [OF assms(1), of "WishCommentKey w (sy_me sy)" True] by (simp add: clear_wish_comment_def)
  ultimately show ?thesis using True by (simp add: wish_comment_method_def split: option.split)
qed (auto simp: wish_comment_method_def known_wish_told(1) intro: tells_refused split: sum.splits)

lemma bookmark_written_told:
  assumes "saying_ok sy E"
  shows "tells sy hash E (bookmark_ok \<lparr>bm_position = place, bm_note = note, bm_created_at = t\<rparr>) (BookmarkKey i (sy_me sy) b)
      (Some (Marked \<lparr>bm_position = place, bm_note = note, bm_created_at = t\<rparr>))
    (case bookmark_new place note t of
       Inl e \<Rightarrow> Some (Inl (TooLong e), [])
     | Inr mark \<Rightarrow> map_option (written (i, b)) (bookmark_item (sy_fails sy) (sy_codecs sy) (sy_document sy) (sy_me sy) i b mark []))"
proof (cases "bookmark_ok \<lparr>bm_position = place, bm_note = note, bm_created_at = t\<rparr>")
  case True
  then have "bookmark_new place note t = Inr \<lparr>bm_position = place, bm_note = note, bm_created_at = t\<rparr>"
    by (simp add: bookmark_new_def capped_def bookmark_ok_def)
  then show ?thesis
    using tells_says [OF assms, of "BookmarkKey i (sy_me sy) b" "Marked \<lparr>bm_position = place, bm_note = note, bm_created_at = t\<rparr>" True] True
    by (simp add: bookmark_item_def)
next
  case False
  then have "\<exists>e. bookmark_new place note t = Inl e"
    by (auto simp: bookmark_new_def capped_def bookmark_ok_def)
  then obtain e where "bookmark_new place note t = Inl e" by blast
  with False show ?thesis by (simp add: tells_refused)
qed

lemma bookmark_told:
  assumes "saying_ok sy E"
  shows "tells sy hash E (known_item sy i \<and> bookmark_ok \<lparr>bm_position = place, bm_note = note, bm_created_at = sy_now sy\<rparr>)
      (BookmarkKey i (sy_me sy) b) (Some (Marked \<lparr>bm_position = place, bm_note = note, bm_created_at = sy_now sy\<rparr>))
      (bookmark_method sy (Some b) i None place note)"
    and "told_at (sy_codecs sy) (sy_document sy) (BookmarkKey i (sy_me sy) b) = Some (Marked old) \<Longrightarrow>
      tells sy hash E (known_item sy i \<and> bookmark_ok (old\<lparr>bm_position := place, bm_note := note\<rparr>))
        (BookmarkKey i (sy_me sy) b) (Some (Marked (old\<lparr>bm_position := place, bm_note := note\<rparr>)))
        (bookmark_method sy random i (Some b) place note)"
    and "told_at (sy_codecs sy) (sy_document sy) (BookmarkKey i (sy_me sy) b) = None \<Longrightarrow>
      \<exists>e. bookmark_method sy random i (Some b) place note = Some (Inl e, [])"
proof -
  note marked = bookmark_written_told [OF assms, of hash place "note"]
  have unknown: "\<exists>e. refuse_unknown_item sy i = Inl e" if "\<not> known_item sy i"
    using that by (cases "refuse_unknown_item sy i") (auto simp: refuses_unknown)
  show "tells sy hash E (known_item sy i \<and> bookmark_ok \<lparr>bm_position = place, bm_note = note, bm_created_at = sy_now sy\<rparr>)
      (BookmarkKey i (sy_me sy) b) (Some (Marked \<lparr>bm_position = place, bm_note = note, bm_created_at = sy_now sy\<rparr>))
      (bookmark_method sy (Some b) i None place note)"
    using marked [of "sy_now sy" i b] unknown
    by (cases "known_item sy i") (auto simp: bookmark_method_def refuses_unknown tells_refused)
  show "tells sy hash E (known_item sy i \<and> bookmark_ok (old\<lparr>bm_position := place, bm_note := note\<rparr>))
        (BookmarkKey i (sy_me sy) b) (Some (Marked (old\<lparr>bm_position := place, bm_note := note\<rparr>)))
        (bookmark_method sy random i (Some b) place note)"
    if "told_at (sy_codecs sy) (sy_document sy) (BookmarkKey i (sy_me sy) b) = Some (Marked old)"
  proof -
    have own: "own_bookmark sy i b = Inr old" using that by (simp only: own_bookmark_told)
    have new: "old\<lparr>bm_position := place, bm_note := note\<rparr> = \<lparr>bm_position = place, bm_note = note, bm_created_at = bm_created_at old\<rparr>" by simp
    show ?thesis
      unfolding new using own marked [of "bm_created_at old" i b] unknown
      by (cases "known_item sy i") (auto simp: bookmark_method_def refuses_unknown tells_refused)
  qed
  show "\<exists>e. bookmark_method sy random i (Some b) place note = Some (Inl e, [])"
    if "told_at (sy_codecs sy) (sy_document sy) (BookmarkKey i (sy_me sy) b) = None"
  proof -
    have "own_bookmark sy i b \<noteq> Inr m" for m using that by (simp only: own_bookmark_told) simp
    then obtain e where "own_bookmark sy i b = Inl e" by (cases "own_bookmark sy i b") auto
    then show ?thesis by (cases "refuse_unknown_item sy i") (simp_all add: bookmark_method_def)
  qed
qed

lemma bookmark_delete_told:
  assumes "saying_ok sy E"
  shows "tells sy hash E (told_at (sy_codecs sy) (sy_document sy) (BookmarkKey i (sy_me sy) b) \<noteq> None)
    (BookmarkKey i (sy_me sy) b) None (bookmark_delete sy i b)"
proof (cases "own_bookmark sy i b")
  case (Inl e)
  then have "told_at (sy_codecs sy) (sy_document sy) (BookmarkKey i (sy_me sy) b) = None"
    by (auto simp: own_bookmark_def answered_def split: sum.splits option.splits)
  with Inl show ?thesis by (simp add: bookmark_delete_def tells_refused)
next
  case (Inr m)
  then have "told_at (sy_codecs sy) (sy_document sy) (BookmarkKey i (sy_me sy) b) = Some (Marked m)" by (simp only: own_bookmark_told)
  with Inr show ?thesis
    using tells_deletes [OF assms, of "BookmarkKey i (sy_me sy) b" True] by (simp add: bookmark_delete_def delete_bookmark_def)
qed

lemma wish_written_told:
  assumes "saying_ok sy E"
  shows "tells sy hash E (wish_ok (co_community (sy_codecs sy)) (Wish f)) (WishKey w (sy_me sy)) (Some (Wished (Wish f)))
    (write_wish_fields sy w f)"
proof (cases "to_vec (cj_wish (co_community (sy_codecs sy))) f")
  case None
  then show ?thesis by (simp add: tells_def write_wish_fields_def wish_new_def)
next
  case (Some b)
  show ?thesis
  proof (cases "length b \<le> WISH_MAX_BYTES")
    case True
    with Some have "wish_ok (co_community (sy_codecs sy)) (Wish f)" by (simp add: wish_ok_def)
    with True Some show ?thesis
      using tells_says [OF assms, of "WishKey w (sy_me sy)" "Wished (Wish f)" True]
      by (simp add: write_wish_fields_def wish_new_def write_wish_def)
  next
    case False
    with Some show ?thesis by (simp add: write_wish_fields_def wish_new_def wish_ok_def tells_refused)
  qed
qed

definition wished_new :: "saying \<Rightarrow> item_kind option \<Rightarrow> string \<Rightarrow> string list \<Rightarrow> string option \<Rightarrow> wish" where
  "wished_new sy kind title authors description =
     Wish \<lparr>wf_kind = kind, wf_title = Some title, wf_authors = (if authors = [] then None else Some authors),
       wf_description = description, wf_created_at = Some (sy_now sy), wf_status = Open\<rparr>"

lemma wish_told:
  assumes "saying_ok sy E"
  shows "tells sy hash E (trim title \<noteq> [] \<and> wish_ok (co_community (sy_codecs sy)) (wished_new sy kind title authors description))
    (WishKey w (sy_me sy)) (Some (Wished (wished_new sy kind title authors description)))
    (wish_create sy (Some w) kind title authors description)"
proof (cases "trim title = []")
  case False
  then show ?thesis
    using wish_written_told [OF assms, of hash "wish_fields_of (wished_new sy kind title authors description)" w]
    by (simp add: wish_create_def wished_new_def)
qed (simp add: wish_create_def tells_refused)

text \<open>What this member is read to have wished, or a wish of its own without a title, with the wish fulfilled.\<close>

definition fulfilling :: "saying \<Rightarrow> wish_id \<Rightarrow> item_id \<Rightarrow> wish" where
  "fulfilling sy w i =
     Wish ((case told_at (sy_codecs sy) (sy_document sy) (WishKey w (sy_me sy)) of
        Some (Wished wish) \<Rightarrow> wish_fields_of wish
      | _ \<Rightarrow> \<lparr>wf_kind = None, wf_title = None, wf_authors = None, wf_description = None,
               wf_created_at = Some (sy_now sy), wf_status = Open\<rparr>)\<lparr>wf_status := Fulfilled i\<rparr>)"

lemma fulfill_told:
  assumes "saying_ok sy E"
  shows "tells sy hash E (known_wish sy w \<and> known_item sy i \<and> wish_ok (co_community (sy_codecs sy)) (fulfilling sy w i))
    (WishKey w (sy_me sy)) (Some (Wished (fulfilling sy w i))) (wish_fulfill sy w i)"
proof (cases "known_wish sy w \<and> known_item sy i")
  case True
  then obtain es where es: "known_wish_entries sy w = Inr es" and item: "refuse_unknown_item sy i = Inr ()"
    by (auto simp: known_wish_told(1) refuses_unknown)
  have "wish_fulfill sy w i = write_wish_fields sy w (wish_fields_of (fulfilling sy w i))"
    unfolding wish_fulfill_def fulfilling_def known_wish_told(2) [OF es]
    by (cases "bt_get es (sy_me sy)") (simp_all add: es item)
  then show ?thesis
    using wish_written_told [OF assms, of hash "wish_fields_of (fulfilling sy w i)" w] True by simp
next
  case False
  then obtain e where "wish_fulfill sy w i = Some (Inl e, [])"
    by (cases "known_wish_entries sy w"; cases "refuse_unknown_item sy i")
      (auto simp: known_wish_told(1) refuses_unknown wish_fulfill_def)
  with False show ?thesis by (auto intro: tells_refused)
qed

text \<open>
  C39. What a member says through a call is what every reader of the document then answers for that member,
  and nobody else's words change. Rating, reviewing, bookmarking, wishing, commenting and fulfilling each
  require what they speak about: an item or a wish that is here, or the member's own bookmark. A call that
  goes through changes one cell of what the readers answer, this member's about that item or wish, to the
  value given, or clears it; editing a bookmark keeps when it was made, and fulfilling a wish keeps what this
  member wished. A call that is refused, or that iroh-docs fails, writes nothing. Relied on are identifiers
  that read back, JSON that reads back, values within their limits, a document that answers, and what
  iroh-docs does with an author's write and deletion.
\<close>
theorem what_is_said_is_read:
  assumes "saying_ok sy E"
    and "\<forall>r. rated = Some r \<longrightarrow> rating_ok r" and "\<forall>r. reviewed = Some r \<longrightarrow> review_ok r" and "\<forall>r. commented = Some r \<longrightarrow> comment_ok r"
  shows
    "tells sy hash E (known_item sy i) (RatingKey i (sy_me sy)) (map_option Rated rated) (rate_item sy i rated) \<and>
     tells sy hash E (known_item sy i) (ReviewKey i (sy_me sy)) (map_option Reviewed reviewed) (review_method sy i reviewed) \<and>
     tells sy hash E (known_item sy i \<and> bookmark_ok \<lparr>bm_position = place, bm_note = note, bm_created_at = sy_now sy\<rparr>)
       (BookmarkKey i (sy_me sy) b) (Some (Marked \<lparr>bm_position = place, bm_note = note, bm_created_at = sy_now sy\<rparr>))
       (bookmark_method sy (Some b) i None place note) \<and>
     (\<forall>old. told_at (sy_codecs sy) (sy_document sy) (BookmarkKey i (sy_me sy) b) = Some (Marked old) \<longrightarrow>
       tells sy hash E (known_item sy i \<and> bookmark_ok (old\<lparr>bm_position := place, bm_note := note\<rparr>))
         (BookmarkKey i (sy_me sy) b) (Some (Marked (old\<lparr>bm_position := place, bm_note := note\<rparr>)))
         (bookmark_method sy random i (Some b) place note)) \<and>
     (told_at (sy_codecs sy) (sy_document sy) (BookmarkKey i (sy_me sy) b) = None \<longrightarrow>
       (\<exists>e. bookmark_method sy random i (Some b) place note = Some (Inl e, []))) \<and>
     tells sy hash E (told_at (sy_codecs sy) (sy_document sy) (BookmarkKey i (sy_me sy) b) \<noteq> None)
       (BookmarkKey i (sy_me sy) b) None (bookmark_delete sy i b) \<and>
     tells sy hash E (trim title \<noteq> [] \<and> wish_ok (co_community (sy_codecs sy)) (wished_new sy kind title authors description))
       (WishKey w (sy_me sy)) (Some (Wished (wished_new sy kind title authors description)))
       (wish_create sy (Some w) kind title authors description) \<and>
     tells sy hash E (known_wish sy w) (WishCommentKey w (sy_me sy)) (map_option Commented commented) (wish_comment_method sy w commented) \<and>
     tells sy hash E (known_wish sy w \<and> known_item sy i \<and> wish_ok (co_community (sy_codecs sy)) (fulfilling sy w i))
       (WishKey w (sy_me sy)) (Some (Wished (fulfilling sy w i))) (wish_fulfill sy w i)"
  by (intro conjI allI impI rating_told [OF assms(1,2)] review_told [OF assms(1,3)] bookmark_told [OF assms(1)]
      bookmark_delete_told [OF assms(1)] wish_told [OF assms(1)] comment_told [OF assms(1,4)] fulfill_told [OF assms(1)])

section \<open>Two members rate an item\<close>

text \<open>Member 3 has rated item 1, of which the document holds the title; now member 2 rates it.\<close>

definition byte_hash :: "bytes \<Rightarrow> content_hash" where
  "byte_hash b = (case b of [n] \<Rightarrow> ContentHash (100 + ucast n) | _ \<Rightarrow> ContentHash 0)"

definition entry_of :: "string \<Rightarrow> 256 word \<Rightarrow> content_hash \<Rightarrow> doc_entry" where
  "entry_of k author h = \<lparr>de_key = k, de_author = author, de_timestamp = 10, de_hash = h, de_len = 1\<rparr>"

definition rated_by :: "256 word \<Rightarrow> u8 \<Rightarrow> doc_entry" where
  "rated_by m n = entry_of (community_encode demo_texts (RatingKey (ItemId 1) (MemberId m))) m (byte_hash [n])"

definition title_of_one :: "doc_entry list" where
  "title_of_one = [entry_of (key_encode bit_hex (FieldKey (ItemId 1) Title)) 3 (ContentHash 7)]"

definition content_here :: "content_hash \<Rightarrow> bytes option" where
  "content_here = [ContentHash 7 \<mapsto> the (to_vec (js_text demo_json) ''Dune''), ContentHash 103 \<mapsto> [3], ContentHash 104 \<mapsto> [4]]"

definition rating_member :: saying where
  "rating_member = \<lparr>sy_codecs = rating_codecs, sy_document = answering [rated_by 3 3] title_of_one content_here,
     sy_fails = (\<lambda>_. False), sy_me = MemberId 2, sy_now = 20\<rparr>"

lemma demo_community_reads: "community_reads demo_community_json"
  by (auto simp: community_reads_def reads_back_def demo_community_json_def number_json_def counted_json_def)

lemma rating_member_ok: "saying_ok rating_member [rated_by 3 3]"
  using demo_texts_ok demo_community_reads
  by (auto simp: saying_ok_def rating_member_def rating_codecs_def one_entry_each_def)

lemma rating_member_knows: "known_item rating_member (ItemId 1)"
proof -
  have "read_item_of rating_codecs (answering [rated_by 3 3] title_of_one content_here) (ItemId 1) \<noteq> Inr None"
    unfolding read_item_answering
    by (simp add: seen_item_def item_entries_in_def title_of_one_def entry_of_def starts_with_iff rating_codecs_def demo_texts_def
        prefix_of_def ITEMS_def Let_def)
  moreover obtain x where "read_item_of rating_codecs (answering [rated_by 3 3] title_of_one content_here) (ItemId 1) = Inr x"
    unfolding read_item_answering Let_def by (auto split: if_splits)
  ultimately show ?thesis by (auto simp: known_item_def rating_member_def item_of_def)
qed

theorem what_is_said_is_read_witness:
  "\<exists>w. rate_item rating_member (ItemId 1) (Some (Rating 4)) = Some (Inr (ItemId 1), [w]) \<and>
     entered byte_hash 2 w [rated_by 3 3] [rated_by 3 3, rated_by 2 4] \<and>
     told_at rating_codecs (answering [rated_by 3 3, rated_by 2 4] [] content_here) (RatingKey (ItemId 1) (MemberId 2)) = Some (Rated (Rating 4)) \<and>
     told_at rating_codecs (answering [rated_by 3 3, rated_by 2 4] [] content_here) (RatingKey (ItemId 1) (MemberId 3)) = Some (Rated (Rating 3))"
proof -
  let ?k = "RatingKey (ItemId 1) (MemberId 2)"
  let ?w = "SetBytes (community_encode demo_texts ?k) [4]"
  have run: "rate_item rating_member (ItemId 1) (Some (Rating 4)) = Some (Inr (ItemId 1), [?w])"
    using rating_member_knows
    by (simp add: refuses_unknown rate_item_def rate_def say_value_def doc_put_def written_def rating_member_def rating_codecs_def
        demo_community_json_def number_json_def answering_def del: community_encode.simps)
  have entered: "entered byte_hash 2 ?w [rated_by 3 3] [rated_by 3 3, rated_by 2 4]"
    unfolding entered.simps
  proof (intro conjI exI [of _ "rated_by 2 4"])
    show "set [rated_by 3 3, rated_by 2 4] = insert (rated_by 2 4) (pruned 2 (community_encode demo_texts ?k) [rated_by 3 3])"
      by (auto simp: rated_by_def entry_of_def pruned_def simp del: community_encode.simps)
  qed (simp_all add: one_entry_each_def rated_by_def entry_of_def del: community_encode.simps)
  have "tells rating_member byte_hash [rated_by 3 3] (known_item rating_member (ItemId 1)) ?k (Some (Rated (Rating 4)))
      (rate_item rating_member (ItemId 1) (Some (Rating 4)))"
    using what_is_said_is_read [OF rating_member_ok, of "Some (Rating 4)" None None byte_hash "ItemId 1"]
    by (simp add: rating_ok_def rating_member_def)
  then have "changes_cell rating_codecs byte_hash (MemberId 2) [rated_by 3 3] ?w ?k (Some (Rated (Rating 4)))"
    by (simp add: tells_def run) (simp add: rating_member_def)
  then have after: "told_at rating_codecs (answering [rated_by 3 3, rated_by 2 4] [] content_here) =
      (told_at rating_codecs (answering [rated_by 3 3] [] content_here))(?k := Some (Rated (Rating 4)))"
    unfolding changes_cell_def using entered by (simp add: content_here_def byte_hash_def)
  have "told_at rating_codecs (answering [rated_by 3 3] [] content_here) (RatingKey (ItemId 1) (MemberId 3)) = Some (Rated (Rating 3))"
    using told_is_the_cell [of rating_codecs "[rated_by 3 3]" "[]" content_here "RatingKey (ItemId 1) (MemberId 3)"] demo_texts_ok
    by (simp add: rating_codecs_def one_entry_each_def cell_def own_entry_def rated_by_def entry_of_def content_here_def byte_hash_def
        demo_community_json_def number_json_def rating_decode_def decode_by_def rating_try_from_def del: community_encode.simps told_at.simps)
  with after run entered show ?thesis by (simp del: told_at.simps community_encode.simps entered.simps)
qed

end
