(* ===== verification/Spec2Isabelle.thy ===== *)
theory Spec2Isabelle
  imports Membership_Log Storage Custody_View Probe_Failures Emergency Pins Following Core_Group Pacing Admission
    Read_Model_Laws Availability Catalogue_Sync Probes Proposing Enforcement Library_Download Said_And_Read
begin

text \<open>
  \<^bold>\<open>A verification development for distlib\<close>

  distlib is a Rust program by which a closed group of people keeps a shared library without a
  server. Who belongs to the group is a log of signed events that a core group agrees on by Raft;
  what the library holds is a catalogue that members replicate; and who keeps a copy of which item
  follows from the members' pledges alone, by rendezvous hashing. Each node then fetches what it is
  a custodian of, within its storage limit, watches over the copies of others, and lets go of what
  it need no longer keep. This development models the decisions of that program, the parts that
  need no network: the fold of the membership log, how the log is stored, applied, followed and put
  into effect, who may connect, the placement of copies, and the state machines that keep them.

  \<^bold>\<open>The theories\<close>

  \<^item> \<open>Prelude\<close>: words of the machine's widths with saturating arithmetic, the shape of a fallible
    method that mutates its receiver (its verdict with the state it leaves, also when it refuses),
    and facts on lists.
  \<^item> \<open>BTree_Map\<close>: ordered maps and sets, as an abstract type of strictly sorted entries. Clients use
    them through the locale \<open>ordered_map\<close>, interpreted on the type. Hash maps are modelled by the
    same type where nothing depends on the order they are walked in.
  \<^item> \<open>Std_Slices\<close>: binary search, removal of duplicates and selection on slices. The locale
    \<open>selection\<close> has what the standard library promises of a selection, without the order it leaves;
    partitioning around a pivot interprets it.
  \<^item> \<open>Float64\<close>: 64-bit floating point on the bits, rounding to nearest even.
  \<^item> \<open>Ids\<close> (\<open>distlib-core/src/id.rs\<close>, \<open>addr.rs\<close>): identifiers, item fingerprints and addresses.
  \<^item> \<open>Group_Settings\<close> (\<open>group_settings.rs\<close>): the settings of a group, weights and pledges.
  \<^item> \<open>Membership_Event\<close> (\<open>distlib-consensus/src/event.rs\<close>, \<open>signed.rs\<close>, \<open>error.rs\<close>): events,
    their limits, the identity of a group and the signing envelope.
  \<^item> \<open>Membership_State\<close> (\<open>state.rs\<close>): the fold of the log, one definition for each method.
    \<open>Membership_Laws\<close> shows that a refused entry changes nothing and that every entry keeps the
    invariant; \<open>Membership_Log\<close> adds reachability by entries of a log and the safety properties over
    it: the core group is made of members that speak the protocol, one proposal waits about one
    subject, voters change only by a majority, membership is closed, a pledge is one's own, an entry
    is never applied twice.
  \<^item> \<open>Raft_Log\<close> (\<open>raft/db.rs\<close>, \<open>log_store.rs\<close>): the log on disk, with a disk that may fail at each call;
    what it advertises to openraft has no hole. \<open>Raft_State\<close> (\<open>raft/state_machine.rs\<close>): the state in
    memory, its tables and its observers, as a step relation over everything openraft and the node
    call; observers are told nothing that a crash could take back, and a snapshot never goes back.
  \<^item> \<open>Directory\<close> (\<open>signed_addr.rs\<close>, \<open>addr.rs\<close>, \<open>distlib-net/src/directory.rs\<close>, \<open>addresses.rs\<close>): signed
    addresses and which of them is held; nodes that hear the same statements dial the same.
  \<^item> \<open>Memberlog\<close> (\<open>raft/memberlog.rs\<close>, \<open>seat.rs\<close>): what a core node answers and what is made of it.
    \<open>Following\<close> (\<open>raft/follower.rs\<close>) joins it to the log and the state machine: a follower catches up
    with a leader, a search along referrals asks nobody twice and ends, and a page that cannot be stored is
    lost for a while.
  \<^item> \<open>Core_Group\<close> (\<open>raft/core_group.rs\<close>): how the voters are made to match the log's core group, and
    that they end up doing so. \<open>Gossip\<close> (\<open>gossip.rs\<close>): what nodes announce to each other, which dies
    out while every address in the air is a member's present one.
  \<^item> \<open>Raft_Network\<close> (\<open>raft/network.rs\<close>): whom Raft listens to, and the connection a call leaves behind.
    \<open>Proposing\<close> (\<open>node.rs\<close>): proposing an event through whoever leads, with retries that are bounded, and
    an answer only once it is in effect here; founding a group. \<open>Node_Roles\<close> (\<open>node.rs\<close>): a node's life as
    a step relation, voting or following and never both, with promotions that survive replays and
    restarts; a page the follow loop left behind can undo the reset of a promotion on disk. \<open>Enforcement\<close>
    (\<open>node.rs\<close>): how a membership that was applied becomes the allowlist, beside that life: while the process
    runs a replay is not enforced, but for one moment at its end.
  \<^item> \<open>Admission\<close> (\<open>distlib-net/src/allowlist.rs\<close>, \<open>hooks.rs\<close>, \<open>connections.rs\<close>): who may connect, and
    that an expulsion closes every connection. \<open>Pacing\<close> (\<open>pacer.rs\<close>): a leaky bucket.
  \<^item> \<open>Heartbeat\<close> (\<open>distlib-core/src/availability.rs\<close>): beats and base lists, which read back.
    \<open>Presence\<close> (\<open>distlib-sync/src/availability/online.rs\<close>): a member is online while its newest beat is
    believed, which is three of its own intervals. \<open>Holders\<close> (\<open>holders.rs\<close>, \<open>statement.rs\<close>): what a member
    states of its holdings and what a listener makes of it, missed beats and failed fetches included.
    \<open>Availability\<close> (\<open>heartbeat.rs\<close>) is the two loops around them, one that beats and one that listens:
    who is online and who holds what stay in step, every change is told, a goodbye is final, and one
    lost beat is not missed.
  \<^item> \<open>Catalogue\<close> (\<open>distlib-core/src/catalogue.rs\<close>): keys and items; an item is its entries, and writing
    one touches only what it sets. \<open>Community\<close> (\<open>community.rs\<close>): what members say about items, under keys
    with one spelling none of which begins another, and whose wish a wish is.
  \<^item> \<open>Document\<close> (\<open>distlib-sync/src/catalogue.rs\<close>): what is read of the replicated document and written to
    it, with a document that may fail at any entry; what a member is read to have said, that member
    wrote. \<open>Held_Items\<close> (\<open>availability.rs\<close>, \<open>ask_order.rs\<close>): which items are held, and whom to ask.
  \<^item> \<open>Read_Model\<close> (\<open>changes.rs\<close>, \<open>distlib-store/src/projection.rs\<close>, the tables of \<open>store.rs\<close>): the feed of
    changes and the projection. \<open>Read_Model_Laws\<close> follows both through every interleaving with entries
    that arrive, content that lands and members that come and go: once nothing is left to be read the rows
    are the document, and a turn of the loop in which nothing fails gets there. \<open>Catalogue_Sync\<close> (the tasks of \<open>catalogue.rs\<close>): whom the document is synced with, and the
    sweep for content nobody offered. In \<open>Read_Model_Laws\<close>, the locale \<open>rows_in_step\<close> holds the argument once, for items, bookmarks and wishes.
  \<^item> \<open>Custody_Rendezvous\<close> (\<open>distlib-core/src/custody.rs\<close>): scores, ranking and custodians. The
    quick test agrees with the ranking, the number of custodians is exact, a member that leaves
    moves only what it must, and the order of the pledges makes no difference.
  \<^item> \<open>Keeping\<close> (\<open>keeping.rs\<close>): why blobs are kept, how much there is, and what to evict. Evictions
    free what they say, spare what must stay, and are no more than needed.
  \<^item> \<open>Storage\<close> (\<open>distlib-custody/src/storage.rs\<close>, \<open>serving.rs\<close>, the tags of
    \<open>distlib-net/src/blobs.rs\<close>): making room in the store, also when the store fails halfway.
  \<^item> \<open>Settling\<close> (\<open>settling.rs\<close>): a value that is adopted once it has settled, against its history.
  \<^item> \<open>Custody_View\<close> (\<open>view.rs\<close>, \<open>service.rs\<close>, \<open>lib.rs\<close>): this node's custody kept up to date item
    by item, equal to working it out anew; the task as a step on messages.
  \<^item> \<open>Probe_Failures\<close> (\<open>failed_copies.rs\<close>, \<open>suspects.rs\<close>, \<open>coverage.rs\<close>): which failures count,
    whom they make a suspect, the evidence in a reason, and the coverage members announce.
    \<open>Probes\<close> (\<open>probes.rs\<close>, probes of \<open>distlib-net/src/blobs.rs\<close>): whom a probe asks for which chunk, and
    that what the node knows of its own failures is what the document says of them.
  \<^item> \<open>Emergency\<close> (\<open>emergency.rs\<close>): the copy of an item down to its last one, as a step relation.
  \<^item> \<open>Pins\<close> (\<open>pins.rs\<close>): the pin manager, as steps on messages: fetches match the pins, the items
    with the fewest copies go first, and custody is let go of only when it is safe.
  \<^item> \<open>Downloads\<close> (\<open>distlib-api/src/tasks.rs\<close>): the registry of downloads, in which each ends once and few
    that ended are kept. \<open>Uploads\<close> (\<open>uploads.rs\<close>): files a browser sends, held whole or not at all, and what
    \<open>library.add\<close> removes of them. \<open>Library_Download\<close> (\<open>library.download\<close> of \<open>methods.rs\<close>): where files go
    and what is fetched; what is written are the files that were not there and a hidden copy beside each,
    which is where a file can be lost. \<open>Group_Methods\<close> (\<open>methods.rs\<close>): the calls that propose, down
    to what is signed and sent. \<open>Library_Methods\<close> (\<open>methods.rs\<close>): adding an item, which leaves alone what is
    there and keeps to the node's limit and the member's pledge, and what a member says. \<open>Said_And_Read\<close> joins
    it to \<open>Document\<close>: what a member says is what readers then answer, and nobody else's words change.

  \<^bold>\<open>How code becomes definitions\<close>

  A struct is a record, an enum a datatype, a method that mutates its receiver a function from state
  to state. Errors are values of the source's error types. A panic that the source could reach by an
  index, an \<open>expect\<close> or a subtraction below zero is the value \<open>None\<close>, and theorems show that it is not
  reached. Unsigned integers are words where they are compared, added or multiplied with a bound;
  the release build's wrap-around is the words' own. Counters that cannot reach their width (turns,
  task numbers, the 128-bit totals) are natural numbers, as are instants and durations, in
  nanoseconds. Loops are structural recursion or folds over finite lists; the only ones that are
  not (binary search, selection, splitting a slice, decimal digits, binary length, the search of a
  follower) have measures, so no definition needs fuel. Tasks that run for ever are steps or turns,
  and what is said of them is said of every number of turns.

  What is not in the repository is an argument: BLAKE3 and its hexadecimal form, ed25519, postcard,
  the logarithm of libm, the printers of chrono and iroh. What the theorems need of them is a named
  hypothesis (\<open>signature_scheme\<close>, \<open>codec_ok\<close>, \<open>hex_text\<close>, \<open>texts_ok\<close>, \<open>item_json_ok\<close>, \<open>lib_ok\<close>,
  \<open>changes_ok\<close>), met by a concrete instance in each witness. What other
  tasks, channels and stores answer at an \<open>await\<close> comes with the message or the environment of a
  step, so that the theorems hold whatever they answer. Two short definitions follow the documentation of
  a library instead: \<open>par_filter_map\<close>, rayon's parallel collection of a slice in its order, and
  \<open>add_endpoint_info\<close>, iroh's lookup of addresses in memory.

  \<^bold>\<open>What modelling showed\<close>

  Theorems record where the code differs from what it says: a proposal can wait with enough
  approvals and expire by log entries rather than changes (\<open>Membership_Log\<close>), the hash of a score
  reaches one (\<open>Custody_Rendezvous\<close>), a new custodian can have an old date (\<open>Custody_View\<close>), a page of the log
  that could not be stored is taken for followed (\<open>Following\<close>), a late beat from before a restart
  brings a member back (\<open>Presence\<close>), bookmarks deleted before a stop outlive every start and an entry
  with an unknown key moves a row nobody marks (\<open>Read_Model_Laws\<close>),
  a failure whose clearing fails stays recorded (\<open>Probes\<close>), the last replayed membership of a promotion can be
  enforced, addresses announced meanwhile are dated zero and a restart forgets what was enforced (\<open>Enforcement\<close>),
  a page written after the reset of a promotion undoes it (\<open>Node_Roles\<close>), a download writes over hidden
  files beside its targets and can so lose a file it reports (\<open>Library_Download\<close>), a long download can be forgotten by its
  own ending (\<open>Downloads\<close>), uploads named after an unknown one stay (\<open>Uploads\<close>),
  a change of the core group can revert one it did not see (\<open>Group_Methods\<close>), two files can be added under one name
  (\<open>Library_Methods\<close>), and a panicked copy or fetch is forgotten in
  a way the text denies (\<open>Emergency\<close>, \<open>Pins\<close>).

  \<^bold>\<open>What is not modelled\<close>

  Raft itself (openraft), the transport (iroh), SQL and the document store are outside; so are framing,
  encodings and timeouts of exchanges. Of the repository: opening stores and directories, joining a gossip
  topic, and the order in which a node's tasks are shut down; the methods of the JSON-RPC
  interface that only list and format what is modelled here; the command
  line, which prints such answers; configuration files, keys and tickets; the search index, which is
  tantivy's; and the user interface. They are input and output, without a state of their own.

  Steps are whole calls where the code holds no lock throughout: applying entries, installing a snapshot and
  following a page change memory and disk in one step (a page of a follow loop that was stopped apart, in
  \<open>Node_Roles\<close>), a handshake admits and remembers a connection in one, and an upload is abandoned while it waits for bytes and not within a call to the disk.
  Listing an item's tags before they are released is taken to work, base lists to be within
  \<open>BASE_MAX\<close>, and nobody else to write to the directory of a download while it runs.
\<close>

end
